(* ===== verification/Prelude.thy ===== *)
theory Prelude
  imports Main "HOL-Library.Word" "HOL-Library.Monad_Syntax"
begin

text \<open>
  Shared vocabulary of the development.

  A C computation that may run into undefined behaviour (an out-of-range array access, a
  dereference of a null pointer, a failed \<^verbatim>\<open>assert\<close>, signed overflow) or that may not
  return is a value of an \<open>option\<close> type: \<open>None\<close> is that outcome, \<open>Some r\<close> is a normal return
  with result \<open>r\<close>.  A C array with its element count is a list; \<open>rd\<close> and \<open>wr\<close> are the checked
  accesses.  The identifiers of \<^verbatim>\<open>support.h\<close> (\<^verbatim>\<open>uint32_t\<close>) are natural numbers with the sentinel
  \<open>NY_INVALID\<close>; \<open>u16\<close>, \<open>u32\<close> and \<open>u64\<close> are the C conversions to the unsigned types of those widths.
\<close>

named_theorems acc_simps
named_theorems model_defs

subsection \<open>Checked array accesses\<close>

definition rd :: "'a list \<Rightarrow> nat \<Rightarrow> 'a option" where
  "rd xs i = (if i < length xs then Some (xs ! i) else None)"

definition wr :: "'a list \<Rightarrow> nat \<Rightarrow> 'a \<Rightarrow> 'a list option" where
  "wr xs i v = (if i < length xs then Some (xs[i := v]) else None)"

lemma rd_lt [simp]: "i < length xs \<Longrightarrow> rd xs i = Some (xs ! i)"
  by (simp add: rd_def)

lemma rd_ge [simp]: "\<not> i < length xs \<Longrightarrow> rd xs i = None"
  by (simp add: rd_def)

lemma wr_lt [simp]: "i < length xs \<Longrightarrow> wr xs i v = Some (xs[i := v])"
  by (simp add: wr_def)

lemma wr_ge [simp]: "\<not> i < length xs \<Longrightarrow> wr xs i v = None"
  by (simp add: wr_def)

lemma rd_eq_Some: "rd xs i = Some x \<longleftrightarrow> i < length xs \<and> xs ! i = x"
  by (auto simp: rd_def)

lemma wr_eq_Some: "wr xs i v = Some ys \<longleftrightarrow> i < length xs \<and> ys = xs[i := v]"
  by (auto simp: wr_def)

definition assert_c :: "bool \<Rightarrow> unit option" where
  "assert_c b = (if b then Some () else None)"

lemma assert_c_simps [simp]: "assert_c True = Some ()" "assert_c False = None"
  by (simp_all add: assert_c_def)

lemma assert_c_eq_Some [simp]: "assert_c b = Some u \<longleftrightarrow> b"
  by (simp add: assert_c_def)

lemma bind_Some_iff: "(Option.bind m f = Some r) \<longleftrightarrow> (\<exists>x. m = Some x \<and> f x = Some r)"
  by (cases m) auto

subsection \<open>Unsigned conversions and sentinels\<close>

definition u16 :: "nat \<Rightarrow> nat" where
  "u16 n = n mod 65536"

definition u32 :: "nat \<Rightarrow> nat" where
  "u32 n = n mod 4294967296"

definition u64 :: "nat \<Rightarrow> nat" where
  "u64 n = n mod 18446744073709551616"

lemma u16_id [simp]: "n < 65536 \<Longrightarrow> u16 n = n"
  by (simp add: u16_def)

lemma u32_id [simp]: "n < 4294967296 \<Longrightarrow> u32 n = n"
  by (simp add: u32_def)

lemma u64_id [simp]: "n < 18446744073709551616 \<Longrightarrow> u64 n = n"
  by (simp add: u64_def)

lemma u_bounds: "u16 n < 65536" "u32 n < 4294967296" "u64 n < 18446744073709551616"
  by (simp_all add: u16_def u32_def u64_def)

definition NY_INVALID :: nat where
  "NY_INVALID = 4294967295"

abbreviation (input) "NY_INVALID_VALUE \<equiv> NY_INVALID"
abbreviation (input) "NY_INVALID_INST \<equiv> NY_INVALID"
abbreviation (input) "NY_INVALID_BLOCK \<equiv> NY_INVALID"
abbreviation (input) "NY_INVALID_TYPE \<equiv> NY_INVALID"

subsection \<open>Lists used as C arrays\<close>

text \<open>Removal of the element at index \<open>i\<close> by moving the last element into its slot.\<close>

definition swap_remove :: "'a list \<Rightarrow> nat \<Rightarrow> 'a list" where
  "swap_remove xs i = butlast (xs[i := last xs])"

lemma length_swap_remove [simp]: "length (swap_remove xs i) = length xs - 1"
  by (simp add: swap_remove_def)

lemma mset_swap_remove:
  assumes "i < length xs"
  shows "set (swap_remove xs i) = set (take i xs) \<union> set (drop (Suc i) xs)"
proof (cases "Suc i = length xs")
  case True
  then have "i = length xs - 1" by simp
  then show ?thesis
    by (simp add: swap_remove_def butlast_conv_take take_update_cancel)
next
  case False
  with assms obtain ys where ys: "xs = take i xs @ xs ! i # ys @ [last xs]"
  proof -
    have "drop (Suc i) xs \<noteq> []" using False assms by simp
    then have "drop (Suc i) xs = butlast (drop (Suc i) xs) @ [last xs]"
      using append_butlast_last_id[of "drop (Suc i) xs"] by simp
    then show ?thesis using that assms by (metis id_take_nth_drop)
  qed
  have "xs[i := last xs] = take i xs @ last xs # drop (Suc i) xs"
    using assms by (simp add: upd_conv_take_nth_drop)
  moreover have "drop (Suc i) xs = ys @ [last xs]"
    using ys assms by (metis append_eq_conv_conj id_take_nth_drop list.inject same_append_eq)
  ultimately show ?thesis
    by (simp add: swap_remove_def butlast_append)
qed

text \<open>Index of the first element that satisfies a predicate, as the C search loops compute it.\<close>

fun find_index :: "('a \<Rightarrow> bool) \<Rightarrow> 'a list \<Rightarrow> nat option" where
  "find_index p [] = None"
| "find_index p (x # xs) = (if p x then Some 0 else map_option Suc (find_index p xs))"

lemma find_index_Some:
  "find_index p xs = Some i \<Longrightarrow> i < length xs \<and> p (xs ! i) \<and> (\<forall>j < i. \<not> p (xs ! j))"
  by (induction xs arbitrary: i) (auto split: if_splits simp: less_Suc_eq_0_disj)

lemma find_index_None: "find_index p xs = None \<longleftrightarrow> (\<forall>x \<in> set xs. \<not> p x)"
  by (induction xs) auto

text \<open>A left fold whose body may be undefined: a C \<^verbatim>\<open>for\<close> loop over an array.\<close>

fun foldM :: "('s \<Rightarrow> 'a \<Rightarrow> 's option) \<Rightarrow> 's \<Rightarrow> 'a list \<Rightarrow> 's option" where
  "foldM f s [] = Some s"
| "foldM f s (x # xs) = Option.bind (f s x) (\<lambda>s'. foldM f s' xs)"

lemma foldM_append: "foldM f s (xs @ ys) = Option.bind (foldM f s xs) (\<lambda>t. foldM f t ys)"
  by (induction xs arbitrary: s) (auto split: Option.bind_splits)

lemma foldM_inv:
  assumes "foldM f s xs = Some t" and "P s"
    and "\<And>s x s'. x \<in> set xs \<Longrightarrow> P s \<Longrightarrow> f s x = Some s' \<Longrightarrow> P s'"
  shows "P t"
  using assms
proof (induction xs arbitrary: s)
  case Nil
  then show ?case by simp
next
  case (Cons x xs)
  from Cons.prems(1) obtain s' where s': "f s x = Some s'" "foldM f s' xs = Some t"
    by (auto simp: bind_Some_iff)
  have "P s'" using Cons.prems(2,3) s'(1) by auto
  then show ?case by (rule Cons.IH[OF s'(2)]) (use Cons.prems(3) in auto)
qed

lemma foldM_total:
  assumes "P s"
    and "\<And>s x. x \<in> set xs \<Longrightarrow> P s \<Longrightarrow> \<exists>s'. f s x = Some s' \<and> P s'"
  shows "\<exists>t. foldM f s xs = Some t \<and> P t"
  using assms
proof (induction xs arbitrary: s)
  case Nil
  then show ?case by simp
next
  case (Cons x xs)
  from Cons.prems obtain s' where s': "f s x = Some s'" "P s'" by force
  from Cons.IH[OF s'(2)] Cons.prems(2) have "\<exists>t. foldM f s' xs = Some t \<and> P t" by simp
  with s'(1) show ?case by simp
qed

end
