(* ===== verification/Support.thy ===== *)
theory Support
  imports Prelude
begin

text \<open>
  Memory support: \<^verbatim>\<open>include/nybit/support.h\<close> and \<^verbatim>\<open>src/support/arena.c\<close>.  The allocation
  tracker, the buffer growth helper, the bump-pointer arena and the bit sets.  \<^verbatim>\<open>malloc\<close> and
  \<^verbatim>\<open>realloc\<close> are arguments: the address they return, 0 for a failure, on which the code aborts.
\<close>

subsection \<open>Allocation tracker\<close>

record mem_tracker =
  current_allocated :: nat
  peak_allocated :: nat
  total_alloc_count :: nat
  total_free_count :: nat

definition g_ny_mem_tracker :: mem_tracker where
  "g_ny_mem_tracker = \<lparr>current_allocated = 0, peak_allocated = 0, total_alloc_count = 0, total_free_count = 0\<rparr>"

definition bump_peak :: "mem_tracker \<Rightarrow> mem_tracker" where
  "bump_peak t = (if current_allocated t > peak_allocated t
                  then t\<lparr>peak_allocated := current_allocated t\<rparr> else t)"

definition ny_alloc :: "nat \<Rightarrow> nat \<Rightarrow> mem_tracker \<Rightarrow> (nat \<times> mem_tracker) option" where
  "ny_alloc m sz t =
     (if sz = 0 then Some (0, t)
      else if m = 0 then None
      else let t1 = bump_peak (t\<lparr>current_allocated := u64 (current_allocated t + sz)\<rparr>)
           in Some (m, t1\<lparr>total_alloc_count := u64 (total_alloc_count t1 + 1)\<rparr>))"

definition ny_free :: "nat \<Rightarrow> nat \<Rightarrow> mem_tracker \<Rightarrow> mem_tracker option" where
  "ny_free ptr sz t =
     (if ptr = 0 then Some t
      else if current_allocated t < sz then None
      else Some (t\<lparr>current_allocated := current_allocated t - sz,
                   total_free_count := u64 (total_free_count t + 1)\<rparr>))"

definition ny_realloc :: "nat \<Rightarrow> nat \<Rightarrow> nat \<Rightarrow> nat \<Rightarrow> mem_tracker \<Rightarrow> (nat \<times> mem_tracker) option" where
  "ny_realloc m ptr old_size new_size t =
     (if new_size = 0 then do { t' \<leftarrow> ny_free ptr old_size t; Some (0, t') }
      else if ptr = 0 then ny_alloc m new_size t
      else if m = 0 then None
      else Some (m, bump_peak (t\<lparr>current_allocated :=
              u64 (u64 (current_allocated t + new_size) + 18446744073709551616 - old_size)\<rparr>)))"


subsection \<open>Buffer growth\<close>

text \<open>The doubling loop of \<^verbatim>\<open>ny_buf_grow\<close>.  \<open>size_t\<close> wraps, so it may run forever: \<open>None\<close>.\<close>

partial_function (option) grow_cap :: "nat \<Rightarrow> nat \<Rightarrow> nat option" where
  "grow_cap count new_cap =
     (if new_cap \<le> count then grow_cap count (u64 (new_cap * 2)) else Some new_cap)"

definition ny_buf_grow ::
  "nat \<Rightarrow> nat \<times> nat \<Rightarrow> nat \<Rightarrow> nat \<Rightarrow> mem_tracker \<Rightarrow> ((nat \<times> nat) \<times> mem_tracker) option" where
  "ny_buf_grow m buf count elem_size t =
     (if count < snd buf then Some (buf, t)
      else do {
        let old_cap = snd buf;
        new_cap \<leftarrow> grow_cap count (if old_cap = 0 then 8 else u64 (old_cap * 2));
        (data, t') \<leftarrow> ny_realloc m (fst buf) (u64 (old_cap * elem_size)) (u64 (new_cap * elem_size)) t;
        Some ((data, new_cap), t')
      })"

lemma grow_cap_total:
  assumes "0 < c" "count < 9223372036854775808"
  shows "\<exists>c'. grow_cap count c = Some c' \<and> count < c' \<and> c \<le> c' \<and> c' \<le> max c (2 * count)"
  using assms(1)
proof (induction "Suc count - c" arbitrary: c rule: less_induct)
  case less
  show ?case
  proof (cases "c \<le> count")
    case False
    then show ?thesis by (simp add: grow_cap.simps[of count c])
  next
    case True
    have w: "u64 (c * 2) = c * 2" using True assms(2) by simp
    have "Suc count - c * 2 < Suc count - c" using True less.prems by simp
    from less.hyps[OF this] less.prems obtain c' where
      c': "grow_cap count (c * 2) = Some c'" "count < c'" "c * 2 \<le> c'" "c' \<le> max (c * 2) (2 * count)"
      by auto
    then show ?thesis using True w by (auto simp: grow_cap.simps[of count c])
  qed
qed

lemma grow_cap_zero: "grow_cap count 0 = None"
proof (rule ccontr)
  assume "grow_cap count 0 \<noteq> None"
  then obtain r where "grow_cap count 0 = Some r" by auto
  have "(0::nat) \<noteq> 0"
  proof (rule grow_cap.raw_induct[where P = "\<lambda>count c r. c \<noteq> 0", OF _ \<open>grow_cap count 0 = Some r\<close>])
    fix f :: "nat \<Rightarrow> nat \<Rightarrow> nat option" and count c r
    assume IH: "\<And>count c r. f count c = Some r \<Longrightarrow> c \<noteq> 0"
      and eq: "(if c \<le> count then f count (u64 (c * 2)) else Some c) = Some r"
    show "c \<noteq> 0"
    proof (cases "c \<le> count")
      case True
      with eq IH have "u64 (c * 2) \<noteq> 0" by simp
      then show ?thesis by (auto simp: u64_def)
    qed auto
  qed
  then show False by simp
qed

text \<open>
  Growth of a buffer: for every element count below \<open>2 ^ 63\<close> the helper returns, the new
  capacity is strictly larger than the count it was asked for, so that the slot \<^verbatim>\<open>data[count]\<close>
  the callers write next is inside the buffer, and it never shrinks.
\<close>

theorem ny_buf_grow_makes_room:
  assumes "count < 9223372036854775808" "cap < 9223372036854775808" "m \<noteq> 0" "0 < elem_size"
    and "2 * max count (max cap 4) * elem_size < 18446744073709551616"
    and "ptr = 0 \<longleftrightarrow> cap = 0"
  shows "\<exists>p cap' t'. ny_buf_grow m (ptr, cap) count elem_size t = Some ((p, cap'), t')
           \<and> count < cap' \<and> cap \<le> cap' \<and> p \<noteq> 0"
proof (cases "count < cap")
  case True
  then show ?thesis using assms(6) by (auto simp: ny_buf_grow_def)
next
  case False
  define c0 where "c0 = (if cap = 0 then 8 else u64 (cap * 2))"
  have c0: "c0 = (if cap = 0 then 8 else cap * 2)" using assms(2) by (simp add: c0_def)
  then have "0 < c0" by simp
  then obtain c where c: "grow_cap count c0 = Some c" "count < c" "c0 \<le> c" "c \<le> max c0 (2 * count)"
    using grow_cap_total[OF _ assms(1)] by blast
  have "c \<le> 2 * max count (max cap 4)" using c(4) c0 by (auto split: if_splits)
  then have "c * elem_size < 18446744073709551616" using assms(5)
    by (meson le_less_trans mult_le_mono1)
  moreover have "0 < c * elem_size" using c(2) assms(4) by simp
  ultimately have "u64 (c * elem_size) \<noteq> 0" by simp
  then show ?thesis
    using False c(1,2,3) c0 assms(3)
    by (auto simp: ny_buf_grow_def ny_realloc_def ny_alloc_def Let_def c0_def[symmetric] split: if_splits)
qed

theorem ny_buf_grow_makes_room_witness:
  "\<exists>p cap' t'. ny_buf_grow 4096 (64, 8) 8 4 g_ny_mem_tracker = Some ((p, cap'), t')
     \<and> 8 < cap' \<and> 8 \<le> cap' \<and> p \<noteq> 0"
  by (rule ny_buf_grow_makes_room) simp_all

subsection \<open>Arena allocator\<close>

text \<open>A block is its header's address, its capacity and its use mark; \<^verbatim>\<open>head\<close> comes first.\<close>

record arena_block =
  blk_addr :: nat
  blk_capacity :: nat
  blk_used :: nat

record ny_arena =
  arena_blocks :: "arena_block list"
  default_block_size :: nat
  total_allocated :: nat

text \<open>\<^verbatim>\<open>sizeof(Ny_Arena_Block)\<close> on an LP64 target: one pointer and two \<^verbatim>\<open>size_t\<close>.\<close>

definition sizeof_arena_block :: nat where
  "sizeof_arena_block = 24"

definition ny_arena_init :: "nat \<Rightarrow> ny_arena" where
  "ny_arena_init dflt = \<lparr>arena_blocks = [],
     default_block_size = (if dflt > 0 then dflt else 64 * 1024), total_allocated = 0\<rparr>"

definition align_forward :: "nat \<Rightarrow> nat \<Rightarrow> nat" where
  "align_forward ptr align =
     (if align \<le> 1 then ptr
      else let rem = ptr mod align in if rem = 0 then ptr else u64 (ptr + (align - rem)))"

definition arena_block_size :: "ny_arena \<Rightarrow> nat \<Rightarrow> nat \<Rightarrow> nat" where
  "arena_block_size arena sz align =
     (if u64 (sz + align) > default_block_size arena then u64 (sz + align + 64) else default_block_size arena)"

definition arena_new_block ::
  "nat \<Rightarrow> ny_arena \<Rightarrow> nat \<Rightarrow> nat \<Rightarrow> mem_tracker \<Rightarrow> (nat \<times> ny_arena \<times> mem_tracker) option" where
  "arena_new_block m arena sz align t = do {
     let block_size = arena_block_size arena sz align;
     let total_block_bytes = u64 (sizeof_arena_block + block_size);
     (addr, t') \<leftarrow> ny_alloc m total_block_bytes t;
     assert_c (addr \<noteq> 0);
     let aligned_used = align_forward 0 align;
     Some (addr + sizeof_arena_block + aligned_used,
           arena\<lparr>arena_blocks := \<lparr>blk_addr = addr, blk_capacity = block_size, blk_used = aligned_used + sz\<rparr> # arena_blocks arena,
                 total_allocated := u64 (total_allocated arena + total_block_bytes)\<rparr>, t')
   }"

definition ny_arena_alloc ::
  "nat \<Rightarrow> ny_arena \<Rightarrow> nat \<Rightarrow> nat \<Rightarrow> mem_tracker \<Rightarrow> (nat \<times> ny_arena \<times> mem_tracker) option" where
  "ny_arena_alloc m arena sz align0 t =
     (if sz = 0 then Some (0, arena, t)
      else let align = (if align0 = 0 then 8 else align0) in
        case arena_blocks arena of
          [] \<Rightarrow> arena_new_block m arena sz align t
        | cur # rest \<Rightarrow>
            let aligned_used = align_forward (blk_used cur) align
            in if u64 (aligned_used + sz) \<le> blk_capacity cur
               then Some (blk_addr cur + sizeof_arena_block + aligned_used,
                          arena\<lparr>arena_blocks := cur\<lparr>blk_used := aligned_used + sz\<rparr> # rest\<rparr>, t)
               else arena_new_block m arena sz align t)"

definition ny_arena_reset :: "ny_arena \<Rightarrow> ny_arena" where
  "ny_arena_reset arena = arena\<lparr>arena_blocks := map (\<lambda>b. b\<lparr>blk_used := 0\<rparr>) (arena_blocks arena)\<rparr>"

definition ny_arena_destroy :: "ny_arena \<Rightarrow> mem_tracker \<Rightarrow> (ny_arena \<times> mem_tracker) option" where
  "ny_arena_destroy arena t = do {
     t' \<leftarrow> foldM (\<lambda>t b. ny_free (blk_addr b) (u64 (sizeof_arena_block + blk_capacity b)) t) t (arena_blocks arena);
     Some (arena\<lparr>arena_blocks := [], total_allocated := 0\<rparr>, t')
   }"


subsection \<open>Leak accounting\<close>

text \<open>
  A run of the allocator: \<open>live\<close> maps the address of every block that is allocated and not yet
  freed to its size.  \<^verbatim>\<open>malloc\<close> and \<^verbatim>\<open>realloc\<close> return non-null addresses of no other live block, the
  clients pass the size they allocated, and the live sizes fit the address space.
\<close>

inductive mem_run :: "(nat \<rightharpoonup> nat) \<Rightarrow> mem_tracker \<Rightarrow> bool" where
  start: "mem_run Map.empty g_ny_mem_tracker"
| alloc: "mem_run live t \<Longrightarrow> 0 < sz \<Longrightarrow> m \<noteq> 0 \<Longrightarrow> live m = None \<Longrightarrow>
    current_allocated t + sz < 18446744073709551616 \<Longrightarrow>
    ny_alloc m sz t = Some (p, t') \<Longrightarrow> mem_run (live(p \<mapsto> sz)) t'"
| realloc: "mem_run live t \<Longrightarrow> live p = Some old \<Longrightarrow> 0 < new \<Longrightarrow> m \<noteq> 0 \<Longrightarrow>
    (live(p := None)) m = None \<Longrightarrow> current_allocated t + new < 18446744073709551616 \<Longrightarrow>
    ny_realloc m p old new t = Some (q, t') \<Longrightarrow> mem_run (live(p := None, q \<mapsto> new)) t'"
| free: "mem_run live t \<Longrightarrow> live p = Some sz \<Longrightarrow> ny_free p sz t = Some t' \<Longrightarrow>
    mem_run (live(p := None)) t'"

definition live_bytes :: "(nat \<rightharpoonup> nat) \<Rightarrow> nat" where
  "live_bytes live = (\<Sum>p \<in> dom live. the (live p))"

lemma live_bytes_empty [simp]: "live_bytes Map.empty = 0"
  by (simp add: live_bytes_def)

lemma live_bytes_upd: "finite (dom live) \<Longrightarrow> live p = None \<Longrightarrow> live_bytes (live(p \<mapsto> sz)) = live_bytes live + sz"
proof -
  assume f: "finite (dom live)" and n: "live p = None"
  have "(\<Sum>q \<in> dom live. the ((live(p \<mapsto> sz)) q)) = (\<Sum>q \<in> dom live. the (live q))"
    using n by (intro sum.cong) (auto simp: domIff)
  then show ?thesis using f n by (simp add: live_bytes_def domIff)
qed

lemma live_bytes_del: "finite (dom live) \<Longrightarrow> live p = Some sz \<Longrightarrow> live_bytes (live(p := None)) + sz = live_bytes live"
proof -
  assume f: "finite (dom live)" and n: "live p = Some sz"
  have e: "(live(p := None))(p \<mapsto> sz) = live" using n by auto
  have "live_bytes ((live(p := None))(p \<mapsto> sz)) = live_bytes (live(p := None)) + sz"
    by (rule live_bytes_upd) (use f in auto)
  then show ?thesis using e by simp
qed

lemma current_bump_peak [simp]: "current_allocated (bump_peak t) = current_allocated t"
  by (simp add: bump_peak_def)

lemma current_le_peak_bump [simp]: "current_allocated t \<le> peak_allocated (bump_peak t)"
  by (simp add: bump_peak_def)

lemma u64_add_sub:
  assumes "c + n < 18446744073709551616" "k \<le> c"
  shows "u64 (u64 (c + n) + 18446744073709551616 - k) = c + n - k"
proof -
  have "c + n + 18446744073709551616 - k = (c + n - k) + 18446744073709551616" using assms(2) by simp
  then have "u64 (c + n + 18446744073709551616 - k) = (c + n - k) mod 18446744073709551616"
    unfolding u64_def by (metis mod_add_self2)
  moreover have "(c + n - k) mod 18446744073709551616 = c + n - k"
    by (rule mod_less) (use assms in linarith)
  ultimately show ?thesis using assms(1) by simp
qed

lemma mem_run_inv:
  "mem_run live t \<Longrightarrow> finite (dom live) \<and> live 0 = None \<and> current_allocated t = live_bytes live
     \<and> current_allocated t \<le> peak_allocated t \<and> current_allocated t < 18446744073709551616"
proof (induction rule: mem_run.induct)
  case start
  then show ?case by (simp add: g_ny_mem_tracker_def)
next
  case (alloc live t sz m p t')
  then have "p = m" "current_allocated t' = current_allocated t + sz"
    "current_allocated t' \<le> peak_allocated t'"
    by (auto simp: ny_alloc_def Let_def bump_peak_def)
  moreover have "live_bytes (live(m \<mapsto> sz)) = live_bytes live + sz"
    using alloc by (intro live_bytes_upd) auto
  moreover have "(live(m \<mapsto> sz)) 0 = None" using alloc by simp
  ultimately show ?case using alloc by (simp del: fun_upd_apply)
next
  case (realloc live t p old new m q t')
  have p0: "p \<noteq> 0" using realloc by (metis option.distinct(1))
  have b: "live_bytes (live(p := None)) + old = live_bytes live"
    using realloc by (intro live_bytes_del) auto
  have q: "q = m" and t': "t' = bump_peak (t\<lparr>current_allocated :=
      u64 (u64 (current_allocated t + new) + 18446744073709551616 - old)\<rparr>)"
    using realloc p0 by (auto simp: ny_realloc_def)
  have "u64 (u64 (current_allocated t + new) + 18446744073709551616 - old) = current_allocated t + new - old"
    by (rule u64_add_sub) (use b realloc in auto)
  then have c: "current_allocated t' = live_bytes (live(p := None)) + new"
    using b realloc t' by simp
  have "live_bytes (live(p := None, q \<mapsto> new)) = live_bytes (live(p := None)) + new"
    by (rule live_bytes_upd) (use realloc q in auto)
  moreover have "current_allocated t' \<le> peak_allocated t'" using t' by (simp add: bump_peak_def)
  moreover have "current_allocated t' < 18446744073709551616" using c b realloc by simp
  moreover have "finite (dom (live(p := None, q \<mapsto> new)))" "(live(p := None, q \<mapsto> new)) 0 = None"
    using realloc q by auto
  ultimately show ?case using c by (simp del: fun_upd_apply)
next
  case (free live t p sz t')
  have p0: "p \<noteq> 0" using free by (metis option.distinct(1))
  have b: "live_bytes (live(p := None)) + sz = live_bytes live"
    using free by (intro live_bytes_del) auto
  moreover have "finite (dom (live(p := None)))" "(live(p := None)) 0 = None" using free by auto
  moreover have "t' = t\<lparr>current_allocated := current_allocated t - sz,
      total_free_count := u64 (total_free_count t + 1)\<rparr>"
    using free p0 by (auto simp: ny_free_def split: if_splits)
  moreover have "live_bytes live - sz = live_bytes (live(p := None))" using b by linarith
  ultimately show ?case using free by (simp del: fun_upd_apply)
qed

text \<open>
  C40. Leak accounting: along every run of allocations, reallocations and frees the tracker's
  \<^verbatim>\<open>current_allocated\<close> is exactly the number of bytes in live blocks (so it is 0 again exactly when
  nothing is live), the peak is never below it, and freeing a live block with its size never
  trips the assertion of \<^verbatim>\<open>ny_free\<close>.
\<close>

theorem mem_tracker_exact:
  assumes "mem_run live t"
  shows "current_allocated t = live_bytes live \<and> current_allocated t \<le> peak_allocated t
    \<and> (live p = Some sz \<longrightarrow> ny_free p sz t \<noteq> None)"
proof -
  from mem_run_inv[OF assms] have i: "finite (dom live)" "current_allocated t = live_bytes live"
    "current_allocated t \<le> peak_allocated t" by auto
  have "live p = Some sz \<Longrightarrow> sz \<le> live_bytes live"
    using live_bytes_del[OF i(1), of p sz] by simp
  then show ?thesis using i by (auto simp: ny_free_def)
qed

theorem mem_tracker_exact_witness:
  "\<exists>t. ny_alloc 4096 10 g_ny_mem_tracker = Some (4096, t) \<and> mem_run [4096 \<mapsto> 10] t
     \<and> current_allocated t = live_bytes [4096 \<mapsto> 10] \<and> ny_free 4096 10 t \<noteq> None"
proof -
  obtain t where t: "ny_alloc 4096 10 g_ny_mem_tracker = Some (4096, t)"
    by (simp add: ny_alloc_def Let_def)
  have r: "mem_run [4096 \<mapsto> 10] t"
    by (rule mem_run.alloc[OF mem_run.start _ _ _ _ t]) (simp_all add: g_ny_mem_tracker_def)
  show ?thesis using t r mem_tracker_exact[OF r, of 4096 10] by auto
qed

subsection \<open>Arena regions\<close>

text \<open>The data bytes of a block, and those of an allocated region.\<close>

definition blk_mem :: "arena_block \<Rightarrow> nat set" where
  "blk_mem b = {blk_addr b + sizeof_arena_block ..< blk_addr b + sizeof_arena_block + blk_capacity b}"

definition blk_live :: "arena_block \<Rightarrow> nat set" where
  "blk_live b = {blk_addr b + sizeof_arena_block ..< blk_addr b + sizeof_arena_block + blk_used b}"

definition region :: "nat \<times> nat \<Rightarrow> nat set" where
  "region r = {fst r ..< fst r + snd r}"

definition pairwise_disjoint :: "nat set list \<Rightarrow> bool" where
  "pairwise_disjoint xs = sorted_wrt (\<lambda>a b. a \<inter> b = {}) xs"

definition arena_inv :: "ny_arena \<Rightarrow> (nat \<times> nat) list \<Rightarrow> bool" where
  "arena_inv arena rs \<longleftrightarrow>
     list_all (\<lambda>b. blk_used b \<le> blk_capacity b) (arena_blocks arena)
     \<and> pairwise_disjoint (map blk_mem (arena_blocks arena))
     \<and> list_all (\<lambda>r. list_ex (\<lambda>b. region r \<subseteq> blk_live b) (arena_blocks arena)) rs
     \<and> pairwise_disjoint (map region rs)"

text \<open>What \<^verbatim>\<open>malloc\<close> promises for a request of \<open>n\<close> bytes: an address of \<open>n\<close> bytes apart from the live blocks.\<close>

definition fresh_mem :: "ny_arena \<Rightarrow> nat \<Rightarrow> nat \<Rightarrow> bool" where
  "fresh_mem arena m n \<longleftrightarrow> m \<noteq> 0 \<and> list_all (\<lambda>b. blk_mem b \<inter> {m ..< m + n} = {}) (arena_blocks arena)"

lemma align_forward_bounds:
  assumes "ptr + align < 18446744073709551616"
  shows "ptr \<le> align_forward ptr align \<and> align_forward ptr align < ptr + max align 1"
    and "0 < align \<Longrightarrow> align_forward ptr align mod align = 0"
proof -
  show "ptr \<le> align_forward ptr align \<and> align_forward ptr align < ptr + max align 1"
  proof (cases "align \<le> 1 \<or> ptr mod align = 0")
    case True
    then show ?thesis by (auto simp: align_forward_def Let_def)
  next
    case False
    then have "ptr + (align - ptr mod align) < 18446744073709551616"
      and "0 < align - ptr mod align" "align - ptr mod align < align"
      using assms by auto
    moreover have "ptr mod align < align" using False by (intro mod_less_divisor) simp
    ultimately have "align_forward ptr align = ptr + (align - ptr mod align)"
      using False by (auto simp: align_forward_def Let_def u64_def)
    then show ?thesis using False \<open>ptr mod align < align\<close> by linarith
  qed
  assume a: "0 < align"
  show "align_forward ptr align mod align = 0"
  proof (cases "align \<le> 1 \<or> ptr mod align = 0")
    case True
    then show ?thesis using a by (cases "align = 1") (auto simp: align_forward_def Let_def)
  next
    case False
    have "ptr + (align - ptr mod align) = (ptr div align + 1) * align"
      using mod_less_divisor[OF a, of ptr] div_mult_mod_eq[of ptr align]
      by (simp only: add_mult_distrib mult_1)
    then show ?thesis using False assms by (auto simp: align_forward_def Let_def)
  qed
qed

lemma align_forward_0 [simp]: "align_forward 0 align = 0"
  by (simp add: align_forward_def)


lemma arena_inv_fresh_region:
  assumes "arena_inv arena rs" "r \<in> set rs"
  shows "region r \<subseteq> \<Union> (set (map blk_live (arena_blocks arena)))"
  using assms by (fastforce simp: arena_inv_def list_all_iff list_ex_iff)

lemma blk_live_mem: "blk_used b \<le> blk_capacity b \<Longrightarrow> blk_live b \<subseteq> blk_mem b"
  by (auto simp: blk_live_def blk_mem_def)

lemma arena_bump_inv:
  assumes inv: "arena_inv arena rs" and bl: "arena_blocks arena = cur # rest"
    and u: "blk_used cur \<le> u" "u + sz \<le> blk_capacity cur"
  shows "arena_inv (arena\<lparr>arena_blocks := cur\<lparr>blk_used := u + sz\<rparr> # rest\<rparr>)
           ((blk_addr cur + sizeof_arena_block + u, sz) # rs)"
proof -
  let ?cur = "cur\<lparr>blk_used := u + sz\<rparr>"
  let ?r = "(blk_addr cur + sizeof_arena_block + u, sz)"
  have mem: "blk_mem ?cur = blk_mem cur" by (simp add: blk_mem_def)
  have live: "blk_live cur \<subseteq> blk_live ?cur" using u by (auto simp: blk_live_def)
  have rsub: "region ?r \<subseteq> blk_live ?cur \<and> region ?r \<subseteq> blk_mem cur \<and> region ?r \<inter> blk_live cur = {}"
    using u by (auto simp: region_def blk_live_def blk_mem_def)
  have old: "list_ex (\<lambda>b. region x \<subseteq> blk_live b) (?cur # rest) \<and> region ?r \<inter> region x = {}"
    if "x \<in> set rs" for x
  proof -
    from inv that bl have "list_ex (\<lambda>b. region x \<subseteq> blk_live b) (cur # rest)"
      by (simp add: arena_inv_def list_all_iff)
    then consider "region x \<subseteq> blk_live cur" | b where "b \<in> set rest" "region x \<subseteq> blk_live b"
      by (auto simp: list_ex_iff)
    then show ?thesis
    proof cases
      case 1
      then show ?thesis using live rsub by auto
    next
      case 2
      then have "blk_mem cur \<inter> blk_mem b = {}" "blk_live b \<subseteq> blk_mem b"
        using inv bl by (auto simp: arena_inv_def pairwise_disjoint_def list_all_iff blk_live_mem)
      then have "region ?r \<inter> region x = {}" using 2 rsub by fast
      then show ?thesis using 2 by (auto simp: list_ex_iff)
    qed
  qed
  show ?thesis using inv bl mem rsub old u
    by (auto simp: arena_inv_def pairwise_disjoint_def list_all_iff)
qed

lemma arena_fresh_inv:
  assumes inv: "arena_inv arena rs" and fr: "fresh_mem arena m (sizeof_arena_block + cap)"
    and sz: "sz \<le> cap"
  shows "arena_inv (arena\<lparr>arena_blocks := \<lparr>blk_addr = m, blk_capacity = cap, blk_used = sz\<rparr> # arena_blocks arena,
                          total_allocated := n\<rparr>)
           ((m + sizeof_arena_block, sz) # rs)"
proof -
  let ?b = "\<lparr>blk_addr = m, blk_capacity = cap, blk_used = sz\<rparr>"
  let ?r = "(m + sizeof_arena_block, sz)"
  have dis: "blk_mem ?b \<inter> blk_mem b = {}" if "b \<in> set (arena_blocks arena)" for b
    using fr that by (auto simp: fresh_mem_def list_all_iff blk_mem_def)
  have r: "region ?r \<subseteq> blk_live ?b \<and> region ?r \<subseteq> blk_mem ?b"
    using sz by (auto simp: region_def blk_live_def blk_mem_def)
  have "region ?r \<inter> region x = {}" if "x \<in> set rs" for x
  proof -
    have "region x \<subseteq> \<Union> (set (map blk_live (arena_blocks arena)))"
      by (rule arena_inv_fresh_region[OF inv that])
    also have "\<dots> \<subseteq> \<Union> (set (map blk_mem (arena_blocks arena)))"
      using inv blk_live_mem by (fastforce simp: arena_inv_def list_all_iff)
    finally show ?thesis using r dis by fastforce
  qed
  then show ?thesis using inv dis r sz
    by (auto simp: arena_inv_def pairwise_disjoint_def list_all_iff)
qed

text \<open>
  C39. The bump allocator: when \<^verbatim>\<open>malloc\<close>, asked for a new block, returns that many bytes apart from the arena's
  blocks, an allocation (of sizes below $2^{60}$) returns, the region
  \<open>[p, p + sz)\<close> it hands out lies inside one of the arena's blocks, overlaps no region handed out
  before, keeps the arena's invariant, and starts at a multiple of the alignment from the start
  of its block's data.
\<close>

theorem ny_arena_alloc_disjoint:
  assumes inv: "arena_inv arena rs"
    and fr: "fresh_mem arena m (sizeof_arena_block + arena_block_size arena sz (if align0 = 0 then 8 else align0))"
    and small: "0 < sz" "sz < 1152921504606846976" "align0 < 1152921504606846976"
      "default_block_size arena < 1152921504606846976"
      "list_all (\<lambda>b. blk_capacity b < 1152921504606846976) (arena_blocks arena)"
  shows "\<exists>p arena' t'. ny_arena_alloc m arena sz align0 t = Some (p, arena', t')
    \<and> arena_inv arena' ((p, sz) # rs)
    \<and> (\<exists>b \<in> set (arena_blocks arena'). region (p, sz) \<subseteq> blk_mem b
          \<and> (p - (blk_addr b + sizeof_arena_block)) mod (if align0 = 0 then 8 else align0) = 0)"
proof -
  define al where "al = (if align0 = 0 then 8 else align0)"
  have al: "0 < al" "al < 1152921504606846976" using small by (auto simp: al_def)
  define cap where "cap = arena_block_size arena sz al"
  have cap: "sz \<le> cap" "sizeof_arena_block + cap < 9223372036854775808" "u64 (sizeof_arena_block + cap) = sizeof_arena_block + cap"
    using small al by (auto simp: cap_def arena_block_size_def sizeof_arena_block_def)
  have m: "m \<noteq> 0" using fr by (simp add: fresh_mem_def)
  have fresh_case: ?thesis
    if c: "\<And>cur rest. arena_blocks arena = cur # rest \<Longrightarrow> \<not> u64 (align_forward (blk_used cur) al + sz) \<le> blk_capacity cur"
  proof -
    let ?b = "\<lparr>blk_addr = m, blk_capacity = cap, blk_used = sz\<rparr>"
    obtain t' where t': "ny_alloc m (sizeof_arena_block + cap) t = Some (m, t')"
      using m cap(1) small(1) by (auto simp: ny_alloc_def Let_def)
    let ?a = "arena\<lparr>arena_blocks := ?b # arena_blocks arena,
        total_allocated := u64 (total_allocated arena + (sizeof_arena_block + cap))\<rparr>"
    have "arena_new_block m arena sz al t = Some (m + sizeof_arena_block, ?a, t')"
      using t' m cap(3) by (simp add: arena_new_block_def Let_def cap_def[symmetric] del: One_nat_def)
    then have "ny_arena_alloc m arena sz align0 t = Some (m + sizeof_arena_block, ?a, t')"
      using small(1) c
      by (auto simp: ny_arena_alloc_def al_def[symmetric] Let_def split: list.split)
    moreover have "arena_inv ?a ((m + sizeof_arena_block, sz) # rs)"
      using arena_fresh_inv[OF inv _ cap(1)] fr by (simp add: cap_def al_def)
    moreover have "region (m + sizeof_arena_block, sz) \<subseteq> blk_mem ?b"
      using cap(1) by (auto simp: region_def blk_mem_def)
    ultimately show ?thesis by (auto simp: al_def[symmetric])
  qed
  show ?thesis
  proof (cases "arena_blocks arena")
    case Nil
    then show ?thesis by (intro fresh_case) simp
  next
    case (Cons cur rest)
    let ?u = "align_forward (blk_used cur) al"
    have uc: "blk_used cur \<le> blk_capacity cur" "blk_capacity cur < 1152921504606846976"
      using inv small(5) Cons by (auto simp: arena_inv_def)
    then have "blk_used cur + al < 18446744073709551616" using al by simp
    then have u: "blk_used cur \<le> ?u" "?u < blk_used cur + al" "?u mod al = 0"
      using align_forward_bounds[of "blk_used cur" al] al by auto
    have w: "u64 (?u + sz) = ?u + sz" using u uc al small by simp
    show ?thesis
    proof (cases "?u + sz \<le> blk_capacity cur")
      case True
      let ?c = "cur\<lparr>blk_used := ?u + sz\<rparr>"
      have "ny_arena_alloc m arena sz align0 t = Some (blk_addr cur + sizeof_arena_block + ?u,
          arena\<lparr>arena_blocks := ?c # rest\<rparr>, t)"
        using small(1) Cons True w by (auto simp: ny_arena_alloc_def al_def[symmetric] Let_def)
      moreover note arena_bump_inv[OF inv Cons u(1) True]
      moreover have "region (blk_addr cur + sizeof_arena_block + ?u, sz) \<subseteq> blk_mem ?c"
        using True by (auto simp: region_def blk_mem_def)
      ultimately show ?thesis using u(3) by (auto simp: al_def[symmetric])
    next
      case False
      then show ?thesis using w Cons by (intro fresh_case) auto
    qed
  qed
qed

text \<open>An arena whose block has four bytes left: ten bytes go to a new block, apart from the region of the old one.\<close>

theorem ny_arena_alloc_disjoint_witness:
  "\<exists>p arena' t'. ny_arena_alloc 8192 \<lparr>arena_blocks = [\<lparr>blk_addr = 4096, blk_capacity = 64, blk_used = 60\<rparr>], default_block_size = 64, total_allocated = 88\<rparr>
      10 8 g_ny_mem_tracker = Some (p, arena', t')
    \<and> arena_inv arena' [(p, 10), (4096 + sizeof_arena_block, 60)]
    \<and> (\<exists>b \<in> set (arena_blocks arena'). region (p, 10) \<subseteq> blk_mem b
          \<and> (p - (blk_addr b + sizeof_arena_block)) mod (if (8::nat) = 0 then 8 else 8) = 0)"
  by (rule ny_arena_alloc_disjoint)
    (simp_all add: arena_inv_def fresh_mem_def pairwise_disjoint_def arena_block_size_def region_def blk_live_def blk_mem_def sizeof_arena_block_def)

text \<open>
  Destroying an arena gives back exactly the bytes its blocks took from the tracker.
\<close>

theorem ny_arena_destroy_releases:
  assumes "\<forall>b \<in> set (arena_blocks arena). blk_addr b \<noteq> 0 \<and> sizeof_arena_block + blk_capacity b < 18446744073709551616"
    and "(\<Sum>b \<leftarrow> arena_blocks arena. sizeof_arena_block + blk_capacity b) \<le> current_allocated t"
  shows "\<exists>arena' t'. ny_arena_destroy arena t = Some (arena', t') \<and> arena_blocks arena' = []
    \<and> current_allocated t' + (\<Sum>b \<leftarrow> arena_blocks arena. sizeof_arena_block + blk_capacity b) = current_allocated t"
proof -
  have "\<exists>t'. foldM (\<lambda>t b. ny_free (blk_addr b) (u64 (sizeof_arena_block + blk_capacity b)) t) t bs = Some t'
      \<and> current_allocated t' + (\<Sum>b \<leftarrow> bs. sizeof_arena_block + blk_capacity b) = current_allocated t"
    if "\<forall>b \<in> set bs. blk_addr b \<noteq> 0 \<and> sizeof_arena_block + blk_capacity b < 18446744073709551616"
      "(\<Sum>b \<leftarrow> bs. sizeof_arena_block + blk_capacity b) \<le> current_allocated t" for bs
    using that
  proof (induction bs arbitrary: t)
    case Nil
    then show ?case by simp
  next
    case (Cons b bs)
    define t1 where "t1 = t\<lparr>current_allocated := current_allocated t - (sizeof_arena_block + blk_capacity b),
        total_free_count := u64 (total_free_count t + 1)\<rparr>"
    have f: "ny_free (blk_addr b) (u64 (sizeof_arena_block + blk_capacity b)) t = Some t1"
      using Cons.prems by (simp add: ny_free_def t1_def)
    have "\<exists>t'. foldM (\<lambda>t b. ny_free (blk_addr b) (u64 (sizeof_arena_block + blk_capacity b)) t) t1 bs = Some t'
      \<and> current_allocated t' + (\<Sum>b \<leftarrow> bs. sizeof_arena_block + blk_capacity b) = current_allocated t1"
      using Cons.prems by (intro Cons.IH) (auto simp: t1_def)
    then show ?case using f Cons.prems by (auto simp: t1_def)
  qed
  from this[OF assms] show ?thesis by (auto simp: ny_arena_destroy_def)
qed

theorem ny_arena_destroy_releases_witness:
  "\<exists>arena' t'. ny_arena_destroy
      \<lparr>arena_blocks = [\<lparr>blk_addr = 4096, blk_capacity = 64, blk_used = 8\<rparr>], default_block_size = 64, total_allocated = 88\<rparr>
      (g_ny_mem_tracker\<lparr>current_allocated := 100\<rparr>) = Some (arena', t')
    \<and> arena_blocks arena' = [] \<and> current_allocated t' + 88 = 100"
  using ny_arena_destroy_releases[of
      "\<lparr>arena_blocks = [\<lparr>blk_addr = 4096, blk_capacity = 64, blk_used = 8\<rparr>], default_block_size = 64, total_allocated = 88\<rparr>"
      "g_ny_mem_tracker\<lparr>current_allocated := 100\<rparr>"]
  by (simp add: sizeof_arena_block_def)


subsection \<open>Bit sets\<close>

unbundle bit_operations_syntax

definition bitset_index :: "nat \<Rightarrow> nat \<Rightarrow> nat \<Rightarrow> nat" where
  "bitset_index words_per_block blk val = blk * words_per_block + val div 64"

definition ny_bitset_set :: "64 word list \<Rightarrow> nat \<Rightarrow> nat \<Rightarrow> nat \<Rightarrow> 64 word list option" where
  "ny_bitset_set bits words_per_block blk val = do {
     let idx = bitset_index words_per_block blk val;
     w \<leftarrow> rd bits idx;
     wr bits idx (w OR push_bit (val mod 64) 1)
   }"

definition ny_bitset_test :: "64 word list \<Rightarrow> nat \<Rightarrow> nat \<Rightarrow> nat \<Rightarrow> bool option" where
  "ny_bitset_test bits words_per_block blk val = do {
     w \<leftarrow> rd bits (bitset_index words_per_block blk val);
     Some (w AND push_bit (val mod 64) 1 \<noteq> 0)
   }"

lemma ny_bitset_test_bit:
  "ny_bitset_test bits wpb b v =
     map_option (\<lambda>w. bit w (v mod 64)) (rd bits (bitset_index wpb b v))"
  by (cases "rd bits (bitset_index wpb b v)") (auto simp: ny_bitset_test_def bit_iff_and_push_bit_not_eq_0)

lemma bit_or_push_1:
  "m < 64 \<Longrightarrow> bit ((w :: 64 word) OR 2 ^ n) m \<longleftrightarrow> bit w m \<or> m = n"
  by (auto simp: bit_or_iff bit_exp_iff)

lemma bitset_index_inj:
  assumes "v < 64 * wpb" "v' < 64 * wpb" "bitset_index wpb b v = bitset_index wpb b' v'"
  shows "b = b' \<and> v div 64 = v' div 64"
proof -
  have "v div 64 < wpb" "v' div 64 < wpb" using assms by auto
  then have "(b * wpb + v div 64) div wpb = b" "(b' * wpb + v' div 64) div wpb = b'"
    by (simp_all add: div_mult_self3)
  then show ?thesis using assms(3) by (auto simp: bitset_index_def)
qed

lemma bitset_index_bound:
  assumes "b < n" "v < 64 * wpb"
  shows "bitset_index wpb b v < n * wpb"
proof -
  have "v div 64 < wpb" using assms(2) by auto
  then have "bitset_index wpb b v < Suc b * wpb" by (simp add: bitset_index_def)
  also have "\<dots> \<le> n * wpb" using assms(1) by (intro mult_le_mono1) simp
  finally show ?thesis .
qed

text \<open>
  The bit sets are sets: after inserting \<open>(blk, val)\<close> into \<open>n\<close> rows of \<open>wpb\<close> words, membership
  holds for that pair and is unchanged for every other pair in range, and no access leaves the
  array.
\<close>

theorem ny_bitset_set_spec:
  assumes "length bits = n * wpb" "blk < n" "val < 64 * wpb" "blk' < n" "val' < 64 * wpb"
  shows "\<exists>bits' r. ny_bitset_set bits wpb blk val = Some bits' \<and> length bits' = length bits
    \<and> ny_bitset_test bits wpb blk' val' = Some r
    \<and> ny_bitset_test bits' wpb blk' val' = Some (r \<or> (blk' = blk \<and> val' = val))"
proof -
  let ?i = "bitset_index wpb blk val" and ?j = "bitset_index wpb blk' val'"
  have i: "?i < length bits" "?j < length bits" using assms by (simp_all add: bitset_index_bound)
  let ?bits' = "bits[?i := bits ! ?i OR push_bit (val mod 64) 1]"
  have set: "ny_bitset_set bits wpb blk val = Some ?bits'"
    using i by (simp add: ny_bitset_set_def Let_def)
  have m: "val' mod 64 < 64" by simp
  have "bit (?bits' ! ?j) (val' mod 64) \<longleftrightarrow> bit (bits ! ?j) (val' mod 64) \<or> (?i = ?j \<and> val' mod 64 = val mod 64)"
    using i by (cases "?i = ?j") (simp_all add: bit_or_push_1[OF m])
  moreover have "(?i = ?j \<and> val' mod 64 = val mod 64) \<longleftrightarrow> (blk' = blk \<and> val' = val)"
  proof
    assume "?i = ?j \<and> val' mod 64 = val mod 64"
    moreover from this have "blk = blk' \<and> val div 64 = val' div 64"
      using assms bitset_index_inj by blast
    ultimately show "blk' = blk \<and> val' = val" by (metis div_mult_mod_eq)
  qed simp
  ultimately show ?thesis using set i by (simp add: ny_bitset_test_bit)
qed

theorem ny_bitset_set_spec_witness:
  "\<exists>bits' r. ny_bitset_set [0, 0] 1 1 5 = Some bits' \<and> length bits' = length [0, 0 :: 64 word]
    \<and> ny_bitset_test [0, 0] 1 1 6 = Some r
    \<and> ny_bitset_test bits' 1 1 6 = Some (r \<or> ((1::nat) = 1 \<and> (6::nat) = 5))"
  by (rule ny_bitset_set_spec[of _ 2]) simp_all

end
