(* ===== verification/Opcodes.thy ===== *)
theory Opcodes
  imports Prelude
begin

text \<open>
  The opcodes of the intermediate representation: the enumeration of \<^verbatim>\<open>include/nybit/ir.h\<close>, their
  mnemonics and the terminator test of \<^verbatim>\<open>src/ir/instruction.c\<close>, and the table by which the parser
  (\<^verbatim>\<open>lookup_opcode\<close> of \<^verbatim>\<open>src/parser/parser.c\<close>) reads a mnemonic back.
\<close>

subsection \<open>The enumeration\<close>

datatype (plugins only: size) ny_opcode =
    NY_OPCODE_NONE
  | NY_OPCODE_CONST
  | NY_OPCODE_CONST_NULL
  | NY_OPCODE_ADD
  | NY_OPCODE_SUB
  | NY_OPCODE_MUL
  | NY_OPCODE_DIV_S
  | NY_OPCODE_DIV_U
  | NY_OPCODE_REM_S
  | NY_OPCODE_REM_U
  | NY_OPCODE_NEG
  | NY_OPCODE_FADD
  | NY_OPCODE_FSUB
  | NY_OPCODE_FMUL
  | NY_OPCODE_FDIV
  | NY_OPCODE_FREM
  | NY_OPCODE_FNEG
  | NY_OPCODE_AND
  | NY_OPCODE_OR
  | NY_OPCODE_XOR
  | NY_OPCODE_NOT
  | NY_OPCODE_SHL
  | NY_OPCODE_SHR
  | NY_OPCODE_SAR
  | NY_OPCODE_ROTL
  | NY_OPCODE_ROTR
  | NY_OPCODE_CMP_EQ
  | NY_OPCODE_CMP_NE
  | NY_OPCODE_CMP_LT_S
  | NY_OPCODE_CMP_LT_U
  | NY_OPCODE_CMP_LE_S
  | NY_OPCODE_CMP_LE_U
  | NY_OPCODE_CMP_GT_S
  | NY_OPCODE_CMP_GT_U
  | NY_OPCODE_CMP_GE_S
  | NY_OPCODE_CMP_GE_U
  | NY_OPCODE_FCMP_EQ
  | NY_OPCODE_FCMP_NE
  | NY_OPCODE_FCMP_LT
  | NY_OPCODE_FCMP_LE
  | NY_OPCODE_FCMP_GT
  | NY_OPCODE_FCMP_GE
  | NY_OPCODE_SELECT
  | NY_OPCODE_ADDR
  | NY_OPCODE_ADDR_OFFSET
  | NY_OPCODE_GLOBAL_ADDR
  | NY_OPCODE_LOAD
  | NY_OPCODE_STORE
  | NY_OPCODE_STACK_SLOT
  | NY_OPCODE_STACK_ADDR
  | NY_OPCODE_ATOMIC_LOAD
  | NY_OPCODE_ATOMIC_STORE
  | NY_OPCODE_ATOMIC_RMW
  | NY_OPCODE_ATOMIC_CMPXCHG
  | NY_OPCODE_FENCE
  | NY_OPCODE_CAST
  | NY_OPCODE_EXTEND
  | NY_OPCODE_TRUNCATE
  | NY_OPCODE_BITCAST
  | NY_OPCODE_SEXT
  | NY_OPCODE_ZEXT
  | NY_OPCODE_FEXT
  | NY_OPCODE_FTRUNC
  | NY_OPCODE_SITOFP
  | NY_OPCODE_UITOFP
  | NY_OPCODE_FPTOSI
  | NY_OPCODE_FPTOUI
  | NY_OPCODE_VADD
  | NY_OPCODE_VSUB
  | NY_OPCODE_VMUL
  | NY_OPCODE_VDIV
  | NY_OPCODE_VAND
  | NY_OPCODE_VOR
  | NY_OPCODE_VXOR
  | NY_OPCODE_VSHUFFLE
  | NY_OPCODE_BRANCH
  | NY_OPCODE_BRANCH_IF
  | NY_OPCODE_SWITCH
  | NY_OPCODE_RETURN
  | NY_OPCODE_TRAP
  | NY_OPCODE_CALL
  | NY_OPCODE_CALL_INDIRECT
  | NY_OPCODE_PHI
  | NY_OPCODE_COUNT

text \<open>The value an opcode has as a C integer.\<close>

fun opcode_num :: "ny_opcode \<Rightarrow> nat" where
  "opcode_num NY_OPCODE_NONE = 0"
| "opcode_num NY_OPCODE_CONST = 1"
| "opcode_num NY_OPCODE_CONST_NULL = 2"
| "opcode_num NY_OPCODE_ADD = 3"
| "opcode_num NY_OPCODE_SUB = 4"
| "opcode_num NY_OPCODE_MUL = 5"
| "opcode_num NY_OPCODE_DIV_S = 6"
| "opcode_num NY_OPCODE_DIV_U = 7"
| "opcode_num NY_OPCODE_REM_S = 8"
| "opcode_num NY_OPCODE_REM_U = 9"
| "opcode_num NY_OPCODE_NEG = 10"
| "opcode_num NY_OPCODE_FADD = 11"
| "opcode_num NY_OPCODE_FSUB = 12"
| "opcode_num NY_OPCODE_FMUL = 13"
| "opcode_num NY_OPCODE_FDIV = 14"
| "opcode_num NY_OPCODE_FREM = 15"
| "opcode_num NY_OPCODE_FNEG = 16"
| "opcode_num NY_OPCODE_AND = 17"
| "opcode_num NY_OPCODE_OR = 18"
| "opcode_num NY_OPCODE_XOR = 19"
| "opcode_num NY_OPCODE_NOT = 20"
| "opcode_num NY_OPCODE_SHL = 21"
| "opcode_num NY_OPCODE_SHR = 22"
| "opcode_num NY_OPCODE_SAR = 23"
| "opcode_num NY_OPCODE_ROTL = 24"
| "opcode_num NY_OPCODE_ROTR = 25"
| "opcode_num NY_OPCODE_CMP_EQ = 26"
| "opcode_num NY_OPCODE_CMP_NE = 27"
| "opcode_num NY_OPCODE_CMP_LT_S = 28"
| "opcode_num NY_OPCODE_CMP_LT_U = 29"
| "opcode_num NY_OPCODE_CMP_LE_S = 30"
| "opcode_num NY_OPCODE_CMP_LE_U = 31"
| "opcode_num NY_OPCODE_CMP_GT_S = 32"
| "opcode_num NY_OPCODE_CMP_GT_U = 33"
| "opcode_num NY_OPCODE_CMP_GE_S = 34"
| "opcode_num NY_OPCODE_CMP_GE_U = 35"
| "opcode_num NY_OPCODE_FCMP_EQ = 36"
| "opcode_num NY_OPCODE_FCMP_NE = 37"
| "opcode_num NY_OPCODE_FCMP_LT = 38"
| "opcode_num NY_OPCODE_FCMP_LE = 39"
| "opcode_num NY_OPCODE_FCMP_GT = 40"
| "opcode_num NY_OPCODE_FCMP_GE = 41"
| "opcode_num NY_OPCODE_SELECT = 42"
| "opcode_num NY_OPCODE_ADDR = 43"
| "opcode_num NY_OPCODE_ADDR_OFFSET = 44"
| "opcode_num NY_OPCODE_GLOBAL_ADDR = 45"
| "opcode_num NY_OPCODE_LOAD = 46"
| "opcode_num NY_OPCODE_STORE = 47"
| "opcode_num NY_OPCODE_STACK_SLOT = 48"
| "opcode_num NY_OPCODE_STACK_ADDR = 49"
| "opcode_num NY_OPCODE_ATOMIC_LOAD = 50"
| "opcode_num NY_OPCODE_ATOMIC_STORE = 51"
| "opcode_num NY_OPCODE_ATOMIC_RMW = 52"
| "opcode_num NY_OPCODE_ATOMIC_CMPXCHG = 53"
| "opcode_num NY_OPCODE_FENCE = 54"
| "opcode_num NY_OPCODE_CAST = 55"
| "opcode_num NY_OPCODE_EXTEND = 56"
| "opcode_num NY_OPCODE_TRUNCATE = 57"
| "opcode_num NY_OPCODE_BITCAST = 58"
| "opcode_num NY_OPCODE_SEXT = 59"
| "opcode_num NY_OPCODE_ZEXT = 60"
| "opcode_num NY_OPCODE_FEXT = 61"
| "opcode_num NY_OPCODE_FTRUNC = 62"
| "opcode_num NY_OPCODE_SITOFP = 63"
| "opcode_num NY_OPCODE_UITOFP = 64"
| "opcode_num NY_OPCODE_FPTOSI = 65"
| "opcode_num NY_OPCODE_FPTOUI = 66"
| "opcode_num NY_OPCODE_VADD = 67"
| "opcode_num NY_OPCODE_VSUB = 68"
| "opcode_num NY_OPCODE_VMUL = 69"
| "opcode_num NY_OPCODE_VDIV = 70"
| "opcode_num NY_OPCODE_VAND = 71"
| "opcode_num NY_OPCODE_VOR = 72"
| "opcode_num NY_OPCODE_VXOR = 73"
| "opcode_num NY_OPCODE_VSHUFFLE = 74"
| "opcode_num NY_OPCODE_BRANCH = 75"
| "opcode_num NY_OPCODE_BRANCH_IF = 76"
| "opcode_num NY_OPCODE_SWITCH = 77"
| "opcode_num NY_OPCODE_RETURN = 78"
| "opcode_num NY_OPCODE_TRAP = 79"
| "opcode_num NY_OPCODE_CALL = 80"
| "opcode_num NY_OPCODE_CALL_INDIRECT = 81"
| "opcode_num NY_OPCODE_PHI = 82"
| "opcode_num NY_OPCODE_COUNT = 83"

definition all_opcodes :: "ny_opcode list" where
  "all_opcodes = [
     NY_OPCODE_NONE, NY_OPCODE_CONST, NY_OPCODE_CONST_NULL, NY_OPCODE_ADD,
     NY_OPCODE_SUB, NY_OPCODE_MUL, NY_OPCODE_DIV_S, NY_OPCODE_DIV_U,
     NY_OPCODE_REM_S, NY_OPCODE_REM_U, NY_OPCODE_NEG, NY_OPCODE_FADD,
     NY_OPCODE_FSUB, NY_OPCODE_FMUL, NY_OPCODE_FDIV, NY_OPCODE_FREM,
     NY_OPCODE_FNEG, NY_OPCODE_AND, NY_OPCODE_OR, NY_OPCODE_XOR,
     NY_OPCODE_NOT, NY_OPCODE_SHL, NY_OPCODE_SHR, NY_OPCODE_SAR,
     NY_OPCODE_ROTL, NY_OPCODE_ROTR, NY_OPCODE_CMP_EQ, NY_OPCODE_CMP_NE,
     NY_OPCODE_CMP_LT_S, NY_OPCODE_CMP_LT_U, NY_OPCODE_CMP_LE_S, NY_OPCODE_CMP_LE_U,
     NY_OPCODE_CMP_GT_S, NY_OPCODE_CMP_GT_U, NY_OPCODE_CMP_GE_S, NY_OPCODE_CMP_GE_U,
     NY_OPCODE_FCMP_EQ, NY_OPCODE_FCMP_NE, NY_OPCODE_FCMP_LT, NY_OPCODE_FCMP_LE,
     NY_OPCODE_FCMP_GT, NY_OPCODE_FCMP_GE, NY_OPCODE_SELECT, NY_OPCODE_ADDR,
     NY_OPCODE_ADDR_OFFSET, NY_OPCODE_GLOBAL_ADDR, NY_OPCODE_LOAD, NY_OPCODE_STORE,
     NY_OPCODE_STACK_SLOT, NY_OPCODE_STACK_ADDR, NY_OPCODE_ATOMIC_LOAD, NY_OPCODE_ATOMIC_STORE,
     NY_OPCODE_ATOMIC_RMW, NY_OPCODE_ATOMIC_CMPXCHG, NY_OPCODE_FENCE, NY_OPCODE_CAST,
     NY_OPCODE_EXTEND, NY_OPCODE_TRUNCATE, NY_OPCODE_BITCAST, NY_OPCODE_SEXT,
     NY_OPCODE_ZEXT, NY_OPCODE_FEXT, NY_OPCODE_FTRUNC, NY_OPCODE_SITOFP,
     NY_OPCODE_UITOFP, NY_OPCODE_FPTOSI, NY_OPCODE_FPTOUI, NY_OPCODE_VADD,
     NY_OPCODE_VSUB, NY_OPCODE_VMUL, NY_OPCODE_VDIV, NY_OPCODE_VAND,
     NY_OPCODE_VOR, NY_OPCODE_VXOR, NY_OPCODE_VSHUFFLE, NY_OPCODE_BRANCH,
     NY_OPCODE_BRANCH_IF, NY_OPCODE_SWITCH, NY_OPCODE_RETURN, NY_OPCODE_TRAP,
     NY_OPCODE_CALL, NY_OPCODE_CALL_INDIRECT, NY_OPCODE_PHI, NY_OPCODE_COUNT]"

definition opcode_of_num :: "nat \<Rightarrow> ny_opcode option" where
  "opcode_of_num n = rd all_opcodes n"

subsection \<open>Mnemonics\<close>

fun ny_opcode_name :: "ny_opcode \<Rightarrow> string" where
  "ny_opcode_name NY_OPCODE_NONE = ''none''"
| "ny_opcode_name NY_OPCODE_CONST = ''const''"
| "ny_opcode_name NY_OPCODE_CONST_NULL = ''const_null''"
| "ny_opcode_name NY_OPCODE_ADD = ''add''"
| "ny_opcode_name NY_OPCODE_SUB = ''sub''"
| "ny_opcode_name NY_OPCODE_MUL = ''mul''"
| "ny_opcode_name NY_OPCODE_DIV_S = ''div.s''"
| "ny_opcode_name NY_OPCODE_DIV_U = ''div.u''"
| "ny_opcode_name NY_OPCODE_REM_S = ''rem.s''"
| "ny_opcode_name NY_OPCODE_REM_U = ''rem.u''"
| "ny_opcode_name NY_OPCODE_NEG = ''neg''"
| "ny_opcode_name NY_OPCODE_FADD = ''fadd''"
| "ny_opcode_name NY_OPCODE_FSUB = ''fsub''"
| "ny_opcode_name NY_OPCODE_FMUL = ''fmul''"
| "ny_opcode_name NY_OPCODE_FDIV = ''fdiv''"
| "ny_opcode_name NY_OPCODE_FREM = ''frem''"
| "ny_opcode_name NY_OPCODE_FNEG = ''fneg''"
| "ny_opcode_name NY_OPCODE_AND = ''and''"
| "ny_opcode_name NY_OPCODE_OR = ''or''"
| "ny_opcode_name NY_OPCODE_XOR = ''xor''"
| "ny_opcode_name NY_OPCODE_NOT = ''not''"
| "ny_opcode_name NY_OPCODE_SHL = ''shl''"
| "ny_opcode_name NY_OPCODE_SHR = ''shr''"
| "ny_opcode_name NY_OPCODE_SAR = ''sar''"
| "ny_opcode_name NY_OPCODE_ROTL = ''rotl''"
| "ny_opcode_name NY_OPCODE_ROTR = ''rotr''"
| "ny_opcode_name NY_OPCODE_CMP_EQ = ''cmp.eq''"
| "ny_opcode_name NY_OPCODE_CMP_NE = ''cmp.ne''"
| "ny_opcode_name NY_OPCODE_CMP_LT_S = ''cmp.lt.s''"
| "ny_opcode_name NY_OPCODE_CMP_LT_U = ''cmp.lt.u''"
| "ny_opcode_name NY_OPCODE_CMP_LE_S = ''cmp.le.s''"
| "ny_opcode_name NY_OPCODE_CMP_LE_U = ''cmp.le.u''"
| "ny_opcode_name NY_OPCODE_CMP_GT_S = ''cmp.gt.s''"
| "ny_opcode_name NY_OPCODE_CMP_GT_U = ''cmp.gt.u''"
| "ny_opcode_name NY_OPCODE_CMP_GE_S = ''cmp.ge.s''"
| "ny_opcode_name NY_OPCODE_CMP_GE_U = ''cmp.ge.u''"
| "ny_opcode_name NY_OPCODE_FCMP_EQ = ''fcmp.eq''"
| "ny_opcode_name NY_OPCODE_FCMP_NE = ''fcmp.ne''"
| "ny_opcode_name NY_OPCODE_FCMP_LT = ''fcmp.lt''"
| "ny_opcode_name NY_OPCODE_FCMP_LE = ''fcmp.le''"
| "ny_opcode_name NY_OPCODE_FCMP_GT = ''fcmp.gt''"
| "ny_opcode_name NY_OPCODE_FCMP_GE = ''fcmp.ge''"
| "ny_opcode_name NY_OPCODE_SELECT = ''select''"
| "ny_opcode_name NY_OPCODE_ADDR = ''addr''"
| "ny_opcode_name NY_OPCODE_ADDR_OFFSET = ''addr_offset''"
| "ny_opcode_name NY_OPCODE_GLOBAL_ADDR = ''global_addr''"
| "ny_opcode_name NY_OPCODE_LOAD = ''load''"
| "ny_opcode_name NY_OPCODE_STORE = ''store''"
| "ny_opcode_name NY_OPCODE_STACK_SLOT = ''stack_slot''"
| "ny_opcode_name NY_OPCODE_STACK_ADDR = ''stack_addr''"
| "ny_opcode_name NY_OPCODE_ATOMIC_LOAD = ''atomic_load''"
| "ny_opcode_name NY_OPCODE_ATOMIC_STORE = ''atomic_store''"
| "ny_opcode_name NY_OPCODE_ATOMIC_RMW = ''atomic_rmw''"
| "ny_opcode_name NY_OPCODE_ATOMIC_CMPXCHG = ''atomic_cmpxchg''"
| "ny_opcode_name NY_OPCODE_FENCE = ''fence''"
| "ny_opcode_name NY_OPCODE_CAST = ''cast''"
| "ny_opcode_name NY_OPCODE_EXTEND = ''extend''"
| "ny_opcode_name NY_OPCODE_TRUNCATE = ''truncate''"
| "ny_opcode_name NY_OPCODE_BITCAST = ''bitcast''"
| "ny_opcode_name NY_OPCODE_SEXT = ''sext''"
| "ny_opcode_name NY_OPCODE_ZEXT = ''zext''"
| "ny_opcode_name NY_OPCODE_FEXT = ''fext''"
| "ny_opcode_name NY_OPCODE_FTRUNC = ''ftrunc''"
| "ny_opcode_name NY_OPCODE_SITOFP = ''sitofp''"
| "ny_opcode_name NY_OPCODE_UITOFP = ''uitofp''"
| "ny_opcode_name NY_OPCODE_FPTOSI = ''fptosi''"
| "ny_opcode_name NY_OPCODE_FPTOUI = ''fptoui''"
| "ny_opcode_name NY_OPCODE_VADD = ''vadd''"
| "ny_opcode_name NY_OPCODE_VSUB = ''vsub''"
| "ny_opcode_name NY_OPCODE_VMUL = ''vmul''"
| "ny_opcode_name NY_OPCODE_VDIV = ''vdiv''"
| "ny_opcode_name NY_OPCODE_VAND = ''vand''"
| "ny_opcode_name NY_OPCODE_VOR = ''vor''"
| "ny_opcode_name NY_OPCODE_VXOR = ''vxor''"
| "ny_opcode_name NY_OPCODE_VSHUFFLE = ''vshuffle''"
| "ny_opcode_name NY_OPCODE_BRANCH = ''@branch''"
| "ny_opcode_name NY_OPCODE_BRANCH_IF = ''@branch_if''"
| "ny_opcode_name NY_OPCODE_SWITCH = ''@switch''"
| "ny_opcode_name NY_OPCODE_RETURN = ''@return''"
| "ny_opcode_name NY_OPCODE_TRAP = ''@trap''"
| "ny_opcode_name NY_OPCODE_CALL = ''call''"
| "ny_opcode_name NY_OPCODE_CALL_INDIRECT = ''call_indirect''"
| "ny_opcode_name NY_OPCODE_PHI = ''phi''"
| "ny_opcode_name NY_OPCODE_COUNT = ''unknown''"

definition ny_opcode_is_terminator :: "ny_opcode \<Rightarrow> bool" where
  "ny_opcode_is_terminator op = (case op of
      NY_OPCODE_BRANCH \<Rightarrow> True
    | NY_OPCODE_BRANCH_IF \<Rightarrow> True
    | NY_OPCODE_SWITCH \<Rightarrow> True
    | NY_OPCODE_RETURN \<Rightarrow> True
    | NY_OPCODE_TRAP \<Rightarrow> True
    | _ \<Rightarrow> False)"

text \<open>The chain of comparisons of \<^verbatim>\<open>lookup_opcode\<close>, one row per accepted spelling, in its order.\<close>

definition lookup_opcode_table :: "(string \<times> ny_opcode) list" where
  "lookup_opcode_table = [
     (''const'', NY_OPCODE_CONST),
     (''const_null'', NY_OPCODE_CONST_NULL),
     (''add'', NY_OPCODE_ADD),
     (''sub'', NY_OPCODE_SUB),
     (''mul'', NY_OPCODE_MUL),
     (''div.s'', NY_OPCODE_DIV_S),
     (''div'', NY_OPCODE_DIV_S),
     (''div.u'', NY_OPCODE_DIV_U),
     (''rem.s'', NY_OPCODE_REM_S),
     (''rem'', NY_OPCODE_REM_S),
     (''rem.u'', NY_OPCODE_REM_U),
     (''neg'', NY_OPCODE_NEG),
     (''fadd'', NY_OPCODE_FADD),
     (''fsub'', NY_OPCODE_FSUB),
     (''fmul'', NY_OPCODE_FMUL),
     (''fdiv'', NY_OPCODE_FDIV),
     (''frem'', NY_OPCODE_FREM),
     (''fneg'', NY_OPCODE_FNEG),
     (''and'', NY_OPCODE_AND),
     (''or'', NY_OPCODE_OR),
     (''xor'', NY_OPCODE_XOR),
     (''not'', NY_OPCODE_NOT),
     (''shl'', NY_OPCODE_SHL),
     (''shr'', NY_OPCODE_SHR),
     (''sar'', NY_OPCODE_SAR),
     (''rotl'', NY_OPCODE_ROTL),
     (''rotr'', NY_OPCODE_ROTR),
     (''cmp.eq'', NY_OPCODE_CMP_EQ),
     (''cmp.ne'', NY_OPCODE_CMP_NE),
     (''cmp.lt.s'', NY_OPCODE_CMP_LT_S),
     (''cmp.lt'', NY_OPCODE_CMP_LT_S),
     (''cmp.lt.u'', NY_OPCODE_CMP_LT_U),
     (''cmp.le.s'', NY_OPCODE_CMP_LE_S),
     (''cmp.le'', NY_OPCODE_CMP_LE_S),
     (''cmp.le.u'', NY_OPCODE_CMP_LE_U),
     (''cmp.gt.s'', NY_OPCODE_CMP_GT_S),
     (''cmp.gt'', NY_OPCODE_CMP_GT_S),
     (''cmp.gt.u'', NY_OPCODE_CMP_GT_U),
     (''cmp.ge.s'', NY_OPCODE_CMP_GE_S),
     (''cmp.ge'', NY_OPCODE_CMP_GE_S),
     (''cmp.ge.u'', NY_OPCODE_CMP_GE_U),
     (''fcmp.eq'', NY_OPCODE_FCMP_EQ),
     (''fcmp.ne'', NY_OPCODE_FCMP_NE),
     (''fcmp.lt'', NY_OPCODE_FCMP_LT),
     (''fcmp.le'', NY_OPCODE_FCMP_LE),
     (''fcmp.gt'', NY_OPCODE_FCMP_GT),
     (''fcmp.ge'', NY_OPCODE_FCMP_GE),
     (''select'', NY_OPCODE_SELECT),
     (''addr'', NY_OPCODE_ADDR),
     (''addr_offset'', NY_OPCODE_ADDR_OFFSET),
     (''global_addr'', NY_OPCODE_GLOBAL_ADDR),
     (''load'', NY_OPCODE_LOAD),
     (''store'', NY_OPCODE_STORE),
     (''stack_slot'', NY_OPCODE_STACK_SLOT),
     (''stack_addr'', NY_OPCODE_STACK_ADDR),
     (''atomic_load'', NY_OPCODE_ATOMIC_LOAD),
     (''atomic_store'', NY_OPCODE_ATOMIC_STORE),
     (''atomic_rmw'', NY_OPCODE_ATOMIC_RMW),
     (''atomic_cmpxchg'', NY_OPCODE_ATOMIC_CMPXCHG),
     (''fence'', NY_OPCODE_FENCE),
     (''cast'', NY_OPCODE_CAST),
     (''extend'', NY_OPCODE_EXTEND),
     (''truncate'', NY_OPCODE_TRUNCATE),
     (''bitcast'', NY_OPCODE_BITCAST),
     (''sext'', NY_OPCODE_SEXT),
     (''zext'', NY_OPCODE_ZEXT),
     (''fext'', NY_OPCODE_FEXT),
     (''ftrunc'', NY_OPCODE_FTRUNC),
     (''sitofp'', NY_OPCODE_SITOFP),
     (''uitofp'', NY_OPCODE_UITOFP),
     (''fptosi'', NY_OPCODE_FPTOSI),
     (''fptoui'', NY_OPCODE_FPTOUI),
     (''vadd'', NY_OPCODE_VADD),
     (''vsub'', NY_OPCODE_VSUB),
     (''vmul'', NY_OPCODE_VMUL),
     (''vdiv'', NY_OPCODE_VDIV),
     (''vand'', NY_OPCODE_VAND),
     (''vor'', NY_OPCODE_VOR),
     (''vxor'', NY_OPCODE_VXOR),
     (''vshuffle'', NY_OPCODE_VSHUFFLE),
     (''branch'', NY_OPCODE_BRANCH),
     (''@branch'', NY_OPCODE_BRANCH),
     (''branch_if'', NY_OPCODE_BRANCH_IF),
     (''@branch_if'', NY_OPCODE_BRANCH_IF),
     (''switch'', NY_OPCODE_SWITCH),
     (''@switch'', NY_OPCODE_SWITCH),
     (''return'', NY_OPCODE_RETURN),
     (''@return'', NY_OPCODE_RETURN),
     (''trap'', NY_OPCODE_TRAP),
     (''@trap'', NY_OPCODE_TRAP),
     (''call'', NY_OPCODE_CALL),
     (''call_indirect'', NY_OPCODE_CALL_INDIRECT),
     (''phi'', NY_OPCODE_PHI)]"

definition lookup_opcode :: "string \<Rightarrow> ny_opcode" where
  "lookup_opcode name = (case map_of lookup_opcode_table name of None \<Rightarrow> NY_OPCODE_NONE | Some op \<Rightarrow> op)"

subsection \<open>Enumeration facts\<close>

lemma opcode_of_num_num [simp]: "opcode_of_num (opcode_num op) = Some op"
  by (cases op) (simp_all add: opcode_of_num_def all_opcodes_def rd_def)

lemma opcode_num_inject [simp]: "opcode_num a = opcode_num b \<longleftrightarrow> a = b"
  by (metis opcode_of_num_num option.inject)

lemma opcode_num_less: "opcode_num op < 84"
  by (cases op) simp_all

text \<open>Opcodes are compared by value and ordered as the enumeration is.\<close>

instantiation ny_opcode :: equal
begin

definition equal_ny_opcode :: "ny_opcode \<Rightarrow> ny_opcode \<Rightarrow> bool" where
  "equal_ny_opcode a b = (opcode_num a = opcode_num b)"

instance
  by standard (simp add: equal_ny_opcode_def)

end

instantiation ny_opcode :: linorder
begin

definition less_eq_ny_opcode :: "ny_opcode \<Rightarrow> ny_opcode \<Rightarrow> bool" where
  "less_eq_ny_opcode a b = (opcode_num a \<le> opcode_num b)"

definition less_ny_opcode :: "ny_opcode \<Rightarrow> ny_opcode \<Rightarrow> bool" where
  "less_ny_opcode a b = (opcode_num a < opcode_num b)"

instance
  by standard (auto simp: less_eq_ny_opcode_def less_ny_opcode_def)

end

subsection \<open>Reading a mnemonic back\<close>

text \<open>The row of the parser's table that holds an opcode's printed name, and the table's keys.\<close>

fun lookup_row :: "ny_opcode \<Rightarrow> nat" where
  "lookup_row NY_OPCODE_CONST = 0"
| "lookup_row NY_OPCODE_CONST_NULL = 1"
| "lookup_row NY_OPCODE_ADD = 2"
| "lookup_row NY_OPCODE_SUB = 3"
| "lookup_row NY_OPCODE_MUL = 4"
| "lookup_row NY_OPCODE_DIV_S = 5"
| "lookup_row NY_OPCODE_DIV_U = 7"
| "lookup_row NY_OPCODE_REM_S = 8"
| "lookup_row NY_OPCODE_REM_U = 10"
| "lookup_row NY_OPCODE_NEG = 11"
| "lookup_row NY_OPCODE_FADD = 12"
| "lookup_row NY_OPCODE_FSUB = 13"
| "lookup_row NY_OPCODE_FMUL = 14"
| "lookup_row NY_OPCODE_FDIV = 15"
| "lookup_row NY_OPCODE_FREM = 16"
| "lookup_row NY_OPCODE_FNEG = 17"
| "lookup_row NY_OPCODE_AND = 18"
| "lookup_row NY_OPCODE_OR = 19"
| "lookup_row NY_OPCODE_XOR = 20"
| "lookup_row NY_OPCODE_NOT = 21"
| "lookup_row NY_OPCODE_SHL = 22"
| "lookup_row NY_OPCODE_SHR = 23"
| "lookup_row NY_OPCODE_SAR = 24"
| "lookup_row NY_OPCODE_ROTL = 25"
| "lookup_row NY_OPCODE_ROTR = 26"
| "lookup_row NY_OPCODE_CMP_EQ = 27"
| "lookup_row NY_OPCODE_CMP_NE = 28"
| "lookup_row NY_OPCODE_CMP_LT_S = 29"
| "lookup_row NY_OPCODE_CMP_LT_U = 31"
| "lookup_row NY_OPCODE_CMP_LE_S = 32"
| "lookup_row NY_OPCODE_CMP_LE_U = 34"
| "lookup_row NY_OPCODE_CMP_GT_S = 35"
| "lookup_row NY_OPCODE_CMP_GT_U = 37"
| "lookup_row NY_OPCODE_CMP_GE_S = 38"
| "lookup_row NY_OPCODE_CMP_GE_U = 40"
| "lookup_row NY_OPCODE_FCMP_EQ = 41"
| "lookup_row NY_OPCODE_FCMP_NE = 42"
| "lookup_row NY_OPCODE_FCMP_LT = 43"
| "lookup_row NY_OPCODE_FCMP_LE = 44"
| "lookup_row NY_OPCODE_FCMP_GT = 45"
| "lookup_row NY_OPCODE_FCMP_GE = 46"
| "lookup_row NY_OPCODE_SELECT = 47"
| "lookup_row NY_OPCODE_ADDR = 48"
| "lookup_row NY_OPCODE_ADDR_OFFSET = 49"
| "lookup_row NY_OPCODE_GLOBAL_ADDR = 50"
| "lookup_row NY_OPCODE_LOAD = 51"
| "lookup_row NY_OPCODE_STORE = 52"
| "lookup_row NY_OPCODE_STACK_SLOT = 53"
| "lookup_row NY_OPCODE_STACK_ADDR = 54"
| "lookup_row NY_OPCODE_ATOMIC_LOAD = 55"
| "lookup_row NY_OPCODE_ATOMIC_STORE = 56"
| "lookup_row NY_OPCODE_ATOMIC_RMW = 57"
| "lookup_row NY_OPCODE_ATOMIC_CMPXCHG = 58"
| "lookup_row NY_OPCODE_FENCE = 59"
| "lookup_row NY_OPCODE_CAST = 60"
| "lookup_row NY_OPCODE_EXTEND = 61"
| "lookup_row NY_OPCODE_TRUNCATE = 62"
| "lookup_row NY_OPCODE_BITCAST = 63"
| "lookup_row NY_OPCODE_SEXT = 64"
| "lookup_row NY_OPCODE_ZEXT = 65"
| "lookup_row NY_OPCODE_FEXT = 66"
| "lookup_row NY_OPCODE_FTRUNC = 67"
| "lookup_row NY_OPCODE_SITOFP = 68"
| "lookup_row NY_OPCODE_UITOFP = 69"
| "lookup_row NY_OPCODE_FPTOSI = 70"
| "lookup_row NY_OPCODE_FPTOUI = 71"
| "lookup_row NY_OPCODE_VADD = 72"
| "lookup_row NY_OPCODE_VSUB = 73"
| "lookup_row NY_OPCODE_VMUL = 74"
| "lookup_row NY_OPCODE_VDIV = 75"
| "lookup_row NY_OPCODE_VAND = 76"
| "lookup_row NY_OPCODE_VOR = 77"
| "lookup_row NY_OPCODE_VXOR = 78"
| "lookup_row NY_OPCODE_VSHUFFLE = 79"
| "lookup_row NY_OPCODE_BRANCH = 81"
| "lookup_row NY_OPCODE_BRANCH_IF = 83"
| "lookup_row NY_OPCODE_SWITCH = 85"
| "lookup_row NY_OPCODE_RETURN = 87"
| "lookup_row NY_OPCODE_TRAP = 89"
| "lookup_row NY_OPCODE_CALL = 90"
| "lookup_row NY_OPCODE_CALL_INDIRECT = 91"
| "lookup_row NY_OPCODE_PHI = 92"
| "lookup_row NY_OPCODE_NONE = 0"
| "lookup_row NY_OPCODE_COUNT = 0"

definition lookup_keys :: "string list" where
  "lookup_keys = [''const'',
     ''const_null'',
     ''add'',
     ''sub'',
     ''mul'',
     ''div.s'',
     ''div'',
     ''div.u'',
     ''rem.s'',
     ''rem'',
     ''rem.u'',
     ''neg'',
     ''fadd'',
     ''fsub'',
     ''fmul'',
     ''fdiv'',
     ''frem'',
     ''fneg'',
     ''and'',
     ''or'',
     ''xor'',
     ''not'',
     ''shl'',
     ''shr'',
     ''sar'',
     ''rotl'',
     ''rotr'',
     ''cmp.eq'',
     ''cmp.ne'',
     ''cmp.lt.s'',
     ''cmp.lt'',
     ''cmp.lt.u'',
     ''cmp.le.s'',
     ''cmp.le'',
     ''cmp.le.u'',
     ''cmp.gt.s'',
     ''cmp.gt'',
     ''cmp.gt.u'',
     ''cmp.ge.s'',
     ''cmp.ge'',
     ''cmp.ge.u'',
     ''fcmp.eq'',
     ''fcmp.ne'',
     ''fcmp.lt'',
     ''fcmp.le'',
     ''fcmp.gt'',
     ''fcmp.ge'',
     ''select'',
     ''addr'',
     ''addr_offset'',
     ''global_addr'',
     ''load'',
     ''store'',
     ''stack_slot'',
     ''stack_addr'',
     ''atomic_load'',
     ''atomic_store'',
     ''atomic_rmw'',
     ''atomic_cmpxchg'',
     ''fence'',
     ''cast'',
     ''extend'',
     ''truncate'',
     ''bitcast'',
     ''sext'',
     ''zext'',
     ''fext'',
     ''ftrunc'',
     ''sitofp'',
     ''uitofp'',
     ''fptosi'',
     ''fptoui'',
     ''vadd'',
     ''vsub'',
     ''vmul'',
     ''vdiv'',
     ''vand'',
     ''vor'',
     ''vxor'',
     ''vshuffle'',
     ''branch'',
     ''@branch'',
     ''branch_if'',
     ''@branch_if'',
     ''switch'',
     ''@switch'',
     ''return'',
     ''@return'',
     ''trap'',
     ''@trap'',
     ''call'',
     ''call_indirect'',
     ''phi'']"

lemma lookup_keys: "map fst lookup_opcode_table = lookup_keys"
  by (simp only: lookup_opcode_table_def lookup_keys_def list.map fst_conv)

lemma lookup_keys_distinct: "distinct lookup_keys"
  unfolding lookup_keys_def by code_simp

lemma lookup_row_name:
  "op \<noteq> NY_OPCODE_NONE \<Longrightarrow> op \<noteq> NY_OPCODE_COUNT \<Longrightarrow>
     lookup_row op < 93 \<and> lookup_opcode_table ! lookup_row op = (ny_opcode_name op, op)"
  by (cases op) (simp_all add: lookup_opcode_table_def)

lemma lookup_opcode_miss: "name \<notin> set lookup_keys \<Longrightarrow> lookup_opcode name = NY_OPCODE_NONE"
proof -
  assume "name \<notin> set lookup_keys"
  then have "name \<notin> fst ` set lookup_opcode_table" using lookup_keys by (metis list.set_map)
  then show ?thesis by (simp add: lookup_opcode_def map_of_eq_None_iff[THEN iffD2])
qed

lemma lookup_opcode_hit:
  "i < length lookup_opcode_table \<Longrightarrow> lookup_opcode_table ! i = (name, op) \<Longrightarrow> lookup_opcode name = op"
  using lookup_keys lookup_keys_distinct nth_mem[of i lookup_opcode_table]
  by (simp add: lookup_opcode_def map_of_is_SomeI)

text \<open>
  Mnemonics round-trip: for every opcode of the language the parser's table maps the printed
  mnemonic back to the opcode; the enumeration's end marker, which no instruction carries, is the
  only exception.
\<close>

theorem lookup_opcode_name:
  "lookup_opcode (ny_opcode_name op) = (if op = NY_OPCODE_COUNT then NY_OPCODE_NONE else op)"
proof (cases "op = NY_OPCODE_NONE \<or> op = NY_OPCODE_COUNT")
  case True
  have "''none'' \<notin> set lookup_keys" "''unknown'' \<notin> set lookup_keys"
    by (simp_all add: lookup_keys_def)
  with True show ?thesis by (auto simp: lookup_opcode_miss)
next
  case False
  have "length lookup_opcode_table = 93" by (simp add: lookup_opcode_table_def)
  with False show ?thesis using lookup_row_name[of op] lookup_opcode_hit[of "lookup_row op"] by simp
qed

end

