(* ===== verification/Types.thy ===== *)
theory Types
  imports Support
begin

text \<open>
  The type table: \<^verbatim>\<open>Ny_Type\<close>, \<^verbatim>\<open>Ny_Type_Table\<close> of \<^verbatim>\<open>include/nybit/ir.h\<close> and \<^verbatim>\<open>src/ir/types.c\<close>.
  A table keeps its capacity, because \<^verbatim>\<open>ny_type_table_add_vector\<close> and \<^verbatim>\<open>ny_type_table_add_array\<close> read
  the element type through a pointer taken before the table may be reallocated: that read is
  undefined behaviour exactly when the table grows.
\<close>

subsection \<open>Types and tables\<close>

datatype ny_type_kind =
    NY_TYPE_KIND_PRIMITIVE
  | NY_TYPE_KIND_POINTER
  | NY_TYPE_KIND_VECTOR
  | NY_TYPE_KIND_ARRAY
  | NY_TYPE_KIND_STRUCT

record ny_type =
  ty_kind :: ny_type_kind
  ty_size :: nat
  ty_align :: nat
  ty_elem_type :: nat
  ty_vector_lanes :: nat
  ty_array_count :: nat
  ty_field_types :: "nat list"
  ty_field_offsets :: "nat list"
  ty_name :: string

record ny_type_table =
  tt_types :: "ny_type list"
  tt_capacity :: nat

abbreviation (input) "NY_TYPE_VOID \<equiv> 0 :: nat"
abbreviation (input) "NY_TYPE_I8 \<equiv> 1 :: nat"
abbreviation (input) "NY_TYPE_I16 \<equiv> 2 :: nat"
abbreviation (input) "NY_TYPE_I32 \<equiv> 3 :: nat"
abbreviation (input) "NY_TYPE_I64 \<equiv> 4 :: nat"
abbreviation (input) "NY_TYPE_I128 \<equiv> 5 :: nat"
abbreviation (input) "NY_TYPE_F16 \<equiv> 6 :: nat"
abbreviation (input) "NY_TYPE_F32 \<equiv> 7 :: nat"
abbreviation (input) "NY_TYPE_F64 \<equiv> 8 :: nat"
abbreviation (input) "NY_TYPE_PTR \<equiv> 9 :: nat"
abbreviation (input) "NY_PRIMITIVE_TYPE_COUNT \<equiv> 10 :: nat"

definition g_primitive_types :: "(string \<times> nat \<times> nat) list" where
  "g_primitive_types = [
     (''void'', 0, 1),
     (''i8'', 1, 1),
     (''i16'', 2, 2),
     (''i32'', 4, 4),
     (''i64'', 8, 8),
     (''i128'', 16, 16),
     (''f16'', 2, 2),
     (''f32'', 4, 4),
     (''f64'', 8, 8),
     (''ptr'', 8, 8)]"

definition zero_type :: ny_type where
  "zero_type = \<lparr>ty_kind = NY_TYPE_KIND_PRIMITIVE, ty_size = 0, ty_align = 0, ty_elem_type = 0,
     ty_vector_lanes = 0, ty_array_count = 0, ty_field_types = [], ty_field_offsets = [], ty_name = []\<rparr>"

definition ny_type_table_init :: ny_type_table where
  "ny_type_table_init = \<lparr>tt_types = map (\<lambda>(name, sz, align).
       zero_type\<lparr>ty_size := sz, ty_align := align, ty_elem_type := NY_INVALID_TYPE, ty_name := name\<rparr>) g_primitive_types,
     tt_capacity = 32\<rparr>"

definition ny_type_get :: "ny_type list \<Rightarrow> nat \<Rightarrow> ny_type option" where
  "ny_type_get types tid = (if tid \<ge> length types then None else Some (types ! tid))"

definition ny_type_name :: "ny_type list \<Rightarrow> nat \<Rightarrow> string" where
  "ny_type_name types tid = (case ny_type_get types tid of Some t \<Rightarrow> ty_name t | None \<Rightarrow> ''<unknown>'')"

definition ny_type_size :: "ny_type list \<Rightarrow> nat \<Rightarrow> nat" where
  "ny_type_size types tid = (case ny_type_get types tid of Some t \<Rightarrow> ty_size t | None \<Rightarrow> 0)"

definition ny_type_align :: "ny_type list \<Rightarrow> nat \<Rightarrow> nat" where
  "ny_type_align types tid = (case ny_type_get types tid of Some t \<Rightarrow> ty_align t | None \<Rightarrow> 1)"

definition ny_type_is_integer :: "nat \<Rightarrow> bool" where
  "ny_type_is_integer tid \<longleftrightarrow> tid \<ge> NY_TYPE_I8 \<and> tid \<le> NY_TYPE_I128"

definition ny_type_is_float :: "nat \<Rightarrow> bool" where
  "ny_type_is_float tid \<longleftrightarrow> tid \<ge> NY_TYPE_F16 \<and> tid \<le> NY_TYPE_F64"

definition ny_type_is_vector :: "ny_type list \<Rightarrow> nat \<Rightarrow> bool" where
  "ny_type_is_vector types tid = (case ny_type_get types tid of
     Some t \<Rightarrow> ty_kind t = NY_TYPE_KIND_VECTOR | None \<Rightarrow> False)"

definition ny_type_is_aggregate :: "ny_type list \<Rightarrow> nat \<Rightarrow> bool" where
  "ny_type_is_aggregate types tid = (case ny_type_get types tid of
     Some t \<Rightarrow> ty_kind t = NY_TYPE_KIND_STRUCT \<or> ty_kind t = NY_TYPE_KIND_ARRAY | None \<Rightarrow> False)"

definition ny_type_struct_field_offset :: "ny_type list \<Rightarrow> nat \<Rightarrow> nat \<Rightarrow> nat" where
  "ny_type_struct_field_offset types tid i = (case ny_type_get types tid of None \<Rightarrow> 0
     | Some t \<Rightarrow> if ty_kind t \<noteq> NY_TYPE_KIND_STRUCT \<or> i \<ge> length (ty_field_offsets t) then 0
                 else ty_field_offsets t ! i)"

definition ny_type_struct_field_type :: "ny_type list \<Rightarrow> nat \<Rightarrow> nat \<Rightarrow> nat" where
  "ny_type_struct_field_type types tid i = (case ny_type_get types tid of None \<Rightarrow> NY_INVALID_TYPE
     | Some t \<Rightarrow> if ty_kind t \<noteq> NY_TYPE_KIND_STRUCT \<or> i \<ge> length (ty_field_types t) then NY_INVALID_TYPE
                 else ty_field_types t ! i)"

subsection \<open>Decimal output\<close>

text \<open>The conversion \<^verbatim>\<open>%u\<close> of \<^verbatim>\<open>snprintf\<close>.\<close>

fun show_nat :: "nat \<Rightarrow> string" where
  "show_nat n = (if n < 10 then [char_of (48 + n)] else show_nat (n div 10) @ [char_of (48 + n mod 10)])"

declare show_nat.simps [simp del]

text \<open>
  The name buffers have 64 bytes and the code copies \<^verbatim>\<open>n + 1\<close> of them, where \<^verbatim>\<open>n\<close> is the length
  \<^verbatim>\<open>snprintf\<close> would have written: from 64 on the copy reads past the buffer.
\<close>

definition name_buf :: "string \<Rightarrow> string option" where
  "name_buf s = (if length s + 1 \<le> 64 then Some s else None)"

subsection \<open>Adding types\<close>

text \<open>Reallocation of the table: the new capacity, and whether the old storage is gone.\<close>

definition grow_types :: "ny_type_table \<Rightarrow> (ny_type_table \<times> bool) option" where
  "grow_types tt =
     (if length (tt_types tt) < tt_capacity tt then Some (tt, False)
      else do {
        c \<leftarrow> grow_cap (length (tt_types tt)) (if tt_capacity tt = 0 then 8 else u64 (tt_capacity tt * 2));
        Some (tt\<lparr>tt_capacity := c\<rparr>, True)
      })"

definition ny_type_table_add_vector :: "ny_type_table \<Rightarrow> nat \<Rightarrow> nat \<Rightarrow> (ny_type_table \<times> nat) option" where
  "ny_type_table_add_vector tt elem lanes =
     (case find_index (\<lambda>cur. ty_kind cur = NY_TYPE_KIND_VECTOR \<and> ty_elem_type cur = elem
             \<and> ty_vector_lanes cur = lanes) (tt_types tt) of
        Some i \<Rightarrow> Some (tt, u32 i)
      | None \<Rightarrow> do {
          elem_t \<leftarrow> ny_type_get (tt_types tt) elem;
          (tt1, moved) \<leftarrow> grow_types tt;
          let tid = u32 (length (tt_types tt1));
          assert_c (\<not> moved);
          name \<leftarrow> name_buf (''v'' @ show_nat lanes @ ty_name elem_t);
          let t = zero_type\<lparr>ty_kind := NY_TYPE_KIND_VECTOR, ty_elem_type := elem, ty_vector_lanes := lanes,
                     ty_size := u32 (ty_size elem_t * lanes), ty_align := ty_align elem_t, ty_name := name\<rparr>;
          Some (tt1\<lparr>tt_types := tt_types tt1 @ [t]\<rparr>, tid)
        })"

definition ny_type_table_add_pointer :: "ny_type_table \<Rightarrow> nat \<Rightarrow> nat" where
  "ny_type_table_add_pointer tt pointee = NY_TYPE_PTR"

definition ny_type_table_add_array :: "ny_type_table \<Rightarrow> nat \<Rightarrow> nat \<Rightarrow> (ny_type_table \<times> nat) option" where
  "ny_type_table_add_array tt elem count =
     (case find_index (\<lambda>cur. ty_kind cur = NY_TYPE_KIND_ARRAY \<and> ty_elem_type cur = elem
             \<and> ty_array_count cur = count) (tt_types tt) of
        Some i \<Rightarrow> Some (tt, u32 i)
      | None \<Rightarrow> do {
          elem_t \<leftarrow> ny_type_get (tt_types tt) elem;
          (tt1, moved) \<leftarrow> grow_types tt;
          let tid = u32 (length (tt_types tt1));
          assert_c (\<not> moved);
          name \<leftarrow> name_buf (''['' @ show_nat count @ '']'' @ ty_name elem_t);
          let t = zero_type\<lparr>ty_kind := NY_TYPE_KIND_ARRAY, ty_elem_type := elem, ty_array_count := count,
                     ty_size := u32 (ty_size elem_t * count), ty_align := ty_align elem_t, ty_name := name\<rparr>;
          Some (tt1\<lparr>tt_types := tt_types tt1 @ [t]\<rparr>, tid)
        })"

text \<open>
  The layout loop of \<^verbatim>\<open>ny_type_table_add_struct\<close>: field offsets, the end of the last field and the
  largest alignment.
\<close>

definition align_up32 :: "nat \<Rightarrow> nat \<Rightarrow> nat" where
  "align_up32 off a = (if off mod a \<noteq> 0 then u32 (off + (a - off mod a)) else off)"

fun struct_layout :: "ny_type list \<Rightarrow> nat list \<Rightarrow> nat \<Rightarrow> nat \<Rightarrow> nat list \<times> nat \<times> nat" where
  "struct_layout types [] current_offset max_align = ([], current_offset, max_align)"
| "struct_layout types (f # fs) current_offset max_align =
     (let f_align = (if ny_type_align types f = 0 then 1 else ny_type_align types f);
          f_size = ny_type_size types f;
          off = align_up32 current_offset f_align;
          (offs, end_off, ma) = struct_layout types fs (u32 (off + f_size))
                                  (if f_align > max_align then f_align else max_align)
      in (off # offs, end_off, ma))"

definition ny_type_table_add_struct ::
  "ny_type_table \<Rightarrow> string option \<Rightarrow> nat list \<Rightarrow> (ny_type_table \<times> nat) option" where
  "ny_type_table_add_struct tt name flds =
     (case (case name of None \<Rightarrow> None
            | Some n \<Rightarrow> find_index (\<lambda>cur. ty_kind cur = NY_TYPE_KIND_STRUCT \<and> ty_name cur = n) (tt_types tt)) of
        Some i \<Rightarrow> Some (tt, u32 i)
      | None \<Rightarrow> do {
          (tt1, moved) \<leftarrow> grow_types tt;
          let tid = u32 (length (tt_types tt1));
          let t0 = zero_type\<lparr>ty_kind := NY_TYPE_KIND_STRUCT, ty_field_types := flds\<rparr>;
          let (offs, end_off, max_align) = struct_layout (tt_types tt1 @ [t0]) flds 0 1;
          n \<leftarrow> (case name of Some n \<Rightarrow> Some n | None \<Rightarrow> name_buf (''struct_'' @ show_nat tid));
          let t = t0\<lparr>ty_field_offsets := offs, ty_align := max_align,
                     ty_size := align_up32 end_off max_align, ty_name := n\<rparr>;
          Some (tt1\<lparr>tt_types := tt_types tt1 @ [t]\<rparr>, tid)
        })"


subsection \<open>Struct layout\<close>

lemma align_up32_bounds:
  assumes "0 < a" "off + a < 4294967296"
  shows "off \<le> align_up32 off a" "align_up32 off a < off + a" "align_up32 off a mod a = 0"
proof -
  have lt: "off mod a < a" using assms(1) by simp
  have e: "align_up32 off a = (if off mod a \<noteq> 0 then off + (a - off mod a) else off)"
    using assms lt by (simp add: align_up32_def)
  have "off + (a - off mod a) = (off div a + 1) * a"
    using lt div_mult_mod_eq[of off a] by (simp only: add_mult_distrib mult_1)
  then show "align_up32 off a mod a = 0" using e by (auto simp: mult.commute)
  have "off \<le> align_up32 off a \<and> align_up32 off a < off + a"
  proof (cases "off mod a = 0")
    case False
    then have "align_up32 off a = off + (a - off mod a)" using e by simp
    with False lt show ?thesis by linarith
  qed (use e assms(1) in simp)
  then show "off \<le> align_up32 off a" "align_up32 off a < off + a" by auto
qed

definition field_align :: "ny_type list \<Rightarrow> nat \<Rightarrow> nat" where
  "field_align types f = (if ny_type_align types f = 0 then 1 else ny_type_align types f)"

text \<open>A bound on the bytes a field list can take; below \<open>2 ^ 32\<close> nothing wraps.\<close>

definition layout_room :: "ny_type list \<Rightarrow> nat list \<Rightarrow> nat" where
  "layout_room types fs = (\<Sum>f \<leftarrow> fs. ny_type_size types f + field_align types f)"

text \<open>
  The specification of a layout that starts at \<open>lo\<close> and ends at \<open>hi\<close>: every field starts at a
  multiple of its alignment, at or after the end of the field before it.
\<close>

fun laid_out :: "ny_type list \<Rightarrow> nat list \<Rightarrow> nat list \<Rightarrow> nat \<Rightarrow> nat \<Rightarrow> bool" where
  "laid_out types [] offs lo hi = (offs = [] \<and> lo \<le> hi)"
| "laid_out types (f # fs) offs lo hi = (case offs of [] \<Rightarrow> False
     | off # offs' \<Rightarrow> lo \<le> off \<and> off mod field_align types f = 0
         \<and> laid_out types fs offs' (off + ny_type_size types f) hi)"

lemma struct_layout_laid_out:
  assumes "struct_layout types fs lo ma = (offs, hi, ma')" "lo + layout_room types fs < 4294967296"
  shows "laid_out types fs offs lo hi \<and> hi \<le> lo + layout_room types fs
    \<and> ma' = fold max (map (field_align types) fs) ma"
  using assms
proof (induction fs arbitrary: lo ma offs)
  case Nil
  then show ?case by (simp add: layout_room_def)
next
  case (Cons f fs)
  let ?a = "field_align types f" and ?s = "ny_type_size types f"
  have a0: "0 < ?a" by (simp add: field_align_def)
  define off where "off = align_up32 lo ?a"
  have room: "lo + ?s + ?a + layout_room types fs < 4294967296"
    using Cons.prems(2) by (simp add: layout_room_def)
  then have off: "lo \<le> off" "off < lo + ?a" "off mod ?a = 0"
    unfolding off_def using align_up32_bounds[OF a0, of lo] by simp_all
  have u: "u32 (off + ?s) = off + ?s" using off room by simp
  obtain offs' where o: "struct_layout types fs (off + ?s) (max ?a ma) = (offs', hi, ma')" "offs = off # offs'"
    using Cons.prems(1) u
    by (auto simp: Let_def off_def[unfolded field_align_def] field_align_def max_def split: prod.splits if_splits)
  have "off + ?s + layout_room types fs < 4294967296" using off room by simp
  from Cons.IH[OF o(1) this] show ?case using o(2) off
    by (simp add: layout_room_def max.commute)
qed

lemma laid_out_length: "laid_out types fs offs lo hi \<Longrightarrow> length offs = length fs"
  by (induction fs arbitrary: offs lo) (auto split: list.splits)

lemma laid_out_lo_hi: "laid_out types fs offs lo hi \<Longrightarrow> lo \<le> hi"
  by (induction fs arbitrary: offs lo) (fastforce split: list.splits)+

lemma laid_out_nth:
  assumes "laid_out types fs offs lo hi" "i < length fs"
  shows "lo \<le> offs ! i \<and> offs ! i mod field_align types (fs ! i) = 0
    \<and> offs ! i + ny_type_size types (fs ! i) \<le> hi
    \<and> (\<forall>j < i. offs ! j + ny_type_size types (fs ! j) \<le> offs ! i)"
  using assms
proof (induction fs arbitrary: offs lo i)
  case Nil
  then show ?case by simp
next
  case (Cons f fs)
  from Cons.prems(1) obtain off offs' where o: "offs = off # offs'" "lo \<le> off" "off mod field_align types f = 0"
    and rest: "laid_out types fs offs' (off + ny_type_size types f) hi"
    by (auto split: list.splits)
  show ?case
  proof (cases i)
    case 0
    then show ?thesis using o laid_out_lo_hi[OF rest] by simp
  next
    case (Suc k)
    with Cons.prems(2) Cons.IH[OF rest, of k] o show ?thesis
      by (auto simp: less_Suc_eq_0_disj)
  qed
qed

lemma fold_max_ge: "(x :: nat) \<le> fold max xs x"
  by (induction xs arbitrary: x) (auto intro: order_trans[OF max.cobounded2])

lemma fold_max_mem: "fold max xs (x :: nat) = x \<or> fold max xs x \<in> set xs"
proof (induction xs arbitrary: x)
  case (Cons a xs)
  from Cons.IH[of "max a x"] show ?case by (auto simp: max_def)
qed simp

lemma fold_max_upper: "y \<in> set xs \<Longrightarrow> (y :: nat) \<le> fold max xs x"
  by (induction xs arbitrary: x) (auto intro: order_trans[OF _ fold_max_ge])

lemma grow_types_types: "grow_types tt = Some (tt1, moved) \<Longrightarrow> tt_types tt1 = tt_types tt"
  by (auto simp: grow_types_def bind_Some_iff split: if_splits)


lemma struct_layout_append:
  "list_all (\<lambda>f. f < length types) fs \<Longrightarrow> struct_layout (types @ [t]) fs lo ma = struct_layout types fs lo ma"
  by (induction fs arbitrary: lo ma) (simp_all add: ny_type_align_def ny_type_size_def ny_type_get_def nth_append)

lemma add_struct_fresh:
  assumes "ny_type_table_add_struct tt (Some nm) fs = Some (tt', i)"
    and "find_index (\<lambda>cur. ty_kind cur = NY_TYPE_KIND_STRUCT \<and> ty_name cur = nm) (tt_types tt) = None"
    and "list_all (\<lambda>f. f < length (tt_types tt)) fs"
    and "struct_layout (tt_types tt) fs 0 1 = (offs, end_off, ma)"
  shows "i = u32 (length (tt_types tt)) \<and> tt_types tt' = tt_types tt @
    [zero_type\<lparr>ty_kind := NY_TYPE_KIND_STRUCT, ty_field_types := fs, ty_field_offsets := offs, ty_align := ma,
       ty_size := align_up32 end_off ma, ty_name := nm\<rparr>]"
proof -
  obtain tt1 moved where g: "grow_types tt = Some (tt1, moved)"
    using assms(1,2) by (auto simp: ny_type_table_add_struct_def bind_Some_iff)
  then have "tt_types tt1 = tt_types tt" by (rule grow_types_types)
  then show ?thesis using assms g
    by (auto simp: ny_type_table_add_struct_def Let_def struct_layout_append)
qed

text \<open>
  C35. Struct layout: for fields of registered types whose sizes and alignments fit in 32 bits, a new
  struct type records one offset per field, each a multiple of the field's alignment and at or
  after the end of every earlier field; the alignment is the largest field alignment, and the
  size covers the last field and is a multiple of the alignment.
\<close>

theorem add_struct_layout:
  assumes add: "ny_type_table_add_struct tt (Some nm) fs = Some (tt', i)"
    and new: "find_index (\<lambda>cur. ty_kind cur = NY_TYPE_KIND_STRUCT \<and> ty_name cur = nm) (tt_types tt) = None"
    and known: "list_all (\<lambda>f. f < length (tt_types tt)) fs"
    and small: "2 * layout_room (tt_types tt) fs + 1 < 4294967296" "length (tt_types tt) < 4294967295"
  shows "\<exists>t. ny_type_get (tt_types tt') i = Some t \<and> ty_field_types t = fs
    \<and> length (ty_field_offsets t) = length fs
    \<and> ty_align t = Max (insert 1 (field_align (tt_types tt) ` set fs))
    \<and> ty_size t mod ty_align t = 0
    \<and> (\<forall>k < length fs.
          ny_type_struct_field_offset (tt_types tt') i k mod field_align (tt_types tt) (fs ! k) = 0
        \<and> ny_type_struct_field_offset (tt_types tt') i k + ny_type_size (tt_types tt) (fs ! k) \<le> ty_size t
        \<and> (\<forall>j < k. ny_type_struct_field_offset (tt_types tt') i j + ny_type_size (tt_types tt) (fs ! j)
                   \<le> ny_type_struct_field_offset (tt_types tt') i k))"
proof -
  let ?T = "tt_types tt"
  obtain offs e ma where l: "struct_layout ?T fs 0 1 = (offs, e, ma)" by (metis prod_cases3)
  define t where "t = zero_type\<lparr>ty_kind := NY_TYPE_KIND_STRUCT, ty_field_types := fs, ty_field_offsets := offs,
      ty_align := ma, ty_size := align_up32 e ma, ty_name := nm\<rparr>"
  have "0 + layout_room ?T fs < 4294967296" using small(1) by simp
  note lay = struct_layout_laid_out[OF l this]
  have mae: "ma = fold max (map (field_align ?T) fs) 1" and ma1: "1 \<le> ma" using lay fold_max_ge by auto
  have sum_ge: "f \<in> set fs \<Longrightarrow> field_align ?T f \<le> layout_room ?T fs" for f
    unfolding layout_room_def by (induction fs) auto
  have "ma \<le> layout_room ?T fs + 1"
    using fold_max_mem[of "map (field_align ?T) fs" 1] sum_ge mae by fastforce
  then have room: "e + ma < 4294967296" using lay small(1) by simp
  note up = align_up32_bounds[OF _ room]
  have Max: "ma = Max (insert 1 (field_align ?T ` set fs))"
  proof (rule sym, rule Max_eqI)
    show "ma \<in> insert 1 (field_align ?T ` set fs)"
      using fold_max_mem[of "map (field_align ?T) fs" 1] mae by auto
    show "y \<le> ma" if "y \<in> insert 1 (field_align ?T ` set fs)" for y
      using that ma1 fold_max_upper[of y "map (field_align ?T) fs" 1] mae by auto
  qed simp
  from add_struct_fresh[OF add new known l] have i: "i = length ?T" and tt': "tt_types tt' = ?T @ [t]"
    using small(2) by (auto simp: t_def)
  have get: "ny_type_get (tt_types tt') i = Some t" by (simp add: ny_type_get_def i tt')
  have off: "k < length fs \<Longrightarrow> ny_type_struct_field_offset (tt_types tt') i k = offs ! k" for k
    using laid_out_length[OF conjunct1[OF lay]] by (simp add: ny_type_struct_field_offset_def get) (simp add: t_def)
  have ts: "ty_size t = align_up32 e ma" "e \<le> align_up32 e ma" "align_up32 e ma mod ma = 0"
    using up ma1 by (auto simp: t_def)
  have flds: "offs ! k mod field_align ?T (fs ! k) = 0
      \<and> offs ! k + ny_type_size ?T (fs ! k) \<le> ty_size t
      \<and> (\<forall>j < k. offs ! j + ny_type_size ?T (fs ! j) \<le> offs ! k)" if "k < length fs" for k
    using laid_out_nth[OF conjunct1[OF lay] that] ts by (auto intro: order_trans)
  have "ty_field_types t = fs" "length (ty_field_offsets t) = length fs" "ty_align t = ma"
    using laid_out_length[OF conjunct1[OF lay]] by (auto simp: t_def)
  then show ?thesis using get ts flds Max off by (auto simp del: One_nat_def)
qed

theorem add_struct_layout_witness:
  "\<exists>tt' i t. ny_type_table_add_struct ny_type_table_init (Some ''Mix'') [NY_TYPE_I8, NY_TYPE_I32] = Some (tt', i)
    \<and> ny_type_get (tt_types tt') i = Some t \<and> ty_align t = 4 \<and> ty_size t mod 4 = 0
    \<and> ny_type_struct_field_offset (tt_types tt') i 1 mod 4 = 0"
proof -
  obtain tt' i where a: "ny_type_table_add_struct ny_type_table_init (Some ''Mix'') [NY_TYPE_I8, NY_TYPE_I32] = Some (tt', i)"
    by (simp add: ny_type_table_add_struct_def ny_type_table_init_def g_primitive_types_def zero_type_def
        grow_types_def Let_def split: prod.splits)
  have "\<exists>t. ny_type_get (tt_types tt') i = Some t \<and> ty_field_types t = [NY_TYPE_I8, NY_TYPE_I32]
    \<and> length (ty_field_offsets t) = length [NY_TYPE_I8, NY_TYPE_I32]
    \<and> ty_align t = Max (insert 1 (field_align (tt_types ny_type_table_init) ` set [NY_TYPE_I8, NY_TYPE_I32]))
    \<and> ty_size t mod ty_align t = 0
    \<and> (\<forall>k < length [NY_TYPE_I8, NY_TYPE_I32].
          ny_type_struct_field_offset (tt_types tt') i k mod field_align (tt_types ny_type_table_init) ([NY_TYPE_I8, NY_TYPE_I32] ! k) = 0
        \<and> ny_type_struct_field_offset (tt_types tt') i k + ny_type_size (tt_types ny_type_table_init) ([NY_TYPE_I8, NY_TYPE_I32] ! k) \<le> ty_size t
        \<and> (\<forall>j < k. ny_type_struct_field_offset (tt_types tt') i j + ny_type_size (tt_types ny_type_table_init) ([NY_TYPE_I8, NY_TYPE_I32] ! j)
                   \<le> ny_type_struct_field_offset (tt_types tt') i k))"
    by (rule add_struct_layout[OF a])
      (simp_all add: ny_type_table_init_def g_primitive_types_def zero_type_def layout_room_def field_align_def
        ny_type_size_def ny_type_align_def ny_type_get_def)
  then obtain t where "ny_type_get (tt_types tt') i = Some t" "ty_size t mod ty_align t = 0"
    "ty_align t = Max (insert 1 (field_align (tt_types ny_type_table_init) ` set [NY_TYPE_I8, NY_TYPE_I32]))"
    "ny_type_struct_field_offset (tt_types tt') i 1 mod field_align (tt_types ny_type_table_init) NY_TYPE_I32 = 0"
    by (auto dest: spec[of _ 1])
  moreover have "field_align (tt_types ny_type_table_init) NY_TYPE_I8 = 1"
    "field_align (tt_types ny_type_table_init) NY_TYPE_I32 = 4"
    by (simp_all add: ny_type_table_init_def g_primitive_types_def zero_type_def field_align_def
        ny_type_align_def ny_type_get_def)
  ultimately show ?thesis using a by auto
qed


subsection \<open>Well-formed tables\<close>

text \<open>
  A type refers only to types before it, its alignment is a power of two of at most 16 and its
  size a multiple of it; the table has fewer than \<open>2 ^ 32 - 1\<close> entries.
\<close>

definition type_ok :: "nat \<Rightarrow> ny_type \<Rightarrow> bool" where
  "type_ok i t \<longleftrightarrow> ty_align t \<in> {1, 2, 4, 8, 16} \<and> ty_size t mod ty_align t = 0
     \<and> (ty_kind t = NY_TYPE_KIND_ARRAY \<or> ty_kind t = NY_TYPE_KIND_VECTOR \<longrightarrow> ty_elem_type t < i)
     \<and> (ty_kind t = NY_TYPE_KIND_STRUCT \<longrightarrow> (\<forall>f \<in> set (ty_field_types t). f < i)
           \<and> length (ty_field_offsets t) = length (ty_field_types t))"

definition tt_wf :: "ny_type_table \<Rightarrow> bool" where
  "tt_wf tt \<longleftrightarrow> 10 \<le> length (tt_types tt) \<and> length (tt_types tt) < 4294967296
     \<and> (\<forall>i < length (tt_types tt). type_ok i (tt_types tt ! i))"

lemma tt_wf_init: "tt_wf ny_type_table_init"
proof -
  have "type_ok i (tt_types ny_type_table_init ! i)" if "i < length (tt_types ny_type_table_init)" for i
  proof -
    have "i < 10" using that by (simp add: ny_type_table_init_def g_primitive_types_def)
    then have "i \<in> {0, 1, 2, 3, 4, 5, 6, 7, 8, 9}" by auto
    then show ?thesis
      by (elim insertE emptyE) (simp_all add: type_ok_def ny_type_table_init_def g_primitive_types_def zero_type_def)
  qed
  then show ?thesis by (simp add: tt_wf_def) (simp add: ny_type_table_init_def g_primitive_types_def)
qed

lemma tt_wf_snoc:
  "tt_wf tt \<Longrightarrow> tt_types tt' = tt_types tt @ [t] \<Longrightarrow> type_ok (length (tt_types tt)) t \<Longrightarrow>
     length (tt_types tt) < 4294967295 \<Longrightarrow> tt_wf tt'"
  by (auto simp: tt_wf_def nth_append less_Suc_eq)

lemma align_multiple_wrap:
  assumes "a \<in> {1, 2, 4, 8, 16}" "n mod a = 0"
  shows "u32 n mod a = 0"
proof -
  have "a dvd 4294967296" using assms(1) by auto
  then show ?thesis using assms(2) unfolding u32_def by (simp add: mod_mod_cancel)
qed

lemma tt_wf_type_ok: "tt_wf tt \<Longrightarrow> ny_type_get (tt_types tt) i = Some t \<Longrightarrow> type_ok i t"
  by (auto simp: tt_wf_def ny_type_get_def split: if_splits)

lemma add_vector_cases:
  assumes "ny_type_table_add_vector tt elem lanes = Some (tt', i)"
  obtains (old) j where "tt' = tt" "find_index (\<lambda>cur. ty_kind cur = NY_TYPE_KIND_VECTOR \<and> ty_elem_type cur = elem
      \<and> ty_vector_lanes cur = lanes) (tt_types tt) = Some j" "i = u32 j"
  | (new) e t where "ny_type_get (tt_types tt) elem = Some e" "i = u32 (length (tt_types tt))"
      "find_index (\<lambda>cur. ty_kind cur = NY_TYPE_KIND_VECTOR \<and> ty_elem_type cur = elem
      \<and> ty_vector_lanes cur = lanes) (tt_types tt) = None"
      "tt_types tt' = tt_types tt @ [t]" "ty_kind t = NY_TYPE_KIND_VECTOR" "ty_elem_type t = elem"
      "ty_vector_lanes t = lanes" "ty_size t = u32 (ty_size e * lanes)" "ty_align t = ty_align e"
      "ty_field_types t = []"
  using assms
  by (auto simp: ny_type_table_add_vector_def bind_Some_iff Let_def zero_type_def
      dest!: grow_types_types split: option.splits)

lemma add_array_cases:
  assumes "ny_type_table_add_array tt elem count = Some (tt', i)"
  obtains (old) j where "tt' = tt" "find_index (\<lambda>cur. ty_kind cur = NY_TYPE_KIND_ARRAY \<and> ty_elem_type cur = elem
      \<and> ty_array_count cur = count) (tt_types tt) = Some j" "i = u32 j"
  | (new) e t where "ny_type_get (tt_types tt) elem = Some e" "i = u32 (length (tt_types tt))"
      "find_index (\<lambda>cur. ty_kind cur = NY_TYPE_KIND_ARRAY \<and> ty_elem_type cur = elem
      \<and> ty_array_count cur = count) (tt_types tt) = None"
      "tt_types tt' = tt_types tt @ [t]" "ty_kind t = NY_TYPE_KIND_ARRAY" "ty_elem_type t = elem"
      "ty_array_count t = count" "ty_size t = u32 (ty_size e * count)" "ty_align t = ty_align e"
      "ty_field_types t = []"
  using assms
  by (auto simp: ny_type_table_add_array_def bind_Some_iff Let_def zero_type_def
      dest!: grow_types_types split: option.splits)


lemma add_struct_cases:
  assumes "ny_type_table_add_struct tt (Some nm) fs = Some (tt', i)"
  obtains (old) j where "tt' = tt" "find_index (\<lambda>cur. ty_kind cur = NY_TYPE_KIND_STRUCT \<and> ty_name cur = nm) (tt_types tt) = Some j"
      "i = u32 j"
  | (new) t0 t offs e where "i = u32 (length (tt_types tt))"
      "find_index (\<lambda>cur. ty_kind cur = NY_TYPE_KIND_STRUCT \<and> ty_name cur = nm) (tt_types tt) = None"
      "tt_types tt' = tt_types tt @ [t]" "ty_kind t = NY_TYPE_KIND_STRUCT" "ty_name t = nm"
      "ty_field_types t = fs" "ty_size t = align_up32 e (ty_align t)" "ty_field_offsets t = offs"
      "struct_layout (tt_types tt @ [t0]) fs 0 1 = (offs, e, ty_align t)"
proof (cases "find_index (\<lambda>cur. ty_kind cur = NY_TYPE_KIND_STRUCT \<and> ty_name cur = nm) (tt_types tt)")
  case (Some j)
  then show thesis using old assms by (simp add: ny_type_table_add_struct_def)
next
  case None
  define t0 where "t0 = zero_type\<lparr>ty_kind := NY_TYPE_KIND_STRUCT, ty_field_types := fs\<rparr>"
  obtain tt1 moved where g: "grow_types tt = Some (tt1, moved)"
    using assms None by (auto simp: ny_type_table_add_struct_def bind_Some_iff)
  note tt1 = grow_types_types[OF g]
  obtain offs e ma where l: "struct_layout (tt_types tt @ [t0]) fs 0 1 = (offs, e, ma)" by (metis prod_cases3)
  have "tt' = tt1\<lparr>tt_types := tt_types tt @ [t0\<lparr>ty_field_offsets := offs, ty_align := ma,
      ty_size := align_up32 e ma, ty_name := nm\<rparr>]\<rparr>" "i = u32 (length (tt_types tt))"
    using assms None g tt1 l by (simp_all add: ny_type_table_add_struct_def Let_def t0_def[symmetric])
  then show thesis using l None by (intro new[of "t0\<lparr>ty_field_offsets := offs, ty_align := ma,
      ty_size := align_up32 e ma, ty_name := nm\<rparr>" e offs t0]) (auto simp: t0_def)
qed

lemma align_up32_dvd:
  assumes "a \<in> {1, 2, 4, 8, 16}"
  shows "align_up32 off a mod a = 0"
proof (cases "off mod a = 0")
  case False
  have lt: "off mod a < a" using assms by auto
  have "off + (a - off mod a) = (off div a + 1) * a"
    using lt div_mult_mod_eq[of off a] by (simp only: add_mult_distrib mult_1)
  then have "(off + (a - off mod a)) mod a = 0" by simp
  then show ?thesis using False align_multiple_wrap[OF assms] by (simp add: align_up32_def)
qed (simp add: align_up32_def)

lemma struct_layout_length: "struct_layout types fs lo ma = (offs, hi, ma') \<Longrightarrow> length offs = length fs"
  by (induction fs arbitrary: lo ma offs) (auto simp: Let_def split: prod.splits)

lemma struct_layout_align:
  assumes "struct_layout types fs lo ma = (offs, hi, ma')" "ma \<in> A" "\<forall>f \<in> set fs. field_align types f \<in> A"
  shows "ma' \<in> A"
  using assms
  by (induction fs arbitrary: lo ma offs)
    (auto simp: Let_def field_align_def[symmetric] split: prod.splits if_splits)

lemma tt_wf_field_align:
  "tt_wf tt \<Longrightarrow> f < length (tt_types tt) \<Longrightarrow> field_align (tt_types tt) f \<in> {1, 2, 4, 8, 16}"
  by (auto simp: tt_wf_def type_ok_def field_align_def ny_type_align_def ny_type_get_def)

subsection \<open>Interning\<close>

text \<open>
  The contract the three deduplicating constructors share.  A key is what identifies a type
  (\<open>matches\<close>); adding it extends the table at its end or leaves it alone, keeps it well formed and
  returns the id of a matching type.
\<close>

locale type_interner =
  fixes add :: "ny_type_table \<Rightarrow> 'k \<Rightarrow> (ny_type_table \<times> nat) option"
    and matches :: "'k \<Rightarrow> ny_type \<Rightarrow> bool"
    and key_ok :: "ny_type_table \<Rightarrow> 'k \<Rightarrow> bool"
  assumes add_hit: "find_index (matches k) (tt_types tt) = Some j \<Longrightarrow> add tt k = Some (tt, u32 j)"
    and add_miss: "find_index (matches k) (tt_types tt) = None \<Longrightarrow> add tt k = Some (tt', i) \<Longrightarrow>
      \<exists>t. tt_types tt' = tt_types tt @ [t] \<and> matches k t \<and> i = u32 (length (tt_types tt))"
    and add_wf: "tt_wf tt \<Longrightarrow> key_ok tt k \<Longrightarrow> length (tt_types tt) < 4294967295 \<Longrightarrow>
      add tt k = Some (tt', i) \<Longrightarrow> tt_wf tt'"
begin

lemma add_prefix:
  assumes "add tt k = Some (tt', i)"
  shows "\<exists>ts. tt_types tt' = tt_types tt @ ts"
  using assms add_hit[of k tt] add_miss[of k tt tt' i]
  by (cases "find_index (matches k) (tt_types tt)") auto

lemma find_index_append_Some:
  "find_index p xs = Some j \<Longrightarrow> find_index p (xs @ ys) = Some j"
  by (induction xs arbitrary: j) (auto split: if_splits)

lemma find_index_snoc:
  "find_index p xs = None \<Longrightarrow> p y \<Longrightarrow> find_index p (xs @ [y]) = Some (length xs)"
  by (induction xs) (auto split: if_splits)

lemma add_index:
  assumes "add tt k = Some (tt', i)"
  shows "\<exists>j. find_index (matches k) (tt_types tt') = Some j \<and> i = u32 j"
  using assms add_hit[of k tt] add_miss[of k tt tt' i] find_index_snoc[of "matches k" "tt_types tt"]
  by (cases "find_index (matches k) (tt_types tt)") auto

lemma add_valid:
  assumes "tt_wf tt'" "add tt k = Some (tt', i)"
  shows "\<exists>t. ny_type_get (tt_types tt') i = Some t \<and> matches k t"
proof -
  obtain j where j: "find_index (matches k) (tt_types tt') = Some j" "i = u32 j" using add_index[OF assms(2)] by blast
  then have "j < length (tt_types tt')" "matches k (tt_types tt' ! j)" using find_index_Some by fastforce+
  moreover have "u32 j = j" using calculation assms(1) by (simp add: tt_wf_def)
  ultimately show ?thesis using j by (simp add: ny_type_get_def)
qed

lemma get_stable:
  assumes "add tt k = Some (tt', i)" "ny_type_get (tt_types tt) j = Some t"
  shows "ny_type_get (tt_types tt') j = Some t"
  using assms add_prefix[OF assms(1)] by (auto simp: ny_type_get_def nth_append split: if_splits)

lemma again:
  assumes "add tt k = Some (tt', i)" "tt_types tt'' = tt_types tt' @ ts"
  shows "add tt'' k = Some (tt'', i)"
proof -
  obtain j where j: "find_index (matches k) (tt_types tt') = Some j" "i = u32 j" using add_index[OF assms(1)] by blast
  from find_index_append_Some[OF j(1), of ts] show ?thesis using add_hit[of k tt'' j] j(2) assms(2) by simp
qed

end

lemma elem_type_ok:
  assumes "tt_wf tt" "ny_type_get (tt_types tt) elem = Some e" "ty_kind t = NY_TYPE_KIND_VECTOR \<or> ty_kind t = NY_TYPE_KIND_ARRAY"
    "ty_elem_type t = elem" "ty_size t = u32 (ty_size e * n)" "ty_align t = ty_align e"
  shows "type_ok (length (tt_types tt)) t"
proof -
  have e: "ty_align e \<in> {1, 2, 4, 8, 16}" "ty_size e mod ty_align e = 0"
    using tt_wf_type_ok[OF assms(1,2)] by (auto simp: type_ok_def)
  then have "u32 (ty_size e * n) mod ty_align e = 0" by (intro align_multiple_wrap) auto
  then show ?thesis using assms(2-6) e(1) by (auto simp: type_ok_def ny_type_get_def split: if_splits)
qed

lemma struct_type_ok:
  assumes "tt_wf tt" "ty_kind t = NY_TYPE_KIND_STRUCT" "ty_field_types t = fs" "ty_size t = align_up32 e (ty_align t)"
    "ty_field_offsets t = offs" "struct_layout (tt_types tt @ [t0]) fs 0 1 = (offs, e, ty_align t)" "list_all (\<lambda>f. f < length (tt_types tt)) fs"
  shows "type_ok (length (tt_types tt)) t"
proof -
  have "\<forall>f \<in> set fs. field_align (tt_types tt) f \<in> {1, 2, 4, 8, 16}"
    using tt_wf_field_align[OF assms(1)] assms(7) by (auto simp only: list_all_iff)
  then have "ty_align t \<in> {1, 2, 4, 8, 16}"
    using struct_layout_align[of "tt_types tt" fs 0 1 offs e "ty_align t" "{1, 2, 4, 8, 16}"]
      assms(6) struct_layout_append[OF assms(7)] by simp
  then show ?thesis using align_up32_dvd assms(2-5,7) struct_layout_length[OF assms(6)] by (simp only: type_ok_def) (simp add: list_all_iff)
qed

definition vec_key :: "nat \<times> nat \<Rightarrow> ny_type \<Rightarrow> bool" where
  "vec_key k cur \<longleftrightarrow> ty_kind cur = NY_TYPE_KIND_VECTOR \<and> ty_elem_type cur = fst k \<and> ty_vector_lanes cur = snd k"

definition arr_key :: "nat \<times> nat \<Rightarrow> ny_type \<Rightarrow> bool" where
  "arr_key k cur \<longleftrightarrow> ty_kind cur = NY_TYPE_KIND_ARRAY \<and> ty_elem_type cur = fst k \<and> ty_array_count cur = snd k"

definition str_key :: "string \<times> nat list \<Rightarrow> ny_type \<Rightarrow> bool" where
  "str_key k cur \<longleftrightarrow> ty_kind cur = NY_TYPE_KIND_STRUCT \<and> ty_name cur = fst k"

interpretation vec: type_interner "\<lambda>tt k. ny_type_table_add_vector tt (fst k) (snd k)" vec_key "\<lambda>tt k. True"
proof unfold_locales
  show "tt_wf tt'" if wf: "tt_wf tt" and small: "length (tt_types tt) < 4294967295"
    and add: "ny_type_table_add_vector tt (fst k) (snd k) = Some (tt', i)" for tt k tt' i
    using add
  proof (cases rule: add_vector_cases)
    case (new e t)
    show ?thesis
      by (rule tt_wf_snoc[OF wf new(4) elem_type_ok[OF wf new(1)] small]) (use new in auto)
  qed (use wf in simp)
next
  show "ny_type_table_add_vector tt (fst k) (snd k) = Some (tt, u32 j)"
    if "find_index (vec_key k) (tt_types tt) = Some j" for tt k j
    using that by (simp add: ny_type_table_add_vector_def vec_key_def[abs_def])
  show "\<exists>t. tt_types tt' = tt_types tt @ [t] \<and> vec_key k t \<and> i = u32 (length (tt_types tt))"
    if "find_index (vec_key k) (tt_types tt) = None" "ny_type_table_add_vector tt (fst k) (snd k) = Some (tt', i)" for tt k tt' i
    using that(2,1) by (cases rule: add_vector_cases) (auto simp: vec_key_def[abs_def])
qed

interpretation arr: type_interner "\<lambda>tt k. ny_type_table_add_array tt (fst k) (snd k)" arr_key "\<lambda>tt k. True"
proof unfold_locales
  show "tt_wf tt'" if wf: "tt_wf tt" and small: "length (tt_types tt) < 4294967295"
    and add: "ny_type_table_add_array tt (fst k) (snd k) = Some (tt', i)" for tt k tt' i
    using add
  proof (cases rule: add_array_cases)
    case (new e t)
    show ?thesis
      by (rule tt_wf_snoc[OF wf new(4) elem_type_ok[OF wf new(1)] small]) (use new in auto)
  qed (use wf in simp)
next
  show "ny_type_table_add_array tt (fst k) (snd k) = Some (tt, u32 j)"
    if "find_index (arr_key k) (tt_types tt) = Some j" for tt k j
    using that by (simp add: ny_type_table_add_array_def arr_key_def[abs_def])
  show "\<exists>t. tt_types tt' = tt_types tt @ [t] \<and> arr_key k t \<and> i = u32 (length (tt_types tt))"
    if "find_index (arr_key k) (tt_types tt) = None" "ny_type_table_add_array tt (fst k) (snd k) = Some (tt', i)" for tt k tt' i
    using that(2,1) by (cases rule: add_array_cases) (auto simp: arr_key_def[abs_def])
qed

interpretation str: type_interner "\<lambda>tt k. ny_type_table_add_struct tt (Some (fst k)) (snd k)" str_key
  "\<lambda>tt k. list_all (\<lambda>f. f < length (tt_types tt)) (snd k)"
proof unfold_locales
  show "tt_wf tt'" if wf: "tt_wf tt" and ok: "list_all (\<lambda>f. f < length (tt_types tt)) (snd k)"
    and small: "length (tt_types tt) < 4294967295"
    and add: "ny_type_table_add_struct tt (Some (fst k)) (snd k) = Some (tt', i)" for tt k tt' i
    using add
  proof (cases rule: add_struct_cases)
    case (new t0 t offs e)
    show ?thesis
      by (rule tt_wf_snoc[OF wf new(3) struct_type_ok[OF wf new(4,6,7,8,9) ok] small])
  qed (use wf in simp)
next
  show "ny_type_table_add_struct tt (Some (fst k)) (snd k) = Some (tt, u32 j)"
    if "find_index (str_key k) (tt_types tt) = Some j" for tt k j
    using that by (simp add: ny_type_table_add_struct_def str_key_def[abs_def])
  show "\<exists>t. tt_types tt' = tt_types tt @ [t] \<and> str_key k t \<and> i = u32 (length (tt_types tt))"
    if "find_index (str_key k) (tt_types tt) = None" "ny_type_table_add_struct tt (Some (fst k)) (snd k) = Some (tt', i)" for tt k tt' i
    using that(2,1) by (cases rule: add_struct_cases) (auto simp: str_key_def[abs_def])
qed

subsection \<open>Sequences of additions\<close>

text \<open>One call of the table's clients: a vector, an array or a named struct.\<close>

datatype type_key = KVector nat nat | KArray nat nat | KStruct string "nat list"

fun type_add :: "ny_type_table \<Rightarrow> type_key \<Rightarrow> (ny_type_table \<times> nat) option" where
  "type_add tt (KVector e n) = ny_type_table_add_vector tt e n"
| "type_add tt (KArray e n) = ny_type_table_add_array tt e n"
| "type_add tt (KStruct nm fs) = ny_type_table_add_struct tt (Some nm) fs"

fun type_key_matches :: "type_key \<Rightarrow> ny_type \<Rightarrow> bool" where
  "type_key_matches (KVector e n) = vec_key (e, n)"
| "type_key_matches (KArray e n) = arr_key (e, n)"
| "type_key_matches (KStruct nm fs) = str_key (nm, fs)"

fun type_key_ok :: "ny_type_table \<Rightarrow> type_key \<Rightarrow> bool" where
  "type_key_ok tt (KStruct nm fs) = list_all (\<lambda>f. f < length (tt_types tt)) fs"
| "type_key_ok tt k = True"

interpretation tys: type_interner type_add type_key_matches type_key_ok
proof unfold_locales
  show "type_add tt k = Some (tt, u32 j)" if "find_index (type_key_matches k) (tt_types tt) = Some j" for k tt j
    using that by (cases k) (simp_all add: vec.add_hit[of "(_, _)", simplified] arr.add_hit[of "(_, _)", simplified]
        str.add_hit[of "(_, _)", simplified])
  show "\<exists>t. tt_types tt' = tt_types tt @ [t] \<and> type_key_matches k t \<and> i = u32 (length (tt_types tt))"
    if "find_index (type_key_matches k) (tt_types tt) = None" "type_add tt k = Some (tt', i)" for k tt tt' i
    using that by (cases k) (auto dest: vec.add_miss[of "(_, _)", simplified] arr.add_miss[of "(_, _)", simplified]
        str.add_miss[of "(_, _)", simplified])
  show "tt_wf tt'" if "tt_wf tt" "type_key_ok tt k" "length (tt_types tt) < 4294967295" "type_add tt k = Some (tt', i)"
    for k tt tt' i
    using that by (cases k) (auto dest: vec.add_wf[of _ "(_, _)", simplified] arr.add_wf[of _ "(_, _)", simplified]
        str.add_wf[of _ "(_, _)", simplified])
qed

inductive type_adds :: "ny_type_table \<Rightarrow> ny_type_table \<Rightarrow> bool" where
  adds_refl: "type_adds tt tt"
| adds_step: "type_adds tt tt1 \<Longrightarrow> type_key_ok tt1 k \<Longrightarrow> length (tt_types tt1) < 4294967295 \<Longrightarrow>
    type_add tt1 k = Some (tt2, i) \<Longrightarrow> type_adds tt tt2"

lemma type_adds_prefix: "type_adds tt tt' \<Longrightarrow> \<exists>ts. tt_types tt' = tt_types tt @ ts"
  by (induction rule: type_adds.induct) (force dest: tys.add_prefix)+

lemma type_adds_wf: "type_adds tt tt' \<Longrightarrow> tt_wf tt \<Longrightarrow> tt_wf tt'"
  by (induction rule: type_adds.induct) (auto intro: tys.add_wf)

text \<open>
  C34. Interning: an id returned by the type table names a matching type of a well-formed table;
  after any further sequence of additions the id still names the same type, and asking for the
  same type again returns the same id and leaves the table unchanged.
\<close>

theorem type_table_interns:
  assumes "type_adds ny_type_table_init tt" "type_key_ok tt k" "length (tt_types tt) < 4294967295"
    and "type_add tt k = Some (tt1, i)" and "type_adds tt1 tt2"
  shows "\<exists>t. type_key_matches k t \<and> type_ok i t \<and> ny_type_get (tt_types tt1) i = Some t
    \<and> ny_type_get (tt_types tt2) i = Some t \<and> type_add tt2 k = Some (tt2, i)"
proof -
  have wf: "tt_wf tt1" using type_adds_wf[OF assms(1) tt_wf_init] assms(2-4) tys.add_wf by blast
  obtain t where t: "ny_type_get (tt_types tt1) i = Some t" "type_key_matches k t"
    using tys.add_valid[OF wf assms(4)] by blast
  obtain ts where ts: "tt_types tt2 = tt_types tt1 @ ts" using type_adds_prefix[OF assms(5)] by blast
  have "ny_type_get (tt_types tt2) i = Some t" using t(1) ts by (auto simp: ny_type_get_def nth_append split: if_splits)
  moreover have "type_ok i t" using tt_wf_type_ok[OF wf t(1)] .
  ultimately show ?thesis using t tys.again[OF assms(4) ts] by blast
qed

theorem type_table_interns_witness:
  "\<exists>tt1 tt2 t. type_adds tt1 tt2 \<and> ny_type_get (tt_types tt1) 10 = Some t \<and> ny_type_get (tt_types tt2) 10 = Some t
     \<and> vec_key (7, 4) t \<and> ny_type_table_add_vector tt2 7 4 = Some (tt2, 10) \<and> length (tt_types tt2) = 12"
proof -
  define t1 where "t1 = zero_type\<lparr>ty_kind := NY_TYPE_KIND_VECTOR, ty_elem_type := 7,
      ty_vector_lanes := 4, ty_size := 16, ty_align := 4, ty_name := ''v4f32''\<rparr>"
  define tt1 where "tt1 = ny_type_table_init\<lparr>tt_types := tt_types ny_type_table_init @ [t1]\<rparr>"
  have digits: "show_nat 4 = ''4''" "show_nat 2 = ''2''" by (simp_all add: show_nat.simps char_of_def bit_0)
  have a1: "type_add ny_type_table_init (KVector 7 4) = Some (tt1, 10)"
    by (simp add: ny_type_table_add_vector_def ny_type_table_init_def g_primitive_types_def zero_type_def
        ny_type_get_def grow_types_def name_buf_def Let_def digits tt1_def t1_def)
  obtain t2 where a2: "type_add tt1 (KArray 10 2) = Some (tt1\<lparr>tt_types := tt_types tt1 @ [t2]\<rparr>, 11)"
    by (simp add: ny_type_table_add_array_def ny_type_table_init_def g_primitive_types_def zero_type_def
        ny_type_get_def grow_types_def name_buf_def Let_def digits tt1_def t1_def)
  define tt2 where "tt2 = tt1\<lparr>tt_types := tt_types tt1 @ [t2]\<rparr>"
  have l2: "length (tt_types tt2) = 12" by (simp add: tt2_def tt1_def ny_type_table_init_def g_primitive_types_def)
  note a2 = a2[folded tt2_def]
  have l0: "length (tt_types ny_type_table_init) = 10" by (simp add: ny_type_table_init_def g_primitive_types_def)
  have s2: "type_adds tt1 tt2" by (rule adds_step[OF adds_refl _ _ a2]) (simp_all add: tt1_def l0)
  show ?thesis using type_table_interns[OF adds_refl _ _ a1 s2] l0 s2 l2 by auto
qed

text \<open>
  Growing the table while a vector type is added reads the element through a pointer into the
  old storage: with a full table and a type not yet present, \<^verbatim>\<open>ny_type_table_add_vector\<close> has no
  defined result, although the element exists.
\<close>

theorem add_vector_full_table_undefined:
  assumes "tt_capacity tt = length (tt_types tt)" "find_index (vec_key (elem, lanes)) (tt_types tt) = None"
  shows "ny_type_table_add_vector tt elem lanes = None"
  using assms by (auto simp: ny_type_table_add_vector_def vec_key_def[abs_def] grow_types_def split: Option.bind_splits)

theorem add_vector_full_table_undefined_witness:
  "ny_type_table_add_vector (ny_type_table_init\<lparr>tt_capacity := 10\<rparr>) NY_TYPE_I32 4 = None"
  by (rule add_vector_full_table_undefined)
    (simp_all add: ny_type_table_init_def g_primitive_types_def vec_key_def zero_type_def)

end
