(* ===== verification/Abi.thy ===== *)
theory Abi
  imports Types
begin

text \<open>
  How the two targets pass aggregates and which registers their calling conventions use:
  \<^verbatim>\<open>src/target/aarch64/aarch64_abi.c\<close>, the ABI part of \<^verbatim>\<open>src/target/aarch64/aarch64_registers.c\<close>
  and of \<^verbatim>\<open>src/target/x86_64/x86_registers.c\<close>.  The classification routines recurse over the type
  table; they get fuel, and on a well-formed table \<open>Suc ty\<close> is enough for type \<open>ty\<close> because a type
  refers to earlier types only.
\<close>

datatype ny_target_abi = NY_ABI_SYSV_AMD64 | NY_ABI_WINDOWS_X64 | NY_ABI_AAPCS64

subsection \<open>AAPCS64 classification\<close>

datatype ny_aapcs64_kind = NY_AAPCS64_SCALAR | NY_AAPCS64_GPR_AGG | NY_AAPCS64_HFA | NY_AAPCS64_INDIRECT

record ny_aapcs64_abi =
  aa_kind :: ny_aapcs64_kind
  aa_size :: nat
  aa_reg_count :: nat
  aa_hfa_member :: nat

text \<open>The member loops: the out parameters are the pair, and the first failure ends the loop.\<close>

fun hfa_seq :: "(nat \<Rightarrow> nat \<times> nat \<Rightarrow> (bool \<times> nat \<times> nat) option) \<Rightarrow> nat list \<Rightarrow> nat \<times> nat
    \<Rightarrow> (bool \<times> nat \<times> nat) option" where
  "hfa_seq f [] st = Some (snd st \<le> 4, st)"
| "hfa_seq f (ty # tys) st = do {
     (ok, st') \<leftarrow> f ty st;
     if \<not> ok then Some (False, st') else hfa_seq f tys st'
   }"

definition hfa_leaf :: "nat \<Rightarrow> nat \<times> nat \<Rightarrow> bool \<times> nat \<times> nat" where
  "hfa_leaf ty st =
     (if \<not> ny_type_is_float ty then (False, st)
      else if fst st = NY_INVALID_TYPE then (u32 (snd st + 1) \<le> 4, ty, u32 (snd st + 1))
      else if fst st \<noteq> ty then (False, st)
      else (u32 (snd st + 1) \<le> 4, fst st, u32 (snd st + 1)))"

fun classify_hfa_recursive :: "nat \<Rightarrow> ny_type list \<Rightarrow> nat \<Rightarrow> nat \<times> nat \<Rightarrow> (bool \<times> nat \<times> nat) option" where
  "classify_hfa_recursive 0 types ty st = None"
| "classify_hfa_recursive (Suc fuel) types ty st =
     (case ny_type_get types ty of
        None \<Rightarrow> Some (False, st)
      | Some t \<Rightarrow>
          (case ty_kind t of
             NY_TYPE_KIND_PRIMITIVE \<Rightarrow> Some (hfa_leaf ty st)
           | NY_TYPE_KIND_POINTER \<Rightarrow> Some (hfa_leaf ty st)
           | NY_TYPE_KIND_ARRAY \<Rightarrow>
               hfa_seq (classify_hfa_recursive fuel types) (replicate (ty_array_count t) (ty_elem_type t)) st
           | NY_TYPE_KIND_STRUCT \<Rightarrow> hfa_seq (classify_hfa_recursive fuel types) (ty_field_types t) st
           | NY_TYPE_KIND_VECTOR \<Rightarrow> Some (False, st)))"

definition aarch64_abi_classify_aggregate :: "nat \<Rightarrow> ny_type list \<Rightarrow> nat \<Rightarrow> ny_aapcs64_abi option" where
  "aarch64_abi_classify_aggregate fuel types ty =
     (let r = \<lparr>aa_kind = NY_AAPCS64_SCALAR, aa_size = 0, aa_reg_count = 0, aa_hfa_member = NY_INVALID_TYPE\<rparr> in
      if \<not> ny_type_is_aggregate types ty then Some r
      else
        let r = r\<lparr>aa_size := ny_type_size types ty\<rparr> in
        if aa_size r = 0 then Some r
        else do {
          (ok, hfa_member, hfa_count) \<leftarrow> classify_hfa_recursive fuel types ty (NY_INVALID_TYPE, 0);
          if ok \<and> hfa_count > 0
          then Some (r\<lparr>aa_kind := NY_AAPCS64_HFA, aa_reg_count := hfa_count mod 256, aa_hfa_member := hfa_member\<rparr>)
          else if aa_size r \<le> 16
          then (let n = u32 (aa_size r + 7) div 8 mod 256
                in Some (r\<lparr>aa_kind := NY_AAPCS64_GPR_AGG, aa_reg_count := (if n = 0 then 1 else n)\<rparr>))
          else Some (r\<lparr>aa_kind := NY_AAPCS64_INDIRECT\<rparr>)
        })"

text \<open>
  The scalar members of a type, in order, with vectors and unknown ids as members of their own:
  what the standard calls the fundamental data types a composite is made of.
\<close>

fun type_leaves :: "nat \<Rightarrow> ny_type list \<Rightarrow> nat \<Rightarrow> nat list" where
  "type_leaves 0 types ty = []"
| "type_leaves (Suc fuel) types ty =
     (case ny_type_get types ty of
        None \<Rightarrow> [NY_INVALID_TYPE]
      | Some t \<Rightarrow>
          (case ty_kind t of
             NY_TYPE_KIND_ARRAY \<Rightarrow> concat (replicate (ty_array_count t) (type_leaves fuel types (ty_elem_type t)))
           | NY_TYPE_KIND_STRUCT \<Rightarrow> concat (map (type_leaves fuel types) (ty_field_types t))
           | NY_TYPE_KIND_VECTOR \<Rightarrow> [NY_INVALID_TYPE]
           | _ \<Rightarrow> [ty]))"

text \<open>The effect of a sequence of members on the pair of out parameters.\<close>

fun absorb :: "nat list \<Rightarrow> nat \<times> nat \<Rightarrow> bool \<times> nat \<times> nat" where
  "absorb [] st = (True, st)"
| "absorb (l # ls) st = (let (ok, st') = hfa_leaf l st in if \<not> ok then (False, st') else absorb ls st')"

lemma absorb_append:
  "absorb (xs @ ys) st = (let (ok, st') = absorb xs st in if \<not> ok then (False, st') else absorb ys st')"
  by (induction xs arbitrary: st) (auto simp: Let_def split: prod.splits)

lemma hfa_leaf_le4: "hfa_leaf l st = (True, st') \<Longrightarrow> snd st' \<le> 4"
  by (auto simp: hfa_leaf_def split: if_splits)

lemma absorb_le4: "absorb ls st = (True, st') \<Longrightarrow> snd st \<le> 4 \<Longrightarrow> snd st' \<le> 4"
  by (induction ls arbitrary: st) (auto simp: Let_def dest: hfa_leaf_le4 split: prod.splits if_splits)

lemma hfa_leaf_unknown: "hfa_leaf NY_INVALID_TYPE st = (False, st)"
  by (simp add: hfa_leaf_def ny_type_is_float_def NY_INVALID_def)

lemma hfa_seq_absorb:
  assumes "\<And>ty st. ty \<in> set tys \<Longrightarrow> snd st \<le> 4 \<Longrightarrow> f ty st = Some (absorb (g ty) st)" "snd st \<le> 4"
  shows "hfa_seq f tys st = Some (absorb (concat (map g tys)) st)"
  using assms
proof (induction tys arbitrary: st)
  case (Cons ty tys)
  obtain ok st' where a: "absorb (g ty) st = (ok, st')" by (metis surj_pair)
  have f: "f ty st = Some (ok, st')" using Cons.prems a by simp
  show ?case
  proof (cases ok)
    case True
    then have "snd st' \<le> 4" using a absorb_le4[of "g ty" st st'] Cons.prems(2) by simp
    with Cons.IH[of st'] Cons.prems(1) True f a show ?thesis by (simp add: absorb_append Let_def)
  qed (simp add: f a absorb_append Let_def)
qed simp

lemma classify_hfa_absorb:
  assumes "\<And>i. i < length types \<Longrightarrow> type_ok i (types ! i)" "ty < fuel" "snd st \<le> 4"
  shows "classify_hfa_recursive fuel types ty st = Some (absorb (type_leaves fuel types ty) st)"
  using assms(2,3)
proof (induction fuel arbitrary: ty st)
  case (Suc fuel)
  show ?case
  proof (cases "ny_type_get types ty")
    case None
    then show ?thesis by (simp add: hfa_leaf_unknown)
  next
    case (Some t)
    then have ok: "type_ok ty t" using assms(1)[of ty] by (auto simp: ny_type_get_def split: if_splits)
    have IH: "f < ty \<Longrightarrow> snd st \<le> 4 \<Longrightarrow>
      classify_hfa_recursive fuel types f st = Some (absorb (type_leaves fuel types f) st)" for f st
      using Suc.IH[of f st] Suc.prems(1) by simp
    show ?thesis
    proof (cases "ty_kind t")
      case NY_TYPE_KIND_ARRAY
      then have "ty_elem_type t < ty" using ok by (simp add: type_ok_def)
      from hfa_seq_absorb[of "replicate (ty_array_count t) (ty_elem_type t)", OF IH Suc.prems(2)] this
      show ?thesis using Some NY_TYPE_KIND_ARRAY by simp
    next
      case NY_TYPE_KIND_STRUCT
      then have "\<forall>f \<in> set (ty_field_types t). f < ty" using ok by (simp add: type_ok_def)
      from hfa_seq_absorb[of "ty_field_types t", OF IH Suc.prems(2)] this
      show ?thesis using Some NY_TYPE_KIND_STRUCT by simp
    qed (use Some in \<open>simp_all add: hfa_leaf_unknown split: prod.splits\<close>)
  qed
qed simp

lemma absorb_same:
  assumes "ny_type_is_float m" "n \<le> 4"
  shows "absorb ls (m, n) = (True, st') \<longleftrightarrow> (\<forall>l \<in> set ls. l = m) \<and> n + length ls \<le> 4 \<and> st' = (m, n + length ls)"
  using assms
proof (induction ls arbitrary: n)
  case (Cons l ls)
  have m: "m \<noteq> NY_INVALID_TYPE" using Cons.prems(1) by (simp add: ny_type_is_float_def NY_INVALID_def)
  show ?case
  proof (cases "l = m \<and> n + 1 \<le> 4")
    case True
    then show ?thesis using Cons.IH[of "n + 1"] Cons.prems m by (auto simp: hfa_leaf_def)
  qed (use Cons.prems m in \<open>auto simp: hfa_leaf_def Let_def split: if_splits\<close>)
qed auto

lemma eq_replicate_iff: "xs = replicate n x \<longleftrightarrow> length xs = n \<and> (\<forall>y \<in> set xs. y = x)"
  by (auto intro: replicate_eqI)

lemma absorb_start:
  "absorb ls (NY_INVALID_TYPE, 0) = (True, m, n) \<and> 0 < n \<longleftrightarrow>
     ny_type_is_float m \<and> 0 < n \<and> n \<le> 4 \<and> ls = replicate n m"
proof (cases ls)
  case (Cons l ls')
  show ?thesis
  proof (cases "ny_type_is_float l")
    case True
    then have "absorb ls (NY_INVALID_TYPE, 0) = absorb ls' (l, 1)" using Cons by (simp add: hfa_leaf_def)
    with absorb_same[OF True, of 1 ls' "(m, n)"] Cons True show ?thesis
      unfolding eq_replicate_iff by auto
  qed (use Cons in \<open>cases n; auto simp: hfa_leaf_def\<close>)
qed auto

text \<open>The AAPCS64 rules over the members of a type, its size and whether it is an aggregate.\<close>

definition aapcs64_rules :: "bool \<Rightarrow> nat \<Rightarrow> nat list \<Rightarrow> ny_aapcs64_abi" where
  "aapcs64_rules agg sz ls =
     (if \<not> agg \<or> sz = 0
      then \<lparr>aa_kind = NY_AAPCS64_SCALAR, aa_size = 0, aa_reg_count = 0, aa_hfa_member = NY_INVALID_TYPE\<rparr>
      else if ls \<noteq> [] \<and> length ls \<le> 4 \<and> ny_type_is_float (hd ls) \<and> (\<forall>l \<in> set ls. l = hd ls)
      then \<lparr>aa_kind = NY_AAPCS64_HFA, aa_size = sz, aa_reg_count = length ls, aa_hfa_member = hd ls\<rparr>
      else if sz \<le> 16
      then \<lparr>aa_kind = NY_AAPCS64_GPR_AGG, aa_size = sz, aa_reg_count = (sz + 7) div 8, aa_hfa_member = NY_INVALID_TYPE\<rparr>
      else \<lparr>aa_kind = NY_AAPCS64_INDIRECT, aa_size = sz, aa_reg_count = 0, aa_hfa_member = NY_INVALID_TYPE\<rparr>)"

lemma hfa_rule_iff:
  "(ls \<noteq> [] \<and> length ls \<le> 4 \<and> ny_type_is_float (hd ls) \<and> (\<forall>l \<in> set ls. l = hd ls)) \<longleftrightarrow>
     (\<exists>m n. absorb ls (NY_INVALID_TYPE, 0) = (True, m, n) \<and> 0 < n)"
proof
  assume l: "ls \<noteq> [] \<and> length ls \<le> 4 \<and> ny_type_is_float (hd ls) \<and> (\<forall>l \<in> set ls. l = hd ls)"
  then have "ls = replicate (length ls) (hd ls)" by (auto simp: eq_replicate_iff)
  then show "\<exists>m n. absorb ls (NY_INVALID_TYPE, 0) = (True, m, n) \<and> 0 < n"
    using absorb_start[of ls "hd ls" "length ls"] l by auto
next
  assume "\<exists>m n. absorb ls (NY_INVALID_TYPE, 0) = (True, m, n) \<and> 0 < n"
  then obtain m n where "ny_type_is_float m \<and> 0 < n \<and> n \<le> 4 \<and> ls = replicate n m"
    using absorb_start by blast
  then show "ls \<noteq> [] \<and> length ls \<le> 4 \<and> ny_type_is_float (hd ls) \<and> (\<forall>l \<in> set ls. l = hd ls)" by auto
qed

text \<open>
  C36. On a well-formed type table the AAPCS64 classification returns for every type id, and the result
  is what the rules give for the type's scalar members: a homogeneous float aggregate exactly when
  the members are one to four copies of one float type, otherwise general registers up to 16
  bytes and indirect above.  The float types are f16, f32 and f64, the three \<^verbatim>\<open>ny_type_is_float\<close> accepts: the
  comment at the head of the C file names only f32 and f64.
\<close>

theorem aarch64_classify_correct:
  assumes wf: "tt_wf tt" and fuel: "ty < fuel"
  shows "aarch64_abi_classify_aggregate fuel (tt_types tt) ty =
    Some (aapcs64_rules (ny_type_is_aggregate (tt_types tt) ty) (ny_type_size (tt_types tt) ty)
      (type_leaves fuel (tt_types tt) ty))"
proof (cases "\<not> ny_type_is_aggregate (tt_types tt) ty \<or> ny_type_size (tt_types tt) ty = 0")
  case True
  then show ?thesis by (auto simp: aarch64_abi_classify_aggregate_def aapcs64_rules_def Let_def)
next
  case False
  let ?ls = "type_leaves fuel (tt_types tt) ty"
  obtain ok m n where a: "absorb ?ls (NY_INVALID_TYPE, 0) = (ok, m, n)" by (metis prod_cases3)
  have c: "classify_hfa_recursive fuel (tt_types tt) ty (NY_INVALID_TYPE, 0) = Some (ok, m, n)"
    using classify_hfa_absorb[of "tt_types tt" ty fuel "(NY_INVALID_TYPE, 0)"] wf fuel a by (simp add: tt_wf_def)
  show ?thesis
  proof (cases "ok \<and> 0 < n")
    case True
    then have "ny_type_is_float m \<and> 0 < n \<and> n \<le> 4 \<and> ?ls = replicate n m" using absorb_start[of ?ls m n] a by simp
    then show ?thesis using False True c by (simp add: aarch64_abi_classify_aggregate_def aapcs64_rules_def Let_def)
  next
    case no: False
    then have "\<not> (?ls \<noteq> [] \<and> length ?ls \<le> 4 \<and> ny_type_is_float (hd ?ls) \<and> (\<forall>l \<in> set ?ls. l = hd ?ls))"
      unfolding hfa_rule_iff using a by simp
    moreover have "(ny_type_size (tt_types tt) ty + 7) div 8 \<noteq> 0" using False by linarith
    ultimately show ?thesis using False no c
      by (simp only: aarch64_abi_classify_aggregate_def aapcs64_rules_def Let_def) simp
  qed
qed

theorem aarch64_classify_correct_witness:
  "\<exists>tt i. ny_type_table_add_struct ny_type_table_init (Some ''P'') [NY_TYPE_F32, NY_TYPE_F32] = Some (tt, i)
    \<and> aarch64_abi_classify_aggregate 11 (tt_types tt) i =
        Some \<lparr>aa_kind = NY_AAPCS64_HFA, aa_size = 8, aa_reg_count = 2, aa_hfa_member = NY_TYPE_F32\<rparr>"
proof -
  define tt where "tt = ny_type_table_init\<lparr>tt_types := tt_types ny_type_table_init @
    [zero_type\<lparr>ty_kind := NY_TYPE_KIND_STRUCT, ty_size := 8, ty_align := 4, ty_field_types := [7, 7],
       ty_field_offsets := [0, 4], ty_name := ''P''\<rparr>]\<rparr>"
  note defs = ny_type_table_init_def g_primitive_types_def zero_type_def
  have add: "ny_type_table_add_struct ny_type_table_init (Some ''P'') [7, 7] = Some (tt, 10)"
    by (simp add: ny_type_table_add_struct_def defs grow_types_def Let_def ny_type_align_def ny_type_size_def
        ny_type_get_def align_up32_def tt_def)
  have wf: "tt_wf tt"
    by (rule str.add_wf[OF tt_wf_init, of "(''P'', [7, 7])" tt 10]) (simp_all add: add, simp_all add: defs)
  have "aapcs64_rules (ny_type_is_aggregate (tt_types tt) 10) (ny_type_size (tt_types tt) 10)
      (type_leaves 11 (tt_types tt) 10) =
    \<lparr>aa_kind = NY_AAPCS64_HFA, aa_size = 8, aa_reg_count = 2, aa_hfa_member = NY_TYPE_F32\<rparr>"
    by (simp add: tt_def defs aapcs64_rules_def ny_type_is_aggregate_def ny_type_size_def ny_type_get_def
        ny_type_is_float_def numeral_eq_Suc)
  then show ?thesis using aarch64_classify_correct[OF wf, of 10 11] add by auto
qed

subsection \<open>System V and Windows x64 classification\<close>

datatype ny_x86_eightbyte_class = NY_X86_CLASS_NONE | NY_X86_CLASS_INTEGER | NY_X86_CLASS_SSE | NY_X86_CLASS_MEMORY

record ny_x86_aggregate_abi =
  xa_size :: nat
  xa_pass_by_ref :: bool
  xa_return_sret :: bool
  xa_eightbyte_count :: nat
  xa_eightbytes :: "ny_x86_eightbyte_class list"

definition x86_leaf_class :: "ny_type \<Rightarrow> nat \<Rightarrow> ny_x86_eightbyte_class" where
  "x86_leaf_class ft field_ty =
     (if ty_kind ft = NY_TYPE_KIND_PRIMITIVE \<and> (field_ty = NY_TYPE_F32 \<or> field_ty = NY_TYPE_F64)
      then NY_X86_CLASS_SSE else NY_X86_CLASS_INTEGER)"

definition merge_class :: "ny_x86_eightbyte_class \<Rightarrow> ny_x86_eightbyte_class list \<Rightarrow> nat \<Rightarrow> ny_x86_eightbyte_class list" where
  "merge_class f_class classes base_offset =
     (let eightbyte_idx = base_offset div 8 in
      if eightbyte_idx \<ge> 2 then classes
      else if classes ! eightbyte_idx = NY_X86_CLASS_NONE then classes[eightbyte_idx := f_class]
      else if classes ! eightbyte_idx \<noteq> f_class then classes[eightbyte_idx := NY_X86_CLASS_INTEGER]
      else classes)"

fun classify_field_recursive :: "nat \<Rightarrow> ny_type list \<Rightarrow> nat \<Rightarrow> nat \<Rightarrow> ny_x86_eightbyte_class list
    \<Rightarrow> ny_x86_eightbyte_class list option" where
  "classify_field_recursive 0 types field_ty base_offset classes = None"
| "classify_field_recursive (Suc fuel) types field_ty base_offset classes =
     (case ny_type_get types field_ty of
        None \<Rightarrow> Some classes
      | Some ft \<Rightarrow>
          (if ty_kind ft = NY_TYPE_KIND_STRUCT then
             foldM (\<lambda>cl i. do {
                 f_off \<leftarrow> (if ty_field_offsets ft = [] then Some 0 else rd (ty_field_offsets ft) i);
                 f \<leftarrow> rd (ty_field_types ft) i;
                 classify_field_recursive fuel types f (u32 (base_offset + f_off)) cl
               }) classes [0..<length (ty_field_types ft)]
           else if ty_kind ft = NY_TYPE_KIND_ARRAY then
             (let elem_sz = ny_type_size types (ty_elem_type ft) in
              foldM (\<lambda>cl i. classify_field_recursive fuel types (ty_elem_type ft) (u32 (base_offset + u32 (i * elem_sz))) cl)
                classes [0..<ty_array_count ft])
           else Some (merge_class (x86_leaf_class ft field_ty) classes base_offset)))"

definition x86_abi_classify_aggregate :: "nat \<Rightarrow> ny_type list \<Rightarrow> nat \<Rightarrow> ny_target_abi \<Rightarrow> ny_x86_aggregate_abi option" where
  "x86_abi_classify_aggregate fuel types ty abi =
     (let sz = ny_type_size types ty;
          res = \<lparr>xa_size = sz, xa_pass_by_ref = False, xa_return_sret = False, xa_eightbyte_count = 0,
                 xa_eightbytes = [NY_X86_CLASS_NONE, NY_X86_CLASS_NONE]\<rparr> in
      if abi = NY_ABI_WINDOWS_X64 then
        (if sz = 1 \<or> sz = 2 \<or> sz = 4 \<or> sz = 8
         then Some (res\<lparr>xa_eightbyte_count := 1, xa_eightbytes := (xa_eightbytes res)[0 := NY_X86_CLASS_INTEGER]\<rparr>)
         else Some (res\<lparr>xa_pass_by_ref := True, xa_return_sret := True\<rparr>))
      else if sz = 0 then Some res
      else if sz > 16 then Some (res\<lparr>xa_pass_by_ref := True, xa_return_sret := True\<rparr>)
      else do {
        let n = (if sz \<le> 8 then 1 else 2);
        classes \<leftarrow> (if ny_type_is_aggregate types ty
                    then classify_field_recursive fuel types ty 0 [NY_X86_CLASS_NONE, NY_X86_CLASS_NONE]
                    else Some [NY_X86_CLASS_INTEGER, NY_X86_CLASS_NONE]);
        Some (res\<lparr>xa_eightbyte_count := n, xa_eightbytes :=
          map (\<lambda>i. if i < n then (if classes ! i = NY_X86_CLASS_NONE then NY_X86_CLASS_INTEGER else classes ! i)
                   else NY_X86_CLASS_NONE) [0, 1]\<rparr>)
      })"

text \<open>The scalar members of a type with their offsets and classes.\<close>

fun x86_leaves :: "nat \<Rightarrow> ny_type list \<Rightarrow> nat \<Rightarrow> nat \<Rightarrow> (nat \<times> ny_x86_eightbyte_class) list" where
  "x86_leaves 0 types ty base = []"
| "x86_leaves (Suc fuel) types ty base =
     (case ny_type_get types ty of
        None \<Rightarrow> []
      | Some t \<Rightarrow>
          (if ty_kind t = NY_TYPE_KIND_STRUCT
           then concat (map (\<lambda>(f, off). x86_leaves fuel types f (u32 (base + off))) (zip (ty_field_types t) (ty_field_offsets t)))
           else if ty_kind t = NY_TYPE_KIND_ARRAY
           then concat (map (\<lambda>i. x86_leaves fuel types (ty_elem_type t) (u32 (base + u32 (i * ny_type_size types (ty_elem_type t)))))
                         [0..<ty_array_count t])
           else [(base, x86_leaf_class t ty)]))"

text \<open>The class of one eightbyte, from the members that start in it.\<close>

definition eightbyte_class :: "(nat \<times> ny_x86_eightbyte_class) list \<Rightarrow> nat \<Rightarrow> ny_x86_eightbyte_class" where
  "eightbyte_class ls k =
     (let cs = map snd (filter (\<lambda>l. fst l div 8 = k) ls) in
      if cs = [] then NY_X86_CLASS_NONE
      else if \<forall>c \<in> set cs. c = NY_X86_CLASS_SSE then NY_X86_CLASS_SSE else NY_X86_CLASS_INTEGER)"

definition classes_of :: "(nat \<times> ny_x86_eightbyte_class) list \<Rightarrow> ny_x86_eightbyte_class list" where
  "classes_of ls = [eightbyte_class ls 0, eightbyte_class ls 1]"

lemma merge_class_snoc:
  assumes "c = NY_X86_CLASS_SSE \<or> c = NY_X86_CLASS_INTEGER"
  shows "merge_class c (classes_of ls) off = classes_of (ls @ [(off, c)])"
proof -
  consider "off div 8 = 0" | "off div 8 = 1" | "off div 8 \<ge> 2" by linarith
  then show ?thesis
    by cases (use assms in \<open>auto simp: merge_class_def classes_of_def eightbyte_class_def Let_def filter_empty_conv intro: bexI[rotated]\<close>)
qed

lemma foldM_emits:
  assumes "\<And>x ls. x \<in> set xs \<Longrightarrow> f (C ls) x = Some (C (ls @ g x))"
  shows "foldM f (C ls) xs = Some (C (ls @ concat (map g xs)))"
  using assms by (induction xs arbitrary: ls) simp_all

lemma zip_map_upt: "length ys = length xs \<Longrightarrow> map (\<lambda>(x, y). h x y) (zip xs ys) = map (\<lambda>i. h (xs ! i) (ys ! i)) [0..<length xs]"
  by (rule nth_equalityI) auto

lemma classify_field_leaves:
  assumes "\<And>i. i < length types \<Longrightarrow> type_ok i (types ! i)" "ty < fuel"
  shows "classify_field_recursive fuel types ty base (classes_of ls) = Some (classes_of (ls @ x86_leaves fuel types ty base))"
  using assms(2)
proof (induction fuel arbitrary: ty base ls)
  case (Suc fuel)
  show ?case
  proof (cases "ny_type_get types ty")
    case (Some t)
    then have ok: "type_ok ty t" using assms(1)[of ty] by (auto simp: ny_type_get_def split: if_splits)
    have IH: "f < ty \<Longrightarrow> classify_field_recursive fuel types f b (classes_of ls) =
        Some (classes_of (ls @ x86_leaves fuel types f b))" for f b ls
      using Suc.IH[of f b ls] Suc.prems by simp
    consider (str) "ty_kind t = NY_TYPE_KIND_STRUCT" | (arr) "ty_kind t = NY_TYPE_KIND_ARRAY"
      | (leaf) "ty_kind t \<noteq> NY_TYPE_KIND_STRUCT" "ty_kind t \<noteq> NY_TYPE_KIND_ARRAY" by blast
    then show ?thesis
    proof cases
      case str
      let ?fs = "ty_field_types t" and ?os = "ty_field_offsets t"
      have le: "length ?os = length ?fs" and lt: "\<And>i. i < length ?fs \<Longrightarrow> ?fs ! i < ty"
        using ok str by (auto simp: type_ok_def)
      have "foldM (\<lambda>cl i. do {
                 f_off \<leftarrow> (if ?os = [] then Some 0 else rd ?os i);
                 f \<leftarrow> rd ?fs i;
                 classify_field_recursive fuel types f (u32 (base + f_off)) cl
               }) (classes_of ls) [0..<length ?fs]
        = Some (classes_of (ls @ concat (map (\<lambda>i. x86_leaves fuel types (?fs ! i) (u32 (base + ?os ! i))) [0..<length ?fs])))"
        by (rule foldM_emits) (use le lt in \<open>auto simp: IH\<close>)
      then show ?thesis using Some str zip_map_upt[OF le, of "\<lambda>f off. x86_leaves fuel types f (u32 (base + off))"] by simp
    next
      case arr
      then have "ty_elem_type t < ty" using ok by (simp add: type_ok_def)
      then show ?thesis using Some arr by (simp add: Let_def) (rule foldM_emits, simp add: IH)
    next
      case leaf
      then show ?thesis using Some by (simp add: merge_class_snoc x86_leaf_class_def)
    qed
  qed simp
qed simp

text \<open>
  C37. System V classification: on a well-formed table an aggregate of 1 to 16 bytes is passed in
  one or two eightbytes; an eightbyte is SSE exactly when some scalar member starts in it and
  every such member is \<^verbatim>\<open>f32\<close> or \<^verbatim>\<open>f64\<close>, and INTEGER otherwise.
\<close>

theorem x86_sysv_classify_correct:
  assumes wf: "tt_wf tt" and fuel: "ty < fuel" and abi: "abi \<noteq> NY_ABI_WINDOWS_X64"
    and agg: "ny_type_is_aggregate (tt_types tt) ty"
    and sz: "0 < ny_type_size (tt_types tt) ty" "ny_type_size (tt_types tt) ty \<le> 16"
  shows "\<exists>r. x86_abi_classify_aggregate fuel (tt_types tt) ty abi = Some r
    \<and> xa_size r = ny_type_size (tt_types tt) ty \<and> \<not> xa_pass_by_ref r \<and> \<not> xa_return_sret r
    \<and> xa_eightbyte_count r = (xa_size r + 7) div 8
    \<and> (\<forall>k < xa_eightbyte_count r. xa_eightbytes r ! k =
          (if eightbyte_class (x86_leaves fuel (tt_types tt) ty 0) k = NY_X86_CLASS_SSE
           then NY_X86_CLASS_SSE else NY_X86_CLASS_INTEGER))"
proof -
  let ?ls = "x86_leaves fuel (tt_types tt) ty 0"
  have "classes_of [] = [NY_X86_CLASS_NONE, NY_X86_CLASS_NONE]" by (simp add: classes_of_def eightbyte_class_def)
  then have c: "classify_field_recursive fuel (tt_types tt) ty 0 [NY_X86_CLASS_NONE, NY_X86_CLASS_NONE] = Some (classes_of ?ls)"
    using classify_field_leaves[of "tt_types tt" ty fuel 0 "[]"] wf fuel by (simp add: tt_wf_def)
  have cls: "eightbyte_class ?ls k \<in> {NY_X86_CLASS_NONE, NY_X86_CLASS_SSE, NY_X86_CLASS_INTEGER}" for k
    by (simp add: eightbyte_class_def Let_def)
  define sz' where "sz' = ny_type_size (tt_types tt) ty"
  define n :: nat where "n = (if sz' \<le> 8 then 1 else 2)"
  define fin where "fin i = (if i < n then (if classes_of ?ls ! i = NY_X86_CLASS_NONE then NY_X86_CLASS_INTEGER
      else classes_of ?ls ! i) else NY_X86_CLASS_NONE)" for i
  have r: "x86_abi_classify_aggregate fuel (tt_types tt) ty abi = Some \<lparr>xa_size = sz', xa_pass_by_ref = False,
      xa_return_sret = False, xa_eightbyte_count = n, xa_eightbytes = [fin 0, fin 1]\<rparr>"
    using c agg sz abi by (simp add: x86_abi_classify_aggregate_def sz'_def n_def fin_def)
  have cnt: "n = (sz' + 7) div 8" using sz by (auto simp: n_def sz'_def)
  have "[fin 0, fin 1] ! k = (if eightbyte_class ?ls k = NY_X86_CLASS_SSE then NY_X86_CLASS_SSE else NY_X86_CLASS_INTEGER)"
    if "k < n" for k
  proof -
    have "k = 0 \<or> k = 1" using that by (auto simp: n_def split: if_splits)
    then show ?thesis using that cls[of k] by (elim disjE) (auto simp: fin_def classes_of_def)
  qed
  then show ?thesis unfolding r using cnt by (intro exI[of _ "\<lparr>xa_size = sz', xa_pass_by_ref = False,
      xa_return_sret = False, xa_eightbyte_count = n, xa_eightbytes = [fin 0, fin 1]\<rparr>"]) (simp add: sz'_def)
qed

theorem x86_sysv_classify_correct_witness:
  "\<exists>tt i r. ny_type_table_add_struct ny_type_table_init (Some ''Q'') [NY_TYPE_F64, NY_TYPE_I64] = Some (tt, i)
    \<and> x86_abi_classify_aggregate 11 (tt_types tt) i NY_ABI_SYSV_AMD64 = Some r
    \<and> xa_eightbyte_count r = 2 \<and> xa_eightbytes r ! 0 = NY_X86_CLASS_SSE \<and> xa_eightbytes r ! 1 = NY_X86_CLASS_INTEGER"
proof -
  define tt where "tt = ny_type_table_init\<lparr>tt_types := tt_types ny_type_table_init @
    [zero_type\<lparr>ty_kind := NY_TYPE_KIND_STRUCT, ty_size := 16, ty_align := 8, ty_field_types := [8, 4],
       ty_field_offsets := [0, 8], ty_name := ''Q''\<rparr>]\<rparr>"
  note defs = ny_type_table_init_def g_primitive_types_def zero_type_def
  have add: "ny_type_table_add_struct ny_type_table_init (Some ''Q'') [8, 4] = Some (tt, 10)"
    by (simp add: ny_type_table_add_struct_def defs grow_types_def tt_def,
        simp add: ny_type_align_def ny_type_size_def ny_type_get_def, simp add: align_up32_def)
  have wf: "tt_wf tt"
    by (rule str.add_wf[OF tt_wf_init, of "(''Q'', [8, 4])" tt 10]) (simp_all add: add, simp_all add: defs)
  have lv: "x86_leaves 11 (tt_types tt) 10 0 = [(0, NY_X86_CLASS_SSE), (8, NY_X86_CLASS_INTEGER)]"
    by (simp add: x86_leaves.simps(2)[of "pred_numeral _", folded numeral_eq_Suc] tt_def defs ny_type_get_def x86_leaf_class_def)
  have sz: "ny_type_size (tt_types tt) 10 = 16" "ny_type_is_aggregate (tt_types tt) 10"
    by (simp_all add: tt_def defs ny_type_size_def ny_type_get_def ny_type_is_aggregate_def)
  obtain r where r: "x86_abi_classify_aggregate 11 (tt_types tt) 10 NY_ABI_SYSV_AMD64 = Some r" "xa_size r = 16"
    "xa_eightbyte_count r = (xa_size r + 7) div 8"
    "\<forall>k < xa_eightbyte_count r. xa_eightbytes r ! k =
          (if eightbyte_class (x86_leaves 11 (tt_types tt) 10 0) k = NY_X86_CLASS_SSE
           then NY_X86_CLASS_SSE else NY_X86_CLASS_INTEGER)"
    using x86_sysv_classify_correct[OF wf, of 10 11 NY_ABI_SYSV_AMD64] sz by auto
  have "xa_eightbyte_count r = 2" using r by simp
  moreover have "xa_eightbytes r ! 0 = NY_X86_CLASS_SSE" "xa_eightbytes r ! 1 = NY_X86_CLASS_INTEGER"
    using r(4)[rule_format, of 0] r(4)[rule_format, of 1] calculation lv
    by (simp_all add: eightbyte_class_def)
  ultimately show ?thesis using add r(1) by blast
qed

subsection \<open>Registers of the two targets\<close>

text \<open>Physical registers are the numbers of the C enumerations; a virtual register carries its id.\<close>

abbreviation (input) "X86_GPR_COUNT \<equiv> 16 :: nat"
abbreviation (input) "X86_XMM0 \<equiv> 16 :: nat"
abbreviation (input) "X86_XMM_COUNT \<equiv> 8 :: nat"
abbreviation (input) "AARCH64_SP \<equiv> 31 :: nat"
abbreviation (input) "AARCH64_GPR_COUNT \<equiv> 31 :: nat"
abbreviation (input) "AARCH64_V0 \<equiv> 32 :: nat"

record target_reg =
  rg_id :: nat
  rg_size :: nat
  rg_is_virtual :: bool
  rg_phys :: nat

definition s_reg_names_64 :: "string list" where
  "s_reg_names_64 =
     [''rax'', ''rcx'', ''rdx'', ''rbx'', ''rsp'', ''rbp'', ''rsi'', ''rdi'', ''r8'', ''r9'', ''r10'', ''r11'',
     ''r12'', ''r13'', ''r14'', ''r15'']"

definition s_reg_names_32 :: "string list" where
  "s_reg_names_32 =
     [''eax'', ''ecx'', ''edx'', ''ebx'', ''esp'', ''ebp'', ''esi'', ''edi'', ''r8d'', ''r9d'', ''r10d'', ''r11d'',
     ''r12d'', ''r13d'', ''r14d'', ''r15d'']"

definition s_reg_names_16 :: "string list" where
  "s_reg_names_16 =
     [''ax'', ''cx'', ''dx'', ''bx'', ''sp'', ''bp'', ''si'', ''di'', ''r8w'', ''r9w'', ''r10w'', ''r11w'',
     ''r12w'', ''r13w'', ''r14w'', ''r15w'']"

definition s_reg_names_8 :: "string list" where
  "s_reg_names_8 =
     [''al'', ''cl'', ''dl'', ''bl'', ''spl'', ''bpl'', ''sil'', ''dil'', ''r8b'', ''r9b'', ''r10b'', ''r11b'',
     ''r12b'', ''r13b'', ''r14b'', ''r15b'']"

definition s_reg_names_xmm :: "string list" where
  "s_reg_names_xmm =
     [''xmm0'', ''xmm1'', ''xmm2'', ''xmm3'', ''xmm4'', ''xmm5'', ''xmm6'', ''xmm7'']"

definition s_a64_names_64 :: "string list" where
  "s_a64_names_64 =
     [''x0'', ''x1'', ''x2'', ''x3'', ''x4'', ''x5'', ''x6'', ''x7'', ''x8'', ''x9'', ''x10'', ''x11'', ''x12'',
     ''x13'', ''x14'', ''x15'', ''x16'', ''x17'', ''x18'', ''x19'', ''x20'', ''x21'', ''x22'', ''x23'',
     ''x24'', ''x25'', ''x26'', ''x27'', ''x28'', ''fp'', ''lr'']"

definition s_a64_names_32 :: "string list" where
  "s_a64_names_32 =
     [''w0'', ''w1'', ''w2'', ''w3'', ''w4'', ''w5'', ''w6'', ''w7'', ''w8'', ''w9'', ''w10'', ''w11'', ''w12'',
     ''w13'', ''w14'', ''w15'', ''w16'', ''w17'', ''w18'', ''w19'', ''w20'', ''w21'', ''w22'', ''w23'',
     ''w24'', ''w25'', ''w26'', ''w27'', ''w28'', ''w29'', ''w30'']"

definition s_a64_names_v :: "string list" where
  "s_a64_names_v =
     [''v0'', ''v1'', ''v2'', ''v3'', ''v4'', ''v5'', ''v6'', ''v7'', ''v8'', ''v9'', ''v10'', ''v11'', ''v12'',
     ''v13'', ''v14'', ''v15'', ''v16'', ''v17'', ''v18'', ''v19'', ''v20'', ''v21'', ''v22'', ''v23'',
     ''v24'', ''v25'', ''v26'', ''v27'', ''v28'', ''v29'', ''v30'', ''v31'']"

definition x86_reg_name :: "target_reg \<Rightarrow> string option" where
  "x86_reg_name reg =
     (if rg_is_virtual reg then Some (''%v'' @ show_nat (rg_id reg))
      else if rg_phys reg \<ge> X86_XMM0 \<and> rg_phys reg < X86_XMM0 + X86_XMM_COUNT then rd s_reg_names_xmm (rg_phys reg - X86_XMM0)
      else if rg_phys reg \<ge> X86_GPR_COUNT then Some ''<invalid_reg>''
      else if rg_size reg = 1 then rd s_reg_names_8 (rg_phys reg)
      else if rg_size reg = 2 then rd s_reg_names_16 (rg_phys reg)
      else if rg_size reg = 4 then rd s_reg_names_32 (rg_phys reg)
      else rd s_reg_names_64 (rg_phys reg))"

definition aarch64_reg_name :: "target_reg \<Rightarrow> string option" where
  "aarch64_reg_name reg =
     (if rg_is_virtual reg then Some (''%v'' @ show_nat (rg_id reg))
      else if rg_phys reg = AARCH64_SP then Some (if rg_size reg = 4 then ''wsp'' else ''sp'')
      else if rg_phys reg \<ge> AARCH64_V0 then rd s_a64_names_v (rg_phys reg - AARCH64_V0)
      else if rg_phys reg \<ge> AARCH64_GPR_COUNT then Some ''<invalid_reg>''
      else if rg_size reg = 4 then rd s_a64_names_32 (rg_phys reg) else rd s_a64_names_64 (rg_phys reg))"

definition x86_abi_arg_regs :: "ny_target_abi \<Rightarrow> nat list" where
  "x86_abi_arg_regs abi = (if abi = NY_ABI_WINDOWS_X64 then [1, 2, 8, 9] else [7, 6, 2, 1, 8, 9])"

definition x86_abi_fp_arg_regs :: "ny_target_abi \<Rightarrow> nat list" where
  "x86_abi_fp_arg_regs abi = (if abi = NY_ABI_WINDOWS_X64 then [16, 17, 18, 19] else [16, 17, 18, 19, 20, 21, 22, 23])"

definition x86_abi_ret_reg :: "ny_target_abi \<Rightarrow> nat \<Rightarrow> bool \<Rightarrow> nat" where
  "x86_abi_ret_reg abi sz is_fp = (if is_fp then X86_XMM0 else 0)"

definition x86_abi_is_callee_saved :: "ny_target_abi \<Rightarrow> nat \<Rightarrow> bool" where
  "x86_abi_is_callee_saved abi reg =
     (if abi = NY_ABI_WINDOWS_X64
      then reg = 3 \<or> reg = 5 \<or> reg = 7 \<or> reg = 6 \<or> reg = 4 \<or> (reg \<ge> 12 \<and> reg \<le> 15)
      else reg = 3 \<or> reg = 4 \<or> reg = 5 \<or> (reg \<ge> 12 \<and> reg \<le> 15))"

definition aarch64_abi_arg_regs :: "ny_target_abi \<Rightarrow> nat list" where
  "aarch64_abi_arg_regs abi = [0, 1, 2, 3, 4, 5, 6, 7]"

definition aarch64_abi_fp_arg_regs :: "ny_target_abi \<Rightarrow> nat list" where
  "aarch64_abi_fp_arg_regs abi = [32, 33, 34, 35, 36, 37, 38, 39]"

definition aarch64_abi_ret_reg :: "ny_target_abi \<Rightarrow> nat \<Rightarrow> bool \<Rightarrow> nat" where
  "aarch64_abi_ret_reg abi sz is_fp = (if is_fp then AARCH64_V0 else 0)"

definition aarch64_abi_is_callee_saved :: "ny_target_abi \<Rightarrow> nat \<Rightarrow> bool" where
  "aarch64_abi_is_callee_saved abi reg \<longleftrightarrow>
     (reg \<ge> 19 \<and> reg \<le> 28) \<or> reg = 29 \<or> reg = 30 \<or> (reg \<ge> 40 \<and> reg \<le> 47)"

text \<open>
  What the register allocator and the frame code rely on: a calling convention's argument registers
  are distinct, and none of them nor the return registers must be preserved by the callee.
\<close>

locale calling_convention =
  fixes args fp_args :: "nat list" and ret fp_ret :: nat and callee_saved :: "nat \<Rightarrow> bool"
  assumes args_distinct: "distinct (args @ fp_args)"
    and args_scratch: "r \<in> set (args @ fp_args) \<Longrightarrow> \<not> callee_saved r"
    and ret_scratch: "\<not> callee_saved ret" "\<not> callee_saved fp_ret" "ret \<noteq> fp_ret"
begin

lemma arg_index_unique:
  "i < length (args @ fp_args) \<Longrightarrow> j < length (args @ fp_args) \<Longrightarrow> (args @ fp_args) ! i = (args @ fp_args) ! j \<Longrightarrow> i = j"
  using args_distinct nth_eq_iff_index_eq by blast

lemma preserved_disjoint:
  "{r. callee_saved r} \<inter> (set args \<union> set fp_args \<union> {ret, fp_ret}) = {}"
  using args_scratch ret_scratch by auto

end

interpretation x86cc: calling_convention "x86_abi_arg_regs abi" "x86_abi_fp_arg_regs abi"
  "x86_abi_ret_reg abi sz False" "x86_abi_ret_reg abi sz True" "x86_abi_is_callee_saved abi"
  by unfold_locales
    (auto simp: x86_abi_arg_regs_def x86_abi_fp_arg_regs_def x86_abi_ret_reg_def x86_abi_is_callee_saved_def split: if_splits)

interpretation a64cc: calling_convention "aarch64_abi_arg_regs abi" "aarch64_abi_fp_arg_regs abi"
  "aarch64_abi_ret_reg abi sz False" "aarch64_abi_ret_reg abi sz True" "aarch64_abi_is_callee_saved abi"
  by unfold_locales
    (auto simp: aarch64_abi_arg_regs_def aarch64_abi_fp_arg_regs_def aarch64_abi_ret_reg_def aarch64_abi_is_callee_saved_def)

text \<open>
  In every ABI of both targets the registers a callee must preserve are disjoint from the
  argument and return registers, and every argument position has a register of its own.
\<close>

theorem abi_registers_consistent:
  "{r. x86_abi_is_callee_saved abi r} \<inter>
     (set (x86_abi_arg_regs abi) \<union> set (x86_abi_fp_arg_regs abi) \<union> {x86_abi_ret_reg abi sz False, x86_abi_ret_reg abi sz True}) = {}
   \<and> {r. aarch64_abi_is_callee_saved abi r} \<inter>
     (set (aarch64_abi_arg_regs abi) \<union> set (aarch64_abi_fp_arg_regs abi)
        \<union> {aarch64_abi_ret_reg abi sz False, aarch64_abi_ret_reg abi sz True}) = {}
   \<and> distinct (x86_abi_arg_regs abi @ x86_abi_fp_arg_regs abi)
   \<and> distinct (aarch64_abi_arg_regs abi @ aarch64_abi_fp_arg_regs abi)"
  using x86cc.preserved_disjoint a64cc.preserved_disjoint x86cc.args_distinct a64cc.args_distinct by blast

text \<open>The assembler's spelling of a physical register, by its number and the size of the access.\<close>

definition a64_spelling :: "nat \<Rightarrow> nat \<Rightarrow> string" where
  "a64_spelling sz p =
     (if p = 31 then if sz = 4 then ''wsp'' else ''sp''
      else if 32 \<le> p then ''v'' @ show_nat (p - 32)
      else if sz = 4 then ''w'' @ show_nat p
      else if p = 29 then ''fp'' else if p = 30 then ''lr'' else ''x'' @ show_nat p)"

lemma a64_names_spelled:
  "s_a64_names_32 = map (\<lambda>n. ''w'' @ show_nat n) [0..<31]"
  "s_a64_names_64 = map (\<lambda>n. ''x'' @ show_nat n) [0..<29] @ [''fp'', ''lr'']"
  "s_a64_names_v = map (\<lambda>n. ''v'' @ show_nat n) [0..<32]"
  by code_simp+

text \<open>
  C38. Register names of the AArch64 target: at every size of the access a general register, SP and a vector register has
  the assembler's spelling (\<open>w\<close> names for 4 bytes, \<open>x\<close> names, \<open>fp\<close> and \<open>lr\<close> otherwise), a virtual register is printed
  by its id, and every other number, the \<open>NO_REG\<close> sentinel 255 included, reads past the table of the vector registers
  instead of giving the name of an invalid register.
\<close>

theorem aarch64_reg_name_spec:
  "aarch64_reg_name r = (if rg_is_virtual r then Some (''%v'' @ show_nat (rg_id r))
     else if rg_phys r < 64 then Some (a64_spelling (rg_size r) (rg_phys r)) else None)"
proof -
  let ?p = "rg_phys r"
  have len: "length s_a64_names_64 = 31" "length s_a64_names_32 = 31" "length s_a64_names_v = 32" by (simp_all add: a64_names_spelled)
  consider "?p < 29" | "?p = 29" | "?p = 30" | "?p = 31" | "32 \<le> ?p" "?p < 64" | "64 \<le> ?p" by linarith
  then show ?thesis
    by cases (simp_all add: aarch64_reg_name_def a64_spelling_def rd_def len, auto simp: a64_names_spelled nth_append)
qed

end
