(* ===== verification/IR.thy ===== *)
theory IR
  imports Support Opcodes
begin

text \<open>
  The intermediate representation: \<^verbatim>\<open>include/nybit/ir.h\<close>, \<^verbatim>\<open>src/ir/function.c\<close> and \<^verbatim>\<open>src/ir/block.c\<close>.
  A function owns arrays of blocks, instructions, values and operands; an instruction is linked to its
  neighbours in its block by indices, and its operands are a slice of the operand array.  Array
  capacities are left out (every append goes through \<^verbatim>\<open>ny_buf_grow\<close>, which \<open>Support\<close> models), a
  double immediate is its 64-bit pattern, and a pointer into an array is its index.
\<close>

subsection \<open>Values, operands, instructions, blocks, functions\<close>

datatype ny_value_kind = NY_VAL_INSTRUCTION | NY_VAL_ARGUMENT | NY_VAL_CONSTANT

record ny_value =
  v_id :: nat
  v_type :: nat
  v_kind :: ny_value_kind
  v_def :: nat
  v_index :: nat
  v_name :: string

datatype ny_operand =
    OpNone
  | OpValue nat
  | OpBlock nat
  | OpInt "64 word"
  | OpFloat "64 word"
  | OpFunction nat
  | OpSymbol nat
  | OpGlobal nat
  | OpType nat

record ny_instruction =
  i_id :: nat
  i_opcode :: ny_opcode
  i_flags :: nat
  i_result :: nat
  i_op_start :: nat
  i_op_count :: nat
  i_block :: nat
  i_prev :: nat
  i_next :: nat

record ny_block =
  b_id :: nat
  b_name :: string
  b_first :: nat
  b_last :: nat
  b_inst_count :: nat
  b_preds :: "nat list"
  b_succs :: "nat list"

record ny_loc =
  loc_file :: nat
  loc_line :: nat
  loc_col :: nat

record ny_function =
  f_id :: nat
  f_name :: string
  f_return_type :: nat
  f_params :: "(nat \<times> string) list"
  f_call_conv :: nat
  f_is_variadic :: bool
  f_entry :: nat
  f_blocks :: "ny_block list"
  f_insts :: "ny_instruction list"
  f_locs :: "ny_loc list option"
  f_values :: "ny_value list"
  f_operands :: "ny_operand list"

definition zero_loc :: ny_loc where
  "zero_loc = \<lparr>loc_file = 0, loc_line = 0, loc_col = 0\<rparr>"

definition ny_function_init :: "nat \<Rightarrow> string \<Rightarrow> nat \<Rightarrow> nat \<Rightarrow> ny_function" where
  "ny_function_init fid name ret_type cc =
     \<lparr>f_id = fid, f_name = name, f_return_type = ret_type, f_params = [], f_call_conv = cc, f_is_variadic = False,
      f_entry = NY_INVALID_BLOCK, f_blocks = [], f_insts = [], f_locs = None, f_values = [], f_operands = []\<rparr>"

definition ny_function_destroy :: "ny_function \<Rightarrow> ny_function" where
  "ny_function_destroy fn = ny_function_init 0 [] 0 0"

definition ny_function_set_inst_loc :: "ny_function \<Rightarrow> nat \<Rightarrow> ny_loc \<Rightarrow> ny_function" where
  "ny_function_set_inst_loc fn inst_id loc =
     (if inst_id \<ge> length (f_insts fn) then fn
      else
        let fn = (if f_locs fn = None \<and> (loc_line loc > 0 \<or> loc_col loc > 0)
                  then fn\<lparr>f_locs := Some (replicate (length (f_insts fn)) zero_loc)\<rparr> else fn)
        in fn\<lparr>f_locs := map_option (\<lambda>ls. ls[inst_id := loc]) (f_locs fn)\<rparr>)"

definition ny_function_get_inst_loc :: "ny_function \<Rightarrow> nat \<Rightarrow> ny_loc" where
  "ny_function_get_inst_loc fn inst_id =
     (case f_locs fn of None \<Rightarrow> zero_loc
      | Some ls \<Rightarrow> if inst_id \<ge> length (f_insts fn) then zero_loc else ls ! inst_id)"

definition ny_function_add_param :: "ny_function \<Rightarrow> nat \<Rightarrow> string \<Rightarrow> ny_function" where
  "ny_function_add_param fn ty name = fn\<lparr>f_params := f_params fn @ [(ty, name)]\<rparr>"

text \<open>The accessors return a null pointer for an id out of range.\<close>

abbreviation ny_function_get_block :: "ny_function \<Rightarrow> nat \<Rightarrow> ny_block option" where
  "ny_function_get_block fn b \<equiv> rd (f_blocks fn) b"

abbreviation ny_function_get_instruction :: "ny_function \<Rightarrow> nat \<Rightarrow> ny_instruction option" where
  "ny_function_get_instruction fn i \<equiv> rd (f_insts fn) i"

abbreviation ny_function_get_value :: "ny_function \<Rightarrow> nat \<Rightarrow> ny_value option" where
  "ny_function_get_value fn v \<equiv> rd (f_values fn) v"

definition ny_function_get_operands :: "ny_function \<Rightarrow> ny_instruction \<Rightarrow> nat option" where
  "ny_function_get_operands fn inst =
     (if i_op_start inst + i_op_count inst > length (f_operands fn) then None else Some (i_op_start inst))"

text \<open>The element \<^verbatim>\<open>ops[i]\<close> behind the pointer \<^verbatim>\<open>ny_function_get_operands\<close> returned.\<close>

definition op_at :: "ny_function \<Rightarrow> nat option \<Rightarrow> nat \<Rightarrow> ny_operand option" where
  "op_at fn ops i = (case ops of None \<Rightarrow> None | Some s \<Rightarrow> rd (f_operands fn) (s + i))"

definition upd_block :: "ny_function \<Rightarrow> nat \<Rightarrow> (ny_block \<Rightarrow> ny_block) \<Rightarrow> ny_function option" where
  "upd_block fn b g = do { x \<leftarrow> rd (f_blocks fn) b; Some (fn\<lparr>f_blocks := (f_blocks fn)[b := g x]\<rparr>) }"

definition upd_inst :: "ny_function \<Rightarrow> nat \<Rightarrow> (ny_instruction \<Rightarrow> ny_instruction) \<Rightarrow> ny_function option" where
  "upd_inst fn i g = do { x \<leftarrow> rd (f_insts fn) i; Some (fn\<lparr>f_insts := (f_insts fn)[i := g x]\<rparr>) }"

definition upd_value :: "ny_function \<Rightarrow> nat \<Rightarrow> (ny_value \<Rightarrow> ny_value) \<Rightarrow> ny_function" where
  "upd_value fn v g = (if v < length (f_values fn) then fn\<lparr>f_values := (f_values fn)[v := g (f_values fn ! v)]\<rparr> else fn)"

subsection \<open>Edges\<close>

definition remove_first :: "nat \<Rightarrow> nat list \<Rightarrow> nat list" where
  "remove_first v xs = (case find_index (\<lambda>x. x = v) xs of None \<Rightarrow> xs | Some j \<Rightarrow> swap_remove xs j)"

definition add_new :: "nat \<Rightarrow> nat list \<Rightarrow> nat list" where
  "add_new v xs = (if v \<in> set xs then xs else xs @ [v])"

definition ny_block_add_edge :: "ny_function \<Rightarrow> nat \<Rightarrow> nat \<Rightarrow> ny_function option" where
  "ny_block_add_edge fn pred succ = do {
     s \<leftarrow> rd (f_blocks fn) succ;
     fn \<leftarrow> upd_block fn pred (\<lambda>p. p\<lparr>b_succs := add_new (b_id s) (b_succs p)\<rparr>);
     p \<leftarrow> rd (f_blocks fn) pred;
     upd_block fn succ (\<lambda>s. s\<lparr>b_preds := add_new (b_id p) (b_preds s)\<rparr>)
   }"

definition ny_block_remove_edge :: "ny_function \<Rightarrow> nat \<Rightarrow> nat \<Rightarrow> ny_function option" where
  "ny_block_remove_edge fn pred succ = do {
     s \<leftarrow> rd (f_blocks fn) succ;
     fn \<leftarrow> upd_block fn pred (\<lambda>p. p\<lparr>b_succs := remove_first (b_id s) (b_succs p)\<rparr>);
     p \<leftarrow> rd (f_blocks fn) pred;
     upd_block fn succ (\<lambda>s. s\<lparr>b_preds := remove_first (b_id p) (b_preds s)\<rparr>)
   }"

subsection \<open>Creation\<close>

text \<open>
  The new element is written at the converted id; the placeholder is the element's memory before
  the write.
\<close>

definition zero_block :: ny_block where
  "zero_block = \<lparr>b_id = 0, b_name = [], b_first = 0, b_last = 0, b_inst_count = 0, b_preds = [], b_succs = []\<rparr>"

definition ny_function_create_block :: "ny_function \<Rightarrow> string \<Rightarrow> ny_function \<times> nat" where
  "ny_function_create_block fn name =
     (let bid = u32 (length (f_blocks fn));
          b = zero_block\<lparr>b_id := bid, b_name := name, b_first := NY_INVALID_INST, b_last := NY_INVALID_INST\<rparr>;
          fn = fn\<lparr>f_blocks := (f_blocks fn @ [zero_block])[bid := b]\<rparr>
      in (if f_entry fn = NY_INVALID_BLOCK then fn\<lparr>f_entry := bid\<rparr> else fn, bid))"

definition ny_function_create_value ::
  "ny_function \<Rightarrow> nat \<Rightarrow> ny_value_kind \<Rightarrow> nat \<Rightarrow> nat \<Rightarrow> string \<Rightarrow> ny_function \<times> nat" where
  "ny_function_create_value fn ty kind def_inst index name =
     (let vid = u32 (length (f_values fn));
          v = \<lparr>v_id = vid, v_type = ty, v_kind = kind, v_def = def_inst, v_index = index, v_name = name\<rparr>
      in (fn\<lparr>f_values := (f_values fn @ [v])[vid := v]\<rparr>, vid))"

definition ny_function_append_instruction ::
  "ny_function \<Rightarrow> nat \<Rightarrow> ny_opcode \<Rightarrow> nat \<Rightarrow> ny_operand list \<Rightarrow> nat \<Rightarrow> (ny_function \<times> nat) option" where
  "ny_function_append_instruction fn block_id opcode result ops flags = do {
     blk \<leftarrow> ny_function_get_block fn block_id;
     let inst_id = u32 (length (f_insts fn));
     let inst = \<lparr>i_id = inst_id, i_opcode = opcode, i_flags = flags, i_result = result,
                 i_op_start = u32 (length (f_operands fn)), i_op_count = u16 (length ops), i_block = block_id,
                 i_prev = b_last blk, i_next = NY_INVALID_INST\<rparr>;
     let fn = fn\<lparr>f_insts := (f_insts fn @ [inst])[inst_id := inst],
                 f_locs := map_option (\<lambda>ls. ls @ [zero_loc]) (f_locs fn),
                 f_operands := f_operands fn @ ops\<rparr>;
     let fn = (if result \<noteq> NY_INVALID_VALUE then upd_value fn result (\<lambda>v. v\<lparr>v_def := inst_id\<rparr>) else fn);
     fn \<leftarrow> (if b_first blk = NY_INVALID_INST
            then upd_block fn block_id (\<lambda>b. b\<lparr>b_first := inst_id\<rparr>)
            else upd_inst fn (b_last blk) (\<lambda>i. i\<lparr>i_next := inst_id\<rparr>));
     fn \<leftarrow> upd_block fn block_id (\<lambda>b. b\<lparr>b_last := inst_id, b_inst_count := u32 (b_inst_count b + 1)\<rparr>);
     Some (fn, inst_id)
   }"

subsection \<open>Uses\<close>

definition ny_instruction_replace_operand :: "ny_function \<Rightarrow> nat \<Rightarrow> nat \<Rightarrow> ny_operand \<Rightarrow> ny_function" where
  "ny_instruction_replace_operand fn inst_id op_idx new_op =
     (case ny_function_get_instruction fn inst_id of
        None \<Rightarrow> fn
      | Some inst \<Rightarrow>
          if op_idx \<ge> i_op_count inst then fn
          else let target_idx = i_op_start inst + op_idx in
               if target_idx < length (f_operands fn)
               then fn\<lparr>f_operands := (f_operands fn)[target_idx := new_op]\<rparr> else fn)"

definition replace_val :: "nat \<Rightarrow> nat \<Rightarrow> ny_operand \<Rightarrow> ny_operand" where
  "replace_val old_val new_val op = (if op = OpValue old_val then OpValue new_val else op)"

text \<open>The inner loop: the operands from \<^verbatim>\<open>start\<close> to \<^verbatim>\<open>end\<close>, as far as the array reaches.\<close>

fun replace_range :: "nat \<Rightarrow> nat \<Rightarrow> nat \<Rightarrow> nat \<Rightarrow> ny_operand list \<Rightarrow> ny_operand list" where
  "replace_range old_val new_val j 0 ops = ops"
| "replace_range old_val new_val j (Suc n) ops =
     (if j < length ops then replace_range old_val new_val (Suc j) n (ops[j := replace_val old_val new_val (ops ! j)])
      else ops)"

definition ny_function_replace_all_uses :: "ny_function \<Rightarrow> nat \<Rightarrow> nat \<Rightarrow> ny_function" where
  "ny_function_replace_all_uses fn old_val new_val =
     (if old_val = new_val then fn
      else fn\<lparr>f_operands := fold (\<lambda>inst ops. if i_opcode inst = NY_OPCODE_NONE then ops
                 else replace_range old_val new_val (i_op_start inst) (i_op_count inst) ops) (f_insts fn) (f_operands fn)\<rparr>)"

subsection \<open>Removal\<close>

definition ny_function_remove_instruction :: "ny_function \<Rightarrow> nat \<Rightarrow> ny_function option" where
  "ny_function_remove_instruction fn inst_id =
     (case ny_function_get_instruction fn inst_id of
        None \<Rightarrow> Some fn
      | Some inst \<Rightarrow>
          if i_opcode inst = NY_OPCODE_NONE then Some fn
          else do {
            fn \<leftarrow> (case ny_function_get_block fn (i_block inst) of
                None \<Rightarrow> Some fn
              | Some blk \<Rightarrow> do {
                  fn \<leftarrow> (if i_prev inst \<noteq> NY_INVALID_INST
                         then upd_inst fn (i_prev inst) (\<lambda>p. p\<lparr>i_next := i_next inst\<rparr>)
                         else upd_block fn (i_block inst) (\<lambda>b. b\<lparr>b_first := i_next inst\<rparr>));
                  inst \<leftarrow> rd (f_insts fn) inst_id;
                  fn \<leftarrow> (if i_next inst \<noteq> NY_INVALID_INST
                         then upd_inst fn (i_next inst) (\<lambda>n. n\<lparr>i_prev := i_prev inst\<rparr>)
                         else upd_block fn (i_block inst) (\<lambda>b. b\<lparr>b_last := i_prev inst\<rparr>));
                  upd_block fn (i_block inst)
                    (\<lambda>b. if b_inst_count b > 0 then b\<lparr>b_inst_count := b_inst_count b - 1\<rparr> else b)
                });
            let fn = (if i_result inst \<noteq> NY_INVALID_VALUE
                      then upd_value fn (i_result inst) (\<lambda>v. v\<lparr>v_def := NY_INVALID_INST\<rparr>) else fn);
            upd_inst fn inst_id (\<lambda>i. i\<lparr>i_opcode := NY_OPCODE_NONE, i_prev := NY_INVALID_INST,
              i_next := NY_INVALID_INST, i_op_count := 0\<rparr>)
          })"

text \<open>A list walk that follows \<^verbatim>\<open>next\<close> may not end on a damaged list; it is a partial function.\<close>

partial_function (option) remove_insts_from :: "ny_function \<Rightarrow> nat \<Rightarrow> ny_function option" where
  "remove_insts_from fn cur =
     (if cur = NY_INVALID_INST then Some fn
      else do {
        inst \<leftarrow> rd (f_insts fn) cur;
        fn \<leftarrow> ny_function_remove_instruction fn cur;
        remove_insts_from fn (i_next inst)
      })"

definition drop_pred :: "nat \<Rightarrow> ny_function \<Rightarrow> nat \<Rightarrow> ny_function option" where
  "drop_pred block_id fn s = (case ny_function_get_block fn s of None \<Rightarrow> Some fn
     | Some b \<Rightarrow> upd_block fn s (\<lambda>b. b\<lparr>b_preds := remove_first block_id (b_preds b)\<rparr>))"

definition drop_succ :: "nat \<Rightarrow> ny_function \<Rightarrow> nat \<Rightarrow> ny_function option" where
  "drop_succ block_id fn p = (case ny_function_get_block fn p of None \<Rightarrow> Some fn
     | Some b \<Rightarrow> upd_block fn p (\<lambda>b. b\<lparr>b_succs := remove_first block_id (b_succs b)\<rparr>))"

definition ny_function_remove_block :: "ny_function \<Rightarrow> nat \<Rightarrow> ny_function option" where
  "ny_function_remove_block fn block_id =
     (case ny_function_get_block fn block_id of
        None \<Rightarrow> Some fn
      | Some blk \<Rightarrow> do {
          fn \<leftarrow> remove_insts_from fn (b_first blk);
          fn \<leftarrow> foldM (drop_pred block_id) fn (b_succs blk);
          fn \<leftarrow> upd_block fn block_id (\<lambda>b. b\<lparr>b_succs := []\<rparr>);
          blk \<leftarrow> rd (f_blocks fn) block_id;
          fn \<leftarrow> foldM (drop_succ block_id) fn (b_preds blk);
          upd_block fn block_id (\<lambda>b. b\<lparr>b_preds := [], b_first := NY_INVALID_INST, b_last := NY_INVALID_INST, b_inst_count := 0\<rparr>)
        })"

subsection \<open>Splitting and merging\<close>

text \<open>The walk that gives the instructions from \<^verbatim>\<open>cur\<close> on to another block and counts them.\<close>

partial_function (option) rehome_from :: "nat \<Rightarrow> ny_function \<Rightarrow> nat \<Rightarrow> nat \<Rightarrow> (ny_function \<times> nat) option" where
  "rehome_from blk_id fn cur moved_count =
     (if cur = NY_INVALID_INST then Some (fn, moved_count)
      else do {
        fn \<leftarrow> upd_inst fn cur (\<lambda>i. i\<lparr>i_block := blk_id\<rparr>);
        inst \<leftarrow> rd (f_insts fn) cur;
        rehome_from blk_id fn (i_next inst) (u32 (moved_count + 1))
      })"

definition move_pred :: "nat \<Rightarrow> nat \<Rightarrow> ny_function \<Rightarrow> nat \<Rightarrow> ny_function option" where
  "move_pred from_id to_id fn s = (case ny_function_get_block fn s of None \<Rightarrow> Some fn
     | Some b \<Rightarrow> upd_block fn s (\<lambda>b. b\<lparr>b_preds := map (\<lambda>p. if p = from_id then to_id else p) (b_preds b)\<rparr>))"

definition ny_function_split_block :: "ny_function \<Rightarrow> nat \<Rightarrow> nat \<Rightarrow> (ny_function \<times> bool \<times> nat) option" where
  "ny_function_split_block fn block_id split_before_inst =
     (case (ny_function_get_block fn block_id, ny_function_get_instruction fn split_before_inst) of
        (Some orig_blk, Some split_inst) \<Rightarrow>
          if i_block split_inst \<noteq> block_id then Some (fn, False, 0)
          else do {
            let (fn, new_blk_id) = ny_function_create_block fn ''split'';
            fn \<leftarrow> upd_block fn new_blk_id (\<lambda>b. b\<lparr>b_first := split_before_inst, b_last := b_last orig_blk\<rparr>);
            (fn, moved_count) \<leftarrow> rehome_from new_blk_id fn split_before_inst 0;
            fn \<leftarrow> upd_block fn new_blk_id (\<lambda>b. b\<lparr>b_inst_count := moved_count\<rparr>);
            fn \<leftarrow> (if i_prev split_inst \<noteq> NY_INVALID_INST
                   then do {
                     fn \<leftarrow> upd_block fn block_id (\<lambda>b. b\<lparr>b_last := i_prev split_inst\<rparr>);
                     upd_inst fn (i_prev split_inst) (\<lambda>i. i\<lparr>i_next := NY_INVALID_INST\<rparr>)
                   }
                   else upd_block fn block_id (\<lambda>b. b\<lparr>b_first := NY_INVALID_INST, b_last := NY_INVALID_INST\<rparr>));
            fn \<leftarrow> upd_inst fn split_before_inst (\<lambda>i. i\<lparr>i_prev := NY_INVALID_INST\<rparr>);
            fn \<leftarrow> upd_block fn block_id (\<lambda>b. b\<lparr>b_inst_count := u32 (b_inst_count b + (4294967296 - moved_count))\<rparr>);
            fn \<leftarrow> foldM (\<lambda>fn s. do {
                fn \<leftarrow> upd_block fn new_blk_id (\<lambda>b. b\<lparr>b_succs := b_succs b @ [s]\<rparr>);
                move_pred block_id new_blk_id fn s
              }) fn (b_succs orig_blk);
            fn \<leftarrow> upd_block fn block_id (\<lambda>b. b\<lparr>b_succs := []\<rparr>);
            fn \<leftarrow> ny_block_add_edge fn block_id new_blk_id;
            Some (fn, True, new_blk_id)
          }
      | _ \<Rightarrow> Some (fn, False, 0))"

definition ny_function_merge_blocks :: "ny_function \<Rightarrow> nat \<Rightarrow> nat \<Rightarrow> (ny_function \<times> bool) option" where
  "ny_function_merge_blocks fn first_id second_id =
     (if first_id = second_id then Some (fn, False)
      else case (ny_function_get_block fn first_id, ny_function_get_block fn second_id) of
        (Some first_blk, Some second_blk) \<Rightarrow>
          if b_succs first_blk \<noteq> [second_id] \<or> b_preds second_blk \<noteq> [first_id] then Some (fn, False)
          else do {
            fn \<leftarrow> (if b_last first_blk = NY_INVALID_INST then Some fn
                   else case ny_function_get_instruction fn (b_last first_blk) of
                     None \<Rightarrow> Some fn
                   | Some last_i \<Rightarrow> if i_opcode last_i = NY_OPCODE_BRANCH
                                  then ny_function_remove_instruction fn (b_last first_blk) else Some fn);
            second_blk \<leftarrow> rd (f_blocks fn) second_id;
            fn \<leftarrow> (if b_inst_count second_blk > 0 then do {
                first_blk \<leftarrow> rd (f_blocks fn) first_id;
                fn \<leftarrow> (if b_first first_blk = NY_INVALID_INST
                       then upd_block fn first_id (\<lambda>b. b\<lparr>b_first := b_first second_blk, b_last := b_last second_blk\<rparr>)
                       else do {
                         fn \<leftarrow> upd_inst fn (b_last first_blk) (\<lambda>i. i\<lparr>i_next := b_first second_blk\<rparr>);
                         fn \<leftarrow> upd_inst fn (b_first second_blk) (\<lambda>i. i\<lparr>i_prev := b_last first_blk\<rparr>);
                         upd_block fn first_id (\<lambda>b. b\<lparr>b_last := b_last second_blk\<rparr>)
                       });
                (fn, n) \<leftarrow> rehome_from first_id fn (b_first second_blk) (b_inst_count first_blk);
                upd_block fn first_id (\<lambda>b. b\<lparr>b_inst_count := n\<rparr>)
              } else Some fn);
            fn \<leftarrow> upd_block fn first_id (\<lambda>b. b\<lparr>b_succs := []\<rparr>);
            fn \<leftarrow> foldM (\<lambda>fn s. do {
                fn \<leftarrow> upd_block fn first_id (\<lambda>b. b\<lparr>b_succs := b_succs b @ [s]\<rparr>);
                move_pred second_id first_id fn s
              }) fn (b_succs second_blk);
            fn \<leftarrow> upd_block fn second_id (\<lambda>b. b\<lparr>b_preds := [], b_succs := [], b_first := NY_INVALID_INST,
              b_last := NY_INVALID_INST, b_inst_count := 0\<rparr>);
            Some (fn, True)
          }
      | _ \<Rightarrow> Some (fn, False))"

subsection \<open>Phi operands\<close>

text \<open>The scan of the odd operands for the predecessor, and the compaction of the pairs.\<close>

function phi_has_pred :: "ny_function \<Rightarrow> nat option \<Rightarrow> nat \<Rightarrow> nat \<Rightarrow> nat \<Rightarrow> bool option" where
  "phi_has_pred fn ops i op_count pred_id =
     (if i < op_count then do {
        op \<leftarrow> op_at fn ops i;
        if op = OpBlock pred_id then Some True else phi_has_pred fn ops (i + 2) op_count pred_id
      } else Some False)"
  by pat_completeness auto
termination by (relation "measure (\<lambda>(fn, ops, i, op_count, pred_id). op_count - i)") auto

declare phi_has_pred.simps [simp del]

function phi_compact :: "nat \<Rightarrow> nat \<Rightarrow> nat \<Rightarrow> nat \<Rightarrow> nat \<Rightarrow> ny_operand list \<Rightarrow> (ny_operand list \<times> nat) option" where
  "phi_compact start op_count pred_id i write_idx ops =
     (if i < op_count then do {
        skip \<leftarrow> (if i + 1 < op_count then do { o1 \<leftarrow> rd ops (start + (i + 1)); Some (o1 = OpBlock pred_id) } else Some False);
        if skip then phi_compact start op_count pred_id (i + 2) write_idx ops
        else do {
          a \<leftarrow> rd ops (start + i);
          ops \<leftarrow> wr ops write_idx a;
          b \<leftarrow> rd ops (start + (i + 1));
          ops \<leftarrow> wr ops (write_idx + 1) b;
          phi_compact start op_count pred_id (i + 2) (write_idx + 2) ops
        }
      } else Some (ops, write_idx))"
  by pat_completeness auto
termination by (relation "measure (\<lambda>(start, op_count, pred_id, i, w, ops). op_count - i)") auto

declare phi_compact.simps [simp del]

partial_function (option) remove_phi_from :: "nat \<Rightarrow> ny_function \<Rightarrow> nat \<Rightarrow> ny_function option" where
  "remove_phi_from pred_id fn cur =
     (if cur = NY_INVALID_INST then Some fn
      else case ny_function_get_instruction fn cur of
        None \<Rightarrow> Some fn
      | Some inst \<Rightarrow>
          if i_opcode inst \<noteq> NY_OPCODE_PHI then Some fn
          else do {
            has_pred \<leftarrow> phi_has_pred fn (ny_function_get_operands fn inst) 1 (i_op_count inst) pred_id;
            fn \<leftarrow> (if has_pred then do {
                (ops, write_idx) \<leftarrow> phi_compact (i_op_start inst) (i_op_count inst) pred_id 0 (i_op_start inst) (f_operands fn);
                upd_inst (fn\<lparr>f_operands := ops\<rparr>) cur (\<lambda>i. i\<lparr>i_op_count := u16 (write_idx - i_op_start inst)\<rparr>)
              } else Some fn);
            remove_phi_from pred_id fn (i_next inst)
          })"

definition ny_function_remove_phi_incoming :: "ny_function \<Rightarrow> nat \<Rightarrow> nat \<Rightarrow> ny_function option" where
  "ny_function_remove_phi_incoming fn blk_id pred_id =
     (case ny_function_get_block fn blk_id of None \<Rightarrow> Some fn
      | Some blk \<Rightarrow> remove_phi_from pred_id fn (b_first blk))"

end
