(* ===== verification/IR_Lists.thy ===== *)
theory IR_Lists
  imports IR
begin

text \<open>
  The lists behind the links.  A function represents, for every block, the list of its instruction
  ids; \<open>fn_wf\<close> ties the arrays, the \<^verbatim>\<open>prev\<close>/\<^verbatim>\<open>next\<close> links and the block headers to those lists, and the
  operations of \<^verbatim>\<open>src/ir/function.c\<close> are shown to be list operations on them.
\<close>

subsection \<open>Segments of a doubly linked list\<close>

definition hd_or :: "'a list \<Rightarrow> 'a \<Rightarrow> 'a" where
  "hd_or xs d = (case xs of [] \<Rightarrow> d | x # _ \<Rightarrow> x)"

definition last_or :: "'a \<Rightarrow> 'a list \<Rightarrow> 'a" where
  "last_or d xs = (if xs = [] then d else last xs)"

lemma hd_or_simps [simp]: "hd_or [] d = d" "hd_or (x # xs) d = x" "hd_or (xs @ ys) d = hd_or xs (hd_or ys d)"
  by (simp_all add: hd_or_def split: list.splits)

lemma last_or_simps [simp]: "last_or d [] = d" "last_or d (xs @ [x]) = x" "last_or d (x # xs) = last_or x xs"
    "last_or d (xs @ ys) = last_or (last_or d xs) ys"
  by (simp_all add: last_or_def)

lemma last_or_in: "last_or d xs = d \<or> last_or d xs \<in> set xs"
  by (simp add: last_or_def)

lemma hd_or_in: "hd_or xs d = d \<or> hd_or xs d \<in> set xs"
  by (simp add: hd_or_def split: list.splits)

fun seg :: "ny_instruction list \<Rightarrow> nat \<Rightarrow> nat \<Rightarrow> nat list \<Rightarrow> nat \<Rightarrow> bool" where
  "seg I b p [] n = True"
| "seg I b p (x # xs) n = (x < length I \<and> i_opcode (I ! x) \<noteq> NY_OPCODE_NONE \<and> i_block (I ! x) = b
     \<and> i_prev (I ! x) = p \<and> i_next (I ! x) = hd_or xs n \<and> seg I b x xs n)"

lemma seg_append [simp]:
  "seg I b p (xs @ ys) n \<longleftrightarrow> seg I b p xs (hd_or ys n) \<and> seg I b (last_or p xs) ys n"
  by (induction xs arbitrary: p) auto

lemma seg_cong:
  "seg I b p xs n \<Longrightarrow> (\<And>x. x \<in> set xs \<Longrightarrow> x < length J \<and> J ! x = I ! x) \<Longrightarrow> seg J b p xs n"
  by (induction xs arbitrary: p) auto

lemma seg_mem: "seg I b p xs n \<Longrightarrow> x \<in> set xs \<Longrightarrow>
    x < length I \<and> i_opcode (I ! x) \<noteq> NY_OPCODE_NONE \<and> i_block (I ! x) = b"
  by (induction xs arbitrary: p) auto

lemma seg_update_other: "x \<notin> set xs \<Longrightarrow> seg (I[x := v]) b p xs n \<longleftrightarrow> seg I b p xs n"
  by (induction xs arbitrary: p) auto

lemma seg_set_next:
  assumes "seg I b p (xs @ [x]) n" "x \<notin> set xs"
  shows "seg (I[x := (I ! x)\<lparr>i_next := m\<rparr>]) b p (xs @ [x]) m"
  using assms by (auto simp: seg_update_other)

lemma seg_set_prev:
  assumes "seg I b p (x # xs) n" "x \<notin> set xs"
  shows "seg (I[x := (I ! x)\<lparr>i_prev := q\<rparr>]) b q (x # xs) n"
  using assms by (auto simp: seg_update_other)

subsection \<open>Well-formed functions\<close>

definition block_ok :: "ny_instruction list \<Rightarrow> ny_block \<Rightarrow> nat \<Rightarrow> nat list \<Rightarrow> bool" where
  "block_ok I B b xs \<longleftrightarrow> b_id B = b \<and> b_first B = hd_or xs NY_INVALID_INST \<and> b_last B = last_or NY_INVALID_INST xs
     \<and> b_inst_count B = length xs \<and> distinct xs \<and> seg I b NY_INVALID_INST xs NY_INVALID_INST"

definition fn_wf :: "ny_function \<Rightarrow> nat list list \<Rightarrow> bool" where
  "fn_wf fn L \<longleftrightarrow> length L = length (f_blocks fn) \<and> length (f_blocks fn) < NY_INVALID \<and> length (f_insts fn) < NY_INVALID
     \<and> (\<forall>b < length (f_blocks fn). block_ok (f_insts fn) (f_blocks fn ! b) b (L ! b))
     \<and> (\<forall>i < length (f_insts fn). i_id (f_insts fn ! i) = i
          \<and> (i_opcode (f_insts fn ! i) \<noteq> NY_OPCODE_NONE \<longrightarrow>
               i_block (f_insts fn ! i) < length (f_blocks fn) \<and> i \<in> set (L ! i_block (f_insts fn ! i))))"

lemma fn_wf_block: "fn_wf fn L \<Longrightarrow> b < length (f_blocks fn) \<Longrightarrow> block_ok (f_insts fn) (f_blocks fn ! b) b (L ! b)"
  by (simp add: fn_wf_def)

lemma fn_wf_mem:
  assumes "fn_wf fn L" "b < length (f_blocks fn)" "x \<in> set (L ! b)"
  shows "x < length (f_insts fn)" "i_opcode (f_insts fn ! x) \<noteq> NY_OPCODE_NONE" "i_block (f_insts fn ! x) = b"
    "x < NY_INVALID" "x \<noteq> NY_INVALID"
proof -
  have "seg (f_insts fn) b NY_INVALID_INST (L ! b) NY_INVALID_INST" using assms(1,2) by (simp add: fn_wf_def block_ok_def)
  from seg_mem[OF this assms(3)] show "x < length (f_insts fn)" "i_opcode (f_insts fn ! x) \<noteq> NY_OPCODE_NONE"
    "i_block (f_insts fn ! x) = b" by auto
  moreover have "length (f_insts fn) < NY_INVALID" using assms(1) by (simp add: fn_wf_def)
  ultimately show "x < NY_INVALID" "x \<noteq> NY_INVALID" by auto
qed

lemma fn_wf_len:
  assumes "fn_wf fn L" "b < length (f_blocks fn)"
  shows "length (L ! b) \<le> length (f_insts fn)"
proof -
  have d: "distinct (L ! b)" using assms by (simp add: fn_wf_def block_ok_def)
  have "set (L ! b) \<subseteq> {..<length (f_insts fn)}" using fn_wf_mem(1)[OF assms] by auto
  then have "card (set (L ! b)) \<le> card {..<length (f_insts fn)}" by (intro card_mono) auto
  then show ?thesis using distinct_card[OF d] by simp
qed

text \<open>The part of an instruction that the links do not touch.\<close>

definition payload :: "ny_instruction \<Rightarrow> nat \<times> ny_opcode \<times> nat \<times> nat \<times> nat \<times> nat" where
  "payload i = (i_id i, i_opcode i, i_flags i, i_result i, i_op_start i, i_op_count i)"

definition block_edges :: "ny_function \<Rightarrow> (nat list \<times> nat list) list" where
  "block_edges fn = map (\<lambda>b. (b_preds b, b_succs b)) (f_blocks fn)"

lemma block_edges_update:
  "b < length (f_blocks fn) \<Longrightarrow> b_preds B = b_preds (f_blocks fn ! b) \<Longrightarrow> b_succs B = b_succs (f_blocks fn ! b) \<Longrightarrow>
     map (\<lambda>b. (b_preds b, b_succs b)) ((f_blocks fn)[b := B]) = block_edges fn"
  by (rule nth_equalityI) (auto simp: block_edges_def nth_list_update)

text \<open>Rebuilding the invariant after a change of one block and of some instructions.\<close>

lemma fn_wf_one_block:
  assumes wf: "fn_wf fn L" and b: "b < length (f_blocks fn)"
    and blocks: "f_blocks fn' = (f_blocks fn)[b := B]" and ok: "block_ok (f_insts fn') B b xs"
    and len: "length (f_insts fn) \<le> length (f_insts fn')" "length (f_insts fn') < NY_INVALID"
    and other: "\<And>i. i < length (f_insts fn) \<Longrightarrow> i \<notin> set (L ! b) \<Longrightarrow> f_insts fn' ! i = f_insts fn ! i"
    and ids: "\<And>i. i < length (f_insts fn') \<Longrightarrow> i_id (f_insts fn' ! i) = i"
    and here: "\<And>i. i < length (f_insts fn') \<Longrightarrow> i \<in> set (L ! b) \<or> length (f_insts fn) \<le> i \<Longrightarrow>
        i_opcode (f_insts fn' ! i) \<noteq> NY_OPCODE_NONE \<Longrightarrow> i_block (f_insts fn' ! i) = b \<and> i \<in> set xs"
  shows "fn_wf fn' (L[b := xs])"
proof -
  have L: "length L = length (f_blocks fn)" using wf by (simp add: fn_wf_def)
  have "block_ok (f_insts fn') (f_blocks fn' ! c) c (L[b := xs] ! c)" if c: "c < length (f_blocks fn)" for c
  proof (cases "c = b")
    case False
    have "seg (f_insts fn') c NY_INVALID_INST (L ! c) NY_INVALID_INST"
    proof (rule seg_cong)
      show "seg (f_insts fn) c NY_INVALID_INST (L ! c) NY_INVALID_INST" using fn_wf_block[OF wf c] by (simp add: block_ok_def)
      fix x assume x: "x \<in> set (L ! c)"
      have "x \<notin> set (L ! b)" using fn_wf_mem(3)[OF wf c x] fn_wf_mem(3)[OF wf b] False by auto
      then show "x < length (f_insts fn') \<and> f_insts fn' ! x = f_insts fn ! x"
        using fn_wf_mem(1)[OF wf c x] other len by auto
    qed
    then show ?thesis using fn_wf_block[OF wf c] False c by (simp add: blocks block_ok_def)
  qed (use ok b L blocks in simp)
  moreover have "i_block (f_insts fn' ! i) < length (f_blocks fn) \<and> i \<in> set (L[b := xs] ! i_block (f_insts fn' ! i))"
    if i: "i < length (f_insts fn')" "i_opcode (f_insts fn' ! i) \<noteq> NY_OPCODE_NONE" for i
  proof (cases "i \<in> set (L ! b) \<or> length (f_insts fn) \<le> i")
    case True
    from here[OF i(1) this i(2)] show ?thesis using b L by auto
  next
    case False
    then have lt: "i < length (f_insts fn)" and eq: "f_insts fn' ! i = f_insts fn ! i" using other by auto
    then have "i_block (f_insts fn ! i) < length (f_blocks fn) \<and> i \<in> set (L ! i_block (f_insts fn ! i))"
      using wf i(2) by (simp add: fn_wf_def)
    then show ?thesis using False eq by (cases "i_block (f_insts fn ! i) = b") auto
  qed
  ultimately show ?thesis using wf blocks len ids L unfolding fn_wf_def by auto
qed

subsection \<open>Appending an instruction\<close>

lemma upd_block_Some [simp]:
  "b < length (f_blocks fn) \<Longrightarrow> upd_block fn b g = Some (fn\<lparr>f_blocks := (f_blocks fn)[b := g (f_blocks fn ! b)]\<rparr>)"
  by (simp add: upd_block_def)

lemma upd_inst_Some [simp]:
  "i < length (f_insts fn) \<Longrightarrow> upd_inst fn i g = Some (fn\<lparr>f_insts := (f_insts fn)[i := g (f_insts fn ! i)]\<rparr>)"
  by (simp add: upd_inst_def)

lemma upd_value_fields [simp]:
  "f_blocks (upd_value fn v g) = f_blocks fn" "f_insts (upd_value fn v g) = f_insts fn"
  "f_operands (upd_value fn v g) = f_operands fn" "f_entry (upd_value fn v g) = f_entry fn"
  "length (f_values (upd_value fn v g)) = length (f_values fn)"
  by (simp_all add: upd_value_def)

lemma append_instruction_shape:
  assumes wf: "fn_wf fn L" and b: "b < length (f_blocks fn)" and room: "length (f_insts fn) + 1 < NY_INVALID"
  shows "\<exists>fn'. ny_function_append_instruction fn b opc res ops fl = Some (fn', length (f_insts fn))
    \<and> (\<exists>B. f_blocks fn' = (f_blocks fn)[b := B] \<and> b_id B = b \<and> b_first B = hd_or (L ! b) (length (f_insts fn))
         \<and> b_last B = length (f_insts fn) \<and> b_inst_count B = length (L ! b) + 1
         \<and> b_preds B = b_preds (f_blocks fn ! b) \<and> b_succs B = b_succs (f_blocks fn ! b))
    \<and> (\<exists>I. f_insts fn' = I @ [\<lparr>i_id = length (f_insts fn), i_opcode = opc, i_flags = fl, i_result = res,
           i_op_start = u32 (length (f_operands fn)), i_op_count = u16 (length ops), i_block = b,
           i_prev = last_or NY_INVALID_INST (L ! b), i_next = NY_INVALID_INST\<rparr>]
         \<and> I = (if L ! b = [] then f_insts fn
                else (f_insts fn)[last (L ! b) := (f_insts fn ! last (L ! b))\<lparr>i_next := length (f_insts fn)\<rparr>]))
    \<and> f_operands fn' = f_operands fn @ ops \<and> f_entry fn' = f_entry fn
    \<and> f_values fn' = f_values (if res \<noteq> NY_INVALID_VALUE then upd_value fn res (\<lambda>v. v\<lparr>v_def := length (f_insts fn)\<rparr>) else fn)"
proof -
  have ok: "block_ok (f_insts fn) (f_blocks fn ! b) b (L ! b)" using fn_wf_block[OF wf b] .
  have lt: "length (f_insts fn) < 4294967296" using room by (simp add: NY_INVALID_def)
  have lenL: "length (L ! b) + 1 < 4294967296" using fn_wf_len[OF wf b] room by (simp add: NY_INVALID_def)
  define n where "n = length (f_insts fn)"
  define inst where "inst = \<lparr>i_id = n, i_opcode = opc, i_flags = fl, i_result = res,
      i_op_start = u32 (length (f_operands fn)), i_op_count = u16 (length ops), i_block = b,
      i_prev = last_or NY_INVALID_INST (L ! b), i_next = NY_INVALID_INST\<rparr>"
  define fn1 where "fn1 = fn\<lparr>f_insts := f_insts fn @ [inst], f_locs := map_option (\<lambda>ls. ls @ [zero_loc]) (f_locs fn),
      f_operands := f_operands fn @ ops\<rparr>"
  define fn2 where "fn2 = (if res \<noteq> NY_INVALID_VALUE then upd_value fn1 res (\<lambda>v. v\<lparr>v_def := n\<rparr>) else fn1)"
  have un: "u32 n = n" using lt by (simp add: n_def)
  have B: "b_first (f_blocks fn ! b) = hd_or (L ! b) NY_INVALID_INST" "b_last (f_blocks fn ! b) = last_or NY_INVALID_INST (L ! b)"
    "b_inst_count (f_blocks fn ! b) = length (L ! b)" "b_id (f_blocks fn ! b) = b"
    using ok by (auto simp: block_ok_def)
  have f2: "f_blocks fn2 = f_blocks fn" "f_insts fn2 = f_insts fn @ [inst]" "f_operands fn2 = f_operands fn @ ops"
    "f_entry fn2 = f_entry fn"
    "f_values fn2 = f_values (if res \<noteq> NY_INVALID_VALUE then upd_value fn res (\<lambda>v. v\<lparr>v_def := n\<rparr>) else fn)"
    by (simp_all add: fn2_def fn1_def upd_value_def)
  have app: "ny_function_append_instruction fn b opc res ops fl =
      Option.bind (if b_first (f_blocks fn ! b) = NY_INVALID_INST then upd_block fn2 b (\<lambda>b. b\<lparr>b_first := n\<rparr>)
         else upd_inst fn2 (b_last (f_blocks fn ! b)) (\<lambda>i. i\<lparr>i_next := n\<rparr>))
       (\<lambda>fn. Option.bind (upd_block fn b (\<lambda>b. b\<lparr>b_last := n, b_inst_count := u32 (b_inst_count b + 1)\<rparr>)) (\<lambda>fn. Some (fn, n)))"
    using b un B by (simp add: ny_function_append_instruction_def Let_def fn2_def fn1_def inst_def n_def[symmetric])
      (simp add: n_def list_update_append)
  show ?thesis
  proof (cases "L ! b = []")
    case True
    then show ?thesis using b lenL unfolding app B f2 n_def[symmetric] inst_def[symmetric]
      by (simp add: f2) (rule exI, rule conjI, rule refl, simp add: B)
  next
    case False
    then have mem: "last (L ! b) \<in> set (L ! b)" "hd_or (L ! b) NY_INVALID_INST = hd (L ! b)" "hd (L ! b) \<in> set (L ! b)"
      "hd_or (L ! b) n = hd (L ! b)" by (auto simp: hd_or_def split: list.splits)
    have "last (L ! b) < n" "hd (L ! b) \<noteq> NY_INVALID"
      using fn_wf_mem(1)[OF wf b mem(1)] fn_wf_mem(5)[OF wf b mem(3)] by (simp_all add: n_def)
    then show ?thesis using False b lenL mem unfolding app B f2 n_def[symmetric] inst_def[symmetric]
      by (simp add: f2 last_or_def n_def[symmetric] nth_append list_update_append B)
        (rule exI, rule conjI, rule refl, simp add: B)
  qed
qed

text \<open>The links of a list after the two neighbours of a gap have been joined.\<close>

definition set_next :: "ny_instruction list \<Rightarrow> nat list \<Rightarrow> nat \<Rightarrow> ny_instruction list" where
  "set_next I xs n = (if xs = [] then I else I[last xs := (I ! last xs)\<lparr>i_next := n\<rparr>])"

definition set_prev :: "ny_instruction list \<Rightarrow> nat list \<Rightarrow> nat \<Rightarrow> ny_instruction list" where
  "set_prev I ys p = (if ys = [] then I else I[hd ys := (I ! hd ys)\<lparr>i_prev := p\<rparr>])"

lemma length_set_link [simp]: "length (set_next I xs n) = length I" "length (set_prev I ys p) = length I"
  by (simp_all add: set_next_def set_prev_def)

lemma nth_upd: "I[k := v] ! i = (if i = k \<and> k < length I then v else I ! i)"
  by (cases "k < length I") (auto simp: nth_list_update list_update_beyond)

lemma set_next_other: "i \<notin> set xs \<Longrightarrow> set_next I xs n ! i = I ! i"
  by (cases xs rule: rev_cases) (auto simp: set_next_def nth_upd)

lemma set_prev_other: "i \<notin> set ys \<Longrightarrow> set_prev I ys p ! i = I ! i"
  by (cases ys) (auto simp: set_prev_def nth_upd)

lemma payload_set_link [simp]:
  "payload (set_next I xs n ! i) = payload (I ! i)" "payload (set_prev I ys p ! i) = payload (I ! i)"
  by (auto simp: set_next_def set_prev_def payload_def nth_upd)

lemma i_block_set_link [simp]:
  "i_block (set_next I xs n ! i) = i_block (I ! i)" "i_block (set_prev I ys p ! i) = i_block (I ! i)"
  by (auto simp: set_next_def set_prev_def nth_upd)

lemma seg_set_next_last:
  assumes "seg I b p xs m" "distinct xs"
  shows "seg (set_next I xs n) b p xs n"
proof (cases xs rule: rev_cases)
  case (snoc zs z)
  then show ?thesis using assms seg_set_next[of I b p zs z m n] by (auto simp: set_next_def simp del: seg_append)
qed simp

lemma seg_set_prev_hd:
  assumes "seg I b p xs m" "distinct xs"
  shows "seg (set_prev I xs q) b q xs m"
  using assms seg_set_prev[of I b p "hd xs" "tl xs" m q] by (cases xs) (auto simp: set_prev_def)

lemma seg_set_next_frame:
  assumes "seg I b p xs m" "set xs \<inter> set ys = {}"
  shows "seg (set_next I ys n) b p xs m"
  by (rule seg_cong[OF assms(1)]) (use assms seg_mem[OF assms(1)] in \<open>auto intro: set_next_other\<close>)

lemma seg_set_prev_frame:
  assumes "seg I b p xs m" "set xs \<inter> set ys = {}"
  shows "seg (set_prev I ys n) b p xs m"
  by (rule seg_cong[OF assms(1)]) (use assms seg_mem[OF assms(1)] in \<open>auto intro: set_prev_other\<close>)

text \<open>Joining two segments that end and start anywhere.\<close>

lemma seg_join:
  assumes "seg I b p xs m" "seg I b q ys n" "distinct (xs @ ys)"
  shows "seg (set_prev (set_next I xs (hd_or ys n)) ys (last_or p xs)) b p (xs @ ys) n"
proof -
  have d: "set xs \<inter> set ys = {}" "set ys \<inter> set xs = {}" "distinct xs" "distinct ys" using assms(3) by auto
  have "seg (set_next I xs (hd_or ys n)) b p xs (hd_or ys n)" by (rule seg_set_next_last[OF assms(1) d(3)])
  moreover have "seg (set_next I xs (hd_or ys n)) b q ys n" by (rule seg_set_next_frame[OF assms(2) d(2)])
  ultimately show ?thesis using seg_set_prev_frame[OF _ d(1)] seg_set_prev_hd[OF _ d(4)] by auto
qed

text \<open>
  C1. Appending an instruction: on a well-formed function the call returns, the new instruction is
  the last of its block's list, the other lists, the other instructions and the edges are as before, and
  its operands are the ones given.
\<close>

theorem append_instruction_refines:
  assumes wf: "fn_wf fn L" and b: "b < length (f_blocks fn)" and opc: "opc \<noteq> NY_OPCODE_NONE"
    and room: "length (f_insts fn) + 1 < NY_INVALID" "length (f_operands fn) < NY_INVALID" "length ops < 65536"
  shows "\<exists>fn'. ny_function_append_instruction fn b opc res ops fl = Some (fn', length (f_insts fn))
    \<and> fn_wf fn' (L[b := L ! b @ [length (f_insts fn)]])
    \<and> payload (f_insts fn' ! length (f_insts fn)) =
        (length (f_insts fn), opc, fl, res, length (f_operands fn), length ops)
    \<and> (\<forall>i < length (f_insts fn). payload (f_insts fn' ! i) = payload (f_insts fn ! i))
    \<and> f_operands fn' = f_operands fn @ ops \<and> block_edges fn' = block_edges fn"
proof -
  let ?n = "length (f_insts fn)" and ?I = "f_insts fn" and ?xs = "L ! b"
  define new where "new = \<lparr>i_id = ?n, i_opcode = opc, i_flags = fl, i_result = res, i_op_start = u32 (length (f_operands fn)),
      i_op_count = u16 (length ops), i_block = b, i_prev = last_or NY_INVALID_INST ?xs, i_next = NY_INVALID_INST\<rparr>"
  from append_instruction_shape[OF wf b room(1), of opc res ops fl] obtain fn' B where
    app: "ny_function_append_instruction fn b opc res ops fl = Some (fn', ?n)"
    and blocks: "f_blocks fn' = (f_blocks fn)[b := B]" and B: "b_id B = b" "b_first B = hd_or ?xs ?n" "b_last B = ?n"
      "b_inst_count B = length ?xs + 1" "b_preds B = b_preds (f_blocks fn ! b)" "b_succs B = b_succs (f_blocks fn ! b)"
    and insts: "f_insts fn' = set_next ?I ?xs ?n @ [new]" and ops: "f_operands fn' = f_operands fn @ ops"
    by (auto simp: set_next_def new_def)
  have ok: "block_ok ?I (f_blocks fn ! b) b ?xs" using fn_wf_block[OF wf b] .
  have lt: "x < ?n" if "x \<in> set ?xs" for x using fn_wf_mem(1)[OF wf b that] .
  have "seg (set_next ?I ?xs ?n) b NY_INVALID_INST ?xs ?n" using ok by (intro seg_set_next_last) (auto simp: block_ok_def)
  then have "seg (f_insts fn') b NY_INVALID_INST ?xs ?n"
    by (rule seg_cong) (use lt in \<open>simp add: insts nth_append less_SucI\<close>)
  then have seg: "seg (f_insts fn') b NY_INVALID_INST (?xs @ [?n]) NY_INVALID_INST"
    using opc by (simp add: insts nth_append new_def)
  have "fn_wf fn' (L[b := ?xs @ [?n]])"
  proof (rule fn_wf_one_block[OF wf b blocks])
    show "block_ok (f_insts fn') B b (?xs @ [?n])"
      using seg B ok lt by (auto simp: block_ok_def simp del: seg_append)
    show "i_id (f_insts fn' ! i) = i" if "i < length (f_insts fn')" for i
    proof (cases "i < ?n")
      case True
      then have "payload (set_next ?I ?xs ?n ! i) = payload (?I ! i)" by simp
      then show ?thesis using True wf insts by (simp add: payload_def nth_append fn_wf_def)
    qed (use that insts in \<open>auto simp: nth_append new_def\<close>)
    show "i_block (f_insts fn' ! i) = b \<and> i \<in> set (?xs @ [?n])"
      if "i < length (f_insts fn')" "i \<in> set ?xs \<or> ?n \<le> i" for i
    proof (cases "i < ?n")
      case True
      then show ?thesis using that fn_wf_mem(3)[OF wf b, of i] insts by (auto simp: nth_append)
    qed (use that insts in \<open>auto simp: nth_append new_def\<close>)
  qed (use room insts in \<open>auto simp: set_next_other nth_append\<close>)
  moreover have "payload (f_insts fn' ! ?n) = (?n, opc, fl, res, length (f_operands fn), length ops)"
    using room by (simp add: insts nth_append payload_def new_def NY_INVALID_def)
  moreover have "\<forall>i < ?n. payload (f_insts fn' ! i) = payload (?I ! i)" by (simp add: insts nth_append)
  moreover have "block_edges fn' = block_edges fn"
    using block_edges_update[OF b, of B] B by (simp add: block_edges_def blocks)
  ultimately show ?thesis using app ops by auto
qed

subsection \<open>Removing an instruction\<close>

definition cleared :: "ny_instruction \<Rightarrow> ny_instruction" where
  "cleared i = i\<lparr>i_opcode := NY_OPCODE_NONE, i_prev := NY_INVALID_INST, i_next := NY_INVALID_INST, i_op_count := 0\<rparr>"

definition forget_def :: "ny_function \<Rightarrow> nat \<Rightarrow> ny_value list" where
  "forget_def fn res = f_values (if res \<noteq> NY_INVALID_VALUE then upd_value fn res (\<lambda>v. v\<lparr>v_def := NY_INVALID_INST\<rparr>) else fn)"

lemma remove_instruction_shape:
  assumes wf: "fn_wf fn L" and b: "b < length (f_blocks fn)" and L: "L ! b = xs @ x # ys"
  shows "\<exists>fn' B. ny_function_remove_instruction fn x = Some fn'
    \<and> f_insts fn' = (set_prev (set_next (f_insts fn) xs (hd_or ys NY_INVALID_INST)) ys (last_or NY_INVALID_INST xs))
         [x := cleared (f_insts fn ! x)]
    \<and> f_blocks fn' = (f_blocks fn)[b := B] \<and> block_ok (f_insts fn') B b (xs @ ys)
    \<and> b_preds B = b_preds (f_blocks fn ! b) \<and> b_succs B = b_succs (f_blocks fn ! b)
    \<and> f_operands fn' = f_operands fn \<and> f_entry fn' = f_entry fn
    \<and> f_values fn' = forget_def fn (i_result (f_insts fn ! x))"
proof -
  let ?I = "f_insts fn" and ?inst = "f_insts fn ! x" and ?p = "last_or NY_INVALID_INST xs" and ?n = "hd_or ys NY_INVALID_INST"
  have ok: "block_ok ?I (f_blocks fn ! b) b (xs @ x # ys)" using fn_wf_block[OF wf b] L by simp
  then have seg: "seg ?I b NY_INVALID_INST xs x" "seg ?I b x ys NY_INVALID_INST" and x: "x < length ?I"
    "i_opcode ?inst \<noteq> NY_OPCODE_NONE" "i_block ?inst = b" "i_prev ?inst = ?p" "i_next ?inst = ?n"
    and d: "distinct (xs @ ys)" "x \<notin> set xs" "x \<notin> set ys" by (auto simp: block_ok_def)
  define I2 where "I2 = set_prev (set_next ?I xs ?n) ys ?p"
  have mem: "z < length ?I \<and> z \<noteq> NY_INVALID" if "z \<in> set (xs @ ys)" for z
    using fn_wf_mem[OF wf b, of z] that L by auto
  have p_iff: "?p \<noteq> NY_INVALID \<longleftrightarrow> xs \<noteq> []" "xs \<noteq> [] \<Longrightarrow> ?p = last xs" "xs \<noteq> [] \<Longrightarrow> last xs < length ?I"
    and n_iff: "?n \<noteq> NY_INVALID \<longleftrightarrow> ys \<noteq> []" "ys \<noteq> [] \<Longrightarrow> ?n = hd ys" "ys \<noteq> [] \<Longrightarrow> hd ys < length ?I"
    using mem[of "last xs"] mem[of "hd ys"] by (auto simp: last_or_def hd_or_def split: list.splits)
  have I2x: "I2 ! x = ?inst" using d by (simp add: I2_def set_prev_other set_next_other)
  define B where "B = (f_blocks fn ! b)\<lparr>b_first := hd_or (xs @ ys) NY_INVALID_INST, b_last := last_or NY_INVALID_INST (xs @ ys),
      b_inst_count := length (xs @ ys)\<rparr>"
  define fn2 where "fn2 = fn\<lparr>f_insts := I2, f_blocks := (f_blocks fn)[b := B]\<rparr>"
  define fn3 where "fn3 = (if i_result ?inst \<noteq> NY_INVALID_VALUE
      then upd_value fn2 (i_result ?inst) (\<lambda>v. v\<lparr>v_def := NY_INVALID_INST\<rparr>) else fn2)"
  have Bfld: "b_first (f_blocks fn ! b) = hd_or (xs @ x # ys) NY_INVALID" "b_last (f_blocks fn ! b) = last_or NY_INVALID (xs @ x # ys)"
    "b_inst_count (f_blocks fn ! b) = length (xs @ x # ys)" using ok by (auto simp: block_ok_def)
  define B1 where "B1 = (f_blocks fn ! b)\<lparr>b_first := hd_or (xs @ ys) NY_INVALID\<rparr>"
  define B2 where "B2 = B1\<lparr>b_last := last_or NY_INVALID (xs @ ys)\<rparr>"
  have B1: "xs \<noteq> [] \<Longrightarrow> B1 = f_blocks fn ! b" using Bfld(1) by (cases xs) (auto simp: B1_def)
  have B2: "ys \<noteq> [] \<Longrightarrow> B2 = B1" using Bfld(2) by (cases ys rule: rev_cases) (auto simp: B2_def B1_def)
  have s1: "(if ?p \<noteq> NY_INVALID then upd_inst fn ?p (\<lambda>p. p\<lparr>i_next := ?n\<rparr>) else upd_block fn b (\<lambda>b. b\<lparr>b_first := ?n\<rparr>))
    = Some (fn\<lparr>f_insts := set_next ?I xs ?n, f_blocks := (f_blocks fn)[b := B1]\<rparr>)"
  proof (cases "xs = []")
    case True
    then show ?thesis using b by (simp add: set_next_def B1_def)
  next
    case False
    then show ?thesis using p_iff B1 by (simp add: set_next_def)
  qed
  have s2: "(if ?n \<noteq> NY_INVALID then upd_inst (fn\<lparr>f_insts := set_next ?I xs ?n, f_blocks := (f_blocks fn)[b := B1]\<rparr>) ?n
       (\<lambda>n. n\<lparr>i_prev := ?p\<rparr>)
      else upd_block (fn\<lparr>f_insts := set_next ?I xs ?n, f_blocks := (f_blocks fn)[b := B1]\<rparr>) b (\<lambda>b. b\<lparr>b_last := ?p\<rparr>))
    = Some (fn\<lparr>f_insts := I2, f_blocks := (f_blocks fn)[b := B2]\<rparr>)"
  proof (cases "ys = []")
    case True
    then show ?thesis using b by (simp add: set_prev_def I2_def B2_def)
  next
    case False
    then show ?thesis using n_iff B2 by (simp add: set_prev_def I2_def)
  qed
  have cnt: "b_inst_count B2 = Suc (length xs + length ys)" using Bfld by (simp add: B2_def B1_def)
  have s3: "upd_block (fn\<lparr>f_insts := I2, f_blocks := (f_blocks fn)[b := B2]\<rparr>) b
      (\<lambda>b. if b_inst_count b > 0 then b\<lparr>b_inst_count := b_inst_count b - 1\<rparr> else b) = Some fn2"
    using b cnt by (simp add: fn2_def B_def B2_def B1_def)
  have xn: "set_next ?I xs ?n ! x = ?inst" using d by (simp add: set_next_other)
  have rdx: "rd ?I x = Some ?inst" "rd (f_blocks fn) b = Some (f_blocks fn ! b)" using x b by auto
  have rd2: "rd (f_insts (fn\<lparr>f_insts := set_next ?I xs ?n, f_blocks := (f_blocks fn)[b := B1]\<rparr>)) x = Some ?inst"
    using x xn by simp
  have run: "ny_function_remove_instruction fn x = upd_inst fn3 x cleared"
    unfolding ny_function_remove_instruction_def
    by (simp only: rdx option.case x(2) if_False x(3,4,5) s1 bind.bind_lunit rd2 s2 s3 Let_def fn3_def cleared_def[abs_def])
  have f3: "f_insts fn3 = I2" "f_blocks fn3 = (f_blocks fn)[b := B]" "f_operands fn3 = f_operands fn" "f_entry fn3 = f_entry fn"
    "f_values fn3 = forget_def fn (i_result ?inst)"
    by (simp_all add: fn3_def fn2_def forget_def_def upd_value_def)
  have "seg I2 b NY_INVALID_INST (xs @ ys) NY_INVALID_INST"
    unfolding I2_def by (rule seg_join[OF seg d(1)])
  then have "seg (I2[x := cleared ?inst]) b NY_INVALID_INST (xs @ ys) NY_INVALID_INST"
    using d by (subst seg_update_other) auto
  then have "block_ok (I2[x := cleared ?inst]) B b (xs @ ys)"
    using ok d by (simp add: block_ok_def B_def del: seg_append)
  then show ?thesis using x(1) I2x
    by (intro exI[of _ "fn3\<lparr>f_insts := I2[x := cleared ?inst]\<rparr>"] exI[of _ B]) (simp add: run f3 I2_def B_def)
qed

lemma fn_wf_live:
  assumes "fn_wf fn L" "x < length (f_insts fn)" "i_opcode (f_insts fn ! x) \<noteq> NY_OPCODE_NONE"
  shows "i_block (f_insts fn ! x) < length (f_blocks fn)" "x \<in> set (L ! i_block (f_insts fn ! x))"
  using assms by (auto simp: fn_wf_def)

text \<open>
  What a removal leaves alone: other instructions up to their links, the operands, the entry block and the edges.
\<close>

definition same_but :: "nat set \<Rightarrow> ny_function \<Rightarrow> ny_function \<Rightarrow> bool" where
  "same_but X fn fn' \<longleftrightarrow> length (f_insts fn') = length (f_insts fn)
     \<and> (\<forall>i < length (f_insts fn). i \<notin> X \<longrightarrow> payload (f_insts fn' ! i) = payload (f_insts fn ! i)
          \<and> i_block (f_insts fn' ! i) = i_block (f_insts fn ! i))
     \<and> f_operands fn' = f_operands fn \<and> f_entry fn' = f_entry fn \<and> block_edges fn' = block_edges fn
     \<and> length (f_blocks fn') = length (f_blocks fn)"

lemma same_but_refl: "same_but X fn fn"
  by (simp add: same_but_def)

lemma same_but_trans: "same_but X fn fn1 \<Longrightarrow> same_but Y fn1 fn2 \<Longrightarrow> same_but (X \<union> Y) fn fn2"
  by (auto simp: same_but_def)

lemma remove_instruction_step:
  assumes wf: "fn_wf fn L" and b: "b < length (f_blocks fn)" and L: "L ! b = xs @ x # ys"
  shows "\<exists>fn'. ny_function_remove_instruction fn x = Some fn' \<and> fn_wf fn' (L[b := xs @ ys]) \<and> same_but {x} fn fn'
    \<and> f_insts fn' ! x = cleared (f_insts fn ! x) \<and> f_values fn' = forget_def fn (i_result (f_insts fn ! x))"
proof -
  let ?I = "f_insts fn"
  from remove_instruction_shape[OF assms] obtain fn' B where run: "ny_function_remove_instruction fn x = Some fn'"
    and I': "f_insts fn' = (set_prev (set_next ?I xs (hd_or ys NY_INVALID)) ys (last_or NY_INVALID xs))[x := cleared (?I ! x)]"
    and bl: "f_blocks fn' = (f_blocks fn)[b := B]" and ok: "block_ok (f_insts fn') B b (xs @ ys)"
    and B: "b_preds B = b_preds (f_blocks fn ! b)" "b_succs B = b_succs (f_blocks fn ! b)"
    and rest: "f_operands fn' = f_operands fn" "f_entry fn' = f_entry fn" "f_values fn' = forget_def fn (i_result (?I ! x))"
    by blast
  have x: "x < length ?I" using fn_wf_mem(1)[OF wf b, of x] L by simp
  have pay: "i \<noteq> x \<Longrightarrow> payload (f_insts fn' ! i) = payload (?I ! i) \<and> i_block (f_insts fn' ! i) = i_block (?I ! i)" for i
    by (simp add: I')
  have at: "f_insts fn' ! x = cleared (?I ! x)" using x by (simp add: I')
  have "fn_wf fn' (L[b := xs @ ys])"
  proof (rule fn_wf_one_block[OF wf b bl ok])
    show "i_id (f_insts fn' ! i) = i" if "i < length (f_insts fn')" for i
      using that pay[of i] at wf I' by (cases "i = x") (auto simp: payload_def cleared_def fn_wf_def)
    show "i_block (f_insts fn' ! i) = b \<and> i \<in> set (xs @ ys)"
      if "i < length (f_insts fn')" "i \<in> set (L ! b) \<or> length ?I \<le> i" "i_opcode (f_insts fn' ! i) \<noteq> NY_OPCODE_NONE" for i
      using that fn_wf_mem(3)[OF wf b, of i] pay[of i] at L I' by (cases "i = x") (auto simp: cleared_def)
    show "f_insts fn' ! i = ?I ! i" if "i < length ?I" "i \<notin> set (L ! b)" for i
      using that L by (simp add: I' set_prev_other set_next_other)
  qed (use wf I' in \<open>auto simp: fn_wf_def\<close>)
  moreover have "same_but {x} fn fn'"
    using pay rest I' block_edges_update[OF b, of B] B bl by (auto simp: same_but_def block_edges_def)
  ultimately show ?thesis using run at rest by blast
qed

lemma remove_instruction_live:
  assumes wf: "fn_wf fn L" and x: "x < length (f_insts fn)" "i_opcode (f_insts fn ! x) \<noteq> NY_OPCODE_NONE"
  shows "\<exists>fn'. ny_function_remove_instruction fn x = Some fn'
    \<and> fn_wf fn' (L[i_block (f_insts fn ! x) := remove1 x (L ! i_block (f_insts fn ! x))]) \<and> same_but {x} fn fn'
    \<and> f_insts fn' ! x = cleared (f_insts fn ! x) \<and> f_values fn' = forget_def fn (i_result (f_insts fn ! x))"
proof -
  define b where "b = i_block (f_insts fn ! x)"
  have b: "b < length (f_blocks fn)" "x \<in> set (L ! b)" using fn_wf_live[OF wf x] by (auto simp: b_def)
  then obtain xs ys where L: "L ! b = xs @ x # ys" by (meson split_list)
  have "distinct (L ! b)" using fn_wf_block[OF wf b(1)] by (simp add: block_ok_def)
  then have "remove1 x (L ! b) = xs @ ys" using L by (simp add: remove1_append)
  then show ?thesis using remove_instruction_step[OF wf b(1) L] by (simp add: b_def[symmetric])
qed

lemma remove_instruction_hole:
  "\<not> (x < length (f_insts fn) \<and> i_opcode (f_insts fn ! x) \<noteq> NY_OPCODE_NONE) \<Longrightarrow> ny_function_remove_instruction fn x = Some fn"
  by (auto simp: ny_function_remove_instruction_def rd_def)

lemma remove_instruction_defined: "fn_wf fn L \<Longrightarrow> ny_function_remove_instruction fn x \<noteq> None"
  using remove_instruction_live[of fn L x] remove_instruction_hole[of x fn] by (metis option.distinct(1))

text \<open>
  C2. Removing an instruction: on a well-formed function the call returns; a live instruction leaves
  its block's list and becomes a hole without operands, its result no longer has a definition, and
  all other instructions, lists, operands and edges are unchanged; a hole or an unknown id is left alone.
\<close>

theorem remove_instruction_refines:
  assumes wf: "fn_wf fn L"
  shows "(x < length (f_insts fn) \<and> i_opcode (f_insts fn ! x) \<noteq> NY_OPCODE_NONE \<longrightarrow>
      (\<exists>fn'. ny_function_remove_instruction fn x = Some fn'
        \<and> fn_wf fn' (L[i_block (f_insts fn ! x) := remove1 x (L ! i_block (f_insts fn ! x))])
        \<and> same_but {x} fn fn' \<and> i_opcode (f_insts fn' ! x) = NY_OPCODE_NONE \<and> i_op_count (f_insts fn' ! x) = 0
        \<and> (i_result (f_insts fn ! x) \<noteq> NY_INVALID_VALUE \<and> i_result (f_insts fn ! x) < length (f_values fn) \<longrightarrow>
             v_def (f_values fn' ! i_result (f_insts fn ! x)) = NY_INVALID_INST)))
    \<and> (\<not> (x < length (f_insts fn) \<and> i_opcode (f_insts fn ! x) \<noteq> NY_OPCODE_NONE) \<longrightarrow>
         ny_function_remove_instruction fn x = Some fn)"
  using remove_instruction_live[OF wf, of x] remove_instruction_hole[of x fn]
  by (auto simp: cleared_def forget_def_def upd_value_def)

subsection \<open>Removing a block\<close>

lemma remove_insts_from_list:
  assumes "fn_wf fn L" "b < length (f_blocks fn)" "L ! b = xs"
  shows "\<exists>fn'. remove_insts_from fn (hd_or xs NY_INVALID_INST) = Some fn' \<and> fn_wf fn' (L[b := []])
    \<and> same_but (set xs) fn fn' \<and> (\<forall>x \<in> set xs. i_opcode (f_insts fn' ! x) = NY_OPCODE_NONE)"
  using assms
proof (induction xs arbitrary: fn L)
  case Nil
  then have "L[b := []] = L" by (metis list_update_id)
  then show ?case using Nil by (simp add: remove_insts_from.simps same_but_refl)
next
  case (Cons x xs)
  have Lb: "L ! b = [] @ x # xs" using Cons.prems by simp
  obtain fn1 where r: "ny_function_remove_instruction fn x = Some fn1" "fn_wf fn1 (L[b := xs])" "same_but {x} fn fn1"
    "f_insts fn1 ! x = cleared (f_insts fn ! x)"
    using remove_instruction_step[OF Cons.prems(1,2) Lb] by auto
  have b: "b < length L" using Cons.prems by (simp add: fn_wf_def)
  have x: "x < length (f_insts fn)" "x \<noteq> NY_INVALID" using fn_wf_mem[OF Cons.prems(1,2), of x] Cons.prems(3) by auto
  have nx: "i_next (f_insts fn ! x) = hd_or xs NY_INVALID"
    using fn_wf_block[OF Cons.prems(1,2)] Cons.prems(3) by (simp add: block_ok_def)
  have lb: "b < length (f_blocks fn1)" using r(3) Cons.prems(2) by (simp add: same_but_def)
  from Cons.IH[OF r(2) lb] b obtain fn' where IH: "remove_insts_from fn1 (hd_or xs NY_INVALID) = Some fn'"
    "fn_wf fn' (L[b := []])" "same_but (set xs) fn1 fn'" "\<forall>x \<in> set xs. i_opcode (f_insts fn' ! x) = NY_OPCODE_NONE" by auto
  have nin: "x \<notin> set xs" using fn_wf_block[OF Cons.prems(1,2)] Cons.prems(3) by (simp add: block_ok_def)
  then have "i_opcode (f_insts fn' ! x) = NY_OPCODE_NONE"
    using IH(3) r(3,4) x by (simp add: same_but_def payload_def cleared_def)
  moreover have "remove_insts_from fn x = Some fn'"
    using x r(1) nx IH(1) by (subst remove_insts_from.simps) simp
  moreover have "same_but (set (x # xs)) fn fn'" using same_but_trans[OF r(3) IH(3)] by simp
  ultimately show ?case using IH(2,4) by (intro exI[of _ fn']) simp
qed

subsection \<open>Edges\<close>

definition edges :: "ny_function \<Rightarrow> (nat \<times> nat) set" where
  "edges fn = {(x, y). x < length (f_blocks fn) \<and> y \<in> set (b_succs (f_blocks fn ! x))}"

definition edges_wf :: "ny_function \<Rightarrow> bool" where
  "edges_wf fn \<longleftrightarrow> (\<forall>x < length (f_blocks fn). b_id (f_blocks fn ! x) = x
     \<and> distinct (b_succs (f_blocks fn ! x)) \<and> distinct (b_preds (f_blocks fn ! x))
     \<and> set (b_succs (f_blocks fn ! x)) \<subseteq> {..<length (f_blocks fn)}
     \<and> set (b_preds (f_blocks fn ! x)) = {p. (p, x) \<in> edges fn})"

lemma swap_remove_distinct:
  assumes "distinct xs" "i < length xs"
  shows "distinct (swap_remove xs i) \<and> set (swap_remove xs i) = set xs - {xs ! i}"
proof (cases "Suc i = length xs")
  case True
  then have "xs[i := last xs] = xs" using assms(2) last_conv_nth[of xs] by (cases xs) (auto simp: list_update_same_conv)
  moreover have "xs = butlast xs @ [xs ! i]"
    using True assms(2) last_conv_nth[of xs] append_butlast_last_id[of xs] by (cases xs) auto
  ultimately show ?thesis using assms(1) unfolding swap_remove_def by (metis Diff_insert_absorb append_Nil2 distinct_append
      distinct_butlast list.simps(15) not_distinct_conv_prefix rotate1.simps(2) set_rotate1)
next
  case False
  with assms obtain ys where ys: "drop (Suc i) xs = ys @ [last xs]"
    using append_butlast_last_id[of "drop (Suc i) xs"] by (metis Suc_lessI drop_eq_Nil last_drop not_le)
  have xs: "xs = take i xs @ xs ! i # ys @ [last xs]" using id_take_nth_drop[OF assms(2)] ys by simp
  have "swap_remove xs i = take i xs @ last xs # ys"
    unfolding swap_remove_def upd_conv_take_nth_drop[OF assms(2)] ys by (simp add: butlast_append)
  moreover have "distinct (take i xs @ xs ! i # ys @ [last xs])" using assms(1) xs by simp
  moreover have "set xs = set (take i xs @ xs ! i # ys @ [last xs])" using xs by simp
  ultimately show ?thesis by auto
qed

lemma remove_first_set:
  assumes "distinct xs"
  shows "distinct (remove_first v xs)" "set (remove_first v xs) = set xs - {v}"
  using assms swap_remove_distinct[OF assms] find_index_Some[of "\<lambda>x. x = v" xs]
  by (auto simp: remove_first_def find_index_None split: option.splits)

lemma add_new_set: "set (add_new v xs) = insert v (set xs)" "distinct xs \<Longrightarrow> distinct (add_new v xs)"
  by (auto simp: add_new_def)

text \<open>A block update at several indices.\<close>

definition map_at :: "('a \<Rightarrow> 'a) \<Rightarrow> nat list \<Rightarrow> 'a list \<Rightarrow> 'a list" where
  "map_at g ys B = fold (\<lambda>y B. B[y := g (B ! y)]) ys B"

lemma length_map_at [simp]: "length (map_at g ys B) = length B"
  unfolding map_at_def by (induction ys arbitrary: B) auto

lemma nth_map_at: "distinct ys \<Longrightarrow> i < length B \<Longrightarrow> map_at g ys B ! i = (if i \<in> set ys then g (B ! i) else B ! i)"
  unfolding map_at_def by (induction ys arbitrary: B) (auto simp: nth_upd)

lemma foldM_map_at:
  assumes "\<And>y fn. y \<in> set ys \<Longrightarrow> y < length (f_blocks fn) \<Longrightarrow> step fn y = upd_block fn y g"
    "\<forall>y \<in> set ys. y < length (f_blocks fn)"
  shows "foldM step fn ys = Some (fn\<lparr>f_blocks := map_at g ys (f_blocks fn)\<rparr>)"
  using assms
proof (induction ys arbitrary: fn)
  case Nil
  then show ?case by (simp add: map_at_def)
next
  case (Cons y ys)
  have "step fn y = Some (fn\<lparr>f_blocks := (f_blocks fn)[y := g (f_blocks fn ! y)]\<rparr>)" using Cons.prems by simp
  with Cons.IH[of "fn\<lparr>f_blocks := (f_blocks fn)[y := g (f_blocks fn ! y)]\<rparr>"] Cons.prems show ?case
    by (simp add: map_at_def)
qed

text \<open>
  Edges: adding an edge adds exactly that pair to the successor relation and removing one
  removes exactly it; both keep the predecessor lists the mirror image of the successor lists,
  without duplicates.
\<close>

theorem block_edges_spec:
  assumes wf: "edges_wf fn" and p: "p < length (f_blocks fn)" and s: "s < length (f_blocks fn)"
  shows "(\<exists>fn'. ny_block_add_edge fn p s = Some fn' \<and> edges_wf fn' \<and> edges fn' = insert (p, s) (edges fn))
    \<and> (\<exists>fn'. ny_block_remove_edge fn p s = Some fn' \<and> edges_wf fn' \<and> edges fn' = edges fn - {(p, s)})"
proof -
  let ?B = "f_blocks fn"
  have ids: "b_id (?B ! p) = p" "b_id (?B ! s) = s" using wf p s by (auto simp: edges_wf_def)
  have pre: "x < length ?B \<Longrightarrow> distinct (b_succs (?B ! x)) \<and> distinct (b_preds (?B ! x))
     \<and> set (b_preds (?B ! x)) = {q. (q, x) \<in> edges fn} \<and> set (b_succs (?B ! x)) \<subseteq> {..<length ?B}" for x
    using wf by (simp add: edges_wf_def)
  have gen: "\<exists>fn'. do {
        fn \<leftarrow> upd_block fn p (\<lambda>p. p\<lparr>b_succs := h s (b_succs p)\<rparr>);
        q \<leftarrow> rd (f_blocks fn) p;
        upd_block fn s (\<lambda>s. s\<lparr>b_preds := h (b_id q) (b_preds s)\<rparr>) } = Some fn' \<and> edges_wf fn' \<and> edges fn' = R"
    if h: "\<And>v xs. distinct xs \<Longrightarrow> distinct (h v xs)" "\<And>v xs. distinct xs \<Longrightarrow> set (h v xs) \<subseteq> insert v (set xs)"
      and hs: "\<And>x y. x < length ?B \<Longrightarrow> (x, y) \<in> R \<longleftrightarrow> y \<in> (if x = p then set (h s (b_succs (?B ! p))) else set (b_succs (?B ! x)))"
      and hp: "\<And>x y. (x, s) \<in> R \<longleftrightarrow> x \<in> set (h p (b_preds (?B ! s)))" and hR: "R \<subseteq> {..<length ?B} \<times> UNIV"
      and ho: "\<And>x y. y \<noteq> s \<Longrightarrow> (x, y) \<in> R \<longleftrightarrow> (x, y) \<in> edges fn" for h R
  proof -
    define B1 where "B1 = ?B[p := (?B ! p)\<lparr>b_succs := h s (b_succs (?B ! p))\<rparr>]"
    define B2 where "B2 = B1[s := (B1 ! s)\<lparr>b_preds := h p (b_preds (B1 ! s))\<rparr>]"
    have B2: "x < length ?B \<Longrightarrow> b_id (B2 ! x) = b_id (?B ! x)
        \<and> b_succs (B2 ! x) = (if x = p then h s (b_succs (?B ! p)) else b_succs (?B ! x))
        \<and> b_preds (B2 ! x) = (if x = s then h p (b_preds (?B ! s)) else b_preds (?B ! x))" for x
      by (auto simp: B2_def B1_def nth_list_update)
    have len: "length B2 = length ?B" by (simp add: B2_def B1_def)
    have ed: "edges (fn\<lparr>f_blocks := B2\<rparr>) = R"
      using hs hR by (auto simp: edges_def len B2 split: if_splits)
    have "edges_wf (fn\<lparr>f_blocks := B2\<rparr>)"
      unfolding edges_wf_def ed
    proof (intro allI impI)
      fix x assume "x < length (f_blocks (fn\<lparr>f_blocks := B2\<rparr>))"
      then have x: "x < length ?B" by (simp add: len)
      have "set (h s (b_succs (?B ! p))) \<subseteq> {..<length ?B}" using h(2)[of "b_succs (?B ! p)" s] pre[OF p] s by auto
      then show "b_id (f_blocks (fn\<lparr>f_blocks := B2\<rparr>) ! x) = x \<and> distinct (b_succs (f_blocks (fn\<lparr>f_blocks := B2\<rparr>) ! x))
          \<and> distinct (b_preds (f_blocks (fn\<lparr>f_blocks := B2\<rparr>) ! x))
          \<and> set (b_succs (f_blocks (fn\<lparr>f_blocks := B2\<rparr>) ! x)) \<subseteq> {..<length (f_blocks (fn\<lparr>f_blocks := B2\<rparr>))}
          \<and> set (b_preds (f_blocks (fn\<lparr>f_blocks := B2\<rparr>) ! x)) = {q. (q, x) \<in> R}"
        using B2[OF x] pre[OF x] pre[OF p] pre[OF s] h(1) hp ho wf x len by (auto simp: edges_wf_def)
    qed
    moreover have "rd B1 p = Some (B1 ! p)" "b_id (B1 ! p) = p" using p ids by (simp_all add: B1_def)
    ultimately show ?thesis using p s ed by (simp add: B1_def[symmetric] B2_def) (simp add: B1_def)
  qed
  have pe: "(x, y) \<in> edges fn \<longleftrightarrow> x < length ?B \<and> y \<in> set (b_succs (?B ! x))" for x y by (auto simp: edges_def)
  have "\<exists>fn'. ny_block_add_edge fn p s = Some fn' \<and> edges_wf fn' \<and> edges fn' = insert (p, s) (edges fn)"
    unfolding ny_block_add_edge_def using s p ids
    by (simp only: rd_lt bind.bind_lunit) (rule gen; use pre[OF s] p in \<open>auto simp: add_new_set pe\<close>)
  moreover have "\<exists>fn'. ny_block_remove_edge fn p s = Some fn' \<and> edges_wf fn' \<and> edges fn' = edges fn - {(p, s)}"
    unfolding ny_block_remove_edge_def using s p ids
    by (simp only: rd_lt bind.bind_lunit)
      (rule gen; use pre[OF s] pre[OF p] p in \<open>auto simp: remove_first_set pe dest: subsetD[OF equalityD1[OF remove_first_set(2)]]\<close>)
  ultimately show ?thesis by blast
qed

lemma block_edges_nth:
  assumes "block_edges fn' = block_edges fn"
  shows "length (f_blocks fn') = length (f_blocks fn)"
    "x < length (f_blocks fn) \<Longrightarrow> b_preds (f_blocks fn' ! x) = b_preds (f_blocks fn ! x)"
    "x < length (f_blocks fn) \<Longrightarrow> b_succs (f_blocks fn' ! x) = b_succs (f_blocks fn ! x)"
proof -
  show len: "length (f_blocks fn') = length (f_blocks fn)" using arg_cong[OF assms, of length] by (simp add: block_edges_def)
  fix x assume "x < length (f_blocks fn)"
  then have "block_edges fn' ! x = (b_preds (f_blocks fn' ! x), b_succs (f_blocks fn' ! x))"
    "block_edges fn ! x = (b_preds (f_blocks fn ! x), b_succs (f_blocks fn ! x))" using len by (simp_all add: block_edges_def)
  then show "b_preds (f_blocks fn' ! x) = b_preds (f_blocks fn ! x)" "b_succs (f_blocks fn' ! x) = b_succs (f_blocks fn ! x)"
    using assms by simp_all
qed

lemma edges_wf_cong:
  assumes "block_edges fn' = block_edges fn" "fn_wf fn' L" "edges_wf fn"
  shows "edges fn' = edges fn" "edges_wf fn'"
proof -
  note e = block_edges_nth[OF assms(1)]
  show ed: "edges fn' = edges fn" using e by (auto simp: edges_def)
  have "b_id (f_blocks fn' ! x) = x" if "x < length (f_blocks fn)" for x
    using fn_wf_block[OF assms(2), of x] that e(1) by (simp add: block_ok_def)
  then show "edges_wf fn'" using assms(3) e ed unfolding edges_wf_def by simp
qed

text \<open>A change of edge lists only.\<close>

definition header :: "ny_block \<Rightarrow> nat \<times> nat \<times> nat \<times> nat" where
  "header B = (b_id B, b_first B, b_last B, b_inst_count B)"

lemma fn_wf_header:
  assumes "fn_wf fn L" "f_insts fn' = f_insts fn" "length (f_blocks fn') = length (f_blocks fn)"
    "\<And>x. x < length (f_blocks fn) \<Longrightarrow> header (f_blocks fn' ! x) = header (f_blocks fn ! x)"
  shows "fn_wf fn' L"
  using assms by (auto simp: fn_wf_def block_ok_def header_def)

lemma edges_remove_block:
  assumes wf: "edges_wf fn" and b: "b < length (f_blocks fn)"
    and B: "\<And>x. x < length (f_blocks fn) \<Longrightarrow> b_id (B ! x) = x
      \<and> b_succs (B ! x) = (if x = b then [] else if x \<in> set (b_preds (f_blocks fn ! b)) then remove_first b (b_succs (f_blocks fn ! x))
           else b_succs (f_blocks fn ! x))
      \<and> b_preds (B ! x) = (if x = b then [] else if x \<in> set (b_succs (f_blocks fn ! b)) then remove_first b (b_preds (f_blocks fn ! x))
           else b_preds (f_blocks fn ! x))"
    and len: "length B = length (f_blocks fn)" and fn': "f_blocks fn' = B"
  shows "edges fn' = {e \<in> edges fn. fst e \<noteq> b \<and> snd e \<noteq> b} \<and> edges_wf fn'"
proof -
  have pre: "x < length (f_blocks fn) \<Longrightarrow> distinct (b_succs (f_blocks fn ! x)) \<and> distinct (b_preds (f_blocks fn ! x))
     \<and> set (b_preds (f_blocks fn ! x)) = {q. (q, x) \<in> edges fn} \<and> set (b_succs (f_blocks fn ! x)) \<subseteq> {..<length (f_blocks fn)}" for x
    using wf by (simp add: edges_wf_def)
  have pe: "(x, y) \<in> edges fn \<longleftrightarrow> x < length (f_blocks fn) \<and> y \<in> set (b_succs (f_blocks fn ! x))" for x y
    by (auto simp: edges_def)
  have succ: "set (b_succs (B ! x)) = (if x = b then {} else set (b_succs (f_blocks fn ! x)) - {b})"
    if "x < length (f_blocks fn)" for x
    using B[OF that] pre[OF that] pre[OF b] remove_first_set[of "b_succs (f_blocks fn ! x)" b] that by (auto simp: pe)
  have pred: "set (b_preds (B ! x)) = (if x = b then {} else set (b_preds (f_blocks fn ! x)) - {b})"
    if "x < length (f_blocks fn)" for x
    using B[OF that] pre[OF that] pre[OF b] remove_first_set[of "b_preds (f_blocks fn ! x)" b] that b by (auto simp: pe)
  have ed: "edges fn' = {e \<in> edges fn. fst e \<noteq> b \<and> snd e \<noteq> b}"
    using succ by (auto simp: edges_def fn' len split: if_splits)
  moreover have "edges_wf fn'"
    unfolding edges_wf_def ed fn' len
  proof (intro allI impI)
    fix x assume x: "x < length (f_blocks fn)"
    show "b_id (B ! x) = x \<and> distinct (b_succs (B ! x)) \<and> distinct (b_preds (B ! x))
        \<and> set (b_succs (B ! x)) \<subseteq> {..<length (f_blocks fn)}
        \<and> set (b_preds (B ! x)) = {p. (p, x) \<in> {e \<in> edges fn. fst e \<noteq> b \<and> snd e \<noteq> b}}"
      using B[OF x] pre[OF x] succ[OF x] pred[OF x] by (auto simp: remove_first_set split: if_splits)
  qed
  ultimately show ?thesis by blast
qed

text \<open>
  C3. Removing a block: the call returns, the block's instructions become holes and its list empty,
  every edge into or out of it is gone on both sides, and the instructions and lists of the other
  blocks, all operands and the remaining edges are unchanged.
\<close>

theorem remove_block_refines:
  assumes wf: "fn_wf fn L" and ew: "edges_wf fn" and b: "b < length (f_blocks fn)"
  shows "\<exists>fn'. ny_function_remove_block fn b = Some fn' \<and> fn_wf fn' (L[b := []]) \<and> edges_wf fn'
    \<and> edges fn' = {e \<in> edges fn. fst e \<noteq> b \<and> snd e \<noteq> b}
    \<and> (\<forall>x \<in> set (L ! b). i_opcode (f_insts fn' ! x) = NY_OPCODE_NONE)
    \<and> (\<forall>i < length (f_insts fn). i \<notin> set (L ! b) \<longrightarrow> payload (f_insts fn' ! i) = payload (f_insts fn ! i))
    \<and> f_operands fn' = f_operands fn"
proof -
  let ?B = "f_blocks fn" and ?ss = "b_succs (f_blocks fn ! b)" and ?ps = "b_preds (f_blocks fn ! b)"
  have first: "b_first (?B ! b) = hd_or (L ! b) NY_INVALID" using fn_wf_block[OF wf b] by (simp add: block_ok_def)
  obtain fn1 where r: "remove_insts_from fn (hd_or (L ! b) NY_INVALID) = Some fn1" "fn_wf fn1 (L[b := []])"
    "same_but (set (L ! b)) fn fn1" "\<forall>x \<in> set (L ! b). i_opcode (f_insts fn1 ! x) = NY_OPCODE_NONE"
    using remove_insts_from_list[OF wf b refl] by blast
  have be: "block_edges fn1 = block_edges fn" using r(3) by (simp add: same_but_def)
  note e = block_edges_nth[OF be]
  have ew1: "edges_wf fn1" "edges fn1 = edges fn" using edges_wf_cong[OF be r(2) ew] by auto
  let ?C = "f_blocks fn1"
  have pre: "distinct ?ss" "distinct ?ps" "\<forall>y \<in> set ?ss. y < length ?B" "\<forall>y \<in> set ?ps. y < length ?B"
    "b \<in> set ?ss \<longleftrightarrow> b \<in> set ?ps"
    using ew b by (auto simp: edges_wf_def) (auto simp: edges_def)
  define D1 where "D1 = map_at (\<lambda>B. B\<lparr>b_preds := remove_first b (b_preds B)\<rparr>) ?ss ?C"
  define D2 where "D2 = D1[b := (D1 ! b)\<lparr>b_succs := []\<rparr>]"
  define ps' where "ps' = (if b \<in> set ?ss then remove_first b ?ps else ?ps)"
  define D3 where "D3 = map_at (\<lambda>B. B\<lparr>b_succs := remove_first b (b_succs B)\<rparr>) ps' D2"
  define D4 where "D4 = D3[b := (D3 ! b)\<lparr>b_preds := [], b_first := NY_INVALID, b_last := NY_INVALID, b_inst_count := 0\<rparr>]"
  have ps': "distinct ps'" "set ps' = set ?ps - {b}"
    using pre remove_first_set[OF pre(2), of b] by (auto simp: ps'_def)
  have lens: "length D1 = length ?B" "length D2 = length ?B" "length D3 = length ?B" "length D4 = length ?B"
    by (simp_all add: D1_def D2_def D3_def D4_def e)
  have st1: "foldM (drop_pred b) fn1 ?ss = Some (fn1\<lparr>f_blocks := D1\<rparr>)"
    unfolding D1_def by (rule foldM_map_at) (use pre e in \<open>auto simp: drop_pred_def\<close>)
  have st3: "foldM (drop_succ b) (fn1\<lparr>f_blocks := D2\<rparr>) ps' = Some (fn1\<lparr>f_blocks := D3\<rparr>)"
    using foldM_map_at[of ps' "drop_succ b" "\<lambda>B. B\<lparr>b_succs := remove_first b (b_succs B)\<rparr>" "fn1\<lparr>f_blocks := D2\<rparr>"] ps' pre lens
    by (auto simp: drop_succ_def D3_def)
  have psD: "b_preds (D2 ! b) = ps'" using b e pre by (auto simp: D2_def D1_def ps'_def nth_map_at)
  have run: "ny_function_remove_block fn b = Some (fn1\<lparr>f_blocks := D4\<rparr>)"
    using b lens by (simp add: ny_function_remove_block_def first r(1) st1 D2_def[symmetric] psD st3 D4_def)
  have D4: "header (D4 ! x) = header (?C ! x)
      \<and> b_succs (D4 ! x) = (if x = b then [] else if x \<in> set ?ps then remove_first b (b_succs (?C ! x)) else b_succs (?C ! x))
      \<and> b_preds (D4 ! x) = (if x = b then [] else if x \<in> set ?ss then remove_first b (b_preds (?C ! x)) else b_preds (?C ! x))"
    if x: "x < length ?B" for x
  proof (cases "x = b")
    case True
    have "block_ok (f_insts fn1) (?C ! b) b []"
      using fn_wf_block[OF r(2), of b] b e r(2) wf by (simp add: fn_wf_def)
    then show ?thesis using True b lens e ps' pre
      by (auto simp: D4_def D3_def D2_def D1_def nth_map_at header_def block_ok_def)
  next
    case False
    then show ?thesis using x b lens e ps' pre by (auto simp: D4_def D3_def D2_def D1_def nth_map_at header_def)
  qed
  have ids: "x < length ?B \<Longrightarrow> b_id (?C ! x) = x" for x using ew1 e by (simp add: edges_wf_def)
  have "fn_wf (fn1\<lparr>f_blocks := D4\<rparr>) (L[b := []])"
    by (rule fn_wf_header[OF r(2)]) (use D4 e lens in auto)
  moreover have "edges (fn1\<lparr>f_blocks := D4\<rparr>) = {x \<in> edges fn1. fst x \<noteq> b \<and> snd x \<noteq> b} \<and> edges_wf (fn1\<lparr>f_blocks := D4\<rparr>)"
    by (rule edges_remove_block[OF ew1(1)]) (use D4 ids e lens b in \<open>auto simp: header_def\<close>)
  ultimately show ?thesis using run r(3,4) ew1(2) by (auto simp: same_but_def)
qed

subsection \<open>Moving instructions between blocks\<close>

text \<open>Rebuilding the invariant after a change of several blocks.\<close>

lemma fn_wf_change:
  assumes wf: "fn_wf fn L"
    and len: "length L' = length (f_blocks fn')" "length (f_blocks fn) \<le> length (f_blocks fn')"
      "length (f_blocks fn') < NY_INVALID" "length (f_insts fn') = length (f_insts fn)"
    and kept: "\<And>c. c < length (f_blocks fn) \<Longrightarrow> c \<notin> S \<Longrightarrow> header (f_blocks fn' ! c) = header (f_blocks fn ! c) \<and> L' ! c = L ! c"
    and ok: "\<And>c. c < length (f_blocks fn') \<Longrightarrow> c \<in> S \<Longrightarrow> block_ok (f_insts fn') (f_blocks fn' ! c) c (L' ! c)"
    and new: "\<And>c. c < length (f_blocks fn') \<Longrightarrow> length (f_blocks fn) \<le> c \<Longrightarrow> c \<in> S"
    and other: "\<And>i. i < length (f_insts fn) \<Longrightarrow> i_block (f_insts fn ! i) \<notin> S \<Longrightarrow> f_insts fn' ! i = f_insts fn ! i"
    and ids: "\<And>i. i < length (f_insts fn) \<Longrightarrow> i_id (f_insts fn' ! i) = i"
    and here: "\<And>i. i < length (f_insts fn) \<Longrightarrow> i_block (f_insts fn ! i) \<in> S \<Longrightarrow> i_opcode (f_insts fn' ! i) \<noteq> NY_OPCODE_NONE \<Longrightarrow>
        i_block (f_insts fn' ! i) < length (f_blocks fn') \<and> i \<in> set (L' ! i_block (f_insts fn' ! i))"
  shows "fn_wf fn' L'"
proof -
  have "block_ok (f_insts fn') (f_blocks fn' ! c) c (L' ! c)" if c: "c < length (f_blocks fn')" for c
  proof (cases "c \<in> S")
    case False
    then have lt: "c < length (f_blocks fn)" using new[OF c] by force
    have "seg (f_insts fn') c NY_INVALID_INST (L ! c) NY_INVALID_INST"
    proof (rule seg_cong)
      show "seg (f_insts fn) c NY_INVALID_INST (L ! c) NY_INVALID_INST" using fn_wf_block[OF wf lt] by (simp add: block_ok_def)
      fix x assume "x \<in> set (L ! c)"
      from fn_wf_mem[OF wf lt this] show "x < length (f_insts fn') \<and> f_insts fn' ! x = f_insts fn ! x"
        using other False len by auto
    qed
    then show ?thesis using fn_wf_block[OF wf lt] kept[OF lt False] by (simp add: block_ok_def header_def)
  qed (rule ok[OF c])
  moreover have "i_block (f_insts fn' ! i) < length (f_blocks fn') \<and> i \<in> set (L' ! i_block (f_insts fn' ! i))"
    if i: "i < length (f_insts fn)" "i_opcode (f_insts fn' ! i) \<noteq> NY_OPCODE_NONE" for i
  proof (cases "i_block (f_insts fn ! i) \<in> S")
    case False
    then have eq: "f_insts fn' ! i = f_insts fn ! i" using other i by blast
    then have "i_block (f_insts fn ! i) < length (f_blocks fn)" "i \<in> set (L ! i_block (f_insts fn ! i))"
      using fn_wf_live[OF wf i(1)] i(2) by auto
    then show ?thesis using eq kept[OF _ False] len by auto
  qed (rule here[OF i(1) _ i(2)])
  ultimately show ?thesis using wf len ids unfolding fn_wf_def by auto
qed

definition rehome :: "nat \<Rightarrow> nat list \<Rightarrow> ny_instruction list \<Rightarrow> ny_instruction list" where
  "rehome b = map_at (\<lambda>i. i\<lparr>i_block := b\<rparr>)"

lemma rehome_nth:
  "distinct xs \<Longrightarrow> i < length I \<Longrightarrow> rehome b xs I ! i = (if i \<in> set xs then (I ! i)\<lparr>i_block := b\<rparr> else I ! i)"
  by (simp add: rehome_def nth_map_at)

lemma length_rehome [simp]: "length (rehome b xs I) = length I"
  by (simp add: rehome_def)

lemma seg_rehome:
  assumes "seg I b p xs n" "distinct zs" "set xs \<subseteq> set zs"
  shows "seg (rehome b' zs I) b' p xs n"
  using assms by (induction xs arbitrary: p) (auto simp: rehome_nth)

lemma seg_rehome_frame:
  assumes "seg I b p xs n" "distinct zs" "set xs \<inter> set zs = {}"
  shows "seg (rehome b' zs I) b p xs n"
  by (rule seg_cong[OF assms(1)]) (use assms seg_mem[OF assms(1)] in \<open>auto simp: rehome_nth\<close>)

lemma rehome_from_list:
  assumes "seg (f_insts fn) b p xs NY_INVALID_INST" "distinct xs" "NY_INVALID \<notin> set xs" "cnt + length xs < 4294967296"
  shows "rehome_from b' fn (hd_or xs NY_INVALID_INST) cnt =
    Some (fn\<lparr>f_insts := rehome b' xs (f_insts fn)\<rparr>, cnt + length xs)"
  using assms
proof (induction xs arbitrary: fn p cnt)
  case Nil
  then show ?case by (simp add: rehome_from.simps rehome_def map_at_def)
next
  case (Cons x xs)
  let ?fn1 = "fn\<lparr>f_insts := (f_insts fn)[x := (f_insts fn ! x)\<lparr>i_block := b'\<rparr>]\<rparr>"
  have "seg (f_insts ?fn1) b x xs NY_INVALID" using Cons.prems by (simp add: seg_update_other)
  from Cons.IH[OF this] Cons.prems have "rehome_from b' ?fn1 (hd_or xs NY_INVALID) (cnt + 1) =
    Some (?fn1\<lparr>f_insts := rehome b' xs (f_insts ?fn1)\<rparr>, cnt + 1 + length xs)" by simp
  then show ?case using Cons.prems by (subst rehome_from.simps) (simp add: rehome_def map_at_def)
qed

text \<open>The loop that hands the successors of one block to another.\<close>

definition redirect :: "nat \<Rightarrow> nat \<Rightarrow> ny_block \<Rightarrow> ny_block" where
  "redirect from_id to_id B = B\<lparr>b_preds := map (\<lambda>p. if p = from_id then to_id else p) (b_preds B)\<rparr>"

lemma move_succs:
  assumes "distinct ss" "\<forall>s \<in> set ss. s < length (f_blocks fn)" "n < length (f_blocks fn)"
  shows "foldM (\<lambda>fn s. do {
                fn \<leftarrow> upd_block fn n (\<lambda>b. b\<lparr>b_succs := b_succs b @ [s]\<rparr>);
                move_pred b n fn s
              }) fn ss =
    Some (fn\<lparr>f_blocks := map_at (redirect b n) ss
       ((f_blocks fn)[n := (f_blocks fn ! n)\<lparr>b_succs := b_succs (f_blocks fn ! n) @ ss\<rparr>])\<rparr>)"
  using assms
proof (induction ss arbitrary: fn)
  case Nil
  then show ?case by (simp add: map_at_def)
next
  case (Cons s ss)
  let ?B = "f_blocks fn"
  define B1 where "B1 = ?B[n := (?B ! n)\<lparr>b_succs := b_succs (?B ! n) @ [s]\<rparr>]"
  define B2 where "B2 = B1[s := redirect b n (B1 ! s)]"
  define B' where "B' = ?B[n := (?B ! n)\<lparr>b_succs := b_succs (?B ! n) @ s # ss\<rparr>]"
  have len: "length B1 = length ?B" "length B2 = length ?B" by (simp_all add: B1_def B2_def)
  have eq: "B2[n := (B2 ! n)\<lparr>b_succs := b_succs (B2 ! n) @ ss\<rparr>] = B'[s := redirect b n (B' ! s)]"
    using Cons.prems by (intro nth_equalityI) (auto simp: B2_def B1_def B'_def nth_upd redirect_def)
  have st: "do { fn \<leftarrow> upd_block fn n (\<lambda>b. b\<lparr>b_succs := b_succs b @ [s]\<rparr>); move_pred b n fn s } = Some (fn\<lparr>f_blocks := B2\<rparr>)"
    using Cons.prems by (simp add: move_pred_def B1_def[symmetric] len B2_def redirect_def)
  from Cons.IH[of "fn\<lparr>f_blocks := B2\<rparr>"] Cons.prems st show ?case
    by (simp add: len eq) (simp add: B'_def map_at_def)
qed

subsection \<open>Splitting a block\<close>

lemma split_insts_wf:
  assumes wf: "fn_wf fn L" and b: "b < length (f_blocks fn)" and L: "L ! b = xs @ x # ys"
    and room: "length (f_blocks fn) + 1 < NY_INVALID"
    and I': "f_insts fn' = set_prev (set_next (rehome (length (f_blocks fn)) (x # ys) (f_insts fn)) xs NY_INVALID) (x # ys) NY_INVALID"
    and blocks: "length (f_blocks fn') = length (f_blocks fn) + 1"
      "\<And>c. c < length (f_blocks fn) \<Longrightarrow> c \<noteq> b \<Longrightarrow> header (f_blocks fn' ! c) = header (f_blocks fn ! c)"
      "header (f_blocks fn' ! b) = (b, hd_or xs NY_INVALID, last_or NY_INVALID xs, length xs)"
      "header (f_blocks fn' ! length (f_blocks fn)) = (length (f_blocks fn), x, last_or NY_INVALID (x # ys), length (x # ys))"
  shows "fn_wf fn' (L[b := xs] @ [x # ys])"
proof -
  let ?n = "length (f_blocks fn)" and ?I = "f_insts fn"
  have lenL: "length L = ?n" using wf by (simp add: fn_wf_def)
  have "block_ok ?I (f_blocks fn ! b) b (xs @ x # ys)" using fn_wf_block[OF wf b] L by simp
  then have seg: "seg ?I b NY_INVALID xs x" "seg ?I b (last_or NY_INVALID xs) (x # ys) NY_INVALID" and d: "distinct (xs @ x # ys)"
    by (auto simp: block_ok_def)
  have dj: "set xs \<inter> set (x # ys) = {}" "set (x # ys) \<inter> set xs = {}" "distinct (x # ys)" "distinct xs" using d by auto
  have s1: "seg (f_insts fn') b NY_INVALID xs NY_INVALID"
    unfolding I' by (rule seg_set_prev_frame[OF seg_set_next_last[OF seg_rehome_frame[OF seg(1) dj(3) dj(1)] dj(4)] dj(1)])
  have s2: "seg (f_insts fn') ?n NY_INVALID (x # ys) NY_INVALID"
    unfolding I' by (rule seg_set_prev_hd[OF seg_set_next_frame[OF seg_rehome[OF seg(2) dj(3) subset_refl] dj(2)] dj(3)])
  have lt: "i < length ?I" if "i \<in> set (xs @ x # ys)" for i using fn_wf_mem(1)[OF wf b, of i] that L by simp
  have blk: "i_block (f_insts fn' ! i) = (if i \<in> set (x # ys) then ?n else i_block (?I ! i))"
    and pay: "payload (f_insts fn' ! i) = payload (?I ! i)" if "i < length ?I" for i
    using that dj(3) by (auto simp: I' rehome_nth payload_def[symmetric]) (auto simp: payload_def)
  show ?thesis
  proof (rule fn_wf_change[OF wf, where S = "{b, ?n}"])
    show "length (L[b := xs] @ [x # ys]) = length (f_blocks fn')" using lenL blocks by simp
    show "c \<in> {b, ?n}" if "c < length (f_blocks fn')" "?n \<le> c" for c using that blocks by auto
    show "header (f_blocks fn' ! c) = header (f_blocks fn ! c) \<and> (L[b := xs] @ [x # ys]) ! c = L ! c"
      if "c < ?n" "c \<notin> {b, ?n}" for c using that blocks lenL by (auto simp: nth_append)
    show "block_ok (f_insts fn') (f_blocks fn' ! c) c ((L[b := xs] @ [x # ys]) ! c)" if "c < length (f_blocks fn')" "c \<in> {b, ?n}" for c
      using that(2) b blocks(3,4) s1 s2 dj lenL by (auto simp: block_ok_def header_def nth_append simp del: seg.simps)
    show "f_insts fn' ! i = ?I ! i" if "i < length ?I" "i_block (?I ! i) \<notin> {b, ?n}" for i
    proof -
      have "i \<notin> set (xs @ x # ys)" using fn_wf_mem(3)[OF wf b, of i] that(2) L by auto
      then have "i \<notin> set xs" "i \<notin> set (x # ys)" by auto
      then show ?thesis using that(1) dj(3) unfolding I' by (subst set_prev_other, blast, subst set_next_other, blast) (simp add: rehome_nth)
    qed
    show "i_id (f_insts fn' ! i) = i" if "i < length ?I" for i
      using pay[OF that] that wf by (simp add: payload_def fn_wf_def)
    show "i_block (f_insts fn' ! i) < length (f_blocks fn') \<and> i \<in> set ((L[b := xs] @ [x # ys]) ! i_block (f_insts fn' ! i))"
      if i: "i < length ?I" "i_block (?I ! i) \<in> {b, ?n}" "i_opcode (f_insts fn' ! i) \<noteq> NY_OPCODE_NONE" for i
    proof -
      have live: "i_opcode (?I ! i) \<noteq> NY_OPCODE_NONE" using pay[OF i(1)] i(3) by (simp add: payload_def)
      from fn_wf_live[OF wf i(1) live] i(2) have ib: "i_block (?I ! i) = b" "i \<in> set (L ! b)" by auto
      then show ?thesis using blk[OF i(1)] b blocks lenL L by (auto simp: nth_append)
    qed
  qed (use room blocks I' in auto)
qed

lemma split_edges:
  assumes wf: "edges_wf fn" and b: "b < length (f_blocks fn)" and len: "length (f_blocks fn') = length (f_blocks fn) + 1"
    and B: "\<And>c. c < length (f_blocks fn) \<Longrightarrow> b_id (f_blocks fn' ! c) = c
       \<and> b_succs (f_blocks fn' ! c) = (if c = b then [length (f_blocks fn)] else b_succs (f_blocks fn ! c))
       \<and> b_preds (f_blocks fn' ! c) = (if c \<in> set (b_succs (f_blocks fn ! b))
            then map (\<lambda>p. if p = b then length (f_blocks fn) else p) (b_preds (f_blocks fn ! c)) else b_preds (f_blocks fn ! c))"
    and N: "b_id (f_blocks fn' ! length (f_blocks fn)) = length (f_blocks fn)"
      "b_succs (f_blocks fn' ! length (f_blocks fn)) = b_succs (f_blocks fn ! b)" "b_preds (f_blocks fn' ! length (f_blocks fn)) = [b]"
  shows "edges fn' = {e \<in> edges fn. fst e \<noteq> b} \<union> {(length (f_blocks fn), y) | y. (b, y) \<in> edges fn} \<union> {(b, length (f_blocks fn))}
    \<and> edges_wf fn'"
proof -
  let ?n = "length (f_blocks fn)" and ?ss = "b_succs (f_blocks fn ! b)"
  have pre: "x < ?n \<Longrightarrow> distinct (b_succs (f_blocks fn ! x)) \<and> distinct (b_preds (f_blocks fn ! x))
     \<and> set (b_preds (f_blocks fn ! x)) = {q. (q, x) \<in> edges fn} \<and> set (b_succs (f_blocks fn ! x)) \<subseteq> {..<?n}" for x
    using wf by (simp add: edges_wf_def)
  have pe: "(x, y) \<in> edges fn \<longleftrightarrow> x < ?n \<and> y \<in> set (b_succs (f_blocks fn ! x))" for x y by (auto simp: edges_def)
  have ed: "edges fn' = {e \<in> edges fn. fst e \<noteq> b} \<union> {(?n, y) | y. (b, y) \<in> edges fn} \<union> {(b, ?n)}"
    using b B N unfolding edges_def len by (auto simp: less_Suc_eq split: if_splits)
  moreover have "edges_wf fn'"
    unfolding edges_wf_def ed
  proof (intro allI impI)
    fix c assume "c < length (f_blocks fn')"
    then consider "c = ?n" | "c < ?n" using len by linarith
    then show "b_id (f_blocks fn' ! c) = c \<and> distinct (b_succs (f_blocks fn' ! c)) \<and> distinct (b_preds (f_blocks fn' ! c))
        \<and> set (b_succs (f_blocks fn' ! c)) \<subseteq> {..<length (f_blocks fn')}
        \<and> set (b_preds (f_blocks fn' ! c)) = {p. (p, c) \<in> {e \<in> edges fn. fst e \<noteq> b} \<union> {(?n, y) | y. (b, y) \<in> edges fn} \<union> {(b, ?n)}}"
    proof cases
      case 1
      have "(q, ?n) \<notin> edges fn" for q using pre[of q] by (auto simp: pe)
      then show ?thesis using 1 N pre[OF b] len by auto
    next
      case 2
      have nin: "?n \<notin> set (b_preds (f_blocks fn ! c))" using pre[OF 2] by (auto simp: pe)
      have "inj_on (\<lambda>p. if p = b then ?n else p) (set (b_preds (f_blocks fn ! c)))" using nin by (auto simp: inj_on_def)
      moreover have "(\<lambda>p. if p = b then ?n else p) ` set (b_preds (f_blocks fn ! c)) =
          {p. (p, c) \<in> {e \<in> edges fn. fst e \<noteq> b} \<union> {(?n, y) | y. (b, y) \<in> edges fn} \<union> {(b, ?n)}}" if "c \<in> set ?ss"
        using that pre[OF 2] 2 b by (auto simp: pe image_iff)
      moreover have "set (b_preds (f_blocks fn ! c)) =
          {p. (p, c) \<in> {e \<in> edges fn. fst e \<noteq> b} \<union> {(?n, y) | y. (b, y) \<in> edges fn} \<union> {(b, ?n)}}" if "c \<notin> set ?ss"
        using that pre[OF 2] 2 b by (auto simp: pe)
      moreover have "b_preds (f_blocks fn' ! c) = (if c \<in> set ?ss
            then map (\<lambda>p. if p = b then ?n else p) (b_preds (f_blocks fn ! c)) else b_preds (f_blocks fn ! c))"
        using B[OF 2] by blast
      ultimately have P: "distinct (b_preds (f_blocks fn' ! c)) \<and> set (b_preds (f_blocks fn' ! c)) =
          {p. (p, c) \<in> {e \<in> edges fn. fst e \<noteq> b} \<union> {(?n, y) | y. (b, y) \<in> edges fn} \<union> {(b, ?n)}}"
        using pre[OF 2] by (cases "c \<in> set ?ss") (simp_all only: distinct_map set_map if_True if_False, simp_all)
      have "set (b_succs (f_blocks fn ! c)) \<subseteq> {..<length (f_blocks fn')}" using pre[OF 2] len by auto
      then show ?thesis using P B[OF 2] pre[OF 2] len by simp
    qed
  qed
  ultimately show ?thesis by blast
qed

end
