(* ===== verification/IR_Edit.thy ===== *)
theory IR_Edit
  imports IR_Lists
begin

text \<open>
  Refinement of the operations of \<^verbatim>\<open>src/ir/function.c\<close> that change several blocks or operands:
  splitting and merging blocks, replacing uses, dropping a predecessor from phi instructions.
\<close>

subsection \<open>Splitting a block\<close>

text \<open>
  C4. Splitting a block before one of its instructions: the call returns the id of a new block, the
  original block keeps the instructions before the split point and the new block gets the rest in order, the new
  block takes over the outgoing edges and the only outgoing edge of the original leads to it.
\<close>

theorem split_block_refines:
  assumes wf: "fn_wf fn L" and ew: "edges_wf fn" and b: "b < length (f_blocks fn)" and x: "x \<in> set (L ! b)"
    and room: "length (f_blocks fn) + 1 < NY_INVALID"
  shows "\<exists>fn'. ny_function_split_block fn b x = Some (fn', True, length (f_blocks fn))
    \<and> fn_wf fn' (L[b := takeWhile (\<lambda>i. i \<noteq> x) (L ! b)] @ [dropWhile (\<lambda>i. i \<noteq> x) (L ! b)]) \<and> edges_wf fn'
    \<and> edges fn' = {e \<in> edges fn. fst e \<noteq> b} \<union> {(length (f_blocks fn), y) | y. (b, y) \<in> edges fn} \<union> {(b, length (f_blocks fn))}
    \<and> (\<forall>i < length (f_insts fn). payload (f_insts fn' ! i) = payload (f_insts fn ! i))
    \<and> f_operands fn' = f_operands fn"
proof -
  let ?n = "length (f_blocks fn)" and ?I = "f_insts fn" and ?B = "f_blocks fn"
  define xs where "xs = takeWhile (\<lambda>i. i \<noteq> x) (L ! b)"
  obtain ys where ys: "dropWhile (\<lambda>i. i \<noteq> x) (L ! b) = x # ys"
    using x by (metis (mono_tags, lifting) dropWhile_eq_Nil_conv hd_dropWhile list.collapse)
  have L: "L ! b = xs @ x # ys" using takeWhile_dropWhile_id[of "\<lambda>i. i \<noteq> x" "L ! b"] by (simp add: xs_def ys)
  have "block_ok ?I (?B ! b) b (xs @ x # ys)" using fn_wf_block[OF wf b] L by simp
  then have seg: "seg ?I b (last_or NY_INVALID xs) (x # ys) NY_INVALID" and d: "distinct (xs @ x # ys)"
    and hdr: "b_first (?B ! b) = hd_or (xs @ x # ys) NY_INVALID" "b_last (?B ! b) = last_or x ys"
      "b_inst_count (?B ! b) = length xs + Suc (length ys)" "b_id (?B ! b) = b"
    by (auto simp: block_ok_def)
  have mem: "z < length ?I \<and> z \<noteq> NY_INVALID" if "z \<in> set (xs @ x # ys)" for z
    using fn_wf_mem[OF wf b, of z] that L by auto
  have dx: "distinct (x # ys)" "x \<notin> set xs" using d by auto
  have small: "length xs + Suc (length ys) < 4294967296"
    using fn_wf_len[OF wf b] L wf by (simp add: fn_wf_def NY_INVALID_def)
  have nb: "u32 ?n = ?n" "?n \<noteq> NY_INVALID" using room by (auto simp: NY_INVALID_def)
  let ?ss = "b_succs (?B ! b)"
  have ss: "distinct ?ss" "\<forall>s \<in> set ?ss. s < ?n" using ew b by (auto simp: edges_wf_def)
  define nb0 where "nb0 = zero_block\<lparr>b_id := ?n, b_name := ''split'', b_first := NY_INVALID, b_last := NY_INVALID\<rparr>"
  define fn0 where "fn0 = (if f_entry fn = NY_INVALID then fn\<lparr>f_blocks := ?B @ [nb0], f_entry := ?n\<rparr> else fn\<lparr>f_blocks := ?B @ [nb0]\<rparr>)"
  have f0: "f_blocks fn0 = ?B @ [nb0]" "f_insts fn0 = ?I" "f_operands fn0 = f_operands fn" by (auto simp: fn0_def)
  have create: "ny_function_create_block fn ''split'' = (fn0, ?n)"
    by (simp add: ny_function_create_block_def nb fn0_def nb0_def list_update_append Let_def)
  define nb1 where "nb1 = nb0\<lparr>b_first := x, b_last := last_or x ys\<rparr>"
  define I1 where "I1 = rehome ?n (x # ys) ?I"
  have s1: "upd_block fn0 ?n (\<lambda>a. a\<lparr>b_first := x, b_last := b_last (?B ! b)\<rparr>) = Some (fn0\<lparr>f_blocks := ?B @ [nb1]\<rparr>)"
    by (simp add: f0 nb1_def hdr nth_append list_update_append)
  have s2: "rehome_from ?n (fn0\<lparr>f_blocks := ?B @ [nb1]\<rparr>) x 0 = Some (fn0\<lparr>f_blocks := ?B @ [nb1], f_insts := I1\<rparr>, Suc (length ys))"
    using rehome_from_list[of "fn0\<lparr>f_blocks := ?B @ [nb1]\<rparr>" b _ "x # ys" 0 ?n] seg dx mem small
    by (auto simp: f0 I1_def)
  define nb2 where "nb2 = nb1\<lparr>b_inst_count := Suc (length ys)\<rparr>"
  have s3: "upd_block (fn0\<lparr>f_blocks := ?B @ [nb1], f_insts := I1\<rparr>) ?n (\<lambda>a. a\<lparr>b_inst_count := Suc (length ys)\<rparr>)
      = Some (fn0\<lparr>f_insts := I1, f_blocks := ?B @ [nb2]\<rparr>)"
    by (simp add: nb2_def nth_append list_update_append)
  define ob where "ob = (?B ! b)\<lparr>b_first := hd_or xs NY_INVALID, b_last := last_or NY_INVALID xs\<rparr>"
  have px: "i_prev (?I ! x) = last_or NY_INVALID xs" "i_block (?I ! x) = b" using seg by auto
  have s4: "(if last_or NY_INVALID xs \<noteq> NY_INVALID
      then do {
        fn \<leftarrow> upd_block (fn0\<lparr>f_insts := I1, f_blocks := ?B @ [nb2]\<rparr>) b (\<lambda>a. a\<lparr>b_last := last_or NY_INVALID xs\<rparr>);
        upd_inst fn (last_or NY_INVALID xs) (\<lambda>i. i\<lparr>i_next := NY_INVALID\<rparr>) }
      else upd_block (fn0\<lparr>f_insts := I1, f_blocks := ?B @ [nb2]\<rparr>) b (\<lambda>a. a\<lparr>b_first := NY_INVALID, b_last := NY_INVALID\<rparr>))
    = Some (fn0\<lparr>f_insts := set_next I1 xs NY_INVALID, f_blocks := ?B[b := ob] @ [nb2]\<rparr>)"
  proof (cases "xs = []")
    case True
    then show ?thesis using b by (simp add: ob_def set_next_def nth_append list_update_append)
  next
    case False
    then have l: "last_or NY_INVALID xs = last xs" "last xs \<noteq> NY_INVALID" "last xs < length ?I" "b_first (?B ! b) = hd_or xs NY_INVALID"
      using mem[of "last xs"] hdr by (auto simp: last_or_def hd_or_def split: list.splits)
    then have "ob = (?B ! b)\<lparr>b_last := last xs\<rparr>" by (simp add: ob_def)
    then show ?thesis using l False b by (simp add: set_next_def nth_append list_update_append I1_def)
  qed
  define I2 where "I2 = set_prev (set_next I1 xs NY_INVALID) (x # ys) NY_INVALID"
  have s5: "upd_inst (fn0\<lparr>f_insts := set_next I1 xs NY_INVALID, f_blocks := ?B[b := ob] @ [nb2]\<rparr>) x (\<lambda>i. i\<lparr>i_prev := NY_INVALID\<rparr>)
      = Some (fn0\<lparr>f_insts := I2, f_blocks := ?B[b := ob] @ [nb2]\<rparr>)"
    using mem[of x] by (simp add: I2_def set_prev_def I1_def)
  define ob2 where "ob2 = ob\<lparr>b_inst_count := length xs\<rparr>"
  have s6: "upd_block (fn0\<lparr>f_insts := I2, f_blocks := ?B[b := ob] @ [nb2]\<rparr>) b
      (\<lambda>a. a\<lparr>b_inst_count := u32 (b_inst_count a + (4294967296 - Suc (length ys)))\<rparr>)
    = Some (fn0\<lparr>f_insts := I2, f_blocks := ?B[b := ob2] @ [nb2]\<rparr>)"
  proof -
    have "u32 (length xs + Suc (length ys) + (4294967296 - Suc (length ys))) = length xs"
      using small by (simp add: u32_def)
    then show ?thesis using b by (simp add: ob2_def ob_def nth_append list_update_append hdr)
  qed
  define B6 where "B6 = ?B[b := ob2] @ [nb2\<lparr>b_succs := ?ss\<rparr>]"
  define B7 where "B7 = map_at (redirect b ?n) ?ss B6"
  have s7: "foldM (\<lambda>fn s. do { fn \<leftarrow> upd_block fn ?n (\<lambda>b. b\<lparr>b_succs := b_succs b @ [s]\<rparr>); move_pred b ?n fn s })
      (fn0\<lparr>f_insts := I2, f_blocks := ?B[b := ob2] @ [nb2]\<rparr>) ?ss = Some (fn0\<lparr>f_insts := I2, f_blocks := B7\<rparr>)"
    by (subst move_succs[OF ss(1)])
      (use ss in \<open>auto simp: B7_def B6_def nth_append list_update_append nb2_def nb1_def nb0_def zero_block_def\<close>)
  have len7: "length B7 = Suc ?n" by (simp add: B7_def B6_def)
  have B7: "c < ?n \<Longrightarrow> B7 ! c = (if c \<in> set ?ss then redirect b ?n (?B[b := ob2] ! c) else ?B[b := ob2] ! c)" for c
    using ss by (simp add: B7_def nth_map_at B6_def nth_append)
  have N7: "B7 ! ?n = nb2\<lparr>b_succs := ?ss\<rparr>" using ss by (auto simp: B7_def nth_map_at B6_def nth_append)
  define B8 where "B8 = B7[b := (B7 ! b)\<lparr>b_succs := [?n]\<rparr>, ?n := nb2\<lparr>b_succs := ?ss, b_preds := [b]\<rparr>]"
  have idb: "b_id (B7 ! b) = b" using b hdr by (simp add: B7 redirect_def ob2_def ob_def)
  have s8: "ny_block_add_edge (fn0\<lparr>f_insts := I2, f_blocks := B7[b := (B7 ! b)\<lparr>b_succs := []\<rparr>]\<rparr>) b ?n
      = Some (fn0\<lparr>f_insts := I2, f_blocks := B8\<rparr>)"
    using b len7 N7 idb
    by (simp add: ny_block_add_edge_def add_new_def B8_def nb2_def nb1_def nb0_def zero_block_def list_update_swap)
  have ibl: "rd ?B b = Some (?B ! b)" "rd ?I x = Some (?I ! x)" "\<not> i_block (?I ! x) \<noteq> b" using b mem[of x] px by auto
  have sx: "upd_block (fn0\<lparr>f_insts := I2, f_blocks := B7\<rparr>) b (\<lambda>a. a\<lparr>b_succs := []\<rparr>)
      = Some (fn0\<lparr>f_insts := I2, f_blocks := B7[b := (B7 ! b)\<lparr>b_succs := []\<rparr>]\<rparr>)" using b len7 by simp
  have run: "ny_function_split_block fn b x = Some (fn0\<lparr>f_insts := I2, f_blocks := B8\<rparr>, True, ?n)"
    unfolding ny_function_split_block_def
    by (simp only: ibl option.case prod.case if_False Let_def create px s1 s2 s3 s4 s5 s6 s7 sx s8 bind.bind_lunit if_not_P)
  define fn' where "fn' = fn0\<lparr>f_insts := I2, f_blocks := B8\<rparr>"
  have Bc: "c < ?n \<Longrightarrow> c \<noteq> b \<Longrightarrow> B8 ! c = B7 ! c" "B8 ! b = (B7 ! b)\<lparr>b_succs := [?n]\<rparr>" for c
    using b len7 by (simp_all add: B8_def)
  have Nn: "B8 ! ?n = nb2\<lparr>b_succs := ?ss, b_preds := [b]\<rparr>" using len7 by (simp add: B8_def)
  have len8: "length B8 = ?n + 1" using len7 by (simp add: B8_def)
  have "fn_wf fn' (L[b := xs] @ [x # ys])"
  proof (rule split_insts_wf[OF wf b L room])
    show "f_insts fn' = set_prev (set_next (rehome ?n (x # ys) ?I) xs NY_INVALID) (x # ys) NY_INVALID"
      by (simp add: fn'_def I2_def I1_def)
    show "length (f_blocks fn') = ?n + 1" by (simp add: fn'_def len8)
    show "header (f_blocks fn' ! c) = header (?B ! c)" if "c < ?n" "c \<noteq> b" for c
      using that by (simp add: fn'_def Bc B7 redirect_def header_def)
    show "header (f_blocks fn' ! b) = (b, hd_or xs NY_INVALID, last_or NY_INVALID xs, length xs)"
      using b hdr by (simp add: fn'_def Bc B7 redirect_def header_def ob2_def ob_def)
    show "header (f_blocks fn' ! ?n) = (?n, x, last_or NY_INVALID (x # ys), length (x # ys))"
      by (simp add: fn'_def Nn header_def nb2_def nb1_def nb0_def)
  qed
  moreover have "edges fn' = {e \<in> edges fn. fst e \<noteq> b} \<union> {(?n, y) | y. (b, y) \<in> edges fn} \<union> {(b, ?n)} \<and> edges_wf fn'"
  proof (rule split_edges[OF ew b])
    show "b_id (f_blocks fn' ! c) = c
       \<and> b_succs (f_blocks fn' ! c) = (if c = b then [?n] else b_succs (?B ! c))
       \<and> b_preds (f_blocks fn' ! c) = (if c \<in> set ?ss then map (\<lambda>p. if p = b then ?n else p) (b_preds (?B ! c)) else b_preds (?B ! c))"
      if "c < ?n" for c
      using that b hdr ew by (cases "c = b") (simp_all add: fn'_def Bc B7 redirect_def ob2_def ob_def edges_wf_def)
  qed (simp_all add: fn'_def len8 Nn nb2_def nb1_def nb0_def)
  moreover have "payload (f_insts fn' ! i) = payload (?I ! i)" if "i < length ?I" for i
    using that dx(1) by (auto simp: fn'_def I2_def I1_def rehome_nth payload_def[symmetric]) (auto simp: payload_def)
  ultimately show ?thesis using run ys by (auto simp: fn'_def xs_def f0)
qed

subsection \<open>Merging blocks\<close>

text \<open>The instructions of the first block without the unconditional branch at its end.\<close>

definition without_branch :: "ny_function \<Rightarrow> nat list \<Rightarrow> nat list" where
  "without_branch fn xs = (if xs \<noteq> [] \<and> i_opcode (f_insts fn ! last xs) = NY_OPCODE_BRANCH then butlast xs else xs)"

lemma merge_drop_branch:
  assumes wf: "fn_wf fn L" and a: "a < length (f_blocks fn)"
  shows "\<exists>fn1. (if b_last (f_blocks fn ! a) = NY_INVALID_INST then Some fn
                   else case ny_function_get_instruction fn (b_last (f_blocks fn ! a)) of
                     None \<Rightarrow> Some fn
                   | Some last_i \<Rightarrow> if i_opcode last_i = NY_OPCODE_BRANCH
                                  then ny_function_remove_instruction fn (b_last (f_blocks fn ! a)) else Some fn) = Some fn1
    \<and> fn_wf fn1 (L[a := without_branch fn (L ! a)]) \<and> same_but (set (L ! a) - set (without_branch fn (L ! a))) fn fn1"
proof -
  have last: "b_last (f_blocks fn ! a) = last_or NY_INVALID (L ! a)" using fn_wf_block[OF wf a] by (simp add: block_ok_def)
  have d: "distinct (L ! a)" using fn_wf_block[OF wf a] by (simp add: block_ok_def)
  show ?thesis
  proof (cases "L ! a = [] \<or> i_opcode (f_insts fn ! last (L ! a)) \<noteq> NY_OPCODE_BRANCH")
    case True
    then have "without_branch fn (L ! a) = L ! a" by (auto simp: without_branch_def)
    then show ?thesis using wf last True fn_wf_mem[OF wf a, of "last (L ! a)"]
      by (auto simp: last_or_def same_but_refl)
  next
    case False
    then have wb: "without_branch fn (L ! a) = butlast (L ! a)" by (simp add: without_branch_def)
    have La: "L ! a = butlast (L ! a) @ last (L ! a) # []" using False by simp
    have lt: "last (L ! a) < length (f_insts fn)" "last (L ! a) \<noteq> NY_INVALID" "last_or NY_INVALID (L ! a) = last (L ! a)"
      using False fn_wf_mem[OF wf a, of "last (L ! a)"] by (auto simp: last_or_def)
    have "set (L ! a) - set (butlast (L ! a)) = {last (L ! a)}"
      using d False by (cases "L ! a" rule: rev_cases) auto
    then show ?thesis using remove_instruction_step[OF wf a La] lt False wb by (auto simp: last)
  qed
qed

lemma distinct_bound: "distinct xs \<Longrightarrow> (\<And>x. x \<in> set xs \<Longrightarrow> x < n) \<Longrightarrow> length xs \<le> n"
  using card_mono[of "{..<n}" "set xs"] by (auto simp: distinct_card)

lemma merge_join:
  assumes wf: "fn_wf fn L" and a: "a < length (f_blocks fn)" and b: "b < length (f_blocks fn)" and ab: "a \<noteq> b"
  shows "\<exists>fn1. (if b_inst_count (f_blocks fn ! b) > 0 then do {
                first_blk \<leftarrow> rd (f_blocks fn) a;
                fn1 \<leftarrow> (if b_first first_blk = NY_INVALID_INST
                       then upd_block fn a (\<lambda>x. x\<lparr>b_first := b_first (f_blocks fn ! b), b_last := b_last (f_blocks fn ! b)\<rparr>)
                       else do {
                         f1 \<leftarrow> upd_inst fn (b_last first_blk) (\<lambda>i. i\<lparr>i_next := b_first (f_blocks fn ! b)\<rparr>);
                         f2 \<leftarrow> upd_inst f1 (b_first (f_blocks fn ! b)) (\<lambda>i. i\<lparr>i_prev := b_last first_blk\<rparr>);
                         upd_block f2 a (\<lambda>x. x\<lparr>b_last := b_last (f_blocks fn ! b)\<rparr>)
                       });
                (fn1, n) \<leftarrow> rehome_from a fn1 (b_first (f_blocks fn ! b)) (b_inst_count first_blk);
                upd_block fn1 a (\<lambda>x. x\<lparr>b_inst_count := n\<rparr>)
              } else Some fn) = Some fn1
    \<and> f_insts fn1 = rehome a (L ! b) (set_prev (set_next (f_insts fn) (L ! a) (hd_or (L ! b) NY_INVALID)) (L ! b) (last_or NY_INVALID (L ! a)))
    \<and> (\<exists>A. f_blocks fn1 = (f_blocks fn)[a := A] \<and> b_preds A = b_preds (f_blocks fn ! a)
         \<and> header A = (a, hd_or (L ! a @ L ! b) NY_INVALID, last_or NY_INVALID (L ! a @ L ! b), length (L ! a @ L ! b)))
    \<and> f_operands fn1 = f_operands fn"
proof -
  let ?I = "f_insts fn" and ?A = "f_blocks fn ! a" and ?Bk = "f_blocks fn ! b"
  have oka: "block_ok ?I ?A a (L ! a)" and okb: "block_ok ?I ?Bk b (L ! b)" using fn_wf_block[OF wf] a b by auto
  then have ha: "b_id ?A = a" "b_first ?A = hd_or (L ! a) NY_INVALID" "b_last ?A = last_or NY_INVALID (L ! a)" "b_inst_count ?A = length (L ! a)"
    and hb: "b_first ?Bk = hd_or (L ! b) NY_INVALID" "b_last ?Bk = last_or NY_INVALID (L ! b)" "b_inst_count ?Bk = length (L ! b)"
    and db: "distinct (L ! b)" and sb: "seg ?I b NY_INVALID (L ! b) NY_INVALID" by (auto simp: block_ok_def)
  have ma: "z < length ?I \<and> z \<noteq> NY_INVALID \<and> z \<notin> set (L ! b)" if "z \<in> set (L ! a)" for z
    using fn_wf_mem[OF wf a that] fn_wf_mem(3)[OF wf b, of z] ab by auto
  have mb: "z < length ?I \<and> z \<noteq> NY_INVALID" if "z \<in> set (L ! b)" for z using fn_wf_mem[OF wf b that] by auto
  show ?thesis
  proof (cases "L ! b = []")
    case True
    then have "set_next ?I (L ! a) NY_INVALID = ?I"
      using oka ma[of "last (L ! a)"] by (cases "L ! a" rule: rev_cases) (auto simp: set_next_def block_ok_def list_update_same_conv)
    moreover have "header ?A = (a, hd_or (L ! a) NY_INVALID, last_or NY_INVALID (L ! a), length (L ! a))" using ha by (simp add: header_def)
    ultimately show ?thesis using True hb by (intro exI[of _ fn]) (auto simp: set_prev_def rehome_def map_at_def intro: exI[of _ ?A])
  next
    case ne: False
    define I1 where "I1 = set_prev (set_next ?I (L ! a) (hd_or (L ! b) NY_INVALID)) (L ! b) (last_or NY_INVALID (L ! a))"
    define A1 where "A1 = ?A\<lparr>b_first := hd_or (L ! a @ L ! b) NY_INVALID, b_last := last_or NY_INVALID (L ! a @ L ! b)\<rparr>"
    have mem: "hd (L ! b) \<in> set (L ! b)" "last (L ! b) \<in> set (L ! b)" "hd_or (L ! b) NY_INVALID = hd (L ! b)"
      "last_or z (L ! b) = last (L ! b)" for z
      using ne by (auto simp: hd_or_def last_or_def split: list.splits)
    have s1: "(if b_first ?A = NY_INVALID_INST
         then upd_block fn a (\<lambda>x. x\<lparr>b_first := b_first ?Bk, b_last := b_last ?Bk\<rparr>)
         else do {
           f1 \<leftarrow> upd_inst fn (b_last ?A) (\<lambda>i. i\<lparr>i_next := b_first ?Bk\<rparr>);
           f2 \<leftarrow> upd_inst f1 (b_first ?Bk) (\<lambda>i. i\<lparr>i_prev := b_last ?A\<rparr>);
           upd_block f2 a (\<lambda>x. x\<lparr>b_last := b_last ?Bk\<rparr>)
         }) = Some (fn\<lparr>f_insts := I1, f_blocks := (f_blocks fn)[a := A1]\<rparr>)"
    proof (cases "L ! a = []")
      case True
      have "i_prev (?I ! hd (L ! b)) = NY_INVALID" using sb ne by (cases "L ! b") auto
      then have "I1 = ?I" using True mb[OF mem(1)] ne by (simp add: I1_def set_next_def set_prev_def list_update_same_conv)
      then show ?thesis using True a by (simp add: ha hb A1_def)
    next
      case False
      then have l: "last (L ! a) < length ?I" "hd (L ! a) \<noteq> NY_INVALID" "hd_or (L ! a) z = hd (L ! a)" "last_or z (L ! a) = last (L ! a)"
        for z using ma[of "last (L ! a)"] ma[of "hd (L ! a)"] by (auto simp: hd_or_def last_or_def split: list.splits)
      have "A1 = ?A\<lparr>b_last := last (L ! b)\<rparr>" using l mem ha by (simp add: A1_def)
      then show ?thesis using l mem mb[OF mem(1)] a False ne by (simp add: ha hb I1_def set_next_def set_prev_def)
    qed
    have s2: "rehome_from a (fn\<lparr>f_insts := I1, f_blocks := (f_blocks fn)[a := A1]\<rparr>) (b_first ?Bk) (b_inst_count ?A) =
        Some (fn\<lparr>f_insts := rehome a (L ! b) I1, f_blocks := (f_blocks fn)[a := A1]\<rparr>, length (L ! a @ L ! b))"
    proof -
      have "seg (set_next ?I (L ! a) (hd_or (L ! b) NY_INVALID)) b NY_INVALID (L ! b) NY_INVALID"
        by (rule seg_set_next_frame[OF sb]) (use ma in auto)
      then have "seg I1 b (last_or NY_INVALID (L ! a)) (L ! b) NY_INVALID" unfolding I1_def by (rule seg_set_prev_hd[OF _ db])
      moreover have "length (L ! a) + length (L ! b) < 4294967296"
      proof -
        have "distinct (L ! a @ L ! b)" using oka okb ma by (auto simp: block_ok_def)
        then have "length (L ! a @ L ! b) \<le> length ?I" by (rule distinct_bound) (use ma mb in auto)
        then show ?thesis using wf by (simp add: fn_wf_def NY_INVALID_def)
      qed
      moreover have "NY_INVALID \<notin> set (L ! b)" using mb by blast
      ultimately show ?thesis
        using rehome_from_list[of "fn\<lparr>f_insts := I1, f_blocks := (f_blocks fn)[a := A1]\<rparr>" b _ "L ! b" "length (L ! a)" a] db
        by (simp add: ha hb)
    qed
    have pos: "(0 < b_inst_count ?Bk) = True" using ne hb by simp
    have rda: "rd (f_blocks fn) a = Some ?A" using a by simp
    define A2 where "A2 = A1\<lparr>b_inst_count := length (L ! a @ L ! b)\<rparr>"
    have s3: "upd_block (fn\<lparr>f_insts := rehome a (L ! b) I1, f_blocks := (f_blocks fn)[a := A1]\<rparr>) a
        (\<lambda>x. x\<lparr>b_inst_count := length (L ! a @ L ! b)\<rparr>) =
      Some (fn\<lparr>f_insts := rehome a (L ! b) I1, f_blocks := (f_blocks fn)[a := A2]\<rparr>)" using a by (simp add: A2_def)
    show ?thesis
      unfolding pos if_True rda bind.bind_lunit s1 s2 prod.case s3
      by (rule exI, rule conjI, rule refl) (auto simp: I1_def A2_def A1_def header_def ha intro: exI[of _ A2])
  qed
qed

lemma payload_block [simp]: "payload (i\<lparr>i_block := b\<rparr>) = payload i"
  by (simp add: payload_def)

lemma merge_insts_wf:
  assumes wf: "fn_wf fn L" and a: "a < length (f_blocks fn)" and b: "b < length (f_blocks fn)" and ab: "a \<noteq> b"
    and I': "f_insts fn' = rehome a (L ! b) (set_prev (set_next (f_insts fn) (L ! a) (hd_or (L ! b) NY_INVALID)) (L ! b) (last_or NY_INVALID (L ! a)))"
    and len: "length (f_blocks fn') = length (f_blocks fn)"
    and kept: "\<And>c. c < length (f_blocks fn) \<Longrightarrow> c \<noteq> a \<Longrightarrow> c \<noteq> b \<Longrightarrow> header (f_blocks fn' ! c) = header (f_blocks fn ! c)"
    and ha: "header (f_blocks fn' ! a) = (a, hd_or (L ! a @ L ! b) NY_INVALID, last_or NY_INVALID (L ! a @ L ! b), length (L ! a @ L ! b))"
    and hb: "header (f_blocks fn' ! b) = (b, NY_INVALID, NY_INVALID, 0)"
  shows "fn_wf fn' (L[a := L ! a @ L ! b, b := []])"
proof -
  let ?I = "f_insts fn" and ?xs = "L ! a" and ?ys = "L ! b"
  have lenL: "length L = length (f_blocks fn)" using wf by (simp add: fn_wf_def)
  have sa: "seg ?I a NY_INVALID ?xs NY_INVALID" "distinct ?xs" and sb: "seg ?I b NY_INVALID ?ys NY_INVALID" "distinct ?ys"
    using fn_wf_block[OF wf a] fn_wf_block[OF wf b] by (auto simp: block_ok_def)
  have dj: "set ?xs \<inter> set ?ys = {}" "set ?ys \<inter> set ?xs = {}"
    using fn_wf_mem(3)[OF wf a] fn_wf_mem(3)[OF wf b] ab by fastforce+
  have "seg (f_insts fn') a NY_INVALID ?xs (hd_or ?ys NY_INVALID)"
    unfolding I' by (rule seg_rehome_frame[OF seg_set_prev_frame[OF seg_set_next_last[OF sa] dj(1)] sb(2) dj(1)])
  moreover have "seg (f_insts fn') a (last_or NY_INVALID ?xs) ?ys NY_INVALID"
    unfolding I' by (rule seg_rehome[OF seg_set_prev_hd[OF seg_set_next_frame[OF sb(1) dj(2)] sb(2)] sb(2) subset_refl])
  ultimately have seg: "seg (f_insts fn') a NY_INVALID (?xs @ ?ys) NY_INVALID" by simp
  have blk: "i_block (f_insts fn' ! i) = (if i \<in> set ?ys then a else i_block (?I ! i))"
    and pay: "payload (f_insts fn' ! i) = payload (?I ! i)" if "i < length ?I" for i
    using that sb(2) by (simp_all add: I' rehome_nth)
  show ?thesis
  proof (rule fn_wf_change[OF wf, where S = "{a, b}"])
    show "block_ok (f_insts fn') (f_blocks fn' ! c) c (L[a := ?xs @ ?ys, b := []] ! c)" if "c < length (f_blocks fn')" "c \<in> {a, b}" for c
      using that(2) a b ab ha hb seg sa(2) sb(2) dj lenL by (auto simp: block_ok_def header_def simp del: seg_append)
    show "f_insts fn' ! i = ?I ! i" if "i < length ?I" "i_block (?I ! i) \<notin> {a, b}" for i
    proof -
      have "i \<notin> set ?xs" "i \<notin> set ?ys" using fn_wf_mem(3)[OF wf a, of i] fn_wf_mem(3)[OF wf b, of i] that(2) by auto
      then show ?thesis using that(1) sb(2) by (simp add: I' rehome_nth set_prev_other set_next_other)
    qed
    show "i_id (f_insts fn' ! i) = i" if "i < length ?I" for i
      using pay[OF that] that wf by (simp add: payload_def fn_wf_def)
    show "i_block (f_insts fn' ! i) < length (f_blocks fn') \<and> i \<in> set (L[a := ?xs @ ?ys, b := []] ! i_block (f_insts fn' ! i))"
      if i: "i < length ?I" "i_block (?I ! i) \<in> {a, b}" "i_opcode (f_insts fn' ! i) \<noteq> NY_OPCODE_NONE" for i
    proof -
      have live: "i_opcode (?I ! i) \<noteq> NY_OPCODE_NONE" using pay[OF i(1)] i(3) by (simp add: payload_def)
      from fn_wf_live[OF wf i(1) live] i(2) blk[OF i(1)] show ?thesis using a b ab len lenL fn_wf_mem(3)[OF wf b, of i] by auto
    qed
  qed (use len lenL wf I' kept in \<open>auto simp: fn_wf_def\<close>)
qed

lemma merge_edges:
  assumes wf: "edges_wf fn" and a: "a < length (f_blocks fn)" and b: "b < length (f_blocks fn)" and ab: "a \<noteq> b"
    and only: "b_succs (f_blocks fn ! a) = [b]" "b_preds (f_blocks fn ! b) = [a]"
    and len: "length (f_blocks fn') = length (f_blocks fn)"
    and B: "\<And>c. c < length (f_blocks fn) \<Longrightarrow> b_id (f_blocks fn' ! c) = c
       \<and> b_succs (f_blocks fn' ! c) = (if c = b then [] else if c = a then b_succs (f_blocks fn ! b) else b_succs (f_blocks fn ! c))
       \<and> b_preds (f_blocks fn' ! c) = (if c = b then [] else if c \<in> set (b_succs (f_blocks fn ! b))
            then map (\<lambda>p. if p = b then a else p) (b_preds (f_blocks fn ! c)) else b_preds (f_blocks fn ! c))"
  shows "edges fn' = {e \<in> edges fn. fst e \<noteq> a \<and> fst e \<noteq> b} \<union> {(a, y) | y. (b, y) \<in> edges fn} \<and> edges_wf fn'"
proof -
  let ?n = "length (f_blocks fn)" and ?ss = "b_succs (f_blocks fn ! b)"
  have pre: "x < ?n \<Longrightarrow> distinct (b_succs (f_blocks fn ! x)) \<and> distinct (b_preds (f_blocks fn ! x))
     \<and> set (b_preds (f_blocks fn ! x)) = {q. (q, x) \<in> edges fn} \<and> set (b_succs (f_blocks fn ! x)) \<subseteq> {..<?n}" for x
    using wf by (simp add: edges_wf_def)
  have pe: "(x, y) \<in> edges fn \<longleftrightarrow> x < ?n \<and> y \<in> set (b_succs (f_blocks fn ! x))" for x y by (auto simp: edges_def)
  have only': "(a, y) \<in> edges fn \<longleftrightarrow> y = b" "(x, b) \<in> edges fn \<longleftrightarrow> x = a" for x y
    using only pre[OF b] a by (auto simp: pe)
  have ed: "edges fn' = {e \<in> edges fn. fst e \<noteq> a \<and> fst e \<noteq> b} \<union> {(a, y) | y. (b, y) \<in> edges fn}"
    using a b ab B unfolding edges_def len by (auto split: if_splits)
  moreover have "edges_wf fn'"
    unfolding edges_wf_def ed len
  proof (intro allI impI)
    fix c assume c: "c < ?n"
    let ?E = "{e \<in> edges fn. fst e \<noteq> a \<and> fst e \<noteq> b} \<union> {(a, y) | y. (b, y) \<in> edges fn}"
    have P: "distinct (b_preds (f_blocks fn' ! c)) \<and> set (b_preds (f_blocks fn' ! c)) = {p. (p, c) \<in> ?E}"
    proof (cases "c = b")
      case True
      have "(b, b) \<notin> edges fn" using only'(2)[of b] ab by simp
      moreover have "\<And>p. p \<noteq> a \<Longrightarrow> (p, b) \<notin> edges fn" using only'(2) by blast
      ultimately have "{p. (p, b) \<in> ?E} = {}" by auto
      then show ?thesis using True B[OF b] by simp
    next
      case False
      have na: "a \<notin> set (b_preds (f_blocks fn ! c))" using pre[OF c] only'(1)[of c] False by simp
      show ?thesis
      proof (cases "c \<in> set ?ss")
        case True
        have "inj_on (\<lambda>p. if p = b then a else p) (set (b_preds (f_blocks fn ! c)))" using na by (auto simp: inj_on_def)
        moreover have "(\<lambda>p. if p = b then a else p) ` set (b_preds (f_blocks fn ! c)) = {p. (p, c) \<in> ?E}"
          using pre[OF c] True na b by (auto simp: image_iff pe)
        ultimately show ?thesis using B[OF c] pre[OF c] False True by (simp add: distinct_map)
      next
        case nss: False
        have "(b, c) \<notin> edges fn" using nss by (simp add: pe)
        then have "set (b_preds (f_blocks fn ! c)) = {p. (p, c) \<in> ?E}" using pre[OF c] na by auto
        then show ?thesis using B[OF c] pre[OF c] False nss by simp
      qed
    qed
    then show "b_id (f_blocks fn' ! c) = c \<and> distinct (b_succs (f_blocks fn' ! c)) \<and> distinct (b_preds (f_blocks fn' ! c))
        \<and> set (b_succs (f_blocks fn' ! c)) \<subseteq> {..<?n} \<and> set (b_preds (f_blocks fn' ! c)) = {p. (p, c) \<in> ?E}"
      using B[OF c] pre[OF c] pre[OF b] by simp
  qed
  ultimately show ?thesis by blast
qed

text \<open>
  C5. Merging two blocks: when the first block's only successor is the second and the second's only
  predecessor is the first, the call succeeds, the first block gets its instructions without a final unconditional
  branch followed by those of the second, takes over the second's outgoing edges, and the second is left
  empty and unconnected; otherwise the function is returned unchanged with a negative answer.
\<close>

theorem merge_blocks_refines:
  assumes wf: "fn_wf fn L" and ew: "edges_wf fn" and a: "a < length (f_blocks fn)" and b: "b < length (f_blocks fn)"
  shows "(a \<noteq> b \<and> b_succs (f_blocks fn ! a) = [b] \<and> b_preds (f_blocks fn ! b) = [a] \<longrightarrow>
      (\<exists>fn'. ny_function_merge_blocks fn a b = Some (fn', True)
        \<and> fn_wf fn' (L[a := without_branch fn (L ! a) @ L ! b, b := []]) \<and> edges_wf fn'
        \<and> edges fn' = {e \<in> edges fn. fst e \<noteq> a \<and> fst e \<noteq> b} \<union> {(a, y) | y. (b, y) \<in> edges fn}
        \<and> (\<forall>i < length (f_insts fn). i \<notin> set (L ! a) - set (without_branch fn (L ! a)) \<longrightarrow>
             payload (f_insts fn' ! i) = payload (f_insts fn ! i))
        \<and> f_operands fn' = f_operands fn))
    \<and> (\<not> (a \<noteq> b \<and> b_succs (f_blocks fn ! a) = [b] \<and> b_preds (f_blocks fn ! b) = [a]) \<longrightarrow>
         ny_function_merge_blocks fn a b = Some (fn, False))"
proof (intro conjI impI)
  assume pre: "a \<noteq> b \<and> b_succs (f_blocks fn ! a) = [b] \<and> b_preds (f_blocks fn ! b) = [a]"
  let ?n = "length (f_blocks fn)" and ?ss = "b_succs (f_blocks fn ! b)" and ?xs = "without_branch fn (L ! a)"
  obtain fn1 where s1: "(if b_last (f_blocks fn ! a) = NY_INVALID_INST then Some fn
                   else case ny_function_get_instruction fn (b_last (f_blocks fn ! a)) of
                     None \<Rightarrow> Some fn
                   | Some last_i \<Rightarrow> if i_opcode last_i = NY_OPCODE_BRANCH
                                  then ny_function_remove_instruction fn (b_last (f_blocks fn ! a)) else Some fn) = Some fn1"
    and w1: "fn_wf fn1 (L[a := ?xs])" and sb: "same_but (set (L ! a) - set ?xs) fn fn1"
    using merge_drop_branch[OF wf a] by blast
  have be: "block_edges fn1 = block_edges fn" using sb by (simp add: same_but_def)
  note e = block_edges_nth[OF be]
  have ew1: "edges_wf fn1" "edges fn1 = edges fn" using edges_wf_cong[OF be w1 ew] by auto
  have a1: "a < length (f_blocks fn1)" and b1: "b < length (f_blocks fn1)" using a b e by auto
  have lenL: "length L = ?n" using wf by (simp add: fn_wf_def)
  have L1: "L[a := ?xs] ! a = ?xs" "L[a := ?xs] ! b = L ! b" using a lenL pre by auto
  from merge_join[OF w1 a1 b1] pre obtain fn2 A where s2: "(if b_inst_count (f_blocks fn1 ! b) > 0 then do {
                first_blk \<leftarrow> rd (f_blocks fn1) a;
                fn2 \<leftarrow> (if b_first first_blk = NY_INVALID_INST
                       then upd_block fn1 a (\<lambda>x. x\<lparr>b_first := b_first (f_blocks fn1 ! b), b_last := b_last (f_blocks fn1 ! b)\<rparr>)
                       else do {
                         f1 \<leftarrow> upd_inst fn1 (b_last first_blk) (\<lambda>i. i\<lparr>i_next := b_first (f_blocks fn1 ! b)\<rparr>);
                         f2 \<leftarrow> upd_inst f1 (b_first (f_blocks fn1 ! b)) (\<lambda>i. i\<lparr>i_prev := b_last first_blk\<rparr>);
                         upd_block f2 a (\<lambda>x. x\<lparr>b_last := b_last (f_blocks fn1 ! b)\<rparr>)
                       });
                (fn2, n) \<leftarrow> rehome_from a fn2 (b_first (f_blocks fn1 ! b)) (b_inst_count first_blk);
                upd_block fn2 a (\<lambda>x. x\<lparr>b_inst_count := n\<rparr>)
              } else Some fn1) = Some fn2"
    and I2: "f_insts fn2 = rehome a (L ! b) (set_prev (set_next (f_insts fn1) ?xs (hd_or (L ! b) NY_INVALID)) (L ! b) (last_or NY_INVALID ?xs))"
    and B2: "f_blocks fn2 = (f_blocks fn1)[a := A]" "b_preds A = b_preds (f_blocks fn1 ! a)"
      "header A = (a, hd_or (?xs @ L ! b) NY_INVALID, last_or NY_INVALID (?xs @ L ! b), length (?xs @ L ! b))"
    and ops2: "f_operands fn2 = f_operands fn1"
    unfolding L1 by blast
  have bp: "set (b_preds (f_blocks fn ! b)) = {p. (p, b) \<in> edges fn}" using ew b by (simp add: edges_wf_def)
  have "b \<notin> set ?ss"
  proof
    assume "b \<in> set ?ss"
    then have "b \<in> set (b_preds (f_blocks fn ! b))" using b unfolding bp by (simp add: edges_def)
    then show False using pre by simp
  qed
  then have ss: "distinct ?ss" "\<forall>s \<in> set ?ss. s < ?n" "b \<notin> set ?ss"
    using ew b by (auto simp: edges_wf_def)
  have ssb: "b_succs (f_blocks fn1 ! b) = ?ss" using e b by simp
  have len2: "length (f_blocks fn2) = ?n" using B2 e by simp
  define B3 where "B3 = (f_blocks fn2)[a := (f_blocks fn2 ! a)\<lparr>b_succs := []\<rparr>]"
  define B4 where "B4 = map_at (redirect b a) ?ss ((f_blocks fn2)[a := A\<lparr>b_succs := ?ss\<rparr>])"
  have s3: "upd_block fn2 a (\<lambda>b. b\<lparr>b_succs := []\<rparr>) = Some (fn2\<lparr>f_blocks := B3\<rparr>)" using a len2 by (simp add: B3_def)
  have s4: "foldM (\<lambda>fn s. do { fn \<leftarrow> upd_block fn a (\<lambda>b. b\<lparr>b_succs := b_succs b @ [s]\<rparr>); move_pred b a fn s })
      (fn2\<lparr>f_blocks := B3\<rparr>) ?ss = Some (fn2\<lparr>f_blocks := B4\<rparr>)"
    by (subst move_succs[OF ss(1)]) (use ss a len2 e B2 in \<open>auto simp: B3_def B4_def\<close>)
  define B5 where "B5 = B4[b := (B4 ! b)\<lparr>b_preds := [], b_succs := [], b_first := NY_INVALID, b_last := NY_INVALID, b_inst_count := 0\<rparr>]"
  have len4: "length B4 = ?n" by (simp add: B4_def len2)
  have s5: "upd_block (fn2\<lparr>f_blocks := B4\<rparr>) b (\<lambda>x. x\<lparr>b_preds := [], b_succs := [], b_first := NY_INVALID,
      b_last := NY_INVALID, b_inst_count := 0\<rparr>) = Some (fn2\<lparr>f_blocks := B5\<rparr>)" using b len4 by (simp add: B5_def)
  have rds: "rd (f_blocks fn) a = Some (f_blocks fn ! a)" "rd (f_blocks fn) b = Some (f_blocks fn ! b)"
    "rd (f_blocks fn1) b = Some (f_blocks fn1 ! b)" using a b b1 by auto
  have conds: "\<not> (b_succs (f_blocks fn ! a) \<noteq> [b] \<or> b_preds (f_blocks fn ! b) \<noteq> [a])" "\<not> a = b" using pre by auto
  have run: "ny_function_merge_blocks fn a b = Some (fn2\<lparr>f_blocks := B5\<rparr>, True)"
    unfolding ny_function_merge_blocks_def
    by (simp only: rds conds option.case prod.case if_False s1 s2 ssb s3 s4 s5 bind.bind_lunit)
  define fn' where "fn' = fn2\<lparr>f_blocks := B5\<rparr>"
  have B4: "c < ?n \<Longrightarrow> B4 ! c = (let C = (if c = a then A\<lparr>b_succs := ?ss\<rparr> else f_blocks fn1 ! c) in if c \<in> set ?ss then redirect b a C else C)" for c
    using ss a len2 B2 e by (auto simp: B4_def nth_map_at Let_def)
  have "fn_wf fn' (L[a := ?xs, a := L[a := ?xs] ! a @ L[a := ?xs] ! b, b := []])"
  proof (rule merge_insts_wf[OF w1 a1 b1])
    show "header (f_blocks fn' ! a) = (a, hd_or (L[a := ?xs] ! a @ L[a := ?xs] ! b) NY_INVALID,
        last_or NY_INVALID (L[a := ?xs] ! a @ L[a := ?xs] ! b), length (L[a := ?xs] ! a @ L[a := ?xs] ! b))"
      using a pre B2(3) by (simp add: L1 fn'_def B5_def B4 Let_def redirect_def header_def)
    show "header (f_blocks fn' ! b) = (b, NY_INVALID, NY_INVALID, 0)"
      using b len4 pre ss(3) ew1(1) e by (simp add: fn'_def B5_def B4 Let_def header_def edges_wf_def)
  qed (use pre e len4 I2 L1 in \<open>auto simp: fn'_def B5_def B4 Let_def redirect_def header_def\<close>)
  moreover have "edges fn' = {e \<in> edges fn1. fst e \<noteq> a \<and> fst e \<noteq> b} \<union> {(a, y) | y. (b, y) \<in> edges fn1} \<and> edges_wf fn'"
  proof (rule merge_edges[OF ew1(1) a1 b1])
    show "b_id (f_blocks fn' ! c) = c
       \<and> b_succs (f_blocks fn' ! c) = (if c = b then [] else if c = a then b_succs (f_blocks fn1 ! b) else b_succs (f_blocks fn1 ! c))
       \<and> b_preds (f_blocks fn' ! c) = (if c = b then [] else if c \<in> set (b_succs (f_blocks fn1 ! b))
            then map (\<lambda>p. if p = b then a else p) (b_preds (f_blocks fn1 ! c)) else b_preds (f_blocks fn1 ! c))"
      if "c < length (f_blocks fn1)" for c
    proof -
      have "c < ?n" "b_id (f_blocks fn1 ! c) = c" using that e ew1(1) by (auto simp: edges_wf_def)
      moreover have "b_id A = a" using B2(3) by (simp add: header_def)
      ultimately show ?thesis
        using that len4 B2(2) e ss(3) pre b by (cases "c = b"; cases "c = a") (simp_all add: fn'_def B5_def B4 Let_def redirect_def)
    qed
  qed (use pre e a b len4 in \<open>auto simp: fn'_def B5_def\<close>)
  moreover have "payload (f_insts fn' ! i) = payload (f_insts fn ! i)"
    if "i < length (f_insts fn)" "i \<notin> set (L ! a) - set ?xs" for i
  proof -
    have "distinct (L ! b)" using fn_wf_block[OF wf b] by (simp add: block_ok_def)
    then have "payload (f_insts fn2 ! i) = payload (f_insts fn1 ! i)"
      using that(1) sb by (simp add: I2 rehome_nth same_but_def)
    then show ?thesis using that sb by (simp add: fn'_def same_but_def)
  qed
  ultimately show "\<exists>fn'. ny_function_merge_blocks fn a b = Some (fn', True)
        \<and> fn_wf fn' (L[a := ?xs @ L ! b, b := []]) \<and> edges_wf fn'
        \<and> edges fn' = {e \<in> edges fn. fst e \<noteq> a \<and> fst e \<noteq> b} \<union> {(a, y) | y. (b, y) \<in> edges fn}
        \<and> (\<forall>i < length (f_insts fn). i \<notin> set (L ! a) - set ?xs \<longrightarrow> payload (f_insts fn' ! i) = payload (f_insts fn ! i))
        \<and> f_operands fn' = f_operands fn"
    using run ew1(2) ops2 sb by (intro exI[of _ fn']) (simp add: fn'_def L1 same_but_def)
qed (use a b in \<open>auto simp: ny_function_merge_blocks_def\<close>)

end
