(* ===== verification/IR_Ops.thy ===== *)
theory IR_Ops
  imports IR_Edit
begin

text \<open>
  Operands: replacing all uses of a value and removing a predecessor from the phi instructions of a
  block (\<^verbatim>\<open>src/ir/function.c\<close>), over the operand slices of the live instructions.
\<close>

subsection \<open>Operand slices\<close>

definition subarray :: "nat \<Rightarrow> nat \<Rightarrow> 'a list \<Rightarrow> 'a list" where
  "subarray s n xs = take n (drop s xs)"

definition inst_ops :: "ny_function \<Rightarrow> nat \<Rightarrow> ny_operand list" where
  "inst_ops fn i = subarray (i_op_start (f_insts fn ! i)) (i_op_count (f_insts fn ! i)) (f_operands fn)"

definition live :: "ny_function \<Rightarrow> nat \<Rightarrow> bool" where
  "live fn i \<longleftrightarrow> i < length (f_insts fn) \<and> i_opcode (f_insts fn ! i) \<noteq> NY_OPCODE_NONE"

text \<open>Every live instruction's slice is inside the operand array, and different slices do not overlap.\<close>

definition ops_wf :: "ny_function \<Rightarrow> bool" where
  "ops_wf fn \<longleftrightarrow> (\<forall>i. live fn i \<longrightarrow> i_op_start (f_insts fn ! i) + i_op_count (f_insts fn ! i) \<le> length (f_operands fn)
       \<and> i_op_count (f_insts fn ! i) < 65536)
     \<and> (\<forall>i j. live fn i \<longrightarrow> live fn j \<longrightarrow> i \<noteq> j \<longrightarrow>
          i_op_start (f_insts fn ! i) + i_op_count (f_insts fn ! i) \<le> i_op_start (f_insts fn ! j)
        \<or> i_op_start (f_insts fn ! j) + i_op_count (f_insts fn ! j) \<le> i_op_start (f_insts fn ! i))"

lemma length_subarray: "s + n \<le> length xs \<Longrightarrow> length (subarray s n xs) = n"
  by (simp add: subarray_def)

lemma length_inst_ops: "ops_wf fn \<Longrightarrow> live fn i \<Longrightarrow> length (inst_ops fn i) = i_op_count (f_insts fn ! i)"
  by (simp add: inst_ops_def length_subarray ops_wf_def)

lemma nth_subarray: "s + n \<le> length xs \<Longrightarrow> j < n \<Longrightarrow> subarray s n xs ! j = xs ! (s + j)"
  by (simp add: subarray_def)

lemma subarray_cong:
  "s + n \<le> length xs \<Longrightarrow> s + n \<le> length ys \<Longrightarrow> (\<And>j. j < n \<Longrightarrow> ys ! (s + j) = f (xs ! (s + j))) \<Longrightarrow>
     subarray s n ys = map f (subarray s n xs)"
  by (rule nth_equalityI) (simp_all add: length_subarray nth_subarray)

lemma subarray_cong_id:
  "s + n \<le> length xs \<Longrightarrow> s + n \<le> length ys \<Longrightarrow> (\<And>j. j < n \<Longrightarrow> ys ! (s + j) = xs ! (s + j)) \<Longrightarrow>
     subarray s n ys = subarray s n xs"
  by (rule nth_equalityI) (simp_all add: length_subarray nth_subarray)

lemma op_at_inst:
  assumes "ops_wf fn" "live fn i" "j < i_op_count (f_insts fn ! i)"
  shows "op_at fn (ny_function_get_operands fn (f_insts fn ! i)) j = Some (inst_ops fn i ! j)"
proof -
  have "i_op_start (f_insts fn ! i) + i_op_count (f_insts fn ! i) \<le> length (f_operands fn)" using assms by (simp add: ops_wf_def)
  then show ?thesis using assms(3) by (simp add: op_at_def ny_function_get_operands_def inst_ops_def nth_subarray)
qed

lemma live_index: "fn_wf fn L \<Longrightarrow> live fn i \<Longrightarrow> i_id (f_insts fn ! i) = i"
  by (simp add: fn_wf_def live_def)

lemma ops_wf_shrink:
  assumes "ops_wf fn" "length (f_insts fn') = length (f_insts fn)" "length (f_operands fn') = length (f_operands fn)"
    "\<And>i. live fn' i \<Longrightarrow> live fn i \<and> i_op_start (f_insts fn' ! i) = i_op_start (f_insts fn ! i)
       \<and> i_op_count (f_insts fn' ! i) = i_op_count (f_insts fn ! i)"
  shows "ops_wf fn'"
  using assms unfolding ops_wf_def by simp

subsection \<open>Replacing all uses\<close>

lemma length_replace_range [simp]: "length (replace_range o1 n1 j n ops) = length ops"
  by (induction o1 n1 j n ops rule: replace_range.induct) auto

lemma nth_replace_range:
  "k < length ops \<Longrightarrow> replace_range o1 n1 j n ops ! k = (if j \<le> k \<and> k < j + n then replace_val o1 n1 (ops ! k) else ops ! k)"
  by (induction o1 n1 j n ops rule: replace_range.induct) (auto simp: nth_upd not_less_eq_eq dest: le_antisym)

lemma replace_val_idem: "replace_val o1 n1 (replace_val o1 n1 x) = replace_val o1 n1 x"
  by (auto simp: replace_val_def)

definition covers :: "ny_instruction \<Rightarrow> nat \<Rightarrow> bool" where
  "covers inst k \<longleftrightarrow> i_opcode inst \<noteq> NY_OPCODE_NONE \<and> i_op_start inst \<le> k \<and> k < i_op_start inst + i_op_count inst"

lemma fold_replace:
  "length (fold (\<lambda>inst ops. if i_opcode inst = NY_OPCODE_NONE then ops
       else replace_range o1 n1 (i_op_start inst) (i_op_count inst) ops) insts ops) = length ops
   \<and> (\<forall>k < length ops. fold (\<lambda>inst ops. if i_opcode inst = NY_OPCODE_NONE then ops
       else replace_range o1 n1 (i_op_start inst) (i_op_count inst) ops) insts ops ! k
     = (if \<exists>inst \<in> set insts. covers inst k then replace_val o1 n1 (ops ! k) else ops ! k))"
  by (induction insts arbitrary: ops) (auto simp: nth_replace_range covers_def replace_val_idem)

lemma replace_all_uses_ops:
  assumes ops: "ops_wf fn" and ne: "old_val \<noteq> new_val"
  shows "f_insts (ny_function_replace_all_uses fn old_val new_val) = f_insts fn
    \<and> f_blocks (ny_function_replace_all_uses fn old_val new_val) = f_blocks fn
    \<and> f_values (ny_function_replace_all_uses fn old_val new_val) = f_values fn
    \<and> (\<forall>i. live fn i \<longrightarrow>
         inst_ops (ny_function_replace_all_uses fn old_val new_val) i = map (replace_val old_val new_val) (inst_ops fn i)
       \<and> OpValue old_val \<notin> set (inst_ops (ny_function_replace_all_uses fn old_val new_val) i))"
proof -
  let ?fn' = "ny_function_replace_all_uses fn old_val new_val"
  have fields: "f_insts ?fn' = f_insts fn" "f_blocks ?fn' = f_blocks fn" "f_values ?fn' = f_values fn"
    by (simp_all add: ny_function_replace_all_uses_def)
  have len: "length (f_operands ?fn') = length (f_operands fn)"
    and nth: "k < length (f_operands fn) \<Longrightarrow> f_operands ?fn' ! k =
       (if \<exists>inst \<in> set (f_insts fn). covers inst k then replace_val old_val new_val (f_operands fn ! k) else f_operands fn ! k)" for k
    using fold_replace[of old_val new_val "f_insts fn" "f_operands fn"] ne by (simp_all add: ny_function_replace_all_uses_def)
  have "inst_ops ?fn' i = map (replace_val old_val new_val) (inst_ops fn i)" if i: "live fn i" for i
  proof -
    let ?x = "f_insts fn ! i"
    have r: "i_op_start ?x + i_op_count ?x \<le> length (f_operands fn)" using ops i by (simp add: ops_wf_def)
    have "\<exists>inst \<in> set (f_insts fn). covers inst (i_op_start ?x + j)" if "j < i_op_count ?x" for j
      using i that by (intro bexI[of _ ?x]) (auto simp: covers_def live_def)
    then show ?thesis unfolding inst_ops_def fields using r by (intro subarray_cong) (auto simp: len nth)
  qed
  moreover have "OpValue old_val \<notin> set (map (replace_val old_val new_val) xs)" for xs
    using ne by (auto simp: replace_val_def)
  ultimately show ?thesis using fields by simp
qed

lemma replace_operand_ops:
  assumes ow: "ops_wf fn" and i: "live fn i" and k: "k < i_op_count (f_insts fn ! i)"
  shows "f_insts (ny_instruction_replace_operand fn i k op) = f_insts fn" "f_blocks (ny_instruction_replace_operand fn i k op) = f_blocks fn"
    "f_values (ny_instruction_replace_operand fn i k op) = f_values fn"
    "length (f_operands (ny_instruction_replace_operand fn i k op)) = length (f_operands fn)"
    "inst_ops (ny_instruction_replace_operand fn i k op) i = (inst_ops fn i)[k := op]"
    "live fn j \<Longrightarrow> j \<noteq> i \<Longrightarrow> inst_ops (ny_instruction_replace_operand fn i k op) j = inst_ops fn j"
proof -
  let ?s = "i_op_start (f_insts fn ! i)" and ?fn' = "ny_instruction_replace_operand fn i k op"
  have rng: "?s + i_op_count (f_insts fn ! i) \<le> length (f_operands fn)" using ow i by (simp add: ops_wf_def)
  have eq: "?fn' = fn\<lparr>f_operands := (f_operands fn)[?s + k := op]\<rparr>"
    using i k rng by (simp add: ny_instruction_replace_operand_def live_def Let_def)
  show "f_insts ?fn' = f_insts fn" "f_blocks ?fn' = f_blocks fn" "f_values ?fn' = f_values fn" "length (f_operands ?fn') = length (f_operands fn)"
    by (simp_all add: eq)
  show "inst_ops ?fn' i = (inst_ops fn i)[k := op]"
    using rng k by (intro nth_equalityI) (auto simp: eq inst_ops_def length_subarray nth_subarray nth_list_update)
  assume j: "live fn j" "j \<noteq> i"
  then have "i_op_start (f_insts fn ! j) + i_op_count (f_insts fn ! j) \<le> ?s \<or> ?s + i_op_count (f_insts fn ! i) \<le> i_op_start (f_insts fn ! j)"
    "i_op_start (f_insts fn ! j) + i_op_count (f_insts fn ! j) \<le> length (f_operands fn)"
    using ow i unfolding ops_wf_def by auto
  then show "inst_ops ?fn' j = inst_ops fn j"
    unfolding inst_ops_def using k by (simp add: eq) (rule subarray_cong_id; auto)
qed

lemma replace_all_uses_operands:
  "ny_function_replace_all_uses fn old_val new_val
     = fn\<lparr>f_operands := map (\<lambda>k. if \<exists>i. live fn i \<and> i_op_start (f_insts fn ! i) \<le> k \<and> k < i_op_start (f_insts fn ! i) + i_op_count (f_insts fn ! i)
         then replace_val old_val new_val (f_operands fn ! k) else f_operands fn ! k) [0..<length (f_operands fn)]\<rparr>"
    (is "_ = fn\<lparr>f_operands := ?ops\<rparr>")
proof (cases "old_val = new_val")
  case True
  then have "?ops = f_operands fn" by (intro nth_equalityI) (auto simp: replace_val_def)
  then show ?thesis using True by (simp add: ny_function_replace_all_uses_def)
next
  case False
  have cov: "(\<exists>inst \<in> set (f_insts fn). covers inst k)
      \<longleftrightarrow> (\<exists>i. live fn i \<and> i_op_start (f_insts fn ! i) \<le> k \<and> k < i_op_start (f_insts fn ! i) + i_op_count (f_insts fn ! i))" for k
    unfolding covers_def live_def by (metis in_set_conv_nth)
  have "f_operands (ny_function_replace_all_uses fn old_val new_val) = ?ops"
    using fold_replace[of old_val new_val "f_insts fn" "f_operands fn"] False
    by (intro nth_equalityI) (auto simp: ny_function_replace_all_uses_def cov)
  then show ?thesis using False by (simp add: ny_function_replace_all_uses_def)
qed

lemma replace_all_uses_map:
  assumes "ops_wf fn" "live fn i"
  shows "inst_ops (ny_function_replace_all_uses fn old_val new_val) i = map (replace_val old_val new_val) (inst_ops fn i)"
proof (cases "old_val = new_val")
  case True
  then have "replace_val old_val new_val = (\<lambda>x. x)" by (auto simp: replace_val_def)
  then show ?thesis using True by (simp add: ny_function_replace_all_uses_def)
next
  case False
  show ?thesis using replace_all_uses_ops[OF assms(1) False] assms(2) by blast
qed

text \<open>
  C33. Replacing all uses: the only change to the function is that, in the operand array, every slot inside the slice of a
  live instruction has the old value replaced by the new one; slots of no live instruction keep theirs.  So with operand
  slices inside the array every live instruction has its operands replaced in place, and when the two values differ none
  of them uses the old one afterwards.
\<close>

theorem replace_all_uses_spec:
  assumes "ops_wf fn"
  shows "ny_function_replace_all_uses fn old_val new_val
     = fn\<lparr>f_operands := map (\<lambda>k. if \<exists>i. live fn i \<and> i_op_start (f_insts fn ! i) \<le> k \<and> k < i_op_start (f_insts fn ! i) + i_op_count (f_insts fn ! i)
         then replace_val old_val new_val (f_operands fn ! k) else f_operands fn ! k) [0..<length (f_operands fn)]\<rparr>
    \<and> (\<forall>i. live fn i \<longrightarrow>
         inst_ops (ny_function_replace_all_uses fn old_val new_val) i = map (replace_val old_val new_val) (inst_ops fn i)
       \<and> (old_val \<noteq> new_val \<longrightarrow> OpValue old_val \<notin> set (inst_ops (ny_function_replace_all_uses fn old_val new_val) i)))"
proof (cases "old_val = new_val")
  case True
  then show ?thesis using replace_all_uses_operands[of fn old_val new_val] replace_all_uses_map[OF assms, of _ old_val new_val] by blast
next
  case False
  show ?thesis using replace_all_uses_ops[OF assms False] replace_all_uses_operands[of fn old_val new_val] by blast
qed

subsection \<open>Removing a predecessor from phi instructions\<close>

text \<open>The specification: the pairs (value, predecessor) without those of one predecessor.\<close>

fun drop_incoming :: "nat \<Rightarrow> ny_operand list \<Rightarrow> ny_operand list" where
  "drop_incoming p (v # b # r) = (if b = OpBlock p then drop_incoming p r else v # b # drop_incoming p r)"
| "drop_incoming p xs = xs"

lemma length_drop_incoming: "length (drop_incoming p xs) \<le> length xs"
  by (induction p xs rule: drop_incoming.induct) auto

lemma drop_incoming_id:
  "(\<forall>j. 2 * j + 1 < length xs \<longrightarrow> xs ! (2 * j + 1) \<noteq> OpBlock p) \<Longrightarrow> drop_incoming p xs = xs"
proof (induction p xs rule: drop_incoming.induct)
  case (1 p v b r)
  have "b \<noteq> OpBlock p" using 1(3)[rule_format, of 0] by simp
  moreover have "\<forall>j. 2 * j + 1 < length r \<longrightarrow> r ! (2 * j + 1) \<noteq> OpBlock p"
    using 1(3)[rule_format, of "Suc _"] by auto
  ultimately show ?case using 1(2) by simp
qed auto

lemma drop_incoming_gone:
  "j < length (drop_incoming p xs) \<Longrightarrow> odd j \<Longrightarrow> drop_incoming p xs ! j \<noteq> OpBlock p"
proof (induction p xs arbitrary: j rule: drop_incoming.induct)
  case (1 p v b r)
  show ?case
  proof (cases "b = OpBlock p")
    case False
    show ?thesis
    proof (cases "j = 1")
      case f: False
      then obtain k where "j = Suc (Suc k)" using 1(4) by (metis One_nat_def even_zero not0_implies_Suc)
      then show ?thesis using 1 False by simp
    qed (use False in simp)
  qed (use 1 in simp)
qed auto

lemma phi_has_pred_iff:
  assumes "s + n \<le> length (f_operands fn)"
  shows "phi_has_pred fn (Some s) i n p = Some (\<exists>j. i + 2 * j < n \<and> f_operands fn ! (s + (i + 2 * j)) = OpBlock p)"
proof (induction "n - i" arbitrary: i rule: less_induct)
  case less
  show ?case
  proof (cases "i < n")
    case True
    have split: "(\<exists>j. i + 2 * j < n \<and> f_operands fn ! (s + (i + 2 * j)) = OpBlock p) \<longleftrightarrow>
        f_operands fn ! (s + i) = OpBlock p \<or> (\<exists>j. i + 2 + 2 * j < n \<and> f_operands fn ! (s + (i + 2 + 2 * j)) = OpBlock p)"
    proof
      assume "\<exists>j. i + 2 * j < n \<and> f_operands fn ! (s + (i + 2 * j)) = OpBlock p"
      then obtain j where "i + 2 * j < n" "f_operands fn ! (s + (i + 2 * j)) = OpBlock p" by blast
      then show "f_operands fn ! (s + i) = OpBlock p \<or> (\<exists>j. i + 2 + 2 * j < n \<and> f_operands fn ! (s + (i + 2 + 2 * j)) = OpBlock p)"
        by (cases j) (auto intro!: exI[of _ "j - 1"])
    next
      assume "f_operands fn ! (s + i) = OpBlock p \<or> (\<exists>j. i + 2 + 2 * j < n \<and> f_operands fn ! (s + (i + 2 + 2 * j)) = OpBlock p)"
      then show "\<exists>j. i + 2 * j < n \<and> f_operands fn ! (s + (i + 2 * j)) = OpBlock p"
      proof
        assume "\<exists>j. i + 2 + 2 * j < n \<and> f_operands fn ! (s + (i + 2 + 2 * j)) = OpBlock p"
        then obtain j where "i + 2 + 2 * j < n \<and> f_operands fn ! (s + (i + 2 + 2 * j)) = OpBlock p" by blast
        then show ?thesis by (intro exI[of _ "Suc j"]) (simp add: algebra_simps)
      qed (use True in \<open>auto intro: exI[of _ 0]\<close>)
    qed
    have "phi_has_pred fn (Some s) i n p = (if f_operands fn ! (s + i) = OpBlock p then Some True else phi_has_pred fn (Some s) (i + 2) n p)"
      using True assms by (subst phi_has_pred.simps) (simp add: op_at_def)
    then show ?thesis unfolding split using less[of "i + 2"] True by auto
  qed (simp add: phi_has_pred.simps)
qed

lemma phi_compact_spec:
  assumes "s \<le> w" "w \<le> s + 2 * k" "k \<le> m" "s + 2 * m \<le> length ops"
  shows "\<exists>ops'. phi_compact s (2 * m) p (2 * k) w ops =
      Some (ops', w + length (drop_incoming p (subarray (s + 2 * k) (2 * (m - k)) ops)))
    \<and> length ops' = length ops \<and> (\<forall>j. j < w \<or> s + 2 * m \<le> j \<longrightarrow> ops' ! j = ops ! j)
    \<and> subarray w (length (drop_incoming p (subarray (s + 2 * k) (2 * (m - k)) ops))) ops' =
        drop_incoming p (subarray (s + 2 * k) (2 * (m - k)) ops)"
  using assms
proof (induction "m - k" arbitrary: k w ops)
  case 0
  then show ?case by (simp add: phi_compact.simps subarray_def)
next
  case (Suc d)
  then have km: "k < m" and d: "d = m - Suc k" by auto
  let ?a = "ops ! (s + 2 * k)" and ?b = "ops ! (s + (2 * k + 1))" and ?rest = "subarray (s + 2 * Suc k) (2 * (m - Suc k)) ops"
  have sl: "subarray (s + 2 * k) (2 * (m - k)) ops = ?a # ?b # ?rest"
  proof -
    have e: "2 * (m - k) = Suc (Suc (2 * (m - Suc k)))" using km by auto
    have "drop (s + 2 * k) ops = ?a # drop (Suc (s + 2 * k)) ops" using km Suc.prems by (intro Cons_nth_drop_Suc[symmetric]) auto
    moreover have "drop (Suc (s + 2 * k)) ops = ?b # drop (Suc (Suc (s + 2 * k))) ops"
      using km Suc.prems Cons_nth_drop_Suc[of "Suc (s + 2 * k)" ops] by simp
    ultimately show ?thesis unfolding subarray_def e by simp
  qed
  have inr: "2 * k < 2 * m" "2 * k + 1 < 2 * m" "s + 2 * k < length ops" "s + (2 * k + 1) < length ops"
    using km Suc.prems by auto
  show ?case
  proof (cases "?b = OpBlock p")
    case True
    have "phi_compact s (2 * m) p (2 * k) w ops = phi_compact s (2 * m) p (2 * Suc k) w ops"
      using inr True by (subst phi_compact.simps) simp
    then show ?thesis using Suc.hyps(1)[OF d, of w ops] Suc.prems km True by (simp add: sl)
  next
    case False
    define ops2 where "ops2 = ops[w := ?a, w + 1 := ?b]"
    have kept: "ops2 ! j = ops ! j" if "j < w \<or> w + 2 \<le> j" for j using that by (auto simp: ops2_def nth_upd)
    have "w + 1 < length ops" using Suc.prems km by auto
    moreover have "ops[w := ?a] ! (s + (2 * k + 1)) = ?b" using Suc.prems by (auto simp: nth_upd)
    ultimately have run: "phi_compact s (2 * m) p (2 * k) w ops = phi_compact s (2 * m) p (2 * Suc k) (w + 2) ops2"
      using inr False by (subst phi_compact.simps) (simp add: ops2_def)
    have "subarray (s + 2 * Suc k) (2 * (m - Suc k)) ops2 = ?rest"
      by (rule subarray_cong_id) (use Suc.prems km kept in \<open>auto simp: ops2_def\<close>)
    then obtain ops' where o: "phi_compact s (2 * m) p (2 * Suc k) (w + 2) ops2 = Some (ops', w + 2 + length (drop_incoming p ?rest))"
      "length ops' = length ops" "\<forall>j. j < w + 2 \<or> s + 2 * m \<le> j \<longrightarrow> ops' ! j = ops2 ! j"
      "subarray (w + 2) (length (drop_incoming p ?rest)) ops' = drop_incoming p ?rest"
      using Suc.hyps(1)[OF d, of "w + 2" ops2] Suc.prems km by (auto simp: ops2_def)
    have w2: "ops' ! w = ?a" "ops' ! (w + 1) = ?b" using o(3) Suc.prems km by (auto simp: ops2_def nth_upd)
    have room: "w + 2 + length (drop_incoming p ?rest) \<le> length ops'"
      using Suc.prems km length_drop_incoming[of p ?rest] o(2) by (simp add: length_subarray)
    have "subarray w (Suc (Suc (length (drop_incoming p ?rest)))) ops' = ?a # ?b # drop_incoming p ?rest"
    proof -
      have "drop w ops' = ?a # ?b # drop (w + 2) ops'"
        using room w2 Cons_nth_drop_Suc[of w ops'] Cons_nth_drop_Suc[of "Suc w" ops'] by simp
      then show ?thesis using o(4) by (simp add: subarray_def)
    qed
    moreover have "ops' ! j = ops ! j" if "j < w \<or> s + 2 * m \<le> j" for j
    proof -
      have 1: "j < w + 2 \<or> s + 2 * m \<le> j" and 2: "j < w \<or> w + 2 \<le> j" using that Suc.prems km by auto
      show ?thesis using o(3)[rule_format, OF 1] kept[OF 2] by simp
    qed
    ultimately show ?thesis using o False by (simp add: sl run)
  qed
qed

text \<open>One phi: its pairs are compacted in place, and nothing outside its operands changes.\<close>

definition phi_step :: "nat \<Rightarrow> ny_function \<Rightarrow> nat \<Rightarrow> ny_function option" where
  "phi_step pred_id fn x = (let inst = f_insts fn ! x in do {
     has_pred \<leftarrow> phi_has_pred fn (ny_function_get_operands fn inst) 1 (i_op_count inst) pred_id;
     (if has_pred then do {
        (ops, write_idx) \<leftarrow> phi_compact (i_op_start inst) (i_op_count inst) pred_id 0 (i_op_start inst) (f_operands fn);
        upd_inst (fn\<lparr>f_operands := ops\<rparr>) x (\<lambda>i. i\<lparr>i_op_count := u16 (write_idx - i_op_start inst)\<rparr>)
      } else Some fn)
   })"

definition only_counts :: "ny_function \<Rightarrow> ny_function \<Rightarrow> bool" where
  "only_counts fn fn' \<longleftrightarrow> f_blocks fn' = f_blocks fn \<and> f_values fn' = f_values fn \<and> length (f_insts fn') = length (f_insts fn)
     \<and> (\<forall>i < length (f_insts fn). \<exists>c. f_insts fn' ! i = (f_insts fn ! i)\<lparr>i_op_count := c\<rparr>)"

lemma only_counts_refl: "only_counts fn fn"
proof -
  have "f_insts fn ! i = (f_insts fn ! i)\<lparr>i_op_count := i_op_count (f_insts fn ! i)\<rparr>" for i by simp
  then show ?thesis unfolding only_counts_def by blast
qed

lemma only_counts_trans:
  assumes "only_counts fn fn1" "only_counts fn1 fn2"
  shows "only_counts fn fn2"
proof -
  have "\<exists>c. f_insts fn2 ! i = (f_insts fn ! i)\<lparr>i_op_count := c\<rparr>" if i: "i < length (f_insts fn)" for i
  proof -
    obtain c1 c2 where "f_insts fn1 ! i = (f_insts fn ! i)\<lparr>i_op_count := c1\<rparr>" "f_insts fn2 ! i = (f_insts fn1 ! i)\<lparr>i_op_count := c2\<rparr>"
      using assms i unfolding only_counts_def by metis
    then show ?thesis by auto
  qed
  then show ?thesis using assms by (simp add: only_counts_def)
qed

lemma only_counts_fields:
  assumes "only_counts fn fn'" "i < length (f_insts fn)"
  shows "i_opcode (f_insts fn' ! i) = i_opcode (f_insts fn ! i)" "i_next (f_insts fn' ! i) = i_next (f_insts fn ! i)"
    "i_prev (f_insts fn' ! i) = i_prev (f_insts fn ! i)" "i_block (f_insts fn' ! i) = i_block (f_insts fn ! i)"
    "i_op_start (f_insts fn' ! i) = i_op_start (f_insts fn ! i)" "i_id (f_insts fn' ! i) = i_id (f_insts fn ! i)"
proof -
  obtain c where "f_insts fn' ! i = (f_insts fn ! i)\<lparr>i_op_count := c\<rparr>" using assms by (auto simp: only_counts_def)
  then show "i_opcode (f_insts fn' ! i) = i_opcode (f_insts fn ! i)" "i_next (f_insts fn' ! i) = i_next (f_insts fn ! i)"
    "i_prev (f_insts fn' ! i) = i_prev (f_insts fn ! i)" "i_block (f_insts fn' ! i) = i_block (f_insts fn ! i)"
    "i_op_start (f_insts fn' ! i) = i_op_start (f_insts fn ! i)" "i_id (f_insts fn' ! i) = i_id (f_insts fn ! i)" by simp_all
qed

lemma only_counts_live: "only_counts fn fn' \<Longrightarrow> live fn' i = live fn i"
  using only_counts_fields[of fn fn' i] by (auto simp: live_def only_counts_def)

lemma only_counts_length: "only_counts fn fn' \<Longrightarrow> length (f_insts fn') = length (f_insts fn)"
  by (simp add: only_counts_def)

lemma only_counts_seg: "only_counts fn fn' \<Longrightarrow> seg (f_insts fn) b p xs n \<Longrightarrow> seg (f_insts fn') b p xs n"
  by (induction xs arbitrary: p) (auto simp: only_counts_fields only_counts_length)

lemma phi_step_spec:
  assumes ow: "ops_wf fn" and x: "live fn x" and ev: "even (i_op_count (f_insts fn ! x))"
  shows "\<exists>fn'. phi_step p fn x = Some fn' \<and> only_counts fn fn' \<and> ops_wf fn'
    \<and> (\<forall>i. live fn i \<longrightarrow> inst_ops fn' i = (if i = x then drop_incoming p (inst_ops fn x) else inst_ops fn i))
    \<and> (\<forall>i. i \<noteq> x \<longrightarrow> i_op_count (f_insts fn' ! i) = i_op_count (f_insts fn ! i))"
proof -
  let ?inst = "f_insts fn ! x" and ?s = "i_op_start (f_insts fn ! x)" and ?ops = "f_operands fn"
  obtain m where m: "i_op_count ?inst = 2 * m" using ev by (auto elim: evenE)
  have r: "?s + 2 * m \<le> length ?ops" "2 * m < 65536" using ow x m by (auto simp: ops_wf_def)
  have sl: "inst_ops fn x = subarray ?s (2 * m) ?ops" by (simp add: inst_ops_def m)
  have ptr: "ny_function_get_operands fn ?inst = Some ?s" using r m by (simp add: ny_function_get_operands_def)
  have hp: "phi_has_pred fn (Some ?s) 1 (2 * m) p = Some (\<exists>j. 1 + 2 * j < 2 * m \<and> ?ops ! (?s + (1 + 2 * j)) = OpBlock p)"
    by (rule phi_has_pred_iff[OF r(1)])
  show ?thesis
  proof (cases "\<exists>j. 1 + 2 * j < 2 * m \<and> ?ops ! (?s + (1 + 2 * j)) = OpBlock p")
    case False
    then have "drop_incoming p (inst_ops fn x) = inst_ops fn x"
      unfolding sl by (intro drop_incoming_id) (use r in \<open>auto simp: length_subarray nth_subarray\<close>)
    moreover have "phi_has_pred fn (Some ?s) 1 (2 * m) p = Some False" unfolding hp using False by simp
    ultimately show ?thesis using ow by (simp add: phi_step_def Let_def ptr m only_counts_refl)
  next
    case True
    obtain ops' where o: "phi_compact ?s (2 * m) p 0 ?s ?ops = Some (ops', ?s + length (drop_incoming p (inst_ops fn x)))"
      "length ops' = length ?ops" "\<forall>j. j < ?s \<or> ?s + 2 * m \<le> j \<longrightarrow> ops' ! j = ?ops ! j"
      "subarray ?s (length (drop_incoming p (inst_ops fn x))) ops' = drop_incoming p (inst_ops fn x)"
      using phi_compact_spec[of ?s ?s 0 m ?ops p] r by (auto simp: sl)
    let ?c = "length (drop_incoming p (inst_ops fn x))"
    have c: "?c \<le> 2 * m" using length_drop_incoming[of p "inst_ops fn x"] r by (simp add: sl length_subarray)
    define fn' where "fn' = fn\<lparr>f_operands := ops', f_insts := (f_insts fn)[x := ?inst\<lparr>i_op_count := ?c\<rparr>]\<rparr>"
    have "phi_has_pred fn (Some ?s) 1 (2 * m) p = Some True" unfolding hp using True by simp
    then have run: "phi_step p fn x = Some fn'"
      using o(1) c r x by (simp add: phi_step_def Let_def ptr m live_def fn'_def)
    have oc: "only_counts fn fn'"
      using only_counts_refl[of fn] by (auto simp: only_counts_def fn'_def nth_upd)
    have cnt: "i_op_count (f_insts fn' ! i) = (if i = x then ?c else i_op_count (f_insts fn ! i))" for i
      using x by (auto simp: fn'_def nth_upd live_def)
    have st: "i_op_start (f_insts fn' ! i) = i_op_start (f_insts fn ! i)" for i by (auto simp: fn'_def nth_upd)
    have ow': "ops_wf fn'"
    proof -
      have le: "live fn i \<Longrightarrow> i_op_count (f_insts fn' ! i) \<le> i_op_count (f_insts fn ! i)" for i using cnt c m by simp
      have f: "f_operands fn' = ops'" by (simp add: fn'_def)
      show ?thesis unfolding ops_wf_def only_counts_live[OF oc] st f o(2)
      proof (intro conjI allI impI)
        fix i assume i: "live fn i"
        show "i_op_start (f_insts fn ! i) + i_op_count (f_insts fn' ! i) \<le> length ?ops" "i_op_count (f_insts fn' ! i) < 65536"
          using ow i le[OF i] unfolding ops_wf_def by (meson add_left_mono le_trans, meson le_less_trans)
        fix j assume j: "live fn j" "i \<noteq> j"
        have "i_op_start (f_insts fn ! i) + i_op_count (f_insts fn ! i) \<le> i_op_start (f_insts fn ! j)
            \<or> i_op_start (f_insts fn ! j) + i_op_count (f_insts fn ! j) \<le> i_op_start (f_insts fn ! i)"
          using ow i j unfolding ops_wf_def by blast
        then show "i_op_start (f_insts fn ! i) + i_op_count (f_insts fn' ! i) \<le> i_op_start (f_insts fn ! j)
            \<or> i_op_start (f_insts fn ! j) + i_op_count (f_insts fn' ! j) \<le> i_op_start (f_insts fn ! i)"
          using le[OF i] le[OF j(1)] by linarith
      qed
    qed
    have "inst_ops fn' i = inst_ops fn i" if i: "live fn i" "i \<noteq> x" for i
    proof -
      have "i_op_start (f_insts fn ! i) + i_op_count (f_insts fn ! i) \<le> ?s
          \<or> ?s + i_op_count ?inst \<le> i_op_start (f_insts fn ! i)"
        and "i_op_start (f_insts fn ! i) + i_op_count (f_insts fn ! i) \<le> length ?ops" using ow i x unfolding ops_wf_def by auto
      then show ?thesis using i(2) o(2,3) m unfolding inst_ops_def st cnt
        by (simp add: fn'_def) (rule subarray_cong_id; auto)
    qed
    moreover have "inst_ops fn' x = drop_incoming p (inst_ops fn x)" using o(4) by (simp add: inst_ops_def[of fn'] cnt st) (simp add: fn'_def)
    ultimately show ?thesis using run oc ow' cnt by auto
  qed
qed

lemma remove_phi_from_list:
  assumes "seg (f_insts fn) b q xs NY_INVALID" "distinct xs" "NY_INVALID \<notin> set xs" "ops_wf fn"
    and "\<forall>x \<in> set (takeWhile (\<lambda>i. i_opcode (f_insts fn ! i) = NY_OPCODE_PHI) xs). even (i_op_count (f_insts fn ! x))"
  shows "\<exists>fn'. remove_phi_from p fn (hd_or xs NY_INVALID) = Some fn' \<and> only_counts fn fn' \<and> ops_wf fn'
    \<and> (\<forall>i. live fn i \<longrightarrow> inst_ops fn' i =
        (if i \<in> set (takeWhile (\<lambda>i. i_opcode (f_insts fn ! i) = NY_OPCODE_PHI) xs) then drop_incoming p (inst_ops fn i) else inst_ops fn i))"
  using assms
proof (induction xs arbitrary: fn q)
  case Nil
  then show ?case by (simp add: remove_phi_from.simps only_counts_refl)
next
  case (Cons x xs)
  let ?inst = "f_insts fn ! x"
  have x: "x < length (f_insts fn)" "x \<noteq> NY_INVALID" "live fn x" "i_next ?inst = hd_or xs NY_INVALID"
    using Cons.prems by (auto simp: live_def)
  show ?case
  proof (cases "i_opcode ?inst = NY_OPCODE_PHI")
    case False
    then show ?thesis using x Cons.prems by (simp add: remove_phi_from.simps only_counts_refl)
  next
    case True
    then have ev: "even (i_op_count ?inst)" using Cons.prems(5) by simp
    obtain fn1 where f1: "phi_step p fn x = Some fn1" "only_counts fn fn1" "ops_wf fn1"
      "\<forall>i. live fn i \<longrightarrow> inst_ops fn1 i = (if i = x then drop_incoming p (inst_ops fn x) else inst_ops fn i)"
      "\<forall>i. i \<noteq> x \<longrightarrow> i_op_count (f_insts fn1 ! i) = i_op_count (f_insts fn ! i)"
      using phi_step_spec[OF Cons.prems(4) x(3) ev] by blast
    have sg: "seg (f_insts fn) b x xs NY_INVALID" using Cons.prems by simp
    have same: "z < length (f_insts fn)" "i_opcode (f_insts fn1 ! z) = i_opcode (f_insts fn ! z)" if "z \<in> set xs" for z
      using seg_mem[OF sg that] only_counts_fields[OF f1(2)] by auto
    have tw: "takeWhile (\<lambda>i. i_opcode (f_insts fn1 ! i) = NY_OPCODE_PHI) xs = takeWhile (\<lambda>i. i_opcode (f_insts fn ! i) = NY_OPCODE_PHI) xs"
      by (rule takeWhile_cong) (use same in auto)
    have nin: "x \<notin> set xs" using Cons.prems by simp
    have ev1: "\<forall>z \<in> set (takeWhile (\<lambda>i. i_opcode (f_insts fn1 ! i) = NY_OPCODE_PHI) xs). even (i_op_count (f_insts fn1 ! z))"
      unfolding tw using Cons.prems(5) True f1(5) nin set_takeWhileD by fastforce
    from Cons.IH[OF only_counts_seg[OF f1(2) sg] _ _ f1(3) ev1] Cons.prems obtain fn' where
      IH: "remove_phi_from p fn1 (hd_or xs NY_INVALID) = Some fn'" "only_counts fn1 fn'" "ops_wf fn'"
        "\<forall>i. live fn1 i \<longrightarrow> inst_ops fn' i =
          (if i \<in> set (takeWhile (\<lambda>i. i_opcode (f_insts fn1 ! i) = NY_OPCODE_PHI) xs) then drop_incoming p (inst_ops fn1 i) else inst_ops fn1 i)"
      by auto
    have "remove_phi_from p fn x = Option.bind (phi_step p fn x) (\<lambda>fn. remove_phi_from p fn (i_next ?inst))"
      using x True by (subst remove_phi_from.simps) (simp add: phi_step_def Let_def)
    then have run: "remove_phi_from p fn x = Some fn'" using f1(1) IH(1) x(4) by simp
    have "x \<notin> set (takeWhile (\<lambda>i. i_opcode (f_insts fn ! i) = NY_OPCODE_PHI) xs)" using nin set_takeWhileD by metis
    then have "\<forall>i. live fn i \<longrightarrow> inst_ops fn' i = (if i \<in> set (takeWhile (\<lambda>i. i_opcode (f_insts fn ! i) = NY_OPCODE_PHI) (x # xs))
        then drop_incoming p (inst_ops fn i) else inst_ops fn i)"
      using IH(4) f1(4) True by (auto simp: tw only_counts_live[OF f1(2)])
    then show ?thesis using run IH(3) only_counts_trans[OF f1(2) IH(2)] by simp
  qed
qed

text \<open>
  Removing a predecessor from the phis of a block: the call returns; every phi at the head of the
  block loses exactly the pairs of that predecessor, its other pairs staying in order, and no other
  instruction's operands, no list and no edge changes.
\<close>

theorem remove_phi_incoming_spec:
  assumes wf: "fn_wf fn L" and ow: "ops_wf fn" and b: "b < length (f_blocks fn)"
    and ev: "\<forall>x \<in> set (takeWhile (\<lambda>i. i_opcode (f_insts fn ! i) = NY_OPCODE_PHI) (L ! b)). even (i_op_count (f_insts fn ! x))"
  shows "\<exists>fn'. ny_function_remove_phi_incoming fn b p = Some fn' \<and> fn_wf fn' L \<and> ops_wf fn' \<and> f_blocks fn' = f_blocks fn
    \<and> (\<forall>i. live fn i \<longrightarrow> live fn' i \<and> inst_ops fn' i =
        (if i \<in> set (takeWhile (\<lambda>i. i_opcode (f_insts fn ! i) = NY_OPCODE_PHI) (L ! b)) then drop_incoming p (inst_ops fn i) else inst_ops fn i))"
proof -
  have ok: "block_ok (f_insts fn) (f_blocks fn ! b) b (L ! b)" using fn_wf_block[OF wf b] .
  have "NY_INVALID \<notin> set (L ! b)" using fn_wf_mem(5)[OF wf b] by blast
  then obtain fn' where f: "remove_phi_from p fn (hd_or (L ! b) NY_INVALID) = Some fn'" "only_counts fn fn'" "ops_wf fn'"
    "\<forall>i. live fn i \<longrightarrow> inst_ops fn' i =
        (if i \<in> set (takeWhile (\<lambda>i. i_opcode (f_insts fn ! i) = NY_OPCODE_PHI) (L ! b)) then drop_incoming p (inst_ops fn i) else inst_ops fn i)"
    using remove_phi_from_list[of fn b NY_INVALID "L ! b" p] ok ow ev by (auto simp: block_ok_def)
  have bl: "f_blocks fn' = f_blocks fn" "length (f_insts fn') = length (f_insts fn)" using f(2) by (auto simp: only_counts_def)
  have "fn_wf fn' L"
    using wf only_counts_fields[OF f(2)] only_counts_seg[OF f(2)] unfolding fn_wf_def block_ok_def bl by auto
  then show ?thesis using f bl b ok only_counts_live[OF f(2)]
    by (simp add: ny_function_remove_phi_incoming_def block_ok_def)
qed

end
