(* ===== verification/IR_Examples.thy ===== *)
theory IR_Examples
  imports IR_Ops
begin

text \<open>
  A small function (two blocks, a constant, a branch, a phi and a return) and the
  theorems about \<^verbatim>\<open>src/ir/function.c\<close> applied to it: their hypotheses hold together.
\<close>

definition mk_inst :: "nat \<Rightarrow> ny_opcode \<Rightarrow> nat \<Rightarrow> nat \<Rightarrow> nat \<Rightarrow> nat \<Rightarrow> nat \<Rightarrow> nat \<Rightarrow> ny_instruction" where
  "mk_inst i opc res st n b p x = \<lparr>i_id = i, i_opcode = opc, i_flags = 0, i_result = res, i_op_start = st,
     i_op_count = n, i_block = b, i_prev = p, i_next = x\<rparr>"

definition sample_fn :: ny_function where
  "sample_fn = (ny_function_init 0 ''f'' 4 0)\<lparr>f_entry := 0,
     f_blocks := [
       \<lparr>b_id = 0, b_name = ''entry'', b_first = 0, b_last = 1, b_inst_count = 2, b_preds = [], b_succs = [1]\<rparr>,
       \<lparr>b_id = 1, b_name = ''exit'', b_first = 2, b_last = 3, b_inst_count = 2, b_preds = [0], b_succs = []\<rparr>],
     f_insts := [
       mk_inst 0 NY_OPCODE_CONST 0 0 1 0 NY_INVALID 1,
       mk_inst 1 NY_OPCODE_BRANCH NY_INVALID 1 1 0 0 NY_INVALID,
       mk_inst 2 NY_OPCODE_PHI 1 2 2 1 NY_INVALID 3,
       mk_inst 3 NY_OPCODE_RETURN NY_INVALID 4 1 1 2 NY_INVALID],
     f_values := [
       \<lparr>v_id = 0, v_type = 4, v_kind = NY_VAL_INSTRUCTION, v_def = 0, v_index = 0, v_name = ''x''\<rparr>,
       \<lparr>v_id = 1, v_type = 4, v_kind = NY_VAL_INSTRUCTION, v_def = 2, v_index = 0, v_name = ''y''\<rparr>],
     f_operands := [OpInt 7, OpBlock 1, OpValue 0, OpBlock 0, OpValue 1]\<rparr>"

definition sample_lists :: "nat list list" where
  "sample_lists = [[0, 1], [2, 3]]"

lemma less_four: "(i :: nat) < 4 \<Longrightarrow> i = 0 \<or> i = 1 \<or> i = 2 \<or> i = 3"
  by auto

lemma less_two: "(i :: nat) < 2 \<Longrightarrow> i = 0 \<or> i = 1"
  by auto

lemma sample_lengths: "length (f_insts sample_fn) = 4" "length (f_blocks sample_fn) = 2" "length (f_operands sample_fn) = 5"
    "length (f_values sample_fn) = 2" "length sample_lists = 2"
  by (simp_all add: sample_fn_def sample_lists_def)

lemma sample_inst:
  "f_insts sample_fn ! 0 = mk_inst 0 NY_OPCODE_CONST 0 0 1 0 NY_INVALID 1"
  "f_insts sample_fn ! Suc 0 = mk_inst 1 NY_OPCODE_BRANCH NY_INVALID 1 1 0 0 NY_INVALID"
  "f_insts sample_fn ! 2 = mk_inst 2 NY_OPCODE_PHI 1 2 2 1 NY_INVALID 3"
  "f_insts sample_fn ! 3 = mk_inst 3 NY_OPCODE_RETURN NY_INVALID 4 1 1 2 NY_INVALID"
  by (simp_all add: sample_fn_def)

lemma sample_block:
  "f_blocks sample_fn ! 0 = \<lparr>b_id = 0, b_name = ''entry'', b_first = 0, b_last = 1, b_inst_count = 2, b_preds = [], b_succs = [1]\<rparr>"
  "f_blocks sample_fn ! Suc 0 = \<lparr>b_id = 1, b_name = ''exit'', b_first = 2, b_last = 3, b_inst_count = 2, b_preds = [0], b_succs = []\<rparr>"
  by (simp_all add: sample_fn_def)

lemma sample_ops: "f_operands sample_fn = [OpInt 7, OpBlock 1, OpValue 0, OpBlock 0, OpValue 1]"
  by (simp add: sample_fn_def)

lemma sample_list: "sample_lists ! 0 = [0, 1]" "sample_lists ! Suc 0 = [2, 3]"
  by (simp_all add: sample_lists_def)

lemma sample_wf: "fn_wf sample_fn sample_lists"
proof -
  have "block_ok (f_insts sample_fn) (f_blocks sample_fn ! b) b (sample_lists ! b)" if "b < 2" for b
    using less_two[OF that] by (auto simp: block_ok_def sample_block sample_list sample_inst sample_lengths mk_inst_def)
  moreover have "i_id (f_insts sample_fn ! i) = i \<and> i_block (f_insts sample_fn ! i) < 2
      \<and> i \<in> set (sample_lists ! i_block (f_insts sample_fn ! i))" if "i < 4" for i
    using less_four[OF that] by (auto simp: sample_list sample_inst mk_inst_def)
  ultimately show ?thesis by (simp add: fn_wf_def sample_lengths NY_INVALID_def)
qed

lemma sample_edges: "edges sample_fn = {(0, 1)}"
  by (auto simp: edges_def sample_lengths sample_block dest!: less_two)

lemma sample_edges_wf: "edges_wf sample_fn"
  unfolding edges_wf_def sample_edges sample_lengths
  by (auto simp: sample_block dest!: less_two)

lemma sample_live: "live sample_fn i \<longleftrightarrow> i < 4"
  by (auto simp: live_def sample_lengths sample_inst mk_inst_def dest!: less_four)

lemma sample_ops_wf: "ops_wf sample_fn"
  unfolding ops_wf_def sample_live sample_lengths
proof (intro conjI allI impI)
  fix i :: nat assume i: "i < 4"
  then show "i_op_start (f_insts sample_fn ! i) + i_op_count (f_insts sample_fn ! i) \<le> 5"
    "i_op_count (f_insts sample_fn ! i) < 65536" by (auto dest!: less_four simp: sample_inst mk_inst_def)
  fix j :: nat assume "j < 4" "i \<noteq> j"
  then show "i_op_start (f_insts sample_fn ! i) + i_op_count (f_insts sample_fn ! i) \<le> i_op_start (f_insts sample_fn ! j)
        \<or> i_op_start (f_insts sample_fn ! j) + i_op_count (f_insts sample_fn ! j) \<le> i_op_start (f_insts sample_fn ! i)"
    using less_four[OF i] less_four[OF \<open>j < 4\<close>] by (elim disjE) (simp_all add: sample_inst mk_inst_def)
qed

theorem append_instruction_refines_witness:
  "\<exists>fn'. ny_function_append_instruction sample_fn 0 NY_OPCODE_TRAP NY_INVALID [] 0 = Some (fn', 4)
     \<and> fn_wf fn' [[0, 1, 4], [2, 3]] \<and> f_operands fn' = f_operands sample_fn"
  using append_instruction_refines[OF sample_wf, of 0 NY_OPCODE_TRAP "[]" NY_INVALID 0]
  by (auto simp: sample_lengths NY_INVALID_def sample_lists_def)

theorem remove_instruction_refines_witness:
  "\<exists>fn'. ny_function_remove_instruction sample_fn 2 = Some fn' \<and> fn_wf fn' [[0, 1], [3]]
     \<and> v_def (f_values fn' ! 1) = NY_INVALID_INST \<and> i_op_count (f_insts fn' ! 2) = 0"
  using conjunct1[OF remove_instruction_refines[OF sample_wf, of 2]]
  by (auto simp: sample_lengths sample_inst mk_inst_def sample_lists_def NY_INVALID_def)

theorem block_edges_spec_witness:
  "\<exists>fn1 fn2. ny_block_add_edge sample_fn 1 0 = Some fn1 \<and> edges fn1 = {(0, 1), (1, 0)}
     \<and> ny_block_remove_edge sample_fn 0 1 = Some fn2 \<and> edges fn2 = {}"
proof -
  obtain fn1 where "ny_block_add_edge sample_fn 1 0 = Some fn1" "edges fn1 = insert (1, 0) (edges sample_fn)"
    using block_edges_spec[OF sample_edges_wf, of 1 0] by (auto simp: sample_lengths)
  moreover obtain fn2 where "ny_block_remove_edge sample_fn 0 1 = Some fn2" "edges fn2 = edges sample_fn - {(0, 1)}"
    using block_edges_spec[OF sample_edges_wf, of 0 1] by (auto simp: sample_lengths)
  ultimately show ?thesis by (auto simp: sample_edges)
qed

theorem remove_block_refines_witness:
  "\<exists>fn'. ny_function_remove_block sample_fn 1 = Some fn' \<and> fn_wf fn' [[0, 1], []] \<and> edges fn' = {}"
proof -
  obtain fn' where "ny_function_remove_block sample_fn 1 = Some fn'" "fn_wf fn' (sample_lists[1 := []])"
    "edges fn' = {e \<in> edges sample_fn. fst e \<noteq> 1 \<and> snd e \<noteq> 1}"
    using remove_block_refines[OF sample_wf sample_edges_wf, of 1] by (auto simp: sample_lengths)
  then show ?thesis by (auto simp: sample_edges sample_lists_def)
qed

theorem split_block_refines_witness:
  "\<exists>fn'. ny_function_split_block sample_fn 1 3 = Some (fn', True, 2) \<and> fn_wf fn' [[0, 1], [2], [3]]
     \<and> edges fn' = {(0, 1), (1, 2)}"
proof -
  have x: "3 \<in> set (sample_lists ! 1)" "1 < length (f_blocks sample_fn)" "length (f_blocks sample_fn) + 1 < NY_INVALID"
    by (simp_all add: sample_list sample_lengths NY_INVALID_def)
  obtain fn' where f: "ny_function_split_block sample_fn 1 3 = Some (fn', True, 2)"
    "fn_wf fn' (sample_lists[1 := takeWhile (\<lambda>i. i \<noteq> 3) (sample_lists ! 1)] @ [dropWhile (\<lambda>i. i \<noteq> 3) (sample_lists ! 1)])"
    "edges fn' = {e \<in> edges sample_fn. fst e \<noteq> 1} \<union> {(2, y) | y. (1, y) \<in> edges sample_fn} \<union> {(1, 2)}"
    using split_block_refines[OF sample_wf sample_edges_wf x(2,1,3)] unfolding sample_lengths by blast
  have "edges fn' = {(0, 1), (1, 2)}" unfolding f(3) sample_edges by auto
  then show ?thesis using f(1,2) by (simp add: sample_lists_def)
qed

theorem merge_blocks_refines_witness:
  "\<exists>fn'. ny_function_merge_blocks sample_fn 0 1 = Some (fn', True) \<and> fn_wf fn' [[0, 2, 3], []] \<and> edges fn' = {}"
proof -
  have "without_branch sample_fn (sample_lists ! 0) = [0]"
    by (simp add: without_branch_def sample_list sample_inst mk_inst_def)
  moreover obtain fn' where "ny_function_merge_blocks sample_fn 0 1 = Some (fn', True)"
    "fn_wf fn' (sample_lists[0 := without_branch sample_fn (sample_lists ! 0) @ sample_lists ! 1, 1 := []])"
    "edges fn' = {e \<in> edges sample_fn. fst e \<noteq> 0 \<and> fst e \<noteq> 1} \<union> {(0, y) | y. (1, y) \<in> edges sample_fn}"
    using conjunct1[OF merge_blocks_refines[OF sample_wf sample_edges_wf, of 0 1]] by (auto simp: sample_lengths sample_block)
  ultimately show ?thesis by (auto simp: sample_edges sample_lists_def)
qed

theorem replace_all_uses_spec_witness:
  "inst_ops (ny_function_replace_all_uses sample_fn 1 0) 3 = [OpValue 0]"
proof -
  have "inst_ops (ny_function_replace_all_uses sample_fn 1 0) 3 = map (replace_val 1 0) (inst_ops sample_fn 3)"
    using replace_all_uses_spec[OF sample_ops_wf, of 1 0, THEN conjunct2, rule_format, of 3] by (simp add: sample_live)
  then show ?thesis by (simp add: inst_ops_def[of sample_fn] sample_inst mk_inst_def sample_ops subarray_def replace_val_def)
qed

theorem remove_phi_incoming_spec_witness:
  "\<exists>fn'. ny_function_remove_phi_incoming sample_fn 1 0 = Some fn' \<and> inst_ops fn' 2 = [] \<and> inst_ops fn' 3 = [OpValue 1]"
proof -
  have P: "takeWhile (\<lambda>i. i_opcode (f_insts sample_fn ! i) = NY_OPCODE_PHI) (sample_lists ! 1) = [2]"
    by (simp add: sample_list sample_inst mk_inst_def)
  have e: "even (i_op_count (f_insts sample_fn ! 2))" by (simp add: sample_inst mk_inst_def)
  obtain fn' where f: "ny_function_remove_phi_incoming sample_fn 1 0 = Some fn'"
    "\<forall>i. live sample_fn i \<longrightarrow> live fn' i \<and> inst_ops fn' i =
        (if i \<in> set [2] then drop_incoming 0 (inst_ops sample_fn i) else inst_ops sample_fn i)"
    using remove_phi_incoming_spec[OF sample_wf sample_ops_wf, of 1 0, unfolded P] e by (auto simp: sample_lengths)
  have "inst_ops fn' 2 = drop_incoming 0 (inst_ops sample_fn 2)" "inst_ops fn' 3 = inst_ops sample_fn 3"
    using f(2) by (simp_all add: sample_live)
  then show ?thesis using f(1) by (auto simp: inst_ops_def[of sample_fn] sample_inst mk_inst_def sample_ops subarray_def)
qed

end
