(* ===== verification/Fold.thy ===== *)
theory Fold
  imports IR "HOL-Library.Signed_Division"
begin

text \<open>
  Constant arithmetic of the optimiser: \<^verbatim>\<open>src/opt/common.c\<close> and the folding functions of
  \<^verbatim>\<open>src/opt/const_fold.c\<close>.  An \<^verbatim>\<open>int64_t\<close> is a \<open>64 word\<close>.  Signed overflow of \<open>+\<close>, \<open>-\<close>, \<open>*\<close> and unary minus,
  the quotient of the least integer by \<open>-1\<close> and a shift by 64 are undefined behaviour (\<open>None\<close>); a left
  shift of a signed value moves the bits, as the C compilers the project builds with document.  A folding function that
  answers false gives \<open>Some None\<close>.
\<close>

unbundle bit_operations_syntax

subsection \<open>Widths\<close>

definition ny_opt_get_type_bit_width :: "nat \<Rightarrow> nat" where
  "ny_opt_get_type_bit_width type_id =
     (if type_id = 1 then 8
      else if type_id = 2 then 16
      else if type_id = 3 then 32
      else if type_id = 4 then 64
      else if type_id = 9 then 64
      else if type_id = 6 then 16
      else if type_id = 7 then 32
      else if type_id = 8 then 64
      else 32)"

definition int_range :: "int \<Rightarrow> 64 word option" where
  "int_range r = (if - 9223372036854775808 \<le> r \<and> r < 9223372036854775808 then Some (word_of_int r) else None)"

definition ny_opt_mask_to_width :: "64 word \<Rightarrow> nat \<Rightarrow> 64 word option" where
  "ny_opt_mask_to_width val width =
     (if width \<ge> 64 then Some val
      else do { mask \<leftarrow> int_range (sint (push_bit width 1 :: 64 word) - 1); Some (val AND mask) })"

definition ny_opt_sign_extend_width :: "64 word \<Rightarrow> nat \<Rightarrow> 64 word option" where
  "ny_opt_sign_extend_width val width =
     (if width \<ge> 64 then Some val
      else let shift = 64 - width in
           if shift \<ge> 64 then None else Some (signed_drop_bit shift (push_bit shift val)))"

definition ny_opt_get_operand_const_int :: "ny_function \<Rightarrow> ny_operand \<Rightarrow> 64 word option option" where
  "ny_opt_get_operand_const_int fn op =
     (case op of
        OpInt n \<Rightarrow> Some (Some n)
      | OpValue val \<Rightarrow>
          (case ny_function_get_value fn val of
             None \<Rightarrow> Some None
           | Some v \<Rightarrow>
               if v_kind v = NY_VAL_INSTRUCTION \<and> v_def v \<noteq> NY_INVALID_INST then
                 (case ny_function_get_instruction fn (v_def v) of
                    None \<Rightarrow> Some None
                  | Some def_inst \<Rightarrow>
                      if i_opcode def_inst = NY_OPCODE_CONST \<and> i_op_count def_inst = 1 then do {
                        op0 \<leftarrow> op_at fn (ny_function_get_operands fn def_inst) 0;
                        Some (case op0 of OpInt n \<Rightarrow> Some n | _ \<Rightarrow> None)
                      } else Some None)
               else Some None)
      | _ \<Rightarrow> Some None)"

definition ny_opt_get_operand_const_float :: "ny_function \<Rightarrow> ny_operand \<Rightarrow> 64 word option option" where
  "ny_opt_get_operand_const_float fn op =
     (case op of
        OpFloat n \<Rightarrow> Some (Some n)
      | OpValue val \<Rightarrow>
          (case ny_function_get_value fn val of
             None \<Rightarrow> Some None
           | Some v \<Rightarrow>
               if v_kind v = NY_VAL_INSTRUCTION \<and> v_def v \<noteq> NY_INVALID_INST then
                 (case ny_function_get_instruction fn (v_def v) of
                    None \<Rightarrow> Some None
                  | Some def_inst \<Rightarrow>
                      if i_opcode def_inst = NY_OPCODE_CONST \<and> i_op_count def_inst = 1 then do {
                        op0 \<leftarrow> op_at fn (ny_function_get_operands fn def_inst) 0;
                        Some (case op0 of OpFloat n \<Rightarrow> Some n | _ \<Rightarrow> None)
                      } else Some None)
               else Some None)
      | _ \<Rightarrow> Some None)"

definition ny_opt_is_commutative :: "ny_opcode \<Rightarrow> bool" where
  "ny_opt_is_commutative op \<longleftrightarrow> op \<in> {NY_OPCODE_ADD, NY_OPCODE_MUL, NY_OPCODE_FADD, NY_OPCODE_FMUL, NY_OPCODE_AND,
     NY_OPCODE_OR, NY_OPCODE_XOR, NY_OPCODE_CMP_EQ, NY_OPCODE_CMP_NE, NY_OPCODE_FCMP_EQ, NY_OPCODE_FCMP_NE}"

subsection \<open>Folding integers\<close>

definition ny_fold_int_unary :: "ny_opcode \<Rightarrow> 64 word \<Rightarrow> nat \<Rightarrow> 64 word option option" where
  "ny_fold_int_unary op a width =
     (if op = NY_OPCODE_NEG then do {
        n \<leftarrow> int_range (- sint a); v \<leftarrow> ny_opt_sign_extend_width n width; Some (Some v) }
      else if op = NY_OPCODE_NOT then do {
        v \<leftarrow> ny_opt_sign_extend_width (NOT a) width; Some (Some v) }
      else Some None)"

definition INT64_MIN :: "64 word" where
  "INT64_MIN = word_of_int (- 9223372036854775808)"

definition ny_fold_int_binary :: "ny_opcode \<Rightarrow> 64 word \<Rightarrow> 64 word \<Rightarrow> nat \<Rightarrow> 64 word option option" where
  "ny_fold_int_binary op a b width0 =
     (let width = (if width0 = 0 then 32 else width0);
          sh = u32 (unat b) mod width;
          done = (\<lambda>r. do { v \<leftarrow> ny_opt_sign_extend_width r width; Some (Some v) })
      in if op = NY_OPCODE_ADD then do { r \<leftarrow> int_range (sint a + sint b); done r }
      else if op = NY_OPCODE_SUB then do { r \<leftarrow> int_range (sint a - sint b); done r }
      else if op = NY_OPCODE_MUL then do { r \<leftarrow> int_range (sint a * sint b); done r }
      else if op = NY_OPCODE_DIV_S then
        (if b = 0 then Some None
         else if width = 64 \<and> a = INT64_MIN \<and> b = - 1 then Some None
         else do { r \<leftarrow> int_range (sint a sdiv sint b); done r })
      else if op = NY_OPCODE_DIV_U then do {
         ub \<leftarrow> ny_opt_mask_to_width b width;
         if ub = 0 then Some None
         else do { ua \<leftarrow> ny_opt_mask_to_width a width; done (ua div ub) } }
      else if op = NY_OPCODE_REM_S then
        (if b = 0 then Some None
         else do { _ \<leftarrow> int_range (sint a sdiv sint b); done (word_of_int (sint a smod sint b)) })
      else if op = NY_OPCODE_REM_U then do {
         ub \<leftarrow> ny_opt_mask_to_width b width;
         if ub = 0 then Some None
         else do { ua \<leftarrow> ny_opt_mask_to_width a width; done (ua mod ub) } }
      else if op = NY_OPCODE_AND then Some (Some (a AND b))
      else if op = NY_OPCODE_OR then Some (Some (a OR b))
      else if op = NY_OPCODE_XOR then Some (Some (a XOR b))
      else if op = NY_OPCODE_SHL then done (push_bit sh a)
      else if op = NY_OPCODE_SHR then do { ua \<leftarrow> ny_opt_mask_to_width a width; done (drop_bit sh ua) }
      else if op = NY_OPCODE_SAR then do { sa \<leftarrow> ny_opt_sign_extend_width a width; done (signed_drop_bit sh sa) }
      else if op = NY_OPCODE_ROTL then do {
         ua \<leftarrow> ny_opt_mask_to_width a width;
         done (if sh = 0 then ua else push_bit sh ua OR drop_bit (width - sh) ua) }
      else if op = NY_OPCODE_ROTR then do {
         ua \<leftarrow> ny_opt_mask_to_width a width;
         done (if sh = 0 then ua else drop_bit sh ua OR push_bit (width - sh) ua) }
      else Some None)"

definition c_bool :: "bool \<Rightarrow> 64 word option option" where
  "c_bool b = Some (Some (if b then 1 else 0))"

definition ny_fold_int_cmp :: "ny_opcode \<Rightarrow> 64 word \<Rightarrow> 64 word \<Rightarrow> nat \<Rightarrow> 64 word option option" where
  "ny_fold_int_cmp op a b width0 = do {
     let width = (if width0 = 0 then 32 else width0);
     sa \<leftarrow> ny_opt_sign_extend_width a width;
     sb \<leftarrow> ny_opt_sign_extend_width b width;
     ua \<leftarrow> ny_opt_mask_to_width a width;
     ub \<leftarrow> ny_opt_mask_to_width b width;
     if op = NY_OPCODE_CMP_EQ then c_bool (sa = sb)
     else if op = NY_OPCODE_CMP_NE then c_bool (sa \<noteq> sb)
     else if op = NY_OPCODE_CMP_LT_S then c_bool (sint sa < sint sb)
     else if op = NY_OPCODE_CMP_LT_U then c_bool (ua < ub)
     else if op = NY_OPCODE_CMP_LE_S then c_bool (sint sa \<le> sint sb)
     else if op = NY_OPCODE_CMP_LE_U then c_bool (ua \<le> ub)
     else if op = NY_OPCODE_CMP_GT_S then c_bool (sint sa > sint sb)
     else if op = NY_OPCODE_CMP_GT_U then c_bool (ua > ub)
     else if op = NY_OPCODE_CMP_GE_S then c_bool (sint sa \<ge> sint sb)
     else if op = NY_OPCODE_CMP_GE_U then c_bool (ua \<ge> ub)
     else Some None
   }"

subsection \<open>Folding floats\<close>

text \<open>
  Comparison and negation of doubles work on the IEEE 754 bits.  The arithmetic of the host's
  floating-point unit is a parameter; the conversion to an integer is undefined out of range.
\<close>

record host_fpu =
  h_add :: "64 word \<Rightarrow> 64 word \<Rightarrow> 64 word"
  h_sub :: "64 word \<Rightarrow> 64 word \<Rightarrow> 64 word"
  h_mul :: "64 word \<Rightarrow> 64 word \<Rightarrow> 64 word"
  h_div :: "64 word \<Rightarrow> 64 word \<Rightarrow> 64 word"
  h_of_int :: "64 word \<Rightarrow> 64 word"
  h_to_int :: "64 word \<Rightarrow> 64 word option"

definition f_magnitude :: "64 word \<Rightarrow> nat" where
  "f_magnitude x = unat (take_bit 63 x)"

definition f_isnan :: "64 word \<Rightarrow> bool" where
  "f_isnan x \<longleftrightarrow> f_magnitude x > 9218868437227405312"

definition f_key :: "64 word \<Rightarrow> int" where
  "f_key x = (if bit x 63 then - int (f_magnitude x) else int (f_magnitude x))"

definition f_eq :: "64 word \<Rightarrow> 64 word \<Rightarrow> bool" where
  "f_eq a b \<longleftrightarrow> \<not> f_isnan a \<and> \<not> f_isnan b \<and> f_key a = f_key b"

definition f_lt :: "64 word \<Rightarrow> 64 word \<Rightarrow> bool" where
  "f_lt a b \<longleftrightarrow> \<not> f_isnan a \<and> \<not> f_isnan b \<and> f_key a < f_key b"

definition f_le :: "64 word \<Rightarrow> 64 word \<Rightarrow> bool" where
  "f_le a b \<longleftrightarrow> \<not> f_isnan a \<and> \<not> f_isnan b \<and> f_key a \<le> f_key b"

definition ny_fold_float_unary :: "ny_opcode \<Rightarrow> 64 word \<Rightarrow> 64 word option" where
  "ny_fold_float_unary op a = (if op = NY_OPCODE_FNEG then Some (flip_bit 63 a) else None)"

definition ny_fold_float_binary :: "host_fpu \<Rightarrow> ny_opcode \<Rightarrow> 64 word \<Rightarrow> 64 word \<Rightarrow> 64 word option" where
  "ny_fold_float_binary h op a b =
     (if op = NY_OPCODE_FADD then Some (h_add h a b)
      else if op = NY_OPCODE_FSUB then Some (h_sub h a b)
      else if op = NY_OPCODE_FMUL then Some (h_mul h a b)
      else if op = NY_OPCODE_FDIV then (if f_eq b 0 then None else Some (h_div h a b))
      else None)"

definition ny_fold_float_cmp :: "ny_opcode \<Rightarrow> 64 word \<Rightarrow> 64 word \<Rightarrow> 64 word option" where
  "ny_fold_float_cmp op a b =
     (if op = NY_OPCODE_FCMP_EQ then Some (if f_eq a b then 1 else 0)
      else if op = NY_OPCODE_FCMP_NE then Some (if \<not> f_eq a b then 1 else 0)
      else if op = NY_OPCODE_FCMP_LT then Some (if f_lt a b then 1 else 0)
      else if op = NY_OPCODE_FCMP_LE then Some (if f_le a b then 1 else 0)
      else if op = NY_OPCODE_FCMP_GT then Some (if f_lt b a then 1 else 0)
      else if op = NY_OPCODE_FCMP_GE then Some (if f_le b a then 1 else 0)
      else None)"

subsection \<open>Values at a width\<close>

definition normal :: "nat \<Rightarrow> 64 word \<Rightarrow> bool" where
  "normal w a \<longleftrightarrow> signed_take_bit (w - 1) a = a"

abbreviation widths :: "nat set" where
  "widths \<equiv> {8, 16, 32, 64}"

lemma mask_to_width:
  assumes "w \<in> widths"
  shows "ny_opt_mask_to_width v w = Some (take_bit w v)"
proof (cases "w = 64")
  case True
  have "take_bit 64 v = v" by (rule bit_word_eqI) (simp add: bit_take_bit_iff)
  then show ?thesis using True by (simp add: ny_opt_mask_to_width_def)
next
  case False
  then have "w = 8 \<or> w = 16 \<or> w = 32" using assms by simp
  then show ?thesis by (elim disjE) (simp_all add: ny_opt_mask_to_width_def int_range_def take_bit_eq_mask mask_eq_exp_minus_1)
qed

lemma sign_extend_width:
  assumes "0 < w"
  shows "ny_opt_sign_extend_width v w = Some (signed_take_bit (w - 1) v)"
proof (cases "64 \<le> w")
  case True
  have "signed_take_bit (w - 1) v = v"
  proof (rule bit_word_eqI)
    fix n assume "n < LENGTH(64)"
    then have n: "n < 64" by simp
    then have "w - 1 \<le> n \<Longrightarrow> w - 1 = n" using True by simp
    then show "bit (signed_take_bit (w - 1) v) n = bit v n" using n by (auto simp: bit_signed_take_bit_iff min_def)
  qed
  then show ?thesis using True by (simp add: ny_opt_sign_extend_width_def)
next
  case False
  have "signed_drop_bit (64 - w) (push_bit (64 - w) v) = signed_take_bit (w - 1) v"
  proof (rule bit_word_eqI)
    fix n assume "n < LENGTH(64)"
    then have n: "n < 64" by simp
    consider "n < w - 1" | "n = w - 1" | "w \<le> n" by linarith
    then show "bit (signed_drop_bit (64 - w) (push_bit (64 - w) v)) n = bit (signed_take_bit (w - 1) v) n"
      by cases (use assms False n in \<open>auto simp: bit_signed_drop_bit_iff bit_push_bit_iff bit_signed_take_bit_iff min_def\<close>)
  qed
  then show ?thesis using assms False by (simp add: ny_opt_sign_extend_width_def Let_def)
qed


lemma widths_pos: "w \<in> widths \<Longrightarrow> 0 < w" "w \<in> widths \<Longrightarrow> w \<le> 64"
  by auto

lemma normal_bounds:
  assumes "normal w a" "0 < w" "w \<le> 64"
  shows "- (2 ^ (w - 1)) \<le> sint a" "sint a < 2 ^ (w - 1)"
proof -
  have e: "a = word_of_int (signed_take_bit (w - 1) (sint a))"
  proof (rule bit_word_eqI)
    fix n assume n: "n < LENGTH(64)"
    have "bit a n = bit (signed_take_bit (w - 1) a) n" using assms(1) by (simp add: normal_def)
    also have "\<dots> = bit (signed_take_bit (w - 1) (sint a)) n"
      using n assms(2,3) by (auto simp: bit_signed_take_bit_iff bit_sint_iff min_def)
    finally show "bit a n = bit (word_of_int (signed_take_bit (w - 1) (sint a)) :: 64 word) n" using n by (simp add: bit_of_int_iff)
  qed
  have b: "- (2 ^ (w - 1)) \<le> signed_take_bit (w - 1) (sint a)" "signed_take_bit (w - 1) (sint a) < 2 ^ (w - 1)"
    by (simp_all add: signed_take_bit_int_greater_eq_minus_exp signed_take_bit_int_less_exp)
  have p: "(2 :: int) ^ (w - 1) \<le> 2 ^ 63" using assms(2,3) by (intro power_increasing) auto
  have "(signed_take_bit (w - 1) (sint a) + 9223372036854775808) mod 18446744073709551616
      = signed_take_bit (w - 1) (sint a) + 9223372036854775808"
  proof (rule mod_pos_pos_trivial)
    have "(2 :: int) ^ 63 = 9223372036854775808" by simp
    then show "0 \<le> signed_take_bit (w - 1) (sint a) + 9223372036854775808"
      "signed_take_bit (w - 1) (sint a) + 9223372036854775808 < 18446744073709551616" using b p by linarith+
  qed
  then have "sint (word_of_int (signed_take_bit (w - 1) (sint a)) :: 64 word) = signed_take_bit (w - 1) (sint a)"
    by (simp add: int_word_sint)
  then have "sint a = signed_take_bit (w - 1) (sint a)" using e by simp
  then show "- (2 ^ (w - 1)) \<le> sint a" "sint a < 2 ^ (w - 1)" using b by auto
qed

lemma small_width_bounds:
  assumes "w \<in> widths" "w \<noteq> 64" "normal w a"
  shows "- 2147483648 \<le> sint a" "sint a < 2147483648"
proof -
  have "(2 :: int) ^ (w - 1) \<le> 2 ^ 31" using assms by (intro power_increasing) auto
  then show "- 2147483648 \<le> sint a" "sint a < 2147483648" using normal_bounds[OF assms(3)] assms(1) by auto
qed

lemma int_range_Some: "- 9223372036854775808 \<le> r \<Longrightarrow> r < 9223372036854775808 \<Longrightarrow> int_range r = Some (word_of_int r)"
  by (simp add: int_range_def)

lemma shift_amount:
  assumes "w \<in> widths"
  shows "u32 (unat b) mod w = nat (uint (take_bit w b) mod int w)"
proof -
  have "u32 (unat b) mod w = unat b mod w" using assms unfolding u32_def by (auto simp: mod_mod_cancel)
  moreover have "unat (take_bit w b) mod w = unat b mod w"
  proof -
    have "w dvd 2 ^ w" using assms by auto
    moreover have "unat (take_bit w b) = unat b mod 2 ^ w"
      by (rule trans[OF unsigned_take_bit_eq take_bit_eq_mod])
    ultimately show ?thesis by (simp only: mod_mod_cancel)
  qed
  moreover have "nat (uint (take_bit w b) mod int w) = unat (take_bit w b) mod w"
    by (subst nat_mod_distrib) (simp_all only: unat_eq_nat_uint nat_int uint_nonnegative of_nat_0_le_iff)
  ultimately show ?thesis by simp
qed

subsection \<open>What the operations of the intermediate representation compute\<close>

text \<open>
  The result of a binary operation at width \<open>w\<close> as an integer, to be read modulo \<open>2 ^ w\<close>, from the
  signed and the unsigned values of the operands; \<open>None\<close> is a trap or an opcode that is no such operation.
\<close>

definition sval :: "nat \<Rightarrow> 64 word \<Rightarrow> int" where
  "sval w a = sint (signed_take_bit (w - 1) a)"

definition uval :: "nat \<Rightarrow> 64 word \<Rightarrow> int" where
  "uval w a = uint (take_bit w a)"

definition int_sem :: "ny_opcode \<Rightarrow> nat \<Rightarrow> 64 word \<Rightarrow> 64 word \<Rightarrow> int option" where
  "int_sem op w a b =
     (let x = sval w a; y = sval w b; ux = uval w a; uy = uval w b; k = nat (uy mod int w)
      in if op = NY_OPCODE_ADD then Some (x + y)
      else if op = NY_OPCODE_SUB then Some (x - y)
      else if op = NY_OPCODE_MUL then Some (x * y)
      else if op = NY_OPCODE_DIV_S then (if y = 0 then None else Some (x sdiv y))
      else if op = NY_OPCODE_DIV_U then (if uy = 0 then None else Some (ux div uy))
      else if op = NY_OPCODE_REM_S then (if y = 0 then None else Some (x smod y))
      else if op = NY_OPCODE_REM_U then (if uy = 0 then None else Some (ux mod uy))
      else if op = NY_OPCODE_AND then Some (x AND y)
      else if op = NY_OPCODE_OR then Some (x OR y)
      else if op = NY_OPCODE_XOR then Some (x XOR y)
      else if op = NY_OPCODE_SHL then Some (x * 2 ^ k)
      else if op = NY_OPCODE_SHR then Some (ux div 2 ^ k)
      else if op = NY_OPCODE_SAR then Some (x div 2 ^ k)
      else if op = NY_OPCODE_ROTL then Some (ux * 2 ^ k + ux div 2 ^ (w - k))
      else if op = NY_OPCODE_ROTR then Some (ux div 2 ^ k + ux * 2 ^ (w - k))
      else None)"

text \<open>The inputs on which the C arithmetic itself is undefined.\<close>

definition int_overflow :: "ny_opcode \<Rightarrow> 64 word \<Rightarrow> 64 word \<Rightarrow> bool" where
  "int_overflow op a b \<longleftrightarrow>
     (op = NY_OPCODE_ADD \<and> int_range (sint a + sint b) = None)
   \<or> (op = NY_OPCODE_SUB \<and> int_range (sint a - sint b) = None)
   \<or> (op = NY_OPCODE_MUL \<and> int_range (sint a * sint b) = None)
   \<or> (op = NY_OPCODE_REM_S \<and> a = INT64_MIN \<and> b = - 1)"

lemma normal_sval: "normal w a \<Longrightarrow> sval w a = sint a"
  by (simp add: sval_def normal_def)

lemma normal_and: "normal w a \<Longrightarrow> normal w b \<Longrightarrow> normal w (a AND b)"
  "normal w a \<Longrightarrow> normal w b \<Longrightarrow> normal w (a OR b)"
  "normal w a \<Longrightarrow> normal w b \<Longrightarrow> normal w (a XOR b)"
proof -
  have "bit (signed_take_bit (w - 1) (a AND b)) n = (bit (signed_take_bit (w - 1) a) n \<and> bit (signed_take_bit (w - 1) b) n)"
    "bit (signed_take_bit (w - 1) (a OR b)) n = (bit (signed_take_bit (w - 1) a) n \<or> bit (signed_take_bit (w - 1) b) n)"
    "bit (signed_take_bit (w - 1) (a XOR b)) n = (bit (signed_take_bit (w - 1) a) n \<noteq> bit (signed_take_bit (w - 1) b) n)"
    if "n < 64" for n
    using that by (auto simp: bit_signed_take_bit_iff bit_and_iff bit_or_iff bit_xor_iff)
  note bits = this
  show "normal w a \<Longrightarrow> normal w b \<Longrightarrow> normal w (a AND b)" "normal w a \<Longrightarrow> normal w b \<Longrightarrow> normal w (a OR b)"
    "normal w a \<Longrightarrow> normal w b \<Longrightarrow> normal w (a XOR b)"
    unfolding normal_def by (rule bit_word_eqI, simp only: bits len_num1 len_bit0 len_bit1, simp add: bits bit_and_iff bit_or_iff bit_xor_iff)+
qed

lemma small_arith_in_range:
  assumes "w \<in> widths" "w \<noteq> 64" "normal w a" "normal w b"
  shows "int_range (sint a + sint b) \<noteq> None" "int_range (sint a - sint b) \<noteq> None" "int_range (sint a * sint b) \<noteq> None"
proof -
  note ba = small_width_bounds[OF assms(1-3)] and bb = small_width_bounds[OF assms(1,2,4)]
  show "int_range (sint a + sint b) \<noteq> None" "int_range (sint a - sint b) \<noteq> None" using ba bb by (simp_all add: int_range_def)
  have "\<bar>sint a * sint b\<bar> \<le> 2147483648 * 2147483648"
    unfolding abs_mult by (rule mult_mono) (use ba bb in auto)
  then have "- 4611686018427387904 \<le> sint a * sint b" "sint a * sint b \<le> 4611686018427387904" by linarith+
  then show "int_range (sint a * sint b) \<noteq> None" by (simp add: int_range_def)
qed

lemma word_of_sint: "(word_of_int (sint a) :: 64 word) = a"
  by simp

lemma word_of_uint: "(word_of_int (uint a) :: 64 word) = a"
  by simp

lemma sdiv_in_range:
  fixes a b :: "64 word"
  assumes "\<not> (a = INT64_MIN \<and> b = - 1)" "b \<noteq> 0"
  shows "int_range (sint a sdiv sint b) \<noteq> None"
proof -
  have a: "- 9223372036854775808 \<le> sint a" "sint a < 9223372036854775808"
    using sint_ge[of a] sint_lt[of a] by simp_all
  have q: "- \<bar>sint a\<bar> \<le> sint a sdiv sint b" "sint a sdiv sint b \<le> \<bar>sint a\<bar>" using sdiv_int_range[of "sint a" "sint b"] by auto
  show ?thesis
  proof (cases "sint a = - 9223372036854775808")
    case True
    then have "a = INT64_MIN" using word_of_sint[of a] by (simp add: INT64_MIN_def)
    moreover have "b = - 1" if "sint b = - 1"
    proof -
      have "word_of_int (sint b) = (- 1 :: 64 word)" using that by simp
      then show ?thesis by (simp only: word_of_sint)
    qed
    ultimately have "sint b \<noteq> - 1" using assms(1) by auto
    then have "sint a sdiv sint b \<noteq> - sint a" using True by (subst int_sdiv_negated_is_minus1) auto
    then show ?thesis using q True by (simp add: int_range_def)
  next
    case False
    then have "\<bar>sint a\<bar> < 9223372036854775808" using a by linarith
    then have "- 9223372036854775808 \<le> sint a sdiv sint b" "sint a sdiv sint b < 9223372036854775808" using q by linarith+
    then show ?thesis by (simp add: int_range_def)
  qed
qed

lemma sdiv_overflow: "int_range (sint INT64_MIN sdiv sint (- 1 :: 64 word)) = None"
  by (simp add: INT64_MIN_def int_range_def)

lemma word_shift_facts:
  fixes a :: "64 word"
  shows "push_bit k a = word_of_int (sint a * 2 ^ k)" "drop_bit k a = word_of_int (uint a div 2 ^ k)"
    "signed_drop_bit k a = word_of_int (sint a div 2 ^ k)" "push_bit k a = word_of_int (uint a * 2 ^ k)"
proof -
  show "push_bit k a = word_of_int (sint a * 2 ^ k)" "push_bit k a = word_of_int (uint a * 2 ^ k)"
    by (simp_all add: push_bit_eq_mult)
  have "uint (drop_bit k a) = uint a div 2 ^ k" 
    using take_bit_int_eq_self[of "uint a" 64] uint_lt2p[of a] by (simp only: unsigned_drop_bit_eq) (simp add: drop_bit_eq_div)
  then show "drop_bit k a = word_of_int (uint a div 2 ^ k)" using word_of_uint[of "drop_bit k a"] by (simp only:)
  have "sint (signed_drop_bit k a) = sint a div 2 ^ k" by (simp add: sint_signed_drop_bit_eq drop_bit_eq_div)
  then show "signed_drop_bit k a = word_of_int (sint a div 2 ^ k)" using word_of_sint[of "signed_drop_bit k a"] by (simp only:)
qed

lemma word_or_add:
  fixes a b :: "64 word"
  assumes "\<And>n. \<not> (bit a n \<and> bit b n)"
  shows "a OR b = a + b"
proof (rule disjunctive_add[symmetric])
  show "\<not> bit a n \<or> \<not> bit b n" for n using assms by blast
qed

lemma rotl_word:
  assumes "k < w" "w \<le> 64" "u = take_bit w (a :: 64 word)"
  shows "push_bit k u OR drop_bit (w - k) u = word_of_int (uint u * 2 ^ k + uint u div 2 ^ (w - k))"
proof -
  have "push_bit k u OR drop_bit (w - k) u = push_bit k u + drop_bit (w - k) u"
    by (rule word_or_add) (use assms in \<open>auto simp: bit_push_bit_iff bit_drop_bit_eq bit_take_bit_iff\<close>)
  then show ?thesis by (simp add: word_shift_facts(4) word_shift_facts(2))
qed

lemma rotr_word:
  assumes "k < w" "w \<le> 64" "u = take_bit w (a :: 64 word)"
  shows "drop_bit k u OR push_bit (w - k) u = word_of_int (uint u div 2 ^ k + uint u * 2 ^ (w - k))"
proof -
  have "drop_bit k u OR push_bit (w - k) u = drop_bit k u + push_bit (w - k) u"
    by (rule word_or_add) (use assms in \<open>auto simp: bit_push_bit_iff bit_drop_bit_eq bit_take_bit_iff\<close>)
  then show ?thesis by (simp add: word_shift_facts(4) word_shift_facts(2))
qed

lemma stb_or_push:
  fixes u :: "64 word"
  assumes "0 < w" "w \<le> 64"
  shows "signed_take_bit (w - 1) (u OR push_bit w u) = signed_take_bit (w - 1) u"
  by (rule bit_word_eqI) (use assms in \<open>auto simp: bit_signed_take_bit_iff bit_or_iff bit_push_bit_iff min_def\<close>)

lemma uint_take_bit_zero: "take_bit w (b :: 64 word) = 0 \<longleftrightarrow> uval w b = 0"
  by (simp add: uval_def uint_0_iff)

lemma word_div_mod:
  fixes a b :: "64 word"
  shows "a div b = word_of_int (uint a div uint b)" "a mod b = word_of_int (uint a mod uint b)"
  by (simp_all add: word_div_def word_mod_def)

lemma sint_logic:
  fixes a b :: "64 word"
  shows "word_of_int (sint a AND sint b) = a AND b" "word_of_int (sint a OR sint b) = a OR b"
    "word_of_int (sint a XOR sint b) = a XOR b"
  by (simp_all add: of_int_and_eq of_int_or_eq of_int_xor_eq)

lemma fold_int_binary_sound:
  assumes w: "w \<in> widths" and a: "normal w a" and b: "normal w b"
  shows "case ny_fold_int_binary op a b w of
      Some (Some v) \<Rightarrow> \<exists>r. int_sem op w a b = Some r \<and> v = signed_take_bit (w - 1) (word_of_int r)
    | Some None \<Rightarrow> int_sem op w a b = None \<or> op = NY_OPCODE_DIV_S \<and> w = 64 \<and> a = INT64_MIN \<and> b = - 1
    | None \<Rightarrow> w = 64 \<and> int_overflow op a b"
proof -
  have w0: "0 < w" "w \<le> 64" "w \<noteq> 0" using w by auto
  note se = sign_extend_width[OF w0(1)] and mk = mask_to_width[OF w]
  note sv = normal_sval[OF a] normal_sval[OF b]
  let ?k = "u32 (unat b) mod w"
  have k: "?k = nat (uval w b mod int w)" using shift_amount[OF w, of b] by (simp add: uval_def)
  have k_lt: "?k < w" using w0 by simp
  have nz: "b = 0 \<longleftrightarrow> sint b = 0" by (simp add: signed_eq_0_iff)
  note defs = ny_fold_int_binary_def int_sem_def int_overflow_def Let_def se mk w0 sv k
  have small: "w \<noteq> 64 \<Longrightarrow> int_range (sint a + sint b) \<noteq> None \<and> int_range (sint a - sint b) \<noteq> None \<and> int_range (sint a * sint b) \<noteq> None"
    using small_arith_in_range[OF w _ a b] by blast
  have rng: "int_range r = Some v \<Longrightarrow> v = word_of_int r" for r v by (auto simp: int_range_def split: if_splits)
  have div64: "a = INT64_MIN \<Longrightarrow> w = 64"
  proof (rule ccontr)
    assume m: "a = INT64_MIN" "w \<noteq> 64"
    have "sint a = - 9223372036854775808" unfolding m(1) INT64_MIN_def by (simp add: int_word_sint)
    then show False using small_width_bounds[OF w m(2) a] by simp
  qed
  consider "op = NY_OPCODE_ADD" | "op = NY_OPCODE_SUB" | "op = NY_OPCODE_MUL" | "op = NY_OPCODE_DIV_S" | "op = NY_OPCODE_DIV_U"
    | "op = NY_OPCODE_REM_S" | "op = NY_OPCODE_REM_U" | "op = NY_OPCODE_AND" | "op = NY_OPCODE_OR" | "op = NY_OPCODE_XOR"
    | "op = NY_OPCODE_SHL" | "op = NY_OPCODE_SHR" | "op = NY_OPCODE_SAR" | "op = NY_OPCODE_ROTL" | "op = NY_OPCODE_ROTR"
    | "op \<notin> {NY_OPCODE_ADD, NY_OPCODE_SUB, NY_OPCODE_MUL, NY_OPCODE_DIV_S, NY_OPCODE_DIV_U, NY_OPCODE_REM_S, NY_OPCODE_REM_U,
        NY_OPCODE_AND, NY_OPCODE_OR, NY_OPCODE_XOR, NY_OPCODE_SHL, NY_OPCODE_SHR, NY_OPCODE_SAR, NY_OPCODE_ROTL, NY_OPCODE_ROTR}"
    by blast
  then show ?thesis
  proof cases
    case 1
    then show ?thesis using small by (cases "int_range (sint a + sint b)") (auto simp: defs dest: rng)
  next
    case 2
    then show ?thesis using small by (cases "int_range (sint a - sint b)") (auto simp: defs dest: rng)
  next
    case 3
    then show ?thesis using small by (cases "int_range (sint a * sint b)") (auto simp: defs dest: rng)
  next
    case 4
    then show ?thesis
    proof (cases "b = 0 \<or> (a = INT64_MIN \<and> b = - 1)")
      case False
      then obtain v where v: "int_range (sint a sdiv sint b) = Some v" using sdiv_in_range[of a b] by auto
      then have "v = word_of_int (sint a sdiv sint b)" by (rule rng)
      then show ?thesis using 4 False nz v by (auto simp: defs)
    qed (use 4 nz div64 in \<open>auto simp: defs\<close>)
  next
    case 5
    then show ?thesis by (simp add: defs uint_take_bit_zero word_div_mod uval_def)
  next
    case 6
    then show ?thesis
    proof (cases "b = 0 \<or> (a = INT64_MIN \<and> b = - 1)")
      case False
      then obtain v where v: "int_range (sint a sdiv sint b) = Some v" using sdiv_in_range[of a b] by auto
      then show ?thesis using 6 False nz by (auto simp: defs)
    qed (use 6 nz div64 sdiv_overflow in \<open>auto simp: defs\<close>)
  next
    case 7
    then show ?thesis by (simp add: defs uint_take_bit_zero word_div_mod uval_def)
  next
    case 8
    then show ?thesis using normal_and(1)[OF a b] by (simp add: defs sint_logic normal_def)
  next
    case 9
    then show ?thesis using normal_and(2)[OF a b] by (simp add: defs sint_logic normal_def)
  next
    case 10
    then show ?thesis using normal_and(3)[OF a b] by (simp add: defs sint_logic normal_def)
  next
    case 11
    then show ?thesis by (simp add: defs word_shift_facts(1))
  next
    case 12
    then show ?thesis by (simp add: defs word_shift_facts(2) uval_def)
  next
    case 13
    then show ?thesis using a by (simp add: defs word_shift_facts(3) normal_def)
  next
    case 14
    have "uint (take_bit w a) div 2 ^ w = 0"
      using take_bit_int_less_exp[of w "uint a"] by (simp add: unsigned_take_bit_eq)
    then show ?thesis using 14 rotl_word[OF k_lt w0(2) refl, of a] by (simp add: defs uval_def)
  next
    case 15
    have "signed_take_bit (w - 1) (word_of_int (uint (take_bit w a) div 2 ^ 0 + uint (take_bit w a) * 2 ^ w)) =
        signed_take_bit (w - 1) (take_bit w a)"
      using rotr_word[of 0 w "take_bit w a" a] stb_or_push[OF w0(1,2), of "take_bit w a"] w0 by (simp del: of_int_add)
    then show ?thesis using 15 rotr_word[OF k_lt w0(2) refl, of a] by (simp add: defs uval_def)
  next
    case 16
    then show ?thesis by (simp add: defs)
  qed
qed

text \<open>
  C31. Folding a binary integer operation of 8, 16, 32 or 64 bits on constants that are
  sign-extended from that width: a returned value is the exact result reduced to the width and
  sign-extended; the folder declines only on a trap, an opcode that is no integer operation or
  the overflowing 64-bit signed division; its own C arithmetic is undefined only for 64-bit sums,
  differences and products out of range and for the remainder of the least 64-bit integer by \<open>-1\<close>.
\<close>

theorem fold_int_binary_correct:
  assumes w: "w \<in> widths" and a: "normal w a" and b: "normal w b"
  shows "case ny_fold_int_binary op a b w of
      Some (Some v) \<Rightarrow> \<exists>r. int_sem op w a b = Some r \<and> v = signed_take_bit (w - 1) (word_of_int r)
    | Some None \<Rightarrow> int_sem op w a b = None \<or> op = NY_OPCODE_DIV_S \<and> w = 64 \<and> a = INT64_MIN \<and> b = - 1
    | None \<Rightarrow> w = 64 \<and> int_overflow op a b"
  using assms by (rule fold_int_binary_sound)

theorem fold_int_binary_correct_witness:
  "\<exists>v. ny_fold_int_binary NY_OPCODE_ADD 100 100 8 = Some (Some v) \<and> v = signed_take_bit 7 (word_of_int 200)"
proof -
  have n: "normal 8 (100 :: 64 word)" by (simp add: normal_def signed_take_bit_eq_if_positive bit_numeral_rec)
  have s: "sval 8 100 = 100" using normal_sval[OF n] by simp
  have sem: "int_sem NY_OPCODE_ADD 8 100 100 = Some 200" by (simp add: int_sem_def s)
  show ?thesis using fold_int_binary_correct[OF _ n n, of NY_OPCODE_ADD] sem
    by (cases "ny_fold_int_binary NY_OPCODE_ADD 100 100 8") (auto split: option.splits)
qed

text \<open>
  The signed arithmetic of the folder has no guard for the remainder: folding the remainder of
  the least 64-bit integer by \<open>-1\<close> is undefined, while the division of the same operands is declined.
\<close>

theorem fold_rem_unguarded:
  "ny_fold_int_binary NY_OPCODE_REM_S INT64_MIN (- 1) 64 = None
   \<and> ny_fold_int_binary NY_OPCODE_DIV_S INT64_MIN (- 1) 64 = Some None"
  using sdiv_overflow by (simp add: ny_fold_int_binary_def Let_def)

text \<open>Comparisons at a width, and the unary operations.\<close>

definition int_cmp_sem :: "ny_opcode \<Rightarrow> nat \<Rightarrow> 64 word \<Rightarrow> 64 word \<Rightarrow> bool option" where
  "int_cmp_sem op w a b =
     (if op = NY_OPCODE_CMP_EQ then Some (uval w a = uval w b)
      else if op = NY_OPCODE_CMP_NE then Some (uval w a \<noteq> uval w b)
      else if op = NY_OPCODE_CMP_LT_S then Some (sval w a < sval w b)
      else if op = NY_OPCODE_CMP_LT_U then Some (uval w a < uval w b)
      else if op = NY_OPCODE_CMP_LE_S then Some (sval w a \<le> sval w b)
      else if op = NY_OPCODE_CMP_LE_U then Some (uval w a \<le> uval w b)
      else if op = NY_OPCODE_CMP_GT_S then Some (sval w a > sval w b)
      else if op = NY_OPCODE_CMP_GT_U then Some (uval w a > uval w b)
      else if op = NY_OPCODE_CMP_GE_S then Some (sval w a \<ge> sval w b)
      else if op = NY_OPCODE_CMP_GE_U then Some (uval w a \<ge> uval w b)
      else None)"

lemma word_eqI_uint: "uint a = uint b \<Longrightarrow> a = (b :: 64 word)"
  using word_of_uint[of a] word_of_uint[of b] by metis

lemma signed_eq_unsigned_eq:
  assumes "0 < w"
  shows "signed_take_bit (w - 1) a = signed_take_bit (w - 1) b \<longleftrightarrow> take_bit w a = take_bit w (b :: 64 word)"
  using signed_take_bit_eq_iff_take_bit_eq[of "w - 1" a b] assms by simp

lemma fold_int_cmp_value:
  assumes "w \<in> widths"
  shows "ny_fold_int_cmp op a b w = Some (map_option (\<lambda>c. if c then 1 else 0) (int_cmp_sem op w a b))"
proof -
  have w0: "0 < w" "w \<noteq> 0" using assms by auto
  note se = sign_extend_width[OF w0(1)] and mk = mask_to_width[OF assms]
  have u: "take_bit w a < take_bit w b \<longleftrightarrow> uval w a < uval w b" "take_bit w a \<le> take_bit w b \<longleftrightarrow> uval w a \<le> uval w b"
    "take_bit w a = take_bit w b \<longleftrightarrow> uval w a = uval w b" for a b
    by (auto simp: uval_def word_less_def word_le_def intro: word_eqI_uint)
  have e: "signed_take_bit (w - 1) a = signed_take_bit (w - 1) b \<longleftrightarrow> uval w a = uval w b"
    using signed_eq_unsigned_eq[OF w0(1), of a b] u(3) by simp
  show ?thesis unfolding ny_fold_int_cmp_def int_cmp_sem_def Let_def
    by (simp add: se mk w0 c_bool_def e u sval_def[symmetric] del: One_nat_def)
qed

text \<open>
  C32. Folding a comparison or a unary operation at a supported width: every comparison opcode is
  folded to 0 or 1 by comparing the signed or unsigned values of the operands at that width,
  whatever the constants' upper bits; negation and complement are exact at the width, and negation is
  undefined only for the least 64-bit integer.
\<close>

theorem fold_int_cmp_unary_correct:
  assumes w: "w \<in> widths"
  shows "ny_fold_int_cmp op a b w = Some (map_option (\<lambda>c. if c then 1 else 0) (int_cmp_sem op w a b))
    \<and> ny_fold_int_unary op a w =
       (if op = NY_OPCODE_NEG then
          if a = INT64_MIN then None else Some (Some (signed_take_bit (w - 1) (word_of_int (- sint a))))
        else if op = NY_OPCODE_NOT then Some (Some (signed_take_bit (w - 1) (word_of_int (- sint a - 1))))
        else Some None)"
proof (rule conjI)
  have w0: "0 < w" using w by auto
  note se = sign_extend_width[OF w0]
  show "ny_fold_int_cmp op a b w = Some (map_option (\<lambda>c. if c then 1 else 0) (int_cmp_sem op w a b))"
    using w by (rule fold_int_cmp_value)
  have neg: "int_range (- sint a) = (if a = INT64_MIN then None else Some (word_of_int (- sint a)))"
  proof (cases "sint a = - 9223372036854775808")
    case True
    then have "a = INT64_MIN" using word_of_sint[of a] by (simp add: INT64_MIN_def)
    then show ?thesis using True by (simp add: int_range_def)
  next
    case False
    then have "a \<noteq> INT64_MIN" by (auto simp: INT64_MIN_def int_word_sint)
    then show ?thesis using False sint_ge[of a] sint_lt[of a] by (simp add: int_range_def)
  qed
  have nt: "NOT a = word_of_int (- sint a - 1)" by (simp add: not_eq_complement)
  show "ny_fold_int_unary op a w =
       (if op = NY_OPCODE_NEG then
          if a = INT64_MIN then None else Some (Some (signed_take_bit (w - 1) (word_of_int (- sint a))))
        else if op = NY_OPCODE_NOT then Some (Some (signed_take_bit (w - 1) (word_of_int (- sint a - 1))))
        else Some None)"
    unfolding ny_fold_int_unary_def neg nt by (simp add: se)
qed

theorem fold_int_cmp_unary_correct_witness:
  "ny_fold_int_cmp NY_OPCODE_CMP_LT_S 255 1 8 = Some (Some 1) \<and> ny_fold_int_cmp NY_OPCODE_CMP_LT_U 255 1 8 = Some (Some 0)
   \<and> ny_fold_int_unary NY_OPCODE_NEG INT64_MIN 64 = None"
proof -
  have v: "sval 8 255 = - 1" "sval 8 1 = 1" "uval 8 255 = 255" "uval 8 1 = 1"
    by (simp_all add: sval_def uval_def signed_take_bit_eq_if_positive signed_take_bit_eq_if_negative bit_numeral_rec mask_eq_exp_minus_1)
  show ?thesis
    using fold_int_cmp_unary_correct[of 8 NY_OPCODE_CMP_LT_S 255 1] fold_int_cmp_unary_correct[of 8 NY_OPCODE_CMP_LT_U 255 1]
      fold_int_cmp_unary_correct[of 64 NY_OPCODE_NEG INT64_MIN 0] v by (simp add: int_cmp_sem_def)
qed

text \<open>
  Folding a float comparison: with a NaN operand only \<open>!=\<close> holds; otherwise exactly one of \<open><\<close>, \<open>==\<close>, \<open>>\<close>
  holds, \<open><=\<close> and \<open>>=\<close> are \<open><\<close> or \<open>==\<close> and \<open>>\<close> or \<open>==\<close>, and the two zeros are equal.
\<close>

theorem fold_float_cmp_order:
  "(f_isnan a \<or> f_isnan b \<longrightarrow>
      ny_fold_float_cmp NY_OPCODE_FCMP_NE a b = Some 1
    \<and> (\<forall>op \<in> {NY_OPCODE_FCMP_EQ, NY_OPCODE_FCMP_LT, NY_OPCODE_FCMP_LE, NY_OPCODE_FCMP_GT, NY_OPCODE_FCMP_GE}.
         ny_fold_float_cmp op a b = Some 0))
   \<and> (\<not> f_isnan a \<and> \<not> f_isnan b \<longrightarrow>
      (\<exists>!op. op \<in> {NY_OPCODE_FCMP_LT, NY_OPCODE_FCMP_EQ, NY_OPCODE_FCMP_GT} \<and> ny_fold_float_cmp op a b = Some 1)
    \<and> (ny_fold_float_cmp NY_OPCODE_FCMP_LE a b = Some 1 \<longleftrightarrow>
         ny_fold_float_cmp NY_OPCODE_FCMP_LT a b = Some 1 \<or> ny_fold_float_cmp NY_OPCODE_FCMP_EQ a b = Some 1)
    \<and> (ny_fold_float_cmp NY_OPCODE_FCMP_GE a b = Some 1 \<longleftrightarrow>
         ny_fold_float_cmp NY_OPCODE_FCMP_GT a b = Some 1 \<or> ny_fold_float_cmp NY_OPCODE_FCMP_EQ a b = Some 1))
   \<and> ny_fold_float_cmp NY_OPCODE_FCMP_EQ 0 (push_bit 63 1) = Some 1"
proof -
  have z: "f_eq 0 (push_bit 63 1)" by (simp add: f_eq_def f_isnan_def f_key_def f_magnitude_def)
  have tri: "\<exists>!op. op \<in> {NY_OPCODE_FCMP_LT, NY_OPCODE_FCMP_EQ, NY_OPCODE_FCMP_GT} \<and> ny_fold_float_cmp op a b = Some 1"
    if "\<not> f_isnan a" "\<not> f_isnan b"
  proof -
    have iff: "ny_fold_float_cmp NY_OPCODE_FCMP_LT a b = Some 1 \<longleftrightarrow> f_key a < f_key b"
      "ny_fold_float_cmp NY_OPCODE_FCMP_EQ a b = Some 1 \<longleftrightarrow> f_key a = f_key b"
      "ny_fold_float_cmp NY_OPCODE_FCMP_GT a b = Some 1 \<longleftrightarrow> f_key b < f_key a"
      using that by (simp_all add: ny_fold_float_cmp_def f_eq_def f_lt_def)
    consider "f_key a < f_key b" | "f_key a = f_key b" | "f_key b < f_key a" by linarith
    then show ?thesis
    proof cases
      case 1
      then show ?thesis by (intro ex1I[of _ NY_OPCODE_FCMP_LT]) (auto simp: iff)
    next
      case 2
      then show ?thesis by (intro ex1I[of _ NY_OPCODE_FCMP_EQ]) (auto simp: iff)
    next
      case 3
      then show ?thesis by (intro ex1I[of _ NY_OPCODE_FCMP_GT]) (auto simp: iff)
    qed
  qed
  have le: "\<not> f_isnan a \<Longrightarrow> \<not> f_isnan b \<Longrightarrow> (f_le a b \<longleftrightarrow> f_lt a b \<or> f_eq a b) \<and> (f_le b a \<longleftrightarrow> f_lt b a \<or> f_eq a b)"
    by (auto simp: f_le_def f_lt_def f_eq_def)
  show ?thesis
  proof (intro conjI impI)
    show "ny_fold_float_cmp NY_OPCODE_FCMP_EQ 0 (push_bit 63 1) = Some 1" using z by (simp add: ny_fold_float_cmp_def)
  qed (use tri le in \<open>auto simp: ny_fold_float_cmp_def f_eq_def f_lt_def f_le_def\<close>)
qed

theorem fold_float_cmp_order_witness:
  "ny_fold_float_cmp NY_OPCODE_FCMP_NE (word_of_int 9221120237041090560) 0 = Some 1
   \<and> ny_fold_float_cmp NY_OPCODE_FCMP_LT (word_of_int 9221120237041090560) 0 = Some 0"
proof -
  have "f_isnan (word_of_int 9221120237041090560)" by (simp add: f_isnan_def f_magnitude_def)
  then show ?thesis using fold_float_cmp_order[of "word_of_int 9221120237041090560" 0] by blast
qed

end
