(* ===== verification/Const_Fold.thy ===== *)
theory Const_Fold
  imports Fold IR_Examples
begin

text \<open>
  The constant-folding pass, \<^verbatim>\<open>ny_opt_pass_const_fold\<close> of \<^verbatim>\<open>src/opt/const_fold.c\<close>: one walk over the
  instruction array that turns an instruction with constant operands into a \<^verbatim>\<open>CONST\<close> in place, or
  replaces a \<^verbatim>\<open>SELECT\<close> by the operand it chooses.
\<close>

subsection \<open>The pass\<close>

text \<open>One rewriting attempt: undefined, not applicable, or the changed function.\<close>

type_synonym rewrite = "ny_function option option"

definition or_else :: "rewrite \<Rightarrow> rewrite \<Rightarrow> rewrite" where
  "or_else m k = do { r \<leftarrow> m; case r of Some fn \<Rightarrow> Some (Some fn) | None \<Rightarrow> k }"

definition make_const :: "ny_function \<Rightarrow> nat \<Rightarrow> ny_operand \<Rightarrow> ny_function option" where
  "make_const fn idx op = do {
     fn \<leftarrow> upd_inst fn idx (\<lambda>i. i\<lparr>i_opcode := NY_OPCODE_CONST\<rparr>);
     inst \<leftarrow> rd (f_insts fn) idx;
     let fn = ny_instruction_replace_operand fn (i_id inst) 0 op;
     upd_inst fn idx (\<lambda>i. i\<lparr>i_op_count := 1\<rparr>)
   }"

text \<open>Rewriting to a constant when a folder gave a value.\<close>

definition fold_to :: "ny_function \<Rightarrow> nat \<Rightarrow> ('v \<Rightarrow> ny_operand) \<Rightarrow> 'v option option \<Rightarrow> rewrite" where
  "fold_to fn idx mk res = do {
     v \<leftarrow> res;
     case v of None \<Rightarrow> Some None | Some v \<Rightarrow> do { fn \<leftarrow> make_const fn idx (mk v); Some (Some fn) }
   }"

definition cf_unary :: "ny_function \<Rightarrow> nat \<Rightarrow> ny_instruction \<Rightarrow> nat \<Rightarrow> rewrite" where
  "cf_unary fn idx inst width = do {
     op0 \<leftarrow> op_at fn (ny_function_get_operands fn inst) 0;
     a_int \<leftarrow> ny_opt_get_operand_const_int fn op0;
     or_else
       (case a_int of None \<Rightarrow> Some None | Some a \<Rightarrow> fold_to fn idx OpInt (ny_fold_int_unary (i_opcode inst) a width))
       (do {
          a_flt \<leftarrow> ny_opt_get_operand_const_float fn op0;
          (case a_flt of None \<Rightarrow> Some None | Some a \<Rightarrow> fold_to fn idx OpFloat (Some (ny_fold_float_unary (i_opcode inst) a)))
        })
   }"

definition cf_binary :: "host_fpu \<Rightarrow> ny_function \<Rightarrow> nat \<Rightarrow> ny_instruction \<Rightarrow> nat \<Rightarrow> rewrite" where
  "cf_binary h fn idx inst width = do {
     let ops = ny_function_get_operands fn inst;
     op0 \<leftarrow> op_at fn ops 0;
     op1 \<leftarrow> op_at fn ops 1;
     a_int \<leftarrow> ny_opt_get_operand_const_int fn op0;
     b_int \<leftarrow> ny_opt_get_operand_const_int fn op1;
     let cmp_width = (case op0 of OpValue v \<Rightarrow>
           (case ny_function_get_value fn v of Some val \<Rightarrow> ny_opt_get_type_bit_width (v_type val) | None \<Rightarrow> width)
         | _ \<Rightarrow> width);
     or_else
       (case (a_int, b_int) of
          (Some a, Some b) \<Rightarrow>
            or_else (fold_to fn idx OpInt (ny_fold_int_binary (i_opcode inst) a b width))
                    (fold_to fn idx OpInt (ny_fold_int_cmp (i_opcode inst) a b cmp_width))
        | _ \<Rightarrow> Some None)
       (do {
          fa \<leftarrow> ny_opt_get_operand_const_float fn op0;
          fb \<leftarrow> ny_opt_get_operand_const_float fn op1;
          (case (fa, fb) of
             (Some a, Some b) \<Rightarrow>
               or_else (fold_to fn idx OpFloat (Some (ny_fold_float_binary h (i_opcode inst) a b)))
                       (fold_to fn idx OpInt (Some (ny_fold_float_cmp (i_opcode inst) a b)))
           | _ \<Rightarrow> Some None)
        })
   }"

definition cf_choose :: "ny_function \<Rightarrow> nat \<Rightarrow> ny_instruction \<Rightarrow> ny_operand \<Rightarrow> rewrite" where
  "cf_choose fn idx inst chosen_op =
     (case chosen_op of
        OpInt n \<Rightarrow> fold_to fn idx id (Some (Some chosen_op))
      | OpFloat n \<Rightarrow> fold_to fn idx id (Some (Some chosen_op))
      | OpValue v \<Rightarrow> do {
          let fn = ny_function_replace_all_uses fn (i_result inst) v;
          fn \<leftarrow> ny_function_remove_instruction fn (i_id inst);
          Some (Some fn)
        }
      | _ \<Rightarrow> Some None)"

definition cf_select :: "ny_function \<Rightarrow> nat \<Rightarrow> ny_instruction \<Rightarrow> rewrite" where
  "cf_select fn idx inst = do {
     let ops = ny_function_get_operands fn inst;
     op0 \<leftarrow> op_at fn ops 0;
     cond \<leftarrow> ny_opt_get_operand_const_int fn op0;
     case cond of
       None \<Rightarrow> Some None
     | Some cond_val \<Rightarrow> do {
         chosen_op \<leftarrow> op_at fn ops (if cond_val \<noteq> 0 then 1 else 2);
         cf_choose fn idx inst chosen_op
       }
   }"

text \<open>The width a cast reads: that of the operand's value, 32 for an immediate.\<close>

definition cast_src_width :: "ny_function \<Rightarrow> ny_operand \<Rightarrow> nat" where
  "cast_src_width fn op = (case op of
     OpValue v \<Rightarrow> (case ny_function_get_value fn v of Some val \<Rightarrow> ny_opt_get_type_bit_width (v_type val) | None \<Rightarrow> 32)
   | _ \<Rightarrow> 32)"

definition cf_cast :: "host_fpu \<Rightarrow> ny_function \<Rightarrow> nat \<Rightarrow> ny_instruction \<Rightarrow> nat \<Rightarrow> rewrite" where
  "cf_cast h fn idx inst width =
     (if i_op_count inst \<ge> 1 \<and> i_opcode inst \<in> {NY_OPCODE_TRUNCATE, NY_OPCODE_SEXT, NY_OPCODE_ZEXT, NY_OPCODE_SITOFP} then do {
        op0 \<leftarrow> op_at fn (ny_function_get_operands fn inst) 0;
        val \<leftarrow> ny_opt_get_operand_const_int fn op0;
        case val of
          None \<Rightarrow> Some None
        | Some v \<Rightarrow>
            if i_opcode inst = NY_OPCODE_TRUNCATE then fold_to fn idx OpInt (map_option Some (ny_opt_sign_extend_width v width))
            else if i_opcode inst = NY_OPCODE_SEXT
              then fold_to fn idx OpInt (map_option Some (ny_opt_sign_extend_width v (cast_src_width fn op0)))
            else if i_opcode inst = NY_OPCODE_ZEXT
              then fold_to fn idx OpInt (map_option Some (ny_opt_mask_to_width v (cast_src_width fn op0)))
            else fold_to fn idx OpFloat (Some (Some (h_of_int h v)))
      }
      else if i_op_count inst \<ge> 1 \<and> i_opcode inst = NY_OPCODE_FPTOSI then do {
        op0 \<leftarrow> op_at fn (ny_function_get_operands fn inst) 0;
        val \<leftarrow> ny_opt_get_operand_const_float fn op0;
        case val of
          None \<Rightarrow> Some None
        | Some v \<Rightarrow> fold_to fn idx OpInt (do { n \<leftarrow> h_to_int h v; map_option Some (ny_opt_sign_extend_width n width) })
      }
      else Some None)"

definition rewrite_inst :: "host_fpu \<Rightarrow> ny_function \<Rightarrow> nat \<Rightarrow> ny_instruction \<Rightarrow> nat \<Rightarrow> rewrite" where
  "rewrite_inst h fn idx inst width =
     or_else (if i_op_count inst = 1 then cf_unary fn idx inst width else Some None)
       (or_else (if i_op_count inst = 2 then cf_binary h fn idx inst width else Some None)
         (or_else (if i_opcode inst = NY_OPCODE_SELECT \<and> i_op_count inst = 3 then cf_select fn idx inst else Some None)
           (cf_cast h fn idx inst width)))"

definition const_fold_step :: "host_fpu \<Rightarrow> ny_function \<times> bool \<Rightarrow> nat \<Rightarrow> (ny_function \<times> bool) option" where
  "const_fold_step h = (\<lambda>(fn, changed) idx. do {
     inst \<leftarrow> rd (f_insts fn) idx;
     if i_opcode inst = NY_OPCODE_NONE \<or> i_opcode inst = NY_OPCODE_CONST \<or> i_result inst = NY_INVALID_VALUE then Some (fn, changed)
     else case ny_function_get_value fn (i_result inst) of
       None \<Rightarrow> Some (fn, changed)
     | Some res_val \<Rightarrow> do {
         r \<leftarrow> rewrite_inst h fn idx inst (ny_opt_get_type_bit_width (v_type res_val));
         case r of None \<Rightarrow> Some (fn, changed) | Some fn' \<Rightarrow> Some (fn', True)
       }
   })"

definition ny_opt_pass_const_fold :: "host_fpu \<Rightarrow> ny_function \<Rightarrow> (ny_function \<times> bool) option" where
  "ny_opt_pass_const_fold h fn = foldM (const_fold_step h) (fn, False) [0..<length (f_insts fn)]"

subsection \<open>What one rewrite does\<close>

inductive rewritten :: "ny_function \<Rightarrow> nat \<Rightarrow> ny_function \<Rightarrow> bool" where
  rw_const: "make_const fn idx op = Some fn' \<Longrightarrow> rewritten fn idx fn'"
| rw_select: "ny_function_remove_instruction (ny_function_replace_all_uses fn old_val new_val) (i_id (f_insts fn ! idx)) = Some fn'
    \<Longrightarrow> rewritten fn idx fn'"

lemma or_else_Some: "or_else m k = Some r \<longleftrightarrow> (\<exists>fn. m = Some (Some fn) \<and> r = Some fn) \<or> (m = Some None \<and> k = Some r)"
  by (auto simp: or_else_def bind_Some_iff split: option.splits)

lemma fold_to_Some: "fold_to fn idx mk res = Some (Some fn') \<Longrightarrow> rewritten fn idx fn'"
  by (auto simp: fold_to_def bind_Some_iff split: option.splits intro: rw_const)

lemma cf_unary_rewritten: "cf_unary fn idx inst w = Some (Some fn') \<Longrightarrow> rewritten fn idx fn'"
  by (auto simp: cf_unary_def bind_Some_iff or_else_Some split: option.splits dest: fold_to_Some)

lemma both_Some:
  "(case m of None \<Rightarrow> Some None | Some a \<Rightarrow> (case n of None \<Rightarrow> Some None | Some b \<Rightarrow> f a b)) = Some (Some r) \<Longrightarrow>
     \<exists>a b. m = Some a \<and> n = Some b \<and> f a b = Some (Some r)"
  by (cases m; cases n) auto

lemma cf_binary_rewritten:
  assumes "cf_binary h fn idx inst w = Some (Some fn')"
  shows "rewritten fn idx fn'"
proof -
  obtain m k where "or_else m k = Some (Some fn')"
    and m: "m = Some (Some fn') \<Longrightarrow> rewritten fn idx fn'" and k: "k = Some (Some fn') \<Longrightarrow> rewritten fn idx fn'"
  proof -
    from assms obtain op0 op1 a_int b_int where
      "or_else (case (a_int, b_int) of
          (Some a, Some b) \<Rightarrow> or_else (fold_to fn idx OpInt (ny_fold_int_binary (i_opcode inst) a b w))
            (fold_to fn idx OpInt (ny_fold_int_cmp (i_opcode inst) a b (case op0 of OpValue v \<Rightarrow>
             (case ny_function_get_value fn v of Some val \<Rightarrow> ny_opt_get_type_bit_width (v_type val) | None \<Rightarrow> w) | _ \<Rightarrow> w)))
        | _ \<Rightarrow> Some None)
       (do {
          fa \<leftarrow> ny_opt_get_operand_const_float fn op0;
          fb \<leftarrow> ny_opt_get_operand_const_float fn op1;
          (case (fa, fb) of
             (Some a, Some b) \<Rightarrow> or_else (fold_to fn idx OpFloat (Some (ny_fold_float_binary h (i_opcode inst) a b)))
                (fold_to fn idx OpInt (Some (ny_fold_float_cmp (i_opcode inst) a b)))
           | _ \<Rightarrow> Some None)
        }) = Some (Some fn')"
      unfolding cf_binary_def Let_def by (auto simp only: bind_Some_iff)
    then show thesis
      by (rule that) (auto simp: bind_Some_iff or_else_Some dest!: both_Some dest: fold_to_Some)
  qed
  then show ?thesis by (auto simp: or_else_Some)
qed

lemma cf_choose_rewritten: "cf_choose fn idx (f_insts fn ! idx) c = Some (Some fn') \<Longrightarrow> rewritten fn idx fn'"
  by (cases c) (auto simp: cf_choose_def Let_def bind_Some_iff dest: fold_to_Some rw_select)

lemma cf_select_rewritten: "cf_select fn idx (f_insts fn ! idx) = Some (Some fn') \<Longrightarrow> rewritten fn idx fn'"
  by (auto simp: cf_select_def Let_def bind_Some_iff split: option.splits dest: cf_choose_rewritten)

lemma cf_cast_rewritten: "cf_cast h fn idx inst w = Some (Some fn') \<Longrightarrow> rewritten fn idx fn' \<and> i_op_count inst \<ge> 1"
  by (auto simp: cf_cast_def bind_Some_iff split: option.splits if_splits dest: fold_to_Some)

lemma const_fold_step_cases:
  assumes "const_fold_step h (fn, ch) idx = Some (fn', ch')"
  shows "fn' = fn \<and> ch' = ch \<or> ch' \<and> live fn idx \<and> 1 \<le> i_op_count (f_insts fn ! idx) \<and> rewritten fn idx fn'"
proof -
  let ?inst = "f_insts fn ! idx"
  have idx: "idx < length (f_insts fn)" using assms by (auto simp: const_fold_step_def bind_Some_iff rd_eq_Some)
  show ?thesis
  proof (cases "i_opcode ?inst = NY_OPCODE_NONE \<or> i_opcode ?inst = NY_OPCODE_CONST \<or> i_result ?inst = NY_INVALID_VALUE
      \<or> ny_function_get_value fn (i_result ?inst) = None")
    case True
    then show ?thesis using assms idx by (auto simp: const_fold_step_def split: if_splits)
  next
    case False
    then obtain v where v: "ny_function_get_value fn (i_result ?inst) = Some v" by blast
    obtain r where r: "rewrite_inst h fn idx ?inst (ny_opt_get_type_bit_width (v_type v)) = Some r"
      and res: "(case r of None \<Rightarrow> Some (fn, ch) | Some fn' \<Rightarrow> Some (fn', True)) = Some (fn', ch')"
      using assms idx False v by (auto simp: const_fold_step_def bind_Some_iff)
    show ?thesis
    proof (cases r)
      case None
      then show ?thesis using res by simp
    next
      case (Some fn1)
      have "rewritten fn idx fn1 \<and> 1 \<le> i_op_count ?inst"
        using r unfolding Some rewrite_inst_def or_else_Some
        by (auto split: if_splits dest: cf_unary_rewritten cf_binary_rewritten cf_select_rewritten cf_cast_rewritten)
      then show ?thesis using res Some False idx by (auto simp: live_def)
    qed
  qed
qed

lemma make_const_spec:
  assumes wf: "fn_wf fn L" and ow: "ops_wf fn" and idx: "live fn idx" and cnt: "1 \<le> i_op_count (f_insts fn ! idx)"
  shows "\<exists>fn'. make_const fn idx op = Some fn' \<and> fn_wf fn' L \<and> ops_wf fn'
    \<and> f_insts fn' = (f_insts fn)[idx := (f_insts fn ! idx)\<lparr>i_opcode := NY_OPCODE_CONST, i_op_count := 1\<rparr>]
    \<and> f_blocks fn' = f_blocks fn \<and> f_values fn' = f_values fn
    \<and> inst_ops fn' idx = [op] \<and> (\<forall>i. live fn i \<longrightarrow> i \<noteq> idx \<longrightarrow> inst_ops fn' i = inst_ops fn i)"
proof -
  let ?x = "f_insts fn ! idx" and ?s = "i_op_start (f_insts fn ! idx)"
  have lt: "idx < length (f_insts fn)" and opc: "i_opcode ?x \<noteq> NY_OPCODE_NONE" using idx by (auto simp: live_def)
  have rng: "?s < length (f_operands fn)" using ow idx cnt by (fastforce simp: ops_wf_def)
  define J where "J = (f_insts fn)[idx := ?x\<lparr>i_opcode := NY_OPCODE_CONST, i_op_count := 1\<rparr>]"
  define fn' where "fn' = fn\<lparr>f_insts := J, f_operands := (f_operands fn)[?s := op]\<rparr>"
  have run: "make_const fn idx op = Some fn'"
    using lt rng cnt live_index[OF wf idx]
    by (simp add: make_const_def ny_instruction_replace_operand_def Let_def fn'_def J_def)
  have J: "J ! i = (if i = idx then ?x\<lparr>i_opcode := NY_OPCODE_CONST, i_op_count := 1\<rparr> else f_insts fn ! i)" for i
    using lt by (simp add: J_def nth_upd)
  have lenJ: "length J = length (f_insts fn)" by (simp add: J_def)
  have seg: "seg (f_insts fn) b p xs n \<Longrightarrow> seg J b p xs n" for b p xs n
    by (induction xs arbitrary: p) (auto simp: J lenJ)
  have wf': "fn_wf fn' L"
    using wf seg opc by (auto simp: fn_wf_def block_ok_def fn'_def J lenJ)
  have lv: "live fn' i = live fn i" for i using opc lt by (auto simp: live_def fn'_def J lenJ)
  have ow': "ops_wf fn'"
    unfolding ops_wf_def lv
  proof (intro conjI allI impI)
    have le: "i_op_count (f_insts fn' ! i) \<le> i_op_count (f_insts fn ! i)" "i_op_start (f_insts fn' ! i) = i_op_start (f_insts fn ! i)" for i
      using cnt by (auto simp: fn'_def J)
    fix i assume i: "live fn i"
    have "i_op_start (f_insts fn ! i) + i_op_count (f_insts fn ! i) \<le> length (f_operands fn)" "i_op_count (f_insts fn ! i) < 65536"
      using ow i by (auto simp: ops_wf_def)
    then show "i_op_start (f_insts fn' ! i) + i_op_count (f_insts fn' ! i) \<le> length (f_operands fn')"
      "i_op_count (f_insts fn' ! i) < 65536" using le[of i] by (simp_all add: fn'_def[THEN arg_cong[of _ _ f_operands]])
    fix j assume j: "live fn j" "i \<noteq> j"
    then have "i_op_start (f_insts fn ! i) + i_op_count (f_insts fn ! i) \<le> i_op_start (f_insts fn ! j)
        \<or> i_op_start (f_insts fn ! j) + i_op_count (f_insts fn ! j) \<le> i_op_start (f_insts fn ! i)"
      using ow i unfolding ops_wf_def by blast
    then show "i_op_start (f_insts fn' ! i) + i_op_count (f_insts fn' ! i) \<le> i_op_start (f_insts fn' ! j)
        \<or> i_op_start (f_insts fn' ! j) + i_op_count (f_insts fn' ! j) \<le> i_op_start (f_insts fn' ! i)"
      using le[of i] le[of j] by linarith
  qed
  have "inst_ops fn' idx = [op]"
  proof (rule nth_equalityI)
    show "length (inst_ops fn' idx) = length [op]" using rng by (simp add: inst_ops_def fn'_def J subarray_def)
    show "inst_ops fn' idx ! i = [op] ! i" if "i < length (inst_ops fn' idx)" for i
      using that rng by (simp add: inst_ops_def fn'_def J subarray_def)
  qed
  moreover have "inst_ops fn' i = inst_ops fn i" if i: "live fn i" "i \<noteq> idx" for i
  proof -
    have "i_op_start (f_insts fn ! i) + i_op_count (f_insts fn ! i) \<le> ?s \<or> ?s + i_op_count ?x \<le> i_op_start (f_insts fn ! i)"
      "i_op_start (f_insts fn ! i) + i_op_count (f_insts fn ! i) \<le> length (f_operands fn)"
      using ow i idx unfolding ops_wf_def by auto
    then show ?thesis using i(2) cnt unfolding inst_ops_def by (simp add: fn'_def J) (rule subarray_cong_id; auto simp: nth_upd)
  qed
  ultimately show ?thesis using run wf' ow' by (auto simp: fn'_def J_def)
qed

lemma rewritten_preserves:
  assumes wf: "fn_wf fn L" and ow: "ops_wf fn" and idx: "live fn idx" and cnt: "1 \<le> i_op_count (f_insts fn ! idx)"
    and rw: "rewritten fn idx fn'"
  shows "\<exists>L'. fn_wf fn' L' \<and> ops_wf fn' \<and> length (f_insts fn') = length (f_insts fn)
    \<and> (\<forall>b < length (f_blocks fn). \<exists>X. L' ! b = filter (\<lambda>i. i \<notin> X) (L ! b)) \<and> block_edges fn' = block_edges fn
    \<and> (\<forall>i. live fn' i \<longrightarrow> live fn i \<and> i_opcode (f_insts fn' ! i) \<in> {i_opcode (f_insts fn ! i), NY_OPCODE_CONST})"
  using rw
proof cases
  case (rw_const op)
  then show ?thesis using make_const_spec[OF wf ow idx cnt, of op]
    idx by (auto simp: block_edges_def live_def nth_upd intro!: exI[of _ L] exI[of _ "{}"])
next
  case (rw_select old_val new_val)
  let ?fn1 = "ny_function_replace_all_uses fn old_val new_val"
  have same: "f_insts ?fn1 = f_insts fn" "f_blocks ?fn1 = f_blocks fn" "length (f_operands ?fn1) = length (f_operands fn)"
    using fold_replace[of old_val new_val "f_insts fn" "f_operands fn"] by (simp_all add: ny_function_replace_all_uses_def)
  have wf1: "fn_wf ?fn1 L" using wf by (simp add: fn_wf_def same)
  define b where "b = i_block (f_insts fn ! idx)"
  have id: "i_id (f_insts fn ! idx) = idx" by (rule live_index[OF wf idx])
  have lt: "idx < length (f_insts fn)" "i_opcode (f_insts fn ! idx) \<noteq> NY_OPCODE_NONE" using idx by (auto simp: live_def)
  have b: "b < length (f_blocks fn)" "idx \<in> set (L ! b)" using fn_wf_live[OF wf lt] by (auto simp: b_def)
  have d: "distinct (L ! b)" using fn_wf_block[OF wf b(1)] by (simp add: block_ok_def)
  obtain fn2 where r: "ny_function_remove_instruction ?fn1 idx = Some fn2" "fn_wf fn2 (L[b := remove1 idx (L ! b)])"
    "same_but {idx} ?fn1 fn2" "i_opcode (f_insts fn2 ! idx) = NY_OPCODE_NONE"
    using remove_instruction_live[OF wf1, of idx] lt by (auto simp: same b_def cleared_def)
  have fn2: "fn' = fn2" using rw_select r(1) by (simp add: id)
  have "ops_wf ?fn1" by (rule ops_wf_shrink[OF ow]) (simp_all add: same live_def)
  then have "ops_wf fn2"
    by (rule ops_wf_shrink) (use r(3,4) in \<open>auto simp: same_but_def live_def payload_def\<close>)
  moreover have "\<exists>X. L[b := remove1 idx (L ! b)] ! c = filter (\<lambda>i. i \<notin> X) (L ! c)" if "c < length (f_blocks fn)" for c
  proof (cases "c = b")
    case True
    have "length L = length (f_blocks fn)" using wf by (simp add: fn_wf_def)
    then show ?thesis using True b d distinct_remove1_removeAll[OF d, of idx]
      by (auto simp: removeAll_filter_not_eq intro!: exI[of _ "{idx}"] filter_cong)
  next
    case False
    then show ?thesis by (auto intro!: exI[of _ "{}"])
  qed
  moreover have "block_edges fn2 = block_edges fn" "length (f_insts fn2) = length (f_insts fn)"
    using r(3) same by (simp_all add: same_but_def) (simp add: block_edges_def same)
  moreover have "\<forall>i. live fn2 i \<longrightarrow> live fn i \<and> i_opcode (f_insts fn2 ! i) \<in> {i_opcode (f_insts fn ! i), NY_OPCODE_CONST}"
    using r(3,4) same by (auto simp: same_but_def live_def payload_def)
  ultimately show ?thesis using r(2) fn2 by blast
qed

subsection \<open>When the pass is defined\<close>

definition unsafe_ops :: "ny_opcode set" where
  "unsafe_ops = {NY_OPCODE_NEG, NY_OPCODE_ADD, NY_OPCODE_SUB, NY_OPCODE_MUL, NY_OPCODE_DIV_S, NY_OPCODE_REM_S, NY_OPCODE_FPTOSI}"

lemma type_bit_width: "ny_opt_get_type_bit_width t \<in> widths"
  by (simp add: ny_opt_get_type_bit_width_def)

lemma const_operand_defined:
  assumes "ops_wf fn"
  shows "ny_opt_get_operand_const_int fn op \<noteq> None" "ny_opt_get_operand_const_float fn op \<noteq> None"
proof -
  have at: "op_at fn (ny_function_get_operands fn (f_insts fn ! d)) 0 \<noteq> None"
    if "d < length (f_insts fn)" "i_opcode (f_insts fn ! d) = NY_OPCODE_CONST" "i_op_count (f_insts fn ! d) = 1" for d
    using op_at_inst[OF assms, of d 0] that by (simp add: live_def)
  show "ny_opt_get_operand_const_int fn op \<noteq> None"
    by (cases op) (auto simp: ny_opt_get_operand_const_int_def rd_def dest: at split: option.splits)
  show "ny_opt_get_operand_const_float fn op \<noteq> None"
    by (cases op) (auto simp: ny_opt_get_operand_const_float_def rd_def dest: at split: option.splits)
qed

lemma fold_defined:
  assumes "w \<in> widths" "op \<notin> unsafe_ops"
  shows "ny_fold_int_unary op a w \<noteq> None" "ny_fold_int_binary op a b w \<noteq> None" "ny_fold_int_cmp op a b w \<noteq> None"
proof -
  have w0: "0 < w" "w \<noteq> 0" using assms(1) by auto
  note se = sign_extend_width[OF w0(1)] and mk = mask_to_width[OF assms(1)]
  show "ny_fold_int_unary op a w \<noteq> None" using assms(2) by (simp add: ny_fold_int_unary_def unsafe_ops_def se)
  show "ny_fold_int_binary op a b w \<noteq> None" using assms(2) w0 by (simp add: ny_fold_int_binary_def unsafe_ops_def Let_def se mk)
  show "ny_fold_int_cmp op a b w \<noteq> None" using w0 by (simp add: ny_fold_int_cmp_def Let_def se mk c_bool_def)
qed

lemma or_else_defined: "m \<noteq> None \<Longrightarrow> k \<noteq> None \<Longrightarrow> or_else m k \<noteq> None"
  by (auto simp: or_else_def split: option.splits)

lemma fold_to_defined:
  assumes "fn_wf fn L" "ops_wf fn" "live fn idx" "1 \<le> i_op_count (f_insts fn ! idx)" "res \<noteq> None"
  shows "fold_to fn idx mk res \<noteq> None"
proof -
  obtain v where v: "res = Some v" using assms(5) by blast
  show ?thesis
  proof (cases v)
    case None
    then show ?thesis by (simp add: fold_to_def v)
  next
    case (Some x)
    obtain fn' where "make_const fn idx (mk x) = Some fn'" using make_const_spec[OF assms(1-4), of "mk x"] by blast
    then show ?thesis by (simp add: fold_to_def v Some)
  qed
qed

lemma cf_unary_defined:
  assumes "fn_wf fn L" "ops_wf fn" "live fn idx" "i_op_count (f_insts fn ! idx) = 1" "w \<in> widths"
    "i_opcode (f_insts fn ! idx) \<notin> unsafe_ops"
  shows "cf_unary fn idx (f_insts fn ! idx) w \<noteq> None"
proof -
  have at: "op_at fn (ny_function_get_operands fn (f_insts fn ! idx)) 0 = Some (inst_ops fn idx ! 0)"
    using op_at_inst[OF assms(2,3), of 0] assms(4) by simp
  obtain a b where c: "ny_opt_get_operand_const_int fn (inst_ops fn idx ! 0) = Some a"
    "ny_opt_get_operand_const_float fn (inst_ops fn idx ! 0) = Some b"
    using const_operand_defined[OF assms(2)] by blast
  have ft: "res \<noteq> None \<Longrightarrow> fold_to fn idx mk res \<noteq> None" for mk and res :: "64 word option option"
    by (rule fold_to_defined[OF assms(1-3)]) (use assms(4) in auto)
  have "or_else (case a of None \<Rightarrow> Some None | Some a \<Rightarrow> fold_to fn idx OpInt (ny_fold_int_unary (i_opcode (f_insts fn ! idx)) a w))
     (case b of None \<Rightarrow> Some None | Some a \<Rightarrow> fold_to fn idx OpFloat (Some (ny_fold_float_unary (i_opcode (f_insts fn ! idx)) a))) \<noteq> None"
    using ft fold_defined(1)[OF assms(5,6)] by (intro or_else_defined; cases a; cases b) simp_all
  then show ?thesis by (simp add: cf_unary_def at c)
qed

lemma cf_binary_defined:
  assumes "fn_wf fn L" "ops_wf fn" "live fn idx" "i_op_count (f_insts fn ! idx) = 2" "w \<in> widths"
    "i_opcode (f_insts fn ! idx) \<notin> unsafe_ops"
  shows "cf_binary h fn idx (f_insts fn ! idx) w \<noteq> None"
proof -
  let ?opc = "i_opcode (f_insts fn ! idx)"
  have at: "op_at fn (ny_function_get_operands fn (f_insts fn ! idx)) 0 = Some (inst_ops fn idx ! 0)"
    "op_at fn (ny_function_get_operands fn (f_insts fn ! idx)) 1 = Some (inst_ops fn idx ! 1)"
    using op_at_inst[OF assms(2,3)] assms(4) by simp_all
  obtain a b fa fb where c: "ny_opt_get_operand_const_int fn (inst_ops fn idx ! 0) = Some a"
    "ny_opt_get_operand_const_int fn (inst_ops fn idx ! 1) = Some b"
    "ny_opt_get_operand_const_float fn (inst_ops fn idx ! 0) = Some fa"
    "ny_opt_get_operand_const_float fn (inst_ops fn idx ! 1) = Some fb"
    using const_operand_defined[OF assms(2)] by blast
  have ft: "res \<noteq> None \<Longrightarrow> fold_to fn idx mk res \<noteq> None" for mk and res :: "64 word option option"
    by (rule fold_to_defined[OF assms(1-3)]) (use assms(4) in auto)
  define cw where "cw = (case inst_ops fn idx ! 0 of OpValue v \<Rightarrow>
           (case ny_function_get_value fn v of Some val \<Rightarrow> ny_opt_get_type_bit_width (v_type val) | None \<Rightarrow> w)
         | _ \<Rightarrow> w)"
  have "cw \<in> widths" using assms(5) type_bit_width by (auto simp: cw_def simp del: insert_iff split: ny_operand.splits option.splits)
  note fd = fold_defined(2)[OF assms(5,6)] fold_defined(3)[OF this assms(6)]
  have "or_else (case (a, b) of (Some a, Some b) \<Rightarrow>
            or_else (fold_to fn idx OpInt (ny_fold_int_binary ?opc a b w)) (fold_to fn idx OpInt (ny_fold_int_cmp ?opc a b cw))
          | _ \<Rightarrow> Some None)
     (case (fa, fb) of (Some a, Some b) \<Rightarrow>
            or_else (fold_to fn idx OpFloat (Some (ny_fold_float_binary h ?opc a b))) (fold_to fn idx OpInt (Some (ny_fold_float_cmp ?opc a b)))
          | _ \<Rightarrow> Some None) \<noteq> None"
  proof (rule or_else_defined)
    show "(case (a, b) of (Some a, Some b) \<Rightarrow>
            or_else (fold_to fn idx OpInt (ny_fold_int_binary ?opc a b w)) (fold_to fn idx OpInt (ny_fold_int_cmp ?opc a b cw))
          | _ \<Rightarrow> Some None) \<noteq> None"
      using ft fd by (cases a; cases b) (simp_all add: or_else_defined)
    show "(case (fa, fb) of (Some a, Some b) \<Rightarrow>
            or_else (fold_to fn idx OpFloat (Some (ny_fold_float_binary h ?opc a b))) (fold_to fn idx OpInt (Some (ny_fold_float_cmp ?opc a b)))
          | _ \<Rightarrow> Some None) \<noteq> None"
      using ft by (cases fa; cases fb) (simp_all add: or_else_defined)
  qed
  then show ?thesis unfolding cf_binary_def Let_def at c bind.bind_lunit cw_def by simp
qed

lemma cf_select_defined:
  assumes "fn_wf fn L" "ops_wf fn" "live fn idx" "i_op_count (f_insts fn ! idx) = 3"
  shows "cf_select fn idx (f_insts fn ! idx) \<noteq> None"
proof -
  let ?inst = "f_insts fn ! idx"
  have at: "op_at fn (ny_function_get_operands fn ?inst) j = Some (inst_ops fn idx ! j)" if "j < 3" for j
    using op_at_inst[OF assms(2,3)] assms(4) that by simp
  obtain c where c: "ny_opt_get_operand_const_int fn (inst_ops fn idx ! 0) = Some c" using const_operand_defined[OF assms(2)] by blast
  have ch: "cf_choose fn idx ?inst op \<noteq> None" for op
  proof (cases op)
    case (OpValue v)
    let ?fn1 = "ny_function_replace_all_uses fn (i_result ?inst) v"
    have "f_insts ?fn1 = f_insts fn" "f_blocks ?fn1 = f_blocks fn" by (simp_all add: ny_function_replace_all_uses_def)
    then have "fn_wf ?fn1 L" "live ?fn1 idx" using assms(1,3) by (simp_all add: fn_wf_def live_def)
    then obtain r where "ny_function_remove_instruction ?fn1 (i_id ?inst) = Some r"
      using remove_instruction_defined[of ?fn1 L "i_id ?inst"] by blast
    then show ?thesis by (simp add: cf_choose_def OpValue Let_def)
  next
    case (OpInt n)
    then show ?thesis using fold_to_defined[OF assms(1-3), of "Some (Some op)" id] assms(4) by (simp add: cf_choose_def)
  next
    case (OpFloat n)
    then show ?thesis using fold_to_defined[OF assms(1-3), of "Some (Some op)" id] assms(4) by (simp add: cf_choose_def)
  qed (simp_all add: cf_choose_def)
  show ?thesis using at[of 0] at[of 1] at[of 2] c ch by (cases c) (auto simp: cf_select_def Let_def)
qed

lemma cf_cast_defined:
  assumes "fn_wf fn L" "ops_wf fn" "live fn idx" "w \<in> widths" "i_opcode (f_insts fn ! idx) \<notin> unsafe_ops"
  shows "cf_cast h fn idx (f_insts fn ! idx) w \<noteq> None"
proof (cases "i_op_count (f_insts fn ! idx) \<ge> 1")
  case True
  let ?inst = "f_insts fn ! idx"
  have at: "op_at fn (ny_function_get_operands fn ?inst) 0 = Some (inst_ops fn idx ! 0)"
    using op_at_inst[OF assms(2,3)] True by simp
  obtain c where c: "ny_opt_get_operand_const_int fn (inst_ops fn idx ! 0) = Some c" using const_operand_defined[OF assms(2)] by blast
  have sw: "cast_src_width fn op \<in> widths" for op
    using type_bit_width by (auto simp: cast_src_width_def split: ny_operand.splits option.splits)
  have w: "ny_opt_sign_extend_width v u \<noteq> None" "ny_opt_mask_to_width v u \<noteq> None" if "u \<in> widths" for v u
    using that sign_extend_width[of u v] mask_to_width[OF that, of v] by auto
  have ft: "res \<noteq> None \<Longrightarrow> fold_to fn idx mk res \<noteq> None" for mk and res :: "64 word option option"
    by (rule fold_to_defined[OF assms(1-3) True])
  have mo: "map_option Some r \<noteq> None" if "r \<noteq> None" for r :: "64 word option" using that by simp
  show ?thesis
  proof (cases c)
    case None
    then show ?thesis using at c assms(5) by (simp add: cf_cast_def unsafe_ops_def)
  next
    case (Some v)
    note f = ft[OF mo[OF w(1)[OF assms(4)]], of OpInt v] ft[OF mo[OF w(1)[OF sw]], of OpInt v] ft[OF mo[OF w(2)[OF sw]], of OpInt v]
    show ?thesis using f ft[of "Some (Some (h_of_int h v))" OpFloat] at c assms(5) unfolding Some
      by (simp add: cf_cast_def unsafe_ops_def del: map_option_eq_Some)
  qed
qed (simp add: cf_cast_def)

lemma rewrite_defined:
  assumes "fn_wf fn L" "ops_wf fn" "live fn idx" "w \<in> widths" "i_opcode (f_insts fn ! idx) \<notin> unsafe_ops"
  shows "rewrite_inst h fn idx (f_insts fn ! idx) w \<noteq> None"
  unfolding rewrite_inst_def
  by (intro or_else_defined)
    (use cf_unary_defined[OF assms(1-3) _ assms(4,5)] cf_binary_defined[OF assms(1-3) _ assms(4,5)] cf_select_defined[OF assms(1-3)]
      cf_cast_defined[OF assms] in auto)

text \<open>What the walk keeps, relative to the function \<open>fn0\<close> it started from.\<close>

definition fold_inv :: "ny_function \<Rightarrow> nat list list \<Rightarrow> ny_function \<Rightarrow> bool" where
  "fold_inv fn0 L0 fn \<longleftrightarrow> (\<exists>L. fn_wf fn L \<and> (\<forall>b < length (f_blocks fn0). \<exists>X. L ! b = filter (\<lambda>i. i \<notin> X) (L0 ! b)))
     \<and> ops_wf fn \<and> length (f_insts fn) = length (f_insts fn0) \<and> block_edges fn = block_edges fn0
     \<and> (\<forall>i. live fn i \<longrightarrow> live fn0 i \<and> i_opcode (f_insts fn ! i) \<in> {i_opcode (f_insts fn0 ! i), NY_OPCODE_CONST})"

lemma fold_inv_refl: "fn_wf fn L \<Longrightarrow> ops_wf fn \<Longrightarrow> fold_inv fn L fn"
  unfolding fold_inv_def by (auto intro!: exI[of _ L] exI[of _ "{}"])

lemma block_edges_length: "block_edges fn' = block_edges fn \<Longrightarrow> length (f_blocks fn') = length (f_blocks fn)"
  unfolding block_edges_def by (drule arg_cong[of _ _ length]) simp

lemma fold_inv_step:
  assumes inv: "fold_inv fn0 L0 fn" and st: "const_fold_step h (fn, ch) idx = Some (fn', ch')"
  shows "fold_inv fn0 L0 fn'"
proof -
  obtain L where L: "fn_wf fn L" "\<forall>b < length (f_blocks fn0). \<exists>X. L ! b = filter (\<lambda>i. i \<notin> X) (L0 ! b)"
    and ow: "ops_wf fn" and be: "block_edges fn = block_edges fn0" and len: "length (f_insts fn) = length (f_insts fn0)"
    and lv: "\<forall>i. live fn i \<longrightarrow> live fn0 i \<and> i_opcode (f_insts fn ! i) \<in> {i_opcode (f_insts fn0 ! i), NY_OPCODE_CONST}"
    using inv by (auto simp: fold_inv_def)
  from const_fold_step_cases[OF st] show ?thesis
  proof
    assume "fn' = fn \<and> ch' = ch"
    then show ?thesis using inv by simp
  next
    assume r: "ch' \<and> live fn idx \<and> 1 \<le> i_op_count (f_insts fn ! idx) \<and> rewritten fn idx fn'"
    obtain L' where L': "fn_wf fn' L'" "ops_wf fn'" "length (f_insts fn') = length (f_insts fn)" "block_edges fn' = block_edges fn"
      "\<forall>b < length (f_blocks fn). \<exists>X. L' ! b = filter (\<lambda>i. i \<notin> X) (L ! b)"
      "\<forall>i. live fn' i \<longrightarrow> live fn i \<and> i_opcode (f_insts fn' ! i) \<in> {i_opcode (f_insts fn ! i), NY_OPCODE_CONST}"
      using rewritten_preserves[OF L(1) ow _ _, of idx fn'] r by blast
    have "\<exists>X. L' ! b = filter (\<lambda>i. i \<notin> X) (L0 ! b)" if b: "b < length (f_blocks fn0)" for b
    proof -
      obtain X where "L ! b = filter (\<lambda>i. i \<notin> X) (L0 ! b)" using L(2) b by blast
      moreover obtain Y where "L' ! b = filter (\<lambda>i. i \<notin> Y) (L ! b)" using L'(5) b block_edges_length[OF be] by auto
      ultimately show ?thesis by (auto intro!: exI[of _ "X \<union> Y"] filter_cong)
    qed
    moreover have "live fn0 i \<and> i_opcode (f_insts fn' ! i) \<in> {i_opcode (f_insts fn0 ! i), NY_OPCODE_CONST}" if "live fn' i" for i
      using L'(6)[rule_format, OF that] lv[rule_format, of i] by auto
    ultimately show ?thesis using L'(1,2) L'(3)[unfolded len] L'(4)[unfolded be] unfolding fold_inv_def by blast
  qed
qed

lemma const_fold_step_defined:
  assumes "fn_wf fn L" "ops_wf fn" "idx < length (f_insts fn)" "\<forall>i. live fn i \<longrightarrow> i_opcode (f_insts fn ! i) \<notin> unsafe_ops"
  shows "\<exists>s. const_fold_step h (fn, ch) idx = Some s"
proof (cases "i_opcode (f_insts fn ! idx) = NY_OPCODE_NONE \<or> i_opcode (f_insts fn ! idx) = NY_OPCODE_CONST
      \<or> i_result (f_insts fn ! idx) = NY_INVALID_VALUE \<or> ny_function_get_value fn (i_result (f_insts fn ! idx)) = None")
  case True
  then show ?thesis using assms(3) by (auto simp: const_fold_step_def)
next
  case False
  then obtain v where v: "ny_function_get_value fn (i_result (f_insts fn ! idx)) = Some v" by blast
  have "live fn idx" using assms(3) False by (simp add: live_def)
  then obtain r where "rewrite_inst h fn idx (f_insts fn ! idx) (ny_opt_get_type_bit_width (v_type v)) = Some r"
    using rewrite_defined[OF assms(1,2), of idx "ny_opt_get_type_bit_width (v_type v)" h] assms(4) type_bit_width by blast
  then show ?thesis using assms(3) False v by (cases r) (auto simp: const_fold_step_def)
qed

lemma const_fold_pass_inv:
  assumes "fn_wf fn L" "ops_wf fn" "ny_opt_pass_const_fold h fn = Some (fn', ch)"
  shows "fold_inv fn L fn'"
proof -
  have "fold_inv fn L (fst (fn', ch))" using assms(3) unfolding ny_opt_pass_const_fold_def
  proof (rule foldM_inv)
    show "fold_inv fn L (fst (fn, False))" using fold_inv_refl[OF assms(1,2)] by simp
    show "fold_inv fn L (fst s')" if "fold_inv fn L (fst s)" "const_fold_step h s x = Some s'" for s x s'
      using fold_inv_step[OF that(1), of h "snd s" x "fst s'" "snd s'"] that(2) by simp
  qed
  then show ?thesis by simp
qed

lemma const_fold_pass_defined:
  assumes wf: "fn_wf fn L" "ops_wf fn" and safe: "\<forall>i. live fn i \<longrightarrow> i_opcode (f_insts fn ! i) \<notin> unsafe_ops"
  shows "\<exists>r. ny_opt_pass_const_fold h fn = Some r"
proof -
  have "\<exists>t. foldM (const_fold_step h) (fn, False) [0..<length (f_insts fn)] = Some t \<and> fold_inv fn L (fst t)"
  proof (rule foldM_total)
    show "fold_inv fn L (fst (fn, False))" using fold_inv_refl[OF wf] by simp
    fix s :: "ny_function \<times> bool" and x assume x: "x \<in> set [0..<length (f_insts fn)]" and inv: "fold_inv fn L (fst s)"
    then obtain L1 where L1: "fn_wf (fst s) L1" "ops_wf (fst s)" "x < length (f_insts (fst s))"
      and lv: "live (fst s) i \<Longrightarrow> live fn i \<and> i_opcode (f_insts (fst s) ! i) \<in> {i_opcode (f_insts fn ! i), NY_OPCODE_CONST}" for i
      by (auto simp: fold_inv_def)
    have "\<forall>i. live (fst s) i \<longrightarrow> i_opcode (f_insts (fst s) ! i) \<notin> unsafe_ops"
    proof (intro allI impI)
      fix i assume "live (fst s) i"
      from lv[OF this] safe show "i_opcode (f_insts (fst s) ! i) \<notin> unsafe_ops" by (auto simp: unsafe_ops_def)
    qed
    then obtain r where r: "const_fold_step h (fst s, snd s) x = Some r"
      using const_fold_step_defined[OF L1, of h "snd s"] by blast
    then show "\<exists>s'. const_fold_step h s x = Some s' \<and> fold_inv fn L (fst s')"
      using fold_inv_step[OF inv, of h "snd s" x "fst r" "snd r"] by simp
  qed
  then show "\<exists>r. ny_opt_pass_const_fold h fn = Some r" by (auto simp: ny_opt_pass_const_fold_def)
qed

text \<open>A host unit for the examples, which do not run floating-point arithmetic.\<close>

definition sample_fpu :: host_fpu where
  "sample_fpu = \<lparr>h_add = (\<lambda>a b. 0), h_sub = (\<lambda>a b. 0), h_mul = (\<lambda>a b. 0), h_div = (\<lambda>a b. 0), h_of_int = (\<lambda>n. 0),
     h_to_int = (\<lambda>x. None)\<rparr>"

text \<open>
  One step of the pass on a two-operand integer instruction whose operands are constants of the
  result's width: when the folder gives a value, the instruction becomes a constant in place whose
  single operand is the exact result reduced to the width, and no other instruction changes.
\<close>

theorem const_fold_step_binary:
  assumes "fn_wf fn L" "ops_wf fn" "live fn idx" "i_op_count (f_insts fn ! idx) = 2"
    and "i_opcode (f_insts fn ! idx) \<noteq> NY_OPCODE_CONST" "i_result (f_insts fn ! idx) \<noteq> NY_INVALID_VALUE"
    and "ny_function_get_value fn (i_result (f_insts fn ! idx)) = Some v" "w = ny_opt_get_type_bit_width (v_type v)"
    and "ny_opt_get_operand_const_int fn (inst_ops fn idx ! 0) = Some (Some a)" "normal w a"
    and "ny_opt_get_operand_const_int fn (inst_ops fn idx ! 1) = Some (Some b)" "normal w b"
    and "ny_fold_int_binary (i_opcode (f_insts fn ! idx)) a b w = Some (Some r)"
  shows "\<exists>fn' x. const_fold_step h (fn, ch) idx = Some (fn', True)
    \<and> i_opcode (f_insts fn' ! idx) = NY_OPCODE_CONST \<and> inst_ops fn' idx = [OpInt r]
    \<and> int_sem (i_opcode (f_insts fn ! idx)) w a b = Some x \<and> r = signed_take_bit (w - 1) (word_of_int x)
    \<and> (\<forall>i. live fn i \<longrightarrow> i \<noteq> idx \<longrightarrow> f_insts fn' ! i = f_insts fn ! i \<and> inst_ops fn' i = inst_ops fn i)"
proof -
  let ?inst = "f_insts fn ! idx"
  have w: "w \<in> widths" using type_bit_width by (simp add: assms(8) del: insert_iff)
  have lt: "idx < length (f_insts fn)" "i_opcode ?inst \<noteq> NY_OPCODE_NONE" using assms(3) by (auto simp: live_def)
  have at: "op_at fn (ny_function_get_operands fn ?inst) 0 = Some (inst_ops fn idx ! 0)"
    "op_at fn (ny_function_get_operands fn ?inst) 1 = Some (inst_ops fn idx ! 1)"
    using op_at_inst[OF assms(2,3)] assms(4) by simp_all
  obtain fn' where mk: "make_const fn idx (OpInt r) = Some fn'"
    and fn': "f_insts fn' = (f_insts fn)[idx := ?inst\<lparr>i_opcode := NY_OPCODE_CONST, i_op_count := 1\<rparr>]" "inst_ops fn' idx = [OpInt r]"
      "\<forall>i. live fn i \<longrightarrow> i \<noteq> idx \<longrightarrow> inst_ops fn' i = inst_ops fn i"
    using make_const_spec[OF assms(1-3), of "OpInt r"] assms(4) by auto
  have ft: "fold_to fn idx OpInt (Some (Some r)) = Some (Some fn')" by (simp add: fold_to_def mk)
  have ol: "or_else (Some (Some f)) k = Some (Some f)" "or_else (Some None) k = k" for f k by (simp_all add: or_else_def)
  have "cf_binary h fn idx ?inst w = Some (Some fn')"
    unfolding cf_binary_def Let_def at assms(9,11) bind.bind_lunit by (simp add: assms(13) ft ol)
  then have "rewrite_inst h fn idx ?inst w = Some (Some fn')" using assms(4) by (simp add: rewrite_inst_def ol)
  then have "const_fold_step h (fn, ch) idx = Some (fn', True)"
    using lt assms(5-8) by (simp add: const_fold_step_def)
  moreover obtain x where "int_sem (i_opcode ?inst) w a b = Some x" "r = signed_take_bit (w - 1) (word_of_int x)"
    using fold_int_binary_sound[OF w assms(10,12), of "i_opcode ?inst"] assms(13) by auto
  moreover have "i_opcode (f_insts fn' ! idx) = NY_OPCODE_CONST" using lt by (simp add: fn'(1))
  moreover have "\<forall>i. live fn i \<longrightarrow> i \<noteq> idx \<longrightarrow> f_insts fn' ! i = f_insts fn ! i" by (simp add: fn'(1))
  ultimately show ?thesis using fn'(2,3) by blast
qed

text \<open>An addition of two 8-bit immediates, returned.\<close>

definition add_fn :: ny_function where
  "add_fn = (ny_function_init 0 ''g'' 1 0)\<lparr>f_entry := 0,
     f_blocks := [\<lparr>b_id = 0, b_name = ''entry'', b_first = 0, b_last = 1, b_inst_count = 2, b_preds = [], b_succs = []\<rparr>],
     f_insts := [mk_inst 0 NY_OPCODE_ADD 0 0 2 0 NY_INVALID 1, mk_inst 1 NY_OPCODE_RETURN NY_INVALID 2 1 0 0 NY_INVALID],
     f_values := [\<lparr>v_id = 0, v_type = 1, v_kind = NY_VAL_INSTRUCTION, v_def = 0, v_index = 0, v_name = ''s''\<rparr>],
     f_operands := [OpInt 100, OpInt 100, OpValue 0]\<rparr>"

lemma add_fn_parts: "length (f_insts add_fn) = 2" "length (f_blocks add_fn) = 1" "length (f_operands add_fn) = 3"
  "f_insts add_fn ! 0 = mk_inst 0 NY_OPCODE_ADD 0 0 2 0 NY_INVALID 1"
  "f_insts add_fn ! Suc 0 = mk_inst 1 NY_OPCODE_RETURN NY_INVALID 2 1 0 0 NY_INVALID"
  "f_blocks add_fn ! 0 = \<lparr>b_id = 0, b_name = ''entry'', b_first = 0, b_last = 1, b_inst_count = 2, b_preds = [], b_succs = []\<rparr>"
  "inst_ops add_fn 0 = [OpInt 100, OpInt 100]"
  "ny_function_get_value add_fn 0 = Some \<lparr>v_id = 0, v_type = 1, v_kind = NY_VAL_INSTRUCTION, v_def = 0, v_index = 0, v_name = ''s''\<rparr>"
  by (simp_all add: add_fn_def mk_inst_def inst_ops_def subarray_def)

lemma add_fn_wf: "fn_wf add_fn [[0, 1]]"
proof -
  have "block_ok (f_insts add_fn) (f_blocks add_fn ! 0) 0 [0, 1]"
    by (auto simp: block_ok_def add_fn_parts mk_inst_def)
  moreover have "i_id (f_insts add_fn ! i) = i \<and> i_block (f_insts add_fn ! i) = 0" if "i < 2" for i
    using less_two[OF that] by (auto simp: add_fn_parts mk_inst_def)
  ultimately show ?thesis by (auto simp: fn_wf_def add_fn_parts NY_INVALID_def)
qed

lemma add_ops_wf: "ops_wf add_fn"
proof -
  have lv: "live add_fn i \<Longrightarrow> i = 0 \<or> i = Suc 0" for i by (auto simp: live_def add_fn_parts)
  show ?thesis unfolding ops_wf_def by (auto simp: add_fn_parts mk_inst_def dest!: lv)
qed

theorem const_fold_step_binary_witness:
  "\<exists>fn' r. const_fold_step sample_fpu (add_fn, False) 0 = Some (fn', True) \<and> inst_ops fn' 0 = [OpInt r]
     \<and> r = signed_take_bit 7 (word_of_int 200) \<and> f_insts fn' ! 1 = f_insts add_fn ! 1"
proof -
  have w8: "(8 :: nat) = ny_opt_get_type_bit_width 1" by (simp add: ny_opt_get_type_bit_width_def)
  have n: "normal 8 (100 :: 64 word)" by (simp add: normal_def signed_take_bit_eq_if_positive bit_numeral_rec)
  have sem: "int_sem NY_OPCODE_ADD 8 100 100 = Some 200" by (simp add: int_sem_def normal_sval[OF n])
  obtain r where r: "ny_fold_int_binary NY_OPCODE_ADD 100 100 8 = Some (Some r)"
    using fold_int_binary_sound[OF _ n n, of NY_OPCODE_ADD] sem
    by (cases "ny_fold_int_binary NY_OPCODE_ADD 100 100 8") (auto split: option.splits)
  have c: "ny_opt_get_operand_const_int add_fn (inst_ops add_fn 0 ! i) = Some (Some 100)" if "i < 2" for i
    using less_two[OF that] by (auto simp: ny_opt_get_operand_const_int_def add_fn_parts)
  have lv: "live add_fn 0" "live add_fn 1" by (simp_all add: live_def add_fn_parts mk_inst_def)
  have res: "i_result (f_insts add_fn ! 0) = 0" "i_op_count (f_insts add_fn ! 0) = 2" "i_opcode (f_insts add_fn ! 0) = NY_OPCODE_ADD"
    by (simp_all add: add_fn_parts mk_inst_def)
  obtain fn' x where "const_fold_step sample_fpu (add_fn, False) 0 = Some (fn', True)" "inst_ops fn' 0 = [OpInt r]"
    "int_sem NY_OPCODE_ADD 8 100 100 = Some x" "r = signed_take_bit (8 - 1) (word_of_int x)"
    "\<forall>i. live add_fn i \<longrightarrow> i \<noteq> 0 \<longrightarrow> f_insts fn' ! i = f_insts add_fn ! i \<and> inst_ops fn' i = inst_ops add_fn i"
    using const_fold_step_binary[OF add_fn_wf add_ops_wf lv(1), of _ 8 100 100 r sample_fpu False, unfolded res, OF _ _ _ add_fn_parts(8)]
      c[of 0] c[of 1] n r w8 by (auto simp: NY_INVALID_def)
  then show ?thesis using lv(2) sem by auto
qed

end
