(* ===== verification/Csr.thy ===== *)
theory Csr
  imports Prelude
begin

text \<open>
  The bucket layout the analyses share (uses of a value, children of a block): counts per key, a
  prefix sum for the start of every bucket, and a second walk that writes each element at the
  cursor of its bucket.
\<close>

subsection \<open>The loops\<close>

fun prefix_starts :: "nat \<Rightarrow> nat list \<Rightarrow> nat list \<times> nat" where
  "prefix_starts tot [] = ([], tot)"
| "prefix_starts tot (c # cs) = (let (ss, t) = prefix_starts (u64 (tot + c)) cs in (u32 tot # ss, t))"

definition csr_count :: "nat list \<Rightarrow> nat \<Rightarrow> nat list option" where
  "csr_count counts v = do { c \<leftarrow> rd counts v; wr counts v (u32 (c + 1)) }"

definition csr_put :: "nat list \<Rightarrow> nat list \<times> 'a list \<Rightarrow> nat \<Rightarrow> 'a \<Rightarrow> (nat list \<times> 'a list) option" where
  "csr_put start = (\<lambda>(cursor, arr) v x. do {
     s \<leftarrow> rd start v;
     c \<leftarrow> rd cursor v;
     arr \<leftarrow> wr arr (s + c) x;
     cursor \<leftarrow> wr cursor v (u32 (c + 1));
     Some (cursor, arr)
   })"

subsection \<open>What they compute\<close>

definition bucket :: "(nat \<times> 'a) list \<Rightarrow> nat \<Rightarrow> 'a list" where
  "bucket es v = map snd (filter (\<lambda>e. fst e = v) es)"

definition bucket_sizes :: "nat \<Rightarrow> (nat \<times> 'a) list \<Rightarrow> nat list" where
  "bucket_sizes n es = map (\<lambda>v. length (bucket es v)) [0..<n]"

lemma bucket_append [simp]: "bucket (xs @ ys) v = bucket xs v @ bucket ys v"
  by (simp add: bucket_def)

lemma bucket_simps [simp]: "bucket [] v = []" "bucket ((w, x) # es) v = (if w = v then x # bucket es v else bucket es v)"
  by (simp_all add: bucket_def)

lemma length_bucket_sizes [simp]: "length (bucket_sizes n es) = n"
  by (simp add: bucket_sizes_def)

lemma nth_bucket_sizes [simp]: "v < n \<Longrightarrow> bucket_sizes n es ! v = length (bucket es v)"
  by (simp add: bucket_sizes_def)

lemma bucket_sizes_Nil [simp]: "bucket_sizes n [] = replicate n 0"
  by (rule nth_equalityI) simp_all

lemma length_bucket_le: "length (bucket es v) \<le> length es"
  by (simp add: bucket_def)

lemma bucket_sizes_snoc:
  "v < n \<Longrightarrow> bucket_sizes n (es @ [(v, x)]) = (bucket_sizes n es)[v := Suc (length (bucket es v))]"
  by (rule nth_equalityI) (auto simp: nth_list_update)

lemma sum_list_upd: "v < length cs \<Longrightarrow> sum_list (cs[v := Suc (cs ! v)]) = Suc (sum_list cs)" for cs :: "nat list"
  by (induction cs arbitrary: v) (auto split: nat.splits)

lemma sum_bucket_sizes: "\<forall>e \<in> set es. fst e < n \<Longrightarrow> sum_list (bucket_sizes n es) = length es"
proof (induction es rule: rev_induct)
  case Nil
  then show ?case by (simp add: sum_list_replicate)
next
  case (snoc e es)
  then have "fst e < n" by simp
  then have "bucket_sizes n (es @ [e]) = (bucket_sizes n es)[fst e := Suc (bucket_sizes n es ! fst e)]"
    using bucket_sizes_snoc[of "fst e" n es "snd e"] by simp
  then show ?case using snoc sum_list_upd[of "fst e" "bucket_sizes n es"] by simp
qed

lemma count_loop:
  assumes "\<forall>e \<in> set es. fst e < n" "length es < 4294967296"
  shows "foldM (\<lambda>c e. csr_count c (fst e)) (replicate n 0) es = Some (bucket_sizes n es)"
  using assms
proof (induction es rule: rev_induct)
  case Nil
  then show ?case by simp
next
  case (snoc e es)
  then have "fst e < n" "length (bucket es (fst e)) < length (es @ [e])" using length_bucket_le[of es "fst e"] by simp_all
  then show ?case using snoc bucket_sizes_snoc[of "fst e" n es "snd e"] by (simp add: foldM_append csr_count_def)
qed

lemma prefix_starts_sum:
  assumes "t + sum_list cs < 4294967296"
  shows "prefix_starts t cs = (map (\<lambda>v. t + sum_list (take v cs)) [0..<length cs], t + sum_list cs)"
  using assms
proof (induction cs arbitrary: t)
  case (Cons c cs)
  have "prefix_starts (t + c) cs = (map (\<lambda>v. t + c + sum_list (take v cs)) [0..<length cs], t + c + sum_list cs)"
    using Cons.prems by (intro Cons.IH) simp
  moreover have "[0..<Suc (length cs)] = 0 # map Suc [0..<length cs]" by (simp only: map_Suc_upt upt_conv_Cons[OF zero_less_Suc])
  ultimately show ?case using Cons.prems by (simp add: o_def add.assoc del: upt_Suc)
qed simp

lemma sum_take_mono: "v < w \<Longrightarrow> w \<le> length cs \<Longrightarrow> sum_list (take v cs) + cs ! v \<le> sum_list (take w cs)" for cs :: "nat list"
proof -
  assume a: "v < w" "w \<le> length cs"
  have "take w cs = take v cs @ cs ! v # drop (Suc v) (take w cs)"
    using a id_take_nth_drop[of v "take w cs"] by (simp add: min_def)
  then have "sum_list (take w cs) = sum_list (take v cs) + (cs ! v + sum_list (drop (Suc v) (take w cs)))"
    by (metis sum_list.Cons sum_list.append)
  then show ?thesis by simp
qed

lemma sum_take_le: "v < length cs \<Longrightarrow> sum_list (take v cs) + cs ! v \<le> sum_list cs" for cs :: "nat list"
  using sum_take_mono[of v "length cs" cs] by simp

text \<open>The second walk fills every bucket, in order, and never writes outside the array.\<close>

lemma put_loop:
  assumes keys: "\<forall>e \<in> set es. fst e < n" and small: "length es < 4294967296"
    and starts: "start = map (\<lambda>v. sum_list (take v (bucket_sizes n es))) [0..<n]" and len: "length arr0 = length es"
  shows "\<exists>arr. foldM (\<lambda>s e. csr_put start s (fst e) (snd e)) (replicate n 0, arr0) es = Some (bucket_sizes n es, arr)
    \<and> length arr = length es \<and> (\<forall>v < n. \<forall>k < length (bucket es v). arr ! (start ! v + k) = bucket es v ! k)"
proof -
  let ?cs = "bucket_sizes n es"
  have sep: "start ! v + length (bucket es v) \<le> start ! w" if "v < w" "w < n" for v w
    using sum_take_mono[of v w ?cs] that by (simp add: starts)
  have fit: "start ! v + length (bucket es v) \<le> length es" if "v < n" for v
    using sum_take_le[of v ?cs] that sum_bucket_sizes[OF keys] by (simp add: starts)
  have "es = p @ q \<Longrightarrow> \<exists>arr. foldM (\<lambda>s e. csr_put start s (fst e) (snd e)) (replicate n 0, arr0) p = Some (bucket_sizes n p, arr)
    \<and> length arr = length es \<and> (\<forall>v < n. \<forall>k < length (bucket p v). arr ! (start ! v + k) = bucket p v ! k)" for p q
  proof (induction p arbitrary: q rule: rev_induct)
    case Nil
    then show ?case using len by simp
  next
    case (snoc e p)
    obtain v x where e: "e = (v, x)" by (cases e)
    have v: "v < n" using snoc.prems keys e by simp
    obtain arr where IH: "foldM (\<lambda>s e. csr_put start s (fst e) (snd e)) (replicate n 0, arr0) p = Some (bucket_sizes n p, arr)"
      "length arr = length es" "\<forall>v < n. \<forall>k < length (bucket p v). arr ! (start ! v + k) = bucket p v ! k"
      using snoc.IH[of "e # q"] snoc.prems by auto
    have le: "length (bucket p w) + (if w = v then 1 else 0) \<le> length (bucket es w)" for w
      using snoc.prems e by simp
    define pos where "pos = start ! v + length (bucket p v)"
    have pos: "pos < length es" using fit[OF v] le[of v] by (simp add: pos_def)
    have cnt: "Suc (length (bucket p v)) < 4294967296" using le[of v] length_bucket_le[of es v] small by simp
    have "foldM (\<lambda>s e. csr_put start s (fst e) (snd e)) (replicate n 0, arr0) (p @ [e]) = Some (bucket_sizes n (p @ [e]), arr[pos := x])"
      using IH(1,2) pos v cnt bucket_sizes_snoc[OF v, of p x]
      by (simp add: foldM_append e csr_put_def pos_def[symmetric] starts nth_append)
        (simp add: pos_def starts)
    moreover have "arr[pos := x] ! (start ! w + k) = bucket (p @ [e]) w ! k" if w: "w < n" and k: "k < length (bucket (p @ [e]) w)" for w k
    proof (cases "w = v")
      case True
      show ?thesis
      proof (cases "k = length (bucket p v)")
        case True
        then show ?thesis using \<open>w = v\<close> pos IH(2) e by (simp add: pos_def)
      next
        case False
        then have "k < length (bucket p v)" using k \<open>w = v\<close> e by simp
        then show ?thesis using IH(3) v \<open>w = v\<close> e by (simp add: pos_def nth_append)
      qed
    next
      case False
      then have k': "k < length (bucket p w)" using k e by simp
      have "start ! w + k \<noteq> pos"
        using sep[of v w] sep[of w v] False w v le[of w] le[of v] k' unfolding pos_def by (cases "v < w") force+
      then show ?thesis using IH(3) w k' False e by simp
    qed
    ultimately show ?case using IH(2) by auto
  qed
  from this[of es "[]"] show ?thesis by simp
qed

end
