(* ===== verification/Use_Def.thy ===== *)
theory Use_Def
  imports Csr IR_Examples
begin

text \<open>
  The use-def chains of a function, \<^verbatim>\<open>src/analysis/use_def.c\<close>: for every value the instruction that
  defines it and its uses, laid out as one array with a start and a count per value.
\<close>

subsection \<open>The analysis\<close>

record ny_use_def =
  ud_def_inst :: "nat list"
  ud_use_start :: "nat list"
  ud_use_count :: "nat list"
  ud_val_count :: nat
  ud_uses :: "(nat \<times> nat) list"
  ud_total_uses :: nat

text \<open>The loop over the value operands of an instruction with an id below \<open>n\<close>.\<close>

definition each_use :: "ny_function \<Rightarrow> nat \<Rightarrow> ny_instruction \<Rightarrow> ('s \<Rightarrow> nat \<Rightarrow> nat \<Rightarrow> 's option) \<Rightarrow> 's \<Rightarrow> 's option" where
  "each_use fn n inst f s = foldM (\<lambda>s op_i. do {
       op \<leftarrow> op_at fn (ny_function_get_operands fn inst) op_i;
       (case op of OpValue v \<Rightarrow> if v < n then f s op_i v else Some s | _ \<Rightarrow> Some s)
     }) s [0..<i_op_count inst]"

definition ud_count_inst :: "ny_function \<Rightarrow> nat \<Rightarrow> nat list \<times> nat list \<Rightarrow> ny_instruction \<Rightarrow> (nat list \<times> nat list) option" where
  "ud_count_inst fn n = (\<lambda>(defs, counts) inst.
     if i_opcode inst = NY_OPCODE_NONE then Some (defs, counts)
     else do {
       let defs = (if i_result inst \<noteq> NY_INVALID_VALUE \<and> i_result inst < n then defs[i_result inst := i_id inst] else defs);
       counts \<leftarrow> each_use fn n inst (\<lambda>counts op_i v. csr_count counts v) counts;
       Some (defs, counts)
     })"

definition ud_place_inst ::
  "ny_function \<Rightarrow> nat \<Rightarrow> nat list \<Rightarrow> nat list \<times> (nat \<times> nat) list \<Rightarrow> ny_instruction \<Rightarrow> (nat list \<times> (nat \<times> nat) list) option" where
  "ud_place_inst fn n start s inst =
     (if i_opcode inst = NY_OPCODE_NONE then Some s
      else each_use fn n inst (\<lambda>s op_i v. csr_put start s v (i_id inst, u16 op_i)) s)"

text \<open>\<open>fresh\<close> is the content of the newly allocated array of uses, which is not initialised.\<close>

definition ny_use_def_init :: "(nat \<Rightarrow> nat \<times> nat) \<Rightarrow> ny_function \<Rightarrow> ny_use_def option" where
  "ny_use_def_init fresh fn =
     (let n = length (f_values fn)
      in if n = 0 then Some \<lparr>ud_def_inst = [], ud_use_start = [], ud_use_count = [], ud_val_count = 0, ud_uses = [], ud_total_uses = 0\<rparr>
      else do {
        (defs, counts) \<leftarrow> foldM (ud_count_inst fn n) (replicate n NY_INVALID_INST, replicate n 0) (f_insts fn);
        let (start, total_uses) = prefix_starts 0 counts;
        (cursor, uses) \<leftarrow> (if total_uses > 0
           then foldM (ud_place_inst fn n start) (replicate n 0, map fresh [0..<total_uses]) (f_insts fn)
           else Some ([], []));
        Some \<lparr>ud_def_inst = defs, ud_use_start = start, ud_use_count = counts, ud_val_count = n, ud_uses = uses, ud_total_uses = total_uses\<rparr>
      })"

definition ny_use_def_get_def :: "ny_use_def \<Rightarrow> nat \<Rightarrow> nat" where
  "ny_use_def_get_def ud val = (if val < length (ud_def_inst ud) then ud_def_inst ud ! val else NY_INVALID_INST)"

definition ny_use_def_use_count :: "ny_use_def \<Rightarrow> nat \<Rightarrow> nat" where
  "ny_use_def_use_count ud val = (if val < ud_val_count ud then ud_use_count ud ! val else 0)"

definition ny_use_def_get_uses :: "ny_use_def \<Rightarrow> nat \<Rightarrow> (nat \<times> nat) list" where
  "ny_use_def_get_uses ud val =
     (if val \<ge> ud_val_count ud then []
      else if ud_use_count ud ! val = 0 then []
      else subarray (ud_use_start ud ! val) (ud_use_count ud ! val) (ud_uses ud))"

definition ny_use_def_has_uses :: "ny_use_def \<Rightarrow> nat \<Rightarrow> bool" where
  "ny_use_def_has_uses ud val \<longleftrightarrow> ny_use_def_use_count ud val > 0"

definition ny_use_def_has_single_use :: "ny_use_def \<Rightarrow> nat \<Rightarrow> bool" where
  "ny_use_def_has_single_use ud val \<longleftrightarrow> ny_use_def_use_count ud val = 1"

definition ny_use_def_destroy :: "ny_use_def \<Rightarrow> ny_use_def" where
  "ny_use_def_destroy ud = \<lparr>ud_def_inst = [], ud_use_start = [], ud_use_count = [], ud_val_count = 0, ud_uses = [], ud_total_uses = 0\<rparr>"

subsection \<open>Specification\<close>

text \<open>The uses of a value: the operand positions of live instructions that hold it, in index order.\<close>

definition inst_uses :: "ny_function \<Rightarrow> nat \<Rightarrow> nat \<Rightarrow> (nat \<times> nat) list" where
  "inst_uses fn n i = List.map_filter (\<lambda>k. case inst_ops fn i ! k of OpValue v \<Rightarrow> if v < n then Some (v, k) else None | _ \<Rightarrow> None)
     [0..<i_op_count (f_insts fn ! i)]"

definition live_insts :: "ny_function \<Rightarrow> nat list" where
  "live_insts fn = filter (live fn) [0..<length (f_insts fn)]"

definition use_events :: "ny_function \<Rightarrow> (nat \<times> nat \<times> nat) list" where
  "use_events fn = concat (map (\<lambda>i. map (\<lambda>(v, k). (v, i, k)) (inst_uses fn (length (f_values fn)) i)) (live_insts fn))"

definition value_uses :: "ny_function \<Rightarrow> nat \<Rightarrow> (nat \<times> nat) list" where
  "value_uses fn v = concat (map (\<lambda>i. map (Pair i) (filter (\<lambda>k. inst_ops fn i ! k = OpValue v) [0..<i_op_count (f_insts fn ! i)])) (live_insts fn))"

definition last_def :: "ny_function \<Rightarrow> nat \<Rightarrow> nat" where
  "last_def fn v = fold (\<lambda>i d. if i_result (f_insts fn ! i) = v then i else d) (live_insts fn) NY_INVALID_INST"

lemma bucket_map_filter:
  "map snd (filter (\<lambda>e. fst e = v) (List.map_filter g ks)) = List.map_filter (\<lambda>k. case g k of Some (w, x) \<Rightarrow> if w = v then Some x else None | None \<Rightarrow> None) ks"
  by (induction ks) (auto simp: List.map_filter_simps split: option.splits)

lemma set_map_filter: "set (List.map_filter g xs) = {y. \<exists>x \<in> set xs. g x = Some y}"
  by (induction xs) (auto simp: List.map_filter_simps split: option.splits)

lemma inst_uses_mem: "(v, k) \<in> set (inst_uses fn n i) \<longleftrightarrow> k < i_op_count (f_insts fn ! i) \<and> inst_ops fn i ! k = OpValue v \<and> v < n"
proof -
  have "(case inst_ops fn i ! x of OpValue v \<Rightarrow> if v < n then Some (v, x) else None | _ \<Rightarrow> None) = Some (v, k)
      \<longleftrightarrow> inst_ops fn i ! x = OpValue v \<and> v < n \<and> x = k" for x
    by (cases "inst_ops fn i ! x") auto
  then show ?thesis unfolding inst_uses_def set_map_filter by auto
qed

lemma inst_uses_bucket:
  assumes "v < n"
  shows "map snd (filter (\<lambda>e. fst e = v) (inst_uses fn n i)) = filter (\<lambda>k. inst_ops fn i ! k = OpValue v) [0..<i_op_count (f_insts fn ! i)]"
proof -
  have "(case (case inst_ops fn i ! k of OpValue v \<Rightarrow> if v < n then Some (v, k) else None | _ \<Rightarrow> None) of
      Some (w, x) \<Rightarrow> if w = v then Some x else None | None \<Rightarrow> None) = (if inst_ops fn i ! k = OpValue v then Some k else None)" for k
    using assms by (cases "inst_ops fn i ! k") auto
  then show ?thesis unfolding inst_uses_def bucket_map_filter by (simp add: List.map_filter_def) (rule map_idI, simp)
qed

lemma use_events_bucket: "v < length (f_values fn) \<Longrightarrow> bucket (use_events fn) v = value_uses fn v"
proof -
  assume v: "v < length (f_values fn)"
  have pull: "map snd (filter (\<lambda>e. fst e = v) (map (\<lambda>(v, k). (v, i, k)) xs)) = map (Pair i) (map snd (filter (\<lambda>e. fst e = v) xs))"
    for i and xs :: "(nat \<times> nat) list" by (induction xs) auto
  show ?thesis unfolding bucket_def use_events_def value_uses_def filter_concat map_concat map_map o_def pull inst_uses_bucket[OF v] ..
qed

subsection \<open>The loops compute it\<close>

lemma foldM_map: "foldM f s (map g xs) = foldM (\<lambda>s x. f s (g x)) s xs"
  by (induction xs arbitrary: s) auto

lemma foldM_concat: "foldM f s (concat xss) = foldM (foldM f) s xss"
  by (induction xss arbitrary: s) (auto simp: foldM_append)

lemma foldM_filter: "foldM f s (filter p xs) = foldM (\<lambda>s x. if p x then f s x else Some s) s xs"
  by (induction xs arbitrary: s) auto

lemma foldM_cong: "(\<And>s x. x \<in> set xs \<Longrightarrow> f s x = g s x) \<Longrightarrow> foldM f s xs = foldM g s xs"
  by (induction xs arbitrary: s) (auto split: Option.bind_splits)

lemma foldM_map_filter: "foldM f s (List.map_filter g xs) = foldM (\<lambda>s x. case g x of None \<Rightarrow> Some s | Some y \<Rightarrow> f s y) s xs"
  by (induction xs arbitrary: s) (auto simp: List.map_filter_simps split: option.splits)

lemma each_use_events:
  assumes "ops_wf fn" "live fn i"
  shows "each_use fn n (f_insts fn ! i) f s = foldM (\<lambda>s (v, k). f s k v) s (inst_uses fn n i)"
  unfolding each_use_def inst_uses_def foldM_map_filter
  by (rule foldM_cong) (simp add: op_at_inst[OF assms] split: ny_operand.splits)

lemma foldM_live:
  "(\<And>s i. live fn i \<Longrightarrow> f s (f_insts fn ! i) = g s i) \<Longrightarrow>
   (\<And>s i. i < length (f_insts fn) \<Longrightarrow> \<not> live fn i \<Longrightarrow> f s (f_insts fn ! i) = Some s) \<Longrightarrow>
   foldM f s (f_insts fn) = foldM g s (live_insts fn)"
proof -
  assume a: "\<And>s i. live fn i \<Longrightarrow> f s (f_insts fn ! i) = g s i" "\<And>s i. i < length (f_insts fn) \<Longrightarrow> \<not> live fn i \<Longrightarrow> f s (f_insts fn ! i) = Some s"
  have "foldM f s (f_insts fn) = foldM f s (map (\<lambda>i. f_insts fn ! i) [0..<length (f_insts fn)])" by (simp add: map_nth)
  also have "\<dots> = foldM g s (live_insts fn)"
    unfolding foldM_map live_insts_def foldM_filter by (rule foldM_cong) (use a in auto)
  finally show ?thesis .
qed

lemma foldM_pair:
  "foldM (\<lambda>(a, b) x. do { b' \<leftarrow> h b x; Some (g a x, b') }) (a, b) xs = map_option (Pair (fold (\<lambda>x a. g a x) xs a)) (foldM h b xs)"
  by (induction xs arbitrary: a b) (auto simp: map_conv_bind_option split: Option.bind_splits)

lemma fold_defs:
  assumes "v < n" "n \<le> NY_INVALID"
  shows "length defs = n \<Longrightarrow>
    fold (\<lambda>i defs. if i_result (f_insts fn ! i) \<noteq> NY_INVALID_VALUE \<and> i_result (f_insts fn ! i) < n
        then defs[i_result (f_insts fn ! i) := i] else defs) is defs ! v
    = fold (\<lambda>i d. if i_result (f_insts fn ! i) = v then i else d) is (defs ! v)"
  using assms by (induction "is" arbitrary: defs) (auto simp: nth_list_update)

lemma length_fold_defs:
  "length (fold (\<lambda>i defs. if P i then defs[h i := i] else defs) is defs) = length defs"
  by (induction "is" arbitrary: defs) auto

lemma live_bound: "i \<in> set (live_insts fn) \<longleftrightarrow> live fn i"
  by (auto simp: live_insts_def live_def)

lemma use_events_keys: "\<forall>e \<in> set (use_events fn). fst e < length (f_values fn)"
  by (auto simp: use_events_def inst_uses_mem)

lemma count_events:
  assumes wf: "fn_wf fn L" and ow: "ops_wf fn" and n: "n = length (f_values fn)" and small: "length (use_events fn) < 4294967296"
  shows "foldM (ud_count_inst fn n) (replicate n NY_INVALID_INST, replicate n 0) (f_insts fn)
    = Some (fold (\<lambda>i defs. if i_result (f_insts fn ! i) \<noteq> NY_INVALID_VALUE \<and> i_result (f_insts fn ! i) < n
        then defs[i_result (f_insts fn ! i) := i] else defs) (live_insts fn) (replicate n NY_INVALID_INST), bucket_sizes n (use_events fn))"
proof -
  define g where "g = (\<lambda>defs i. if i_result (f_insts fn ! i) \<noteq> NY_INVALID_VALUE \<and> i_result (f_insts fn ! i) < n
        then defs[i_result (f_insts fn ! i) := i] else defs)"
  define h where "h = (\<lambda>c i. foldM (\<lambda>c (v, k). csr_count c v) c (inst_uses fn n i))"
  have "foldM (ud_count_inst fn n) s (f_insts fn) = foldM (\<lambda>(a, b) x. do { b' \<leftarrow> h b x; Some (g a x, b') }) s (live_insts fn)" for s
  proof (rule foldM_live)
    show "ud_count_inst fn n s (f_insts fn ! i) = (\<lambda>(a, b) x. do { b' \<leftarrow> h b x; Some (g a x, b') }) s i" if "live fn i" for s i
      using that live_index[OF wf that] by (cases s) (auto simp: ud_count_inst_def each_use_events[OF ow that] g_def h_def live_def Let_def)
    show "ud_count_inst fn n s (f_insts fn ! i) = Some s" if "i < length (f_insts fn)" "\<not> live fn i" for s i
      using that by (cases s) (auto simp: ud_count_inst_def live_def)
  qed
  moreover have "foldM h c (live_insts fn) = foldM (\<lambda>c e. csr_count c (fst e)) c (use_events fn)" for c
    unfolding use_events_def foldM_concat h_def n foldM_map by (simp add: foldM_map case_prod_unfold)
  ultimately show ?thesis using count_loop[OF use_events_keys small] by (simp add: foldM_pair n g_def)
qed

lemma place_events:
  assumes "fn_wf fn L" and ow: "ops_wf fn" and n: "n = length (f_values fn)"
  shows "foldM (ud_place_inst fn n start) s (f_insts fn) = foldM (\<lambda>s e. csr_put start s (fst e) (snd e)) s (use_events fn)"
proof -
  have "foldM (ud_place_inst fn n start) s (f_insts fn)
      = foldM (\<lambda>s i. foldM (\<lambda>s (v, k). csr_put start s v (i, k)) s (inst_uses fn n i)) s (live_insts fn)"
  proof (rule foldM_live)
    show "ud_place_inst fn n start s (f_insts fn ! i) = foldM (\<lambda>s (v, k). csr_put start s v (i, k)) s (inst_uses fn n i)" if "live fn i" for s i
    proof -
      have "k < 65536" if "(v, k) \<in> set (inst_uses fn n i)" for v k
        using that ow \<open>live fn i\<close> unfolding inst_uses_mem ops_wf_def by (blast intro: order.strict_trans)
      then have "foldM (\<lambda>s (v, k). csr_put start s v (i, u16 k)) s (inst_uses fn n i)
          = foldM (\<lambda>s (v, k). csr_put start s v (i, k)) s (inst_uses fn n i)"
        by (intro foldM_cong) auto
      then show ?thesis using \<open>live fn i\<close> live_index[OF assms(1) \<open>live fn i\<close>]
        by (simp add: ud_place_inst_def each_use_events[OF ow \<open>live fn i\<close>] live_def)
    qed
    show "ud_place_inst fn n start s (f_insts fn ! i) = Some s" if "i < length (f_insts fn)" "\<not> live fn i" for s i
      using that by (auto simp: ud_place_inst_def live_def)
  qed
  also have "\<dots> = foldM (\<lambda>s e. csr_put start s (fst e) (snd e)) s (use_events fn)"
    unfolding use_events_def foldM_concat n foldM_map by (simp add: foldM_map case_prod_unfold)
  finally show ?thesis .
qed

lemma use_def_facts:
  assumes wf: "fn_wf fn L" and ow: "ops_wf fn" and n: "length (f_values fn) \<le> NY_INVALID" and small: "length (use_events fn) < 4294967296"
  shows "\<exists>ud. ny_use_def_init fresh fn = Some ud \<and> ud_val_count ud = length (f_values fn)
    \<and> (\<forall>v < length (f_values fn). ny_use_def_get_uses ud v = value_uses fn v
        \<and> ny_use_def_use_count ud v = length (value_uses fn v) \<and> ny_use_def_get_def ud v = last_def fn v)"
proof (cases "length (f_values fn) = 0")
  case True
  then show ?thesis by (simp add: ny_use_def_init_def)
next
  case False
  let ?n = "length (f_values fn)" and ?es = "use_events fn"
  let ?cs = "bucket_sizes ?n ?es"
  define start where "start = map (\<lambda>v. sum_list (take v ?cs)) [0..<?n]"
  define defs where "defs = fold (\<lambda>i defs. if i_result (f_insts fn ! i) \<noteq> NY_INVALID_VALUE \<and> i_result (f_insts fn ! i) < ?n
        then defs[i_result (f_insts fn ! i) := i] else defs) (live_insts fn) (replicate ?n NY_INVALID_INST)"
  have tot: "sum_list ?cs = length ?es" by (rule sum_bucket_sizes[OF use_events_keys])
  have ps: "prefix_starts 0 ?cs = (start, length ?es)" using prefix_starts_sum[of 0 ?cs] small tot by (simp add: start_def)
  define arr0 where "arr0 = map fresh [0..<length ?es]"
  obtain arr where arr: "foldM (\<lambda>s e. csr_put start s (fst e) (snd e)) (replicate ?n 0, arr0) ?es = Some (?cs, arr)"
    "length arr = length ?es" "\<forall>v < ?n. \<forall>k < length (bucket ?es v). arr ! (start ! v + k) = bucket ?es v ! k"
    using put_loop[OF use_events_keys small start_def, of arr0] by (auto simp: arr0_def)
  define uses where "uses = (if length ?es > 0 then arr else [])"
  define ud where "ud = \<lparr>ud_def_inst = defs, ud_use_start = start, ud_use_count = ?cs, ud_val_count = ?n, ud_uses = uses, ud_total_uses = length ?es\<rparr>"
  have init: "ny_use_def_init fresh fn = Some ud"
    unfolding ny_use_def_init_def Let_def count_events[OF wf ow refl small] place_events[OF wf ow refl] bind.bind_lunit prod.case ps
    using False arr(1)[unfolded arr0_def] by (simp add: ud_def uses_def defs_def)
  have len: "length defs = ?n" unfolding defs_def length_fold_defs by simp
  have uses: "uses = arr" using arr(2) by (auto simp: uses_def)
  have get: "ny_use_def_get_uses ud v = value_uses fn v" if v: "v < ?n" for v
  proof -
    have "start ! v + length (bucket ?es v) \<le> length ?es" using sum_take_le[of v ?cs] v tot by (simp add: start_def)
    then have "subarray (start ! v) (length (bucket ?es v)) arr = bucket ?es v"
      using arr(2,3) v by (intro nth_equalityI) (simp_all add: length_subarray nth_subarray)
    then show ?thesis using v use_events_bucket[OF v] by (auto simp: ny_use_def_get_uses_def ud_def uses)
  qed
  moreover have "ny_use_def_use_count ud v = length (value_uses fn v)" if "v < ?n" for v
    using that use_events_bucket[OF that] by (simp add: ny_use_def_use_count_def ud_def)
  moreover have "ny_use_def_get_def ud v = last_def fn v" if "v < ?n" for v
    using that len fold_defs[OF that n, of "replicate ?n NY_INVALID_INST" fn "live_insts fn"]
    by (simp add: ny_use_def_get_def_def ud_def last_def_def) (simp add: defs_def)
  ultimately show ?thesis using init by (auto simp: ud_def)
qed

text \<open>
  C25. Use-def chains are exact: on a well-formed function with fewer than \<open>2 ^ 32\<close> operands the
  analysis returns, whatever the memory it allocates holds, and reports for every value its uses
  (instruction and operand position, in index order), their number, and its last live definition.
\<close>

theorem use_def_exact:
  assumes "fn_wf fn L" "ops_wf fn" "length (f_values fn) \<le> NY_INVALID" "length (use_events fn) < 4294967296"
  shows "\<exists>ud. ny_use_def_init fresh fn = Some ud
    \<and> (\<forall>v < length (f_values fn). ny_use_def_get_uses ud v = value_uses fn v
        \<and> ny_use_def_use_count ud v = length (value_uses fn v) \<and> ny_use_def_get_def ud v = last_def fn v)"
  using use_def_facts[OF assms] by blast

lemma sample_live_insts: "live_insts sample_fn = [0, 1, 2, 3]"
  by (simp add: live_insts_def sample_lengths sample_live upt_rec[of _ 4])

lemma sample_inst_ops:
  "inst_ops sample_fn 0 = [OpInt 7]" "inst_ops sample_fn 1 = [OpBlock 1]" "inst_ops sample_fn 2 = [OpValue 0, OpBlock 0]"
  "inst_ops sample_fn 3 = [OpValue 1]"
  by (simp_all add: inst_ops_def sample_inst sample_ops mk_inst_def subarray_def)

lemma sample_inst_uses:
  "inst_uses sample_fn 2 0 = []" "inst_uses sample_fn 2 (Suc 0) = []" "inst_uses sample_fn 2 2 = [(0, 0)]" "inst_uses sample_fn 2 3 = [(1, 0)]"
  using sample_inst_ops(2)
  by (simp_all add: inst_uses_def sample_inst_ops sample_inst mk_inst_def List.map_filter_simps upt_rec[of 0 2] upt_rec[of "Suc 0" 2])

lemma sample_events: "use_events sample_fn = [(0, 2, 0), (1, 3, 0)]"
  by (simp add: use_events_def sample_live_insts sample_lengths sample_inst_uses)

theorem use_def_exact_witness:
  "\<exists>ud. ny_use_def_init (\<lambda>i. (9, 9)) sample_fn = Some ud \<and> ny_use_def_get_uses ud 0 = [(2, 0)] \<and> ny_use_def_get_def ud 1 = 2"
proof -
  have "value_uses sample_fn 0 = [(2, 0)]"
    using use_events_bucket[of 0 sample_fn] by (simp add: sample_lengths sample_events)
  moreover have "last_def sample_fn 1 = 2"
    by (simp add: last_def_def sample_live_insts sample_inst mk_inst_def NY_INVALID_def)
  ultimately show ?thesis using use_def_exact[OF sample_wf sample_ops_wf, of "\<lambda>i. (9, 9)"]
    by (auto simp: sample_lengths sample_events NY_INVALID_def)
qed

end
