(* ===== verification/Dce.thy ===== *)
theory Dce
  imports Use_Def
begin

text \<open>
  Dead code elimination, \<^verbatim>\<open>src/opt/dce.c\<close>: a worklist of instructions without side effects whose
  result has no remaining use.  The worklist is a stack with its top first.
\<close>

subsection \<open>The pass\<close>

definition NY_FLAG_VOLATILE :: nat where
  "NY_FLAG_VOLATILE = 1"

definition inst_has_side_effects :: "ny_instruction \<Rightarrow> bool" where
  "inst_has_side_effects inst \<longleftrightarrow>
     ny_opcode_is_terminator (i_opcode inst) \<or> and (i_flags inst) NY_FLAG_VOLATILE \<noteq> 0
     \<or> i_opcode inst \<in> {NY_OPCODE_STORE, NY_OPCODE_ATOMIC_STORE, NY_OPCODE_ATOMIC_RMW, NY_OPCODE_ATOMIC_CMPXCHG,
         NY_OPCODE_FENCE, NY_OPCODE_CALL, NY_OPCODE_CALL_INDIRECT, NY_OPCODE_TRAP}"

text \<open>One use of \<open>v\<close> goes away; its definition is queued when this was the last one.\<close>

definition dce_drop_use :: "ny_use_def \<Rightarrow> ny_function \<Rightarrow> nat list \<times> nat list \<Rightarrow> nat \<Rightarrow> nat \<Rightarrow> (nat list \<times> nat list) option" where
  "dce_drop_use ud fn = (\<lambda>(wl, active) op_i v. do {
     c \<leftarrow> rd active v;
     if c > 0 then do {
       let active = active[v := c - 1];
       let def_id = ny_use_def_get_def ud v;
       Some (if c - 1 = 0 \<and> def_id \<noteq> NY_INVALID_INST
             then (case ny_function_get_instruction fn def_id of
                 Some def_inst \<Rightarrow> if \<not> inst_has_side_effects def_inst then (def_id # wl, active) else (wl, active)
               | None \<Rightarrow> (wl, active))
             else (wl, active))
     }
     else Some (wl, active)
   })"

partial_function (option) dce_loop ::
  "ny_use_def \<Rightarrow> nat \<Rightarrow> nat list \<Rightarrow> nat list \<Rightarrow> ny_function \<Rightarrow> bool \<Rightarrow> (ny_function \<times> bool) option" where
  "dce_loop ud n wl active fn changed =
     (case wl of
        [] \<Rightarrow> Some (fn, changed)
      | inst_id # wl \<Rightarrow>
          (case ny_function_get_instruction fn inst_id of
             None \<Rightarrow> dce_loop ud n wl active fn changed
           | Some inst \<Rightarrow>
               if i_opcode inst = NY_OPCODE_NONE \<or> inst_has_side_effects inst then dce_loop ud n wl active fn changed
               else do {
                 (wl, active) \<leftarrow> each_use fn n inst (dce_drop_use ud fn) (wl, active);
                 fn \<leftarrow> ny_function_remove_instruction fn inst_id;
                 dce_loop ud n wl active fn True
               }))"

definition dce_seed :: "nat \<Rightarrow> nat list \<Rightarrow> nat list \<Rightarrow> ny_instruction \<Rightarrow> nat list option" where
  "dce_seed n active wl inst =
     (if i_opcode inst = NY_OPCODE_NONE \<or> i_result inst = NY_INVALID_VALUE \<or> inst_has_side_effects inst then Some wl
      else if i_result inst < n then do {
        c \<leftarrow> rd active (i_result inst);
        Some (if c = 0 then i_id inst # wl else wl)
      }
      else Some wl)"

text \<open>The chains come from the analysis manager when there is one; otherwise the pass computes them.\<close>

definition ny_opt_pass_dce :: "(nat \<Rightarrow> nat \<times> nat) \<Rightarrow> ny_function \<Rightarrow> ny_use_def option \<Rightarrow> (ny_function \<times> bool) option" where
  "ny_opt_pass_dce fresh fn am =
     (let n = length (f_values fn)
      in if n = 0 then Some (fn, False)
      else do {
        ud \<leftarrow> (case am of Some ud \<Rightarrow> Some ud | None \<Rightarrow> ny_use_def_init fresh fn);
        let active = map (ny_use_def_use_count ud) [0..<n];
        wl \<leftarrow> foldM (dce_seed n active) [] (f_insts fn);
        dce_loop ud n wl active fn False
      })"

subsection \<open>Removing an instruction, seen through its operands\<close>

lemma remove_live_view:
  assumes wf: "fn_wf fn L" and ow: "ops_wf fn" and x: "live fn x"
  shows "\<exists>fn' L'. ny_function_remove_instruction fn x = Some fn' \<and> fn_wf fn' L' \<and> ops_wf fn'
    \<and> live fn' = (\<lambda>i. live fn i \<and> i \<noteq> x) \<and> length (f_values fn') = length (f_values fn) \<and> block_edges fn' = block_edges fn
    \<and> (\<forall>i. live fn' i \<longrightarrow> payload (f_insts fn' ! i) = payload (f_insts fn ! i) \<and> inst_ops fn' i = inst_ops fn i)
    \<and> live_insts fn' = filter (\<lambda>i. i \<noteq> x) (live_insts fn) \<and> length (f_insts fn') = length (f_insts fn)"
proof -
  have lt: "x < length (f_insts fn)" "i_opcode (f_insts fn ! x) \<noteq> NY_OPCODE_NONE" using x by (auto simp: live_def)
  obtain fn' where r: "ny_function_remove_instruction fn x = Some fn'"
    "fn_wf fn' (L[i_block (f_insts fn ! x) := remove1 x (L ! i_block (f_insts fn ! x))])" "same_but {x} fn fn'"
    "f_insts fn' ! x = cleared (f_insts fn ! x)" "f_values fn' = forget_def fn (i_result (f_insts fn ! x))"
    using remove_instruction_live[OF wf lt] by blast
  have len: "length (f_insts fn') = length (f_insts fn)" using r(3) by (simp add: same_but_def)
  have pay: "payload (f_insts fn' ! i) = payload (f_insts fn ! i)" if "i < length (f_insts fn)" "i \<noteq> x" for i
    using r(3) that by (simp add: same_but_def)
  have lv: "live fn' i \<longleftrightarrow> live fn i \<and> i \<noteq> x" for i
    using pay[of i] r(4) by (cases "i = x") (auto simp: live_def len payload_def cleared_def)
  have ow': "ops_wf fn'"
    by (rule ops_wf_shrink[OF ow len]) (use r(3) lv pay in \<open>auto simp: same_but_def live_def payload_def\<close>)
  have ops: "inst_ops fn' i = inst_ops fn i" if "live fn' i" for i
    using that lv[of i] pay[of i] r(3) by (simp add: inst_ops_def same_but_def live_def payload_def)
  have "live_insts fn' = filter (\<lambda>i. i \<noteq> x) (live_insts fn)"
    by (simp add: live_insts_def len lv[abs_def] conj_commute)
  moreover have "length (f_values fn') = length (f_values fn)" using r(5) by (simp add: forget_def_def upd_value_def)
  moreover have "live fn' = (\<lambda>i. live fn i \<and> i \<noteq> x)" using lv by blast
  moreover have "block_edges fn' = block_edges fn" using r(3) by (simp add: same_but_def)
  moreover have "\<forall>i. live fn' i \<longrightarrow> payload (f_insts fn' ! i) = payload (f_insts fn ! i) \<and> inst_ops fn' i = inst_ops fn i"
    using lv pay ops by (auto simp: live_def)
  ultimately show ?thesis using r(1,2) ow' len by blast
qed

subsection \<open>Releasing the operands of an instruction\<close>

definition removable :: "ny_function \<Rightarrow> nat \<Rightarrow> bool" where
  "removable fn d \<longleftrightarrow> d \<noteq> NY_INVALID_INST \<and> (\<exists>inst. ny_function_get_instruction fn d = Some inst \<and> \<not> inst_has_side_effects inst)"

lemma drop_use_step:
  assumes "v < length active" "active ! v > 0"
  shows "dce_drop_use ud fn (wl, active) k v =
    Some (if active ! v = 1 \<and> removable fn (ny_use_def_get_def ud v) then ny_use_def_get_def ud v # wl else wl, active[v := active ! v - 1])"
  using assms by (auto simp: dce_drop_use_def removable_def Let_def split: option.splits)

lemma drop_uses:
  assumes "\<forall>(v, k) \<in> set es. v < length active" "\<forall>v. length (bucket es v) \<le> active ! v"
  shows "\<exists>wl' active'. foldM (\<lambda>s (v, k). dce_drop_use ud fn s k v) (wl, active) es = Some (wl', active')
    \<and> length active' = length active \<and> (\<forall>v < length active. active' ! v = active ! v - length (bucket es v))
    \<and> set wl' = set wl \<union> {d. \<exists>v k. (v, k) \<in> set es \<and> active' ! v = 0 \<and> d = ny_use_def_get_def ud v \<and> removable fn d}"
  using assms
proof (induction es arbitrary: wl active)
  case Nil
  then show ?case by simp
next
  case (Cons e es)
  obtain v k where e: "e = (v, k)" by (cases e)
  have v: "v < length active" using Cons.prems(1) e by simp
  have pos: "active ! v > 0" using Cons.prems(2)[rule_format, of v] e by simp
  define active1 where "active1 = active[v := active ! v - 1]"
  define wl1 where "wl1 = (if active ! v = 1 \<and> removable fn (ny_use_def_get_def ud v) then ny_use_def_get_def ud v # wl else wl)"
  have le: "\<forall>w. length (bucket es w) \<le> active1 ! w"
  proof
    fix w show "length (bucket es w) \<le> active1 ! w"
      using Cons.prems(2)[rule_format, of w] e v by (cases "w = v") (auto simp: active1_def)
  qed
  obtain wl' active' where IH: "foldM (\<lambda>s (v, k). dce_drop_use ud fn s k v) (wl1, active1) es = Some (wl', active')"
    "length active' = length active1" "\<forall>w < length active1. active' ! w = active1 ! w - length (bucket es w)"
    "set wl' = set wl1 \<union> {d. \<exists>v k. (v, k) \<in> set es \<and> active' ! v = 0 \<and> d = ny_use_def_get_def ud v \<and> removable fn d}"
    using Cons.IH[OF _ le, of wl1] Cons.prems(1) by (auto simp: active1_def)
  have a: "active' ! w = active ! w - length (bucket (e # es) w)" if "w < length active" for w
    using IH(3) that e v by (cases "w = v") (auto simp: active1_def)
  have z: "active ! v = 1 \<Longrightarrow> active' ! v = 0" using a[OF v] e by simp
  have z': "active' ! v = 0 \<Longrightarrow> active ! v \<noteq> 1 \<Longrightarrow> \<exists>k. (v, k) \<in> set es"
  proof -
    assume z0: "active' ! v = 0" "active ! v \<noteq> 1"
    have "length (bucket es v) \<noteq> 0" using a[OF v] z0 pos e by auto
    then show ?thesis by (auto simp: bucket_def filter_empty_conv)
  qed
  have "set wl' = set wl \<union> {d. \<exists>v k. (v, k) \<in> set (e # es) \<and> active' ! v = 0 \<and> d = ny_use_def_get_def ud v \<and> removable fn d}"
    unfolding IH(4) wl1_def using z z' e by auto
  moreover have "foldM (\<lambda>s (v, k). dce_drop_use ud fn s k v) (wl, active) (e # es) = Some (wl', active')"
    using IH(1) drop_use_step[OF v pos, of ud fn wl k] e by (simp add: wl1_def active1_def)
  ultimately show ?case using IH(2) a by (auto simp: active1_def)
qed

subsection \<open>The invariant of the worklist\<close>

definition ssa :: "ny_function \<Rightarrow> bool" where
  "ssa fn \<longleftrightarrow> (\<forall>i j. live fn i \<longrightarrow> live fn j \<longrightarrow> i_result (f_insts fn ! i) = i_result (f_insts fn ! j)
     \<longrightarrow> i_result (f_insts fn ! i) \<noteq> NY_INVALID_VALUE \<longrightarrow> i = j)"

definition dead_result :: "ny_function \<Rightarrow> nat \<Rightarrow> nat \<Rightarrow> bool" where
  "dead_result fn n r \<longleftrightarrow> r < n \<and> value_uses fn r = []"

definition dce_inv :: "ny_function \<Rightarrow> nat \<Rightarrow> nat list \<Rightarrow> nat list \<Rightarrow> ny_function \<Rightarrow> bool" where
  "dce_inv fn0 n wl active fn \<longleftrightarrow>
     (\<exists>L. fn_wf fn L) \<and> ops_wf fn \<and> length (f_values fn) = n \<and> length active = n \<and> block_edges fn = block_edges fn0
   \<and> (\<forall>v < n. active ! v = length (value_uses fn v))
   \<and> (\<forall>i. live fn i \<longrightarrow> live fn0 i \<and> payload (f_insts fn ! i) = payload (f_insts fn0 ! i) \<and> inst_ops fn i = inst_ops fn0 i)
   \<and> (\<forall>i \<in> set wl. live fn i \<longrightarrow> dead_result fn n (i_result (f_insts fn ! i)))
   \<and> (\<forall>i. live fn i \<longrightarrow> \<not> inst_has_side_effects (f_insts fn ! i) \<longrightarrow> dead_result fn n (i_result (f_insts fn ! i)) \<longrightarrow> i \<in> set wl)
   \<and> (\<forall>i. live fn0 i \<longrightarrow> \<not> live fn i \<longrightarrow> \<not> inst_has_side_effects (f_insts fn0 ! i) \<and> dead_result fn n (i_result (f_insts fn0 ! i)))"

lemma dce_invD:
  assumes "dce_inv fn0 n wl active fn"
  shows "\<exists>L. fn_wf fn L" "ops_wf fn" "length (f_values fn) = n" "length active = n" "block_edges fn = block_edges fn0"
    "\<And>v. v < n \<Longrightarrow> active ! v = length (value_uses fn v)"
    "\<And>i. live fn i \<Longrightarrow> live fn0 i \<and> payload (f_insts fn ! i) = payload (f_insts fn0 ! i) \<and> inst_ops fn i = inst_ops fn0 i"
    "\<And>i. i \<in> set wl \<Longrightarrow> live fn i \<Longrightarrow> dead_result fn n (i_result (f_insts fn ! i))"
    "\<And>i. live fn i \<Longrightarrow> \<not> inst_has_side_effects (f_insts fn ! i) \<Longrightarrow> dead_result fn n (i_result (f_insts fn ! i)) \<Longrightarrow> i \<in> set wl"
    "\<And>i. live fn0 i \<Longrightarrow> \<not> live fn i \<Longrightarrow> \<not> inst_has_side_effects (f_insts fn0 ! i) \<and> dead_result fn n (i_result (f_insts fn0 ! i))"
  using assms unfolding dce_inv_def by simp_all

lemma fold_last:
  "fold (\<lambda>i d. if P i then i else d) xs d = (if \<exists>i \<in> set xs. P i then last (filter P xs) else d)"
  by (induction xs arbitrary: d) (auto simp: filter_empty_conv)

lemma last_def_ssa:
  assumes "ssa fn" "live fn i" "i_result (f_insts fn ! i) = v" "v \<noteq> NY_INVALID_VALUE"
  shows "last_def fn v = i"
proof -
  have "last (filter (\<lambda>i. i_result (f_insts fn ! i) = v) (live_insts fn)) \<in> set (filter (\<lambda>i. i_result (f_insts fn ! i) = v) (live_insts fn))"
    using assms live_bound[of i fn] by (intro last_in_set) (auto simp: filter_empty_conv)
  then have l: "live fn (last (filter (\<lambda>i. i_result (f_insts fn ! i) = v) (live_insts fn)))"
    "i_result (f_insts fn ! last (filter (\<lambda>i. i_result (f_insts fn ! i) = v) (live_insts fn))) = v" by (auto simp: live_bound)
  then have "last (filter (\<lambda>i. i_result (f_insts fn ! i) = v) (live_insts fn)) = i" using assms unfolding ssa_def by metis
  then show ?thesis using assms live_bound[of i fn] by (auto simp: last_def_def fold_last)
qed

lemma last_def_result: "last_def fn v \<noteq> NY_INVALID_INST \<Longrightarrow> i_result (f_insts fn ! last_def fn v) = v"
proof -
  assume "last_def fn v \<noteq> NY_INVALID_INST"
  then have ex: "\<exists>i \<in> set (live_insts fn). i_result (f_insts fn ! i) = v" and
    l: "last_def fn v = last (filter (\<lambda>i. i_result (f_insts fn ! i) = v) (live_insts fn))"
    by (auto simp: last_def_def fold_last split: if_splits)
  have "last_def fn v \<in> set (filter (\<lambda>i. i_result (f_insts fn ! i) = v) (live_insts fn))"
    unfolding l using ex by (intro last_in_set) (auto simp: filter_empty_conv)
  then show ?thesis by simp
qed

lemma payload_effects:
  "payload a = payload b \<Longrightarrow> inst_has_side_effects a = inst_has_side_effects b \<and> i_result a = i_result b \<and> i_opcode a = i_opcode b"
  by (simp add: payload_def inst_has_side_effects_def)

lemma filter_other: "x \<notin> set xs \<Longrightarrow> filter (\<lambda>i. i \<noteq> x) xs = xs"
  by (induction xs) auto

lemma length_concat_remove:
  "distinct xs \<Longrightarrow> x \<in> set xs \<Longrightarrow> length (concat (map f xs)) = length (concat (map f (filter (\<lambda>i. i \<noteq> x) xs))) + length (f x)"
  by (induction xs) (auto simp: filter_other)

lemma value_uses_removed:
  assumes lv: "live_insts fn' = filter (\<lambda>i. i \<noteq> x) (live_insts fn)" and x: "live fn x"
    and same: "\<And>i. live fn' i \<Longrightarrow> payload (f_insts fn' ! i) = payload (f_insts fn ! i) \<and> inst_ops fn' i = inst_ops fn i"
    and v: "v < length (f_values fn)"
  shows "length (value_uses fn v) = length (value_uses fn' v) + length (bucket (inst_uses fn (length (f_values fn)) x) v)"
proof -
  define g where "g = (\<lambda>i. map (Pair i) (filter (\<lambda>k. inst_ops fn i ! k = OpValue v) [0..<i_op_count (f_insts fn ! i)]))"
  have "value_uses fn' v = concat (map g (filter (\<lambda>i. i \<noteq> x) (live_insts fn)))"
    unfolding value_uses_def lv g_def
    by (intro arg_cong[of _ _ concat] map_cong refl) (use same live_bound[of _ fn'] lv in \<open>auto simp: payload_def\<close>)
  moreover have "length (g x) = length (bucket (inst_uses fn (length (f_values fn)) x) v)"
    using inst_uses_bucket[OF v, of fn x] by (simp add: bucket_def g_def)
  moreover have "distinct (live_insts fn)" by (simp add: live_insts_def)
  ultimately show ?thesis using length_concat_remove[of "live_insts fn" x g] x
    by (simp add: live_bound value_uses_def[of fn] g_def)
qed

lemma dce_remove_step:
  assumes inv: "dce_inv fn0 n (x # wl) active fn" and x: "live fn x" "\<not> inst_has_side_effects (f_insts fn ! x)"
    and ssa: "ssa fn0" and ud: "\<forall>v < n. ny_use_def_get_def ud v = last_def fn0 v" and n: "n \<le> NY_INVALID"
  shows "\<exists>wl' active' fn'. each_use fn n (f_insts fn ! x) (dce_drop_use ud fn) (wl, active) = Some (wl', active')
    \<and> ny_function_remove_instruction fn x = Some fn' \<and> dce_inv fn0 n wl' active' fn'
    \<and> length (live_insts fn') < length (live_insts fn)"
proof -
  let ?es = "inst_uses fn n x"
  note D = dce_invD[OF inv]
  obtain L where wf: "fn_wf fn L" using D(1) by blast
  note ow = D(2) and len = D(3,4) and be = D(5) and act = D(6) and old = D(7) and queued = D(8) and compl = D(9) and gone = D(10)
  obtain fn' L' where fn': "ny_function_remove_instruction fn x = Some fn'" "fn_wf fn' L'" "ops_wf fn'"
    "live fn' = (\<lambda>i. live fn i \<and> i \<noteq> x)" "length (f_values fn') = length (f_values fn)" "block_edges fn' = block_edges fn"
    "\<And>i. live fn' i \<Longrightarrow> payload (f_insts fn' ! i) = payload (f_insts fn ! i) \<and> inst_ops fn' i = inst_ops fn i"
    "live_insts fn' = filter (\<lambda>i. i \<noteq> x) (live_insts fn)"
    using remove_live_view[OF wf ow x(1)] by blast
  have uses: "length (value_uses fn v) = length (value_uses fn' v) + length (bucket ?es v)" if "v < n" for v
    using value_uses_removed[OF fn'(8) x(1) fn'(7), of v] that len(1) by simp
  have bk: "length (bucket ?es v) \<le> active ! v" for v
  proof (cases "v < n")
    case True
    then show ?thesis using act uses by simp
  next
    case False
    then have "bucket ?es v = []" by (auto simp: bucket_def filter_empty_conv inst_uses_mem)
    then show ?thesis by simp
  qed
  have "\<forall>(v, k) \<in> set ?es. v < length active" using len by (auto simp: inst_uses_mem)
  then obtain wl' active' where rel: "foldM (\<lambda>s (v, k). dce_drop_use ud fn s k v) (wl, active) ?es = Some (wl', active')"
    "length active' = length active" "\<And>v. v < length active \<Longrightarrow> active' ! v = active ! v - length (bucket ?es v)"
    "set wl' = set wl \<union> {d. \<exists>v k. (v, k) \<in> set ?es \<and> active' ! v = 0 \<and> d = ny_use_def_get_def ud v \<and> removable fn d}"
    using drop_uses[of ?es active ud fn wl] bk by blast
  have act': "active' ! v = length (value_uses fn' v)" if "v < n" for v using rel(3) act uses that len(2) by simp
  have shrink: "dead_result fn n r \<Longrightarrow> dead_result fn' n r" for r using uses[of r] by (auto simp: dead_result_def)
  have res: "i_result (f_insts fn' ! i) = i_result (f_insts fn ! i)" "inst_has_side_effects (f_insts fn' ! i) = inst_has_side_effects (f_insts fn ! i)"
    if "live fn' i" for i using payload_effects fn'(7)[OF that] by blast+
  have "dce_inv fn0 n wl' active' fn'"
    unfolding dce_inv_def
  proof (intro conjI allI ballI impI)
    show "\<exists>L. fn_wf fn' L" "ops_wf fn'" "length (f_values fn') = n" "length active' = n" "block_edges fn' = block_edges fn0"
      using fn'(2,3,5,6) len rel(2) be by auto
    show "active' ! v = length (value_uses fn' v)" if "v < n" for v by (rule act'[OF that])
    fix i
    show "live fn0 i" "payload (f_insts fn' ! i) = payload (f_insts fn0 ! i)" "inst_ops fn' i = inst_ops fn0 i" if "live fn' i"
      using old[of i] fn'(7)[OF that] that unfolding fn'(4) by simp_all
    show "dead_result fn' n (i_result (f_insts fn' ! i))" if i: "i \<in> set wl'" "live fn' i"
    proof (cases "i \<in> set wl")
      case True
      then show ?thesis using queued[of i] shrink i(2) res(1)[OF i(2)] by (simp add: fn'(4))
    next
      case False
      then obtain v k where v: "(v, k) \<in> set ?es" "active' ! v = 0" "i = ny_use_def_get_def ud v" using rel(4) i(1) by auto
      then have vn: "v < n" by (simp add: inst_uses_mem)
      have "i = last_def fn0 v" using ud vn v(3) by simp
      moreover have lf: "live fn i" using i(2) by (simp add: fn'(4))
      moreover have "i \<noteq> NY_INVALID" using lf wf by (auto simp: live_def fn_wf_def)
      ultimately have "i_result (f_insts fn0 ! i) = v" using last_def_result[of fn0 v] by simp
      then have "i_result (f_insts fn' ! i) = v" using old[OF lf] payload_effects res(1)[OF i(2)] by metis
      then show ?thesis using act'[OF vn] v(2) vn by (simp add: dead_result_def)
    qed
    show "i \<in> set wl'" if i: "live fn' i" "\<not> inst_has_side_effects (f_insts fn' ! i)" "dead_result fn' n (i_result (f_insts fn' ! i))"
    proof (cases "dead_result fn n (i_result (f_insts fn ! i))")
      case True
      then show ?thesis using compl[of i] i res rel(4) by (auto simp: fn'(4))
    next
      case False
      define r where "r = i_result (f_insts fn ! i)"
      have lf: "live fn i" using i(1) by (simp add: fn'(4))
      have r: "r < n" "value_uses fn' r = []" "value_uses fn r \<noteq> []" using i False res[OF i(1)] by (auto simp: dead_result_def r_def)
      then have "bucket ?es r \<noteq> []" using uses[of r] by auto
      then obtain k where "(r, k) \<in> set ?es" by (auto simp: bucket_def filter_empty_conv)
      moreover have "active' ! r = 0" using act'[OF r(1)] r(2) by simp
      moreover have "i_result (f_insts fn0 ! i) = r" using old[OF lf] payload_effects[of "f_insts fn ! i"] by (simp add: r_def)
      then have "last_def fn0 r = i" using last_def_ssa[OF ssa, of i r] old[OF lf] r(1) n by simp
      then have "ny_use_def_get_def ud r = i" using ud r(1) by simp
      moreover have "removable fn i" using lf wf i(2) res(2)[OF i(1)] by (auto simp: removable_def live_def fn_wf_def)
      ultimately show ?thesis using rel(4) by blast
    qed
    show "\<not> inst_has_side_effects (f_insts fn0 ! i)" "dead_result fn' n (i_result (f_insts fn0 ! i))" if i: "live fn0 i" "\<not> live fn' i"
      using gone[of i] old[of i] payload_effects[of "f_insts fn ! i" "f_insts fn0 ! i"] shrink queued[of x] x i
      by (cases "i = x"; auto simp: fn'(4))+
  qed
  moreover have "length (live_insts fn') < length (live_insts fn)"
    using fn'(8) x(1) live_bound[of x fn] length_filter_less[of x "live_insts fn" "\<lambda>i. i \<noteq> x"] by simp
  moreover have "each_use fn n (f_insts fn ! x) (dce_drop_use ud fn) (wl, active) = Some (wl', active')"
    using rel(1) by (simp add: each_use_events[OF ow x(1)])
  ultimately show ?thesis using fn'(1) by blast
qed

text \<open>The worklist empties: every removal leaves fewer instructions, every other step a shorter list.\<close>

lemma dce_loop_returns:
  assumes "dce_inv fn0 n wl active fn" and ssa: "ssa fn0" and ud: "\<forall>v < n. ny_use_def_get_def ud v = last_def fn0 v" and n: "n \<le> NY_INVALID"
  shows "\<exists>fn' ch' active'. dce_loop ud n wl active fn ch = Some (fn', ch') \<and> dce_inv fn0 n [] active' fn' \<and> (ch \<longrightarrow> ch') \<and> (ch' \<or> fn' = fn)"
  using assms(1)
proof (induction "length (live_insts fn)" arbitrary: fn wl active ch rule: less_induct)
  case less
  note outer = less.hyps
  from less.prems show ?case
  proof (induction wl)
    case Nil
    then show ?case by (subst dce_loop.simps) auto
  next
    case (Cons x wl)
    show ?case
    proof (cases "live fn x \<and> \<not> inst_has_side_effects (f_insts fn ! x)")
      case True
      obtain wl' active' fn1 where st: "each_use fn n (f_insts fn ! x) (dce_drop_use ud fn) (wl, active) = Some (wl', active')"
        "ny_function_remove_instruction fn x = Some fn1" "dce_inv fn0 n wl' active' fn1" "length (live_insts fn1) < length (live_insts fn)"
        using dce_remove_step[OF Cons.prems _ _ ssa ud n] True by blast
      obtain fn' ch' active'' where "dce_loop ud n wl' active' fn1 True = Some (fn', ch')" "dce_inv fn0 n [] active'' fn'" "True \<longrightarrow> ch'"
        using outer[OF st(4,3), of True] by blast
      then show ?thesis using True st(1,2) by (subst dce_loop.simps) (auto simp: live_def)
    next
      case False
      have "dce_inv fn0 n wl active fn"
        using Cons.prems False unfolding dce_inv_def by auto
      then have "\<exists>fn' ch' active'. dce_loop ud n wl active fn ch = Some (fn', ch') \<and> dce_inv fn0 n [] active' fn' \<and> (ch \<longrightarrow> ch') \<and> (ch' \<or> fn' = fn)"
        by (rule Cons.IH)
      moreover have "dce_loop ud n (x # wl) active fn ch = dce_loop ud n wl active fn ch"
        using False by (subst dce_loop.simps) (auto simp: live_def rd_def)
      ultimately show ?thesis by simp
    qed
  qed
qed

lemma seed_loop:
  assumes wf: "fn_wf fn L" and act: "active = map (ny_use_def_use_count ud) [0..<n]"
    and cnt: "\<forall>v < n. ny_use_def_use_count ud v = length (value_uses fn v)" and n: "n \<le> NY_INVALID"
  shows "\<exists>wl. foldM (dce_seed n active) [] (f_insts fn) = Some wl \<and> set wl = {i. live fn i
    \<and> \<not> inst_has_side_effects (f_insts fn ! i) \<and> dead_result fn n (i_result (f_insts fn ! i))}"
proof -
  define P where "P = (\<lambda>i. \<not> inst_has_side_effects (f_insts fn ! i) \<and> dead_result fn n (i_result (f_insts fn ! i)))"
  have "foldM (dce_seed n active) [] (f_insts fn) = foldM (\<lambda>wl i. Some (if P i then i # wl else wl)) [] (live_insts fn)"
  proof (rule foldM_live)
    show "dce_seed n active wl (f_insts fn ! i) = Some (if P i then i # wl else wl)" if "live fn i" for wl i
      using that live_index[OF wf that] cnt n
      by (cases "i_result (f_insts fn ! i) < n") (auto simp: dce_seed_def P_def dead_result_def live_def act)
    show "dce_seed n active wl (f_insts fn ! i) = Some wl" if "i < length (f_insts fn)" "\<not> live fn i" for wl i
      using that by (simp add: dce_seed_def live_def)
  qed
  moreover have "foldM (\<lambda>wl i. Some (if P i then i # wl else wl)) wl0 xs = Some (rev (filter P xs) @ wl0)" for wl0 and xs :: "nat list"
    by (induction xs arbitrary: wl0) auto
  ultimately show ?thesis by (auto simp: live_bound P_def)
qed

lemma dce_pass_inv:
  assumes wf: "fn_wf fn L" and ow: "ops_wf fn" and n: "length (f_values fn) \<le> NY_INVALID"
    and small: "length (use_events fn) < 4294967296" and ssa: "ssa fn" and am: "am = None \<or> am = ny_use_def_init fresh fn"
    and ne: "f_values fn \<noteq> []"
  shows "\<exists>fn' ch active. ny_opt_pass_dce fresh fn am = Some (fn', ch) \<and> dce_inv fn (length (f_values fn)) [] active fn' \<and> (ch \<or> fn' = fn)"
proof -
  let ?n = "length (f_values fn)"
  obtain ud where ud: "ny_use_def_init fresh fn = Some ud" "ud_val_count ud = ?n"
    "\<forall>v < ?n. ny_use_def_get_uses ud v = value_uses fn v \<and> ny_use_def_use_count ud v = length (value_uses fn v) \<and> ny_use_def_get_def ud v = last_def fn v"
    using use_def_facts[OF wf ow n small] by blast
  have am': "(case am of Some ud \<Rightarrow> Some ud | None \<Rightarrow> ny_use_def_init fresh fn) = Some ud" using am ud(1) by auto
  define active where "active = map (ny_use_def_use_count ud) [0..<?n]"
  obtain wl where wl: "foldM (dce_seed ?n active) [] (f_insts fn) = Some wl" "set wl = {i. live fn i
    \<and> \<not> inst_has_side_effects (f_insts fn ! i) \<and> dead_result fn ?n (i_result (f_insts fn ! i))}"
    using seed_loop[OF wf active_def _ n] ud(3) by auto
  have "dce_inv fn ?n wl active fn"
    using wf ow ud(3) wl(2) by (auto simp: dce_inv_def active_def)
  then obtain fn' ch' active' where "dce_loop ud ?n wl active fn False = Some (fn', ch')" "dce_inv fn ?n [] active' fn'" "ch' \<or> fn' = fn"
    using dce_loop_returns[OF _ ssa _ n] ud(3) by blast
  then show ?thesis using ne wl(1) unfolding ny_opt_pass_dce_def Let_def am' bind.bind_lunit active_def[symmetric] by auto
qed

lemma value_uses_mem: "(i, k) \<in> set (value_uses fn v) \<longleftrightarrow> live fn i \<and> k < i_op_count (f_insts fn ! i) \<and> inst_ops fn i ! k = OpValue v"
  by (auto simp: value_uses_def live_bound)

text \<open>
  C24. Dead code elimination on a well-formed function in single-assignment form, with the use-def
  chains of the function or computing them: the pass returns; the function stays well formed with
  the same edges; every instruction it removed has no side effects and a result no remaining
  instruction uses; the others keep opcode, flags, result and operands; and no instruction without
  side effects is left whose result is unused.
\<close>

theorem dce_correct:
  assumes "fn_wf fn L" "ops_wf fn" "length (f_values fn) \<le> NY_INVALID" "length (use_events fn) < 4294967296" "ssa fn"
    and "am = None \<or> am = ny_use_def_init fresh fn" "f_values fn \<noteq> []"
  shows "\<exists>fn' ch. ny_opt_pass_dce fresh fn am = Some (fn', ch) \<and> (\<exists>L'. fn_wf fn' L') \<and> ops_wf fn' \<and> block_edges fn' = block_edges fn
    \<and> (\<forall>i. live fn i \<longrightarrow> \<not> live fn' i \<longrightarrow> \<not> inst_has_side_effects (f_insts fn ! i)
          \<and> (\<forall>j k. live fn' j \<longrightarrow> k < i_op_count (f_insts fn' ! j) \<longrightarrow> inst_ops fn' j ! k \<noteq> OpValue (i_result (f_insts fn ! i))))
    \<and> (\<forall>i. live fn' i \<longrightarrow> live fn i \<and> payload (f_insts fn' ! i) = payload (f_insts fn ! i) \<and> inst_ops fn' i = inst_ops fn i)
    \<and> (\<forall>i. live fn' i \<longrightarrow> \<not> inst_has_side_effects (f_insts fn' ! i) \<longrightarrow> i_result (f_insts fn' ! i) < length (f_values fn) \<longrightarrow>
          value_uses fn' (i_result (f_insts fn' ! i)) \<noteq> [])"
proof -
  obtain fn' ch active where p: "ny_opt_pass_dce fresh fn am = Some (fn', ch)" "dce_inv fn (length (f_values fn)) [] active fn'"
    using dce_pass_inv[OF assms] by blast
  note D = dce_invD[OF p(2)]
  have unused: "inst_ops fn' j ! k \<noteq> OpValue r" if "value_uses fn' r = []" "live fn' j" "k < i_op_count (f_insts fn' ! j)" for r j k
    using that value_uses_mem[of j k fn' r] by auto
  show ?thesis
    using p(1) D(1,2,5) D(7) D(9) D(10) unused by (intro exI[of _ fn'] exI[of _ ch]) (auto simp: dead_result_def)
qed

text \<open>A chain of two dead instructions before a return.\<close>

definition dead_fn :: ny_function where
  "dead_fn = (ny_function_init 0 ''d'' 0 0)\<lparr>f_entry := 0,
     f_blocks := [\<lparr>b_id = 0, b_name = ''entry'', b_first = 0, b_last = 2, b_inst_count = 3, b_preds = [], b_succs = []\<rparr>],
     f_insts := [mk_inst 0 NY_OPCODE_CONST 0 0 1 0 NY_INVALID 1, mk_inst 1 NY_OPCODE_NEG 1 1 1 0 0 2,
       mk_inst 2 NY_OPCODE_RETURN NY_INVALID 2 0 0 1 NY_INVALID],
     f_values := [\<lparr>v_id = 0, v_type = 4, v_kind = NY_VAL_INSTRUCTION, v_def = 0, v_index = 0, v_name = ''a''\<rparr>,
       \<lparr>v_id = 1, v_type = 4, v_kind = NY_VAL_INSTRUCTION, v_def = 1, v_index = 0, v_name = ''b''\<rparr>],
     f_operands := [OpInt 7, OpValue 0]\<rparr>"

lemma dead_fn_parts: "length (f_insts dead_fn) = 3" "length (f_blocks dead_fn) = 1" "length (f_operands dead_fn) = 2" "length (f_values dead_fn) = 2"
  "f_insts dead_fn ! 0 = mk_inst 0 NY_OPCODE_CONST 0 0 1 0 NY_INVALID 1"
  "f_insts dead_fn ! Suc 0 = mk_inst 1 NY_OPCODE_NEG 1 1 1 0 0 2"
  "f_insts dead_fn ! 2 = mk_inst 2 NY_OPCODE_RETURN NY_INVALID 2 0 0 1 NY_INVALID"
  "f_blocks dead_fn ! 0 = \<lparr>b_id = 0, b_name = ''entry'', b_first = 0, b_last = 2, b_inst_count = 3, b_preds = [], b_succs = []\<rparr>"
  "inst_ops dead_fn 0 = [OpInt 7]" "inst_ops dead_fn (Suc 0) = [OpValue 0]" "inst_ops dead_fn 2 = []"
  by (simp_all add: dead_fn_def mk_inst_def inst_ops_def subarray_def)

lemma less_three: "(i :: nat) < 3 \<Longrightarrow> i = 0 \<or> i = 1 \<or> i = 2"
  by auto

lemma dead_fn_live: "live dead_fn i \<longleftrightarrow> i < 3"
  by (auto simp: live_def dead_fn_parts mk_inst_def dest!: less_three)

lemma dead_fn_wf: "fn_wf dead_fn [[0, 1, 2]]"
proof -
  have "block_ok (f_insts dead_fn) (f_blocks dead_fn ! 0) 0 [0, 1, 2]"
    by (auto simp: block_ok_def dead_fn_parts mk_inst_def)
  moreover have "i_id (f_insts dead_fn ! i) = i \<and> i_block (f_insts dead_fn ! i) = 0" if "i < 3" for i
    using less_three[OF that] by (auto simp: dead_fn_parts mk_inst_def)
  ultimately show ?thesis by (auto simp: fn_wf_def dead_fn_parts NY_INVALID_def)
qed

lemma dead_ops_wf: "ops_wf dead_fn"
  unfolding ops_wf_def dead_fn_live by (auto simp: dead_fn_parts mk_inst_def dest!: less_three)

lemma dead_ssa: "ssa dead_fn"
  unfolding ssa_def dead_fn_live by (auto simp: dead_fn_parts mk_inst_def NY_INVALID_def dest!: less_three)

lemma dead_events: "length (use_events dead_fn) < 4294967296"
proof -
  have u: "inst_uses dead_fn 2 0 = []" "inst_uses dead_fn 2 (Suc 0) = [(0, 0)]" "inst_uses dead_fn 2 2 = []"
    by (simp_all add: inst_uses_def dead_fn_parts mk_inst_def List.map_filter_simps)
  have "live_insts dead_fn = [0, Suc 0, 2]" by (simp add: live_insts_def dead_fn_parts dead_fn_live upt_rec[of _ 3])
  then show ?thesis by (simp add: use_events_def dead_fn_parts u)
qed

theorem dce_correct_witness:
  "\<exists>fn' ch. ny_opt_pass_dce (\<lambda>i. (0, 0)) dead_fn None = Some (fn', ch) \<and> \<not> live fn' 0 \<and> \<not> live fn' 1 \<and> live fn' 2"
proof -
  have v: "length (f_values dead_fn) \<le> NY_INVALID" "f_values dead_fn \<noteq> []" by (simp_all add: dead_fn_def NY_INVALID_def)
  obtain fn' ch where p: "ny_opt_pass_dce (\<lambda>i. (0, 0)) dead_fn None = Some (fn', ch)"
    and gone': "\<forall>i. live dead_fn i \<longrightarrow> \<not> live fn' i \<longrightarrow> \<not> inst_has_side_effects (f_insts dead_fn ! i)
          \<and> (\<forall>j k. live fn' j \<longrightarrow> k < i_op_count (f_insts fn' ! j) \<longrightarrow> inst_ops fn' j ! k \<noteq> OpValue (i_result (f_insts dead_fn ! i)))"
    and kept': "\<forall>i. live fn' i \<longrightarrow> live dead_fn i \<and> payload (f_insts fn' ! i) = payload (f_insts dead_fn ! i) \<and> inst_ops fn' i = inst_ops dead_fn i"
    and used': "\<forall>i. live fn' i \<longrightarrow> \<not> inst_has_side_effects (f_insts fn' ! i) \<longrightarrow> i_result (f_insts fn' ! i) < length (f_values dead_fn) \<longrightarrow>
          value_uses fn' (i_result (f_insts fn' ! i)) \<noteq> []"
    using dce_correct[OF dead_fn_wf dead_ops_wf v(1) dead_events dead_ssa disjI1[OF refl] v(2), of "\<lambda>i. (0, 0)"]
    by (elim exE conjE) (rule that, assumption+)
  note gone = gone'[rule_format, THEN conjunct1] and kept = kept'[rule_format] and used = used'[rule_format, unfolded dead_fn_parts]
  have user: "\<exists>j k. live fn' j \<and> k < length (inst_ops dead_fn j) \<and> inst_ops dead_fn j ! k = OpValue r"
    if v: "live fn' r" "r < 2" for r
  proof -
    have "payload (f_insts fn' ! r) = payload (f_insts dead_fn ! r)" using kept[OF v(1)] by simp
    moreover have "i_result (f_insts dead_fn ! r) = r \<and> \<not> inst_has_side_effects (f_insts dead_fn ! r)"
      using less_two[OF v(2)] by (auto simp: dead_fn_parts mk_inst_def inst_has_side_effects_def ny_opcode_is_terminator_def NY_FLAG_VOLATILE_def)
    ultimately have d: "i_result (f_insts fn' ! r) = r" "\<not> inst_has_side_effects (f_insts fn' ! r)" by (auto dest: payload_effects)
    have "value_uses fn' r \<noteq> []" using used[OF v(1) d(2)] v(2) d(1) by simp
    then obtain j k where "(j, k) \<in> set (value_uses fn' r)" by (metis list.set_intros(1) neq_Nil_conv surj_pair)
    then have jk: "live fn' j" "k < i_op_count (f_insts fn' ! j)" "inst_ops fn' j ! k = OpValue r" by (auto simp: value_uses_mem)
    have "i_op_count (f_insts dead_fn ! j) = length (inst_ops dead_fn j)" using kept[OF jk(1)]
      by (auto simp: dead_fn_live dead_fn_parts mk_inst_def dest!: less_three)
    then have "i_op_count (f_insts fn' ! j) = length (inst_ops dead_fn j)" using kept[OF jk(1)] by (simp add: payload_def)
    then show ?thesis using jk kept[OF jk(1)] by auto
  qed
  have n1: "\<not> live fn' 1"
  proof
    assume "live fn' 1"
    then obtain j k where jk: "live fn' j" "k < length (inst_ops dead_fn j)" "inst_ops dead_fn j ! k = OpValue 1" using user[of 1] by auto
    then show False using kept[OF jk(1)] by (auto simp: dead_fn_live dead_fn_parts dest!: less_three)
  qed
  moreover have "\<not> live fn' 0"
  proof
    assume "live fn' 0"
    then obtain j k where jk: "live fn' j" "k < length (inst_ops dead_fn j)" "inst_ops dead_fn j ! k = OpValue 0" using user[of 0] by auto
    then show False using kept[OF jk(1)] n1 by (auto simp: dead_fn_live dead_fn_parts dest!: less_three)
  qed
  moreover have "live fn' 2"
    using gone[of 2] by (auto simp: dead_fn_live dead_fn_parts mk_inst_def inst_has_side_effects_def ny_opcode_is_terminator_def)
  ultimately show ?thesis using p by blast
qed

end
