(* ===== verification/Const_Fold_Correct.thy ===== *)
theory Const_Fold_Correct
  imports Const_Fold
begin

text \<open>
  What the constant-folding pass does to each instruction, against the values the operations of the intermediate
  representation have on constants.  The specification does not mention the rewriting functions of the pass.
\<close>

subsection \<open>The constant an instruction computes\<close>

text \<open>The constant an operand is known to be: an immediate, or the result of an instruction \<open>CONST\<close> with one immediate.\<close>

inductive known_const :: "ny_function \<Rightarrow> ny_operand \<Rightarrow> ny_operand \<Rightarrow> bool" for fn where
  kc_int: "known_const fn (OpInt n) (OpInt n)"
| kc_float: "known_const fn (OpFloat x) (OpFloat x)"
| kc_value: "\<lbrakk>v < length (f_values fn); v_kind (f_values fn ! v) = NY_VAL_INSTRUCTION; d = v_def (f_values fn ! v); d \<noteq> NY_INVALID_INST;
     d < length (f_insts fn); i_opcode (f_insts fn ! d) = NY_OPCODE_CONST; inst_ops fn d = [c]; c = OpInt n \<or> c = OpFloat x\<rbrakk>
     \<Longrightarrow> known_const fn (OpValue v) c"

inductive_simps known_const_simps: "known_const fn (OpInt n) c" "known_const fn (OpFloat x) c" "known_const fn (OpValue v) c"

abbreviation opc :: "ny_function \<Rightarrow> nat \<Rightarrow> ny_opcode" where
  "opc fn i \<equiv> i_opcode (f_insts fn ! i)"

definition result_width :: "ny_function \<Rightarrow> nat \<Rightarrow> nat" where
  "result_width fn i = ny_opt_get_type_bit_width (v_type (f_values fn ! i_result (f_insts fn ! i)))"

text \<open>The width of a value operand, a default for the others.\<close>

definition op_width :: "ny_function \<Rightarrow> nat \<Rightarrow> ny_operand \<Rightarrow> nat" where
  "op_width fn d op = (case op of OpValue v \<Rightarrow>
     if v < length (f_values fn) then ny_opt_get_type_bit_width (v_type (f_values fn ! v)) else d | _ \<Rightarrow> d)"

text \<open>An integer at a width: reduced modulo \<open>2 ^ w\<close> and sign-extended to 64 bits.\<close>

definition at_width :: "nat \<Rightarrow> int \<Rightarrow> 64 word" where
  "at_width w n = signed_take_bit (w - 1) (word_of_int n)"

definition unary_value :: "ny_function \<Rightarrow> nat \<Rightarrow> ny_operand \<Rightarrow> bool" where
  "unary_value fn i c \<longleftrightarrow> (\<exists>x. inst_ops fn i = [x]
     \<and> ((\<exists>a. known_const fn x (OpInt a) \<and> (opc fn i = NY_OPCODE_NEG \<and> c = OpInt (at_width (result_width fn i) (- sint a))
            \<or> opc fn i = NY_OPCODE_NOT \<and> c = OpInt (at_width (result_width fn i) (- sint a - 1))))
       \<or> (\<exists>a. known_const fn x (OpFloat a) \<and> opc fn i = NY_OPCODE_FNEG \<and> c = OpFloat (flip_bit 63 a))))"

text \<open>
  The exact result at the width when both constants are sign-extended from it, the division that overflows excepted;
  on constants with other upper bits, the folder's own value.
\<close>

definition int_result :: "ny_opcode \<Rightarrow> nat \<Rightarrow> 64 word \<Rightarrow> 64 word \<Rightarrow> 64 word \<Rightarrow> bool" where
  "int_result op w a b r \<longleftrightarrow>
     (if normal w a \<and> normal w b
      then (\<exists>x. int_sem op w a b = Some x \<and> r = at_width w x) \<and> \<not> (op = NY_OPCODE_DIV_S \<and> w = 64 \<and> a = INT64_MIN \<and> b = - 1)
      else ny_fold_int_binary op a b w = Some (Some r))"

definition float_sem :: "host_fpu \<Rightarrow> ny_opcode \<Rightarrow> 64 word \<Rightarrow> 64 word \<Rightarrow> 64 word option" where
  "float_sem h op a b =
     (if op = NY_OPCODE_FADD then Some (h_add h a b)
      else if op = NY_OPCODE_FSUB then Some (h_sub h a b)
      else if op = NY_OPCODE_FMUL then Some (h_mul h a b)
      else if op = NY_OPCODE_FDIV \<and> f_magnitude b \<noteq> 0 then Some (h_div h a b)
      else None)"

definition float_cmp_sem :: "ny_opcode \<Rightarrow> 64 word \<Rightarrow> 64 word \<Rightarrow> bool option" where
  "float_cmp_sem op a b =
     (let ordered = \<not> f_isnan a \<and> \<not> f_isnan b; x = f_key a; y = f_key b
      in if op = NY_OPCODE_FCMP_EQ then Some (ordered \<and> x = y)
      else if op = NY_OPCODE_FCMP_NE then Some (\<not> (ordered \<and> x = y))
      else if op = NY_OPCODE_FCMP_LT then Some (ordered \<and> x < y)
      else if op = NY_OPCODE_FCMP_LE then Some (ordered \<and> x \<le> y)
      else if op = NY_OPCODE_FCMP_GT then Some (ordered \<and> x > y)
      else if op = NY_OPCODE_FCMP_GE then Some (ordered \<and> x \<ge> y)
      else None)"

definition truth :: "bool \<Rightarrow> ny_operand" where
  "truth b = OpInt (if b then 1 else 0)"

definition binary_value :: "host_fpu \<Rightarrow> ny_function \<Rightarrow> nat \<Rightarrow> ny_operand \<Rightarrow> bool" where
  "binary_value h fn i c \<longleftrightarrow> (\<exists>x y. inst_ops fn i = [x, y]
     \<and> ((\<exists>a b. known_const fn x (OpInt a) \<and> known_const fn y (OpInt b)
          \<and> ((\<exists>r. int_result (opc fn i) (result_width fn i) a b r \<and> c = OpInt r)
            \<or> (\<exists>t. int_cmp_sem (opc fn i) (op_width fn (result_width fn i) x) a b = Some t \<and> c = truth t)))
       \<or> (\<exists>a b. known_const fn x (OpFloat a) \<and> known_const fn y (OpFloat b)
          \<and> ((\<exists>r. float_sem h (opc fn i) a b = Some r \<and> c = OpFloat r) \<or> (\<exists>t. float_cmp_sem (opc fn i) a b = Some t \<and> c = truth t)))))"

definition cast_value :: "host_fpu \<Rightarrow> ny_function \<Rightarrow> nat \<Rightarrow> ny_operand \<Rightarrow> bool" where
  "cast_value h fn i c \<longleftrightarrow> (\<exists>x xs. inst_ops fn i = x # xs
     \<and> ((\<exists>a. known_const fn x (OpInt a) \<and>
           (opc fn i = NY_OPCODE_TRUNCATE \<and> c = OpInt (signed_take_bit (result_width fn i - 1) a)
          \<or> opc fn i = NY_OPCODE_SEXT \<and> c = OpInt (signed_take_bit (op_width fn 32 x - 1) a)
          \<or> opc fn i = NY_OPCODE_ZEXT \<and> c = OpInt (take_bit (op_width fn 32 x) a)
          \<or> opc fn i = NY_OPCODE_SITOFP \<and> c = OpFloat (h_of_int h a)))
       \<or> (\<exists>a n. known_const fn x (OpFloat a) \<and> opc fn i = NY_OPCODE_FPTOSI \<and> h_to_int h a = Some n
           \<and> c = OpInt (signed_take_bit (result_width fn i - 1) n))))"

text \<open>The operand a \<open>SELECT\<close> with a known condition chooses: the second one when it is not zero, else the third.\<close>

definition selects :: "ny_function \<Rightarrow> nat \<Rightarrow> ny_operand \<Rightarrow> bool" where
  "selects fn i op \<longleftrightarrow> opc fn i = NY_OPCODE_SELECT
     \<and> (\<exists>t x y n. inst_ops fn i = [t, x, y] \<and> known_const fn t (OpInt n) \<and> op = (if n \<noteq> 0 then x else y))"

definition const_value :: "host_fpu \<Rightarrow> ny_function \<Rightarrow> nat \<Rightarrow> ny_operand \<Rightarrow> bool" where
  "const_value h fn i c \<longleftrightarrow> unary_value fn i c \<or> binary_value h fn i c \<or> cast_value h fn i c
     \<or> selects fn i c \<and> (\<exists>n. c = OpInt n \<or> c = OpFloat n)"

subsection \<open>One step\<close>

definition foldable :: "ny_function \<Rightarrow> nat \<Rightarrow> bool" where
  "foldable fn i \<longleftrightarrow> live fn i \<and> opc fn i \<noteq> NY_OPCODE_CONST \<and> i_result (f_insts fn ! i) \<noteq> NY_INVALID_VALUE
     \<and> i_result (f_insts fn ! i) < length (f_values fn)"

text \<open>The instruction keeps its place, number and result and becomes the constant; nothing else of the function changes.\<close>

definition becomes_const :: "ny_function \<Rightarrow> nat \<Rightarrow> ny_operand \<Rightarrow> ny_function \<Rightarrow> bool" where
  "becomes_const fn i c fn' \<longleftrightarrow>
     fn' = fn\<lparr>f_insts := (f_insts fn)[i := (f_insts fn ! i)\<lparr>i_opcode := NY_OPCODE_CONST, i_op_count := 1\<rparr>],
              f_operands := (f_operands fn)[i_op_start (f_insts fn ! i) := c]\<rparr>
     \<and> inst_ops fn' i = [c] \<and> (\<forall>j. live fn j \<longrightarrow> j \<noteq> i \<longrightarrow> inst_ops fn' j = inst_ops fn j)"

text \<open>
  The instruction leaves its block and the others keep all but their links, with the value \<open>v\<close> in the place of its
  result; that result has no defining instruction any more.
\<close>

definition forwards :: "ny_function \<Rightarrow> nat list list \<Rightarrow> nat \<Rightarrow> nat \<Rightarrow> ny_function \<Rightarrow> nat list list \<Rightarrow> bool" where
  "forwards fn L i v fn' L' \<longleftrightarrow>
     (let res = i_result (f_insts fn ! i); b = i_block (f_insts fn ! i)
      in L' = L[b := remove1 i (L ! b)] \<and> (\<forall>j. live fn' j \<longleftrightarrow> live fn j \<and> j \<noteq> i)
       \<and> (\<forall>j. live fn' j \<longrightarrow> payload (f_insts fn' ! j) = payload (f_insts fn ! j) \<and> i_block (f_insts fn' ! j) = i_block (f_insts fn ! j)
            \<and> inst_ops fn' j = map (replace_val res v) (inst_ops fn j))
       \<and> f_values fn' = (f_values fn)[res := (f_values fn ! res)\<lparr>v_def := NY_INVALID_INST\<rparr>]
       \<and> block_edges fn' = block_edges fn \<and> f_entry fn' = f_entry fn)"

inductive fold_step :: "host_fpu \<Rightarrow> ny_function \<Rightarrow> nat list list \<Rightarrow> nat \<Rightarrow> bool \<Rightarrow> ny_function \<Rightarrow> nat list list \<Rightarrow> bool" for h fn L i where
  fs_const: "\<lbrakk>foldable fn i; const_value h fn i c; becomes_const fn i c fn'\<rbrakk> \<Longrightarrow> fold_step h fn L i True fn' L"
| fs_select: "\<lbrakk>foldable fn i; selects fn i (OpValue v); forwards fn L i v fn' L'\<rbrakk> \<Longrightarrow> fold_step h fn L i True fn' L'"
| fs_keep: "foldable fn i \<longrightarrow> (\<forall>c. \<not> const_value h fn i c) \<and> (\<forall>v. \<not> selects fn i (OpValue v)) \<Longrightarrow> fold_step h fn L i False fn L"

text \<open>The whole walk, one step per index, every state well formed; the flag tells whether a step changed the function.\<close>

inductive fold_walk :: "host_fpu \<Rightarrow> nat list \<Rightarrow> ny_function \<Rightarrow> nat list list \<Rightarrow> bool \<Rightarrow> ny_function \<Rightarrow> nat list list \<Rightarrow> bool" for h where
  fw_nil: "fold_walk h [] fn L False fn L"
| fw_cons: "\<lbrakk>fold_step h fn L i ch fn1 L1; fn_wf fn1 L1; ops_wf fn1; fold_walk h is fn1 L1 ch' fn2 L2\<rbrakk>
     \<Longrightarrow> fold_walk h (i # is) fn L (ch \<or> ch') fn2 L2"

subsection \<open>The rewriting functions decide it\<close>

text \<open>
  An attempt that returned has rewritten the instruction to a constant of \<open>P\<close>, or forwarded to a value of \<open>S\<close>; one that did not
  apply means that there is none.
\<close>

definition decides :: "(ny_operand \<Rightarrow> bool) \<Rightarrow> (nat \<Rightarrow> bool) \<Rightarrow> ny_function \<Rightarrow> nat \<Rightarrow> ny_function option \<Rightarrow> bool" where
  "decides P S fn i r \<longleftrightarrow> (case r of
     None \<Rightarrow> (\<forall>c. \<not> P c) \<and> (\<forall>v. \<not> S v)
   | Some fn' \<Rightarrow> (\<exists>c. P c \<and> make_const fn i c = Some fn')
       \<or> (\<exists>v. S v \<and> ny_function_remove_instruction (ny_function_replace_all_uses fn (i_result (f_insts fn ! i)) v) (i_id (f_insts fn ! i)) = Some fn'))"

abbreviation no_value :: "nat \<Rightarrow> bool" where
  "no_value \<equiv> \<lambda>v. False"

lemma decides_none: "(\<And>c. \<not> P c) \<Longrightarrow> (\<And>v. \<not> S v) \<Longrightarrow> decides P S fn i None"
  by (simp add: decides_def)

lemma decides_cong: "decides P S fn i r \<Longrightarrow> (\<And>c. P c = Q c) \<Longrightarrow> decides Q S fn i r"
  by (auto simp: decides_def split: option.splits)

lemma or_else_decides:
  assumes "or_else m k = Some r" "\<And>r. m = Some r \<Longrightarrow> decides P S fn i r" "\<And>r. k = Some r \<Longrightarrow> decides Q T fn i r"
  shows "decides (\<lambda>c. P c \<or> Q c) (\<lambda>v. S v \<or> T v) fn i r"
proof -
  consider fn' where "m = Some (Some fn')" "r = Some fn'" | "m = Some None" "k = Some r" using assms(1) by (auto simp: or_else_Some)
  then show ?thesis
  proof cases
    case 1
    then show ?thesis using assms(2)[OF 1(1)] by (auto simp: decides_def)
  next
    case 2
    then show ?thesis using assms(2)[OF 2(1)] assms(3)[OF 2(2)] by (auto simp: decides_def split: option.splits)
  qed
qed

lemma fold_to_decides:
  assumes "fold_to fn i mk res = Some r" "\<And>v c. res = Some v \<Longrightarrow> P c \<longleftrightarrow> (\<exists>x. v = Some x \<and> c = mk x)"
  shows "decides P no_value fn i r"
proof -
  obtain v where v: "res = Some v" using assms(1) by (auto simp: fold_to_def bind_Some_iff)
  show ?thesis using assms(1) assms(2)[OF v] by (cases v) (auto simp: fold_to_def v decides_def bind_Some_iff)
qed

lemma known_const:
  assumes "ops_wf fn"
  shows "ny_opt_get_operand_const_int fn op = Some r \<Longrightarrow> known_const fn op (OpInt a) \<longleftrightarrow> r = Some a"
    and "ny_opt_get_operand_const_float fn op = Some s \<Longrightarrow> known_const fn op (OpFloat x) \<longleftrightarrow> s = Some x"
proof -
  have one: "(\<exists>c. inst_ops fn d = [c] \<and> Q c) \<longleftrightarrow> i_op_count (f_insts fn ! d) = 1 \<and> Q (inst_ops fn d ! 0)"
    "op_at fn (ny_function_get_operands fn (f_insts fn ! d)) 0 = Some (inst_ops fn d ! 0) \<or> i_op_count (f_insts fn ! d) \<noteq> 1"
    if "d < length (f_insts fn)" "i_opcode (f_insts fn ! d) = NY_OPCODE_CONST" for d and Q :: "ny_operand \<Rightarrow> bool"
  proof -
    have lv: "live fn d" using that by (simp add: live_def)
    then have "length (inst_ops fn d) = i_op_count (f_insts fn ! d)" using assms by (simp add: ops_wf_def inst_ops_def length_subarray)
    then show "(\<exists>c. inst_ops fn d = [c] \<and> Q c) \<longleftrightarrow> i_op_count (f_insts fn ! d) = 1 \<and> Q (inst_ops fn d ! 0)"
      by (cases "inst_ops fn d"; cases "tl (inst_ops fn d)") auto
    show "op_at fn (ny_function_get_operands fn (f_insts fn ! d)) 0 = Some (inst_ops fn d ! 0) \<or> i_op_count (f_insts fn ! d) \<noteq> 1"
      using op_at_inst[OF assms lv, of 0] by auto
  qed
  have sing: "inst_ops fn d = [c] \<longleftrightarrow> i_op_count (f_insts fn ! d) = 1 \<and> inst_ops fn d ! 0 = c"
    if "d < length (f_insts fn)" "i_opcode (f_insts fn ! d) = NY_OPCODE_CONST" for d c
    using one(1)[OF that, of "\<lambda>y. y = c"] by auto
  show "ny_opt_get_operand_const_int fn op = Some r \<Longrightarrow> known_const fn op (OpInt a) \<longleftrightarrow> r = Some a"
  proof (cases op)
    case (OpValue v)
    assume r: "ny_opt_get_operand_const_int fn op = Some r"
    let ?V = "f_values fn ! v" let ?d = "v_def ?V"
    show ?thesis
    proof (cases "v < length (f_values fn) \<and> v_kind ?V = NY_VAL_INSTRUCTION \<and> ?d \<noteq> NY_INVALID_INST \<and> ?d < length (f_insts fn)
        \<and> i_opcode (f_insts fn ! ?d) = NY_OPCODE_CONST \<and> i_op_count (f_insts fn ! ?d) = 1")
      case True
      then have "r = (case inst_ops fn ?d ! 0 of OpInt n \<Rightarrow> Some n | _ \<Rightarrow> None)" using r one(2)[of ?d]
        by (auto simp: ny_opt_get_operand_const_int_def OpValue)
      then show ?thesis using True sing[of ?d "OpInt a"] by (auto simp: OpValue known_const_simps split: ny_operand.splits)
    next
      case False
      then have "r = None" using r
        by (auto simp: ny_opt_get_operand_const_int_def OpValue rd_def split: option.splits if_splits)
      then show ?thesis using False sing[of ?d "OpInt a"] by (auto simp: OpValue known_const_simps)
    qed
  qed (auto simp: ny_opt_get_operand_const_int_def known_const_simps elim: known_const.cases)
  show "ny_opt_get_operand_const_float fn op = Some s \<Longrightarrow> known_const fn op (OpFloat x) \<longleftrightarrow> s = Some x"
  proof (cases op)
    case (OpValue v)
    assume r: "ny_opt_get_operand_const_float fn op = Some s"
    let ?V = "f_values fn ! v" let ?d = "v_def ?V"
    show ?thesis
    proof (cases "v < length (f_values fn) \<and> v_kind ?V = NY_VAL_INSTRUCTION \<and> ?d \<noteq> NY_INVALID_INST \<and> ?d < length (f_insts fn)
        \<and> i_opcode (f_insts fn ! ?d) = NY_OPCODE_CONST \<and> i_op_count (f_insts fn ! ?d) = 1")
      case True
      then have "s = (case inst_ops fn ?d ! 0 of OpFloat n \<Rightarrow> Some n | _ \<Rightarrow> None)" using r one(2)[of ?d]
        by (auto simp: ny_opt_get_operand_const_float_def OpValue)
      then show ?thesis using True sing[of ?d "OpFloat x"] by (auto simp: OpValue known_const_simps split: ny_operand.splits)
    next
      case False
      then have "s = None" using r
        by (auto simp: ny_opt_get_operand_const_float_def OpValue rd_def split: option.splits if_splits)
      then show ?thesis using False sing[of ?d "OpFloat x"] by (auto simp: OpValue known_const_simps)
    qed
  qed (auto simp: ny_opt_get_operand_const_float_def known_const_simps elim: known_const.cases)
qed

lemma known_not_both: "known_const fn op (OpInt a) \<Longrightarrow> \<not> known_const fn op (OpFloat x)"
  by (cases op) (auto simp: known_const_simps elim: known_const.cases)

lemma int_result_iff:
  assumes "w \<in> widths" "ny_fold_int_binary op a b w = Some res"
  shows "int_result op w a b r \<longleftrightarrow> res = Some r"
proof (cases "normal w a \<and> normal w b")
  case True
  have ov: "op = NY_OPCODE_DIV_S \<and> w = 64 \<and> a = INT64_MIN \<and> b = - 1 \<Longrightarrow> res = None"
    using assms(2) by (auto simp: ny_fold_int_binary_def Let_def INT64_MIN_def)
  have "case res of Some v \<Rightarrow> \<exists>x. int_sem op w a b = Some x \<and> v = at_width w x
      | None \<Rightarrow> int_sem op w a b = None \<or> op = NY_OPCODE_DIV_S \<and> w = 64 \<and> a = INT64_MIN \<and> b = - 1"
    using fold_int_binary_sound[OF assms(1), of a b op] True assms(2) by (auto simp: at_width_def split: option.splits)
  then show ?thesis using True ov by (cases res) (auto simp: int_result_def)
qed (auto simp: int_result_def assms(2))

lemma fold_int_unary_value:
  assumes "w \<in> widths" "ny_fold_int_unary op a w = Some res"
  shows "res = Some r \<longleftrightarrow> op = NY_OPCODE_NEG \<and> r = at_width w (- sint a) \<or> op = NY_OPCODE_NOT \<and> r = at_width w (- sint a - 1)"
proof -
  have "0 < w" using assms(1) by auto
  note se = sign_extend_width[OF this]
  have "NOT a = word_of_int (- sint a - 1)" by (simp add: not_eq_complement)
  then show ?thesis using assms(2)
    by (auto simp: ny_fold_int_unary_def se at_width_def int_range_def bind_Some_iff split: if_splits)
qed

lemma f_magnitude_zero: "f_magnitude 0 = 0"
  by (simp add: f_magnitude_def)

lemma float_binary_value: "ny_fold_float_binary h op a b = float_sem h op a b"
proof -
  have "f_eq b 0 \<longleftrightarrow> f_magnitude b = 0"
    using f_magnitude_zero by (auto simp: f_eq_def f_isnan_def f_key_def)
  then show ?thesis by (simp add: ny_fold_float_binary_def float_sem_def)
qed

lemma float_cmp_value: "ny_fold_float_cmp op a b = map_option (\<lambda>c. if c then 1 else 0) (float_cmp_sem op a b)"
  by (auto simp: ny_fold_float_cmp_def float_cmp_sem_def Let_def f_eq_def f_lt_def f_le_def)

lemma result_width_widths: "result_width fn i \<in> widths" "d \<in> widths \<Longrightarrow> op_width fn d op \<in> widths"
  using type_bit_width by (auto simp: result_width_def op_width_def simp del: insert_iff split: ny_operand.splits)

lemma cf_unary_decides:
  assumes ow: "ops_wf fn" and lv: "live fn i" and n: "i_op_count (f_insts fn ! i) = 1"
    and r: "cf_unary fn i (f_insts fn ! i) (result_width fn i) = Some r"
  shows "decides (unary_value fn i) no_value fn i r"
proof -
  let ?x = "inst_ops fn i ! 0"
  have ops: "inst_ops fn i = [?x]" using length_inst_ops[OF ow lv] n by (cases "inst_ops fn i") auto
  have at: "op_at fn (ny_function_get_operands fn (f_insts fn ! i)) 0 = Some ?x" using op_at_inst[OF ow lv, of 0] n by simp
  obtain a f where k: "ny_opt_get_operand_const_int fn ?x = Some a" "ny_opt_get_operand_const_float fn ?x = Some f"
    using const_operand_defined[OF ow] by blast
  note ki = known_const(1)[OF ow k(1)] and kf = known_const(2)[OF ow k(2)]
  let ?P = "\<lambda>c. \<exists>a. known_const fn ?x (OpInt a) \<and> (opc fn i = NY_OPCODE_NEG \<and> c = OpInt (at_width (result_width fn i) (- sint a))
            \<or> opc fn i = NY_OPCODE_NOT \<and> c = OpInt (at_width (result_width fn i) (- sint a - 1)))"
  let ?Q = "\<lambda>c. \<exists>a. known_const fn ?x (OpFloat a) \<and> opc fn i = NY_OPCODE_FNEG \<and> c = OpFloat (flip_bit 63 a)"
  have "decides (\<lambda>c. ?P c \<or> ?Q c) (\<lambda>v. False \<or> False) fn i r"
  proof (rule or_else_decides)
    show "or_else
       (case a of None \<Rightarrow> Some None | Some a \<Rightarrow> fold_to fn i OpInt (ny_fold_int_unary (opc fn i) a (result_width fn i)))
       (case f of None \<Rightarrow> Some None | Some a \<Rightarrow> fold_to fn i OpFloat (Some (ny_fold_float_unary (opc fn i) a))) = Some r"
      using r by (simp add: cf_unary_def at k)
    show "decides ?P no_value fn i r" if "(case a of None \<Rightarrow> Some None | Some a \<Rightarrow> fold_to fn i OpInt (ny_fold_int_unary (opc fn i) a (result_width fn i))) = Some r" for r
    proof (cases a)
      case None
      then show ?thesis using that by (auto simp: ki intro: decides_none)
    next
      case (Some x)
      show ?thesis using that unfolding Some option.case
        by (rule fold_to_decides) (auto simp: ki Some dest: fold_int_unary_value[OF result_width_widths(1)])
    qed
    show "decides ?Q no_value fn i r" if "(case f of None \<Rightarrow> Some None | Some a \<Rightarrow> fold_to fn i OpFloat (Some (ny_fold_float_unary (opc fn i) a))) = Some r" for r
    proof (cases f)
      case None
      then show ?thesis using that by (auto simp: kf intro: decides_none)
    next
      case (Some x)
      show ?thesis using that unfolding Some option.case
        by (rule fold_to_decides) (auto simp: kf Some ny_fold_float_unary_def split: if_splits)
    qed
  qed
  then show ?thesis unfolding unary_value_def using ops by (auto simp: decides_def split: option.splits)
qed

lemma cmp_width_eq:
  "(case x of OpValue v \<Rightarrow> (case ny_function_get_value fn v of Some val \<Rightarrow> ny_opt_get_type_bit_width (v_type val) | None \<Rightarrow> w) | _ \<Rightarrow> w)
     = op_width fn w x"
  by (auto simp: op_width_def rd_def split: ny_operand.splits)

lemma cf_binary_decides:
  assumes ow: "ops_wf fn" and lv: "live fn i" and n: "i_op_count (f_insts fn ! i) = 2"
    and r: "cf_binary h fn i (f_insts fn ! i) (result_width fn i) = Some r"
  shows "decides (binary_value h fn i) no_value fn i r"
proof -
  let ?x = "inst_ops fn i ! 0" and ?y = "inst_ops fn i ! Suc 0" and ?w = "result_width fn i"
  have ops: "inst_ops fn i = [?x, ?y]" using length_inst_ops[OF ow lv] n by (cases "inst_ops fn i"; cases "tl (inst_ops fn i)") auto
  have at: "op_at fn (ny_function_get_operands fn (f_insts fn ! i)) 0 = Some ?x"
    "op_at fn (ny_function_get_operands fn (f_insts fn ! i)) 1 = Some ?y" using op_at_inst[OF ow lv] n by simp_all
  obtain a b fa fb where k: "ny_opt_get_operand_const_int fn ?x = Some a" "ny_opt_get_operand_const_int fn ?y = Some b"
    "ny_opt_get_operand_const_float fn ?x = Some fa" "ny_opt_get_operand_const_float fn ?y = Some fb"
    using const_operand_defined[OF ow] by blast
  note ki = known_const(1)[OF ow k(1)] known_const(1)[OF ow k(2)] and kf = known_const(2)[OF ow k(3)] known_const(2)[OF ow k(4)]
  note w = result_width_widths(1)[of fn i] and cw = result_width_widths(2)[OF result_width_widths(1)]
  let ?A = "\<lambda>c. \<exists>a b r. known_const fn ?x (OpInt a) \<and> known_const fn ?y (OpInt b) \<and> int_result (opc fn i) ?w a b r \<and> c = OpInt r"
  let ?B = "\<lambda>c. \<exists>a b t. known_const fn ?x (OpInt a) \<and> known_const fn ?y (OpInt b) \<and> int_cmp_sem (opc fn i) (op_width fn ?w ?x) a b = Some t \<and> c = truth t"
  let ?C = "\<lambda>c. \<exists>a b r. known_const fn ?x (OpFloat a) \<and> known_const fn ?y (OpFloat b) \<and> float_sem h (opc fn i) a b = Some r \<and> c = OpFloat r"
  let ?D = "\<lambda>c. \<exists>a b t. known_const fn ?x (OpFloat a) \<and> known_const fn ?y (OpFloat b) \<and> float_cmp_sem (opc fn i) a b = Some t \<and> c = truth t"
  define m where "m = (case (a, b) of (Some a, Some b) \<Rightarrow>
        or_else (fold_to fn i OpInt (ny_fold_int_binary (opc fn i) a b ?w)) (fold_to fn i OpInt (ny_fold_int_cmp (opc fn i) a b (op_width fn ?w ?x)))
      | _ \<Rightarrow> Some None)"
  define k' where "k' = (case (fa, fb) of (Some a, Some b) \<Rightarrow>
        or_else (fold_to fn i OpFloat (Some (ny_fold_float_binary h (opc fn i) a b))) (fold_to fn i OpInt (Some (ny_fold_float_cmp (opc fn i) a b)))
      | _ \<Rightarrow> Some None)"
  have "decides (\<lambda>c. (?A c \<or> ?B c) \<or> (?C c \<or> ?D c)) (\<lambda>v. (False \<or> False) \<or> (False \<or> False)) fn i r"
  proof (rule or_else_decides)
    show "or_else m k' = Some r" using r unfolding cf_binary_def Let_def at k bind.bind_lunit cmp_width_eq m_def k'_def .
    show "decides (\<lambda>c. ?A c \<or> ?B c) (\<lambda>v. False \<or> False) fn i r" if m: "m = Some r" for r
    proof (cases "a = None \<or> b = None")
      case True
      then have "r = None" using m by (auto simp: m_def split: option.splits)
      then show ?thesis using True by (auto simp: ki intro!: decides_none)
    next
      case False
      then obtain p q where pq: "a = Some p" "b = Some q" by auto
      show ?thesis
      proof (rule or_else_decides)
        show "or_else (fold_to fn i OpInt (ny_fold_int_binary (opc fn i) p q ?w))
            (fold_to fn i OpInt (ny_fold_int_cmp (opc fn i) p q (op_width fn ?w ?x))) = Some r" using m by (simp add: m_def pq)
        show "decides ?A no_value fn i r" if "fold_to fn i OpInt (ny_fold_int_binary (opc fn i) p q ?w) = Some r" for r
          using that by (rule fold_to_decides) (auto simp: ki pq int_result_iff[OF w])
        show "decides ?B no_value fn i r" if "fold_to fn i OpInt (ny_fold_int_cmp (opc fn i) p q (op_width fn ?w ?x)) = Some r" for r
          using that
        proof (rule fold_to_decides)
          fix v c assume "ny_fold_int_cmp (opc fn i) p q (op_width fn ?w ?x) = Some v"
          then have "v = map_option (\<lambda>c. if c then 1 else 0) (int_cmp_sem (opc fn i) (op_width fn ?w ?x) p q)"
            using fold_int_cmp_value[OF cw] by simp
          then show "?B c \<longleftrightarrow> (\<exists>x. v = Some x \<and> c = OpInt x)"
            unfolding ki pq truth_def by (cases "int_cmp_sem (opc fn i) (op_width fn ?w ?x) p q") simp_all
        qed
      qed
    qed
    show "decides (\<lambda>c. ?C c \<or> ?D c) (\<lambda>v. False \<or> False) fn i r" if k': "k' = Some r" for r
    proof (cases "fa = None \<or> fb = None")
      case True
      then have "r = None" using k' by (auto simp: k'_def split: option.splits)
      then show ?thesis using True by (auto simp: kf intro!: decides_none)
    next
      case False
      then obtain p q where pq: "fa = Some p" "fb = Some q" by auto
      show ?thesis
      proof (rule or_else_decides)
        show "or_else (fold_to fn i OpFloat (Some (ny_fold_float_binary h (opc fn i) p q)))
            (fold_to fn i OpInt (Some (ny_fold_float_cmp (opc fn i) p q))) = Some r" using k' by (simp add: k'_def pq)
        show "decides ?C no_value fn i r" if "fold_to fn i OpFloat (Some (ny_fold_float_binary h (opc fn i) p q)) = Some r" for r
          using that by (rule fold_to_decides) (auto simp: kf pq float_binary_value)
        show "decides ?D no_value fn i r" if "fold_to fn i OpInt (Some (ny_fold_float_cmp (opc fn i) p q)) = Some r" for r
          using that
        proof (rule fold_to_decides)
          fix v c assume "Some (ny_fold_float_cmp (opc fn i) p q) = Some v"
          then have "v = map_option (\<lambda>c. if c then 1 else 0) (float_cmp_sem (opc fn i) p q)" using float_cmp_value by simp
          then show "?D c \<longleftrightarrow> (\<exists>x. v = Some x \<and> c = OpInt x)"
            unfolding kf pq truth_def by (cases "float_cmp_sem (opc fn i) p q") simp_all
        qed
      qed
    qed
  qed
  moreover have "binary_value h fn i c \<longleftrightarrow> (?A c \<or> ?B c) \<or> (?C c \<or> ?D c)" for c
    unfolding binary_value_def by (subst (1) ops) (simp add: conj_disj_distribL ex_disj_distrib; blast)
  ultimately show ?thesis by (auto simp: decides_def split: option.splits)
qed

lemma cf_select_decides:
  assumes ow: "ops_wf fn" and lv: "live fn i" and n: "i_op_count (f_insts fn ! i) = 3" and sel: "opc fn i = NY_OPCODE_SELECT"
    and r: "cf_select fn i (f_insts fn ! i) = Some r"
  shows "decides (\<lambda>c. selects fn i c \<and> (\<exists>n. c = OpInt n \<or> c = OpFloat n)) (\<lambda>v. selects fn i (OpValue v)) fn i r"
proof -
  let ?t = "inst_ops fn i ! 0" and ?x = "inst_ops fn i ! 1" and ?y = "inst_ops fn i ! 2"
  have len: "length (inst_ops fn i) = 3" using length_inst_ops[OF ow lv] n by simp
  obtain t x y where "inst_ops fn i = [t, x, y]" using len by (auto simp: numeral_3_eq_3 length_Suc_conv)
  then have ops: "inst_ops fn i = [?t, ?x, ?y]" by simp
  have at: "op_at fn (ny_function_get_operands fn (f_insts fn ! i)) j = Some (inst_ops fn i ! j)" if "j < 3" for j
    using op_at_inst[OF ow lv] n that by simp
  obtain k where k: "ny_opt_get_operand_const_int fn ?t = Some k" using const_operand_defined[OF ow] by blast
  have s: "selects fn i op \<longleftrightarrow> (\<exists>n. k = Some n \<and> op = (if n \<noteq> 0 then ?x else ?y))" for op
    unfolding selects_def by (subst (1) ops) (auto simp: sel known_const(1)[OF ow k])
  show ?thesis
  proof (cases k)
    case None
    then have "r = None" using r at[of 0] k by (simp add: cf_select_def Let_def)
    then show ?thesis by (simp add: decides_none s None)
  next
    case (Some c)
    define op where "op = (if c \<noteq> 0 then ?x else ?y)"
    have s': "selects fn i c \<longleftrightarrow> c = op" for c by (simp add: s Some op_def)
    have ch: "cf_choose fn i (f_insts fn ! i) op = Some r" using r at[of 0] at[of 1] at[of 2] k Some
      by (auto simp: cf_select_def Let_def op_def split: if_splits)
    show ?thesis
      using ch by (cases op) (auto simp: s' cf_choose_def Let_def fold_to_def bind_Some_iff decides_def)
  qed
qed

lemma cf_cast_decides:
  assumes ow: "ops_wf fn" and lv: "live fn i" and r: "cf_cast h fn i (f_insts fn ! i) (result_width fn i) = Some r"
  shows "decides (cast_value h fn i) no_value fn i r"
proof (cases "i_op_count (f_insts fn ! i) \<ge> 1 \<and> opc fn i \<in> {NY_OPCODE_TRUNCATE, NY_OPCODE_SEXT, NY_OPCODE_ZEXT, NY_OPCODE_SITOFP, NY_OPCODE_FPTOSI}")
  case False
  then have "r = None" using r by (auto simp: cf_cast_def split: if_splits)
  moreover have "\<not> cast_value h fn i c" for c using False length_inst_ops[OF ow lv] by (auto simp: cast_value_def)
  ultimately show ?thesis by (simp add: decides_none)
next
  case True
  let ?x = "inst_ops fn i ! 0" and ?w = "result_width fn i"
  obtain xs where ops: "inst_ops fn i = ?x # xs" using length_inst_ops[OF ow lv] True by (cases "inst_ops fn i") auto
  have at: "op_at fn (ny_function_get_operands fn (f_insts fn ! i)) 0 = Some ?x" using op_at_inst[OF ow lv, of 0] True by simp
  obtain a f where k: "ny_opt_get_operand_const_int fn ?x = Some a" "ny_opt_get_operand_const_float fn ?x = Some f"
    using const_operand_defined[OF ow] by blast
  note ki = known_const(1)[OF ow k(1)] and kf = known_const(2)[OF ow k(2)]
  have sw: "cast_src_width fn ?x = op_width fn 32 ?x" unfolding cast_src_width_def by (rule cmp_width_eq)
  have w: "?w \<in> widths" "op_width fn 32 ?x \<in> widths" by (rule result_width_widths, rule result_width_widths(2)) simp
  have se: "ny_opt_sign_extend_width v w = Some (signed_take_bit (w - 1) v)" "ny_opt_mask_to_width v w = Some (take_bit w v)"
    if "w \<in> widths" for v w using sign_extend_width[of w v] mask_to_width[OF that, of v] widths_pos(1)[OF that] by simp_all
  have cv: "cast_value h fn i c \<longleftrightarrow> (\<exists>v. a = Some v \<and>
           (opc fn i = NY_OPCODE_TRUNCATE \<and> c = OpInt (signed_take_bit (?w - 1) v)
          \<or> opc fn i = NY_OPCODE_SEXT \<and> c = OpInt (signed_take_bit (op_width fn 32 ?x - 1) v)
          \<or> opc fn i = NY_OPCODE_ZEXT \<and> c = OpInt (take_bit (op_width fn 32 ?x) v)
          \<or> opc fn i = NY_OPCODE_SITOFP \<and> c = OpFloat (h_of_int h v)))
       \<or> (\<exists>x n. f = Some x \<and> opc fn i = NY_OPCODE_FPTOSI \<and> h_to_int h x = Some n \<and> c = OpInt (signed_take_bit (?w - 1) n))" for c
    unfolding cast_value_def by (subst (1) ops) (auto simp: ki kf)
  have run: "(if opc fn i = NY_OPCODE_FPTOSI
      then case f of None \<Rightarrow> Some None
        | Some v \<Rightarrow> fold_to fn i OpInt (do { n \<leftarrow> h_to_int h v; Some (Some (signed_take_bit (?w - 1) n)) })
      else case a of None \<Rightarrow> Some None
        | Some v \<Rightarrow> if opc fn i = NY_OPCODE_TRUNCATE then fold_to fn i OpInt (Some (Some (signed_take_bit (?w - 1) v)))
            else if opc fn i = NY_OPCODE_SEXT then fold_to fn i OpInt (Some (Some (signed_take_bit (op_width fn 32 ?x - 1) v)))
            else if opc fn i = NY_OPCODE_ZEXT then fold_to fn i OpInt (Some (Some (take_bit (op_width fn 32 ?x) v)))
            else fold_to fn i OpFloat (Some (Some (h_of_int h v)))) = Some r"
    using r True by (auto simp: cf_cast_def at k sw se[OF w(1)] se[OF w(2)] simp del: insert_iff One_nat_def split: if_splits option.splits)
  show ?thesis
  proof (cases "opc fn i = NY_OPCODE_FPTOSI")
    case fp: True
    show ?thesis
    proof (cases f)
      case None
      then show ?thesis using run fp by (auto simp: cv intro!: decides_none)
    next
      case (Some x)
      then have "fold_to fn i OpInt (do { n \<leftarrow> h_to_int h x; Some (Some (signed_take_bit (?w - 1) n)) }) = Some r" using run fp by simp
      then show ?thesis by (rule fold_to_decides) (auto simp: cv fp Some bind_Some_iff)
    qed
  next
    case fp: False
    show ?thesis
    proof (cases a)
      case None
      then show ?thesis using run fp by (auto simp: cv intro!: decides_none)
    next
      case (Some v)
      consider "opc fn i = NY_OPCODE_TRUNCATE" "fold_to fn i OpInt (Some (Some (signed_take_bit (?w - 1) v))) = Some r"
        | "opc fn i = NY_OPCODE_SEXT" "fold_to fn i OpInt (Some (Some (signed_take_bit (op_width fn 32 ?x - 1) v))) = Some r"
        | "opc fn i = NY_OPCODE_ZEXT" "fold_to fn i OpInt (Some (Some (take_bit (op_width fn 32 ?x) v))) = Some r"
        | "opc fn i = NY_OPCODE_SITOFP" "fold_to fn i OpFloat (Some (Some (h_of_int h v))) = Some r"
        using run fp True by (auto simp: Some split: if_splits)
      then show ?thesis by cases (erule fold_to_decides, auto simp: cv Some)+
    qed
  qed
qed

lemma rewrite_inst_decides:
  assumes ow: "ops_wf fn" and lv: "live fn i" and r: "rewrite_inst h fn i (f_insts fn ! i) (result_width fn i) = Some r"
  shows "decides (const_value h fn i) (\<lambda>v. selects fn i (OpValue v)) fn i r"
proof -
  let ?n = "i_op_count (f_insts fn ! i)"
  note len = length_inst_ops[OF ow lv]
  let ?S = "\<lambda>c. selects fn i c \<and> (\<exists>n. c = OpInt n \<or> c = OpFloat n)"
  have "decides (\<lambda>c. unary_value fn i c \<or> binary_value h fn i c \<or> ?S c \<or> cast_value h fn i c)
      (\<lambda>v. False \<or> False \<or> selects fn i (OpValue v) \<or> False) fn i r"
    using r unfolding rewrite_inst_def
  proof (rule or_else_decides)
    show "decides (unary_value fn i) no_value fn i r" if "(if ?n = 1 then cf_unary fn i (f_insts fn ! i) (result_width fn i) else Some None) = Some r" for r
      using that cf_unary_decides[OF ow lv] len by (auto simp: unary_value_def split: if_splits intro!: decides_none)
    fix r
    assume "or_else (if ?n = 2 then cf_binary h fn i (f_insts fn ! i) (result_width fn i) else Some None)
        (or_else (if opc fn i = NY_OPCODE_SELECT \<and> ?n = 3 then cf_select fn i (f_insts fn ! i) else Some None)
          (cf_cast h fn i (f_insts fn ! i) (result_width fn i))) = Some r"
    then show "decides (\<lambda>c. binary_value h fn i c \<or> ?S c \<or> cast_value h fn i c) (\<lambda>v. False \<or> selects fn i (OpValue v) \<or> False) fn i r"
    proof (rule or_else_decides)
      show "decides (binary_value h fn i) no_value fn i r" if "(if ?n = 2 then cf_binary h fn i (f_insts fn ! i) (result_width fn i) else Some None) = Some r" for r
        using that cf_binary_decides[OF ow lv] len by (auto simp: binary_value_def split: if_splits intro!: decides_none)
      fix r
      assume "or_else (if opc fn i = NY_OPCODE_SELECT \<and> ?n = 3 then cf_select fn i (f_insts fn ! i) else Some None)
          (cf_cast h fn i (f_insts fn ! i) (result_width fn i)) = Some r"
      then show "decides (\<lambda>c. ?S c \<or> cast_value h fn i c) (\<lambda>v. selects fn i (OpValue v) \<or> False) fn i r"
      proof (rule or_else_decides)
        show "decides ?S (\<lambda>v. selects fn i (OpValue v)) fn i r"
          if "(if opc fn i = NY_OPCODE_SELECT \<and> ?n = 3 then cf_select fn i (f_insts fn ! i) else Some None) = Some r" for r
        proof (cases "opc fn i = NY_OPCODE_SELECT \<and> ?n = 3")
          case True
          then show ?thesis using that cf_select_decides[OF ow lv] by simp
        next
          case False
          then have "\<not> selects fn i c" for c using len by (auto simp: selects_def)
          then show ?thesis using that False by (auto intro: decides_none)
        qed
      qed (rule cf_cast_decides[OF ow lv])
    qed
  qed
  then show ?thesis unfolding const_value_def by (auto simp: decides_def split: option.splits)
qed

subsection \<open>The step and the walk\<close>

lemma make_const_becomes:
  assumes wf: "fn_wf fn L" and ow: "ops_wf fn" and lv: "live fn i" and n: "1 \<le> i_op_count (f_insts fn ! i)"
    and mk: "make_const fn i c = Some fn'"
  shows "becomes_const fn i c fn'" "fn_wf fn' L" "ops_wf fn'"
proof -
  have lt: "i < length (f_insts fn)" "i_op_start (f_insts fn ! i) < length (f_operands fn)"
    using lv ow n by (fastforce simp: live_def ops_wf_def)+
  have "make_const fn i c = Some (fn\<lparr>f_insts := (f_insts fn)[i := (f_insts fn ! i)\<lparr>i_opcode := NY_OPCODE_CONST, i_op_count := 1\<rparr>],
              f_operands := (f_operands fn)[i_op_start (f_insts fn ! i) := c]\<rparr>)"
    using lt n live_index[OF wf lv] by (simp add: make_const_def ny_instruction_replace_operand_def Let_def)
  then show "becomes_const fn i c fn'" "fn_wf fn' L" "ops_wf fn'"
    using make_const_spec[OF wf ow lv n, of c] mk by (auto simp: becomes_const_def)
qed

lemma forward_step:
  assumes wf: "fn_wf fn L" and ow: "ops_wf fn" and fo: "foldable fn i"
    and rm: "ny_function_remove_instruction (ny_function_replace_all_uses fn (i_result (f_insts fn ! i)) v) (i_id (f_insts fn ! i)) = Some fn'"
  shows "\<exists>L'. forwards fn L i v fn' L' \<and> fn_wf fn' L' \<and> ops_wf fn'"
proof -
  let ?res = "i_result (f_insts fn ! i)"
  let ?fn1 = "ny_function_replace_all_uses fn ?res v"
  have lv: "live fn i" and res: "?res \<noteq> NY_INVALID_VALUE" "?res < length (f_values fn)" using fo by (auto simp: foldable_def)
  have same: "f_insts ?fn1 = f_insts fn" "f_blocks ?fn1 = f_blocks fn" "f_values ?fn1 = f_values fn" "f_entry ?fn1 = f_entry fn"
      "length (f_operands ?fn1) = length (f_operands fn)"
    using replace_all_uses_operands[of fn ?res v] by simp_all
  have lv1: "live ?fn1 j = live fn j" for j by (simp add: live_def same)
  have wf1: "fn_wf ?fn1 L" using wf by (simp add: fn_wf_def same)
  have ow1: "ops_wf ?fn1" by (rule ops_wf_shrink[OF ow]) (simp_all add: same live_def)
  have ops1: "inst_ops ?fn1 j = map (replace_val ?res v) (inst_ops fn j)" if "live fn j" for j
    using replace_all_uses_map[OF ow that] .
  define b where "b = i_block (f_insts fn ! i)"
  define L' where "L' = L[b := remove1 i (L ! b)]"
  have i: "i < length (f_insts ?fn1)" "i_opcode (f_insts ?fn1 ! i) \<noteq> NY_OPCODE_NONE" using lv by (simp_all add: live_def same)
  have r: "fn_wf fn' L'" "same_but {i} ?fn1 fn'" "f_insts fn' ! i = cleared (f_insts fn ! i)" "f_values fn' = forget_def ?fn1 ?res"
    using remove_instruction_live[OF wf1 i] rm live_index[OF wf lv] by (auto simp: same b_def L'_def)
  have pl: "payload (f_insts fn' ! j) = payload (f_insts fn ! j) \<and> i_block (f_insts fn' ! j) = i_block (f_insts fn ! j)"
    if "j < length (f_insts fn)" "j \<noteq> i" for j using r(2) that by (simp add: same_but_def same)
  have lv': "live fn' j \<longleftrightarrow> live fn j \<and> j \<noteq> i" for j
    using r(2,3) pl[of j] by (cases "j = i") (auto simp: live_def same_but_def same cleared_def payload_def)
  have ops': "inst_ops fn' j = inst_ops ?fn1 j" if "live fn' j" for j
    using that pl[of j] r(2) unfolding lv' by (simp add: inst_ops_def same_but_def same live_def payload_def)
  have "ops_wf fn'"
    by (rule ops_wf_shrink[OF ow1]) (use r(2) pl lv' in \<open>auto simp: same_but_def lv1 same live_def payload_def\<close>)
  moreover have "f_values fn' = (f_values fn)[?res := (f_values fn ! ?res)\<lparr>v_def := NY_INVALID_INST\<rparr>]"
    using res r(4) by (simp add: forget_def_def upd_value_def same)
  moreover have "block_edges fn' = block_edges fn" "f_entry fn' = f_entry fn"
    using r(2) by (simp_all add: same_but_def same) (simp add: block_edges_def same)
  ultimately have "forwards fn L i v fn' L'" unfolding forwards_def Let_def
    using lv' pl ops' ops1 by (auto simp: L'_def b_def live_def)
  then show ?thesis using r(1) \<open>ops_wf fn'\<close> by blast
qed

lemma const_value_count: "ops_wf fn \<Longrightarrow> live fn i \<Longrightarrow> const_value h fn i c \<Longrightarrow> 1 \<le> i_op_count (f_insts fn ! i)"
  using length_inst_ops[of fn i] by (auto simp: const_value_def unary_value_def binary_value_def cast_value_def selects_def)

lemma const_fold_step_exact:
  assumes wf: "fn_wf fn L" and ow: "ops_wf fn" and st: "const_fold_step h (fn, ch0) i = Some (fn', ch1)"
  shows "\<exists>ch L'. fold_step h fn L i ch fn' L' \<and> ch1 = (ch0 \<or> ch) \<and> fn_wf fn' L' \<and> ops_wf fn'"
proof (cases "foldable fn i")
  case False
  then have "fn' = fn" "ch1 = ch0" using st by (auto simp: const_fold_step_def bind_Some_iff rd_def foldable_def live_def split: if_splits)
  moreover have "fold_step h fn L i False fn L" using False by (auto intro: fs_keep)
  ultimately show ?thesis using wf ow by (intro exI[of _ False] exI[of _ L]) simp
next
  case True
  then have lv: "live fn i" by (simp add: foldable_def)
  obtain r where r: "rewrite_inst h fn i (f_insts fn ! i) (result_width fn i) = Some r"
    and res: "(case r of None \<Rightarrow> Some (fn, ch0) | Some fn' \<Rightarrow> Some (fn', True)) = Some (fn', ch1)"
    using st True by (auto simp: const_fold_step_def bind_Some_iff foldable_def live_def result_width_def)
  note d = rewrite_inst_decides[OF ow lv r]
  show ?thesis
  proof (cases r)
    case None
    then have "fold_step h fn L i False fn L" using d by (auto simp: decides_def intro: fs_keep)
    then show ?thesis using wf ow res None by (intro exI[of _ False] exI[of _ L]) simp
  next
    case (Some fn1)
    then have eq: "fn1 = fn'" "ch1" using res by auto
    consider c where "const_value h fn i c" "make_const fn i c = Some fn'"
      | v where "selects fn i (OpValue v)" "ny_function_remove_instruction (ny_function_replace_all_uses fn (i_result (f_insts fn ! i)) v) (i_id (f_insts fn ! i)) = Some fn'"
      using d by (auto simp: decides_def Some eq)
    then show ?thesis
    proof cases
      case 1
      note m = make_const_becomes[OF wf ow lv const_value_count[OF ow lv 1(1)] 1(2)]
      then show ?thesis using fs_const[OF True 1(1) m(1), of L] eq(2) by blast
    next
      case 2
      obtain L' where "forwards fn L i v fn' L'" "fn_wf fn' L'" "ops_wf fn'" using forward_step[OF wf ow True 2(2)] by blast
      then show ?thesis using fs_select[OF True 2(1)] eq(2) by blast
    qed
  qed
qed

lemma const_fold_walk:
  assumes "fn_wf fn L" "ops_wf fn" "foldM (const_fold_step h) (fn, ch0) is = Some (fn', ch1)"
  shows "\<exists>ch L'. fold_walk h is fn L ch fn' L' \<and> ch1 = (ch0 \<or> ch) \<and> fn_wf fn' L'"
  using assms
proof (induction "is" arbitrary: fn L ch0)
  case Nil
  then show ?case by (auto intro: fw_nil)
next
  case (Cons i xs)
  obtain fn1 c1 where s: "const_fold_step h (fn, ch0) i = Some (fn1, c1)" "foldM (const_fold_step h) (fn1, c1) xs = Some (fn', ch1)"
    using Cons.prems(3) by (auto simp: bind_Some_iff)
  obtain ch L1 where 1: "fold_step h fn L i ch fn1 L1" "c1 = (ch0 \<or> ch)" "fn_wf fn1 L1" "ops_wf fn1"
    using const_fold_step_exact[OF Cons.prems(1,2) s(1)] by blast
  obtain ch' L2 where 2: "fold_walk h xs fn1 L1 ch' fn' L2" "ch1 = (c1 \<or> ch')" "fn_wf fn' L2"
    using Cons.IH[OF 1(3,4) s(2)] by blast
  have "fold_walk h (i # xs) fn L (ch \<or> ch') fn' L2" by (rule fw_cons[OF 1(1,3,4) 2(1)])
  then show ?case using 1(2) 2(2,3) by blast
qed

text \<open>
  C8. The constant-folding pass on a well-formed function.  Every run that returns is a walk over the instructions in order, in
  which each one that computes a constant from its known operands becomes that constant in place (with nothing else of the
  function changed; an integer constant is the exact result at the width of the type when the operands are sign-extended from
  it, the folder's own value otherwise), each \<open>SELECT\<close> whose known condition chooses a value leaves its block with that value in the place of its
  result everywhere, and every other step changes nothing; the answer tells whether a step applied.  The result is well formed,
  with the control-flow edges and the order of the instructions that stay.  The pass returns whenever no instruction is
  one whose C arithmetic can overflow (negation, sum, difference, product, signed division and remainder, conversion to
  integer).
\<close>

theorem const_fold_pass_correct:
  assumes "fn_wf fn L" "ops_wf fn"
  shows "(\<forall>fn' ch. ny_opt_pass_const_fold h fn = Some (fn', ch) \<longrightarrow>
        (\<exists>L'. fold_walk h [0..<length (f_insts fn)] fn L ch fn' L' \<and> fn_wf fn' L') \<and> fold_inv fn L fn')
    \<and> ((\<forall>i. live fn i \<longrightarrow> i_opcode (f_insts fn ! i) \<notin> unsafe_ops) \<longrightarrow> (\<exists>r. ny_opt_pass_const_fold h fn = Some r))"
proof (intro conjI allI impI)
  fix fn' ch assume r: "ny_opt_pass_const_fold h fn = Some (fn', ch)"
  then show "\<exists>L'. fold_walk h [0..<length (f_insts fn)] fn L ch fn' L' \<and> fn_wf fn' L'"
    using const_fold_walk[OF assms, of h False] unfolding ny_opt_pass_const_fold_def by fastforce
  show "fold_inv fn L fn'" by (rule const_fold_pass_inv[OF assms r])
qed (rule const_fold_pass_defined[OF assms])

text \<open>A selection between two immediates, returned.\<close>

definition select_fn :: ny_function where
  "select_fn = (ny_function_init 0 ''g'' 1 0)\<lparr>f_entry := 0,
     f_blocks := [\<lparr>b_id = 0, b_name = ''entry'', b_first = 0, b_last = 1, b_inst_count = 2, b_preds = [], b_succs = []\<rparr>],
     f_insts := [mk_inst 0 NY_OPCODE_SELECT 0 0 3 0 NY_INVALID 1, mk_inst 1 NY_OPCODE_RETURN NY_INVALID 3 1 0 0 NY_INVALID],
     f_values := [\<lparr>v_id = 0, v_type = 1, v_kind = NY_VAL_INSTRUCTION, v_def = 0, v_index = 0, v_name = ''s''\<rparr>],
     f_operands := [OpInt 1, OpInt 7, OpInt 9, OpValue 0]\<rparr>"

lemma select_fn_parts: "length (f_insts select_fn) = 2" "length (f_blocks select_fn) = 1" "length (f_operands select_fn) = 4"
  "f_insts select_fn ! 0 = mk_inst 0 NY_OPCODE_SELECT 0 0 3 0 NY_INVALID 1"
  "f_insts select_fn ! Suc 0 = mk_inst 1 NY_OPCODE_RETURN NY_INVALID 3 1 0 0 NY_INVALID"
  "f_blocks select_fn ! 0 = \<lparr>b_id = 0, b_name = ''entry'', b_first = 0, b_last = 1, b_inst_count = 2, b_preds = [], b_succs = []\<rparr>"
  "inst_ops select_fn 0 = [OpInt 1, OpInt 7, OpInt 9]" "length (f_values select_fn) = 1"
  by (simp_all add: select_fn_def mk_inst_def inst_ops_def subarray_def)

lemma select_fn_wf: "fn_wf select_fn [[0, 1]]"
proof -
  have "block_ok (f_insts select_fn) (f_blocks select_fn ! 0) 0 [0, 1]"
    by (auto simp: block_ok_def select_fn_parts mk_inst_def)
  moreover have "i_id (f_insts select_fn ! i) = i \<and> i_block (f_insts select_fn ! i) = 0" if "i < 2" for i
    using less_two[OF that] by (auto simp: select_fn_parts mk_inst_def)
  ultimately show ?thesis by (auto simp: fn_wf_def select_fn_parts NY_INVALID_def)
qed

lemma select_fn_live: "live select_fn i \<Longrightarrow> i = 0 \<or> i = Suc 0"
  by (auto simp: live_def select_fn_parts)

lemma select_fn_ops: "ops_wf select_fn"
  unfolding ops_wf_def by (auto simp: select_fn_parts mk_inst_def dest!: select_fn_live)

inductive_cases fold_walk_cons: "fold_walk h (i # is) fn L ch fn' L'"

theorem const_fold_pass_correct_witness:
  "\<exists>fn' fn1 L1 ch. ny_opt_pass_const_fold sample_fpu select_fn = Some (fn', True)
     \<and> inst_ops fn1 0 = [OpInt 7] \<and> opc fn1 0 = NY_OPCODE_CONST \<and> fold_step sample_fpu fn1 [[0, 1]] 1 ch fn' L1"
proof -
  have "i_opcode (f_insts select_fn ! i) \<notin> unsafe_ops" if "live select_fn i" for i
    using select_fn_live[OF that] by (auto simp: select_fn_parts mk_inst_def unsafe_ops_def)
  then obtain fn' ch L' where r: "ny_opt_pass_const_fold sample_fpu select_fn = Some (fn', ch)"
      "fold_walk sample_fpu (0 # [1]) select_fn [[0, 1]] ch fn' L'"
    using const_fold_pass_correct[OF select_fn_wf select_fn_ops, of sample_fpu] by (force simp: select_fn_parts upt_rec)
  have sel: "selects select_fn 0 c \<longleftrightarrow> c = OpInt 7" for c
    by (auto simp: selects_def select_fn_parts mk_inst_def known_const_simps)
  have cv: "const_value sample_fpu select_fn 0 c \<longleftrightarrow> c = OpInt 7" for c
    by (auto simp: const_value_def sel unary_value_def binary_value_def cast_value_def select_fn_parts mk_inst_def)
  have fo: "foldable select_fn 0" by (simp add: foldable_def live_def select_fn_parts mk_inst_def NY_INVALID_def)
  from r(2) obtain c1 fn1 L1 c2 L2 where s: "fold_step sample_fpu select_fn [[0, 1]] 0 c1 fn1 L1" "ch = (c1 \<or> c2)"
      "fold_walk sample_fpu [1] fn1 L1 c2 fn' L2" by (rule fold_walk_cons) blast
  from s(1) have st: "c1" "becomes_const select_fn 0 (OpInt 7) fn1" "L1 = [[0, 1]]"
    by (cases, auto simp: cv sel fo)+
  have f1: "inst_ops fn1 0 = [OpInt 7]" using st(2) unfolding becomes_const_def by blast
  have f2: "opc fn1 0 = NY_OPCODE_CONST" using st(2) by (simp add: becomes_const_def select_fn_parts(1))
  from s(3) obtain c3 L3 where f3: "fold_step sample_fpu fn1 L1 1 c3 fn' L3"
    by (rule fold_walk_cons) (auto elim: fold_walk.cases)
  have "ny_opt_pass_const_fold sample_fpu select_fn = Some (fn', True)" using r(1) s(2) st(1) by simp
  then show ?thesis using f1 f2 f3[unfolded st(3)] by blast
qed

end
