(* ===== verification/Copy_Prop.thy ===== *)
theory Copy_Prop
  imports Dce Fold
begin

text \<open>
  Copy propagation, \<^verbatim>\<open>src/opt/copy_prop.c\<close>: instructions that only rename a value (a phi of one
  value, a select between equal values, a cast that keeps the type or the width) are removed and
  their uses are redirected to the value at the end of the chain of copies.
\<close>

subsection \<open>The pass\<close>

text \<open>The loop over the incoming values of a phi; \<open>None\<close> inside \<open>Some\<close> is \<^verbatim>\<open>return false\<close>.\<close>

function phi_source :: "ny_function \<Rightarrow> nat option \<Rightarrow> nat \<Rightarrow> nat \<Rightarrow> nat \<Rightarrow> nat \<Rightarrow> nat option option" where
  "phi_source fn ops op_cnt result i first_val =
     (if i < op_cnt then
        (case op_at fn ops i of
           None \<Rightarrow> None
         | Some (OpValue val) \<Rightarrow>
             if val = result then phi_source fn ops op_cnt result (i + 2) first_val
             else if first_val = NY_INVALID_VALUE then phi_source fn ops op_cnt result (i + 2) val
             else if first_val \<noteq> val then Some None
             else phi_source fn ops op_cnt result (i + 2) first_val
         | Some _ \<Rightarrow> Some None)
      else Some (if first_val \<noteq> NY_INVALID_VALUE then Some first_val else None))"
  by pat_completeness auto
termination by (relation "measure (\<lambda>(fn, ops, op_cnt, result, i, first_val). op_cnt - i)") auto

definition cast_source :: "ny_function \<Rightarrow> ny_instruction \<Rightarrow> (ny_value \<Rightarrow> bool) \<Rightarrow> nat option option" where
  "cast_source fn inst same =
     (if i_op_count inst \<ge> 1 then do {
        op0 \<leftarrow> op_at fn (ny_function_get_operands fn inst) 0;
        Some (case op0 of
            OpValue v \<Rightarrow> (case ny_function_get_value fn v of Some src_v \<Rightarrow> if same src_v then Some v else None | None \<Rightarrow> None)
          | _ \<Rightarrow> None)
      } else Some None)"

definition get_copy_source :: "ny_function \<Rightarrow> ny_instruction \<Rightarrow> nat option option" where
  "get_copy_source fn inst =
     (if i_result inst = NY_INVALID_VALUE then Some None
      else case ny_function_get_value fn (i_result inst) of
        None \<Rightarrow> Some None
      | Some res_val \<Rightarrow>
          let ops = ny_function_get_operands fn inst; op_cnt = i_op_count inst in
          if i_opcode inst = NY_OPCODE_PHI \<and> op_cnt \<ge> 2 then phi_source fn ops op_cnt (i_result inst) 0 NY_INVALID_VALUE
          else if i_opcode inst = NY_OPCODE_SELECT \<and> op_cnt = 3 then do {
            op1 \<leftarrow> op_at fn ops 1;
            op2 \<leftarrow> op_at fn ops 2;
            Some (case (op1, op2) of (OpValue a, OpValue b) \<Rightarrow> if a = b then Some a else None | _ \<Rightarrow> None)
          }
          else if i_opcode inst \<in> {NY_OPCODE_BITCAST, NY_OPCODE_CAST}
            then cast_source fn inst (\<lambda>src_v. v_type src_v = v_type res_val)
          else if i_opcode inst \<in> {NY_OPCODE_TRUNCATE, NY_OPCODE_SEXT, NY_OPCODE_ZEXT}
            then cast_source fn inst (\<lambda>src_v. ny_opt_get_type_bit_width (v_type src_v) = ny_opt_get_type_bit_width (v_type res_val))
          else Some None)"

text \<open>The walk along a chain of copies; the first argument is the number of steps left of 64.\<close>

fun resolve_steps :: "nat \<Rightarrow> nat list \<Rightarrow> nat \<Rightarrow> nat" where
  "resolve_steps 0 copy_map cur = cur"
| "resolve_steps (Suc k) copy_map cur =
     (if cur \<ge> length copy_map then cur
      else if copy_map ! cur = NY_INVALID_VALUE \<or> copy_map ! cur = cur then cur
      else resolve_steps k copy_map (copy_map ! cur))"

definition resolve_copy :: "nat list \<Rightarrow> nat \<Rightarrow> nat" where
  "resolve_copy copy_map v = resolve_steps 64 copy_map v"

definition copy_collect :: "ny_function \<Rightarrow> nat list \<Rightarrow> ny_instruction \<Rightarrow> nat list option" where
  "copy_collect fn copy_map inst =
     (if i_opcode inst = NY_OPCODE_NONE then Some copy_map
      else do {
        src \<leftarrow> get_copy_source fn inst;
        (case src of None \<Rightarrow> Some copy_map | Some s \<Rightarrow> wr copy_map (i_result inst) s)
      })"

definition copy_close :: "nat list \<Rightarrow> nat \<Rightarrow> nat list" where
  "copy_close copy_map i =
     (if copy_map ! i \<noteq> NY_INVALID_VALUE then copy_map[i := resolve_copy copy_map (copy_map ! i)] else copy_map)"

definition copy_operand :: "nat list \<Rightarrow> ny_instruction \<Rightarrow> ny_function \<times> bool \<Rightarrow> nat \<Rightarrow> (ny_function \<times> bool) option" where
  "copy_operand copy_map inst = (\<lambda>(fn, changed) op_i. do {
     op \<leftarrow> op_at fn (ny_function_get_operands fn inst) op_i;
     Some (case op of
         OpValue v \<Rightarrow> if v < length copy_map \<and> copy_map ! v \<noteq> NY_INVALID_VALUE
                      then (ny_instruction_replace_operand fn (i_id inst) op_i (OpValue (copy_map ! v)), True) else (fn, changed)
       | _ \<Rightarrow> (fn, changed))
   })"

definition copy_rewrite :: "nat list \<Rightarrow> ny_function \<times> bool \<Rightarrow> nat \<Rightarrow> (ny_function \<times> bool) option" where
  "copy_rewrite copy_map = (\<lambda>(fn, changed) i. do {
     inst \<leftarrow> rd (f_insts fn) i;
     if i_opcode inst = NY_OPCODE_NONE then Some (fn, changed)
     else if i_result inst < length copy_map \<and> copy_map ! i_result inst \<noteq> NY_INVALID_VALUE then do {
       let fn = ny_function_replace_all_uses fn (i_result inst) (copy_map ! i_result inst);
       fn \<leftarrow> ny_function_remove_instruction fn (i_id inst);
       Some (fn, True)
     }
     else foldM (copy_operand copy_map inst) (fn, changed) [0..<i_op_count inst]
   })"

definition ny_opt_pass_copy_prop :: "ny_function \<Rightarrow> (ny_function \<times> bool) option" where
  "ny_opt_pass_copy_prop fn =
     (let n = length (f_values fn)
      in if n = 0 then Some (fn, False)
      else do {
        copy_map \<leftarrow> foldM (copy_collect fn) (replicate n NY_INVALID_VALUE) (f_insts fn);
        let copy_map = foldl copy_close copy_map [0..<n];
        foldM (copy_rewrite copy_map) (fn, False) [0..<length (f_insts fn)]
      })"

subsection \<open>Resolving the chains\<close>

text \<open>
  A copy map whose chains end: a rank that drops along every copy, at most 64.  \<open>root\<close> is the end
  of a chain.
\<close>

definition ranked :: "nat list \<Rightarrow> (nat \<Rightarrow> nat) \<Rightarrow> bool" where
  "ranked cm rank \<longleftrightarrow> (\<forall>v. rank v \<le> 64) \<and> (\<forall>v < length cm. cm ! v \<noteq> NY_INVALID_VALUE \<longrightarrow> rank (cm ! v) < rank v)"

definition is_copy :: "nat list \<Rightarrow> nat \<Rightarrow> bool" where
  "is_copy cm v \<longleftrightarrow> v < length cm \<and> cm ! v \<noteq> NY_INVALID_VALUE"

definition root :: "nat list \<Rightarrow> nat \<Rightarrow> nat" where
  "root cm v = resolve_steps 64 cm v"

lemma resolve_enough:
  assumes "ranked cm rank"
  shows "rank v \<le> k \<Longrightarrow> rank v \<le> j \<Longrightarrow> resolve_steps k cm v = resolve_steps j cm v"
proof (induction "rank v" arbitrary: v k j rule: less_induct)
  case less
  show ?case
  proof (cases "is_copy cm v")
    case False
    then show ?thesis by (cases k; cases j) (auto simp: is_copy_def)
  next
    case True
    then have lt: "rank (cm ! v) < rank v" using assms by (auto simp: ranked_def is_copy_def)
    then obtain k' j' where "k = Suc k'" "j = Suc j'" using less.prems by (cases k; cases j) auto
    then show ?thesis using True lt less.hyps[OF lt, of k' j'] less.prems by (auto simp: is_copy_def)
  qed
qed

lemma root_step:
  assumes "ranked cm rank"
  shows "root cm v = (if is_copy cm v then root cm (cm ! v) else v)"
proof (cases "is_copy cm v")
  case True
  then have lt: "rank (cm ! v) < rank v" and v64: "rank v \<le> 64" using assms by (auto simp: ranked_def is_copy_def)
  then have "resolve_steps 63 cm (cm ! v) = resolve_steps 64 cm (cm ! v)" by (intro resolve_enough[OF assms]) auto
  moreover have "cm ! v \<noteq> v" using lt by auto
  ultimately show ?thesis using True resolve_steps.simps(2)[of 63 cm v] by (simp add: root_def is_copy_def)
next
  case False
  then show ?thesis using resolve_steps.simps(2)[of 63 cm v] by (auto simp: root_def is_copy_def)
qed

lemma root_not_copy: "ranked cm rank \<Longrightarrow> \<not> is_copy cm (root cm v)"
proof (induction "rank v" arbitrary: v rule: less_induct)
  case less
  show ?case
  proof (cases "is_copy cm v")
    case True
    then have "rank (cm ! v) < rank v" using less.prems by (auto simp: ranked_def is_copy_def)
    then show ?thesis using less.hyps[of "cm ! v"] less.prems True root_step[OF less.prems, of v] by simp
  qed (use root_step[OF less.prems, of v] in simp)
qed

lemma root_root: "ranked cm rank \<Longrightarrow> root cm (root cm v) = root cm v"
  using root_not_copy[of cm rank v] root_step[of cm rank "root cm v"] by simp

lemma root_valid: "ranked cm rank \<Longrightarrow> is_copy cm v \<Longrightarrow> root cm v \<noteq> NY_INVALID_VALUE"
proof (induction "rank v" arbitrary: v rule: less_induct)
  case less
  then have "rank (cm ! v) < rank v" by (auto simp: ranked_def is_copy_def)
  then show ?case using less.hyps[of "cm ! v"] less.prems root_step[OF less.prems(1), of v] root_step[OF less.prems(1), of "cm ! v"]
    by (cases "is_copy cm (cm ! v)") (auto simp: is_copy_def)
qed

text \<open>Shortening one chain in place keeps the roots and the copies.\<close>

lemma copy_close_step:
  assumes r: "ranked cm rank" and i: "i < length cm"
  shows "ranked (copy_close cm i) rank" "is_copy (copy_close cm i) v = is_copy cm v" "root (copy_close cm i) v = root cm v"
    "length (copy_close cm i) = length cm" "is_copy cm i \<Longrightarrow> copy_close cm i ! i = root cm i"
    "j \<noteq> i \<Longrightarrow> copy_close cm i ! j = cm ! j"
proof -
  show l: "length (copy_close cm i) = length cm" and o: "j \<noteq> i \<Longrightarrow> copy_close cm i ! j = cm ! j" for j by (simp_all add: copy_close_def)
  have at: "copy_close cm i ! i = root cm i" if "is_copy cm i"
    using that i root_step[OF r, of i] by (simp add: copy_close_def is_copy_def resolve_copy_def root_def)
  then show "is_copy cm i \<Longrightarrow> copy_close cm i ! i = root cm i" .
  have rk: "rank (root cm v) \<le> rank v" for v
  proof (induction "rank v" arbitrary: v rule: less_induct)
    case less
    then show ?case using root_step[OF r, of v] r by (cases "is_copy cm v") (fastforce simp: ranked_def is_copy_def)+
  qed
  have rk': "rank (root cm i) < rank i" if "is_copy cm i"
    using that rk[of "cm ! i"] root_step[OF r, of i] r by (auto simp: ranked_def is_copy_def)
  show ic: "is_copy (copy_close cm i) v = is_copy cm v" for v
  proof (cases "v = i \<and> is_copy cm i")
    case True
    then have "root cm i \<noteq> NY_INVALID" using root_valid[OF r] by blast
    then show ?thesis using True at i l by (simp add: is_copy_def)
  next
    case False
    then show ?thesis using o[of v] l by (auto simp: is_copy_def copy_close_def)
  qed
  show rr: "ranked (copy_close cm i) rank"
    using r rk' at o l ic unfolding ranked_def is_copy_def by metis
  show "root (copy_close cm i) v = root cm v"
  proof (induction "rank v" arbitrary: v rule: less_induct)
    case less
    show ?case
    proof (cases "is_copy cm v")
      case True
      have "rank (copy_close cm i ! v) < rank v" using rr True ic[of v] by (auto simp: ranked_def is_copy_def)
      then have "root (copy_close cm i) v = root cm (copy_close cm i ! v)"
        using root_step[OF rr, of v] True ic[of v] less by simp
      then show ?thesis using at o[of v] True root_step[OF r, of v] root_root[OF r, of v] by (cases "v = i") auto
    qed (use root_step[OF rr, of v] root_step[OF r, of v] ic[of v] in simp)
  qed
qed

lemma copy_close_all:
  assumes r: "ranked cm rank"
  shows "k \<le> length cm \<Longrightarrow> ranked (foldl copy_close cm [0..<k]) rank \<and> (\<forall>v. is_copy (foldl copy_close cm [0..<k]) v = is_copy cm v)
    \<and> (\<forall>v. root (foldl copy_close cm [0..<k]) v = root cm v) \<and> length (foldl copy_close cm [0..<k]) = length cm
    \<and> (\<forall>i < k. is_copy cm i \<longrightarrow> foldl copy_close cm [0..<k] ! i = root cm i)"
proof (induction k)
  case 0
  then show ?case using r by simp
next
  case (Suc k)
  let ?m = "foldl copy_close cm [0..<k]"
  have IH: "ranked ?m rank" "\<And>v. is_copy ?m v = is_copy cm v" "\<And>v. root ?m v = root cm v" "length ?m = length cm"
    "\<And>i. i < k \<Longrightarrow> is_copy cm i \<Longrightarrow> ?m ! i = root cm i" using Suc by auto
  have k: "k < length ?m" using Suc.prems IH(4) by simp
  note st = copy_close_step[OF IH(1) k]
  have "copy_close ?m k ! i = root cm i" if "i < Suc k" "is_copy cm i" for i
    using that st(5) st(6)[of i] IH(2,3,5) by (cases "i = k") auto
  then show ?case using st(1-4) IH(2-4) by simp
qed

subsection \<open>Collecting the copies\<close>

declare phi_source.simps [simp del]

lemma phi_source_defined:
  assumes "\<And>j. j < op_cnt \<Longrightarrow> op_at fn ops j \<noteq> None"
  shows "phi_source fn ops op_cnt r i first_val \<noteq> None"
proof (induction "op_cnt - i" arbitrary: i first_val rule: less_induct)
  case less
  show ?case
  proof (cases "i < op_cnt")
    case True
    then obtain op where "op_at fn ops i = Some op" using assms by blast
    then show ?thesis using less[of "i + 2"] True by (subst phi_source.simps) (auto split: ny_operand.splits)
  qed (subst phi_source.simps, simp)
qed

lemma phi_source_end: "\<not> i < op_cnt \<Longrightarrow> phi_source fn ops op_cnt r i f = Some (if f \<noteq> NY_INVALID_VALUE then Some f else None)"
  by (subst phi_source.simps) simp

lemma phi_source_value: "i < op_cnt \<Longrightarrow> op_at fn ops i = Some (OpValue v) \<Longrightarrow> phi_source fn ops op_cnt r i f =
    (if v = r then phi_source fn ops op_cnt r (i + 2) f
     else if f = NY_INVALID_VALUE then phi_source fn ops op_cnt r (i + 2) v
     else if f \<noteq> v then Some None else phi_source fn ops op_cnt r (i + 2) f)"
  by (subst phi_source.simps) simp

lemma phi_source_other: "i < op_cnt \<Longrightarrow> op_at fn ops i = Some op \<Longrightarrow> \<forall>v. op \<noteq> OpValue v \<Longrightarrow> phi_source fn ops op_cnt r i f = Some None"
  by (subst phi_source.simps) (auto split: ny_operand.splits)

lemma phi_source_null: "i < op_cnt \<Longrightarrow> op_at fn ops i = None \<Longrightarrow> phi_source fn ops op_cnt r i f = None"
  by (subst phi_source.simps) simp

lemma phi_source_sound:
  assumes "phi_source fn ops op_cnt r i f = Some (Some s)"
  shows "(f \<noteq> NY_INVALID_VALUE \<longrightarrow> s = f)
     \<and> (\<forall>j. i + 2 * j < op_cnt \<longrightarrow> op_at fn ops (i + 2 * j) \<in> {Some (OpValue r), Some (OpValue s), Some (OpValue NY_INVALID_VALUE)})"
  using assms
proof (induction "op_cnt - i" arbitrary: i f rule: less_induct)
  case less
  show ?case
  proof (cases "i < op_cnt")
    case False
    then show ?thesis using less.prems phi_source_end[OF False, of fn ops r f] by (auto split: if_splits)
  next
    case True
    obtain v where v: "op_at fn ops i = Some (OpValue v)"
      using less.prems phi_source_other[OF True, of fn ops _ r f] phi_source_null[OF True, of fn ops r f]
      by (metis option.distinct(1) option.exhaust option.inject)
    define g where "g = (if v = r then f else if f = NY_INVALID then v else f)"
    have rec: "phi_source fn ops op_cnt r (i + 2) g = Some (Some s)" and fv: "v = r \<or> f = NY_INVALID \<or> f = v"
      using less.prems phi_source_value[OF True v, of r f] by (auto simp: g_def split: if_splits)
    have IH: "g \<noteq> NY_INVALID \<longrightarrow> s = g" "\<And>j. i + 2 + 2 * j < op_cnt \<Longrightarrow>
        op_at fn ops (i + 2 + 2 * j) \<in> {Some (OpValue r), Some (OpValue s), Some (OpValue NY_INVALID)}"
      using less.hyps[OF _ rec] True by auto
    have "op_at fn ops (i + 2 * j) \<in> {Some (OpValue r), Some (OpValue s), Some (OpValue NY_INVALID)}" if "i + 2 * j < op_cnt" for j
    proof (cases j)
      case 0
      then show ?thesis using v fv IH(1) by (auto simp: g_def split: if_splits)
    next
      case (Suc j')
      then show ?thesis using IH(2)[of j'] that by (simp add: algebra_simps)
    qed
    then show ?thesis using IH(1) fv by (auto simp: g_def split: if_splits)
  qed
qed

lemma get_copy_source_defined:
  assumes "ops_wf fn" "live fn x"
  shows "get_copy_source fn (f_insts fn ! x) \<noteq> None"
proof -
  have at: "op_at fn (ny_function_get_operands fn (f_insts fn ! x)) j = Some (inst_ops fn x ! j)" if "j < i_op_count (f_insts fn ! x)" for j
    using op_at_inst[OF assms that] .
  have phi: "phi_source fn (ny_function_get_operands fn (f_insts fn ! x)) (i_op_count (f_insts fn ! x)) r i f \<noteq> None" for r i f
    by (rule phi_source_defined) (simp add: at)
  have cast: "cast_source fn (f_insts fn ! x) p \<noteq> None" for p using at[of 0] by (auto simp: cast_source_def)
  show ?thesis using phi cast at[of 1] at[of 2] by (auto simp: get_copy_source_def Let_def split: option.splits)
qed

lemma get_copy_source_result: "get_copy_source fn inst = Some (Some s) \<Longrightarrow> i_result inst < length (f_values fn) \<and> i_result inst \<noteq> NY_INVALID_VALUE"
  by (auto simp: get_copy_source_def rd_def split: if_splits)

text \<open>The source of a live copy, and the specification of the collected map.\<close>

definition copy_src :: "ny_function \<Rightarrow> nat \<Rightarrow> nat option" where
  "copy_src fn i = (case get_copy_source fn (f_insts fn ! i) of Some (Some s) \<Rightarrow> Some s | _ \<Rightarrow> None)"

lemma collect_fold:
  assumes ow: "ops_wf fn"
  shows "foldM (copy_collect fn) (replicate (length (f_values fn)) NY_INVALID_VALUE) (f_insts fn)
    = Some (fold (\<lambda>i cm. case copy_src fn i of None \<Rightarrow> cm | Some s \<Rightarrow> cm[i_result (f_insts fn ! i) := s]) (live_insts fn)
        (replicate (length (f_values fn)) NY_INVALID_VALUE))"
proof -
  let ?g = "\<lambda>i cm. case copy_src fn i of None \<Rightarrow> cm | Some s \<Rightarrow> cm[i_result (f_insts fn ! i) := s]"
  have "foldM (copy_collect fn) cm (f_insts fn) = foldM (\<lambda>cm i. do {
      src \<leftarrow> get_copy_source fn (f_insts fn ! i);
      (case src of None \<Rightarrow> Some cm | Some s \<Rightarrow> wr cm (i_result (f_insts fn ! i)) s) }) cm (live_insts fn)" for cm
    by (rule foldM_live) (auto simp: copy_collect_def live_def)
  moreover have "foldM (\<lambda>cm i. do {
      src \<leftarrow> get_copy_source fn (f_insts fn ! i);
      (case src of None \<Rightarrow> Some cm | Some s \<Rightarrow> wr cm (i_result (f_insts fn ! i)) s) }) cm is = Some (fold ?g is cm)"
    if "length cm = length (f_values fn)" "\<forall>i \<in> set is. live fn i" for cm "is"
    using that
  proof (induction "is" arbitrary: cm)
    case (Cons i "is")
    obtain src where src: "get_copy_source fn (f_insts fn ! i) = Some src" using get_copy_source_defined[OF ow, of i] Cons.prems(2) by auto
    show ?case
    proof (cases src)
      case None
      then show ?thesis using Cons src by (simp add: copy_src_def)
    next
      case (Some s)
      then have "i_result (f_insts fn ! i) < length cm" using get_copy_source_result[of fn "f_insts fn ! i" s] src Cons.prems(1) by simp
      then show ?thesis using Cons src Some by (simp add: copy_src_def)
    qed
  qed simp
  ultimately show ?thesis by (simp add: live_bound)
qed

lemma fold_upd_other:
  "(\<forall>i \<in> set is. h i \<noteq> v) \<Longrightarrow> fold (\<lambda>i cm. case g i of None \<Rightarrow> cm | Some s \<Rightarrow> cm[h i := s]) is cm ! v = cm ! v"
  by (induction "is" arbitrary: cm) (auto split: option.splits)

lemma length_fold_upd: "length (fold (\<lambda>i cm. case g i of None \<Rightarrow> cm | Some s \<Rightarrow> cm[h i := s]) is cm) = length cm"
  by (induction "is" arbitrary: cm) (auto split: option.splits)

lemma collect_spec:
  assumes ow: "ops_wf fn" and ssa: "ssa fn"
  shows "\<exists>cm. foldM (copy_collect fn) (replicate (length (f_values fn)) NY_INVALID_VALUE) (f_insts fn) = Some cm
    \<and> length cm = length (f_values fn)
    \<and> (\<forall>i. live fn i \<longrightarrow> i_result (f_insts fn ! i) < length (f_values fn) \<longrightarrow> i_result (f_insts fn ! i) \<noteq> NY_INVALID_VALUE \<longrightarrow>
          cm ! i_result (f_insts fn ! i) = (case copy_src fn i of None \<Rightarrow> NY_INVALID_VALUE | Some s \<Rightarrow> s))"
proof -
  let ?h = "\<lambda>i. i_result (f_insts fn ! i)"
  define f where "f = (\<lambda>i cm. case copy_src fn i of None \<Rightarrow> cm | Some s \<Rightarrow> cm[?h i := s])"
  define cm where "cm = fold f (live_insts fn) (replicate (length (f_values fn)) NY_INVALID_VALUE)"
  have "cm ! ?h i = (case copy_src fn i of None \<Rightarrow> NY_INVALID_VALUE | Some s \<Rightarrow> s)"
    if i: "live fn i" "?h i < length (f_values fn)" "?h i \<noteq> NY_INVALID_VALUE" for i
  proof -
    obtain as bs where ab: "live_insts fn = as @ i # bs" using i(1) live_bound split_list by metis
    have d: "distinct (live_insts fn)" by (simp add: live_insts_def)
    have o: "\<forall>j \<in> set (as @ bs). ?h j \<noteq> ?h i"
    proof
      fix j assume "j \<in> set (as @ bs)"
      then have "live fn j" "j \<noteq> i" using ab d live_bound[of j fn] by auto
      then show "?h j \<noteq> ?h i" using ssa i unfolding ssa_def by metis
    qed
    show ?thesis using o i(2) by (cases "copy_src fn i") (simp_all add: cm_def ab f_def fold_upd_other length_fold_upd)
  qed
  then show ?thesis using collect_fold[OF ow] by (auto simp: cm_def f_def length_fold_upd)
qed

subsection \<open>Rewriting with a closed map\<close>

definition closed_map :: "nat list \<Rightarrow> bool" where
  "closed_map m \<longleftrightarrow> (\<forall>v. is_copy m v \<longrightarrow> \<not> is_copy m (m ! v))"

definition redirect :: "nat list \<Rightarrow> ny_operand \<Rightarrow> ny_operand" where
  "redirect m op = (case op of OpValue v \<Rightarrow> if is_copy m v then OpValue (m ! v) else op | _ \<Rightarrow> op)"

lemma redirect_replace: "closed_map m \<Longrightarrow> is_copy m r \<Longrightarrow> redirect m (replace_val r (m ! r) op) = redirect m op"
  by (auto simp: redirect_def replace_val_def closed_map_def)

lemma replace_redirect: "closed_map m \<Longrightarrow> is_copy m r \<Longrightarrow> replace_val r w (redirect m op) = redirect m op"
  by (auto simp: redirect_def replace_val_def closed_map_def split: ny_operand.splits)

definition same_shape :: "ny_function \<Rightarrow> ny_function \<Rightarrow> bool" where
  "same_shape fn fn' \<longleftrightarrow> f_insts fn' = f_insts fn \<and> f_blocks fn' = f_blocks fn \<and> length (f_operands fn') = length (f_operands fn)
     \<and> f_values fn' = f_values fn"

lemma same_shape_keeps:
  assumes "same_shape fn fn'"
  shows "fn_wf fn L \<Longrightarrow> fn_wf fn' L" "ops_wf fn \<Longrightarrow> ops_wf fn'" "live fn' = live fn" "block_edges fn' = block_edges fn" "live_insts fn' = live_insts fn"
proof -
  have e: "f_insts fn' = f_insts fn" "f_blocks fn' = f_blocks fn" "length (f_operands fn') = length (f_operands fn)"
    using assms by (simp_all add: same_shape_def)
  show "fn_wf fn L \<Longrightarrow> fn_wf fn' L" by (simp add: fn_wf_def e)
  show lv: "live fn' = live fn" by (simp add: live_def[abs_def] e)
  show "ops_wf fn \<Longrightarrow> ops_wf fn'" by (erule ops_wf_shrink) (simp_all add: e lv)
  show "block_edges fn' = block_edges fn" by (simp add: block_edges_def e)
  show "live_insts fn' = live_insts fn" by (simp add: live_insts_def e lv)
qed

lemma copy_operands_loop:
  assumes wf: "fn_wf fn L" and ow: "ops_wf fn" and i: "live fn i" and m: "length m = length (f_values fn)"
  shows "k \<le> i_op_count (f_insts fn ! i) \<Longrightarrow> \<exists>fn' ch'. foldM (copy_operand m (f_insts fn ! i)) (fn, ch) [0..<k] = Some (fn', ch')
    \<and> same_shape fn fn' \<and> inst_ops fn' i = map (redirect m) (take k (inst_ops fn i)) @ drop k (inst_ops fn i)
    \<and> (\<forall>j. live fn j \<longrightarrow> j \<noteq> i \<longrightarrow> inst_ops fn' j = inst_ops fn j)"
proof (induction k)
  case 0
  then show ?case by (simp add: same_shape_def)
next
  case (Suc k)
  then obtain fn1 ch1 where IH: "foldM (copy_operand m (f_insts fn ! i)) (fn, ch) [0..<k] = Some (fn1, ch1)" "same_shape fn fn1"
    "inst_ops fn1 i = map (redirect m) (take k (inst_ops fn i)) @ drop k (inst_ops fn i)"
    "\<forall>j. live fn j \<longrightarrow> j \<noteq> i \<longrightarrow> inst_ops fn1 j = inst_ops fn j" by auto
  have k: "k < i_op_count (f_insts fn ! i)" using Suc.prems by simp
  note keep = same_shape_keeps[OF IH(2)]
  have ow1: "ops_wf fn1" and lv1: "live fn1 i" using keep ow i by simp_all
  have insts: "f_insts fn1 = f_insts fn" using IH(2) by (simp add: same_shape_def)
  have len: "length (inst_ops fn i) = i_op_count (f_insts fn ! i)"
    using ow i by (simp add: inst_ops_def length_subarray ops_wf_def)
  have cur: "inst_ops fn1 i ! k = inst_ops fn i ! k" using k len by (simp add: IH(3) nth_append)
  have at: "op_at fn1 (ny_function_get_operands fn1 (f_insts fn ! i)) k = Some (inst_ops fn i ! k)"
    using op_at_inst[OF ow1 lv1, of k] k cur by (simp add: insts)
  have idi: "i_id (f_insts fn ! i) = i" by (rule live_index[OF wf i])
  have upd: "map (redirect m) (take (Suc k) (inst_ops fn i)) @ drop (Suc k) (inst_ops fn i)
      = (map (redirect m) (take k (inst_ops fn i)) @ drop k (inst_ops fn i))[k := redirect m (inst_ops fn i ! k)]"
    using k len by (simp add: take_Suc_conv_app_nth list_update_append upd_conv_take_nth_drop min_def Cons_nth_drop_Suc[symmetric])
  show ?case
  proof (cases "\<exists>v. inst_ops fn i ! k = OpValue v \<and> is_copy m v")
    case True
    then obtain v where v: "inst_ops fn i ! k = OpValue v" "is_copy m v" by blast
    let ?fn2 = "ny_instruction_replace_operand fn1 i k (OpValue (m ! v))"
    have k1: "k < i_op_count (f_insts fn1 ! i)" using k insts by simp
    note ro = replace_operand_ops[OF ow1 lv1 k1, where op = "OpValue (m ! v)"]
    have "copy_operand m (f_insts fn ! i) (fn1, ch1) k = Some (?fn2, True)"
      using v at idi by (simp add: copy_operand_def is_copy_def)
    moreover have "inst_ops ?fn2 i = map (redirect m) (take (Suc k) (inst_ops fn i)) @ drop (Suc k) (inst_ops fn i)"
      unfolding upd ro(5) IH(3) using v by (simp add: redirect_def)
    moreover have "same_shape fn ?fn2" using IH(2) ro(1-4) by (simp add: same_shape_def)
    ultimately show ?thesis using IH(1,4) ro(6) keep(3) by (auto simp: foldM_append)
  next
    case False
    then have "copy_operand m (f_insts fn ! i) (fn1, ch1) k = Some (fn1, ch1)"
      using at by (auto simp: copy_operand_def is_copy_def split: ny_operand.splits)
    moreover have "redirect m (inst_ops fn i ! k) = inst_ops fn i ! k" using False by (auto simp: redirect_def split: ny_operand.splits)
    then have "inst_ops fn1 i = map (redirect m) (take (Suc k) (inst_ops fn i)) @ drop (Suc k) (inst_ops fn i)"
      unfolding upd IH(3) using k len by (intro sym[OF iffD2[OF list_update_same_conv]]) (simp_all add: nth_append)
    ultimately show ?thesis using IH(1,2,4) by (simp add: foldM_append)
  qed
qed

definition copy_inv :: "nat list \<Rightarrow> ny_function \<Rightarrow> nat \<Rightarrow> ny_function \<Rightarrow> bool" where
  "copy_inv m fn0 t fn \<longleftrightarrow> (\<exists>L. fn_wf fn L) \<and> ops_wf fn \<and> length (f_insts fn) = length (f_insts fn0)
     \<and> length (f_values fn) = length (f_values fn0) \<and> block_edges fn = block_edges fn0
     \<and> (\<forall>i. live fn i \<longleftrightarrow> live fn0 i \<and> \<not> (i < t \<and> is_copy m (i_result (f_insts fn0 ! i))))
     \<and> (\<forall>i. live fn i \<longrightarrow> payload (f_insts fn ! i) = payload (f_insts fn0 ! i)
          \<and> map (redirect m) (inst_ops fn i) = map (redirect m) (inst_ops fn0 i)
          \<and> (i < t \<longrightarrow> inst_ops fn i = map (redirect m) (inst_ops fn0 i)))"

lemma copy_invD:
  assumes "copy_inv m fn0 t fn"
  shows "\<exists>L. fn_wf fn L" "ops_wf fn" "length (f_insts fn) = length (f_insts fn0)" "length (f_values fn) = length (f_values fn0)"
    "block_edges fn = block_edges fn0" "\<And>i. live fn i \<longleftrightarrow> live fn0 i \<and> \<not> (i < t \<and> is_copy m (i_result (f_insts fn0 ! i)))"
    "\<And>i. live fn i \<Longrightarrow> payload (f_insts fn ! i) = payload (f_insts fn0 ! i)"
    "\<And>i. live fn i \<Longrightarrow> map (redirect m) (inst_ops fn i) = map (redirect m) (inst_ops fn0 i)"
    "\<And>i. live fn i \<Longrightarrow> i < t \<Longrightarrow> inst_ops fn i = map (redirect m) (inst_ops fn0 i)"
  using assms unfolding copy_inv_def by simp_all

lemma copy_invI:
  assumes "fn_wf fn L" "ops_wf fn" "length (f_insts fn) = length (f_insts fn0)" "length (f_values fn) = length (f_values fn0)"
    "block_edges fn = block_edges fn0" "\<And>i. live fn i \<longleftrightarrow> live fn0 i \<and> \<not> (i < t \<and> is_copy m (i_result (f_insts fn0 ! i)))"
    "\<And>i. live fn i \<Longrightarrow> payload (f_insts fn ! i) = payload (f_insts fn0 ! i)"
    "\<And>i. live fn i \<Longrightarrow> map (redirect m) (inst_ops fn i) = map (redirect m) (inst_ops fn0 i)"
    "\<And>i. live fn i \<Longrightarrow> i < t \<Longrightarrow> inst_ops fn i = map (redirect m) (inst_ops fn0 i)"
  shows "copy_inv m fn0 t fn"
  using assms unfolding copy_inv_def by blast

lemma copy_rewrite_copy:
  assumes inv: "copy_inv m fn0 t fn" and cl: "closed_map m" and t: "live fn t" and c: "is_copy m (i_result (f_insts fn0 ! t))"
  shows "\<exists>s'. copy_rewrite m (fn, ch) t = Some s' \<and> copy_inv m fn0 (Suc t) (fst s')"
proof -
  note D = copy_invD[OF inv]
  obtain L where wf: "fn_wf fn L" using D(1) by blast
  define r where "r = i_result (f_insts fn0 ! t)"
  have res: "i_result (f_insts fn ! t) = r" using payload_effects[OF D(7)[OF t]] by (simp add: r_def)
  have cr: "is_copy m r" using c by (simp add: r_def)
  have ne: "r \<noteq> m ! r" using cl cr by (metis closed_map_def)
  let ?fn1 = "ny_function_replace_all_uses fn r (m ! r)"
  note ra = replace_all_uses_ops[OF D(2) ne]
  have shape: "same_shape fn ?fn1"
    using ra fold_replace[of r "m ! r" "f_insts fn" "f_operands fn"] by (simp add: same_shape_def ny_function_replace_all_uses_def)
  note keep = same_shape_keeps[OF shape]
  have ops1: "inst_ops ?fn1 i = map (replace_val r (m ! r)) (inst_ops fn i)" if "live fn i" for i using ra that by blast
  have "live ?fn1 t" using keep(3) t by simp
  then obtain fn2 L2 where fn2: "ny_function_remove_instruction ?fn1 t = Some fn2" "fn_wf fn2 L2" "ops_wf fn2"
    "live fn2 = (\<lambda>i. live ?fn1 i \<and> i \<noteq> t)" "length (f_values fn2) = length (f_values ?fn1)" "block_edges fn2 = block_edges ?fn1"
    "\<And>i. live fn2 i \<Longrightarrow> payload (f_insts fn2 ! i) = payload (f_insts ?fn1 ! i) \<and> inst_ops fn2 i = inst_ops ?fn1 i"
    "length (f_insts fn2) = length (f_insts ?fn1)"
    using remove_live_view[OF keep(1)[OF wf] keep(2)[OF D(2)]] by blast
  have run: "copy_rewrite m (fn, ch) t = Some (fn2, True)"
    using t cr res fn2(1) live_index[OF wf t] by (simp add: copy_rewrite_def live_def is_copy_def)
  have sub: "live fn i" if "live fn2 i" for i using that by (simp add: fn2(4) keep(3))
  have ops2: "inst_ops fn2 i = map (replace_val r (m ! r)) (inst_ops fn i)" if "live fn2 i" for i
    using fn2(7)[OF that] ops1[OF sub[OF that]] by simp
  have "copy_inv m fn0 (Suc t) fn2"
  proof (rule copy_invI[OF fn2(2,3)])
    show "length (f_insts fn2) = length (f_insts fn0)" "length (f_values fn2) = length (f_values fn0)" "block_edges fn2 = block_edges fn0"
      using fn2(5,6,8) shape D(3-5) keep(4) by (simp_all add: same_shape_def)
    show "live fn2 i \<longleftrightarrow> live fn0 i \<and> \<not> (i < Suc t \<and> is_copy m (i_result (f_insts fn0 ! i)))" for i
      using D(6)[of i] c by (auto simp: fn2(4) keep(3) less_Suc_eq)
    fix i assume i: "live fn2 i"
    show "payload (f_insts fn2 ! i) = payload (f_insts fn0 ! i)"
      using fn2(7)[OF i] D(7)[OF sub[OF i]] shape by (simp add: same_shape_def)
    show "map (redirect m) (inst_ops fn2 i) = map (redirect m) (inst_ops fn0 i)"
      using D(8)[OF sub[OF i]] by (simp add: ops2[OF i] redirect_replace[OF cl cr] o_def)
    assume "i < Suc t"
    then have "i < t" using i fn2(4) by (auto simp: less_Suc_eq)
    then show "inst_ops fn2 i = map (redirect m) (inst_ops fn0 i)"
      using D(9)[OF sub[OF i]] by (simp add: ops2[OF i] replace_redirect[OF cl cr] o_def)
  qed
  then show ?thesis using run by simp
qed

lemma copy_rewrite_other:
  assumes inv: "copy_inv m fn0 t fn" and cl: "closed_map m" and t: "live fn t" and c: "\<not> is_copy m (i_result (f_insts fn0 ! t))"
    and m: "length m = length (f_values fn0)"
  shows "\<exists>s'. copy_rewrite m (fn, ch) t = Some s' \<and> copy_inv m fn0 (Suc t) (fst s')"
proof -
  note D = copy_invD[OF inv]
  obtain L where wf: "fn_wf fn L" using D(1) by blast
  have res: "i_result (f_insts fn ! t) = i_result (f_insts fn0 ! t)" using payload_effects[OF D(7)[OF t]] by simp
  have len: "length (inst_ops fn t) = i_op_count (f_insts fn ! t)"
    using D(2) t by (simp add: inst_ops_def length_subarray ops_wf_def)
  obtain fn' ch' where l: "foldM (copy_operand m (f_insts fn ! t)) (fn, ch) [0..<i_op_count (f_insts fn ! t)] = Some (fn', ch')"
    "same_shape fn fn'" "inst_ops fn' t = map (redirect m) (inst_ops fn t)" "\<And>j. live fn j \<Longrightarrow> j \<noteq> t \<Longrightarrow> inst_ops fn' j = inst_ops fn j"
    using copy_operands_loop[OF wf D(2) t, of m "i_op_count (f_insts fn ! t)" ch] m D(4) len by auto
  note keep = same_shape_keeps[OF l(2)]
  have run: "copy_rewrite m (fn, ch) t = Some (fn', ch')"
    using t c res l(1) by (auto simp: copy_rewrite_def live_def is_copy_def)
  have idem: "redirect m (redirect m op) = redirect m op" for op
    using cl by (auto simp: redirect_def closed_map_def split: ny_operand.splits)
  have ops': "map (redirect m) (inst_ops fn' i) = map (redirect m) (inst_ops fn i)" if "live fn i" for i
    using l(3) l(4)[OF that] by (cases "i = t") (simp_all add: idem o_def)
  have "copy_inv m fn0 (Suc t) fn'"
  proof (rule copy_invI[OF keep(1)[OF wf] keep(2)[OF D(2)]])
    show "length (f_insts fn') = length (f_insts fn0)" "length (f_values fn') = length (f_values fn0)" "block_edges fn' = block_edges fn0"
      using l(2) D(3-5) keep(4) by (simp_all add: same_shape_def)
    show "live fn' i \<longleftrightarrow> live fn0 i \<and> \<not> (i < Suc t \<and> is_copy m (i_result (f_insts fn0 ! i)))" for i
      using D(6)[of i] c by (auto simp: keep(3) less_Suc_eq)
    fix i assume i: "live fn' i"
    then have lf: "live fn i" by (simp add: keep(3))
    show "payload (f_insts fn' ! i) = payload (f_insts fn0 ! i)" using D(7)[OF lf] l(2) by (simp add: same_shape_def)
    show "map (redirect m) (inst_ops fn' i) = map (redirect m) (inst_ops fn0 i)" using D(8)[OF lf] ops'[OF lf] by simp
    assume "i < Suc t"
    then show "inst_ops fn' i = map (redirect m) (inst_ops fn0 i)"
      using D(8)[OF lf] D(9)[OF lf] l(3) l(4)[OF lf] by (cases "i = t") auto
  qed
  then show ?thesis using run by simp
qed

lemma copy_rewrite_all:
  assumes inv: "copy_inv m fn0 0 fn0" and cl: "closed_map m" and m: "length m = length (f_values fn0)"
  shows "t \<le> length (f_insts fn0) \<Longrightarrow> \<exists>s'. foldM (copy_rewrite m) (fn0, ch) [0..<t] = Some s' \<and> copy_inv m fn0 t (fst s')"
proof (induction t)
  case 0
  then show ?case using inv by simp
next
  case (Suc t)
  then obtain fn1 ch1 where IH: "foldM (copy_rewrite m) (fn0, ch) [0..<t] = Some (fn1, ch1)" "copy_inv m fn0 t fn1" by auto
  note D = copy_invD[OF IH(2)]
  have "\<exists>s'. copy_rewrite m (fn1, ch1) t = Some s' \<and> copy_inv m fn0 (Suc t) (fst s')"
  proof (cases "live fn1 t")
    case True
    then show ?thesis using copy_rewrite_copy[OF IH(2) cl] copy_rewrite_other[OF IH(2) cl _ _ m] by blast
  next
    case False
    then have "copy_rewrite m (fn1, ch1) t = Some (fn1, ch1)" using Suc.prems D(3) by (simp add: copy_rewrite_def live_def)
    moreover have "\<not> live fn0 t" using False D(6)[of t] by simp
    then have "copy_inv m fn0 (Suc t) fn1" using D False by (intro copy_invI[of fn1 "SOME L. fn_wf fn1 L"]) (auto simp: less_Suc_eq someI_ex)
    ultimately show ?thesis by simp
  qed
  then show ?case using IH(1) by (auto simp: foldM_append)
qed

text \<open>
  C9. Copy propagation on a well-formed function in single-assignment form: the copies are
  collected without error, each with the source its instruction gives; when every chain of copies
  ends within 64 steps, the pass returns, the function stays well formed with the same edges, exactly
  the copies are removed, and every other instruction keeps its opcode, flags and result and has each
  value operand replaced by the end of its chain.
\<close>

theorem copy_prop_correct:
  assumes "fn_wf fn L" "ops_wf fn" "ssa fn" "f_values fn \<noteq> []" "length (f_values fn) \<le> NY_INVALID"
  shows "\<exists>cm. foldM (copy_collect fn) (replicate (length (f_values fn)) NY_INVALID_VALUE) (f_insts fn) = Some cm
    \<and> (\<forall>i. live fn i \<longrightarrow> i_result (f_insts fn ! i) < length (f_values fn) \<longrightarrow>
          cm ! i_result (f_insts fn ! i) = (case copy_src fn i of None \<Rightarrow> NY_INVALID_VALUE | Some s \<Rightarrow> s))
    \<and> (\<forall>rank. ranked cm rank \<longrightarrow> (\<exists>fn' ch. ny_opt_pass_copy_prop fn = Some (fn', ch)
          \<and> (\<exists>L'. fn_wf fn' L') \<and> ops_wf fn' \<and> block_edges fn' = block_edges fn
          \<and> (\<forall>i. live fn' i \<longleftrightarrow> live fn i \<and> \<not> is_copy cm (i_result (f_insts fn ! i)))
          \<and> (\<forall>i. live fn' i \<longrightarrow> payload (f_insts fn' ! i) = payload (f_insts fn ! i)
              \<and> inst_ops fn' i = map (\<lambda>op. case op of OpValue v \<Rightarrow> OpValue (root cm v) | _ \<Rightarrow> op) (inst_ops fn i))))"
proof -
  obtain cm where cm: "foldM (copy_collect fn) (replicate (length (f_values fn)) NY_INVALID_VALUE) (f_insts fn) = Some cm"
    "length cm = length (f_values fn)"
    "\<forall>i. live fn i \<longrightarrow> i_result (f_insts fn ! i) < length (f_values fn) \<longrightarrow> i_result (f_insts fn ! i) \<noteq> NY_INVALID_VALUE \<longrightarrow>
          cm ! i_result (f_insts fn ! i) = (case copy_src fn i of None \<Rightarrow> NY_INVALID_VALUE | Some s \<Rightarrow> s)"
    using collect_spec[OF assms(2,3)] by blast
  have "\<exists>fn' ch. ny_opt_pass_copy_prop fn = Some (fn', ch)
          \<and> (\<exists>L'. fn_wf fn' L') \<and> ops_wf fn' \<and> block_edges fn' = block_edges fn
          \<and> (\<forall>i. live fn' i \<longleftrightarrow> live fn i \<and> \<not> is_copy cm (i_result (f_insts fn ! i)))
          \<and> (\<forall>i. live fn' i \<longrightarrow> payload (f_insts fn' ! i) = payload (f_insts fn ! i)
              \<and> inst_ops fn' i = map (\<lambda>op. case op of OpValue v \<Rightarrow> OpValue (root cm v) | _ \<Rightarrow> op) (inst_ops fn i))"
    if r: "ranked cm rank" for rank
  proof -
    define m where "m = foldl copy_close cm [0..<length (f_values fn)]"
    have m: "is_copy m v = is_copy cm v" "length m = length cm" "is_copy cm v \<Longrightarrow> m ! v = root cm v" for v
      using copy_close_all[OF r, of "length (f_values fn)"] cm(2) by (auto simp: m_def is_copy_def)
    have cl: "closed_map m" using root_not_copy[OF r] m by (simp add: closed_map_def)
    have red: "redirect m op = (case op of OpValue v \<Rightarrow> OpValue (root cm v) | _ \<Rightarrow> op)" for op
      using m root_step[OF r] by (cases op) (simp_all add: redirect_def)
    have "copy_inv m fn 0 fn" using assms(2) by (intro copy_invI[OF assms(1)]) simp_all
    then obtain fn' ch where l: "foldM (copy_rewrite m) (fn, False) [0..<length (f_insts fn)] = Some (fn', ch)"
      "copy_inv m fn (length (f_insts fn)) fn'"
      using copy_rewrite_all[OF _ cl, of fn "length (f_insts fn)" False] m(2) cm(2) by auto
    note D = copy_invD[OF l(2)]
    have "ny_opt_pass_copy_prop fn = Some (fn', ch)"
      using assms(4) cm(1) l(1) by (simp add: ny_opt_pass_copy_prop_def m_def[symmetric])
    moreover have "live fn i \<Longrightarrow> i < length (f_insts fn)" for i by (simp add: live_def)
    ultimately show ?thesis using D(1,2,5) D(6) D(7) D(9) m(1)
      by (intro exI[of _ fn'] exI[of _ ch]) (simp add: red[symmetric] cong: map_cong, blast)
  qed
  then show ?thesis using cm(1,3) assms(5) by (intro exI[of _ cm]) auto
qed

text \<open>A cast that keeps the type, between a constant and the return of its result.\<close>

definition cast_fn :: ny_function where
  "cast_fn = (ny_function_init 0 ''c'' 4 0)\<lparr>f_entry := 0,
     f_blocks := [\<lparr>b_id = 0, b_name = ''entry'', b_first = 0, b_last = 2, b_inst_count = 3, b_preds = [], b_succs = []\<rparr>],
     f_insts := [mk_inst 0 NY_OPCODE_CONST 0 0 1 0 NY_INVALID 1, mk_inst 1 NY_OPCODE_BITCAST 1 1 1 0 0 2,
       mk_inst 2 NY_OPCODE_RETURN NY_INVALID 2 1 0 1 NY_INVALID],
     f_values := [\<lparr>v_id = 0, v_type = 4, v_kind = NY_VAL_INSTRUCTION, v_def = 0, v_index = 0, v_name = ''a''\<rparr>,
       \<lparr>v_id = 1, v_type = 4, v_kind = NY_VAL_INSTRUCTION, v_def = 1, v_index = 0, v_name = ''b''\<rparr>],
     f_operands := [OpInt 7, OpValue 0, OpValue 1]\<rparr>"

lemma cast_fn_parts: "length (f_insts cast_fn) = 3" "length (f_blocks cast_fn) = 1" "length (f_operands cast_fn) = 3" "length (f_values cast_fn) = 2"
  "f_insts cast_fn ! 0 = mk_inst 0 NY_OPCODE_CONST 0 0 1 0 NY_INVALID 1"
  "f_insts cast_fn ! Suc 0 = mk_inst 1 NY_OPCODE_BITCAST 1 1 1 0 0 2"
  "f_insts cast_fn ! 2 = mk_inst 2 NY_OPCODE_RETURN NY_INVALID 2 1 0 1 NY_INVALID"
  "f_blocks cast_fn ! 0 = \<lparr>b_id = 0, b_name = ''entry'', b_first = 0, b_last = 2, b_inst_count = 3, b_preds = [], b_succs = []\<rparr>"
  "inst_ops cast_fn 0 = [OpInt 7]" "inst_ops cast_fn (Suc 0) = [OpValue 0]" "inst_ops cast_fn 2 = [OpValue 1]"
  "f_operands cast_fn = [OpInt 7, OpValue 0, OpValue 1]"
  "v_type (f_values cast_fn ! 0) = 4" "v_type (f_values cast_fn ! Suc 0) = 4"
  by (simp_all add: cast_fn_def mk_inst_def inst_ops_def subarray_def)

lemma cast_fn_live: "live cast_fn i \<longleftrightarrow> i < 3"
  by (auto simp: live_def cast_fn_parts mk_inst_def dest!: less_three)

lemma cast_fn_wf: "fn_wf cast_fn [[0, 1, 2]]"
proof -
  have "block_ok (f_insts cast_fn) (f_blocks cast_fn ! 0) 0 [0, 1, 2]"
    by (auto simp: block_ok_def cast_fn_parts mk_inst_def)
  moreover have "i_id (f_insts cast_fn ! i) = i \<and> i_block (f_insts cast_fn ! i) = 0" if "i < 3" for i
    using less_three[OF that] by (auto simp: cast_fn_parts mk_inst_def)
  ultimately show ?thesis by (auto simp: fn_wf_def cast_fn_parts NY_INVALID_def)
qed

lemma cast_ops_wf: "ops_wf cast_fn"
  unfolding ops_wf_def cast_fn_live by (auto simp: cast_fn_parts mk_inst_def dest!: less_three)

lemma cast_ssa: "ssa cast_fn"
  unfolding ssa_def cast_fn_live by (auto simp: cast_fn_parts mk_inst_def NY_INVALID_def dest!: less_three)

lemma cast_collected: "foldM (copy_collect cast_fn) (replicate 2 NY_INVALID_VALUE) (f_insts cast_fn) = Some [NY_INVALID_VALUE, 0]"
proof -
  define a b c where "a = f_insts cast_fn ! 0" and "b = f_insts cast_fn ! Suc 0" and "c = f_insts cast_fn ! 2"
  note abc = a_def b_def c_def
  have ex: "f_insts cast_fn = [a, b, c]" unfolding abc by (simp add: cast_fn_def)
  have "get_copy_source cast_fn a = Some None"
    unfolding abc by (simp add: get_copy_source_def cast_fn_parts mk_inst_def NY_INVALID_def)
  moreover have "get_copy_source cast_fn b = Some (Some 0)"
    unfolding abc by (simp add: get_copy_source_def cast_source_def cast_fn_parts mk_inst_def NY_INVALID_def op_at_def ny_function_get_operands_def)
  moreover have "get_copy_source cast_fn c = Some None"
    unfolding abc by (simp add: get_copy_source_def cast_fn_parts mk_inst_def NY_INVALID_def)
  moreover have "i_opcode a = NY_OPCODE_CONST" "i_opcode b = NY_OPCODE_BITCAST" "i_opcode c = NY_OPCODE_RETURN" "i_result b = 1"
    unfolding abc by (simp_all add: cast_fn_parts mk_inst_def)
  ultimately show ?thesis unfolding ex by (simp add: copy_collect_def numeral_2_eq_2)
qed

theorem copy_prop_correct_witness:
  "\<exists>fn' ch. ny_opt_pass_copy_prop cast_fn = Some (fn', ch) \<and> \<not> live fn' 1 \<and> inst_ops fn' 2 = [OpValue 0]"
proof -
  define cm where "cm = [NY_INVALID_VALUE, 0]"
  have cc: "is_copy cm 1" "\<not> is_copy cm 0" "\<not> is_copy cm NY_INVALID" by (simp_all add: is_copy_def cm_def NY_INVALID_def)
  have rk: "ranked cm (\<lambda>v. if v = 1 then 1 else 0)"
    unfolding ranked_def by (auto simp: cm_def less_Suc_eq)
  have rt: "root cm 1 = 0" using root_step[OF rk, of 1] root_step[OF rk, of 0] cc by (simp add: cm_def)
  have v: "f_values cast_fn \<noteq> []" "length (f_values cast_fn) \<le> NY_INVALID" by (simp_all add: cast_fn_def NY_INVALID_def)
  obtain cm' where c': "foldM (copy_collect cast_fn) (replicate (length (f_values cast_fn)) NY_INVALID_VALUE) (f_insts cast_fn) = Some cm'"
    and run: "\<forall>rank. ranked cm' rank \<longrightarrow> (\<exists>fn' ch. ny_opt_pass_copy_prop cast_fn = Some (fn', ch)
          \<and> (\<exists>L'. fn_wf fn' L') \<and> ops_wf fn' \<and> block_edges fn' = block_edges cast_fn
          \<and> (\<forall>i. live fn' i \<longleftrightarrow> live cast_fn i \<and> \<not> is_copy cm' (i_result (f_insts cast_fn ! i)))
          \<and> (\<forall>i. live fn' i \<longrightarrow> payload (f_insts fn' ! i) = payload (f_insts cast_fn ! i)
              \<and> inst_ops fn' i = map (\<lambda>op. case op of OpValue v \<Rightarrow> OpValue (root cm' v) | _ \<Rightarrow> op) (inst_ops cast_fn i)))"
    using copy_prop_correct[OF cast_fn_wf cast_ops_wf cast_ssa v] by (elim exE conjE) (rule that, assumption+)
  have "cm' = cm" using c' cast_collected by (simp add: cast_fn_parts cm_def)
  then obtain fn' ch where p: "ny_opt_pass_copy_prop cast_fn = Some (fn', ch)"
    and lv: "\<forall>i. live fn' i \<longleftrightarrow> live cast_fn i \<and> \<not> is_copy cm (i_result (f_insts cast_fn ! i))"
    and ops: "\<forall>i. live fn' i \<longrightarrow> payload (f_insts fn' ! i) = payload (f_insts cast_fn ! i)
              \<and> inst_ops fn' i = map (\<lambda>op. case op of OpValue v \<Rightarrow> OpValue (root cm v) | _ \<Rightarrow> op) (inst_ops cast_fn i)"
    using run rk by blast
  have "\<not> live fn' 1" using lv[rule_format, of 1] cc by (simp add: cast_fn_parts mk_inst_def)
  moreover have "live fn' 2" using lv[rule_format, of 2] cc by (simp add: cast_fn_live cast_fn_parts mk_inst_def)
  then have "inst_ops fn' 2 = [OpValue 0]" using ops rt by (simp add: cast_fn_parts)
  ultimately show ?thesis using p by blast
qed

end
