(* ===== verification/Cfg.thy ===== *)
theory Cfg
  imports IR "HOL-Library.Sublist"
begin

text \<open>
  Control-flow order, \<^verbatim>\<open>src/analysis/cfg.c\<close>: a depth-first search with an explicit stack numbers the
  reachable blocks in reverse post-order and records the back edges.
\<close>

record ny_cfg_info =
  cfg_rpo :: "nat list"
  cfg_post_order :: "nat list"
  cfg_rpo_index :: "int list"
  cfg_is_reachable :: "bool list"
  cfg_loop_headers :: "bool list"
  cfg_back_edges :: "(nat \<times> nat) list"

definition empty_cfg :: ny_cfg_info where
  "empty_cfg = \<lparr>cfg_rpo = [], cfg_post_order = [], cfg_rpo_index = [], cfg_is_reachable = [], cfg_loop_headers = [], cfg_back_edges = []\<rparr>"

subsection \<open>The search\<close>

text \<open>The stack is kept with its top first; it and the post-order array have \<open>n\<close> slots.\<close>

record dfs_state =
  ds_visited :: "nat list"
  ds_stack :: "(nat \<times> nat) list"
  ds_po :: "nat list"
  ds_back :: "(nat \<times> nat) list"
  ds_headers :: "bool list"

definition dfs_pop :: "nat \<Rightarrow> dfs_state \<Rightarrow> nat \<Rightarrow> (nat \<times> nat) list \<Rightarrow> dfs_state option" where
  "dfs_pop n s blk rest = do {
     visited \<leftarrow> wr (ds_visited s) blk 2;
     if length (ds_po s) < n then Some (s\<lparr>ds_visited := visited, ds_po := ds_po s @ [blk], ds_stack := rest\<rparr>) else None
   }"

definition dfs_succ :: "nat \<Rightarrow> dfs_state \<Rightarrow> nat \<Rightarrow> nat \<Rightarrow> (nat \<times> nat) list \<Rightarrow> dfs_state option" where
  "dfs_succ n s blk succ_id stack =
     (if succ_id < n then do {
        st \<leftarrow> rd (ds_visited s) succ_id;
        if st = 1 then do {
          headers \<leftarrow> wr (ds_headers s) succ_id True;
          Some (s\<lparr>ds_stack := stack, ds_back := ds_back s @ [(blk, succ_id)], ds_headers := headers\<rparr>)
        }
        else if st = 0 then do {
          visited \<leftarrow> wr (ds_visited s) succ_id 1;
          if length stack < n then Some (s\<lparr>ds_visited := visited, ds_stack := (succ_id, 0) # stack\<rparr>) else None
        }
        else Some (s\<lparr>ds_stack := stack\<rparr>)
      }
      else Some (s\<lparr>ds_stack := stack\<rparr>))"

definition dfs_step :: "ny_function \<Rightarrow> nat \<Rightarrow> dfs_state \<Rightarrow> dfs_state option" where
  "dfs_step fn n s = (case ds_stack s of
       [] \<Rightarrow> None
     | (blk, succ) # rest \<Rightarrow>
         (case ny_function_get_block fn blk of
            Some b \<Rightarrow> if succ < length (b_succs b) then dfs_succ n s blk (b_succs b ! succ) ((blk, succ + 1) # rest)
                      else dfs_pop n s blk rest
          | None \<Rightarrow> dfs_pop n s blk rest))"

partial_function (option) dfs_loop :: "ny_function \<Rightarrow> nat \<Rightarrow> dfs_state \<Rightarrow> dfs_state option" where
  "dfs_loop fn n s = (if ds_stack s = [] then Some s else do { s \<leftarrow> dfs_step fn n s; dfs_loop fn n s })"

definition i32 :: "nat \<Rightarrow> int" where
  "i32 k = sint (word_of_nat k :: 32 word)"

definition number_block :: "nat \<Rightarrow> nat list \<Rightarrow> int list \<times> bool list \<Rightarrow> nat \<Rightarrow> (int list \<times> bool list) option" where
  "number_block n po = (\<lambda>(idx, reach) i. do {
     b \<leftarrow> rd po (length po - 1 - i);
     if b < n then do { idx \<leftarrow> wr idx b (i32 i); reach \<leftarrow> wr reach b True; Some (idx, reach) } else Some (idx, reach)
   })"

definition ny_cfg_info_init :: "ny_function \<Rightarrow> ny_cfg_info option" where
  "ny_cfg_info_init fn =
     (let n = length (f_blocks fn)
      in if n = 0 \<or> f_entry fn = NY_INVALID_BLOCK then Some empty_cfg
      else do {
        let s = \<lparr>ds_visited = replicate n 0, ds_stack = [], ds_po = [], ds_back = [], ds_headers = replicate n False\<rparr>;
        let s = (if f_entry fn < n then s\<lparr>ds_visited := (ds_visited s)[f_entry fn := 1], ds_stack := [(f_entry fn, 0)]\<rparr> else s);
        s \<leftarrow> dfs_loop fn n s;
        (idx, reach) \<leftarrow> foldM (number_block n (ds_po s)) (replicate n (- 1), replicate n False) [0..<length (ds_po s)];
        Some \<lparr>cfg_rpo = rev (ds_po s), cfg_post_order = ds_po s, cfg_rpo_index = idx, cfg_is_reachable = reach,
              cfg_loop_headers = ds_headers s, cfg_back_edges = ds_back s\<rparr>
      })"

definition ny_cfg_info_destroy :: "ny_cfg_info \<Rightarrow> ny_cfg_info" where
  "ny_cfg_info_destroy info = empty_cfg"

definition ny_cfg_is_reachable :: "ny_cfg_info \<Rightarrow> nat \<Rightarrow> bool" where
  "ny_cfg_is_reachable info blk \<longleftrightarrow> blk < length (cfg_is_reachable info) \<and> cfg_is_reachable info ! blk"

definition ny_cfg_is_loop_header :: "ny_cfg_info \<Rightarrow> nat \<Rightarrow> bool" where
  "ny_cfg_is_loop_header info blk \<longleftrightarrow> blk < length (cfg_loop_headers info) \<and> cfg_loop_headers info ! blk"

definition ny_cfg_is_back_edge :: "ny_cfg_info \<Rightarrow> nat \<Rightarrow> nat \<Rightarrow> bool" where
  "ny_cfg_is_back_edge info u v \<longleftrightarrow> find_index (\<lambda>e. fst e = u \<and> snd e = v) (cfg_back_edges info) \<noteq> None"

definition ny_cfg_rpo_index :: "ny_cfg_info \<Rightarrow> nat \<Rightarrow> int" where
  "ny_cfg_rpo_index info blk = (if blk < length (cfg_rpo_index info) then cfg_rpo_index info ! blk else - 1)"

definition ny_cfg_get_successors :: "ny_function \<Rightarrow> nat \<Rightarrow> nat list" where
  "ny_cfg_get_successors fn blk = (case ny_function_get_block fn blk of Some b \<Rightarrow> b_succs b | None \<Rightarrow> [])"

definition ny_cfg_get_predecessors :: "ny_function \<Rightarrow> nat \<Rightarrow> nat list" where
  "ny_cfg_get_predecessors fn blk = (case ny_function_get_block fn blk of Some b \<Rightarrow> b_preds b | None \<Rightarrow> [])"

subsection \<open>Invariant of the search\<close>

definition cfg_edges :: "ny_function \<Rightarrow> (nat \<times> nat) set" where
  "cfg_edges fn = {(u, v). u < length (f_blocks fn) \<and> v < length (f_blocks fn) \<and> v \<in> set (ny_cfg_get_successors fn u)}"

abbreviation (input) ds_order :: "dfs_state \<Rightarrow> nat list" where
  "ds_order s \<equiv> ds_po s @ map fst (ds_stack s)"

definition looked_at :: "ny_function \<Rightarrow> dfs_state \<Rightarrow> nat \<Rightarrow> nat set" where
  "looked_at fn s u = (if u \<in> set (ds_po s) then set (ny_cfg_get_successors fn u)
     else {v. \<exists>k. (u, k) \<in> set (ds_stack s) \<and> v \<in> set (take k (ny_cfg_get_successors fn u))})"

definition dfs_marks :: "ny_function \<Rightarrow> dfs_state \<Rightarrow> bool" where
  "dfs_marks fn s \<longleftrightarrow> (let n = length (f_blocks fn) in
     length (ds_visited s) = n \<and> length (ds_headers s) = n \<and> distinct (ds_order s) \<and> set (ds_order s) \<subseteq> {..<n}
     \<and> (\<forall>v < n. ds_visited s ! v = (if v \<in> set (ds_po s) then 2 else if v \<in> fst ` set (ds_stack s) then 1 else 0))
     \<and> (\<forall>v < n. ds_headers s ! v \<longleftrightarrow> v \<in> snd ` set (ds_back s)))"

definition dfs_paths :: "ny_function \<Rightarrow> dfs_state \<Rightarrow> bool" where
  "dfs_paths fn s \<longleftrightarrow> ds_order s \<noteq> [] \<and> last (ds_order s) = f_entry fn \<and> (\<forall>v \<in> set (ds_order s). (f_entry fn, v) \<in> (cfg_edges fn)\<^sup>*)"

definition dfs_seen :: "ny_function \<Rightarrow> dfs_state \<Rightarrow> bool" where
  "dfs_seen fn s \<longleftrightarrow> (\<forall>u. \<forall>v \<in> looked_at fn s u. v < length (f_blocks fn) \<longrightarrow>
     v \<in> set (ds_order s) \<and> ((u, v) \<in> set (ds_back s) \<or> subseq [v, u] (ds_order s)))"

definition dfs_backs :: "ny_function \<Rightarrow> dfs_state \<Rightarrow> bool" where
  "dfs_backs fn s \<longleftrightarrow> (\<forall>u v. (u, v) \<in> set (ds_back s) \<longrightarrow> (u, v) \<in> cfg_edges fn \<and> u \<in> set (ds_order s) \<and> (u = v \<or> subseq [u, v] (ds_order s)))"

definition dfs_inv :: "ny_function \<Rightarrow> dfs_state \<Rightarrow> bool" where
  "dfs_inv fn s \<longleftrightarrow> dfs_marks fn s \<and> dfs_paths fn s \<and> dfs_seen fn s \<and> dfs_backs fn s"

lemma subseq_insert: "subseq xs (a @ b) \<Longrightarrow> subseq xs (a @ w # b)"
  by (rule subseq_order.trans[of _ "a @ b"]) (auto intro: list_emb_append_mono)

lemma subseq_head: "v \<in> set b \<Longrightarrow> subseq [u, v] (a @ u # b)"
  using list_emb_append_mono[of "(=)" "[]" a "[u, v]" "u # b"] by (simp add: subseq_singleton_left)

lemma subseq_before: "v \<in> set a \<Longrightarrow> subseq [v, u] (a @ u # b)"
  using list_emb_append_mono[of "(=)" "[v]" a "[u]" "u # b"] by (simp add: subseq_singleton_left)

definition todo :: "ny_function \<Rightarrow> dfs_state \<Rightarrow> nat" where
  "todo fn s = (\<Sum>(u, k) \<leftarrow> ds_stack s. length (ny_cfg_get_successors fn u) - k)"

definition dfs_rel :: "ny_function \<Rightarrow> (dfs_state \<times> dfs_state) set" where
  "dfs_rel fn = measures [\<lambda>s. length (f_blocks fn) - length (ds_order s), todo fn, \<lambda>s. length (ds_stack s)]"

text \<open>The three things an iteration can do to a state whose stack has \<open>u\<close> on top.\<close>

lemma dfs_pop_inv:
  assumes inv: "dfs_inv fn s" and st: "ds_stack s = (u, k) # rest" and k: "length (ny_cfg_get_successors fn u) \<le> k"
  shows "\<exists>s'. dfs_pop (length (f_blocks fn)) s u rest = Some s' \<and> dfs_inv fn s' \<and> (s', s) \<in> dfs_rel fn"
proof -
  let ?n = "length (f_blocks fn)"
  let ?s = "s\<lparr>ds_visited := (ds_visited s)[u := 2], ds_po := ds_po s @ [u], ds_stack := rest\<rparr>"
  have m: "dfs_marks fn s" "dfs_paths fn s" "dfs_seen fn s" "dfs_backs fn s" using inv by (simp_all add: dfs_inv_def)
  have ord: "ds_order ?s = ds_order s" using st by simp
  have u: "u < ?n" "length (ds_visited s) = ?n" "distinct (ds_order s)" using m(1) st by (simp_all add: dfs_marks_def Let_def)
  have "length (ds_order s) \<le> ?n" using m(1) distinct_card[of "ds_order s"] card_mono[of "{..<?n}" "set (ds_order s)"]
    by (simp add: dfs_marks_def Let_def)
  then have l: "length (ds_po s) < ?n" using st by simp
  have e: "dfs_pop ?n s u rest = Some ?s" using u l by (simp add: dfs_pop_def)
  have "dfs_marks fn ?s" using m(1) st u by (auto simp: dfs_marks_def Let_def nth_list_update)
  moreover have "dfs_paths fn ?s" using m(2) st by (simp add: dfs_paths_def)
  moreover have "dfs_backs fn ?s" using m(4) unfolding dfs_backs_def ord by simp
  moreover have "looked_at fn ?s w \<subseteq> looked_at fn s w" for w
    using st k u(3) by (cases "w = u") (auto simp: looked_at_def)
  then have "dfs_seen fn ?s" using m(3) unfolding dfs_seen_def ord by auto
  moreover have "(?s, s) \<in> dfs_rel fn" using st k by (simp add: dfs_rel_def todo_def)
  ultimately show ?thesis using e by (auto simp: dfs_inv_def)
qed

lemma looked_at_next:
  assumes "ds_stack s = (u, k) # rest" "distinct (ds_order s)" "k < length (ny_cfg_get_successors fn u)"
    and "ds_po s' = ds_po s" "ds_stack s' = (u, Suc k) # rest \<or> ds_stack s' = (w, 0) # (u, Suc k) # rest"
  shows "looked_at fn s' x \<subseteq> looked_at fn s x \<union> (if x = u then {ny_cfg_get_successors fn u ! k} else {})"
  using assms by (auto simp: looked_at_def take_Suc_conv_app_nth; blast)

lemma edge_looked: "u < length (f_blocks fn) \<Longrightarrow> k < length (ny_cfg_get_successors fn u) \<Longrightarrow> ny_cfg_get_successors fn u ! k < length (f_blocks fn) \<Longrightarrow>
   (u, ny_cfg_get_successors fn u ! k) \<in> cfg_edges fn"
  by (simp add: cfg_edges_def)

lemma dfs_seenI:
  assumes "dfs_seen fn s" and look: "\<And>x. looked_at fn s' x \<subseteq> looked_at fn s x \<union> (if x = u then {v} else {})"
    and bk: "set (ds_back s) \<subseteq> set (ds_back s')" and keep: "\<And>xs. subseq xs (ds_order s) \<Longrightarrow> subseq xs (ds_order s')"
    and mem: "set (ds_order s) \<subseteq> set (ds_order s')"
    and new: "v < length (f_blocks fn) \<Longrightarrow> v \<in> set (ds_order s') \<and> ((u, v) \<in> set (ds_back s') \<or> subseq [v, u] (ds_order s'))"
  shows "dfs_seen fn s'"
  unfolding dfs_seen_def
proof (intro allI ballI impI)
  fix x w assume w: "w \<in> looked_at fn s' x" "w < length (f_blocks fn)"
  consider "w \<in> looked_at fn s x" | "x = u" "w = v" using look[of x] w(1) by (auto split: if_splits)
  then show "w \<in> set (ds_order s') \<and> ((x, w) \<in> set (ds_back s') \<or> subseq [w, x] (ds_order s'))"
  proof cases
    case 1
    then have "w \<in> set (ds_order s) \<and> ((x, w) \<in> set (ds_back s) \<or> subseq [w, x] (ds_order s))"
      using assms(1) w(2) unfolding dfs_seen_def by blast
    then show ?thesis using bk keep mem by blast
  next
    case 2
    then show ?thesis using new w(2) by blast
  qed
qed

lemma dfs_skip:
  assumes "map fst st = map fst (ds_stack s)" "dfs_marks fn s" "dfs_paths fn s" "dfs_backs fn s" "dfs_seen fn (s\<lparr>ds_stack := st\<rparr>)"
  shows "dfs_inv fn (s\<lparr>ds_stack := st\<rparr>)"
proof -
  have f: "fst ` set st = fst ` set (ds_stack s)" using assms(1) by (metis list.set_map)
  have od: "ds_order (s\<lparr>ds_stack := st\<rparr>) = ds_order s" using assms(1) by simp
  have "dfs_marks fn (s\<lparr>ds_stack := st\<rparr>)" using assms(2) unfolding dfs_marks_def Let_def od by (simp add: f)
  moreover have "dfs_paths fn (s\<lparr>ds_stack := st\<rparr>)" using assms(3) unfolding dfs_paths_def od .
  moreover have "dfs_backs fn (s\<lparr>ds_stack := st\<rparr>)" using assms(4) unfolding dfs_backs_def od by simp
  ultimately show ?thesis using assms(5) by (simp add: dfs_inv_def)
qed

lemma todo_less: "ds_stack s = (u, k) # rest \<Longrightarrow> k < length (ny_cfg_get_successors fn u) \<Longrightarrow> todo fn (s\<lparr>ds_stack := (u, Suc k) # rest\<rparr>) < todo fn s"
  by (simp add: todo_def)

lemma dfs_succ_inv:
  assumes inv: "dfs_inv fn s" and st: "ds_stack s = (u, k) # rest" and k: "k < length (ny_cfg_get_successors fn u)"
  shows "\<exists>s'. dfs_succ (length (f_blocks fn)) s u (ny_cfg_get_successors fn u ! k) ((u, k + 1) # rest) = Some s'
     \<and> dfs_inv fn s' \<and> (s', s) \<in> dfs_rel fn"
proof -
  let ?n = "length (f_blocks fn)" let ?v = "ny_cfg_get_successors fn u ! k" let ?st = "(u, Suc k) # rest"
  have m: "dfs_marks fn s" "dfs_paths fn s" "dfs_seen fn s" "dfs_backs fn s" using inv by (simp_all add: dfs_inv_def)
  have u: "u < ?n" "length (ds_visited s) = ?n" "length (ds_headers s) = ?n" "distinct (ds_order s)" "set (ds_order s) \<subseteq> {..<?n}"
    and vis: "\<And>v. v < ?n \<Longrightarrow> ds_visited s ! v = (if v \<in> set (ds_po s) then 2 else if v \<in> fst ` set (ds_stack s) then 1 else 0)"
    using m(1) st by (simp_all add: dfs_marks_def Let_def)
  have ord: "ds_order s = ds_po s @ u # map fst rest" using st by simp
  have less: "\<And>s'. ds_stack s' = ?st \<Longrightarrow> ds_order s' = ds_order s \<Longrightarrow> (s', s) \<in> dfs_rel fn"
    using todo_less[OF st k] st by (simp add: dfs_rel_def todo_def)
  let ?skip = "s\<lparr>ds_stack := ?st\<rparr>"
  have look0: "looked_at fn ?skip x \<subseteq> looked_at fn s x \<union> (if x = u then {?v} else {})" for x
    using st u(4) k by (intro looked_at_next) auto
  show ?thesis
  proof (cases "?v < ?n")
    case False
    have "dfs_seen fn ?skip" by (rule dfs_seenI[OF m(3) look0]) (use False st in auto)
    then have "dfs_inv fn ?skip" by (intro dfs_skip m) (simp add: st)
    then show ?thesis using False less[of ?skip] st by (simp add: dfs_succ_def)
  next
    case v: True
    have vv: "ds_visited s ! ?v = (if ?v \<in> set (ds_po s) then 2 else if ?v \<in> fst ` set (ds_stack s) then 1 else 0)" by (rule vis[OF v])
    consider "?v \<in> set (ds_po s)" | "?v \<notin> set (ds_po s)" "?v \<in> fst ` set (ds_stack s)" | "?v \<notin> set (ds_order s)" by auto
    then show ?thesis
    proof cases
      case 1
      have "subseq [?v, u] (ds_order s)" unfolding ord by (rule subseq_before[OF 1])
      then have "dfs_seen fn ?skip" by (intro dfs_seenI[OF m(3) look0]) (use 1 st in auto)
      then have "dfs_inv fn ?skip" by (intro dfs_skip m) (simp add: st)
      then show ?thesis using v vv 1 u(2) less[of ?skip] st by (simp add: dfs_succ_def)
    next
      case 2
      let ?s = "?skip\<lparr>ds_back := ds_back s @ [(u, ?v)], ds_headers := (ds_headers s)[?v := True]\<rparr>"
      have e: "dfs_succ ?n s u ?v ((u, k + 1) # rest) = Some ?s" using v vv 2 u(2,3) by (simp add: dfs_succ_def)
      have o2: "ds_order ?s = ds_order s" using st by simp
      have "?v = u \<or> ?v \<in> set (map fst rest)" using 2(2) st by auto
      then have "u = ?v \<or> subseq [u, ?v] (ds_order s)" unfolding ord using subseq_head by metis
      then have "dfs_backs fn ?s" using m(4) edge_looked[OF u(1) k v] unfolding dfs_backs_def o2 by (auto simp: ord)
      moreover have "dfs_marks fn ?s" using m(1) st v by (auto simp: dfs_marks_def Let_def nth_list_update)
      moreover have "dfs_paths fn ?s" using m(2) st by (simp add: dfs_paths_def)
      moreover have "looked_at fn ?s x = looked_at fn ?skip x" for x by (simp add: looked_at_def)
      then have look: "looked_at fn ?s x \<subseteq> looked_at fn s x \<union> (if x = u then {?v} else {})" for x using look0 by blast
      have "dfs_seen fn ?s" by (rule dfs_seenI[OF m(3) look]) (use 2 st in auto)
      ultimately show ?thesis using e less[of ?s] o2 by (auto simp: dfs_inv_def)
    next
      case 3
      let ?s = "s\<lparr>ds_visited := (ds_visited s)[?v := 1], ds_stack := (?v, 0) # ?st\<rparr>"
      have o3: "ds_order ?s = ds_po s @ ?v # u # map fst rest" by simp
      have "length (ds_order s) = card (set (ds_order s))" using u(4) distinct_card by metis
      also have "\<dots> < card {..<?n}" by (rule psubset_card_mono) (use u(5) v 3 in auto)
      finally have room: "length (ds_order s) < ?n" by simp
      have e: "dfs_succ ?n s u ?v ((u, k + 1) # rest) = Some ?s" using v vv 3 u(2) room st by (auto simp: dfs_succ_def)
      have ins: "subseq xs (ds_order s) \<Longrightarrow> subseq xs (ds_order ?s)" for xs unfolding ord o3 by (rule subseq_insert)
      have mem: "set (ds_order ?s) = insert ?v (set (ds_order s))" using st by auto
      have "dfs_backs fn ?s" using m(4) ins mem unfolding dfs_backs_def by auto
      moreover have "dfs_marks fn ?s" using m(1) st v 3 by (auto simp: dfs_marks_def Let_def nth_list_update)
      moreover have "(f_entry fn, ?v) \<in> (cfg_edges fn)\<^sup>*"
        using m(2) st edge_looked[OF u(1) k v] unfolding dfs_paths_def by (auto intro: rtrancl_into_rtrancl)
      then have "dfs_paths fn ?s" using m(2) st by (auto simp: dfs_paths_def)
      moreover have "subseq [?v, u] (ds_order ?s)" unfolding o3 by (rule list_emb_append2) simp
      then have "dfs_seen fn ?s"
        by (intro dfs_seenI[OF m(3) looked_at_next[OF st u(4) k]]) (use ins mem in \<open>auto simp: o3 ord\<close>)
      moreover have "?n - length (ds_order ?s) < ?n - length (ds_order s)" using room st by (simp del: length_append)
          (simp add: diff_less_mono2)
      then have "(?s, s) \<in> dfs_rel fn" unfolding dfs_rel_def by (simp del: length_append)
      ultimately show ?thesis using e by (auto simp: dfs_inv_def)
    qed
  qed
qed

lemma dfs_step_inv:
  assumes inv: "dfs_inv fn s" and st: "ds_stack s \<noteq> []"
  shows "\<exists>s'. dfs_step fn (length (f_blocks fn)) s = Some s' \<and> dfs_inv fn s' \<and> (s', s) \<in> dfs_rel fn"
proof -
  obtain u k rest where e: "ds_stack s = (u, k) # rest" using st by (cases "ds_stack s") auto
  have "u < length (f_blocks fn)" using inv e by (simp add: dfs_inv_def dfs_marks_def Let_def)
  then obtain b where b: "ny_function_get_block fn u = Some b" "ny_cfg_get_successors fn u = b_succs b"
    by (simp add: ny_cfg_get_successors_def)
  show ?thesis
  proof (cases "k < length (b_succs b)")
    case True
    then show ?thesis using dfs_succ_inv[OF inv e] b by (simp add: dfs_step_def e)
  next
    case False
    then show ?thesis using dfs_pop_inv[OF inv e] b by (simp add: dfs_step_def e)
  qed
qed

lemma dfs_loop_returns: "dfs_inv fn s \<Longrightarrow> \<exists>s'. dfs_loop fn (length (f_blocks fn)) s = Some s' \<and> dfs_inv fn s' \<and> ds_stack s' = []"
proof (induction s rule: wf_induct[of "dfs_rel fn"])
  case 1
  then show ?case by (simp add: dfs_rel_def)
next
  case (2 s)
  show ?case
  proof (cases "ds_stack s = []")
    case True
    then show ?thesis using 2 by (simp add: dfs_loop.simps)
  next
    case False
    then obtain s' where s': "dfs_step fn (length (f_blocks fn)) s = Some s'" "dfs_inv fn s'" "(s', s) \<in> dfs_rel fn"
      using dfs_step_inv 2 by blast
    then have "\<exists>t. dfs_loop fn (length (f_blocks fn)) s' = Some t \<and> dfs_inv fn t \<and> ds_stack t = []" using 2 by blast
    then show ?thesis using False s'(1) by (subst dfs_loop.simps) simp
  qed
qed

lemma i32_small: "k < 2147483648 \<Longrightarrow> i32 k = int k"
proof -
  assume k: "k < 2147483648"
  have "(word_of_nat k :: 32 word) = word_of_int (int k)" by simp
  then show ?thesis using k by (simp only: i32_def sint_sbintrunc') (simp add: signed_take_bit_int_eq_self)
qed

lemma number_blocks:
  assumes "distinct po" "set po \<subseteq> {..<n}" "n \<le> 2147483648"
  shows "m \<le> length po \<Longrightarrow> \<exists>idx reach. foldM (number_block n po) (replicate n (- 1), replicate n False) [0..<m] = Some (idx, reach)
     \<and> length idx = n \<and> length reach = n
     \<and> (\<forall>v < n. if v \<in> set (take m (rev po)) then reach ! v \<and> idx ! v \<ge> 0 \<and> nat (idx ! v) < m \<and> rev po ! nat (idx ! v) = v
                 else \<not> reach ! v \<and> idx ! v = - 1)"
proof (induction m)
  case 0
  then show ?case by simp
next
  case (Suc m)
  then obtain idx reach where IH: "foldM (number_block n po) (replicate n (- 1), replicate n False) [0..<m] = Some (idx, reach)"
      "length idx = n" "length reach = n"
      "\<forall>v < n. if v \<in> set (take m (rev po)) then reach ! v \<and> idx ! v \<ge> 0 \<and> nat (idx ! v) < m \<and> rev po ! nat (idx ! v) = v
                 else \<not> reach ! v \<and> idx ! v = - 1" by auto
  let ?b = "rev po ! m"
  have m: "m < length po" using Suc.prems by simp
  then have b: "rd po (length po - 1 - m) = Some ?b" "?b < n" using assms(2) by (auto simp: rev_nth subset_iff)
  have lt: "length po \<le> n" using assms(1,2) by (metis card_lessThan card_mono distinct_card finite_lessThan)
  then have i: "i32 m = int m" using m assms(3) by (intro i32_small) simp
  have t: "set (take (Suc m) (rev po)) = insert ?b (set (take m (rev po)))" using m by (simp add: take_Suc_conv_app_nth)
  have "foldM (number_block n po) (replicate n (- 1), replicate n False) [0..<Suc m] = Some (idx[?b := int m], reach[?b := True])"
    using IH(1-3) b i by (simp add: foldM_append number_block_def)
  moreover have "\<forall>v < n. if v \<in> set (take (Suc m) (rev po))
      then reach[?b := True] ! v \<and> idx[?b := int m] ! v \<ge> 0 \<and> nat (idx[?b := int m] ! v) < Suc m \<and> rev po ! nat (idx[?b := int m] ! v) = v
      else \<not> reach[?b := True] ! v \<and> idx[?b := int m] ! v = - 1"
    unfolding t using IH(2-4) b(2) by (auto simp: nth_list_update less_Suc_eq)
  ultimately show ?case using IH(2,3) by auto
qed

definition cfg_correct :: "ny_function \<Rightarrow> ny_cfg_info \<Rightarrow> bool" where
  "cfg_correct fn info \<longleftrightarrow> (let reach = {v. (f_entry fn, v) \<in> (cfg_edges fn)\<^sup>*} in
     set (cfg_rpo info) = reach \<and> distinct (cfg_rpo info) \<and> hd (cfg_rpo info) = f_entry fn \<and> cfg_post_order info = rev (cfg_rpo info)
     \<and> (\<forall>v. ny_cfg_is_reachable info v \<longleftrightarrow> v \<in> reach)
     \<and> (\<forall>v. if v \<in> reach then ny_cfg_rpo_index info v \<ge> 0 \<and> nat (ny_cfg_rpo_index info v) < length (cfg_rpo info)
               \<and> cfg_rpo info ! nat (ny_cfg_rpo_index info v) = v
            else ny_cfg_rpo_index info v = - 1)
     \<and> (\<forall>u \<in> reach. \<forall>v. (u, v) \<in> cfg_edges fn \<longrightarrow> (ny_cfg_is_back_edge info u v \<longleftrightarrow> ny_cfg_rpo_index info v \<le> ny_cfg_rpo_index info u))
     \<and> (\<forall>u v. ny_cfg_is_back_edge info u v \<longrightarrow> (u, v) \<in> cfg_edges fn \<and> u \<in> reach)
     \<and> (\<forall>v. ny_cfg_is_loop_header info v \<longleftrightarrow> (\<exists>u. ny_cfg_is_back_edge info u v)))"

lemma subseq_pair: "subseq [a, b] xs \<Longrightarrow> \<exists>i j. i < j \<and> j < length xs \<and> xs ! i = a \<and> xs ! j = b"
proof (induction xs)
  case (Cons x xs)
  show ?case
  proof (cases "subseq [a, b] xs")
    case True
    then obtain i j where "i < j" "j < length xs" "xs ! i = a" "xs ! j = b" using Cons.IH by blast
    then have "Suc i < Suc j \<and> Suc j < length (x # xs) \<and> (x # xs) ! Suc i = a \<and> (x # xs) ! Suc j = b" by simp
    then show ?thesis by blast
  next
    case False
    then have "x = a" "b \<in> set xs" using Cons.prems by (simp_all add: subseq_singleton_left split: if_splits)
    then obtain j where "j < length xs" "xs ! j = b" by (auto simp: in_set_conv_nth)
    then have "0 < Suc j \<and> Suc j < length (x # xs) \<and> (x # xs) ! 0 = a \<and> (x # xs) ! Suc j = b" using \<open>x = a\<close> by simp
    then show ?thesis by blast
  qed
qed simp

lemma dfs_init_inv:
  assumes "f_entry fn < length (f_blocks fn)"
  shows "dfs_inv fn \<lparr>ds_visited = (replicate (length (f_blocks fn)) 0)[f_entry fn := 1], ds_stack = [(f_entry fn, 0)], ds_po = [],
    ds_back = [], ds_headers = replicate (length (f_blocks fn)) False\<rparr>"
  using assms by (auto simp: dfs_inv_def dfs_marks_def dfs_paths_def dfs_seen_def dfs_backs_def looked_at_def Let_def nth_list_update)

text \<open>What the finished search says about the post-order.\<close>

lemma dfs_done:
  assumes inv: "dfs_inv fn s" and fin: "ds_stack s = []"
  shows "set (ds_po s) = {v. (f_entry fn, v) \<in> (cfg_edges fn)\<^sup>*}" "distinct (ds_po s)" "last (ds_po s) = f_entry fn" "ds_po s \<noteq> []"
    "set (ds_po s) \<subseteq> {..<length (f_blocks fn)}"
    "u \<in> set (ds_po s) \<Longrightarrow> (u, v) \<in> cfg_edges fn \<Longrightarrow> (u, v) \<in> set (ds_back s) \<or> subseq [v, u] (ds_po s)"
    "(u, v) \<in> set (ds_back s) \<Longrightarrow> (u, v) \<in> cfg_edges fn \<and> u \<in> set (ds_po s) \<and> (u = v \<or> subseq [u, v] (ds_po s))"
    "length (ds_headers s) = length (f_blocks fn)"
    "v < length (f_blocks fn) \<Longrightarrow> ds_headers s ! v \<longleftrightarrow> v \<in> snd ` set (ds_back s)"
proof -
  have m: "dfs_marks fn s" "dfs_paths fn s" "dfs_seen fn s" "dfs_backs fn s" using inv by (simp_all add: dfs_inv_def)
  show "distinct (ds_po s)" "last (ds_po s) = f_entry fn" "ds_po s \<noteq> []" "set (ds_po s) \<subseteq> {..<length (f_blocks fn)}"
    "length (ds_headers s) = length (f_blocks fn)"
    "v < length (f_blocks fn) \<Longrightarrow> ds_headers s ! v \<longleftrightarrow> v \<in> snd ` set (ds_back s)"
    using m(1,2) fin by (simp_all add: dfs_marks_def dfs_paths_def Let_def)
  have seen: "v \<in> set (ds_po s) \<and> ((u, v) \<in> set (ds_back s) \<or> subseq [v, u] (ds_po s))" if "u \<in> set (ds_po s)" "(u, v) \<in> cfg_edges fn" for u v
  proof -
    have "v \<in> looked_at fn s u" "v < length (f_blocks fn)" using that by (simp_all add: looked_at_def cfg_edges_def)
    then have "v \<in> set (ds_order s) \<and> ((u, v) \<in> set (ds_back s) \<or> subseq [v, u] (ds_order s))"
      using m(3) unfolding dfs_seen_def by blast
    then show ?thesis using fin by simp
  qed
  show "u \<in> set (ds_po s) \<Longrightarrow> (u, v) \<in> cfg_edges fn \<Longrightarrow> (u, v) \<in> set (ds_back s) \<or> subseq [v, u] (ds_po s)" using seen by blast
  show "(u, v) \<in> set (ds_back s) \<Longrightarrow> (u, v) \<in> cfg_edges fn \<and> u \<in> set (ds_po s) \<and> (u = v \<or> subseq [u, v] (ds_po s))"
    using m(4) fin unfolding dfs_backs_def by simp
  have e: "f_entry fn \<in> set (ds_po s)" using m(2) fin by (auto simp: dfs_paths_def dest: last_in_set)
  have "v \<in> set (ds_po s)" if "(f_entry fn, v) \<in> (cfg_edges fn)\<^sup>*" for v
    using that by (induction rule: rtrancl_induct) (use e seen in auto)
  then show "set (ds_po s) = {v. (f_entry fn, v) \<in> (cfg_edges fn)\<^sup>*}" using m(2) fin by (auto simp: dfs_paths_def)
qed

lemma cfg_info_correct:
  assumes entry: "f_entry fn < length (f_blocks fn)" and small: "length (f_blocks fn) \<le> 2147483648"
  shows "\<exists>info. ny_cfg_info_init fn = Some info \<and> cfg_correct fn info"
proof -
  let ?n = "length (f_blocks fn)" let ?R = "{v. (f_entry fn, v) \<in> (cfg_edges fn)\<^sup>*}"
  obtain s where s: "dfs_loop fn ?n \<lparr>ds_visited = (replicate ?n 0)[f_entry fn := 1], ds_stack = [(f_entry fn, 0)], ds_po = [],
      ds_back = [], ds_headers = replicate ?n False\<rparr> = Some s" "dfs_inv fn s" "ds_stack s = []"
    using dfs_loop_returns[OF dfs_init_inv[OF entry]] by blast
  note d = dfs_done[OF s(2,3)]
  obtain idx reach where ix: "foldM (number_block ?n (ds_po s)) (replicate ?n (- 1), replicate ?n False) [0..<length (ds_po s)] = Some (idx, reach)"
      "length idx = ?n" "length reach = ?n"
      "\<forall>v < ?n. if v \<in> set (take (length (ds_po s)) (rev (ds_po s))) then reach ! v \<and> idx ! v \<ge> 0 \<and> nat (idx ! v) < length (ds_po s) \<and> rev (ds_po s) ! nat (idx ! v) = v
                 else \<not> reach ! v \<and> idx ! v = - 1"
    using number_blocks[OF d(2,5) small, of "length (ds_po s)"] by auto
  let ?info = "\<lparr>cfg_rpo = rev (ds_po s), cfg_post_order = ds_po s, cfg_rpo_index = idx, cfg_is_reachable = reach,
     cfg_loop_headers = ds_headers s, cfg_back_edges = ds_back s\<rparr>"
  have init: "ny_cfg_info_init fn = Some ?info"
    using s(1) ix(1) entry small by (auto simp: ny_cfg_info_init_def Let_def NY_INVALID_def)
  have num: "if v \<in> ?R then reach ! v \<and> idx ! v \<ge> 0 \<and> nat (idx ! v) < length (ds_po s) \<and> rev (ds_po s) ! nat (idx ! v) = v
     else \<not> reach ! v \<and> idx ! v = - 1" if "v < ?n" for v
    using ix(4) that d(1) by simp
  have Rn: "?R \<subseteq> {..<?n}" using d(1,5) by simp
  have bk: "ny_cfg_is_back_edge ?info u v \<longleftrightarrow> (u, v) \<in> set (ds_back s)" for u v
    by (simp add: ny_cfg_is_back_edge_def find_index_None) (metis fst_conv snd_conv prod.collapse)
  have less: "idx ! b < idx ! a" if sq: "subseq [a, b] (ds_po s)" for a b
  proof -
    obtain i j where ij: "i < j" "j < length (ds_po s)" "ds_po s ! i = a" "ds_po s ! j = b" using subseq_pair[OF sq] by blast
    have mem: "a \<in> ?R" "b \<in> ?R" using ij d(1) by (metis nth_mem order.strict_trans)+
    then have a: "idx ! a \<ge> 0" "nat (idx ! a) < length (ds_po s)" "rev (ds_po s) ! nat (idx ! a) = a"
      and b: "idx ! b \<ge> 0" "nat (idx ! b) < length (ds_po s)" "rev (ds_po s) ! nat (idx ! b) = b"
      using num[of a] num[of b] Rn by auto
    have "length (ds_po s) - Suc (nat (idx ! a)) = i" "length (ds_po s) - Suc (nat (idx ! b)) = j"
      using a b ij d(2) by (auto simp: rev_nth nth_eq_iff_index_eq)
    then show ?thesis using ij(1) a(1,2) b(1,2) by linarith
  qed
  have c5: "\<forall>u \<in> ?R. \<forall>v. (u, v) \<in> cfg_edges fn \<longrightarrow> (ny_cfg_is_back_edge ?info u v \<longleftrightarrow> ny_cfg_rpo_index ?info v \<le> ny_cfg_rpo_index ?info u)"
  proof (intro ballI allI impI)
    fix u v assume u: "u \<in> ?R" and e: "(u, v) \<in> cfg_edges fn"
    have n: "u < ?n" "v < ?n" using e by (simp_all add: cfg_edges_def)
    have "(u, v) \<in> set (ds_back s) \<or> subseq [v, u] (ds_po s)" by (rule d(6)) (use u e d(1) in auto)
    moreover have "(u, v) \<in> set (ds_back s) \<Longrightarrow> u = v \<or> subseq [u, v] (ds_po s)" using d(7)[of u v] by blast
    ultimately show "ny_cfg_is_back_edge ?info u v \<longleftrightarrow> ny_cfg_rpo_index ?info v \<le> ny_cfg_rpo_index ?info u"
      unfolding bk using less[of u v] less[of v u] n ix(2) by (auto simp: ny_cfg_rpo_index_def)
  qed
  have c6: "\<forall>u v. ny_cfg_is_back_edge ?info u v \<longrightarrow> (u, v) \<in> cfg_edges fn \<and> u \<in> ?R"
    using d(7) d(1) unfolding bk by blast
  have c7: "\<forall>v. ny_cfg_is_loop_header ?info v \<longleftrightarrow> (\<exists>u. ny_cfg_is_back_edge ?info u v)"
    unfolding bk using d(8) d(9) d(7) by (force simp: ny_cfg_is_loop_header_def cfg_edges_def)
  have c2: "hd (cfg_rpo ?info) = f_entry fn" "set (cfg_rpo ?info) = ?R" "distinct (cfg_rpo ?info)" "cfg_post_order ?info = rev (cfg_rpo ?info)"
    using d(1-4) by (simp_all add: hd_rev)
  have c3: "\<forall>v. ny_cfg_is_reachable ?info v \<longleftrightarrow> v \<in> ?R"
    using num Rn ix(3) by (auto simp: ny_cfg_is_reachable_def split: if_splits)
  have c4: "\<forall>v. if v \<in> ?R then ny_cfg_rpo_index ?info v \<ge> 0 \<and> nat (ny_cfg_rpo_index ?info v) < length (cfg_rpo ?info) \<and> cfg_rpo ?info ! nat (ny_cfg_rpo_index ?info v) = v
       else ny_cfg_rpo_index ?info v = - 1"
    using num Rn ix(2) by (auto simp: ny_cfg_rpo_index_def split: if_splits)
  have "cfg_correct fn ?info" unfolding cfg_correct_def Let_def by (intro conjI c2 c3 c4 c5 c6 c7)
  then show ?thesis using init by blast
qed

text \<open>
  C12. For a function with an entry block, the control-flow analysis returns, and its result is exact: the reverse post-order lists
  the blocks reachable from the entry, each once and the entry first; the numbering is the inverse of that list and
  minus one elsewhere; an edge is reported as a back edge exactly when it does not lead to a block with a higher number;
  and the loop headers are the targets of the back edges.
\<close>

theorem cfg_info_exact:
  assumes "f_entry fn < length (f_blocks fn)" and "length (f_blocks fn) \<le> 2147483648"
  shows "\<exists>info. ny_cfg_info_init fn = Some info \<and> cfg_correct fn info"
  using assms by (rule cfg_info_correct)

definition diamond_block :: "nat \<Rightarrow> nat list \<Rightarrow> nat list \<Rightarrow> ny_block" where
  "diamond_block i ps ss = \<lparr>b_id = i, b_name = [], b_first = NY_INVALID_INST, b_last = NY_INVALID_INST, b_inst_count = 0, b_preds = ps, b_succs = ss\<rparr>"

text \<open>A loop with a branch in its body, and a block that cannot be reached.\<close>

definition diamond_fn :: ny_function where
  "diamond_fn = (ny_function_init 0 [] 0 0)\<lparr>f_entry := 0, f_blocks := [diamond_block 0 [3] [1, 2], diamond_block 1 [0] [3], diamond_block 2 [0] [3],
     diamond_block 3 [1, 2] [0, 4], diamond_block 4 [3, 5] [], diamond_block 5 [] [4]]\<rparr>"

lemma cfg_info_exact_witness: "\<exists>info. ny_cfg_info_init diamond_fn = Some info \<and> cfg_correct diamond_fn info"
  by (rule cfg_info_exact) (simp_all add: diamond_fn_def)

end
