(* ===== verification/Liveness.thy ===== *)
theory Liveness
  imports Cfg Use_Def
begin

unbundle bit_operations_syntax

text \<open>
  Liveness, \<^verbatim>\<open>src/analysis/liveness.c\<close>: one row of 64-bit words per block, solved by sweeping the blocks
  backwards until nothing changes.  The rows are read as sets of values and compared with liveness along paths.
\<close>

subsection \<open>Bit rows\<close>

definition lv_set :: "64 word list \<Rightarrow> nat \<Rightarrow> nat \<Rightarrow> nat \<Rightarrow> 64 word list option" where
  "lv_set bits words blk v = do {
     let word_idx = blk * words + v div 64;
     x \<leftarrow> rd bits word_idx;
     wr bits word_idx (x OR push_bit (v mod 64) 1)
   }"

definition lv_test :: "64 word list \<Rightarrow> nat \<Rightarrow> nat \<Rightarrow> nat \<Rightarrow> bool option" where
  "lv_test bits words blk v = do {
     x \<leftarrow> rd bits (blk * words + v div 64);
     Some (x AND push_bit (v mod 64) 1 \<noteq> 0)
   }"

subsection \<open>Local sets of a block\<close>

definition lv_inst :: "ny_function \<Rightarrow> nat \<Rightarrow> nat \<Rightarrow> nat \<Rightarrow> 64 word list \<times> 64 word list \<times> 64 word list \<Rightarrow> ny_instruction
    \<Rightarrow> (64 word list \<times> 64 word list \<times> 64 word list) option" where
  "lv_inst fn n words b = (\<lambda>(gen, kill, phis) inst.
     if i_opcode inst = NY_OPCODE_PHI then
       if i_result inst \<noteq> NY_INVALID_VALUE \<and> i_result inst < n then do {
         phis \<leftarrow> lv_set phis words b (i_result inst);
         kill \<leftarrow> lv_set kill words b (i_result inst);
         Some (gen, kill, phis)
       }
       else Some (gen, kill, phis)
     else do {
       gen \<leftarrow> each_use fn n inst (\<lambda>gen op_i v. do {
           killed \<leftarrow> lv_test kill words b v;
           if \<not> killed then lv_set gen words b v else Some gen
         }) gen;
       kill \<leftarrow> (if i_result inst \<noteq> NY_INVALID_VALUE \<and> i_result inst < n then lv_set kill words b (i_result inst) else Some kill);
       Some (gen, kill, phis)
     })"

partial_function (option) lv_scan :: "ny_function \<Rightarrow> nat \<Rightarrow> nat \<Rightarrow> nat \<Rightarrow> nat \<Rightarrow> 64 word list \<times> 64 word list \<times> 64 word list
    \<Rightarrow> (64 word list \<times> 64 word list \<times> 64 word list) option" where
  "lv_scan fn n words b cur s =
     (if cur = NY_INVALID_INST then Some s
      else case ny_function_get_instruction fn cur of
        None \<Rightarrow> Some s
      | Some inst \<Rightarrow>
          if i_opcode inst = NY_OPCODE_NONE then lv_scan fn n words b (i_next inst) s
          else do { s \<leftarrow> lv_inst fn n words b s inst; lv_scan fn n words b (i_next inst) s })"

subsection \<open>The equations\<close>

definition lv_phi_ops :: "ny_function \<Rightarrow> nat \<Rightarrow> nat \<Rightarrow> ny_instruction \<Rightarrow> 64 word list \<Rightarrow> 64 word list option" where
  "lv_phi_ops fn n b inst cur_out = foldM (\<lambda>cur_out j. do {
       let k = 2 * j;
       if k + 1 < i_op_count inst then do {
         blk_op \<leftarrow> op_at fn (ny_function_get_operands fn inst) (k + 1);
         if blk_op = OpBlock b then do {
           val_op \<leftarrow> op_at fn (ny_function_get_operands fn inst) k;
           (case val_op of OpValue v \<Rightarrow> if v < n then lv_set cur_out 0 0 v else Some cur_out | _ \<Rightarrow> Some cur_out)
         }
         else Some cur_out
       }
       else Some cur_out
     }) cur_out [0..<(i_op_count inst + 1) div 2]"

partial_function (option) lv_phis :: "ny_function \<Rightarrow> nat \<Rightarrow> nat \<Rightarrow> nat \<Rightarrow> 64 word list \<Rightarrow> 64 word list option" where
  "lv_phis fn n b phi_id cur_out =
     (if phi_id = NY_INVALID_INST then Some cur_out
      else case ny_function_get_instruction fn phi_id of
        None \<Rightarrow> Some cur_out
      | Some inst \<Rightarrow>
          if i_opcode inst \<noteq> NY_OPCODE_PHI then Some cur_out
          else do { cur_out \<leftarrow> lv_phi_ops fn n b inst cur_out; lv_phis fn n b (i_next inst) cur_out })"

definition lv_succ :: "ny_function \<Rightarrow> nat \<Rightarrow> nat \<Rightarrow> nat \<Rightarrow> 64 word list \<Rightarrow> 64 word list \<Rightarrow> 64 word list \<Rightarrow> nat \<Rightarrow> 64 word list option" where
  "lv_succ fn n words b live_in phis cur_out s =
     (if s \<ge> length (f_blocks fn) then Some cur_out
      else do {
        cur_out \<leftarrow> foldM (\<lambda>cur_out w. do {
            in_val \<leftarrow> rd live_in (s * words + w);
            pdef \<leftarrow> rd phis (s * words + w);
            x \<leftarrow> rd cur_out w;
            wr cur_out w (x OR in_val AND NOT pdef)
          }) cur_out [0..<words];
        (case ny_function_get_block fn s of
           Some s_blk \<Rightarrow> lv_phis fn n b (b_first s_blk) cur_out
         | None \<Rightarrow> Some cur_out)
      })"

definition lv_block :: "ny_function \<Rightarrow> nat \<Rightarrow> nat \<Rightarrow> 64 word list \<times> 64 word list \<times> 64 word list
    \<Rightarrow> 64 word list \<times> 64 word list \<times> bool \<Rightarrow> nat \<Rightarrow> (64 word list \<times> 64 word list \<times> bool) option" where
  "lv_block fn n words = (\<lambda>(gen, kill, phis) (live_in, live_out, changed) b.
     (case ny_function_get_block fn b of
        None \<Rightarrow> Some (live_in, live_out, changed)
      | Some blk \<Rightarrow> do {
          cur_out \<leftarrow> foldM (lv_succ fn n words b live_in phis) (replicate words 0) (b_succs blk);
          live_out \<leftarrow> foldM (\<lambda>live_out w. do { x \<leftarrow> rd cur_out w; wr live_out (b * words + w) x }) live_out [0..<words];
          (live_in, changed) \<leftarrow> foldM (\<lambda>(live_in, changed) w. do {
              old_in \<leftarrow> rd live_in (b * words + w);
              k \<leftarrow> rd kill (b * words + w);
              g \<leftarrow> rd gen (b * words + w);
              x \<leftarrow> rd cur_out w;
              let new_in = g OR x AND NOT k;
              if new_in \<noteq> old_in then do { live_in \<leftarrow> wr live_in (b * words + w) new_in; Some (live_in, True) }
              else Some (live_in, changed)
            }) (live_in, changed) [0..<words];
          Some (live_in, live_out, changed)
        }))"

partial_function (option) lv_solve :: "ny_function \<Rightarrow> nat \<Rightarrow> nat \<Rightarrow> 64 word list \<times> 64 word list \<times> 64 word list
    \<Rightarrow> 64 word list \<Rightarrow> 64 word list \<Rightarrow> (64 word list \<times> 64 word list) option" where
  "lv_solve fn n words local live_in live_out = do {
     (live_in, live_out, changed) \<leftarrow> foldM (lv_block fn n words local) (live_in, live_out, False) (rev [0..<length (f_blocks fn)]);
     if changed then lv_solve fn n words local live_in live_out else Some (live_in, live_out)
   }"

record ny_liveness_info =
  lv_num_blocks :: nat
  lv_words_per_block :: nat
  lv_live_in :: "64 word list"
  lv_live_out :: "64 word list"
  lv_total_words :: nat

definition ny_liveness_init :: "ny_function \<Rightarrow> ny_liveness_info option" where
  "ny_liveness_init fn =
     (let b_count = length (f_blocks fn); v_count = length (f_values fn)
      in if b_count = 0 then Some \<lparr>lv_num_blocks = 0, lv_words_per_block = 0, lv_live_in = [], lv_live_out = [], lv_total_words = 0\<rparr>
      else do {
        let words = (if (v_count + 63) div 64 = 0 then 1 else (v_count + 63) div 64);
        let zero = replicate (b_count * words) 0;
        local \<leftarrow> foldM (\<lambda>s b. case ny_function_get_block fn b of None \<Rightarrow> Some s
            | Some blk \<Rightarrow> lv_scan fn v_count words b (b_first blk) s) (zero, zero, zero) [0..<b_count];
        (live_in, live_out) \<leftarrow> lv_solve fn v_count words local zero zero;
        Some \<lparr>lv_num_blocks = b_count, lv_words_per_block = words, lv_live_in = live_in, lv_live_out = live_out,
              lv_total_words = b_count * words\<rparr>
      })"

definition lv_query :: "ny_liveness_info \<Rightarrow> 64 word list \<Rightarrow> nat \<Rightarrow> nat \<Rightarrow> bool" where
  "lv_query liv bits b v =
     (if b \<ge> lv_num_blocks liv \<or> lv_words_per_block liv = 0 then False
      else let word_idx = b * lv_words_per_block liv + v div 64
           in if word_idx \<ge> lv_total_words liv then False
              else bits ! word_idx AND push_bit (v mod 64) 1 \<noteq> 0)"

definition ny_liveness_is_live_in :: "ny_liveness_info \<Rightarrow> nat \<Rightarrow> nat \<Rightarrow> bool" where
  "ny_liveness_is_live_in liv b v = lv_query liv (lv_live_in liv) b v"

definition ny_liveness_is_live_out :: "ny_liveness_info \<Rightarrow> nat \<Rightarrow> nat \<Rightarrow> bool" where
  "ny_liveness_is_live_out liv b v = lv_query liv (lv_live_out liv) b v"

definition lv_slice :: "ny_liveness_info \<Rightarrow> 64 word list \<Rightarrow> nat \<Rightarrow> 64 word list" where
  "lv_slice liv bits b =
     (if b \<ge> lv_num_blocks liv \<or> lv_words_per_block liv = 0 then []
      else subarray (b * lv_words_per_block liv) (lv_words_per_block liv) bits)"

subsection \<open>Rows as sets\<close>

definition row :: "nat \<Rightarrow> 64 word list \<Rightarrow> nat \<Rightarrow> nat set" where
  "row words xs b = {v. v < 64 * words \<and> bit (xs ! (b * words + v div 64)) (v mod 64)}"

lemma row_index: "b < B \<Longrightarrow> v < 64 * words \<Longrightarrow> b * words + v div 64 < B * words" for words :: nat
proof -
  assume "b < B" "v < 64 * words"
  then have "v div 64 < words" by (simp add: less_mult_imp_div_less mult.commute)
  then have "b * words + v div 64 < Suc b * words" by simp
  also have "\<dots> \<le> B * words" using \<open>b < B\<close> by (intro mult_right_mono) simp_all
  finally show ?thesis .
qed

lemma row_index_inj:
  fixes words :: nat
  assumes "c * words + u div 64 = b * words + v div 64" "u < 64 * words" "v < 64 * words"
  shows "c = b \<and> u div 64 = v div 64"
proof -
  have "u div 64 < words" "v div 64 < words" using assms(2,3) by (simp_all add: less_mult_imp_div_less mult.commute)
  then have "(c * words + u div 64) div words = c" "(b * words + v div 64) div words = b" by simp_all
  then show ?thesis using assms(1) by simp
qed

lemma lv_test_row: "length xs = B * words \<Longrightarrow> b < B \<Longrightarrow> v < 64 * words \<Longrightarrow> lv_test xs words b v = Some (v \<in> row words xs b)"
  using row_index[of b B v words] by (simp add: lv_test_def row_def Let_def bit_iff_and_push_bit_not_eq_0)

lemma lv_set_row:
  assumes "length xs = B * words" "b < B" "v < 64 * words"
  shows "\<exists>ys. lv_set xs words b v = Some ys \<and> length ys = length xs
    \<and> (\<forall>c < B. row words ys c = (if c = b then insert v (row words xs c) else row words xs c))"
proof -
  let ?i = "b * words + v div 64"
  let ?ys = "xs[?i := xs ! ?i OR push_bit (v mod 64) 1]"
  have i: "?i < length xs" using row_index[OF assms(2,3)] assms(1) by simp
  have "u \<in> row words ?ys c \<longleftrightarrow> u \<in> row words xs c \<or> (c = b \<and> u = v)" if c: "c < B" for c u
  proof (cases "u < 64 * words")
    case True
    show ?thesis
    proof (cases "c * words + u div 64 = ?i")
      case same: True
      then have cb: "c = b" "u div 64 = v div 64" using row_index_inj[OF same True assms(3)] by auto
      have "u = v \<longleftrightarrow> u mod 64 = v mod 64" using cb(2) by (metis div_mult_mod_eq)
      then show ?thesis using True same i cb by (auto simp: row_def bit_or_iff bit_exp_iff)
    next
      case False
      then show ?thesis using True i by (auto simp: row_def)
    qed
  qed (use assms(3) in \<open>auto simp: row_def\<close>)
  then have "\<forall>c < B. row words ?ys c = (if c = b then insert v (row words xs c) else row words xs c)" by auto
  then show ?thesis using i by (simp add: lv_set_def Let_def)
qed

text \<open>A loop whose state is read as a set that each iteration extends.\<close>

lemma foldM_union:
  assumes "\<And>s x. x \<in> set xs \<Longrightarrow> P s \<Longrightarrow> \<exists>t. f s x = Some t \<and> P t \<and> A t = A s \<union> g x" and "P s"
  shows "\<exists>t. foldM f s xs = Some t \<and> P t \<and> A t = A s \<union> (\<Union>x \<in> set xs. g x)"
  using assms
proof (induction xs arbitrary: s)
  case (Cons x xs)
  obtain t where t: "f s x = Some t" "P t" "A t = A s \<union> g x" using Cons.prems(1)[of x s] Cons.prems(2) by auto
  obtain t' where "foldM f t xs = Some t'" "P t'" "A t' = A t \<union> (\<Union>x \<in> set xs. g x)"
    using Cons.IH[OF _ t(2)] Cons.prems(1) by auto
  then show ?case using t by auto
qed simp

definition upd_range :: "nat \<Rightarrow> nat \<Rightarrow> (nat \<Rightarrow> 'a \<Rightarrow> 'a) \<Rightarrow> 'a list \<Rightarrow> 'a list" where
  "upd_range off k g xs = map (\<lambda>i. if off \<le> i \<and> i < off + k then g (i - off) (xs ! i) else xs ! i) [0..<length xs]"

lemma upd_range_Suc:
  "off + k < length xs \<Longrightarrow> (upd_range off k g xs)[off + k := g k (xs ! (off + k))] = upd_range off (Suc k) g xs"
  by (rule nth_equalityI) (auto simp: upd_range_def nth_list_update less_Suc_eq)

lemma foldM_range:
  assumes "\<And>c w. w < k \<Longrightarrow> length c = length xs \<Longrightarrow> c ! (off + w) = xs ! (off + w) \<Longrightarrow> f c w = Some (c[off + w := g w (xs ! (off + w))])"
  shows "off + k \<le> length xs \<Longrightarrow> foldM f xs [0..<k] = Some (upd_range off k g xs)"
  using assms
proof (induction k)
  case 0
  have "xs = upd_range off 0 g xs" by (rule nth_equalityI) (auto simp: upd_range_def)
  then show ?case by simp
next
  case (Suc k)
  have "foldM f xs [0..<k] = Some (upd_range off k g xs)" using Suc by simp
  moreover have "f (upd_range off k g xs) k = Some ((upd_range off k g xs)[off + k := g k (xs ! (off + k))])"
    using Suc.prems by (intro Suc.prems(2)) (auto simp: upd_range_def)
  ultimately show ?case using upd_range_Suc[of off k xs g] Suc.prems(1) by (simp add: foldM_append)
qed

lemma row_upd_range:
  assumes "length xs = B * words" "b < B" "c < B"
  shows "row words (upd_range (b * words) words g xs) c =
    (if c = b then {v. v < 64 * words \<and> bit (g (v div 64) (xs ! (b * words + v div 64))) (v mod 64)} else row words xs c)"
proof (rule set_eqI)
  fix v
  show "v \<in> row words (upd_range (b * words) words g xs) c \<longleftrightarrow>
    v \<in> (if c = b then {v. v < 64 * words \<and> bit (g (v div 64) (xs ! (b * words + v div 64))) (v mod 64)} else row words xs c)"
  proof (cases "v < 64 * words")
    case True
    have i: "c * words + v div 64 < length xs" using row_index[OF assms(3) True] assms(1) by simp
    have d: "v div 64 < words" using True by (simp add: less_mult_imp_div_less mult.commute)
    have "b * words \<le> c * words + v div 64 \<and> c * words + v div 64 < b * words + words \<longleftrightarrow> c = b"
    proof
      assume "b * words \<le> c * words + v div 64 \<and> c * words + v div 64 < b * words + words"
      then have "(c * words + v div 64) div words = b" by (intro div_nat_eqI) (auto simp: algebra_simps)
      then show "c = b" using d by simp
    qed (use d in auto)
    then show ?thesis using i True by (auto simp: row_def upd_range_def)
  qed (auto simp: row_def)
qed

subsection \<open>Liveness along paths\<close>

definition use_set :: "ny_function \<Rightarrow> nat \<Rightarrow> nat set" where
  "use_set fn i = (if i_opcode (f_insts fn ! i) = NY_OPCODE_PHI then {}
     else {v. v < length (f_values fn) \<and> OpValue v \<in> set (inst_ops fn i)})"

definition def_set :: "ny_function \<Rightarrow> nat \<Rightarrow> nat set" where
  "def_set fn i = {v. v = i_result (f_insts fn ! i) \<and> v \<noteq> NY_INVALID_VALUE \<and> v < length (f_values fn)}"

text \<open>Values used in a list of instructions before any definition in it, values defined, and values phis define.\<close>

fun upward :: "ny_function \<Rightarrow> nat list \<Rightarrow> nat set" where
  "upward fn [] = {}"
| "upward fn (i # is) = use_set fn i \<union> (upward fn is - def_set fn i)"

definition defs :: "ny_function \<Rightarrow> nat list \<Rightarrow> nat set" where
  "defs fn is = (\<Union>i \<in> set is. def_set fn i)"

definition phi_defs :: "ny_function \<Rightarrow> nat list \<Rightarrow> nat set" where
  "phi_defs fn is = (\<Union>i \<in> {i \<in> set is. i_opcode (f_insts fn ! i) = NY_OPCODE_PHI}. def_set fn i)"

definition phi_arg_set :: "ny_function \<Rightarrow> nat \<Rightarrow> nat \<Rightarrow> nat set" where
  "phi_arg_set fn b i = {v. v < length (f_values fn) \<and> (\<exists>k. 2 * k + 1 < length (inst_ops fn i)
     \<and> inst_ops fn i ! (2 * k) = OpValue v \<and> inst_ops fn i ! (2 * k + 1) = OpBlock b)}"

text \<open>The values that the phis at the head of a block take when control comes from \<open>b\<close>.\<close>

definition phi_args :: "ny_function \<Rightarrow> nat \<Rightarrow> nat list \<Rightarrow> nat set" where
  "phi_args fn b is = (\<Union>i \<in> set (takeWhile (\<lambda>i. i_opcode (f_insts fn ! i) = NY_OPCODE_PHI) is). phi_arg_set fn b i)"

inductive entry_live :: "ny_function \<Rightarrow> nat list list \<Rightarrow> nat \<Rightarrow> nat \<Rightarrow> bool"
  and exit_live :: "ny_function \<Rightarrow> nat list list \<Rightarrow> nat \<Rightarrow> nat \<Rightarrow> bool" for fn L where
  "v \<in> upward fn (L ! b) \<Longrightarrow> entry_live fn L b v"
| "exit_live fn L b v \<Longrightarrow> v \<notin> defs fn (L ! b) \<Longrightarrow> entry_live fn L b v"
| "(b, s) \<in> cfg_edges fn \<Longrightarrow> entry_live fn L s v \<Longrightarrow> v \<notin> phi_defs fn (L ! s) \<Longrightarrow> exit_live fn L b v"
| "(b, s) \<in> cfg_edges fn \<Longrightarrow> v \<in> phi_args fn b (L ! s) \<Longrightarrow> exit_live fn L b v"

subsection \<open>The local sets\<close>

text \<open>Rows of a block array: the row of \<open>b\<close> is \<open>X\<close>, the others are those of \<open>base\<close>.\<close>

definition rows_are :: "nat \<Rightarrow> nat \<Rightarrow> (nat \<Rightarrow> nat set) \<Rightarrow> 64 word list \<Rightarrow> bool" where
  "rows_are words B R xs \<longleftrightarrow> length xs = B * words \<and> (\<forall>c < B. row words xs c = R c)"

lemma rows_set:
  assumes "rows_are words B R xs" "b < B" "v < 64 * words"
  shows "\<exists>ys. lv_set xs words b v = Some ys \<and> rows_are words B (R(b := insert v (R b))) ys"
  using lv_set_row[of xs B words b v] assms by (auto simp: rows_are_def)

lemma rows_test: "rows_are words B R xs \<Longrightarrow> b < B \<Longrightarrow> v < 64 * words \<Longrightarrow> lv_test xs words b v = Some (v \<in> R b)"
  using lv_test_row[of xs B words b v] by (simp add: rows_are_def)

lemma inst_ops_length: "ops_wf fn \<Longrightarrow> live fn i \<Longrightarrow> length (inst_ops fn i) = i_op_count (f_insts fn ! i)"
  by (simp add: inst_ops_def ops_wf_def length_subarray)

lemma use_set_inst:
  assumes "ops_wf fn" "live fn i" "i_opcode (f_insts fn ! i) \<noteq> NY_OPCODE_PHI"
  shows "use_set fn i = fst ` set (inst_uses fn (length (f_values fn)) i)"
proof (rule set_eqI)
  fix v
  have "v \<in> fst ` set (inst_uses fn (length (f_values fn)) i) \<longleftrightarrow> (\<exists>k. (v, k) \<in> set (inst_uses fn (length (f_values fn)) i))" by force
  also have "\<dots> \<longleftrightarrow> (\<exists>k. k < i_op_count (f_insts fn ! i) \<and> inst_ops fn i ! k = OpValue v \<and> v < length (f_values fn))"
    by (simp add: inst_uses_mem)
  also have "\<dots> \<longleftrightarrow> v \<in> use_set fn i"
    unfolding use_set_def in_set_conv_nth inst_ops_length[OF assms(1,2)] using assms(3) by auto
  finally show "v \<in> use_set fn i \<longleftrightarrow> v \<in> fst ` set (inst_uses fn (length (f_values fn)) i)" by simp
qed

lemma lv_uses:
  assumes ops: "ops_wf fn" "live fn i" and n: "n = length (f_values fn)" "n \<le> 64 * words" and b: "b < B"
    and gen: "rows_are words B G gen" and kill: "rows_are words B K kill" and phi: "i_opcode (f_insts fn ! i) \<noteq> NY_OPCODE_PHI"
  shows "\<exists>gen'. each_use fn n (f_insts fn ! i) (\<lambda>gen op_i v. do {
       killed \<leftarrow> lv_test kill words b v; if \<not> killed then lv_set gen words b v else Some gen }) gen = Some gen'
     \<and> rows_are words B (G(b := G b \<union> (use_set fn i - K b))) gen'"
proof -
  let ?P = "\<lambda>g. rows_are words B (G(b := row words g b)) g"
  have "\<exists>gen'. foldM (\<lambda>gen (v, k). do { killed \<leftarrow> lv_test kill words b v; if \<not> killed then lv_set gen words b v else Some gen }) gen (inst_uses fn n i) = Some gen'
     \<and> ?P gen' \<and> row words gen' b = row words gen b \<union> (\<Union>x \<in> set (inst_uses fn n i). {fst x} - K b)"
  proof (rule foldM_union)
    fix g x assume x: "x \<in> set (inst_uses fn n i)" and P: "?P g"
    obtain v k where vk: "x = (v, k)" by (cases x)
    have v: "v < 64 * words" using x vk n inst_uses_mem[of v k fn n i] by simp
    show "\<exists>t. (case x of (v, k) \<Rightarrow> do { killed \<leftarrow> lv_test kill words b v; if \<not> killed then lv_set g words b v else Some g }) = Some t
       \<and> ?P t \<and> row words t b = row words g b \<union> ({fst x} - K b)"
    proof (cases "v \<in> K b")
      case True
      then show ?thesis using rows_test[OF kill b v] P vk by simp
    next
      case False
      obtain t where t: "lv_set g words b v = Some t" "rows_are words B (G(b := insert v (row words g b))) t"
        using rows_set[OF P b v] by auto
      then have "row words t b = insert v (row words g b)" using b by (simp add: rows_are_def)
      then show ?thesis using rows_test[OF kill b v] False t vk by auto
    qed
  next
    show "?P gen" using gen b by (auto simp: rows_are_def)
  qed
  then obtain gen' where g': "foldM (\<lambda>gen (v, k). do { killed \<leftarrow> lv_test kill words b v; if \<not> killed then lv_set gen words b v else Some gen }) gen (inst_uses fn n i) = Some gen'"
      "?P gen'" "row words gen' b = row words gen b \<union> (\<Union>x \<in> set (inst_uses fn n i). {fst x} - K b)" by blast
  have "row words gen b = G b" using gen b by (simp add: rows_are_def)
  moreover have "use_set fn i = fst ` set (inst_uses fn n i)"
    using use_set_inst[OF ops phi] n(1) by simp
  moreover have "(\<Union>x \<in> set (inst_uses fn n i). {fst x} - K b) = fst ` set (inst_uses fn n i) - K b" by blast
  ultimately have "row words gen' b = G b \<union> (use_set fn i - K b)" using g'(3) by simp
  then show ?thesis unfolding each_use_events[OF ops] using g'(1,2) by (intro exI[of _ gen']) simp
qed

lemma rows_set_def:
  assumes "rows_are words B R xs" "b < B" "length (f_values fn) \<le> 64 * words"
  shows "\<exists>ys. (if i_result (f_insts fn ! i) \<noteq> NY_INVALID_VALUE \<and> i_result (f_insts fn ! i) < length (f_values fn)
      then lv_set xs words b (i_result (f_insts fn ! i)) else Some xs) = Some ys \<and> rows_are words B (R(b := R b \<union> def_set fn i)) ys"
proof (cases "i_result (f_insts fn ! i) \<noteq> NY_INVALID_VALUE \<and> i_result (f_insts fn ! i) < length (f_values fn)")
  case True
  then have "def_set fn i = {i_result (f_insts fn ! i)}" by (auto simp: def_set_def)
  then show ?thesis using True rows_set[OF assms(1,2), of "i_result (f_insts fn ! i)"] assms(3) by auto
next
  case False
  then have "def_set fn i = {}" by (auto simp: def_set_def)
  then show ?thesis using False assms(1) by auto
qed

lemma lv_inst_spec:
  assumes ops: "ops_wf fn" "live fn i" and n: "length (f_values fn) \<le> 64 * words" and b: "b < B"
    and rows: "rows_are words B G gen" "rows_are words B K kill" "rows_are words B P phis"
  shows "\<exists>gen' kill' phis'. lv_inst fn (length (f_values fn)) words b (gen, kill, phis) (f_insts fn ! i) = Some (gen', kill', phis')
    \<and> rows_are words B (G(b := G b \<union> (use_set fn i - K b))) gen' \<and> rows_are words B (K(b := K b \<union> def_set fn i)) kill'
    \<and> rows_are words B (P(b := P b \<union> (if i_opcode (f_insts fn ! i) = NY_OPCODE_PHI then def_set fn i else {}))) phis'"
proof -
  obtain kill' where k: "(if i_result (f_insts fn ! i) \<noteq> NY_INVALID_VALUE \<and> i_result (f_insts fn ! i) < length (f_values fn)
      then lv_set kill words b (i_result (f_insts fn ! i)) else Some kill) = Some kill'" "rows_are words B (K(b := K b \<union> def_set fn i)) kill'"
    using rows_set_def[OF rows(2) b n] by blast
  show ?thesis
  proof (cases "i_opcode (f_insts fn ! i) = NY_OPCODE_PHI")
    case True
    obtain phis' where p: "(if i_result (f_insts fn ! i) \<noteq> NY_INVALID_VALUE \<and> i_result (f_insts fn ! i) < length (f_values fn)
        then lv_set phis words b (i_result (f_insts fn ! i)) else Some phis) = Some phis'" "rows_are words B (P(b := P b \<union> def_set fn i)) phis'"
      using rows_set_def[OF rows(3) b n] by blast
    have "lv_inst fn (length (f_values fn)) words b (gen, kill, phis) (f_insts fn ! i) = Some (gen, kill', phis')"
      using True k(1) p(1) by (auto simp: lv_inst_def split: if_splits)
    moreover have "use_set fn i = {}" using True by (simp add: use_set_def)
    ultimately show ?thesis using True k(2) p(2) rows(1) by auto
  next
    case False
    obtain gen' where g: "each_use fn (length (f_values fn)) (f_insts fn ! i) (\<lambda>gen op_i v. do {
       killed \<leftarrow> lv_test kill words b v; if \<not> killed then lv_set gen words b v else Some gen }) gen = Some gen'"
      "rows_are words B (G(b := G b \<union> (use_set fn i - K b))) gen'"
      using lv_uses[OF ops refl n b rows(1,2) False] by blast
    have "lv_inst fn (length (f_values fn)) words b (gen, kill, phis) (f_insts fn ! i) = Some (gen', kill', phis)"
      unfolding lv_inst_def using False by (simp add: g(1) k(1))
    then show ?thesis using False k(2) g(2) rows(3) by auto
  qed
qed

lemma lv_scan_spec:
  assumes ops: "ops_wf fn" and n: "length (f_values fn) \<le> 64 * words" and b: "b < B"
  shows "\<lbrakk>seg (f_insts fn) b p is NY_INVALID_INST; \<forall>i \<in> set is. i \<noteq> NY_INVALID_INST;
     rows_are words B G gen; rows_are words B K kill; rows_are words B P phis\<rbrakk> \<Longrightarrow>
    \<exists>gen' kill' phis'. lv_scan fn (length (f_values fn)) words b (hd_or is NY_INVALID_INST) (gen, kill, phis) = Some (gen', kill', phis')
     \<and> rows_are words B (G(b := G b \<union> (upward fn is - K b))) gen' \<and> rows_are words B (K(b := K b \<union> defs fn is)) kill'
     \<and> rows_are words B (P(b := P b \<union> phi_defs fn is)) phis'"
proof (induction "is" arbitrary: p G K P gen kill phis)
  case Nil
  then show ?case by (simp add: lv_scan.simps defs_def phi_defs_def)
next
  case (Cons i "is")
  have i: "i < length (f_insts fn)" "i_opcode (f_insts fn ! i) \<noteq> NY_OPCODE_NONE" "i_next (f_insts fn ! i) = hd_or is NY_INVALID_INST"
    "seg (f_insts fn) b i is NY_INVALID_INST" "i \<noteq> NY_INVALID_INST" using Cons.prems(1,2) by auto
  then have live: "live fn i" by (simp add: live_def)
  have ball: "\<forall>i \<in> set is. i \<noteq> NY_INVALID_INST" using Cons.prems(2) by simp
  obtain g1 k1 p1 where s1: "lv_inst fn (length (f_values fn)) words b (gen, kill, phis) (f_insts fn ! i) = Some (g1, k1, p1)"
      "rows_are words B (G(b := G b \<union> (use_set fn i - K b))) g1" "rows_are words B (K(b := K b \<union> def_set fn i)) k1"
      "rows_are words B (P(b := P b \<union> (if i_opcode (f_insts fn ! i) = NY_OPCODE_PHI then def_set fn i else {}))) p1"
    using lv_inst_spec[OF ops live n b Cons.prems(3-5)] by blast
  obtain g2 k2 p2 where s2: "lv_scan fn (length (f_values fn)) words b (hd_or is NY_INVALID_INST) (g1, k1, p1) = Some (g2, k2, p2)"
      "rows_are words B (G(b := G b \<union> (use_set fn i - K b) \<union> (upward fn is - (K b \<union> def_set fn i)))) g2"
      "rows_are words B (K(b := K b \<union> def_set fn i \<union> defs fn is)) k2"
      "rows_are words B (P(b := P b \<union> (if i_opcode (f_insts fn ! i) = NY_OPCODE_PHI then def_set fn i else {}) \<union> phi_defs fn is)) p2"
    using Cons.IH[OF i(4) ball s1(2-4), unfolded fun_upd_upd fun_upd_same] by blast
  have "lv_scan fn (length (f_values fn)) words b i (gen, kill, phis) = Some (g2, k2, p2)"
    using i s1(1) s2(1) by (subst lv_scan.simps) simp
  moreover have "G b \<union> (use_set fn i - K b) \<union> (upward fn is - (K b \<union> def_set fn i)) = G b \<union> (upward fn (i # is) - K b)" by auto
  moreover have "K b \<union> def_set fn i \<union> defs fn is = K b \<union> defs fn (i # is)" by (auto simp: defs_def)
  moreover have "P b \<union> (if i_opcode (f_insts fn ! i) = NY_OPCODE_PHI then def_set fn i else {}) \<union> phi_defs fn is = P b \<union> phi_defs fn (i # is)"
    by (auto simp: phi_defs_def)
  ultimately show ?case using s2(2-4) unfolding hd_or_simps by metis
qed

lemma rows_zero: "rows_are words B (\<lambda>_. {}) (replicate (B * words) 0)"
  using row_index[of _ B _ words] by (auto simp: rows_are_def row_def)

lemma local_spec:
  assumes wf: "fn_wf fn L" and ops: "ops_wf fn" and n: "length (f_values fn) \<le> 64 * words"
  shows "\<exists>gen kill phis. foldM (\<lambda>s b. case ny_function_get_block fn b of None \<Rightarrow> Some s
       | Some blk \<Rightarrow> lv_scan fn (length (f_values fn)) words b (b_first blk) s)
      (replicate (length (f_blocks fn) * words) 0, replicate (length (f_blocks fn) * words) 0, replicate (length (f_blocks fn) * words) 0)
      [0..<length (f_blocks fn)] = Some (gen, kill, phis)
    \<and> rows_are words (length (f_blocks fn)) (\<lambda>b. upward fn (L ! b)) gen \<and> rows_are words (length (f_blocks fn)) (\<lambda>b. defs fn (L ! b)) kill
    \<and> rows_are words (length (f_blocks fn)) (\<lambda>b. phi_defs fn (L ! b)) phis"
proof -
  let ?B = "length (f_blocks fn)" let ?z = "replicate (?B * words) (0 :: 64 word)"
  let ?f = "\<lambda>s b. case ny_function_get_block fn b of None \<Rightarrow> Some s | Some blk \<Rightarrow> lv_scan fn (length (f_values fn)) words b (b_first blk) s"
  let ?upto = "\<lambda>m (F :: nat list \<Rightarrow> nat set) b. if b < m then F (L ! b) else {}"
  have "m \<le> ?B \<Longrightarrow> \<exists>gen kill phis. foldM ?f (?z, ?z, ?z) [0..<m] = Some (gen, kill, phis)
     \<and> rows_are words ?B (?upto m (upward fn)) gen \<and> rows_are words ?B (?upto m (defs fn)) kill \<and> rows_are words ?B (?upto m (phi_defs fn)) phis" for m
  proof (induction m)
    case 0
    then show ?case using rows_zero[of words ?B] by simp
  next
    case (Suc m)
    then obtain gen kill phis where IH: "foldM ?f (?z, ?z, ?z) [0..<m] = Some (gen, kill, phis)"
      "rows_are words ?B (?upto m (upward fn)) gen" "rows_are words ?B (?upto m (defs fn)) kill" "rows_are words ?B (?upto m (phi_defs fn)) phis" by auto
    have m: "m < ?B" using Suc.prems by simp
    have blk: "b_first (f_blocks fn ! m) = hd_or (L ! m) NY_INVALID_INST" "seg (f_insts fn) m NY_INVALID_INST (L ! m) NY_INVALID_INST"
      using fn_wf_block[OF wf m] by (simp_all add: block_ok_def)
    have valid: "\<forall>i \<in> set (L ! m). i \<noteq> NY_INVALID_INST" using fn_wf_mem(5)[OF wf m] by blast
    obtain g k p where s: "lv_scan fn (length (f_values fn)) words m (hd_or (L ! m) NY_INVALID_INST) (gen, kill, phis) = Some (g, k, p)"
      "rows_are words ?B ((?upto m (upward fn))(m := ?upto m (upward fn) m \<union> (upward fn (L ! m) - ?upto m (defs fn) m))) g"
      "rows_are words ?B ((?upto m (defs fn))(m := ?upto m (defs fn) m \<union> defs fn (L ! m))) k"
      "rows_are words ?B ((?upto m (phi_defs fn))(m := ?upto m (phi_defs fn) m \<union> phi_defs fn (L ! m))) p"
      using lv_scan_spec[OF ops n m blk(2) valid IH(2-4)] by blast
    have u: "(?upto m F)(m := F (L ! m)) = ?upto (Suc m) F" for F by (rule ext) (auto simp: less_Suc_eq)
    have "foldM ?f (?z, ?z, ?z) [0..<Suc m] = Some (g, k, p)" using IH(1) s(1) m blk(1) by (simp add: foldM_append)
    moreover have "rows_are words ?B (?upto (Suc m) (upward fn)) g" "rows_are words ?B (?upto (Suc m) (defs fn)) k"
      "rows_are words ?B (?upto (Suc m) (phi_defs fn)) p" unfolding u[symmetric] using s(2-4) by simp_all
    ultimately show ?case by blast
  qed
  from this[of ?B] show ?thesis by (auto simp: rows_are_def)
qed

subsection \<open>One block of a sweep\<close>

definition cur_is :: "nat \<Rightarrow> nat set \<Rightarrow> 64 word list \<Rightarrow> bool" where
  "cur_is words X cur \<longleftrightarrow> length cur = words \<and> row words cur 0 = X"

lemma cur_set: "cur_is words X cur \<Longrightarrow> v < 64 * words \<Longrightarrow> \<exists>cur'. lv_set cur 0 0 v = Some cur' \<and> cur_is words (insert v X) cur'"
  using lv_set_row[of cur 1 words 0 v] by (auto simp: cur_is_def lv_set_def)

lemma lv_phi_ops_spec:
  assumes ops: "ops_wf fn" "live fn i" and n: "length (f_values fn) \<le> 64 * words" and cur: "cur_is words X cur"
  shows "\<exists>cur'. lv_phi_ops fn (length (f_values fn)) b (f_insts fn ! i) cur = Some cur' \<and> cur_is words (X \<union> phi_arg_set fn b i) cur'"
proof -
  let ?c = "i_op_count (f_insts fn ! i)" let ?n = "length (f_values fn)" let ?o = "inst_ops fn i"
  define g where "g j = {v. v < ?n \<and> 2 * j + 1 < ?c \<and> ?o ! (2 * j) = OpValue v \<and> ?o ! (2 * j + 1) = OpBlock b}" for j
  have "\<exists>t. lv_phi_ops fn ?n b (f_insts fn ! i) cur = Some t \<and> cur_is words (row words t 0) t
     \<and> row words t 0 = row words cur 0 \<union> (\<Union>j \<in> set [0..<(?c + 1) div 2]. g j)"
    unfolding lv_phi_ops_def
  proof (rule foldM_union)
    fix s j assume s: "cur_is words (row words s 0) s"
    have at: "op_at fn (ny_function_get_operands fn (f_insts fn ! i)) k = Some (?o ! k)" if "k < ?c" for k by (rule op_at_inst[OF ops that])
    show "\<exists>t. (let k = 2 * j in if k + 1 < ?c then do {
         blk_op \<leftarrow> op_at fn (ny_function_get_operands fn (f_insts fn ! i)) (k + 1);
         if blk_op = OpBlock b then do {
           val_op \<leftarrow> op_at fn (ny_function_get_operands fn (f_insts fn ! i)) k;
           (case val_op of OpValue v \<Rightarrow> if v < ?n then lv_set s 0 0 v else Some s | _ \<Rightarrow> Some s)
         } else Some s } else Some s) = Some t \<and> cur_is words (row words t 0) t \<and> row words t 0 = row words s 0 \<union> g j"
    proof (cases "2 * j + 1 < ?c \<and> ?o ! (2 * j + 1) = OpBlock b \<and> (\<exists>v < ?n. ?o ! (2 * j) = OpValue v)")
      case True
      then obtain v where v: "v < ?n" "?o ! (2 * j) = OpValue v" by blast
      obtain t where t: "lv_set s 0 0 v = Some t" "cur_is words (insert v (row words s 0)) t"
        using cur_set[OF s, of v] v(1) n by auto
      have "g j = {v}" using True v by (auto simp: g_def)
      then show ?thesis using True v t at[of "2 * j"] at[of "2 * j + 1"] by (simp add: cur_is_def)
    next
      case False
      then have "g j = {}" by (auto simp: g_def)
      then show ?thesis using False s at[of "2 * j"] at[of "2 * j + 1"] by (auto simp: Let_def split: ny_operand.splits)
    qed
  next
    show "cur_is words (row words cur 0) cur" using cur by (simp add: cur_is_def)
  qed
  moreover have "(\<Union>j \<in> set [0..<(?c + 1) div 2]. g j) = phi_arg_set fn b i"
  proof -
    have "j \<in> set [0..<(?c + 1) div 2]" if "v \<in> g j" for v j using that by (auto simp: g_def)
    then have "(\<Union>j \<in> set [0..<(?c + 1) div 2]. g j) = (\<Union>j. g j)" by blast
    then show ?thesis using inst_ops_length[OF ops] by (auto simp: g_def phi_arg_set_def)
  qed
  ultimately show ?thesis using cur by (auto simp: cur_is_def)
qed

lemma lv_phis_spec:
  assumes ops: "ops_wf fn" and n: "length (f_values fn) \<le> 64 * words"
  shows "\<lbrakk>seg (f_insts fn) s p is NY_INVALID_INST; \<forall>i \<in> set is. i \<noteq> NY_INVALID_INST; cur_is words X cur\<rbrakk> \<Longrightarrow>
    \<exists>cur'. lv_phis fn (length (f_values fn)) b (hd_or is NY_INVALID_INST) cur = Some cur' \<and> cur_is words (X \<union> phi_args fn b is) cur'"
proof (induction "is" arbitrary: p X cur)
  case Nil
  then show ?case by (simp add: lv_phis.simps phi_args_def)
next
  case (Cons i "is")
  have i: "i < length (f_insts fn)" "i_opcode (f_insts fn ! i) \<noteq> NY_OPCODE_NONE" "i_next (f_insts fn ! i) = hd_or is NY_INVALID_INST"
    "seg (f_insts fn) s i is NY_INVALID_INST" "i \<noteq> NY_INVALID_INST" "\<forall>i \<in> set is. i \<noteq> NY_INVALID_INST" using Cons.prems(1,2) by auto
  then have live: "live fn i" by (simp add: live_def)
  show ?case
  proof (cases "i_opcode (f_insts fn ! i) = NY_OPCODE_PHI")
    case True
    obtain c1 where c1: "lv_phi_ops fn (length (f_values fn)) b (f_insts fn ! i) cur = Some c1" "cur_is words (X \<union> phi_arg_set fn b i) c1"
      using lv_phi_ops_spec[OF ops live n Cons.prems(3)] by blast
    obtain c2 where c2: "lv_phis fn (length (f_values fn)) b (hd_or is NY_INVALID_INST) c1 = Some c2"
      "cur_is words (X \<union> phi_arg_set fn b i \<union> phi_args fn b is) c2" using Cons.IH[OF i(4,6) c1(2)] by blast
    have "X \<union> phi_arg_set fn b i \<union> phi_args fn b is = X \<union> phi_args fn b (i # is)" using True by (auto simp: phi_args_def)
    then show ?thesis using i(1,3,5) True c1(1) c2 by (subst lv_phis.simps) simp
  next
    case False
    then show ?thesis using i(1,5) Cons.prems(3) by (subst lv_phis.simps) (simp add: phi_args_def)
  qed
qed

definition flow_out :: "ny_function \<Rightarrow> nat list list \<Rightarrow> (nat \<Rightarrow> nat set) \<Rightarrow> nat \<Rightarrow> nat set" where
  "flow_out fn L I b = (\<Union>s \<in> {s. (b, s) \<in> cfg_edges fn}. I s - phi_defs fn (L ! s) \<union> phi_args fn b (L ! s))"

definition flow_in :: "ny_function \<Rightarrow> nat list list \<Rightarrow> (nat \<Rightarrow> nat set) \<Rightarrow> nat \<Rightarrow> nat set" where
  "flow_in fn L I b = upward fn (L ! b) \<union> (flow_out fn L I b - defs fn (L ! b))"

lemma lv_succ_spec:
  assumes wf: "fn_wf fn L" and ops: "ops_wf fn" and n: "length (f_values fn) \<le> 64 * words"
    and li: "rows_are words (length (f_blocks fn)) I live_in" and ph: "rows_are words (length (f_blocks fn)) (\<lambda>b. phi_defs fn (L ! b)) phis"
    and cur: "cur_is words X cur"
  shows "\<exists>cur'. lv_succ fn (length (f_values fn)) words b live_in phis cur s = Some cur'
    \<and> cur_is words (X \<union> (if s < length (f_blocks fn) then I s - phi_defs fn (L ! s) \<union> phi_args fn b (L ! s) else {})) cur'"
proof (cases "s < length (f_blocks fn)")
  case False
  then show ?thesis using cur by (simp add: lv_succ_def)
next
  case s: True
  let ?B = "length (f_blocks fn)" let ?n = "length (f_values fn)"
  let ?g = "\<lambda>w x. x OR live_in ! (s * words + w) AND NOT (phis ! (s * words + w))"
  let ?c1 = "upd_range 0 words ?g cur"
  have len: "length live_in = ?B * words" "length phis = ?B * words" "length cur = words" using li ph cur by (simp_all add: rows_are_def cur_is_def)
  have bound: "s * words + w < ?B * words" if "w < words" for w
    using row_index[OF s, of "64 * w" words] that by simp
  have "foldM (\<lambda>cur_out w. do { in_val \<leftarrow> rd live_in (s * words + w); pdef \<leftarrow> rd phis (s * words + w); x \<leftarrow> rd cur_out w;
       wr cur_out w (x OR in_val AND NOT pdef) }) cur [0..<words] = Some (upd_range 0 words ?g cur)"
    by (rule foldM_range) (use bound len in auto)
  moreover have "cur_is words (X \<union> (I s - phi_defs fn (L ! s))) ?c1"
  proof -
    have c1: "row words ?c1 0 = {v. v < 64 * words \<and> bit (?g (v div 64) (cur ! (v div 64))) (v mod 64)}"
      using row_upd_range[of cur 1 words 0 0 ?g] len by simp
    have I: "v \<in> I s \<longleftrightarrow> v < 64 * words \<and> bit (live_in ! (s * words + v div 64)) (v mod 64)" for v
      using li s by (auto simp: rows_are_def row_def)
    have P: "v \<in> phi_defs fn (L ! s) \<longleftrightarrow> v < 64 * words \<and> bit (phis ! (s * words + v div 64)) (v mod 64)" for v
      using ph s by (auto simp: rows_are_def row_def)
    have X: "v \<in> X \<longleftrightarrow> v < 64 * words \<and> bit (cur ! (v div 64)) (v mod 64)" for v
      using cur by (auto simp: cur_is_def row_def)
    have "v \<in> row words ?c1 0 \<longleftrightarrow> v \<in> X \<union> (I s - phi_defs fn (L ! s))" for v
      unfolding c1 Un_iff Diff_iff I P X by (auto simp: bit_or_iff bit_and_iff bit_not_iff)
    then show ?thesis using len by (auto simp: cur_is_def upd_range_def)
  qed
  moreover have "b_first (f_blocks fn ! s) = hd_or (L ! s) NY_INVALID_INST" "seg (f_insts fn) s NY_INVALID_INST (L ! s) NY_INVALID_INST"
    using fn_wf_block[OF wf s] by (simp_all add: block_ok_def)
  moreover have "\<forall>i \<in> set (L ! s). i \<noteq> NY_INVALID_INST" using fn_wf_mem(5)[OF wf s] by blast
  ultimately show ?thesis using s lv_phis_spec[OF ops n, of s NY_INVALID_INST "L ! s" "X \<union> (I s - phi_defs fn (L ! s))" ?c1 b]
    by (simp add: lv_succ_def Un_assoc)
qed

lemma lv_out_spec:
  assumes wf: "fn_wf fn L" and ops: "ops_wf fn" and n: "length (f_values fn) \<le> 64 * words"
    and li: "rows_are words (length (f_blocks fn)) I live_in" and ph: "rows_are words (length (f_blocks fn)) (\<lambda>b. phi_defs fn (L ! b)) phis"
    and b: "b < length (f_blocks fn)"
  shows "\<exists>cur. foldM (lv_succ fn (length (f_values fn)) words b live_in phis) (replicate words 0) (b_succs (f_blocks fn ! b)) = Some cur
    \<and> cur_is words (flow_out fn L I b) cur"
proof -
  let ?g = "\<lambda>s. if s < length (f_blocks fn) then I s - phi_defs fn (L ! s) \<union> phi_args fn b (L ! s) else {}"
  have "\<exists>cur. foldM (lv_succ fn (length (f_values fn)) words b live_in phis) (replicate words 0) (b_succs (f_blocks fn ! b)) = Some cur
    \<and> cur_is words (row words cur 0) cur \<and> row words cur 0 = row words (replicate words 0) 0 \<union> (\<Union>s \<in> set (b_succs (f_blocks fn ! b)). ?g s)"
  proof (rule foldM_union)
    show "\<exists>t. lv_succ fn (length (f_values fn)) words b live_in phis cur s = Some t \<and> cur_is words (row words t 0) t
       \<and> row words t 0 = row words cur 0 \<union> ?g s" if "cur_is words (row words cur 0) cur" for cur s
      using lv_succ_spec[OF wf ops n li ph that, of b s] by (auto simp: cur_is_def)
  qed (simp add: cur_is_def)
  moreover have "row words (replicate words 0) 0 = {}"
    using row_index[of 0 1 _ words] by (auto simp: row_def)
  moreover have "(\<Union>s \<in> set (b_succs (f_blocks fn ! b)). ?g s) = flow_out fn L I b"
    using b by (auto simp: flow_out_def cfg_edges_def ny_cfg_get_successors_def split: if_splits)
  ultimately show ?thesis by (auto simp: cur_is_def)
qed

lemma foldM_changes:
  assumes "off + k \<le> length xs"
  shows "foldM (\<lambda>(c, ch) w. do { old \<leftarrow> rd c (off + w); let new = g w old; if new \<noteq> old then do { c \<leftarrow> wr c (off + w) new; Some (c, True) } else Some (c, ch) })
      (xs, ch0) [0..<k] = Some (upd_range off k g xs, ch0 \<or> (\<exists>w < k. g w (xs ! (off + w)) \<noteq> xs ! (off + w)))"
  using assms
proof (induction k)
  case 0
  have "xs = upd_range off 0 g xs" by (rule nth_equalityI) (auto simp: upd_range_def)
  then show ?case by simp
next
  case (Suc k)
  have old: "upd_range off k g xs ! (off + k) = xs ! (off + k)" "off + k < length (upd_range off k g xs)"
    using Suc.prems by (simp_all add: upd_range_def)
  have "upd_range off (Suc k) g xs = upd_range off k g xs" if "g k (xs ! (off + k)) = xs ! (off + k)"
    using upd_range_Suc[of off k xs g] Suc.prems that old by (metis Suc_le_eq add_Suc_right list_update_id)
  then show ?case using Suc.IH Suc.prems old upd_range_Suc[of off k xs g]
    by (auto simp: foldM_append Let_def less_Suc_eq)
qed

lemma words_eq_rows:
  assumes "length xs = B * words" "b < B" "{v. v < 64 * words \<and> bit (g (v div 64) (xs ! (b * words + v div 64))) (v mod 64)} = row words xs b"
    and "w < words"
  shows "g w (xs ! (b * words + w)) = (xs ! (b * words + w) :: 64 word)"
proof (rule bit_eqI)
  fix k assume "possible_bit TYPE(64 word) k"
  then have k: "k < 64" by simp
  let ?v = "64 * w + k"
  have v: "?v < 64 * words" "?v div 64 = w" "?v mod 64 = k" using k assms(4) by auto
  have "?v \<in> {v. v < 64 * words \<and> bit (g (v div 64) (xs ! (b * words + v div 64))) (v mod 64)} \<longleftrightarrow> ?v \<in> row words xs b"
    using assms(3) by simp
  then show "bit (g w (xs ! (b * words + w))) k = bit (xs ! (b * words + w)) k" using v by (simp add: row_def)
qed

definition local_rows :: "ny_function \<Rightarrow> nat list list \<Rightarrow> nat \<Rightarrow> 64 word list \<times> 64 word list \<times> 64 word list \<Rightarrow> bool" where
  "local_rows fn L words = (\<lambda>(gen, kill, phis). rows_are words (length (f_blocks fn)) (\<lambda>b. upward fn (L ! b)) gen
     \<and> rows_are words (length (f_blocks fn)) (\<lambda>b. defs fn (L ! b)) kill \<and> rows_are words (length (f_blocks fn)) (\<lambda>b. phi_defs fn (L ! b)) phis)"

lemma lv_block_spec:
  assumes wf: "fn_wf fn L" and ops: "ops_wf fn" and n: "length (f_values fn) \<le> 64 * words"
    and loc: "local_rows fn L words local" and b: "b < length (f_blocks fn)"
    and li: "rows_are words (length (f_blocks fn)) I live_in" and lo: "rows_are words (length (f_blocks fn)) Ob live_out"
  shows "\<exists>live_in' live_out'. lv_block fn (length (f_values fn)) words local (live_in, live_out, ch) b
      = Some (live_in', live_out', ch \<or> flow_in fn L I b \<noteq> I b)
    \<and> rows_are words (length (f_blocks fn)) (I(b := flow_in fn L I b)) live_in'
    \<and> rows_are words (length (f_blocks fn)) (Ob(b := flow_out fn L I b)) live_out'"
proof -
  let ?B = "length (f_blocks fn)"
  obtain gen kill phis where local: "local = (gen, kill, phis)" by (cases local)
  have loc: "rows_are words ?B (\<lambda>b. upward fn (L ! b)) gen" "rows_are words ?B (\<lambda>b. defs fn (L ! b)) kill"
    "rows_are words ?B (\<lambda>b. phi_defs fn (L ! b)) phis" using loc local by (simp_all add: local_rows_def)
  obtain cur where cur: "foldM (lv_succ fn (length (f_values fn)) words b live_in phis) (replicate words 0) (b_succs (f_blocks fn ! b)) = Some cur"
    "cur_is words (flow_out fn L I b) cur" using lv_out_spec[OF wf ops n li loc(3) b] by blast
  have len: "length live_in = ?B * words" "length live_out = ?B * words" "length gen = ?B * words" "length kill = ?B * words" "length cur = words"
    using li lo loc cur(2) by (simp_all add: rows_are_def cur_is_def)
  have bound: "b * words + w < ?B * words" if "w < words" for w
    using row_index[OF b, of "64 * w" words] that by simp
  have room: "b * words + words \<le> ?B * words" using b mult_le_mono1[of "Suc b" ?B words] by simp
  let ?lo = "upd_range (b * words) words (\<lambda>w _. cur ! w) live_out"
  have 1: "foldM (\<lambda>live_out w. do { x \<leftarrow> rd cur w; wr live_out (b * words + w) x }) live_out [0..<words] = Some ?lo"
    by (rule foldM_range) (use bound len room in auto)
  let ?g = "\<lambda>w (_ :: 64 word). gen ! (b * words + w) OR cur ! w AND NOT (kill ! (b * words + w))"
  let ?li = "upd_range (b * words) words ?g live_in"
  let ?diff = "\<exists>w < words. ?g w (live_in ! (b * words + w)) \<noteq> live_in ! (b * words + w)"
  have "foldM (\<lambda>(live_in, changed) w. do {
              old_in \<leftarrow> rd live_in (b * words + w);
              k \<leftarrow> rd kill (b * words + w);
              g \<leftarrow> rd gen (b * words + w);
              x \<leftarrow> rd cur w;
              let new_in = g OR x AND NOT k;
              if new_in \<noteq> old_in then do { live_in \<leftarrow> wr live_in (b * words + w) new_in; Some (live_in, True) }
              else Some (live_in, changed)
            }) (live_in, ch) [0..<words]
     = foldM (\<lambda>(c, ch) w. do { old \<leftarrow> rd c (b * words + w); let new = ?g w old; if new \<noteq> old then do { c \<leftarrow> wr c (b * words + w) new; Some (c, True) } else Some (c, ch) })
      (live_in, ch) [0..<words]"
    by (rule foldM_cong) (use bound len in \<open>auto simp: Let_def split: prod.splits\<close>)
  also have "\<dots> = Some (?li, ch \<or> ?diff)" by (rule foldM_changes) (use len room in simp)
  finally have 2: "foldM (\<lambda>(live_in, changed) w. do {
              old_in \<leftarrow> rd live_in (b * words + w);
              k \<leftarrow> rd kill (b * words + w);
              g \<leftarrow> rd gen (b * words + w);
              x \<leftarrow> rd cur w;
              let new_in = g OR x AND NOT k;
              if new_in \<noteq> old_in then do { live_in \<leftarrow> wr live_in (b * words + w) new_in; Some (live_in, True) }
              else Some (live_in, changed)
            }) (live_in, ch) [0..<words] = Some (?li, ch \<or> ?diff)" .
  have X: "v \<in> flow_out fn L I b \<longleftrightarrow> v < 64 * words \<and> bit (cur ! (v div 64)) (v mod 64)" for v
    using cur(2) by (auto simp: cur_is_def row_def)
  have G: "v \<in> upward fn (L ! b) \<longleftrightarrow> v < 64 * words \<and> bit (gen ! (b * words + v div 64)) (v mod 64)" for v
    using loc(1) b by (auto simp: rows_are_def row_def)
  have K: "v \<in> defs fn (L ! b) \<longleftrightarrow> v < 64 * words \<and> bit (kill ! (b * words + v div 64)) (v mod 64)" for v
    using loc(2) b by (auto simp: rows_are_def row_def)
  have new: "{v. v < 64 * words \<and> bit (?g (v div 64) (live_in ! (b * words + v div 64))) (v mod 64)} = flow_in fn L I b"
    unfolding flow_in_def set_eq_iff mem_Collect_eq Un_iff Diff_iff X G K by (auto simp: bit_or_iff bit_and_iff bit_not_iff)
  have r1: "rows_are words ?B (I(b := flow_in fn L I b)) ?li"
    using li row_upd_range[OF len(1) b, of _ ?g] new by (auto simp: rows_are_def upd_range_def)
  have r2: "rows_are words ?B (Ob(b := flow_out fn L I b)) ?lo"
    using lo row_upd_range[OF len(2) b, of _ "\<lambda>w _. cur ! w"] X by (auto simp: rows_are_def upd_range_def)
  have "?diff \<longleftrightarrow> flow_in fn L I b \<noteq> I b"
  proof
    assume ?diff
    then show "flow_in fn L I b \<noteq> I b" using words_eq_rows[OF len(1) b, of ?g] new li b by (auto simp: rows_are_def)
  next
    assume "flow_in fn L I b \<noteq> I b"
    moreover have "row words ?li b = row words live_in b" if "\<not> ?diff"
    proof -
      have "?g (i - b * words) (live_in ! i) = live_in ! i" if "b * words \<le> i" "i < b * words + words" for i
        using \<open>\<not> ?diff\<close> that by (auto dest!: spec[of _ "i - b * words"])
      then have "?li = live_in" by (intro nth_equalityI) (auto simp: upd_range_def)
      then show ?thesis by simp
    qed
    ultimately show ?diff using r1 li b by (auto simp: rows_are_def)
  qed
  then show ?thesis using 1 2 r1 r2 b cur(1) unfolding lv_block_def local by (intro exI[of _ ?li] exI[of _ ?lo]) simp
qed

subsection \<open>The sweeps\<close>

definition solve_inv :: "ny_function \<Rightarrow> nat list list \<Rightarrow> (nat \<Rightarrow> nat set) \<Rightarrow> bool" where
  "solve_inv fn L I \<longleftrightarrow> (\<forall>b < length (f_blocks fn). I b \<subseteq> flow_in fn L I b \<and> I b \<subseteq> {v. entry_live fn L b v})"

lemma edge_bound: "(b, s) \<in> cfg_edges fn \<Longrightarrow> b < length (f_blocks fn) \<and> s < length (f_blocks fn)"
  by (simp add: cfg_edges_def)

lemma flow_out_mono: "(\<And>s. s < length (f_blocks fn) \<Longrightarrow> I s \<subseteq> J s) \<Longrightarrow> flow_out fn L I b \<subseteq> flow_out fn L J b"
  unfolding flow_out_def using edge_bound by blast

lemma flow_in_mono: "(\<And>s. s < length (f_blocks fn) \<Longrightarrow> I s \<subseteq> J s) \<Longrightarrow> flow_in fn L I b \<subseteq> flow_in fn L J b"
  unfolding flow_in_def using flow_out_mono by blast

lemma flow_out_live:
  assumes "\<And>s. s < length (f_blocks fn) \<Longrightarrow> I s \<subseteq> {v. entry_live fn L s v}"
  shows "flow_out fn L I b \<subseteq> {v. exit_live fn L b v}"
  unfolding flow_out_def using assms edge_bound by (blast intro: entry_live_exit_live.intros)

lemma flow_in_live:
  assumes "\<And>s. s < length (f_blocks fn) \<Longrightarrow> I s \<subseteq> {v. entry_live fn L s v}"
  shows "flow_in fn L I b \<subseteq> {v. entry_live fn L b v}"
  unfolding flow_in_def using flow_out_live[OF assms, of b] by (blast intro: entry_live_exit_live.intros)

lemma solve_inv_step:
  assumes "solve_inv fn L I" "b < length (f_blocks fn)"
  shows "solve_inv fn L (I(b := flow_in fn L I b))"
proof -
  let ?J = "I(b := flow_in fn L I b)"
  have up: "I s \<subseteq> ?J s" if "s < length (f_blocks fn)" for s using assms that by (auto simp: solve_inv_def)
  have live: "?J s \<subseteq> {v. entry_live fn L s v}" if "s < length (f_blocks fn)" for s
    using assms that flow_in_live[of fn I L b] by (auto simp: solve_inv_def)
  have "?J c \<subseteq> flow_in fn L I c" if "c < length (f_blocks fn)" for c using assms that by (auto simp: solve_inv_def)
  then have "?J c \<subseteq> flow_in fn L ?J c" if "c < length (f_blocks fn)" for c
    using flow_in_mono[of fn I ?J L c] up that by blast
  then show ?thesis using live by (auto simp: solve_inv_def)
qed

text \<open>At a solution of the equations the rows are exactly liveness.\<close>

lemma solution_exact:
  assumes "solve_inv fn L I" "\<forall>b < length (f_blocks fn). flow_in fn L I b = I b"
  shows "entry_live fn L b v \<Longrightarrow> b < length (f_blocks fn) \<Longrightarrow> v \<in> I b"
    and "exit_live fn L b v \<Longrightarrow> b < length (f_blocks fn) \<Longrightarrow> v \<in> flow_out fn L I b"
proof (induction rule: entry_live_exit_live.inducts)
  case (1 v b)
  then have "v \<in> flow_in fn L I b" by (simp add: flow_in_def)
  then show ?case using assms(2) 1 by simp
next
  case (2 b v)
  then have "v \<in> flow_in fn L I b" by (simp add: flow_in_def)
  then show ?case using assms(2) 2 by simp
next
  case (3 b s v)
  then have "v \<in> I s" using edge_bound by blast
  then show ?case using 3 by (auto simp: flow_out_def)
next
  case (4 b s v)
  then show ?case by (auto simp: flow_out_def)
qed

definition unset :: "nat \<Rightarrow> nat \<Rightarrow> (nat \<Rightarrow> nat set) \<Rightarrow> nat" where
  "unset words B I = (\<Sum>b < B. card ({..<64 * words} - I b))"

lemma row_bounded: "rows_are words B I xs \<Longrightarrow> b < B \<Longrightarrow> I b \<subseteq> {..<64 * words}"
  by (auto simp: rows_are_def row_def)

lemma unset_step:
  assumes "solve_inv fn L I" "b < length (f_blocks fn)" "flow_in fn L I b \<subseteq> {..<64 * words}"
  shows "unset words (length (f_blocks fn)) (I(b := flow_in fn L I b)) + (if flow_in fn L I b \<noteq> I b then 1 else 0) \<le> unset words (length (f_blocks fn)) I"
proof -
  let ?B = "length (f_blocks fn)" let ?U = "{..<64 * words}"
  have sub: "I b \<subseteq> flow_in fn L I b" using assms(1,2) by (simp add: solve_inv_def)
  have "card (?U - flow_in fn L I b) + (if flow_in fn L I b \<noteq> I b then 1 else 0) \<le> card (?U - I b)"
  proof (cases "flow_in fn L I b = I b")
    case False
    then have "?U - flow_in fn L I b \<subset> ?U - I b" using sub assms(3) by blast
    then have "card (?U - flow_in fn L I b) < card (?U - I b)" by (rule psubset_card_mono[rotated]) simp
    then show ?thesis using False by simp
  qed simp
  moreover have "unset words ?B J = card (?U - J b) + (\<Sum>c \<in> {..<?B} - {b}. card (?U - J c))" for J
    unfolding unset_def using assms(2) by (subst sum.remove[of _ b]) auto
  moreover have "(\<Sum>c \<in> {..<?B} - {b}. card (?U - (I(b := flow_in fn L I b)) c)) = (\<Sum>c \<in> {..<?B} - {b}. card (?U - I c))"
    by (rule sum.cong) auto
  ultimately show ?thesis by simp
qed

lemma sweep_spec:
  assumes wf: "fn_wf fn L" and ops: "ops_wf fn" and n: "length (f_values fn) \<le> 64 * words" and loc: "local_rows fn L words local"
  shows "\<lbrakk>set bs \<subseteq> {..<length (f_blocks fn)}; solve_inv fn L I; rows_are words (length (f_blocks fn)) I live_in;
     rows_are words (length (f_blocks fn)) Ob live_out\<rbrakk> \<Longrightarrow>
   \<exists>live_in' live_out' ch' I' Ob'. foldM (lv_block fn (length (f_values fn)) words local) (live_in, live_out, ch) bs = Some (live_in', live_out', ch')
     \<and> rows_are words (length (f_blocks fn)) I' live_in' \<and> rows_are words (length (f_blocks fn)) Ob' live_out' \<and> solve_inv fn L I' \<and> (ch \<longrightarrow> ch')
     \<and> unset words (length (f_blocks fn)) I' + (if ch' \<and> \<not> ch then 1 else 0) \<le> unset words (length (f_blocks fn)) I
     \<and> (\<not> ch' \<longrightarrow> I' = I \<and> (\<forall>b \<in> set bs. flow_in fn L I b = I b) \<and> (\<forall>b. Ob' b = (if b \<in> set bs then flow_out fn L I b else Ob b)))"
proof (induction bs arbitrary: I Ob live_in live_out ch)
  case Nil
  show ?case by (intro exI[of _ live_in] exI[of _ live_out] exI[of _ ch] exI[of _ I] exI[of _ Ob]) (use Nil.prems in simp)
next
  case (Cons b bs)
  let ?B = "length (f_blocks fn)" let ?J = "I(b := flow_in fn L I b)" let ?ch = "ch \<or> flow_in fn L I b \<noteq> I b"
  have b: "b < ?B" and sub: "set bs \<subseteq> {..<?B}" using Cons.prems(1) by simp_all
  obtain li lo where s: "lv_block fn (length (f_values fn)) words local (live_in, live_out, ch) b = Some (li, lo, ?ch)"
    "rows_are words ?B ?J li" "rows_are words ?B (Ob(b := flow_out fn L I b)) lo"
    using lv_block_spec[OF wf ops n loc b Cons.prems(3,4)] by blast
  have inv: "solve_inv fn L ?J" by (rule solve_inv_step[OF Cons.prems(2) b])
  have "flow_in fn L I b \<subseteq> {..<64 * words}" using row_bounded[OF s(2) b] by simp
  note u = unset_step[OF Cons.prems(2) b this]
  obtain li' lo' ch' I' Ob' where r: "foldM (lv_block fn (length (f_values fn)) words local) (li, lo, ?ch) bs = Some (li', lo', ch')"
    "rows_are words ?B I' li'" "rows_are words ?B Ob' lo'" "solve_inv fn L I'" "?ch \<longrightarrow> ch'"
    "unset words ?B I' + (if ch' \<and> \<not> ?ch then 1 else 0) \<le> unset words ?B ?J"
    "\<not> ch' \<longrightarrow> I' = ?J \<and> (\<forall>c \<in> set bs. flow_in fn L ?J c = ?J c) \<and> (\<forall>c. Ob' c = (if c \<in> set bs then flow_out fn L ?J c else (Ob(b := flow_out fn L I b)) c))"
    using Cons.IH[OF sub inv s(2,3), of ?ch] by blast
  have "foldM (lv_block fn (length (f_values fn)) words local) (live_in, live_out, ch) (b # bs) = Some (li', lo', ch')" using s(1) r(1) by simp
  moreover have "unset words ?B I' + (if ch' \<and> \<not> ch then 1 else 0) \<le> unset words ?B I" using u r(5,6) by (auto split: if_splits)
  moreover have "\<not> ch' \<longrightarrow> I' = I \<and> (\<forall>c \<in> set (b # bs). flow_in fn L I c = I c) \<and> (\<forall>c. Ob' c = (if c \<in> set (b # bs) then flow_out fn L I c else Ob c))"
  proof
    assume nc: "\<not> ch'"
    then have "flow_in fn L I b = I b" using r(5) by blast
    then have "?J = I" by simp
    then show "I' = I \<and> (\<forall>c \<in> set (b # bs). flow_in fn L I c = I c) \<and> (\<forall>c. Ob' c = (if c \<in> set (b # bs) then flow_out fn L I c else Ob c))"
      using r(7) nc \<open>flow_in fn L I b = I b\<close> by auto
  qed
  ultimately show ?case using r(2-5) by blast
qed

lemma lv_solve_spec:
  assumes wf: "fn_wf fn L" and ops: "ops_wf fn" and n: "length (f_values fn) \<le> 64 * words" and loc: "local_rows fn L words local"
  shows "\<lbrakk>solve_inv fn L I; rows_are words (length (f_blocks fn)) I live_in; rows_are words (length (f_blocks fn)) Ob live_out\<rbrakk> \<Longrightarrow>
   \<exists>live_in' live_out' I'. lv_solve fn (length (f_values fn)) words local live_in live_out = Some (live_in', live_out')
     \<and> rows_are words (length (f_blocks fn)) I' live_in' \<and> rows_are words (length (f_blocks fn)) (\<lambda>b. flow_out fn L I' b) live_out'
     \<and> solve_inv fn L I' \<and> (\<forall>b < length (f_blocks fn). flow_in fn L I' b = I' b)"
proof (induction "unset words (length (f_blocks fn)) I" arbitrary: I Ob live_in live_out rule: less_induct)
  case less
  let ?B = "length (f_blocks fn)"
  have "set (rev [0..<?B]) \<subseteq> {..<?B}" by auto
  from sweep_spec[OF wf ops n loc this less.prems(1-3), of False] obtain li lo ch I' Ob' where r:
    "foldM (lv_block fn (length (f_values fn)) words local) (live_in, live_out, False) (rev [0..<?B]) = Some (li, lo, ch)"
    "rows_are words ?B I' li" "rows_are words ?B Ob' lo" "solve_inv fn L I'"
    "unset words ?B I' + (if ch \<and> \<not> False then 1 else 0) \<le> unset words ?B I"
    "\<not> ch \<longrightarrow> I' = I \<and> (\<forall>b \<in> set (rev [0..<?B]). flow_in fn L I b = I b) \<and> (\<forall>b. Ob' b = (if b \<in> set (rev [0..<?B]) then flow_out fn L I b else Ob b))"
    by blast
  show ?case
  proof (cases ch)
    case True
    then have "unset words ?B I' < unset words ?B I" using r(5) by simp
    from less.hyps[OF this r(4,2,3)] show ?thesis using True r(1) by (subst lv_solve.simps) simp
  next
    case False
    then have e: "lv_solve fn (length (f_values fn)) words local live_in live_out = Some (li, lo)" using r(1) by (subst lv_solve.simps) simp
    have "\<forall>b < ?B. flow_in fn L I' b = I' b" using r(6) False by auto
    moreover have "rows_are words ?B (\<lambda>b. flow_out fn L I' b) lo" using r(3,6) False by (auto simp: rows_are_def)
    ultimately show ?thesis using e r(2,4) by blast
  qed
qed

lemma lv_query_row:
  assumes "lv_num_blocks liv = B" "lv_words_per_block liv = words" "lv_total_words liv = B * words"
    and "rows_are words B R bits" "b < B" "v < 64 * words"
  shows "lv_query liv bits b v \<longleftrightarrow> v \<in> R b"
proof -
  have "words \<noteq> 0" using assms(6) by auto
  moreover have "b * words + v div 64 < B * words" by (rule row_index[OF assms(5,6)])
  ultimately show ?thesis using assms by (auto simp: lv_query_def Let_def rows_are_def row_def bit_iff_and_push_bit_not_eq_0)
qed

lemma liveness_correct:
  assumes wf: "fn_wf fn L" and ops: "ops_wf fn"
  shows "\<exists>liv. ny_liveness_init fn = Some liv \<and> (\<forall>b < length (f_blocks fn). \<forall>v < length (f_values fn).
      (ny_liveness_is_live_in liv b v \<longleftrightarrow> entry_live fn L b v) \<and> (ny_liveness_is_live_out liv b v \<longleftrightarrow> exit_live fn L b v))"
proof (cases "length (f_blocks fn) = 0")
  case True
  then show ?thesis by (simp add: ny_liveness_init_def)
next
  case False
  let ?B = "length (f_blocks fn)" let ?n = "length (f_values fn)"
  define words where "words = (if (?n + 63) div 64 = 0 then 1 else (?n + 63) div 64)"
  have n: "?n \<le> 64 * words" unfolding words_def by auto
  obtain gen kill phis where l: "foldM (\<lambda>s b. case ny_function_get_block fn b of None \<Rightarrow> Some s
       | Some blk \<Rightarrow> lv_scan fn ?n words b (b_first blk) s)
      (replicate (?B * words) 0, replicate (?B * words) 0, replicate (?B * words) 0) [0..<?B] = Some (gen, kill, phis)"
    "local_rows fn L words (gen, kill, phis)"
    using local_spec[OF wf ops n] unfolding local_rows_def by blast
  have "solve_inv fn L (\<lambda>_. {})" by (simp add: solve_inv_def)
  from lv_solve_spec[OF wf ops n l(2) this rows_zero rows_zero] obtain li lo I where r:
    "lv_solve fn ?n words (gen, kill, phis) (replicate (?B * words) 0) (replicate (?B * words) 0) = Some (li, lo)"
    "rows_are words ?B I li" "rows_are words ?B (\<lambda>b. flow_out fn L I b) lo" "solve_inv fn L I" "\<forall>b < ?B. flow_in fn L I b = I b" by blast
  let ?liv = "\<lparr>lv_num_blocks = ?B, lv_words_per_block = words, lv_live_in = li, lv_live_out = lo, lv_total_words = ?B * words\<rparr>"
  have "ny_liveness_init fn = Some ?liv"
    using False l(1) r(1) unfolding ny_liveness_init_def Let_def words_def[symmetric] by simp
  moreover have "(ny_liveness_is_live_in ?liv b v \<longleftrightarrow> entry_live fn L b v) \<and> (ny_liveness_is_live_out ?liv b v \<longleftrightarrow> exit_live fn L b v)"
    if b: "b < ?B" and v: "v < ?n" for b v
  proof -
    have v: "v < 64 * words" using v n by simp
    have live: "\<And>s. s < ?B \<Longrightarrow> I s \<subseteq> {v. entry_live fn L s v}" using r(4) by (simp add: solve_inv_def)
    have "v \<in> I b \<longleftrightarrow> entry_live fn L b v" using solution_exact(1)[OF r(4,5)] live b by blast
    moreover have "v \<in> flow_out fn L I b \<longleftrightarrow> exit_live fn L b v"
      using solution_exact(2)[OF r(4,5)] flow_out_live[OF live, of b] b by blast
    ultimately show ?thesis using lv_query_row[of ?liv ?B words I li b v] lv_query_row[of ?liv ?B words "flow_out fn L I" lo b v] r(2,3) b v
      by (simp add: ny_liveness_is_live_in_def ny_liveness_is_live_out_def)
  qed
  ultimately show ?thesis by blast
qed

text \<open>
  C15. Liveness analysis returns, and its answers are exact: a value is reported live at the start (or end) of a block
  exactly when some path from there reaches a use of it, or a phi that takes it along the path's edge, before any
  definition. The function has well-formed instruction lists and operand slices.
\<close>

theorem liveness_exact:
  assumes "fn_wf fn L" and "ops_wf fn"
  shows "\<exists>liv. ny_liveness_init fn = Some liv \<and> (\<forall>b < length (f_blocks fn). \<forall>v < length (f_values fn).
      (ny_liveness_is_live_in liv b v \<longleftrightarrow> entry_live fn L b v) \<and> (ny_liveness_is_live_out liv b v \<longleftrightarrow> exit_live fn L b v))"
  using assms by (rule liveness_correct)

lemma liveness_exact_witness:
  "\<exists>liv. ny_liveness_init sample_fn = Some liv \<and> (\<forall>b < length (f_blocks sample_fn). \<forall>v < length (f_values sample_fn).
      (ny_liveness_is_live_in liv b v \<longleftrightarrow> entry_live sample_fn sample_lists b v)
      \<and> (ny_liveness_is_live_out liv b v \<longleftrightarrow> exit_live sample_fn sample_lists b v))"
  by (rule liveness_exact[OF sample_wf sample_ops_wf])

end
