(* ===== verification/Module.thy ===== *)
theory Module
  imports Types IR
begin

text \<open>
  Modules, \<^verbatim>\<open>src/ir/module.c\<close>: a name, the type table, the functions and the globals.  The array
  capacities are left out; a returned pointer is the element's index.
\<close>

datatype ny_global_kind = NY_GLOBAL_CONST | NY_GLOBAL_DATA | NY_GLOBAL_BSS

fun global_kind_num :: "ny_global_kind \<Rightarrow> nat" where
  "global_kind_num NY_GLOBAL_CONST = 0"
| "global_kind_num NY_GLOBAL_DATA = 1"
| "global_kind_num NY_GLOBAL_BSS = 2"

text \<open>\<open>g_init_bytes = None\<close> is the null pointer.\<close>

record ny_global =
  g_id :: nat
  g_name :: string
  g_type :: nat
  g_kind :: ny_global_kind
  g_align :: nat
  g_init_bytes :: "8 word list option"
  g_init_size :: nat

record ny_module =
  m_name :: string
  m_types :: ny_type_table
  m_functions :: "ny_function list"
  m_globals :: "ny_global list"

definition ny_module_init :: "string \<Rightarrow> ny_module" where
  "ny_module_init name = \<lparr>m_name = name, m_types = ny_type_table_init, m_functions = [], m_globals = []\<rparr>"

definition ny_module_create_function :: "ny_module \<Rightarrow> string \<Rightarrow> nat \<Rightarrow> nat \<Rightarrow> ny_module \<times> nat" where
  "ny_module_create_function md name ret_type call_conv =
     (let fid = u32 (length (m_functions md));
          fn = ny_function_init fid name ret_type call_conv
      in (md\<lparr>m_functions := (m_functions md @ [fn])[fid := fn]\<rparr>, fid))"

definition ny_module_get_function :: "ny_module \<Rightarrow> nat \<Rightarrow> ny_function option" where
  "ny_module_get_function md fid = (if fid \<ge> length (m_functions md) then None else Some (m_functions md ! fid))"

definition ny_module_get_function_by_name :: "ny_module \<Rightarrow> string option \<Rightarrow> nat option" where
  "ny_module_get_function_by_name md name = (case name of None \<Rightarrow> None
     | Some s \<Rightarrow> find_index (\<lambda>fn. f_name fn = s) (m_functions md))"

definition ny_module_create_global :: "ny_module \<Rightarrow> string \<Rightarrow> nat \<Rightarrow> ny_global_kind \<Rightarrow> nat \<Rightarrow> 8 word list option \<Rightarrow> nat
    \<Rightarrow> (ny_module \<times> nat) option" where
  "ny_module_create_global md name ty kind align init_bytes init_size = do {
     let gid = u32 (length (m_globals md));
     bytes \<leftarrow> (case init_bytes of
         Some bs \<Rightarrow> if init_size > 0 then if init_size \<le> length bs then Some (Some (take init_size bs)) else None else Some None
       | None \<Rightarrow> Some None);
     let g = \<lparr>g_id = gid, g_name = name, g_type = ty, g_kind = kind, g_align = (if align > 0 then align else 1),
              g_init_bytes = bytes, g_init_size = init_size\<rparr>;
     Some (md\<lparr>m_globals := (m_globals md @ [g])[gid := g]\<rparr>, gid)
   }"

definition ny_module_get_global :: "ny_module \<Rightarrow> nat \<Rightarrow> ny_global option" where
  "ny_module_get_global md gid = (if gid \<ge> length (m_globals md) then None else Some (m_globals md ! gid))"

definition ny_module_get_global_by_name :: "ny_module \<Rightarrow> string option \<Rightarrow> nat option" where
  "ny_module_get_global_by_name md name = (case name of None \<Rightarrow> None
     | Some s \<Rightarrow> find_index (\<lambda>g. g_name g = s) (m_globals md))"

lemma create_function_id:
  assumes "length (m_functions md) < 4294967296"
  shows "ny_module_create_function md name ret cc =
    (md\<lparr>m_functions := m_functions md @ [ny_function_init (length (m_functions md)) name ret cc]\<rparr>, length (m_functions md))"
  using assms by (simp add: ny_module_create_function_def Let_def)

end
