(* ===== verification/Nyir.thy ===== *)
theory Nyir
  imports Module
begin

unbundle bit_operations_syntax

text \<open>
  The binary form of a module, \<^verbatim>\<open>src/nygen/nyir.c\<close>.  The writer is the list of bytes written so far; the
  reader is the list of bytes not read yet, \<open>data[pos..size)\<close>.  A reading function returns \<open>None\<close> where the C
  function reports an error; the texts of the diagnostics are left out.
\<close>

subsection \<open>Writing\<close>

definition byte_at :: "nat \<Rightarrow> nat \<Rightarrow> 8 word" where
  "byte_at v k = word_of_nat (and (drop_bit k v) 255)"

definition writer_bytes :: "8 word list \<Rightarrow> 8 word list \<Rightarrow> 8 word list" where
  "writer_bytes w src = (if src = [] then w else w @ src)"

definition writer_u8 :: "8 word list \<Rightarrow> nat \<Rightarrow> 8 word list" where
  "writer_u8 w v = w @ [word_of_nat v]"

definition writer_u16 :: "8 word list \<Rightarrow> nat \<Rightarrow> 8 word list" where
  "writer_u16 w v = w @ [byte_at v 0, byte_at v 8]"

definition writer_u32 :: "8 word list \<Rightarrow> nat \<Rightarrow> 8 word list" where
  "writer_u32 w v = w @ [byte_at v 0, byte_at v 8, byte_at v 16, byte_at v 24]"

definition writer_u64 :: "8 word list \<Rightarrow> 64 word \<Rightarrow> 8 word list" where
  "writer_u64 w v = foldl (\<lambda>w i. w @ [ucast (drop_bit (i * 8) v AND 0xFF)]) w [0..<8]"

definition char_byte :: "char \<Rightarrow> 8 word" where
  "char_byte c = word_of_nat (of_char c)"

definition byte_char :: "8 word \<Rightarrow> char" where
  "byte_char b = char_of (unat b)"

definition writer_str :: "8 word list \<Rightarrow> string \<Rightarrow> 8 word list" where
  "writer_str w s = (let w = writer_u32 w (u32 (length s)) in if length s > 0 then writer_bytes w (map char_byte s) else w)"

fun type_kind_num :: "ny_type_kind \<Rightarrow> nat" where
  "type_kind_num NY_TYPE_KIND_PRIMITIVE = 0"
| "type_kind_num NY_TYPE_KIND_POINTER = 1"
| "type_kind_num NY_TYPE_KIND_VECTOR = 2"
| "type_kind_num NY_TYPE_KIND_ARRAY = 3"
| "type_kind_num NY_TYPE_KIND_STRUCT = 4"

fun value_kind_num :: "ny_value_kind \<Rightarrow> nat" where
  "value_kind_num NY_VAL_INSTRUCTION = 0"
| "value_kind_num NY_VAL_ARGUMENT = 1"
| "value_kind_num NY_VAL_CONSTANT = 2"

definition serialize_type :: "8 word list \<Rightarrow> ny_type \<Rightarrow> 8 word list" where
  "serialize_type w t = (
     let w = writer_u8 w (type_kind_num (ty_kind t));
         w = writer_u32 w (ty_size t);
         w = writer_u32 w (ty_align t);
         w = writer_u32 w (ty_elem_type t);
         w = writer_u16 w (ty_vector_lanes t);
         w = writer_u32 w (ty_array_count t);
         w = writer_u32 w (u32 (length (ty_field_types t)));
         w = writer_str w (ty_name t);
         w = foldl writer_u32 w (ty_field_types t)
     in foldl writer_u32 w (ty_field_offsets t))"

definition serialize_types :: "8 word list \<Rightarrow> ny_type_table \<Rightarrow> 8 word list" where
  "serialize_types w tt = (
     let custom_count = (if length (tt_types tt) > NY_PRIMITIVE_TYPE_COUNT then u32 (length (tt_types tt) - NY_PRIMITIVE_TYPE_COUNT) else 0);
         w = writer_u32 w custom_count
     in foldl serialize_type w (drop NY_PRIMITIVE_TYPE_COUNT (tt_types tt)))"

definition serialize_global :: "8 word list \<Rightarrow> ny_global \<Rightarrow> 8 word list" where
  "serialize_global w g = (
     let w = writer_str w (g_name g);
         w = writer_u32 w (g_type g);
         w = writer_u8 w (global_kind_num (g_kind g));
         w = writer_u32 w (g_align g);
         isz = (if g_init_bytes g \<noteq> None \<and> g_init_size g > 0 then u32 (g_init_size g) else 0);
         w = writer_u32 w isz
     in if isz > 0 then writer_bytes w (take isz (the (g_init_bytes g))) else w)"

definition serialize_globals :: "8 word list \<Rightarrow> ny_module \<Rightarrow> 8 word list" where
  "serialize_globals w md = foldl serialize_global (writer_u32 w (u32 (length (m_globals md)))) (m_globals md)"

fun operand_kind_num :: "ny_operand \<Rightarrow> nat" where
  "operand_kind_num OpNone = 0"
| "operand_kind_num (OpValue v) = 1"
| "operand_kind_num (OpBlock b) = 2"
| "operand_kind_num (OpInt i) = 3"
| "operand_kind_num (OpFloat f) = 4"
| "operand_kind_num (OpFunction f) = 5"
| "operand_kind_num (OpSymbol s) = 6"
| "operand_kind_num (OpGlobal g) = 7"
| "operand_kind_num (OpType t) = 8"

text \<open>A floating-point immediate is written as eight zero bytes that are then overwritten.\<close>

definition serialize_operand :: "8 word list \<Rightarrow> ny_operand \<Rightarrow> 8 word list" where
  "serialize_operand w op = (let w = writer_u8 w (operand_kind_num op) in
     case op of
       OpValue v \<Rightarrow> writer_u32 w v
     | OpBlock b \<Rightarrow> writer_u32 w b
     | OpInt i \<Rightarrow> writer_u64 w i
     | OpFloat bits \<Rightarrow> (let w = writer_u64 w 0; off = length w - 8
         in foldl (\<lambda>w i. w[off + i := ucast (drop_bit (i * 8) bits AND 0xFF)]) w [0..<8])
     | OpFunction f \<Rightarrow> writer_u32 w f
     | OpSymbol s \<Rightarrow> writer_u32 w s
     | OpGlobal g \<Rightarrow> writer_u32 w g
     | OpType t \<Rightarrow> writer_u32 w t
     | OpNone \<Rightarrow> w)"

definition serialize_param :: "8 word list \<Rightarrow> nat \<times> string \<Rightarrow> 8 word list" where
  "serialize_param w p = writer_str (writer_u32 w (fst p)) (snd p)"

definition serialize_block :: "8 word list \<Rightarrow> ny_block \<Rightarrow> 8 word list" where
  "serialize_block w blk = (
     let w = writer_str w (b_name blk);
         w = writer_u32 w (b_first blk);
         w = writer_u32 w (b_last blk);
         w = writer_u32 w (b_inst_count blk);
         w = writer_u32 w (u32 (length (b_preds blk)));
         w = foldl writer_u32 w (b_preds blk);
         w = writer_u32 w (u32 (length (b_succs blk)))
     in foldl writer_u32 w (b_succs blk))"

definition serialize_inst :: "8 word list \<Rightarrow> ny_instruction \<Rightarrow> 8 word list" where
  "serialize_inst w inst = (
     let w = writer_u16 w (opcode_num (i_opcode inst));
         w = writer_u16 w (i_flags inst);
         w = writer_u32 w (i_result inst);
         w = writer_u32 w (i_op_start inst);
         w = writer_u16 w (i_op_count inst);
         w = writer_u32 w (i_block inst);
         w = writer_u32 w (i_prev inst)
     in writer_u32 w (i_next inst))"

definition serialize_value :: "8 word list \<Rightarrow> ny_value \<Rightarrow> 8 word list" where
  "serialize_value w val = (
     let w = writer_u32 w (v_type val);
         w = writer_u8 w (value_kind_num (v_kind val));
         w = writer_u32 w (v_def val);
         w = writer_u32 w (v_index val)
     in writer_str w (v_name val))"

definition serialize_function :: "8 word list \<Rightarrow> ny_function \<Rightarrow> 8 word list" where
  "serialize_function w fn = (
     let w = writer_str w (f_name fn);
         w = writer_u32 w (f_return_type fn);
         w = writer_u8 w (f_call_conv fn);
         w = writer_u8 w (if f_is_variadic fn then 1 else 0);
         w = writer_u32 w (f_entry fn);
         w = writer_u32 w (u32 (length (f_params fn)));
         w = foldl serialize_param w (f_params fn);
         w = writer_u32 w (u32 (length (f_blocks fn)));
         w = foldl serialize_block w (f_blocks fn);
         w = writer_u32 w (u32 (length (f_insts fn)));
         w = foldl serialize_inst w (f_insts fn);
         w = writer_u32 w (u32 (length (f_values fn)));
         w = foldl serialize_value w (f_values fn);
         w = writer_u32 w (u32 (length (f_operands fn)))
     in foldl serialize_operand w (f_operands fn))"

definition serialize_functions :: "8 word list \<Rightarrow> ny_module \<Rightarrow> 8 word list" where
  "serialize_functions w md = foldl serialize_function (writer_u32 w (u32 (length (m_functions md)))) (m_functions md)"

definition NYIR_VERSION :: nat where
  "NYIR_VERSION = 1"

definition nygen_serialize_nyir :: "ny_module \<Rightarrow> 8 word list" where
  "nygen_serialize_nyir md = (
     let w = writer_u8 [] 0x4E;
         w = writer_u8 w 0x59;
         w = writer_u8 w 0x49;
         w = writer_u8 w 0x52;
         w = writer_u16 w NYIR_VERSION;
         w = writer_u16 w 0;
         w = writer_str w (m_name md);
         w = serialize_types w (m_types md);
         w = serialize_globals w md
     in serialize_functions w md)"

subsection \<open>Reading\<close>

text \<open>An error exit of the reader.\<close>

definition reject_if :: "bool \<Rightarrow> unit option" where
  "reject_if b = (if b then None else Some ())"

definition reader_bytes :: "8 word list \<Rightarrow> nat \<Rightarrow> (8 word list \<times> 8 word list) option" where
  "reader_bytes r len = (if len > length r then None else Some (take len r, drop len r))"

definition reader_u8 :: "8 word list \<Rightarrow> (nat \<times> 8 word list) option" where
  "reader_u8 r = do { (b, r) \<leftarrow> reader_bytes r 1; Some (unat (b ! 0), r) }"

definition reader_u16 :: "8 word list \<Rightarrow> (nat \<times> 8 word list) option" where
  "reader_u16 r = do { (b, r) \<leftarrow> reader_bytes r 2; Some (or (unat (b ! 0)) (push_bit 8 (unat (b ! 1))), r) }"

definition reader_u32 :: "8 word list \<Rightarrow> (nat \<times> 8 word list) option" where
  "reader_u32 r = do {
     (b, r) \<leftarrow> reader_bytes r 4;
     Some (or (or (or (unat (b ! 0)) (push_bit 8 (unat (b ! 1)))) (push_bit 16 (unat (b ! 2)))) (push_bit 24 (unat (b ! 3))), r)
   }"

definition reader_u64 :: "8 word list \<Rightarrow> (64 word \<times> 8 word list) option" where
  "reader_u64 r = do {
     (b, r) \<leftarrow> reader_bytes r 8;
     Some (foldl (\<lambda>v i. v OR push_bit (i * 8) (ucast (b ! i))) 0 [0..<8], r)
   }"

definition reader_str_arena :: "8 word list \<Rightarrow> (string \<times> 8 word list) option" where
  "reader_str_arena r = do {
     (len, r) \<leftarrow> reader_u32 r;
     if len = 0 then Some ([], r)
     else do { (buf, r) \<leftarrow> reader_bytes r len; Some (map byte_char buf, r) }
   }"

text \<open>
  \<^verbatim>\<open>reader_str_alloc\<close> returns a null pointer both for an empty string and for a failed read; only the former sets
  \<^verbatim>\<open>*out_len\<close>, which the caller has not initialised.  \<open>junk\<close> is what the variable holds.
\<close>

definition reader_str_alloc :: "nat \<Rightarrow> 8 word list \<Rightarrow> string option \<times> nat \<times> 8 word list" where
  "reader_str_alloc junk r = (case reader_u32 r of
       None \<Rightarrow> (None, junk, r)
     | Some (len, r) \<Rightarrow>
         if len = 0 then (None, 0, r)
         else (case reader_bytes r len of
             None \<Rightarrow> (None, junk, r)
           | Some (buf, r) \<Rightarrow> (Some (map byte_char buf), len, r)))"

text \<open>A counted loop that reads the elements \<open>i\<close>, \<open>i + 1\<close>, \<dots> of an array.\<close>

fun read_items :: "(nat \<Rightarrow> 8 word list \<Rightarrow> ('a \<times> 8 word list) option) \<Rightarrow> nat \<Rightarrow> nat \<Rightarrow> 8 word list \<Rightarrow> ('a list \<times> 8 word list) option" where
  "read_items f 0 i r = Some ([], r)"
| "read_items f (Suc k) i r = do {
     (x, r) \<leftarrow> f i r;
     (xs, r) \<leftarrow> read_items f k (Suc i) r;
     Some (x # xs, r)
   }"

fun type_kind_of_num :: "nat \<Rightarrow> ny_type_kind" where
  "type_kind_of_num n = (if n = 0 then NY_TYPE_KIND_PRIMITIVE else if n = 1 then NY_TYPE_KIND_POINTER
     else if n = 2 then NY_TYPE_KIND_VECTOR else if n = 3 then NY_TYPE_KIND_ARRAY else NY_TYPE_KIND_STRUCT)"

definition read_below :: "nat \<Rightarrow> nat \<Rightarrow> 8 word list \<Rightarrow> (nat \<times> 8 word list) option" where
  "read_below bound i r = do { (v, r) \<leftarrow> reader_u32 r; reject_if (v \<ge> bound); Some (v, r) }"

definition deserialize_type :: "nat \<Rightarrow> nat \<Rightarrow> nat \<Rightarrow> 8 word list \<Rightarrow> (ny_type \<times> 8 word list) option" where
  "deserialize_type junk total_types i r = do {
     (kind, r) \<leftarrow> reader_u8 r;
     reject_if (kind > 4);
     (sz, r) \<leftarrow> reader_u32 r;
     (align, r) \<leftarrow> reader_u32 r;
     (elem, r) \<leftarrow> reader_u32 r;
     reject_if (elem \<noteq> NY_INVALID_TYPE \<and> elem \<ge> total_types);
     (lanes, r) \<leftarrow> reader_u16 r;
     (array_count, r) \<leftarrow> reader_u32 r;
     (field_count, r) \<leftarrow> reader_u32 r;
     reject_if (field_count > 2 ^ 24);
     let (name, name_len, r) = reader_str_alloc junk r;
     reject_if (name_len > 0 \<and> name = None);
     (field_types, r) \<leftarrow> read_items (read_below total_types) field_count 0 r;
     (field_offsets, r) \<leftarrow> read_items (\<lambda>_. reader_u32) field_count 0 r;
     Some (\<lparr>ty_kind = type_kind_of_num kind, ty_size = sz, ty_align = align, ty_elem_type = elem, ty_vector_lanes = lanes,
            ty_array_count = array_count, ty_field_types = field_types, ty_field_offsets = field_offsets,
            ty_name = (case name of None \<Rightarrow> [] | Some s \<Rightarrow> s)\<rparr>, r)
   }"

definition deserialize_types :: "(nat \<Rightarrow> nat) \<Rightarrow> ny_type_table \<Rightarrow> 8 word list \<Rightarrow> (ny_type_table \<times> 8 word list) option" where
  "deserialize_types junk tt r = do {
     (custom_count, r) \<leftarrow> reader_u32 r;
     reject_if (custom_count > 2 ^ 20);
     let total_types = NY_PRIMITIVE_TYPE_COUNT + custom_count;
     cap \<leftarrow> (if total_types > tt_capacity tt
             then if total_types - 1 < tt_capacity tt then Some (tt_capacity tt)
                  else grow_cap (total_types - 1) (if tt_capacity tt = 0 then 8 else u64 (tt_capacity tt * 2))
             else Some (tt_capacity tt));
     (types, r) \<leftarrow> read_items (\<lambda>i. deserialize_type (junk i) total_types i) custom_count 0 r;
     Some (\<lparr>tt_types = take NY_PRIMITIVE_TYPE_COUNT (tt_types tt) @ types, tt_capacity = cap\<rparr>, r)
   }"

definition deserialize_global :: "nat \<Rightarrow> nat \<Rightarrow> 8 word list \<Rightarrow> (ny_global \<times> 8 word list) option" where
  "deserialize_global type_count i r = do {
     (name, r) \<leftarrow> reader_str_arena r;
     (ty, r) \<leftarrow> reader_u32 r;
     reject_if (ty \<ge> type_count);
     (kind, r) \<leftarrow> reader_u8 r;
     reject_if (kind > 2);
     (align, r) \<leftarrow> reader_u32 r;
     (init_size, r) \<leftarrow> reader_u32 r;
     reject_if (init_size > 2 ^ 28);
     (bytes, r) \<leftarrow> (if init_size > 0 then do { (b, r) \<leftarrow> reader_bytes r init_size; Some (Some b, r) } else Some (None, r));
     Some (\<lparr>g_id = i, g_name = name, g_type = ty,
            g_kind = (if kind = 0 then NY_GLOBAL_CONST else if kind = 1 then NY_GLOBAL_DATA else NY_GLOBAL_BSS),
            g_align = align, g_init_bytes = bytes, g_init_size = init_size\<rparr>, r)
   }"

definition deserialize_globals :: "nat \<Rightarrow> 8 word list \<Rightarrow> (ny_global list \<times> 8 word list) option" where
  "deserialize_globals type_count r = do {
     (global_count, r) \<leftarrow> reader_u32 r;
     reject_if (global_count > 2 ^ 20);
     read_items (deserialize_global type_count) global_count 0 r
   }"

definition deserialize_operand :: "nat \<Rightarrow> nat \<Rightarrow> nat \<Rightarrow> nat \<Rightarrow> nat \<Rightarrow> nat \<Rightarrow> 8 word list \<Rightarrow> (ny_operand \<times> 8 word list) option" where
  "deserialize_operand val_count block_count fn_count global_count type_count i r = do {
     (kind, r) \<leftarrow> reader_u8 r;
     reject_if (kind > 8);
     if kind = 1 then do { (v, r) \<leftarrow> reader_u32 r; reject_if (v \<ge> val_count); Some (OpValue v, r) }
     else if kind = 2 then do { (b, r) \<leftarrow> reader_u32 r; reject_if (b \<ge> block_count); Some (OpBlock b, r) }
     else if kind = 3 then do { (v, r) \<leftarrow> reader_u64 r; Some (OpInt v, r) }
     else if kind = 4 then do { (bits, r) \<leftarrow> reader_u64 r; Some (OpFloat bits, r) }
     else if kind = 5 then do { (f, r) \<leftarrow> reader_u32 r; reject_if (f \<ge> fn_count); Some (OpFunction f, r) }
     else if kind = 6 then do { (s, r) \<leftarrow> reader_u32 r; Some (OpSymbol s, r) }
     else if kind = 7 then do { (g, r) \<leftarrow> reader_u32 r; reject_if (g \<ge> global_count); Some (OpGlobal g, r) }
     else if kind = 8 then do { (t, r) \<leftarrow> reader_u32 r; reject_if (t \<ge> type_count); Some (OpType t, r) }
     else Some (OpNone, r)
   }"

definition deserialize_param :: "nat \<Rightarrow> nat \<Rightarrow> 8 word list \<Rightarrow> ((nat \<times> string) \<times> 8 word list) option" where
  "deserialize_param type_count i r = do {
     (ty, r) \<leftarrow> reader_u32 r;
     reject_if (ty \<ge> type_count);
     (name, r) \<leftarrow> reader_str_arena r;
     Some ((ty, name), r)
   }"

definition deserialize_block :: "nat \<Rightarrow> nat \<Rightarrow> 8 word list \<Rightarrow> (ny_block \<times> 8 word list) option" where
  "deserialize_block block_count b r = do {
     (name, r) \<leftarrow> reader_str_arena r;
     (first_inst, r) \<leftarrow> reader_u32 r;
     (last_inst, r) \<leftarrow> reader_u32 r;
     (inst_count, r) \<leftarrow> reader_u32 r;
     (pred_count, r) \<leftarrow> reader_u32 r;
     reject_if (pred_count > block_count);
     (preds, r) \<leftarrow> read_items (read_below block_count) pred_count 0 r;
     (succ_count, r) \<leftarrow> reader_u32 r;
     reject_if (succ_count > block_count);
     (succs, r) \<leftarrow> read_items (read_below block_count) succ_count 0 r;
     Some (\<lparr>b_id = b, b_name = name, b_first = first_inst, b_last = last_inst, b_inst_count = inst_count,
            b_preds = preds, b_succs = succs\<rparr>, r)
   }"

definition deserialize_inst :: "nat \<Rightarrow> nat \<Rightarrow> 8 word list \<Rightarrow> (ny_instruction \<times> 8 word list) option" where
  "deserialize_inst block_count i r = do {
     (num, r) \<leftarrow> reader_u16 r;
     reject_if (num \<ge> opcode_num NY_OPCODE_COUNT);
     opcode \<leftarrow> opcode_of_num num;
     (flags, r) \<leftarrow> reader_u16 r;
     (result, r) \<leftarrow> reader_u32 r;
     (op_start, r) \<leftarrow> reader_u32 r;
     (op_count, r) \<leftarrow> reader_u16 r;
     (blk, r) \<leftarrow> reader_u32 r;
     reject_if (blk \<ge> block_count);
     (prev, r) \<leftarrow> reader_u32 r;
     (nxt, r) \<leftarrow> reader_u32 r;
     Some (\<lparr>i_id = i, i_opcode = opcode, i_flags = flags, i_result = result, i_op_start = op_start, i_op_count = op_count,
            i_block = blk, i_prev = prev, i_next = nxt\<rparr>, r)
   }"

definition deserialize_value :: "nat \<Rightarrow> nat \<Rightarrow> 8 word list \<Rightarrow> (ny_value \<times> 8 word list) option" where
  "deserialize_value type_count v r = do {
     (ty, r) \<leftarrow> reader_u32 r;
     reject_if (ty \<ge> type_count);
     (kind, r) \<leftarrow> reader_u8 r;
     reject_if (kind > 2);
     (def_inst, r) \<leftarrow> reader_u32 r;
     (index, r) \<leftarrow> reader_u32 r;
     (name, r) \<leftarrow> reader_str_arena r;
     Some (\<lparr>v_id = v, v_type = ty,
            v_kind = (if kind = 0 then NY_VAL_INSTRUCTION else if kind = 1 then NY_VAL_ARGUMENT else NY_VAL_CONSTANT),
            v_def = def_inst, v_index = index, v_name = name\<rparr>, r)
   }"

text \<open>The operand range of an instruction is compared as a 32-bit sum.\<close>

definition range_ok :: "nat \<Rightarrow> ny_instruction \<Rightarrow> bool" where
  "range_ok op_count inst \<longleftrightarrow> \<not> u32 (i_op_start inst + i_op_count inst) > op_count"

definition deserialize_function :: "nat \<Rightarrow> nat \<Rightarrow> nat \<Rightarrow> nat \<Rightarrow> 8 word list \<Rightarrow> (ny_function \<times> 8 word list) option" where
  "deserialize_function type_count global_count fn_count fi r = do {
     (name, r) \<leftarrow> reader_str_arena r;
     (return_type, r) \<leftarrow> reader_u32 r;
     reject_if (return_type \<ge> type_count);
     (call_conv, r) \<leftarrow> reader_u8 r;
     (is_var, r) \<leftarrow> reader_u8 r;
     (entry_block, r) \<leftarrow> reader_u32 r;
     (param_count, r) \<leftarrow> reader_u32 r;
     reject_if (param_count > 2 ^ 20);
     (params, r) \<leftarrow> read_items (deserialize_param type_count) param_count 0 r;
     (block_count, r) \<leftarrow> reader_u32 r;
     reject_if (block_count > 2 ^ 20);
     (blocks, r) \<leftarrow> read_items (deserialize_block block_count) block_count 0 r;
     (inst_count, r) \<leftarrow> reader_u32 r;
     reject_if (inst_count > 2 ^ 24);
     (insts, r) \<leftarrow> read_items (deserialize_inst block_count) inst_count 0 r;
     (val_count, r) \<leftarrow> reader_u32 r;
     reject_if (val_count > 2 ^ 24);
     (vals, r) \<leftarrow> read_items (deserialize_value type_count) val_count 0 r;
     (op_count, r) \<leftarrow> reader_u32 r;
     reject_if (op_count > 2 ^ 24);
     (ops, r) \<leftarrow> read_items (deserialize_operand val_count block_count fn_count global_count type_count) op_count 0 r;
     reject_if (\<not> list_all (range_ok op_count) insts);
     Some (\<lparr>f_id = fi, f_name = name, f_return_type = return_type, f_params = params, f_call_conv = call_conv,
            f_is_variadic = (is_var \<noteq> 0), f_entry = entry_block, f_blocks = blocks, f_insts = insts, f_locs = None,
            f_values = vals, f_operands = ops\<rparr>, r)
   }"

definition deserialize_functions :: "nat \<Rightarrow> nat \<Rightarrow> 8 word list \<Rightarrow> (ny_function list \<times> 8 word list) option" where
  "deserialize_functions type_count global_count r = do {
     (fn_count, r) \<leftarrow> reader_u32 r;
     reject_if (fn_count > 2 ^ 20);
     read_items (deserialize_function (u32 type_count) (u32 global_count) fn_count) fn_count 0 r
   }"

text \<open>The reader up to the validation of the module it has built.\<close>

definition nyir_read :: "(nat \<Rightarrow> nat) \<Rightarrow> 8 word list \<Rightarrow> ny_module option" where
  "nyir_read junk data = do {
     reject_if (length data < 12);
     reject_if (data ! 0 \<noteq> 0x4E \<or> data ! 1 \<noteq> 0x59 \<or> data ! 2 \<noteq> 0x49 \<or> data ! 3 \<noteq> 0x52);
     (version, r) \<leftarrow> reader_u16 (drop 4 data);
     reject_if (version \<noteq> NYIR_VERSION);
     (reserved, r) \<leftarrow> reader_u16 r;
     let md = ny_module_init ''nyir_module'';
     (name, r) \<leftarrow> reader_str_arena r;
     (types, r) \<leftarrow> deserialize_types junk (m_types md) r;
     (globals, r) \<leftarrow> deserialize_globals (length (tt_types types)) r;
     (functions, r) \<leftarrow> deserialize_functions (length (tt_types types)) (length globals) r;
     reject_if (r \<noteq> []);
     Some (md\<lparr>m_name := name, m_types := types, m_globals := globals, m_functions := functions\<rparr>)
   }"

end
