(* ===== verification/Nyir_Roundtrip.thy ===== *)
theory Nyir_Roundtrip
  imports Nyir IR_Examples
begin

unbundle bit_operations_syntax

text \<open>
  What the writer of \<^verbatim>\<open>src/nygen/nyir.c\<close> produces, the reader takes apart again.  Every writer appends an
  encoding (\<open>enc_appends\<close>), every reader takes it off again (\<open>enc_reads\<close>); the arrays are handled once, in the locale
  \<open>item_codec\<close>, which each kind of array element interprets.
\<close>

subsection \<open>Bytes\<close>

lemma unat_byte_at: "unat (byte_at v k) = take_bit 8 (drop_bit k v)"
proof -
  have "and (drop_bit k v) 255 = take_bit 8 (drop_bit k v)"
    by (simp add: take_bit_eq_mask mask_eq_exp_minus_1)
  moreover have "take_bit 8 (drop_bit k v) < 256" using take_bit_nat_less_exp[of 8 "drop_bit k v"] by simp
  ultimately show ?thesis by (simp add: byte_at_def unat_of_nat)
qed

text \<open>A byte put back in its place.\<close>

lemma bit_byte_back:
  "bit (push_bit k (take_bit 8 (drop_bit k v))) n \<longleftrightarrow> k \<le> n \<and> n < k + 8 \<and> bit v n" for v :: nat
  by (auto simp: bit_simps)

lemma bit_byte_back_word:
  "bit (push_bit k (take_bit 8 (drop_bit k v))) n \<longleftrightarrow> k \<le> n \<and> n < k + 8 \<and> n < LENGTH('a) \<and> bit v n" for v :: "'a :: len word"
  by (auto simp: bit_simps dest: bit_imp_le_length)

lemma join16: "or (take_bit 8 v) (push_bit 8 (take_bit 8 (drop_bit 8 v))) = take_bit 16 v" for v :: nat
  by (rule bit_eqI) (auto simp: bit_or_iff bit_take_bit_iff bit_byte_back)

lemma join32:
  "or (or (or (take_bit 8 v) (push_bit 8 (take_bit 8 (drop_bit 8 v)))) (push_bit 16 (take_bit 8 (drop_bit 16 v))))
     (push_bit 24 (take_bit 8 (drop_bit 24 v))) = take_bit 32 v" for v :: nat
  by (rule bit_eqI) (auto simp: bit_or_iff bit_take_bit_iff bit_byte_back)

lemma bit_foldl_or: "bit (foldl (\<lambda>w i. w OR g i) a xs) n \<longleftrightarrow> bit a n \<or> (\<exists>i \<in> set xs. bit (g i) n)" for g :: "'b \<Rightarrow> 'a :: len word"
  by (induction xs arbitrary: a) (auto simp: bit_or_iff)

definition enc_u64 :: "64 word \<Rightarrow> 8 word list" where
  "enc_u64 v = map (\<lambda>i. ucast (drop_bit (i * 8) v AND 0xFF)) [0..<8]"

lemma byte_of_word: "ucast (ucast (drop_bit k v AND 0xFF) :: 8 word) = take_bit 8 (drop_bit k v)" for v :: "64 word"
proof -
  have "drop_bit k v AND 0xFF = take_bit 8 (drop_bit k v)"
    using take_bit_eq_mask[of 8 "drop_bit k v"] by (simp add: mask_eq_exp_minus_1)
  then show ?thesis by (simp add: unsigned_ucast_eq)
qed

lemma enc_u64_len: "length (enc_u64 v) = 8" by (simp add: enc_u64_def)

lemma join64: "foldl (\<lambda>w i. w OR push_bit (i * 8) (ucast (enc_u64 v ! i))) 0 [0..<8] = v"
proof -
  have "foldl (\<lambda>w i. w OR push_bit (i * 8) (ucast (enc_u64 v ! i))) 0 [0..<8]
     = foldl (\<lambda>w i. w OR push_bit (i * 8) (take_bit 8 (drop_bit (i * 8) v))) 0 [0..<8]"
    by (rule foldl_cong[OF refl refl]) (simp add: enc_u64_def byte_of_word del: upt_rec_numeral)
  also have "\<dots> = v"
  proof (rule bit_word_eqI)
    fix n assume n: "n < LENGTH(64)"
    then have "n div 8 < 8" "n div 8 * 8 \<le> n" "n < n div 8 * 8 + 8" by auto
    then show "bit (foldl (\<lambda>w i. w OR push_bit (i * 8) (take_bit 8 (drop_bit (i * 8) v))) 0 [0..<8]) n = bit v n"
      unfolding bit_foldl_or bit_byte_back_word using n by fastforce
  qed
  finally show ?thesis .
qed

definition enc_u8 :: "nat \<Rightarrow> 8 word list" where
  "enc_u8 v = [word_of_nat v]"

definition enc_u16 :: "nat \<Rightarrow> 8 word list" where
  "enc_u16 v = [byte_at v 0, byte_at v 8]"

definition enc_u32 :: "nat \<Rightarrow> 8 word list" where
  "enc_u32 v = [byte_at v 0, byte_at v 8, byte_at v 16, byte_at v 24]"

definition enc_str :: "string \<Rightarrow> 8 word list" where
  "enc_str s = enc_u32 (length s) @ map char_byte s"

named_theorems enc_appends
named_theorems enc_reads

lemma writer_bytes_enc [enc_appends]: "writer_bytes w b = w @ b"
  by (simp add: writer_bytes_def)

lemma writer_u8_enc [enc_appends]: "writer_u8 w v = w @ enc_u8 v"
  by (simp add: writer_u8_def enc_u8_def)

lemma writer_u16_enc [enc_appends]: "writer_u16 w v = w @ enc_u16 v"
  by (simp add: writer_u16_def enc_u16_def)

lemma writer_u32_enc [enc_appends]: "writer_u32 w v = w @ enc_u32 v"
  by (simp add: writer_u32_def enc_u32_def)

lemma foldl_snoc_map: "foldl (\<lambda>w i. w @ [f i]) w xs = w @ map f xs"
  by (induction xs arbitrary: w) auto

lemma writer_u64_enc [enc_appends]: "writer_u64 w v = w @ enc_u64 v"
  unfolding writer_u64_def enc_u64_def foldl_snoc_map by simp

lemma writer_str_enc [enc_appends]: "length s < 4294967296 \<Longrightarrow> writer_str w s = w @ enc_str s"
  by (auto simp: writer_str_def enc_str_def enc_appends Let_def)

lemma read_u8 [enc_reads]: "v < 256 \<Longrightarrow> reader_u8 (enc_u8 v @ r) = Some (v, r)"
  by (simp add: reader_u8_def enc_u8_def reader_bytes_def unat_of_nat)

lemma read_u16 [enc_reads]: "v < 65536 \<Longrightarrow> reader_u16 (enc_u16 v @ r) = Some (v, r)"
  using join16[of v] by (simp add: reader_u16_def enc_u16_def reader_bytes_def unat_byte_at take_bit_nat_eq_self)

lemma read_u32 [enc_reads]: "v < 4294967296 \<Longrightarrow> reader_u32 (enc_u32 v @ r) = Some (v, r)"
  using join32[of v] by (simp add: reader_u32_def enc_u32_def reader_bytes_def unat_byte_at take_bit_nat_eq_self nth_Cons_numeral)

lemma read_u64 [enc_reads]: "reader_u64 (enc_u64 v @ r) = Some (v, r)"
  using join64[of v] by (simp add: reader_u64_def reader_bytes_def enc_u64_len)

lemma byte_char_id: "byte_char (char_byte c) = c"
  by (simp add: byte_char_def char_byte_def unat_of_nat)

lemma read_bytes [enc_reads]: "n = length b \<Longrightarrow> reader_bytes (b @ r) n = Some (b, r)"
  by (simp add: reader_bytes_def)

lemma map_byte_char: "map byte_char (map char_byte s) = s"
  by (simp add: byte_char_id o_def)

lemma read_str [enc_reads]: "length s < 4294967296 \<Longrightarrow> reader_str_arena (enc_str s @ r) = Some (s, r)"
  by (simp add: reader_str_arena_def enc_str_def enc_reads map_byte_char del: map_map)

lemma read_str_alloc: "length s < 4294967296 \<Longrightarrow>
    reader_str_alloc junk (enc_str s @ r) = (if s = [] then None else Some s, length s, r)"
  by (simp add: reader_str_alloc_def enc_str_def enc_reads map_byte_char del: map_map)


subsection \<open>Arrays of encoded items\<close>

locale item_codec =
  fixes W :: "8 word list \<Rightarrow> 'a \<Rightarrow> 8 word list"
    and R :: "nat \<Rightarrow> 8 word list \<Rightarrow> ('b \<times> 8 word list) option"
    and enc :: "'a \<Rightarrow> 8 word list"
    and storable :: "'a \<Rightarrow> bool"
    and restored :: "nat \<Rightarrow> 'a \<Rightarrow> 'b"
  assumes writes: "storable x \<Longrightarrow> W w x = w @ enc x"
    and reads: "storable x \<Longrightarrow> R i (enc x @ r) = Some (restored i x, r)"
begin

lemma writes_all: "list_all storable xs \<Longrightarrow> foldl W w xs = w @ concat (map enc xs)"
  by (induction xs arbitrary: w) (auto simp: writes)

lemma reads_all:
  "list_all storable xs \<Longrightarrow> read_items R (length xs) i (concat (map enc xs) @ r) = Some (map2 restored [i..<i + length xs] xs, r)"
  by (induction xs arbitrary: i) (auto simp: reads upt_conv_Cons simp del: upt_Suc)

end

lemma map2_snd: "length ks = length xs \<Longrightarrow> map2 (\<lambda>_ x. x) ks xs = xs"
  by (induction ks xs rule: list_induct2) auto

interpretation u32_array: item_codec writer_u32 "\<lambda>_. reader_u32" enc_u32 "\<lambda>v. v < 4294967296" "\<lambda>_ v. v"
  by unfold_locales (simp_all add: enc_appends enc_reads)

lemma read_below_enc: "v < bound \<Longrightarrow> v < 4294967296 \<Longrightarrow> read_below bound i (enc_u32 v @ r) = Some (v, r)"
  by (simp add: read_below_def enc_reads reject_if_def)

interpretation id_array: item_codec writer_u32 "read_below bound" enc_u32 "\<lambda>v. v < bound \<and> v < 4294967296" "\<lambda>_ v. v" for bound
  by unfold_locales (simp_all add: enc_appends read_below_enc)


subsection \<open>What can be stored\<close>

definition str_storable :: "string \<Rightarrow> bool" where
  "str_storable s \<longleftrightarrow> length s < 4294967296"

definition type_storable :: "nat \<Rightarrow> ny_type \<Rightarrow> bool" where
  "type_storable n t \<longleftrightarrow> ty_size t < 4294967296 \<and> ty_align t < 4294967296 \<and> ty_elem_type t < 4294967296
     \<and> (ty_elem_type t = NY_INVALID_TYPE \<or> ty_elem_type t < n) \<and> ty_vector_lanes t < 65536 \<and> ty_array_count t < 4294967296
     \<and> length (ty_field_types t) \<le> 2 ^ 24 \<and> length (ty_field_offsets t) = length (ty_field_types t)
     \<and> list_all (\<lambda>v. v < n \<and> v < 4294967296) (ty_field_types t) \<and> list_all (\<lambda>v. v < 4294967296) (ty_field_offsets t)
     \<and> str_storable (ty_name t)"

definition global_storable :: "nat \<Rightarrow> ny_global \<Rightarrow> bool" where
  "global_storable n g \<longleftrightarrow> str_storable (g_name g) \<and> g_type g < n \<and> g_type g < 4294967296 \<and> g_align g < 4294967296
     \<and> (case g_init_bytes g of None \<Rightarrow> True | Some b \<Rightarrow> g_init_size g = length b \<and> length b \<le> 2 ^ 28)"

definition operand_storable :: "nat \<Rightarrow> nat \<Rightarrow> nat \<Rightarrow> nat \<Rightarrow> nat \<Rightarrow> ny_operand \<Rightarrow> bool" where
  "operand_storable nv nb nf ng nt op \<longleftrightarrow> (case op of
       OpValue v \<Rightarrow> v < nv \<and> v < 4294967296 | OpBlock b \<Rightarrow> b < nb \<and> b < 4294967296
     | OpFunction f \<Rightarrow> f < nf \<and> f < 4294967296 | OpSymbol s \<Rightarrow> s < 4294967296
     | OpGlobal g \<Rightarrow> g < ng \<and> g < 4294967296 | OpType t \<Rightarrow> t < nt \<and> t < 4294967296 | _ \<Rightarrow> True)"

definition param_storable :: "nat \<Rightarrow> nat \<times> string \<Rightarrow> bool" where
  "param_storable nt p \<longleftrightarrow> fst p < nt \<and> fst p < 4294967296 \<and> str_storable (snd p)"

definition block_storable :: "nat \<Rightarrow> ny_block \<Rightarrow> bool" where
  "block_storable nb blk \<longleftrightarrow> str_storable (b_name blk) \<and> b_first blk < 4294967296 \<and> b_last blk < 4294967296
     \<and> b_inst_count blk < 4294967296 \<and> nb < 4294967296 \<and> length (b_preds blk) \<le> nb \<and> length (b_succs blk) \<le> nb
     \<and> list_all (\<lambda>v. v < nb \<and> v < 4294967296) (b_preds blk) \<and> list_all (\<lambda>v. v < nb \<and> v < 4294967296) (b_succs blk)"

definition inst_storable :: "nat \<Rightarrow> ny_instruction \<Rightarrow> bool" where
  "inst_storable nb inst \<longleftrightarrow> i_opcode inst \<noteq> NY_OPCODE_COUNT \<and> i_flags inst < 65536 \<and> i_result inst < 4294967296
     \<and> i_op_start inst < 4294967296 \<and> i_op_count inst < 65536 \<and> i_block inst < nb \<and> i_block inst < 4294967296
     \<and> i_prev inst < 4294967296 \<and> i_next inst < 4294967296"

definition value_storable :: "nat \<Rightarrow> ny_value \<Rightarrow> bool" where
  "value_storable nt v \<longleftrightarrow> v_type v < nt \<and> v_type v < 4294967296 \<and> v_def v < 4294967296 \<and> v_index v < 4294967296
     \<and> str_storable (v_name v)"

definition function_storable :: "nat \<Rightarrow> nat \<Rightarrow> nat \<Rightarrow> ny_function \<Rightarrow> bool" where
  "function_storable nt ng nf fn \<longleftrightarrow> str_storable (f_name fn) \<and> f_return_type fn < nt \<and> f_return_type fn < 4294967296
     \<and> f_call_conv fn < 256 \<and> f_entry fn < 4294967296 \<and> length (f_params fn) \<le> 2 ^ 20 \<and> length (f_blocks fn) \<le> 2 ^ 20
     \<and> length (f_insts fn) \<le> 2 ^ 24 \<and> length (f_values fn) \<le> 2 ^ 24 \<and> length (f_operands fn) \<le> 2 ^ 24
     \<and> list_all (param_storable nt) (f_params fn) \<and> list_all (block_storable (length (f_blocks fn))) (f_blocks fn)
     \<and> list_all (inst_storable (length (f_blocks fn))) (f_insts fn) \<and> list_all (value_storable nt) (f_values fn)
     \<and> list_all (operand_storable (length (f_values fn)) (length (f_blocks fn)) nf ng nt) (f_operands fn)
     \<and> list_all (\<lambda>inst. i_op_start inst + i_op_count inst \<le> length (f_operands fn)) (f_insts fn)"

definition module_storable :: "ny_module \<Rightarrow> bool" where
  "module_storable md \<longleftrightarrow> str_storable (m_name md)
     \<and> take NY_PRIMITIVE_TYPE_COUNT (tt_types (m_types md)) = tt_types ny_type_table_init
     \<and> length (tt_types (m_types md)) \<le> NY_PRIMITIVE_TYPE_COUNT + 2 ^ 20
     \<and> length (m_globals md) \<le> 2 ^ 20 \<and> length (m_functions md) \<le> 2 ^ 20
     \<and> list_all (type_storable (length (tt_types (m_types md)))) (drop NY_PRIMITIVE_TYPE_COUNT (tt_types (m_types md)))
     \<and> list_all (global_storable (length (tt_types (m_types md)))) (m_globals md)
     \<and> list_all (function_storable (length (tt_types (m_types md))) (length (m_globals md)) (length (m_functions md))) (m_functions md)"

text \<open>
  What comes back: ids are positions, source locations are not stored, and a global without initial bytes has size 0.
\<close>

definition stored_size :: "ny_global \<Rightarrow> nat" where
  "stored_size g = (if g_init_bytes g \<noteq> None then g_init_size g else 0)"

definition back_global :: "nat \<Rightarrow> ny_global \<Rightarrow> ny_global" where
  "back_global i g = g\<lparr>g_id := i, g_init_bytes := (if stored_size g > 0 then g_init_bytes g else None), g_init_size := stored_size g\<rparr>"

definition back_function :: "nat \<Rightarrow> ny_function \<Rightarrow> ny_function" where
  "back_function i fn = fn\<lparr>f_id := i, f_locs := None,
     f_blocks := map2 (\<lambda>k b. b\<lparr>b_id := k\<rparr>) [0..<length (f_blocks fn)] (f_blocks fn),
     f_insts := map2 (\<lambda>k x. x\<lparr>i_id := k\<rparr>) [0..<length (f_insts fn)] (f_insts fn),
     f_values := map2 (\<lambda>k v. v\<lparr>v_id := k\<rparr>) [0..<length (f_values fn)] (f_values fn)\<rparr>"

subsection \<open>Encodings\<close>

definition enc_ids :: "nat list \<Rightarrow> 8 word list" where
  "enc_ids vs = concat (map enc_u32 vs)"

definition enc_type :: "ny_type \<Rightarrow> 8 word list" where
  "enc_type t = enc_u8 (type_kind_num (ty_kind t)) @ enc_u32 (ty_size t) @ enc_u32 (ty_align t) @ enc_u32 (ty_elem_type t)
     @ enc_u16 (ty_vector_lanes t) @ enc_u32 (ty_array_count t) @ enc_u32 (length (ty_field_types t)) @ enc_str (ty_name t)
     @ enc_ids (ty_field_types t) @ enc_ids (ty_field_offsets t)"

definition enc_global :: "ny_global \<Rightarrow> 8 word list" where
  "enc_global g = enc_str (g_name g) @ enc_u32 (g_type g) @ enc_u8 (global_kind_num (g_kind g)) @ enc_u32 (g_align g)
     @ enc_u32 (stored_size g) @ (if stored_size g > 0 then the (g_init_bytes g) else [])"

definition enc_operand :: "ny_operand \<Rightarrow> 8 word list" where
  "enc_operand op = enc_u8 (operand_kind_num op) @ (case op of
       OpValue v \<Rightarrow> enc_u32 v | OpBlock b \<Rightarrow> enc_u32 b | OpInt i \<Rightarrow> enc_u64 i | OpFloat bits \<Rightarrow> enc_u64 bits
     | OpFunction f \<Rightarrow> enc_u32 f | OpSymbol s \<Rightarrow> enc_u32 s | OpGlobal g \<Rightarrow> enc_u32 g | OpType t \<Rightarrow> enc_u32 t | OpNone \<Rightarrow> [])"

definition enc_param :: "nat \<times> string \<Rightarrow> 8 word list" where
  "enc_param p = enc_u32 (fst p) @ enc_str (snd p)"

definition enc_block :: "ny_block \<Rightarrow> 8 word list" where
  "enc_block blk = enc_str (b_name blk) @ enc_u32 (b_first blk) @ enc_u32 (b_last blk) @ enc_u32 (b_inst_count blk)
     @ enc_u32 (length (b_preds blk)) @ enc_ids (b_preds blk) @ enc_u32 (length (b_succs blk)) @ enc_ids (b_succs blk)"

definition enc_inst :: "ny_instruction \<Rightarrow> 8 word list" where
  "enc_inst inst = enc_u16 (opcode_num (i_opcode inst)) @ enc_u16 (i_flags inst) @ enc_u32 (i_result inst)
     @ enc_u32 (i_op_start inst) @ enc_u16 (i_op_count inst) @ enc_u32 (i_block inst) @ enc_u32 (i_prev inst) @ enc_u32 (i_next inst)"

definition enc_value :: "ny_value \<Rightarrow> 8 word list" where
  "enc_value v = enc_u32 (v_type v) @ enc_u8 (value_kind_num (v_kind v)) @ enc_u32 (v_def v) @ enc_u32 (v_index v) @ enc_str (v_name v)"

lemmas storable_defs = str_storable_def type_storable_def global_storable_def operand_storable_def param_storable_def
  block_storable_def inst_storable_def value_storable_def

lemma opt_str: "(case if s = [] then None else Some s of None \<Rightarrow> [] | Some s \<Rightarrow> s) = s"
  by simp

lemma reject_simps [simp]: "reject_if False = Some ()" "reject_if True = None"
  by (simp_all add: reject_if_def)

lemma write_ids [enc_appends]: "foldl writer_u32 w vs = w @ enc_ids vs"
  by (induction vs arbitrary: w) (simp_all add: enc_ids_def enc_appends)

lemma read_ids [enc_reads]:
  "list_all (\<lambda>v. v < 4294967296) vs \<Longrightarrow> n = length vs \<Longrightarrow> read_items (\<lambda>_. reader_u32) n i (enc_ids vs @ r) = Some (vs, r)"
  "list_all (\<lambda>v. v < m \<and> v < 4294967296) vs \<Longrightarrow> n = length vs \<Longrightarrow> read_items (read_below m) n i (enc_ids vs @ r) = Some (vs, r)"
  unfolding enc_ids_def by (simp_all add: u32_array.reads_all id_array.reads_all map2_snd)

lemma kind_nums: "type_kind_num k < 256" "type_kind_of_num (type_kind_num k) = k" "\<not> type_kind_num k > 4"
  by (cases k; simp)+

lemma length_enc_u64 [simp]: "length (enc_u64 v) = 8" by (simp add: enc_u64_def)

interpretation type_codec: item_codec serialize_type "\<lambda>i. deserialize_type (junk i) n i" enc_type "type_storable n" "\<lambda>_ t. t" for junk n
proof unfold_locales
  fix t w assume t: "type_storable n t"
  then show "serialize_type w t = w @ enc_type t"
    by (simp add: serialize_type_def enc_type_def Let_def enc_appends storable_defs)
next
  fix t i r assume t: "type_storable n t"
  then have "length (ty_field_types t) < 4294967296" by (simp add: storable_defs)
  moreover from t have "reject_if (ty_elem_type t \<noteq> NY_INVALID \<and> n \<le> ty_elem_type t) = Some ()" by (auto simp: storable_defs)
  ultimately show "deserialize_type (junk i) n i (enc_type t @ r) = Some (t, r)"
    using t by (cases t) (simp add: deserialize_type_def enc_type_def enc_reads kind_nums read_str_alloc opt_str storable_defs not_less
        del: type_kind_of_num.simps)
qed

lemma global_kind_num_lt: "global_kind_num k < 256" "\<not> global_kind_num k > 2"
  by (cases k; simp)+

lemma global_kind_back:
  "(if global_kind_num k = 0 then NY_GLOBAL_CONST else if global_kind_num k = 1 then NY_GLOBAL_DATA else NY_GLOBAL_BSS) = k"
  by (cases k) simp_all

lemma stored_size_le: "global_storable n g \<Longrightarrow> stored_size g \<le> 2 ^ 28"
  by (auto simp: storable_defs stored_size_def split: option.splits)

lemma stored_bytes: "global_storable n g \<Longrightarrow> 0 < stored_size g \<Longrightarrow> \<exists>b. g_init_bytes g = Some b \<and> stored_size g = length b"
  by (auto simp: storable_defs stored_size_def split: option.splits if_splits)

interpretation global_codec: item_codec serialize_global "deserialize_global n" enc_global "global_storable n" back_global for n
proof unfold_locales
  fix g w assume g: "global_storable n g"
  have "(if g_init_bytes g \<noteq> None \<and> g_init_size g > 0 then u32 (g_init_size g) else 0) = stored_size g"
    using stored_size_le[OF g] by (auto simp: stored_size_def)
  then show "serialize_global w g = w @ enc_global g"
    using g stored_bytes[OF g] by (auto simp: serialize_global_def enc_global_def Let_def enc_appends storable_defs)
next
  fix g i r assume g: "global_storable n g"
  have s: "stored_size g < 4294967296" "\<not> stored_size g > 2 ^ 28" using stored_size_le[OF g] by simp_all
  show "deserialize_global n i (enc_global g @ r) = Some (back_global i g, r)"
  proof (cases "stored_size g > 0")
    case True
    with stored_bytes[OF g] obtain b where "g_init_bytes g = Some b" "stored_size g = length b" by blast
    then show ?thesis using g s True
      by (simp add: deserialize_global_def enc_global_def enc_reads storable_defs global_kind_num_lt global_kind_back back_global_def)
  next
    case False
    then show ?thesis using g s
      by (simp add: deserialize_global_def enc_global_def enc_reads storable_defs global_kind_num_lt global_kind_back back_global_def)
  qed
qed

lemma float_overwrite: "foldl (\<lambda>w i. w[length pre + i := f i]) (pre @ replicate 8 z) [0..<8] = pre @ map f [0..<8]"
proof -
  have "foldl (\<lambda>w i. w[length pre + i := f i]) (pre @ replicate 8 z) [0..<k] = pre @ map f [0..<k] @ replicate (8 - k) z" if "k \<le> 8" for k
    using that
  proof (induction k)
    case (Suc k)
    then have "replicate (8 - k) z = z # replicate (8 - Suc k) z" by (metis Suc_diff_le Suc_le_eq diff_Suc_Suc replicate_Suc)
    then show ?case using Suc by (simp add: list_update_append)
  qed simp
  from this[of 8] show ?thesis by simp
qed

interpretation operand_codec: item_codec serialize_operand "deserialize_operand nv nb nf ng nt" enc_operand
  "operand_storable nv nb nf ng nt" "\<lambda>_ op. op" for nv nb nf ng nt
proof unfold_locales
  fix op w
  show "serialize_operand w op = w @ enc_operand op"
  proof (cases op)
    case (OpFloat bits)
    have "enc_u64 0 = replicate 8 0" by (simp add: enc_u64_def map_replicate_const)
    then show ?thesis using OpFloat float_overwrite[of "w @ enc_u8 4" "\<lambda>i. ucast (drop_bit (i * 8) bits AND 0xFF)" 0]
      by (simp add: serialize_operand_def enc_operand_def Let_def enc_appends enc_u64_def[of bits] del: upt_rec_numeral)
  qed (simp_all add: serialize_operand_def enc_operand_def enc_appends)
next
  fix op i r assume "operand_storable nv nb nf ng nt op"
  then show "deserialize_operand nv nb nf ng nt i (enc_operand op @ r) = Some (op, r)"
    by (cases op) (simp_all add: deserialize_operand_def enc_operand_def enc_reads storable_defs)
qed

interpretation param_codec: item_codec serialize_param "deserialize_param n" enc_param "param_storable n" "\<lambda>_ p. p" for n
  by unfold_locales (simp_all add: serialize_param_def enc_param_def deserialize_param_def enc_appends enc_reads storable_defs)

interpretation block_codec: item_codec serialize_block "deserialize_block n" enc_block "block_storable n" "\<lambda>i b. b\<lparr>b_id := i\<rparr>" for n
  by unfold_locales (simp_all add: serialize_block_def enc_block_def deserialize_block_def Let_def enc_appends enc_reads storable_defs)

lemma opcode_num_lt: "opc \<noteq> NY_OPCODE_COUNT \<Longrightarrow> opcode_num opc < 83"
  by (cases opc) simp_all

interpretation inst_codec: item_codec serialize_inst "deserialize_inst n" enc_inst "inst_storable n" "\<lambda>i x. x\<lparr>i_id := i\<rparr>" for n
proof unfold_locales
  fix x i r assume x: "inst_storable n x"
  then have "opcode_num (i_opcode x) < 83" by (simp add: storable_defs opcode_num_lt)
  then show "deserialize_inst n i (enc_inst x @ r) = Some (x\<lparr>i_id := i\<rparr>, r)"
    using x by (simp add: enc_inst_def deserialize_inst_def enc_reads storable_defs)
qed (simp add: serialize_inst_def enc_inst_def Let_def enc_appends)

lemma value_kind_num_lt: "value_kind_num k < 256" "\<not> value_kind_num k > 2"
  by (cases k; simp)+

lemma value_kind_back:
  "(if value_kind_num k = 0 then NY_VAL_INSTRUCTION else if value_kind_num k = 1 then NY_VAL_ARGUMENT else NY_VAL_CONSTANT) = k"
  by (cases k) simp_all

interpretation value_codec: item_codec serialize_value "deserialize_value n" enc_value "value_storable n" "\<lambda>i v. v\<lparr>v_id := i\<rparr>" for n
  by unfold_locales (simp_all add: serialize_value_def enc_value_def deserialize_value_def Let_def enc_appends enc_reads
      value_kind_num_lt value_kind_back storable_defs)

subsection \<open>Functions and modules\<close>

definition enc_function :: "ny_function \<Rightarrow> 8 word list" where
  "enc_function fn = enc_str (f_name fn) @ enc_u32 (f_return_type fn) @ enc_u8 (f_call_conv fn)
     @ enc_u8 (if f_is_variadic fn then 1 else 0) @ enc_u32 (f_entry fn)
     @ enc_u32 (length (f_params fn)) @ concat (map enc_param (f_params fn))
     @ enc_u32 (length (f_blocks fn)) @ concat (map enc_block (f_blocks fn))
     @ enc_u32 (length (f_insts fn)) @ concat (map enc_inst (f_insts fn))
     @ enc_u32 (length (f_values fn)) @ concat (map enc_value (f_values fn))
     @ enc_u32 (length (f_operands fn)) @ concat (map enc_operand (f_operands fn))"

lemmas array_reads = param_codec.reads_all block_codec.reads_all inst_codec.reads_all value_codec.reads_all
  operand_codec.reads_all type_codec.reads_all global_codec.reads_all

lemma ranges_back:
  assumes "list_all (\<lambda>x. i_op_start x + i_op_count x \<le> n) xs" "n < 4294967296"
  shows "list_all (range_ok n) (map2 (\<lambda>k x. x\<lparr>i_id := k\<rparr>) [0..<length xs] xs)"
  using assms by (auto simp: list_all_length range_ok_def)

interpretation function_codec: item_codec serialize_function "deserialize_function nt ng nf" enc_function "function_storable nt ng nf"
  back_function for nt ng nf
proof unfold_locales
  fix fn w assume f: "function_storable nt ng nf fn"
  then have parts: "list_all (param_storable nt) (f_params fn)" "list_all (block_storable (length (f_blocks fn))) (f_blocks fn)"
    "list_all (inst_storable (length (f_blocks fn))) (f_insts fn)" "list_all (value_storable nt) (f_values fn)"
    "list_all (operand_storable (length (f_values fn)) (length (f_blocks fn)) nf ng nt) (f_operands fn)"
    by (simp_all add: function_storable_def)
  note writes = param_codec.writes_all[OF parts(1)] block_codec.writes_all[OF parts(2)] inst_codec.writes_all[OF parts(3)]
    value_codec.writes_all[OF parts(4)] operand_codec.writes_all[OF parts(5)]
  show "serialize_function w fn = w @ enc_function fn"
    using f by (simp add: serialize_function_def enc_function_def Let_def enc_appends writes function_storable_def str_storable_def)
next
  fix fn i r assume f: "function_storable nt ng nf fn"
  then have lens: "length (f_params fn) < 4294967296" "length (f_blocks fn) < 4294967296" "length (f_insts fn) < 4294967296"
    "length (f_values fn) < 4294967296" "length (f_operands fn) < 4294967296"
    by (simp_all add: function_storable_def)
  have v: "(if f_is_variadic fn then 1 else 0) < (256 :: nat)" by simp
  have "list_all (range_ok (length (f_operands fn))) (map2 (\<lambda>k x. x\<lparr>i_id := k\<rparr>) [0..<length (f_insts fn)] (f_insts fn))"
    using f lens by (intro ranges_back) (simp_all add: function_storable_def)
  then show "deserialize_function nt ng nf i (enc_function fn @ r) = Some (back_function i fn, r)"
    using f lens by (cases fn) (simp add: deserialize_function_def enc_function_def enc_reads array_reads v map2_snd function_storable_def
        str_storable_def back_function_def)
qed


definition back_module :: "nat \<Rightarrow> ny_module \<Rightarrow> ny_module" where
  "back_module cap md = md\<lparr>m_types := \<lparr>tt_types = tt_types (m_types md), tt_capacity = cap\<rparr>,
     m_globals := map2 back_global [0..<length (m_globals md)] (m_globals md),
     m_functions := map2 back_function [0..<length (m_functions md)] (m_functions md)\<rparr>"

definition enc_module :: "ny_module \<Rightarrow> 8 word list" where
  "enc_module md = [0x4E, 0x59, 0x49, 0x52] @ enc_u16 NYIR_VERSION @ enc_u16 0 @ enc_str (m_name md)
     @ enc_u32 (length (tt_types (m_types md)) - NY_PRIMITIVE_TYPE_COUNT)
     @ concat (map enc_type (drop NY_PRIMITIVE_TYPE_COUNT (tt_types (m_types md))))
     @ enc_u32 (length (m_globals md)) @ concat (map enc_global (m_globals md))
     @ enc_u32 (length (m_functions md)) @ concat (map enc_function (m_functions md))"

lemma primitive_count: "length (tt_types ny_type_table_init) = NY_PRIMITIVE_TYPE_COUNT" "tt_capacity ny_type_table_init = 32"
  by (simp_all add: ny_type_table_init_def g_primitive_types_def)

lemma storable_types:
  assumes "module_storable md"
  shows "10 \<le> length (tt_types (m_types md))" "length (tt_types (m_types md)) < 4294967296"
    "tt_types ny_type_table_init @ drop 10 (tt_types (m_types md)) = tt_types (m_types md)"
    "length (drop 10 (tt_types (m_types md))) = length (tt_types (m_types md)) - 10"
proof -
  have t: "take 10 (tt_types (m_types md)) = tt_types ny_type_table_init" "length (tt_types (m_types md)) \<le> 10 + 2 ^ 20"
    using assms by (simp_all add: module_storable_def)
  have "length (take 10 (tt_types (m_types md))) = 10" unfolding t(1) by (rule primitive_count)
  then show "10 \<le> length (tt_types (m_types md))" by simp
  show "length (tt_types (m_types md)) < 4294967296" using t(2) by simp
  show "tt_types ny_type_table_init @ drop 10 (tt_types (m_types md)) = tt_types (m_types md)"
    unfolding t(1)[symmetric] by simp
qed simp

lemma serialize_enc:
  assumes m: "module_storable md"
  shows "nygen_serialize_nyir md = enc_module md"
proof -
  have lens: "length (m_globals md) < 4294967296" "length (m_functions md) < 4294967296" using m by (simp_all add: module_storable_def)
  have parts: "list_all (type_storable (length (tt_types (m_types md)))) (drop 10 (tt_types (m_types md)))"
    "list_all (global_storable (length (tt_types (m_types md)))) (m_globals md)"
    "list_all (function_storable (length (tt_types (m_types md))) (length (m_globals md)) (length (m_functions md))) (m_functions md)"
    using m by (simp_all add: module_storable_def)
  note writes = type_codec.writes_all[OF parts(1)] global_codec.writes_all[OF parts(2)] function_codec.writes_all[OF parts(3)]
  have c: "(if length (tt_types (m_types md)) > 10 then u32 (length (tt_types (m_types md)) - 10) else 0) = length (tt_types (m_types md)) - 10"
    using storable_types(2)[OF m] by simp
  show ?thesis using m lens
    by (simp add: nygen_serialize_nyir_def serialize_types_def serialize_globals_def serialize_functions_def c writes enc_appends enc_module_def
        Let_def module_storable_def str_storable_def enc_u8_def)
qed

lemma read_enc_types:
  assumes m: "module_storable md"
  shows "\<exists>cap. deserialize_types junk ny_type_table_init (enc_u32 (length (tt_types (m_types md)) - 10)
      @ concat (map enc_type (drop 10 (tt_types (m_types md)))) @ r) = Some (\<lparr>tt_types = tt_types (m_types md), tt_capacity = cap\<rparr>, r)"
proof -
  let ?n = "length (tt_types (m_types md))"
  have le: "?n \<le> 10 + 2 ^ 20" using m by (simp add: module_storable_def)
  obtain k where k: "?n = 10 + k" using storable_types(1)[OF m] le_Suc_ex by blast
  then have n: "k < 4294967296" "\<not> k > 2 ^ 20" using le by simp_all
  have parts: "list_all (type_storable (10 + k)) (drop 10 (tt_types (m_types md)))" using m k by (simp add: module_storable_def)
  have "9 + k < 9223372036854775808" using n by simp
  then obtain cap where cap: "(if 22 < k then grow_cap (9 + k) 64 else Some 32) = Some cap"
    using grow_cap_total[of 64 "9 + k"] by fastforce
  have len: "length (drop 10 (tt_types (m_types md))) = k" using k by simp
  note types = type_codec.reads_all[OF parts, of junk 0 r, unfolded len]
  show ?thesis
    using n cap primitive_count storable_types(3)[OF m] types
    by (simp add: k deserialize_types_def enc_reads map2_snd Let_def split: if_splits)
qed

lemma read_back:
  assumes m: "module_storable md"
  shows "\<exists>cap. nyir_read junk (enc_module md) = Some (back_module cap md)"
proof -
  have lens: "length (m_globals md) < 4294967296" "length (m_functions md) < 4294967296" "length (m_globals md) \<le> 2 ^ 20"
    "length (m_functions md) \<le> 2 ^ 20" "length (m_name md) < 4294967296"
    using m by (simp_all add: module_storable_def str_storable_def)
  have parts: "list_all (global_storable (length (tt_types (m_types md)))) (m_globals md)"
    "list_all (function_storable (length (tt_types (m_types md))) (length (m_globals md)) (length (m_functions md))) (m_functions md)"
    using m by (simp_all add: module_storable_def)
  note reads = global_codec.reads_all[OF parts(1)] function_codec.reads_all[OF parts(2), where r = "[]", simplified]
  obtain cap where t: "deserialize_types junk ny_type_table_init (enc_u32 (length (tt_types (m_types md)) - 10)
      @ concat (map enc_type (drop 10 (tt_types (m_types md))))
      @ enc_u32 (length (m_globals md)) @ concat (map enc_global (m_globals md))
      @ enc_u32 (length (m_functions md)) @ concat (map enc_function (m_functions md)))
    = Some (\<lparr>tt_types = tt_types (m_types md), tt_capacity = cap\<rparr>, enc_u32 (length (m_globals md)) @ concat (map enc_global (m_globals md))
      @ enc_u32 (length (m_functions md)) @ concat (map enc_function (m_functions md)))"
    using read_enc_types[OF m] by blast
  have head: "\<not> length (enc_module md) < 12" "drop 4 (enc_module md) = enc_u16 NYIR_VERSION @ enc_u16 0 @ enc_str (m_name md)
     @ enc_u32 (length (tt_types (m_types md)) - 10) @ concat (map enc_type (drop 10 (tt_types (m_types md))))
     @ enc_u32 (length (m_globals md)) @ concat (map enc_global (m_globals md))
     @ enc_u32 (length (m_functions md)) @ concat (map enc_function (m_functions md))"
    by (simp_all add: enc_module_def enc_u16_def enc_str_def enc_u32_def)
  have magic: "enc_module md ! 0 = 0x4E" "enc_module md ! 1 = 0x59" "enc_module md ! 2 = 0x49" "enc_module md ! 3 = 0x52"
    by (simp_all add: enc_module_def)
  have rec: "\<lparr>m_name = m_name md, m_types = T, m_functions = F, m_globals = G\<rparr> = md\<lparr>m_types := T, m_globals := G, m_functions := F\<rparr>"
    for T F G by (cases md) simp
  have "nyir_read junk (enc_module md) = Some (back_module cap md)"
    unfolding nyir_read_def head magic using lens storable_types(2)[OF m]
    by (simp add: head magic enc_reads NYIR_VERSION_def ny_module_init_def t reads deserialize_globals_def deserialize_functions_def
        back_module_def rec)
  then show ?thesis ..
qed


definition sample_module :: ny_module where
  "sample_module = \<lparr>m_name = ''demo'',
     m_types = ny_type_table_init\<lparr>tt_types := tt_types ny_type_table_init @
       [\<lparr>ty_kind = NY_TYPE_KIND_STRUCT, ty_size = 8, ty_align = 4, ty_elem_type = NY_INVALID, ty_vector_lanes = 0, ty_array_count = 0,
         ty_field_types = [1, 3], ty_field_offsets = [0, 4], ty_name = ''Pair''\<rparr>]\<rparr>,
     m_functions = [sample_fn],
     m_globals = [\<lparr>g_id = 0, g_name = ''buf'', g_type = 10, g_kind = NY_GLOBAL_BSS, g_align = 4, g_init_bytes = None, g_init_size = 8\<rparr>,
       \<lparr>g_id = 1, g_name = ''k'', g_type = 1, g_kind = NY_GLOBAL_CONST, g_align = 1, g_init_bytes = Some [7], g_init_size = 1\<rparr>]\<rparr>"

lemma sample_module_storable: "module_storable sample_module"
  by (simp add: module_storable_def sample_module_def storable_defs function_storable_def primitive_count NY_INVALID_def
      sample_fn_def mk_inst_def ny_function_init_def)

subsection \<open>What the reader accepts\<close>

text \<open>A counted loop establishes for every element what its body checks for one.\<close>

locale checked_reader =
  fixes R :: "nat \<Rightarrow> 8 word list \<Rightarrow> ('a \<times> 8 word list) option" and P :: "nat \<Rightarrow> 'a \<Rightarrow> bool"
  assumes checked: "R i r = Some (x, r') \<Longrightarrow> P i x"
begin

lemma all_checked: "read_items R n i r = Some (xs, r') \<Longrightarrow> length xs = n \<and> (\<forall>j < n. P (i + j) (xs ! j))"
proof (induction n arbitrary: i r xs)
  case (Suc n)
  then obtain x r1 ys where x: "R i r = Some (x, r1)" "read_items R n (Suc i) r1 = Some (ys, r')" "xs = x # ys"
    by (auto simp: bind_Some_iff)
  from Suc.IH[OF x(2)] checked[OF x(1)] x(3) show ?case by (auto simp: less_Suc_eq_0_disj)
qed simp

end

lemma reject_Some [simp]: "reject_if b = Some u \<longleftrightarrow> \<not> b"
  by (simp add: reject_if_def)

interpretation checked_ids: checked_reader "read_below n" "\<lambda>_ v. v < n" for n
  by unfold_locales (auto simp: read_below_def bind_Some_iff)

definition block_in_range :: "nat \<Rightarrow> nat \<Rightarrow> ny_block \<Rightarrow> bool" where
  "block_in_range n i blk \<longleftrightarrow> b_id blk = i \<and> set (b_preds blk) \<subseteq> {..<n} \<and> set (b_succs blk) \<subseteq> {..<n}"

definition operand_in_range :: "nat \<Rightarrow> nat \<Rightarrow> nat \<Rightarrow> nat \<Rightarrow> nat \<Rightarrow> ny_operand \<Rightarrow> bool" where
  "operand_in_range nv nb nf ng nt op \<longleftrightarrow> (case op of
       OpValue v \<Rightarrow> v < nv | OpBlock b \<Rightarrow> b < nb | OpFunction f \<Rightarrow> f < nf | OpGlobal g \<Rightarrow> g < ng | OpType t \<Rightarrow> t < nt | _ \<Rightarrow> True)"

interpretation checked_blocks: checked_reader "deserialize_block n" "block_in_range n" for n
  by unfold_locales (auto simp: deserialize_block_def bind_Some_iff block_in_range_def in_set_conv_nth dest!: checked_ids.all_checked)

interpretation checked_insts: checked_reader "deserialize_inst n" "\<lambda>i x. i_id x = i \<and> i_block x < n" for n
  by unfold_locales (auto simp: deserialize_inst_def bind_Some_iff)

interpretation checked_values: checked_reader "deserialize_value n" "\<lambda>i v. v_id v = i \<and> v_type v < n" for n
  by unfold_locales (auto simp: deserialize_value_def bind_Some_iff)

interpretation checked_params: checked_reader "deserialize_param n" "\<lambda>_ p. fst p < n" for n
  by unfold_locales (auto simp: deserialize_param_def bind_Some_iff)

interpretation checked_operands: checked_reader "deserialize_operand nv nb nf ng nt" "\<lambda>_ op. operand_in_range nv nb nf ng nt op" for nv nb nf ng nt
  by unfold_locales (auto simp: deserialize_operand_def bind_Some_iff operand_in_range_def split: if_splits)


definition function_in_range :: "nat \<Rightarrow> nat \<Rightarrow> nat \<Rightarrow> nat \<Rightarrow> ny_function \<Rightarrow> bool" where
  "function_in_range nt ng nf i fn \<longleftrightarrow> f_id fn = i \<and> f_return_type fn < nt \<and> (\<forall>j < length (f_params fn). fst (f_params fn ! j) < nt)
     \<and> (\<forall>j < length (f_blocks fn). block_in_range (length (f_blocks fn)) j (f_blocks fn ! j))
     \<and> (\<forall>j < length (f_insts fn). i_id (f_insts fn ! j) = j \<and> i_block (f_insts fn ! j) < length (f_blocks fn))
     \<and> (\<forall>j < length (f_values fn). v_id (f_values fn ! j) = j \<and> v_type (f_values fn ! j) < nt)
     \<and> (\<forall>j < length (f_operands fn). operand_in_range (length (f_values fn)) (length (f_blocks fn)) nf ng nt (f_operands fn ! j))
     \<and> list_all (range_ok (length (f_operands fn))) (f_insts fn)"

interpretation checked_functions: checked_reader "deserialize_function nt ng nf" "function_in_range nt ng nf" for nt ng nf
proof unfold_locales
  fix i r fn r' assume "deserialize_function nt ng nf i r = Some (fn, r')"
  then show "function_in_range nt ng nf i fn"
    by (auto simp: deserialize_function_def bind_Some_iff function_in_range_def
        dest!: checked_params.all_checked checked_blocks.all_checked checked_insts.all_checked checked_values.all_checked
          checked_operands.all_checked)
qed

interpretation checked_globals: checked_reader "deserialize_global n" "\<lambda>i g. g_id g = i \<and> g_type g < n" for n
  by unfold_locales (auto simp: deserialize_global_def bind_Some_iff)

definition type_in_range :: "nat \<Rightarrow> ny_type \<Rightarrow> bool" where
  "type_in_range n t \<longleftrightarrow> (ty_elem_type t = NY_INVALID_TYPE \<or> ty_elem_type t < n) \<and> set (ty_field_types t) \<subseteq> {..<n}
     \<and> length (ty_field_offsets t) = length (ty_field_types t)"

interpretation checked_u32: checked_reader "\<lambda>_. reader_u32" "\<lambda>_ _. True"
  by unfold_locales simp

lemma let_triple: "(let (a, b, c) = p in f a b c) = f (fst p) (fst (snd p)) (snd (snd p))"
  by (cases p) simp

interpretation checked_types: checked_reader "\<lambda>i. deserialize_type (junk i) n i" "\<lambda>_ t. type_in_range n t" for junk n
  by unfold_locales (auto simp: deserialize_type_def bind_Some_iff type_in_range_def in_set_conv_nth let_triple
      dest!: checked_ids.all_checked checked_u32.all_checked)

definition module_in_range :: "ny_module \<Rightarrow> bool" where
  "module_in_range md \<longleftrightarrow> (let nt = length (tt_types (m_types md)); ng = length (m_globals md); nf = length (m_functions md) in
     (\<forall>t \<in> set (drop NY_PRIMITIVE_TYPE_COUNT (tt_types (m_types md))). type_in_range nt t)
     \<and> (\<forall>j < ng. g_id (m_globals md ! j) = j \<and> g_type (m_globals md ! j) < nt)
     \<and> (\<forall>j < nf. function_in_range nt ng nf j (m_functions md ! j)))"

lemma types_read:
  assumes "deserialize_types junk ny_type_table_init r = Some (tt, r')"
  shows "\<forall>t \<in> set (drop 10 (tt_types tt)). type_in_range (length (tt_types tt)) t" "length (tt_types tt) < 4294967296"
  using assms primitive_count
  by (auto simp: deserialize_types_def bind_Some_iff Let_def in_set_conv_nth nth_append dest!: checked_types.all_checked)

lemma read_in_range:
  assumes "nyir_read junk data = Some md"
  shows "module_in_range md"
proof -
  obtain types r globals r1 fns r2 r0 where t: "deserialize_types junk ny_type_table_init r0 = Some (types, r)"
    and g: "deserialize_globals (length (tt_types types)) r = Some (globals, r1)"
    and f: "deserialize_functions (length (tt_types types)) (length globals) r1 = Some (fns, r2)"
    and md: "m_types md = types" "m_globals md = globals" "m_functions md = fns"
    using assms by (auto simp: nyir_read_def ny_module_init_def bind_Some_iff)
  note types = types_read[OF t]
  have g': "length globals < 4294967296 \<and> (\<forall>j < length globals. g_id (globals ! j) = j \<and> g_type (globals ! j) < length (tt_types types))"
    using g by (auto simp: deserialize_globals_def bind_Some_iff dest!: checked_globals.all_checked)
  moreover have "\<forall>j < length fns. function_in_range (length (tt_types types)) (length globals) (length fns) j (fns ! j)"
    using f types(2) g' by (auto simp: deserialize_functions_def bind_Some_iff dest!: checked_functions.all_checked)
  ultimately show ?thesis using types(1) by (simp add: module_in_range_def md Let_def)
qed

text \<open>
  C17. Whatever bytes it is given, the reader only accepts modules whose cross references are in range: ids are
  positions, and every type, block, function, global and value that a type, global, block, instruction, parameter, value
  or operand names exists. (Entry blocks, instruction links and results are not checked, and operand slices only modulo 2^32.)
\<close>

theorem nyir_read_in_range:
  assumes "nyir_read junk data = Some md"
  shows "module_in_range md"
  using assms by (rule read_in_range)

lemma nyir_read_in_range_witness: "\<exists>cap. module_in_range (back_module cap sample_module)"
  using read_back[OF sample_module_storable, of "\<lambda>_. 0"] nyir_read_in_range by blast

text \<open>
  C19. The reader's test of an operand slice is a 32-bit sum: an instruction whose slice starts at the largest id and has
  one operand passes it, while \<^verbatim>\<open>ny_function_get_operands\<close> refuses the slice of every function read, so that code
  that indexes the operands dereferences a null pointer.
\<close>

theorem nyir_operand_range_wraps:
  assumes "i_op_start inst = 4294967295" and "i_op_count inst = 1" and "length (f_operands fn) \<le> 2 ^ 24"
  shows "range_ok (length (f_operands fn)) inst \<and> ny_function_get_operands fn inst = None"
  using assms by (simp add: range_ok_def u32_def ny_function_get_operands_def)

lemma nyir_operand_range_wraps_witness:
  "range_ok (length (f_operands sample_fn)) (mk_inst 0 NY_OPCODE_RETURN 0 4294967295 1 0 0 0)
   \<and> ny_function_get_operands sample_fn (mk_inst 0 NY_OPCODE_RETURN 0 4294967295 1 0 0 0) = None"
  by (rule nyir_operand_range_wraps) (simp_all add: mk_inst_def sample_ops)

text \<open>
  A file whose only type has a name of 100 bytes but that ends 8 bytes after the length of the name.
\<close>

definition cut_name_file :: "8 word list" where
  "cut_name_file = [0x4E, 0x59, 0x49, 0x52, 1, 0, 0, 0,  0, 0, 0, 0,  1, 0, 0, 0,
     0,  4, 0, 0, 0,  4, 0, 0, 0,  255, 255, 255, 255,  0, 0,  0, 0, 0, 0,  0, 0, 0, 0,  100, 0, 0, 0,  0, 0, 0, 0,  0, 0, 0, 0]"

text \<open>
  The reader's treatment of a truncated type name depends on an uninitialised variable: when it happens to hold 0,
  this file is accepted; when it holds 1, it is rejected.
\<close>

lemma nyir_truncated_name_accepted:
  "nyir_read (\<lambda>_. 0) cut_name_file \<noteq> None \<and> nyir_read (\<lambda>_. 1) cut_name_file = None"
  by (simp add: nyir_read_def cut_name_file_def reader_u16_def reader_u32_def reader_u8_def reader_bytes_def reader_str_arena_def
      NYIR_VERSION_def ny_module_init_def deserialize_types_def deserialize_type_def reader_str_alloc_def primitive_count
      deserialize_globals_def deserialize_functions_def NY_INVALID_def Let_def)

end
