(* ===== verification/Dom_Tree.thy ===== *)
theory Dom_Tree
  imports Main
begin

text \<open>
  Dominators as the iteration of \<^verbatim>\<open>src/analysis/dominator.c\<close> computes them: an array \<open>A\<close> of parents over blocks numbered
  \<open>r\<close> in reverse post-order, improved by sweeps.  The chain of a block (\<open>up\<close>) stands for its set of dominators; one array
  holds all chains, so that moving a block moves the chains of everything below it.  The locale collects what the depth-first
  search provides: the entry is first, and every other block has a predecessor with a smaller number.
\<close>

locale rpo_graph =
  fixes R :: "nat set" and e :: nat and P :: "nat \<Rightarrow> nat set" and r :: "nat \<Rightarrow> nat"
  assumes eR: "e \<in> R" and PR: "b \<in> R \<Longrightarrow> P b \<subseteq> R" and inj: "inj_on r R" and r0: "r e = 0"
    and fwd: "b \<in> R \<Longrightarrow> b \<noteq> e \<Longrightarrow> \<exists>p \<in> P b. r p < r b"
begin

subsection \<open>Chains\<close>

inductive up :: "(nat \<Rightarrow> nat) \<Rightarrow> nat \<Rightarrow> nat \<Rightarrow> bool" for A where
  here: "up A b b"
| step: "b \<noteq> e \<Longrightarrow> up A (A b) a \<Longrightarrow> up A b a"

definition tree :: "(nat \<Rightarrow> nat) \<Rightarrow> nat set \<Rightarrow> bool" where
  "tree A Q \<longleftrightarrow> Q \<subseteq> R \<and> e \<in> Q \<and> (\<forall>b \<in> Q. b \<noteq> e \<longrightarrow> A b \<in> Q \<and> r (A b) < r b)"

lemma up_trans: "up A b c \<Longrightarrow> up A c a \<Longrightarrow> up A b a"
  by (induction rule: up.induct) (auto intro: up.intros)

lemma up_cases: "up A b a \<longleftrightarrow> a = b \<or> b \<noteq> e \<and> up A (A b) a"
  by (auto intro: up.intros elim: up.cases)

lemma up_e [simp]: "up A e a \<longleftrightarrow> a = e"
  by (subst up_cases) auto

lemma rank_pos: "b \<in> R \<Longrightarrow> b \<noteq> e \<Longrightarrow> 0 < r b"
  using fwd[of b] by auto

lemma rank_eq: "a \<in> R \<Longrightarrow> b \<in> R \<Longrightarrow> r a = r b \<Longrightarrow> a = b"
  using inj by (auto dest: inj_onD)

lemma tree_up:
  assumes t: "tree A Q"
  shows "up A b a \<Longrightarrow> b \<in> Q \<Longrightarrow> a \<in> Q \<and> r a \<le> r b \<and> (a \<noteq> b \<longrightarrow> r a < r b)"
proof (induction rule: up.induct)
  case (step b a)
  then have "A b \<in> Q" "r (A b) < r b" using t by (auto simp: tree_def)
  then show ?case using step by auto
qed simp

lemma up_entry:
  assumes t: "tree A Q"
  shows "b \<in> Q \<Longrightarrow> up A b e"
proof (induction "r b" arbitrary: b rule: less_induct)
  case less
  show ?case
  proof (cases "b = e")
    case False
    then have "A b \<in> Q" "r (A b) < r b" using t less.prems by (auto simp: tree_def)
    then show ?thesis using less.hyps False by (auto intro: up.step)
  qed simp
qed

lemma up_linear:
  assumes t: "tree A Q"
  shows "up A b a \<Longrightarrow> b \<in> Q \<Longrightarrow> up A b c \<Longrightarrow> r a \<le> r c \<Longrightarrow> up A c a"
proof (induction rule: up.induct)
  case (here b)
  then have "c \<in> Q \<and> r c \<le> r b \<and> (c \<noteq> b \<longrightarrow> r c < r b)" using tree_up[OF t] by blast
  then show ?case using here by (auto intro: up.here)
next
  case (step b a)
  have "A b \<in> Q" using t step by (auto simp: tree_def)
  show ?case
  proof (cases "c = b")
    case True
    then show ?thesis using step by (auto intro: up.step)
  next
    case False
    then have "up A (A b) c" using step.prems(2) by (subst (asm) up_cases) auto
    then show ?thesis using step.IH \<open>A b \<in> Q\<close> step.prems(3) by blast
  qed
qed

text \<open>Chains depend on the parents of the blocks along them only.\<close>

lemma up_agree:
  assumes t: "tree A Q" and same: "\<And>x. x \<in> Q \<Longrightarrow> x \<noteq> e \<Longrightarrow> r x \<le> m \<Longrightarrow> B x = A x"
  shows "b \<in> Q \<Longrightarrow> r b \<le> m \<Longrightarrow> up B b a \<longleftrightarrow> up A b a"
proof (induction "r b" arbitrary: b rule: less_induct)
  case less
  show ?case
  proof (cases "b = e")
    case False
    then have "A b \<in> Q" "r (A b) < r b" "B b = A b" using t less.prems same by (auto simp: tree_def)
    then show ?thesis using less.hyps[of "A b"] less.prems by (subst (1 2) up_cases) auto
  qed simp
qed

lemma up_above:
  assumes t: "tree A Q" and same: "\<And>x. x \<in> Q \<Longrightarrow> x \<noteq> e \<Longrightarrow> r a < r x \<Longrightarrow> B x = A x"
  shows "up A b a \<Longrightarrow> b \<in> Q \<Longrightarrow> up B b a"
proof (induction "r b" arbitrary: b rule: less_induct)
  case less
  show ?case
  proof (cases "a = b")
    case False
    then have n: "b \<noteq> e" "up A (A b) a" "r a < r b" using less.prems tree_up[OF t less.prems] up_cases[of A b a] by auto
    have "A b \<in> Q" "r (A b) < r b" using t less.prems n by (auto simp: tree_def)
    then have "up B (A b) a" using less.hyps n by blast
    then show ?thesis using same[OF less.prems(2) n(1,3)] n(1) by (auto intro: up.step)
  qed (simp add: up.here)
qed

subsection \<open>Dominance\<close>

inductive avoid :: "nat \<Rightarrow> nat \<Rightarrow> bool" for a where
  start: "e \<noteq> a \<Longrightarrow> avoid a e"
| move: "avoid a p \<Longrightarrow> p \<in> P b \<Longrightarrow> b \<in> R \<Longrightarrow> b \<noteq> a \<Longrightarrow> avoid a b"

text \<open>\<open>a\<close> dominates \<open>b\<close>: no path from the entry to \<open>b\<close> avoids \<open>a\<close>.\<close>

definition dom :: "nat \<Rightarrow> nat \<Rightarrow> bool" where
  "dom a b \<longleftrightarrow> \<not> avoid a b"

lemma dom_pred: "dom a b \<Longrightarrow> a \<noteq> b \<Longrightarrow> p \<in> P b \<Longrightarrow> b \<in> R \<Longrightarrow> dom a p"
  unfolding dom_def by (metis avoid.move)

lemma dom_rank: "b \<in> R \<Longrightarrow> dom a b \<Longrightarrow> r a \<le> r b \<and> (a \<noteq> b \<longrightarrow> r a < r b)"
proof (induction "r b" arbitrary: b rule: less_induct)
  case less
  show ?case
  proof (cases "a = b")
    case False
    have "b \<noteq> e" using less.prems(2) False by (auto simp: dom_def intro: avoid.start)
    then obtain p where p: "p \<in> P b" "r p < r b" using fwd less.prems(1) by blast
    have "dom a p" by (rule dom_pred[OF less.prems(2) False p(1) less.prems(1)])
    then have "r a \<le> r p" using less.hyps[OF p(2)] p(1) PR[OF less.prems(1)] by auto
    then show ?thesis using p(2) by simp
  qed simp
qed

definition below :: "(nat \<Rightarrow> nat) \<Rightarrow> nat set \<Rightarrow> bool" where
  "below A Q \<longleftrightarrow> (\<forall>b \<in> Q. b \<noteq> e \<longrightarrow> (\<forall>a. dom a b \<longrightarrow> a \<noteq> b \<longrightarrow> dom a (A b)))"

lemma below_up:
  assumes t: "tree A Q" and bl: "below A Q"
  shows "b \<in> Q \<Longrightarrow> dom a b \<Longrightarrow> up A b a"
proof (induction "r b" arbitrary: b rule: less_induct)
  case less
  show ?case
  proof (cases "a = b")
    case False
    have ne: "b \<noteq> e" using less.prems(2) False by (auto simp: dom_def intro: avoid.start)
    then have "A b \<in> Q" "r (A b) < r b" using t less.prems by (auto simp: tree_def)
    moreover have "dom a (A b)" using bl less.prems ne False by (auto simp: below_def)
    ultimately show ?thesis using less.hyps ne by (auto intro: up.step)
  qed (simp add: up.here)
qed

text \<open>One step of the walk that finds the common ancestor: the lower of the two blocks moves up.\<close>

lemma walk_step:
  assumes t: "tree A Q" and x: "x \<in> Q" and y: "y \<in> Q" and lt: "r y < r x"
  shows "A x \<in> Q" "r (A x) < r x" "up A x a \<and> up A y a \<longleftrightarrow> up A (A x) a \<and> up A y a"
    "below A Q \<Longrightarrow> dom a x \<Longrightarrow> dom a y \<Longrightarrow> dom a (A x)"
proof -
  have xe: "x \<noteq> e" using lt r0 by auto
  then show "A x \<in> Q" "r (A x) < r x" using t x by (auto simp: tree_def)
  have "\<not> up A y x" using tree_up[OF t _ y, of x] lt by auto
  then show "up A x a \<and> up A y a \<longleftrightarrow> up A (A x) a \<and> up A y a" using xe by (subst up_cases) auto
  assume b: "below A Q" "dom a x" "dom a y"
  have "y \<in> R" using t y by (auto simp: tree_def)
  then have "a \<noteq> x" using dom_rank[OF _ b(3)] lt by auto
  then show "dom a (A x)" using b x xe by (auto simp: below_def)
qed

subsection \<open>One sweep\<close>

text \<open>\<open>N\<close> is what the step for block \<open>b\<close> finds when the blocks in \<open>Q\<close> have parents in \<open>A\<close>.\<close>

definition computed :: "(nat \<Rightarrow> nat) \<Rightarrow> nat set \<Rightarrow> nat \<Rightarrow> nat \<Rightarrow> bool" where
  "computed A Q b N \<longleftrightarrow> N \<in> Q \<and> (\<forall>a. up A N a \<longleftrightarrow> (\<forall>p \<in> P b \<inter> Q. up A p a)) \<and> (\<forall>a. (\<forall>p \<in> P b \<inter> Q. dom a p) \<longrightarrow> dom a N)"

lemma computed_rank:
  assumes t: "tree A Q" and c: "computed A Q b N" and b: "b \<in> R" "b \<noteq> e" and low: "\<And>x. x \<in> R \<Longrightarrow> r x < r b \<Longrightarrow> x \<in> Q"
  shows "N \<in> Q" "r N < r b" "p \<in> P b \<Longrightarrow> p \<in> Q \<Longrightarrow> up A p N"
proof -
  show N: "N \<in> Q" using c by (simp add: computed_def)
  have all: "\<forall>p \<in> P b \<inter> Q. up A p N" using c up.here[of A N] unfolding computed_def by blast
  then show "p \<in> P b \<Longrightarrow> p \<in> Q \<Longrightarrow> up A p N" by blast
  obtain p where p: "p \<in> P b" "r p < r b" using fwd b by blast
  then have "p \<in> Q" using low PR[OF b(1)] by blast
  then have "r N \<le> r p" using tree_up[OF t, of p N] all p by blast
  then show "r N < r b" using p(2) by simp
qed

definition mix :: "(nat \<Rightarrow> nat) \<Rightarrow> (nat \<Rightarrow> nat) \<Rightarrow> nat \<Rightarrow> nat \<Rightarrow> nat" where
  "mix O' C j x = (if r x < j then C x else O' x)"

text \<open>The array during a sweep: \<open>O'\<close> before it, \<open>C\<close> now, with the blocks numbered below \<open>i\<close> done.\<close>

definition swept :: "(nat \<Rightarrow> nat) \<Rightarrow> (nat \<Rightarrow> nat) \<Rightarrow> nat \<Rightarrow> bool" where
  "swept O' C i \<longleftrightarrow> (\<forall>b \<in> R. b \<noteq> e \<longrightarrow> i \<le> r b \<longrightarrow> C b = O' b) \<and> (\<forall>b \<in> R. b \<noteq> e \<longrightarrow> r b < i \<longrightarrow> computed (mix O' C (r b)) R b (C b))"

text \<open>What holds between sweeps: the parent of a block is an ancestor of each predecessor with a smaller number, and a
  common ancestor of all predecessors is an ancestor of the block.\<close>

definition settled :: "(nat \<Rightarrow> nat) \<Rightarrow> bool" where
  "settled A \<longleftrightarrow> tree A R \<and> below A R
     \<and> (\<forall>b \<in> R. b \<noteq> e \<longrightarrow> (\<forall>p \<in> P b. r p < r b \<longrightarrow> up A p (A b)))
     \<and> (\<forall>b \<in> R. b \<noteq> e \<longrightarrow> (\<forall>a. (\<forall>p \<in> P b. up A p a) \<longrightarrow> up A (A b) a))"

lemma mix_tree:
  assumes o: "tree O' R" "below O' R" and sw: "swept O' C i"
  shows "j \<le> i \<Longrightarrow> tree (mix O' C j) R \<and> below (mix O' C j) R"
proof (induction j)
  case 0
  then show ?case using o by (simp add: tree_def below_def mix_def)
next
  case (Suc j)
  then have IH: "tree (mix O' C j) R" "below (mix O' C j) R" by simp_all
  have new: "C b \<in> R \<and> r (C b) < r b \<and> (\<forall>a. dom a b \<longrightarrow> a \<noteq> b \<longrightarrow> dom a (C b))" if b: "b \<in> R" "b \<noteq> e" "r b = j" for b
  proof -
    have c: "computed (mix O' C j) R b (C b)" using sw b Suc.prems by (auto simp: swept_def)
    have "dom a (C b)" if "dom a b" "a \<noteq> b" for a
    proof -
      have "\<forall>p \<in> P b \<inter> R. dom a p" using dom_pred[OF that] b(1) by blast
      then show ?thesis using c unfolding computed_def by blast
    qed
    then show ?thesis using computed_rank(1,2)[OF IH(1) c b(1,2)] by blast
  qed
  have cases: "mix O' C (Suc j) b = (if r b = j then C b else mix O' C j b)" for b by (simp add: mix_def less_Suc_eq)
  show ?case using IH new unfolding tree_def below_def cases by simp
qed

lemma mix_shrinks:
  assumes o: "settled O'" and sw: "swept O' C i"
  shows "j \<le> i \<Longrightarrow> b \<in> R \<Longrightarrow> up (mix O' C j) b a \<Longrightarrow> up O' b a"
proof (induction j arbitrary: b a)
  case 0
  then show ?case by (simp add: mix_def)
next
  case (Suc j)
  have tO: "tree O' R" "below O' R" using o by (simp_all add: settled_def)
  have tj: "tree (mix O' C j) R" and ts: "tree (mix O' C (Suc j)) R" using mix_tree[OF tO sw] Suc.prems(1) by simp_all
  have low: "up (mix O' C (Suc j)) x c \<longleftrightarrow> up (mix O' C j) x c" if "x \<in> R" "r x < j" for x c
    by (rule up_agree[OF tj, where m = "r x"]) (use that in \<open>auto simp: mix_def\<close>)
  show ?case
    using Suc.prems(2,3)
  proof (induction "r b" arbitrary: b rule: less_induct)
    case less
    show ?case
    proof (cases "r b < j \<or> a = b \<or> b = e")
      case True
      then show ?thesis using low[of b a] less.prems Suc.IH[of b a] Suc.prems(1) by (auto intro: up.here)
    next
      case False
      define y where "y = mix O' C (Suc j) b"
      have y: "y \<in> R" "r y < r b" "up (mix O' C (Suc j)) y a"
        using ts less.prems False up_cases[of "mix O' C (Suc j)" b a] by (auto simp: tree_def y_def)
      show ?thesis
      proof (cases "r b = j")
        case True
        then have "y = C b" by (simp add: y_def mix_def)
        then have "computed (mix O' C j) R b y" using sw less.prems(1) False Suc.prems(1) True by (auto simp: swept_def)
        moreover have "up (mix O' C j) y a" using low[of y a] y True by simp
        ultimately have "\<forall>p \<in> P b \<inter> R. up (mix O' C j) p a" unfolding computed_def by blast
        then have "\<forall>p \<in> P b. up O' p a" using Suc.IH Suc.prems(1) PR[OF less.prems(1)] by auto
        then have "up O' (O' b) a" using o less.prems(1) False unfolding settled_def by blast
        then show ?thesis using False by (auto intro: up.step)
      next
        case rb: False
        then have "y = O' b" using False by (simp add: y_def mix_def)
        moreover have "up O' y a" by (rule less.hyps[OF y(2,1,3)])
        ultimately show ?thesis using False by (auto intro: up.step)
      qed
    qed
  qed
qed

text \<open>If \<open>x\<close> is on the old chain of \<open>w\<close>, a path of increasing numbers leads from \<open>x\<close> to \<open>w\<close>; so what the new chain of
  \<open>w\<close> has beyond \<open>x\<close>, the new chain of \<open>x\<close> has.\<close>

lemma chain_through:
  assumes to: "tree O' R" and tc: "tree C R"
    and po: "\<forall>b \<in> R. b \<noteq> e \<longrightarrow> (\<forall>p \<in> P b. r p < r b \<longrightarrow> up O' p (O' b))"
    and pc: "\<forall>b \<in> R. b \<noteq> e \<longrightarrow> (\<forall>p \<in> P b. r p < r b \<longrightarrow> up C p (C b))"
  shows "w \<in> R \<Longrightarrow> up O' w x \<Longrightarrow> up C w a \<Longrightarrow> r a \<le> r x \<Longrightarrow> up C x a"
proof (induction "r w" arbitrary: w rule: less_induct)
  case less
  show ?case
  proof (cases "w = x")
    case False
    then have w: "w \<noteq> e" "up O' (O' w) x" "r x < r w" using less.prems tree_up[OF to less.prems(2,1)] up_cases[of O' w x] by auto
    then have "up C (C w) a" using less.prems(3,4) up_cases[of C w a] by auto
    obtain p where p: "p \<in> P w" "r p < r w" using fwd less.prems(1) w(1) by blast
    have pR: "p \<in> R" using p(1) PR less.prems(1) by blast
    have "up O' p x" using po p less.prems(1) w up_trans by blast
    moreover have "up C p a" using pc p less.prems(1) w(1) \<open>up C (C w) a\<close> up_trans by blast
    ultimately show ?thesis using less.hyps[OF p(2) pR] less.prems(4) by blast
  qed (use less.prems in simp)
qed

lemma exit_exists:
  assumes t: "tree A R" and j: "0 < j"
  shows "p \<in> R \<Longrightarrow> \<exists>x. x \<in> R \<and> up A p x \<and> r x < j \<and> (\<forall>y. up A p y \<longrightarrow> r y < j \<longrightarrow> r y \<le> r x)
     \<and> (\<forall>B. (\<forall>z \<in> R. z \<noteq> e \<longrightarrow> j \<le> r z \<longrightarrow> B z = A z) \<longrightarrow> up B p x)"
proof (induction "r p" arbitrary: p rule: less_induct)
  case less
  show ?case
  proof (cases "r p < j")
    case True
    then show ?thesis using tree_up[OF t _ less.prems] less.prems by (intro exI[of _ p]) (auto intro: up.here)
  next
    case False
    then have ne: "p \<noteq> e" using j r0 by auto
    then have q: "A p \<in> R" "r (A p) < r p" using t less.prems by (auto simp: tree_def)
    then obtain x where x: "x \<in> R" "up A (A p) x" "r x < j" "\<forall>y. up A (A p) y \<longrightarrow> r y < j \<longrightarrow> r y \<le> r x"
      "\<forall>B. (\<forall>z \<in> R. z \<noteq> e \<longrightarrow> j \<le> r z \<longrightarrow> B z = A z) \<longrightarrow> up B (A p) x" using less.hyps by blast
    have "up B p x" if B: "\<forall>z \<in> R. z \<noteq> e \<longrightarrow> j \<le> r z \<longrightarrow> B z = A z" for B
    proof -
      have "B p = A p" using B less.prems ne False by simp
      then show ?thesis using x(5) B ne by (auto intro: up.step)
    qed
    moreover have "r y \<le> r x" if "up A p y" "r y < j" for y using that x(4) False up_cases[of A p y] by auto
    ultimately show ?thesis using x(1-3) ne by (intro exI[of _ x]) (auto intro: up.step)
  qed
qed

lemma sweep_settled:
  assumes o: "settled O'" and sw: "swept O' C i" and full: "\<forall>b \<in> R. r b < i"
  shows "settled C" and "b \<in> R \<Longrightarrow> b \<noteq> e \<Longrightarrow> r (C b) \<le> r (O' b)"
proof -
  have tO: "tree O' R" "below O' R" using o by (simp_all add: settled_def)
  have mt: "tree (mix O' C j) R" "below (mix O' C j) R" if "j \<le> i" for j using mix_tree[OF tO sw that] by simp_all
  have Ci: "\<forall>x \<in> R. mix O' C i x = C x" using full by (simp add: mix_def)
  have tC: "tree C R" using mt(1)[of i] Ci by (simp add: tree_def)
  have bC: "below C R" using mt(2)[of i] Ci by (simp add: below_def)
  have comp: "computed (mix O' C (r b)) R b (C b)" if "b \<in> R" "b \<noteq> e" for b using sw that full by (simp add: swept_def)
  have low: "up (mix O' C j) x a \<longleftrightarrow> up C x a" if "x \<in> R" "r x < j" for j x a
    by (rule up_agree[OF tC, where m = "r x"]) (use that in \<open>auto simp: mix_def\<close>)
  have sh: "up O' b a" if "b \<in> R" "up C b a" for b a
  proof -
    have "up (mix O' C i) b a" using low[of b i a] that full by simp
    then show ?thesis by (rule mix_shrinks[OF o sw order_refl that(1)])
  qed
  have p2: "\<forall>b \<in> R. b \<noteq> e \<longrightarrow> (\<forall>p \<in> P b. r p < r b \<longrightarrow> up C p (C b))"
  proof (intro ballI impI)
    fix b p assume b: "b \<in> R" "b \<noteq> e" and p: "p \<in> P b" "r p < r b"
    have pR: "p \<in> R" using PR b(1) p(1) by blast
    have le: "r b \<le> i" using full b(1) by auto
    have "up (mix O' C (r b)) p (C b)" by (rule computed_rank(3)[OF mt(1)[OF le] comp[OF b] b]) (use p pR in auto)
    then show "up C p (C b)" using low[OF pR p(2)] by simp
  qed
  have p3: "\<forall>b \<in> R. b \<noteq> e \<longrightarrow> (\<forall>a. (\<forall>p \<in> P b. up C p a) \<longrightarrow> up C (C b) a)"
  proof (intro ballI impI allI)
    fix b a assume b: "b \<in> R" "b \<noteq> e" and all: "\<forall>p \<in> P b. up C p a"
    define j where "j = r b"
    have j: "0 < j" "j \<le> i" using rank_pos[OF b] full b(1) by (auto simp: j_def)
    have "up (mix O' C j) p a" if p: "p \<in> P b" for p
    proof -
      have pR: "p \<in> R" using PR b(1) p by blast
      have oa: "up O' p a" and ca: "up C p a" using sh[OF pR] all p by auto
      show ?thesis
      proof (cases "r a < j")
        case False
        show ?thesis by (rule up_above[OF tO(1) _ oa pR]) (use False in \<open>auto simp: mix_def\<close>)
      next
        case True
        obtain x where x: "x \<in> R" "up O' p x" "r x < j" "\<forall>y. up O' p y \<longrightarrow> r y < j \<longrightarrow> r y \<le> r x"
          "\<forall>B. (\<forall>z \<in> R. z \<noteq> e \<longrightarrow> j \<le> r z \<longrightarrow> B z = O' z) \<longrightarrow> up B p x" using exit_exists[OF tO(1) j(1) pR] by blast
        have "r a \<le> r x" using x(4) oa True by blast
        then have "up C x a" using chain_through[OF tO(1) tC _ p2 pR x(2) ca] o unfolding settled_def by blast
        then have "up (mix O' C j) x a" using low[OF x(1,3)] by simp
        moreover have "up (mix O' C j) p x" using x(5) by (auto simp: mix_def)
        ultimately show ?thesis using up_trans by blast
      qed
    qed
    then have "up (mix O' C j) (C b) a" using comp[OF b] unfolding computed_def j_def by blast
    moreover have "C b \<in> R" "r (C b) < j" using tC b by (auto simp: tree_def j_def)
    ultimately show "up C (C b) a" using low by blast
  qed
  show "settled C" using tC bC p2 p3 by (simp add: settled_def)
  show "b \<in> R \<Longrightarrow> b \<noteq> e \<Longrightarrow> r (C b) \<le> r (O' b)"
  proof -
    assume b: "b \<in> R" "b \<noteq> e"
    have c: "C b \<in> R" "r (C b) < r b" using tC b by (auto simp: tree_def)
    have "up C b (C b)" using b by (auto intro: up.intros)
    then have "up O' b (C b)" by (rule sh[OF b(1)])
    then have "up O' (O' b) (C b)" using c(2) up_cases[of O' b "C b"] by auto
    moreover have "O' b \<in> R" using tO(1) b by (auto simp: tree_def)
    ultimately show ?thesis using tree_up[OF tO(1)] by blast
  qed
qed

text \<open>A sweep that changes nothing leaves the dominators.\<close>

lemma fixpoint_dom:
  assumes o: "settled A" and sw: "swept A A i" and full: "\<forall>b \<in> R. r b < i" and b: "b \<in> R"
  shows "up A b a \<longleftrightarrow> dom a b"
proof
  have t: "tree A R" "below A R" using o by (simp_all add: settled_def)
  have m: "mix A A j = A" for j by (rule ext) (simp add: mix_def)
  have c: "up A (A x) a \<longleftrightarrow> (\<forall>p \<in> P x. up A p a)" if "x \<in> R" "x \<noteq> e" for x a
    using sw that full PR[OF that(1)] unfolding swept_def computed_def m by blast
  have "avoid a x \<Longrightarrow> x \<in> R \<Longrightarrow> \<not> up A x a" for x
  proof (induction rule: avoid.induct)
    case (move p x)
    show ?case
    proof
      assume "up A x a"
      then have "x \<noteq> e" "up A (A x) a" using move.hyps up_cases[of A x a] by auto
      then have "up A p a" using c move.hyps by blast
      then show False using move PR by blast
    qed
  qed simp
  then show "up A b a \<Longrightarrow> dom a b" using b unfolding dom_def by blast
  show "dom a b \<Longrightarrow> up A b a" by (rule below_up[OF t b])
qed

subsection \<open>The first sweep\<close>

definition first_swept :: "(nat \<Rightarrow> nat) \<Rightarrow> nat \<Rightarrow> bool" where
  "first_swept C i \<longleftrightarrow> (\<forall>b \<in> R. b \<noteq> e \<longrightarrow> r b < i \<longrightarrow> computed C {x \<in> R. r x < r b} b (C b))"

lemma first_tree:
  assumes sw: "first_swept C i"
  shows "0 < j \<Longrightarrow> j \<le> i \<Longrightarrow> tree C {x \<in> R. r x < j} \<and> below C {x \<in> R. r x < j}"
proof (induction j)
  case (Suc j)
  show ?case
  proof (cases "j = 0")
    case True
    then have "{x \<in> R. r x < Suc j} = {e}" using eR r0 rank_pos by fastforce
    then show ?thesis using eR by (simp add: tree_def below_def)
  next
    case False
    then have IH: "tree C {x \<in> R. r x < j}" "below C {x \<in> R. r x < j}" using Suc by simp_all
    have new: "C b \<in> R \<and> r (C b) < r b \<and> (\<forall>a. dom a b \<longrightarrow> a \<noteq> b \<longrightarrow> dom a (C b))" if b: "b \<in> R" "b \<noteq> e" "r b = j" for b
    proof -
      have c: "computed C {x \<in> R. r x < j} b (C b)" using sw b Suc.prems by (auto simp: first_swept_def)
      have "dom a (C b)" if "dom a b" "a \<noteq> b" for a
      proof -
        have "\<forall>p \<in> P b \<inter> {x \<in> R. r x < j}. dom a p" using dom_pred[OF that] b(1) by blast
        then show ?thesis using c unfolding computed_def by blast
      qed
      then show ?thesis using computed_rank(1,2)[OF IH(1) c b(1,2)] b(3) by auto
    qed
    show ?thesis using IH new unfolding tree_def below_def less_Suc_eq by fastforce
  qed
qed simp

lemma first_settled:
  assumes sw: "first_swept C i" and full: "\<forall>b \<in> R. r b < i"
  shows "settled C"
proof -
  have i: "0 < i" using full eR by auto
  have all: "{x \<in> R. r x < i} = R" using full by auto
  have t: "tree C R" "below C R" using first_tree[OF sw i order_refl] unfolding all by simp_all
  have comp: "computed C {x \<in> R. r x < r b} b (C b)" if "b \<in> R" "b \<noteq> e" for b using sw that full by (simp add: first_swept_def)
  have "up C p (C b)" if b: "b \<in> R" "b \<noteq> e" and p: "p \<in> P b" "r p < r b" for b p
  proof (rule computed_rank(3)[OF _ comp[OF b] b])
    show "tree C {x \<in> R. r x < r b}" using first_tree[OF sw, of "r b"] rank_pos[OF b] full b(1) by auto
  qed (use p PR[OF b(1)] in auto)
  moreover have "up C (C b) a" if b: "b \<in> R" "b \<noteq> e" and "\<forall>p \<in> P b. up C p a" for b a
    using comp[OF b] that(3) unfolding computed_def by blast
  ultimately show ?thesis using t unfolding settled_def by blast
qed

subsection \<open>Sweeps as the loop makes them\<close>

lemma computed_agree:
  assumes t: "tree A Q" and p: "P b \<inter> Q \<noteq> {}" and same: "\<And>x. x \<in> Q \<Longrightarrow> x \<noteq> e \<Longrightarrow> B x = A x" and c: "computed A Q b N"
  shows "computed B Q b N"
proof -
  have "up B x a \<longleftrightarrow> up A x a" if "x \<in> Q" for x a by (rule up_agree[OF t, where m = "r x"]) (use that same in auto)
  then show ?thesis using c unfolding computed_def by blast
qed

lemma swept_start: "swept O' O' (Suc 0)"
  using rank_pos by (fastforce simp: swept_def)

lemma swept_tree:
  assumes o: "settled O'" and sw: "swept O' C i"
  shows "tree C R" "below C R"
proof -
  have mc: "mix O' C i x = C x" if "x \<in> R" "x \<noteq> e" for x using sw that by (auto simp: mix_def swept_def)
  have "tree (mix O' C i) R \<and> below (mix O' C i) R" by (rule mix_tree[OF _ _ sw]) (use o in \<open>simp_all add: settled_def\<close>)
  then show "tree C R" "below C R" using mc by (simp_all add: tree_def below_def)
qed

lemma swept_step:
  assumes sw: "swept O' C i" and b: "b \<in> R" "b \<noteq> e" "r b = i" and o: "settled O'" and N: "computed C R b N"
  shows "swept O' (C(b := N)) (Suc i)"
proof -
  have other: "x \<noteq> b \<longleftrightarrow> r x \<noteq> i" if "x \<in> R" for x using rank_eq[OF that b(1)] b(3) by auto
  have m: "mix O' (C(b := N)) j x = mix O' C j x" if "x \<in> R" "j \<le> i" for j x
    using that other[OF that(1)] by (auto simp: mix_def)
  have tO: "tree O' R" "below O' R" using o by (simp_all add: settled_def)
  have ne: "P x \<inter> R \<noteq> {}" if "x \<in> R" "x \<noteq> e" for x using fwd[OF that] PR[OF that(1)] by blast
  have old: "computed (mix O' (C(b := N)) (r x)) R x (C x)" if x: "x \<in> R" "x \<noteq> e" "r x < i" for x
  proof (rule computed_agree)
    show "tree (mix O' C (r x)) R" using mix_tree[OF tO sw, of "r x"] x by simp
    show "computed (mix O' C (r x)) R x (C x)" using sw x by (simp add: swept_def)
  qed (use x ne m in auto)
  have cur: "computed (mix O' (C(b := N)) i) R b N"
  proof (rule computed_agree)
    show "mix O' (C(b := N)) i x = C x" if "x \<in> R" "x \<noteq> e" for x using sw that m by (auto simp: mix_def swept_def)
    show "tree C R" by (rule swept_tree[OF o sw])
  qed (use b N ne in auto)
  show ?thesis unfolding swept_def
  proof (intro conjI ballI impI)
    fix x assume x: "x \<in> R" "x \<noteq> e"
    show "Suc i \<le> r x \<Longrightarrow> (C(b := N)) x = O' x" using sw x b(3) by (auto simp: swept_def)
    show "r x < Suc i \<Longrightarrow> computed (mix O' (C(b := N)) (r x)) R x ((C(b := N)) x)"
      using old[OF x] cur b(3) other[OF x(1)] by (cases "x = b") (auto simp: less_Suc_eq)
  qed
qed

lemma first_start: "first_swept C (Suc 0)"
  using rank_pos by (fastforce simp: first_swept_def)

lemma first_step:
  assumes sw: "first_swept C i" and b: "b \<in> R" "b \<noteq> e" "r b = i" and N: "computed C {x \<in> R. r x < i} b N"
  shows "first_swept (C(b := N)) (Suc i)"
proof -
  have ne: "P x \<inter> {y \<in> R. r y < r x} \<noteq> {}" if "x \<in> R" "x \<noteq> e" for x using fwd[OF that] PR[OF that(1)] by blast
  have t: "tree C {x \<in> R. r x < j}" if "0 < j" "j \<le> i" for j using first_tree[OF sw that] by simp
  have "computed (C(b := N)) {y \<in> R. r y < r x} x ((C(b := N)) x)" if x: "x \<in> R" "x \<noteq> e" "r x < Suc i" for x
  proof (rule computed_agree)
    show "tree C {y \<in> R. r y < r x}" using t rank_pos[OF x(1,2)] x(3) by simp
    show "computed C {y \<in> R. r y < r x} x ((C(b := N)) x)"
    proof (cases "x = b")
      case False
      then have "r x < i" using rank_eq[OF x(1) b(1)] b(3) x(3) by (metis less_Suc_eq)
      then show ?thesis using sw x False by (simp add: first_swept_def)
    qed (use N b in simp)
  qed (use ne x b in auto)
  then show ?thesis by (simp add: first_swept_def)
qed

end

end
