(* ===== verification/Dominator.thy ===== *)
theory Dominator
  imports Cfg Csr Dom_Tree IR_Ops
begin

text \<open>
  Dominator trees: \<^verbatim>\<open>src/analysis/dominator.c\<close> (with children and dominance frontiers) and the copy of its first half in
  \<^verbatim>\<open>src/ir/dominator.c\<close> that the validator uses.  The copy does not test predecessors against the number of blocks, which is
  the parameter \<open>guarded\<close> of the shared loops.
\<close>

subsection \<open>The search\<close>

record dom_dfs =
  dd_visited :: "bool list"
  dd_stack :: "(nat \<times> nat) list"
  dd_po :: "nat list"

definition dom_pop :: "nat \<Rightarrow> dom_dfs \<Rightarrow> nat \<Rightarrow> (nat \<times> nat) list \<Rightarrow> dom_dfs option" where
  "dom_pop n s blk rest = (if length (dd_po s) < n then Some (s\<lparr>dd_po := dd_po s @ [blk], dd_stack := rest\<rparr>) else None)"

definition dom_succ :: "nat \<Rightarrow> dom_dfs \<Rightarrow> nat \<Rightarrow> (nat \<times> nat) list \<Rightarrow> dom_dfs option" where
  "dom_succ n s succ_id stack =
     (if succ_id < n then do {
        seen \<leftarrow> rd (dd_visited s) succ_id;
        if \<not> seen then do {
          visited \<leftarrow> wr (dd_visited s) succ_id True;
          if length stack < n then Some (s\<lparr>dd_visited := visited, dd_stack := (succ_id, 0) # stack\<rparr>) else None
        }
        else Some (s\<lparr>dd_stack := stack\<rparr>)
      }
      else Some (s\<lparr>dd_stack := stack\<rparr>))"

definition dom_dfs_step :: "ny_function \<Rightarrow> nat \<Rightarrow> dom_dfs \<Rightarrow> dom_dfs option" where
  "dom_dfs_step fn n s = (case dd_stack s of
       [] \<Rightarrow> None
     | (blk, succ) # rest \<Rightarrow>
         (case ny_function_get_block fn blk of
            Some b \<Rightarrow> if succ < length (b_succs b) then dom_succ n s (b_succs b ! succ) ((blk, succ + 1) # rest)
                      else dom_pop n s blk rest
          | None \<Rightarrow> dom_pop n s blk rest))"

partial_function (option) dom_dfs_loop :: "ny_function \<Rightarrow> nat \<Rightarrow> dom_dfs \<Rightarrow> dom_dfs option" where
  "dom_dfs_loop fn n s = (if dd_stack s = [] then Some s else do { s \<leftarrow> dom_dfs_step fn n s; dom_dfs_loop fn n s })"

definition dom_number :: "nat list \<Rightarrow> int list \<Rightarrow> int list option" where
  "dom_number po rpo = foldM (\<lambda>rpo i. do { b \<leftarrow> rd po (length po - 1 - i); wr rpo b (i32 i) }) rpo [0..<length po]"

subsection \<open>The iteration\<close>

partial_function (option) dom_walk :: "nat list \<Rightarrow> int list \<Rightarrow> nat \<Rightarrow> nat \<Rightarrow> nat option" where
  "dom_walk idom rpo f g = do {
     x \<leftarrow> rd rpo f;
     y \<leftarrow> rd rpo g;
     if x > y then do { f \<leftarrow> rd idom f; dom_walk idom rpo f g } else Some f
   }"

partial_function (option) dom_intersect :: "nat list \<Rightarrow> int list \<Rightarrow> nat \<Rightarrow> nat \<Rightarrow> nat option" where
  "dom_intersect idom rpo f1 f2 = (if f1 \<noteq> f2 then do {
       f1 \<leftarrow> dom_walk idom rpo f1 f2;
       f2 \<leftarrow> dom_walk idom rpo f2 f1;
       dom_intersect idom rpo f1 f2
     }
     else Some f1)"

definition idom_read :: "bool \<Rightarrow> nat \<Rightarrow> nat list \<Rightarrow> nat \<Rightarrow> nat option" where
  "idom_read guarded n idom p = (if guarded \<and> n \<le> p then Some NY_INVALID_BLOCK else rd idom p)"

fun dom_first :: "bool \<Rightarrow> nat \<Rightarrow> nat list \<Rightarrow> nat list \<Rightarrow> nat option" where
  "dom_first guarded n idom [] = Some NY_INVALID_BLOCK"
| "dom_first guarded n idom (p # ps) = do {
     d \<leftarrow> idom_read guarded n idom p;
     if d \<noteq> NY_INVALID_BLOCK then Some p else dom_first guarded n idom ps
   }"

definition dom_join :: "bool \<Rightarrow> nat \<Rightarrow> nat list \<Rightarrow> int list \<Rightarrow> nat \<Rightarrow> nat \<Rightarrow> nat option" where
  "dom_join guarded n idom rpo new_idom p =
     (if p = new_idom then Some new_idom
      else do {
        d \<leftarrow> idom_read guarded n idom p;
        if d \<noteq> NY_INVALID_BLOCK then dom_intersect idom rpo p new_idom else Some new_idom
      })"

definition dom_update :: "bool \<Rightarrow> ny_function \<Rightarrow> nat \<Rightarrow> nat list \<Rightarrow> int list \<Rightarrow> nat list \<times> bool \<Rightarrow> nat \<Rightarrow> (nat list \<times> bool) option" where
  "dom_update guarded fn n po rpo = (\<lambda>(idom, changed) i. do {
     b \<leftarrow> rd po (length po - 1 - i);
     (case ny_function_get_block fn b of
        None \<Rightarrow> Some (idom, changed)
      | Some blk \<Rightarrow> do {
          new_idom \<leftarrow> dom_first guarded n idom (b_preds blk);
          if new_idom = NY_INVALID_BLOCK then Some (idom, changed)
          else do {
            new_idom \<leftarrow> foldM (dom_join guarded n idom rpo) new_idom (b_preds blk);
            d \<leftarrow> rd idom b;
            if d \<noteq> new_idom then Some (idom[b := new_idom], True) else Some (idom, changed)
          }
        })
   })"

partial_function (option) dom_solve :: "bool \<Rightarrow> ny_function \<Rightarrow> nat \<Rightarrow> nat list \<Rightarrow> int list \<Rightarrow> nat list \<Rightarrow> nat list option" where
  "dom_solve guarded fn n po rpo idom = do {
     (idom, changed) \<leftarrow> foldM (dom_update guarded fn n po rpo) (idom, False) [1..<length po];
     if changed then dom_solve guarded fn n po rpo idom else Some idom
   }"

definition dom_run :: "bool \<Rightarrow> ny_function \<Rightarrow> nat \<Rightarrow> dom_dfs \<Rightarrow> (nat list \<times> int list) option" where
  "dom_run guarded fn n s = do {
     s \<leftarrow> dom_dfs_loop fn n s;
     rpo \<leftarrow> dom_number (dd_po s) (replicate n (- 1));
     idom \<leftarrow> wr (replicate n NY_INVALID_BLOCK) (f_entry fn) (f_entry fn);
     idom \<leftarrow> dom_solve guarded fn n (dd_po s) rpo idom;
     Some (idom, rpo)
   }"

partial_function (option) dom_up :: "nat list \<Rightarrow> nat \<Rightarrow> nat \<Rightarrow> nat \<Rightarrow> nat option" where
  "dom_up idom entry a cur = (if cur \<noteq> a \<and> cur \<noteq> entry then do {
       parent \<leftarrow> rd idom cur;
       if parent \<noteq> NY_INVALID_BLOCK \<and> parent \<noteq> cur then dom_up idom entry a parent else Some cur
     }
     else Some cur)"

definition dom_query :: "nat list \<Rightarrow> int list \<Rightarrow> nat \<Rightarrow> nat \<Rightarrow> nat \<Rightarrow> bool option" where
  "dom_query idom rpo entry a b =
     (if a = b then Some True
      else if length idom \<le> a \<or> length idom \<le> b then Some False
      else do {
        x \<leftarrow> rd rpo a;
        y \<leftarrow> rd rpo b;
        if x < 0 \<or> y < 0 then Some False else do { cur \<leftarrow> dom_up idom entry a b; Some (cur = a) }
      })"

subsection \<open>Children and frontiers\<close>

definition dom_child :: "nat \<Rightarrow> nat list \<Rightarrow> ('s \<Rightarrow> nat \<Rightarrow> nat \<Rightarrow> 's option) \<Rightarrow> 's \<Rightarrow> nat \<Rightarrow> 's option" where
  "dom_child entry idom act s b =
     (if b \<noteq> entry \<and> idom ! b \<noteq> NY_INVALID_BLOCK \<and> idom ! b < length idom then act s (idom ! b) b else Some s)"

partial_function (option) df_walk :: "('s \<Rightarrow> nat \<Rightarrow> nat \<Rightarrow> 's option) \<Rightarrow> nat \<Rightarrow> nat list \<Rightarrow> nat \<Rightarrow> nat \<Rightarrow> int list \<times> 's \<Rightarrow> nat \<Rightarrow> (int list \<times> 's) option" where
  "df_walk act entry idom idom_b b st runner =
     (if runner \<noteq> idom_b \<and> runner \<noteq> NY_INVALID_BLOCK \<and> runner < length idom then do {
        let (last_visited, s) = st;
        l \<leftarrow> rd last_visited runner;
        st \<leftarrow> (if l \<noteq> i32 b then do {
            last_visited \<leftarrow> wr last_visited runner (i32 b);
            s \<leftarrow> act s runner b;
            Some (last_visited, s)
          }
          else Some (last_visited, s));
        if runner = entry \<or> runner = idom ! runner then Some st
        else df_walk act entry idom idom_b b st (idom ! runner)
      }
      else Some st)"

definition df_block :: "('s \<Rightarrow> nat \<Rightarrow> nat \<Rightarrow> 's option) \<Rightarrow> ny_function \<Rightarrow> nat list \<Rightarrow> int list \<times> 's \<Rightarrow> nat \<Rightarrow> (int list \<times> 's) option" where
  "df_block act fn idom st b = (case ny_function_get_block fn b of
       None \<Rightarrow> Some st
     | Some blk \<Rightarrow> if length (b_preds blk) < 2 then Some st
         else foldM (df_walk act (f_entry fn) idom (idom ! b) b) st (b_preds blk))"

record ny_dominator_tree =
  dt_entry :: nat
  dt_block_count :: nat
  dt_idom :: "nat list"
  dt_rpo :: "int list"
  dt_child_start :: "nat list"
  dt_child_count :: "nat list"
  dt_children :: "nat list"
  dt_df_start :: "nat list"
  dt_df_count :: "nat list"
  dt_frontiers :: "nat list"

definition zero_dt :: ny_dominator_tree where
  "zero_dt = \<lparr>dt_entry = 0, dt_block_count = 0, dt_idom = [], dt_rpo = [], dt_child_start = [], dt_child_count = [], dt_children = [],
     dt_df_start = [], dt_df_count = [], dt_frontiers = []\<rparr>"

definition dom_start :: "ny_function \<Rightarrow> nat \<Rightarrow> dom_dfs" where
  "dom_start fn n = (let s = \<lparr>dd_visited = replicate n False, dd_stack = [], dd_po = []\<rparr>
     in if f_entry fn < n then s\<lparr>dd_visited := (dd_visited s)[f_entry fn := True], dd_stack := [(f_entry fn, 0)]\<rparr> else s)"

text \<open>\<open>fresh\<close> is what newly allocated arrays hold.\<close>

definition dom_layout :: "(nat \<Rightarrow> nat) \<Rightarrow> nat list \<Rightarrow> ((nat list \<times> nat list) \<Rightarrow> (nat list \<times> nat list) option) \<Rightarrow> (nat list \<times> nat list) option" where
  "dom_layout fresh counts fill = (let (start, total) = prefix_starts 0 counts in
     if total > 0 then do { (_, arr) \<leftarrow> fill (start, map fresh [0..<total]); Some (start, arr) } else Some (start, []))"

definition ny_dominator_tree_init :: "(nat \<Rightarrow> nat) \<Rightarrow> ny_function \<Rightarrow> ny_dominator_tree option" where
  "ny_dominator_tree_init fresh fn =
     (let n = length (f_blocks fn); zero = replicate n 0
      in if n = 0 \<or> f_entry fn = NY_INVALID_BLOCK then Some (zero_dt\<lparr>dt_entry := f_entry fn, dt_block_count := n\<rparr>)
      else do {
        (idom, rpo) \<leftarrow> dom_run True fn n (dom_start fn n);
        child_count \<leftarrow> foldM (dom_child (f_entry fn) idom (\<lambda>c p b. csr_count c p)) zero [0..<n];
        (child_start, children) \<leftarrow> dom_layout fresh child_count (\<lambda>(start, arr).
          foldM (dom_child (f_entry fn) idom (csr_put start)) (zero, arr) [0..<n]);
        (_, df_count) \<leftarrow> foldM (df_block (\<lambda>c x b. csr_count c x) fn idom) (replicate n (- 1), zero) [0..<n];
        (df_start, frontiers) \<leftarrow> dom_layout fresh df_count (\<lambda>(start, arr). do {
          (_, st) \<leftarrow> foldM (df_block (csr_put start) fn idom) (replicate n (- 1), (zero, arr)) [0..<n];
          Some st
        });
        Some \<lparr>dt_entry = f_entry fn, dt_block_count = n, dt_idom = idom, dt_rpo = rpo, dt_child_start = child_start,
          dt_child_count = child_count, dt_children = children, dt_df_start = df_start, dt_df_count = df_count, dt_frontiers = frontiers\<rparr>
      })"

definition ny_dominator_tree_destroy :: "ny_dominator_tree \<Rightarrow> ny_dominator_tree" where
  "ny_dominator_tree_destroy dt = zero_dt"

definition ny_dominator_tree_dominates :: "ny_dominator_tree \<Rightarrow> nat \<Rightarrow> nat \<Rightarrow> bool option" where
  "ny_dominator_tree_dominates dt a b = dom_query (dt_idom dt) (dt_rpo dt) (dt_entry dt) a b"

definition ny_dominator_tree_strictly_dominates :: "ny_dominator_tree \<Rightarrow> nat \<Rightarrow> nat \<Rightarrow> bool option" where
  "ny_dominator_tree_strictly_dominates dt a b = (if a = b then Some False else ny_dominator_tree_dominates dt a b)"

definition ny_dominator_tree_get_idom :: "ny_dominator_tree \<Rightarrow> nat \<Rightarrow> nat" where
  "ny_dominator_tree_get_idom dt blk = (if blk < length (dt_idom dt) then dt_idom dt ! blk else NY_INVALID_BLOCK)"

definition dom_slice :: "nat \<Rightarrow> nat list \<Rightarrow> nat list \<Rightarrow> nat list \<Rightarrow> nat \<Rightarrow> nat list" where
  "dom_slice n start count arr blk =
     (if n \<le> blk \<or> count = [] then [] else if count ! blk = 0 then [] else subarray (start ! blk) (count ! blk) arr)"

definition ny_dominator_tree_get_children :: "ny_dominator_tree \<Rightarrow> nat \<Rightarrow> nat list" where
  "ny_dominator_tree_get_children dt blk = dom_slice (dt_block_count dt) (dt_child_start dt) (dt_child_count dt) (dt_children dt) blk"

definition ny_dominator_tree_get_frontier :: "ny_dominator_tree \<Rightarrow> nat \<Rightarrow> nat list" where
  "ny_dominator_tree_get_frontier dt blk = dom_slice (dt_block_count dt) (dt_df_start dt) (dt_df_count dt) (dt_frontiers dt) blk"

subsection \<open>The copy in \<^verbatim>\<open>src/ir/dominator.c\<close>\<close>

record ny_core_dominator_tree =
  cd_block_count :: nat
  cd_entry :: nat
  cd_idom :: "nat list"
  cd_rpo :: "int list"

definition ny_core_dominator_tree_init :: "ny_function \<Rightarrow> ny_core_dominator_tree option" where
  "ny_core_dominator_tree_init fn =
     (let n = length (f_blocks fn)
      in if n = 0 \<or> f_entry fn = NY_INVALID_BLOCK then Some \<lparr>cd_block_count = n, cd_entry = f_entry fn, cd_idom = [], cd_rpo = []\<rparr>
      else do {
        visited \<leftarrow> wr (replicate n False) (f_entry fn) True;
        (idom, rpo) \<leftarrow> dom_run False fn n \<lparr>dd_visited = visited, dd_stack = [(f_entry fn, 0)], dd_po = []\<rparr>;
        Some \<lparr>cd_block_count = n, cd_entry = f_entry fn, cd_idom = idom, cd_rpo = rpo\<rparr>
      })"

definition ny_core_dominator_tree_destroy :: "ny_core_dominator_tree \<Rightarrow> ny_core_dominator_tree" where
  "ny_core_dominator_tree_destroy dt = \<lparr>cd_block_count = 0, cd_entry = 0, cd_idom = [], cd_rpo = []\<rparr>"

definition ny_core_dominator_tree_dominates :: "ny_core_dominator_tree \<Rightarrow> nat \<Rightarrow> nat \<Rightarrow> bool option" where
  "ny_core_dominator_tree_dominates dt a b = dom_query (cd_idom dt) (cd_rpo dt) (cd_entry dt) a b"

end
