(* ===== verification/Dominator_Exact.thy ===== *)
theory Dominator_Exact
  imports Dominator
begin

text \<open>
  The dominator trees are exact: the search numbers the reachable blocks so that every block but the entry has a
  predecessor with a smaller number, each sweep of the iteration is a sweep of \<open>rpo_graph\<close>, and the result is compared with
  dominance along paths.
\<close>

subsection \<open>The search is that of the control-flow analysis\<close>

definition dd_sim :: "dfs_state \<Rightarrow> dom_dfs \<Rightarrow> bool" where
  "dd_sim s d \<longleftrightarrow> dd_stack d = ds_stack s \<and> dd_po d = ds_po s \<and> dd_visited d = map (\<lambda>k. k \<noteq> 0) (ds_visited s)"

text \<open>Every numbered or stacked block but the entry has a predecessor that is finished after it.\<close>

definition dfs_parents :: "ny_function \<Rightarrow> dfs_state \<Rightarrow> bool" where
  "dfs_parents fn s \<longleftrightarrow> (\<forall>v \<in> set (ds_order s). v \<noteq> f_entry fn \<longrightarrow> (\<exists>u. (u, v) \<in> cfg_edges fn \<and> subseq [v, u] (ds_order s)))"

lemma dom_step_sim:
  assumes inv: "dfs_inv fn s" and sim: "dd_sim s d" and par: "dfs_parents fn s" and st: "ds_stack s \<noteq> []"
    and step: "dfs_step fn (length (f_blocks fn)) s = Some s'"
  shows "\<exists>d'. dom_dfs_step fn (length (f_blocks fn)) d = Some d' \<and> dd_sim s' d' \<and> dfs_parents fn s'"
proof -
  let ?n = "length (f_blocks fn)"
  obtain u k rest where e: "ds_stack s = (u, k) # rest" using st by (cases "ds_stack s") auto
  have m: "dfs_marks fn s" using inv by (simp add: dfs_inv_def)
  have u: "u < ?n" using m e by (simp add: dfs_marks_def Let_def)
  have vis: "length (ds_visited s) = ?n" and headers: "length (ds_headers s) = ?n" using m by (simp_all add: dfs_marks_def Let_def)
  obtain b where b: "ny_function_get_block fn u = Some b" "ny_cfg_get_successors fn u = b_succs b"
    using u by (simp add: ny_cfg_get_successors_def)
  have d: "dd_stack d = (u, k) # rest" "dd_po d = ds_po s" "dd_visited d = map (\<lambda>k. k \<noteq> 0) (ds_visited s)" using sim e by (simp_all add: dd_sim_def)
  have same: "dfs_parents fn t" if "ds_order t = ds_order s" for t using par that by (simp add: dfs_parents_def)
  show ?thesis
  proof (cases "k < length (b_succs b)")
    case False
    then have "dfs_pop ?n s u rest = Some s'" using step e b by (simp add: dfs_step_def)
    then have s': "length (ds_po s) < ?n" "s' = s\<lparr>ds_visited := (ds_visited s)[u := 2], ds_po := ds_po s @ [u], ds_stack := rest\<rparr>"
      using u vis by (auto simp: dfs_pop_def split: if_splits)
    have "dom_dfs_step fn ?n d = Some (d\<lparr>dd_po := dd_po d @ [u], dd_stack := rest\<rparr>)"
      using d b False s'(1) by (simp add: dom_dfs_step_def dom_pop_def)
    moreover have "ds_visited s ! u \<noteq> 0" using m e u by (auto simp: dfs_marks_def Let_def split: if_splits)
    then have "map (\<lambda>k. k \<noteq> 0) ((ds_visited s)[u := 2]) = map (\<lambda>k. k \<noteq> 0) (ds_visited s)"
      using u vis by (intro nth_equalityI) (auto simp: nth_list_update)
    then have "dd_sim s' (d\<lparr>dd_po := dd_po d @ [u], dd_stack := rest\<rparr>)" using d s'(2) by (simp add: dd_sim_def)
    moreover have "dfs_parents fn s'" by (rule same) (simp add: s'(2) e)
    ultimately show ?thesis by blast
  next
    case True
    define w where "w = b_succs b ! k"
    have step': "dfs_succ ?n s u w ((u, k + 1) # rest) = Some s'" using step e b True by (simp add: dfs_step_def w_def)
    have dom': "dom_dfs_step fn ?n d = dom_succ ?n d w ((u, k + 1) # rest)" using d b True by (simp add: dom_dfs_step_def w_def)
    consider "\<not> w < ?n" | "w < ?n" "ds_visited s ! w = 0" | "w < ?n" "ds_visited s ! w \<noteq> 0" by blast
    then show ?thesis
    proof cases
      case 1
      then have s': "s' = s\<lparr>ds_stack := (u, k + 1) # rest\<rparr>" using step' by (simp add: dfs_succ_def)
      have "dom_dfs_step fn ?n d = Some (d\<lparr>dd_stack := (u, k + 1) # rest\<rparr>)" using dom' 1 by (simp add: dom_succ_def)
      moreover have "dd_sim s' (d\<lparr>dd_stack := (u, k + 1) # rest\<rparr>)" using d s' by (simp add: dd_sim_def)
      moreover have "dfs_parents fn s'" by (rule same) (simp add: s' e)
      ultimately show ?thesis by blast
    next
      case 2
      then have s': "s' = s\<lparr>ds_visited := (ds_visited s)[w := 1], ds_stack := (w, 0) # (u, k + 1) # rest\<rparr>" "length ((u, k + 1) # rest) < ?n"
        using step' vis by (auto simp: dfs_succ_def split: if_splits)
      let ?d = "d\<lparr>dd_visited := (dd_visited d)[w := True], dd_stack := (w, 0) # (u, k + 1) # rest\<rparr>"
      have "dom_dfs_step fn ?n d = Some ?d" using dom' 2 d vis s'(2) by (simp add: dom_succ_def)
      moreover have "dd_sim s' ?d" using d s'(1) by (simp add: dd_sim_def map_update)
      moreover have "dfs_parents fn s'"
        unfolding dfs_parents_def
      proof (intro ballI impI)
        fix v assume v: "v \<in> set (ds_order s')" "v \<noteq> f_entry fn"
        have ord: "ds_order s' = ds_po s @ w # u # map fst rest" "ds_order s = ds_po s @ u # map fst rest" using s'(1) e by simp_all
        show "\<exists>x. (x, v) \<in> cfg_edges fn \<and> subseq [v, x] (ds_order s')"
        proof (cases "v = w")
          case True
          have "(u, w) \<in> cfg_edges fn" using u 2(1) b \<open>k < length (b_succs b)\<close> by (simp add: cfg_edges_def w_def)
          moreover have "subseq [w, u] (ds_order s')" unfolding ord by (rule subseq_head) simp
          ultimately show ?thesis using True by blast
        next
          case False
          then have "v \<in> set (ds_order s)" using v(1) unfolding ord by auto
          then obtain x where x: "(x, v) \<in> cfg_edges fn" "subseq [v, x] (ds_order s)" using par v(2) unfolding dfs_parents_def by blast
          have "subseq [v, x] (ds_order s')" unfolding ord by (rule subseq_insert[OF x(2)[unfolded ord]])
          then show ?thesis using x(1) by blast
        qed
      qed
      ultimately show ?thesis by blast
    next
      case 3
      then have s': "ds_stack s' = (u, k + 1) # rest" "ds_po s' = ds_po s" "ds_visited s' = ds_visited s"
        using step' vis headers by (auto simp: dfs_succ_def split: if_splits)
      have "dom_dfs_step fn ?n d = Some (d\<lparr>dd_stack := (u, k + 1) # rest\<rparr>)" using dom' 3 d(3) vis by (simp add: dom_succ_def)
      moreover have "dd_sim s' (d\<lparr>dd_stack := (u, k + 1) # rest\<rparr>)" using d s' by (simp add: dd_sim_def)
      moreover have "dfs_parents fn s'" by (rule same) (simp add: s' e)
      ultimately show ?thesis by blast
    qed
  qed
qed

lemma dom_dfs_returns:
  "\<lbrakk>dfs_inv fn s; dd_sim s d; dfs_parents fn s\<rbrakk> \<Longrightarrow>
    \<exists>t d'. dom_dfs_loop fn (length (f_blocks fn)) d = Some d' \<and> dd_sim t d' \<and> dfs_inv fn t \<and> ds_stack t = [] \<and> dfs_parents fn t"
proof (induction s arbitrary: d rule: wf_induct[of "dfs_rel fn"])
  case 1
  then show ?case by (simp add: dfs_rel_def)
next
  case (2 s)
  show ?case
  proof (cases "ds_stack s = []")
    case True
    then have "dom_dfs_loop fn (length (f_blocks fn)) d = Some d" using 2 by (subst dom_dfs_loop.simps) (simp add: dd_sim_def)
    then show ?thesis using 2 True by blast
  next
    case False
    obtain s' where s': "dfs_step fn (length (f_blocks fn)) s = Some s'" "dfs_inv fn s'" "(s', s) \<in> dfs_rel fn"
      using dfs_step_inv[OF 2(2) False] by blast
    obtain d1 where d1: "dom_dfs_step fn (length (f_blocks fn)) d = Some d1" "dd_sim s' d1" "dfs_parents fn s'"
      using dom_step_sim[OF 2(2,3,4) False s'(1)] by blast
    have "dom_dfs_loop fn (length (f_blocks fn)) d = dom_dfs_loop fn (length (f_blocks fn)) d1"
      using d1(1) False 2(3) by (subst dom_dfs_loop.simps) (simp add: dd_sim_def)
    then show ?thesis using 2(1) s'(2,3) d1(2,3) by metis
  qed
qed

lemma subseq_reverse: "subseq xs ys \<Longrightarrow> subseq (rev xs) (rev ys)"
proof (induction rule: list_emb.induct)
  case (list_emb_Cons2 x y xs ys)
  then show ?case by (auto intro: list_emb_append_mono)
qed auto

text \<open>The order of the search, and the place of a block in it.\<close>

definition dom_order :: "ny_function \<Rightarrow> nat list" where
  "dom_order fn = (if f_entry fn < length (f_blocks fn)
     then case dom_dfs_loop fn (length (f_blocks fn)) (dom_start fn (length (f_blocks fn))) of Some d \<Rightarrow> rev (dd_po d) | None \<Rightarrow> [f_entry fn]
     else [f_entry fn])"

definition dom_rank :: "ny_function \<Rightarrow> nat \<Rightarrow> nat" where
  "dom_rank fn b = length (takeWhile (\<lambda>x. x \<noteq> b) (dom_order fn))"

definition dom_nodes :: "ny_function \<Rightarrow> nat set" where
  "dom_nodes fn = {b. (f_entry fn, b) \<in> (cfg_edges fn)\<^sup>*}"

definition dom_preds :: "ny_function \<Rightarrow> nat \<Rightarrow> nat set" where
  "dom_preds fn b = {p \<in> dom_nodes fn. (p, b) \<in> cfg_edges fn}"

lemma dom_search:
  assumes entry: "f_entry fn < length (f_blocks fn)"
  shows "\<exists>d. dom_dfs_loop fn (length (f_blocks fn)) (dom_start fn (length (f_blocks fn))) = Some d \<and> dd_po d = rev (dom_order fn)
     \<and> set (dom_order fn) = dom_nodes fn \<and> distinct (dom_order fn) \<and> dom_order fn \<noteq> [] \<and> hd (dom_order fn) = f_entry fn
     \<and> set (dom_order fn) \<subseteq> {..<length (f_blocks fn)}
     \<and> (\<forall>v \<in> dom_nodes fn. v \<noteq> f_entry fn \<longrightarrow> (\<exists>u \<in> dom_preds fn v. subseq [u, v] (dom_order fn)))"
proof -
  let ?n = "length (f_blocks fn)"
  let ?s = "\<lparr>ds_visited = (replicate ?n 0)[f_entry fn := 1], ds_stack = [(f_entry fn, 0)], ds_po = [], ds_back = [], ds_headers = replicate ?n False\<rparr>"
  have sim: "dd_sim ?s (dom_start fn ?n)"
    using entry by (simp add: dd_sim_def dom_start_def map_update map_replicate_const)
  have "dfs_parents fn ?s" by (simp add: dfs_parents_def)
  from dom_dfs_returns[OF dfs_init_inv[OF entry] sim this] obtain t d where
    d: "dom_dfs_loop fn ?n (dom_start fn ?n) = Some d" "dd_sim t d" "dfs_inv fn t" "ds_stack t = []" "dfs_parents fn t" by blast
  note f = dfs_done[OF d(3,4)]
  have po: "dd_po d = ds_po t" using d(2) by (simp add: dd_sim_def)
  have ord: "dom_order fn = rev (ds_po t)" using entry d(1) po by (simp add: dom_order_def)
  have "\<exists>u \<in> dom_preds fn v. subseq [u, v] (dom_order fn)" if v: "v \<in> dom_nodes fn" "v \<noteq> f_entry fn" for v
  proof -
    have "v \<in> set (ds_order t)" using v(1) f(1) by (simp add: dom_nodes_def)
    then obtain u where u: "(u, v) \<in> cfg_edges fn" "subseq [v, u] (ds_po t)" using d(5,4) v(2) by (auto simp: dfs_parents_def)
    have "u \<in> set (ds_po t)" using u(2) subseq_pair by (metis nth_mem)
    then have "u \<in> dom_preds fn v" using u(1) f(1) by (simp add: dom_preds_def dom_nodes_def)
    moreover have "subseq (rev [v, u]) (rev (ds_po t))" by (rule subseq_reverse[OF u(2)])
    ultimately show ?thesis unfolding ord by auto
  qed
  then show ?thesis using d(1) po ord f(1-5) by (auto simp: dom_nodes_def hd_rev)
qed

lemma order_rank:
  assumes "b \<in> set (dom_order fn)"
  shows "dom_rank fn b < length (dom_order fn)" "dom_order fn ! dom_rank fn b = b"
proof -
  show l: "dom_rank fn b < length (dom_order fn)" 
    using assms takeWhile_dropWhile_id[of "\<lambda>x. x \<noteq> b" "dom_order fn"] dropWhile_eq_Nil_conv[of "\<lambda>x. x \<noteq> b" "dom_order fn"]
    unfolding dom_rank_def by (metis length_append length_greater_0_conv less_add_same_cancel1)
  then show "dom_order fn ! dom_rank fn b = b" unfolding dom_rank_def using nth_length_takeWhile by blast
qed

lemma rank_order:
  assumes "i < length (dom_order fn)" "distinct (dom_order fn)"
  shows "dom_rank fn (dom_order fn ! i) = i"
  using assms order_rank[of "dom_order fn ! i" fn] by (simp add: nth_eq_iff_index_eq)

lemma dom_order_all:
  "set (dom_order fn) = dom_nodes fn" "distinct (dom_order fn)" "dom_order fn \<noteq> []" "hd (dom_order fn) = f_entry fn"
  "v \<in> dom_nodes fn \<Longrightarrow> v \<noteq> f_entry fn \<Longrightarrow> \<exists>u \<in> dom_preds fn v. subseq [u, v] (dom_order fn)"
proof -
  have "set (dom_order fn) = dom_nodes fn \<and> distinct (dom_order fn) \<and> dom_order fn \<noteq> [] \<and> hd (dom_order fn) = f_entry fn
     \<and> (\<forall>v \<in> dom_nodes fn. v \<noteq> f_entry fn \<longrightarrow> (\<exists>u \<in> dom_preds fn v. subseq [u, v] (dom_order fn)))"
  proof (cases "f_entry fn < length (f_blocks fn)")
    case False
    have "(f_entry fn, b) \<in> (cfg_edges fn)\<^sup>* \<Longrightarrow> b = f_entry fn" for b
      by (induction rule: rtrancl_induct) (use False in \<open>auto simp: cfg_edges_def\<close>)
    then have "dom_nodes fn = {f_entry fn}" by (auto simp: dom_nodes_def)
    then show ?thesis using False by (simp add: dom_order_def)
  qed (use dom_search in blast)
  then show "set (dom_order fn) = dom_nodes fn" "distinct (dom_order fn)" "dom_order fn \<noteq> []" "hd (dom_order fn) = f_entry fn"
    "v \<in> dom_nodes fn \<Longrightarrow> v \<noteq> f_entry fn \<Longrightarrow> \<exists>u \<in> dom_preds fn v. subseq [u, v] (dom_order fn)" by blast+
qed

lemma order_rank_less:
  assumes "subseq [u, v] (dom_order fn)"
  shows "dom_rank fn u < dom_rank fn v"
proof -
  obtain i j where "i < j" "j < length (dom_order fn)" "dom_order fn ! i = u" "dom_order fn ! j = v" using subseq_pair[OF assms] by blast
  then show ?thesis using rank_order[of i fn] rank_order[of j fn] dom_order_all(2)[of fn] by auto
qed

interpretation dg: rpo_graph "dom_nodes fn" "f_entry fn" "dom_preds fn" "dom_rank fn" for fn
proof
  show "f_entry fn \<in> dom_nodes fn" by (simp add: dom_nodes_def)
  show "dom_preds fn b \<subseteq> dom_nodes fn" for b by (auto simp: dom_preds_def)
  show "inj_on (dom_rank fn) (dom_nodes fn)"
    using order_rank(2) dom_order_all(1) by (intro inj_onI) metis
  have "dom_order fn ! 0 = f_entry fn" "0 < length (dom_order fn)" using dom_order_all(3,4)[of fn] by (simp_all add: hd_conv_nth)
  then show "dom_rank fn (f_entry fn) = 0" using rank_order[of 0 fn] dom_order_all(2) by simp
  show "\<exists>p \<in> dom_preds fn b. dom_rank fn p < dom_rank fn b" if "b \<in> dom_nodes fn" "b \<noteq> f_entry fn" for b
    using dom_order_all(5)[OF that] order_rank_less by blast
qed

text \<open>The numbers the loop stores.\<close>

lemma dom_number_exact:
  assumes "distinct po" "set po \<subseteq> {..<n}" "n \<le> 2147483648"
  shows "\<exists>rpo. dom_number po (replicate n (- 1)) = Some rpo \<and> length rpo = n
     \<and> (\<forall>i < length po. rpo ! (rev po ! i) = int i) \<and> (\<forall>v < n. v \<notin> set po \<longrightarrow> rpo ! v = - 1)"
proof -
  have lt: "length po \<le> n" using assms(1,2) by (metis card_lessThan card_mono distinct_card finite_lessThan)
  have "m \<le> length po \<Longrightarrow> \<exists>rpo. foldM (\<lambda>rpo i. do { b \<leftarrow> rd po (length po - 1 - i); wr rpo b (i32 i) }) (replicate n (- 1)) [0..<m] = Some rpo
     \<and> length rpo = n \<and> (\<forall>i < m. rpo ! (rev po ! i) = int i) \<and> (\<forall>v < n. v \<notin> set (take m (rev po)) \<longrightarrow> rpo ! v = - 1)" for m
  proof (induction m)
    case (Suc m)
    then obtain rpo where IH: "foldM (\<lambda>rpo i. do { b \<leftarrow> rd po (length po - 1 - i); wr rpo b (i32 i) }) (replicate n (- 1)) [0..<m] = Some rpo"
      "length rpo = n" "\<forall>i < m. rpo ! (rev po ! i) = int i" "\<forall>v < n. v \<notin> set (take m (rev po)) \<longrightarrow> rpo ! v = - 1" by auto
    let ?b = "rev po ! m"
    have m: "m < length po" using Suc.prems by simp
    then have b: "rd po (length po - 1 - m) = Some ?b" "?b < n" using assms(2) by (auto simp: rev_nth subset_iff)
    have i: "i32 m = int m" using m lt assms(3) by (intro i32_small) simp
    have ne: "rev po ! i \<noteq> ?b" if "i < m" for i using that m assms(1) by (simp add: nth_eq_iff_index_eq)
    have "foldM (\<lambda>rpo i. do { b \<leftarrow> rd po (length po - 1 - i); wr rpo b (i32 i) }) (replicate n (- 1)) [0..<Suc m] = Some (rpo[?b := int m])"
      using IH(1,2) b i by (simp add: foldM_append)
    moreover have "\<forall>i < Suc m. rpo[?b := int m] ! (rev po ! i) = int i" 
    proof (intro allI impI)
      fix i assume "i < Suc m"
      then show "rpo[?b := int m] ! (rev po ! i) = int i" using IH(2,3) b(2) ne[of i] by (cases "i = m") simp_all
    qed
    moreover have "\<forall>v < n. v \<notin> set (take (Suc m) (rev po)) \<longrightarrow> rpo[?b := int m] ! v = - 1"
      using IH(2,4) m by (auto simp: take_Suc_conv_app_nth nth_list_update)
    ultimately show ?case using IH(2) by auto
  qed simp
  from this[of "length po"] show ?thesis by (simp add: dom_number_def)
qed

subsection \<open>Common ancestors\<close>

text \<open>The arrays while the blocks in \<open>Q\<close> have a parent.\<close>

definition dom_array :: "ny_function \<Rightarrow> int list \<Rightarrow> nat list \<Rightarrow> nat set \<Rightarrow> bool" where
  "dom_array fn rpo idom Q \<longleftrightarrow> (let n = length (f_blocks fn) in
     n \<le> 2147483648 \<and> length idom = n \<and> length rpo = n \<and> dom_nodes fn \<subseteq> {..<n} \<and> (\<forall>x \<in> dom_nodes fn. rpo ! x = int (dom_rank fn x))
     \<and> dg.tree fn ((!) idom) Q \<and> dg.below fn ((!) idom) Q \<and> (\<forall>x < n. idom ! x \<noteq> NY_INVALID_BLOCK \<longleftrightarrow> x \<in> Q))"

lemma dom_arrayD:
  assumes "dom_array fn rpo idom Q"
  shows "dg.tree fn ((!) idom) Q" "dg.below fn ((!) idom) Q" "x \<in> Q \<Longrightarrow> rd rpo x = Some (int (dom_rank fn x))"
    "x \<in> Q \<Longrightarrow> rd idom x = Some (idom ! x)" "x \<in> Q \<Longrightarrow> x < length (f_blocks fn)" "x \<in> Q \<Longrightarrow> x \<in> dom_nodes fn"
    "x < length (f_blocks fn) \<Longrightarrow> idom ! x \<noteq> NY_INVALID_BLOCK \<longleftrightarrow> x \<in> Q" "length idom = length (f_blocks fn)"
proof -
  show t: "dg.tree fn ((!) idom) Q" using assms unfolding dom_array_def Let_def by blast
  show "dg.below fn ((!) idom) Q" using assms unfolding dom_array_def Let_def by blast
  have sub: "Q \<subseteq> dom_nodes fn" using t by (simp add: dg.tree_def)
  then show "x \<in> Q \<Longrightarrow> x \<in> dom_nodes fn" by blast
  then show "x \<in> Q \<Longrightarrow> x < length (f_blocks fn)" using assms unfolding dom_array_def Let_def by blast
  then show "x \<in> Q \<Longrightarrow> rd rpo x = Some (int (dom_rank fn x))" "x \<in> Q \<Longrightarrow> rd idom x = Some (idom ! x)"
    using assms sub unfolding dom_array_def Let_def by auto
  show "x < length (f_blocks fn) \<Longrightarrow> idom ! x \<noteq> NY_INVALID_BLOCK \<longleftrightarrow> x \<in> Q" "length idom = length (f_blocks fn)"
    using assms unfolding dom_array_def Let_def by blast+
qed

lemma dom_walk_meets:
  assumes arr: "dom_array fn rpo idom Q" and y: "y \<in> Q"
  shows "x \<in> Q \<Longrightarrow> \<exists>z \<in> Q. dom_walk idom rpo x y = Some z \<and> dom_rank fn z \<le> dom_rank fn x
    \<and> (dom_rank fn y < dom_rank fn x \<longrightarrow> dom_rank fn z < dom_rank fn x)
    \<and> (\<forall>a. dg.up fn ((!) idom) x a \<and> dg.up fn ((!) idom) y a \<longleftrightarrow> dg.up fn ((!) idom) z a \<and> dg.up fn ((!) idom) y a)
    \<and> (\<forall>a. dg.dom fn a x \<longrightarrow> dg.dom fn a y \<longrightarrow> dg.dom fn a z)"
proof (induction "dom_rank fn x" arbitrary: x rule: less_induct)
  case less
  note A = dom_arrayD[OF arr]
  show ?case
  proof (cases "dom_rank fn y < dom_rank fn x")
    case False
    then have "dom_walk idom rpo x y = Some x" using A(3)[OF less.prems] A(3)[OF y] by (subst dom_walk.simps) simp
    then show ?thesis using less.prems False by auto
  next
    case True
    note w = dg.walk_step[OF A(1) less.prems y True]
    have e: "dom_walk idom rpo x y = dom_walk idom rpo (idom ! x) y"
      using A(3)[OF less.prems] A(3)[OF y] A(4)[OF less.prems] True by (subst dom_walk.simps) simp
    show ?thesis using less.hyps[OF w(2,1)] w(2,3) w(4)[OF A(2)] unfolding e by (meson order.strict_trans1 order.strict_implies_order order.trans)
  qed
qed

lemma dom_intersect_meets:
  assumes arr: "dom_array fn rpo idom Q"
  shows "x \<in> Q \<Longrightarrow> y \<in> Q \<Longrightarrow> \<exists>z \<in> Q. dom_intersect idom rpo x y = Some z
    \<and> (\<forall>a. dg.up fn ((!) idom) z a \<longleftrightarrow> dg.up fn ((!) idom) x a \<and> dg.up fn ((!) idom) y a)
    \<and> (\<forall>a. dg.dom fn a x \<longrightarrow> dg.dom fn a y \<longrightarrow> dg.dom fn a z)"
proof (induction "dom_rank fn x + dom_rank fn y" arbitrary: x y rule: less_induct)
  case less
  show ?case
  proof (cases "x = y")
    case True
    have "dom_intersect idom rpo x y = Some x" using True by (subst dom_intersect.simps) simp
    then show ?thesis using less.prems True by auto
  next
    case False
    then have ne: "dom_rank fn x \<noteq> dom_rank fn y" using dg.rank_eq dom_arrayD(6)[OF arr] less.prems by blast
    obtain f where f: "f \<in> Q" "dom_walk idom rpo x y = Some f" "dom_rank fn f \<le> dom_rank fn x" "dom_rank fn y < dom_rank fn x \<longrightarrow> dom_rank fn f < dom_rank fn x"
      "\<forall>a. dg.up fn ((!) idom) x a \<and> dg.up fn ((!) idom) y a \<longleftrightarrow> dg.up fn ((!) idom) f a \<and> dg.up fn ((!) idom) y a"
      "\<forall>a. dg.dom fn a x \<longrightarrow> dg.dom fn a y \<longrightarrow> dg.dom fn a f" using dom_walk_meets[OF arr less.prems(2,1)] by blast
    obtain g where g: "g \<in> Q" "dom_walk idom rpo y f = Some g" "dom_rank fn g \<le> dom_rank fn y" "dom_rank fn f < dom_rank fn y \<longrightarrow> dom_rank fn g < dom_rank fn y"
      "\<forall>a. dg.up fn ((!) idom) y a \<and> dg.up fn ((!) idom) f a \<longleftrightarrow> dg.up fn ((!) idom) g a \<and> dg.up fn ((!) idom) f a"
      "\<forall>a. dg.dom fn a y \<longrightarrow> dg.dom fn a f \<longrightarrow> dg.dom fn a g" using dom_walk_meets[OF arr f(1) less.prems(2)] by blast
    have "dom_rank fn f + dom_rank fn g < dom_rank fn x + dom_rank fn y" using ne f(3,4) g(3,4) by linarith
    from less.hyps[OF this f(1) g(1)] obtain z where z: "z \<in> Q" "dom_intersect idom rpo f g = Some z"
      "\<forall>a. dg.up fn ((!) idom) z a \<longleftrightarrow> dg.up fn ((!) idom) f a \<and> dg.up fn ((!) idom) g a"
      "\<forall>a. dg.dom fn a f \<longrightarrow> dg.dom fn a g \<longrightarrow> dg.dom fn a z" by blast
    have "dom_intersect idom rpo x y = dom_intersect idom rpo f g" using False f(2) g(2) by (subst dom_intersect.simps) simp
    then show ?thesis using z f(5,6) g(5,6) by (intro bexI[of _ z]) auto
  qed
qed

text \<open>One step computes the common ancestors of the predecessors that have a parent.\<close>

lemma dom_first_pred:
  assumes arr: "dom_array fn rpo idom Q" and ps: "set ps \<subseteq> {..<length (f_blocks fn)}"
  shows "if set ps \<inter> Q = {} then dom_first guarded (length (f_blocks fn)) idom ps = Some NY_INVALID_BLOCK
    else \<exists>p \<in> set ps \<inter> Q. dom_first guarded (length (f_blocks fn)) idom ps = Some p"
  using ps dom_arrayD(7,8)[OF arr] by (induction ps) (auto simp: idom_read_def)

lemma dom_join_all:
  assumes arr: "dom_array fn rpo idom Q" and ps: "set ps \<subseteq> {..<length (f_blocks fn)}"
  shows "f \<in> Q \<Longrightarrow> \<exists>z \<in> Q. foldM (dom_join guarded (length (f_blocks fn)) idom rpo) f ps = Some z
    \<and> (\<forall>a. dg.up fn ((!) idom) z a \<longleftrightarrow> dg.up fn ((!) idom) f a \<and> (\<forall>p \<in> set ps \<inter> Q. dg.up fn ((!) idom) p a))
    \<and> (\<forall>a. dg.dom fn a f \<longrightarrow> (\<forall>p \<in> set ps \<inter> Q. dg.dom fn a p) \<longrightarrow> dg.dom fn a z)"
  using ps
proof (induction ps arbitrary: f)
  case (Cons p ps)
  have p: "p < length (f_blocks fn)" "idom_read guarded (length (f_blocks fn)) idom p = Some (idom ! p)"
    using Cons.prems dom_arrayD(8)[OF arr] by (simp_all add: idom_read_def)
  note IH = Cons.IH
  have ps: "set ps \<subseteq> {..<length (f_blocks fn)}" using Cons.prems by simp
  show ?case
  proof (cases "p = f \<or> p \<notin> Q")
    case True
    then have "dom_join guarded (length (f_blocks fn)) idom rpo f p = Some f" using p dom_arrayD(7)[OF arr p(1)] by (auto simp: dom_join_def)
    then show ?thesis using IH[OF Cons.prems(1) ps] True by auto
  next
    case False
    then obtain g where g: "g \<in> Q" "dom_intersect idom rpo p f = Some g"
      "\<forall>a. dg.up fn ((!) idom) g a \<longleftrightarrow> dg.up fn ((!) idom) p a \<and> dg.up fn ((!) idom) f a"
      "\<forall>a. dg.dom fn a p \<longrightarrow> dg.dom fn a f \<longrightarrow> dg.dom fn a g"
      using dom_intersect_meets[OF arr, of p f] Cons.prems(1) by blast
    have "dom_join guarded (length (f_blocks fn)) idom rpo f p = Some g" using False p g(2) dom_arrayD(7)[OF arr p(1)] by (simp add: dom_join_def)
    then show ?thesis using IH[OF g(1) ps] g(3,4) False by auto
  qed
qed simp

lemma edges_cfg: "edges_wf fn \<Longrightarrow> cfg_edges fn = edges fn"
  by (auto simp: edges_wf_def cfg_edges_def edges_def ny_cfg_get_successors_def)

lemma dom_update_computes:
  assumes arr: "dom_array fn rpo idom Q" and ew: "edges_wf fn" and i: "i < length (dom_order fn)" "0 < i"
    and some: "dom_preds fn (dom_order fn ! i) \<inter> Q \<noteq> {}"
  shows "\<exists>N. dom_update guarded fn (length (f_blocks fn)) (rev (dom_order fn)) rpo (idom, ch) i
      = Some (idom[dom_order fn ! i := N], ch \<or> idom ! (dom_order fn ! i) \<noteq> N) \<and> dg.computed fn ((!) idom) Q (dom_order fn ! i) N"
proof -
  let ?n = "length (f_blocks fn)" and ?b = "dom_order fn ! i"
  have b: "?b \<in> dom_nodes fn" using i(1) dom_order_all(1) nth_mem by blast
  then have bn: "?b < ?n" using arr by (auto simp: dom_array_def Let_def)
  let ?ps = "b_preds (f_blocks fn ! ?b)"
  have ps: "set ?ps = {p. (p, ?b) \<in> cfg_edges fn}" using ew bn edges_cfg by (auto simp: edges_wf_def)
  then have psn: "set ?ps \<subseteq> {..<?n}" by (auto simp: cfg_edges_def)
  have Q: "Q \<subseteq> dom_nodes fn" using dom_arrayD(6)[OF arr] by blast
  then have PQ: "set ?ps \<inter> Q = dom_preds fn ?b \<inter> Q" using ps by (auto simp: dom_preds_def)
  obtain f where f: "f \<in> set ?ps \<inter> Q" "dom_first guarded ?n idom ?ps = Some f"
    using dom_first_pred[OF arr psn, of guarded] some PQ by (auto split: if_splits)
  have fi: "f \<noteq> NY_INVALID_BLOCK" using f(1) psn arr by (auto simp: dom_array_def NY_INVALID_def)
  obtain z where z: "z \<in> Q" "foldM (dom_join guarded ?n idom rpo) f ?ps = Some z"
    "\<forall>a. dg.up fn ((!) idom) z a \<longleftrightarrow> dg.up fn ((!) idom) f a \<and> (\<forall>p \<in> set ?ps \<inter> Q. dg.up fn ((!) idom) p a)"
    "\<forall>a. dg.dom fn a f \<longrightarrow> (\<forall>p \<in> set ?ps \<inter> Q. dg.dom fn a p) \<longrightarrow> dg.dom fn a z" using dom_join_all[OF arr psn, of f guarded] f(1) by blast
  have read: "rd (rev (dom_order fn)) (length (rev (dom_order fn)) - 1 - i) = Some ?b"
    using i(1) by (simp add: rev_nth)
  have "dom_update guarded fn ?n (rev (dom_order fn)) rpo (idom, ch) i
      = (if idom ! ?b \<noteq> z then Some (idom[?b := z], True) else Some (idom, ch))"
    using read bn f(2) fi z(2) dom_arrayD(8)[OF arr] by (simp add: dom_update_def)
  then have "dom_update guarded fn ?n (rev (dom_order fn)) rpo (idom, ch) i = Some (idom[?b := z], ch \<or> idom ! ?b \<noteq> z)" by auto
  moreover have "dg.computed fn ((!) idom) Q ?b z" unfolding dg.computed_def using z f(1) unfolding PQ by blast
  ultimately show ?thesis by blast
qed

subsection \<open>The sweeps\<close>

lemma nth_update_fun: "b < length xs \<Longrightarrow> (!) (xs[b := v]) = ((!) xs)(b := v)"
  by (rule ext) (simp add: nth_list_update)

lemma order_at:
  assumes "i < length (dom_order fn)"
  shows "dom_order fn ! i \<in> dom_nodes fn" "dom_rank fn (dom_order fn ! i) = i" "dom_order fn ! i \<noteq> f_entry fn \<longleftrightarrow> 0 < i"
proof -
  show m: "dom_order fn ! i \<in> dom_nodes fn" using assms dom_order_all(1) nth_mem by blast
  show r: "dom_rank fn (dom_order fn ! i) = i" using rank_order[OF assms dom_order_all(2)] .
  show "dom_order fn ! i \<noteq> f_entry fn \<longleftrightarrow> 0 < i"
    using r dg.rank_eq[OF m dg.eR] dg.r0[of fn] by (metis gr0I less_irrefl)
qed

definition dom_setting :: "ny_function \<Rightarrow> int list \<Rightarrow> bool" where
  "dom_setting fn rpo \<longleftrightarrow> (let n = length (f_blocks fn) in
     edges_wf fn \<and> n \<le> 2147483648 \<and> length rpo = n \<and> dom_nodes fn \<subseteq> {..<n} \<and> (\<forall>x \<in> dom_nodes fn. rpo ! x = int (dom_rank fn x)))"

lemma dom_arrayI:
  assumes "dom_setting fn rpo" "length idom = length (f_blocks fn)" "dg.tree fn ((!) idom) Q" "dg.below fn ((!) idom) Q"
    "\<forall>x < length (f_blocks fn). idom ! x \<noteq> NY_INVALID_BLOCK \<longleftrightarrow> x \<in> Q"
  shows "dom_array fn rpo idom Q"
  using assms by (simp add: dom_array_def dom_setting_def Let_def)

lemma dom_first_sweep:
  assumes set: "dom_setting fn rpo" and len: "length idom0 = length (f_blocks fn)"
    and e0: "\<forall>x < length (f_blocks fn). idom0 ! x \<noteq> NY_INVALID_BLOCK \<longleftrightarrow> x = f_entry fn"
  shows "m \<le> length (dom_order fn) \<Longrightarrow> 0 < m \<Longrightarrow>
    \<exists>idom. foldM (dom_update guarded fn (length (f_blocks fn)) (rev (dom_order fn)) rpo) (idom0, False) [1..<m] = Some (idom, 1 < m)
     \<and> length idom = length (f_blocks fn) \<and> idom ! f_entry fn = idom0 ! f_entry fn \<and> dg.first_swept fn ((!) idom) m
     \<and> (\<forall>x < length (f_blocks fn). idom ! x \<noteq> NY_INVALID_BLOCK \<longleftrightarrow> x \<in> dom_nodes fn \<and> dom_rank fn x < m)"
proof (induction m)
  case (Suc m)
  let ?n = "length (f_blocks fn)"
  have nodes: "dom_nodes fn \<subseteq> {..<?n}" and ew: "edges_wf fn" using set by (simp_all add: dom_setting_def Let_def)
  show ?case
  proof (cases "m = 0")
    case True
    have "x \<in> dom_nodes fn \<and> dom_rank fn x < 1 \<longleftrightarrow> x = f_entry fn" for x
      using dg.eR[of fn] dg.r0[of fn] dg.rank_pos[of x fn] by (cases "x = f_entry fn") simp_all
    then show ?thesis using True len e0 dg.first_start by simp
  next
    case False
    let ?b = "dom_order fn ! m" and ?Q = "{x \<in> dom_nodes fn. dom_rank fn x < m}"
    obtain idom where IH: "foldM (dom_update guarded fn ?n (rev (dom_order fn)) rpo) (idom0, False) [1..<m] = Some (idom, 1 < m)"
      "length idom = ?n" "idom ! f_entry fn = idom0 ! f_entry fn" "dg.first_swept fn ((!) idom) m"
      "\<forall>x < ?n. idom ! x \<noteq> NY_INVALID_BLOCK \<longleftrightarrow> x \<in> dom_nodes fn \<and> dom_rank fn x < m" using Suc.IH Suc.prems False by auto
    have m: "m < length (dom_order fn)" using Suc.prems by simp
    note o = order_at[OF m]
    have bn: "?b < ?n" and be: "?b \<noteq> f_entry fn" using o nodes False by auto
    have t: "dg.tree fn ((!) idom) ?Q" "dg.below fn ((!) idom) ?Q" using dg.first_tree[OF IH(4), of m] False by simp_all
    have arr: "dom_array fn rpo idom ?Q" by (rule dom_arrayI[OF set IH(2) t]) (use IH(5) in simp)
    have ne: "dom_preds fn ?b \<inter> ?Q \<noteq> {}" using dg.fwd[OF o(1) be] dg.PR[OF o(1)] o(2) by auto
    obtain N where N: "dom_update guarded fn ?n (rev (dom_order fn)) rpo (idom, 1 < m) m = Some (idom[?b := N], 1 < m \<or> idom ! ?b \<noteq> N)"
      "dg.computed fn ((!) idom) ?Q ?b N" using dom_update_computes[OF arr ew m _ ne] False by blast
    have NQ: "N \<in> ?Q" using N(2) by (simp add: dg.computed_def)
    have old: "idom ! ?b = NY_INVALID_BLOCK" using IH(5) bn o(2) by auto
    have "N < 2147483648" using NQ nodes set by (auto simp: dom_setting_def Let_def)
    then have new: "N \<noteq> NY_INVALID_BLOCK" by (simp add: NY_INVALID_def)
    have "dg.first_swept fn ((!) (idom[?b := N])) (Suc m)"
      using dg.first_step[OF IH(4) o(1) be o(2) N(2)] bn IH(2) by (simp add: nth_update_fun)
    moreover have "idom[?b := N] ! x \<noteq> NY_INVALID_BLOCK \<longleftrightarrow> x \<in> dom_nodes fn \<and> dom_rank fn x < Suc m" if "x < ?n" for x
    proof (cases "x = ?b")
      case True
      then show ?thesis using new o bn IH(2) by simp
    next
      case False
      then show ?thesis using IH(5) that dg.rank_eq[OF o(1), of x] o(2) by (auto simp: less_Suc_eq)
    qed
    moreover have "[1..<Suc m] = [1..<m] @ [m]" using False by simp
    ultimately show ?thesis using IH(1-3) N(1) old new be False by (auto simp: foldM_append)
  qed
qed simp

lemma dom_next_sweep:
  assumes set: "dom_setting fn rpo" and len: "length idom0 = length (f_blocks fn)" and o: "dg.settled fn ((!) idom0)"
    and e0: "\<forall>x < length (f_blocks fn). idom0 ! x \<noteq> NY_INVALID_BLOCK \<longleftrightarrow> x \<in> dom_nodes fn"
  shows "m \<le> length (dom_order fn) \<Longrightarrow> 0 < m \<Longrightarrow>
    \<exists>idom ch. foldM (dom_update guarded fn (length (f_blocks fn)) (rev (dom_order fn)) rpo) (idom0, False) [1..<m] = Some (idom, ch)
     \<and> length idom = length (f_blocks fn) \<and> idom ! f_entry fn = idom0 ! f_entry fn \<and> dg.swept fn ((!) idom0) ((!) idom) m
     \<and> (ch \<longleftrightarrow> (\<exists>x \<in> dom_nodes fn. idom ! x \<noteq> idom0 ! x)) \<and> (\<forall>x < length (f_blocks fn). x \<notin> dom_nodes fn \<longrightarrow> idom ! x = idom0 ! x)
     \<and> (\<forall>x < length (f_blocks fn). idom ! x \<noteq> NY_INVALID_BLOCK \<longleftrightarrow> x \<in> dom_nodes fn)"
proof (induction m)
  case (Suc m)
  let ?n = "length (f_blocks fn)"
  have nodes: "dom_nodes fn \<subseteq> {..<?n}" and ew: "edges_wf fn" using set by (simp_all add: dom_setting_def Let_def)
  show ?case
  proof (cases "m = 0")
    case True
    then show ?thesis using len e0 dg.swept_start by simp
  next
    case False
    let ?b = "dom_order fn ! m"
    obtain idom ch where IH: "foldM (dom_update guarded fn ?n (rev (dom_order fn)) rpo) (idom0, False) [1..<m] = Some (idom, ch)"
      "length idom = ?n" "idom ! f_entry fn = idom0 ! f_entry fn" "dg.swept fn ((!) idom0) ((!) idom) m"
      "ch \<longleftrightarrow> (\<exists>x \<in> dom_nodes fn. idom ! x \<noteq> idom0 ! x)" "\<forall>x < ?n. x \<notin> dom_nodes fn \<longrightarrow> idom ! x = idom0 ! x"
      "\<forall>x < ?n. idom ! x \<noteq> NY_INVALID_BLOCK \<longleftrightarrow> x \<in> dom_nodes fn" using Suc.IH Suc.prems False by auto
    have m: "m < length (dom_order fn)" using Suc.prems by simp
    note ob = order_at[OF m]
    have bn: "?b < ?n" and be: "?b \<noteq> f_entry fn" using ob nodes False by auto
    note t = dg.swept_tree[OF o IH(4)]
    have arr: "dom_array fn rpo idom (dom_nodes fn)" by (rule dom_arrayI[OF set IH(2) t]) (use IH(7) in simp)
    have ne: "dom_preds fn ?b \<inter> dom_nodes fn \<noteq> {}" using dg.fwd[OF ob(1) be] dg.PR[OF ob(1)] by auto
    obtain N where N: "dom_update guarded fn ?n (rev (dom_order fn)) rpo (idom, ch) m = Some (idom[?b := N], ch \<or> idom ! ?b \<noteq> N)"
      "dg.computed fn ((!) idom) (dom_nodes fn) ?b N" using dom_update_computes[OF arr ew m _ ne] False by blast
    have "N \<in> dom_nodes fn" using N(2) by (simp add: dg.computed_def)
    then have "N < 2147483648" using nodes set by (auto simp: dom_setting_def Let_def)
    then have new: "N \<noteq> NY_INVALID_BLOCK" by (simp add: NY_INVALID_def)
    have old: "idom ! ?b = idom0 ! ?b" using IH(4) ob be by (simp add: dg.swept_def)
    have sw: "dg.swept fn ((!) idom0) ((!) (idom[?b := N])) (Suc m)"
      using dg.swept_step[OF IH(4) ob(1) be ob(2) o N(2)] bn IH(2) by (simp add: nth_update_fun)
    have ch: "(ch \<or> idom ! ?b \<noteq> N) \<longleftrightarrow> (\<exists>x \<in> dom_nodes fn. idom[?b := N] ! x \<noteq> idom0 ! x)"
      using IH(2,5) old bn ob(1) by (metis nth_list_update_eq nth_list_update_neq)
    have same: "\<forall>x < ?n. x \<notin> dom_nodes fn \<longrightarrow> idom[?b := N] ! x = idom0 ! x" using IH(6) ob(1) by (metis nth_list_update_neq)
    have inv: "\<forall>x < ?n. idom[?b := N] ! x \<noteq> NY_INVALID_BLOCK \<longleftrightarrow> x \<in> dom_nodes fn"
      using IH(2,7) ob(1) new bn by (metis nth_list_update_eq nth_list_update_neq)
    have "[1..<Suc m] = [1..<m] @ [m]" using False by simp
    then have "foldM (dom_update guarded fn ?n (rev (dom_order fn)) rpo) (idom0, False) [1..<Suc m] = Some (idom[?b := N], ch \<or> idom ! ?b \<noteq> N)"
      using IH(1) N(1) by (simp add: foldM_append)
    moreover have "idom[?b := N] ! f_entry fn = idom0 ! f_entry fn" using IH(3) be by simp
    moreover have "length (idom[?b := N]) = ?n" using IH(2) by simp
    ultimately show ?thesis using sw ch same inv by blast
  qed
qed simp

subsection \<open>The iteration ends with the dominators\<close>

definition dom_result :: "ny_function \<Rightarrow> nat list \<Rightarrow> bool" where
  "dom_result fn idom \<longleftrightarrow> length idom = length (f_blocks fn) \<and> dg.settled fn ((!) idom) \<and> idom ! f_entry fn = f_entry fn
     \<and> (\<forall>b \<in> dom_nodes fn. \<forall>a. dg.up fn ((!) idom) b a \<longleftrightarrow> dg.dom fn a b)
     \<and> (\<forall>x < length (f_blocks fn). idom ! x \<noteq> NY_INVALID_BLOCK \<longleftrightarrow> x \<in> dom_nodes fn)"

lemma rank_full: "\<forall>b \<in> dom_nodes fn. dom_rank fn b < length (dom_order fn)"
  using order_rank(1) dom_order_all(1) by blast

lemma finite_nodes: "finite (dom_nodes fn)"
  using dom_order_all(1)[of fn] by (metis List.finite_set)

lemma dom_solve_settled:
  assumes set: "dom_setting fn rpo"
  shows "\<lbrakk>length idom0 = length (f_blocks fn); dg.settled fn ((!) idom0); idom0 ! f_entry fn = f_entry fn;
      \<forall>x < length (f_blocks fn). idom0 ! x \<noteq> NY_INVALID_BLOCK \<longleftrightarrow> x \<in> dom_nodes fn\<rbrakk>
    \<Longrightarrow> \<exists>idom. dom_solve guarded fn (length (f_blocks fn)) (rev (dom_order fn)) rpo idom0 = Some idom \<and> dom_result fn idom"
proof (induction "\<Sum>x \<in> dom_nodes fn. dom_rank fn (idom0 ! x)" arbitrary: idom0 rule: less_induct)
  case less
  let ?n = "length (f_blocks fn)"
  have nodes: "dom_nodes fn \<subseteq> {..<?n}" using set by (simp add: dom_setting_def Let_def)
  have l: "0 < length (dom_order fn)" using dom_order_all(3)[of fn] by simp
  obtain idom ch where S: "foldM (dom_update guarded fn ?n (rev (dom_order fn)) rpo) (idom0, False) [1..<length (dom_order fn)] = Some (idom, ch)"
      "length idom = ?n" "idom ! f_entry fn = idom0 ! f_entry fn" "dg.swept fn ((!) idom0) ((!) idom) (length (dom_order fn))"
      "ch \<longleftrightarrow> (\<exists>x \<in> dom_nodes fn. idom ! x \<noteq> idom0 ! x)" "\<forall>x < ?n. x \<notin> dom_nodes fn \<longrightarrow> idom ! x = idom0 ! x"
      "\<forall>x < ?n. idom ! x \<noteq> NY_INVALID_BLOCK \<longleftrightarrow> x \<in> dom_nodes fn"
    using dom_next_sweep[OF set less.prems(1,2,4) order_refl l] by blast
  have solve: "dom_solve guarded fn ?n (rev (dom_order fn)) rpo idom0
      = (if ch then dom_solve guarded fn ?n (rev (dom_order fn)) rpo idom else Some idom)" using S(1) by (subst dom_solve.simps) simp
  show ?case
  proof (cases ch)
    case False
    have "idom ! x = idom0 ! x" if "x < ?n" for x using S(5,6) False that by blast
    then have same: "idom = idom0" by (intro nth_equalityI) (use S(2) less.prems(1) in auto)
    have "dg.up fn ((!) idom0) b a \<longleftrightarrow> dg.dom fn a b" if "b \<in> dom_nodes fn" for a b
      by (rule dg.fixpoint_dom[OF less.prems(2) S(4)[unfolded same] rank_full that])
    then have "dom_result fn idom0" using less.prems unfolding dom_result_def by blast
    then show ?thesis using solve False same by simp
  next
    case True
    note w = dg.sweep_settled[OF less.prems(2) S(4) rank_full]
    have le: "dom_rank fn (idom ! x) \<le> dom_rank fn (idom0 ! x)" if "x \<in> dom_nodes fn" for x using w(2)[OF that] S(3) by (cases "x = f_entry fn") auto
    obtain x where x: "x \<in> dom_nodes fn" "idom ! x \<noteq> idom0 ! x" using S(5) True by blast
    then have xe: "x \<noteq> f_entry fn" using S(3) by auto
    have "dg.tree fn ((!) idom0) (dom_nodes fn)" "dg.tree fn ((!) idom) (dom_nodes fn)" using less.prems(2) w(1) by (simp_all add: dg.settled_def)
    then have "idom0 ! x \<in> dom_nodes fn" "idom ! x \<in> dom_nodes fn" using x(1) xe unfolding dg.tree_def by blast+
    then have "dom_rank fn (idom ! x) < dom_rank fn (idom0 ! x)" using x le[OF x(1)] dg.rank_eq[of "idom ! x" fn "idom0 ! x"] by fastforce
    then have "(\<Sum>x \<in> dom_nodes fn. dom_rank fn (idom ! x)) < (\<Sum>x \<in> dom_nodes fn. dom_rank fn (idom0 ! x))"
      using x(1) le by (intro sum_strict_mono_ex1[OF finite_nodes]) auto
    from less.hyps[OF this S(2) w(1) _ S(7)] show ?thesis using S(3) less.prems(3) solve True by simp
  qed
qed

lemma dom_run_exact:
  assumes ew: "edges_wf fn" and entry: "f_entry fn < length (f_blocks fn)" and small: "length (f_blocks fn) \<le> 2147483648"
  shows "\<exists>idom rpo. dom_run guarded fn (length (f_blocks fn)) (dom_start fn (length (f_blocks fn))) = Some (idom, rpo) \<and> dom_result fn idom
    \<and> dom_setting fn rpo \<and> (\<forall>v < length (f_blocks fn). v \<notin> dom_nodes fn \<longrightarrow> rpo ! v = - 1)"
proof -
  let ?n = "length (f_blocks fn)" and ?e = "f_entry fn"
  obtain d where d: "dom_dfs_loop fn ?n (dom_start fn ?n) = Some d" "dd_po d = rev (dom_order fn)" "set (dom_order fn) \<subseteq> {..<?n}"
    using dom_search[OF entry] by blast
  obtain rpo where r: "dom_number (rev (dom_order fn)) (replicate ?n (- 1)) = Some rpo" "length rpo = ?n"
     "\<forall>i < length (dom_order fn). rpo ! (dom_order fn ! i) = int i" "\<forall>v < ?n. v \<notin> dom_nodes fn \<longrightarrow> rpo ! v = - 1"
    using dom_number_exact[of "rev (dom_order fn)" ?n] d(3) small dom_order_all(1,2)[of fn] by auto
  have "rpo ! x = int (dom_rank fn x)" if "x \<in> dom_nodes fn" for x
    using r(3) order_rank[of x fn] that dom_order_all(1) by metis
  then have set: "dom_setting fn rpo" using ew small r(2) d(3) dom_order_all(1)[of fn] by (simp add: dom_setting_def Let_def)
  let ?i0 = "(replicate ?n NY_INVALID_BLOCK)[?e := ?e]"
  have l: "0 < length (dom_order fn)" using dom_order_all(3)[of fn] by simp
  have "?e \<noteq> NY_INVALID_BLOCK" using entry small by (simp add: NY_INVALID_def)
  then have e0: "\<forall>x < ?n. ?i0 ! x \<noteq> NY_INVALID_BLOCK \<longleftrightarrow> x = ?e" using entry by (auto simp: nth_list_update)
  obtain idom where S: "foldM (dom_update guarded fn ?n (rev (dom_order fn)) rpo) (?i0, False) [1..<length (dom_order fn)] = Some (idom, 1 < length (dom_order fn))"
      "length idom = ?n" "idom ! ?e = ?e" "dg.first_swept fn ((!) idom) (length (dom_order fn))"
      "\<forall>x < ?n. idom ! x \<noteq> NY_INVALID_BLOCK \<longleftrightarrow> x \<in> dom_nodes fn"
    using dom_first_sweep[OF set _ e0 order_refl l, of guarded] entry rank_full by auto
  have st: "dg.settled fn ((!) idom)" by (rule dg.first_settled[OF S(4) rank_full])
  have solve: "dom_solve guarded fn ?n (rev (dom_order fn)) rpo ?i0
      = (if 1 < length (dom_order fn) then dom_solve guarded fn ?n (rev (dom_order fn)) rpo idom else Some idom)"
    using S(1) by (subst dom_solve.simps) simp
  have "\<exists>res. dom_solve guarded fn ?n (rev (dom_order fn)) rpo ?i0 = Some res \<and> dom_result fn res"
  proof (cases "1 < length (dom_order fn)")
    case True
    then show ?thesis using dom_solve_settled[OF set S(2) st S(3,5)] solve by simp
  next
    case False
    then have one: "length (dom_order fn) = Suc 0" using l by linarith
    have "dg.up fn ((!) idom) b a \<longleftrightarrow> dg.dom fn a b" if "b \<in> dom_nodes fn" for a b
      by (rule dg.fixpoint_dom[OF st dg.swept_start _ that]) (use rank_full[of fn, unfolded one] in simp)
    then have "dom_result fn idom" using S st by (simp add: dom_result_def)
    then show ?thesis using solve False by simp
  qed
  then show ?thesis using d(1,2) r(1,4) entry set by (auto simp: dom_run_def)
qed

subsection \<open>Queries\<close>

lemma dom_up_walks:
  assumes res: "dom_result fn idom" and nodes: "dom_nodes fn \<subseteq> {..<length (f_blocks fn)}"
  shows "b \<in> dom_nodes fn \<Longrightarrow> \<exists>c. dom_up idom (f_entry fn) a b = Some c \<and> (c = a \<longleftrightarrow> dg.up fn ((!) idom) b a)"
proof (induction "dom_rank fn b" arbitrary: b rule: less_induct)
  case less
  let ?n = "length (f_blocks fn)"
  show ?case
  proof (cases "b = a \<or> b = f_entry fn")
    case True
    then have "dom_up idom (f_entry fn) a b = Some b" by (subst dom_up.simps) auto
    then show ?thesis using True by (auto intro: dg.up.here)
  next
    case False
    have t: "dg.tree fn ((!) idom) (dom_nodes fn)" using res by (simp add: dom_result_def dg.settled_def)
    then have p: "idom ! b \<in> dom_nodes fn" "dom_rank fn (idom ! b) < dom_rank fn b" using less.prems False by (auto simp: dg.tree_def)
    have "b < ?n" "idom ! b \<noteq> NY_INVALID_BLOCK" using res less.prems nodes by (auto simp: dom_result_def)
    moreover have "idom ! b \<noteq> b" using p(2) by auto
    ultimately have "dom_up idom (f_entry fn) a b = dom_up idom (f_entry fn) a (idom ! b)"
      using False res by (subst dom_up.simps) (simp add: dom_result_def)
    then show ?thesis using less.hyps[OF p(2,1)] False dg.up_cases[of fn "(!) idom" b a] by auto
  qed
qed

lemma dom_query_exact:
  assumes res: "dom_result fn idom" and set: "dom_setting fn rpo" and none: "\<forall>v < length (f_blocks fn). v \<notin> dom_nodes fn \<longrightarrow> rpo ! v = - 1"
  shows "dom_query idom rpo (f_entry fn) a b = Some (a = b \<or> a \<in> dom_nodes fn \<and> b \<in> dom_nodes fn \<and> dg.dom fn a b)"
proof -
  let ?n = "length (f_blocks fn)"
  have len: "length idom = ?n" "length rpo = ?n" and nodes: "dom_nodes fn \<subseteq> {..<?n}" using res set by (simp_all add: dom_result_def dom_setting_def Let_def)
  have neg: "rpo ! x < 0 \<longleftrightarrow> x \<notin> dom_nodes fn" if "x < ?n" for x using set none that by (auto simp: dom_setting_def Let_def)
  obtain c where c: "b \<in> dom_nodes fn \<longrightarrow> dom_up idom (f_entry fn) a b = Some c \<and> (c = a \<longleftrightarrow> dg.up fn ((!) idom) b a)"
    using dom_up_walks[OF res nodes] by blast
  have ex: "b \<in> dom_nodes fn \<longrightarrow> (dg.up fn ((!) idom) b a \<longleftrightarrow> dg.dom fn a b)" using res unfolding dom_result_def by blast
  show ?thesis using len nodes neg c ex by (auto simp: dom_query_def)
qed

subsection \<open>Dominance along paths\<close>

definition cfg_path :: "ny_function \<Rightarrow> nat list \<Rightarrow> bool" where
  "cfg_path fn ps \<longleftrightarrow> ps \<noteq> [] \<and> hd ps = f_entry fn \<and> successively (\<lambda>u v. (u, v) \<in> cfg_edges fn) ps"

definition cfg_reachable :: "ny_function \<Rightarrow> nat \<Rightarrow> bool" where
  "cfg_reachable fn b \<longleftrightarrow> (\<exists>ps. cfg_path fn ps \<and> last ps = b)"

text \<open>Every path from the entry to \<open>b\<close> passes \<open>a\<close>.\<close>

definition cfg_dominates :: "ny_function \<Rightarrow> nat \<Rightarrow> nat \<Rightarrow> bool" where
  "cfg_dominates fn a b \<longleftrightarrow> (\<forall>ps. cfg_path fn ps \<longrightarrow> last ps = b \<longrightarrow> a \<in> set ps)"

lemma cfg_path_snoc: "ps \<noteq> [] \<Longrightarrow> cfg_path fn (ps @ [b]) \<longleftrightarrow> cfg_path fn ps \<and> (last ps, b) \<in> cfg_edges fn"
  by (auto simp: cfg_path_def successively_append_iff)

lemma cfg_path_one: "cfg_path fn [b] \<longleftrightarrow> b = f_entry fn"
  by (auto simp: cfg_path_def)

lemma cfg_path_nodes: "cfg_path fn ps \<Longrightarrow> last ps \<in> dom_nodes fn"
proof (induction ps rule: rev_induct)
  case (snoc b ps)
  then show ?case by (cases "ps = []") (auto simp: cfg_path_one cfg_path_snoc dom_nodes_def intro: rtrancl_into_rtrancl)
qed (simp add: cfg_path_def)

lemma avoid_path:
  "dg.avoid fn a b \<Longrightarrow> \<exists>ps. cfg_path fn ps \<and> last ps = b \<and> a \<notin> set ps"
proof (induction rule: dg.avoid.induct)
  case start
  then show ?case by (intro exI[of _ "[f_entry fn]"]) (simp add: cfg_path_one)
next
  case (move p b)
  then obtain ps where "cfg_path fn ps" "last ps = p" "a \<notin> set ps" by blast
  then show ?case using move.hyps by (intro exI[of _ "ps @ [b]"]) (auto simp: cfg_path_snoc dom_preds_def cfg_path_def successively_append_iff)
qed

lemma path_avoid: "cfg_path fn ps \<Longrightarrow> a \<notin> set ps \<Longrightarrow> dg.avoid fn a (last ps)"
proof (induction ps rule: rev_induct)
  case (snoc b ps)
  show ?case
  proof (cases "ps = []")
    case True
    then show ?thesis using snoc.prems by (auto simp: cfg_path_one intro: dg.avoid.start)
  next
    case False
    then have p: "cfg_path fn ps" "(last ps, b) \<in> cfg_edges fn" "a \<notin> set ps" "a \<noteq> b" using snoc.prems by (simp_all add: cfg_path_snoc)
    have "last ps \<in> dom_preds fn b" using p(2) cfg_path_nodes[OF p(1)] by (simp add: dom_preds_def)
    moreover have "b \<in> dom_nodes fn" using cfg_path_nodes[OF snoc.prems(1)] by simp
    ultimately show ?thesis using dg.avoid.move[OF snoc.IH[OF p(1,3)]] p(4) by simp
  qed
qed (simp add: cfg_path_def)

lemma dom_paths: "dg.dom fn a b \<longleftrightarrow> cfg_dominates fn a b"
  unfolding dg.dom_def cfg_dominates_def using avoid_path path_avoid by blast

lemma reachable_nodes: "cfg_reachable fn b \<longleftrightarrow> b \<in> dom_nodes fn"
proof
  have "(f_entry fn, b) \<in> (cfg_edges fn)\<^sup>* \<Longrightarrow> cfg_reachable fn b"
  proof (induction rule: rtrancl_induct)
    case base
    show ?case unfolding cfg_reachable_def by (intro exI[of _ "[f_entry fn]"]) (simp add: cfg_path_one)
  next
    case (step p b)
    then obtain ps where "cfg_path fn ps" "last ps = p" by (auto simp: cfg_reachable_def)
    then show ?case using step.hyps unfolding cfg_reachable_def
      by (intro exI[of _ "ps @ [b]"]) (simp add: cfg_path_snoc cfg_path_def successively_append_iff)
  qed
  then show "b \<in> dom_nodes fn \<Longrightarrow> cfg_reachable fn b" by (simp add: dom_nodes_def)
qed (auto simp: cfg_reachable_def cfg_path_nodes)

lemma dom_reachable: "dg.dom fn a b \<Longrightarrow> b \<in> dom_nodes fn \<Longrightarrow> a \<in> dom_nodes fn"
proof -
  assume d: "dg.dom fn a b" and b: "b \<in> dom_nodes fn"
  obtain ps where ps: "cfg_path fn ps" "last ps = b" using b reachable_nodes unfolding cfg_reachable_def by blast
  then have "a \<in> set ps" using d dom_paths unfolding cfg_dominates_def by blast
  then obtain us vs where e: "ps = (us @ [a]) @ vs" by (metis append.assoc append_Cons append_Nil in_set_conv_decomp)
  have "successively (\<lambda>u v. (u, v) \<in> cfg_edges fn) ((us @ [a]) @ vs)" using ps(1) unfolding cfg_path_def e by blast
  then have "successively (\<lambda>u v. (u, v) \<in> cfg_edges fn) (us @ [a])" by (simp only: successively_append_iff)
  moreover have "hd (us @ [a]) = f_entry fn" using ps(1) unfolding cfg_path_def e by (cases us) simp_all
  ultimately have "cfg_path fn (us @ [a])" by (simp add: cfg_path_def)
  then show "a \<in> dom_nodes fn" using cfg_path_nodes by fastforce
qed

end
