(* ===== verification/Dom_Frontier.thy ===== *)
theory Dom_Frontier
  imports Dominator_Exact Use_Def
begin

text \<open>
  The lists of the dominator tree in \<^verbatim>\<open>src/analysis/dominator.c\<close>: the children of every block, and its dominance
  frontier, which the two passes of the frontier loop find in the same order.
\<close>

subsection \<open>Buckets\<close>

lemma dom_layout_bucket:
  assumes keys: "\<forall>e \<in> set es. fst e < n" and small: "length es < 4294967296"
  shows "\<exists>start arr. dom_layout fresh (bucket_sizes n es)
      (\<lambda>(start, arr). foldM (\<lambda>s e. csr_put start s (fst e) (snd e)) (replicate n 0, arr) es) = Some (start, arr)
    \<and> (\<forall>v. dom_slice n start (bucket_sizes n es) arr v = (if v < n then bucket es v else []))"
proof -
  let ?cs = "bucket_sizes n es" and ?start = "map (\<lambda>v. sum_list (take v (bucket_sizes n es))) [0..<n]"
  have pre: "prefix_starts 0 ?cs = (?start, length es)"
    using prefix_starts_sum[of 0 ?cs] sum_bucket_sizes[OF keys] small by simp
  show ?thesis
  proof (cases "es = []")
    case True
    then show ?thesis using pre by (auto simp: dom_layout_def dom_slice_def)
  next
    case False
    obtain arr where arr: "foldM (\<lambda>s e. csr_put ?start s (fst e) (snd e)) (replicate n 0, map fresh [0..<length es]) es = Some (bucket_sizes n es, arr)"
      "length arr = length es" "\<forall>v < n. \<forall>k < length (bucket es v). arr ! (?start ! v + k) = bucket es v ! k"
      using put_loop[OF keys small refl, of "map fresh [0..<length es]"] by auto
    have "dom_layout fresh ?cs (\<lambda>(start, arr). foldM (\<lambda>s e. csr_put start s (fst e) (snd e)) (replicate n 0, arr) es) = Some (?start, arr)"
      using pre arr(1) False by (simp add: dom_layout_def)
    moreover have "dom_slice n ?start ?cs arr v = (if v < n then bucket es v else [])" for v
    proof (cases "v < n")
      case True
      then have fit: "?start ! v + length (bucket es v) \<le> length arr"
        using sum_take_le[of v ?cs] sum_bucket_sizes[OF keys] arr(2) by simp
      have "subarray (?start ! v) (length (bucket es v)) arr = bucket es v"
      proof (rule nth_equalityI)
        show "length (subarray (?start ! v) (length (bucket es v)) arr) = length (bucket es v)" using fit by (simp add: subarray_def)
      qed (use fit arr(3) True in \<open>simp add: subarray_def\<close>)
      moreover have "?cs \<noteq> []" using True by (cases n) (simp_all add: bucket_sizes_def)
      ultimately show ?thesis using True by (auto simp: dom_slice_def)
    qed (simp add: dom_slice_def)
    ultimately show ?thesis by blast
  qed
qed

lemma bucket_graph: "bucket (map (\<lambda>b. (f b, b)) xs) v = filter (\<lambda>b. f b = v) xs"
  by (induction xs) auto

subsection \<open>Children\<close>

definition dom_kids :: "nat \<Rightarrow> nat list \<Rightarrow> nat list" where
  "dom_kids entry idom = filter (\<lambda>b. b \<noteq> entry \<and> idom ! b \<noteq> NY_INVALID_BLOCK \<and> idom ! b < length idom) [0..<length idom]"

lemma dom_child_loop:
  "foldM (dom_child entry idom act) s [0..<length idom] = foldM (\<lambda>s e. act s (fst e) (snd e)) s (map (\<lambda>b. (idom ! b, b)) (dom_kids entry idom))"
proof -
  have "foldM (dom_child entry idom act) s xs
      = foldM (\<lambda>s e. act s (fst e) (snd e)) s (map (\<lambda>b. (idom ! b, b)) (filter (\<lambda>b. b \<noteq> entry \<and> idom ! b \<noteq> NY_INVALID_BLOCK \<and> idom ! b < length idom) xs))" for xs
    by (induction xs arbitrary: s) (simp_all add: dom_child_def)
  then show ?thesis by (simp add: dom_kids_def)
qed

subsection \<open>One frontier walk\<close>

definition dom_chain :: "ny_function \<Rightarrow> nat list \<Rightarrow> nat \<Rightarrow> nat \<Rightarrow> nat list" where
  "dom_chain fn idom stop p = (if p \<in> dom_nodes fn then rev (filter (\<lambda>x. dg.up fn ((!) idom) p x \<and> \<not> dg.up fn ((!) idom) stop x) (dom_order fn)) else [p])"

definition df_visit :: "('s \<Rightarrow> nat \<Rightarrow> nat \<Rightarrow> 's option) \<Rightarrow> int list \<times> 's \<Rightarrow> nat \<times> nat \<Rightarrow> (int list \<times> 's) option" where
  "df_visit act = (\<lambda>(last_visited, s) (x, b). do {
     l \<leftarrow> rd last_visited x;
     if l \<noteq> i32 b then do { last_visited \<leftarrow> wr last_visited x (i32 b); s \<leftarrow> act s x b; Some (last_visited, s) } else Some (last_visited, s)
   })"

lemma dom_chain_step:
  assumes res: "dom_result fn idom" and p: "p \<in> dom_nodes fn" "p \<noteq> stop" and stop: "stop \<in> dom_nodes fn" "dg.up fn ((!) idom) p stop"
  shows "p \<noteq> f_entry fn" "idom ! p \<in> dom_nodes fn" "dom_rank fn (idom ! p) < dom_rank fn p" "dg.up fn ((!) idom) (idom ! p) stop"
    "dom_chain fn idom stop p = p # dom_chain fn idom stop (idom ! p)"
proof -
  show e: "p \<noteq> f_entry fn" and u: "dg.up fn ((!) idom) (idom ! p) stop" using stop(2) p(2) dg.up_cases[of fn "(!) idom" p stop] by auto
  have t: "dg.tree fn ((!) idom) (dom_nodes fn)" using res by (simp add: dom_result_def dg.settled_def)
  then show i: "idom ! p \<in> dom_nodes fn" and r: "dom_rank fn (idom ! p) < dom_rank fn p" using p(1) e unfolding dg.tree_def by blast+
  let ?A = "\<lambda>x. dg.up fn ((!) idom) p x \<and> \<not> dg.up fn ((!) idom) stop x" and ?B = "\<lambda>x. dg.up fn ((!) idom) (idom ! p) x \<and> \<not> dg.up fn ((!) idom) stop x"
  have np: "\<not> dg.up fn ((!) idom) stop p" using dg.tree_up[OF t _ stop(1), of p] dg.tree_up[OF t u i] r by auto
  have AB: "?A x \<longleftrightarrow> x = p \<or> ?B x" for x using dg.up_cases[of fn "(!) idom" p x] e np by auto
  define k where "k = dom_rank fn p"
  have k: "k < length (dom_order fn)" "dom_order fn ! k = p" using order_rank[of p fn] p(1) dom_order_all(1) by (auto simp: k_def)
  have split: "dom_order fn = take k (dom_order fn) @ p # drop (Suc k) (dom_order fn)" using id_take_nth_drop[OF k(1)] k(2) by simp
  have late: "\<not> ?B x" if dx: "x \<in> set (drop (Suc k) (dom_order fn))" for x
  proof -
    obtain j where "j < length (drop (Suc k) (dom_order fn))" "drop (Suc k) (dom_order fn) ! j = x"
      using dx unfolding in_set_conv_nth by blast
    then have j: "Suc k + j < length (dom_order fn)" "dom_order fn ! (Suc k + j) = x" by simp_all
    have "k < dom_rank fn x" using rank_order[OF j(1) dom_order_all(2)] unfolding j(2) by simp
    then show ?thesis using dg.tree_up[OF t _ i, of x] r by (auto simp: k_def)
  qed
  have neq: "x \<noteq> p" if "x \<in> set (take k (dom_order fn)) \<or> x \<in> set (drop (Suc k) (dom_order fn))" for x
  proof -
    have "distinct (take k (dom_order fn) @ p # drop (Suc k) (dom_order fn))" using dom_order_all(2)[of fn] by (simp only: split[symmetric])
    then show ?thesis using that by auto
  qed
  have Bp: "\<not> ?B p" using dg.tree_up[OF t _ i, of p] r by auto
  have 1: "filter ?A (take k (dom_order fn)) = filter ?B (take k (dom_order fn))" by (rule filter_cong[OF refl]) (use neq AB in blast)
  have 2: "filter ?A (drop (Suc k) (dom_order fn)) = []" "filter ?B (drop (Suc k) (dom_order fn)) = []"
    using late neq AB by (auto simp: filter_empty_conv)
  have "filter ?A (dom_order fn) = filter ?A (take k (dom_order fn)) @ p # filter ?A (drop (Suc k) (dom_order fn))"
    by (subst split) (simp add: AB)
  moreover have "filter ?B (dom_order fn) = filter ?B (take k (dom_order fn)) @ filter ?B (drop (Suc k) (dom_order fn))"
    by (subst split) (simp add: Bp)
  ultimately have "filter ?A (dom_order fn) = filter ?B (dom_order fn) @ [p]" unfolding 1 2 by simp
  then show "dom_chain fn idom stop p = p # dom_chain fn idom stop (idom ! p)" using p(1) i by (simp add: dom_chain_def)
qed

lemma df_walk_visits:
  assumes res: "dom_result fn idom" and nodes: "dom_nodes fn \<subseteq> {..<length (f_blocks fn)}" and small: "length (f_blocks fn) \<le> 2147483648"
    and stop: "stop \<in> dom_nodes fn"
  shows "p \<in> dom_nodes fn \<Longrightarrow> dg.up fn ((!) idom) p stop \<Longrightarrow>
    df_walk act (f_entry fn) idom stop b st p = foldM (df_visit act) st (map (\<lambda>x. (x, b)) (dom_chain fn idom stop p))"
proof (induction "dom_rank fn p" arbitrary: p st rule: less_induct)
  case less
  obtain lv s where st: "st = (lv, s)" by (cases st)
  show ?case
  proof (cases "p = stop")
    case True
    have "dom_chain fn idom stop stop = []" using stop by (simp add: dom_chain_def)
    then show ?thesis using True by (subst df_walk.simps) simp
  next
    case False
    note c = dom_chain_step[OF res less.prems(1) False stop less.prems(2)]
    have p: "p < length idom" "p \<noteq> NY_INVALID_BLOCK" "p \<noteq> idom ! p"
      using res nodes less.prems(1) small c(3) by (auto simp: dom_result_def NY_INVALID_def)
    have "df_walk act (f_entry fn) idom stop b st p
        = Option.bind (df_visit act st (p, b)) (\<lambda>st. df_walk act (f_entry fn) idom stop b st (idom ! p))"
      using p c(1) False by (subst df_walk.simps) (simp add: st df_visit_def split: Option.bind_splits)
    also have "\<dots> = Option.bind (df_visit act st (p, b)) (\<lambda>st. foldM (df_visit act) st (map (\<lambda>x. (x, b)) (dom_chain fn idom stop (idom ! p))))"
      using less.hyps[OF c(3,2,4)] by simp
    finally show ?thesis using c(5) by simp
  qed
qed

text \<open>A predecessor that cannot be reached is visited alone.\<close>

lemma df_walk_alone:
  assumes res: "dom_result fn idom" and p: "p < length (f_blocks fn)" "p \<notin> dom_nodes fn" and stop: "p \<noteq> stop" and small: "length (f_blocks fn) \<le> 2147483648"
  shows "df_walk act (f_entry fn) idom stop b st p = foldM (df_visit act) st (map (\<lambda>x. (x, b)) (dom_chain fn idom stop p))"
proof -
  obtain lv s where st: "st = (lv, s)" by (cases st)
  have e: "p \<noteq> f_entry fn" using p(2) dg.eR by metis
  have i: "idom ! p = NY_INVALID_BLOCK" "p < length idom" using res p by (auto simp: dom_result_def)
  have n: "p \<noteq> NY_INVALID_BLOCK" using p small by (auto simp: NY_INVALID_def)
  have "df_walk act (f_entry fn) idom stop b t NY_INVALID_BLOCK = Some t" for t by (subst df_walk.simps) simp
  then have "df_walk act (f_entry fn) idom stop b st p = df_visit act st (p, b)"
    using i n e stop by (subst df_walk.simps) (simp add: st df_visit_def split: Option.bind_splits)
  then show ?thesis using p(2) by (simp add: dom_chain_def)
qed

lemma idom_of_preds:
  assumes res: "dom_result fn idom" and e: "(p, b) \<in> cfg_edges fn" and p: "p \<in> dom_nodes fn"
  shows "b \<in> dom_nodes fn" "idom ! b \<in> dom_nodes fn" "dg.up fn ((!) idom) p (idom ! b)"
proof -
  show b: "b \<in> dom_nodes fn" using e p unfolding dom_nodes_def by (auto intro: rtrancl_into_rtrancl)
  have t: "dg.tree fn ((!) idom) (dom_nodes fn)" and ex: "\<And>x a. x \<in> dom_nodes fn \<Longrightarrow> dg.up fn ((!) idom) x a \<longleftrightarrow> dg.dom fn a x"
    using res unfolding dom_result_def dg.settled_def by blast+
  show "idom ! b \<in> dom_nodes fn" using t b res unfolding dg.tree_def dom_result_def by metis
  show "dg.up fn ((!) idom) p (idom ! b)"
  proof (cases "b = f_entry fn")
    case True
    then show ?thesis using dg.up_entry[OF t p] res unfolding dom_result_def by metis
  next
    case False
    have "dg.up fn ((!) idom) b (idom ! b)" using False by (auto intro: dg.up.step dg.up.here)
    then have "dg.dom fn (idom ! b) b" using ex[OF b] by blast
    moreover have "idom ! b \<noteq> b" using t b False unfolding dg.tree_def by force
    moreover have "p \<in> dom_preds fn b" using e p by (simp add: dom_preds_def)
    ultimately have "dg.dom fn (idom ! b) p" using dg.dom_pred b by blast
    then show ?thesis using ex[OF p] by blast
  qed
qed

text \<open>All visits, in the order of the loop.\<close>

definition df_visits :: "ny_function \<Rightarrow> nat list \<Rightarrow> nat list \<Rightarrow> (nat \<times> nat) list" where
  "df_visits fn idom bs = concat (map (\<lambda>b. if length (b_preds (f_blocks fn ! b)) < 2 then []
     else map (\<lambda>x. (x, b)) (concat (map (dom_chain fn idom (idom ! b)) (b_preds (f_blocks fn ! b))))) bs)"

lemma df_loop_visits:
  assumes res: "dom_result fn idom" and set: "dom_setting fn rpo"
  shows "set bs \<subseteq> {..<length (f_blocks fn)} \<Longrightarrow> foldM (df_block act fn idom) st bs = foldM (df_visit act) st (df_visits fn idom bs)"
proof (induction bs arbitrary: st)
  case (Cons b bs)
  let ?n = "length (f_blocks fn)" and ?ps = "b_preds (f_blocks fn ! b)"
  have nodes: "dom_nodes fn \<subseteq> {..<?n}" and small: "?n \<le> 2147483648" and ew: "edges_wf fn" using set by (simp_all add: dom_setting_def Let_def)
  have b: "b < ?n" using Cons.prems by simp
  have ps: "set ?ps = {p. (p, b) \<in> cfg_edges fn}" using ew b edges_cfg by (auto simp: edges_wf_def)
  have walk: "df_walk act (f_entry fn) idom (idom ! b) b st p = foldM (df_visit act) st (map (\<lambda>x. (x, b)) (dom_chain fn idom (idom ! b) p))"
    if p: "p \<in> set ?ps" for p st
  proof (cases "p \<in> dom_nodes fn")
    case True
    have e: "(p, b) \<in> cfg_edges fn" using p ps by blast
    note i = idom_of_preds[OF res e True]
    show ?thesis by (rule df_walk_visits[OF res nodes small i(2) True i(3)])
  next
    case False
    have pn: "p < ?n" using p ps by (auto simp: cfg_edges_def)
    have "p \<noteq> idom ! b"
    proof
      assume "p = idom ! b"
      moreover have "idom ! b \<noteq> NY_INVALID_BLOCK \<longleftrightarrow> b \<in> dom_nodes fn" using res b by (simp add: dom_result_def)
      moreover have "p \<noteq> NY_INVALID_BLOCK" using pn small by (simp add: NY_INVALID_def)
      moreover have "b \<in> dom_nodes fn \<Longrightarrow> idom ! b \<in> dom_nodes fn"
        using res unfolding dom_result_def dg.settled_def dg.tree_def by metis
      ultimately show False using False by simp
    qed
    then show ?thesis by (intro df_walk_alone[OF res pn False _ small])
  qed
  have "foldM (df_walk act (f_entry fn) idom (idom ! b) b) st ps = foldM (df_visit act) st (map (\<lambda>x. (x, b)) (concat (map (dom_chain fn idom (idom ! b)) ps)))"
    if "set ps \<subseteq> set ?ps" for ps st
    using that by (induction ps arbitrary: st) (simp_all add: walk foldM_append)
  then have "df_block act fn idom st b = foldM (df_visit act) st (df_visits fn idom [b])"
    using b by (simp add: df_block_def df_visits_def)
  then show ?case using Cons by (simp add: df_visits_def foldM_append)
qed (simp add: df_visits_def)

subsection \<open>Each visit counts once\<close>

definition firsts :: "'a list \<Rightarrow> 'a list" where
  "firsts xs = rev (remdups (rev xs))"

lemma firsts_snoc: "firsts (xs @ [x]) = (if x \<in> set xs then firsts xs else firsts xs @ [x])"
  by (simp add: firsts_def)

lemma firsts_simps [simp]: "set (firsts xs) = set xs" "distinct (firsts xs)" "firsts [] = []"
  by (simp_all add: firsts_def)

lemma df_visit_firsts:
  assumes "sorted (map snd vs)" "\<forall>v \<in> set vs. fst v < n \<and> snd v < 2147483648"
  shows "\<exists>lv. length lv = n \<and> (\<forall>x < n. \<forall>b. (\<forall>v \<in> set vs. snd v \<le> b) \<longrightarrow> (lv ! x = int b \<longleftrightarrow> (x, b) \<in> set vs))
    \<and> foldM (df_visit act) (replicate n (- 1), s) vs = Option.bind (foldM (\<lambda>s e. act s (fst e) (snd e)) s (firsts vs)) (\<lambda>s. Some (lv, s))"
  using assms
proof (induction vs rule: rev_induct)
  case (snoc v vs)
  obtain x b where v: "v = (x, b)" by (cases v)
  have xb: "x < n" "b < 2147483648" and le: "\<forall>w \<in> set vs. snd w \<le> b" using snoc.prems v by (auto simp: sorted_append)
  obtain lv where IH: "length lv = n" "\<forall>x < n. \<forall>b. (\<forall>v \<in> set vs. snd v \<le> b) \<longrightarrow> (lv ! x = int b \<longleftrightarrow> (x, b) \<in> set vs)"
    "foldM (df_visit act) (replicate n (- 1), s) vs = Option.bind (foldM (\<lambda>s e. act s (fst e) (snd e)) s (firsts vs)) (\<lambda>s. Some (lv, s))"
    using snoc by (auto simp: sorted_append)
  have seen: "lv ! x = int b \<longleftrightarrow> (x, b) \<in> set vs" using IH(2) xb(1) le by blast
  have i: "i32 b = int b" by (rule i32_small[OF xb(2)])
  show ?case
  proof (cases "(x, b) \<in> set vs")
    case True
    have "df_visit act (lv, s') (x, b) = Some (lv, s')" for s' using True seen i xb IH(1) by (simp add: df_visit_def)
    then have "foldM (df_visit act) (replicate n (- 1), s) (vs @ [v])
        = Option.bind (foldM (\<lambda>s e. act s (fst e) (snd e)) s (firsts (vs @ [v]))) (\<lambda>s. Some (lv, s))"
      using True by (simp add: foldM_append IH(3) v firsts_snoc split: Option.bind_splits)
    moreover have e: "set (vs @ [v]) = set vs" using True v by auto
    ultimately show ?thesis using IH(1,2) by (intro exI[of _ lv] conjI) (simp_all only: e)
  next
    case False
    let ?lv = "lv[x := int b]"
    have "df_visit act (lv, s') (x, b) = Option.bind (act s' x b) (\<lambda>s. Some (?lv, s))" for s'
      using False seen i xb IH(1) by (simp add: df_visit_def)
    then have f: "foldM (df_visit act) (replicate n (- 1), s) (vs @ [v])
        = Option.bind (foldM (\<lambda>s e. act s (fst e) (snd e)) s (firsts (vs @ [v]))) (\<lambda>s. Some (?lv, s))"
      using False by (simp add: foldM_append IH(3) v firsts_snoc split: Option.bind_splits)
    have "?lv ! y = int c \<longleftrightarrow> (y, c) \<in> set (vs @ [v])" if "y < n" "\<forall>w \<in> set (vs @ [v]). snd w \<le> c" for y c
    proof (cases "y = x")
      case True
      then show ?thesis using xb IH(1) v le that(2) by fastforce
    next
      case False
      then show ?thesis using IH(2) that v by auto
    qed
    then show ?thesis using f IH(1) by (intro exI[of _ ?lv]) simp
  qed
qed simp

lemma dom_chain_bound:
  assumes "dom_nodes fn \<subseteq> {..<length (f_blocks fn)}" "p < length (f_blocks fn)" "x \<in> set (dom_chain fn idom stop p)"
  shows "x < length (f_blocks fn)"
  using assms dom_order_all(1)[of fn] by (auto simp: dom_chain_def split: if_splits)

lemma df_visits_ordered: "sorted bs \<Longrightarrow> sorted (map snd (df_visits fn idom bs)) \<and> snd ` set (df_visits fn idom bs) \<subseteq> set bs"
proof (induction bs)
  case (Cons b bs)
  have one: "sorted (map snd (df_visits fn idom [b]))" "snd ` set (df_visits fn idom [b]) \<subseteq> {b}"
    by (auto simp: df_visits_def o_def map_replicate_const[symmetric] sorted_iff_nth_mono)
  have "df_visits fn idom (b # bs) = df_visits fn idom [b] @ df_visits fn idom bs" by (simp add: df_visits_def)
  then show ?case using Cons one by (fastforce simp: sorted_append)
qed (simp add: df_visits_def)

lemma df_visits_events:
  assumes res: "dom_result fn idom" and set: "dom_setting fn rpo" and small: "length (f_blocks fn) \<le> 65535"
  defines "vs \<equiv> df_visits fn idom [0..<length (f_blocks fn)]"
  shows "\<exists>lv. foldM (df_block act fn idom) (replicate (length (f_blocks fn)) (- 1), s) [0..<length (f_blocks fn)]
      = Option.bind (foldM (\<lambda>s e. act s (fst e) (snd e)) s (firsts vs)) (\<lambda>s. Some (lv, s))"
    and "\<forall>v \<in> set vs. fst v < length (f_blocks fn) \<and> snd v < length (f_blocks fn)" and "length (firsts vs) < 4294967296"
proof -
  let ?n = "length (f_blocks fn)"
  have nodes: "dom_nodes fn \<subseteq> {..<?n}" and ew: "edges_wf fn" using set by (simp_all add: dom_setting_def Let_def)
  have snd: "snd v < ?n" if "v \<in> set vs" for v using df_visits_ordered[of "[0..<?n]" fn idom] that by (auto simp: vs_def)
  have fst: "fst v < ?n" if v: "v \<in> set vs" for v
  proof -
    obtain b p where b: "b < ?n" and p: "p \<in> set (b_preds (f_blocks fn ! b))" and x: "fst v \<in> set (dom_chain fn idom (idom ! b) p)"
      using v by (auto simp: vs_def df_visits_def split: if_splits)
    have "p < ?n" using ew b p edges_cfg[OF ew] by (auto simp: edges_wf_def cfg_edges_def)
    then show ?thesis using dom_chain_bound[OF nodes _ x] by blast
  qed
  show bounds: "\<forall>v \<in> set vs. fst v < ?n \<and> snd v < ?n" using fst snd by blast
  have "sorted (map snd vs)" using df_visits_ordered[of "[0..<?n]" fn idom] by (simp add: vs_def)
  moreover have "\<forall>v \<in> set vs. fst v < ?n \<and> snd v < 2147483648" using bounds small by fastforce
  ultimately obtain lv where "foldM (df_visit act) (replicate ?n (- 1), s) vs
      = Option.bind (foldM (\<lambda>s e. act s (fst e) (snd e)) s (firsts vs)) (\<lambda>s. Some (lv, s))"
    using df_visit_firsts[of vs ?n act s] by blast
  moreover have "foldM (df_block act fn idom) (replicate ?n (- 1), s) [0..<?n] = foldM (df_visit act) (replicate ?n (- 1), s) vs"
    unfolding vs_def by (rule df_loop_visits[OF res set]) auto
  ultimately show "\<exists>lv. foldM (df_block act fn idom) (replicate ?n (- 1), s) [0..<?n]
      = Option.bind (foldM (\<lambda>s e. act s (fst e) (snd e)) s (firsts vs)) (\<lambda>s. Some (lv, s))" by auto
  have "set (firsts vs) \<subseteq> {..<?n} \<times> {..<?n}" using bounds by auto
  then have "card (set (firsts vs)) \<le> ?n * ?n" using card_mono[of "{..<?n} \<times> {..<?n}"] by (simp add: card_cartesian_product)
  then have "length (firsts vs) \<le> ?n * ?n" using distinct_card[of "firsts vs"] by simp
  also have "\<dots> \<le> 65535 * 65535" using small by (intro mult_mono) simp_all
  finally show "length (firsts vs) < 4294967296" by simp
qed

lemma df_visits_mem:
  assumes res: "dom_result fn idom" and set: "dom_setting fn rpo" and x: "x \<in> dom_nodes fn"
  shows "(x, y) \<in> set (df_visits fn idom [0..<length (f_blocks fn)])
    \<longleftrightarrow> y < length (f_blocks fn) \<and> 2 \<le> length (b_preds (f_blocks fn ! y))
      \<and> (\<exists>p \<in> dom_preds fn y. dg.dom fn x p) \<and> \<not> dg.up fn ((!) idom) (idom ! y) x"
proof -
  let ?n = "length (f_blocks fn)" and ?ps = "b_preds (f_blocks fn ! y)"
  have ew: "edges_wf fn" using set by (simp add: dom_setting_def Let_def)
  have ex: "\<And>z a. z \<in> dom_nodes fn \<Longrightarrow> dg.up fn ((!) idom) z a \<longleftrightarrow> dg.dom fn a z" using res unfolding dom_result_def by blast
  have ps: "set ?ps = {p. (p, y) \<in> cfg_edges fn}" if "y < ?n" using ew that edges_cfg by (auto simp: edges_wf_def)
  have chain: "x \<in> set (dom_chain fn idom (idom ! y) p) \<longleftrightarrow> p \<in> dom_nodes fn \<and> dg.dom fn x p \<and> \<not> dg.up fn ((!) idom) (idom ! y) x" for p
    using x dom_order_all(1)[of fn] ex by (auto simp: dom_chain_def)
  have "(x, y) \<in> set (df_visits fn idom bs) \<longleftrightarrow> y \<in> set bs \<and> 2 \<le> length ?ps \<and> (\<exists>p \<in> set ?ps. x \<in> set (dom_chain fn idom (idom ! y) p))" for bs
  proof (induction bs)
    case (Cons b bs)
    have "df_visits fn idom (b # bs) = df_visits fn idom [b] @ df_visits fn idom bs" by (simp add: df_visits_def)
    then show ?case using Cons by (cases "b = y") (auto simp: df_visits_def not_less)
  qed (simp add: df_visits_def)
  then have "(x, y) \<in> set (df_visits fn idom [0..<?n])
      \<longleftrightarrow> y < ?n \<and> 2 \<le> length ?ps \<and> (\<exists>p \<in> set ?ps. p \<in> dom_nodes fn \<and> dg.dom fn x p \<and> \<not> dg.up fn ((!) idom) (idom ! y) x)"
    by (simp add: chain)
  then show ?thesis using ps unfolding dom_preds_def by blast
qed

text \<open>The entry is its own parent, so that its walks go up to it and leave only the entry out.\<close>

lemma df_visits_entry:
  assumes res: "dom_result fn idom" and set: "dom_setting fn rpo" and x: "x \<in> dom_nodes fn"
  shows "(x, f_entry fn) \<in> set (df_visits fn idom [0..<length (f_blocks fn)])
    \<longleftrightarrow> 2 \<le> length (b_preds (f_blocks fn ! f_entry fn)) \<and> (\<exists>p \<in> dom_preds fn (f_entry fn). dg.dom fn x p) \<and> x \<noteq> f_entry fn"
proof -
  have "dom_nodes fn \<subseteq> {..<length (f_blocks fn)}" using set by (simp add: dom_setting_def Let_def)
  then have e: "f_entry fn < length (f_blocks fn)" using dg.eR by blast
  have "idom ! f_entry fn = f_entry fn" using res unfolding dom_result_def by blast
  then have "dg.up fn ((!) idom) (idom ! f_entry fn) x \<longleftrightarrow> x = f_entry fn" using dg.up_cases[of fn "(!) idom" "f_entry fn" x] dg.up.here by metis
  then show ?thesis using df_visits_mem[OF res set x] e by blast
qed

lemma df_visits_set:
  assumes res: "dom_result fn idom" and set: "dom_setting fn rpo" and x: "x \<in> dom_nodes fn" and y: "y \<noteq> f_entry fn"
  shows "(x, y) \<in> set (df_visits fn idom [0..<length (f_blocks fn)])
    \<longleftrightarrow> y \<in> dom_nodes fn \<and> (\<exists>p \<in> dom_preds fn y. dg.dom fn x p) \<and> \<not> (dg.dom fn x y \<and> x \<noteq> y)"
proof -
  let ?n = "length (f_blocks fn)" and ?ps = "b_preds (f_blocks fn ! y)"
  have nodes: "dom_nodes fn \<subseteq> {..<?n}" and ew: "edges_wf fn" using set by (simp_all add: dom_setting_def Let_def)
  have ex: "\<And>z a. z \<in> dom_nodes fn \<Longrightarrow> dg.up fn ((!) idom) z a \<longleftrightarrow> dg.dom fn a z" and st: "dg.settled fn ((!) idom)"
    using res unfolding dom_result_def by blast+
  have ps: "set ?ps = {p. (p, y) \<in> cfg_edges fn}" if "y < ?n" using ew that edges_cfg by (auto simp: edges_wf_def)
  note visit = df_visits_mem[OF res set x, of y]
  have up: "dg.up fn ((!) idom) (idom ! y) x \<longleftrightarrow> dg.dom fn x y \<and> x \<noteq> y" if yn: "y \<in> dom_nodes fn"
  proof -
    have t: "dg.tree fn ((!) idom) (dom_nodes fn)" using st by (simp add: dg.settled_def)
    then have i: "idom ! y \<in> dom_nodes fn" "dom_rank fn (idom ! y) < dom_rank fn y" using yn y unfolding dg.tree_def by blast+
    then have "\<not> dg.up fn ((!) idom) (idom ! y) y" using dg.tree_up[OF t _ i(1), of y] by auto
    then show ?thesis using ex[OF yn, of x] dg.up_cases[of fn "(!) idom" y x] y by metis
  qed
  have two: "2 \<le> length ?ps" if yn: "y \<in> dom_nodes fn" and p: "p \<in> dom_preds fn y" "dg.dom fn x p" and no: "\<not> (dg.dom fn x y \<and> x \<noteq> y)" for p
  proof (rule ccontr)
    assume few: "\<not> 2 \<le> length ?ps"
    have "p \<in> set ?ps" using p(1) ps nodes yn by (auto simp: dom_preds_def)
    then have "set ?ps = {p}" using few by (cases ?ps) (auto simp: not_le less_Suc_eq)
    then have "dom_preds fn y = {p}" using p(1) ps nodes yn by (auto simp: dom_preds_def)
    then have "\<forall>q \<in> dom_preds fn y. dg.up fn ((!) idom) q x" using ex p by (auto simp: dom_preds_def)
    then have "dg.up fn ((!) idom) (idom ! y) x" using st yn y unfolding dg.settled_def by blast
    then show False using up[OF yn] no by blast
  qed
  show ?thesis
  proof
    assume "(x, y) \<in> set (df_visits fn idom [0..<?n])"
    then obtain p where p: "p \<in> dom_preds fn y" "dg.dom fn x p" "\<not> dg.up fn ((!) idom) (idom ! y) x" using visit by blast
    have yn: "y \<in> dom_nodes fn" using p(1) idom_of_preds(1)[OF res, of p y] by (auto simp: dom_preds_def)
    then show "y \<in> dom_nodes fn \<and> (\<exists>p \<in> dom_preds fn y. dg.dom fn x p) \<and> \<not> (dg.dom fn x y \<and> x \<noteq> y)"
      using p up[OF yn] by blast
  next
    assume r: "y \<in> dom_nodes fn \<and> (\<exists>p \<in> dom_preds fn y. dg.dom fn x p) \<and> \<not> (dg.dom fn x y \<and> x \<noteq> y)"
    then obtain p where p: "p \<in> dom_preds fn y" "dg.dom fn x p" by blast
    have "y < ?n" "\<not> dg.up fn ((!) idom) (idom ! y) x" using r nodes up by blast+
    then show "(x, y) \<in> set (df_visits fn idom [0..<?n])" using visit two[OF _ p] r by blast
  qed
qed

subsection \<open>The finished tree\<close>

definition cfg_idom :: "ny_function \<Rightarrow> nat \<Rightarrow> nat \<Rightarrow> bool" where
  "cfg_idom fn a b \<longleftrightarrow> a \<noteq> b \<and> cfg_dominates fn a b \<and> (\<forall>c. c \<noteq> b \<longrightarrow> cfg_dominates fn c b \<longrightarrow> cfg_dominates fn c a)"

lemma result_idom:
  assumes res: "dom_result fn idom" and b: "b \<in> dom_nodes fn" "b \<noteq> f_entry fn"
  shows "cfg_idom fn (idom ! b) b"
proof -
  have t: "dg.tree fn ((!) idom) (dom_nodes fn)" and bl: "dg.below fn ((!) idom) (dom_nodes fn)"
    and ex: "\<And>a. dg.up fn ((!) idom) b a \<longleftrightarrow> dg.dom fn a b" using res b(1) unfolding dom_result_def dg.settled_def by blast+
  have "dom_rank fn (idom ! b) < dom_rank fn b" using t b unfolding dg.tree_def by blast
  moreover have "dg.dom fn (idom ! b) b" using ex b(2) by (auto intro: dg.up.step dg.up.here)
  ultimately show ?thesis using bl b unfolding cfg_idom_def dg.below_def dom_paths by auto
qed

lemma dom_child_pass:
  assumes res: "dom_result fn idom" and small: "length (f_blocks fn) \<le> 2147483648"
  shows "foldM (dom_child (f_entry fn) idom (\<lambda>c p b. csr_count c p)) (replicate (length (f_blocks fn)) 0) [0..<length (f_blocks fn)]
      = Some (bucket_sizes (length (f_blocks fn)) (map (\<lambda>b. (idom ! b, b)) (dom_kids (f_entry fn) idom)))"
    and "\<exists>start arr. dom_layout fresh (bucket_sizes (length (f_blocks fn)) (map (\<lambda>b. (idom ! b, b)) (dom_kids (f_entry fn) idom)))
        (\<lambda>(start, arr). foldM (dom_child (f_entry fn) idom (csr_put start)) (replicate (length (f_blocks fn)) 0, arr) [0..<length (f_blocks fn)]) = Some (start, arr)
      \<and> (\<forall>a. dom_slice (length (f_blocks fn)) start (bucket_sizes (length (f_blocks fn)) (map (\<lambda>b. (idom ! b, b)) (dom_kids (f_entry fn) idom))) arr a
        = (if a < length (f_blocks fn) then filter (\<lambda>b. idom ! b = a) (dom_kids (f_entry fn) idom) else []))"
proof -
  let ?n = "length (f_blocks fn)" and ?es = "map (\<lambda>b. (idom ! b, b)) (dom_kids (f_entry fn) idom)"
  have len: "length idom = ?n" using res by (simp add: dom_result_def)
  have keys: "\<forall>e \<in> set ?es. fst e < ?n" using len by (auto simp: dom_kids_def)
  have "length (dom_kids (f_entry fn) idom) \<le> length [0..<?n]" unfolding dom_kids_def len by (rule length_filter_le)
  then have few: "length ?es < 4294967296" using small by simp
  show "foldM (dom_child (f_entry fn) idom (\<lambda>c p b. csr_count c p)) (replicate ?n 0) [0..<?n] = Some (bucket_sizes ?n ?es)"
    using count_loop[OF keys few] dom_child_loop[of "f_entry fn" idom "\<lambda>c p b. csr_count c p"] by (simp add: len)
  have put: "foldM (dom_child (f_entry fn) idom (csr_put start)) s [0..<?n] = foldM (\<lambda>s e. csr_put start s (fst e) (snd e)) s ?es" for start s
    using dom_child_loop[of "f_entry fn" idom "csr_put start" s] by (simp add: len)
  show "\<exists>start arr. dom_layout fresh (bucket_sizes ?n ?es)
        (\<lambda>(start, arr). foldM (dom_child (f_entry fn) idom (csr_put start)) (replicate ?n 0, arr) [0..<?n]) = Some (start, arr)
      \<and> (\<forall>a. dom_slice ?n start (bucket_sizes ?n ?es) arr a = (if a < ?n then filter (\<lambda>b. idom ! b = a) (dom_kids (f_entry fn) idom) else []))"
    unfolding put bucket_graph[of "(!) idom", symmetric] by (rule dom_layout_bucket[OF keys few])
qed

lemma df_pass:
  assumes res: "dom_result fn idom" and set: "dom_setting fn rpo" and small: "length (f_blocks fn) \<le> 65535"
  defines "es \<equiv> firsts (df_visits fn idom [0..<length (f_blocks fn)])"
  shows "\<exists>lv. foldM (df_block (\<lambda>c x b. csr_count c x) fn idom) (replicate (length (f_blocks fn)) (- 1), replicate (length (f_blocks fn)) 0) [0..<length (f_blocks fn)]
      = Some (lv, bucket_sizes (length (f_blocks fn)) es)"
    and "\<exists>start arr. dom_layout fresh (bucket_sizes (length (f_blocks fn)) es) (\<lambda>(start, arr). do {
        (_, st) \<leftarrow> foldM (df_block (csr_put start) fn idom) (replicate (length (f_blocks fn)) (- 1), (replicate (length (f_blocks fn)) 0, arr)) [0..<length (f_blocks fn)];
        Some st
      }) = Some (start, arr)
      \<and> (\<forall>a. dom_slice (length (f_blocks fn)) start (bucket_sizes (length (f_blocks fn)) es) arr a = (if a < length (f_blocks fn) then bucket es a else []))"
proof -
  let ?n = "length (f_blocks fn)"
  have keys: "\<forall>e \<in> set es. fst e < ?n" and few: "length es < 4294967296"
    using df_visits_events(2,3)[OF res set small] by (simp_all add: es_def)
  show "\<exists>lv. foldM (df_block (\<lambda>c x b. csr_count c x) fn idom) (replicate ?n (- 1), replicate ?n 0) [0..<?n] = Some (lv, bucket_sizes ?n es)"
    using df_visits_events(1)[OF res set small, of "\<lambda>c x b. csr_count c x" "replicate ?n 0"] count_loop[OF keys few] by (simp add: es_def)
  have put: "Option.bind (foldM (df_block (csr_put start) fn idom) (replicate ?n (- 1), (replicate ?n 0, arr)) [0..<?n]) (\<lambda>(_, st). Some st)
      = foldM (\<lambda>s e. csr_put start s (fst e) (snd e)) (replicate ?n 0, arr) es" for start and arr :: "nat list"
    using df_visits_events(1)[OF res set small, of "csr_put start" "(replicate ?n 0, arr)"]
    by (cases "foldM (\<lambda>s e. csr_put start s (fst e) (snd e)) (replicate ?n 0, arr) es") (auto simp: es_def)
  show "\<exists>start arr. dom_layout fresh (bucket_sizes ?n es) (\<lambda>(start, arr). do {
        (_, st) \<leftarrow> foldM (df_block (csr_put start) fn idom) (replicate ?n (- 1), (replicate ?n 0, arr)) [0..<?n];
        Some st
      }) = Some (start, arr)
      \<and> (\<forall>a. dom_slice ?n start (bucket_sizes ?n es) arr a = (if a < ?n then bucket es a else []))"
    unfolding put by (rule dom_layout_bucket[OF keys few])
qed

lemma dom_tree_built:
  assumes ew: "edges_wf fn" and entry: "f_entry fn < length (f_blocks fn)" and small: "length (f_blocks fn) \<le> 65535"
  shows "\<exists>dt idom rpo. ny_dominator_tree_init fresh fn = Some dt \<and> dom_result fn idom \<and> dom_setting fn rpo
    \<and> (\<forall>a b. ny_dominator_tree_dominates dt a b = Some (a = b \<or> a \<in> dom_nodes fn \<and> b \<in> dom_nodes fn \<and> dg.dom fn a b))
    \<and> dt_idom dt = idom
    \<and> (\<forall>a. ny_dominator_tree_get_children dt a = (if a < length (f_blocks fn) then filter (\<lambda>b. idom ! b = a) (dom_kids (f_entry fn) idom) else []))
    \<and> (\<forall>a. ny_dominator_tree_get_frontier dt a = (if a < length (f_blocks fn) then bucket (firsts (df_visits fn idom [0..<length (f_blocks fn)])) a else []))"
proof -
  let ?n = "length (f_blocks fn)"
  have s: "?n \<le> 2147483648" using small by simp
  obtain idom rpo where run: "dom_run True fn ?n (dom_start fn ?n) = Some (idom, rpo)" and res: "dom_result fn idom" and set: "dom_setting fn rpo"
    and none: "\<forall>v < ?n. v \<notin> dom_nodes fn \<longrightarrow> rpo ! v = - 1" using dom_run_exact[OF ew entry s] by blast
  define kids where "kids = map (\<lambda>b. (idom ! b, b)) (dom_kids (f_entry fn) idom)"
  define es where "es = firsts (df_visits fn idom [0..<?n])"
  note kid = dom_child_pass[OF res s, folded kids_def] and df = df_pass[OF res set small, folded es_def]
  obtain cs ca where c: "dom_layout fresh (bucket_sizes ?n kids)
        (\<lambda>(start, arr). foldM (dom_child (f_entry fn) idom (csr_put start)) (replicate ?n 0, arr) [0..<?n]) = Some (cs, ca)"
    "\<forall>a. dom_slice ?n cs (bucket_sizes ?n kids) ca a = (if a < ?n then filter (\<lambda>b. idom ! b = a) (dom_kids (f_entry fn) idom) else [])" using kid(2) by blast
  obtain lv where l: "foldM (df_block (\<lambda>c x b. csr_count c x) fn idom) (replicate ?n (- 1), replicate ?n 0) [0..<?n] = Some (lv, bucket_sizes ?n es)"
    using df(1) by blast
  obtain fs fa where f: "dom_layout fresh (bucket_sizes ?n es) (\<lambda>(start, arr). do {
        (_, st) \<leftarrow> foldM (df_block (csr_put start) fn idom) (replicate ?n (- 1), (replicate ?n 0, arr)) [0..<?n];
        Some st
      }) = Some (fs, fa)"
    "\<forall>a. dom_slice ?n fs (bucket_sizes ?n es) fa a = (if a < ?n then bucket es a else [])" using df(2) by blast
  let ?dt = "\<lparr>dt_entry = f_entry fn, dt_block_count = ?n, dt_idom = idom, dt_rpo = rpo, dt_child_start = cs,
          dt_child_count = bucket_sizes ?n kids, dt_children = ca, dt_df_start = fs, dt_df_count = bucket_sizes ?n es, dt_frontiers = fa\<rparr>"
  have e: "f_entry fn \<noteq> NY_INVALID_BLOCK" "?n \<noteq> 0" using entry small by (auto simp: NY_INVALID_def)
  have "ny_dominator_tree_init fresh fn = Some ?dt"
    unfolding ny_dominator_tree_init_def Let_def using e run kid(1) c(1) l f(1) by simp
  moreover have "ny_dominator_tree_dominates ?dt a b = Some (a = b \<or> a \<in> dom_nodes fn \<and> b \<in> dom_nodes fn \<and> dg.dom fn a b)" for a b
    using dom_query_exact[OF res set none] by (simp add: ny_dominator_tree_dominates_def)
  moreover have "ny_dominator_tree_get_children ?dt a = (if a < ?n then filter (\<lambda>b. idom ! b = a) (dom_kids (f_entry fn) idom) else [])"
    "ny_dominator_tree_get_frontier ?dt a = (if a < ?n then bucket es a else [])" for a
    using c(2) f(2) by (simp_all add: ny_dominator_tree_get_children_def ny_dominator_tree_get_frontier_def)
  ultimately show ?thesis using res set unfolding es_def by (metis ny_dominator_tree.select_convs(3))
qed

lemma diamond_edges: "edges_wf diamond_fn"
proof -
  have six: "{..<6 :: nat} = {0, 1, 2, 3, 4, 5}" by auto
  have n: "length (f_blocks diamond_fn) = 6" by (simp add: diamond_fn_def)
  have "edges diamond_fn = (\<Union>x \<in> {..<6}. Pair x ` set (b_succs (f_blocks diamond_fn ! x)))" by (auto simp: edges_def n)
  also have "\<dots> = {(0, 1), (0, 2), (1, 3), (2, 3), (3, 0), (3, 4), (5, 4)}"
    unfolding six by (auto simp: diamond_fn_def diamond_block_def)
  finally have e: "edges diamond_fn = {(0, 1), (0, 2), (1, 3), (2, 3), (3, 0), (3, 4), (5, 4)}" .
  have "\<forall>x \<in> {..<6}. b_id (f_blocks diamond_fn ! x) = x \<and> distinct (b_succs (f_blocks diamond_fn ! x)) \<and> distinct (b_preds (f_blocks diamond_fn ! x))
     \<and> set (b_succs (f_blocks diamond_fn ! x)) \<subseteq> {..<6} \<and> set (b_preds (f_blocks diamond_fn ! x)) = {p. (p, x) \<in> edges diamond_fn}"
    unfolding six e by (auto simp: diamond_fn_def diamond_block_def)
  then show ?thesis by (simp add: edges_wf_def n)
qed

text \<open>
  C13. The dominator tree is built for every function with mirrored edge lists and at most 65535 blocks, and it is exact: on
  reachable blocks the query decides whether all paths from the entry pass a block, the stored parent of a block is its
  immediate dominator and is invalid exactly for unreachable blocks, and the children of a block are the blocks it
  immediately dominates, each once.
\<close>

theorem dominator_tree_exact:
  assumes "edges_wf fn" and "f_entry fn < length (f_blocks fn)" and "length (f_blocks fn) \<le> 65535"
  shows "\<exists>dt. ny_dominator_tree_init fresh fn = Some dt
    \<and> (\<forall>a b. cfg_reachable fn b \<longrightarrow> ny_dominator_tree_dominates dt a b = Some (cfg_dominates fn a b))
    \<and> (\<forall>b. ny_dominator_tree_get_idom dt b = NY_INVALID_BLOCK \<longleftrightarrow> \<not> cfg_reachable fn b)
    \<and> (\<forall>b. cfg_reachable fn b \<longrightarrow> b \<noteq> f_entry fn \<longrightarrow> cfg_idom fn (ny_dominator_tree_get_idom dt b) b)
    \<and> (\<forall>a. distinct (ny_dominator_tree_get_children dt a) \<and> set (ny_dominator_tree_get_children dt a)
          = {b. cfg_reachable fn b \<and> b \<noteq> f_entry fn \<and> ny_dominator_tree_get_idom dt b = a})"
proof -
  let ?n = "length (f_blocks fn)"
  obtain dt idom rpo where dt: "ny_dominator_tree_init fresh fn = Some dt" and res: "dom_result fn idom" and set: "dom_setting fn rpo"
    and q: "\<And>a b. ny_dominator_tree_dominates dt a b = Some (a = b \<or> a \<in> dom_nodes fn \<and> b \<in> dom_nodes fn \<and> dg.dom fn a b)"
    and i: "dt_idom dt = idom"
    and kids: "\<And>a. ny_dominator_tree_get_children dt a = (if a < ?n then filter (\<lambda>b. idom ! b = a) (dom_kids (f_entry fn) idom) else [])"
    using dom_tree_built[OF assms, of fresh] by blast
  have nodes: "dom_nodes fn \<subseteq> {..<?n}" using set by (simp add: dom_setting_def Let_def)
  have len: "length idom = ?n" and inv: "\<And>x. x < ?n \<Longrightarrow> idom ! x \<noteq> NY_INVALID_BLOCK \<longleftrightarrow> x \<in> dom_nodes fn"
    using res unfolding dom_result_def by blast+
  have gi: "ny_dominator_tree_get_idom dt b = (if b < ?n then idom ! b else NY_INVALID_BLOCK)" for b
    using i len by (simp add: ny_dominator_tree_get_idom_def)
  have up: "idom ! b \<in> dom_nodes fn" if "b \<in> dom_nodes fn" for b
    using res that unfolding dom_result_def dg.settled_def dg.tree_def by metis
  have self: "dg.dom fn b b" for b unfolding dg.dom_def by (auto elim: dg.avoid.cases)
  have "cfg_reachable fn b \<longrightarrow> ny_dominator_tree_dominates dt a b = Some (cfg_dominates fn a b)" for a b
    using q[of a b] self dom_reachable unfolding reachable_nodes dom_paths by auto
  moreover have "ny_dominator_tree_get_idom dt b = NY_INVALID_BLOCK \<longleftrightarrow> \<not> cfg_reachable fn b" for b
    using inv nodes by (auto simp: gi reachable_nodes)
  moreover have "cfg_reachable fn b \<longrightarrow> b \<noteq> f_entry fn \<longrightarrow> cfg_idom fn (ny_dominator_tree_get_idom dt b) b" for b
    using result_idom[OF res, of b] nodes by (auto simp: gi reachable_nodes)
  moreover have "set (ny_dominator_tree_get_children dt a) = {b. cfg_reachable fn b \<and> b \<noteq> f_entry fn \<and> ny_dominator_tree_get_idom dt b = a}" for a
    unfolding kids gi reachable_nodes using inv up nodes by (auto simp: dom_kids_def len)
  moreover have "distinct (ny_dominator_tree_get_children dt a)" for a by (simp add: kids dom_kids_def)
  ultimately show ?thesis using dt by blast
qed

lemma dominator_tree_exact_witness:
  "\<exists>dt. ny_dominator_tree_init (\<lambda>_. 77) diamond_fn = Some dt
    \<and> (\<forall>a b. cfg_reachable diamond_fn b \<longrightarrow> ny_dominator_tree_dominates dt a b = Some (cfg_dominates diamond_fn a b))"
proof -
  from dominator_tree_exact[OF diamond_edges, of "\<lambda>_. 77"] show ?thesis by (auto simp: diamond_fn_def)
qed

text \<open>
  C14. The dominance frontiers stored for a function with mirrored edge lists, a valid entry and at most 65535 blocks,
  each block once.  The frontier of a reachable block holds a block other than the entry exactly when that has a reachable
  predecessor dominated by it and is not strictly dominated by it.  It holds the entry exactly when the entry has two or
  more predecessors, a reachable one of them is dominated by the block, and the block is not the entry itself: with a
  single back edge, and for the entry's own frontier, the definition of a frontier would hold it and the table does not.
\<close>

theorem dominance_frontier_exact:
  assumes "edges_wf fn" and "f_entry fn < length (f_blocks fn)" and "length (f_blocks fn) \<le> 65535" and "cfg_reachable fn a"
  shows "\<exists>dt. ny_dominator_tree_init fresh fn = Some dt \<and> distinct (ny_dominator_tree_get_frontier dt a)
    \<and> set (ny_dominator_tree_get_frontier dt a)
      = {b. b \<noteq> f_entry fn \<and> (\<exists>p. (p, b) \<in> cfg_edges fn \<and> cfg_reachable fn p \<and> cfg_dominates fn a p) \<and> \<not> (a \<noteq> b \<and> cfg_dominates fn a b)}
      \<union> {b. b = f_entry fn \<and> 2 \<le> card {p. (p, b) \<in> cfg_edges fn} \<and> (\<exists>p. (p, b) \<in> cfg_edges fn \<and> cfg_reachable fn p \<and> cfg_dominates fn a p) \<and> a \<noteq> b}"
proof -
  let ?n = "length (f_blocks fn)" and ?e = "f_entry fn"
  obtain dt idom rpo where dt: "ny_dominator_tree_init fresh fn = Some dt" and res: "dom_result fn idom" and set: "dom_setting fn rpo"
    and fr: "\<And>a. ny_dominator_tree_get_frontier dt a = (if a < ?n then bucket (firsts (df_visits fn idom [0..<?n])) a else [])"
    using dom_tree_built[OF assms(1-3), of fresh] by blast
  have a: "a \<in> dom_nodes fn" "a < ?n" using assms(4) set by (auto simp: reachable_nodes dom_setting_def Let_def)
  have mem: "b \<in> set (bucket es a) \<longleftrightarrow> (a, b) \<in> set es" for b and es :: "(nat \<times> nat) list" by (force simp: bucket_def)
  have "distinct (bucket es a)" if "distinct es" for es :: "(nat \<times> nat) list"
    using that by (induction es) (auto simp: mem)
  then have dist: "distinct (ny_dominator_tree_get_frontier dt a)" by (simp add: fr)
  have in_fr: "b \<in> set (ny_dominator_tree_get_frontier dt a) \<longleftrightarrow> (a, b) \<in> set (df_visits fn idom [0..<?n])" for b
    using a(2) by (simp add: fr mem)
  have inner: "b \<in> set (ny_dominator_tree_get_frontier dt a)
        \<longleftrightarrow> (\<exists>p. (p, b) \<in> cfg_edges fn \<and> cfg_reachable fn p \<and> cfg_dominates fn a p) \<and> \<not> (a \<noteq> b \<and> cfg_dominates fn a b)"
    if b: "b \<noteq> ?e" for b
    using df_visits_set[OF res set a(1) b] idom_of_preds(1)[OF res, of _ b] in_fr unfolding dom_paths reachable_nodes dom_preds_def by blast
  have entry: "?e \<in> set (ny_dominator_tree_get_frontier dt a)
        \<longleftrightarrow> 2 \<le> card {p. (p, ?e) \<in> cfg_edges fn} \<and> (\<exists>p. (p, ?e) \<in> cfg_edges fn \<and> cfg_reachable fn p \<and> cfg_dominates fn a p) \<and> a \<noteq> ?e"
  proof -
    have "set (b_preds (f_blocks fn ! ?e)) = {p. (p, ?e) \<in> cfg_edges fn}" "distinct (b_preds (f_blocks fn ! ?e))"
      using assms(1,2) edges_cfg by (auto simp: edges_wf_def)
    then have "length (b_preds (f_blocks fn ! ?e)) = card {p. (p, ?e) \<in> cfg_edges fn}" using distinct_card by metis
    then show ?thesis using df_visits_entry[OF res set a(1)] in_fr unfolding dom_paths reachable_nodes dom_preds_def by auto
  qed
  have "set (ny_dominator_tree_get_frontier dt a)
      = {b. b \<noteq> ?e \<and> (\<exists>p. (p, b) \<in> cfg_edges fn \<and> cfg_reachable fn p \<and> cfg_dominates fn a p) \<and> \<not> (a \<noteq> b \<and> cfg_dominates fn a b)}
      \<union> {b. b = ?e \<and> 2 \<le> card {p. (p, b) \<in> cfg_edges fn} \<and> (\<exists>p. (p, b) \<in> cfg_edges fn \<and> cfg_reachable fn p \<and> cfg_dominates fn a p) \<and> a \<noteq> b}"
  proof (rule set_eqI)
    fix b
    show "b \<in> set (ny_dominator_tree_get_frontier dt a) \<longleftrightarrow> b \<in> {b. b \<noteq> ?e \<and> (\<exists>p. (p, b) \<in> cfg_edges fn \<and> cfg_reachable fn p \<and> cfg_dominates fn a p) \<and> \<not> (a \<noteq> b \<and> cfg_dominates fn a b)}
      \<union> {b. b = ?e \<and> 2 \<le> card {p. (p, b) \<in> cfg_edges fn} \<and> (\<exists>p. (p, b) \<in> cfg_edges fn \<and> cfg_reachable fn p \<and> cfg_dominates fn a p) \<and> a \<noteq> b}"
      using inner[of b] entry by (cases "b = ?e") simp_all
  qed
  then show ?thesis using dt dist by blast
qed

lemma dominance_frontier_exact_witness:
  "\<exists>dt. ny_dominator_tree_init (\<lambda>_. 77) diamond_fn = Some dt \<and> 3 \<in> set (ny_dominator_tree_get_frontier dt 1)
     \<and> 0 \<notin> set (ny_dominator_tree_get_frontier dt 3)"
proof -
  note d = cfg_path_def cfg_edges_def ny_cfg_get_successors_def diamond_fn_def diamond_block_def
  have p: "cfg_path diamond_fn [0, 1]" "cfg_path diamond_fn [0, 2, 3]"
    by (simp_all add: d)
  have r: "cfg_reachable diamond_fn 1" "cfg_reachable diamond_fn 3" unfolding cfg_reachable_def using p by fastforce+
  have "(1, 3) \<in> cfg_edges diamond_fn" by (simp add: d)
  moreover have "\<not> cfg_dominates diamond_fn 1 3" unfolding cfg_dominates_def using p(2) by fastforce
  moreover have "cfg_dominates diamond_fn 1 1" unfolding cfg_dominates_def cfg_path_def by (metis last_in_set)
  moreover have e: "f_entry diamond_fn = 0" "length (f_blocks diamond_fn) = 6" by (simp_all add: diamond_fn_def)
  moreover have "{p. (p, 0) \<in> cfg_edges diamond_fn} = {3}"
  proof -
    have "set (b_preds (f_blocks diamond_fn ! 0)) = {p. (p, 0) \<in> edges diamond_fn}"
      using diamond_edges e(2) unfolding edges_wf_def by (metis zero_less_numeral)
    moreover have "b_preds (f_blocks diamond_fn ! 0) = [3]" by (simp add: diamond_fn_def diamond_block_def)
    ultimately show ?thesis using edges_cfg[OF diamond_edges] by simp
  qed
  ultimately show ?thesis
    using dominance_frontier_exact[OF diamond_edges _ _ r(1), of "\<lambda>_. 77"] dominance_frontier_exact[OF diamond_edges _ _ r(2), of "\<lambda>_. 77"] r(1) by fastforce
qed

text \<open>The tree of the validator.\<close>

lemma core_dominators:
  assumes "edges_wf fn" and "f_entry fn < length (f_blocks fn)" and "length (f_blocks fn) \<le> 2147483648"
  shows "\<exists>dt. ny_core_dominator_tree_init fn = Some dt
    \<and> (\<forall>a b. ny_core_dominator_tree_dominates dt a b = Some (a = b \<or> cfg_reachable fn b \<and> cfg_dominates fn a b))"
proof -
  let ?n = "length (f_blocks fn)"
  obtain idom rpo where run: "dom_run False fn ?n (dom_start fn ?n) = Some (idom, rpo)" and res: "dom_result fn idom" and set: "dom_setting fn rpo"
    and none: "\<forall>v < ?n. v \<notin> dom_nodes fn \<longrightarrow> rpo ! v = - 1" using dom_run_exact[OF assms] by blast
  have e: "f_entry fn \<noteq> NY_INVALID_BLOCK" "?n \<noteq> 0" using assms by (auto simp: NY_INVALID_def)
  have "dom_start fn ?n = \<lparr>dd_visited = (replicate ?n False)[f_entry fn := True], dd_stack = [(f_entry fn, 0)], dd_po = []\<rparr>"
    using assms(2) by (simp add: dom_start_def)
  then have "ny_core_dominator_tree_init fn = Some \<lparr>cd_block_count = ?n, cd_entry = f_entry fn, cd_idom = idom, cd_rpo = rpo\<rparr>"
    using e run assms(2) by (simp add: ny_core_dominator_tree_init_def Let_def)
  then show ?thesis
    using dom_query_exact[OF res set none] dom_reachable unfolding reachable_nodes
    by (auto simp: ny_core_dominator_tree_dominates_def dom_paths[symmetric])
qed

end
