(* ===== verification/Validate.thy ===== *)
theory Validate
  imports Dom_Frontier Module
begin

text \<open>
  The validator, \<^verbatim>\<open>src/ir/validate.c\<close>.  A diagnostic is the condition it reports with the ids its text prints; the list of
  diagnostics is an option because the caller may pass a null pointer.  The position in a block is an \<^verbatim>\<open>int\<close>, whose increment
  must not overflow.  The walk follows the links until the invalid id, so
  that on a cycle it does not return.
\<close>

subsection \<open>Diagnostics\<close>

datatype ny_diagnostic =
    Invalid_Entry
  | Entry_Has_Predecessors
  | Empty_Block nat
  | Inst_Out_Of_Bounds nat
  | Dead_Inst_Linked nat
  | Block_Mismatch nat
  | Prev_Link_Broken nat
  | Phi_Not_At_Start nat
  | Phi_Odd nat
  | Value_Out_Of_Bounds nat nat
  | Value_Invalid_Def nat
  | Phi_Value_Not_Dominating nat nat
  | Used_Before_Defined nat
  | Def_Not_Dominating nat nat nat
  | Not_Terminated nat
  | Global_Empty_Name
  | Global_Duplicate string

type_synonym diagnostics = "ny_diagnostic list option"

definition ny_diagnostic_list_init :: "ny_diagnostic list" where
  "ny_diagnostic_list_init = []"

definition ny_diagnostic_list_destroy :: "ny_diagnostic list \<Rightarrow> ny_diagnostic list" where
  "ny_diagnostic_list_destroy list = []"

definition ny_diagnostic_list_append :: "ny_diagnostic list \<Rightarrow> ny_diagnostic option \<Rightarrow> ny_diagnostic list" where
  "ny_diagnostic_list_append list msg = (case msg of None \<Rightarrow> list | Some m \<Rightarrow> list @ [m])"

definition report :: "ny_diagnostic \<Rightarrow> diagnostics \<Rightarrow> diagnostics" where
  "report m = map_option (\<lambda>list. ny_diagnostic_list_append list (Some m))"

definition report_if :: "bool \<Rightarrow> ny_diagnostic \<Rightarrow> diagnostics \<Rightarrow> diagnostics" where
  "report_if c m ds = (if c then report m ds else ds)"

subsection \<open>Operands\<close>

definition validate_def :: "ny_function \<Rightarrow> ny_core_dominator_tree \<Rightarrow> nat \<Rightarrow> int list \<Rightarrow> int \<Rightarrow> ny_instruction \<Rightarrow> nat \<Rightarrow> nat \<Rightarrow> nat
    \<Rightarrow> diagnostics \<Rightarrow> diagnostics option" where
  "validate_def fn dt blk inst_pos pos inst i v def ds = do {
     def_inst \<leftarrow> rd (f_insts fn) def;
     if i_opcode inst = NY_OPCODE_PHI then
       if i + 1 < i_op_count inst then do {
         op \<leftarrow> op_at fn (ny_function_get_operands fn inst) (i + 1);
         (case op of
            OpBlock in_blk \<Rightarrow>
              if i_block def_inst = in_blk then Some ds
              else do {
                d \<leftarrow> ny_core_dominator_tree_dominates dt (i_block def_inst) in_blk;
                Some (report_if (\<not> d) (Phi_Value_Not_Dominating v in_blk) ds)
              }
          | _ \<Rightarrow> Some ds)
       }
       else Some ds
     else if i_block def_inst = blk then do {
       d_pos \<leftarrow> rd inst_pos def;
       Some (report_if (d_pos < 0 \<or> d_pos \<ge> pos - 1) (Used_Before_Defined v) ds)
     }
     else do {
       d \<leftarrow> ny_core_dominator_tree_dominates dt (i_block def_inst) blk;
       Some (report_if (\<not> d) (Def_Not_Dominating v (i_block def_inst) blk) ds)
     }
   }"

definition validate_operand :: "ny_function \<Rightarrow> ny_core_dominator_tree \<Rightarrow> nat \<Rightarrow> int list \<Rightarrow> int \<Rightarrow> nat \<Rightarrow> ny_instruction \<Rightarrow> diagnostics \<Rightarrow> nat
    \<Rightarrow> diagnostics option" where
  "validate_operand fn dt blk inst_pos pos cur inst ds i = do {
     op \<leftarrow> op_at fn (ny_function_get_operands fn inst) i;
     (case op of
        OpValue v \<Rightarrow>
          (case ny_function_get_value fn v of
             None \<Rightarrow> Some (report (Value_Out_Of_Bounds cur v) ds)
           | Some val \<Rightarrow>
               if v_kind val = NY_VAL_INSTRUCTION then
                 if v_def val = NY_INVALID_INST \<or> v_def val \<ge> length (f_insts fn) then Some (report (Value_Invalid_Def v) ds)
                 else validate_def fn dt blk inst_pos pos inst i v (v_def val) ds
               else Some ds)
      | _ \<Rightarrow> Some ds)
   }"

subsection \<open>Instructions and blocks\<close>

record val_state =
  vs_diags :: diagnostics
  vs_pos :: "int list"
  vs_prev :: nat
  vs_last :: "ny_instruction option"
  vs_non_phi :: bool
  vs_count :: int

definition validate_inst :: "ny_function \<Rightarrow> ny_core_dominator_tree \<Rightarrow> nat \<Rightarrow> nat \<Rightarrow> ny_instruction \<Rightarrow> val_state \<Rightarrow> val_state option" where
  "validate_inst fn dt blk cur inst s = do {
     let ds = report_if (i_opcode inst = NY_OPCODE_NONE) (Dead_Inst_Linked cur) (vs_diags s);
     inst_pos \<leftarrow> wr (vs_pos s) cur (vs_count s);
     assert_c (vs_count s < 2147483647);
     let pos = vs_count s + 1;
     let ds = report_if (i_block inst \<noteq> blk) (Block_Mismatch cur) ds;
     let ds = report_if (i_prev inst \<noteq> vs_prev s) (Prev_Link_Broken cur) ds;
     let phi = (i_opcode inst = NY_OPCODE_PHI);
     let ds = report_if (phi \<and> vs_non_phi s) (Phi_Not_At_Start cur) ds;
     let ds = report_if (phi \<and> i_op_count inst mod 2 \<noteq> 0) (Phi_Odd cur) ds;
     ds \<leftarrow> foldM (validate_operand fn dt blk inst_pos pos cur inst) ds [0..<i_op_count inst];
     Some \<lparr>vs_diags = ds, vs_pos = inst_pos, vs_prev = cur, vs_last = Some inst, vs_non_phi = vs_non_phi s \<or> \<not> phi, vs_count = pos\<rparr>
   }"

partial_function (option) validate_insts :: "ny_function \<Rightarrow> ny_core_dominator_tree \<Rightarrow> nat \<Rightarrow> nat \<Rightarrow> val_state \<Rightarrow> val_state option" where
  "validate_insts fn dt blk cur s =
     (if cur = NY_INVALID_INST then Some s
      else (case ny_function_get_instruction fn cur of
          None \<Rightarrow> Some (s\<lparr>vs_diags := report (Inst_Out_Of_Bounds cur) (vs_diags s)\<rparr>)
        | Some inst \<Rightarrow> do { s \<leftarrow> validate_inst fn dt blk cur inst s; validate_insts fn dt blk (i_next inst) s }))"

definition validate_block :: "ny_function \<Rightarrow> ny_core_dominator_tree \<Rightarrow> int list \<times> diagnostics \<Rightarrow> nat \<Rightarrow> (int list \<times> diagnostics) option" where
  "validate_block fn dt = (\<lambda>(inst_pos, ds) b. do {
     blk \<leftarrow> rd (f_blocks fn) b;
     if b_first blk = NY_INVALID_INST then
       Some (inst_pos, report_if (b_id blk = f_entry fn \<or> b_preds blk \<noteq> [] \<or> b_succs blk \<noteq> []) (Empty_Block b) ds)
     else do {
       s \<leftarrow> validate_insts fn dt (b_id blk) (b_first blk)
         \<lparr>vs_diags = ds, vs_pos = inst_pos, vs_prev = NY_INVALID_INST, vs_last = None, vs_non_phi = False, vs_count = 0\<rparr>;
       Some (vs_pos s, case vs_last s of None \<Rightarrow> vs_diags s
         | Some inst \<Rightarrow> report_if (\<not> ny_opcode_is_terminator (i_opcode inst)) (Not_Terminated b) (vs_diags s))
     }
   })"

definition ny_validate_function :: "ny_module \<Rightarrow> ny_function \<Rightarrow> diagnostics \<Rightarrow> (bool \<times> diagnostics) option" where
  "ny_validate_function md fn out_diags =
     (if f_blocks fn = [] then Some (True, out_diags)
      else if f_entry fn = NY_INVALID_BLOCK \<or> f_entry fn \<ge> length (f_blocks fn) then Some (False, report Invalid_Entry out_diags)
      else do {
        let ds = report_if (b_preds (f_blocks fn ! f_entry fn) \<noteq> []) Entry_Has_Predecessors out_diags;
        dt \<leftarrow> ny_core_dominator_tree_init fn;
        (_, ds) \<leftarrow> foldM (validate_block fn dt) (replicate (length (f_insts fn)) (- 1), ds) [0..<length (f_blocks fn)];
        Some (case (out_diags, ds) of (Some old, Some new) \<Rightarrow> length new = length old | _ \<Rightarrow> True, ds)
      })"

definition validate_global :: "ny_module \<Rightarrow> bool \<times> diagnostics \<Rightarrow> nat \<Rightarrow> bool \<times> diagnostics" where
  "validate_global md = (\<lambda>(ok, ds) g.
     let glob = m_globals md ! g;
         (ok, ds) = (if g_name glob = [] then (False, report Global_Empty_Name ds) else (ok, ds))
     in foldl (\<lambda>(ok, ds) g2. if g_name glob = g_name (m_globals md ! g2) then (False, report (Global_Duplicate (g_name glob)) ds) else (ok, ds))
          (ok, ds) [g + 1..<length (m_globals md)])"

definition ny_validate_module :: "ny_module \<Rightarrow> diagnostics \<Rightarrow> (bool \<times> diagnostics) option" where
  "ny_validate_module md out_diags =
     foldM (\<lambda>(ok, ds) fn. do { (r, ds) \<leftarrow> ny_validate_function md fn ds; Some (ok \<and> r, ds) })
       (foldl (validate_global md) (True, out_diags) [0..<length (m_globals md)]) (m_functions md)"

end
