(* ===== verification/Validate_Exact.thy ===== *)
theory Validate_Exact
  imports Validate
begin

text \<open>
  What the validator of \<^verbatim>\<open>src/ir/validate.c\<close> accepts: on a function whose link chains end, it accepts exactly the functions
  that satisfy \<open>rules_hold\<close>, its rules with dominance along paths.
\<close>

subsection \<open>The rules\<close>

text \<open>The instructions of a block in the order of their links.\<close>

fun next_chain :: "ny_function \<Rightarrow> nat \<Rightarrow> nat list \<Rightarrow> bool" where
  "next_chain fn cur [] \<longleftrightarrow> cur = NY_INVALID_INST"
| "next_chain fn cur (x # xs) \<longleftrightarrow> cur = x \<and> x \<noteq> NY_INVALID_INST \<and> x < length (f_insts fn) \<and> next_chain fn (i_next (f_insts fn ! x)) xs"

definition block_chains :: "ny_function \<Rightarrow> nat list list \<Rightarrow> bool" where
  "block_chains fn L \<longleftrightarrow> length L = length (f_blocks fn) \<and> (\<forall>b < length (f_blocks fn). next_chain fn (b_first (f_blocks fn ! b)) (L ! b)
     \<and> (\<forall>x \<in> set (L ! b). i_op_start (f_insts fn ! x) + i_op_count (f_insts fn ! x) \<le> length (f_operands fn)))"

definition block_dominates :: "ny_function \<Rightarrow> nat \<Rightarrow> nat \<Rightarrow> bool" where
  "block_dominates fn a b \<longleftrightarrow> a = b \<or> cfg_reachable fn b \<and> cfg_dominates fn a b"

text \<open>The use of a value defined by instruction \<open>d\<close> as operand \<open>i\<close> of the instruction at position \<open>k\<close> of block \<open>b\<close>.\<close>

definition use_valid :: "ny_function \<Rightarrow> nat list list \<Rightarrow> nat \<Rightarrow> nat \<Rightarrow> nat \<Rightarrow> nat \<Rightarrow> bool" where
  "use_valid fn L b k i d \<longleftrightarrow> (let inst = f_insts fn ! (L ! b ! k); db = i_block (f_insts fn ! d) in
     if i_opcode inst = NY_OPCODE_PHI then
       (case f_operands fn ! (i_op_start inst + i + 1) of OpBlock p \<Rightarrow> i + 1 < i_op_count inst \<longrightarrow> block_dominates fn db p | _ \<Rightarrow> True)
     else if db = b then \<exists>j < k. L ! b ! j = d
     else block_dominates fn db b)"

definition operand_valid :: "ny_function \<Rightarrow> nat list list \<Rightarrow> nat \<Rightarrow> nat \<Rightarrow> nat \<Rightarrow> bool" where
  "operand_valid fn L b k i \<longleftrightarrow> (case f_operands fn ! (i_op_start (f_insts fn ! (L ! b ! k)) + i) of
       OpValue v \<Rightarrow> v < length (f_values fn) \<and> (let val = f_values fn ! v in
         v_kind val = NY_VAL_INSTRUCTION \<longrightarrow> v_def val \<noteq> NY_INVALID_INST \<and> v_def val < length (f_insts fn) \<and> use_valid fn L b k i (v_def val))
     | _ \<Rightarrow> True)"

definition inst_valid :: "ny_function \<Rightarrow> nat list list \<Rightarrow> nat \<Rightarrow> nat \<Rightarrow> bool" where
  "inst_valid fn L b k \<longleftrightarrow> (let inst = f_insts fn ! (L ! b ! k) in
     i_opcode inst \<noteq> NY_OPCODE_NONE \<and> i_block inst = b \<and> i_prev inst = (if k = 0 then NY_INVALID_INST else L ! b ! (k - 1))
     \<and> (i_opcode inst = NY_OPCODE_PHI \<longrightarrow> even (i_op_count inst) \<and> (\<forall>j < k. i_opcode (f_insts fn ! (L ! b ! j)) = NY_OPCODE_PHI))
     \<and> (\<forall>i < i_op_count inst. operand_valid fn L b k i))"

definition rules_hold :: "ny_function \<Rightarrow> nat list list \<Rightarrow> bool" where
  "rules_hold fn L \<longleftrightarrow> b_preds (f_blocks fn ! f_entry fn) = [] \<and> (\<forall>b < length (f_blocks fn).
     (L ! b = [] \<longrightarrow> b \<noteq> f_entry fn \<and> b_preds (f_blocks fn ! b) = [] \<and> b_succs (f_blocks fn ! b) = [])
     \<and> (\<forall>k < length (L ! b). inst_valid fn L b k)
     \<and> (L ! b \<noteq> [] \<longrightarrow> ny_opcode_is_terminator (i_opcode (f_insts fn ! last (L ! b)))))"

subsection \<open>Every check adds its diagnostic or nothing\<close>

text \<open>\<open>adds c ds r\<close>: the result \<open>r\<close> extends the list \<open>ds\<close>, by nothing exactly when \<open>c\<close> holds.\<close>

definition adds :: "bool \<Rightarrow> diagnostics \<Rightarrow> diagnostics \<Rightarrow> bool" where
  "adds c ds ds' \<longleftrightarrow> (\<exists>old es. ds = Some old \<and> ds' = Some (old @ es) \<and> (es = [] \<longleftrightarrow> c))"

lemma adds_trans: "adds c ds ds' \<Longrightarrow> adds d ds' ds'' \<Longrightarrow> adds (c \<and> d) ds ds''"
  by (fastforce simp: adds_def)

lemma adds_keep: "ds \<noteq> None \<Longrightarrow> adds True ds ds"
  by (auto simp: adds_def)

lemma adds_report: "ds \<noteq> None \<Longrightarrow> adds False ds (report m ds)" "ds \<noteq> None \<Longrightarrow> adds (\<not> c) ds (report_if c m ds)"
  by (auto simp: adds_def report_def report_if_def ny_diagnostic_list_append_def)

lemma adds_some: "adds c ds ds' \<Longrightarrow> ds' \<noteq> None"
  by (auto simp: adds_def)

lemma adds_cong: "adds c ds ds' \<Longrightarrow> (c \<longleftrightarrow> d) \<Longrightarrow> adds d ds ds'"
  by simp

lemma foldM_adds:
  assumes "\<And>x ds. x \<in> set xs \<Longrightarrow> ds \<noteq> None \<Longrightarrow> \<exists>ds'. f ds x = Some ds' \<and> adds (c x) ds ds'" and "ds \<noteq> None"
  shows "\<exists>ds'. foldM f ds xs = Some ds' \<and> adds (\<forall>x \<in> set xs. c x) ds ds'"
  using assms
proof (induction xs arbitrary: ds)
  case (Cons x xs)
  obtain d1 where d1: "f ds x = Some d1" "adds (c x) ds d1" using Cons.prems(1)[of x ds] Cons.prems(2) by auto
  obtain d2 where "foldM f d1 xs = Some d2" "adds (\<forall>x \<in> set xs. c x) d1 d2" using Cons.IH[of d1] Cons.prems(1) adds_some[OF d1(2)] by auto
  then show ?case using d1 adds_trans[OF d1(2)] by auto
qed (auto intro: adds_keep)

text \<open>What one operand needs, in terms of the recorded positions.\<close>

definition def_ok :: "ny_function \<Rightarrow> nat \<Rightarrow> int list \<Rightarrow> int \<Rightarrow> ny_instruction \<Rightarrow> nat \<Rightarrow> nat \<Rightarrow> bool" where
  "def_ok fn blk ip pos inst i d \<longleftrightarrow> (let db = i_block (f_insts fn ! d) in
     if i_opcode inst = NY_OPCODE_PHI then
       (case f_operands fn ! (i_op_start inst + i + 1) of OpBlock p \<Rightarrow> i + 1 < i_op_count inst \<longrightarrow> block_dominates fn db p | _ \<Rightarrow> True)
     else if db = blk then 0 \<le> ip ! d \<and> ip ! d < pos - 1
     else block_dominates fn db blk)"

definition operand_ok :: "ny_function \<Rightarrow> nat \<Rightarrow> int list \<Rightarrow> int \<Rightarrow> ny_instruction \<Rightarrow> nat \<Rightarrow> bool" where
  "operand_ok fn blk ip pos inst i \<longleftrightarrow> (case f_operands fn ! (i_op_start inst + i) of
       OpValue v \<Rightarrow> v < length (f_values fn) \<and> (let val = f_values fn ! v in
         v_kind val = NY_VAL_INSTRUCTION \<longrightarrow> v_def val \<noteq> NY_INVALID_INST \<and> v_def val < length (f_insts fn) \<and> def_ok fn blk ip pos inst i (v_def val))
     | _ \<Rightarrow> True)"

definition dom_oracle :: "ny_function \<Rightarrow> ny_core_dominator_tree \<Rightarrow> bool" where
  "dom_oracle fn dt \<longleftrightarrow> (\<forall>a b. ny_core_dominator_tree_dominates dt a b = Some (block_dominates fn a b))"

lemma validate_def_adds:
  assumes dt: "dom_oracle fn dt" and ip: "length ip = length (f_insts fn)" and d: "d < length (f_insts fn)"
    and ops: "i_op_start inst + i_op_count inst \<le> length (f_operands fn)" and i: "i < i_op_count inst" and ds: "ds \<noteq> None"
  shows "\<exists>ds'. validate_def fn dt blk ip pos inst i v d ds = Some ds' \<and> adds (def_ok fn blk ip pos inst i d) ds ds'"
proof -
  let ?def = "f_insts fn ! d"
  have dom: "ny_core_dominator_tree_dominates dt a b = Some (block_dominates fn a b)" for a b using dt by (simp add: dom_oracle_def)
  have get: "ny_function_get_operands fn inst = Some (i_op_start inst)" using ops by (simp add: ny_function_get_operands_def)
  consider "i_opcode inst = NY_OPCODE_PHI" "i + 1 < i_op_count inst" | "i_opcode inst = NY_OPCODE_PHI" "\<not> i + 1 < i_op_count inst"
    | "i_opcode inst \<noteq> NY_OPCODE_PHI" "i_block ?def = blk" | "i_opcode inst \<noteq> NY_OPCODE_PHI" "i_block ?def \<noteq> blk" by blast
  then show ?thesis
  proof cases
    case 1
    then have op: "op_at fn (ny_function_get_operands fn inst) (i + 1) = Some (f_operands fn ! (i_op_start inst + i + 1))"
      using get ops by (simp add: op_at_def add.assoc)
    have refl: "block_dominates fn a a" for a by (simp add: block_dominates_def)
    show ?thesis using 1 d op adds_keep[OF ds] adds_report(2)[OF ds]
      by (cases "f_operands fn ! (i_op_start inst + i + 1)") (auto simp: validate_def_def def_ok_def Let_def dom refl intro: adds_cong)
  next
    case 2
    then show ?thesis using d adds_keep[OF ds] by (auto simp: validate_def_def def_ok_def Let_def split: ny_operand.splits)
  next
    case 3
    then show ?thesis using d ip adds_report(2)[OF ds, of "ip ! d < 0 \<or> ip ! d \<ge> pos - 1" "Used_Before_Defined v"]
      by (auto simp: validate_def_def def_ok_def Let_def not_less not_le)
  next
    case 4
    then show ?thesis using d adds_report(2)[OF ds] by (auto simp: validate_def_def def_ok_def Let_def dom intro: adds_cong)
  qed
qed

lemma validate_operand_adds:
  assumes dt: "dom_oracle fn dt" and ip: "length ip = length (f_insts fn)"
    and ops: "i_op_start inst + i_op_count inst \<le> length (f_operands fn)" and i: "i < i_op_count inst" and ds: "ds \<noteq> None"
  shows "\<exists>ds'. validate_operand fn dt blk ip pos cur inst ds i = Some ds' \<and> adds (operand_ok fn blk ip pos inst i) ds ds'"
proof -
  let ?op = "f_operands fn ! (i_op_start inst + i)"
  have op: "op_at fn (ny_function_get_operands fn inst) i = Some ?op" using ops i by (simp add: op_at_def ny_function_get_operands_def)
  show ?thesis
  proof (cases "\<exists>v. ?op = OpValue v \<and> v < length (f_values fn) \<and> v_kind (f_values fn ! v) = NY_VAL_INSTRUCTION
      \<and> v_def (f_values fn ! v) \<noteq> NY_INVALID_INST \<and> v_def (f_values fn ! v) < length (f_insts fn)")
    case True
    then obtain v where v: "?op = OpValue v" "v < length (f_values fn)" "v_kind (f_values fn ! v) = NY_VAL_INSTRUCTION"
      "v_def (f_values fn ! v) \<noteq> NY_INVALID_INST" "v_def (f_values fn ! v) < length (f_insts fn)" by blast
    then show ?thesis using validate_def_adds[OF dt ip v(5) ops i ds] op by (simp add: validate_operand_def operand_ok_def)
  next
    case False
    show ?thesis
    proof (cases "\<exists>v. ?op = OpValue v")
      case True
      then obtain v where v: "?op = OpValue v" by blast
      show ?thesis using False op v adds_keep[OF ds] adds_report(1)[OF ds]
        by (cases "v < length (f_values fn)") (auto simp: validate_operand_def operand_ok_def Let_def)
    next
      case False
      then show ?thesis using op adds_keep[OF ds] by (cases ?op) (auto simp: validate_operand_def operand_ok_def)
    qed
  qed
qed

subsection \<open>Chains\<close>

lemma next_chain_unique: "next_chain fn cur xs \<Longrightarrow> next_chain fn cur ys \<Longrightarrow> xs = ys"
proof (induction xs arbitrary: cur ys)
  case Nil
  then show ?case by (cases ys) auto
next
  case (Cons x xs)
  then show ?case by (cases ys) auto
qed

lemma next_chain_at: "next_chain fn cur (xs @ x # ys) \<Longrightarrow> next_chain fn x (x # ys)"
  by (induction xs arbitrary: cur) auto

lemma next_chain_distinct: "next_chain fn cur xs \<Longrightarrow> distinct xs"
proof (induction xs arbitrary: cur)
  case (Cons x xs)
  have "x \<notin> set xs"
  proof
    assume "x \<in> set xs"
    then obtain us vs where e: "xs = us @ x # vs" by (meson split_list)
    have "next_chain fn x (x # vs)" using next_chain_at[of fn cur "x # us" x vs] Cons.prems e by simp
    then have "x # vs = x # xs" using next_chain_unique[of fn x "x # vs" "x # xs"] Cons.prems by auto
    then show False using e by simp
  qed
  then show ?case using Cons by auto
qed simp

lemma next_chain_bound: "next_chain fn cur xs \<Longrightarrow> x \<in> set xs \<Longrightarrow> x < length (f_insts fn)"
  by (induction xs arbitrary: cur) auto

lemma next_chain_length:
  assumes "next_chain fn cur xs"
  shows "length xs \<le> length (f_insts fn)"
proof -
  have "card (set xs) \<le> card {..<length (f_insts fn)}" by (rule card_mono) (use next_chain_bound[OF assms] in auto)
  then show ?thesis using distinct_card[OF next_chain_distinct[OF assms]] by simp
qed

subsection \<open>Instructions\<close>

fun marks :: "int list \<Rightarrow> int \<Rightarrow> nat list \<Rightarrow> int list" where
  "marks ip c [] = ip"
| "marks ip c (x # xs) = marks (ip[x := c]) (c + 1) xs"

definition inst_ok :: "ny_function \<Rightarrow> nat \<Rightarrow> nat list \<Rightarrow> val_state \<Rightarrow> nat \<Rightarrow> bool" where
  "inst_ok fn blk xs s k \<longleftrightarrow> (let inst = f_insts fn ! (xs ! k) in
     i_opcode inst \<noteq> NY_OPCODE_NONE \<and> i_block inst = blk \<and> i_prev inst = (if k = 0 then vs_prev s else xs ! (k - 1))
     \<and> (i_opcode inst = NY_OPCODE_PHI \<longrightarrow> even (i_op_count inst) \<and> \<not> vs_non_phi s \<and> (\<forall>j < k. i_opcode (f_insts fn ! (xs ! j)) = NY_OPCODE_PHI))
     \<and> (\<forall>i < i_op_count inst. operand_ok fn blk (marks (vs_pos s) (vs_count s) (take (Suc k) xs)) (vs_count s + int k + 1) inst i))"

lemma validate_inst_adds:
  assumes dt: "dom_oracle fn dt" and ip: "length (vs_pos s) = length (f_insts fn)" and x: "x < length (f_insts fn)"
    and ops: "i_op_start (f_insts fn ! x) + i_op_count (f_insts fn ! x) \<le> length (f_operands fn)" and ds: "vs_diags s \<noteq> None" and cnt: "vs_count s < 2147483647"
  shows "\<exists>ds'. validate_inst fn dt blk x (f_insts fn ! x) s = Some \<lparr>vs_diags = ds', vs_pos = (vs_pos s)[x := vs_count s], vs_prev = x,
      vs_last = Some (f_insts fn ! x), vs_non_phi = vs_non_phi s \<or> i_opcode (f_insts fn ! x) \<noteq> NY_OPCODE_PHI, vs_count = vs_count s + 1\<rparr>
    \<and> adds (inst_ok fn blk (x # xs) s 0) (vs_diags s) ds'"
proof -
  let ?inst = "f_insts fn ! x" and ?phi = "i_opcode (f_insts fn ! x) = NY_OPCODE_PHI" and ?ip = "(vs_pos s)[x := vs_count s]"
  define d1 where "d1 = report_if (i_opcode ?inst = NY_OPCODE_NONE) (Dead_Inst_Linked x) (vs_diags s)"
  define d2 where "d2 = report_if (i_block ?inst \<noteq> blk) (Block_Mismatch x) d1"
  define d3 where "d3 = report_if (i_prev ?inst \<noteq> vs_prev s) (Prev_Link_Broken x) d2"
  define d4 where "d4 = report_if (?phi \<and> vs_non_phi s) (Phi_Not_At_Start x) d3"
  define d5 where "d5 = report_if (?phi \<and> i_op_count ?inst mod 2 \<noteq> 0) (Phi_Odd x) d4"
  have a1: "adds (i_opcode ?inst \<noteq> NY_OPCODE_NONE) (vs_diags s) d1" unfolding d1_def by (rule adds_report(2)[OF ds])
  have a2: "adds (i_block ?inst = blk) d1 d2" using adds_report(2)[OF adds_some[OF a1]] unfolding d2_def by (auto intro: adds_cong)
  have a3: "adds (i_prev ?inst = vs_prev s) d2 d3" using adds_report(2)[OF adds_some[OF a2]] unfolding d3_def by (auto intro: adds_cong)
  have a4: "adds (\<not> (?phi \<and> vs_non_phi s)) d3 d4" unfolding d4_def by (rule adds_report(2)[OF adds_some[OF a3]])
  have a5: "adds (\<not> (?phi \<and> i_op_count ?inst mod 2 \<noteq> 0)) d4 d5" unfolding d5_def by (rule adds_report(2)[OF adds_some[OF a4]])
  have "\<exists>ds'. foldM (validate_operand fn dt blk ?ip (vs_count s + 1) x ?inst) d5 [0..<i_op_count ?inst] = Some ds'
      \<and> adds (\<forall>i \<in> set [0..<i_op_count ?inst]. operand_ok fn blk ?ip (vs_count s + 1) ?inst i) d5 ds'"
    by (rule foldM_adds) (use validate_operand_adds[OF dt _ ops] ip adds_some[OF a5] in auto)
  then obtain ds' where f: "foldM (validate_operand fn dt blk ?ip (vs_count s + 1) x ?inst) d5 [0..<i_op_count ?inst] = Some ds'"
    and a6: "adds (\<forall>i \<in> set [0..<i_op_count ?inst]. operand_ok fn blk ?ip (vs_count s + 1) ?inst i) d5 ds'" by blast
  have "validate_inst fn dt blk x ?inst s = Some \<lparr>vs_diags = ds', vs_pos = ?ip, vs_prev = x, vs_last = Some ?inst,
      vs_non_phi = vs_non_phi s \<or> \<not> ?phi, vs_count = vs_count s + 1\<rparr>"
    using ip x f cnt unfolding d5_def d4_def d3_def d2_def d1_def by (simp add: validate_inst_def Let_def)
  moreover have "adds (inst_ok fn blk (x # xs) s 0) (vs_diags s) ds'"
    by (rule adds_cong[OF adds_trans[OF a1 adds_trans[OF a2 adds_trans[OF a3 adds_trans[OF a4 adds_trans[OF a5 a6]]]]]])
      (auto simp: inst_ok_def Let_def even_iff_mod_2_eq_zero)
  ultimately show ?thesis by blast
qed

lemma validate_insts_adds:
  assumes dt: "dom_oracle fn dt"
  shows "\<lbrakk>next_chain fn cur xs; \<forall>x \<in> set xs. i_op_start (f_insts fn ! x) + i_op_count (f_insts fn ! x) \<le> length (f_operands fn);
      vs_diags s \<noteq> None; length (vs_pos s) = length (f_insts fn); vs_count s + int (length xs) \<le> 2147483647\<rbrakk>
    \<Longrightarrow> \<exists>s'. validate_insts fn dt blk cur s = Some s' \<and> adds (\<forall>k < length xs. inst_ok fn blk xs s k) (vs_diags s) (vs_diags s')
      \<and> vs_pos s' = marks (vs_pos s) (vs_count s) xs \<and> vs_last s' = (if xs = [] then vs_last s else Some (f_insts fn ! last xs))"
proof (induction xs arbitrary: cur s)
  case Nil
  have "validate_insts fn dt blk cur s = Some s" using Nil.prems by (subst validate_insts.simps) simp
  then show ?case using adds_keep[OF Nil.prems(3)] by simp
next
  case (Cons x xs)
  have x: "cur = x" "x \<noteq> NY_INVALID_INST" "x < length (f_insts fn)" "next_chain fn (i_next (f_insts fn ! x)) xs" using Cons.prems(1) by simp_all
  obtain ds' where i: "validate_inst fn dt blk x (f_insts fn ! x) s = Some \<lparr>vs_diags = ds', vs_pos = (vs_pos s)[x := vs_count s], vs_prev = x,
      vs_last = Some (f_insts fn ! x), vs_non_phi = vs_non_phi s \<or> i_opcode (f_insts fn ! x) \<noteq> NY_OPCODE_PHI, vs_count = vs_count s + 1\<rparr>"
    and a: "adds (inst_ok fn blk (x # xs) s 0) (vs_diags s) ds'"
    using validate_inst_adds[OF dt Cons.prems(4) x(3) _ Cons.prems(3), of blk xs] Cons.prems(2,5) by fastforce
  define s1 where "s1 = \<lparr>vs_diags = ds', vs_pos = (vs_pos s)[x := vs_count s], vs_prev = x,
      vs_last = Some (f_insts fn ! x), vs_non_phi = vs_non_phi s \<or> i_opcode (f_insts fn ! x) \<noteq> NY_OPCODE_PHI, vs_count = vs_count s + 1\<rparr>"
  obtain s' where s': "validate_insts fn dt blk (i_next (f_insts fn ! x)) s1 = Some s'" "adds (\<forall>k < length xs. inst_ok fn blk xs s1 k) (vs_diags s1) (vs_diags s')"
    "vs_pos s' = marks (vs_pos s1) (vs_count s1) xs" "vs_last s' = (if xs = [] then vs_last s1 else Some (f_insts fn ! last xs))"
    using Cons.IH[OF x(4), of s1] Cons.prems(2,4,5) adds_some[OF a] by (auto simp: s1_def)
  have "validate_insts fn dt blk cur s = Some s'" using x(1-3) i s'(1) by (subst validate_insts.simps) (simp add: s1_def)
  moreover have "inst_ok fn blk xs s1 k \<longleftrightarrow> inst_ok fn blk (x # xs) s (Suc k)" for k
  proof -
    have p: "(if k = 0 then vs_prev s1 else xs ! (k - 1)) = (x # xs) ! k" by (cases k) (simp_all add: s1_def)
    have q: "\<not> vs_non_phi s1 \<and> (\<forall>j < k. i_opcode (f_insts fn ! (xs ! j)) = NY_OPCODE_PHI)
      \<longleftrightarrow> \<not> vs_non_phi s \<and> (\<forall>j < Suc k. i_opcode (f_insts fn ! ((x # xs) ! j)) = NY_OPCODE_PHI)" by (auto simp: s1_def All_less_Suc2)
    show ?thesis unfolding inst_ok_def Let_def p q by (simp add: s1_def algebra_simps)
  qed
  then have "(\<forall>k < length (x # xs). inst_ok fn blk (x # xs) s k) \<longleftrightarrow> inst_ok fn blk (x # xs) s 0 \<and> (\<forall>k < length xs. inst_ok fn blk xs s1 k)"
    by (simp add: All_less_Suc2)
  then have "adds (\<forall>k < length (x # xs). inst_ok fn blk (x # xs) s k) (vs_diags s) (vs_diags s')"
    using adds_trans[OF a] s'(2) by (simp add: s1_def)
  ultimately show ?case using s'(3,4) by (auto simp: s1_def)
qed

subsection \<open>Blocks\<close>

definition val_start :: "diagnostics \<Rightarrow> int list \<Rightarrow> val_state" where
  "val_start ds ip = \<lparr>vs_diags = ds, vs_pos = ip, vs_prev = NY_INVALID_INST, vs_last = None, vs_non_phi = False, vs_count = 0\<rparr>"

definition rules_ok :: "ny_function \<Rightarrow> nat list list \<Rightarrow> int list \<Rightarrow> nat \<Rightarrow> bool" where
  "rules_ok fn L ip b \<longleftrightarrow> (L ! b = [] \<longrightarrow> b \<noteq> f_entry fn \<and> b_preds (f_blocks fn ! b) = [] \<and> b_succs (f_blocks fn ! b) = [])
     \<and> (\<forall>k < length (L ! b). inst_ok fn b (L ! b) (val_start None ip) k)
     \<and> (L ! b \<noteq> [] \<longrightarrow> ny_opcode_is_terminator (i_opcode (f_insts fn ! last (L ! b))))"

lemma length_marks [simp]: "length (marks ip c xs) = length ip"
  by (induction xs arbitrary: ip c) simp_all

lemma validate_block_adds:
  assumes dt: "dom_oracle fn dt" and ew: "edges_wf fn" and ch: "block_chains fn L" and b: "b < length (f_blocks fn)"
    and ds: "ds \<noteq> None" and ip: "length ip = length (f_insts fn)" and small: "length (f_insts fn) \<le> 2147483647"
  shows "\<exists>ds'. validate_block fn dt (ip, ds) b = Some (marks ip 0 (L ! b), ds') \<and> adds (rules_ok fn L ip b) ds ds'"
proof -
  let ?blk = "f_blocks fn ! b"
  have id: "b_id ?blk = b" using ew b by (simp add: edges_wf_def)
  have c: "next_chain fn (b_first ?blk) (L ! b)"
    and ops: "\<forall>x \<in> set (L ! b). i_op_start (f_insts fn ! x) + i_op_count (f_insts fn ! x) \<le> length (f_operands fn)"
    using ch b by (auto simp: block_chains_def)
  show ?thesis
  proof (cases "L ! b")
    case Nil
    then have "b_first ?blk = NY_INVALID_INST" using c by simp
    then have "validate_block fn dt (ip, ds) b
        = Some (ip, report_if (b = f_entry fn \<or> b_preds ?blk \<noteq> [] \<or> b_succs ?blk \<noteq> []) (Empty_Block b) ds)"
      using b id by (simp add: validate_block_def)
    moreover have "adds (rules_ok fn L ip b) ds (report_if (b = f_entry fn \<or> b_preds ?blk \<noteq> [] \<or> b_succs ?blk \<noteq> []) (Empty_Block b) ds)"
      by (rule adds_cong[OF adds_report(2)[OF ds]]) (auto simp: rules_ok_def Nil)
    ultimately show ?thesis by (simp add: Nil)
  next
    case (Cons x xs)
    then have f: "b_first ?blk \<noteq> NY_INVALID_INST" using c by auto
    obtain s where s: "validate_insts fn dt b (b_first ?blk) (val_start ds ip) = Some s"
      "adds (\<forall>k < length (L ! b). inst_ok fn b (L ! b) (val_start ds ip) k) ds (vs_diags s)"
      "vs_pos s = marks ip 0 (L ! b)" "vs_last s = Some (f_insts fn ! last (L ! b))"
      using validate_insts_adds[OF dt c ops, of "val_start ds ip" b] ds ip Cons next_chain_length[OF c] small by (auto simp: val_start_def)
    have same: "inst_ok fn b (L ! b) (val_start ds ip) k \<longleftrightarrow> inst_ok fn b (L ! b) (val_start None ip) k" for k
      by (simp add: inst_ok_def val_start_def)
    define d where "d = report_if (\<not> ny_opcode_is_terminator (i_opcode (f_insts fn ! last (L ! b)))) (Not_Terminated b) (vs_diags s)"
    have "adds (ny_opcode_is_terminator (i_opcode (f_insts fn ! last (L ! b)))) (vs_diags s) d"
      unfolding d_def using adds_report(2)[OF adds_some[OF s(2)]] by (auto intro: adds_cong)
    moreover have "rules_ok fn L ip b \<longleftrightarrow> (\<forall>k < length (L ! b). inst_ok fn b (L ! b) (val_start ds ip) k)
        \<and> ny_opcode_is_terminator (i_opcode (f_insts fn ! last (L ! b)))"
      unfolding rules_ok_def same using Cons by simp
    ultimately have "adds (rules_ok fn L ip b) ds d" using adds_trans[OF s(2)] by simp
    moreover have "validate_block fn dt (ip, ds) b = Some (marks ip 0 (L ! b), d)"
      using b f id s(1,3,4) by (simp add: validate_block_def val_start_def d_def)
    ultimately show ?thesis by blast
  qed
qed

definition marked :: "ny_function \<Rightarrow> nat list list \<Rightarrow> nat \<Rightarrow> int list" where
  "marked fn L m = foldl (\<lambda>ip xs. marks ip 0 xs) (replicate (length (f_insts fn)) (- 1)) (take m L)"

lemma marked_Suc: "m < length L \<Longrightarrow> marked fn L (Suc m) = marks (marked fn L m) 0 (L ! m)"
  by (simp add: marked_def take_Suc_conv_app_nth)

lemma length_marked [simp]: "length (marked fn L m) = length (f_insts fn)"
proof -
  have "length (foldl (\<lambda>ip xs. marks ip 0 xs) ip xss) = length ip" for ip xss by (induction xss arbitrary: ip) simp_all
  then show ?thesis by (simp add: marked_def)
qed

lemma validate_blocks_adds:
  assumes dt: "dom_oracle fn dt" and ew: "edges_wf fn" and ch: "block_chains fn L" and ds: "ds \<noteq> None" and small: "length (f_insts fn) \<le> 2147483647"
  shows "m \<le> length (f_blocks fn) \<Longrightarrow> \<exists>ds'. foldM (validate_block fn dt) (replicate (length (f_insts fn)) (- 1), ds) [0..<m] = Some (marked fn L m, ds')
    \<and> adds (\<forall>b < m. rules_ok fn L (marked fn L b) b) ds ds'"
proof (induction m)
  case 0
  then show ?case using adds_keep[OF ds] by (simp add: marked_def)
next
  case (Suc m)
  then obtain d where d: "foldM (validate_block fn dt) (replicate (length (f_insts fn)) (- 1), ds) [0..<m] = Some (marked fn L m, d)"
    "adds (\<forall>b < m. rules_ok fn L (marked fn L b) b) ds d" by auto
  obtain d' where d': "validate_block fn dt (marked fn L m, d) m = Some (marks (marked fn L m) 0 (L ! m), d')" "adds (rules_ok fn L (marked fn L m) m) d d'"
    using validate_block_adds[OF dt ew ch _ adds_some[OF d(2)], of m "marked fn L m"] Suc.prems small by auto
  have "m < length L" using ch Suc.prems by (simp add: block_chains_def)
  then have "foldM (validate_block fn dt) (replicate (length (f_insts fn)) (- 1), ds) [0..<Suc m] = Some (marked fn L (Suc m), d')"
    using d(1) d'(1) by (simp add: foldM_append marked_Suc)
  moreover have "adds (\<forall>b < Suc m. rules_ok fn L (marked fn L b) b) ds d'"
    by (rule adds_cong[OF adds_trans[OF d(2) d'(2)]]) (auto simp: less_Suc_eq)
  ultimately show ?case by blast
qed

subsection \<open>Recorded positions are positions\<close>

lemma marks_other: "d \<notin> set xs \<Longrightarrow> marks ip c xs ! d = ip ! d"
  by (induction xs arbitrary: ip c) simp_all

lemma marks_at: "distinct xs \<Longrightarrow> set xs \<subseteq> {..<length ip} \<Longrightarrow> j < length xs \<Longrightarrow> marks ip c xs ! (xs ! j) = c + int j"
proof (induction xs arbitrary: ip c j)
  case (Cons x xs)
  show ?case
  proof (cases j)
    case 0
    then show ?thesis using Cons.prems by (simp add: marks_other)
  next
    case (Suc i)
    then show ?thesis using Cons.IH[of "ip[x := c]" i "c + 1"] Cons.prems by simp
  qed
qed simp

lemma marked_fresh: "\<forall>b < m. b < length L \<longrightarrow> d \<notin> set (L ! b) \<Longrightarrow> d < length (f_insts fn) \<Longrightarrow> marked fn L m ! d = - 1"
proof (induction m)
  case (Suc m)
  then show ?case by (cases "m < length L") (simp_all add: marked_Suc marks_other, simp add: marked_def)
qed (simp add: marked_def)

lemma position_exact:
  assumes ch: "block_chains fn L" and blocks: "\<forall>c < length (f_blocks fn). \<forall>x \<in> set (L ! c). i_block (f_insts fn ! x) = c"
    and b: "b < length (f_blocks fn)" and k: "k < length (L ! b)" and d: "d < length (f_insts fn)" "i_block (f_insts fn ! d) = b"
  shows "0 \<le> marks (marked fn L b) 0 (take (Suc k) (L ! b)) ! d \<and> marks (marked fn L b) 0 (take (Suc k) (L ! b)) ! d < int k
    \<longleftrightarrow> (\<exists>j < k. L ! b ! j = d)"
proof -
  let ?xs = "take (Suc k) (L ! b)"
  have c: "next_chain fn (b_first (f_blocks fn ! b)) (L ! b)" using ch b by (simp add: block_chains_def)
  have dist: "distinct ?xs" using next_chain_distinct[OF c] by simp
  have sub: "set ?xs \<subseteq> {..<length (marked fn L b)}" using next_chain_bound[OF c] by (auto dest: in_set_takeD)
  have len: "length L = length (f_blocks fn)" using ch by (simp add: block_chains_def)
  show ?thesis
  proof (cases "d \<in> set ?xs")
    case True
    then obtain j where j: "j < length ?xs" "?xs ! j = d" unfolding in_set_conv_nth by blast
    then have m: "marks (marked fn L b) 0 ?xs ! d = int j" using marks_at[OF dist sub j(1), of 0] by simp
    have jj: "j \<le> k" "L ! b ! j = d" using j by simp_all
    have "(\<exists>i < k. L ! b ! i = d) \<longleftrightarrow> j < k"
      using jj k next_chain_distinct[OF c] by (auto simp: nth_eq_iff_index_eq)
    then show ?thesis using m by simp
  next
    case False
    then have "marks (marked fn L b) 0 ?xs ! d = marked fn L b ! d" by (rule marks_other)
    also have "\<dots> = - 1"
    proof (rule marked_fresh[OF _ d(1)], intro allI impI notI)
      fix c assume c: "c < b" "c < length L" "d \<in> set (L ! c)"
      then have "i_block (f_insts fn ! d) = c" using blocks len by simp
      then show False using d(2) c(1) by simp
    qed
    finally have "marks (marked fn L b) 0 ?xs ! d = - 1" .
    moreover have "\<not> (\<exists>j < k. L ! b ! j = d)"
    proof
      assume "\<exists>j < k. L ! b ! j = d"
      then obtain j where "j < k" "L ! b ! j = d" by blast
      then have "j < length ?xs" "?xs ! j = d" using k by simp_all
      then show False using False by (metis nth_mem)
    qed
    ultimately show ?thesis by simp
  qed
qed

lemma inst_ok_valid:
  assumes ch: "block_chains fn L" and blocks: "\<forall>c < length (f_blocks fn). \<forall>x \<in> set (L ! c). i_block (f_insts fn ! x) = c"
    and b: "b < length (f_blocks fn)" and k: "k < length (L ! b)"
  shows "inst_ok fn b (L ! b) (val_start None (marked fn L b)) k \<longleftrightarrow> inst_valid fn L b k"
proof -
  let ?inst = "f_insts fn ! (L ! b ! k)" and ?ip = "marks (marked fn L b) 0 (take (Suc k) (L ! b))"
  have d: "def_ok fn b ?ip (int k + 1) ?inst i d \<longleftrightarrow> use_valid fn L b k i d" if "d < length (f_insts fn)" for i d
    using position_exact[OF ch blocks b k that] by (simp add: def_ok_def use_valid_def Let_def)
  then have "operand_ok fn b ?ip (int k + 1) ?inst i \<longleftrightarrow> operand_valid fn L b k i" for i
    unfolding operand_ok_def operand_valid_def Let_def by (simp split: ny_operand.split) blast
  then show ?thesis by (simp add: inst_ok_def inst_valid_def val_start_def Let_def)
qed

lemma rules_ok_valid:
  assumes ch: "block_chains fn L"
  shows "b_preds (f_blocks fn ! f_entry fn) = [] \<and> (\<forall>b < length (f_blocks fn). rules_ok fn L (marked fn L b) b) \<longleftrightarrow> rules_hold fn L"
proof -
  let ?B = "\<forall>c < length (f_blocks fn). \<forall>x \<in> set (L ! c). i_block (f_insts fn ! x) = c"
  have conv: "rules_ok fn L (marked fn L b) b \<longleftrightarrow>
     (L ! b = [] \<longrightarrow> b \<noteq> f_entry fn \<and> b_preds (f_blocks fn ! b) = [] \<and> b_succs (f_blocks fn ! b) = [])
     \<and> (\<forall>k < length (L ! b). inst_valid fn L b k)
     \<and> (L ! b \<noteq> [] \<longrightarrow> ny_opcode_is_terminator (i_opcode (f_insts fn ! last (L ! b))))" if ?B "b < length (f_blocks fn)" for b
    using inst_ok_valid[OF ch that] by (simp add: rules_ok_def)
  have b1: ?B if "\<forall>b < length (f_blocks fn). rules_ok fn L (marked fn L b) b"
  proof (intro allI impI ballI)
    fix c x assume c: "c < length (f_blocks fn)" and "x \<in> set (L ! c)"
    then obtain k where "k < length (L ! c)" "L ! c ! k = x" unfolding in_set_conv_nth by blast
    then show "i_block (f_insts fn ! x) = c" using that c unfolding rules_ok_def inst_ok_def Let_def by blast
  qed
  have b2: ?B if "rules_hold fn L"
  proof (intro allI impI ballI)
    fix c x assume c: "c < length (f_blocks fn)" and "x \<in> set (L ! c)"
    then obtain k where "k < length (L ! c)" "L ! c ! k = x" unfolding in_set_conv_nth by blast
    then show "i_block (f_insts fn ! x) = c" using that c unfolding rules_hold_def inst_valid_def Let_def by blast
  qed
  have "?B \<Longrightarrow> (b_preds (f_blocks fn ! f_entry fn) = [] \<and> (\<forall>b < length (f_blocks fn). rules_ok fn L (marked fn L b) b)) \<longleftrightarrow> rules_hold fn L"
    unfolding rules_hold_def using conv by (intro conj_cong refl all_cong) blast
  then show ?thesis using b1 b2 by blast
qed

lemma validate_function_rules:
  assumes "edges_wf fn" and "f_entry fn < length (f_blocks fn)" and "length (f_blocks fn) \<le> 2147483648" and "block_chains fn L"
    and "length (f_insts fn) \<le> 2147483647"
  shows "\<exists>ds'. ny_validate_function md fn (Some ds) = Some (rules_hold fn L, Some ds')"
proof -
  let ?e = "b_preds (f_blocks fn ! f_entry fn)"
  obtain dt where dt: "ny_core_dominator_tree_init fn = Some dt" "dom_oracle fn dt"
    using core_dominators[OF assms(1-3)] by (auto simp: dom_oracle_def block_dominates_def)
  define d0 where "d0 = report_if (?e \<noteq> []) Entry_Has_Predecessors (Some ds)"
  have a0: "adds (?e = []) (Some ds) d0" using adds_report(2)[of "Some ds" "?e \<noteq> []" Entry_Has_Predecessors] by (simp add: d0_def)
  obtain d1 where d1: "foldM (validate_block fn dt) (replicate (length (f_insts fn)) (- 1), d0) [0..<length (f_blocks fn)]
      = Some (marked fn L (length (f_blocks fn)), d1)" "adds (\<forall>b < length (f_blocks fn). rules_ok fn L (marked fn L b) b) d0 d1"
    using validate_blocks_adds[OF dt(2) assms(1,4) adds_some[OF a0] assms(5) order_refl] by blast
  have "adds (rules_hold fn L) (Some ds) d1" using adds_trans[OF a0 d1(2)] rules_ok_valid[OF assms(4)] by (simp add: adds_cong)
  then obtain es where es: "d1 = Some (ds @ es)" "es = [] \<longleftrightarrow> rules_hold fn L" by (auto simp: adds_def)
  have "f_blocks fn \<noteq> []" "f_entry fn \<noteq> NY_INVALID_BLOCK" "\<not> length (f_blocks fn) \<le> f_entry fn"
    using assms(2,3) by (auto simp: NY_INVALID_def)
  then have "ny_validate_function md fn (Some ds) = Some (rules_hold fn L, Some (ds @ es))"
    using dt(1) d1(1) es unfolding ny_validate_function_def Let_def d0_def[symmetric] by simp
  then show ?thesis by blast
qed

text \<open>
  C6. The validator decides its rules exactly.  On a function with mirrored edge lists, a valid entry block, at most $2^{31}$
  blocks and $2^{31} - 1$ instructions, whose links form finite chains with operand slices inside the array, it returns, and
  it accepts precisely when \<open>rules_hold\<close>: the entry has no predecessors, a block without instructions has no edges and is
  not the entry, linked instructions are live, carry their block and their predecessor's id, phis come first with operand
  pairs, blocks end in a terminator, and every operand value is in range and, when an instruction defines it, used after
  that instruction in its block or in a reachable block all of whose paths from the entry pass the block of that
  instruction (for a phi, the incoming block).  These are not all rules of SSA form: that a value has one definition,
  that its defining instruction is live and has it as its result, and the types and the match of phi pairs with predecessors
  that \<^verbatim>\<open>docs/nyir.md\<close> promises are not looked at.
\<close>

theorem validate_function_exact:
  assumes "edges_wf fn" and "f_entry fn < length (f_blocks fn)" and "length (f_blocks fn) \<le> 2147483648" and "block_chains fn L"
    and "length (f_insts fn) \<le> 2147483647"
  shows "\<exists>ds'. ny_validate_function md fn (Some ds) = Some (rules_hold fn L, Some ds')"
  using assms by (rule validate_function_rules)

text \<open>A function with a use that its definition does not dominate, and the same function with the use moved.\<close>

definition val_example :: "nat \<Rightarrow> ny_function" where
  "val_example use = (let blk = \<lambda>i ps ss f l. \<lparr>b_id = i, b_name = [], b_first = f, b_last = l, b_inst_count = 0, b_preds = ps, b_succs = ss\<rparr>;
       ins = \<lambda>i opc r os oc b p n. \<lparr>i_id = i, i_opcode = opc, i_flags = 0, i_result = r, i_op_start = os, i_op_count = oc, i_block = b, i_prev = p, i_next = n\<rparr>
     in (ny_function_init 0 [] 0 0)\<lparr>f_entry := 0,
       f_blocks := [blk 0 [] [1, 2] 0 0, blk 1 [0] [] 1 2, blk 2 [0] [] 3 3],
       f_insts := [ins 0 NY_OPCODE_BRANCH_IF NY_INVALID_VALUE 0 3 0 NY_INVALID_INST NY_INVALID_INST,
                   ins 1 NY_OPCODE_CONST 1 3 1 1 NY_INVALID_INST 2, ins 2 NY_OPCODE_RETURN NY_INVALID_VALUE 4 1 1 1 NY_INVALID_INST,
                   ins 3 NY_OPCODE_RETURN NY_INVALID_VALUE 5 1 2 NY_INVALID_INST NY_INVALID_INST],
       f_values := [\<lparr>v_id = 0, v_type = 0, v_kind = NY_VAL_ARGUMENT, v_def = NY_INVALID_INST, v_index = 0, v_name = []\<rparr>,
                    \<lparr>v_id = 1, v_type = 0, v_kind = NY_VAL_INSTRUCTION, v_def = 1, v_index = 0, v_name = []\<rparr>],
       f_operands := [OpValue 0, OpBlock 1, OpBlock 2, OpInt 7, OpValue 1, OpValue use]\<rparr>)"

lemma val_example_setting:
  "edges_wf (val_example u)" "f_entry (val_example u) < length (f_blocks (val_example u))" "length (f_blocks (val_example u)) \<le> 2147483648"
  "block_chains (val_example u) [[0], [1, 2], [3]]" "length (f_insts (val_example u)) \<le> 2147483647"
proof -
  have three: "{..<3 :: nat} = {0, 1, 2}" by auto
  have n: "length (f_blocks (val_example u)) = 3" by (simp add: val_example_def Let_def)
  have "edges (val_example u) = (\<Union>x \<in> {..<3}. Pair x ` set (b_succs (f_blocks (val_example u) ! x)))" by (auto simp: edges_def n)
  also have "\<dots> = {(0, 1), (0, 2)}" unfolding three by (auto simp: val_example_def Let_def)
  finally have e: "edges (val_example u) = {(0, 1), (0, 2)}" .
  have "\<forall>x \<in> {..<3}. b_id (f_blocks (val_example u) ! x) = x \<and> distinct (b_succs (f_blocks (val_example u) ! x)) \<and> distinct (b_preds (f_blocks (val_example u) ! x))
     \<and> set (b_succs (f_blocks (val_example u) ! x)) \<subseteq> {..<3} \<and> set (b_preds (f_blocks (val_example u) ! x)) = {p. (p, x) \<in> edges (val_example u)}"
    unfolding three e by (auto simp: val_example_def Let_def)
  then show "edges_wf (val_example u)" by (simp add: edges_wf_def n)
  show "f_entry (val_example u) < length (f_blocks (val_example u))" "length (f_blocks (val_example u)) \<le> 2147483648"
    "length (f_insts (val_example u)) \<le> 2147483647" by (simp_all add: val_example_def Let_def)
  have "\<forall>b \<in> {..<3}. next_chain (val_example u) (b_first (f_blocks (val_example u) ! b)) ([[0], [1, 2], [3]] ! b)
     \<and> (\<forall>x \<in> set ([[0], [1, 2], [3]] ! b). i_op_start (f_insts (val_example u) ! x) + i_op_count (f_insts (val_example u) ! x) \<le> length (f_operands (val_example u)))"
    unfolding three by (simp add: val_example_def Let_def NY_INVALID_def)
  then show "block_chains (val_example u) [[0], [1, 2], [3]]" by (simp add: block_chains_def n)
qed

lemma val_example_broken: "\<not> rules_hold (val_example 1) [[0], [1, 2], [3]]"
proof -
  have p: "cfg_path (val_example 1) [0, 2]"
    by (simp add: cfg_path_def cfg_edges_def ny_cfg_get_successors_def val_example_def Let_def)
  have "\<not> cfg_dominates (val_example 1) 1 2" unfolding cfg_dominates_def using p by fastforce
  then have "\<not> operand_valid (val_example 1) [[0], [1, 2], [3]] 2 0 0"
    by (simp add: operand_valid_def use_valid_def block_dominates_def val_example_def Let_def NY_INVALID_def)
  moreover have "0 < i_op_count (f_insts (val_example 1) ! 3)" by (simp add: val_example_def Let_def)
  ultimately have "\<not> inst_valid (val_example 1) [[0], [1, 2], [3]] 2 0" unfolding inst_valid_def Let_def by auto
  moreover have "2 < length (f_blocks (val_example 1))" "0 < length ([[0], [1, 2], [3]] ! 2 :: nat list)" by (simp_all add: val_example_def Let_def)
  ultimately show ?thesis unfolding rules_hold_def by blast
qed

lemma validate_function_exact_witness:
  "\<exists>ds'. ny_validate_function (ny_module_init []) (val_example 1) (Some []) = Some (False, Some ds')"
  using validate_function_exact[OF val_example_setting, of "ny_module_init []" 1 "[]"] val_example_broken by simp

end
