(* ===== verification/Nyir_Reader.thy ===== *)
theory Nyir_Reader
  imports Nyir_Roundtrip Validate_Exact
begin

text \<open>
  The whole reader of \<^verbatim>\<open>src/nygen/nyir.c\<close>: what \<open>nyir_read\<close> has built is returned only when \<^verbatim>\<open>ny_validate_module\<close>
  accepts it.  The round trip through a file is stated for it.
\<close>

text \<open>The inner \<open>None\<close> is the null pointer; the outer one is undefined behaviour of the validator, or that it does not return.\<close>

definition nygen_deserialize_nyir :: "(nat \<Rightarrow> nat) \<Rightarrow> 8 word list \<Rightarrow> ny_module option option" where
  "nygen_deserialize_nyir junk data =
     (case nyir_read junk data of
        None \<Rightarrow> Some None
      | Some md \<Rightarrow> do {
          (valid, _) \<leftarrow> ny_validate_module md (Some ny_diagnostic_list_init);
          Some (if valid then Some md else None)
        })"

subsection \<open>What the validator says of a module\<close>

definition globals_named :: "ny_module \<Rightarrow> bool" where
  "globals_named md \<longleftrightarrow> [] \<notin> set (map g_name (m_globals md)) \<and> distinct (map g_name (m_globals md))"

definition name_ok :: "ny_module \<Rightarrow> nat \<Rightarrow> bool" where
  "name_ok md g \<longleftrightarrow> g_name (m_globals md ! g) \<noteq> []
     \<and> (\<forall>g2 \<in> set [g + 1..<length (m_globals md)]. g_name (m_globals md ! g) \<noteq> g_name (m_globals md ! g2))"

lemma validate_global_others:
  "\<exists>ds'. foldl (\<lambda>(ok, ds) g2. if nm = g_name (m_globals md ! g2) then (False, report d ds) else (ok, ds)) (ok, Some ds) xs
     = (ok \<and> (\<forall>g2 \<in> set xs. nm \<noteq> g_name (m_globals md ! g2)), Some ds')"
proof (induction xs arbitrary: ok ds)
  case (Cons x xs)
  show ?case
  proof (cases "nm = g_name (m_globals md ! x)")
    case True
    then show ?thesis using Cons.IH[of False "ny_diagnostic_list_append ds (Some d)"] by (auto simp: report_def)
  next
    case False
    then show ?thesis using Cons.IH[of ok ds] by simp
  qed
qed simp

lemma validate_global_named: "\<exists>ds'. validate_global md (ok, Some ds) g = (ok \<and> name_ok md g, Some ds')"
proof -
  let ?nm = "g_name (m_globals md ! g)"
  define p where "p = (if ?nm = [] then (False, report Global_Empty_Name (Some ds)) else (ok, Some ds))"
  obtain ds1 where p: "p = (ok \<and> ?nm \<noteq> [], Some ds1)" by (cases "?nm = []") (auto simp: p_def report_def)
  have "validate_global md (ok, Some ds) g = foldl (\<lambda>(ok, ds) g2. if ?nm = g_name (m_globals md ! g2) then (False, report (Global_Duplicate ?nm) ds)
      else (ok, ds)) p [g + 1..<length (m_globals md)]"
    by (simp add: validate_global_def Let_def p_def)
  then show ?thesis using validate_global_others[of ?nm md "Global_Duplicate ?nm" "ok \<and> ?nm \<noteq> []" ds1 "[g + 1..<length (m_globals md)]"]
    unfolding p name_ok_def by simp
qed

lemma validate_globals_fold: "\<exists>ds'. foldl (validate_global md) (ok, Some ds) gs = (ok \<and> (\<forall>g \<in> set gs. name_ok md g), Some ds')"
proof (induction gs arbitrary: ok ds)
  case (Cons g gs)
  obtain ds1 where "validate_global md (ok, Some ds) g = (ok \<and> name_ok md g, Some ds1)" using validate_global_named by blast
  then show ?case using Cons.IH[of "ok \<and> name_ok md g" ds1] by simp
qed simp

lemma validate_globals:
  "\<exists>ds'. foldl (validate_global md) (True, Some ds) [0..<length (m_globals md)] = (globals_named md, Some ds')"
proof -
  let ?n = "length (m_globals md)" and ?nm = "\<lambda>g. g_name (m_globals md ! g)"
  have "(\<forall>g \<in> set [0..<?n]. ?nm g \<noteq> [] \<and> (\<forall>g2 \<in> set [g + 1..<?n]. ?nm g \<noteq> ?nm g2)) \<longleftrightarrow> globals_named md"
  proof
    assume l: "\<forall>g \<in> set [0..<?n]. ?nm g \<noteq> [] \<and> (\<forall>g2 \<in> set [g + 1..<?n]. ?nm g \<noteq> ?nm g2)"
    have "?nm i \<noteq> ?nm j" if "i < ?n" "j < ?n" "i \<noteq> j" for i j
    proof (cases "i < j")
      case True
      then show ?thesis using l that by auto
    next
      case False
      then have "j < i" using that by simp
      then have "?nm j \<noteq> ?nm i" using l that by auto
      then show ?thesis by simp
    qed
    then have "distinct (map g_name (m_globals md))" by (simp add: distinct_conv_nth)
    moreover have "g_name x \<noteq> []" if x: "x \<in> set (m_globals md)" for x
    proof -
      obtain i where "i < ?n" "m_globals md ! i = x" using x[unfolded in_set_conv_nth] by blast
      then show ?thesis using l by auto
    qed
    then have "[] \<notin> set (map g_name (m_globals md))" by fastforce
    ultimately show "globals_named md" unfolding globals_named_def by blast
  next
    assume "globals_named md"
    then show "\<forall>g \<in> set [0..<?n]. ?nm g \<noteq> [] \<and> (\<forall>g2 \<in> set [g + 1..<?n]. ?nm g \<noteq> ?nm g2)"
      by (auto simp: globals_named_def distinct_conv_nth) (metis image_eqI nth_mem)
  qed
  then show ?thesis using validate_globals_fold[of md True ds "[0..<?n]"] unfolding name_ok_def by simp
qed

text \<open>The functions the validator is known to return on, and the ones it accepts.\<close>

definition fn_checkable :: "ny_function \<Rightarrow> nat list list \<Rightarrow> bool" where
  "fn_checkable fn L \<longleftrightarrow> (f_entry fn < length (f_blocks fn) \<longrightarrow> edges_wf fn \<and> block_chains fn L)
     \<and> length (f_blocks fn) \<le> 2147483648 \<and> length (f_insts fn) \<le> 2147483647"

definition fn_accepted :: "ny_function \<Rightarrow> nat list list \<Rightarrow> bool" where
  "fn_accepted fn L \<longleftrightarrow> f_blocks fn = [] \<or> f_entry fn < length (f_blocks fn) \<and> rules_hold fn L"

lemma validate_function_checkable:
  assumes "fn_checkable fn L"
  shows "\<exists>ds'. ny_validate_function md fn (Some ds) = Some (fn_accepted fn L, Some ds')"
proof (cases "f_blocks fn \<noteq> [] \<and> f_entry fn < length (f_blocks fn)")
  case True
  then obtain ds' where "ny_validate_function md fn (Some ds) = Some (rules_hold fn L, Some ds')"
    using validate_function_rules[of fn L md ds] assms by (auto simp: fn_checkable_def)
  then show ?thesis using True by (simp add: fn_accepted_def)
qed (auto simp: ny_validate_function_def fn_accepted_def report_def)

lemma validate_functions:
  "list_all2 fn_checkable fns Ls \<Longrightarrow>
   \<exists>ds'. foldM (\<lambda>(ok, ds) fn. do { (r, ds) \<leftarrow> ny_validate_function md fn ds; Some (ok \<and> r, ds) }) (ok, Some ds) fns
     = Some (ok \<and> list_all2 fn_accepted fns Ls, Some ds')"
proof (induction fns Ls arbitrary: ok ds rule: list_all2_induct)
  case (Cons fn fns L Ls)
  obtain ds1 where "ny_validate_function md fn (Some ds) = Some (fn_accepted fn L, Some ds1)"
    using validate_function_checkable[OF Cons.hyps(1)] by blast
  then show ?case using Cons.IH[of "ok \<and> fn_accepted fn L" ds1] by simp
qed simp

lemma validate_module_checkable:
  assumes "list_all2 fn_checkable (m_functions md) Ls"
  shows "\<exists>ds'. ny_validate_module md (Some ds) = Some (globals_named md \<and> list_all2 fn_accepted (m_functions md) Ls, Some ds')"
proof -
  obtain ds1 where "foldl (validate_global md) (True, Some ds) [0..<length (m_globals md)] = (globals_named md, Some ds1)"
    using validate_globals by blast
  then show ?thesis using validate_functions[OF assms, of md "globals_named md" ds1] by (simp add: ny_validate_module_def)
qed

subsection \<open>The round trip\<close>

text \<open>Instructions, values and blocks are numbered by position, so that reading back only drops the source locations.\<close>

definition ids_ok :: "ny_function \<Rightarrow> bool" where
  "ids_ok fn \<longleftrightarrow> (\<forall>k < length (f_blocks fn). b_id (f_blocks fn ! k) = k) \<and> (\<forall>k < length (f_insts fn). i_id (f_insts fn ! k) = k)
     \<and> (\<forall>k < length (f_values fn). v_id (f_values fn ! k) = k)"

lemma map2_upt_id: "(\<And>k. k < length xs \<Longrightarrow> f k (xs ! k) = xs ! k) \<Longrightarrow> map2 f [0..<length xs] xs = xs"
  by (rule nth_equalityI) auto

lemma back_function_ids: "ids_ok fn \<Longrightarrow> back_function i fn = fn\<lparr>f_id := i, f_locs := None\<rparr>"
  unfolding back_function_def ids_ok_def by (cases fn) (auto intro!: map2_upt_id)

lemma rules_hold_ids: "rules_hold (fn\<lparr>f_id := i, f_locs := l\<rparr>) L = rules_hold fn L"
  by (simp add: rules_hold_def inst_valid_def operand_valid_def use_valid_def block_dominates_def cfg_reachable_def cfg_dominates_def
      cfg_path_def cfg_edges_def ny_cfg_get_successors_def Let_def cong: ny_operand.case_cong)

lemma next_chain_ids: "next_chain (fn\<lparr>f_id := i, f_locs := l\<rparr>) c xs = next_chain fn c xs"
  by (induction xs arbitrary: c) simp_all

lemma checkable_ids: "fn_checkable (fn\<lparr>f_id := i, f_locs := l\<rparr>) L = fn_checkable fn L"
  by (simp add: fn_checkable_def edges_wf_def edges_def block_chains_def next_chain_ids)

lemma back_functions:
  assumes "list_all ids_ok fns" "list_all2 fn_checkable fns Ls"
  shows "list_all2 fn_checkable (map2 back_function [0..<length fns] fns) Ls"
    and "list_all2 fn_accepted (map2 back_function [0..<length fns] fns) Ls = list_all2 fn_accepted fns Ls"
proof -
  have b: "back_function k (fns ! k) = (fns ! k)\<lparr>f_id := k, f_locs := None\<rparr>" if "k < length fns" for k
    using assms(1) that by (simp add: back_function_ids list_all_length)
  have a: "fn_accepted (fn\<lparr>f_id := i, f_locs := l\<rparr>) L = fn_accepted fn L" for fn i l L by (simp add: fn_accepted_def rules_hold_ids)
  show "list_all2 fn_checkable (map2 back_function [0..<length fns] fns) Ls"
    using assms(2) b by (simp add: list_all2_conv_all_nth checkable_ids)
  show "list_all2 fn_accepted (map2 back_function [0..<length fns] fns) Ls = list_all2 fn_accepted fns Ls"
    using b a by (simp add: list_all2_conv_all_nth)
qed

lemma back_globals_names: "map g_name (map2 back_global [0..<length gs] gs) = map g_name gs"
  by (rule nth_equalityI) (simp_all add: back_global_def)

text \<open>
  C16. A stored module is read back exactly when it is valid.  For a module within the limits of the format whose functions
  have their elements numbered by position, mirrored edge lists and finite instruction chains, the reader returns on what the writer
  produced, whatever its uninitialised variable holds.  When the names of the globals are distinct and not empty and
  every function with blocks has a valid entry and satisfies the rules of the validator (\<open>rules_hold\<close>), it returns the module with
  source locations dropped, ids renumbered by position and every global that has no initial bytes (a BSS global) at size
  0; otherwise it returns the null pointer.
\<close>

theorem nyir_roundtrip:
  assumes "module_storable md" "list_all ids_ok (m_functions md)" "list_all2 fn_checkable (m_functions md) Ls"
  shows "\<exists>cap. nygen_deserialize_nyir junk (nygen_serialize_nyir md)
     = Some (if globals_named md \<and> list_all2 fn_accepted (m_functions md) Ls then Some (back_module cap md) else None)"
proof -
  obtain cap where r: "nyir_read junk (enc_module md) = Some (back_module cap md)" using read_back[OF assms(1)] by blast
  note fns = back_functions[OF assms(2,3)]
  have g: "m_globals (back_module cap md) = map2 back_global [0..<length (m_globals md)] (m_globals md)" by (simp add: back_module_def)
  have m: "m_functions (back_module cap md) = map2 back_function [0..<length (m_functions md)] (m_functions md)"
    by (simp add: back_module_def)
  have n: "globals_named (back_module cap md) = globals_named md" unfolding globals_named_def g back_globals_names ..
  obtain ds' where "ny_validate_module (back_module cap md) (Some [])
      = Some (globals_named md \<and> list_all2 fn_accepted (m_functions md) Ls, Some ds')"
    using validate_module_checkable[of "back_module cap md" Ls "[]"] fns(1) unfolding m n fns(2) by blast
  then show ?thesis using serialize_enc[OF assms(1)] r by (auto simp: nygen_deserialize_nyir_def ny_diagnostic_list_init_def)
qed

definition sample_file :: "nat \<Rightarrow> ny_module" where
  "sample_file use = \<lparr>m_name = ''demo'', m_types = ny_type_table_init, m_functions = [val_example use],
     m_globals = [\<lparr>g_id = 0, g_name = ''k'', g_type = 1, g_kind = NY_GLOBAL_CONST, g_align = 1, g_init_bytes = Some [7], g_init_size = 1\<rparr>]\<rparr>"

lemma sample_file_setting:
  assumes "u < 2"
  shows "module_storable (sample_file u)" "list_all ids_ok (m_functions (sample_file u))"
    "list_all2 fn_checkable (m_functions (sample_file u)) [[[0], [1, 2], [3]]]" "globals_named (sample_file u)"
proof -
  show "module_storable (sample_file u)" using assms
    by (simp add: module_storable_def sample_file_def storable_defs function_storable_def primitive_count NY_INVALID_def
      val_example_def Let_def ny_function_init_def)
  have "ids_ok (val_example u)" by (auto simp: ids_ok_def val_example_def Let_def less_Suc_eq numeral_2_eq_2 numeral_3_eq_3)
  then show "list_all ids_ok (m_functions (sample_file u))" by (simp add: sample_file_def)
  have "fn_checkable (val_example u) [[0], [1, 2], [3]]" using val_example_setting[of u] by (simp add: fn_checkable_def)
  then show "list_all2 fn_checkable (m_functions (sample_file u)) [[[0], [1, 2], [3]]]" by (simp add: sample_file_def)
  show "globals_named (sample_file u)" by (simp add: globals_named_def sample_file_def)
qed

text \<open>In the first file every use is dominated; in the second one the last block returns a value of another branch.\<close>

lemma val_example_accepted: "fn_accepted (val_example 0) [[0], [1, 2], [3]]" "\<not> fn_accepted (val_example 1) [[0], [1, 2], [3]]"
proof -
  show "fn_accepted (val_example 0) [[0], [1, 2], [3]]"
    by (auto simp: fn_accepted_def rules_hold_def inst_valid_def operand_valid_def use_valid_def val_example_def Let_def
        less_Suc_eq numeral_2_eq_2 numeral_3_eq_3 ny_opcode_is_terminator_def NY_INVALID_def)
  note val_example_broken
  moreover have "f_blocks (val_example 1) \<noteq> []" by (simp add: val_example_def Let_def)
  ultimately show "\<not> fn_accepted (val_example 1) [[0], [1, 2], [3]]" by (simp add: fn_accepted_def)
qed

lemma nyir_roundtrip_witness:
  "(\<exists>cap. nygen_deserialize_nyir (\<lambda>_. 0) (nygen_serialize_nyir (sample_file 0)) = Some (Some (back_module cap (sample_file 0))))
   \<and> nygen_deserialize_nyir (\<lambda>_. 0) (nygen_serialize_nyir (sample_file 1)) = Some None"
  using nyir_roundtrip[OF sample_file_setting(1-3), of 0 "\<lambda>_. 0"] nyir_roundtrip[OF sample_file_setting(1-3), of 1 "\<lambda>_. 0"]
    sample_file_setting(4)[of 0] sample_file_setting(4)[of 1] val_example_accepted
  by (simp add: sample_file_def)

end
