(* ===== verification/A64_Encode.thy ===== *)
theory A64_Encode
  imports Abi "HOL-Library.Signed_Division"
begin

unbundle bit_operations_syntax

text \<open>
  The AArch64 instruction encoder, first half of \<^verbatim>\<open>src/target/aarch64/aarch64_encode.c\<close> with the types
  of \<^verbatim>\<open>target_aarch64.h\<close> and \<^verbatim>\<open>aarch64_encode.h\<close>: one 32-bit word per machine instruction,
  appended to a code buffer, and a fixup for each word that depends on a block or a symbol.
\<close>

subsection \<open>Machine instructions\<close>

datatype a64_cond = A64_COND_NONE | A64_COND_EQ | A64_COND_NE | A64_COND_LT_S | A64_COND_LE_S | A64_COND_GT_S
  | A64_COND_GE_S | A64_COND_LT_U | A64_COND_LE_U | A64_COND_GT_U | A64_COND_GE_U

fun cond_num :: "a64_cond \<Rightarrow> nat" where
  "cond_num A64_COND_NONE = 0"
| "cond_num A64_COND_EQ = 1"
| "cond_num A64_COND_NE = 2"
| "cond_num A64_COND_LT_S = 3"
| "cond_num A64_COND_LE_S = 4"
| "cond_num A64_COND_GT_S = 5"
| "cond_num A64_COND_GE_S = 6"
| "cond_num A64_COND_LT_U = 7"
| "cond_num A64_COND_LE_U = 8"
| "cond_num A64_COND_GT_U = 9"
| "cond_num A64_COND_GE_U = 10"

record a64_mem =
  am_base :: target_reg
  am_disp :: "32 word"

datatype a64_operand = A64_OP_NONE | A64_OP_REG target_reg | A64_OP_IMM "64 word" | A64_OP_MEM a64_mem
  | A64_OP_LABEL nat | A64_OP_GLOBAL string

datatype a64_opcode = A64_NONE | A64_MOV | A64_MOVZ | A64_MOVK | A64_ADD | A64_SUB | A64_SUBS | A64_MUL | A64_SDIV | A64_UDIV
  | A64_MSUB | A64_AND | A64_ORR | A64_EOR | A64_MVN | A64_LSL | A64_LSR | A64_ASR | A64_CMP | A64_CSET | A64_ADRP
  | A64_ADD_LO12 | A64_LDR | A64_STR | A64_LDR_SYM | A64_STP | A64_LDP | A64_B | A64_BL | A64_BCOND | A64_CBZ | A64_CBNZ
  | A64_BR | A64_BLR | A64_RET | A64_BRK | A64_COUNT

record a64_inst =
  ai_opcode :: a64_opcode
  ai_cond :: a64_cond
  ai_op_count :: nat
  ai_shift :: nat
  ai_ops :: "a64_operand list"

text \<open>Reading a union member of another kind has no defined value.\<close>

definition op_reg :: "a64_inst \<Rightarrow> nat \<Rightarrow> target_reg option" where
  "op_reg inst k = do { op \<leftarrow> rd (ai_ops inst) k; case op of A64_OP_REG r \<Rightarrow> Some r | _ \<Rightarrow> None }"

definition op_imm :: "a64_inst \<Rightarrow> nat \<Rightarrow> 64 word option" where
  "op_imm inst k = do { op \<leftarrow> rd (ai_ops inst) k; case op of A64_OP_IMM i \<Rightarrow> Some i | _ \<Rightarrow> None }"

definition op_mem :: "a64_inst \<Rightarrow> nat \<Rightarrow> a64_mem option" where
  "op_mem inst k = do { op \<leftarrow> rd (ai_ops inst) k; case op of A64_OP_MEM m \<Rightarrow> Some m | _ \<Rightarrow> None }"

definition op_label :: "a64_inst \<Rightarrow> nat \<Rightarrow> nat option" where
  "op_label inst k = do { op \<leftarrow> rd (ai_ops inst) k; case op of A64_OP_LABEL l \<Rightarrow> Some l | _ \<Rightarrow> None }"

definition op_global :: "a64_inst \<Rightarrow> nat \<Rightarrow> string option" where
  "op_global inst k = do { op \<leftarrow> rd (ai_ops inst) k; case op of A64_OP_GLOBAL s \<Rightarrow> Some s | _ \<Rightarrow> None }"

definition op_is_reg :: "a64_inst \<Rightarrow> nat \<Rightarrow> bool" where
  "op_is_reg inst k = (case rd (ai_ops inst) k of Some (A64_OP_REG r) \<Rightarrow> True | _ \<Rightarrow> False)"

definition op_is_global :: "a64_inst \<Rightarrow> nat \<Rightarrow> bool" where
  "op_is_global inst k = (case rd (ai_ops inst) k of Some (A64_OP_GLOBAL s) \<Rightarrow> True | _ \<Rightarrow> False)"

definition reg_num :: "target_reg \<Rightarrow> nat" where
  "reg_num r = (if rg_phys r \<ge> 32 then rg_phys r - 32 else rg_phys r)"

definition is_fp_reg :: "target_reg \<Rightarrow> bool" where
  "is_fp_reg r \<longleftrightarrow> rg_phys r \<ge> 32"

abbreviation (input) rn :: "target_reg \<Rightarrow> 32 word" where
  "rn r \<equiv> word_of_nat (reg_num r)"

definition sf_bit :: "nat \<Rightarrow> 32 word" where
  "sf_bit sz = (if sz = 8 then push_bit 31 1 else 0)"

definition fits_signed_immediate :: "int \<Rightarrow> nat \<Rightarrow> bool" where
  "fits_signed_immediate val bits \<longleftrightarrow> val \<ge> - (2 ^ (bits - 1)) \<and> val \<le> 2 ^ (bits - 1) - 1"

definition invert_cond :: "a64_cond \<Rightarrow> a64_cond" where
  "invert_cond c = (case c of
      A64_COND_EQ \<Rightarrow> A64_COND_NE | A64_COND_NE \<Rightarrow> A64_COND_EQ
    | A64_COND_LT_S \<Rightarrow> A64_COND_GE_S | A64_COND_LE_S \<Rightarrow> A64_COND_GT_S
    | A64_COND_GT_S \<Rightarrow> A64_COND_LE_S | A64_COND_GE_S \<Rightarrow> A64_COND_LT_S
    | A64_COND_LT_U \<Rightarrow> A64_COND_GE_U | A64_COND_LE_U \<Rightarrow> A64_COND_GT_U
    | A64_COND_GT_U \<Rightarrow> A64_COND_LE_U | A64_COND_GE_U \<Rightarrow> A64_COND_LT_U
    | _ \<Rightarrow> A64_COND_EQ)"

subsection \<open>Encodings\<close>

text \<open>The shape most encodings share: a base with \<open>Rm\<close>, \<open>Rn\<close> and \<open>Rd\<close> fields.\<close>

definition enc_rrr :: "32 word \<Rightarrow> target_reg \<Rightarrow> target_reg \<Rightarrow> target_reg \<Rightarrow> 32 word" where
  "enc_rrr base rm rnn rdd = base OR push_bit 16 (rn rm) OR push_bit 5 (rn rnn) OR rn rdd"

definition enc_mov :: "a64_inst \<Rightarrow> 32 word option" where
  "enc_mov inst = do {
     dst \<leftarrow> op_reg inst 0;
     src \<leftarrow> op_reg inst 1;
     Some (if is_fp_reg dst \<or> is_fp_reg src
           then (if rg_size dst = 8 then 0x1E604000 else 0x1E204000) OR push_bit 5 (rn src) OR rn dst
           else if reg_num src = 31 then sf_bit (rg_size dst) OR 0x11000000 OR push_bit 5 31 OR rn dst
           else sf_bit (rg_size dst) OR 0x2A000000 OR push_bit 16 (rn src) OR push_bit 5 31 OR rn dst)
   }"

definition enc_movw :: "32 word \<Rightarrow> a64_inst \<Rightarrow> 32 word option" where
  "enc_movw base inst = do {
     dst \<leftarrow> op_reg inst 0;
     imm \<leftarrow> op_imm inst 1;
     let hw = and (ai_shift inst) 3;
     Some (sf_bit (rg_size dst) OR base OR push_bit 21 (word_of_nat hw) OR push_bit 5 (take_bit 16 (ucast imm)) OR rn dst)
   }"

text \<open>\<open>ADD\<close> and \<open>SUB\<close>: a 12-bit immediate, shifted left by 12 for some multiples of 4096, or a register.\<close>

definition enc_addsub_imm :: "32 word \<Rightarrow> target_reg \<Rightarrow> target_reg \<Rightarrow> 64 word \<Rightarrow> 32 word" where
  "enc_addsub_imm base dst src imm =
     (let shifted = (sint imm > 4095 \<and> (imm AND 0xFFF) = 0 \<and> sint imm \<le> 65535);
          imm12 = (if shifted then ucast (signed_drop_bit 12 imm) AND 0xFFF else ucast imm AND 0xFFF);
          sh = (if shifted then 1 else 0)
      in sf_bit (rg_size dst) OR base OR push_bit 22 sh OR push_bit 10 imm12 OR push_bit 5 (rn src) OR rn dst)"

definition enc_addsub :: "32 word \<Rightarrow> 32 word \<Rightarrow> a64_inst \<Rightarrow> 32 word option" where
  "enc_addsub base_imm base_reg inst = do {
     dst \<leftarrow> op_reg inst 0;
     src \<leftarrow> op_reg inst 1;
     rhs \<leftarrow> rd (ai_ops inst) 2;
     (case rhs of
        A64_OP_IMM imm \<Rightarrow> Some (enc_addsub_imm base_imm dst src imm)
      | A64_OP_REG r \<Rightarrow> Some (enc_rrr (sf_bit (rg_size dst) OR base_reg) r src dst)
      | _ \<Rightarrow> None)
   }"

definition enc_cmp :: "a64_inst \<Rightarrow> 32 word option" where
  "enc_cmp inst = do {
     lhs \<leftarrow> op_reg inst 0;
     rhs \<leftarrow> rd (ai_ops inst) 1;
     (case rhs of
        A64_OP_IMM imm \<Rightarrow> Some (sf_bit (rg_size lhs) OR 0x71000000 OR push_bit 10 (ucast imm AND 0xFFF) OR push_bit 5 (rn lhs) OR 31)
      | A64_OP_REG r \<Rightarrow> Some (sf_bit (rg_size lhs) OR 0x6B000000 OR push_bit 16 (rn r) OR push_bit 5 (rn lhs) OR 31)
      | _ \<Rightarrow> None)
   }"

text \<open>Three registers with a fixed base: \<open>SDIV\<close>, \<open>UDIV\<close>, \<open>AND\<close>, \<open>ORR\<close>, \<open>EOR\<close>; \<open>MUL\<close> fixes the fourth.\<close>

definition enc_alu :: "32 word \<Rightarrow> a64_inst \<Rightarrow> 32 word option" where
  "enc_alu base inst = do {
     dst \<leftarrow> op_reg inst 0;
     src1 \<leftarrow> op_reg inst 1;
     src2 \<leftarrow> op_reg inst 2;
     Some (enc_rrr (sf_bit (rg_size dst) OR base) src2 src1 dst)
   }"

definition enc_mul :: "a64_inst \<Rightarrow> 32 word option" where
  "enc_mul inst = do {
     dst \<leftarrow> op_reg inst 0;
     src1 \<leftarrow> op_reg inst 1;
     src2 \<leftarrow> op_reg inst 2;
     Some (sf_bit (rg_size dst) OR 0x1B007C00 OR push_bit 16 (rn src2) OR push_bit 10 31 OR push_bit 5 (rn src1) OR rn dst)
   }"

definition enc_msub :: "a64_inst \<Rightarrow> 32 word option" where
  "enc_msub inst = do {
     dst \<leftarrow> op_reg inst 0;
     src1 \<leftarrow> op_reg inst 1;
     src2 \<leftarrow> op_reg inst 2;
     src3 \<leftarrow> op_reg inst 3;
     Some (sf_bit (rg_size dst) OR 0x1B008000 OR push_bit 16 (rn src2) OR push_bit 10 (rn src3) OR push_bit 5 (rn src1) OR rn dst)
   }"

definition enc_mvn :: "a64_inst \<Rightarrow> 32 word option" where
  "enc_mvn inst = do {
     dst \<leftarrow> op_reg inst 0;
     src \<leftarrow> op_reg inst 1;
     Some (sf_bit (rg_size dst) OR 0x2A200000 OR push_bit 16 (rn src) OR push_bit 5 31 OR rn dst)
   }"

definition enc_shift :: "a64_inst \<Rightarrow> 32 word option" where
  "enc_shift inst = do {
     dst \<leftarrow> op_reg inst 0;
     src1 \<leftarrow> op_reg inst 1;
     let sz = rg_size dst;
     if ai_op_count inst \<ge> 3 \<and> op_is_reg inst 2 then do {
       src2 \<leftarrow> op_reg inst 2;
       let base = (if ai_opcode inst = A64_LSL then 0x1AC02000 else if ai_opcode inst = A64_LSR then 0x1AC02400 else 0x1AC02800);
       Some (enc_rrr (sf_bit sz OR base) src2 src1 dst)
     }
     else do {
       let shift = and (ai_shift inst) (if sz = 8 then 63 else 31);
       let immr = (if ai_opcode inst = A64_LSL then (if sz = 8 then 64 else 32) - shift else shift);
       let imms = (if ai_opcode inst = A64_LSL then (if sz = 8 then 63 else 31) - shift else (if sz = 8 then 63 else 31));
       let base = (if ai_opcode inst = A64_ASR then (if sz = 8 then 0x93400000 else 0x13000000)
                   else (if sz = 8 then 0xD3400000 else 0x53000000));
       Some (sf_bit sz OR base OR push_bit 16 (word_of_nat immr AND 0x3F) OR push_bit 10 (word_of_nat imms AND 0x3F)
         OR push_bit 5 (rn src1) OR rn dst)
     }
   }"

definition enc_cset :: "a64_inst \<Rightarrow> 32 word option" where
  "enc_cset inst = do {
     dst \<leftarrow> op_reg inst 0;
     let inv = (word_of_nat (cond_num (invert_cond (ai_cond inst))) :: 32 word);
     Some (sf_bit (rg_size dst) OR 0x1A800000 OR push_bit 16 31 OR push_bit 5 31 OR rn dst OR push_bit 12 (inv AND 0xF) OR push_bit 10 1)
   }"

text \<open>Loads and stores: the displacement is divided by the access size and cut to 12 bits.\<close>

definition ldst_imm12 :: "nat \<Rightarrow> 32 word \<Rightarrow> 32 word" where
  "ldst_imm12 sz disp = word_of_int (sint disp sdiv (if sz = 8 then 8 else 4)) AND 0xFFF"

definition enc_ldst_base :: "bool \<Rightarrow> target_reg \<Rightarrow> 32 word" where
  "enc_ldst_base load r =
     (if is_fp_reg r then (if rg_size r = 8 then 0xFD000000 else 0xBD000000)
      else (if rg_size r = 8 then 0xF9000000 else 0xB9000000)) OR (if load then 0x400000 else 0)"

definition enc_ldst :: "bool \<Rightarrow> a64_inst \<Rightarrow> 32 word option" where
  "enc_ldst load inst = do {
     r \<leftarrow> op_reg inst 0;
     m \<leftarrow> op_mem inst 1;
     Some (enc_ldst_base load r OR push_bit 10 (ldst_imm12 (rg_size r) (am_disp m)) OR push_bit 5 (rn (am_base m)) OR rn r)
   }"

text \<open>Pairs: the scaled displacement must fit 7 signed bits; \<open>Some None\<close> is the reported error.\<close>

definition enc_pair :: "bool \<Rightarrow> a64_inst \<Rightarrow> 32 word option option" where
  "enc_pair load inst = do {
     rt1 \<leftarrow> op_reg inst 0;
     rt2 \<leftarrow> op_reg inst 1;
     m \<leftarrow> op_mem inst 2;
     let imm7 = sint (am_disp m) sdiv (if rg_size rt1 = 8 then 8 else 4);
     if imm7 < - 64 \<or> imm7 > 63 then Some None
     else do {
       let base = (if is_fp_reg rt1 then (if rg_size rt1 = 8 then 0x6D000000 else 0x2D000000)
                   else (if rg_size rt1 = 8 then 0xA9000000 else 0x29000000)) OR (if load then 0x400000 else 0);
       Some (Some (base OR push_bit 15 (word_of_int imm7 AND 0x7F) OR push_bit 10 (rn rt2) OR push_bit 5 (rn (am_base m)) OR rn rt1))
     }
   }"

subsection \<open>Code buffer\<close>

datatype a64_fixup_kind = A64_BRANCH26 | A64_BRANCH19 | A64_CALL26 | A64_FIX_ADRP | A64_FIX_ADD_LO12 | A64_FIX_LDST_LO12

record a64_fixup =
  fx_kind :: a64_fixup_kind
  fx_offset :: nat
  fx_target :: nat
  fx_symbol :: string
  fx_addend :: int

record a64_reloc =
  rl_kind :: a64_fixup_kind
  rl_offset :: nat
  rl_symbol :: string
  rl_addend :: int

record a64_buf =
  bf_bytes :: "8 word list"
  bf_fixups :: "a64_fixup list"
  bf_relocs :: "a64_reloc list"

definition aarch64_buf_init :: a64_buf where
  "aarch64_buf_init = \<lparr>bf_bytes = [], bf_fixups = [], bf_relocs = []\<rparr>"

definition aarch64_buf_append_bytes :: "a64_buf \<Rightarrow> 8 word list \<Rightarrow> a64_buf" where
  "aarch64_buf_append_bytes buf bs = buf\<lparr>bf_bytes := bf_bytes buf @ bs\<rparr>"

definition word_bytes :: "32 word \<Rightarrow> 8 word list" where
  "word_bytes w = [ucast (w AND 0xFF), ucast (drop_bit 8 w AND 0xFF), ucast (drop_bit 16 w AND 0xFF), ucast (drop_bit 24 w AND 0xFF)]"

definition aarch64_buf_append_word :: "a64_buf \<Rightarrow> 32 word \<Rightarrow> a64_buf" where
  "aarch64_buf_append_word buf w = aarch64_buf_append_bytes buf (word_bytes w)"

definition aarch64_buf_append_fixup :: "a64_buf \<Rightarrow> a64_fixup \<Rightarrow> a64_buf" where
  "aarch64_buf_append_fixup buf f = buf\<lparr>bf_fixups := bf_fixups buf @ [f]\<rparr>"

definition aarch64_buf_append_reloc :: "a64_buf \<Rightarrow> a64_reloc \<Rightarrow> a64_buf" where
  "aarch64_buf_append_reloc buf r = buf\<lparr>bf_relocs := bf_relocs buf @ [r]\<rparr>"

definition patch_word :: "a64_buf \<Rightarrow> nat \<Rightarrow> 32 word \<Rightarrow> a64_buf option" where
  "patch_word buf off w = do {
     bs \<leftarrow> wr (bf_bytes buf) (off + 0) (word_bytes w ! 0);
     bs \<leftarrow> wr bs (off + 1) (word_bytes w ! 1);
     bs \<leftarrow> wr bs (off + 2) (word_bytes w ! 2);
     bs \<leftarrow> wr bs (off + 3) (word_bytes w ! 3);
     Some (buf\<lparr>bf_bytes := bs\<rparr>)
   }"

definition read_word :: "a64_buf \<Rightarrow> nat \<Rightarrow> 32 word option" where
  "read_word buf off = do {
     b0 \<leftarrow> rd (bf_bytes buf) off;
     b1 \<leftarrow> rd (bf_bytes buf) (off + 1);
     b2 \<leftarrow> rd (bf_bytes buf) (off + 2);
     b3 \<leftarrow> rd (bf_bytes buf) (off + 3);
     Some (ucast b0 OR push_bit 8 (ucast b1) OR push_bit 16 (ucast b2) OR push_bit 24 (ucast b3))
   }"

subsection \<open>One instruction\<close>

text \<open>A result is the new buffer and whether the encoder accepted the instruction.\<close>

definition emit :: "a64_buf \<Rightarrow> 32 word option \<Rightarrow> (a64_buf \<times> bool) option" where
  "emit buf w = do { w \<leftarrow> w; Some (aarch64_buf_append_word buf w, True) }"

definition emit_fixup :: "a64_buf \<Rightarrow> 32 word \<Rightarrow> a64_fixup_kind \<Rightarrow> nat \<Rightarrow> string \<Rightarrow> (a64_buf \<times> bool) option" where
  "emit_fixup buf w kind target snm =
     Some (aarch64_buf_append_fixup (aarch64_buf_append_word buf w)
       \<lparr>fx_kind = kind, fx_offset = length (bf_bytes buf), fx_target = target, fx_symbol = snm, fx_addend = 0\<rparr>, True)"

definition enc_str :: "a64_buf \<Rightarrow> a64_inst \<Rightarrow> (a64_buf \<times> bool) option" where
  "enc_str buf inst =
     (if ai_op_count inst \<ge> 3 \<and> op_is_global inst 2 then do {
        src \<leftarrow> op_reg inst 0;
        base_reg \<leftarrow> op_reg inst 1;
        snm \<leftarrow> op_global inst 2;
        emit_fixup buf (enc_ldst_base False src OR push_bit 5 (rn base_reg) OR rn src) A64_FIX_LDST_LO12 NY_INVALID_BLOCK snm
      }
      else emit buf (enc_ldst False inst))"

definition enc_bl :: "a64_buf \<Rightarrow> a64_inst \<Rightarrow> (a64_buf \<times> bool) option" where
  "enc_bl buf inst = do {
     op0 \<leftarrow> rd (ai_ops inst) 0;
     (case op0 of
        A64_OP_LABEL l \<Rightarrow> emit_fixup buf 0x94000000 A64_BRANCH26 l []
      | A64_OP_GLOBAL s \<Rightarrow> emit_fixup buf 0x94000000 A64_CALL26 NY_INVALID_BLOCK s
      | _ \<Rightarrow> None)
   }"

definition emit_pair :: "a64_buf \<Rightarrow> 32 word option option \<Rightarrow> (a64_buf \<times> bool) option" where
  "emit_pair buf w = do { w \<leftarrow> w; case w of None \<Rightarrow> Some (buf, False) | Some w \<Rightarrow> emit buf (Some w) }"

definition aarch64_encode_instruction :: "a64_buf \<Rightarrow> a64_inst \<Rightarrow> (a64_buf \<times> bool) option" where
  "aarch64_encode_instruction buf inst =
     (case ai_opcode inst of
        A64_MOV \<Rightarrow> emit buf (enc_mov inst)
      | A64_MOVZ \<Rightarrow> emit buf (enc_movw 0x52800000 inst)
      | A64_MOVK \<Rightarrow> emit buf (enc_movw 0x72800000 inst)
      | A64_ADD \<Rightarrow> emit buf (enc_addsub 0x11000000 0x0B000000 inst)
      | A64_SUB \<Rightarrow> emit buf (enc_addsub 0x51000000 0x4B000000 inst)
      | A64_CMP \<Rightarrow> emit buf (enc_cmp inst)
      | A64_MUL \<Rightarrow> emit buf (enc_mul inst)
      | A64_SDIV \<Rightarrow> emit buf (enc_alu 0x1AC00C00 inst)
      | A64_UDIV \<Rightarrow> emit buf (enc_alu 0x1AC00800 inst)
      | A64_MSUB \<Rightarrow> emit buf (enc_msub inst)
      | A64_AND \<Rightarrow> emit buf (enc_alu 0x0A000000 inst)
      | A64_ORR \<Rightarrow> emit buf (enc_alu 0x2A000000 inst)
      | A64_EOR \<Rightarrow> emit buf (enc_alu 0x4A000000 inst)
      | A64_MVN \<Rightarrow> emit buf (enc_mvn inst)
      | A64_LSL \<Rightarrow> emit buf (enc_shift inst)
      | A64_LSR \<Rightarrow> emit buf (enc_shift inst)
      | A64_ASR \<Rightarrow> emit buf (enc_shift inst)
      | A64_CSET \<Rightarrow> emit buf (enc_cset inst)
      | A64_ADRP \<Rightarrow> do {
          dst \<leftarrow> op_reg inst 0;
          snm \<leftarrow> op_global inst 1;
          emit_fixup buf (0x90000000 OR rn dst) A64_FIX_ADRP NY_INVALID_BLOCK snm
        }
      | A64_ADD_LO12 \<Rightarrow> do {
          dst \<leftarrow> op_reg inst 0;
          base \<leftarrow> op_reg inst 1;
          snm \<leftarrow> op_global inst 2;
          emit_fixup buf (sf_bit 8 OR 0x91000000 OR push_bit 5 (rn base) OR rn dst) A64_FIX_ADD_LO12 NY_INVALID_BLOCK snm
        }
      | A64_LDR \<Rightarrow> emit buf (enc_ldst True inst)
      | A64_STR \<Rightarrow> enc_str buf inst
      | A64_LDR_SYM \<Rightarrow> do {
          dst \<leftarrow> op_reg inst 0;
          base_reg \<leftarrow> op_reg inst 1;
          snm \<leftarrow> op_global inst 2;
          emit_fixup buf ((if rg_size dst = 8 then 0xF9400000 else 0xB9400000) OR push_bit 5 (rn base_reg) OR rn dst)
            A64_FIX_LDST_LO12 NY_INVALID_BLOCK snm
        }
      | A64_STP \<Rightarrow> emit_pair buf (enc_pair False inst)
      | A64_LDP \<Rightarrow> emit_pair buf (enc_pair True inst)
      | A64_B \<Rightarrow> do { l \<leftarrow> op_label inst 0; emit_fixup buf 0x14000000 A64_BRANCH26 l [] }
      | A64_BL \<Rightarrow> enc_bl buf inst
      | A64_BCOND \<Rightarrow> do {
          l \<leftarrow> op_label inst 0;
          emit_fixup buf (0x54000000 OR (word_of_nat (cond_num (ai_cond inst)) AND 0xF)) A64_BRANCH19 l []
        }
      | A64_BR \<Rightarrow> do { src \<leftarrow> op_reg inst 0; emit buf (Some (0xD61F0000 OR push_bit 5 (rn src))) }
      | A64_BLR \<Rightarrow> do { src \<leftarrow> op_reg inst 0; emit buf (Some (0xD63F0000 OR push_bit 5 (rn src))) }
      | A64_RET \<Rightarrow> emit buf (Some 0xD65F03C0)
      | A64_BRK \<Rightarrow> do { imm \<leftarrow> op_imm inst 0; emit buf (Some (0xD4200000 OR push_bit 5 (take_bit 16 (ucast imm)))) }
      | _ \<Rightarrow> Some (buf, False))"

subsection \<open>Fields of a word\<close>

definition fld :: "32 word \<Rightarrow> nat \<Rightarrow> nat \<Rightarrow> 32 word" where
  "fld w lo n = take_bit n (drop_bit lo w)"

definition narrow :: "nat \<Rightarrow> 32 word \<Rightarrow> bool" where
  "narrow m v \<longleftrightarrow> take_bit m v = v"

named_theorems fields

lemma fld_or [fields]: "fld (a OR b) lo n = fld a lo n OR fld b lo n"
  by (simp add: fld_def drop_bit_or take_bit_or)

lemma narrow_bit: "narrow m v \<Longrightarrow> bit v j \<Longrightarrow> j < m"
  unfolding narrow_def by (metis bit_take_bit_iff)

lemma fld_push_same [fields]: "narrow m v \<Longrightarrow> m \<le> n \<Longrightarrow> lo + m \<le> 32 \<Longrightarrow> fld (push_bit lo v) lo n = v"
  by (rule bit_eqI) (auto simp: fld_def bit_take_bit_iff bit_drop_bit_eq bit_push_bit_iff dest: narrow_bit)

lemma fld_push_below [fields]: "narrow m v \<Longrightarrow> k + m \<le> lo \<Longrightarrow> fld (push_bit k v) lo n = 0"
  by (rule bit_eqI) (auto simp: fld_def bit_take_bit_iff bit_drop_bit_eq bit_push_bit_iff dest: narrow_bit)

lemma fld_push_above [fields]: "lo + n \<le> k \<Longrightarrow> fld (push_bit k v) lo n = 0"
  by (rule bit_eqI) (auto simp: fld_def bit_take_bit_iff bit_drop_bit_eq bit_push_bit_iff)

lemma fld_same [fields]: "narrow m v \<Longrightarrow> m \<le> n \<Longrightarrow> fld v 0 n = v"
  using narrow_bit[of m v] by (intro bit_eqI) (fastforce simp: fld_def bit_take_bit_iff)

lemma fld_below [fields]: "narrow m v \<Longrightarrow> m \<le> lo \<Longrightarrow> fld v lo n = 0"
  using fld_push_below[of m v 0 lo n] by simp

lemma narrow_of_nat: "v < 2 ^ m \<Longrightarrow> m \<le> 32 \<Longrightarrow> narrow m (word_of_nat v)"
  by (simp add: narrow_def of_nat_take_bit[symmetric] take_bit_nat_eq_self)

lemma narrow_take [simp]: "narrow m (take_bit m v)"
  by (simp add: narrow_def)

text \<open>Registers that exist have five-bit numbers.\<close>

definition a64_reg_ok :: "target_reg \<Rightarrow> bool" where
  "a64_reg_ok r \<longleftrightarrow> rg_phys r < 64"

lemma narrow_reg: "a64_reg_ok r \<Longrightarrow> narrow 5 (rn r)"
  by (rule narrow_of_nat) (auto simp: reg_num_def a64_reg_ok_def)

lemma mask_fields: "x AND 0xFFF = take_bit 12 x" "x AND 0x7F = take_bit 7 x" "x AND 0x3F = take_bit 6 x" "x AND 0xF = take_bit 4 x" for x :: "32 word"
  by (simp_all add: take_bit_eq_mask mask_eq_exp_minus_1 mask_numeral)

subsection \<open>Decoding the register forms\<close>

text \<open>
  The instruction words of the architecture for the data-processing instructions with register operands:
  bit 31 is the size, bits 30-21 and 15-10 the operation, and the rest the registers, destination first.
\<close>

definition dec_key :: "nat \<Rightarrow> nat \<Rightarrow> a64_opcode option" where
  "dec_key hi lo = (if lo = 0 \<and> hi = 0x58 then Some A64_ADD else if lo = 0 \<and> hi = 0x258 then Some A64_SUB
     else if lo = 0 \<and> hi = 0x50 then Some A64_AND else if lo = 0 \<and> hi = 0x150 then Some A64_ORR
     else if lo = 0 \<and> hi = 0x250 then Some A64_EOR else if lo = 0x03 \<and> hi = 0xD6 then Some A64_SDIV
     else if lo = 0x02 \<and> hi = 0xD6 then Some A64_UDIV else if lo = 0x08 \<and> hi = 0xD6 then Some A64_LSL
     else if lo = 0x09 \<and> hi = 0xD6 then Some A64_LSR else if lo = 0x0A \<and> hi = 0xD6 then Some A64_ASR
     else if lo = 0x1F \<and> hi = 0xD8 then Some A64_MUL else None)"

definition dec_dp :: "32 word \<Rightarrow> (a64_opcode \<times> bool \<times> nat \<times> nat \<times> nat) option" where
  "dec_dp w = map_option (\<lambda>opc. (opc, bit w 31, unat (fld w 0 5), unat (fld w 5 5), unat (fld w 16 5)))
     (dec_key (unat (fld w 21 10)) (unat (fld w 10 6)))"

lemma unat_rn: "a64_reg_ok r \<Longrightarrow> unat (rn r) = reg_num r"
  by (auto simp: reg_num_def a64_reg_ok_def unat_of_nat take_bit_nat_eq_self)

lemma bit_push_above: "narrow m v \<Longrightarrow> k + m \<le> 31 \<Longrightarrow> \<not> bit (push_bit k v) 31"
  by (auto simp: bit_push_bit_iff dest: narrow_bit)

lemma bit_reg_31: "a64_reg_ok r \<Longrightarrow> \<not> bit (rn r) 31"
  using narrow_reg[of r] narrow_bit by fastforce

lemma dec_rrr:
  assumes "a64_reg_ok rm" "a64_reg_ok rnn" "a64_reg_ok rdd"
    and "fld base 0 5 = 0" "fld base 5 5 = 0" "fld base 16 5 = 0"
  shows "dec_dp (enc_rrr base rm rnn rdd) = map_option (\<lambda>opc. (opc, bit base 31, reg_num rdd, reg_num rnn, reg_num rm))
      (dec_key (unat (fld base 21 10)) (unat (fld base 10 6)))"
  using assms narrow_reg[OF assms(1)] narrow_reg[OF assms(2)] narrow_reg[OF assms(3)]
  by (simp add: dec_dp_def enc_rrr_def fields bit_or_iff bit_push_above bit_reg_31 unat_rn
      fld_push_below[of 5] fld_push_same[of 5] fld_push_above fld_below[of 5] fld_same[of 5])

lemma op_regD: "op_reg inst k = Some r \<Longrightarrow> rd (ai_ops inst) k = Some (A64_OP_REG r)"
  by (cases "rd (ai_ops inst) k") (auto simp: op_reg_def split: a64_operand.splits)

lemma op_reg_is: "op_reg inst k = Some r \<Longrightarrow> op_is_reg inst k"
  by (auto simp: op_is_reg_def dest: op_regD)

lemma enc_mul_rrr:
  "op_reg inst 0 = Some d \<Longrightarrow> op_reg inst 1 = Some s1 \<Longrightarrow> op_reg inst 2 = Some s2 \<Longrightarrow>
   enc_mul inst = Some (enc_rrr (sf_bit (rg_size d) OR 0x1B007C00) s2 s1 d)"
  by (simp add: enc_mul_def enc_rrr_def ac_simps)

lemma enc_shift_rrr:
  "op_reg inst 0 = Some d \<Longrightarrow> op_reg inst 1 = Some s1 \<Longrightarrow> op_reg inst 2 = Some s2 \<Longrightarrow> 3 \<le> ai_op_count inst \<Longrightarrow>
   enc_shift inst = Some (enc_rrr (sf_bit (rg_size d) OR
     (if ai_opcode inst = A64_LSL then 0x1AC02000 else if ai_opcode inst = A64_LSR then 0x1AC02400 else 0x1AC02800)) s2 s1 d)"
  by (simp add: enc_shift_def op_reg_is Let_def)

lemma enc_addsub_rrr:
  "op_reg inst 0 = Some d \<Longrightarrow> op_reg inst 1 = Some s1 \<Longrightarrow> op_reg inst 2 = Some s2 \<Longrightarrow>
   enc_addsub bi br inst = Some (enc_rrr (sf_bit (rg_size d) OR br) s2 s1 d)"
  by (simp add: enc_addsub_def op_regD)

lemma enc_alu_rrr:
  "op_reg inst 0 = Some d \<Longrightarrow> op_reg inst 1 = Some s1 \<Longrightarrow> op_reg inst 2 = Some s2 \<Longrightarrow>
   enc_alu b inst = Some (enc_rrr (sf_bit (rg_size d) OR b) s2 s1 d)"
  by (simp add: enc_alu_def)

definition dp_base :: "a64_opcode \<Rightarrow> 32 word" where
  "dp_base opc = (case opc of A64_ADD \<Rightarrow> 0x0B000000 | A64_SUB \<Rightarrow> 0x4B000000 | A64_AND \<Rightarrow> 0x0A000000 | A64_ORR \<Rightarrow> 0x2A000000
    | A64_EOR \<Rightarrow> 0x4A000000 | A64_SDIV \<Rightarrow> 0x1AC00C00 | A64_UDIV \<Rightarrow> 0x1AC00800 | A64_LSL \<Rightarrow> 0x1AC02000 | A64_LSR \<Rightarrow> 0x1AC02400
    | A64_ASR \<Rightarrow> 0x1AC02800 | _ \<Rightarrow> 0x1B007C00)"

definition dp_opcodes :: "a64_opcode list" where
  "dp_opcodes = [A64_ADD, A64_SUB, A64_AND, A64_ORR, A64_EOR, A64_SDIV, A64_UDIV, A64_LSL, A64_LSR, A64_ASR, A64_MUL]"

lemma encode_dp:
  assumes "ai_opcode inst \<in> set dp_opcodes" "op_reg inst 0 = Some d" "op_reg inst 1 = Some s1" "op_reg inst 2 = Some s2"
    and "3 \<le> ai_op_count inst"
  shows "aarch64_encode_instruction buf inst =
     Some (aarch64_buf_append_word buf (enc_rrr (sf_bit (rg_size d) OR dp_base (ai_opcode inst)) s2 s1 d), True)"
  using assms by (auto simp: dp_opcodes_def aarch64_encode_instruction_def dp_base_def emit_def enc_mul_rrr enc_shift_rrr
      enc_addsub_rrr enc_alu_rrr)

lemma fld_sf [simp]: "lo + n \<le> 31 \<Longrightarrow> fld (sf_bit sz) lo n = 0"
  using fld_push_above[of lo n 31 1] by (simp add: sf_bit_def) (simp add: fld_def)

lemma bit_sf [simp]: "bit (sf_bit sz) 31 \<longleftrightarrow> sz = 8"
  by (simp add: sf_bit_def bit_push_bit_iff del: push_bit_of_1 push_bit_numeral)

lemma dp_base_table:
  "list_all (\<lambda>opc. fld (dp_base opc) 0 5 = 0 \<and> fld (dp_base opc) 5 5 = 0 \<and> fld (dp_base opc) 16 5 = 0 \<and> \<not> bit (dp_base opc) 31
     \<and> dec_key (unat (fld (dp_base opc) 21 10)) (unat (fld (dp_base opc) 10 6)) = Some opc) dp_opcodes"
  by code_simp

lemma dp_base_fields:
  assumes "opc \<in> set dp_opcodes"
  shows "fld (sf_bit sz OR dp_base opc) 0 5 = 0" "fld (sf_bit sz OR dp_base opc) 5 5 = 0" "fld (sf_bit sz OR dp_base opc) 16 5 = 0"
    "bit (sf_bit sz OR dp_base opc) 31 = (sz = 8)"
    "dec_key (unat (fld (sf_bit sz OR dp_base opc) 21 10)) (unat (fld (sf_bit sz OR dp_base opc) 10 6)) = Some opc"
  using assms dp_base_table by (auto simp: list_all_iff fld_or bit_or_iff)

text \<open>
  C29. Encoding a three-register data-processing instruction (add, subtract, and, or, exclusive or, the
  divisions, the register shifts, multiply) appends one word, and decoding that word by the fields of the
  architecture gives back the opcode, the operand size and the numbers of the three registers.
\<close>

theorem a64_dp_roundtrip:
  assumes "ai_opcode inst \<in> set dp_opcodes" "3 \<le> ai_op_count inst"
    and "op_reg inst 0 = Some d" "op_reg inst 1 = Some s1" "op_reg inst 2 = Some s2"
    and "a64_reg_ok d" "a64_reg_ok s1" "a64_reg_ok s2"
  shows "\<exists>w. aarch64_encode_instruction buf inst = Some (aarch64_buf_append_word buf w, True)
    \<and> dec_dp w = Some (ai_opcode inst, rg_size d = 8, reg_num d, reg_num s1, reg_num s2)"
  using encode_dp[OF assms(1,3,4,5,2), of buf] dec_rrr[OF assms(8,7,6) dp_base_fields(1-3)[OF assms(1)]] dp_base_fields(4,5)[OF assms(1)]
  by (intro exI conjI) (assumption | simp)+

definition x_reg :: "nat \<Rightarrow> target_reg" where
  "x_reg n = \<lparr>rg_id = 0, rg_size = 8, rg_is_virtual = False, rg_phys = n\<rparr>"

definition sub_x3 :: a64_inst where
  "sub_x3 = \<lparr>ai_opcode = A64_SUB, ai_cond = A64_COND_NONE, ai_op_count = 3, ai_shift = 0,
     ai_ops = [A64_OP_REG (x_reg 3), A64_OP_REG (x_reg 4),
       A64_OP_REG (x_reg 17), A64_OP_NONE]\<rparr>"

lemma a64_dp_roundtrip_witness:
  "\<exists>w. aarch64_encode_instruction aarch64_buf_init sub_x3 = Some (aarch64_buf_append_word aarch64_buf_init w, True)
    \<and> dec_dp w = Some (A64_SUB, True, 3, 4, 17)"
  using a64_dp_roundtrip[of sub_x3 "x_reg 3" "x_reg 4" "x_reg 17" aarch64_buf_init]
  by (simp add: sub_x3_def x_reg_def op_reg_def dp_opcodes_def a64_reg_ok_def reg_num_def rd_def)

subsection \<open>Condition fields\<close>

text \<open>The condition codes of the architecture (signed and unsigned comparisons after \<open>CMP\<close>).\<close>

fun arm_cond :: "a64_cond \<Rightarrow> nat option" where
  "arm_cond A64_COND_NONE = None"
| "arm_cond A64_COND_EQ = Some 0"
| "arm_cond A64_COND_NE = Some 1"
| "arm_cond A64_COND_GE_U = Some 2"
| "arm_cond A64_COND_LT_U = Some 3"
| "arm_cond A64_COND_GT_U = Some 8"
| "arm_cond A64_COND_LE_U = Some 9"
| "arm_cond A64_COND_GE_S = Some 10"
| "arm_cond A64_COND_LT_S = Some 11"
| "arm_cond A64_COND_GT_S = Some 12"
| "arm_cond A64_COND_LE_S = Some 13"

text \<open>
  C30. The condition of a comparison is encoded with its number in the enumeration, not with the code of the
  architecture: for every condition, the four condition bits of the word that \<open>BCOND\<close> emits differ from the
  condition's code, and those of \<open>CSET\<close> from the code of the inverted condition.
\<close>

theorem a64_cond_field_wrong:
  assumes "ai_cond inst = c" "c \<noteq> A64_COND_NONE"
  shows "(ai_opcode inst = A64_BCOND \<longrightarrow> op_label inst 0 = Some l \<longrightarrow>
      (\<exists>w f. aarch64_encode_instruction buf inst = Some (aarch64_buf_append_fixup (aarch64_buf_append_word buf w) f, True)
        \<and> unat (fld w 0 4) = cond_num c \<and> arm_cond c \<noteq> Some (unat (fld w 0 4))))
    \<and> (ai_opcode inst = A64_CSET \<longrightarrow> op_reg inst 0 = Some d \<longrightarrow> a64_reg_ok d \<longrightarrow>
      (\<exists>w. aarch64_encode_instruction buf inst = Some (aarch64_buf_append_word buf w, True)
        \<and> unat (fld w 12 4) = cond_num (invert_cond c) \<and> arm_cond (invert_cond c) \<noteq> Some (unat (fld w 12 4))))"
proof -
  have n: "narrow 4 (word_of_nat (cond_num c))" "unat (word_of_nat (cond_num c) :: 32 word) = cond_num c" for c
    by (cases c; simp add: narrow_def take_bit_eq_mask mask_numeral)+
  have a: "arm_cond c \<noteq> Some (cond_num c)" "arm_cond (invert_cond c) \<noteq> Some (cond_num (invert_cond c))"
    using assms(2) by (cases c; simp add: invert_cond_def)+
  have t: "take_bit 4 (word_of_nat (cond_num c)) = (word_of_nat (cond_num c) :: 32 word)" for c
    using n(1) by (simp add: narrow_def)
  have "fld (0x54000000 OR word_of_nat (cond_num c)) 0 4 = word_of_nat (cond_num c)"
    using n(1)[of c] by (simp add: fld_or fld_same) (simp add: fld_def)
  moreover have "fld (sf_bit s OR 0x1A800000 OR push_bit 16 31 OR push_bit 5 31 OR rn d OR push_bit 12 (word_of_nat (cond_num c)) OR push_bit 10 1) 12 4
      = word_of_nat (cond_num c)" if "a64_reg_ok d" for c s
    using n(1)[of c] narrow_reg[OF that]
    by (simp add: fld_or fld_below[of 5] fld_push_same[of 4 _ 4 12] del: push_bit_numeral) (simp add: fld_def)
  ultimately show ?thesis using assms(1) a n(2)
    by (auto simp: aarch64_encode_instruction_def emit_fixup_def enc_cset_def emit_def mask_fields t Let_def simp del: push_bit_numeral)
qed

definition bcond_lt :: a64_inst where
  "bcond_lt = \<lparr>ai_opcode = A64_BCOND, ai_cond = A64_COND_LT_S, ai_op_count = 1, ai_shift = 0, ai_ops = [A64_OP_LABEL 2]\<rparr>"

definition cset_lt :: a64_inst where
  "cset_lt = \<lparr>ai_opcode = A64_CSET, ai_cond = A64_COND_LT_S, ai_op_count = 1, ai_shift = 0, ai_ops = [A64_OP_REG (x_reg 5)]\<rparr>"

lemma a64_cond_field_wrong_witness:
  "(\<exists>w f. aarch64_encode_instruction aarch64_buf_init bcond_lt =
       Some (aarch64_buf_append_fixup (aarch64_buf_append_word aarch64_buf_init w) f, True)
      \<and> unat (fld w 0 4) = 3 \<and> Some 11 \<noteq> Some (unat (fld w 0 4)))
   \<and> (\<exists>w. aarch64_encode_instruction aarch64_buf_init cset_lt = Some (aarch64_buf_append_word aarch64_buf_init w, True)
      \<and> unat (fld w 12 4) = 6 \<and> Some 10 \<noteq> Some (unat (fld w 12 4)))"
  using a64_cond_field_wrong[of bcond_lt A64_COND_LT_S 2 aarch64_buf_init "x_reg 5"]
    a64_cond_field_wrong[of cset_lt A64_COND_LT_S 2 aarch64_buf_init "x_reg 5"]
  by (simp add: bcond_lt_def cset_lt_def x_reg_def op_label_def op_reg_def rd_def invert_cond_def a64_reg_ok_def)

subsection \<open>Scaled displacements of pairs\<close>

text \<open>
  \<open>STP\<close> and \<open>LDP\<close> report an error, and leave the buffer as it was, exactly when the displacement divided by the
  access size does not fit seven signed bits; otherwise one word is appended whose 7-bit field, read as a
  signed number, is that quotient, so that a displacement that is a multiple of the access size is exact.
\<close>

theorem a64_pair_displacement:
  assumes "ai_opcode inst \<in> {A64_STP, A64_LDP}"
    and "op_reg inst 0 = Some r1" "op_reg inst 1 = Some r2" "op_mem inst 2 = Some m"
    and "a64_reg_ok r1" "a64_reg_ok r2" "a64_reg_ok (am_base m)"
  shows "let q = sint (am_disp m) sdiv (if rg_size r1 = 8 then 8 else 4) in
    (if q < - 64 \<or> q > 63 then aarch64_encode_instruction buf inst = Some (buf, False)
     else \<exists>w. aarch64_encode_instruction buf inst = Some (aarch64_buf_append_word buf w, True)
       \<and> sint (ucast (fld w 15 7) :: 7 word) = q
       \<and> unat (fld w 0 5) = reg_num r1 \<and> unat (fld w 10 5) = reg_num r2 \<and> unat (fld w 5 5) = reg_num (am_base m))"
proof -
  define q where "q = sint (am_disp m) sdiv (if rg_size r1 = 8 then 8 else 4)"
  define b :: "32 word" where "b = (if is_fp_reg r1 then (if rg_size r1 = 8 then 0x6D000000 else 0x2D000000)
    else (if rg_size r1 = 8 then 0xA9000000 else 0x29000000)) OR (if ai_opcode inst = A64_LDP then 0x400000 else 0)"
  define w where "w = b OR push_bit 15 (word_of_int q AND 0x7F) OR push_bit 10 (rn r2) OR push_bit 5 (rn (am_base m)) OR rn r1"
  have e: "aarch64_encode_instruction buf inst = (if q < - 64 \<or> q > 63 then Some (buf, False) else Some (aarch64_buf_append_word buf w, True))"
    using assms(1-4) by (auto simp: aarch64_encode_instruction_def enc_pair_def emit_pair_def emit_def q_def w_def b_def Let_def)
  have "b = push_bit 22 (drop_bit 22 b)" by (simp add: b_def)
  then have b: "fld b lo n = 0" if "lo + n \<le> 22" for lo n
    using fld_push_above[OF that] by metis
  have n: "narrow 5 (rn r1)" "narrow 5 (rn r2)" "narrow 5 (rn (am_base m))" using assms(5-7) by (simp_all add: narrow_reg)
  have w: "fld w 15 7 = take_bit 7 (word_of_int q)" "fld w 0 5 = rn r1" "fld w 10 5 = rn r2" "fld w 5 5 = rn (am_base m)"
    using n by (simp_all add: w_def fields b mask_fields fld_push_above fld_push_same[OF narrow_take])
  have "sint (ucast (take_bit 7 (word_of_int q :: 32 word)) :: 7 word) = q" if "\<not> (q < - 64 \<or> q > 63)"
  proof -
    have "(ucast (take_bit 7 (word_of_int q :: 32 word)) :: 7 word) = word_of_int q"
      by (rule bit_eqI) (simp add: bit_ucast_iff bit_take_bit_iff bit_word_of_int_iff)
    then show ?thesis using that by (simp add: sint_sbintrunc' signed_take_bit_int_eq_self)
  qed
  then show ?thesis using e w assms(5-7) unfolding q_def[symmetric] Let_def by (auto simp: unat_rn)
qed

definition stp_fp_lr :: a64_inst where
  "stp_fp_lr = \<lparr>ai_opcode = A64_STP, ai_cond = A64_COND_NONE, ai_op_count = 3, ai_shift = 0,
     ai_ops = [A64_OP_REG (x_reg 29), A64_OP_REG (x_reg 30), A64_OP_MEM \<lparr>am_base = x_reg 31, am_disp = - 16\<rparr>, A64_OP_NONE]\<rparr>"

lemma a64_pair_displacement_witness:
  "\<exists>w. aarch64_encode_instruction aarch64_buf_init stp_fp_lr = Some (aarch64_buf_append_word aarch64_buf_init w, True)
     \<and> sint (ucast (fld w 15 7) :: 7 word) = - 2
     \<and> unat (fld w 0 5) = 29 \<and> unat (fld w 10 5) = 30 \<and> unat (fld w 5 5) = 31"
  using a64_pair_displacement[of stp_fp_lr "x_reg 29" "x_reg 30" "\<lparr>am_base = x_reg 31, am_disp = - 16\<rparr>" aarch64_buf_init]
  by (simp add: stp_fp_lr_def x_reg_def op_reg_def op_mem_def rd_def a64_reg_ok_def reg_num_def signed_divide_int_def)

subsection \<open>Words in the buffer\<close>

lemma word_bytes_length [simp]: "length (word_bytes w) = 4"
  by (simp add: word_bytes_def)

definition bytes_word :: "8 word \<Rightarrow> 8 word \<Rightarrow> 8 word \<Rightarrow> 8 word \<Rightarrow> 32 word" where
  "bytes_word b0 b1 b2 b3 = ucast b0 OR push_bit 8 (ucast b1) OR push_bit 16 (ucast b2) OR push_bit 24 (ucast b3)"

lemma word_bytes_eq: "word_bytes w = [ucast w, ucast (drop_bit 8 w), ucast (drop_bit 16 w), ucast (drop_bit 24 w)]"
proof -
  have m: "x AND 0xFF = take_bit 8 x" for x :: "32 word" by (simp add: take_bit_eq_mask mask_numeral)
  have "(ucast (take_bit 8 x) :: 8 word) = ucast x" for x :: "32 word"
    by (rule bit_eqI) (simp add: bit_ucast_iff bit_take_bit_iff)
  then show ?thesis by (simp add: word_bytes_def m)
qed

lemma bytes_word_bytes: "bytes_word (ucast w) (ucast (drop_bit 8 w)) (ucast (drop_bit 16 w)) (ucast (drop_bit 24 w)) = w"
proof (rule bit_eqI)
  fix n assume "possible_bit TYPE(32 word) n"
  then have n: "n < 32" by simp
  have b: "bit (ucast (ucast x :: 8 word) :: 32 word) k \<longleftrightarrow> k < 8 \<and> bit x k" for x :: "32 word" and k
    by (auto simp: bit_ucast_iff dest: bit_imp_possible_bit)
  consider "n < 8" | "8 \<le> n" "n < 16" | "16 \<le> n" "n < 24" | "24 \<le> n" using n by linarith
  then show "bit (bytes_word (ucast w) (ucast (drop_bit 8 w)) (ucast (drop_bit 16 w)) (ucast (drop_bit 24 w))) n = bit w n"
    using n by cases (auto simp: bytes_word_def bit_or_iff bit_push_bit_iff b bit_drop_bit_eq)
qed

lemma read_word_eq: "read_word buf off = (if off + 3 < length (bf_bytes buf)
   then Some (bytes_word (bf_bytes buf ! off) (bf_bytes buf ! (off + 1)) (bf_bytes buf ! (off + 2)) (bf_bytes buf ! (off + 3))) else None)"
  by (auto simp: read_word_def bytes_word_def rd_def bind_eq_None_conv)

lemma patch_word_eq: "patch_word buf off w = (if off + 3 < length (bf_bytes buf)
   then Some (buf\<lparr>bf_bytes := take off (bf_bytes buf) @ word_bytes w @ drop (off + 4) (bf_bytes buf)\<rparr>) else None)"
proof (cases "off + 3 < length (bf_bytes buf)")
  case True
  then have "patch_word buf off w = Some (buf\<lparr>bf_bytes := (bf_bytes buf)[off := word_bytes w ! 0, off + 1 := word_bytes w ! 1,
      off + 2 := word_bytes w ! 2, off + 3 := word_bytes w ! 3]\<rparr>)"
    by (simp add: patch_word_def wr_def)
  moreover have "(bf_bytes buf)[off := word_bytes w ! 0, off + 1 := word_bytes w ! 1, off + 2 := word_bytes w ! 2, off + 3 := word_bytes w ! 3]
     = take off (bf_bytes buf) @ word_bytes w @ drop (off + 4) (bf_bytes buf)"
    using True by (intro nth_equalityI)
      (auto simp: nth_append nth_list_update less_Suc_eq numeral_eq_Suc intro!: arg_cong[where f = "(!) (bf_bytes buf)"])
  ultimately show ?thesis using True by simp
qed (auto simp: patch_word_def wr_def bind_eq_None_conv)

end
