(* ===== verification/A64_Asm.thy ===== *)
theory A64_Asm
  imports A64_Encode
begin

unbundle bit_operations_syntax

text \<open>
  Assembling a function and a module, second half of \<^verbatim>\<open>src/target/aarch64/aarch64_encode.c\<close>: the blocks are
  encoded one after the other, then each branch fixup of the function is patched with the displacement of its
  block.  The result is compared with an assembler that knows every label beforehand.
\<close>

record a64_block =
  ab_id :: nat
  ab_insts :: "a64_inst list"

record a64_function =
  af_name :: string
  af_blocks :: "a64_block list"

subsection \<open>One function\<close>

fun encode_insts :: "a64_buf \<Rightarrow> a64_inst list \<Rightarrow> (a64_buf \<times> bool) option" where
  "encode_insts buf [] = Some (buf, True)"
| "encode_insts buf (i # is) = do {
     (buf, ok) \<leftarrow> aarch64_encode_instruction buf i;
     if ok then encode_insts buf is else Some (buf, False)
   }"

fun encode_blocks :: "nat \<Rightarrow> a64_buf \<Rightarrow> nat list \<Rightarrow> a64_block list \<Rightarrow> (a64_buf \<times> nat list \<times> bool) option" where
  "encode_blocks max_id buf offsets [] = Some (buf, offsets, True)"
| "encode_blocks max_id buf offsets (blk # blks) = do {
     offsets \<leftarrow> (if ab_id blk \<le> max_id then wr offsets (ab_id blk) (length (bf_bytes buf)) else Some offsets);
     (buf, ok) \<leftarrow> encode_insts buf (ab_insts blk);
     if ok then encode_blocks max_id buf offsets blks else Some (buf, offsets, False)
   }"

definition branch_field :: "a64_fixup_kind \<Rightarrow> int \<Rightarrow> 32 word \<Rightarrow> 32 word option" where
  "branch_field kind imm w =
     (if kind = A64_BRANCH26
      then if fits_signed_immediate imm 26 then Some (w AND NOT 0x03FFFFFF OR word_of_int imm AND 0x03FFFFFF) else None
      else if fits_signed_immediate imm 19 then Some (w AND NOT 0x00FFFFE0 OR push_bit 5 (word_of_int imm AND 0x7FFFF)) else None)"

definition patch_branch :: "nat \<Rightarrow> nat list \<Rightarrow> a64_buf \<Rightarrow> a64_fixup \<Rightarrow> (a64_buf \<times> bool) option" where
  "patch_branch max_id offsets buf fixup =
     (if fx_kind fixup = A64_BRANCH26 \<or> fx_kind fixup = A64_BRANCH19 then
        if fx_target fixup > max_id then Some (buf, True)
        else do {
          target_offset \<leftarrow> rd offsets (fx_target fixup);
          let imm = (int target_offset - int (fx_offset fixup)) div 4;
          w \<leftarrow> read_word buf (fx_offset fixup);
          (case branch_field (fx_kind fixup) imm w of
             None \<Rightarrow> Some (buf, False)
           | Some w \<Rightarrow> do { buf \<leftarrow> patch_word buf (fx_offset fixup) w; Some (buf, True) })
        }
      else Some (buf, True))"

fun patch_branches :: "nat \<Rightarrow> nat list \<Rightarrow> a64_buf \<Rightarrow> a64_fixup list \<Rightarrow> (a64_buf \<times> bool) option" where
  "patch_branches max_id offsets buf [] = Some (buf, True)"
| "patch_branches max_id offsets buf (f # fs) = do {
     (buf, ok) \<leftarrow> patch_branch max_id offsets buf f;
     if ok then patch_branches max_id offsets buf fs else Some (buf, False)
   }"

definition max_block_id :: "a64_block list \<Rightarrow> nat" where
  "max_block_id blks = foldl (\<lambda>m b. if ab_id b > m then ab_id b else m) 0 blks"

definition aarch64_encode_function :: "a64_buf \<Rightarrow> a64_function \<Rightarrow> (a64_buf \<times> bool) option" where
  "aarch64_encode_function buf fn = do {
     let fixup_start = length (bf_fixups buf);
     let max_id = max_block_id (af_blocks fn);
     (buf, offsets, ok) \<leftarrow> encode_blocks max_id buf (replicate (u32 (max_id + 1)) 0) (af_blocks fn);
     if ok then patch_branches max_id offsets buf (drop fixup_start (bf_fixups buf)) else Some (buf, False)
   }"

subsection \<open>What one instruction appends\<close>

text \<open>An instruction is undefined (\<open>None\<close>), rejected, or a word with at most one fixup.\<close>

definition apply_enc :: "(32 word \<times> a64_fixup option) option option \<Rightarrow> a64_buf \<Rightarrow> (a64_buf \<times> bool) option" where
  "apply_enc r buf = (case r of None \<Rightarrow> None | Some None \<Rightarrow> Some (buf, False)
     | Some (Some (w, None)) \<Rightarrow> Some (aarch64_buf_append_word buf w, True)
     | Some (Some (w, Some f)) \<Rightarrow>
         Some (aarch64_buf_append_fixup (aarch64_buf_append_word buf w) (f\<lparr>fx_offset := length (bf_bytes buf)\<rparr>), True))"

definition enc_inst :: "a64_inst \<Rightarrow> (32 word \<times> a64_fixup option) option option" where
  "enc_inst inst = (case aarch64_encode_instruction aarch64_buf_init inst of None \<Rightarrow> None
     | Some (b, ok) \<Rightarrow> Some (if ok then map_option (\<lambda>w. (w, case bf_fixups b of [] \<Rightarrow> None | f # _ \<Rightarrow> Some f)) (read_word b 0) else None))"

definition enc_uniform :: "(a64_buf \<Rightarrow> (a64_buf \<times> bool) option) \<Rightarrow> bool" where
  "enc_uniform g \<longleftrightarrow> (\<exists>r. (\<forall>w f. r = Some (Some (w, Some f)) \<longrightarrow> fx_offset f = 0) \<and> (\<forall>buf. g buf = apply_enc r buf))"

named_theorems uniform

lemma uniform_emit [uniform]: "enc_uniform (\<lambda>buf. emit buf w)"
  unfolding enc_uniform_def emit_def
  by (rule exI[of _ "map_option (\<lambda>w. Some (w, None)) w"]) (cases w; simp add: apply_enc_def)

lemma uniform_fixup [uniform]: "enc_uniform (\<lambda>buf. emit_fixup buf w k t s)"
  unfolding enc_uniform_def emit_fixup_def
  by (rule exI[of _ "Some (Some (w, Some \<lparr>fx_kind = k, fx_offset = 0, fx_target = t, fx_symbol = s, fx_addend = 0\<rparr>))"])
    (simp add: apply_enc_def)

lemma uniform_None [uniform]: "enc_uniform (\<lambda>buf. None)"
  unfolding enc_uniform_def by (rule exI[of _ None]) (simp add: apply_enc_def)

lemma uniform_reject [uniform]: "enc_uniform (\<lambda>buf. Some (buf, False))"
  unfolding enc_uniform_def by (rule exI[of _ "Some None"]) (simp add: apply_enc_def)

lemma uniform_bind [uniform]: "(\<And>x. enc_uniform (\<lambda>buf. g x buf)) \<Longrightarrow> enc_uniform (\<lambda>buf. Option.bind m (\<lambda>x. g x buf))"
  by (cases m) (auto intro: uniform_None)

lemma uniform_if [uniform]: "enc_uniform f \<Longrightarrow> enc_uniform g \<Longrightarrow> enc_uniform (\<lambda>buf. if b then f buf else g buf)"
  by (cases b) simp_all

lemma uniform_option [uniform]:
  "enc_uniform f \<Longrightarrow> (\<And>y. enc_uniform (g y)) \<Longrightarrow> enc_uniform (\<lambda>buf. case x of None \<Rightarrow> f buf | Some y \<Rightarrow> g y buf)"
  by (cases x) simp_all

lemma uniform_operand [uniform]:
  "enc_uniform f0 \<Longrightarrow> (\<And>y. enc_uniform (f1 y)) \<Longrightarrow> (\<And>y. enc_uniform (f2 y)) \<Longrightarrow> (\<And>y. enc_uniform (f3 y)) \<Longrightarrow>
   (\<And>y. enc_uniform (f4 y)) \<Longrightarrow> (\<And>y. enc_uniform (f5 y)) \<Longrightarrow>
   enc_uniform (\<lambda>buf. case x of A64_OP_NONE \<Rightarrow> f0 buf | A64_OP_REG y \<Rightarrow> f1 y buf | A64_OP_IMM y \<Rightarrow> f2 y buf
     | A64_OP_MEM y \<Rightarrow> f3 y buf | A64_OP_LABEL y \<Rightarrow> f4 y buf | A64_OP_GLOBAL y \<Rightarrow> f5 y buf)"
  by (cases x) simp_all

lemma uniform_pair [uniform]: "enc_uniform (\<lambda>buf. emit_pair buf w)"
  unfolding emit_pair_def by (intro uniform)

lemma encode_uniform: "enc_uniform (\<lambda>buf. aarch64_encode_instruction buf inst)"
  unfolding aarch64_encode_instruction_def enc_str_def enc_bl_def
  by (cases "ai_opcode inst"; simp only: a64_opcode.case; intro uniform)

lemma read_appended [simp]: "read_word (aarch64_buf_append_word aarch64_buf_init w) 0 = Some w"
  by (simp add: read_word_eq aarch64_buf_append_word_def aarch64_buf_append_bytes_def aarch64_buf_init_def word_bytes_eq bytes_word_bytes)

lemma read_fixup [simp]: "read_word (aarch64_buf_append_fixup b f) k = read_word b k"
  by (simp add: read_word_eq aarch64_buf_append_fixup_def)

lemma encode_instruction_eq: "aarch64_encode_instruction buf inst = apply_enc (enc_inst inst) buf"
proof -
  obtain r where r: "\<And>w f. r = Some (Some (w, Some f)) \<Longrightarrow> fx_offset f = 0"
      "\<And>buf. aarch64_encode_instruction buf inst = apply_enc r buf"
    using encode_uniform[of inst] unfolding enc_uniform_def by blast
  have "enc_inst inst = r"
    using r(1) by (auto simp: enc_inst_def r(2) apply_enc_def aarch64_buf_append_fixup_def aarch64_buf_append_word_def
        aarch64_buf_append_bytes_def aarch64_buf_init_def read_word_eq word_bytes_eq bytes_word_bytes split: option.splits)
  then show ?thesis using r(2) by simp
qed

subsection \<open>The assembler that knows its labels\<close>

definition is_branch_fixup :: "a64_fixup \<Rightarrow> bool" where
  "is_branch_fixup f \<longleftrightarrow> fx_kind f = A64_BRANCH26 \<or> fx_kind f = A64_BRANCH19"

fun block_starts :: "nat \<Rightarrow> a64_block list \<Rightarrow> (nat \<times> nat) list" where
  "block_starts base [] = []"
| "block_starts base (b # bs) = (ab_id b, base) # block_starts (base + 4 * length (ab_insts b)) bs"

definition asm_word :: "(nat \<Rightarrow> nat) \<Rightarrow> nat \<Rightarrow> 32 word \<times> a64_fixup option \<Rightarrow> 32 word option" where
  "asm_word lab off it = (case snd it of None \<Rightarrow> Some (fst it)
     | Some f \<Rightarrow> if is_branch_fixup f then branch_field (fx_kind f) ((int (lab (fx_target f)) - int off) div 4) (fst it)
                else Some (fst it))"

fun asm_words :: "(nat \<Rightarrow> nat) \<Rightarrow> nat \<Rightarrow> (32 word \<times> a64_fixup option) list \<Rightarrow> 32 word list option" where
  "asm_words lab off [] = Some []"
| "asm_words lab off (it # its) = do { w \<leftarrow> asm_word lab off it; ws \<leftarrow> asm_words lab (off + 4) its; Some (w # ws) }"

fun accepted :: "a64_inst list \<Rightarrow> (32 word \<times> a64_fixup option) list option" where
  "accepted [] = Some []"
| "accepted (i # is) = (case enc_inst i of Some (Some it) \<Rightarrow> map_option ((#) it) (accepted is) | _ \<Rightarrow> None)"

fun fixups_from :: "nat \<Rightarrow> (32 word \<times> a64_fixup option) list \<Rightarrow> a64_fixup list" where
  "fixups_from off [] = []"
| "fixups_from off (it # its) = (case snd it of None \<Rightarrow> [] | Some f \<Rightarrow> [f\<lparr>fx_offset := off\<rparr>]) @ fixups_from (off + 4) its"

definition all_insts :: "a64_block list \<Rightarrow> a64_inst list" where
  "all_insts blks = concat (map ab_insts blks)"

definition words_bytes :: "32 word list \<Rightarrow> 8 word list" where
  "words_bytes ws = concat (map word_bytes ws)"

definition assemble :: "nat \<Rightarrow> a64_block list \<Rightarrow> 32 word list option" where
  "assemble base blks = do {
     its \<leftarrow> accepted (all_insts blks);
     asm_words (\<lambda>l. the (map_of (block_starts base blks) l)) base its
   }"

definition a64_fn_ok :: "a64_block list \<Rightarrow> bool" where
  "a64_fn_ok blks \<longleftrightarrow> distinct (map ab_id blks) \<and> (\<forall>b \<in> set blks. ab_id b < NY_INVALID)
     \<and> (\<forall>i \<in> set (all_insts blks). enc_inst i \<noteq> None
          \<and> (\<forall>w f. enc_inst i = Some (Some (w, Some f)) \<longrightarrow> is_branch_fixup f \<longrightarrow> fx_target f \<in> ab_id ` set blks))"

text \<open>First pass.\<close>

definition emitted :: "a64_buf \<Rightarrow> (32 word \<times> a64_fixup option) list \<Rightarrow> a64_buf" where
  "emitted buf its = buf\<lparr>bf_bytes := bf_bytes buf @ words_bytes (map fst its),
     bf_fixups := bf_fixups buf @ fixups_from (length (bf_bytes buf)) its\<rparr>"

lemma words_bytes_simps [simp]: "words_bytes [] = []" "words_bytes (w # ws) = word_bytes w @ words_bytes ws"
  "words_bytes (xs @ ys) = words_bytes xs @ words_bytes ys" "length (words_bytes ws) = 4 * length ws"
  by (simp_all add: words_bytes_def length_concat comp_def sum_list_triv)

lemma fixups_from_append: "fixups_from off (xs @ ys) = fixups_from off xs @ fixups_from (off + 4 * length xs) ys"
  by (induction xs arbitrary: off) (simp_all add: add.assoc)

lemma emitted_Nil [simp]: "emitted buf [] = buf"
  by (simp add: emitted_def)

lemma emitted_append: "emitted (emitted buf xs) ys = emitted buf (xs @ ys)"
  by (simp add: emitted_def fixups_from_append)

lemma apply_enc_emitted: "apply_enc (Some (Some it)) buf = Some (emitted buf [it], True)"
  by (cases it; cases "snd it") (simp_all add: apply_enc_def emitted_def aarch64_buf_append_word_def aarch64_buf_append_bytes_def
      aarch64_buf_append_fixup_def)

lemma encode_insts_spec:
  "\<forall>i \<in> set is. enc_inst i \<noteq> None \<Longrightarrow>
   (case accepted is of None \<Rightarrow> \<exists>b. encode_insts buf is = Some (b, False) | Some its \<Rightarrow> encode_insts buf is = Some (emitted buf its, True))"
proof (induction "is" arbitrary: buf)
  case (Cons i "is")
  show ?case
  proof (cases "enc_inst i")
    case (Some r)
    show ?thesis
    proof (cases r)
      case None
      then show ?thesis using Some by (simp add: encode_instruction_eq apply_enc_def)
    next
      case it: (Some it)
      show ?thesis using Cons.IH[of "emitted buf [it]"] Cons.prems Some it
        by (auto simp: encode_instruction_eq apply_enc_emitted emitted_append split: option.splits)
    qed
  qed (use Cons.prems in auto)
qed simp

lemma accepted_append: "accepted (xs @ ys) = do { a \<leftarrow> accepted xs; b \<leftarrow> accepted ys; Some (a @ b) }"
proof (induction xs)
  case (Cons x xs)
  then show ?case by (cases "accepted xs"; cases "accepted ys") (auto split: option.splits)
qed (cases "accepted ys"; simp)

lemma accepted_length: "accepted is = Some its \<Longrightarrow> length its = length is"
  by (induction "is" arbitrary: its) (auto split: option.splits)

definition store_starts :: "nat list \<Rightarrow> (nat \<times> nat) list \<Rightarrow> nat list" where
  "store_starts offs ps = foldl (\<lambda>o' p. o'[fst p := snd p]) offs ps"

lemma encode_blocks_spec:
  "\<lbrakk>\<forall>i \<in> set (all_insts blks). enc_inst i \<noteq> None; \<forall>b \<in> set blks. ab_id b \<le> max_id; length offs = Suc max_id\<rbrakk> \<Longrightarrow>
   (case accepted (all_insts blks) of None \<Rightarrow> \<exists>b o'. encode_blocks max_id buf offs blks = Some (b, o', False)
    | Some its \<Rightarrow> encode_blocks max_id buf offs blks =
        Some (emitted buf its, store_starts offs (block_starts (length (bf_bytes buf)) blks), True))"
proof (induction blks arbitrary: buf offs)
  case Nil
  then show ?case by (simp add: all_insts_def store_starts_def)
next
  case (Cons b blks)
  let ?o = "offs[ab_id b := length (bf_bytes buf)]"
  have all: "all_insts (b # blks) = ab_insts b @ all_insts blks" by (simp add: all_insts_def)
  have w: "wr offs (ab_id b) (length (bf_bytes buf)) = Some ?o" "ab_id b \<le> max_id" using Cons.prems by simp_all
  have ok: "\<forall>i \<in> set (ab_insts b). enc_inst i \<noteq> None" using Cons.prems(1) all by simp
  show ?case
  proof (cases "accepted (ab_insts b)")
    case None
    then show ?thesis using encode_insts_spec[OF ok, of buf] w by (auto simp: all accepted_append)
  next
    case (Some its)
    have IH: "case accepted (all_insts blks) of None \<Rightarrow> \<exists>b' o'. encode_blocks max_id (emitted buf its) ?o blks = Some (b', o', False)
      | Some its' \<Rightarrow> encode_blocks max_id (emitted buf its) ?o blks =
          Some (emitted (emitted buf its) its', store_starts ?o (block_starts (length (bf_bytes (emitted buf its))) blks), True)"
      by (rule Cons.IH) (use Cons.prems all in auto)
    have l: "length (bf_bytes (emitted buf its)) = length (bf_bytes buf) + 4 * length (ab_insts b)"
      using accepted_length[OF Some] by (simp add: emitted_def)
    show ?thesis using IH encode_insts_spec[OF ok, of buf] Some w unfolding l
      by (auto simp: all accepted_append emitted_append store_starts_def split: option.splits)
  qed
qed

text \<open>Second pass.\<close>

lemma store_starts_length [simp]: "length (store_starts offs ps) = length offs"
  by (induction ps arbitrary: offs) (simp_all add: store_starts_def)

lemma store_starts_keep: "l \<notin> fst ` set ps \<Longrightarrow> store_starts offs ps ! l = offs ! l"
  by (induction ps arbitrary: offs) (simp_all add: store_starts_def)

lemma store_starts_nth:
  "distinct (map fst ps) \<Longrightarrow> map_of ps l = Some p \<Longrightarrow> l < length offs \<Longrightarrow> store_starts offs ps ! l = p"
proof (induction ps arbitrary: offs)
  case (Cons q ps)
  have st: "store_starts offs (q # ps) = store_starts (offs[fst q := snd q]) ps" by (simp add: store_starts_def)
  show ?case
  proof (cases "l = fst q")
    case True
    then show ?thesis using Cons.prems store_starts_keep[of l ps "offs[fst q := snd q]"] unfolding st by simp
  next
    case False
    then show ?thesis using Cons.IH[of "offs[fst q := snd q]"] Cons.prems unfolding st by simp
  qed
qed simp

lemma fst_block_starts [simp]: "map fst (block_starts base blks) = map ab_id blks"
  by (induction blks arbitrary: base) simp_all

definition labels_at :: "nat \<Rightarrow> nat list \<Rightarrow> (nat \<Rightarrow> nat) \<Rightarrow> (32 word \<times> a64_fixup option) list \<Rightarrow> bool" where
  "labels_at max_id offs lab its \<longleftrightarrow> (\<forall>it \<in> set its. \<forall>f. snd it = Some f \<longrightarrow> is_branch_fixup f \<longrightarrow>
     fx_target f \<le> max_id \<and> rd offs (fx_target f) = Some (lab (fx_target f)))"

lemma patch_branch_here:
  assumes "bf_bytes buf = P @ word_bytes w @ Q" and "labels_at max_id offs lab [(w, Some f)]"
  shows "patch_branch max_id offs buf (f\<lparr>fx_offset := length P\<rparr>) = (case asm_word lab (length P) (w, Some f) of None \<Rightarrow> Some (buf, False)
    | Some w' \<Rightarrow> Some (buf\<lparr>bf_bytes := P @ word_bytes w' @ Q\<rparr>, True))"
proof (cases "is_branch_fixup f")
  case True
  have r: "read_word buf (length P) = Some w"
    by (simp add: read_word_eq assms(1) nth_append word_bytes_eq bytes_word_bytes)
  have p: "patch_word buf (length P) v = Some (buf\<lparr>bf_bytes := P @ word_bytes v @ Q\<rparr>)" for v
    by (simp add: patch_word_eq assms(1))
  show ?thesis using True assms(2) r p
    by (auto simp: patch_branch_def is_branch_fixup_def asm_word_def labels_at_def Let_def split: option.splits)
next
  case False
  then show ?thesis using assms(1) by (cases buf) (simp add: patch_branch_def is_branch_fixup_def asm_word_def)
qed

lemma patch_branches_spec:
  "\<lbrakk>labels_at max_id offs lab its; bf_bytes buf = P @ words_bytes (map fst its)\<rbrakk> \<Longrightarrow>
   (case asm_words lab (length P) its of None \<Rightarrow> \<exists>b. patch_branches max_id offs buf (fixups_from (length P) its) = Some (b, False)
    | Some ws \<Rightarrow> patch_branches max_id offs buf (fixups_from (length P) its) = Some (buf\<lparr>bf_bytes := P @ words_bytes ws\<rparr>, True))"
proof (induction its arbitrary: buf P)
  case (Cons it its)
  obtain w fo where it: "it = (w, fo)" by (cases it)
  have lab: "labels_at max_id offs lab its" "labels_at max_id offs lab [it]" using Cons.prems(1) by (auto simp: labels_at_def)
  have step: "case asm_words lab (length P + 4) its of
       None \<Rightarrow> \<exists>b. patch_branches max_id offs (buf\<lparr>bf_bytes := P @ word_bytes v @ words_bytes (map fst its)\<rparr>) (fixups_from (length P + 4) its) = Some (b, False)
     | Some ws \<Rightarrow> patch_branches max_id offs (buf\<lparr>bf_bytes := P @ word_bytes v @ words_bytes (map fst its)\<rparr>) (fixups_from (length P + 4) its)
         = Some (buf\<lparr>bf_bytes := P @ word_bytes v @ words_bytes ws\<rparr>, True)" for v
    using Cons.IH[OF lab(1), of "buf\<lparr>bf_bytes := P @ word_bytes v @ words_bytes (map fst its)\<rparr>" "P @ word_bytes v"]
    by (simp split: option.splits)
  show ?case
  proof (cases fo)
    case None
    have "buf = buf\<lparr>bf_bytes := P @ word_bytes w @ words_bytes (map fst its)\<rparr>" using Cons.prems(2) it by simp
    then show ?thesis using step[of w] it None by (auto simp: asm_word_def split: option.splits)
  next
    case (Some f)
    have h: "patch_branch max_id offs buf (f\<lparr>fx_offset := length P\<rparr>) = (case asm_word lab (length P) (w, Some f) of None \<Rightarrow> Some (buf, False)
      | Some w' \<Rightarrow> Some (buf\<lparr>bf_bytes := P @ word_bytes w' @ words_bytes (map fst its)\<rparr>, True))"
      by (rule patch_branch_here) (use Cons.prems(2) lab(2) it Some in auto)
    show ?thesis
    proof (cases "asm_word lab (length P) (w, Some f)")
      case None
      then show ?thesis using h it Some by simp
    next
      case (Some v)
      then show ?thesis using h step[of v] it \<open>fo = Some f\<close> by (auto split: option.splits)
    qed
  qed
qed simp

lemma max_block_id_fold:
  "m \<le> foldl (\<lambda>m b. if ab_id b > m then ab_id b else m) m blks
   \<and> (\<forall>b \<in> set blks. ab_id b \<le> foldl (\<lambda>m b. if ab_id b > m then ab_id b else m) m blks)"
proof (induction blks arbitrary: m)
  case (Cons a blks)
  let ?m = "if ab_id a > m then ab_id a else m" let ?F = "foldl (\<lambda>m b. if ab_id b > m then ab_id b else m)"
  have m: "m \<le> ?m" "ab_id a \<le> ?m" by auto
  have IH: "?m \<le> ?F ?m blks" "\<forall>b \<in> set blks. ab_id b \<le> ?F ?m blks" using Cons.IH[of ?m] by blast+
  have "m \<le> ?F ?m blks" "ab_id a \<le> ?F ?m blks" by (rule order.trans[OF m(1) IH(1)], rule order.trans[OF m(2) IH(1)])
  with IH(2) show ?case by simp
qed simp

lemma max_block_id_ge: "b \<in> set blks \<Longrightarrow> ab_id b \<le> max_block_id blks"
  using max_block_id_fold[of 0 blks] by (auto simp: max_block_id_def)

lemma max_block_id_less: "\<forall>b \<in> set blks. ab_id b < n \<Longrightarrow> 0 < n \<Longrightarrow> max_block_id blks < n"
proof -
  have "m < n \<Longrightarrow> \<forall>b \<in> set blks. ab_id b < n \<Longrightarrow> foldl (\<lambda>m b. if ab_id b > m then ab_id b else m) m blks < n" for m
    by (induction blks arbitrary: m) auto
  then show "\<forall>b \<in> set blks. ab_id b < n \<Longrightarrow> 0 < n \<Longrightarrow> max_block_id blks < n" by (simp add: max_block_id_def)
qed

lemma accepted_from: "accepted is = Some js \<Longrightarrow> it \<in> set js \<Longrightarrow> \<exists>i \<in> set is. enc_inst i = Some (Some it)"
  by (induction "is" arbitrary: js) (auto split: option.splits)

lemma encode_function_spec:
  assumes "a64_fn_ok (af_blocks fn)"
  shows "case assemble (length (bf_bytes buf)) (af_blocks fn) of
     None \<Rightarrow> \<exists>b. aarch64_encode_function buf fn = Some (b, False)
   | Some ws \<Rightarrow> \<exists>b. aarch64_encode_function buf fn = Some (b, True) \<and> bf_bytes b = bf_bytes buf @ words_bytes ws
       \<and> (\<exists>its. accepted (all_insts (af_blocks fn)) = Some its
            \<and> bf_fixups b = bf_fixups buf @ fixups_from (length (bf_bytes buf)) its \<and> bf_relocs b = bf_relocs buf)"
proof -
  let ?blks = "af_blocks fn" let ?m = "max_block_id ?blks" let ?base = "length (bf_bytes buf)"
  let ?offs = "store_starts (replicate (Suc ?m) 0) (block_starts ?base ?blks)"
  let ?lab = "\<lambda>l. the (map_of (block_starts ?base ?blks) l)"
  have m: "?m < NY_INVALID" by (rule max_block_id_less) (use assms in \<open>auto simp: a64_fn_ok_def NY_INVALID_def\<close>)
  have sz: "u32 (?m + 1) = Suc ?m" using m by (simp add: NY_INVALID_def)
  have e: "case accepted (all_insts ?blks) of None \<Rightarrow> \<exists>b o'. encode_blocks ?m buf (replicate (Suc ?m) 0) ?blks = Some (b, o', False)
    | Some its \<Rightarrow> encode_blocks ?m buf (replicate (Suc ?m) 0) ?blks = Some (emitted buf its, ?offs, True)"
    by (rule encode_blocks_spec) (use assms in \<open>auto simp: a64_fn_ok_def max_block_id_ge\<close>)
  show ?thesis
  proof (cases "accepted (all_insts ?blks)")
    case None
    then show ?thesis using e sz by (auto simp: aarch64_encode_function_def assemble_def Let_def)
  next
    case (Some its)
    have "rd ?offs l = Some (?lab l)" if "l \<in> ab_id ` set ?blks" for l
    proof -
      have "l \<in> fst ` set (block_starts ?base ?blks)" using that fst_block_starts[of ?base ?blks] by (metis list.set_map)
      then obtain p where p: "map_of (block_starts ?base ?blks) l = Some p" by (metis map_of_eq_None_iff not_None_eq)
      have "?offs ! l = p" by (rule store_starts_nth[OF _ p]) (use assms that max_block_id_ge in \<open>auto simp: a64_fn_ok_def less_Suc_eq_le\<close>)
      then show ?thesis using p that max_block_id_ge by (auto simp: rd_def less_Suc_eq_le)
    qed
    note lookup = this
    have lab: "labels_at ?m ?offs ?lab its"
      unfolding labels_at_def
    proof (intro ballI allI impI)
      fix it f assume it: "it \<in> set its" and f: "snd it = Some f" "is_branch_fixup f"
      from accepted_from[OF Some it] obtain i where i: "i \<in> set (all_insts ?blks)" "enc_inst i = Some (Some (fst it, Some f))"
        using f(1) by (metis prod.collapse)
      then have "fx_target f \<in> ab_id ` set ?blks" using assms f(2) unfolding a64_fn_ok_def by blast
      then show "fx_target f \<le> ?m \<and> rd ?offs (fx_target f) = Some (?lab (fx_target f))"
        using lookup by (auto simp: max_block_id_ge)
    qed
    have d: "drop (length (bf_fixups buf)) (bf_fixups (emitted buf its)) = fixups_from ?base its" by (simp add: emitted_def)
    have encf: "aarch64_encode_function buf fn = patch_branches ?m ?offs (emitted buf its) (fixups_from ?base its)"
      using e Some sz d by (simp add: aarch64_encode_function_def Let_def)
    have asm: "assemble ?base ?blks = asm_words ?lab ?base its" using Some by (simp add: assemble_def)
    have "case asm_words ?lab ?base its of None \<Rightarrow> \<exists>b. patch_branches ?m ?offs (emitted buf its) (fixups_from ?base its) = Some (b, False)
      | Some ws \<Rightarrow> patch_branches ?m ?offs (emitted buf its) (fixups_from ?base its)
          = Some (emitted buf its\<lparr>bf_bytes := bf_bytes buf @ words_bytes ws\<rparr>, True)"
      by (rule patch_branches_spec[OF lab]) (simp add: emitted_def)
    then have "case asm_words ?lab ?base its of None \<Rightarrow> \<exists>b. aarch64_encode_function buf fn = Some (b, False)
      | Some ws \<Rightarrow> aarch64_encode_function buf fn = Some (emitted buf its\<lparr>bf_bytes := bf_bytes buf @ words_bytes ws\<rparr>, True)"
      unfolding encf .
    then show ?thesis using asm Some by (cases "asm_words ?lab ?base its") (simp_all only: option.case, auto simp: emitted_def)
  qed
qed
text \<open>
  C27. Encoding a function in two passes gives what an assembler gives that knows where every block starts: if every
  instruction is accepted and every branch to a block is in range, the words of that assembler are appended to the code, with one
  fixup for each instruction that needs one at the position of its word; otherwise the encoder returns false. Blocks have distinct
  identifiers below the invalid one, operands have the kinds their opcodes expect and branches name blocks of the function.
\<close>

theorem a64_encode_function_assembles:
  assumes "a64_fn_ok (af_blocks fn)"
  shows "case assemble (length (bf_bytes buf)) (af_blocks fn) of
     None \<Rightarrow> \<exists>b. aarch64_encode_function buf fn = Some (b, False)
   | Some ws \<Rightarrow> \<exists>b. aarch64_encode_function buf fn = Some (b, True) \<and> bf_bytes b = bf_bytes buf @ words_bytes ws
       \<and> (\<exists>its. accepted (all_insts (af_blocks fn)) = Some its
            \<and> bf_fixups b = bf_fixups buf @ fixups_from (length (bf_bytes buf)) its \<and> bf_relocs b = bf_relocs buf)"
  using assms by (rule encode_function_spec)

definition ret_a64 :: a64_inst where
  "ret_a64 = \<lparr>ai_opcode = A64_RET, ai_cond = A64_COND_NONE, ai_op_count = 0, ai_shift = 0, ai_ops = []\<rparr>"

definition b_a64 :: "nat \<Rightarrow> a64_inst" where
  "b_a64 l = \<lparr>ai_opcode = A64_B, ai_cond = A64_COND_NONE, ai_op_count = 1, ai_shift = 0, ai_ops = [A64_OP_LABEL l]\<rparr>"

definition loop_fn :: a64_function where
  "loop_fn = \<lparr>af_name = ''loop'', af_blocks = [\<lparr>ab_id = 0, ab_insts = [sub_x3, b_a64 1]\<rparr>, \<lparr>ab_id = 1, ab_insts = [ret_a64, b_a64 0]\<rparr>]\<rparr>"

lemma buf_fields [simp]:
  "bf_fixups (aarch64_buf_append_word b w) = bf_fixups b" "bf_fixups (aarch64_buf_append_fixup b f) = bf_fixups b @ [f]"
  "bf_fixups aarch64_buf_init = []" "bf_bytes aarch64_buf_init = []"
  by (simp_all add: aarch64_buf_append_word_def aarch64_buf_append_bytes_def aarch64_buf_append_fixup_def aarch64_buf_init_def)

lemma loop_encs:
  "enc_inst sub_x3 = Some (Some (0xCB110083, None))" "enc_inst ret_a64 = Some (Some (0xD65F03C0, None))"
  "enc_inst (b_a64 l) = Some (Some (0x14000000, Some \<lparr>fx_kind = A64_BRANCH26, fx_offset = 0, fx_target = l, fx_symbol = [], fx_addend = 0\<rparr>))"
proof -
  have "enc_inst sub_x3 = Some (Some (enc_rrr (sf_bit 8 OR 0x4B000000) (x_reg 17) (x_reg 4) (x_reg 3), None))"
    by (simp add: enc_inst_def sub_x3_def aarch64_encode_instruction_def enc_addsub_def op_reg_def emit_def) (simp add: x_reg_def)
  then show "enc_inst sub_x3 = Some (Some (0xCB110083, None))"
    by (simp add: enc_rrr_def x_reg_def reg_num_def sf_bit_def)
qed (simp_all add: enc_inst_def ret_a64_def b_a64_def aarch64_encode_instruction_def op_label_def emit_def emit_fixup_def)

lemma a64_encode_function_assembles_witness:
  "\<exists>b. aarch64_encode_function aarch64_buf_init loop_fn = Some (b, True)
     \<and> bf_bytes b = words_bytes [0xCB110083, 0x14000001, 0xD65F03C0, 0x17FFFFFD]"
proof -
  have ok: "a64_fn_ok (af_blocks loop_fn)"
    by (auto simp: a64_fn_ok_def loop_fn_def all_insts_def loop_encs NY_INVALID_def)
  have "assemble (length (bf_bytes aarch64_buf_init)) (af_blocks loop_fn) = Some [0xCB110083, 0x14000001, 0xD65F03C0, 0x17FFFFFD]"
    by (simp add: assemble_def loop_fn_def all_insts_def loop_encs asm_word_def is_branch_fixup_def branch_field_def
        fits_signed_immediate_def aarch64_buf_init_def)
  then show ?thesis using a64_encode_function_assembles[OF ok, of aarch64_buf_init] by (auto simp: aarch64_buf_init_def)
qed

subsection \<open>The branch fields\<close>

lemma masks_field: "x AND 0x03FFFFFF = take_bit 26 x" "x AND 0x7FFFF = take_bit 19 x" for x :: "32 word"
  by (simp_all add: take_bit_eq_mask mask_numeral)

lemma masks_mask: "(0x03FFFFFF :: 32 word) = mask 26" "(0x00FFFFE0 :: 32 word) = push_bit 5 (mask 19)"
  by (simp_all add: mask_numeral)

lemma bit_field26: "n < 32 \<Longrightarrow> bit (w AND NOT 0x03FFFFFF OR take_bit 26 x) n = (if n < 26 then bit x n else bit w n)" for w x :: "32 word"
  unfolding masks_mask by (simp only: bit_or_iff bit_and_iff bit_not_iff bit_mask_iff bit_take_bit_iff) auto

lemma bit_field19: "n < 32 \<Longrightarrow> bit (w AND NOT 0x00FFFFE0 OR push_bit 5 (take_bit 19 x)) n = (if 5 \<le> n \<and> n < 24 then bit x (n - 5) else bit w n)"
  for w x :: "32 word"
  unfolding masks_mask by (simp only: bit_or_iff bit_and_iff bit_not_iff bit_mask_iff bit_take_bit_iff bit_push_bit_iff) auto

lemma bit_fld: "bit (fld w lo n) k \<longleftrightarrow> k < n \<and> bit w (lo + k)"
  by (simp add: fld_def bit_take_bit_iff bit_drop_bit_eq)

lemma field26:
  assumes "\<And>n. n < 32 \<Longrightarrow> bit v n = (if n < 26 then bit x n else bit w n)"
  shows "fld v 0 26 = take_bit 26 x" "fld v 26 6 = fld w 26 6"
  by (rule bit_eqI; auto simp: bit_fld bit_take_bit_iff assms)+

lemma field19:
  assumes "\<And>n. n < 32 \<Longrightarrow> bit v n = (if 5 \<le> n \<and> n < 24 then bit x (n - 5) else bit w n)"
  shows "fld v 5 19 = take_bit 19 x" "fld v 0 5 = fld w 0 5" "fld v 24 8 = fld w 24 8"
  by (rule bit_eqI; auto simp: bit_fld bit_take_bit_iff assms)+

lemma sint_take_field:
  assumes "- (2 ^ (LENGTH('a) - 1)) \<le> q" "q < 2 ^ (LENGTH('a) - 1)" "LENGTH('a) \<le> 32"
  shows "sint (ucast (take_bit LENGTH('a) (word_of_int q :: 32 word)) :: 'a::len word) = q"
proof -
  have "(ucast (take_bit LENGTH('a) (word_of_int q :: 32 word)) :: 'a word) = word_of_int q"
    using assms(3) by (intro bit_eqI) (auto simp: bit_ucast_iff bit_take_bit_iff bit_word_of_int_iff)
  then show ?thesis using assms(1,2) by (simp add: sint_sbintrunc' signed_take_bit_int_eq_self)
qed

text \<open>
  C28. The patched branch is exact: a displacement that is a multiple of four is rejected exactly when it is outside the
  128 MiB (one MiB for a conditional branch) the field can express; otherwise the signed field of the patched word times four
  is the displacement and the bits outside the field are those of the word before.
\<close>

theorem a64_branch_field_exact:
  assumes "4 dvd d"
  shows "(case branch_field A64_BRANCH26 (d div 4) w of None \<Rightarrow> d < - (2 ^ 27) \<or> 2 ^ 27 \<le> d
      | Some v \<Rightarrow> - (2 ^ 27) \<le> d \<and> d < 2 ^ 27 \<and> sint (ucast (fld v 0 26) :: 26 word) * 4 = d \<and> fld v 26 6 = fld w 26 6)
   \<and> (case branch_field A64_BRANCH19 (d div 4) w of None \<Rightarrow> d < - (2 ^ 20) \<or> 2 ^ 20 \<le> d
      | Some v \<Rightarrow> - (2 ^ 20) \<le> d \<and> d < 2 ^ 20 \<and> sint (ucast (fld v 5 19) :: 19 word) * 4 = d
          \<and> fld v 0 5 = fld w 0 5 \<and> fld v 24 8 = fld w 24 8)"
proof -
  obtain q where d: "d = 4 * q" using assms by (auto simp: dvd_def)
  define x :: "32 word" where "x = word_of_int q"
  define v26 v19 where "v26 = w AND NOT 0x03FFFFFF OR take_bit 26 x" and "v19 = w AND NOT 0x00FFFFE0 OR push_bit 5 (take_bit 19 x)"
  have "branch_field A64_BRANCH26 q w = (if - (2 ^ 25) \<le> q \<and> q < 2 ^ 25 then Some v26 else None)"
    "branch_field A64_BRANCH19 q w = (if - (2 ^ 18) \<le> q \<and> q < 2 ^ 18 then Some v19 else None)"
    by (auto simp: branch_field_def fits_signed_immediate_def masks_field v26_def v19_def x_def)
  moreover have "fld v26 0 26 = take_bit 26 x" "fld v26 26 6 = fld w 26 6"
    unfolding v26_def by (rule field26(1)[OF bit_field26], simp, rule field26(2)[OF bit_field26], simp)
  moreover have "fld v19 5 19 = take_bit 19 x" "fld v19 0 5 = fld w 0 5" "fld v19 24 8 = fld w 24 8"
    unfolding v19_def by (rule field19(1)[OF bit_field19], simp, rule field19(2)[OF bit_field19], simp, rule field19(3)[OF bit_field19], simp)
  moreover have "- (2 ^ 25) \<le> q \<and> q < 2 ^ 25 \<Longrightarrow> sint (ucast (take_bit 26 x) :: 26 word) = q"
    "- (2 ^ 18) \<le> q \<and> q < 2 ^ 18 \<Longrightarrow> sint (ucast (take_bit 19 x) :: 19 word) = q"
    using sint_take_field[where q = q and 'a = 26] sint_take_field[where q = q and 'a = 19] by (simp_all add: x_def)
  ultimately show ?thesis unfolding d by auto
qed

lemma a64_branch_field_exact_witness:
  "case branch_field A64_BRANCH19 ((- 8) div 4) 0x54000001 of None \<Rightarrow> False
     | Some v \<Rightarrow> sint (ucast (fld v 5 19) :: 19 word) * 4 = - 8 \<and> fld v 0 5 = fld 0x54000001 0 5"
  using a64_branch_field_exact[of "- 8" "0x54000001"] by (auto split: option.splits)

end
