(* ===== verification/Machine.thy ===== *)
theory Machine
  imports Module
begin

text \<open>
  The machine representation: \<^verbatim>\<open>include/nybit/machine.h\<close> and \<^verbatim>\<open>src/machine/machine.c\<close>.  A machine function is an array
  of blocks with doubly linked instructions, like a function of the intermediate representation; the arrays that are
  allocated on first use are \<open>None\<close> until then.
\<close>

subsection \<open>Enumerations and their names\<close>

datatype ny_reg_class =
    NY_REG_CLASS_NONE | NY_REG_CLASS_GPR32 | NY_REG_CLASS_GPR64 | NY_REG_CLASS_FP32 | NY_REG_CLASS_FP64 | NY_REG_CLASS_VEC128
  | NY_REG_CLASS_FLAGS

datatype ny_machine_cond =
    NY_MCOND_NONE | NY_MCOND_EQ | NY_MCOND_NE | NY_MCOND_LT_S | NY_MCOND_LT_U | NY_MCOND_LE_S | NY_MCOND_LE_U | NY_MCOND_GT_S
  | NY_MCOND_GT_U | NY_MCOND_GE_S | NY_MCOND_GE_U

datatype ny_machine_opcode =
    NY_MOPC_NONE | NY_MOPC_COPY | NY_MOPC_LOAD | NY_MOPC_STORE | NY_MOPC_LEA | NY_MOPC_ADD | NY_MOPC_SUB | NY_MOPC_IMUL
  | NY_MOPC_IDIV | NY_MOPC_UDIV | NY_MOPC_IREM | NY_MOPC_UREM | NY_MOPC_NEG | NY_MOPC_AND | NY_MOPC_OR | NY_MOPC_XOR
  | NY_MOPC_NOT | NY_MOPC_SHL | NY_MOPC_SHR | NY_MOPC_SAR | NY_MOPC_FADD | NY_MOPC_FSUB | NY_MOPC_FMUL | NY_MOPC_FDIV
  | NY_MOPC_FNEG | NY_MOPC_CMP | NY_MOPC_TEST | NY_MOPC_FCMP | NY_MOPC_SELECT | NY_MOPC_JMP | NY_MOPC_JCC | NY_MOPC_CALL
  | NY_MOPC_CALL_IND | NY_MOPC_RET | NY_MOPC_TRAP | NY_MOPC_PHI | NY_MOPC_STACK_ALLOC | NY_MOPC_COUNT

fun ny_reg_class_name :: "ny_reg_class \<Rightarrow> string" where
  "ny_reg_class_name NY_REG_CLASS_NONE = ''none''"
| "ny_reg_class_name NY_REG_CLASS_GPR32 = ''gpr32''"
| "ny_reg_class_name NY_REG_CLASS_GPR64 = ''gpr64''"
| "ny_reg_class_name NY_REG_CLASS_FP32 = ''fp32''"
| "ny_reg_class_name NY_REG_CLASS_FP64 = ''fp64''"
| "ny_reg_class_name NY_REG_CLASS_VEC128 = ''vec128''"
| "ny_reg_class_name NY_REG_CLASS_FLAGS = ''flags''"

fun ny_mcond_name :: "ny_machine_cond \<Rightarrow> string" where
  "ny_mcond_name NY_MCOND_NONE = ''none''"
| "ny_mcond_name NY_MCOND_EQ = ''eq''"
| "ny_mcond_name NY_MCOND_NE = ''ne''"
| "ny_mcond_name NY_MCOND_LT_S = ''lt_s''"
| "ny_mcond_name NY_MCOND_LT_U = ''lt_u''"
| "ny_mcond_name NY_MCOND_LE_S = ''le_s''"
| "ny_mcond_name NY_MCOND_LE_U = ''le_u''"
| "ny_mcond_name NY_MCOND_GT_S = ''gt_s''"
| "ny_mcond_name NY_MCOND_GT_U = ''gt_u''"
| "ny_mcond_name NY_MCOND_GE_S = ''ge_s''"
| "ny_mcond_name NY_MCOND_GE_U = ''ge_u''"

fun ny_mopc_name :: "ny_machine_opcode \<Rightarrow> string" where
  "ny_mopc_name NY_MOPC_NONE = ''none''"
| "ny_mopc_name NY_MOPC_COPY = ''mov''"
| "ny_mopc_name NY_MOPC_LOAD = ''load''"
| "ny_mopc_name NY_MOPC_STORE = ''store''"
| "ny_mopc_name NY_MOPC_LEA = ''lea''"
| "ny_mopc_name NY_MOPC_ADD = ''add''"
| "ny_mopc_name NY_MOPC_SUB = ''sub''"
| "ny_mopc_name NY_MOPC_IMUL = ''imul''"
| "ny_mopc_name NY_MOPC_IDIV = ''idiv''"
| "ny_mopc_name NY_MOPC_UDIV = ''udiv''"
| "ny_mopc_name NY_MOPC_IREM = ''irem''"
| "ny_mopc_name NY_MOPC_UREM = ''urem''"
| "ny_mopc_name NY_MOPC_NEG = ''neg''"
| "ny_mopc_name NY_MOPC_AND = ''and''"
| "ny_mopc_name NY_MOPC_OR = ''or''"
| "ny_mopc_name NY_MOPC_XOR = ''xor''"
| "ny_mopc_name NY_MOPC_NOT = ''not''"
| "ny_mopc_name NY_MOPC_SHL = ''shl''"
| "ny_mopc_name NY_MOPC_SHR = ''shr''"
| "ny_mopc_name NY_MOPC_SAR = ''sar''"
| "ny_mopc_name NY_MOPC_FADD = ''fadd''"
| "ny_mopc_name NY_MOPC_FSUB = ''fsub''"
| "ny_mopc_name NY_MOPC_FMUL = ''fmul''"
| "ny_mopc_name NY_MOPC_FDIV = ''fdiv''"
| "ny_mopc_name NY_MOPC_FNEG = ''fneg''"
| "ny_mopc_name NY_MOPC_CMP = ''cmp''"
| "ny_mopc_name NY_MOPC_TEST = ''test''"
| "ny_mopc_name NY_MOPC_FCMP = ''fcmp''"
| "ny_mopc_name NY_MOPC_SELECT = ''select''"
| "ny_mopc_name NY_MOPC_JMP = ''jmp''"
| "ny_mopc_name NY_MOPC_JCC = ''jcc''"
| "ny_mopc_name NY_MOPC_CALL = ''call''"
| "ny_mopc_name NY_MOPC_CALL_IND = ''call_ind''"
| "ny_mopc_name NY_MOPC_RET = ''ret''"
| "ny_mopc_name NY_MOPC_TRAP = ''trap''"
| "ny_mopc_name NY_MOPC_PHI = ''mphi''"
| "ny_mopc_name NY_MOPC_STACK_ALLOC = ''stack_alloc''"
| "ny_mopc_name NY_MOPC_COUNT = ''unknown''"

subsection \<open>Registers, operands, instructions, functions\<close>

record ny_machine_reg =
  mr_id :: nat
  mr_class :: ny_reg_class
  mr_is_virtual :: bool
  mr_phys :: nat

definition ny_mreg_vreg :: "nat \<Rightarrow> ny_reg_class \<Rightarrow> ny_machine_reg" where
  "ny_mreg_vreg i rc = \<lparr>mr_id = i, mr_class = rc, mr_is_virtual = True, mr_phys = 0\<rparr>"

definition ny_mreg_preg :: "nat \<Rightarrow> ny_reg_class \<Rightarrow> ny_machine_reg" where
  "ny_mreg_preg p rc = \<lparr>mr_id = p, mr_class = rc, mr_is_virtual = False, mr_phys = p\<rparr>"

definition ny_mreg_is_valid :: "ny_machine_reg \<Rightarrow> bool" where
  "ny_mreg_is_valid r \<longleftrightarrow> mr_class r \<noteq> NY_REG_CLASS_NONE"

definition zero_mreg :: ny_machine_reg where
  "zero_mreg = \<lparr>mr_id = 0, mr_class = NY_REG_CLASS_NONE, mr_is_virtual = False, mr_phys = 0\<rparr>"

record ny_machine_mem_op =
  mm_base :: ny_machine_reg
  mm_index :: ny_machine_reg
  mm_scale :: nat
  mm_disp :: int
  mm_stack_slot :: nat
  mm_symbol :: nat
  mm_symbol_name :: string

datatype ny_machine_op_value =
    MopNone
  | MopReg ny_machine_reg
  | MopInt "64 word"
  | MopFloat "64 word"
  | MopMem ny_machine_mem_op
  | MopBlock nat
  | MopSymbol string nat
  | MopCond ny_machine_cond

record ny_machine_operand =
  mo_type :: nat
  mo_value :: ny_machine_op_value

definition ny_mop_reg :: "ny_machine_reg \<Rightarrow> ny_machine_operand" where
  "ny_mop_reg r = \<lparr>mo_type = 0, mo_value = MopReg r\<rparr>"

definition ny_mop_imm_int :: "64 word \<Rightarrow> ny_machine_operand" where
  "ny_mop_imm_int v = \<lparr>mo_type = 0, mo_value = MopInt v\<rparr>"

definition ny_mop_imm_float :: "64 word \<Rightarrow> ny_machine_operand" where
  "ny_mop_imm_float v = \<lparr>mo_type = 0, mo_value = MopFloat v\<rparr>"

definition ny_mop_mem :: "ny_machine_mem_op \<Rightarrow> ny_machine_operand" where
  "ny_mop_mem m = \<lparr>mo_type = 0, mo_value = MopMem m\<rparr>"

definition ny_mop_block :: "nat \<Rightarrow> ny_machine_operand" where
  "ny_mop_block b = \<lparr>mo_type = 0, mo_value = MopBlock b\<rparr>"

definition ny_mop_symbol :: "string \<Rightarrow> nat \<Rightarrow> ny_machine_operand" where
  "ny_mop_symbol nm i = \<lparr>mo_type = 0, mo_value = MopSymbol nm i\<rparr>"

definition ny_mop_cond :: "ny_machine_cond \<Rightarrow> ny_machine_operand" where
  "ny_mop_cond c = \<lparr>mo_type = 0, mo_value = MopCond c\<rparr>"

record ny_machine_instruction =
  mi_id :: nat
  mi_opcode :: ny_machine_opcode
  mi_flags :: nat
  mi_def :: ny_machine_reg
  mi_op_start :: nat
  mi_op_count :: nat
  mi_block :: nat
  mi_prev :: nat
  mi_next :: nat

record ny_machine_stack_slot =
  ms_id :: nat
  ms_size :: nat
  ms_align :: nat
  ms_frame_offset :: int

record ny_machine_block =
  mb_id :: nat
  mb_name :: string
  mb_first :: nat
  mb_last :: nat
  mb_inst_count :: nat
  mb_preds :: "nat list"
  mb_succs :: "nat list"

text \<open>A parameter is its register, its type and its stack slot.\<close>

record ny_machine_function =
  mf_id :: nat
  mf_name :: string
  mf_call_conv :: nat
  mf_return_type :: nat
  mf_vreg_classes :: "ny_reg_class list"
  mf_params :: "(ny_machine_reg \<times> nat \<times> nat) list"
  mf_slots :: "ny_machine_stack_slot list"
  mf_blocks :: "ny_machine_block list"
  mf_entry :: nat
  mf_insts :: "ny_machine_instruction list"
  mf_locs :: "ny_loc list option"
  mf_ret_types :: "nat list option"
  mf_result_slots :: "nat list option"
  mf_operands :: "ny_machine_operand list"

abbreviation (input) "NY_INVALID_SLOT \<equiv> NY_INVALID"

subsection \<open>Operations\<close>

definition ny_mblock_add_edge :: "ny_machine_block \<Rightarrow> ny_machine_block \<Rightarrow> ny_machine_block \<times> ny_machine_block" where
  "ny_mblock_add_edge pred succ =
     (if mb_id succ \<in> set (mb_succs pred) then (pred, succ)
      else (pred\<lparr>mb_succs := mb_succs pred @ [mb_id succ]\<rparr>,
            if mb_id pred \<in> set (mb_preds succ) then succ else succ\<lparr>mb_preds := mb_preds succ @ [mb_id pred]\<rparr>))"

definition ny_mblock_remove_edge :: "ny_machine_block \<Rightarrow> ny_machine_block \<Rightarrow> ny_machine_block \<times> ny_machine_block" where
  "ny_mblock_remove_edge pred succ =
     (pred\<lparr>mb_succs := remove_first (mb_id succ) (mb_succs pred)\<rparr>, succ\<lparr>mb_preds := remove_first (mb_id pred) (mb_preds succ)\<rparr>)"

definition ny_mfunc_init :: "nat \<Rightarrow> string \<Rightarrow> nat \<Rightarrow> nat \<Rightarrow> ny_machine_function" where
  "ny_mfunc_init fid nm ret cc = \<lparr>mf_id = fid, mf_name = nm, mf_call_conv = cc, mf_return_type = ret, mf_vreg_classes = [],
     mf_params = [], mf_slots = [], mf_blocks = [], mf_entry = NY_INVALID_BLOCK, mf_insts = [], mf_locs = None,
     mf_ret_types = None, mf_result_slots = None, mf_operands = []\<rparr>"

definition ny_mfunc_destroy :: "ny_machine_function \<Rightarrow> ny_machine_function" where
  "ny_mfunc_destroy fn = ny_mfunc_init 0 [] 0 0"

definition ny_mfunc_create_vreg :: "ny_machine_function \<Rightarrow> ny_reg_class \<Rightarrow> ny_machine_function \<times> ny_machine_reg" where
  "ny_mfunc_create_vreg fn rc = (fn\<lparr>mf_vreg_classes := mf_vreg_classes fn @ [rc]\<rparr>, ny_mreg_vreg (u32 (length (mf_vreg_classes fn))) rc)"

definition ny_mfunc_add_param :: "ny_machine_function \<Rightarrow> ny_machine_reg \<Rightarrow> ny_machine_function" where
  "ny_mfunc_add_param fn r = fn\<lparr>mf_params := mf_params fn @ [(r, NY_INVALID_TYPE, NY_INVALID_SLOT)]\<rparr>"

definition ny_mfunc_add_param_typed :: "ny_machine_function \<Rightarrow> ny_machine_reg \<Rightarrow> nat \<Rightarrow> nat \<Rightarrow> ny_machine_function" where
  "ny_mfunc_add_param_typed fn r ty slot = fn\<lparr>mf_params := mf_params fn @ [(r, ty, slot)]\<rparr>"

definition ny_mfunc_create_stack_slot :: "ny_machine_function \<Rightarrow> nat \<Rightarrow> nat \<Rightarrow> ny_machine_function \<times> nat" where
  "ny_mfunc_create_stack_slot fn sz align = (let sid = u32 (length (mf_slots fn)) in
     (fn\<lparr>mf_slots := mf_slots fn @ [\<lparr>ms_id = sid, ms_size = sz, ms_align = (if align > 0 then align else 4), ms_frame_offset = 0\<rparr>]\<rparr>, sid))"

definition ny_mfunc_create_block :: "ny_machine_function \<Rightarrow> string \<Rightarrow> ny_machine_function \<times> nat" where
  "ny_mfunc_create_block fn nm = (let bid = u32 (length (mf_blocks fn)) in
     (fn\<lparr>mf_blocks := mf_blocks fn @ [\<lparr>mb_id = bid, mb_name = nm, mb_first = NY_INVALID_INST, mb_last = NY_INVALID_INST,
           mb_inst_count = 0, mb_preds = [], mb_succs = []\<rparr>],
         mf_entry := (if mf_entry fn = NY_INVALID_BLOCK then bid else mf_entry fn)\<rparr>, bid))"

abbreviation ny_mfunc_get_block :: "ny_machine_function \<Rightarrow> nat \<Rightarrow> ny_machine_block option" where
  "ny_mfunc_get_block fn b \<equiv> rd (mf_blocks fn) b"

abbreviation ny_mfunc_get_inst :: "ny_machine_function \<Rightarrow> nat \<Rightarrow> ny_machine_instruction option" where
  "ny_mfunc_get_inst fn i \<equiv> rd (mf_insts fn) i"

text \<open>The element \<^verbatim>\<open>ops[k]\<close> behind the pointer that \<^verbatim>\<open>ny_mfunc_get_operands\<close> returns.\<close>

definition mfunc_op :: "ny_machine_function \<Rightarrow> ny_machine_instruction \<Rightarrow> nat \<Rightarrow> ny_machine_operand option" where
  "mfunc_op fn inst k = (if mi_op_count inst = 0 then None else rd (mf_operands fn) (mi_op_start inst + k))"

definition mfunc_push_operands :: "ny_machine_function \<Rightarrow> ny_machine_operand list \<Rightarrow> ny_machine_function \<times> nat" where
  "mfunc_push_operands fn ops = (fn\<lparr>mf_operands := mf_operands fn @ ops\<rparr>, u32 (length (mf_operands fn)))"

definition mfunc_grow_lazy_arrays :: "ny_machine_function \<Rightarrow> ny_machine_function" where
  "mfunc_grow_lazy_arrays fn = fn\<lparr>
     mf_locs := map_option (\<lambda>xs. xs @ [zero_loc]) (mf_locs fn),
     mf_ret_types := map_option (\<lambda>xs. xs @ [NY_INVALID_TYPE]) (mf_ret_types fn),
     mf_result_slots := map_option (\<lambda>xs. xs @ [NY_INVALID_SLOT]) (mf_result_slots fn)\<rparr>"

definition upd_mblock :: "ny_machine_function \<Rightarrow> nat \<Rightarrow> (ny_machine_block \<Rightarrow> ny_machine_block) \<Rightarrow> ny_machine_function option" where
  "upd_mblock fn b g = do { x \<leftarrow> rd (mf_blocks fn) b; Some (fn\<lparr>mf_blocks := (mf_blocks fn)[b := g x]\<rparr>) }"

definition upd_minst :: "ny_machine_function \<Rightarrow> nat \<Rightarrow> (ny_machine_instruction \<Rightarrow> ny_machine_instruction) \<Rightarrow> ny_machine_function option" where
  "upd_minst fn i g = do { x \<leftarrow> rd (mf_insts fn) i; Some (fn\<lparr>mf_insts := (mf_insts fn)[i := g x]\<rparr>) }"

text \<open>The new instruction with its operands, not linked into its block yet.\<close>

definition mfunc_new_inst :: "ny_machine_function \<Rightarrow> nat \<Rightarrow> ny_machine_opcode \<Rightarrow> ny_machine_reg \<Rightarrow> ny_machine_operand list \<Rightarrow> nat
    \<Rightarrow> nat \<Rightarrow> nat \<Rightarrow> ny_machine_function \<times> nat" where
  "mfunc_new_inst fn block_id opcode def_reg ops flags prev nxt =
     (let inst_id = u32 (length (mf_insts fn));
          fn = mfunc_grow_lazy_arrays fn;
          (fn, op_start) = mfunc_push_operands fn ops;
          inst = \<lparr>mi_id = inst_id, mi_opcode = opcode, mi_flags = flags, mi_def = def_reg, mi_op_start = op_start,
             mi_op_count = u16 (length ops), mi_block = block_id, mi_prev = prev, mi_next = nxt\<rparr>
      in (fn\<lparr>mf_insts := (mf_insts fn @ [inst])[inst_id := inst]\<rparr>, inst_id))"

definition ny_mfunc_append_inst :: "ny_machine_function \<Rightarrow> nat \<Rightarrow> ny_machine_opcode \<Rightarrow> ny_machine_reg \<Rightarrow> ny_machine_operand list \<Rightarrow> nat
    \<Rightarrow> (ny_machine_function \<times> nat) option" where
  "ny_mfunc_append_inst fn block_id opcode def_reg ops flags = do {
     blk \<leftarrow> ny_mfunc_get_block fn block_id;
     let (fn, inst_id) = mfunc_new_inst fn block_id opcode def_reg ops flags (mb_last blk) NY_INVALID_INST;
     fn \<leftarrow> (if mb_first blk = NY_INVALID_INST then upd_mblock fn block_id (\<lambda>b. b\<lparr>mb_first := inst_id\<rparr>)
           else upd_minst fn (mb_last blk) (\<lambda>i. i\<lparr>mi_next := inst_id\<rparr>));
     fn \<leftarrow> upd_mblock fn block_id (\<lambda>b. b\<lparr>mb_last := inst_id, mb_inst_count := u32 (mb_inst_count b + 1)\<rparr>);
     Some (fn, inst_id)
   }"

definition ny_mfunc_insert_before :: "ny_machine_function \<Rightarrow> nat \<Rightarrow> ny_machine_opcode \<Rightarrow> ny_machine_reg \<Rightarrow> ny_machine_operand list \<Rightarrow> nat
    \<Rightarrow> (ny_machine_function \<times> nat) option" where
  "ny_mfunc_insert_before fn before opcode def_reg ops flags = do {
     x \<leftarrow> ny_mfunc_get_inst fn before;
     blk \<leftarrow> ny_mfunc_get_block fn (mi_block x);
     let (fn, inst_id) = mfunc_new_inst fn (mi_block x) opcode def_reg ops flags (mi_prev x) before;
     fn \<leftarrow> upd_minst fn before (\<lambda>i. i\<lparr>mi_prev := inst_id\<rparr>);
     fn \<leftarrow> (if mi_prev x \<noteq> NY_INVALID_INST then upd_minst fn (mi_prev x) (\<lambda>i. i\<lparr>mi_next := inst_id\<rparr>)
           else upd_mblock fn (mi_block x) (\<lambda>b. b\<lparr>mb_first := inst_id\<rparr>));
     fn \<leftarrow> upd_mblock fn (mi_block x) (\<lambda>b. b\<lparr>mb_inst_count := u32 (mb_inst_count b + 1)\<rparr>);
     Some (fn, inst_id)
   }"

definition ny_mfunc_insert_after :: "ny_machine_function \<Rightarrow> nat \<Rightarrow> ny_machine_opcode \<Rightarrow> ny_machine_reg \<Rightarrow> ny_machine_operand list \<Rightarrow> nat
    \<Rightarrow> (ny_machine_function \<times> nat) option" where
  "ny_mfunc_insert_after fn after opcode def_reg ops flags = do {
     x \<leftarrow> ny_mfunc_get_inst fn after;
     blk \<leftarrow> ny_mfunc_get_block fn (mi_block x);
     let (fn, inst_id) = mfunc_new_inst fn (mi_block x) opcode def_reg ops flags after (mi_next x);
     fn \<leftarrow> upd_minst fn after (\<lambda>i. i\<lparr>mi_next := inst_id\<rparr>);
     fn \<leftarrow> (if mi_next x \<noteq> NY_INVALID_INST then upd_minst fn (mi_next x) (\<lambda>i. i\<lparr>mi_prev := inst_id\<rparr>)
           else upd_mblock fn (mi_block x) (\<lambda>b. b\<lparr>mb_last := inst_id\<rparr>));
     fn \<leftarrow> upd_mblock fn (mi_block x) (\<lambda>b. b\<lparr>mb_inst_count := u32 (mb_inst_count b + 1)\<rparr>);
     Some (fn, inst_id)
   }"

definition ny_mfunc_set_inst_loc :: "ny_machine_function \<Rightarrow> nat \<Rightarrow> ny_loc \<Rightarrow> ny_machine_function" where
  "ny_mfunc_set_inst_loc fn i loc =
     (if i \<ge> length (mf_insts fn) then fn
      else let locs = (if mf_locs fn = None \<and> (loc_line loc > 0 \<or> loc_col loc > 0)
                       then Some (replicate (length (mf_insts fn)) zero_loc) else mf_locs fn)
           in fn\<lparr>mf_locs := map_option (\<lambda>xs. xs[i := loc]) locs\<rparr>)"

definition ny_mfunc_get_inst_loc :: "ny_machine_function \<Rightarrow> nat \<Rightarrow> ny_loc" where
  "ny_mfunc_get_inst_loc fn i = (case mf_locs fn of None \<Rightarrow> zero_loc
     | Some xs \<Rightarrow> if i \<ge> length (mf_insts fn) then zero_loc else xs ! i)"

definition ny_mfunc_set_inst_ret_type :: "ny_machine_function \<Rightarrow> nat \<Rightarrow> nat \<Rightarrow> ny_machine_function" where
  "ny_mfunc_set_inst_ret_type fn i ty =
     (if i \<ge> length (mf_insts fn) then fn
      else let tys = (case mf_ret_types fn of None \<Rightarrow> replicate (length (mf_insts fn)) NY_INVALID_TYPE | Some xs \<Rightarrow> xs)
           in fn\<lparr>mf_ret_types := Some (tys[i := ty])\<rparr>)"

definition ny_mfunc_get_inst_ret_type :: "ny_machine_function \<Rightarrow> nat \<Rightarrow> nat" where
  "ny_mfunc_get_inst_ret_type fn i = (case mf_ret_types fn of None \<Rightarrow> NY_INVALID_TYPE
     | Some xs \<Rightarrow> if i \<ge> length (mf_insts fn) then NY_INVALID_TYPE else xs ! i)"

definition ny_mfunc_set_inst_result_slot :: "ny_machine_function \<Rightarrow> nat \<Rightarrow> nat \<Rightarrow> ny_machine_function" where
  "ny_mfunc_set_inst_result_slot fn i slot =
     (if i \<ge> length (mf_insts fn) then fn
      else let slots = (case mf_result_slots fn of None \<Rightarrow> replicate (length (mf_insts fn)) NY_INVALID_SLOT | Some xs \<Rightarrow> xs)
           in fn\<lparr>mf_result_slots := Some (slots[i := slot])\<rparr>)"

definition ny_mfunc_get_inst_result_slot :: "ny_machine_function \<Rightarrow> nat \<Rightarrow> nat" where
  "ny_mfunc_get_inst_result_slot fn i = (case mf_result_slots fn of None \<Rightarrow> NY_INVALID_SLOT
     | Some xs \<Rightarrow> if i \<ge> length (mf_insts fn) then NY_INVALID_SLOT else xs ! i)"

subsection \<open>Modules\<close>

text \<open>\<open>mg_data = None\<close> is the null pointer.\<close>

record ny_machine_global =
  mg_name :: string
  mg_kind :: ny_global_kind
  mg_align :: nat
  mg_data :: "8 word list option"
  mg_data_size :: nat

record ny_machine_module =
  mm_name :: string
  mm_functions :: "ny_machine_function list"
  mm_globals :: "ny_machine_global list"

definition ny_mmod_init :: "string \<Rightarrow> ny_machine_module" where
  "ny_mmod_init nm = \<lparr>mm_name = nm, mm_functions = [], mm_globals = []\<rparr>"

definition ny_mmod_create_function :: "ny_machine_module \<Rightarrow> string \<Rightarrow> nat \<Rightarrow> nat \<Rightarrow> ny_machine_module \<times> nat" where
  "ny_mmod_create_function md nm ret cc =
     (md\<lparr>mm_functions := mm_functions md @ [ny_mfunc_init (u32 (length (mm_functions md))) nm ret cc]\<rparr>, length (mm_functions md))"

definition ny_mmod_get_function :: "ny_machine_module \<Rightarrow> nat \<Rightarrow> ny_machine_function option" where
  "ny_mmod_get_function md fid = (if fid \<ge> length (mm_functions md) then None else Some (mm_functions md ! fid))"

definition ny_mmod_add_global :: "ny_machine_module \<Rightarrow> string \<Rightarrow> ny_global_kind \<Rightarrow> nat \<Rightarrow> 8 word list option \<Rightarrow> nat \<Rightarrow> ny_machine_module option" where
  "ny_mmod_add_global md nm kind align data data_size = do {
     bytes \<leftarrow> (case data of
         Some bs \<Rightarrow> if data_size > 0 then if data_size \<le> length bs then Some (Some (take data_size bs)) else None else Some None
       | None \<Rightarrow> Some None);
     Some (md\<lparr>mm_globals := mm_globals md @ [\<lparr>mg_name = nm, mg_kind = kind, mg_align = (if align > 0 then align else 1),
        mg_data = bytes, mg_data_size = data_size\<rparr>]\<rparr>)
   }"

end
