(* ===== verification/A64_Module.thy ===== *)
theory A64_Module
  imports A64_Asm Machine
begin

unbundle bit_operations_syntax

text \<open>
  Encoding a module (\<^verbatim>\<open>aarch64_encode_module\<close> in \<^verbatim>\<open>src/target/aarch64/aarch64_encode.c\<close>): the functions one after the
  other in the text section, calls to functions of the module patched, a relocation for every other symbol, and
  the globals placed in the read-only, data and zero-initialised sections.
\<close>

record a64_module =
  am_name :: string
  am_functions :: "a64_function list"
  am_globals :: "ny_machine_global list"

record a64_function_code =
  fc_name :: string
  fc_offset :: nat
  fc_size :: nat

record encoded_global =
  eg_name :: string
  eg_kind :: ny_global_kind
  eg_align :: nat
  eg_offset :: nat
  eg_size :: nat

record a64_encoded_module =
  em_name :: string
  em_text :: a64_buf
  em_rodata :: a64_buf
  em_data :: a64_buf
  em_bss_size :: nat
  em_bss_align :: nat
  em_functions :: "a64_function_code list"
  em_globals :: "encoded_global list"

definition aarch64_encoded_mod_init :: "string \<Rightarrow> a64_encoded_module" where
  "aarch64_encoded_mod_init nm = \<lparr>em_name = nm, em_text = aarch64_buf_init, em_rodata = aarch64_buf_init, em_data = aarch64_buf_init,
     em_bss_size = 0, em_bss_align = 0, em_functions = [], em_globals = []\<rparr>"

subsection \<open>Text section\<close>

fun encode_functions :: "a64_encoded_module \<Rightarrow> a64_function list \<Rightarrow> (a64_encoded_module \<times> bool) option" where
  "encode_functions m [] = Some (m, True)"
| "encode_functions m (fn # fns) = do {
     let fn_start = length (bf_bytes (em_text m));
     (buf, ok) \<leftarrow> aarch64_encode_function (em_text m) fn;
     if ok then encode_functions (m\<lparr>em_text := buf, em_functions := em_functions m @
         [\<lparr>fc_name = af_name fn, fc_offset = fn_start, fc_size = length (bf_bytes buf) - fn_start\<rparr>]\<rparr>) fns
     else Some (m\<lparr>em_text := buf\<rparr>, False)
   }"

definition fixup_reloc :: "a64_fixup \<Rightarrow> a64_reloc" where
  "fixup_reloc f = \<lparr>rl_kind = fx_kind f, rl_offset = fx_offset f, rl_symbol = fx_symbol f, rl_addend = fx_addend f\<rparr>"

definition patch_call :: "a64_function_code list \<Rightarrow> a64_buf \<Rightarrow> a64_fixup \<Rightarrow> a64_buf option" where
  "patch_call fcs text fixup =
     (if fx_kind fixup \<noteq> A64_CALL26 \<or> fx_symbol fixup = [] then Some text
      else case find (\<lambda>c. fc_name c = fx_symbol fixup) fcs of
          None \<Rightarrow> Some (aarch64_buf_append_reloc text (fixup_reloc fixup))
        | Some c \<Rightarrow> (let imm = (int (fc_offset c) - int (fx_offset fixup)) div 4 in
            if fits_signed_immediate imm 26 then do {
              w \<leftarrow> read_word text (fx_offset fixup);
              patch_word text (fx_offset fixup) (w AND NOT 0x03FFFFFF OR word_of_int imm AND 0x03FFFFFF)
            }
            else Some (aarch64_buf_append_reloc text (fixup_reloc fixup))))"

definition page_reloc :: "a64_buf \<Rightarrow> a64_fixup \<Rightarrow> a64_buf" where
  "page_reloc text fixup =
     (if fx_kind fixup = A64_FIX_ADRP \<or> fx_kind fixup = A64_FIX_ADD_LO12 \<or> fx_kind fixup = A64_FIX_LDST_LO12
      then aarch64_buf_append_reloc text (fixup_reloc fixup) else text)"

definition late_call_reloc :: "a64_function_code list \<Rightarrow> a64_buf \<Rightarrow> a64_fixup \<Rightarrow> a64_buf" where
  "late_call_reloc fcs text fixup =
     (if fx_kind fixup = A64_CALL26 \<and> fx_symbol fixup \<noteq> [] \<and> find (\<lambda>c. fc_name c = fx_symbol fixup) fcs = None
      then aarch64_buf_append_reloc text (fixup_reloc fixup) else text)"

definition link_text :: "a64_function_code list \<Rightarrow> a64_buf \<Rightarrow> a64_buf option" where
  "link_text fcs text = do {
     let fixup_start = length (bf_fixups text);
     text \<leftarrow> foldM (patch_call fcs) text (take fixup_start (bf_fixups text));
     let text = foldl page_reloc text (take fixup_start (bf_fixups text));
     Some (foldl (late_call_reloc fcs) text (drop fixup_start (bf_fixups text)))
   }"

subsection \<open>Globals\<close>

fun pad_loop :: "nat \<Rightarrow> nat \<Rightarrow> a64_buf \<Rightarrow> a64_buf option" where
  "pad_loop 0 al sec = None"
| "pad_loop (Suc fuel) al sec =
     (if length (bf_bytes sec) mod al \<noteq> 0 then pad_loop fuel al (aarch64_buf_append_bytes sec [0]) else Some sec)"

definition pad_section :: "nat \<Rightarrow> a64_buf \<Rightarrow> a64_buf option" where
  "pad_section al sec = (if al > 1 then pad_loop al al sec else Some sec)"

definition append_data :: "a64_buf \<Rightarrow> ny_machine_global \<Rightarrow> a64_buf option" where
  "append_data sec g = (case mg_data g of None \<Rightarrow> Some sec
     | Some d \<Rightarrow> if mg_data_size g > 0 then if mg_data_size g \<le> length d then Some (aarch64_buf_append_bytes sec (take (mg_data_size g) d)) else None
                else Some sec)"

fun bss_pad :: "nat \<Rightarrow> nat \<Rightarrow> nat \<Rightarrow> nat option" where
  "bss_pad 0 al n = None"
| "bss_pad (Suc fuel) al n = (if n mod al \<noteq> 0 then bss_pad fuel al (n + 1) else Some n)"

definition place_global :: "a64_encoded_module \<Rightarrow> ny_machine_global \<Rightarrow> a64_encoded_module option" where
  "place_global m g = do {
     let al = (if mg_align g > 0 then mg_align g else 1);
     let eg = \<lparr>eg_name = mg_name g, eg_kind = mg_kind g, eg_align = al, eg_offset = 0, eg_size = mg_data_size g\<rparr>;
     (case mg_kind g of
        NY_GLOBAL_CONST \<Rightarrow> do {
          sec \<leftarrow> pad_section al (em_rodata m);
          sec' \<leftarrow> append_data sec g;
          Some (m\<lparr>em_rodata := sec', em_globals := em_globals m @ [eg\<lparr>eg_offset := length (bf_bytes sec)\<rparr>]\<rparr>)
        }
      | NY_GLOBAL_DATA \<Rightarrow> do {
          sec \<leftarrow> pad_section al (em_data m);
          sec' \<leftarrow> append_data sec g;
          Some (m\<lparr>em_data := sec', em_globals := em_globals m @ [eg\<lparr>eg_offset := length (bf_bytes sec)\<rparr>]\<rparr>)
        }
      | NY_GLOBAL_BSS \<Rightarrow> do {
          n \<leftarrow> bss_pad al al (em_bss_size m);
          Some (m\<lparr>em_bss_align := (if al > em_bss_align m then al else em_bss_align m), em_bss_size := n + mg_data_size g,
             em_globals := em_globals m @ [eg\<lparr>eg_offset := n\<rparr>]\<rparr>)
        })
   }"

definition aarch64_encode_module :: "a64_module \<Rightarrow> (a64_encoded_module \<times> bool) option" where
  "aarch64_encode_module md = do {
     (m, ok) \<leftarrow> encode_functions (aarch64_encoded_mod_init (am_name md)) (am_functions md);
     if \<not> ok then Some (m, False)
     else do {
       text \<leftarrow> link_text (em_functions m) (em_text m);
       m \<leftarrow> foldM place_global (m\<lparr>em_text := text\<rparr>) (am_globals md);
       Some (m, True)
     }
   }"

subsection \<open>Linking against known function offsets\<close>

definition call_field :: "a64_function_code list \<Rightarrow> a64_fixup \<Rightarrow> int option" where
  "call_field fcs f = (if fx_kind f = A64_CALL26 \<and> fx_symbol f \<noteq> [] then
     case find (\<lambda>c. fc_name c = fx_symbol f) fcs of None \<Rightarrow> None
     | Some c \<Rightarrow> let imm = (int (fc_offset c) - int (fx_offset f)) div 4 in if fits_signed_immediate imm 26 then Some imm else None
   else None)"

definition needs_call_reloc :: "a64_function_code list \<Rightarrow> a64_fixup \<Rightarrow> bool" where
  "needs_call_reloc fcs f \<longleftrightarrow> fx_kind f = A64_CALL26 \<and> fx_symbol f \<noteq> [] \<and> call_field fcs f = None"

definition is_page_fixup :: "a64_fixup \<Rightarrow> bool" where
  "is_page_fixup f \<longleftrightarrow> fx_kind f \<in> {A64_FIX_ADRP, A64_FIX_ADD_LO12, A64_FIX_LDST_LO12}"

definition call_word :: "a64_function_code list \<Rightarrow> nat \<Rightarrow> 32 word \<Rightarrow> a64_fixup option \<Rightarrow> 32 word" where
  "call_word fcs off w fo = (case fo of None \<Rightarrow> w | Some f \<Rightarrow>
     (case call_field fcs (f\<lparr>fx_offset := off\<rparr>) of None \<Rightarrow> w | Some imm \<Rightarrow> w AND NOT 0x03FFFFFF OR word_of_int imm AND 0x03FFFFFF))"

fun call_words :: "a64_function_code list \<Rightarrow> nat \<Rightarrow> 32 word list \<Rightarrow> (32 word \<times> a64_fixup option) list \<Rightarrow> 32 word list" where
  "call_words fcs off (w # ws) (it # its) = call_word fcs off w (snd it) # call_words fcs (off + 4) ws its"
| "call_words fcs off ws its = []"

fun asm_functions :: "nat \<Rightarrow> a64_function list \<Rightarrow> (32 word list \<times> (32 word \<times> a64_fixup option) list \<times> a64_function_code list) option" where
  "asm_functions base [] = Some ([], [], [])"
| "asm_functions base (fn # fns) = do {
     ws \<leftarrow> assemble base (af_blocks fn);
     its \<leftarrow> accepted (all_insts (af_blocks fn));
     (ws', its', fcs) \<leftarrow> asm_functions (base + 4 * length ws) fns;
     Some (ws @ ws', its @ its', \<lparr>fc_name = af_name fn, fc_offset = base, fc_size = 4 * length ws\<rparr> # fcs)
   }"

lemma asm_words_length: "asm_words lab off its = Some ws \<Longrightarrow> length ws = length its"
  by (induction its arbitrary: off ws) (auto simp: bind_Some_iff)

lemma assemble_length: "assemble base blks = Some ws \<Longrightarrow> accepted (all_insts blks) = Some its \<Longrightarrow> length ws = length its"
  by (auto simp: assemble_def asm_words_length)

lemma patch_call_here:
  assumes "bf_bytes text = P @ word_bytes w @ Q" "fx_offset f = length P"
  shows "patch_call fcs text f = Some (text\<lparr>bf_bytes := P @ word_bytes (call_word fcs (length P) w (Some f)) @ Q,
     bf_relocs := bf_relocs text @ (if needs_call_reloc fcs f then [fixup_reloc f] else [])\<rparr>)"
proof -
  have r: "read_word text (length P) = Some w"
    by (simp add: read_word_eq assms(1) nth_append word_bytes_eq bytes_word_bytes)
  have p: "patch_word text (length P) v = Some (text\<lparr>bf_bytes := P @ word_bytes v @ Q\<rparr>)" for v
    by (simp add: patch_word_eq assms(1))
  have f: "f\<lparr>fx_offset := length P\<rparr> = f" using assms(2) by (cases f) simp
  have t: "text\<lparr>bf_bytes := P @ word_bytes w @ Q, bf_relocs := bf_relocs text\<rparr> = text"
    "text\<lparr>bf_bytes := P @ word_bytes w @ Q, bf_relocs := rs\<rparr> = text\<lparr>bf_relocs := rs\<rparr>"
    "text\<lparr>bf_bytes := bs, bf_relocs := bf_relocs text\<rparr> = text\<lparr>bf_bytes := bs\<rparr>" for rs bs
    using assms(1) by (cases "text"; simp)+
  show ?thesis using assms r p
    by (simp add: patch_call_def call_word_def call_field_def needs_call_reloc_def f t Let_def aarch64_buf_append_reloc_def
        split: option.splits)
qed

lemma patch_calls_spec:
  "\<lbrakk>bf_bytes text = P @ words_bytes ws; length ws = length its\<rbrakk> \<Longrightarrow>
   foldM (patch_call fcs) text (fixups_from (length P) its) = Some (text\<lparr>bf_bytes := P @ words_bytes (call_words fcs (length P) ws its),
     bf_relocs := bf_relocs text @ map fixup_reloc (filter (needs_call_reloc fcs) (fixups_from (length P) its))\<rparr>)"
proof (induction its arbitrary: "text" P ws)
  case (Cons it its)
  obtain v vs where ws: "ws = v # vs" "length vs = length its" using Cons.prems(2) by (cases ws) auto
  obtain w fo where it: "it = (w, fo)" by (cases it)
  have IH: "foldM (patch_call fcs) tx (fixups_from (length P + 4) its) = Some (tx\<lparr>bf_bytes := P @ word_bytes u @ words_bytes (call_words fcs (length P + 4) vs its),
     bf_relocs := bf_relocs tx @ map fixup_reloc (filter (needs_call_reloc fcs) (fixups_from (length P + 4) its))\<rparr>)"
    if "bf_bytes tx = P @ word_bytes u @ words_bytes vs" for tx u
    using Cons.IH[of tx "P @ word_bytes u" vs] that ws(2) by simp
  show ?case
  proof (cases fo)
    case None
    then show ?thesis using IH[of "text" v] Cons.prems(1) ws(1) it by (simp add: call_word_def)
  next
    case (Some f)
    have h: "patch_call fcs text (f\<lparr>fx_offset := length P\<rparr>) = Some (text\<lparr>bf_bytes := P @ word_bytes (call_word fcs (length P) v fo) @ words_bytes vs,
       bf_relocs := bf_relocs text @ (if needs_call_reloc fcs (f\<lparr>fx_offset := length P\<rparr>) then [fixup_reloc (f\<lparr>fx_offset := length P\<rparr>)] else [])\<rparr>)"
      using patch_call_here[of "text" P v "words_bytes vs" "f\<lparr>fx_offset := length P\<rparr>" fcs] Cons.prems(1) ws(1) Some
      by (simp add: call_word_def)
    show ?thesis using Some by (simp add: it ws(1) h IH)
  qed
qed simp

lemma page_relocs_spec:
  "foldl page_reloc text fs = text\<lparr>bf_relocs := bf_relocs text @ map fixup_reloc (filter is_page_fixup fs)\<rparr>"
  by (induction fs arbitrary: "text") (auto simp: page_reloc_def is_page_fixup_def aarch64_buf_append_reloc_def)

lemma encode_functions_spec:
  "\<lbrakk>\<forall>fn \<in> set fns. a64_fn_ok (af_blocks fn); asm_functions (length (bf_bytes (em_text m))) fns = Some (ws, its, fcs)\<rbrakk> \<Longrightarrow>
   \<exists>m'. encode_functions m fns = Some (m', True) \<and> m' = m\<lparr>em_text := em_text m', em_functions := em_functions m @ fcs\<rparr>
     \<and> bf_bytes (em_text m') = bf_bytes (em_text m) @ words_bytes ws
     \<and> bf_fixups (em_text m') = bf_fixups (em_text m) @ fixups_from (length (bf_bytes (em_text m))) its
     \<and> bf_relocs (em_text m') = bf_relocs (em_text m) \<and> length ws = length its"
proof (induction fns arbitrary: m ws its fcs)
  case Nil
  then show ?case by simp
next
  case (Cons fn fns)
  let ?base = "length (bf_bytes (em_text m))"
  from Cons.prems(2) obtain w1 i1 w2 i2 f2 where a: "assemble ?base (af_blocks fn) = Some w1" "accepted (all_insts (af_blocks fn)) = Some i1"
      "asm_functions (?base + 4 * length w1) fns = Some (w2, i2, f2)"
      "ws = w1 @ w2" "its = i1 @ i2" "fcs = \<lparr>fc_name = af_name fn, fc_offset = ?base, fc_size = 4 * length w1\<rparr> # f2"
    by (auto simp: bind_Some_iff)
  obtain b where b: "aarch64_encode_function (em_text m) fn = Some (b, True)" "bf_bytes b = bf_bytes (em_text m) @ words_bytes w1"
      "bf_fixups b = bf_fixups (em_text m) @ fixups_from ?base i1" "bf_relocs b = bf_relocs (em_text m)"
    using encode_function_spec[of fn "em_text m"] Cons.prems(1) a(1,2) by auto
  let ?m = "m\<lparr>em_text := b, em_functions := em_functions m @ [\<lparr>fc_name = af_name fn, fc_offset = ?base, fc_size = 4 * length w1\<rparr>]\<rparr>"
  have l: "length (bf_bytes b) = ?base + 4 * length w1" using b(2) by simp
  have l1: "length w1 = length i1" by (rule assemble_length[OF a(1,2)])
  have s: "encode_functions m (fn # fns) = encode_functions ?m fns" using b(1) l by simp
  obtain m' where m': "encode_functions ?m fns = Some (m', True)" "m' = ?m\<lparr>em_text := em_text m', em_functions := em_functions ?m @ f2\<rparr>"
      "bf_bytes (em_text m') = bf_bytes (em_text ?m) @ words_bytes w2"
      "bf_fixups (em_text m') = bf_fixups (em_text ?m) @ fixups_from (length (bf_bytes (em_text ?m))) i2"
      "bf_relocs (em_text m') = bf_relocs (em_text ?m)" "length w2 = length i2"
    using Cons.IH[of ?m w2 i2 f2] Cons.prems(1) a(3) l by auto
  have "m' = m\<lparr>em_text := em_text m', em_functions := em_functions m @ fcs\<rparr>" by (subst m'(2)) (simp add: a(6))
  then show ?case using s m'(1,3-6) b l l1 a(4,5) by (auto simp: fixups_from_append)
qed

lemma link_text_spec:
  assumes "bf_bytes text = words_bytes ws" "bf_fixups text = fixups_from 0 its" "length ws = length its"
  shows "link_text fcs text = Some (text\<lparr>bf_bytes := words_bytes (call_words fcs 0 ws its),
    bf_relocs := bf_relocs text @ map fixup_reloc (filter (needs_call_reloc fcs) (fixups_from 0 its) @ filter is_page_fixup (fixups_from 0 its))\<rparr>)"
  using patch_calls_spec[of "text" "[]" ws its fcs] assms by (simp add: link_text_def page_relocs_spec)

subsection \<open>Placement of globals\<close>

lemma pad_loop_spec:
  assumes "0 < al"
  shows "(al - length (bf_bytes sec) mod al) mod al < fuel \<Longrightarrow>
    pad_loop fuel al sec = Some (sec\<lparr>bf_bytes := bf_bytes sec @ replicate ((al - length (bf_bytes sec) mod al) mod al) 0\<rparr>)"
proof (induction fuel arbitrary: sec)
  case (Suc fuel)
  let ?n = "length (bf_bytes sec)"
  show ?case
  proof (cases "?n mod al = 0")
    case True
    then show ?thesis by (cases sec) simp
  next
    case False
    let ?s = "aarch64_buf_append_bytes sec [0]"
    have lt: "?n mod al < al" using assms by simp
    have "(Suc ?n) mod al = (if Suc (?n mod al) = al then 0 else Suc (?n mod al))" by (simp add: mod_Suc)
    then have gap: "(al - ?n mod al) mod al = Suc ((al - length (bf_bytes ?s) mod al) mod al)"
      using False lt by (auto simp: aarch64_buf_append_bytes_def)
    have "pad_loop fuel al ?s = Some (?s\<lparr>bf_bytes := bf_bytes ?s @ replicate ((al - length (bf_bytes ?s) mod al) mod al) 0\<rparr>)"
      by (rule Suc.IH) (use Suc.prems gap in simp)
    then show ?thesis using False gap by (simp add: aarch64_buf_append_bytes_def replicate_app_Cons_same)
  qed
qed simp

definition gap :: "nat \<Rightarrow> nat \<Rightarrow> nat" where
  "gap al n = (al - n mod al) mod al"

lemma gap_aligned: "0 < al \<Longrightarrow> (n + gap al n) mod al = 0"
proof -
  assume "0 < al"
  then have "n mod al + (al - n mod al) = al" by simp
  then have "(n + (al - n mod al)) mod al = 0" by (metis mod_add_left_eq mod_self)
  then show ?thesis by (simp add: gap_def mod_add_right_eq)
qed

lemma pad_section_spec: "0 < al \<Longrightarrow> pad_section al sec = Some (sec\<lparr>bf_bytes := bf_bytes sec @ replicate (gap al (length (bf_bytes sec))) 0\<rparr>)"
proof (cases "al > 1")
  case True
  then have "0 < al" "(al - length (bf_bytes sec) mod al) mod al < al" by simp_all
  then show ?thesis using True by (simp add: pad_section_def pad_loop_spec gap_def)
next
  case False
  moreover assume "0 < al"
  ultimately have "al = 1" by simp
  then show ?thesis by (cases sec) (simp add: pad_section_def gap_def)
qed

lemma bss_pad_spec: "0 < al \<Longrightarrow> gap al n < fuel \<Longrightarrow> bss_pad fuel al n = Some (n + gap al n)"
proof (induction fuel arbitrary: n)
  case (Suc fuel)
  show ?case
  proof (cases "n mod al = 0")
    case False
    have "n mod al < al" using Suc.prems by simp
    then have "gap al n = Suc (gap al (Suc n))" using False by (auto simp: gap_def mod_Suc)
    then show ?thesis using Suc.IH[of "Suc n"] Suc.prems False by simp
  qed (simp add: gap_def)
qed simp

text \<open>A buffer of initial bytes is at least as long as the size given with it; a global may have no buffer at all.\<close>

definition global_ok :: "ny_machine_global \<Rightarrow> bool" where
  "global_ok g \<longleftrightarrow> (\<forall>d. mg_data g = Some d \<longrightarrow> mg_data_size g \<le> length d)"

text \<open>
  The bytes a constant or data global takes in its section: its initial bytes, so none at all when it has no buffer, whatever its
  size; a zero-initialised global takes its size.
\<close>

definition stored :: "ny_machine_global \<Rightarrow> 8 word list" where
  "stored g = (case mg_data g of None \<Rightarrow> [] | Some d \<Rightarrow> take (mg_data_size g) d)"

definition room :: "ny_machine_global \<Rightarrow> nat" where
  "room g = (if mg_kind g = NY_GLOBAL_BSS then mg_data_size g else length (stored g))"

text \<open>Where a placed global is: its bytes inside its section, or a range of the zero-initialised one.\<close>

definition placed :: "a64_encoded_module \<Rightarrow> ny_machine_global \<Rightarrow> encoded_global \<Rightarrow> bool" where
  "placed m g e \<longleftrightarrow> eg_name e = mg_name g \<and> eg_kind e = mg_kind g \<and> eg_size e = mg_data_size g
     \<and> eg_align e = max 1 (mg_align g) \<and> eg_offset e mod eg_align e = 0
     \<and> (case mg_kind g of NY_GLOBAL_BSS \<Rightarrow> eg_offset e + room g \<le> em_bss_size m \<and> eg_align e \<le> em_bss_align m
        | k \<Rightarrow> (let bs = bf_bytes (if k = NY_GLOBAL_CONST then em_rodata m else em_data m) in
            eg_offset e + room g \<le> length bs \<and> take (room g) (drop (eg_offset e) bs) = stored g))"

definition globals_disjoint :: "ny_machine_global list \<Rightarrow> encoded_global list \<Rightarrow> bool" where
  "globals_disjoint gs es \<longleftrightarrow> (\<forall>i j. i < j \<longrightarrow> j < length es \<longrightarrow> eg_kind (es ! i) = eg_kind (es ! j) \<longrightarrow>
     eg_offset (es ! i) + room (gs ! i) \<le> eg_offset (es ! j))"

definition extends_mod :: "a64_encoded_module \<Rightarrow> a64_encoded_module \<Rightarrow> bool" where
  "extends_mod m m' \<longleftrightarrow> em_bss_size m \<le> em_bss_size m' \<and> em_bss_align m \<le> em_bss_align m'
     \<and> (\<exists>r. bf_bytes (em_rodata m') = bf_bytes (em_rodata m) @ r) \<and> (\<exists>d. bf_bytes (em_data m') = bf_bytes (em_data m) @ d)
     \<and> em_text m' = em_text m \<and> em_functions m' = em_functions m \<and> em_name m' = em_name m"

lemma placed_extends: "placed m g e \<Longrightarrow> extends_mod m m' \<Longrightarrow> placed m' g e"
  by (auto simp: placed_def extends_mod_def Let_def split: ny_global_kind.splits)

lemma place_global_spec:
  assumes "global_ok g"
  shows "\<exists>m' e. place_global m g = Some m' \<and> em_globals m' = em_globals m @ [e] \<and> placed m' g e \<and> extends_mod m m'
     \<and> (case mg_kind g of NY_GLOBAL_CONST \<Rightarrow> length (bf_bytes (em_rodata m)) | NY_GLOBAL_DATA \<Rightarrow> length (bf_bytes (em_data m))
        | NY_GLOBAL_BSS \<Rightarrow> em_bss_size m) \<le> eg_offset e"
proof -
  define al where "al = (if mg_align g > 0 then mg_align g else 1)"
  have al: "0 < al" "al = max (Suc 0) (mg_align g)" by (auto simp: al_def)
  have gl: "gap al n < al" for n using al(1) by (simp add: gap_def)
  show ?thesis
  proof (cases "mg_kind g")
    case NY_GLOBAL_BSS
    then show ?thesis using bss_pad_spec[OF al(1) gl] gap_aligned[OF al(1)]
      by (auto simp: place_global_def Let_def al_def[symmetric] placed_def al(2)[symmetric] extends_mod_def room_def)
  next
    case NY_GLOBAL_CONST
    then show ?thesis using pad_section_spec[OF al(1), of "em_rodata m"] gap_aligned[OF al(1)] assms
      by (auto simp: place_global_def Let_def al_def[symmetric] placed_def al(2)[symmetric] extends_mod_def append_data_def global_ok_def
          aarch64_buf_append_bytes_def room_def stored_def split: option.split)
  next
    case NY_GLOBAL_DATA
    then show ?thesis using pad_section_spec[OF al(1), of "em_data m"] gap_aligned[OF al(1)] assms
      by (auto simp: place_global_def Let_def al_def[symmetric] placed_def al(2)[symmetric] extends_mod_def append_data_def global_ok_def
          aarch64_buf_append_bytes_def room_def stored_def split: option.split)
  qed
qed

definition section_end :: "a64_encoded_module \<Rightarrow> ny_global_kind \<Rightarrow> nat" where
  "section_end m k = (case k of NY_GLOBAL_CONST \<Rightarrow> length (bf_bytes (em_rodata m)) | NY_GLOBAL_DATA \<Rightarrow> length (bf_bytes (em_data m))
     | NY_GLOBAL_BSS \<Rightarrow> em_bss_size m)"

lemma placed_end: "placed m g e \<Longrightarrow> eg_offset e + room g \<le> section_end m (eg_kind e)"
  by (auto simp: placed_def section_end_def Let_def split: ny_global_kind.splits if_splits)

lemma extends_trans: "extends_mod a b \<Longrightarrow> extends_mod b c \<Longrightarrow> extends_mod a c"
  unfolding extends_mod_def by (metis append.assoc order.trans)

lemma extends_refl: "extends_mod a a"
  by (simp add: extends_mod_def)

lemma place_globals_spec:
  "\<lbrakk>\<forall>g \<in> set gs. global_ok g; list_all2 (placed m) gs0 (em_globals m); globals_disjoint gs0 (em_globals m)\<rbrakk> \<Longrightarrow>
   \<exists>m'. foldM place_global m gs = Some m' \<and> list_all2 (placed m') (gs0 @ gs) (em_globals m') \<and> globals_disjoint (gs0 @ gs) (em_globals m') \<and> extends_mod m m'"
proof (induction gs arbitrary: m gs0)
  case Nil
  then show ?case by (simp add: extends_refl)
next
  case (Cons g gs)
  obtain m1 e where s: "place_global m g = Some m1" "em_globals m1 = em_globals m @ [e]" "placed m1 g e" "extends_mod m m1"
      "section_end m (mg_kind g) \<le> eg_offset e"
    using place_global_spec[of g m] Cons.prems(1) unfolding section_end_def by auto
  have old: "list_all2 (placed m1) gs0 (em_globals m)"
    using Cons.prems(2) by (rule list_all2_mono) (rule placed_extends[OF _ s(4)])
  then have all: "list_all2 (placed m1) (gs0 @ [g]) (em_globals m1)" using s(2,3) by (simp add: list_all2_appendI)
  have kind: "eg_kind e = mg_kind g" using s(3) by (simp add: placed_def)
  have "eg_offset (em_globals m ! i) + room (gs0 ! i) \<le> eg_offset e"
    if "i < length (em_globals m)" "eg_kind (em_globals m ! i) = eg_kind e" for i
  proof -
    have "placed m (gs0 ! i) (em_globals m ! i)" using Cons.prems(2) that(1) by (simp add: list_all2_conv_all_nth)
    from placed_end[OF this] show ?thesis using s(5) kind that(2) by simp
  qed
  then have dis: "globals_disjoint (gs0 @ [g]) (em_globals m1)" using Cons.prems(3) s(2) list_all2_lengthD[OF Cons.prems(2)]
    by (auto simp: globals_disjoint_def nth_append less_Suc_eq)
  from Cons.IH[OF _ all dis] Cons.prems(1) obtain m' where "foldM place_global m1 gs = Some m'"
      "list_all2 (placed m') (gs0 @ g # gs) (em_globals m')" "globals_disjoint (gs0 @ g # gs) (em_globals m')" "extends_mod m1 m'" by auto
  then show ?case using s(1,4) extends_trans by auto
qed

lemma encode_module_spec:
  assumes "\<forall>fn \<in> set (am_functions md). a64_fn_ok (af_blocks fn)" "\<forall>g \<in> set (am_globals md). global_ok g"
    and "asm_functions 0 (am_functions md) = Some (ws, its, fcs)"
  shows "\<exists>m. aarch64_encode_module md = Some (m, True) \<and> em_functions m = fcs
    \<and> bf_bytes (em_text m) = words_bytes (call_words fcs 0 ws its)
    \<and> bf_relocs (em_text m) = map fixup_reloc (filter (needs_call_reloc fcs) (fixups_from 0 its) @ filter is_page_fixup (fixups_from 0 its))
    \<and> list_all2 (placed m) (am_globals md) (em_globals m) \<and> globals_disjoint (am_globals md) (em_globals m)"
proof -
  let ?m0 = "aarch64_encoded_mod_init (am_name md)"
  obtain m1 where m1: "encode_functions ?m0 (am_functions md) = Some (m1, True)" "m1 = ?m0\<lparr>em_text := em_text m1, em_functions := em_functions ?m0 @ fcs\<rparr>"
      "bf_bytes (em_text m1) = words_bytes ws" "bf_fixups (em_text m1) = fixups_from 0 its" "bf_relocs (em_text m1) = []" "length ws = length its"
    using encode_functions_spec[OF assms(1), of ?m0 ws its fcs] assms(3) by (auto simp: aarch64_encoded_mod_init_def aarch64_buf_init_def)
  have f: "em_functions m1 = fcs" "em_globals m1 = []" by (subst m1(2), simp add: aarch64_encoded_mod_init_def)+
  let ?t = "em_text m1\<lparr>bf_bytes := words_bytes (call_words fcs 0 ws its),
     bf_relocs := map fixup_reloc (filter (needs_call_reloc fcs) (fixups_from 0 its) @ filter is_page_fixup (fixups_from 0 its))\<rparr>"
  have t: "link_text fcs (em_text m1) = Some ?t" using link_text_spec[OF m1(3,4,6), of fcs] m1(5) by simp
  obtain m2 where "foldM place_global (m1\<lparr>em_text := ?t\<rparr>) (am_globals md) = Some m2"
      "list_all2 (placed m2) (am_globals md) (em_globals m2)" "globals_disjoint (am_globals md) (em_globals m2)" "extends_mod (m1\<lparr>em_text := ?t\<rparr>) m2"
    using place_globals_spec[OF assms(2), of "m1\<lparr>em_text := ?t\<rparr>" "[]"] f(2) by (auto simp: globals_disjoint_def)
  then show ?thesis using m1(1) t f(1) by (auto simp: aarch64_encode_module_def extends_mod_def)
qed

text \<open>
  C26. Encoding a module whose functions all assemble succeeds. The text is the assembled words of the functions in order, where each
  call to a function of the module in reach carries the displacement to that function; the relocations are those of the
  calls left open, then those of the page and page-offset references; and every global is listed at an aligned offset,
  with its initial bytes there inside its section (a zero-initialised one with a range of its size inside the section
  of its kind), apart from the bytes of the other globals of that section.  A constant or data global without a buffer takes no bytes,
  whatever its size: it may lie at the end of the section, at the same offset as the next one.
\<close>

theorem a64_encode_module_links:
  assumes "\<forall>fn \<in> set (am_functions md). a64_fn_ok (af_blocks fn)" "\<forall>g \<in> set (am_globals md). global_ok g"
    and "asm_functions 0 (am_functions md) = Some (ws, its, fcs)"
  shows "\<exists>m. aarch64_encode_module md = Some (m, True) \<and> em_functions m = fcs
    \<and> bf_bytes (em_text m) = words_bytes (call_words fcs 0 ws its)
    \<and> bf_relocs (em_text m) = map fixup_reloc (filter (needs_call_reloc fcs) (fixups_from 0 its) @ filter is_page_fixup (fixups_from 0 its))
    \<and> list_all2 (placed m) (am_globals md) (em_globals m) \<and> globals_disjoint (am_globals md) (em_globals m)"
  using assms by (rule encode_module_spec)

definition bl_a64 :: "string \<Rightarrow> a64_inst" where
  "bl_a64 nm = \<lparr>ai_opcode = A64_BL, ai_cond = A64_COND_NONE, ai_op_count = 1, ai_shift = 0, ai_ops = [A64_OP_GLOBAL nm]\<rparr>"

definition call_mod :: a64_module where
  "call_mod = \<lparr>am_name = ''m'', am_functions = [loop_fn, \<lparr>af_name = ''main'', af_blocks = [\<lparr>ab_id = 0, ab_insts = [bl_a64 ''loop'', bl_a64 ''puts'', ret_a64]\<rparr>]\<rparr>],
     am_globals = [\<lparr>mg_name = ''s'', mg_kind = NY_GLOBAL_CONST, mg_align = 4, mg_data = Some [104, 105, 0], mg_data_size = 3\<rparr>,
       \<lparr>mg_name = ''e'', mg_kind = NY_GLOBAL_DATA, mg_align = 4, mg_data = None, mg_data_size = 4\<rparr>,
       \<lparr>mg_name = ''f'', mg_kind = NY_GLOBAL_DATA, mg_align = 4, mg_data = Some [7, 0, 0, 0], mg_data_size = 4\<rparr>,
       \<lparr>mg_name = ''z'', mg_kind = NY_GLOBAL_BSS, mg_align = 8, mg_data = None, mg_data_size = 16\<rparr>]\<rparr>"

lemma bl_enc: "enc_inst (bl_a64 nm) = Some (Some (0x94000000, Some \<lparr>fx_kind = A64_CALL26, fx_offset = 0, fx_target = NY_INVALID_BLOCK, fx_symbol = nm, fx_addend = 0\<rparr>))"
  by (simp add: enc_inst_def bl_a64_def aarch64_encode_instruction_def enc_bl_def emit_fixup_def)

lemma a64_encode_module_links_witness:
  "\<exists>m. aarch64_encode_module call_mod = Some (m, True)
    \<and> bf_bytes (em_text m) = words_bytes [0xCB110083, 0x14000001, 0xD65F03C0, 0x17FFFFFD, 0x97FFFFFC, 0x94000000, 0xD65F03C0]
    \<and> map rl_symbol (bf_relocs (em_text m)) = [''puts''] \<and> map rl_offset (bf_relocs (em_text m)) = [20]"
proof -
  define its where "its = the (accepted (all_insts (concat (map af_blocks (am_functions call_mod)))))"
  let ?ws = "[0xCB110083, 0x14000001, 0xD65F03C0, 0x17FFFFFD, 0x94000000, 0x94000000, 0xD65F03C0]"
  let ?fcs = "[\<lparr>fc_name = ''loop'', fc_offset = 0, fc_size = 16\<rparr>, \<lparr>fc_name = ''main'', fc_offset = 16, fc_size = 12\<rparr>]"
  have asm: "asm_functions 0 (am_functions call_mod) = Some (?ws, its, ?fcs)"
    by (simp add: its_def call_mod_def assemble_def loop_fn_def all_insts_def loop_encs bl_enc asm_word_def is_branch_fixup_def branch_field_def
        fits_signed_immediate_def)
  have ok: "\<forall>fn \<in> set (am_functions call_mod). a64_fn_ok (af_blocks fn)" "\<forall>g \<in> set (am_globals call_mod). global_ok g"
    by (auto simp: a64_fn_ok_def call_mod_def loop_fn_def all_insts_def loop_encs bl_enc NY_INVALID_def is_branch_fixup_def global_ok_def)
  have w: "call_words ?fcs 0 ?ws its = [0xCB110083, 0x14000001, 0xD65F03C0, 0x17FFFFFD, 0x97FFFFFC, 0x94000000, 0xD65F03C0]"
    by (simp add: its_def call_mod_def loop_fn_def all_insts_def loop_encs bl_enc call_word_def call_field_def fits_signed_immediate_def)
  have r: "filter (needs_call_reloc ?fcs) (fixups_from 0 its) @ filter is_page_fixup (fixups_from 0 its) =
      [\<lparr>fx_kind = A64_CALL26, fx_offset = 20, fx_target = NY_INVALID_BLOCK, fx_symbol = ''puts'', fx_addend = 0\<rparr>]"
    by (simp add: its_def call_mod_def loop_fn_def all_insts_def loop_encs bl_enc needs_call_reloc_def call_field_def fits_signed_immediate_def is_page_fixup_def)
  show ?thesis using a64_encode_module_links[OF ok asm] unfolding w r by (auto simp: fixup_reloc_def)
qed

text \<open>Such a global without a buffer is listed with its size at the place of the next one: here 4 bytes at offset 0, twice.\<close>

lemma unbacked_data_global_overlaps:
  "map_option (\<lambda>m. (map (\<lambda>e. (eg_offset e, eg_size e)) (em_globals m), length (bf_bytes (em_data m))))
     (foldM place_global (aarch64_encoded_mod_init ''m'') (take 2 (drop 1 (am_globals call_mod)))) = Some ([(0, 4), (0, 4)], 4)"
  by code_simp

end
