(* ===== verification/Machine_Lists.thy ===== *)
theory Machine_Lists
  imports Machine IR_Lists
begin

text \<open>
  The instruction lists of machine blocks.  Linking a new node between two neighbours is proved once, for any node type
  with a previous and a next link (the locale \<open>linked_nodes\<close>), and used for the three ways \<^verbatim>\<open>src/machine/machine.c\<close> adds an
  instruction.
\<close>

lemma hd_or_ne: "xs \<noteq> [] \<Longrightarrow> hd_or xs d = hd xs"
  by (cases xs) simp_all

lemma last_or_ne: "xs \<noteq> [] \<Longrightarrow> last_or d xs = last xs"
  by (simp add: last_or_def)

fun linked :: "('n \<Rightarrow> nat) \<Rightarrow> ('n \<Rightarrow> nat) \<Rightarrow> 'n list \<Rightarrow> nat \<Rightarrow> nat list \<Rightarrow> nat \<Rightarrow> bool" where
  "linked prv nxt I p [] n = True"
| "linked prv nxt I p (x # xs) n = (x < length I \<and> prv (I ! x) = p \<and> nxt (I ! x) = hd_or xs n \<and> linked prv nxt I x xs n)"

lemma linked_append [simp]:
  "linked prv nxt I p (xs @ ys) n \<longleftrightarrow> linked prv nxt I p xs (hd_or ys n) \<and> linked prv nxt I (last_or p xs) ys n"
  by (induction xs arbitrary: p) auto

lemma linked_cong:
  "linked prv nxt I p xs n \<Longrightarrow> (\<And>x. x \<in> set xs \<Longrightarrow> x < length J \<and> prv (J ! x) = prv (I ! x) \<and> nxt (J ! x) = nxt (I ! x)) \<Longrightarrow>
   linked prv nxt J p xs n"
  by (induction xs arbitrary: p) auto

lemma linked_lt: "linked prv nxt I p xs n \<Longrightarrow> x \<in> set xs \<Longrightarrow> x < length I"
  by (induction xs arbitrary: p) auto

locale linked_nodes =
  fixes prv nxt :: "'n \<Rightarrow> nat" and put_prev put_next :: "nat \<Rightarrow> 'n \<Rightarrow> 'n"
  assumes put_prev: "prv (put_prev p x) = p" "nxt (put_prev p x) = nxt x"
    and put_next: "nxt (put_next n x) = n" "prv (put_next n x) = prv x"
begin

definition link_next :: "'n list \<Rightarrow> nat list \<Rightarrow> nat \<Rightarrow> 'n list" where
  "link_next I xs n = (if xs = [] then I else I[last xs := put_next n (I ! last xs)])"

definition link_prev :: "'n list \<Rightarrow> nat list \<Rightarrow> nat \<Rightarrow> 'n list" where
  "link_prev I ys p = (if ys = [] then I else I[hd ys := put_prev p (I ! hd ys)])"

lemma length_link [simp]: "length (link_next I xs n) = length I" "length (link_prev I ys p) = length I"
  by (simp_all add: link_next_def link_prev_def)

lemma link_other: "i \<notin> set xs \<Longrightarrow> link_next I xs n ! i = I ! i" "i \<notin> set ys \<Longrightarrow> link_prev I ys p ! i = I ! i"
  by (auto simp: link_next_def link_prev_def nth_upd hd_in_set)

lemma linked_frame:
  assumes "linked prv nxt I p xs m" "\<And>x. x \<in> set xs \<Longrightarrow> J ! x = I ! x" "length I \<le> length J"
  shows "linked prv nxt J p xs m"
  by (rule linked_cong[OF assms(1)]) (use assms linked_lt[OF assms(1)] in \<open>auto intro: less_le_trans\<close>)

lemma linked_link_next:
  assumes "linked prv nxt I p xs m" "distinct xs"
  shows "linked prv nxt (link_next I xs n) p xs n"
proof (cases xs rule: rev_cases)
  case (snoc zs z)
  have "linked prv nxt (I[z := put_next n (I ! z)]) p zs z"
    by (rule linked_frame[where I = I]) (use assms snoc in \<open>auto simp: nth_upd\<close>)
  moreover have "z < length I" "prv (I ! z) = last_or p zs" using assms snoc by auto
  ultimately show ?thesis using snoc put_next by (simp add: link_next_def)
qed simp

lemma linked_link_prev:
  assumes "linked prv nxt I p ys m" "distinct ys"
  shows "linked prv nxt (link_prev I ys q) q ys m"
proof (cases ys)
  case (Cons z zs)
  have "linked prv nxt (I[z := put_prev q (I ! z)]) z zs m"
    by (rule linked_frame[where I = I]) (use assms Cons in \<open>auto simp: nth_upd\<close>)
  moreover have "z < length I" "nxt (I ! z) = hd_or zs m" using assms Cons by auto
  ultimately show ?thesis using Cons put_prev by (simp add: link_prev_def)
qed simp

text \<open>A new node between two parts of a list.\<close>

lemma insert_node:
  assumes l: "linked prv nxt I p (xs @ ys) n" and d: "distinct (xs @ ys)"
    and z: "prv new = last_or p xs" "nxt new = hd_or ys n"
  shows "linked prv nxt (link_next (link_prev (I @ [new]) ys (length I)) xs (length I)) p (xs @ length I # ys) n"
    (is "linked _ _ ?J _ _ _")
proof -
  have lt: "x < length I" if "x \<in> set (xs @ ys)" for x using linked_lt[OF l that] .
  have parts: "linked prv nxt I p xs (hd_or ys n)" "linked prv nxt I (last_or p xs) ys n" using l by simp_all
  have dist: "distinct xs" "distinct ys" "set xs \<inter> set ys = {}" using d by auto
  have out: "length I \<notin> set xs" "length I \<notin> set ys" using lt by auto
  let ?K = "link_prev (I @ [new]) ys (length I)"
  have xs0: "linked prv nxt ?K p xs (hd_or ys n)"
    by (rule linked_frame[OF parts(1)]) (use lt dist in \<open>auto simp: link_other nth_append disjoint_iff\<close>)
  have ys0: "linked prv nxt (I @ [new]) (last_or p xs) ys n"
    by (rule linked_frame[OF parts(2)]) (use lt in \<open>auto simp: nth_append\<close>)
  have "linked prv nxt ?J p xs (length I)" by (rule linked_link_next[OF xs0 dist(1)])
  moreover have "linked prv nxt ?J (length I) ys n"
    by (rule linked_frame[OF linked_link_prev[OF ys0 dist(2)]]) (use dist(3) link_other(1) in \<open>blast, simp\<close>)
  moreover have "?J ! length I = new" using out by (simp add: link_other)
  ultimately show ?thesis using z by simp
qed

end

interpretation mnodes: linked_nodes mi_prev mi_next "\<lambda>p i. i\<lparr>mi_prev := p\<rparr>" "\<lambda>n i. i\<lparr>mi_next := n\<rparr>"
  by unfold_locales simp_all

subsection \<open>Machine functions\<close>

definition mblock_ok :: "ny_machine_instruction list \<Rightarrow> ny_machine_block \<Rightarrow> nat \<Rightarrow> nat list \<Rightarrow> bool" where
  "mblock_ok I B b xs \<longleftrightarrow> mb_id B = b \<and> mb_first B = hd_or xs NY_INVALID_INST \<and> mb_last B = last_or NY_INVALID_INST xs
     \<and> mb_inst_count B = length xs \<and> distinct xs \<and> (\<forall>x \<in> set xs. mi_block (I ! x) = b)
     \<and> linked mi_prev mi_next I NY_INVALID_INST xs NY_INVALID_INST"

definition mfn_wf :: "ny_machine_function \<Rightarrow> nat list list \<Rightarrow> bool" where
  "mfn_wf fn L \<longleftrightarrow> length L = length (mf_blocks fn) \<and> length (mf_insts fn) < NY_INVALID
     \<and> (\<forall>b < length (mf_blocks fn). mblock_ok (mf_insts fn) (mf_blocks fn ! b) b (L ! b))"

text \<open>What an instruction does, apart from its links.\<close>

definition mpayload :: "ny_machine_instruction \<Rightarrow> ny_machine_opcode \<times> nat \<times> ny_machine_reg \<times> nat \<times> nat \<times> nat" where
  "mpayload i = (mi_opcode i, mi_flags i, mi_def i, mi_op_start i, mi_op_count i, mi_block i)"


lemma mfn_wf_lt: "mfn_wf fn L \<Longrightarrow> b < length (mf_blocks fn) \<Longrightarrow> x \<in> set (L ! b) \<Longrightarrow> x < length (mf_insts fn)"
  by (auto simp: mfn_wf_def mblock_ok_def dest: linked_lt)

lemma mfn_wf_valid: "mfn_wf fn L \<Longrightarrow> b < length (mf_blocks fn) \<Longrightarrow> x \<in> set (L ! b) \<Longrightarrow> x \<noteq> NY_INVALID"
  using mfn_wf_lt[of fn L b x] by (auto simp: mfn_wf_def)

lemma mfn_wf_len:
  assumes "mfn_wf fn L" "b < length (mf_blocks fn)"
  shows "length (L ! b) \<le> length (mf_insts fn)"
proof -
  have d: "distinct (L ! b)" using assms by (simp add: mfn_wf_def mblock_ok_def)
  have "set (L ! b) \<subseteq> {..<length (mf_insts fn)}" using mfn_wf_lt[OF assms] by auto
  then have "card (set (L ! b)) \<le> card {..<length (mf_insts fn)}" by (intro card_mono) auto
  then show ?thesis using distinct_card[OF d] by simp
qed

text \<open>
  A function whose block \<open>b\<close> has gained the node \<open>n\<close>, the first free index, between \<open>xs\<close> and \<open>ys\<close>.
\<close>

definition minsts_linked :: "ny_machine_instruction list \<Rightarrow> nat list \<Rightarrow> nat list \<Rightarrow> ny_machine_instruction \<Rightarrow> ny_machine_instruction list" where
  "minsts_linked I xs ys inst = mnodes.link_next (mnodes.link_prev (I @ [inst]) ys (length I)) xs (length I)"

lemma minsts_linked_len [simp]: "length (minsts_linked I xs ys inst) = Suc (length I)"
  by (simp add: minsts_linked_def)

lemma mpayload_link [simp]:
  "mpayload (mnodes.link_next I xs n ! i) = mpayload (I ! i)" "mpayload (mnodes.link_prev I xs n ! i) = mpayload (I ! i)"
  by (simp_all add: mnodes.link_next_def mnodes.link_prev_def nth_upd mpayload_def)

lemma minsts_linked_payload: "i < length I \<Longrightarrow> mpayload (minsts_linked I xs ys inst ! i) = mpayload (I ! i)"
  by (simp add: minsts_linked_def nth_append)

lemma minsts_linked_new:
  assumes "\<And>x. x \<in> set (xs @ ys) \<Longrightarrow> x < length I"
  shows "minsts_linked I xs ys inst ! length I = inst"
proof -
  have "length I \<notin> set xs" "length I \<notin> set ys" using assms by auto
  then show ?thesis by (simp add: minsts_linked_def mnodes.link_other)
qed

lemma minsts_linked_other:
  assumes "i < length I" "i \<notin> set xs" "i \<notin> set ys"
  shows "minsts_linked I xs ys inst ! i = I ! i"
  using assms by (simp add: minsts_linked_def mnodes.link_other nth_append)

lemma mfn_wf_insert:
  assumes wf: "mfn_wf fn L" and b: "b < length (mf_blocks fn)" and L: "L ! b = xs @ ys"
    and room: "length (mf_insts fn) + 1 < NY_INVALID"
    and inst: "mi_block inst = b" "mi_prev inst = last_or NY_INVALID xs" "mi_next inst = hd_or ys NY_INVALID"
    and insts: "mf_insts fn' = minsts_linked (mf_insts fn) xs ys inst"
    and blocks: "mf_blocks fn' = (mf_blocks fn)[b := B]"
    and B: "mb_id B = b" "mb_first B = hd_or (xs @ length (mf_insts fn) # ys) NY_INVALID"
      "mb_last B = last_or NY_INVALID (xs @ length (mf_insts fn) # ys)" "mb_inst_count B = length (L ! b) + 1"
  shows "mfn_wf fn' (L[b := xs @ length (mf_insts fn) # ys])"
proof -
  let ?n = "length (mf_insts fn)"
  have ok: "mblock_ok (mf_insts fn) (mf_blocks fn ! c) c (L ! c)" if "c < length (mf_blocks fn)" for c using wf that by (simp add: mfn_wf_def)
  have lt: "x < ?n" if "x \<in> set (xs @ ys)" for x using mfn_wf_lt[OF wf b] that L by simp
  have new: "mf_insts fn' ! ?n = inst" unfolding insts by (rule minsts_linked_new[OF lt])
  have pay: "mi_block (mf_insts fn' ! i) = mi_block (mf_insts fn ! i)" if "i < ?n" for i
    using minsts_linked_payload[OF that, of xs ys inst] by (simp add: insts mpayload_def)
  have "mblock_ok (mf_insts fn') B b (xs @ ?n # ys)"
  proof -
    have "linked mi_prev mi_next (mf_insts fn') NY_INVALID (xs @ ?n # ys) NY_INVALID"
      unfolding insts minsts_linked_def using ok[OF b] L inst by (intro mnodes.insert_node) (simp_all add: mblock_ok_def)
    moreover have "distinct (xs @ ?n # ys)" using ok[OF b] L lt by (auto simp: mblock_ok_def)
    moreover have "mi_block (mf_insts fn' ! x) = b" if "x \<in> set (xs @ ?n # ys)" for x
      using that new inst ok[OF b] L lt pay by (auto simp: mblock_ok_def)
    ultimately show ?thesis using B L by (simp add: mblock_ok_def)
  qed
  moreover have "mblock_ok (mf_insts fn') (mf_blocks fn ! c) c (L ! c)" if c: "c < length (mf_blocks fn)" "c \<noteq> b" for c
  proof -
    have own: "mi_block (mf_insts fn ! x) = c" if "x \<in> set (L ! c)" for x using ok[OF c(1)] that by (simp add: mblock_ok_def)
    have "mi_block (mf_insts fn ! x) = b" if "x \<in> set (xs @ ys)" for x using ok[OF b] that L by (simp add: mblock_ok_def)
    with own c(2) have same: "mf_insts fn' ! x = mf_insts fn ! x" if "x \<in> set (L ! c)" for x
      unfolding insts by (intro minsts_linked_other) (use that mfn_wf_lt[OF wf c(1) that] in auto)
    have "linked mi_prev mi_next (mf_insts fn') NY_INVALID (L ! c) NY_INVALID"
      by (rule mnodes.linked_frame[where I = "mf_insts fn"]) (use ok[OF c(1)] same insts in \<open>auto simp: mblock_ok_def\<close>)
    then show ?thesis using ok[OF c(1)] same by (simp add: mblock_ok_def)
  qed
  ultimately show ?thesis using wf b room
    unfolding mfn_wf_def blocks insts by (auto simp: nth_list_update)
qed


text \<open>\<open>fn'\<close> is \<open>fn\<close> with one more instruction in block \<open>b\<close>, whose list is now \<open>zs\<close>.\<close>

definition minst_added :: "ny_machine_function \<Rightarrow> ny_machine_function \<Rightarrow> nat list list \<Rightarrow> nat \<Rightarrow> nat list \<Rightarrow> ny_machine_opcode
    \<Rightarrow> ny_machine_reg \<Rightarrow> ny_machine_operand list \<Rightarrow> nat \<Rightarrow> bool" where
  "minst_added fn fn' L b zs opc r ops fl \<longleftrightarrow> (let n = length (mf_insts fn) in
     mfn_wf fn' (L[b := zs]) \<and> length (mf_insts fn') = n + 1
     \<and> (\<forall>i < n. mpayload (mf_insts fn' ! i) = mpayload (mf_insts fn ! i))
     \<and> mpayload (mf_insts fn' ! n) = (opc, fl, r, length (mf_operands fn), length ops, b)
     \<and> mf_operands fn' = mf_operands fn @ ops)"

lemma minst_addedI:
  assumes wf: "mfn_wf fn L" and b: "b < length (mf_blocks fn)" and L: "L ! b = xs @ ys"
    and room: "length (mf_insts fn) + 1 < NY_INVALID" "length (mf_operands fn) < NY_INVALID" "length ops < 65536"
    and insts: "mf_insts fn' = minsts_linked (mf_insts fn) xs ys
      \<lparr>mi_id = length (mf_insts fn), mi_opcode = opc, mi_flags = fl, mi_def = r, mi_op_start = length (mf_operands fn),
       mi_op_count = length ops, mi_block = b, mi_prev = last_or NY_INVALID xs, mi_next = hd_or ys NY_INVALID\<rparr>"
    and blocks: "mf_blocks fn' = (mf_blocks fn)[b := B]"
    and B: "mb_id B = b" "mb_first B = hd_or (xs @ length (mf_insts fn) # ys) NY_INVALID"
      "mb_last B = last_or NY_INVALID (xs @ length (mf_insts fn) # ys)" "mb_inst_count B = length (L ! b) + 1"
    and ops: "mf_operands fn' = mf_operands fn @ ops"
  shows "minst_added fn fn' L b (xs @ length (mf_insts fn) # ys) opc r ops fl"
proof -
  have lt: "x < length (mf_insts fn)" if "x \<in> set (xs @ ys)" for x using mfn_wf_lt[OF wf b] that L by simp
  have "mfn_wf fn' (L[b := xs @ length (mf_insts fn) # ys])"
    by (rule mfn_wf_insert[OF wf b L room(1) _ _ _ insts blocks B]) simp_all
  moreover have "mpayload (mf_insts fn' ! length (mf_insts fn)) = (opc, fl, r, length (mf_operands fn), length ops, b)"
    unfolding insts by (subst minsts_linked_new[OF lt]) (simp_all add: mpayload_def)
  ultimately show ?thesis
    by (simp add: minst_added_def insts minsts_linked_payload ops)
qed

lemma mfunc_new_inst_shape:
  assumes "length (mf_insts fn) + 1 < NY_INVALID" "length (mf_operands fn) < NY_INVALID" "length ops < 65536"
  shows "\<exists>fn'. mfunc_new_inst fn b opc r ops fl p n = (fn', length (mf_insts fn)) \<and> mf_blocks fn' = mf_blocks fn
    \<and> mf_operands fn' = mf_operands fn @ ops \<and> mf_insts fn' = mf_insts fn @ [\<lparr>mi_id = length (mf_insts fn), mi_opcode = opc, mi_flags = fl,
        mi_def = r, mi_op_start = length (mf_operands fn), mi_op_count = length ops, mi_block = b, mi_prev = p, mi_next = n\<rparr>]"
  using assms by (simp add: mfunc_new_inst_def mfunc_grow_lazy_arrays_def mfunc_push_operands_def Let_def NY_INVALID_def)

lemma upd_m_Some [simp]:
  "i < length (mf_insts fn) \<Longrightarrow> upd_minst fn i g = Some (fn\<lparr>mf_insts := (mf_insts fn)[i := g (mf_insts fn ! i)]\<rparr>)"
  "b < length (mf_blocks fn) \<Longrightarrow> upd_mblock fn b h = Some (fn\<lparr>mf_blocks := (mf_blocks fn)[b := h (mf_blocks fn ! b)]\<rparr>)"
  by (simp_all add: upd_minst_def upd_mblock_def)

lemma insert_before_added:
  assumes wf: "mfn_wf fn L" and b: "b < length (mf_blocks fn)" and L: "L ! b = xs @ x # ys"
    and room: "length (mf_insts fn) + 1 < NY_INVALID" "length (mf_operands fn) < NY_INVALID" "length ops < 65536"
  shows "\<exists>fn'. ny_mfunc_insert_before fn x opc r ops fl = Some (fn', length (mf_insts fn))
    \<and> minst_added fn fn' L b (xs @ length (mf_insts fn) # x # ys) opc r ops fl"
proof -
  let ?n = "length (mf_insts fn)"
  have ok: "mblock_ok (mf_insts fn) (mf_blocks fn ! b) b (L ! b)" using wf b by (simp add: mfn_wf_def)
  then have x: "x < ?n" "mi_block (mf_insts fn ! x) = b" "mi_prev (mf_insts fn ! x) = last_or NY_INVALID xs" "x \<notin> set xs"
    using L by (auto simp: mblock_ok_def)
  have B: "mb_id (mf_blocks fn ! b) = b" "mb_first (mf_blocks fn ! b) = hd_or (L ! b) NY_INVALID"
    "mb_last (mf_blocks fn ! b) = last_or NY_INVALID (L ! b)" "u32 (mb_inst_count (mf_blocks fn ! b) + 1) = length (L ! b) + 1"
    using ok mfn_wf_len[OF wf b] room(1) by (simp_all add: mblock_ok_def NY_INVALID_def)
  have xs: "last xs < ?n" "last xs \<noteq> NY_INVALID" if "xs \<noteq> []"
    using mfn_wf_lt[OF wf b, of "last xs"] mfn_wf_valid[OF wf b, of "last xs"] L that by auto
  obtain fn0 where new: "mfunc_new_inst fn b opc r ops fl (last_or NY_INVALID xs) x = (fn0, ?n)" "mf_blocks fn0 = mf_blocks fn"
    "mf_operands fn0 = mf_operands fn @ ops" "mf_insts fn0 = mf_insts fn @ [\<lparr>mi_id = ?n, mi_opcode = opc, mi_flags = fl,
        mi_def = r, mi_op_start = length (mf_operands fn), mi_op_count = length ops, mi_block = b, mi_prev = last_or NY_INVALID xs, mi_next = x\<rparr>]"
    using mfunc_new_inst_shape[OF room] by blast
  let ?I = "(mf_insts fn0)[x := (mf_insts fn0 ! x)\<lparr>mi_prev := ?n\<rparr>]"
  have pr: "mnodes.link_prev (mf_insts fn0) (x # ys) ?n = ?I" by (simp add: mnodes.link_prev_def)
  show ?thesis
  proof (cases "xs = []")
    case True
    let ?B = "(mf_blocks fn ! b)\<lparr>mb_first := ?n, mb_inst_count := length (L ! b) + 1\<rparr>"
    have "ny_mfunc_insert_before fn x opc r ops fl = Some (fn0\<lparr>mf_insts := ?I, mf_blocks := (mf_blocks fn)[b := ?B]\<rparr>, ?n)"
      using x b B True new by (simp add: ny_mfunc_insert_before_def)
    moreover have "minst_added fn (fn0\<lparr>mf_insts := ?I, mf_blocks := (mf_blocks fn)[b := ?B]\<rparr>) L b (xs @ ?n # x # ys) opc r ops fl"
      by (rule minst_addedI[OF wf b L room, where B = ?B])
        (use B L True pr new in \<open>simp_all add: minsts_linked_def mnodes.link_next_def\<close>)
    ultimately show ?thesis by blast
  next
    case False
    let ?B = "(mf_blocks fn ! b)\<lparr>mb_inst_count := length (L ! b) + 1\<rparr>" and ?J = "?I[last xs := (?I ! last xs)\<lparr>mi_next := ?n\<rparr>]"
    have "ny_mfunc_insert_before fn x opc r ops fl = Some (fn0\<lparr>mf_insts := ?J, mf_blocks := (mf_blocks fn)[b := ?B]\<rparr>, ?n)"
      using x b B False xs new by (simp add: ny_mfunc_insert_before_def last_or_ne)
    moreover have "minst_added fn (fn0\<lparr>mf_insts := ?J, mf_blocks := (mf_blocks fn)[b := ?B]\<rparr>) L b (xs @ ?n # x # ys) opc r ops fl"
      by (rule minst_addedI[OF wf b L room, where B = ?B])
        (use B L False pr new in \<open>simp_all add: minsts_linked_def mnodes.link_next_def last_or_ne hd_or_ne\<close>)
    ultimately show ?thesis by blast
  qed
qed


lemma insert_after_added:
  assumes wf: "mfn_wf fn L" and b: "b < length (mf_blocks fn)" and L: "L ! b = xs @ x # ys"
    and room: "length (mf_insts fn) + 1 < NY_INVALID" "length (mf_operands fn) < NY_INVALID" "length ops < 65536"
  shows "\<exists>fn'. ny_mfunc_insert_after fn x opc r ops fl = Some (fn', length (mf_insts fn))
    \<and> minst_added fn fn' L b (xs @ x # length (mf_insts fn) # ys) opc r ops fl"
proof -
  let ?n = "length (mf_insts fn)"
  have ok: "mblock_ok (mf_insts fn) (mf_blocks fn ! b) b (L ! b)" using wf b by (simp add: mfn_wf_def)
  then have x: "x < ?n" "mi_block (mf_insts fn ! x) = b" "mi_next (mf_insts fn ! x) = hd_or ys NY_INVALID" "x \<notin> set ys"
    using L by (auto simp: mblock_ok_def)
  have B: "mb_id (mf_blocks fn ! b) = b" "mb_first (mf_blocks fn ! b) = hd_or (L ! b) NY_INVALID"
    "mb_last (mf_blocks fn ! b) = last_or NY_INVALID (L ! b)" "u32 (mb_inst_count (mf_blocks fn ! b) + 1) = length (L ! b) + 1"
    using ok mfn_wf_len[OF wf b] room(1) by (simp_all add: mblock_ok_def NY_INVALID_def)
  have ys: "hd ys < ?n" "hd ys \<noteq> NY_INVALID" "x \<noteq> hd ys" if "ys \<noteq> []"
    using mfn_wf_lt[OF wf b, of "hd ys"] mfn_wf_valid[OF wf b, of "hd ys"] L that x(4) hd_in_set[OF that] by auto
  have L': "L ! b = (xs @ [x]) @ ys" using L by simp
  obtain fn0 where new: "mfunc_new_inst fn b opc r ops fl x (hd_or ys NY_INVALID) = (fn0, ?n)" "mf_blocks fn0 = mf_blocks fn"
    "mf_operands fn0 = mf_operands fn @ ops" "mf_insts fn0 = mf_insts fn @ [\<lparr>mi_id = ?n, mi_opcode = opc, mi_flags = fl,
        mi_def = r, mi_op_start = length (mf_operands fn), mi_op_count = length ops, mi_block = b, mi_prev = x, mi_next = hd_or ys NY_INVALID\<rparr>]"
    using mfunc_new_inst_shape[OF room] by blast
  let ?I = "(mf_insts fn0)[x := (mf_insts fn0 ! x)\<lparr>mi_next := ?n\<rparr>]"
  show ?thesis
  proof (cases "ys = []")
    case True
    let ?B = "(mf_blocks fn ! b)\<lparr>mb_last := ?n, mb_inst_count := length (L ! b) + 1\<rparr>"
    have "ny_mfunc_insert_after fn x opc r ops fl = Some (fn0\<lparr>mf_insts := ?I, mf_blocks := (mf_blocks fn)[b := ?B]\<rparr>, ?n)"
      using x b B True new by (simp add: ny_mfunc_insert_after_def)
    moreover have "minst_added fn (fn0\<lparr>mf_insts := ?I, mf_blocks := (mf_blocks fn)[b := ?B]\<rparr>) L b ((xs @ [x]) @ ?n # ys) opc r ops fl"
      by (rule minst_addedI[OF wf b L' room, where B = ?B])
        (use B L True new in \<open>simp_all add: minsts_linked_def mnodes.link_next_def mnodes.link_prev_def\<close>)
    ultimately show ?thesis by auto
  next
    case False
    let ?B = "(mf_blocks fn ! b)\<lparr>mb_inst_count := length (L ! b) + 1\<rparr>" and ?J = "?I[hd ys := (?I ! hd ys)\<lparr>mi_prev := ?n\<rparr>]"
    have J: "?J = mnodes.link_next (mnodes.link_prev (mf_insts fn0) ys ?n) (xs @ [x]) ?n"
      using False ys(3) by (simp add: mnodes.link_next_def mnodes.link_prev_def list_update_swap)
    have "ny_mfunc_insert_after fn x opc r ops fl = Some (fn0\<lparr>mf_insts := ?J, mf_blocks := (mf_blocks fn)[b := ?B]\<rparr>, ?n)"
      using x b B False ys new by (simp add: ny_mfunc_insert_after_def hd_or_ne)
    moreover have "minst_added fn (fn0\<lparr>mf_insts := ?J, mf_blocks := (mf_blocks fn)[b := ?B]\<rparr>) L b ((xs @ [x]) @ ?n # ys) opc r ops fl"
      unfolding J by (rule minst_addedI[OF wf b L' room, where B = ?B])
        (use B L False new in \<open>simp_all add: minsts_linked_def last_or_ne hd_or_ne\<close>)
    ultimately show ?thesis by auto
  qed
qed

lemma append_added:
  assumes wf: "mfn_wf fn L" and b: "b < length (mf_blocks fn)"
    and room: "length (mf_insts fn) + 1 < NY_INVALID" "length (mf_operands fn) < NY_INVALID" "length ops < 65536"
  shows "\<exists>fn'. ny_mfunc_append_inst fn b opc r ops fl = Some (fn', length (mf_insts fn))
    \<and> minst_added fn fn' L b (L ! b @ [length (mf_insts fn)]) opc r ops fl"
proof -
  let ?n = "length (mf_insts fn)"
  have ok: "mblock_ok (mf_insts fn) (mf_blocks fn ! b) b (L ! b)" using wf b by (simp add: mfn_wf_def)
  have B: "mb_id (mf_blocks fn ! b) = b" "mb_first (mf_blocks fn ! b) = hd_or (L ! b) NY_INVALID"
    "mb_last (mf_blocks fn ! b) = last_or NY_INVALID (L ! b)" "u32 (mb_inst_count (mf_blocks fn ! b) + 1) = length (L ! b) + 1"
    using ok mfn_wf_len[OF wf b] room(1) by (simp_all add: mblock_ok_def NY_INVALID_def)
  have L': "L ! b = L ! b @ []" by simp
  obtain fn0 where new: "mfunc_new_inst fn b opc r ops fl (last_or NY_INVALID (L ! b)) NY_INVALID = (fn0, ?n)" "mf_blocks fn0 = mf_blocks fn"
    "mf_operands fn0 = mf_operands fn @ ops" "mf_insts fn0 = mf_insts fn @ [\<lparr>mi_id = ?n, mi_opcode = opc, mi_flags = fl,
        mi_def = r, mi_op_start = length (mf_operands fn), mi_op_count = length ops, mi_block = b,
        mi_prev = last_or NY_INVALID (L ! b), mi_next = NY_INVALID\<rparr>]"
    using mfunc_new_inst_shape[OF room] by blast
  show ?thesis
  proof (cases "L ! b = []")
    case True
    let ?B = "(mf_blocks fn ! b)\<lparr>mb_first := ?n, mb_last := ?n, mb_inst_count := length (L ! b) + 1\<rparr>"
    have "ny_mfunc_append_inst fn b opc r ops fl = Some (fn0\<lparr>mf_blocks := (mf_blocks fn)[b := ?B]\<rparr>, ?n)"
      using b B True new by (simp add: ny_mfunc_append_inst_def)
    moreover have "minst_added fn (fn0\<lparr>mf_blocks := (mf_blocks fn)[b := ?B]\<rparr>) L b (L ! b @ ?n # []) opc r ops fl"
      by (rule minst_addedI[OF wf b L' room, where B = ?B])
        (use B True new in \<open>simp_all add: minsts_linked_def mnodes.link_next_def mnodes.link_prev_def\<close>)
    ultimately show ?thesis by blast
  next
    case False
    let ?B = "(mf_blocks fn ! b)\<lparr>mb_last := ?n, mb_inst_count := length (L ! b) + 1\<rparr>"
    let ?I = "(mf_insts fn0)[last (L ! b) := (mf_insts fn0 ! last (L ! b))\<lparr>mi_next := ?n\<rparr>]"
    have mem: "last (L ! b) < ?n" "hd (L ! b) \<noteq> NY_INVALID"
      using mfn_wf_lt[OF wf b, of "last (L ! b)"] mfn_wf_valid[OF wf b, of "hd (L ! b)"] False by auto
    have "ny_mfunc_append_inst fn b opc r ops fl = Some (fn0\<lparr>mf_insts := ?I, mf_blocks := (mf_blocks fn)[b := ?B]\<rparr>, ?n)"
      using b B False new mem by (simp add: ny_mfunc_append_inst_def last_or_ne hd_or_ne)
    moreover have "minst_added fn (fn0\<lparr>mf_insts := ?I, mf_blocks := (mf_blocks fn)[b := ?B]\<rparr>) L b (L ! b @ ?n # []) opc r ops fl"
      by (rule minst_addedI[OF wf b L' room, where B = ?B])
        (use B False new in \<open>simp_all add: minsts_linked_def mnodes.link_next_def mnodes.link_prev_def last_or_ne hd_or_ne\<close>)
    ultimately show ?thesis by blast
  qed
qed

text \<open>
  C23. The three ways to add an instruction to a machine function: with well-formed instruction lists each call returns,
  and the new instruction stands before or after the given one, or at the end of the list of the given block, which may be
  empty; every other list and instruction is as before and the new one has the given opcode, flags, destination and
  operands.
\<close>

theorem machine_insert_refines:
  assumes "mfn_wf fn L" and "b < length (mf_blocks fn)"
    and "length (mf_insts fn) + 1 < NY_INVALID" and "length (mf_operands fn) < NY_INVALID" and "length ops < 65536"
  shows "(\<exists>fn'. ny_mfunc_append_inst fn b opc r ops fl = Some (fn', length (mf_insts fn))
      \<and> minst_added fn fn' L b (L ! b @ [length (mf_insts fn)]) opc r ops fl)
    \<and> (\<forall>xs x ys. L ! b = xs @ x # ys \<longrightarrow>
        (\<exists>fn'. ny_mfunc_insert_before fn x opc r ops fl = Some (fn', length (mf_insts fn))
          \<and> minst_added fn fn' L b (xs @ length (mf_insts fn) # x # ys) opc r ops fl)
      \<and> (\<exists>fn'. ny_mfunc_insert_after fn x opc r ops fl = Some (fn', length (mf_insts fn))
          \<and> minst_added fn fn' L b (xs @ x # length (mf_insts fn) # ys) opc r ops fl))"
  using insert_before_added[OF assms(1,2) _ assms(3-5)] insert_after_added[OF assms(1,2) _ assms(3-5)] append_added[OF assms] by blast

definition mk_minst :: "nat \<Rightarrow> ny_machine_opcode \<Rightarrow> nat \<Rightarrow> nat \<Rightarrow> ny_machine_instruction" where
  "mk_minst i opc p n = \<lparr>mi_id = i, mi_opcode = opc, mi_flags = 0, mi_def = zero_mreg, mi_op_start = 0, mi_op_count = 0,
     mi_block = 0, mi_prev = p, mi_next = n\<rparr>"

text \<open>A function with a block of two instructions and an empty one.\<close>

definition sample_mfn :: ny_machine_function where
  "sample_mfn = (ny_mfunc_init 0 ''g'' 4 0)\<lparr>mf_entry := 0,
     mf_blocks := [\<lparr>mb_id = 0, mb_name = ''entry'', mb_first = 0, mb_last = 1, mb_inst_count = 2, mb_preds = [], mb_succs = []\<rparr>,
       \<lparr>mb_id = 1, mb_name = ''next'', mb_first = NY_INVALID, mb_last = NY_INVALID, mb_inst_count = 0, mb_preds = [], mb_succs = []\<rparr>],
     mf_insts := [mk_minst 0 NY_MOPC_TRAP NY_INVALID 1, mk_minst 1 NY_MOPC_RET 0 NY_INVALID]\<rparr>"

lemma machine_insert_refines_witness:
  "(\<exists>fn'. ny_mfunc_insert_after sample_mfn 0 NY_MOPC_COPY zero_mreg [] 0 = Some (fn', 2)
     \<and> minst_added sample_mfn fn' [[0, 1], []] 0 [0, 2, 1] NY_MOPC_COPY zero_mreg [] 0)
   \<and> (\<exists>fn'. ny_mfunc_append_inst sample_mfn 1 NY_MOPC_RET zero_mreg [] 0 = Some (fn', 2)
     \<and> minst_added sample_mfn fn' [[0, 1], []] 1 [2] NY_MOPC_RET zero_mreg [] 0)"
proof -
  have wf: "mfn_wf sample_mfn [[0, 1], []]"
    by (auto simp: mfn_wf_def mblock_ok_def sample_mfn_def mk_minst_def NY_INVALID_def less_Suc_eq)
  have sz: "length (mf_blocks sample_mfn) = 2" "length (mf_insts sample_mfn) = 2" "length (mf_operands sample_mfn) = 0"
    by (simp_all add: sample_mfn_def ny_mfunc_init_def)
  have "\<exists>fn'. ny_mfunc_insert_after sample_mfn 0 NY_MOPC_COPY zero_mreg [] 0 = Some (fn', length (mf_insts sample_mfn))
     \<and> minst_added sample_mfn fn' [[0, 1], []] 0 ([] @ 0 # length (mf_insts sample_mfn) # [1]) NY_MOPC_COPY zero_mreg [] 0"
    using machine_insert_refines[OF wf, of 0 "[]" NY_MOPC_COPY zero_mreg 0, THEN conjunct2, rule_format, of "[]" 0 "[1]", THEN conjunct2]
    by (simp add: sz NY_INVALID_def)
  moreover have "\<exists>fn'. ny_mfunc_append_inst sample_mfn 1 NY_MOPC_RET zero_mreg [] 0 = Some (fn', length (mf_insts sample_mfn))
     \<and> minst_added sample_mfn fn' [[0, 1], []] 1 ([[0, 1], []] ! 1 @ [length (mf_insts sample_mfn)]) NY_MOPC_RET zero_mreg [] 0"
    using machine_insert_refines[OF wf, of 1 "[]" NY_MOPC_RET zero_mreg 0, THEN conjunct1] by (simp add: sz NY_INVALID_def)
  ultimately show ?thesis by (simp add: sz)
qed

end
