(* ===== verification/Linear_Scan.thy ===== *)
theory Linear_Scan
  imports Machine_Lists Abi "HOL-Library.Product_Lexorder"
begin

unbundle bit_operations_syntax

text \<open>
  The linear scan of \<^verbatim>\<open>src/target/aarch64/aarch64_regalloc.c\<close> and \<^verbatim>\<open>src/target/x86_64/x86_regalloc.c\<close>.  The two files
  hold the same algorithm with different register tables and masks, so it is modelled once over a description of the target;
  \<open>aarch64_ra\<close> and \<open>x86_ra\<close> are the two targets.  An interval is named by its virtual register, which is its position in the
  array of intervals.
\<close>

subsection \<open>Intervals and targets\<close>

abbreviation (input) "NO_REG \<equiv> 255 :: nat"

record live_interval =
  li_vreg :: nat
  li_start :: nat
  li_end :: nat
  li_class :: ny_reg_class
  li_spilled :: bool
  li_crosses :: bool
  li_phys :: nat
  li_slot :: nat

definition fp_class :: "ny_reg_class \<Rightarrow> bool" where
  "fp_class c \<longleftrightarrow> c = NY_REG_CLASS_FP32 \<or> c = NY_REG_CLASS_FP64"

text \<open>A target: its register tables, its mask of free registers with the operations \<^verbatim>\<open>is_reg_available\<close>, \<^verbatim>\<open>free_reg\<close>
  and \<^verbatim>\<open>take_reg\<close>, and the registers spill code uses: for the first, second, \<dots> spilled operand (the last one repeats), and for
  the index of a memory operand where the allocator rewrites it.\<close>

record 'm ra_target =
  rt_caller :: "nat list"
  rt_callee :: "nat list"
  rt_fp_caller :: "nat list"
  rt_fp_callee :: "nat list"
  rt_callee_saved :: "nat \<Rightarrow> bool"
  rt_empty :: 'm
  rt_avail :: "'m \<Rightarrow> nat \<Rightarrow> bool"
  rt_free :: "'m \<Rightarrow> nat \<Rightarrow> 'm"
  rt_take :: "'m \<Rightarrow> nat \<Rightarrow> 'm"
  rt_gpr_scratch :: "nat list"
  rt_fp_scratch :: "nat list"
  rt_index_scratch :: "nat option"

definition aarch64_is_reg_available :: "64 word list \<Rightarrow> nat \<Rightarrow> bool" where
  "aarch64_is_reg_available m r \<longleftrightarrow> m ! (r div 64) AND push_bit (r mod 64) 1 \<noteq> 0"

definition aarch64_free_reg :: "64 word list \<Rightarrow> nat \<Rightarrow> 64 word list" where
  "aarch64_free_reg m r = m[r div 64 := m ! (r div 64) OR push_bit (r mod 64) 1]"

definition aarch64_take_reg :: "64 word list \<Rightarrow> nat \<Rightarrow> 64 word list" where
  "aarch64_take_reg m r = m[r div 64 := m ! (r div 64) AND NOT (push_bit (r mod 64) 1)]"

definition x86_is_reg_available :: "32 word \<Rightarrow> nat \<Rightarrow> bool" where
  "x86_is_reg_available m r \<longleftrightarrow> m AND push_bit r 1 \<noteq> 0"

definition x86_free_reg :: "32 word \<Rightarrow> nat \<Rightarrow> 32 word" where
  "x86_free_reg m r = m OR push_bit r 1"

definition x86_take_reg :: "32 word \<Rightarrow> nat \<Rightarrow> 32 word" where
  "x86_take_reg m r = m AND NOT (push_bit r 1)"

definition s_aapcs64_gpr_caller_saved :: "nat list" where
  "s_aapcs64_gpr_caller_saved = [9, 10, 11, 12, 13, 14, 15, 16, 17, 18, 0, 1, 2, 3, 4, 5, 6, 7, 8]"

definition s_aapcs64_gpr_callee_saved :: "nat list" where
  "s_aapcs64_gpr_callee_saved = [19, 20, 21, 22, 23, 24, 25, 26, 27, 28]"

definition s_aapcs64_fp_caller_saved :: "nat list" where
  "s_aapcs64_fp_caller_saved = [32, 33, 34, 35, 36, 37, 38, 39, 48, 49, 50, 51, 52, 53, 54, 55, 56, 57, 58, 59, 60, 61, 62, 63]"

definition s_aapcs64_fp_callee_saved :: "nat list" where
  "s_aapcs64_fp_callee_saved = [40, 41, 42, 43, 44, 45, 46, 47]"

definition aarch64_ra :: "ny_target_abi \<Rightarrow> 64 word list ra_target" where
  "aarch64_ra abi = \<lparr>rt_caller = s_aapcs64_gpr_caller_saved, rt_callee = s_aapcs64_gpr_callee_saved,
     rt_fp_caller = s_aapcs64_fp_caller_saved, rt_fp_callee = s_aapcs64_fp_callee_saved,
     rt_callee_saved = aarch64_abi_is_callee_saved abi, rt_empty = [0, 0],
     rt_avail = aarch64_is_reg_available, rt_free = aarch64_free_reg, rt_take = aarch64_take_reg,
     rt_gpr_scratch = [9, 10], rt_fp_scratch = [32, 33], rt_index_scratch = None\<rparr>"

definition s_sysv_gpr_caller_saved :: "nat list" where
  "s_sysv_gpr_caller_saved = [9, 8, 1, 2, 6, 7, 0]"

definition s_sysv_gpr_callee_saved :: "nat list" where
  "s_sysv_gpr_callee_saved = [3, 12, 13, 14, 15]"

definition s_win64_gpr_caller_saved :: "nat list" where
  "s_win64_gpr_caller_saved = [9, 8, 2, 1, 0]"

definition s_win64_gpr_callee_saved :: "nat list" where
  "s_win64_gpr_callee_saved = [3, 6, 7, 12, 13, 14, 15]"

definition s_fp_caller_saved :: "nat list" where
  "s_fp_caller_saved = [16, 17, 18, 19, 20, 21, 22, 23]"

definition x86_ra :: "ny_target_abi \<Rightarrow> 32 word ra_target" where
  "x86_ra abi = \<lparr>rt_caller = (if abi = NY_ABI_WINDOWS_X64 then s_win64_gpr_caller_saved else s_sysv_gpr_caller_saved),
     rt_callee = (if abi = NY_ABI_WINDOWS_X64 then s_win64_gpr_callee_saved else s_sysv_gpr_callee_saved),
     rt_fp_caller = s_fp_caller_saved, rt_fp_callee = [],
     rt_callee_saved = x86_abi_is_callee_saved abi, rt_empty = 0,
     rt_avail = x86_is_reg_available, rt_free = x86_free_reg, rt_take = x86_take_reg,
     rt_gpr_scratch = [11, 10], rt_fp_scratch = [23, 22, 21], rt_index_scratch = Some 10\<rparr>"

subsection \<open>The scan\<close>

record 'm scan_state =
  ss_ivs :: "live_interval list"
  ss_free :: 'm
  ss_active :: "nat list"
  ss_used :: "64 word list"
  ss_spilled :: nat

definition initial_free :: "'m ra_target \<Rightarrow> 'm" where
  "initial_free t = foldl (rt_free t) (rt_empty t) (rt_caller t @ rt_callee t @ rt_fp_caller t @ rt_fp_callee t)"

text \<open>The intervals that ended before the current one give their registers back.\<close>

definition expire :: "'m ra_target \<Rightarrow> 'm scan_state \<Rightarrow> nat \<Rightarrow> 'm scan_state" where
  "expire t s cur = foldl (\<lambda>s a.
       if li_end (ss_ivs s ! a) < li_start (ss_ivs s ! cur) then s\<lparr>ss_free := rt_free t (ss_free s) (li_phys (ss_ivs s ! a))\<rparr>
       else s\<lparr>ss_active := ss_active s @ [a]\<rparr>) (s\<lparr>ss_active := []\<rparr>) (ss_active s)"

definition first_avail :: "'m ra_target \<Rightarrow> 'm \<Rightarrow> nat list \<Rightarrow> nat option" where
  "first_avail t m rs = find (rt_avail t m) rs"

definition choose_reg :: "'m ra_target \<Rightarrow> 'm \<Rightarrow> live_interval \<Rightarrow> nat option" where
  "choose_reg t m cur =
     (if fp_class (li_class cur) then
        let c = (if \<not> li_crosses cur then first_avail t m (rt_fp_caller t) else None);
            c = (if c = None then first_avail t m (rt_fp_callee t) else c)
        in (if c = None \<and> \<not> li_crosses cur then first_avail t m (rt_fp_caller t) else c)
      else if li_crosses cur then first_avail t m (rt_callee t)
      else let c = first_avail t m (rt_caller t)
           in if c = None then first_avail t m (rt_callee t) else c)"

text \<open>Insertion into the active list, ordered by end point, by shifting from the right.\<close>

fun shift_in :: "live_interval list \<Rightarrow> nat \<Rightarrow> nat list \<Rightarrow> nat list" where
  "shift_in ivs cur [] = [cur]"
| "shift_in ivs cur (a # as) = (if li_end (ivs ! a) > li_end (ivs ! cur) then a # shift_in ivs cur as else cur # a # as)"

definition insert_active :: "live_interval list \<Rightarrow> nat \<Rightarrow> nat list \<Rightarrow> nat list" where
  "insert_active ivs cur active = rev (shift_in ivs cur (rev active))"

definition good_victim :: "'m ra_target \<Rightarrow> live_interval list \<Rightarrow> nat \<Rightarrow> nat \<Rightarrow> bool" where
  "good_victim t ivs cur a \<longleftrightarrow> fp_class (li_class (ivs ! a)) = fp_class (li_class (ivs ! cur)) \<and> li_end (ivs ! a) > li_end (ivs ! cur)
     \<and> \<not> (li_crosses (ivs ! cur) \<and> \<not> rt_callee_saved t (li_phys (ivs ! a)))"

definition find_victim :: "'m ra_target \<Rightarrow> live_interval list \<Rightarrow> nat \<Rightarrow> nat list \<Rightarrow> nat option" where
  "find_victim t ivs cur active = find (\<lambda>k. good_victim t ivs cur (active ! k)) (rev [0..<length active])"

definition mark_used :: "64 word list \<Rightarrow> nat \<Rightarrow> 64 word list" where
  "mark_used used r = used[r div 64 := used ! (r div 64) OR push_bit (r mod 64) 1]"

definition scan_assign :: "'m ra_target \<Rightarrow> 'm scan_state \<Rightarrow> nat \<Rightarrow> nat \<Rightarrow> 'm scan_state" where
  "scan_assign t s cur r = s\<lparr>ss_ivs := (ss_ivs s)[cur := (ss_ivs s ! cur)\<lparr>li_phys := r\<rparr>],
     ss_free := rt_take t (ss_free s) r,
     ss_used := (if rt_callee_saved t r then mark_used (ss_used s) r else ss_used s),
     ss_active := insert_active (ss_ivs s) cur (ss_active s)\<rparr>"

definition scan_steal :: "'m scan_state \<Rightarrow> nat \<Rightarrow> nat \<Rightarrow> 'm scan_state" where
  "scan_steal s cur k = (let victim = ss_active s ! k; ivs = ss_ivs s; active = take k (ss_active s) @ drop (Suc k) (ss_active s)
     in s\<lparr>ss_ivs := ivs[cur := (ivs ! cur)\<lparr>li_phys := li_phys (ivs ! victim)\<rparr>,
                        victim := (ivs ! victim)\<lparr>li_phys := NO_REG, li_spilled := True\<rparr>],
          ss_spilled := ss_spilled s + 1, ss_active := insert_active ivs cur active\<rparr>)"

definition scan_spill :: "'m scan_state \<Rightarrow> nat \<Rightarrow> 'm scan_state" where
  "scan_spill s cur = s\<lparr>ss_ivs := (ss_ivs s)[cur := (ss_ivs s ! cur)\<lparr>li_spilled := True, li_phys := NO_REG\<rparr>],
     ss_spilled := ss_spilled s + 1\<rparr>"

definition scan_step :: "'m ra_target \<Rightarrow> 'm scan_state \<Rightarrow> nat \<Rightarrow> 'm scan_state" where
  "scan_step t s cur = (let s = expire t s cur in
     case choose_reg t (ss_free s) (ss_ivs s ! cur) of
       Some r \<Rightarrow> scan_assign t s cur r
     | None \<Rightarrow> (case find_victim t (ss_ivs s) cur (ss_active s) of
           Some k \<Rightarrow> scan_steal s cur k
         | None \<Rightarrow> scan_spill s cur))"

text \<open>The order of \<^verbatim>\<open>compare_interval_start\<close>: by start point, then by virtual register.\<close>

definition scan_order :: "live_interval list \<Rightarrow> nat list" where
  "scan_order ivs = sort_key (\<lambda>v. (li_start (ivs ! v), v)) [0..<length ivs]"

definition linear_scan :: "'m ra_target \<Rightarrow> live_interval list \<Rightarrow> 'm scan_state" where
  "linear_scan t ivs = foldl (scan_step t)
     \<lparr>ss_ivs = ivs, ss_free = initial_free t, ss_active = [], ss_used = [0, 0], ss_spilled = 0\<rparr> (scan_order ivs)"

end
