(* ===== verification/Linear_Scan_Safe.thy ===== *)
theory Linear_Scan_Safe
  imports Linear_Scan
begin

unbundle bit_operations_syntax

text \<open>
  Safety of the linear scan, proved once for every target whose register masks satisfy the laws of the locale
  \<open>register_file\<close>, and used for the two targets.
\<close>

subsection \<open>What the scan guarantees\<close>

definition overlap :: "live_interval list \<Rightarrow> nat \<Rightarrow> nat \<Rightarrow> bool" where
  "overlap ivs u v \<longleftrightarrow> li_start (ivs ! u) \<le> li_end (ivs ! v) \<and> li_start (ivs ! v) \<le> li_end (ivs ! u)"

definition family :: "'m ra_target \<Rightarrow> ny_reg_class \<Rightarrow> nat set" where
  "family t c = (if fp_class c then set (rt_fp_caller t) \<union> set (rt_fp_callee t) else set (rt_caller t) \<union> set (rt_callee t))"

text \<open>The part of an interval the scan reads only.\<close>

definition li_key :: "live_interval \<Rightarrow> nat \<times> nat \<times> nat \<times> ny_reg_class \<times> bool \<times> nat" where
  "li_key i = (li_vreg i, li_start i, li_end i, li_class i, li_crosses i, li_slot i)"

lemma li_key_eq: "li_key i = li_key j \<longleftrightarrow> li_vreg i = li_vreg j \<and> li_start i = li_start j \<and> li_end i = li_end j \<and> li_class i = li_class j
    \<and> li_crosses i = li_crosses j \<and> li_slot i = li_slot j"
  by (simp add: li_key_def)

definition scan_frame :: "live_interval list \<Rightarrow> nat list \<Rightarrow> live_interval list \<Rightarrow> bool" where
  "scan_frame ivs0 pre ivs \<longleftrightarrow> map li_key ivs = map li_key ivs0 \<and> (\<forall>v < length ivs0. v \<notin> set pre \<longrightarrow> ivs ! v = ivs0 ! v)"

definition scan_pairs :: "nat list \<Rightarrow> live_interval list \<Rightarrow> bool" where
  "scan_pairs pre ivs \<longleftrightarrow> (\<forall>u \<in> set pre. \<forall>v \<in> set pre. u \<noteq> v \<longrightarrow> \<not> li_spilled (ivs ! u) \<longrightarrow> \<not> li_spilled (ivs ! v) \<longrightarrow> overlap ivs u v
     \<longrightarrow> li_phys (ivs ! u) \<noteq> li_phys (ivs ! v))"

definition scan_class :: "'m ra_target \<Rightarrow> nat list \<Rightarrow> live_interval list \<Rightarrow> bool" where
  "scan_class t pre ivs \<longleftrightarrow> (\<forall>v \<in> set pre. if li_spilled (ivs ! v) then li_phys (ivs ! v) = NO_REG
     else li_phys (ivs ! v) \<in> family t (li_class (ivs ! v)) \<and> (li_crosses (ivs ! v) \<longrightarrow> rt_callee_saved t (li_phys (ivs ! v))))"

definition scan_retired :: "nat list \<Rightarrow> nat list \<Rightarrow> live_interval list \<Rightarrow> nat list \<Rightarrow> bool" where
  "scan_retired pre todo ivs active \<longleftrightarrow> set active \<subseteq> set pre \<and> distinct active \<and> (\<forall>a \<in> set active. \<not> li_spilled (ivs ! a))
     \<and> (\<forall>v \<in> set pre. \<not> li_spilled (ivs ! v) \<longrightarrow> v \<in> set active \<or> (\<forall>w \<in> set todo. li_end (ivs ! v) < li_start (ivs ! w)))"

lemma set_shift_in: "set (shift_in ivs cur as) = insert cur (set as)"
  by (induction as) auto

lemma distinct_shift_in: "distinct (shift_in ivs cur as) \<longleftrightarrow> cur \<notin> set as \<and> distinct as"
  by (induction as) (auto simp: set_shift_in)

lemma insert_active_props [simp]:
  "set (insert_active ivs cur active) = insert cur (set active)"
  "distinct (insert_active ivs cur active) \<longleftrightarrow> cur \<notin> set active \<and> distinct active"
  by (simp_all add: insert_active_def set_shift_in distinct_shift_in)

locale register_file =
  fixes t :: "'m ra_target" and mask_ok :: "'m \<Rightarrow> bool" and lim :: nat
  assumes empty_ok: "mask_ok (rt_empty t)" "r < lim \<Longrightarrow> \<not> rt_avail t (rt_empty t) r"
    and free_ok: "mask_ok m \<Longrightarrow> r < lim \<Longrightarrow> mask_ok (rt_free t m r)"
      "mask_ok m \<Longrightarrow> r < lim \<Longrightarrow> q < lim \<Longrightarrow> rt_avail t (rt_free t m r) q \<longleftrightarrow> q = r \<or> rt_avail t m q"
    and take_ok: "mask_ok m \<Longrightarrow> r < lim \<Longrightarrow> mask_ok (rt_take t m r)"
      "mask_ok m \<Longrightarrow> r < lim \<Longrightarrow> q < lim \<Longrightarrow> rt_avail t (rt_take t m r) q \<longleftrightarrow> q \<noteq> r \<and> rt_avail t m q"
    and small: "\<forall>r \<in> family t c. r < lim"
    and callee: "\<forall>r \<in> set (rt_callee t) \<union> set (rt_fp_callee t). rt_callee_saved t r"
begin

definition scan_regs :: "'m \<Rightarrow> live_interval list \<Rightarrow> nat list \<Rightarrow> bool" where
  "scan_regs m ivs active \<longleftrightarrow> mask_ok m \<and> (\<forall>a \<in> set active. li_phys (ivs ! a) < lim \<and> \<not> rt_avail t m (li_phys (ivs ! a)))
     \<and> inj_on (\<lambda>a. li_phys (ivs ! a)) (set active)"

definition scan_inv :: "live_interval list \<Rightarrow> nat list \<Rightarrow> nat list \<Rightarrow> 'm scan_state \<Rightarrow> bool" where
  "scan_inv ivs0 pre todo s \<longleftrightarrow> scan_frame ivs0 pre (ss_ivs s) \<and> scan_pairs pre (ss_ivs s) \<and> scan_class t pre (ss_ivs s)
     \<and> scan_retired pre todo (ss_ivs s) (ss_active s) \<and> scan_regs (ss_free s) (ss_ivs s) (ss_active s)"

text \<open>Expiry keeps the intervals that reach the start of the current one.\<close>

lemma expire_shape:
  "foldl (\<lambda>s a. if li_end (ss_ivs s ! a) < li_start (ss_ivs s ! cur) then s\<lparr>ss_free := rt_free t (ss_free s) (li_phys (ss_ivs s ! a))\<rparr>
       else s\<lparr>ss_active := ss_active s @ [a]\<rparr>) s0 as
   = s0\<lparr>ss_active := ss_active s0 @ filter (\<lambda>a. \<not> li_end (ss_ivs s0 ! a) < li_start (ss_ivs s0 ! cur)) as,
       ss_free := foldl (rt_free t) (ss_free s0) (map (\<lambda>a. li_phys (ss_ivs s0 ! a)) (filter (\<lambda>a. li_end (ss_ivs s0 ! a) < li_start (ss_ivs s0 ! cur)) as))\<rparr>"
  by (induction as arbitrary: s0) simp_all

lemma free_all:
  "mask_ok m \<Longrightarrow> \<forall>r \<in> set rs. r < lim \<Longrightarrow> mask_ok (foldl (rt_free t) m rs)
     \<and> (\<forall>q < lim. rt_avail t (foldl (rt_free t) m rs) q \<longleftrightarrow> q \<in> set rs \<or> rt_avail t m q)"
proof (induction rs arbitrary: m)
  case (Cons r rs)
  then have "mask_ok (rt_free t m r)" "\<forall>q < lim. rt_avail t (rt_free t m r) q \<longleftrightarrow> q = r \<or> rt_avail t m q"
    using free_ok by simp_all
  with Cons.IH[of "rt_free t m r"] Cons.prems(2) show ?case by auto
qed simp

lemma expire_inv:
  assumes inv: "scan_inv ivs0 pre (cur # todo) s" and sorted: "\<forall>w \<in> set todo. li_start (ivs0 ! cur) \<le> li_start (ivs0 ! w)"
    and lt: "\<forall>v \<in> set (pre @ cur # todo). v < length ivs0"
  shows "scan_inv ivs0 pre (cur # todo) (expire t s cur)" "ss_ivs (expire t s cur) = ss_ivs s"
    "\<forall>a \<in> set (ss_active (expire t s cur)). li_start (ss_ivs s ! cur) \<le> li_end (ss_ivs s ! a)"
proof -
  let ?ivs = "ss_ivs s"
  let ?go = "\<lambda>a. li_end (?ivs ! a) < li_start (?ivs ! cur)"
  let ?m = "foldl (rt_free t) (ss_free s) (map (\<lambda>a. li_phys (?ivs ! a)) (filter ?go (ss_active s)))"
  have e: "expire t s cur = s\<lparr>ss_active := filter (\<lambda>a. \<not> ?go a) (ss_active s), ss_free := ?m\<rparr>"
    unfolding expire_def expire_shape by simp
  show "ss_ivs (expire t s cur) = ?ivs" by (simp add: e)
  show "\<forall>a \<in> set (ss_active (expire t s cur)). li_start (?ivs ! cur) \<le> li_end (?ivs ! a)" by (auto simp: e)
  have frame: "map li_key ?ivs = map li_key ivs0" using inv by (simp add: scan_inv_def scan_frame_def)
  have key: "li_start (?ivs ! v) = li_start (ivs0 ! v)" if "v < length ivs0" for v
    using arg_cong[OF frame, of "\<lambda>l. l ! v"] that map_eq_imp_length_eq[OF frame] by (simp add: li_key_eq)
  have regs: "scan_regs (ss_free s) ?ivs (ss_active s)" and ret: "scan_retired pre (cur # todo) ?ivs (ss_active s)"
    using inv by (simp_all add: scan_inv_def)
  have "mask_ok ?m \<and> (\<forall>q < lim. rt_avail t ?m q \<longleftrightarrow> q \<in> (\<lambda>a. li_phys (?ivs ! a)) ` {a \<in> set (ss_active s). ?go a} \<or> rt_avail t (ss_free s) q)"
    using free_all[of "ss_free s" "map (\<lambda>a. li_phys (?ivs ! a)) (filter ?go (ss_active s))"] regs by (auto simp: scan_regs_def)
  then have "scan_regs ?m ?ivs (filter (\<lambda>a. \<not> ?go a) (ss_active s))"
    using regs unfolding scan_regs_def by (auto simp: inj_on_def)
  moreover have "scan_retired pre (cur # todo) ?ivs (filter (\<lambda>a. \<not> ?go a) (ss_active s))"
  proof -
    have "li_end (?ivs ! v) < li_start (?ivs ! w)" if "?go v" "w \<in> set (cur # todo)" for v w
      using that sorted key lt by (auto intro: less_le_trans)
    then show ?thesis using ret unfolding scan_retired_def by auto
  qed
  ultimately show "scan_inv ivs0 pre (cur # todo) (expire t s cur)" using inv by (simp add: scan_inv_def e)
qed

lemma find_avail: "first_avail t m rs = Some r \<Longrightarrow> r \<in> set rs \<and> rt_avail t m r"
  unfolding first_avail_def by (auto simp: find_Some_iff)

lemma choose_reg_good:
  assumes "choose_reg t m i = Some r"
  shows "r \<in> family t (li_class i)" "rt_avail t m r" "li_crosses i \<Longrightarrow> rt_callee_saved t r"
proof -
  have "(r \<in> set (rt_fp_caller t) \<and> \<not> li_crosses i \<or> r \<in> set (rt_fp_callee t)) \<and> rt_avail t m r" if "fp_class (li_class i)"
    using assms that by (auto simp: choose_reg_def Let_def dest!: find_avail split: if_splits)
  moreover have "(r \<in> set (rt_caller t) \<and> \<not> li_crosses i \<or> r \<in> set (rt_callee t)) \<and> rt_avail t m r" if "\<not> fp_class (li_class i)"
    using assms that by (auto simp: choose_reg_def Let_def dest!: find_avail split: if_splits)
  ultimately show "r \<in> family t (li_class i)" "rt_avail t m r" "li_crosses i \<Longrightarrow> rt_callee_saved t r"
    using callee by (auto simp: family_def)
qed

lemma frame_upd:
  assumes "scan_frame ivs0 pre ivs" "v < length ivs0" "v \<in> set pre'" "set pre \<subseteq> set pre'" "li_key x = li_key (ivs ! v)"
  shows "scan_frame ivs0 pre' (ivs[v := x])"
proof -
  have "map li_key (ivs[v := x]) = map li_key ivs" using assms(5) by (metis list_update_id map_update)
  then show ?thesis using assms by (auto simp: scan_frame_def nth_upd)
qed

lemma frame_len: "scan_frame ivs0 pre ivs \<Longrightarrow> length ivs = length ivs0"
  unfolding scan_frame_def using map_eq_imp_length_eq by blast

lemma frame_key: "scan_frame ivs0 pre ivs \<Longrightarrow> v < length ivs0 \<Longrightarrow> li_key (ivs ! v) = li_key (ivs0 ! v)"
  using frame_len[of ivs0 pre ivs] by (metis nth_map scan_frame_def)

lemma overlap_key: "li_key (ivs ! u) = li_key (jvs ! u) \<Longrightarrow> li_key (ivs ! v) = li_key (jvs ! v) \<Longrightarrow> overlap ivs u v = overlap jvs u v"
  by (simp add: overlap_def li_key_eq)

text \<open>Whatever holds a register and overlaps the current interval is active.\<close>

lemma overlapping_active:
  assumes "scan_retired pre (cur # todo) ivs active" "v \<in> set pre" "\<not> li_spilled (ivs ! v)" "overlap ivs cur v"
  shows "v \<in> set active"
  using assms unfolding scan_retired_def overlap_def by fastforce

lemma assign_inv:
  assumes inv: "scan_inv ivs0 pre (cur # todo) s" and c: "choose_reg t (ss_free s) (ss_ivs s ! cur) = Some r"
    and cur: "cur \<notin> set pre" "cur < length ivs0" "\<not> li_spilled (ivs0 ! cur)" "\<forall>v \<in> set pre. v < length ivs0"
  shows "scan_inv ivs0 (pre @ [cur]) todo (scan_assign t s cur r)"
proof -
  let ?ivs = "ss_ivs s" and ?x = "(ss_ivs s ! cur)\<lparr>li_phys := r\<rparr>"
  let ?J = "?ivs[cur := ?x]"
  have fr: "scan_frame ivs0 pre ?ivs" and ps: "scan_pairs pre ?ivs" and cl: "scan_class t pre ?ivs"
    and ret: "scan_retired pre (cur # todo) ?ivs (ss_active s)" and regs: "scan_regs (ss_free s) ?ivs (ss_active s)"
    using inv by (simp_all add: scan_inv_def)
  note good = choose_reg_good[OF c]
  have len: "cur < length ?ivs" using frame_len[OF fr] cur(2) by simp
  have same: "?J ! v = ?ivs ! v" if "v \<in> set pre" for v using that cur(1) by (metis nth_list_update_neq)
  have act: "set (ss_active s) \<subseteq> set pre" using ret by (simp add: scan_retired_def)
  have nsp: "\<not> li_spilled (?ivs ! cur)" using fr cur by (simp add: scan_frame_def)
  have r64: "r < lim" using good(1) small by blast
  have phys: "li_phys (?ivs ! v) \<noteq> r" if "v \<in> set pre" "\<not> li_spilled (?ivs ! v)" "overlap ?ivs cur v" for v
    using overlapping_active[OF ret that] regs good(2) by (auto simp: scan_regs_def)
  have fr': "scan_frame ivs0 (pre @ [cur]) ?J"
    by (rule frame_upd[OF fr cur(2)]) (auto simp: li_key_eq)
  have key: "li_key (?J ! v) = li_key (?ivs ! v)" for v using len by (auto simp: nth_upd li_key_eq)
  then have st: "li_start (?J ! v) = li_start (?ivs ! v)" for v by (simp add: li_key_eq)
  have ov: "overlap ?J u v = overlap ?ivs u v" for u v by (rule overlap_key[OF key key])
  have "scan_pairs (pre @ [cur]) ?J"
    using ps phys same len ov nsp unfolding scan_pairs_def by (auto simp: overlap_def)
  moreover have "scan_class t (pre @ [cur]) ?J" using cl good same len nsp unfolding scan_class_def by auto
  moreover have "scan_retired (pre @ [cur]) todo ?J (insert_active ?ivs cur (ss_active s))"
    using ret same len nsp act cur(1) unfolding scan_retired_def st by auto
  moreover have "scan_regs (rt_take t (ss_free s) r) ?J (insert_active ?ivs cur (ss_active s))"
  proof -
    have a: "?J ! a = ?ivs ! a" if "a \<in> set (ss_active s)" for a using that act same by blast
    have "inj_on (\<lambda>a. li_phys (?J ! a)) (insert cur (set (ss_active s)))"
      using regs a len good(2) by (auto simp: scan_regs_def inj_on_def)
    then show ?thesis using regs a len r64 take_ok unfolding scan_regs_def by auto
  qed
  ultimately show ?thesis using fr' by (simp add: scan_inv_def scan_assign_def)
qed

lemma spill_inv:
  assumes inv: "scan_inv ivs0 pre (cur # todo) s" and cur: "cur \<notin> set pre" "cur < length ivs0"
  shows "scan_inv ivs0 (pre @ [cur]) todo (scan_spill s cur)"
proof -
  let ?ivs = "ss_ivs s" and ?x = "(ss_ivs s ! cur)\<lparr>li_spilled := True, li_phys := NO_REG\<rparr>"
  let ?J = "?ivs[cur := ?x]"
  have fr: "scan_frame ivs0 pre ?ivs" and ps: "scan_pairs pre ?ivs" and cl: "scan_class t pre ?ivs"
    and ret: "scan_retired pre (cur # todo) ?ivs (ss_active s)" and regs: "scan_regs (ss_free s) ?ivs (ss_active s)"
    using inv by (simp_all add: scan_inv_def)
  have len: "cur < length ?ivs" using frame_len[OF fr] cur(2) by simp
  have same: "?J ! v = ?ivs ! v" if "v \<in> set pre" for v using that cur(1) by (metis nth_list_update_neq)
  have act: "set (ss_active s) \<subseteq> set pre" using ret by (simp add: scan_retired_def)
  have fr': "scan_frame ivs0 (pre @ [cur]) ?J" by (rule frame_upd[OF fr cur(2)]) (auto simp: li_key_eq)
  have key: "li_key (?J ! v) = li_key (?ivs ! v)" for v using len by (auto simp: nth_upd li_key_eq)
  then have st: "li_start (?J ! v) = li_start (?ivs ! v)" for v by (simp add: li_key_eq)
  have ov: "overlap ?J u v = overlap ?ivs u v" for u v by (rule overlap_key[OF key key])
  have "scan_pairs (pre @ [cur]) ?J" using ps same len ov unfolding scan_pairs_def by auto
  moreover have "scan_class t (pre @ [cur]) ?J" using cl same len unfolding scan_class_def by auto
  moreover have "scan_retired (pre @ [cur]) todo ?J (ss_active s)"
    using ret same len act unfolding scan_retired_def st by auto
  moreover have "scan_regs (ss_free s) ?J (ss_active s)"
    using regs act same unfolding scan_regs_def by (auto simp: inj_on_def subset_iff)
  ultimately show ?thesis using fr' by (simp add: scan_inv_def scan_spill_def)
qed

lemma find_victim_good:
  "find_victim t ivs cur active = Some k \<Longrightarrow> k < length active \<and> good_victim t ivs cur (active ! k)"
  unfolding find_victim_def find_Some_iff by (auto simp: rev_nth)

lemma remove_nth:
  assumes "k < length xs" "distinct xs"
  shows "set (take k xs @ drop (Suc k) xs) = set xs - {xs ! k}" "distinct (take k xs @ drop (Suc k) xs)"
proof -
  have x: "xs = take k xs @ xs ! k # drop (Suc k) xs" using assms(1) by (rule id_take_nth_drop)
  then have d: "distinct (take k xs @ xs ! k # drop (Suc k) xs)" using assms(2) by metis
  then show "distinct (take k xs @ drop (Suc k) xs)" by simp
  have "set xs = insert (xs ! k) (set (take k xs @ drop (Suc k) xs))" by (subst x) simp
  then show "set (take k xs @ drop (Suc k) xs) = set xs - {xs ! k}" using d by auto
qed

lemma steal_inv:
  assumes inv: "scan_inv ivs0 pre (cur # todo) s" and k: "find_victim t (ss_ivs s) cur (ss_active s) = Some k"
    and cur: "cur \<notin> set pre" "cur < length ivs0" "\<not> li_spilled (ivs0 ! cur)" "\<forall>v \<in> set pre. v < length ivs0"
  shows "scan_inv ivs0 (pre @ [cur]) todo (scan_steal s cur k)"
proof -
  let ?ivs = "ss_ivs s" and ?v = "ss_active s ! k"
  let ?x = "(?ivs ! cur)\<lparr>li_phys := li_phys (?ivs ! ?v)\<rparr>" and ?y = "(?ivs ! ?v)\<lparr>li_phys := NO_REG, li_spilled := True\<rparr>"
  let ?act = "take k (ss_active s) @ drop (Suc k) (ss_active s)"
  define J where J_def: "J = ?ivs[cur := ?x, ?v := ?y]"
  have fr: "scan_frame ivs0 pre ?ivs" and ps: "scan_pairs pre ?ivs" and cl: "scan_class t pre ?ivs"
    and ret: "scan_retired pre (cur # todo) ?ivs (ss_active s)" and regs: "scan_regs (ss_free s) ?ivs (ss_active s)"
    using inv by (simp_all add: scan_inv_def)
  have kl: "k < length (ss_active s)" and gv: "good_victim t ?ivs cur ?v" using find_victim_good[OF k] by auto
  have act: "set (ss_active s) \<subseteq> set pre" "distinct (ss_active s)" using ret by (simp_all add: scan_retired_def)
  have v: "?v \<in> set (ss_active s)" "?v \<in> set pre" using kl act by auto
  have vc: "?v \<noteq> cur" "?v < length ivs0" using v cur by auto
  have len: "cur < length ?ivs" "?v < length ?ivs" using frame_len[OF fr] cur(2) vc(2) by simp_all
  have vns: "\<not> li_spilled (?ivs ! ?v)" using ret v(1) by (simp add: scan_retired_def)
  have nsp: "\<not> li_spilled (?ivs ! cur)" using fr cur by (simp add: scan_frame_def)
  note rm = remove_nth[OF kl act(2)]
  have same: "J ! u = ?ivs ! u" if "u \<in> set pre" "u \<noteq> ?v" for u using that cur(1) unfolding J_def by (metis nth_list_update_neq)
  have J: "J ! cur = ?x" "J ! ?v = ?y" using len vc(1) by (simp_all add: J_def)
  have other: "li_phys (?ivs ! u) \<noteq> li_phys (?ivs ! ?v)" if "u \<in> set (ss_active s)" "u \<noteq> ?v" for u
    using regs that v(1) unfolding scan_regs_def inj_on_def by blast
  have fr': "scan_frame ivs0 (pre @ [cur]) J"
    unfolding J_def
  proof (rule frame_upd)
    show "scan_frame ivs0 (pre @ [cur]) (?ivs[cur := ?x])" by (rule frame_upd[OF fr cur(2)]) (auto simp: li_key_eq)
  qed (use vc v len in \<open>auto simp: li_key_eq\<close>)
  have key: "li_key (J ! u) = li_key (?ivs ! u)" for u using len vc(1) by (auto simp: J_def nth_upd li_key_eq)
  then have st: "li_start (J ! u) = li_start (?ivs ! u)" for u by (simp add: li_key_eq)
  have ov: "overlap J u w = overlap ?ivs u w" for u w by (rule overlap_key[OF key key])
  have phys: "li_phys (?ivs ! u) \<noteq> li_phys (?ivs ! ?v)" if "u \<in> set pre" "u \<noteq> ?v" "\<not> li_spilled (?ivs ! u)" "overlap ?ivs cur u" for u
    using other overlapping_active[OF ret that(1,3,4)] that(2) by blast
  have "scan_pairs (pre @ [cur]) J"
    unfolding scan_pairs_def
  proof (intro ballI impI)
    fix u w assume a: "u \<in> set (pre @ [cur])" "w \<in> set (pre @ [cur])" "u \<noteq> w" "\<not> li_spilled (J ! u)" "\<not> li_spilled (J ! w)" "overlap J u w"
    have spv: "li_spilled (J ! ?v)" unfolding J(2) by simp
    then have ne: "u \<noteq> ?v" "w \<noteq> ?v" using a(4,5) by metis+
    consider "u = cur" "w \<in> set pre" | "w = cur" "u \<in> set pre" | "u \<in> set pre" "w \<in> set pre" using a by auto
    then show "li_phys (J ! u) \<noteq> li_phys (J ! w)"
    proof cases
      case 1
      then show ?thesis using a ne phys[of w] J same[of w] ov by auto
    next
      case 2
      then have "overlap ?ivs cur u" using a ov by (auto simp: overlap_def)
      then show ?thesis using a ne phys[of u] J same[of u] 2 by auto
    next
      case 3
      then show ?thesis using a ne ps same ov unfolding scan_pairs_def by auto
    qed
  qed
  moreover have "scan_class t (pre @ [cur]) J"
  proof -
    have "li_phys (?ivs ! ?v) \<in> family t (li_class (?ivs ! cur))" "li_crosses (?ivs ! cur) \<Longrightarrow> rt_callee_saved t (li_phys (?ivs ! ?v))"
      using cl v(2) vns gv by (auto simp: scan_class_def good_victim_def family_def)
    moreover have "li_spilled (J ! cur) = li_spilled (?ivs ! cur)" "li_phys (J ! cur) = li_phys (?ivs ! ?v)"
      "li_class (J ! cur) = li_class (?ivs ! cur)" "li_crosses (J ! cur) = li_crosses (?ivs ! cur)" unfolding J(1) by simp_all
    ultimately have c: "if li_spilled (J ! cur) then li_phys (J ! cur) = NO_REG else li_phys (J ! cur) \<in> family t (li_class (J ! cur))
        \<and> (li_crosses (J ! cur) \<longrightarrow> rt_callee_saved t (li_phys (J ! cur)))" using nsp by metis
    have w: "if li_spilled (J ! ?v) then li_phys (J ! ?v) = NO_REG else li_phys (J ! ?v) \<in> family t (li_class (J ! ?v))
        \<and> (li_crosses (J ! ?v) \<longrightarrow> rt_callee_saved t (li_phys (J ! ?v)))" unfolding J(2) by simp
    have "if li_spilled (J ! u) then li_phys (J ! u) = NO_REG else li_phys (J ! u) \<in> family t (li_class (J ! u))
        \<and> (li_crosses (J ! u) \<longrightarrow> rt_callee_saved t (li_phys (J ! u)))" if u: "u \<in> set pre" for u
    proof (cases "u = ?v")
      case False
      show ?thesis unfolding same[OF u False] using cl u by (simp add: scan_class_def)
    qed (use w in simp)
    then show ?thesis using c unfolding scan_class_def by simp
  qed
  moreover have "scan_retired (pre @ [cur]) todo J (insert_active ?ivs cur ?act)"
    unfolding scan_retired_def insert_active_props rm
  proof (intro conjI ballI impI)
    have spv: "li_spilled (J ! ?v)" unfolding J(2) by simp
    fix v
    { assume v: "v \<in> set (pre @ [cur])" "\<not> li_spilled (J ! v)"
      then have ne: "v \<noteq> ?v" using spv by metis
      show "v \<in> insert cur (set (ss_active s) - {?v}) \<or> (\<forall>w \<in> set todo. li_end (J ! v) < li_start (J ! w))"
      proof (cases "v = cur")
        case False
        then have "v \<in> set pre" using v(1) by simp
        note sv = same[OF this ne]
        show ?thesis using ret v(2) \<open>v \<in> set pre\<close> ne unfolding sv st scan_retired_def by auto
      qed simp }
    { assume a: "v \<in> insert cur (set (ss_active s) - {?v})"
      show "\<not> li_spilled (J ! v)"
      proof (cases "v = cur")
        case True
        then show ?thesis using nsp unfolding True J(1) by simp
      next
        case False
        then have "v \<in> set pre" "v \<noteq> ?v" "v \<in> set (ss_active s)" using a act by auto
        then show ?thesis unfolding same[OF \<open>v \<in> set pre\<close> \<open>v \<noteq> ?v\<close>] using ret by (simp add: scan_retired_def)
      qed }
  qed (use act cur(1) rm in auto)
  moreover have "scan_regs (ss_free s) J (insert_active ?ivs cur ?act)"
  proof -
    have a: "J ! a = ?ivs ! a" if "a \<in> set (ss_active s) - {?v}" for a using that act same by blast
    have p: "li_phys (J ! cur) = li_phys (?ivs ! ?v)" unfolding J(1) by simp
    have "inj_on (\<lambda>a. li_phys (J ! a)) (insert cur (set (ss_active s) - {?v}))"
      unfolding inj_on_insert
    proof
      show "inj_on (\<lambda>a. li_phys (J ! a)) (set (ss_active s) - {?v})"
      proof -
        have i: "inj_on (\<lambda>a. li_phys (?ivs ! a)) (set (ss_active s) - {?v})"
          using regs by (auto simp: scan_regs_def intro: inj_on_subset)
        show ?thesis by (rule inj_on_cong[THEN iffD1, OF _ i]) (simp only: a)
      qed
      show "li_phys (J ! cur) \<notin> (\<lambda>a. li_phys (J ! a)) ` (set (ss_active s) - {?v} - {cur})"
        unfolding p
      proof
        assume "li_phys (?ivs ! ?v) \<in> (\<lambda>a. li_phys (J ! a)) ` (set (ss_active s) - {?v} - {cur})"
        then obtain u where u: "u \<in> set (ss_active s) - {?v}" "li_phys (J ! u) = li_phys (?ivs ! ?v)" by fastforce
        from u(2) have "li_phys (?ivs ! u) = li_phys (?ivs ! ?v)" unfolding a[OF u(1)] .
        with other[of u] u(1) show False by blast
      qed
    qed
    then show ?thesis using regs a p v(1) unfolding scan_regs_def insert_active_props rm by auto
  qed
  ultimately show ?thesis using fr' by (simp add: scan_inv_def scan_steal_def Let_def J_def)
qed

lemma step_inv:
  assumes inv: "scan_inv ivs0 pre (cur # todo) s" and sorted: "\<forall>w \<in> set todo. li_start (ivs0 ! cur) \<le> li_start (ivs0 ! w)"
    and lt: "\<forall>v \<in> set (pre @ cur # todo). v < length ivs0" and cur: "cur \<notin> set pre" "\<not> li_spilled (ivs0 ! cur)"
  shows "scan_inv ivs0 (pre @ [cur]) todo (scan_step t s cur)"
proof -
  note e = expire_inv(1)[OF inv sorted lt]
  have c: "cur < length ivs0" "\<forall>v \<in> set pre. v < length ivs0" using lt by auto
  show ?thesis
    unfolding scan_step_def Let_def
    by (auto split: option.split intro: assign_inv[OF e _ cur(1) c(1) cur(2) c(2)] steal_inv[OF e _ cur(1) c(1) cur(2) c(2)]
        spill_inv[OF e cur(1) c(1)])
qed

lemma fold_inv:
  assumes "scan_inv ivs0 pre todo s" "sorted (map (\<lambda>v. li_start (ivs0 ! v)) todo)" "distinct (pre @ todo)"
    and "\<forall>v \<in> set (pre @ todo). v < length ivs0" "\<forall>v < length ivs0. \<not> li_spilled (ivs0 ! v)"
  shows "scan_inv ivs0 (pre @ todo) [] (foldl (scan_step t) s todo)"
  using assms
proof (induction todo arbitrary: pre s)
  case (Cons cur todo)
  then have "scan_inv ivs0 (pre @ [cur]) todo (scan_step t s cur)" by (intro step_inv) auto
  from Cons.IH[OF this] Cons.prems show ?case by simp
qed simp

lemma initial_mask: "mask_ok (initial_free t)"
proof -
  have "\<forall>r \<in> set (rt_caller t @ rt_callee t @ rt_fp_caller t @ rt_fp_callee t). r < lim"
    using small[of NY_REG_CLASS_GPR64] small[of NY_REG_CLASS_FP64] by (auto simp: family_def fp_class_def)
  then show ?thesis unfolding initial_free_def using free_all[OF empty_ok(1)] by blast
qed

lemma scan_result:
  assumes "\<forall>v < length ivs. \<not> li_spilled (ivs ! v)"
  shows "scan_inv ivs (scan_order ivs) [] (linear_scan t ivs)" "set (scan_order ivs) = {..<length ivs}"
proof -
  let ?s = "\<lparr>ss_ivs = ivs, ss_free = initial_free t, ss_active = [], ss_used = [0, 0], ss_spilled = 0\<rparr>"
  have "sorted (map (\<lambda>v. (li_start (ivs ! v), v)) (scan_order ivs))" unfolding scan_order_def by simp
  then have "sorted_wrt (\<lambda>u v. li_start (ivs ! u) \<le> li_start (ivs ! v)) (scan_order ivs)"
    unfolding sorted_map by (rule sorted_wrt_mono_rel[rotated]) auto
  then have so: "sorted (map (\<lambda>v. li_start (ivs ! v)) (scan_order ivs))" by (simp add: sorted_map)
  have "scan_inv ivs [] (scan_order ivs) ?s"
    by (simp add: scan_inv_def scan_frame_def scan_pairs_def scan_class_def scan_retired_def scan_regs_def initial_mask)
  from fold_inv[OF this so] assms show "scan_inv ivs (scan_order ivs) [] (linear_scan t ivs)"
    by (simp add: linear_scan_def scan_order_def)
  show "set (scan_order ivs) = {..<length ivs}" by (auto simp: scan_order_def)
qed

text \<open>The result: intervals that overlap have different registers, of the right family, preserved across calls.\<close>

lemma scan_safe:
  assumes n: "\<forall>v < length ivs. \<not> li_spilled (ivs ! v)" and res: "ss_ivs (linear_scan t ivs) = out"
  shows "map li_key out = map li_key ivs"
    and "\<forall>u < length ivs. \<forall>v < length ivs. u \<noteq> v \<longrightarrow> \<not> li_spilled (out ! u) \<longrightarrow> \<not> li_spilled (out ! v) \<longrightarrow> overlap ivs u v
      \<longrightarrow> li_phys (out ! u) \<noteq> li_phys (out ! v)"
    and "\<forall>v < length ivs. if li_spilled (out ! v) then li_phys (out ! v) = NO_REG
      else li_phys (out ! v) \<in> family t (li_class (ivs ! v)) \<and> (li_crosses (ivs ! v) \<longrightarrow> rt_callee_saved t (li_phys (out ! v)))"
proof -
  note r = scan_result[OF n]
  have fr: "scan_frame ivs (scan_order ivs) out" using r res by (simp add: scan_inv_def)
  then show "map li_key out = map li_key ivs" by (simp add: scan_frame_def)
  have key: "li_key (out ! v) = li_key (ivs ! v)" if "v < length ivs" for v by (rule frame_key[OF fr that])
  show "\<forall>u < length ivs. \<forall>v < length ivs. u \<noteq> v \<longrightarrow> \<not> li_spilled (out ! u) \<longrightarrow> \<not> li_spilled (out ! v) \<longrightarrow> overlap ivs u v
      \<longrightarrow> li_phys (out ! u) \<noteq> li_phys (out ! v)"
    using r res overlap_key[OF key key] by (auto simp: scan_inv_def scan_pairs_def)
  show "\<forall>v < length ivs. if li_spilled (out ! v) then li_phys (out ! v) = NO_REG
      else li_phys (out ! v) \<in> family t (li_class (ivs ! v)) \<and> (li_crosses (ivs ! v) \<longrightarrow> rt_callee_saved t (li_phys (out ! v)))"
    using r res key unfolding scan_inv_def scan_class_def by (metis (no_types, lifting) lessThan_iff li_key_eq)
qed

end


subsection \<open>The two targets\<close>

lemma mask_bit: "m AND 2 ^ r = 0 \<longleftrightarrow> \<not> bit m r" for m :: "'a :: len word"
  using bit_iff_and_push_bit_not_eq_0[of m r] by simp

interpretation a64_ra: register_file "aarch64_ra abi" "\<lambda>m. length m = 2" 64 for abi
proof unfold_locales
  show "\<forall>r \<in> family (aarch64_ra abi) c. r < 64" for c
    by (simp add: family_def aarch64_ra_def s_aapcs64_gpr_caller_saved_def s_aapcs64_gpr_callee_saved_def
        s_aapcs64_fp_caller_saved_def s_aapcs64_fp_callee_saved_def)
  show "\<forall>r \<in> set (rt_callee (aarch64_ra abi)) \<union> set (rt_fp_callee (aarch64_ra abi)). rt_callee_saved (aarch64_ra abi) r"
    by (simp add: aarch64_ra_def s_aapcs64_gpr_callee_saved_def s_aapcs64_fp_callee_saved_def aarch64_abi_is_callee_saved_def)
qed (auto simp: aarch64_ra_def aarch64_is_reg_available_def aarch64_free_reg_def aarch64_take_reg_def mask_bit bit_or_iff bit_and_iff
    bit_not_iff bit_exp_iff)

interpretation x86_ra: register_file "x86_ra abi" "\<lambda>_. True" 32 for abi
proof unfold_locales
  show "\<forall>r \<in> family (x86_ra abi) c. r < 32" for c
    by (simp add: family_def x86_ra_def s_sysv_gpr_caller_saved_def s_sysv_gpr_callee_saved_def s_win64_gpr_caller_saved_def
        s_win64_gpr_callee_saved_def s_fp_caller_saved_def)
  show "\<forall>r \<in> set (rt_callee (x86_ra abi)) \<union> set (rt_fp_callee (x86_ra abi)). rt_callee_saved (x86_ra abi) r"
    by (simp add: x86_ra_def s_sysv_gpr_callee_saved_def s_win64_gpr_callee_saved_def x86_abi_is_callee_saved_def)
qed (auto simp: x86_ra_def x86_is_reg_available_def x86_free_reg_def x86_take_reg_def mask_bit bit_or_iff bit_and_iff
    bit_not_iff bit_exp_iff)

text \<open>What an allocation must satisfy: \<open>out\<close> gives the intervals \<open>ivs\<close> their registers.\<close>

definition allocation_ok :: "'m ra_target \<Rightarrow> live_interval list \<Rightarrow> live_interval list \<Rightarrow> bool" where
  "allocation_ok t ivs out \<longleftrightarrow> map li_key out = map li_key ivs
     \<and> (\<forall>u < length ivs. \<forall>v < length ivs. u \<noteq> v \<longrightarrow> \<not> li_spilled (out ! u) \<longrightarrow> \<not> li_spilled (out ! v) \<longrightarrow> overlap ivs u v
          \<longrightarrow> li_phys (out ! u) \<noteq> li_phys (out ! v))
     \<and> (\<forall>v < length ivs. if li_spilled (out ! v) then li_phys (out ! v) = NO_REG
          else li_phys (out ! v) \<in> family t (li_class (ivs ! v)) \<and> (li_crosses (ivs ! v) \<longrightarrow> rt_callee_saved t (li_phys (out ! v))))"

lemma a64_scan_ok: "\<forall>v < length ivs. \<not> li_spilled (ivs ! v) \<Longrightarrow> allocation_ok (aarch64_ra abi) ivs (ss_ivs (linear_scan (aarch64_ra abi) ivs))"
  unfolding allocation_ok_def using a64_ra.scan_safe[OF _ refl] by blast

lemma x86_scan_ok: "\<forall>v < length ivs. \<not> li_spilled (ivs ! v) \<Longrightarrow> allocation_ok (x86_ra abi) ivs (ss_ivs (linear_scan (x86_ra abi) ivs))"
  unfolding allocation_ok_def using x86_ra.scan_safe[OF _ refl] by blast

text \<open>
  Linear scan on both targets: intervals that overlap get different registers unless one is spilled; every register is
  of the family of the interval's class (general registers without the stack, frame, link and, on x86-64, the two scratch
  registers), and an interval that crosses a call gets a callee-saved register or a spill. The end points are kept.
\<close>

theorem linear_scan_safe:
  assumes "\<forall>v < length ivs. \<not> li_spilled (ivs ! v)"
  shows "allocation_ok (aarch64_ra abi) ivs (ss_ivs (linear_scan (aarch64_ra abi) ivs))
    \<and> family (aarch64_ra abi) NY_REG_CLASS_GPR64 \<subseteq> {0..28}
    \<and> allocation_ok (x86_ra abi') ivs (ss_ivs (linear_scan (x86_ra abi') ivs))
    \<and> family (x86_ra abi') NY_REG_CLASS_GPR64 \<subseteq> {0..15} - {4, 5, 10, 11}"
proof (intro conjI)
  show "family (aarch64_ra abi) NY_REG_CLASS_GPR64 \<subseteq> {0..28}"
    by (simp add: family_def fp_class_def aarch64_ra_def s_aapcs64_gpr_caller_saved_def s_aapcs64_gpr_callee_saved_def)
  show "family (x86_ra abi') NY_REG_CLASS_GPR64 \<subseteq> {0..15} - {4, 5, 10, 11}"
    by (auto simp: family_def fp_class_def x86_ra_def s_sysv_gpr_caller_saved_def s_sysv_gpr_callee_saved_def
        s_win64_gpr_caller_saved_def s_win64_gpr_callee_saved_def)
qed (rule a64_scan_ok[OF assms] x86_scan_ok[OF assms])+

definition mk_interval :: "nat \<Rightarrow> nat \<Rightarrow> nat \<Rightarrow> ny_reg_class \<Rightarrow> bool \<Rightarrow> live_interval" where
  "mk_interval v a b c x = \<lparr>li_vreg = v, li_start = a, li_end = b, li_class = c, li_spilled = False, li_crosses = x, li_phys = NO_REG, li_slot = 0\<rparr>"

lemma linear_scan_safe_witness:
  "allocation_ok (x86_ra NY_ABI_WINDOWS_X64) [mk_interval 0 0 4 NY_REG_CLASS_GPR64 True, mk_interval 1 2 6 NY_REG_CLASS_GPR64 False]
     (ss_ivs (linear_scan (x86_ra NY_ABI_WINDOWS_X64) [mk_interval 0 0 4 NY_REG_CLASS_GPR64 True, mk_interval 1 2 6 NY_REG_CLASS_GPR64 False]))"
  by (rule linear_scan_safe[THEN conjunct2, THEN conjunct2, THEN conjunct1]) (simp add: mk_interval_def less_Suc_eq)

end
