(* ===== verification/Reg_Alloc.thy ===== *)
theory Reg_Alloc
  imports Linear_Scan_Safe Liveness
begin

unbundle bit_operations_syntax

text \<open>
  The register allocators around the scan (\<^verbatim>\<open>aarch64_regalloc_run_impl\<close> and \<^verbatim>\<open>x86_regalloc_run_impl\<close>): instructions are
  numbered along the blocks, liveness of the virtual registers gives each an interval, the scan assigns registers or
  spills, and the instructions are rewritten with loads and stores around the spilled ones.
\<close>

subsection \<open>Numbering and local sets\<close>

abbreviation (input) "UINT32_MAX \<equiv> 4294967295 :: nat"

definition ra_init_interval :: "ny_machine_function \<Rightarrow> nat \<Rightarrow> live_interval" where
  "ra_init_interval fn v = \<lparr>li_vreg = v, li_start = UINT32_MAX, li_end = 0, li_class = mf_vreg_classes fn ! v, li_spilled = False,
     li_crosses = False, li_phys = NO_REG, li_slot = NY_INVALID_SLOT\<rparr>"

partial_function (option) ra_count :: "ny_machine_function \<Rightarrow> nat \<Rightarrow> nat \<Rightarrow> nat option" where
  "ra_count fn cur idx = (if cur = NY_INVALID_INST then Some idx
     else do { inst \<leftarrow> rd (mf_insts fn) cur; ra_count fn (mi_next inst) (idx + 1) })"

text \<open>The first and last instruction numbers of every block.\<close>

definition ra_block_ranges :: "ny_machine_function \<Rightarrow> ((nat list \<times> nat list) \<times> nat) option" where
  "ra_block_ranges fn = foldM (\<lambda>((starts, ends), idx) b. do {
       idx' \<leftarrow> ra_count fn (mb_first (mf_blocks fn ! b)) idx;
       Some ((starts @ [idx], ends @ [if idx' > 0 then idx' - 1 else 0]), idx')
     }) (([], []), 0) [0..<length (mf_blocks fn)]"

record ra_local =
  rl_ivs :: "live_interval list"
  rl_gen :: "64 word list"
  rl_kill :: "64 word list"
  rl_calls :: "nat list"
  rl_idx :: nat

definition ra_touch :: "live_interval list \<Rightarrow> nat \<Rightarrow> nat \<Rightarrow> live_interval list" where
  "ra_touch ivs v idx = ivs[v := (ivs ! v)\<lparr>
     li_start := (if li_start (ivs ! v) > idx then idx else li_start (ivs ! v)),
     li_end := (if li_end (ivs ! v) < idx then idx else li_end (ivs ! v))\<rparr>]"

definition ra_use :: "nat \<Rightarrow> nat \<Rightarrow> ra_local \<Rightarrow> nat \<Rightarrow> ra_local option" where
  "ra_use words b s v = (if v < length (rl_ivs s) then do {
       killed \<leftarrow> lv_test (rl_kill s) words b v;
       gen \<leftarrow> (if \<not> killed then lv_set (rl_gen s) words b v else Some (rl_gen s));
       Some (s\<lparr>rl_gen := gen, rl_ivs := ra_touch (rl_ivs s) v (rl_idx s)\<rparr>)
     }
     else Some s)"

definition ra_use_operand :: "nat \<Rightarrow> nat \<Rightarrow> ra_local \<Rightarrow> ny_machine_operand \<Rightarrow> ra_local option" where
  "ra_use_operand words b s op = (case mo_value op of
       MopReg r \<Rightarrow> if mr_is_virtual r then ra_use words b s (mr_id r) else Some s
     | MopMem m \<Rightarrow> do {
         s \<leftarrow> (if ny_mreg_is_valid (mm_base m) \<and> mr_is_virtual (mm_base m) then ra_use words b s (mr_id (mm_base m)) else Some s);
         if ny_mreg_is_valid (mm_index m) \<and> mr_is_virtual (mm_index m) then ra_use words b s (mr_id (mm_index m)) else Some s
       }
     | _ \<Rightarrow> Some s)"

definition ra_def :: "nat \<Rightarrow> nat \<Rightarrow> ra_local \<Rightarrow> ny_machine_reg \<Rightarrow> ra_local option" where
  "ra_def words b s r = (if ny_mreg_is_valid r \<and> mr_is_virtual r \<and> mr_id r < length (rl_ivs s) then do {
       kill \<leftarrow> lv_set (rl_kill s) words b (mr_id r);
       Some (s\<lparr>rl_kill := kill, rl_ivs := ra_touch (rl_ivs s) (mr_id r) (rl_idx s)\<rparr>)
     }
     else Some s)"

definition ra_inst :: "ny_machine_function \<Rightarrow> nat \<Rightarrow> nat \<Rightarrow> ra_local \<Rightarrow> ny_machine_instruction \<Rightarrow> ra_local option" where
  "ra_inst fn words b s inst = do {
     let s = (if mi_opcode inst = NY_MOPC_CALL then s\<lparr>rl_calls := rl_calls s @ [rl_idx s]\<rparr> else s);
     s \<leftarrow> foldM (\<lambda>s k. do { op \<leftarrow> mfunc_op fn inst k; ra_use_operand words b s op }) s [0..<mi_op_count inst];
     s \<leftarrow> ra_def words b s (mi_def inst);
     Some (s\<lparr>rl_idx := rl_idx s + 1\<rparr>)
   }"

partial_function (option) ra_scan_block :: "ny_machine_function \<Rightarrow> nat \<Rightarrow> nat \<Rightarrow> nat \<Rightarrow> ra_local \<Rightarrow> ra_local option" where
  "ra_scan_block fn words b cur s = (if cur = NY_INVALID_INST then Some s
     else do { inst \<leftarrow> rd (mf_insts fn) cur; s \<leftarrow> ra_inst fn words b s inst; ra_scan_block fn words b (mi_next inst) s })"

definition ra_scan_params :: "ny_machine_function \<Rightarrow> live_interval list \<Rightarrow> live_interval list" where
  "ra_scan_params fn ivs = foldl (\<lambda>ivs (r, _). if mr_is_virtual r \<and> mr_id r < length ivs
     then ivs[mr_id r := (ivs ! mr_id r)\<lparr>li_start := 0\<rparr>] else ivs) ivs (mf_params fn)"

subsection \<open>Liveness and intervals\<close>

definition ra_flow_block :: "ny_machine_function \<Rightarrow> nat \<Rightarrow> 64 word list \<Rightarrow> 64 word list \<Rightarrow> 64 word list \<times> 64 word list \<times> bool \<Rightarrow> nat
    \<Rightarrow> (64 word list \<times> 64 word list \<times> bool) option" where
  "ra_flow_block fn words gen kill = (\<lambda>(live_in, live_out, changed) b. do {
     live_out \<leftarrow> foldM (\<lambda>live_out succ.
         if succ < length (mf_blocks fn) then foldM (\<lambda>live_out w. do {
             x \<leftarrow> rd live_in (succ * words + w);
             y \<leftarrow> rd live_out (b * words + w);
             wr live_out (b * words + w) (y OR x)
           }) live_out [0..<words]
         else Some live_out) live_out (mb_succs (mf_blocks fn ! b));
     (live_in, changed) \<leftarrow> foldM (\<lambda>(live_in, changed) w. do {
         old_in \<leftarrow> rd live_in (b * words + w);
         g \<leftarrow> rd gen (b * words + w);
         x \<leftarrow> rd live_out (b * words + w);
         k \<leftarrow> rd kill (b * words + w);
         let new_in = g OR x AND NOT k;
         if new_in \<noteq> old_in then do { live_in \<leftarrow> wr live_in (b * words + w) new_in; Some (live_in, True) }
         else Some (live_in, changed)
       }) (live_in, changed) [0..<words];
     Some (live_in, live_out, changed)
   })"

partial_function (option) ra_solve :: "ny_machine_function \<Rightarrow> nat \<Rightarrow> 64 word list \<Rightarrow> 64 word list \<Rightarrow> 64 word list \<Rightarrow> 64 word list
    \<Rightarrow> (64 word list \<times> 64 word list) option" where
  "ra_solve fn words gen kill live_in live_out = do {
     (live_in, live_out, changed) \<leftarrow> foldM (ra_flow_block fn words gen kill) (live_in, live_out, False) (rev [0..<length (mf_blocks fn)]);
     if changed then ra_solve fn words gen kill live_in live_out else Some (live_in, live_out)
   }"

definition ra_extend :: "nat \<Rightarrow> 64 word list \<Rightarrow> 64 word list \<Rightarrow> nat list \<Rightarrow> nat list \<Rightarrow> live_interval list \<Rightarrow> nat \<times> nat \<Rightarrow> live_interval list option" where
  "ra_extend words live_in live_out starts ends ivs = (\<lambda>(b, v). do {
     i \<leftarrow> lv_test live_in words b v;
     let ivs = (if i then ra_touch ivs v (starts ! b) else ivs);
     j \<leftarrow> lv_test live_out words b v;
     Some (if j \<and> li_end (ivs ! v) < ends ! b then ivs[v := (ivs ! v)\<lparr>li_end := ends ! b\<rparr>] else ivs)
   })"

definition ra_mark_calls :: "nat list \<Rightarrow> live_interval list \<Rightarrow> live_interval list" where
  "ra_mark_calls calls ivs = foldl (\<lambda>ivs c. map (\<lambda>i. if li_start i < c \<and> li_end i > c then i\<lparr>li_crosses := True\<rparr> else i) ivs) ivs calls"

definition ra_unused :: "live_interval \<Rightarrow> live_interval" where
  "ra_unused i = (if li_start i = UINT32_MAX then i\<lparr>li_start := 0, li_end := 0\<rparr> else i)"

definition ra_intervals :: "ny_machine_function \<Rightarrow> live_interval list option" where
  "ra_intervals fn = do {
     let v_count = length (mf_vreg_classes fn);
     let b_count = length (mf_blocks fn);
     let ivs = map (ra_init_interval fn) [0..<v_count];
     ((starts, ends), _) \<leftarrow> ra_block_ranges fn;
     let words = (if (v_count + 63) div 64 = 0 then 1 else (v_count + 63) div 64);
     let zero = replicate (b_count * words) 0;
     s \<leftarrow> foldM (\<lambda>s b. ra_scan_block fn words b (mb_first (mf_blocks fn ! b)) s)
       \<lparr>rl_ivs = ivs, rl_gen = zero, rl_kill = zero, rl_calls = [], rl_idx = 0\<rparr> [0..<b_count];
     let ivs = ra_scan_params fn (rl_ivs s);
     (live_in, live_out) \<leftarrow> ra_solve fn words (rl_gen s) (rl_kill s) zero zero;
     ivs \<leftarrow> foldM (ra_extend words live_in live_out starts ends) ivs (List.product [0..<b_count] [0..<v_count]);
     Some (map ra_unused (ra_mark_calls (rl_calls s) ivs))
   }"

subsection \<open>Spill slots and rewriting\<close>

definition ra_slot :: "ny_machine_function \<times> live_interval list \<Rightarrow> nat \<Rightarrow> ny_machine_function \<times> live_interval list" where
  "ra_slot = (\<lambda>(fn, ivs) v. if li_spilled (ivs ! v) then
       (let sz = (if li_class (ivs ! v) = NY_REG_CLASS_GPR32 \<or> li_class (ivs ! v) = NY_REG_CLASS_FP32 then 4 else 8);
            (fn, slot) = ny_mfunc_create_stack_slot fn sz sz
        in (fn, ivs[v := (ivs ! v)\<lparr>li_slot := slot\<rparr>]))
     else (fn, ivs))"

definition zero_mem :: ny_machine_mem_op where
  "zero_mem = \<lparr>mm_base = zero_mreg, mm_index = zero_mreg, mm_scale = 0, mm_disp = 0, mm_stack_slot = 0, mm_symbol = 0, mm_symbol_name = []\<rparr>"

definition slot_op :: "nat \<Rightarrow> ny_machine_operand" where
  "slot_op slot = \<lparr>mo_type = 0, mo_value = MopMem (zero_mem\<lparr>mm_stack_slot := slot\<rparr>)\<rparr>"

definition nth_scratch :: "nat list \<Rightarrow> nat \<Rightarrow> nat" where
  "nth_scratch rs k = rs ! min k (length rs - 1)"

definition set_mop :: "ny_machine_function \<Rightarrow> nat \<Rightarrow> nat \<Rightarrow> ny_machine_op_value \<Rightarrow> ny_machine_function option" where
  "set_mop fn cur k x = do {
     inst \<leftarrow> rd (mf_insts fn) cur;
     op \<leftarrow> rd (mf_operands fn) (mi_op_start inst + k);
     Some (fn\<lparr>mf_operands := (mf_operands fn)[mi_op_start inst + k := op\<lparr>mo_value := x\<rparr>]\<rparr>)
   }"

definition assigned :: "live_interval \<Rightarrow> ny_machine_reg" where
  "assigned i = ny_mreg_preg (li_phys i) (li_class i)"

text \<open>A reload of a spilled interval into a scratch register before the instruction.\<close>

definition ra_reload :: "ny_machine_function \<Rightarrow> nat \<Rightarrow> live_interval \<Rightarrow> nat \<Rightarrow> (ny_machine_function \<times> ny_machine_reg) option" where
  "ra_reload fn cur i p = do {
     let scratch = ny_mreg_preg p (li_class i);
     (fn, _) \<leftarrow> ny_mfunc_insert_before fn cur NY_MOPC_LOAD scratch [slot_op (li_slot i)] 0;
     Some (fn, scratch)
   }"

definition ra_rewrite_reg :: "'m ra_target \<Rightarrow> live_interval list \<Rightarrow> nat \<Rightarrow> ny_machine_function \<times> nat \<times> nat \<Rightarrow> nat \<Rightarrow> ny_machine_reg
    \<Rightarrow> (ny_machine_function \<times> nat \<times> nat) option" where
  "ra_rewrite_reg t ivs cur = (\<lambda>(fn, fp_idx, gpr_idx) k r. do {
     i \<leftarrow> rd ivs (mr_id r);
     if li_spilled i then do {
       let is_fp = fp_class (li_class i);
       (fn, scratch) \<leftarrow> ra_reload fn cur i (if is_fp then nth_scratch (rt_fp_scratch t) fp_idx else nth_scratch (rt_gpr_scratch t) gpr_idx);
       fn \<leftarrow> set_mop fn cur k (MopReg scratch);
       Some (fn, if is_fp then fp_idx + 1 else fp_idx, if is_fp then gpr_idx else gpr_idx + 1)
     }
     else do { fn \<leftarrow> set_mop fn cur k (MopReg (assigned i)); Some (fn, fp_idx, gpr_idx) }
   })"

definition ra_mem_reg :: "live_interval list \<Rightarrow> nat \<Rightarrow> nat \<Rightarrow> ny_machine_function \<Rightarrow> ny_machine_reg \<Rightarrow> (ny_machine_function \<times> ny_machine_reg) option" where
  "ra_mem_reg ivs cur p fn r = do {
     i \<leftarrow> rd ivs (mr_id r);
     if li_spilled i then ra_reload fn cur i p else Some (fn, assigned i)
   }"

definition ra_rewrite_mem :: "'m ra_target \<Rightarrow> live_interval list \<Rightarrow> nat \<Rightarrow> ny_machine_function \<Rightarrow> nat \<Rightarrow> ny_machine_mem_op \<Rightarrow> ny_machine_function option" where
  "ra_rewrite_mem t ivs cur fn k m = do {
     (fn, m) \<leftarrow> (if ny_mreg_is_valid (mm_base m) \<and> mr_is_virtual (mm_base m)
        then do { (fn, r) \<leftarrow> ra_mem_reg ivs cur (nth_scratch (rt_gpr_scratch t) 0) fn (mm_base m); Some (fn, m\<lparr>mm_base := r\<rparr>) } else Some (fn, m));
     fn \<leftarrow> set_mop fn cur k (MopMem m);
     (case rt_index_scratch t of
        None \<Rightarrow> Some fn
      | Some p \<Rightarrow> if ny_mreg_is_valid (mm_index m) \<and> mr_is_virtual (mm_index m)
          then do { (fn, r) \<leftarrow> ra_mem_reg ivs cur p fn (mm_index m); set_mop fn cur k (MopMem (m\<lparr>mm_index := r\<rparr>)) } else Some fn)
   }"

definition ra_rewrite_operand :: "'m ra_target \<Rightarrow> live_interval list \<Rightarrow> nat \<Rightarrow> ny_machine_function \<times> nat \<times> nat \<Rightarrow> nat
    \<Rightarrow> (ny_machine_function \<times> nat \<times> nat) option" where
  "ra_rewrite_operand t ivs cur = (\<lambda>(fn, fp_idx, gpr_idx) k. do {
     inst \<leftarrow> rd (mf_insts fn) cur;
     op \<leftarrow> mfunc_op fn inst k;
     (case mo_value op of
        MopReg r \<Rightarrow> if mr_is_virtual r then ra_rewrite_reg t ivs cur (fn, fp_idx, gpr_idx) k r else Some (fn, fp_idx, gpr_idx)
      | MopMem m \<Rightarrow> do { fn \<leftarrow> ra_rewrite_mem t ivs cur fn k m; Some (fn, fp_idx, gpr_idx) }
      | _ \<Rightarrow> Some (fn, fp_idx, gpr_idx))
   })"

definition ra_rewrite_def :: "'m ra_target \<Rightarrow> live_interval list \<Rightarrow> nat \<Rightarrow> ny_machine_function \<Rightarrow> ny_machine_function option" where
  "ra_rewrite_def t ivs cur fn = do {
     inst \<leftarrow> rd (mf_insts fn) cur;
     let r = mi_def inst;
     if ny_mreg_is_valid r \<and> mr_is_virtual r then do {
       i \<leftarrow> rd ivs (mr_id r);
       if li_spilled i then do {
         let scratch = ny_mreg_preg (nth_scratch (if fp_class (li_class i) then rt_fp_scratch t else rt_gpr_scratch t) 0) (li_class i);
         fn \<leftarrow> upd_minst fn cur (\<lambda>x. x\<lparr>mi_def := scratch\<rparr>);
         (fn, _) \<leftarrow> ny_mfunc_insert_after fn cur NY_MOPC_STORE zero_mreg [slot_op (li_slot i), ny_mop_reg scratch] 0;
         Some fn
       }
       else upd_minst fn cur (\<lambda>x. x\<lparr>mi_def := assigned i\<rparr>)
     }
     else Some fn
   }"

definition ra_rewrite_inst :: "'m ra_target \<Rightarrow> live_interval list \<Rightarrow> ny_machine_function \<Rightarrow> nat \<Rightarrow> ny_machine_function option" where
  "ra_rewrite_inst t ivs fn cur = do {
     inst \<leftarrow> rd (mf_insts fn) cur;
     (fn, _) \<leftarrow> foldM (ra_rewrite_operand t ivs cur) (fn, 0, 0) [0..<mi_op_count inst];
     ra_rewrite_def t ivs cur fn
   }"

partial_function (option) ra_rewrite_block :: "'m ra_target \<Rightarrow> live_interval list \<Rightarrow> ny_machine_function \<Rightarrow> nat \<Rightarrow> ny_machine_function option" where
  "ra_rewrite_block t ivs fn cur = (if cur = NY_INVALID_INST then Some fn
     else do { inst \<leftarrow> rd (mf_insts fn) cur; fn \<leftarrow> ra_rewrite_inst t ivs fn cur; ra_rewrite_block t ivs fn (mi_next inst) })"

definition ra_rewrite_param :: "'m ra_target \<Rightarrow> live_interval list \<Rightarrow> ny_machine_reg \<times> nat \<times> nat \<Rightarrow> (ny_machine_reg \<times> nat \<times> nat) option" where
  "ra_rewrite_param t ivs = (\<lambda>(r, ty, slot).
     if mr_is_virtual r then do {
       i \<leftarrow> rd ivs (mr_id r);
       Some (if li_spilled i
         then ny_mreg_preg (nth_scratch (if fp_class (li_class i) then rt_fp_scratch t else rt_gpr_scratch t) 0) (li_class i)
         else assigned i, ty, slot)
     }
     else Some (r, ty, slot))"

definition ra_rewrite :: "'m ra_target \<Rightarrow> live_interval list \<Rightarrow> ny_machine_function \<Rightarrow> ny_machine_function option" where
  "ra_rewrite t ivs fn = do {
     let (fn, ivs) = foldl ra_slot (fn, ivs) [0..<length ivs];
     fn \<leftarrow> foldM (\<lambda>fn b. do { blk \<leftarrow> rd (mf_blocks fn) b; ra_rewrite_block t ivs fn (mb_first blk) }) fn [0..<length (mf_blocks fn)];
     params \<leftarrow> foldM (\<lambda>ps p. do { p \<leftarrow> ra_rewrite_param t ivs p; Some (ps @ [p]) }) [] (mf_params fn);
     Some (fn\<lparr>mf_params := params\<rparr>)
   }"

record ra_result =
  rr_used_callee_saved_mask :: "64 word"
  rr_spilled_count :: nat

definition ra_run :: "'m ra_target \<Rightarrow> ny_machine_function \<Rightarrow> (ny_machine_function \<times> ra_result) option" where
  "ra_run t fn =
     (if mf_vreg_classes fn = [] then Some (fn, \<lparr>rr_used_callee_saved_mask = 0, rr_spilled_count = 0\<rparr>)
      else do {
        ivs \<leftarrow> ra_intervals fn;
        let s = linear_scan t ivs;
        fn \<leftarrow> ra_rewrite t (ss_ivs s) fn;
        Some (fn, \<lparr>rr_used_callee_saved_mask = ss_used s ! 0 OR push_bit 32 (ss_used s ! 1), rr_spilled_count = ss_spilled s\<rparr>)
      })"

definition aarch64_regalloc_run_impl :: "ny_machine_function \<Rightarrow> ny_target_abi \<Rightarrow> (ny_machine_function \<times> ra_result) option" where
  "aarch64_regalloc_run_impl fn abi = ra_run (aarch64_ra abi) fn"

definition x86_regalloc_run_impl :: "ny_machine_function \<Rightarrow> ny_target_abi \<Rightarrow> (ny_machine_function \<times> ra_result) option" where
  "x86_regalloc_run_impl fn abi = ra_run (x86_ra abi) fn"

definition ny_regalloc_run :: "ny_machine_function \<Rightarrow> ny_target_abi \<Rightarrow> (ny_machine_function \<times> ra_result) option" where
  "ny_regalloc_run fn abi = (if abi = NY_ABI_AAPCS64 then aarch64_regalloc_run_impl fn abi else x86_regalloc_run_impl fn abi)"

end
