(* ===== verification/Reg_Alloc_Live.thy ===== *)
theory Reg_Alloc_Live
  imports Reg_Alloc
begin

unbundle bit_operations_syntax

text \<open>
  The intervals of the register allocators against liveness of virtual registers: a register live around an instruction has
  an interval that contains the number of that instruction, so the scan keeps simultaneously live registers apart.
\<close>

subsection \<open>Uses, definitions and liveness of virtual registers\<close>

definition mops :: "ny_machine_function \<Rightarrow> nat \<Rightarrow> ny_machine_operand list" where
  "mops fn i = subarray (mi_op_start (mf_insts fn ! i)) (mi_op_count (mf_insts fn ! i)) (mf_operands fn)"

definition mops_wf :: "ny_machine_function \<Rightarrow> nat list list \<Rightarrow> bool" where
  "mops_wf fn L \<longleftrightarrow> (\<forall>xs \<in> set L. \<forall>i \<in> set xs. mi_op_start (mf_insts fn ! i) + mi_op_count (mf_insts fn ! i) \<le> length (mf_operands fn))"

definition mem_vregs :: "ny_machine_reg \<Rightarrow> nat list" where
  "mem_vregs r = (if ny_mreg_is_valid r \<and> mr_is_virtual r then [mr_id r] else [])"

definition op_vregs :: "ny_machine_operand \<Rightarrow> nat list" where
  "op_vregs op = (case mo_value op of MopReg r \<Rightarrow> if mr_is_virtual r then [mr_id r] else []
     | MopMem m \<Rightarrow> mem_vregs (mm_base m) @ mem_vregs (mm_index m) | _ \<Rightarrow> [])"

definition vreg_uses :: "ny_machine_function \<Rightarrow> nat \<Rightarrow> nat set" where
  "vreg_uses fn i = {v. v < length (mf_vreg_classes fn) \<and> v \<in> set (concat (map op_vregs (mops fn i)))}"

definition vreg_defs :: "ny_machine_function \<Rightarrow> nat \<Rightarrow> nat set" where
  "vreg_defs fn i = {v. v < length (mf_vreg_classes fn) \<and> v \<in> set (mem_vregs (mi_def (mf_insts fn ! i)))}"

text \<open>\<open>vreg_live fn L b k v\<close>: at the point before the instruction at position \<open>k\<close> of block \<open>b\<close> (at its end when \<open>k\<close> is its
  length) some path reaches a use of \<open>v\<close> before any definition of it.\<close>

inductive vreg_live :: "ny_machine_function \<Rightarrow> nat list list \<Rightarrow> nat \<Rightarrow> nat \<Rightarrow> nat \<Rightarrow> bool" for fn L where
  use: "k < length (L ! b) \<Longrightarrow> v \<in> vreg_uses fn (L ! b ! k) \<Longrightarrow> vreg_live fn L b k v"
| pass: "k < length (L ! b) \<Longrightarrow> vreg_live fn L b (Suc k) v \<Longrightarrow> v \<notin> vreg_defs fn (L ! b ! k) \<Longrightarrow> vreg_live fn L b k v"
| edge: "s \<in> set (mb_succs (mf_blocks fn ! b)) \<Longrightarrow> s < length (mf_blocks fn) \<Longrightarrow> vreg_live fn L s 0 v \<Longrightarrow> vreg_live fn L b (length (L ! b)) v"

fun vreg_upward :: "ny_machine_function \<Rightarrow> nat list \<Rightarrow> nat set" where
  "vreg_upward fn [] = {}"
| "vreg_upward fn (i # is) = vreg_uses fn i \<union> (vreg_upward fn is - vreg_defs fn i)"

definition vreg_kills :: "ny_machine_function \<Rightarrow> nat list \<Rightarrow> nat set" where
  "vreg_kills fn is = (\<Union>i \<in> set is. vreg_defs fn i)"

text \<open>The number of the first instruction of a block.\<close>

definition bstart :: "nat list list \<Rightarrow> nat \<Rightarrow> nat" where
  "bstart L b = sum_list (map length (take b L))"

lemma bstart_0 [simp]: "bstart L 0 = 0"
  by (simp add: bstart_def)

lemma bstart_Suc: "b < length L \<Longrightarrow> bstart L (Suc b) = bstart L b + length (L ! b)"
  by (simp add: bstart_def take_Suc_conv_app_nth)

subsection \<open>Growing intervals\<close>

definition covers :: "live_interval list \<Rightarrow> nat \<Rightarrow> nat \<Rightarrow> bool" where
  "covers ivs v p \<longleftrightarrow> li_start (ivs ! v) \<le> p \<and> p \<le> li_end (ivs ! v)"

definition wider :: "live_interval list \<Rightarrow> live_interval list \<Rightarrow> bool" where
  "wider ivs ivs' \<longleftrightarrow> length ivs' = length ivs \<and> (\<forall>v < length ivs. li_start (ivs' ! v) \<le> li_start (ivs ! v)
     \<and> li_end (ivs ! v) \<le> li_end (ivs' ! v) \<and> li_class (ivs' ! v) = li_class (ivs ! v) \<and> li_spilled (ivs' ! v) = li_spilled (ivs ! v)
     \<and> li_crosses (ivs' ! v) = li_crosses (ivs ! v))"

lemma wider_refl [simp]: "wider ivs ivs"
  by (simp add: wider_def)

lemma wider_trans: "wider a b \<Longrightarrow> wider b c \<Longrightarrow> wider a c"
  unfolding wider_def by (metis (no_types, opaque_lifting) order_trans)

lemma wider_length: "wider a b \<Longrightarrow> length b = length a"
  by (simp add: wider_def)

lemma wider_covers: "wider a b \<Longrightarrow> v < length a \<Longrightarrow> covers a v p \<Longrightarrow> covers b v p"
  unfolding wider_def covers_def by (metis order_trans)

lemma wider_end: "wider a b \<Longrightarrow> v < length a \<Longrightarrow> e \<le> li_end (a ! v) \<Longrightarrow> e \<le> li_end (b ! v)"
  unfolding wider_def by (metis order_trans)

lemma wider_keeps: "wider a b \<Longrightarrow> v < length a \<Longrightarrow> li_class (b ! v) = li_class (a ! v) \<and> li_spilled (b ! v) = li_spilled (a ! v)"
  by (simp add: wider_def)

lemma touch_wider: "v < length ivs \<Longrightarrow> wider ivs (ra_touch ivs v p) \<and> covers (ra_touch ivs v p) v p"
  by (auto simp: wider_def ra_touch_def covers_def nth_upd)

subsection \<open>The local scan\<close>

text \<open>The state of the scan against the sets it represents.\<close>

definition local_st :: "nat \<Rightarrow> nat \<Rightarrow> (nat \<Rightarrow> nat set) \<Rightarrow> (nat \<Rightarrow> nat set) \<Rightarrow> ra_local \<Rightarrow> bool" where
  "local_st words B G K s \<longleftrightarrow> rows_are words B G (rl_gen s) \<and> rows_are words B K (rl_kill s) \<and> length (rl_ivs s) \<le> 64 * words"

definition local_step :: "nat set \<Rightarrow> ra_local \<Rightarrow> ra_local \<Rightarrow> bool" where
  "local_step V s s' \<longleftrightarrow> wider (rl_ivs s) (rl_ivs s') \<and> (\<forall>v \<in> V. v < length (rl_ivs s) \<longrightarrow> covers (rl_ivs s') v (rl_idx s))
     \<and> rl_idx s' = rl_idx s \<and> rl_calls s' = rl_calls s"

lemma local_step_trans: "local_step V s t \<Longrightarrow> local_step W t u \<Longrightarrow> local_step (V \<union> W) s u"
  using wider_trans wider_covers unfolding local_step_def by (metis Un_iff wider_length)

lemma ra_use_spec:
  assumes st: "local_st words B G K s" and b: "b < B"
  shows "\<exists>s'. ra_use words b s v = Some s' \<and> local_step {v} s s'
    \<and> local_st words B (G(b := G b \<union> ({u \<in> {v}. u < length (rl_ivs s)} - K b))) K s'"
proof (cases "v < length (rl_ivs s)")
  case True
  have rows: "rows_are words B G (rl_gen s)" "rows_are words B K (rl_kill s)" "v < 64 * words" using st True by (auto simp: local_st_def)
  have t: "lv_test (rl_kill s) words b v = Some (v \<in> K b)" by (rule rows_test[OF rows(2) b rows(3)])
  obtain gen where g: "lv_set (rl_gen s) words b v = Some gen" "rows_are words B (G(b := insert v (G b))) gen"
    using rows_set[OF rows(1) b rows(3)] by blast
  let ?gen = "if v \<in> K b then rl_gen s else gen"
  have r: "ra_use words b s v = Some (s\<lparr>rl_gen := ?gen, rl_ivs := ra_touch (rl_ivs s) v (rl_idx s)\<rparr>)"
    using True t g(1) by (simp add: ra_use_def)
  have "rows_are words B (G(b := G b \<union> ({u \<in> {v}. u < length (rl_ivs s)} - K b))) ?gen"
  proof (cases "v \<in> K b")
    case False
    then have "G b \<union> ({u \<in> {v}. u < length (rl_ivs s)} - K b) = insert v (G b)" using True by auto
    then show ?thesis using g(2) False by simp
  next
    case k: True
    then have e: "{u \<in> {v}. u < length (rl_ivs s)} - K b = {}" by auto
    show ?thesis unfolding e Un_empty_right fun_upd_triv using rows(1) k by simp
  qed
  moreover have "local_step {v} s (s\<lparr>rl_gen := ?gen, rl_ivs := ra_touch (rl_ivs s) v (rl_idx s)\<rparr>)"
    using touch_wider[OF True, of "rl_idx s"] by (simp add: local_step_def)
  ultimately show ?thesis using r st wider_length[OF touch_wider[OF True, THEN conjunct1], of "rl_idx s"]
    by (simp add: local_st_def)
next
  case False
  then have e: "{u \<in> {v}. u < length (rl_ivs s)} = {}" by auto
  show ?thesis unfolding e Diff_empty empty_Diff Un_empty_right fun_upd_triv using False st by (simp add: ra_use_def local_step_def)
qed

lemma ra_uses_spec:
  assumes st: "local_st words B G K s" and b: "b < B"
  shows "\<exists>s'. foldM (ra_use words b) s vs = Some s' \<and> local_step (set vs) s s'
    \<and> local_st words B (G(b := G b \<union> ({u \<in> set vs. u < length (rl_ivs s)} - K b))) K s'"
  using st
proof (induction vs arbitrary: s G)
  case Nil
  then show ?case by (simp add: local_step_def)
next
  case (Cons v vs)
  obtain t where t: "ra_use words b s v = Some t" "local_step {v} s t"
    "local_st words B (G(b := G b \<union> ({u \<in> {v}. u < length (rl_ivs s)} - K b))) K t" using ra_use_spec[OF Cons.prems b] by blast
  obtain u where u: "foldM (ra_use words b) t vs = Some u" "local_step (set vs) t u"
    "local_st words B (G(b := (G b \<union> ({u \<in> {v}. u < length (rl_ivs s)} - K b)) \<union> ({u \<in> set vs. u < length (rl_ivs t)} - K b))) K u"
    using Cons.IH[OF t(3)] unfolding fun_upd_upd fun_upd_same by blast
  have "length (rl_ivs t) = length (rl_ivs s)" using t(2) by (auto simp: local_step_def dest: wider_length)
  then have e: "(G b \<union> ({u \<in> {v}. u < length (rl_ivs s)} - K b)) \<union> ({u \<in> set vs. u < length (rl_ivs t)} - K b)
     = G b \<union> ({u \<in> set (v # vs). u < length (rl_ivs s)} - K b)" by auto
  have "local_step (set (v # vs)) s u" using local_step_trans[OF t(2) u(2)] by simp
  moreover have "foldM (ra_use words b) s (v # vs) = Some u" using t(1) u(1) by simp
  ultimately show ?case using u(3)[unfolded e] by blast
qed

lemma ra_use_operand_uses: "ra_use_operand words b s op = foldM (ra_use words b) s (op_vregs op)"
  by (auto simp: ra_use_operand_def op_vregs_def mem_vregs_def split: ny_machine_op_value.split)

lemma foldM_upt_map:
  assumes "\<And>s k. k < n \<Longrightarrow> f s k = g s (xs ! k)" "length xs = n"
  shows "foldM f s [0..<n] = foldM g s xs"
proof -
  have "foldM f s [0..<n] = foldM (\<lambda>s k. g s (xs ! k)) s [0..<n]"
    by (rule foldM_cong) (use assms(1) in auto)
  also have "\<dots> = foldM g s (map ((!) xs) [0..<n])"
    by (induction "[0..<n]" arbitrary: s rule: list.induct) (simp_all add: foldM_map)
  finally show ?thesis using assms(2) map_nth[of xs] by simp
qed


lemma ra_inst_spec:
  assumes st: "local_st words B G K s" and b: "b < B" and n: "length (rl_ivs s) = length (mf_vreg_classes fn)"
    and i: "mi_op_start (mf_insts fn ! i) + mi_op_count (mf_insts fn ! i) \<le> length (mf_operands fn)"
  shows "\<exists>s'. ra_inst fn words b s (mf_insts fn ! i) = Some s' \<and> wider (rl_ivs s) (rl_ivs s')
    \<and> (\<forall>v \<in> vreg_uses fn i \<union> vreg_defs fn i. covers (rl_ivs s') v (rl_idx s)) \<and> rl_idx s' = Suc (rl_idx s)
    \<and> rl_calls s' = rl_calls s @ (if mi_opcode (mf_insts fn ! i) = NY_MOPC_CALL then [rl_idx s] else [])
    \<and> local_st words B (G(b := G b \<union> (vreg_uses fn i - K b))) (K(b := K b \<union> vreg_defs fn i)) s'"
proof -
  let ?inst = "mf_insts fn ! i" and ?n = "length (mf_vreg_classes fn)"
  let ?s = "if mi_opcode ?inst = NY_MOPC_CALL then s\<lparr>rl_calls := rl_calls s @ [rl_idx s]\<rparr> else s"
  have ops: "length (mops fn i) = mi_op_count ?inst" using i by (simp add: mops_def length_subarray)
  have "foldM (\<lambda>s k. do { op \<leftarrow> mfunc_op fn ?inst k; ra_use_operand words b s op }) ?s [0..<mi_op_count ?inst]
    = foldM (ra_use_operand words b) ?s (mops fn i)"
    by (rule foldM_upt_map[OF _ ops]) (use i in \<open>auto simp: mfunc_op_def mops_def nth_subarray\<close>)
  also have "\<dots> = foldM (ra_use words b) ?s (concat (map op_vregs (mops fn i)))"
    unfolding foldM_concat foldM_map by (rule foldM_cong) (simp add: ra_use_operand_uses)
  finally have uses: "foldM (\<lambda>s k. do { op \<leftarrow> mfunc_op fn ?inst k; ra_use_operand words b s op }) ?s [0..<mi_op_count ?inst]
    = foldM (ra_use words b) ?s (concat (map op_vregs (mops fn i)))" .
  have st': "local_st words B G K ?s" using st by (simp add: local_st_def)
  obtain t where t: "foldM (ra_use words b) ?s (concat (map op_vregs (mops fn i))) = Some t"
    "local_step (set (concat (map op_vregs (mops fn i)))) ?s t"
    "local_st words B (G(b := G b \<union> ({u \<in> set (concat (map op_vregs (mops fn i))). u < length (rl_ivs ?s)} - K b))) K t"
    using ra_uses_spec[OF st' b] by blast
  have "{u \<in> set (concat (map op_vregs (mops fn i))). u < length (rl_ivs ?s)} = vreg_uses fn i" using n by (auto simp: vreg_uses_def)
  note t3 = t(3)[unfolded this]
  have w: "wider (rl_ivs s) (rl_ivs t)" "rl_idx t = rl_idx s" "length (rl_ivs t) = ?n"
    "rl_calls t = rl_calls s @ (if mi_opcode ?inst = NY_MOPC_CALL then [rl_idx s] else [])"
    and cov: "\<And>v. v \<in> vreg_uses fn i \<Longrightarrow> covers (rl_ivs t) v (rl_idx s)"
    using t(2) n wider_length[of "rl_ivs s" "rl_ivs t"] by (auto simp: local_step_def vreg_uses_def split: if_splits)
  show ?thesis
  proof (cases "ny_mreg_is_valid (mi_def ?inst) \<and> mr_is_virtual (mi_def ?inst) \<and> mr_id (mi_def ?inst) < ?n")
    case False
    then have d: "vreg_defs fn i = {}" by (auto simp: vreg_defs_def mem_vregs_def split: if_splits)
    have "ra_inst fn words b s ?inst = Some (t\<lparr>rl_idx := rl_idx t + 1\<rparr>)"
      using False w(3) unfolding ra_inst_def Let_def uses t(1) by (auto simp: ra_def_def)
    moreover have "K(b := K b \<union> vreg_defs fn i) = K" unfolding d by simp
    ultimately show ?thesis using w cov d t3 by (simp add: local_st_def)
  next
    case True
    let ?v = "mr_id (mi_def ?inst)"
    have d: "vreg_defs fn i = {?v}" using True by (auto simp: vreg_defs_def mem_vregs_def)
    obtain kill where k: "lv_set (rl_kill t) words b ?v = Some kill" "rows_are words B (K(b := insert ?v (K b))) kill"
      using rows_set[of words B K "rl_kill t" b ?v] t3 b True w(3) by (auto simp: local_st_def)
    note tw = touch_wider[of ?v "rl_ivs t" "rl_idx t"]
    have "ra_inst fn words b s ?inst = Some (t\<lparr>rl_kill := kill, rl_ivs := ra_touch (rl_ivs t) ?v (rl_idx t), rl_idx := rl_idx t + 1\<rparr>)"
      using True w(3) k(1) unfolding ra_inst_def Let_def uses t(1) by (simp add: ra_def_def)
    moreover have "wider (rl_ivs s) (ra_touch (rl_ivs t) ?v (rl_idx t))" using wider_trans[OF w(1)] tw True w(3) by simp
    moreover have "covers (ra_touch (rl_ivs t) ?v (rl_idx t)) u (rl_idx s)" if "u \<in> vreg_uses fn i \<union> vreg_defs fn i" for u
      using that d tw wider_covers[OF _ _ cov, of "ra_touch (rl_ivs t) ?v (rl_idx t)" u] True w by (auto simp: vreg_uses_def)
    ultimately show ?thesis using w k(2) t3 d wider_length[OF tw[THEN conjunct1]] True
      by (simp add: local_st_def)
  qed
qed


lemma ra_scan_list:
  assumes "linked mi_prev mi_next (mf_insts fn) p xs NY_INVALID" "length (mf_insts fn) < NY_INVALID"
  shows "ra_scan_block fn words b (hd_or xs NY_INVALID) s = foldM (\<lambda>s i. ra_inst fn words b s (mf_insts fn ! i)) s xs"
    and "ra_count fn (hd_or xs NY_INVALID) idx = Some (idx + length xs)"
proof -
  show "ra_scan_block fn words b (hd_or xs NY_INVALID) s = foldM (\<lambda>s i. ra_inst fn words b s (mf_insts fn ! i)) s xs"
    using assms(1)
  proof (induction xs arbitrary: p s)
    case Nil
    show ?case by (subst ra_scan_block.simps) simp
  next
    case (Cons x xs)
    then have "x < length (mf_insts fn)" "x \<noteq> NY_INVALID" "mi_next (mf_insts fn ! x) = hd_or xs NY_INVALID" using assms(2) by auto
    moreover have l: "linked mi_prev mi_next (mf_insts fn) x xs NY_INVALID" using Cons.prems by simp
    have IH: "ra_scan_block fn words b (hd_or xs NY_INVALID) = (\<lambda>s. foldM (\<lambda>s i. ra_inst fn words b s (mf_insts fn ! i)) s xs)"
      by (rule ext) (rule Cons.IH[OF l])
    ultimately show ?case by (subst ra_scan_block.simps) (simp add: IH)
  qed
  show "ra_count fn (hd_or xs NY_INVALID) idx = Some (idx + length xs)"
    using assms(1)
  proof (induction xs arbitrary: p idx)
    case Nil
    show ?case by (subst ra_count.simps) simp
  next
    case (Cons x xs)
    then have "x < length (mf_insts fn)" "x \<noteq> NY_INVALID" "mi_next (mf_insts fn ! x) = hd_or xs NY_INVALID" using assms(2) by auto
    then show ?case using Cons by (subst ra_count.simps) auto
  qed
qed

lemma ra_scan_block_spec:
  assumes "local_st words B G K s" and b: "b < B" and "length (rl_ivs s) = length (mf_vreg_classes fn)"
    and ops: "\<forall>i \<in> set xs. mi_op_start (mf_insts fn ! i) + mi_op_count (mf_insts fn ! i) \<le> length (mf_operands fn)"
  shows "\<exists>s'. foldM (\<lambda>s i. ra_inst fn words b s (mf_insts fn ! i)) s xs = Some s' \<and> wider (rl_ivs s) (rl_ivs s')
    \<and> (\<forall>k < length xs. \<forall>v \<in> vreg_uses fn (xs ! k) \<union> vreg_defs fn (xs ! k). covers (rl_ivs s') v (rl_idx s + k))
    \<and> rl_idx s' = rl_idx s + length xs
    \<and> set (rl_calls s') = set (rl_calls s) \<union> {rl_idx s + k | k. k < length xs \<and> mi_opcode (mf_insts fn ! (xs ! k)) = NY_MOPC_CALL}
    \<and> local_st words B (G(b := G b \<union> (vreg_upward fn xs - K b))) (K(b := K b \<union> vreg_kills fn xs)) s'"
  using assms
proof (induction xs arbitrary: s G K)
  case Nil
  then show ?case by (simp add: vreg_kills_def)
next
  case (Cons x xs)
  let ?G = "G(b := G b \<union> (vreg_uses fn x - K b))" and ?K = "K(b := K b \<union> vreg_defs fn x)"
  have "mi_op_start (mf_insts fn ! x) + mi_op_count (mf_insts fn ! x) \<le> length (mf_operands fn)" using Cons.prems(4) by simp
  from ra_inst_spec[OF Cons.prems(1) b Cons.prems(3) this] obtain t where t: "ra_inst fn words b s (mf_insts fn ! x) = Some t"
    "wider (rl_ivs s) (rl_ivs t)" "\<forall>v \<in> vreg_uses fn x \<union> vreg_defs fn x. covers (rl_ivs t) v (rl_idx s)" "rl_idx t = Suc (rl_idx s)"
    "rl_calls t = rl_calls s @ (if mi_opcode (mf_insts fn ! x) = NY_MOPC_CALL then [rl_idx s] else [])" "local_st words B ?G ?K t" by blast
  have n: "length (rl_ivs t) = length (mf_vreg_classes fn)" using t(2) Cons.prems(3) by (simp add: wider_length)
  have o: "\<forall>i \<in> set xs. mi_op_start (mf_insts fn ! i) + mi_op_count (mf_insts fn ! i) \<le> length (mf_operands fn)" using Cons.prems(4) by simp
  obtain u where u: "foldM (\<lambda>s i. ra_inst fn words b s (mf_insts fn ! i)) t xs = Some u" "wider (rl_ivs t) (rl_ivs u)"
    "\<forall>k < length xs. \<forall>v \<in> vreg_uses fn (xs ! k) \<union> vreg_defs fn (xs ! k). covers (rl_ivs u) v (rl_idx t + k)"
    "rl_idx u = rl_idx t + length xs"
    "set (rl_calls u) = set (rl_calls t) \<union> {rl_idx t + k | k. k < length xs \<and> mi_opcode (mf_insts fn ! (xs ! k)) = NY_MOPC_CALL}"
    "local_st words B (?G(b := ?G b \<union> (vreg_upward fn xs - ?K b))) (?K(b := ?K b \<union> vreg_kills fn xs)) u"
    using Cons.IH[OF t(6) b n o] by blast
  have "foldM (\<lambda>s i. ra_inst fn words b s (mf_insts fn ! i)) s (x # xs) = Some u" using t(1) u(1) by simp
  moreover have "wider (rl_ivs s) (rl_ivs u)" by (rule wider_trans[OF t(2) u(2)])
  moreover have "covers (rl_ivs u) v (rl_idx s + k)" if k: "k < length (x # xs)" and v: "v \<in> vreg_uses fn ((x # xs) ! k) \<union> vreg_defs fn ((x # xs) ! k)" for k v
  proof (cases k)
    case 0
    have "v < length (rl_ivs t)" using v n by (auto simp: vreg_uses_def vreg_defs_def)
    then show ?thesis using wider_covers[OF u(2)] t(3) v 0 by simp
  qed (use u(3) t(4) k v in auto)
  moreover have "set (rl_calls u) = set (rl_calls s) \<union> {rl_idx s + k | k. k < length (x # xs) \<and> mi_opcode (mf_insts fn ! ((x # xs) ! k)) = NY_MOPC_CALL}"
    unfolding u(5) t(5) t(4) by (auto simp: less_Suc_eq_0_disj split: if_splits)
  moreover have e: "?G(b := ?G b \<union> (vreg_upward fn xs - ?K b)) = G(b := G b \<union> (vreg_upward fn (x # xs) - K b))"
    "?K(b := ?K b \<union> vreg_kills fn xs) = K(b := K b \<union> vreg_kills fn (x # xs))" by (auto simp: vreg_kills_def fun_eq_iff)
  note st = u(6)[unfolded e]
  moreover have "rl_idx u = rl_idx s + length (x # xs)" using u(4) t(4) by simp
  ultimately show ?case by blast
qed

text \<open>The scan of all blocks.\<close>

definition scanned :: "ny_machine_function \<Rightarrow> nat list list \<Rightarrow> nat \<Rightarrow> live_interval list \<Rightarrow> nat list \<Rightarrow> bool" where
  "scanned fn L m ivs calls \<longleftrightarrow> length ivs = length (mf_vreg_classes fn)
     \<and> (\<forall>b < m. \<forall>k < length (L ! b). \<forall>v \<in> vreg_uses fn (L ! b ! k) \<union> vreg_defs fn (L ! b ! k). covers ivs v (bstart L b + k))
     \<and> (\<forall>b < m. \<forall>k < length (L ! b). mi_opcode (mf_insts fn ! (L ! b ! k)) = NY_MOPC_CALL \<longrightarrow> bstart L b + k \<in> set calls)"

lemma uses_bound: "v \<in> vreg_uses fn i \<union> vreg_defs fn i \<Longrightarrow> v < length (mf_vreg_classes fn)"
  by (auto simp: vreg_uses_def vreg_defs_def)

lemma scanned_wider:
  assumes "scanned fn L m ivs calls" "wider ivs ivs'"
  shows "scanned fn L m ivs' calls"
  unfolding scanned_def
proof (intro conjI allI impI ballI)
  fix b k v assume "b < m" "k < length (L ! b)" and v: "v \<in> vreg_uses fn (L ! b ! k) \<union> vreg_defs fn (L ! b ! k)"
  then have "covers ivs v (bstart L b + k)" using assms(1) by (simp add: scanned_def)
  moreover have "v < length ivs" using uses_bound[OF v] assms(1) by (simp add: scanned_def)
  ultimately show "covers ivs' v (bstart L b + k)" using wider_covers[OF assms(2)] by blast
qed (use assms wider_length[OF assms(2)] in \<open>simp_all add: scanned_def\<close>)

lemma wf_linked:
  assumes "mfn_wf fn L" "b < length (mf_blocks fn)"
  shows "linked mi_prev mi_next (mf_insts fn) NY_INVALID (L ! b) NY_INVALID" "mb_first (mf_blocks fn ! b) = hd_or (L ! b) NY_INVALID"
    "length (mf_insts fn) < NY_INVALID"
  using assms by (auto simp: mfn_wf_def mblock_ok_def)

lemma ra_blocks_spec:
  assumes wf: "mfn_wf fn L" and ops: "mops_wf fn L" and n: "length ivs = length (mf_vreg_classes fn)" "length ivs \<le> 64 * words"
    and B: "B = length (mf_blocks fn)"
  shows "m \<le> B \<Longrightarrow> \<exists>s. foldM (\<lambda>s b. ra_scan_block fn words b (mb_first (mf_blocks fn ! b)) s)
       \<lparr>rl_ivs = ivs, rl_gen = replicate (B * words) 0, rl_kill = replicate (B * words) 0, rl_calls = [], rl_idx = 0\<rparr> [0..<m] = Some s
     \<and> wider ivs (rl_ivs s) \<and> scanned fn L m (rl_ivs s) (rl_calls s) \<and> rl_idx s = bstart L m
     \<and> local_st words B (\<lambda>b. if b < m then vreg_upward fn (L ! b) else {}) (\<lambda>b. if b < m then vreg_kills fn (L ! b) else {}) s"
proof (induction m)
  case 0
  show ?case using n by (simp add: scanned_def local_st_def rows_zero)
next
  case (Suc m)
  then obtain s where s: "foldM (\<lambda>s b. ra_scan_block fn words b (mb_first (mf_blocks fn ! b)) s)
       \<lparr>rl_ivs = ivs, rl_gen = replicate (B * words) 0, rl_kill = replicate (B * words) 0, rl_calls = [], rl_idx = 0\<rparr> [0..<m] = Some s"
     "wider ivs (rl_ivs s)" "scanned fn L m (rl_ivs s) (rl_calls s)" "rl_idx s = bstart L m"
     "local_st words B (\<lambda>b. if b < m then vreg_upward fn (L ! b) else {}) (\<lambda>b. if b < m then vreg_kills fn (L ! b) else {}) s" by auto
  have m: "m < B" "m < length (mf_blocks fn)" "m < length L" using Suc.prems B wf by (auto simp: mfn_wf_def)
  have o: "\<forall>i \<in> set (L ! m). mi_op_start (mf_insts fn ! i) + mi_op_count (mf_insts fn ! i) \<le> length (mf_operands fn)"
    using ops nth_mem[OF m(3)] by (auto simp: mops_wf_def)
  have len: "length (rl_ivs s) = length (mf_vreg_classes fn)" using s(3) by (simp add: scanned_def)
  from ra_scan_block_spec[OF s(5) m(1) len o] obtain t where t:
    "foldM (\<lambda>s i. ra_inst fn words m s (mf_insts fn ! i)) s (L ! m) = Some t" "wider (rl_ivs s) (rl_ivs t)"
    "\<forall>k < length (L ! m). \<forall>v \<in> vreg_uses fn (L ! m ! k) \<union> vreg_defs fn (L ! m ! k). covers (rl_ivs t) v (rl_idx s + k)"
    "rl_idx t = rl_idx s + length (L ! m)"
    "set (rl_calls t) = set (rl_calls s) \<union> {rl_idx s + k | k. k < length (L ! m) \<and> mi_opcode (mf_insts fn ! (L ! m ! k)) = NY_MOPC_CALL}"
    "local_st words B ((\<lambda>b. if b < m then vreg_upward fn (L ! b) else {})(m := (if m < m then vreg_upward fn (L ! m) else {}) \<union> (vreg_upward fn (L ! m) - (if m < m then vreg_kills fn (L ! m) else {}))))
       ((\<lambda>b. if b < m then vreg_kills fn (L ! b) else {})(m := (if m < m then vreg_kills fn (L ! m) else {}) \<union> vreg_kills fn (L ! m))) t" by blast
  have "ra_scan_block fn words m (mb_first (mf_blocks fn ! m)) s = Some t"
    using ra_scan_list(1)[OF wf_linked(1)[OF wf m(2)] wf_linked(3)[OF wf m(2)]] wf_linked(2)[OF wf m(2)] t(1) by simp
  moreover have "wider ivs (rl_ivs t)" by (rule wider_trans[OF s(2) t(2)])
  moreover have "scanned fn L (Suc m) (rl_ivs t) (rl_calls t)"
    using scanned_wider[OF s(3) t(2)] t(3,5) s(4) by (auto simp: scanned_def less_Suc_eq)
  moreover have e: "((\<lambda>b. if b < m then vreg_upward fn (L ! b) else {})(m := (if m < m then vreg_upward fn (L ! m) else {}) \<union> (vreg_upward fn (L ! m) - (if m < m then vreg_kills fn (L ! m) else {}))))
       = (\<lambda>b. if b < Suc m then vreg_upward fn (L ! b) else {})"
    "((\<lambda>b. if b < m then vreg_kills fn (L ! b) else {})(m := (if m < m then vreg_kills fn (L ! m) else {}) \<union> vreg_kills fn (L ! m)))
       = (\<lambda>b. if b < Suc m then vreg_kills fn (L ! b) else {})" by (auto simp: less_Suc_eq fun_eq_iff)
  ultimately show ?case using s(1,4) t(4,6) bstart_Suc[OF m(3)] unfolding e by (simp add: foldM_append)
qed


subsection \<open>The solution of the flow equations\<close>

lemma rows_len: "rows_are words B R xs \<Longrightarrow> length xs = B * words"
  by (simp add: rows_are_def)

lemma row_or:
  assumes "rows_are words B O' lo" "rows_are words B I li" "b < B" "s < B"
  shows "\<exists>lo'. foldM (\<lambda>lo w. do { x \<leftarrow> rd li (s * words + w); y \<leftarrow> rd lo (b * words + w); wr lo (b * words + w) (y OR x) }) lo [0..<words] = Some lo'
    \<and> rows_are words B (O'(b := O' b \<union> I s)) lo'"
proof -
  have len: "length lo = B * words" "length li = B * words" using assms(1,2) by (simp_all add: rows_len)
  have room: "b * words + words \<le> B * words" "s * words + words \<le> B * words"
    using assms(3,4) mult_le_mono1[of "Suc b" B words] mult_le_mono1[of "Suc s" B words] by simp_all
  let ?g = "\<lambda>w (y :: 64 word). y OR li ! (s * words + w)"
  have "foldM (\<lambda>lo w. do { x \<leftarrow> rd li (s * words + w); y \<leftarrow> rd lo (b * words + w); wr lo (b * words + w) (y OR x) }) lo [0..<words]
    = Some (upd_range (b * words) words ?g lo)"
    by (rule foldM_range) (use len room in auto)
  moreover have "{v. v < 64 * words \<and> bit (?g (v div 64) (lo ! (b * words + v div 64))) (v mod 64)} = row words lo b \<union> row words li s"
    by (auto simp: row_def bit_or_iff)
  then have "rows_are words B (O'(b := O' b \<union> I s)) (upd_range (b * words) words ?g lo)"
    using assms row_upd_range[OF len(1) assms(3), of _ ?g] len by (auto simp: rows_are_def upd_range_def)
  ultimately show ?thesis by blast
qed

lemma succs_or:
  assumes li: "rows_are words B I li" and b: "b < B"
  shows "rows_are words B O' lo \<Longrightarrow> \<exists>lo'. foldM (\<lambda>live_out succ.
         if succ < B then foldM (\<lambda>live_out w. do {
             x \<leftarrow> rd li (succ * words + w); y \<leftarrow> rd live_out (b * words + w); wr live_out (b * words + w) (y OR x) }) live_out [0..<words]
         else Some live_out) lo ss = Some lo' \<and> rows_are words B (O'(b := O' b \<union> (\<Union>s \<in> {s \<in> set ss. s < B}. I s))) lo'"
proof (induction ss arbitrary: lo O')
  case (Cons s ss)
  have e: "(O'(b := X))(b := (O'(b := X)) b \<union> Y) = O'(b := X \<union> Y)" for X Y by simp
  show ?case
  proof (cases "s < B")
    case True
    obtain lo1 where 1: "foldM (\<lambda>lo w. do { x \<leftarrow> rd li (s * words + w); y \<leftarrow> rd lo (b * words + w); wr lo (b * words + w) (y OR x) }) lo [0..<words] = Some lo1"
      "rows_are words B (O'(b := O' b \<union> I s)) lo1" using row_or[OF Cons.prems li b True] by blast
    have "O' b \<union> I s \<union> (\<Union>s \<in> {s \<in> set ss. s < B}. I s) = O' b \<union> (\<Union>s \<in> {x \<in> set (s # ss). x < B}. I s)" using True by auto
    then show ?thesis using Cons.IH[OF 1(2)] 1(1) True unfolding e by simp
  next
    case False
    then have "{x \<in> set (s # ss). x < B} = {x \<in> set ss. x < B}" by auto
    then show ?thesis using Cons.IH[OF Cons.prems] False by simp
  qed
qed simp

lemma rows_changed:
  fixes g :: "nat \<Rightarrow> 64 word \<Rightarrow> 64 word"
  assumes "length xs = B * words" "b < B" "{v. v < 64 * words \<and> bit (g (v div 64) (xs ! (b * words + v div 64))) (v mod 64)} = N"
  shows "(\<exists>w < words. g w (xs ! (b * words + w)) \<noteq> xs ! (b * words + w)) \<longleftrightarrow> N \<noteq> row words xs b"
proof
  assume "\<exists>w < words. g w (xs ! (b * words + w)) \<noteq> xs ! (b * words + w)"
  then show "N \<noteq> row words xs b" using words_eq_rows[OF assms(1,2), of g] assms(3) by auto
next
  assume "N \<noteq> row words xs b"
  moreover have "row words xs b = N" if "\<forall>w < words. g w (xs ! (b * words + w)) = xs ! (b * words + w)"
  proof -
    have "v div 64 < words" if "v < 64 * words" for v using that by (simp add: less_mult_imp_div_less mult.commute)
    then show ?thesis using that unfolding assms(3)[symmetric] row_def by auto
  qed
  ultimately show "\<exists>w < words. g w (xs ! (b * words + w)) \<noteq> xs ! (b * words + w)" by blast
qed

text \<open>One block: \<open>G\<close> and \<open>K\<close> are the local sets, \<open>S b\<close> the successors.\<close>

definition succ_in :: "ny_machine_function \<Rightarrow> (nat \<Rightarrow> nat set) \<Rightarrow> nat \<Rightarrow> nat set" where
  "succ_in fn I b = (\<Union>s \<in> {s \<in> set (mb_succs (mf_blocks fn ! b)). s < length (mf_blocks fn)}. I s)"

lemma ra_flow_spec:
  assumes B: "B = length (mf_blocks fn)" and rows: "rows_are words B G gen" "rows_are words B K kill" "rows_are words B I li" "rows_are words B O' lo"
    and b: "b < B"
  defines "Ob \<equiv> O' b \<union> succ_in fn I b"
  defines "Ib \<equiv> G b \<union> (Ob - K b)"
  shows "\<exists>li' lo'. ra_flow_block fn words gen kill (li, lo, ch) b = Some (li', lo', ch \<or> Ib \<noteq> I b)
    \<and> rows_are words B (I(b := Ib)) li' \<and> rows_are words B (O'(b := Ob)) lo'"
proof -
  obtain lo' where lo': "foldM (\<lambda>live_out succ.
         if succ < B then foldM (\<lambda>live_out w. do {
             x \<leftarrow> rd li (succ * words + w); y \<leftarrow> rd live_out (b * words + w); wr live_out (b * words + w) (y OR x) }) live_out [0..<words]
         else Some live_out) lo (mb_succs (mf_blocks fn ! b)) = Some lo'" "rows_are words B (O'(b := Ob)) lo'"
    using succs_or[OF rows(3) b rows(4)] unfolding Ob_def succ_in_def B by blast
  have len: "length li = B * words" "length gen = B * words" "length kill = B * words" "length lo' = B * words"
    using rows lo'(2) by (simp_all add: rows_len)
  have room: "b * words + words \<le> B * words" using b mult_le_mono1[of "Suc b" B words] by simp
  let ?g = "\<lambda>w (_ :: 64 word). gen ! (b * words + w) OR lo' ! (b * words + w) AND NOT (kill ! (b * words + w))"
  let ?li = "upd_range (b * words) words ?g li" and ?diff = "\<exists>w < words. ?g w (li ! (b * words + w)) \<noteq> li ! (b * words + w)"
  have "foldM (\<lambda>(live_in, changed) w. do {
         old_in \<leftarrow> rd live_in (b * words + w);
         g \<leftarrow> rd gen (b * words + w);
         x \<leftarrow> rd lo' (b * words + w);
         k \<leftarrow> rd kill (b * words + w);
         let new_in = g OR x AND NOT k;
         if new_in \<noteq> old_in then do { live_in \<leftarrow> wr live_in (b * words + w) new_in; Some (live_in, True) }
         else Some (live_in, changed)
       }) (li, ch) [0..<words]
     = foldM (\<lambda>(c, ch) w. do { old \<leftarrow> rd c (b * words + w); let new = ?g w old; if new \<noteq> old then do { c \<leftarrow> wr c (b * words + w) new; Some (c, True) } else Some (c, ch) })
      (li, ch) [0..<words]"
    by (rule foldM_cong) (use room len in \<open>auto simp: Let_def split: prod.splits\<close>)
  also have "\<dots> = Some (?li, ch \<or> ?diff)" by (rule foldM_changes) (use len room in simp)
  finally have 2: "foldM (\<lambda>(live_in, changed) w. do {
         old_in \<leftarrow> rd live_in (b * words + w);
         g \<leftarrow> rd gen (b * words + w);
         x \<leftarrow> rd lo' (b * words + w);
         k \<leftarrow> rd kill (b * words + w);
         let new_in = g OR x AND NOT k;
         if new_in \<noteq> old_in then do { live_in \<leftarrow> wr live_in (b * words + w) new_in; Some (live_in, True) }
         else Some (live_in, changed)
       }) (li, ch) [0..<words] = Some (?li, ch \<or> ?diff)" .
  have X: "v \<in> Ob \<longleftrightarrow> v < 64 * words \<and> bit (lo' ! (b * words + v div 64)) (v mod 64)"
    "v \<in> G b \<longleftrightarrow> v < 64 * words \<and> bit (gen ! (b * words + v div 64)) (v mod 64)"
    "v \<in> K b \<longleftrightarrow> v < 64 * words \<and> bit (kill ! (b * words + v div 64)) (v mod 64)" for v
    using lo'(2) rows(1,2) b by (auto simp: rows_are_def row_def)
  have new: "{v. v < 64 * words \<and> bit (?g (v div 64) (li ! (b * words + v div 64))) (v mod 64)} = Ib"
    unfolding Ib_def set_eq_iff mem_Collect_eq Un_iff Diff_iff X by (auto simp: bit_or_iff bit_and_iff bit_not_iff)
  have r: "rows_are words B (I(b := Ib)) ?li"
    using rows(3) row_upd_range[OF len(1) b, of _ ?g] new by (auto simp: rows_are_def upd_range_def)
  have "?diff \<longleftrightarrow> Ib \<noteq> I b"
    using rows_changed[OF len(1) b new] rows(3) b by (simp add: rows_are_def)
  then show ?thesis using 2 lo' r unfolding ra_flow_block_def B by (intro exI[of _ ?li] exI[of _ lo']) simp
qed


text \<open>The invariant of the sweeps: every row is within what its equation gives now, so sweeping only adds values.\<close>

definition ra_pre :: "ny_machine_function \<Rightarrow> (nat \<Rightarrow> nat set) \<Rightarrow> (nat \<Rightarrow> nat set) \<Rightarrow> (nat \<Rightarrow> nat set) \<Rightarrow> (nat \<Rightarrow> nat set) \<Rightarrow> bool" where
  "ra_pre fn G K I Os \<longleftrightarrow> (\<forall>b < length (mf_blocks fn). I b \<subseteq> G b \<union> (Os b - K b))"

definition ra_post :: "ny_machine_function \<Rightarrow> (nat \<Rightarrow> nat set) \<Rightarrow> (nat \<Rightarrow> nat set) \<Rightarrow> (nat \<Rightarrow> nat set) \<Rightarrow> (nat \<Rightarrow> nat set) \<Rightarrow> nat \<Rightarrow> bool" where
  "ra_post fn G K I Os b \<longleftrightarrow> G b \<union> (Os b - K b) \<subseteq> I b \<and> succ_in fn I b \<subseteq> Os b"

lemma unset_upd:
  assumes b: "b < B" and sub: "I b \<subseteq> X" "X \<subseteq> {..<64 * words}"
  shows "unset words B (I(b := X)) + (if X \<noteq> I b then 1 else 0) \<le> unset words B I"
proof -
  let ?U = "{..<64 * words}"
  have "card (?U - X) + (if X \<noteq> I b then 1 else 0) \<le> card (?U - I b)"
  proof (cases "X = I b")
    case False
    then have "?U - X \<subset> ?U - I b" using sub by blast
    then have "card (?U - X) < card (?U - I b)" by (rule psubset_card_mono[rotated]) simp
    then show ?thesis using False by simp
  qed simp
  moreover have "unset words B J = card (?U - J b) + (\<Sum>c \<in> {..<B} - {b}. card (?U - J c))" for J
    unfolding unset_def using b by (subst sum.remove[of _ b]) auto
  moreover have "(\<Sum>c \<in> {..<B} - {b}. card (?U - (I(b := X)) c)) = (\<Sum>c \<in> {..<B} - {b}. card (?U - I c))" by (rule sum.cong) auto
  ultimately show ?thesis by simp
qed

lemma ra_sweep_spec:
  assumes B: "B = length (mf_blocks fn)" and loc: "rows_are words B G gen" "rows_are words B K kill"
  shows "\<lbrakk>set bs \<subseteq> {..<B}; rows_are words B I li; rows_are words B Os lo; ra_pre fn G K I Os\<rbrakk> \<Longrightarrow>
    \<exists>li' lo' ch' I' Os'. foldM (ra_flow_block fn words gen kill) (li, lo, ch) bs = Some (li', lo', ch')
      \<and> rows_are words B I' li' \<and> rows_are words B Os' lo' \<and> ra_pre fn G K I' Os' \<and> (ch \<longrightarrow> ch')
      \<and> unset words B I' + (if ch' \<and> \<not> ch then 1 else 0) \<le> unset words B I
      \<and> (\<forall>b. Os b \<subseteq> Os' b) \<and> (\<forall>b. b \<notin> set bs \<longrightarrow> Os' b = Os b) \<and> (\<not> ch' \<longrightarrow> I' = I \<and> (\<forall>b \<in> set bs. ra_post fn G K I Os' b))"
proof (induction bs arbitrary: I Os li lo ch)
  case Nil
  then show ?case by (intro exI[of _ li] exI[of _ lo] exI[of _ ch] exI[of _ I] exI[of _ Os]) simp
next
  case (Cons b bs)
  have b: "b < B" and bs: "set bs \<subseteq> {..<B}" using Cons.prems(1) by simp_all
  define Ob where "Ob = Os b \<union> succ_in fn I b"
  define Ib where "Ib = G b \<union> (Ob - K b)"
  obtain li1 lo1 where 1: "ra_flow_block fn words gen kill (li, lo, ch) b = Some (li1, lo1, ch \<or> Ib \<noteq> I b)"
    "rows_are words B (I(b := Ib)) li1" "rows_are words B (Os(b := Ob)) lo1"
    using ra_flow_spec[OF B loc Cons.prems(2,3) b, of ch] unfolding Ob_def Ib_def by blast
  have sub: "I b \<subseteq> Ib" using Cons.prems(4) b unfolding ra_pre_def Ib_def Ob_def B by blast
  have pre: "ra_pre fn G K (I(b := Ib)) (Os(b := Ob))" using Cons.prems(4) unfolding ra_pre_def Ib_def Ob_def by auto
  have "Ib \<subseteq> {..<64 * words}" using row_bounded[OF 1(2) b] by simp
  note u = unset_upd[where I = I and b = b, OF b sub this]
  from Cons.IH[OF bs 1(2,3) pre, of "ch \<or> Ib \<noteq> I b"] obtain li2 lo2 ch2 I2 Os2 where 2:
    "foldM (ra_flow_block fn words gen kill) (li1, lo1, ch \<or> Ib \<noteq> I b) bs = Some (li2, lo2, ch2)"
    "rows_are words B I2 li2" "rows_are words B Os2 lo2" "ra_pre fn G K I2 Os2" "ch \<or> Ib \<noteq> I b \<longrightarrow> ch2"
    "unset words B I2 + (if ch2 \<and> \<not> (ch \<or> Ib \<noteq> I b) then 1 else 0) \<le> unset words B (I(b := Ib))"
    "\<forall>c. (Os(b := Ob)) c \<subseteq> Os2 c" "\<forall>c. c \<notin> set bs \<longrightarrow> Os2 c = (Os(b := Ob)) c" "\<not> ch2 \<longrightarrow> I2 = I(b := Ib) \<and> (\<forall>c \<in> set bs. ra_post fn G K (I(b := Ib)) Os2 c)"
    by blast
  have "foldM (ra_flow_block fn words gen kill) (li, lo, ch) (b # bs) = Some (li2, lo2, ch2)" using 1(1) 2(1) by simp
  moreover have "unset words B I2 + (if ch2 \<and> \<not> ch then 1 else 0) \<le> unset words B I" using u 2(5,6) by (auto split: if_splits)
  moreover have "Os c \<subseteq> Os2 c" for c using spec[OF 2(7), of c] by (auto simp: Ob_def split: if_splits)
  moreover have "\<not> ch2 \<longrightarrow> I2 = I \<and> (\<forall>c \<in> set (b # bs). ra_post fn G K I Os2 c)"
  proof
    assume n: "\<not> ch2"
    then have "Ib = I b" using 2(5) by blast
    then have i: "I(b := Ib) = I" by simp
    have "ra_post fn G K I Os2 b" if "b \<notin> set bs"
    proof -
      have "Os2 b = Ob" using 2(8) that by simp
      then show ?thesis using \<open>Ib = I b\<close> unfolding ra_post_def Ib_def Ob_def by blast
    qed
    then show "I2 = I \<and> (\<forall>c \<in> set (b # bs). ra_post fn G K I Os2 c)" using 2(9) n i by auto
  qed
  moreover have "Os2 c = Os c" if "c \<notin> set (b # bs)" for c using 2(8) that by simp
  ultimately show ?case using 2(2-5) by blast
qed

lemma ra_solve_spec:
  assumes B: "B = length (mf_blocks fn)" and loc: "rows_are words B G gen" "rows_are words B K kill"
  shows "\<lbrakk>rows_are words B I li; rows_are words B Os lo; ra_pre fn G K I Os\<rbrakk> \<Longrightarrow>
    \<exists>li' lo' I' Os'. ra_solve fn words gen kill li lo = Some (li', lo') \<and> rows_are words B I' li' \<and> rows_are words B Os' lo'
      \<and> (\<forall>b < B. ra_post fn G K I' Os' b)"
proof (induction "unset words B I" arbitrary: I Os li lo rule: less_induct)
  case less
  have "set (rev [0..<B]) \<subseteq> {..<B}" by auto
  from ra_sweep_spec[OF B loc this less.prems, of False] obtain li1 lo1 ch I1 Os1 where 1:
    "foldM (ra_flow_block fn words gen kill) (li, lo, False) (rev [0..<B]) = Some (li1, lo1, ch)"
    "rows_are words B I1 li1" "rows_are words B Os1 lo1" "ra_pre fn G K I1 Os1"
    "unset words B I1 + (if ch \<and> \<not> False then 1 else 0) \<le> unset words B I" "\<not> ch \<longrightarrow> I1 = I \<and> (\<forall>b \<in> set (rev [0..<B]). ra_post fn G K I Os1 b)"
    by blast
  show ?case
  proof (cases ch)
    case True
    then have "unset words B I1 < unset words B I" using 1(5) by simp
    from less.hyps[OF this 1(2-4)] show ?thesis using True 1(1) B by (subst ra_solve.simps) simp
  next
    case False
    then have "ra_solve fn words gen kill li lo = Some (li1, lo1)" using 1(1) B by (subst ra_solve.simps) simp
    moreover have "\<forall>b < B. ra_post fn G K I1 Os1 b" using 1(6) False by auto
    ultimately show ?thesis using 1(2,3) by blast
  qed
qed

text \<open>A solution contains liveness.\<close>

lemma vreg_upward_live: "v \<in> vreg_upward fn (drop k (L ! b)) \<or> (v \<in> E \<and> v \<notin> vreg_kills fn (drop k (L ! b)))
    \<longleftrightarrow> (if k < length (L ! b) then v \<in> vreg_uses fn (L ! b ! k)
        \<or> v \<notin> vreg_defs fn (L ! b ! k) \<and> (v \<in> vreg_upward fn (drop (Suc k) (L ! b)) \<or> (v \<in> E \<and> v \<notin> vreg_kills fn (drop (Suc k) (L ! b))))
      else v \<in> E)"
  by (auto simp: Cons_nth_drop_Suc[symmetric] vreg_kills_def)

lemma solution_live:
  assumes post: "\<forall>b < length (mf_blocks fn). ra_post fn (\<lambda>b. vreg_upward fn (L ! b)) (\<lambda>b. vreg_kills fn (L ! b)) I Os b"
  shows "vreg_live fn L b k v \<Longrightarrow> b < length (mf_blocks fn) \<Longrightarrow>
    v \<in> vreg_upward fn (drop k (L ! b)) \<or> (v \<in> Os b \<and> v \<notin> vreg_kills fn (drop k (L ! b)))"
proof (induction rule: vreg_live.induct)
  case (use k b v)
  then show ?case by (subst vreg_upward_live) simp
next
  case (pass k b v)
  then show ?case by (subst vreg_upward_live) simp
next
  case (edge s b v)
  then have "v \<in> vreg_upward fn (L ! s) \<or> (v \<in> Os s \<and> v \<notin> vreg_kills fn (L ! s))" by simp
  then have "v \<in> I s" using post edge(2) by (auto simp: ra_post_def)
  then have "v \<in> Os b" using post edge by (auto simp: ra_post_def succ_in_def)
  then show ?case by (simp add: vreg_kills_def)
qed


subsection \<open>The intervals contain liveness\<close>

lemma ra_ranges_spec:
  assumes wf: "mfn_wf fn L"
  shows "m \<le> length (mf_blocks fn) \<Longrightarrow> foldM (\<lambda>((starts, ends), idx) b. do {
       idx' \<leftarrow> ra_count fn (mb_first (mf_blocks fn ! b)) idx;
       Some ((starts @ [idx], ends @ [if idx' > 0 then idx' - 1 else 0]), idx')
     }) (([], []), 0) [0..<m] = Some ((map (bstart L) [0..<m], map (\<lambda>b. bstart L (Suc b) - 1) [0..<m]), bstart L m)"
proof (induction m)
  case (Suc m)
  then have m: "m < length (mf_blocks fn)" "m < length L" using wf by (auto simp: mfn_wf_def)
  have "ra_count fn (mb_first (mf_blocks fn ! m)) (bstart L m) = Some (bstart L (Suc m))"
    using ra_scan_list(2)[OF wf_linked(1)[OF wf m(1)] wf_linked(3)[OF wf m(1)]] wf_linked(2)[OF wf m(1)] bstart_Suc[OF m(2)] by simp
  then show ?case using Suc by (simp add: foldM_append)
qed simp

text \<open>The extension by the rows: what has been done for the pairs seen so far.\<close>

definition extended :: "nat list list \<Rightarrow> (nat \<Rightarrow> nat set) \<Rightarrow> (nat \<Rightarrow> nat set) \<Rightarrow> (nat \<times> nat) set \<Rightarrow> live_interval list \<Rightarrow> bool" where
  "extended L I Os S ivs \<longleftrightarrow> (\<forall>(b, v) \<in> S. (v \<in> I b \<longrightarrow> covers ivs v (bstart L b)) \<and> (v \<in> Os b \<longrightarrow> bstart L (Suc b) - 1 \<le> li_end (ivs ! v)))"

lemma ra_extend_spec:
  assumes rows: "rows_are words B I li" "rows_are words B Os lo" and n: "length ivs0 \<le> 64 * words"
  shows "\<lbrakk>set ps \<subseteq> {..<B} \<times> {..<length ivs0}; wider ivs0 ivs; extended L I Os S ivs; S \<subseteq> {..<B} \<times> {..<length ivs0}\<rbrakk> \<Longrightarrow>
    \<exists>ivs'. foldM (ra_extend words li lo (map (bstart L) [0..<B]) (map (\<lambda>b. bstart L (Suc b) - 1) [0..<B])) ivs ps = Some ivs'
      \<and> wider ivs ivs' \<and> extended L I Os (S \<union> set ps) ivs'"
proof (induction ps arbitrary: ivs S)
  case (Cons p ps)
  obtain b v where p: "p = (b, v)" by (cases p)
  have b: "b < B" and v: "v < length ivs" "v < 64 * words" using Cons.prems(1,2) n p by (auto simp: wider_def)
  let ?ivs1 = "if v \<in> I b then ra_touch ivs v (bstart L b) else ivs"
  let ?ivs2 = "if v \<in> Os b \<and> li_end (?ivs1 ! v) < bstart L (Suc b) - 1 then ?ivs1[v := (?ivs1 ! v)\<lparr>li_end := bstart L (Suc b) - 1\<rparr>] else ?ivs1"
  have step: "ra_extend words li lo (map (bstart L) [0..<B]) (map (\<lambda>b. bstart L (Suc b) - 1) [0..<B]) ivs p = Some ?ivs2"
    using rows_test[OF rows(1) b v(2)] rows_test[OF rows(2) b v(2)] b p by (simp add: ra_extend_def Let_def)
  have w1: "wider ivs ?ivs1" "v \<in> I b \<Longrightarrow> covers ?ivs1 v (bstart L b)" using touch_wider[OF v(1)] by auto
  then have v1: "v < length ?ivs1" using v by (simp add: wider_length)
  define X where "X = ?ivs1"
  define Y where "Y = ?ivs2"
  have w2: "wider X Y" "v \<in> Os b \<Longrightarrow> bstart L (Suc b) - 1 \<le> li_end (Y ! v)"
    using v1 unfolding Y_def X_def[symmetric] by (auto simp: wider_def nth_upd)
  have w: "wider ivs Y" using wider_trans[OF w1(1)] w2(1) unfolding X_def .
  have old: "extended L I Os S Y"
    unfolding extended_def
  proof (clarify, intro conjI impI)
    fix c u assume c: "(c, u) \<in> S"
    then have u: "u < length ivs" using Cons.prems(2,4) by (auto simp: wider_def)
    show "covers Y u (bstart L c)" if "u \<in> I c" using wider_covers[OF w u] Cons.prems(3) c that by (auto simp: extended_def)
    show "bstart L (Suc c) - 1 \<le> li_end (Y ! u)" if "u \<in> Os c"
      using wider_end[OF w u] Cons.prems(3) c that by (auto simp: extended_def)
  qed
  moreover have "covers Y v (bstart L b)" if "v \<in> I b" using wider_covers[OF w2(1)] w1(2) v1 that unfolding X_def by blast
  ultimately have e: "extended L I Os (insert p S) Y" using w2(2) by (simp add: extended_def p)
  have "set ps \<subseteq> {..<B} \<times> {..<length ivs0}" "insert p S \<subseteq> {..<B} \<times> {..<length ivs0}" using Cons.prems(1,4) by auto
  from Cons.IH[OF this(1) wider_trans[OF Cons.prems(2) w] e this(2)] obtain ivs3 where r:
    "foldM (ra_extend words li lo (map (bstart L) [0..<B]) (map (\<lambda>b. bstart L (Suc b) - 1) [0..<B])) Y ps = Some ivs3"
    "wider Y ivs3" "extended L I Os (insert p S \<union> set ps) ivs3" by blast
  have "foldM (ra_extend words li lo (map (bstart L) [0..<B]) (map (\<lambda>b. bstart L (Suc b) - 1) [0..<B])) ivs (p # ps) = Some ivs3"
    unfolding foldM.simps(2) step Y_def[symmetric] Option.bind.bind_lunit by (rule r(1))
  moreover have "extended L I Os (S \<union> set (p # ps)) ivs3" using r(3) by simp
  ultimately show ?case using wider_trans[OF w r(2)] by blast
qed auto

lemma mark_calls_props:
  "length (ra_mark_calls calls ivs) = length ivs"
  "v < length ivs \<Longrightarrow> li_start (ra_mark_calls calls ivs ! v) = li_start (ivs ! v) \<and> li_end (ra_mark_calls calls ivs ! v) = li_end (ivs ! v)
    \<and> li_class (ra_mark_calls calls ivs ! v) = li_class (ivs ! v) \<and> li_spilled (ra_mark_calls calls ivs ! v) = li_spilled (ivs ! v)
    \<and> li_crosses (ra_mark_calls calls ivs ! v) = (li_crosses (ivs ! v) \<or> (\<exists>c \<in> set calls. li_start (ivs ! v) < c \<and> c < li_end (ivs ! v)))"
  by (induction calls arbitrary: ivs) (auto simp: ra_mark_calls_def)

lemma scan_params_wider: "wider ivs (ra_scan_params fn ivs)"
proof -
  have "wider ivs (foldl (\<lambda>ivs (r, _). if mr_is_virtual r \<and> mr_id r < length ivs
     then ivs[mr_id r := (ivs ! mr_id r)\<lparr>li_start := 0\<rparr>] else ivs) ivs ps)" for ps :: "(ny_machine_reg \<times> nat \<times> nat) list"
  proof (induction ps rule: rev_induct)
    case (snoc p ps)
    show ?case by (auto split: prod.split intro!: wider_trans[OF snoc.IH]) (auto simp: wider_def nth_upd)
  qed simp
  then show ?thesis by (simp add: ra_scan_params_def)
qed

text \<open>The instructions of the blocks are at most as many as the array holds.\<close>

lemma bstart_bound:
  assumes "mfn_wf fn L" "m \<le> length (mf_blocks fn)"
  shows "bstart L m \<le> length (mf_insts fn)"
proof -
  have "bstart L m = card (\<Union>b < m. set (L ! b)) \<and> (\<Union>b < m. set (L ! b)) \<subseteq> {..<length (mf_insts fn)}"
    using assms(2)
  proof (induction m)
    case (Suc m)
    then have m: "m < length (mf_blocks fn)" "m < length L" using assms(1) by (auto simp: mfn_wf_def)
    have d: "distinct (L ! m)" "\<And>x. x \<in> set (L ! m) \<Longrightarrow> mi_block (mf_insts fn ! x) = m" using assms(1) m by (auto simp: mfn_wf_def mblock_ok_def)
    have "mi_block (mf_insts fn ! x) = b" if "b < m" "x \<in> set (L ! b)" for b x
      using assms(1) that m by (auto simp: mfn_wf_def mblock_ok_def)
    then have "(\<Union>b < m. set (L ! b)) \<inter> set (L ! m) = {}" using d(2) by fastforce
    then have "card (\<Union>b < Suc m. set (L ! b)) = card (\<Union>b < m. set (L ! b)) + length (L ! m)"
      using distinct_card[OF d(1)] card_Un_disjoint[of "\<Union>b < m. set (L ! b)" "set (L ! m)"] by (simp add: lessThan_Suc Un_commute)
    moreover have "set (L ! m) \<subseteq> {..<length (mf_insts fn)}" using mfn_wf_lt[OF assms(1) m(1)] by auto
    ultimately show ?case using Suc bstart_Suc[OF m(2)] by (auto simp: lessThan_Suc)
  qed simp
  then show ?thesis by (metis card_lessThan card_mono finite_lessThan)
qed


lemma vreg_upward_append: "vreg_upward fn (xs @ ys) = vreg_upward fn xs \<union> (vreg_upward fn ys - vreg_kills fn xs)"
  by (induction xs) (auto simp: vreg_kills_def)

lemma vreg_kills_append: "vreg_kills fn (xs @ ys) = vreg_kills fn xs \<union> vreg_kills fn ys"
  by (simp add: vreg_kills_def)

lemma vreg_upward_use: "v \<in> vreg_upward fn xs \<Longrightarrow> \<exists>i \<in> set xs. v \<in> vreg_uses fn i"
  by (induction xs) auto

lemma vreg_live_bound: "vreg_live fn L b k v \<Longrightarrow> v < length (mf_vreg_classes fn) \<and> k \<le> length (L ! b)"
  by (induction rule: vreg_live.induct) (auto simp: vreg_uses_def)

text \<open>Where the interval of a live register must reach.\<close>

lemma live_reach:
  assumes post: "\<forall>b < length (mf_blocks fn). ra_post fn (\<lambda>b. vreg_upward fn (L ! b)) (\<lambda>b. vreg_kills fn (L ! b)) I Os b"
    and sc: "scanned fn L (length (mf_blocks fn)) J calls" and ext: "extended L I Os ({..<length (mf_blocks fn)} \<times> {..<length J}) J"
    and len: "length L = length (mf_blocks fn)"
    and b: "b < length (mf_blocks fn)" and live: "vreg_live fn L b k v" and ne: "L ! b \<noteq> []"
  shows "li_start (J ! v) \<le> bstart L b + (k - 1)" and "bstart L b + min k (length (L ! b) - 1) \<le> li_end (J ! v)"
proof -
  let ?xs = "L ! b"
  note bd = vreg_live_bound[OF live]
  have v: "v < length J" using bd sc by (simp add: scanned_def)
  have touched: "covers J v (bstart L b + j)" if "j < length ?xs" "v \<in> vreg_uses fn (?xs ! j) \<union> vreg_defs fn (?xs ! j)" for j
    using sc that b by (auto simp: scanned_def)
  have ends: "bstart L b + length ?xs - 1 \<le> li_end (J ! v)" if "v \<in> Os b"
  proof -
    have "(b, v) \<in> {..<length (mf_blocks fn)} \<times> {..<length J}" using b v by simp
    then have "bstart L (Suc b) - 1 \<le> li_end (J ! v)" using ext that unfolding extended_def by blast
    then show ?thesis using bstart_Suc[of b L] b len by simp
  qed
  note sl = solution_live[OF post live b]
  show "bstart L b + min k (length ?xs - 1) \<le> li_end (J ! v)"
  proof (cases "v \<in> Os b")
    case False
    then have "v \<in> vreg_upward fn (drop k ?xs)" using sl by simp
    then obtain i where "i \<in> set (drop k ?xs)" "v \<in> vreg_uses fn i" using vreg_upward_use by blast
    then obtain j where j: "k + j < length ?xs" "v \<in> vreg_uses fn (?xs ! (k + j))" by (auto simp: in_set_conv_nth less_diff_conv add.commute)
    then show ?thesis using touched[of "k + j"] by (simp add: covers_def)
  next
    case True
    have "0 < length ?xs" using ne by simp
    then show ?thesis using ends[OF True] by linarith
  qed
  show "li_start (J ! v) \<le> bstart L b + (k - 1)"
  proof (cases "v \<in> vreg_kills fn (take k ?xs)")
    case True
    then obtain j where j: "j < k" "j < length ?xs" "v \<in> vreg_defs fn (?xs ! j)" by (auto simp: vreg_kills_def in_set_conv_nth)
    then have "li_start (J ! v) \<le> bstart L b + j" using touched[of j] by (simp add: covers_def)
    moreover have "j \<le> k - 1" using j by simp
    ultimately show ?thesis by linarith
  next
    case False
    then have "v \<in> vreg_upward fn (take k ?xs @ drop k ?xs) \<or> (v \<in> Os b \<and> v \<notin> vreg_kills fn (take k ?xs @ drop k ?xs))"
      unfolding vreg_upward_append vreg_kills_append using sl by blast
    then have "v \<in> I b" using post b by (auto simp: ra_post_def)
    moreover have "(b, v) \<in> {..<length (mf_blocks fn)} \<times> {..<length J}" using b v by simp
    ultimately have "li_start (J ! v) \<le> bstart L b" using ext unfolding extended_def covers_def by blast
    then show ?thesis by simp
  qed
qed

definition intervals_live :: "ny_machine_function \<Rightarrow> nat list list \<Rightarrow> live_interval list \<Rightarrow> bool" where
  "intervals_live fn L ivs \<longleftrightarrow> length ivs = length (mf_vreg_classes fn)
     \<and> (\<forall>v < length ivs. \<not> li_spilled (ivs ! v) \<and> li_class (ivs ! v) = mf_vreg_classes fn ! v)
     \<and> (\<forall>b < length (mf_blocks fn). \<forall>k < length (L ! b). \<forall>v.
          vreg_live fn L b k v \<or> vreg_live fn L b (Suc k) v \<or> v \<in> vreg_defs fn (L ! b ! k) \<longrightarrow> covers ivs v (bstart L b + k))
     \<and> (\<forall>b < length (mf_blocks fn). \<forall>k v. 0 < k \<longrightarrow> Suc k < length (L ! b) \<longrightarrow> mi_opcode (mf_insts fn ! (L ! b ! k)) = NY_MOPC_CALL \<longrightarrow>
          vreg_live fn L b (Suc k) v \<longrightarrow> v \<notin> vreg_defs fn (L ! b ! k) \<longrightarrow> li_crosses (ivs ! v))"

lemma ra_unused_props: "li_start (ra_unused i) = (if li_start i = UINT32_MAX then 0 else li_start i)"
  "li_end (ra_unused i) = (if li_start i = UINT32_MAX then 0 else li_end i)"
  "li_class (ra_unused i) = li_class i" "li_spilled (ra_unused i) = li_spilled i" "li_crosses (ra_unused i) = li_crosses i"
  by (simp_all add: ra_unused_def)

lemma finish_live:
  assumes wf: "mfn_wf fn L" and w: "wider (map (ra_init_interval fn) [0..<length (mf_vreg_classes fn)]) J"
    and post: "\<forall>b < length (mf_blocks fn). ra_post fn (\<lambda>b. vreg_upward fn (L ! b)) (\<lambda>b. vreg_kills fn (L ! b)) I Os b"
    and sc: "scanned fn L (length (mf_blocks fn)) J calls" and ext: "extended L I Os ({..<length (mf_blocks fn)} \<times> {..<length J}) J"
  shows "intervals_live fn L (map ra_unused (ra_mark_calls calls J))"
proof -
  let ?M = "ra_mark_calls calls J" and ?B = "length (mf_blocks fn)"
  have n: "length J = length (mf_vreg_classes fn)" using sc by (simp add: scanned_def)
  have L: "length L = ?B" using wf by (simp add: mfn_wf_def)
  note reach = live_reach[OF post sc ext L]
  have small: "bstart L b + k < UINT32_MAX" if "b < ?B" "k < length (L ! b)" for b k
    using bstart_bound[OF wf, of "Suc b"] bstart_Suc[of b L] that wf L by (auto simp: mfn_wf_def NY_INVALID_def)
  have cov: "covers (map ra_unused ?M) v p" if "covers J v p" "v < length J" "p < UINT32_MAX" for v p
    using that mark_calls_props(2)[of v J calls] by (auto simp: covers_def mark_calls_props(1) ra_unused_props)
  have "covers J v (bstart L b + k)" if b: "b < ?B" and k: "k < length (L ! b)"
    and v: "vreg_live fn L b k v \<or> vreg_live fn L b (Suc k) v \<or> v \<in> vreg_defs fn (L ! b ! k)" for b k v
  proof -
    have ne: "L ! b \<noteq> []" using k by auto
    show ?thesis using v
    proof (elim disjE)
    assume "vreg_live fn L b k v"
    then show ?thesis using reach[OF b, of k v] k ne by (simp add: covers_def min_def split: if_splits)
  next
    assume "vreg_live fn L b (Suc k) v"
    then show ?thesis using reach[OF b, of "Suc k" v] k ne by (simp add: covers_def min_def split: if_splits)
  next
    assume "v \<in> vreg_defs fn (L ! b ! k)"
    then show ?thesis using sc b k by (auto simp: scanned_def)
    qed
  qed
  moreover have "v < length J" if "vreg_live fn L b k v \<or> vreg_live fn L b (Suc k) v \<or> v \<in> vreg_defs fn (L ! b ! k)" for b k v
    using that vreg_live_bound n by (auto simp: vreg_defs_def)
  ultimately have 1: "covers (map ra_unused ?M) v (bstart L b + k)" if "b < ?B" "k < length (L ! b)"
    "vreg_live fn L b k v \<or> vreg_live fn L b (Suc k) v \<or> v \<in> vreg_defs fn (L ! b ! k)" for b k v
    using cov small that by blast
  have 2: "li_crosses (map ra_unused ?M ! v)" if b: "b < ?B" and k: "0 < k" "Suc k < length (L ! b)"
    and c: "mi_opcode (mf_insts fn ! (L ! b ! k)) = NY_MOPC_CALL" and l: "vreg_live fn L b (Suc k) v" "v \<notin> vreg_defs fn (L ! b ! k)" for b k v
  proof -
    have ne: "L ! b \<noteq> []" using k by auto
    have "vreg_live fn L b k v" by (rule vreg_live.pass) (use l k in simp_all)
    then have s: "li_start (J ! v) < bstart L b + k" using reach(1)[OF b, of k v] k ne by simp
    have e: "bstart L b + k < li_end (J ! v)" using reach(2)[OF b l(1) ne] k by (simp add: min_def split: if_splits)
    have "bstart L b + k \<in> set calls" using sc b k(2) c by (simp add: scanned_def)
    moreover have "v < length J" using vreg_live_bound[OF l(1)] n by simp
    ultimately show ?thesis using s e mark_calls_props(2)[of v J calls] by (auto simp: mark_calls_props(1) ra_unused_props)
  qed
  have 3: "\<not> li_spilled (map ra_unused ?M ! v) \<and> li_class (map ra_unused ?M ! v) = mf_vreg_classes fn ! v" if "v < length J" for v
    using that n mark_calls_props(2)[OF that, of calls] wider_keeps[OF w, of v]
    by (simp add: mark_calls_props(1) ra_unused_props ra_init_interval_def)
  show ?thesis unfolding intervals_live_def using 1 2 3 n by (simp add: mark_calls_props(1))
qed

lemma ra_intervals_spec:
  assumes wf: "mfn_wf fn L" and ops: "mops_wf fn L"
  shows "\<exists>ivs. ra_intervals fn = Some ivs \<and> intervals_live fn L ivs"
proof -
  let ?n = "length (mf_vreg_classes fn)" and ?B = "length (mf_blocks fn)"
  define words where "words = (if (?n + 63) div 64 = 0 then 1 else (?n + 63) div 64)"
  let ?ivs = "map (ra_init_interval fn) [0..<?n]"
  have n: "?n \<le> 64 * words" unfolding words_def by auto
  have ranges: "ra_block_ranges fn = Some ((map (bstart L) [0..<?B], map (\<lambda>b. bstart L (Suc b) - 1) [0..<?B]), bstart L ?B)"
    unfolding ra_block_ranges_def using ra_ranges_spec[OF wf, of ?B] by simp
  have li: "length ?ivs = ?n" "length ?ivs \<le> 64 * words" using n by simp_all
  obtain s where s: "foldM (\<lambda>s b. ra_scan_block fn words b (mb_first (mf_blocks fn ! b)) s)
       \<lparr>rl_ivs = ?ivs, rl_gen = replicate (?B * words) 0, rl_kill = replicate (?B * words) 0, rl_calls = [], rl_idx = 0\<rparr> [0..<?B] = Some s"
     "wider ?ivs (rl_ivs s)" "scanned fn L ?B (rl_ivs s) (rl_calls s)"
     "local_st words ?B (\<lambda>b. if b < ?B then vreg_upward fn (L ! b) else {}) (\<lambda>b. if b < ?B then vreg_kills fn (L ! b) else {}) s"
    using ra_blocks_spec[OF wf ops li refl order_refl] by blast
  have rows: "rows_are words ?B (\<lambda>b. vreg_upward fn (L ! b)) (rl_gen s)" "rows_are words ?B (\<lambda>b. vreg_kills fn (L ! b)) (rl_kill s)"
    using s(4) by (simp_all add: local_st_def rows_are_def)
  have "ra_pre fn (\<lambda>b. vreg_upward fn (L ! b)) (\<lambda>b. vreg_kills fn (L ! b)) (\<lambda>_. {}) (\<lambda>_. {})" by (simp add: ra_pre_def)
  from ra_solve_spec[OF refl rows rows_zero rows_zero this] obtain lin lout I Os where sol:
    "ra_solve fn words (rl_gen s) (rl_kill s) (replicate (?B * words) 0) (replicate (?B * words) 0) = Some (lin, lout)"
    "rows_are words ?B I lin" "rows_are words ?B Os lout"
    "\<forall>b < ?B. ra_post fn (\<lambda>b. vreg_upward fn (L ! b)) (\<lambda>b. vreg_kills fn (L ! b)) I Os b" by blast
  let ?P = "ra_scan_params fn (rl_ivs s)"
  have wP: "wider ?ivs ?P" by (rule wider_trans[OF s(2) scan_params_wider])
  have lP: "length ?P = ?n" using wider_length[OF wP] by simp
  have nP: "length ?P \<le> 64 * words" using lP n by simp
  have "set (List.product [0..<?B] [0..<?n]) \<subseteq> {..<?B} \<times> {..<length ?P}" using lP by auto
  from ra_extend_spec[OF sol(2,3) nP this wider_refl, of L "{}"] obtain J where J:
    "foldM (ra_extend words lin lout (map (bstart L) [0..<?B]) (map (\<lambda>b. bstart L (Suc b) - 1) [0..<?B])) ?P (List.product [0..<?B] [0..<?n]) = Some J"
    "wider ?P J" "extended L I Os (set (List.product [0..<?B] [0..<?n])) J" by (auto simp: extended_def)
  have "ra_intervals fn = Some (map ra_unused (ra_mark_calls (rl_calls s) J))"
    unfolding ra_intervals_def Let_def words_def[symmetric] ranges bind.bind_lunit case_prod_conv s(1) sol(1) J(1) ..
  moreover have "intervals_live fn L (map ra_unused (ra_mark_calls (rl_calls s) J))"
  proof (rule finish_live[OF wf wider_trans[OF wP J(2)] sol(4)])
    show "scanned fn L ?B J (rl_calls s)" by (rule scanned_wider[OF s(3) wider_trans[OF scan_params_wider J(2)]])
    have "length J = ?n" using wider_length[OF J(2)] lP by simp
    then show "extended L I Os ({..<?B} \<times> {..<length J}) J" using J(3) by (simp add: extended_def)
  qed
  ultimately show ?thesis by blast
qed

text \<open>The registers around one instruction.\<close>

definition at_inst :: "ny_machine_function \<Rightarrow> nat list list \<Rightarrow> nat \<Rightarrow> nat \<Rightarrow> nat set" where
  "at_inst fn L b k = {v. vreg_live fn L b k v \<or> vreg_live fn L b (Suc k) v \<or> v \<in> vreg_defs fn (L ! b ! k)}"

lemma at_inst_bound: "v \<in> at_inst fn L b k \<Longrightarrow> v < length (mf_vreg_classes fn)"
  using vreg_live_bound by (auto simp: at_inst_def vreg_defs_def)

definition allocated :: "'m ra_target \<Rightarrow> ny_machine_function \<Rightarrow> nat list list \<Rightarrow> live_interval list \<Rightarrow> bool" where
  "allocated t fn L out \<longleftrightarrow> length out = length (mf_vreg_classes fn) \<and> (\<forall>b < length (mf_blocks fn). \<forall>k < length (L ! b).
     (\<forall>u \<in> at_inst fn L b k. \<forall>v \<in> at_inst fn L b k. u \<noteq> v \<longrightarrow> \<not> li_spilled (out ! u) \<longrightarrow> \<not> li_spilled (out ! v) \<longrightarrow> li_phys (out ! u) \<noteq> li_phys (out ! v))
     \<and> (\<forall>v \<in> at_inst fn L b k. \<not> li_spilled (out ! v) \<longrightarrow> li_phys (out ! v) \<in> family t (mf_vreg_classes fn ! v))
     \<and> (\<forall>v. 0 < k \<longrightarrow> Suc k < length (L ! b) \<longrightarrow> mi_opcode (mf_insts fn ! (L ! b ! k)) = NY_MOPC_CALL \<longrightarrow> vreg_live fn L b (Suc k) v
          \<longrightarrow> v \<notin> vreg_defs fn (L ! b ! k) \<longrightarrow> \<not> li_spilled (out ! v) \<longrightarrow> rt_callee_saved t (li_phys (out ! v))))"

lemma allocated_scan:
  assumes "intervals_live fn L ivs" and ok: "allocation_ok t ivs (ss_ivs (linear_scan t ivs))"
  shows "allocated t fn L (ss_ivs (linear_scan t ivs))"
proof -
  let ?out = "ss_ivs (linear_scan t ivs)"
  have len: "length ?out = length ivs" "length ivs = length (mf_vreg_classes fn)"
    using assms by (auto simp: allocation_ok_def intervals_live_def dest: map_eq_imp_length_eq)
  have bd: "v < length ivs" if "v \<in> at_inst fn L b k" for v b k using at_inst_bound[OF that] len by simp
  have cov: "covers ivs v (bstart L b + k)" if "b < length (mf_blocks fn)" "k < length (L ! b)" "v \<in> at_inst fn L b k" for v b k
    using assms(1) that unfolding intervals_live_def at_inst_def by blast
  have ov: "overlap ivs u v" if "covers ivs u p" "covers ivs v p" for u v p using that by (auto simp: overlap_def covers_def)
  show ?thesis
    unfolding allocated_def
  proof (intro conjI allI impI ballI)
    fix b k u v assume a: "b < length (mf_blocks fn)" "k < length (L ! b)" "u \<in> at_inst fn L b k" "v \<in> at_inst fn L b k" "u \<noteq> v"
      "\<not> li_spilled (?out ! u)" "\<not> li_spilled (?out ! v)"
    have "overlap ivs u v" by (rule ov[OF cov[OF a(1-3)] cov[OF a(1,2,4)]])
    then show "li_phys (?out ! u) \<noteq> li_phys (?out ! v)" using ok a(5-7) bd[OF a(3)] bd[OF a(4)] unfolding allocation_ok_def by blast
  next
    fix b k v assume a: "v \<in> at_inst fn L b k" "\<not> li_spilled (?out ! v)"
    then show "li_phys (?out ! v) \<in> family t (mf_vreg_classes fn ! v)"
      using ok bd[OF a(1)] assms(1) unfolding allocation_ok_def intervals_live_def by (metis (no_types, lifting))
  next
    fix b k v assume a: "b < length (mf_blocks fn)" "0 < k" "Suc k < length (L ! b)" "mi_opcode (mf_insts fn ! (L ! b ! k)) = NY_MOPC_CALL"
      "vreg_live fn L b (Suc k) v" "v \<notin> vreg_defs fn (L ! b ! k)" "\<not> li_spilled (?out ! v)"
    have "v < length ivs" using vreg_live_bound[OF a(5)] len by simp
    moreover have "li_crosses (ivs ! v)" using assms(1) a by (simp add: intervals_live_def)
    ultimately show "rt_callee_saved t (li_phys (?out ! v))" using ok a(7) unfolding allocation_ok_def by (metis (no_types, lifting))
  qed (use len in auto)
qed

text \<open>
  C20. Register allocation on both targets: computing the intervals returns, and after the linear scan any two virtual
  registers that are live before, live after or defined by the same instruction have different physical registers unless
  one is spilled, registers are of the right family, and one live across a direct call is callee-saved or spilled, for
  calls that are neither first nor last in their block. Instruction lists and operand slices are well-formed.
\<close>

theorem regalloc_separates:
  assumes "mfn_wf fn L" and "mops_wf fn L"
  shows "\<exists>ivs. ra_intervals fn = Some ivs \<and> allocated (aarch64_ra abi) fn L (ss_ivs (linear_scan (aarch64_ra abi) ivs))
    \<and> allocated (x86_ra abi') fn L (ss_ivs (linear_scan (x86_ra abi') ivs))"
proof -
  obtain ivs where ivs: "ra_intervals fn = Some ivs" "intervals_live fn L ivs" using ra_intervals_spec[OF assms] by blast
  then have n: "\<forall>v < length ivs. \<not> li_spilled (ivs ! v)" by (simp add: intervals_live_def)
  show ?thesis using ivs allocated_scan[OF ivs(2) a64_scan_ok[OF n]] allocated_scan[OF ivs(2) x86_scan_ok[OF n]] by blast
qed


subsection \<open>Examples\<close>

abbreviation (input) vr :: "nat \<Rightarrow> ny_machine_reg" where
  "vr v \<equiv> ny_mreg_vreg v NY_REG_CLASS_GPR64"

definition mk_mi :: "nat \<Rightarrow> ny_machine_opcode \<Rightarrow> ny_machine_reg \<Rightarrow> nat \<Rightarrow> nat \<Rightarrow> nat \<Rightarrow> nat \<Rightarrow> ny_machine_instruction" where
  "mk_mi i opc d s c p n = \<lparr>mi_id = i, mi_opcode = opc, mi_flags = 0, mi_def = d, mi_op_start = s, mi_op_count = c,
     mi_block = 0, mi_prev = p, mi_next = n\<rparr>"

text \<open>A function of one parameter \<open>v0\<close>: a call with opcode \<open>opc\<close>, then a return of \<open>v0\<close>.\<close>

definition call_fn :: "ny_machine_opcode \<Rightarrow> ny_machine_function" where
  "call_fn opc = (ny_mfunc_init 0 ''f'' 4 0)\<lparr>mf_entry := 0, mf_vreg_classes := [NY_REG_CLASS_GPR64], mf_params := [(vr 0, 4, NY_INVALID)],
     mf_blocks := [\<lparr>mb_id = 0, mb_name = ''entry'', mb_first = 0, mb_last = 1, mb_inst_count = 2, mb_preds = [], mb_succs = []\<rparr>],
     mf_insts := [mk_mi 0 opc zero_mreg 0 0 NY_INVALID 1, mk_mi 1 NY_MOPC_RET zero_mreg 0 1 0 NY_INVALID],
     mf_operands := [ny_mop_reg (vr 0)]\<rparr>"

lemma call_fn_wf: "mfn_wf (call_fn opc) [[0, 1]]" "mops_wf (call_fn opc) [[0, 1]]"
  by (simp_all add: mfn_wf_def mblock_ok_def mops_wf_def call_fn_def mk_mi_def NY_INVALID_def)

lemma regalloc_separates_witness:
  "\<exists>ivs. ra_intervals (call_fn NY_MOPC_CALL) = Some ivs
    \<and> allocated (aarch64_ra NY_ABI_AAPCS64) (call_fn NY_MOPC_CALL) [[0, 1]] (ss_ivs (linear_scan (aarch64_ra NY_ABI_AAPCS64) ivs))
    \<and> allocated (x86_ra NY_ABI_SYSV_AMD64) (call_fn NY_MOPC_CALL) [[0, 1]] (ss_ivs (linear_scan (x86_ra NY_ABI_SYSV_AMD64) ivs))"
  by (rule regalloc_separates[OF call_fn_wf])

lemma call_fn_live: "vreg_live (call_fn opc) [[0, 1]] 0 1 0" "0 \<notin> vreg_defs (call_fn opc) 0"
proof -
  have "0 \<in> vreg_uses (call_fn opc) 1"
    by (simp add: vreg_uses_def mops_def subarray_def call_fn_def mk_mi_def op_vregs_def ny_mop_reg_def ny_mreg_vreg_def)
  then show "vreg_live (call_fn opc) [[0, 1]] 0 1 0" by (intro vreg_live.use) simp_all
  show "0 \<notin> vreg_defs (call_fn opc) 0"
    by (simp add: vreg_defs_def mem_vregs_def call_fn_def mk_mi_def zero_mreg_def ny_mreg_is_valid_def)
qed

text \<open>
  Two calls with values live across them: a direct call as the first instruction of the function while the parameter is
  live, and an indirect call while \<open>v1\<close> is live.
\<close>

lemma x86_initial_mask: "initial_free (x86_ra NY_ABI_SYSV_AMD64) = 0xFFF3CF"
  by (simp add: initial_free_def x86_ra_def x86_free_reg_def s_sysv_gpr_caller_saved_def s_sysv_gpr_callee_saved_def s_fp_caller_saved_def)

lemmas x86_scan_defs = scan_step_def expire_def choose_reg_def first_avail_def scan_assign_def insert_active_def x86_ra_def fp_class_def
  find_victim_def good_victim_def scan_spill_def s_fp_caller_saved_def s_sysv_gpr_caller_saved_def x86_abi_is_callee_saved_def
  x86_is_reg_available_def x86_take_reg_def mk_interval_def Let_def

definition calls_fn :: ny_machine_function where
  "calls_fn = (ny_mfunc_init 0 ''f'' 4 0)\<lparr>mf_entry := 0, mf_vreg_classes := [NY_REG_CLASS_GPR64, NY_REG_CLASS_GPR64], mf_params := [(vr 0, 4, NY_INVALID)],
     mf_blocks := [\<lparr>mb_id = 0, mb_name = ''entry'', mb_first = 0, mb_last = 3, mb_inst_count = 4, mb_preds = [], mb_succs = []\<rparr>],
     mf_insts := [mk_mi 0 NY_MOPC_CALL zero_mreg 0 0 NY_INVALID 1, mk_mi 1 NY_MOPC_COPY (vr 1) 0 0 0 2,
       mk_mi 2 NY_MOPC_CALL_IND zero_mreg 0 0 1 3, mk_mi 3 NY_MOPC_RET zero_mreg 0 2 2 NY_INVALID],
     mf_operands := [ny_mop_reg (vr 0), ny_mop_reg (vr 1)]\<rparr>"

lemma calls_fn_sel:
  "mf_vreg_classes calls_fn = [NY_REG_CLASS_GPR64, NY_REG_CLASS_GPR64]" "mf_params calls_fn = [(vr 0, 4, NY_INVALID)]"
  "mf_blocks calls_fn = [\<lparr>mb_id = 0, mb_name = ''entry'', mb_first = 0, mb_last = 3, mb_inst_count = 4, mb_preds = [], mb_succs = []\<rparr>]"
  "mf_insts calls_fn = [mk_mi 0 NY_MOPC_CALL zero_mreg 0 0 NY_INVALID 1, mk_mi 1 NY_MOPC_COPY (vr 1) 0 0 0 2,
       mk_mi 2 NY_MOPC_CALL_IND zero_mreg 0 0 1 3, mk_mi 3 NY_MOPC_RET zero_mreg 0 2 2 NY_INVALID]"
  "mf_operands calls_fn = [ny_mop_reg (vr 0), ny_mop_reg (vr 1)]"
  by (simp_all add: calls_fn_def)
lemma calls_fn_wf: "mfn_wf calls_fn [[0, 1, 2, 3]]" "mops_wf calls_fn [[0, 1, 2, 3]]"
  by (simp_all add: mfn_wf_def mblock_ok_def mops_wf_def calls_fn_sel mk_mi_def NY_INVALID_def)

definition calls_ivs :: "live_interval list" where
  "calls_ivs = [(mk_interval 0 0 3 NY_REG_CLASS_GPR64 False)\<lparr>li_slot := NY_INVALID\<rparr>, (mk_interval 1 1 3 NY_REG_CLASS_GPR64 False)\<lparr>li_slot := NY_INVALID\<rparr>]"

lemma calls_intervals: "ra_intervals calls_fn = Some calls_ivs"
proof -
  have b: "ra_block_ranges calls_fn = Some (([0], [3]), 4)"
    unfolding ra_block_ranges_def using ra_ranges_spec[OF calls_fn_wf(1), of 1] by (simp add: calls_fn_sel bstart_def)
  have s: "ra_scan_block calls_fn w b 0 s = foldM (\<lambda>s i. ra_inst calls_fn w b s (mf_insts calls_fn ! i)) s [0, 1, 2, 3]" for w b s
    using ra_scan_list(1)[OF wf_linked(1)[OF calls_fn_wf(1), where b = 0] wf_linked(3)[OF calls_fn_wf(1), where b = 0], where words = w and b = b and s = s]
     by (simp add: calls_fn_sel)
  have sol: "ra_solve calls_fn (Suc 0) [1] [2] [0] [0] = Some ([1], [0])"
    by (subst ra_solve.simps, simp add: ra_flow_block_def calls_fn_sel, subst ra_solve.simps, simp add: ra_flow_block_def calls_fn_sel)
  show ?thesis 
   unfolding ra_intervals_def calls_ivs_def Let_def b
   by (simp add: s calls_fn_sel sol upt_rec ra_inst_def mk_mi_def ra_use_operand_def mfunc_op_def ny_mop_reg_def ny_mreg_vreg_def ra_use_def
      lv_test_def lv_set_def ra_touch_def ra_init_interval_def ra_def_def zero_mreg_def ny_mreg_is_valid_def ra_scan_params_def ra_extend_def
      ra_mark_calls_def ra_unused_def mk_interval_def NY_INVALID_def)
qed
lemma calls_scan: "map li_phys (ss_ivs (linear_scan (x86_ra NY_ABI_SYSV_AMD64) calls_ivs)) = [9, 8]"
proof -
  have o: "scan_order calls_ivs = [0, 1]"
    by (simp add: scan_order_def calls_ivs_def upt_rec mk_interval_def)
  show ?thesis unfolding linear_scan_def o x86_initial_mask
    by (simp add: calls_ivs_def upt_rec x86_scan_defs)
qed
lemma calls_live: "vreg_live calls_fn [[0, 1, 2, 3]] 0 1 0" "vreg_live calls_fn [[0, 1, 2, 3]] 0 3 1"
proof -
  have u: "{0, 1} \<subseteq> vreg_uses calls_fn 3"
    by (simp add: vreg_uses_def mops_def subarray_def calls_fn_sel mk_mi_def op_vregs_def ny_mop_reg_def ny_mreg_vreg_def)
  have d: "0 \<notin> vreg_defs calls_fn 1" "0 \<notin> vreg_defs calls_fn 2"
    by (simp_all add: vreg_defs_def mem_vregs_def calls_fn_sel mk_mi_def zero_mreg_def ny_mreg_is_valid_def ny_mreg_vreg_def)
  have 3: "vreg_live calls_fn [[0, 1, 2, 3]] 0 3 v" if "v \<in> {0, 1}" for v by (rule vreg_live.use) (use u that in auto)
  then show "vreg_live calls_fn [[0, 1, 2, 3]] 0 3 1" by simp
  have "vreg_live calls_fn [[0, 1, 2, 3]] 0 2 0" by (rule vreg_live.pass) (use 3 d in \<open>simp_all add: numeral_3_eq_3\<close>)
  then have 2: "vreg_live calls_fn [[0, 1, 2, 3]] 0 (Suc 1) 0" by (simp add: numeral_2_eq_2)
  show "vreg_live calls_fn [[0, 1, 2, 3]] 0 1 0" by (rule vreg_live.pass[OF _ 2]) (use d in simp_all)
qed

text \<open>
  C21. The register allocators miss two kinds of call. In a function that begins with a direct call while its parameter is
  live, and makes an indirect call while another value is live, neither interval is marked as crossing a call and both
  values get the caller-saved registers R9 and R8 on x86-64, which the calls may overwrite.
\<close>

theorem regalloc_calls_clobber:
  "ra_intervals calls_fn = Some calls_ivs \<and> map li_phys (ss_ivs (linear_scan (x86_ra NY_ABI_SYSV_AMD64) calls_ivs)) = [9, 8]
   \<and> \<not> x86_abi_is_callee_saved NY_ABI_SYSV_AMD64 9 \<and> \<not> x86_abi_is_callee_saved NY_ABI_SYSV_AMD64 8
   \<and> mi_opcode (mf_insts calls_fn ! 0) = NY_MOPC_CALL \<and> vreg_live calls_fn [[0, 1, 2, 3]] 0 1 0
   \<and> mi_opcode (mf_insts calls_fn ! 2) = NY_MOPC_CALL_IND \<and> vreg_live calls_fn [[0, 1, 2, 3]] 0 3 1"
  using calls_intervals calls_scan calls_live by (simp add: x86_abi_is_callee_saved_def calls_fn_sel mk_mi_def)

text \<open>Nine floating-point intervals that overlap, for eight registers, and an addition of the last two.\<close>

definition fp_pressure :: "live_interval list" where
  "fp_pressure = map (\<lambda>v. mk_interval v v 20 NY_REG_CLASS_FP64 False) [0..<9]"

definition fadd_fn :: ny_machine_function where
  "fadd_fn = (ny_mfunc_init 0 ''f'' 4 0)\<lparr>mf_entry := 0, mf_vreg_classes := replicate 9 NY_REG_CLASS_FP64,
     mf_blocks := [\<lparr>mb_id = 0, mb_name = ''entry'', mb_first = 0, mb_last = 0, mb_inst_count = 1, mb_preds = [], mb_succs = []\<rparr>],
     mf_insts := [mk_mi 0 NY_MOPC_FADD (ny_mreg_vreg 0 NY_REG_CLASS_FP64) 0 2 NY_INVALID NY_INVALID],
     mf_operands := [ny_mop_reg (ny_mreg_vreg 7 NY_REG_CLASS_FP64), ny_mop_reg (ny_mreg_vreg 8 NY_REG_CLASS_FP64)]\<rparr>"

lemma fp_pressure_scan: "map (\<lambda>i. (li_phys i, li_spilled i, li_class i)) (ss_ivs (linear_scan (x86_ra NY_ABI_SYSV_AMD64) fp_pressure)) =
   map (\<lambda>r. (r, False, NY_REG_CLASS_FP64)) [16, 17, 18, 19, 20, 21, 22, 23] @ [(255, True, NY_REG_CLASS_FP64)]"
proof -
  have o: "scan_order fp_pressure = [0, 1, 2, 3, 4, 5, 6, 7, 8]" by (simp add: scan_order_def fp_pressure_def mk_interval_def upt_rec)
  show ?thesis unfolding linear_scan_def o x86_initial_mask
    by (simp add: upt_rec fp_pressure_def x86_scan_defs)
qed

lemma fadd_rewrite:
  assumes "out = ss_ivs (linear_scan (x86_ra NY_ABI_SYSV_AMD64) fp_pressure)"
  shows "li_phys (out ! 7) = 23 \<and> \<not> li_spilled (out ! 7) \<and> li_spilled (out ! 8) \<and> (\<exists>fn'. ra_rewrite_inst (x86_ra NY_ABI_SYSV_AMD64) out fadd_fn 0 = Some fn'
     \<and> map mo_value (mops fn' 0) = [MopReg (ny_mreg_preg 23 NY_REG_CLASS_FP64), MopReg (ny_mreg_preg 23 NY_REG_CLASS_FP64)])"
proof -
  note sc = fp_pressure_scan[folded assms]
  have len: "length out = 9" using arg_cong[OF sc, of length] by simp
  have e: "(li_phys (out ! v), li_spilled (out ! v), li_class (out ! v)) = (map (\<lambda>r. (r, False, NY_REG_CLASS_FP64)) [16, 17, 18, 19, 20, 21, 22, 23] @ [(255, True, NY_REG_CLASS_FP64)]) ! v" if "v < 9" for v
    using arg_cong[OF sc, of "\<lambda>xs. xs ! v"] len that by simp
  have o: "li_spilled (out ! 8)" "li_class (out ! 8) = NY_REG_CLASS_FP64" "\<not> li_spilled (out ! 7)" "li_class (out ! 7) = NY_REG_CLASS_FP64" "li_phys (out ! 7) = 23"
    "\<not> li_spilled (out ! 0)"
    using e[of 8, simplified] e[of 7, simplified] e[of 0, simplified] by simp_all
  show ?thesis using o
    by (simp add: ra_rewrite_inst_def len ra_rewrite_operand_def ra_rewrite_reg_def fadd_fn_def mk_mi_def upt_rec mfunc_op_def ny_mop_reg_def ny_mreg_vreg_def set_mop_def ra_reload_def nth_scratch_def
     x86_ra_def fp_class_def ny_mfunc_insert_before_def mfunc_new_inst_def mfunc_push_operands_def mfunc_grow_lazy_arrays_def Let_def ny_mfunc_init_def ny_mreg_preg_def assigned_def ra_rewrite_def_def
     ny_mreg_is_valid_def mops_def subarray_def NY_INVALID_def)
qed

text \<open>
  Spill code overwrites an allocated register on x86-64. With nine overlapping floating-point intervals the eighth is
  given XMM7 and the ninth is spilled; rewriting an addition of these two reloads the ninth into XMM7, which is also the
  first scratch register, so both operands become XMM7 and the value of the eighth is lost.
\<close>

theorem regalloc_scratch_clobbers:
  "let out = ss_ivs (linear_scan (x86_ra NY_ABI_SYSV_AMD64) fp_pressure) in
   li_phys (out ! 7) = 23 \<and> \<not> li_spilled (out ! 7) \<and> li_spilled (out ! 8)
   \<and> (\<exists>fn'. ra_rewrite_inst (x86_ra NY_ABI_SYSV_AMD64) out fadd_fn 0 = Some fn'
     \<and> map mo_value (mops fn' 0) = [MopReg (ny_mreg_preg 23 NY_REG_CLASS_FP64), MopReg (ny_mreg_preg 23 NY_REG_CLASS_FP64)])"
  using fadd_rewrite[OF refl] by (simp add: Let_def)

end
