(* ===== verification/Builder.thy ===== *)
theory Builder
  imports Module IR_Lists
begin

text \<open>
  The builder, \<^verbatim>\<open>src/ir/builder.c\<close>: calls that append to the current block of the current function of a module.  The
  pointer to the function is a path into the module; a call without a function or a block fails an assertion (\<open>None\<close>).
\<close>

subsection \<open>Calls\<close>

record ny_builder =
  bd_module :: ny_module
  bd_fn :: nat
  bd_block :: nat

definition ny_builder_init :: "ny_module \<Rightarrow> ny_builder" where
  "ny_builder_init md = \<lparr>bd_module = md, bd_fn = NY_INVALID, bd_block = NY_INVALID_BLOCK\<rparr>"

definition ny_builder_set_insert_point :: "ny_builder \<Rightarrow> nat \<Rightarrow> nat \<Rightarrow> ny_builder" where
  "ny_builder_set_insert_point b fn_id block_id = b\<lparr>bd_fn := fn_id, bd_block := block_id\<rparr>"

definition ny_builder_current_function :: "ny_builder \<Rightarrow> ny_function option" where
  "ny_builder_current_function b = ny_module_get_function (bd_module b) (bd_fn b)"

definition put_function :: "ny_builder \<Rightarrow> ny_function \<Rightarrow> ny_builder" where
  "put_function b fn = b\<lparr>bd_module := (bd_module b)\<lparr>m_functions := (m_functions (bd_module b))[bd_fn b := fn]\<rparr>\<rparr>"

definition ny_builder_add_function :: "ny_builder \<Rightarrow> string \<Rightarrow> nat \<Rightarrow> ny_builder \<times> nat" where
  "ny_builder_add_function b name ret_type =
     (let (md, fn_id) = ny_module_create_function (bd_module b) name ret_type 0
      in (b\<lparr>bd_module := md, bd_fn := fn_id, bd_block := NY_INVALID_BLOCK\<rparr>, fn_id))"

definition ny_builder_add_param :: "ny_builder \<Rightarrow> string \<Rightarrow> nat \<Rightarrow> (ny_builder \<times> nat) option" where
  "ny_builder_add_param b name ty = do {
     fn \<leftarrow> ny_builder_current_function b;
     let idx = u32 (length (f_params fn));
     let fn = ny_function_add_param fn ty name;
     let (fn, v) = ny_function_create_value fn ty NY_VAL_ARGUMENT NY_INVALID_INST idx name;
     Some (put_function b fn, v)
   }"

definition ny_builder_add_block :: "ny_builder \<Rightarrow> string \<Rightarrow> (ny_builder \<times> nat) option" where
  "ny_builder_add_block b name = do {
     fn \<leftarrow> ny_builder_current_function b;
     let (fn, blk) = ny_function_create_block fn name;
     Some (put_function b fn, blk)
   }"

text \<open>The two shapes of the instruction calls: with a new result value, and without a result.\<close>

definition emit_value :: "ny_builder \<Rightarrow> ny_opcode \<Rightarrow> ny_operand list \<Rightarrow> nat \<Rightarrow> string \<Rightarrow> (ny_builder \<times> nat) option" where
  "emit_value b opc ops ty name = do {
     fn \<leftarrow> ny_builder_current_function b;
     assert_c (bd_block b \<noteq> NY_INVALID_BLOCK);
     let (fn, res) = ny_function_create_value fn ty NY_VAL_INSTRUCTION NY_INVALID_INST 0 name;
     (fn, _) \<leftarrow> ny_function_append_instruction fn (bd_block b) opc res ops 0;
     Some (put_function b fn, res)
   }"

definition emit :: "ny_builder \<Rightarrow> ny_opcode \<Rightarrow> ny_operand list \<Rightarrow> (ny_builder \<times> nat) option" where
  "emit b opc ops = do {
     fn \<leftarrow> ny_builder_current_function b;
     assert_c (bd_block b \<noteq> NY_INVALID_BLOCK);
     (fn, i) \<leftarrow> ny_function_append_instruction fn (bd_block b) opc NY_INVALID_VALUE ops 0;
     Some (put_function b fn, i)
   }"

definition ny_builder_const_i64 :: "ny_builder \<Rightarrow> 64 word \<Rightarrow> nat \<Rightarrow> string \<Rightarrow> (ny_builder \<times> nat) option" where
  "ny_builder_const_i64 b val ty name = emit_value b NY_OPCODE_CONST [OpInt val] ty name"

definition ny_builder_const_f64 :: "ny_builder \<Rightarrow> 64 word \<Rightarrow> nat \<Rightarrow> string \<Rightarrow> (ny_builder \<times> nat) option" where
  "ny_builder_const_f64 b val ty name = emit_value b NY_OPCODE_CONST [OpFloat val] ty name"

definition ny_builder_binary :: "ny_builder \<Rightarrow> ny_opcode \<Rightarrow> nat \<Rightarrow> nat \<Rightarrow> nat \<Rightarrow> string \<Rightarrow> (ny_builder \<times> nat) option" where
  "ny_builder_binary b opc lhs rhs ty name = emit_value b opc [OpValue lhs, OpValue rhs] ty name"

definition ny_builder_add :: "ny_builder \<Rightarrow> nat \<Rightarrow> nat \<Rightarrow> nat \<Rightarrow> string \<Rightarrow> (ny_builder \<times> nat) option" where
  "ny_builder_add b = ny_builder_binary b NY_OPCODE_ADD"

definition ny_builder_sub :: "ny_builder \<Rightarrow> nat \<Rightarrow> nat \<Rightarrow> nat \<Rightarrow> string \<Rightarrow> (ny_builder \<times> nat) option" where
  "ny_builder_sub b = ny_builder_binary b NY_OPCODE_SUB"

definition ny_builder_mul :: "ny_builder \<Rightarrow> nat \<Rightarrow> nat \<Rightarrow> nat \<Rightarrow> string \<Rightarrow> (ny_builder \<times> nat) option" where
  "ny_builder_mul b = ny_builder_binary b NY_OPCODE_MUL"

definition ny_builder_div_s :: "ny_builder \<Rightarrow> nat \<Rightarrow> nat \<Rightarrow> nat \<Rightarrow> string \<Rightarrow> (ny_builder \<times> nat) option" where
  "ny_builder_div_s b = ny_builder_binary b NY_OPCODE_DIV_S"

definition ny_builder_div_u :: "ny_builder \<Rightarrow> nat \<Rightarrow> nat \<Rightarrow> nat \<Rightarrow> string \<Rightarrow> (ny_builder \<times> nat) option" where
  "ny_builder_div_u b = ny_builder_binary b NY_OPCODE_DIV_U"

definition ny_builder_rem_s :: "ny_builder \<Rightarrow> nat \<Rightarrow> nat \<Rightarrow> nat \<Rightarrow> string \<Rightarrow> (ny_builder \<times> nat) option" where
  "ny_builder_rem_s b = ny_builder_binary b NY_OPCODE_REM_S"

definition ny_builder_rem_u :: "ny_builder \<Rightarrow> nat \<Rightarrow> nat \<Rightarrow> nat \<Rightarrow> string \<Rightarrow> (ny_builder \<times> nat) option" where
  "ny_builder_rem_u b = ny_builder_binary b NY_OPCODE_REM_U"

definition ny_builder_neg :: "ny_builder \<Rightarrow> nat \<Rightarrow> nat \<Rightarrow> string \<Rightarrow> (ny_builder \<times> nat) option" where
  "ny_builder_neg b val ty name = emit_value b NY_OPCODE_NEG [OpValue val] ty name"

definition ny_builder_and :: "ny_builder \<Rightarrow> nat \<Rightarrow> nat \<Rightarrow> nat \<Rightarrow> string \<Rightarrow> (ny_builder \<times> nat) option" where
  "ny_builder_and b = ny_builder_binary b NY_OPCODE_AND"

definition ny_builder_or :: "ny_builder \<Rightarrow> nat \<Rightarrow> nat \<Rightarrow> nat \<Rightarrow> string \<Rightarrow> (ny_builder \<times> nat) option" where
  "ny_builder_or b = ny_builder_binary b NY_OPCODE_OR"

definition ny_builder_xor :: "ny_builder \<Rightarrow> nat \<Rightarrow> nat \<Rightarrow> nat \<Rightarrow> string \<Rightarrow> (ny_builder \<times> nat) option" where
  "ny_builder_xor b = ny_builder_binary b NY_OPCODE_XOR"

definition ny_builder_not :: "ny_builder \<Rightarrow> nat \<Rightarrow> nat \<Rightarrow> string \<Rightarrow> (ny_builder \<times> nat) option" where
  "ny_builder_not b val ty name = emit_value b NY_OPCODE_NOT [OpValue val] ty name"

definition ny_builder_shl :: "ny_builder \<Rightarrow> nat \<Rightarrow> nat \<Rightarrow> nat \<Rightarrow> string \<Rightarrow> (ny_builder \<times> nat) option" where
  "ny_builder_shl b = ny_builder_binary b NY_OPCODE_SHL"

definition ny_builder_shr :: "ny_builder \<Rightarrow> nat \<Rightarrow> nat \<Rightarrow> nat \<Rightarrow> string \<Rightarrow> (ny_builder \<times> nat) option" where
  "ny_builder_shr b = ny_builder_binary b NY_OPCODE_SHR"

definition ny_builder_sar :: "ny_builder \<Rightarrow> nat \<Rightarrow> nat \<Rightarrow> nat \<Rightarrow> string \<Rightarrow> (ny_builder \<times> nat) option" where
  "ny_builder_sar b = ny_builder_binary b NY_OPCODE_SAR"

definition ny_builder_cmp :: "ny_builder \<Rightarrow> ny_opcode \<Rightarrow> nat \<Rightarrow> nat \<Rightarrow> string \<Rightarrow> (ny_builder \<times> nat) option" where
  "ny_builder_cmp b opc lhs rhs name = ny_builder_binary b opc lhs rhs NY_TYPE_I8 name"

definition ny_builder_select :: "ny_builder \<Rightarrow> nat \<Rightarrow> nat \<Rightarrow> nat \<Rightarrow> nat \<Rightarrow> string \<Rightarrow> (ny_builder \<times> nat) option" where
  "ny_builder_select b c true_val false_val ty name = emit_value b NY_OPCODE_SELECT [OpValue c, OpValue true_val, OpValue false_val] ty name"

definition ny_builder_load :: "ny_builder \<Rightarrow> nat \<Rightarrow> nat \<Rightarrow> string \<Rightarrow> (ny_builder \<times> nat) option" where
  "ny_builder_load b ptr val_type name = emit_value b NY_OPCODE_LOAD [OpValue ptr] val_type name"

definition ny_builder_store :: "ny_builder \<Rightarrow> nat \<Rightarrow> nat \<Rightarrow> (ny_builder \<times> nat) option" where
  "ny_builder_store b ptr val = emit b NY_OPCODE_STORE [OpValue ptr, OpValue val]"

definition ny_builder_branch :: "ny_builder \<Rightarrow> nat \<Rightarrow> (ny_builder \<times> nat) option" where
  "ny_builder_branch b target = do {
     fn \<leftarrow> ny_builder_current_function b;
     assert_c (bd_block b \<noteq> NY_INVALID_BLOCK);
     fn \<leftarrow> ny_block_add_edge fn (bd_block b) target;
     emit (put_function b fn) NY_OPCODE_BRANCH [OpBlock target]
   }"

definition ny_builder_branch_if :: "ny_builder \<Rightarrow> nat \<Rightarrow> nat \<Rightarrow> nat \<Rightarrow> (ny_builder \<times> nat) option" where
  "ny_builder_branch_if b c true_blk false_blk = do {
     fn \<leftarrow> ny_builder_current_function b;
     assert_c (bd_block b \<noteq> NY_INVALID_BLOCK);
     assert_c (true_blk < length (f_blocks fn) \<and> false_blk < length (f_blocks fn));
     fn \<leftarrow> ny_block_add_edge fn (bd_block b) true_blk;
     fn \<leftarrow> ny_block_add_edge fn (bd_block b) false_blk;
     emit (put_function b fn) NY_OPCODE_BRANCH_IF [OpValue c, OpBlock true_blk, OpBlock false_blk]
   }"

definition ny_builder_ret :: "ny_builder \<Rightarrow> nat \<Rightarrow> (ny_builder \<times> nat) option" where
  "ny_builder_ret b val = (if val \<noteq> NY_INVALID_VALUE then emit b NY_OPCODE_RETURN [OpValue val] else emit b NY_OPCODE_RETURN [])"

definition ny_builder_trap :: "ny_builder \<Rightarrow> (ny_builder \<times> nat) option" where
  "ny_builder_trap b = emit b NY_OPCODE_TRAP []"

definition ny_builder_call :: "ny_builder \<Rightarrow> nat \<Rightarrow> nat list \<Rightarrow> nat \<Rightarrow> string \<Rightarrow> (ny_builder \<times> nat) option" where
  "ny_builder_call b callee args ret_type name =
     (let ops = OpFunction callee # map OpValue args
      in if ret_type \<noteq> NY_TYPE_VOID then emit_value b NY_OPCODE_CALL ops ret_type name
         else map_option (\<lambda>(b, _). (b, NY_INVALID_VALUE)) (emit b NY_OPCODE_CALL ops))"

end
