(* ===== verification/Builder_Inv.thy ===== *)
theory Builder_Inv
  imports Builder IR_Ops
begin

text \<open>
  Every sequence of builder calls (\<^verbatim>\<open>src/ir/builder.c\<close>) leaves well-formed functions: links and headers represent
  instruction lists, edges are mirrored, operand slices are inside the array, and every value of an instruction names the
  instruction that produces it.
\<close>

subsection \<open>Sequences of calls\<close>

inductive builder_call :: "ny_builder \<Rightarrow> ny_builder \<Rightarrow> bool" where
  insert_point: "builder_call b (ny_builder_set_insert_point b f blk)"
| new_function: "builder_call b (fst (ny_builder_add_function b name ty))"
| param: "ny_builder_add_param b name ty = Some (b', v) \<Longrightarrow> builder_call b b'"
| block: "ny_builder_add_block b name = Some (b', v) \<Longrightarrow> builder_call b b'"
| const_int: "ny_builder_const_i64 b w ty name = Some (b', v) \<Longrightarrow> builder_call b b'"
| const_float: "ny_builder_const_f64 b w ty name = Some (b', v) \<Longrightarrow> builder_call b b'"
| binary: "ny_builder_binary b opc x y ty name = Some (b', v) \<Longrightarrow> opc \<noteq> NY_OPCODE_NONE \<Longrightarrow> builder_call b b'"
| neg: "ny_builder_neg b x ty name = Some (b', v) \<Longrightarrow> builder_call b b'"
| not: "ny_builder_not b x ty name = Some (b', v) \<Longrightarrow> builder_call b b'"
| select: "ny_builder_select b c x y ty name = Some (b', v) \<Longrightarrow> builder_call b b'"
| load: "ny_builder_load b p ty name = Some (b', v) \<Longrightarrow> builder_call b b'"
| store: "ny_builder_store b p x = Some (b', i) \<Longrightarrow> builder_call b b'"
| branch: "ny_builder_branch b t = Some (b', i) \<Longrightarrow> builder_call b b'"
| branch_if: "ny_builder_branch_if b c t f = Some (b', i) \<Longrightarrow> builder_call b b'"
| ret: "ny_builder_ret b x = Some (b', i) \<Longrightarrow> builder_call b b'"
| trap: "ny_builder_trap b = Some (b', i) \<Longrightarrow> builder_call b b'"
| call: "ny_builder_call b f args ty name = Some (b', v) \<Longrightarrow> length args < 65535 \<Longrightarrow> builder_call b b'"

text \<open>Ids are 32 bits wide; a run stops before they are used up.\<close>

definition ids_left :: "ny_function \<Rightarrow> bool" where
  "ids_left fn \<longleftrightarrow> length (f_blocks fn) + 1 < NY_INVALID \<and> length (f_insts fn) + 1 < NY_INVALID \<and> length (f_operands fn) < NY_INVALID
     \<and> length (f_values fn) < NY_INVALID"

inductive builder_runs :: "ny_builder \<Rightarrow> bool" where
  start: "builder_runs (ny_builder_init (ny_module_init name))"
| step: "builder_runs b \<Longrightarrow> \<forall>fn \<in> set (m_functions (bd_module b)). ids_left fn \<Longrightarrow> length (m_functions (bd_module b)) < NY_INVALID \<Longrightarrow>
    builder_call b b' \<Longrightarrow> builder_runs b'"

subsection \<open>The invariant of a function\<close>

definition value_defs :: "ny_function \<Rightarrow> bool" where
  "value_defs fn \<longleftrightarrow> (\<forall>v < length (f_values fn). v_id (f_values fn ! v) = v \<and> (v_kind (f_values fn ! v) = NY_VAL_INSTRUCTION \<longrightarrow>
     (let d = v_def (f_values fn ! v) in d < length (f_insts fn) \<and> i_result (f_insts fn ! d) = v \<and> i_opcode (f_insts fn ! d) \<noteq> NY_OPCODE_NONE)))"

definition slices_in :: "ny_function \<Rightarrow> bool" where
  "slices_in fn \<longleftrightarrow> (\<forall>i < length (f_insts fn). i_op_start (f_insts fn ! i) + i_op_count (f_insts fn ! i) \<le> length (f_operands fn))"

definition well_built :: "ny_function \<Rightarrow> bool" where
  "well_built fn \<longleftrightarrow> (\<exists>L. fn_wf fn L) \<and> edges_wf fn \<and> value_defs fn \<and> slices_in fn"

lemma fn_wf_same: "f_blocks fn' = f_blocks fn \<Longrightarrow> f_insts fn' = f_insts fn \<Longrightarrow> fn_wf fn' L \<longleftrightarrow> fn_wf fn L"
  by (simp add: fn_wf_def)

lemma edges_wf_same: "f_blocks fn' = f_blocks fn \<Longrightarrow> edges_wf fn' \<longleftrightarrow> edges_wf fn"
  by (simp add: edges_wf_def edges_def)

lemma fn_wf_edges_only:
  assumes "fn_wf fn L" "f_insts fn' = f_insts fn" "length (f_blocks fn') = length (f_blocks fn)"
    and "\<And>c. c < length (f_blocks fn) \<Longrightarrow> b_id (f_blocks fn' ! c) = b_id (f_blocks fn ! c) \<and> b_first (f_blocks fn' ! c) = b_first (f_blocks fn ! c)
      \<and> b_last (f_blocks fn' ! c) = b_last (f_blocks fn ! c) \<and> b_inst_count (f_blocks fn' ! c) = b_inst_count (f_blocks fn ! c)"
  shows "fn_wf fn' L"
  using assms unfolding fn_wf_def block_ok_def by simp

lemma init_built: "well_built (ny_function_init f name ty cc)"
  by (auto simp: well_built_def fn_wf_def ny_function_init_def edges_wf_def value_defs_def slices_in_def NY_INVALID_def)

lemma add_param_built: "well_built fn \<Longrightarrow> well_built (ny_function_add_param fn ty name)"
  using fn_wf_same[of "ny_function_add_param fn ty name" fn] edges_wf_same[of "ny_function_add_param fn ty name" fn]
  by (auto simp: well_built_def ny_function_add_param_def value_defs_def slices_in_def)

lemma create_value_shape:
  assumes "length (f_values fn) < NY_INVALID"
  shows "ny_function_create_value fn ty kind d idx name
    = (fn\<lparr>f_values := f_values fn @ [\<lparr>v_id = length (f_values fn), v_type = ty, v_kind = kind, v_def = d, v_index = idx, v_name = name\<rparr>]\<rparr>, length (f_values fn))"
  using assms by (simp add: ny_function_create_value_def NY_INVALID_def Let_def)

lemma create_block_built:
  assumes wb: "well_built fn" and left: "ids_left fn"
  shows "well_built (fst (ny_function_create_block fn name))"
proof -
  obtain L where L: "fn_wf fn L" using wb by (auto simp: well_built_def)
  let ?n = "length (f_blocks fn)"
  define nb where "nb = zero_block\<lparr>b_id := ?n, b_name := name, b_first := NY_INVALID_INST, b_last := NY_INVALID_INST\<rparr>"
  define fn' where "fn' = fst (ny_function_create_block fn name)"
  have n: "u32 ?n = ?n" using left by (simp add: ids_left_def NY_INVALID_def)
  have f: "f_blocks fn' = f_blocks fn @ [nb]" "f_insts fn' = f_insts fn" "f_values fn' = f_values fn" "f_operands fn' = f_operands fn"
    using n by (simp_all add: fn'_def ny_function_create_block_def Let_def nb_def)
  have lenL: "length L = ?n" using L by (simp add: fn_wf_def)
  have "block_ok (f_insts fn') (f_blocks fn' ! c) c ((L @ [[]]) ! c)" if c: "c < Suc ?n" for c
  proof (cases "c = ?n")
    case True
    then show ?thesis using lenL by (simp add: f block_ok_def nb_def zero_block_def nth_append)
  next
    case False
    then show ?thesis using fn_wf_block[OF L, of c] c lenL by (simp add: f nth_append)
  qed
  moreover have "i_block (f_insts fn ! i) < Suc ?n \<and> i \<in> set ((L @ [[]]) ! i_block (f_insts fn ! i))"
    if "i < length (f_insts fn)" "i_opcode (f_insts fn ! i) \<noteq> NY_OPCODE_NONE" for i
  proof -
    have "i_block (f_insts fn ! i) < ?n \<and> i \<in> set (L ! i_block (f_insts fn ! i))" using L that by (simp add: fn_wf_def)
    then show ?thesis using lenL by (simp add: nth_append)
  qed
  ultimately have "fn_wf fn' (L @ [[]])" using L left unfolding fn_wf_def f by (simp add: ids_left_def)
  moreover have "edges_wf fn'"
  proof -
    have ew: "edges_wf fn" using wb by (simp add: well_built_def)
    have old: "f_blocks fn' ! x = f_blocks fn ! x" if "x < ?n" for x using that by (simp add: f nth_append)
    have new: "f_blocks fn' ! ?n = nb" by (simp add: f)
    have e: "edges fn' = edges fn" using old new by (auto simp: edges_def f less_Suc_eq nb_def zero_block_def)
    have out: "(p, ?n) \<notin> edges fn" for p using ew by (auto simp: edges_wf_def edges_def)
    show ?thesis unfolding edges_wf_def e
    proof (intro allI impI)
      fix x assume "x < length (f_blocks fn')"
      then show "b_id (f_blocks fn' ! x) = x \<and> distinct (b_succs (f_blocks fn' ! x)) \<and> distinct (b_preds (f_blocks fn' ! x))
        \<and> set (b_succs (f_blocks fn' ! x)) \<subseteq> {..<length (f_blocks fn')} \<and> set (b_preds (f_blocks fn' ! x)) = {p. (p, x) \<in> edges fn}"
      proof (cases "x = ?n")
        case False
        then have x: "x < ?n" using \<open>x < length (f_blocks fn')\<close> by (simp add: f)
        have "\<forall>y \<in> set (b_succs (f_blocks fn ! x)). y < Suc ?n" using ew x by (fastforce simp: edges_wf_def)
        then show ?thesis using ew x old[OF x] by (auto simp: edges_wf_def f)
      qed (use new out in \<open>auto simp: f nb_def zero_block_def\<close>)
    qed
  qed
  ultimately show ?thesis using wb f unfolding fn'_def[symmetric] well_built_def value_defs_def slices_in_def by auto
qed

lemma add_edge_built:
  assumes wb: "well_built fn" and e: "ny_block_add_edge fn p s = Some fn'"
  shows "well_built fn' \<and> length (f_blocks fn') = length (f_blocks fn) \<and> f_insts fn' = f_insts fn \<and> f_operands fn' = f_operands fn \<and> f_values fn' = f_values fn"
proof -
  have ps: "p < length (f_blocks fn)" "s < length (f_blocks fn)"
    using e by (auto simp: ny_block_add_edge_def upd_block_def bind_Some_iff rd_eq_Some)
  obtain L where L: "fn_wf fn L" using wb by (auto simp: well_built_def)
  have f: "f_insts fn' = f_insts fn" "f_operands fn' = f_operands fn" "f_values fn' = f_values fn" "length (f_blocks fn') = length (f_blocks fn)"
    using e by (auto simp: ny_block_add_edge_def upd_block_def bind_Some_iff)
  have "b_id (f_blocks fn' ! c) = b_id (f_blocks fn ! c) \<and> b_first (f_blocks fn' ! c) = b_first (f_blocks fn ! c)
      \<and> b_last (f_blocks fn' ! c) = b_last (f_blocks fn ! c) \<and> b_inst_count (f_blocks fn' ! c) = b_inst_count (f_blocks fn ! c)"
    if "c < length (f_blocks fn)" for c
    using e that ps by (auto simp: ny_block_add_edge_def upd_block_def bind_Some_iff nth_list_update)
  then have "fn_wf fn' L" by (intro fn_wf_edges_only[OF L f(1,4)])
  moreover have "edges_wf fn'" using block_edges_spec[of fn p s] wb ps e by (auto simp: well_built_def)
  ultimately show ?thesis using wb f by (auto simp: well_built_def value_defs_def slices_in_def)
qed

text \<open>Appending keeps old values; a fresh value given as the result gets its definition.\<close>

lemma append_built:
  assumes wf: "fn_wf fn L" and ew: "edges_wf fn" and sl: "slices_in fn" and opc: "opc \<noteq> NY_OPCODE_NONE"
    and room: "length (f_insts fn) + 1 < NY_INVALID" "length (f_operands fn) < NY_INVALID" "length ops < 65536"
    and app: "ny_function_append_instruction fn b opc res ops fl = Some (fn', i)"
    and vals: "\<forall>v < length (f_values fn). v_id (f_values fn ! v) = v \<and> (v \<noteq> res \<longrightarrow> v_kind (f_values fn ! v) = NY_VAL_INSTRUCTION \<longrightarrow>
       (let d = v_def (f_values fn ! v) in d < length (f_insts fn) \<and> i_result (f_insts fn ! d) = v \<and> i_opcode (f_insts fn ! d) \<noteq> NY_OPCODE_NONE))"
    and res: "res = NY_INVALID_VALUE \<and> length (f_values fn) \<le> NY_INVALID \<or> res < length (f_values fn) \<and> res \<noteq> NY_INVALID_VALUE"
  shows "well_built fn'"
proof -
  let ?n = "length (f_insts fn)"
  have b: "b < length (f_blocks fn)" using app by (auto simp: ny_function_append_instruction_def bind_Some_iff rd_eq_Some)
  have pay: "fn_wf fn' (L[b := L ! b @ [?n]])" "payload (f_insts fn' ! ?n) = (?n, opc, fl, res, length (f_operands fn), length ops)"
    "\<forall>i < ?n. payload (f_insts fn' ! i) = payload (f_insts fn ! i)" "f_operands fn' = f_operands fn @ ops" "block_edges fn' = block_edges fn"
    using append_instruction_refines[OF wf b opc room(1,2,3), of res fl] app by auto
  obtain len: "length (f_insts fn') = Suc ?n"
    and fv: "f_values fn' = f_values (if res \<noteq> NY_INVALID_VALUE then upd_value fn res (\<lambda>v. v\<lparr>v_def := ?n\<rparr>) else fn)"
    using append_instruction_shape[OF wf b room(1), of opc res ops fl] app by auto
  have p: "i_result (f_insts fn' ! j) = i_result (f_insts fn ! j)" "i_opcode (f_insts fn' ! j) = i_opcode (f_insts fn ! j)"
    "i_op_start (f_insts fn' ! j) = i_op_start (f_insts fn ! j)" "i_op_count (f_insts fn' ! j) = i_op_count (f_insts fn ! j)" if "j < ?n" for j
    using pay(3) that by (auto simp: payload_def)
  have q: "i_result (f_insts fn' ! ?n) = res" "i_opcode (f_insts fn' ! ?n) = opc" "i_op_start (f_insts fn' ! ?n) = length (f_operands fn)"
    "i_op_count (f_insts fn' ! ?n) = length ops" using pay(2) by (auto simp: payload_def)
  have "slices_in fn'" unfolding slices_in_def len pay(4)
  proof (intro allI impI)
    fix j assume j: "j < Suc ?n"
    show "i_op_start (f_insts fn' ! j) + i_op_count (f_insts fn' ! j) \<le> length (f_operands fn @ ops)"
    proof (cases "j = ?n")
      case True
      then show ?thesis using q by simp
    next
      case False
      then have "j < ?n" using j by simp
      then show ?thesis using p(3,4) sl unfolding slices_in_def by (simp add: trans_le_add1)
    qed
  qed
  moreover have "value_defs fn'" unfolding value_defs_def
  proof (intro allI impI)
    fix v assume "v < length (f_values fn')"
    then have v: "v < length (f_values fn)" by (simp add: fv split: if_splits)
    have vl: "v = res \<Longrightarrow> v \<noteq> NY_INVALID_VALUE" using res v by auto
    have old: "f_values fn' ! v = f_values fn ! v" if "v \<noteq> res" using that v by (simp add: fv upd_value_def nth_list_update)
    have new: "f_values fn' ! v = (f_values fn ! v)\<lparr>v_def := ?n\<rparr>" if "v = res" using that v vl by (simp add: fv upd_value_def)
    show "v_id (f_values fn' ! v) = v \<and> (v_kind (f_values fn' ! v) = NY_VAL_INSTRUCTION \<longrightarrow>
      (let d = v_def (f_values fn' ! v) in d < length (f_insts fn') \<and> i_result (f_insts fn' ! d) = v \<and> i_opcode (f_insts fn' ! d) \<noteq> NY_OPCODE_NONE))"
    proof (cases "v = res")
      case True
      then show ?thesis using new q vals v opc len by (simp add: Let_def)
    next
      case False
      then show ?thesis using old vals v p(1,2) len by (auto simp: Let_def)
    qed
  qed
  moreover have "edges_wf fn'" by (rule edges_wf_cong(2)[OF pay(5,1) ew])
  ultimately show ?thesis using pay(1) by (auto simp: well_built_def)
qed

subsection \<open>Every call keeps it\<close>

definition built :: "ny_builder \<Rightarrow> bool" where
  "built b \<longleftrightarrow> (\<forall>fn \<in> set (m_functions (bd_module b)). well_built fn)"

lemma current_function:
  assumes "ny_builder_current_function b = Some fn"
  shows "fn \<in> set (m_functions (bd_module b))"
  using assms by (auto simp: ny_builder_current_function_def ny_module_get_function_def not_le split: if_splits)

lemma put_built: "built b \<Longrightarrow> well_built fn \<Longrightarrow> built (put_function b fn)"
  unfolding built_def put_function_def by (auto dest: set_update_subset_insert[THEN subsetD])

lemma emit_value_built:
  assumes b: "built b" and left: "\<forall>fn \<in> set (m_functions (bd_module b)). ids_left fn" and opc: "opc \<noteq> NY_OPCODE_NONE" and ops: "length ops < 65536"
    and e: "emit_value b opc ops ty name = Some (b', v)"
  shows "built b'"
proof -
  obtain fn where fn: "ny_builder_current_function b = Some fn" using e by (auto simp: emit_value_def bind_Some_iff)
  have wb: "well_built fn" and il: "ids_left fn" using current_function[OF fn] b left by (auto simp: built_def)
  define f1 where "f1 = fn\<lparr>f_values := f_values fn @ [\<lparr>v_id = length (f_values fn), v_type = ty, v_kind = NY_VAL_INSTRUCTION, v_def = NY_INVALID_INST, v_index = 0, v_name = name\<rparr>]\<rparr>"
  have c: "ny_function_create_value fn ty NY_VAL_INSTRUCTION NY_INVALID_INST 0 name = (f1, length (f_values fn))"
    using il by (simp add: create_value_shape ids_left_def f1_def)
  obtain f2 i where app: "ny_function_append_instruction f1 (bd_block b) opc (length (f_values fn)) ops 0 = Some (f2, i)" "b' = put_function b f2"
    using e fn c by (auto simp: emit_value_def bind_Some_iff)
  obtain L where L: "fn_wf fn L" using wb by (auto simp: well_built_def)
  have "well_built f2"
  proof (rule append_built[OF _ _ _ opc _ _ ops app(1)])
    show "fn_wf f1 L" using L fn_wf_same[of f1 fn] by (simp add: f1_def)
    show "edges_wf f1" using wb edges_wf_same[of f1 fn] by (simp add: f1_def well_built_def)
    show "slices_in f1" using wb by (simp add: f1_def well_built_def slices_in_def)
    show "length (f_insts f1) + 1 < NY_INVALID" "length (f_operands f1) < NY_INVALID" using il by (simp_all add: f1_def ids_left_def)
    show "length (f_values fn) = NY_INVALID_VALUE \<and> length (f_values f1) \<le> NY_INVALID \<or> length (f_values fn) < length (f_values f1) \<and> length (f_values fn) \<noteq> NY_INVALID_VALUE"
      using il by (simp add: f1_def ids_left_def)
    have "v_id (f_values f1 ! v) = v \<and> (v \<noteq> length (f_values fn) \<longrightarrow> v_kind (f_values f1 ! v) = NY_VAL_INSTRUCTION \<longrightarrow>
       (let d = v_def (f_values f1 ! v) in d < length (f_insts f1) \<and> i_result (f_insts f1 ! d) = v \<and> i_opcode (f_insts f1 ! d) \<noteq> NY_OPCODE_NONE))"
      if "v < length (f_values f1)" for v
      using that wb by (cases "v = length (f_values fn)") (auto simp: f1_def well_built_def value_defs_def nth_append)
    then show "\<forall>v < length (f_values f1). v_id (f_values f1 ! v) = v \<and> (v \<noteq> length (f_values fn) \<longrightarrow> v_kind (f_values f1 ! v) = NY_VAL_INSTRUCTION \<longrightarrow>
       (let d = v_def (f_values f1 ! v) in d < length (f_insts f1) \<and> i_result (f_insts f1 ! d) = v \<and> i_opcode (f_insts f1 ! d) \<noteq> NY_OPCODE_NONE))" by blast
  qed
  then show ?thesis using put_built[OF b] app(2) by simp
qed

lemma emit_built:
  assumes b: "built b" and left: "\<And>fn. ny_builder_current_function b = Some fn \<Longrightarrow> length (f_insts fn) + 1 < NY_INVALID \<and> length (f_operands fn) < NY_INVALID \<and> length (f_values fn) < NY_INVALID"
    and opc: "opc \<noteq> NY_OPCODE_NONE" and ops: "length ops < 65536"
    and e: "emit b opc ops = Some (b', i)"
  shows "built b'"
proof -
  obtain fn where fn: "ny_builder_current_function b = Some fn" using e by (auto simp: emit_def bind_Some_iff)
  have wb: "well_built fn" using current_function[OF fn] b by (auto simp: built_def)
  note il = left[OF fn]
  obtain f2 where app: "ny_function_append_instruction fn (bd_block b) opc NY_INVALID_VALUE ops 0 = Some (f2, i)" "b' = put_function b f2"
    using e fn by (auto simp: emit_def bind_Some_iff)
  obtain L where L: "fn_wf fn L" using wb by (auto simp: well_built_def)
  have "well_built f2"
    by (rule append_built[OF L _ _ opc _ _ ops app(1)]) (use wb il in \<open>auto simp: well_built_def value_defs_def\<close>)
  then show ?thesis using put_built[OF b] app(2) by simp
qed

lemma put_current: "ny_builder_current_function b = Some fn \<Longrightarrow> ny_builder_current_function (put_function b fn') = Some fn'"
  by (auto simp: ny_builder_current_function_def ny_module_get_function_def put_function_def split: if_splits)

lemma builder_call_built:
  assumes "builder_call b b'" and b: "built b" and left: "\<forall>fn \<in> set (m_functions (bd_module b)). ids_left fn" and fns: "length (m_functions (bd_module b)) < NY_INVALID"
  shows "built b'"
proof -
  have il: "length (f_insts fn) + 1 < NY_INVALID \<and> length (f_operands fn) < NY_INVALID \<and> length (f_values fn) < NY_INVALID"
    if "ny_builder_current_function b = Some fn" for fn using current_function[OF that] left by (auto simp: ids_left_def)
  note ev = emit_value_built[OF b left] and em = emit_built[OF b il]
  from assms(1) show ?thesis
  proof cases
    case (insert_point f blk)
    then show ?thesis using b by (simp add: built_def ny_builder_set_insert_point_def)
  next
    case (new_function name ty)
    have "ny_module_create_function (bd_module b) name ty 0
        = ((bd_module b)\<lparr>m_functions := m_functions (bd_module b) @ [ny_function_init (length (m_functions (bd_module b))) name ty 0]\<rparr>, length (m_functions (bd_module b)))"
      using fns by (intro create_function_id) (simp add: NY_INVALID_def)
    then show ?thesis using b init_built new_function by (auto simp: built_def ny_builder_add_function_def)
  next
    case (param name ty v)
    then obtain fn where fn: "ny_builder_current_function b = Some fn" by (auto simp: ny_builder_add_param_def bind_Some_iff)
    have wb: "well_built fn" using current_function[OF fn] b by (auto simp: built_def)
    let ?f = "ny_function_add_param fn ty name"
    have len: "length (f_values ?f) < NY_INVALID" using il[OF fn] by (simp add: ny_function_add_param_def)
    define f' where "f' = ?f\<lparr>f_values := f_values ?f @ [\<lparr>v_id = length (f_values ?f), v_type = ty, v_kind = NY_VAL_ARGUMENT, v_def = NY_INVALID_INST,
      v_index = u32 (length (f_params fn)), v_name = name\<rparr>]\<rparr>"
    have b': "b' = put_function b f'"
      using param fn by (auto simp: ny_builder_add_param_def Let_def create_value_shape[OF len] f'_def)
    have wf: "well_built ?f" by (rule add_param_built[OF wb])
    have "value_defs f'" using wf unfolding value_defs_def well_built_def f'_def by (auto simp: nth_append less_Suc_eq)
    then have "well_built f'" using wf fn_wf_same[of f' ?f] edges_wf_same[of f' ?f] by (auto simp: well_built_def slices_in_def f'_def)
    then show ?thesis using put_built[OF b] b' by simp
  next
    case (block name v)
    then obtain fn where fn: "ny_builder_current_function b = Some fn" by (auto simp: ny_builder_add_block_def bind_Some_iff)
    have "b' = put_function b (fst (ny_function_create_block fn name))"
      using block fn by (auto simp: ny_builder_add_block_def split: prod.splits)
    moreover have "well_built fn" "ids_left fn" using current_function[OF fn] b left by (auto simp: built_def)
    ultimately show ?thesis using put_built[OF b create_block_built] by simp
  next
    case (branch t i)
    then obtain fn f1 where s: "ny_builder_current_function b = Some fn" "ny_block_add_edge fn (bd_block b) t = Some f1"
      "emit (put_function b f1) NY_OPCODE_BRANCH [OpBlock t] = Some (b', i)" by (auto simp: ny_builder_branch_def bind_Some_iff)
    have "well_built fn" using current_function[OF s(1)] b by (auto simp: built_def)
    note f1 = add_edge_built[OF this s(2)]
    show ?thesis
      by (rule emit_built[OF put_built[OF b] _ _ _ s(3)]) (use f1 il[OF s(1)] put_current[OF s(1)] in auto)
  next
    case (branch_if c t f i)
    then obtain fn f1 f2 where s: "ny_builder_current_function b = Some fn" "ny_block_add_edge fn (bd_block b) t = Some f1"
      "ny_block_add_edge f1 (bd_block b) f = Some f2"
      "emit (put_function b f2) NY_OPCODE_BRANCH_IF [OpValue c, OpBlock t, OpBlock f] = Some (b', i)" by (auto simp: ny_builder_branch_if_def bind_Some_iff)
    have wb: "well_built fn" using current_function[OF s(1)] b by (auto simp: built_def)
    have f1: "well_built f1" "f_insts f1 = f_insts fn" "f_operands f1 = f_operands fn" "f_values f1 = f_values fn" using add_edge_built[OF wb s(2)] by auto
    note f2 = add_edge_built[OF f1(1) s(3)]
    show ?thesis
      by (rule emit_built[OF put_built[OF b] _ _ _ s(4)]) (use f1 f2 il[OF s(1)] put_current[OF s(1)] in auto)
  next
    case (ret x i)
    then show ?thesis using em[of NY_OPCODE_RETURN "[OpValue x]"] em[of NY_OPCODE_RETURN "[]"] by (auto simp: ny_builder_ret_def split: if_splits)
  next
    case (store p x i)
    then show ?thesis using em[of NY_OPCODE_STORE "[OpValue p, OpValue x]"] by (simp add: ny_builder_store_def)
  next
    case (trap i)
    then show ?thesis using em[of NY_OPCODE_TRAP "[]"] by (simp add: ny_builder_trap_def)
  next
    case (call f args ty name v)
    then show ?thesis using ev[of NY_OPCODE_CALL "OpFunction f # map OpValue args" ty name] em[of NY_OPCODE_CALL "OpFunction f # map OpValue args"]
      by (auto simp: ny_builder_call_def Let_def split: if_splits)
  qed (auto simp: ny_builder_const_i64_def ny_builder_const_f64_def ny_builder_binary_def ny_builder_neg_def ny_builder_not_def
      ny_builder_select_def ny_builder_load_def dest!: ev[rotated 2])
qed

text \<open>
  C7. Whatever calls a client of the builder makes, as long as 32-bit ids are left, every function of the module stays
  well-formed: the links and headers of its blocks represent lists of instructions, successors and predecessors mirror each
  other, operand slices lie inside the operand array, and a value of an instruction names an instruction with that result.
\<close>

theorem builder_runs_well_built:
  assumes "builder_runs b" and "fn \<in> set (m_functions (bd_module b))"
  shows "(\<exists>L. fn_wf fn L) \<and> edges_wf fn \<and> value_defs fn \<and> slices_in fn"
proof -
  from assms(1) have "built b"
  proof (induction rule: builder_runs.induct)
    case (start name)
    then show ?case by (simp add: built_def ny_builder_init_def ny_module_init_def)
  next
    case (step b b')
    then show ?case using builder_call_built by blast
  qed
  then show ?thesis using assms(2) unfolding built_def well_built_def by blast
qed

text \<open>A run: a function with one block that returns a constant.\<close>

lemma builder_runs_well_built_witness:
  "\<exists>b fn. builder_runs b \<and> m_functions (bd_module b) = [fn] \<and> length (f_insts fn) = 2 \<and> edges_wf fn \<and> value_defs fn"
proof -
  define b0 where "b0 = ny_builder_init (ny_module_init [])"
  define b1 where "b1 = fst (ny_builder_add_function b0 ''f'' 4)"
  define b2 where "b2 = fst (the (ny_builder_add_block b1 ''entry''))"
  define b3 where "b3 = ny_builder_set_insert_point b2 0 0"
  define b4 where "b4 = fst (the (ny_builder_const_i64 b3 42 4 ''x''))"
  define b5 where "b5 = fst (the (ny_builder_ret b4 0))"
  note ds = ny_builder_init_def ny_module_init_def ny_builder_add_function_def ny_module_create_function_def ny_function_init_def
    ny_builder_add_block_def ny_builder_current_function_def ny_module_get_function_def ny_function_create_block_def zero_block_def
    ny_builder_set_insert_point_def ny_builder_const_i64_def emit_value_def ny_function_create_value_def ny_function_append_instruction_def
    ny_builder_ret_def emit_def put_function_def NY_INVALID_def Let_def upd_value_def upd_block_def upd_inst_def ids_left_def
  have s1: "builder_runs b1" unfolding b1_def
    by (rule builder_runs.step[OF builder_runs.start[of "[]", folded b0_def] _ _ builder_call.new_function]) (simp_all add: b0_def ds)
  have e2: "ny_builder_add_block b1 ''entry'' = Some (b2, 0)" by (simp add: b2_def b1_def b0_def ds)
  have s2: "builder_runs b2" by (rule builder_runs.step[OF s1 _ _ builder_call.block[OF e2]]) (simp_all add: b1_def b0_def ds)
  have s3: "builder_runs b3" unfolding b3_def
    by (rule builder_runs.step[OF s2 _ _ builder_call.insert_point]) (simp_all add: b2_def b1_def b0_def ds)
  have e4: "ny_builder_const_i64 b3 42 4 ''x'' = Some (b4, 0)" by (simp add: b4_def b3_def b2_def b1_def b0_def ds)
  have s4: "builder_runs b4"
    by (rule builder_runs.step[OF s3 _ _ builder_call.const_int[OF e4]]) (simp_all add: b3_def b2_def b1_def b0_def ds)
  have e5: "ny_builder_ret b4 0 = Some (b5, 1)" by (simp add: b5_def b4_def b3_def b2_def b1_def b0_def ds)
  have s5: "builder_runs b5"
    by (rule builder_runs.step[OF s4 _ _ builder_call.ret[OF e5]]) (simp_all add: b4_def b3_def b2_def b1_def b0_def ds)
  obtain fn where fn: "m_functions (bd_module b5) = [fn]" "length (f_insts fn) = 2" by (simp add: b5_def b4_def b3_def b2_def b1_def b0_def ds)
  then show ?thesis using builder_runs_well_built[OF s5, of fn] s5 by auto
qed

end
