(* ===== verification/Gvn.thy ===== *)
theory Gvn
  imports Dominator Fold Dce Types
begin

text \<open>
  Global value numbering, \<^verbatim>\<open>src/opt/gvn.c\<close>: a walk over the blocks in the order of their ids keeps a table of computed
  expressions; an instruction whose expression is in the table, computed in its block or in a dominating one, is replaced.
\<close>

subsection \<open>Keys\<close>

record gvn_key =
  gk_opcode :: ny_opcode
  gk_type :: nat
  gk_op_count :: nat
  gk_op0 :: ny_operand
  gk_op1 :: ny_operand
  gk_op2 :: ny_operand

definition is_gvn_candidate :: "ny_opcode \<Rightarrow> bool" where
  "is_gvn_candidate op \<longleftrightarrow> op \<in> {NY_OPCODE_ADD, NY_OPCODE_SUB, NY_OPCODE_MUL, NY_OPCODE_DIV_S, NY_OPCODE_DIV_U, NY_OPCODE_REM_S,
     NY_OPCODE_REM_U, NY_OPCODE_NEG, NY_OPCODE_FADD, NY_OPCODE_FSUB, NY_OPCODE_FMUL, NY_OPCODE_FDIV, NY_OPCODE_FNEG, NY_OPCODE_AND,
     NY_OPCODE_OR, NY_OPCODE_XOR, NY_OPCODE_NOT, NY_OPCODE_SHL, NY_OPCODE_SHR, NY_OPCODE_SAR, NY_OPCODE_ROTL, NY_OPCODE_ROTR,
     NY_OPCODE_CMP_EQ, NY_OPCODE_CMP_NE, NY_OPCODE_CMP_LT_S, NY_OPCODE_CMP_LT_U, NY_OPCODE_CMP_LE_S, NY_OPCODE_CMP_LE_U,
     NY_OPCODE_CMP_GT_S, NY_OPCODE_CMP_GT_U, NY_OPCODE_CMP_GE_S, NY_OPCODE_CMP_GE_U, NY_OPCODE_FCMP_EQ, NY_OPCODE_FCMP_NE,
     NY_OPCODE_FCMP_LT, NY_OPCODE_FCMP_LE, NY_OPCODE_FCMP_GT, NY_OPCODE_FCMP_GE, NY_OPCODE_SELECT, NY_OPCODE_CAST, NY_OPCODE_EXTEND,
     NY_OPCODE_TRUNCATE, NY_OPCODE_BITCAST, NY_OPCODE_SEXT, NY_OPCODE_ZEXT, NY_OPCODE_FEXT, NY_OPCODE_FTRUNC, NY_OPCODE_SITOFP,
     NY_OPCODE_FPTOSI}"

text \<open>Global operands have no case in the switch and are never equal; floating-point immediates are compared as numbers.\<close>

fun operand_equal :: "ny_operand \<Rightarrow> ny_operand \<Rightarrow> bool" where
  "operand_equal OpNone OpNone = True"
| "operand_equal (OpValue a) (OpValue b) = (a = b)"
| "operand_equal (OpBlock a) (OpBlock b) = (a = b)"
| "operand_equal (OpInt a) (OpInt b) = (a = b)"
| "operand_equal (OpFloat a) (OpFloat b) = f_eq a b"
| "operand_equal (OpFunction a) (OpFunction b) = (a = b)"
| "operand_equal (OpSymbol a) (OpSymbol b) = (a = b)"
| "operand_equal (OpType a) (OpType b) = (a = b)"
| "operand_equal _ _ = False"

definition gvn_key_equal :: "gvn_key \<Rightarrow> gvn_key \<Rightarrow> bool" where
  "gvn_key_equal a b \<longleftrightarrow> gk_opcode a = gk_opcode b \<and> gk_type a = gk_type b \<and> gk_op_count a = gk_op_count b
     \<and> (gk_op_count a > 0 \<longrightarrow> operand_equal (gk_op0 a) (gk_op0 b))
     \<and> (gk_op_count a > 1 \<longrightarrow> operand_equal (gk_op1 a) (gk_op1 b))
     \<and> (gk_op_count a > 2 \<longrightarrow> operand_equal (gk_op2 a) (gk_op2 b))"

fun is_value :: "ny_operand \<Rightarrow> bool" where
  "is_value (OpValue v) = True"
| "is_value _ = False"

definition key_order :: "ny_operand \<Rightarrow> ny_operand \<Rightarrow> bool" where
  "key_order op0 op1 = (case (op0, op1) of
       (OpValue v0, OpValue v1) \<Rightarrow> v0 > v1
     | _ \<Rightarrow> \<not> is_value op0 \<and> is_value op1)"

definition make_gvn_key :: "ny_function \<Rightarrow> ny_instruction \<Rightarrow> gvn_key option" where
  "make_gvn_key fn inst = do {
     let t = (case ny_function_get_value fn (i_result inst) of Some v \<Rightarrow> v_type v | None \<Rightarrow> NY_TYPE_VOID);
     let ops = ny_function_get_operands fn inst;
     let n = i_op_count inst;
     op0 \<leftarrow> (if n > 0 then op_at fn ops 0 else Some OpNone);
     op1 \<leftarrow> (if n > 1 then op_at fn ops 1 else Some OpNone);
     op2 \<leftarrow> (if n > 2 then op_at fn ops 2 else Some OpNone);
     let swap = (ny_opt_is_commutative (i_opcode inst) \<and> n = 2 \<and> key_order op0 op1);
     Some \<lparr>gk_opcode = i_opcode inst, gk_type = t, gk_op_count = n, gk_op0 = (if swap then op1 else op0),
           gk_op1 = (if swap then op0 else op1), gk_op2 = op2\<rparr>
   }"

subsection \<open>The pass\<close>

record available_expr =
  ae_key :: gvn_key
  ae_val :: nat
  ae_blk :: nat

fun gvn_find :: "ny_dominator_tree \<Rightarrow> nat \<Rightarrow> gvn_key \<Rightarrow> available_expr list \<Rightarrow> nat option option" where
  "gvn_find dt b key [] = Some None"
| "gvn_find dt b key (cand # table) =
     (if gvn_key_equal (ae_key cand) key then do {
        can_replace \<leftarrow> (if ae_blk cand = b then Some True else ny_dominator_tree_dominates dt (ae_blk cand) b);
        if can_replace then Some (Some (ae_val cand)) else gvn_find dt b key table
      }
      else gvn_find dt b key table)"

record gvn_state =
  gs_fn :: ny_function
  gs_table :: "available_expr list"
  gs_changed :: bool

definition gvn_inst :: "ny_dominator_tree \<Rightarrow> nat \<Rightarrow> ny_instruction \<Rightarrow> gvn_state \<Rightarrow> gvn_state option" where
  "gvn_inst dt b inst s =
     (if i_result inst \<noteq> NY_INVALID_VALUE \<and> is_gvn_candidate (i_opcode inst) \<and> and (i_flags inst) NY_FLAG_VOLATILE = 0 then do {
        key \<leftarrow> make_gvn_key (gs_fn s) inst;
        m \<leftarrow> gvn_find dt b key (gs_table s);
        (case m of
           Some v \<Rightarrow> do {
             fn \<leftarrow> ny_function_remove_instruction (ny_function_replace_all_uses (gs_fn s) (i_result inst) v) (i_id inst);
             Some (s\<lparr>gs_fn := fn, gs_changed := True\<rparr>)
           }
         | None \<Rightarrow> Some (s\<lparr>gs_table := gs_table s @ [\<lparr>ae_key = key, ae_val = i_result inst, ae_blk = b\<rparr>]\<rparr>))
      }
      else Some s)"

partial_function (option) gvn_walk :: "ny_dominator_tree \<Rightarrow> nat \<Rightarrow> nat \<Rightarrow> gvn_state \<Rightarrow> gvn_state option" where
  "gvn_walk dt b cur s =
     (if cur = NY_INVALID_INST then Some s
      else case ny_function_get_instruction (gs_fn s) cur of
        None \<Rightarrow> Some s
      | Some inst \<Rightarrow> do { s \<leftarrow> gvn_inst dt b inst s; gvn_walk dt b (i_next inst) s })"

definition gvn_block :: "ny_dominator_tree \<Rightarrow> gvn_state \<Rightarrow> nat \<Rightarrow> gvn_state option" where
  "gvn_block dt s b = do { blk \<leftarrow> rd (f_blocks (gs_fn s)) b; gvn_walk dt b (b_first blk) s }"

text \<open>The tree comes from the analysis manager when there is one; otherwise the pass computes it.\<close>

definition ny_opt_pass_gvn :: "(nat \<Rightarrow> nat) \<Rightarrow> ny_function \<Rightarrow> ny_dominator_tree option \<Rightarrow> (ny_function \<times> bool) option" where
  "ny_opt_pass_gvn fresh fn am =
     (if f_blocks fn = [] \<or> f_entry fn = NY_INVALID_BLOCK then Some (fn, False)
      else do {
        dt \<leftarrow> (case am of Some dt \<Rightarrow> Some dt | None \<Rightarrow> ny_dominator_tree_init fresh fn);
        s \<leftarrow> foldM (gvn_block dt) \<lparr>gs_fn = fn, gs_table = [], gs_changed = False\<rparr> [0..<length (f_blocks fn)];
        Some (gs_fn s, gs_changed s)
      })"

end
