(* ===== verification/Gvn_Correct.thy ===== *)
theory Gvn_Correct
  imports Gvn Copy_Prop Dom_Frontier
begin

text \<open>
  Correctness of value numbering.  The removed results are renamed by one substitution; under it every removed instruction
  has the expression of an instruction that stays, computed earlier in its block or in a dominating block.
\<close>

subsection \<open>Replacing and removing\<close>

lemma v_types_forget [simp]: "map v_type (forget_def fn r) = map v_type (f_values fn)"
  by (auto simp: forget_def_def upd_value_def map_update) (metis list_update_id map_update nth_map)

lemma replace_and_remove:
  assumes wf: "fn_wf fn L" and ow: "ops_wf fn" and x: "live fn x" and ne: "r \<noteq> v"
  shows "\<exists>fn2. ny_function_remove_instruction (ny_function_replace_all_uses fn r v) x = Some fn2
    \<and> fn_wf fn2 (L[i_block (f_insts fn ! x) := remove1 x (L ! i_block (f_insts fn ! x))]) \<and> ops_wf fn2
    \<and> live fn2 = (\<lambda>i. live fn i \<and> i \<noteq> x) \<and> map v_type (f_values fn2) = map v_type (f_values fn) \<and> block_edges fn2 = block_edges fn
    \<and> f_entry fn2 = f_entry fn \<and> length (f_insts fn2) = length (f_insts fn)
    \<and> (\<forall>i. live fn2 i \<longrightarrow> payload (f_insts fn2 ! i) = payload (f_insts fn ! i) \<and> i_block (f_insts fn2 ! i) = i_block (f_insts fn ! i)
         \<and> inst_ops fn2 i = map (replace_val r v) (inst_ops fn i))"
proof -
  let ?fn1 = "ny_function_replace_all_uses fn r v"
  note ra = replace_all_uses_ops[OF ow ne]
  have shape: "same_shape fn ?fn1"
    using ra fold_replace[of r v "f_insts fn" "f_operands fn"] by (simp add: same_shape_def ny_function_replace_all_uses_def)
  have insts: "f_insts ?fn1 = f_insts fn" "f_values ?fn1 = f_values fn" using ra by simp_all
  note keep = same_shape_keeps[OF shape]
  have x1: "live ?fn1 x" using keep(3) x by simp
  then have lt: "x < length (f_insts ?fn1)" "i_opcode (f_insts ?fn1 ! x) \<noteq> NY_OPCODE_NONE" by (auto simp: live_def)
  obtain fn2 where r: "ny_function_remove_instruction ?fn1 x = Some fn2"
    "fn_wf fn2 (L[i_block (f_insts fn ! x) := remove1 x (L ! i_block (f_insts fn ! x))])" "same_but {x} ?fn1 fn2"
    "f_insts fn2 ! x = cleared (f_insts fn ! x)" "f_values fn2 = forget_def ?fn1 (i_result (f_insts fn ! x))"
    using remove_instruction_live[OF keep(1)[OF wf] lt] by (auto simp: insts)
  have len: "length (f_insts fn2) = length (f_insts fn)" using r(3) by (simp add: same_but_def insts)
  have pay: "payload (f_insts fn2 ! i) = payload (f_insts fn ! i) \<and> i_block (f_insts fn2 ! i) = i_block (f_insts fn ! i)"
    if "i < length (f_insts fn)" "i \<noteq> x" for i
    using r(3) that by (simp add: same_but_def insts)
  have lv: "live fn2 i \<longleftrightarrow> live fn i \<and> i \<noteq> x" for i
    using pay[of i] r(4) by (cases "i = x") (auto simp: live_def len payload_def cleared_def)
  have ow2: "ops_wf fn2"
    by (rule ops_wf_shrink[OF keep(2)[OF ow]]) (use r(3) lv pay len in \<open>auto simp: same_but_def live_def payload_def insts\<close>)
  have ops: "inst_ops fn2 i = map (replace_val r v) (inst_ops fn i)" if i: "live fn2 i" for i
  proof -
    have "inst_ops fn2 i = inst_ops ?fn1 i"
      using i lv[of i] pay[of i] r(3) by (simp add: inst_ops_def same_but_def live_def payload_def insts)
    then show ?thesis using ra lv i by simp
  qed
  moreover have "live fn2 = (\<lambda>i. live fn i \<and> i \<noteq> x)" using lv by blast
  moreover have "map v_type (f_values fn2) = map v_type (f_values fn)" by (simp add: r(5) insts)
  moreover have "block_edges fn2 = block_edges fn" "f_entry fn2 = f_entry fn"
    using r(3) keep(4) by (simp_all add: same_but_def ny_function_replace_all_uses_def)
  moreover have "payload (f_insts fn2 ! i) = payload (f_insts fn ! i) \<and> i_block (f_insts fn2 ! i) = i_block (f_insts fn ! i)"
    if "live fn2 i" for i using pay[of i] lv that by (simp add: live_def)
  ultimately show ?thesis using r(1,2) ow2 len by blast
qed

subsection \<open>Keys and operand lists\<close>

definition key_args :: "gvn_key \<Rightarrow> ny_operand list" where
  "key_args k = take (gk_op_count k) [gk_op0 k, gk_op1 k, gk_op2 k]"

text \<open>Two operand lists of an operation, up to the order when it commutes.\<close>

definition reordered :: "ny_opcode \<Rightarrow> 'a list \<Rightarrow> 'a list \<Rightarrow> bool" where
  "reordered opc xs ys \<longleftrightarrow> xs = ys \<or> ny_opt_is_commutative opc \<and> xs = rev ys"

definition same_args :: "ny_opcode \<Rightarrow> ny_operand list \<Rightarrow> ny_operand list \<Rightarrow> bool" where
  "same_args opc xs ys \<longleftrightarrow> list_all2 operand_equal xs ys \<or> ny_opt_is_commutative opc \<and> list_all2 operand_equal xs (rev ys)"

lemma same_args_reordered:
  assumes "list_all2 operand_equal xs ys" "reordered opc xs us" "reordered opc ys vs"
  shows "same_args opc us vs"
  using assms list_all2_rev[of operand_equal us ys] list_all2_rev[of operand_equal us "rev vs"]
  by (auto simp: reordered_def same_args_def)

lemma reordered_map: "reordered opc xs ys \<Longrightarrow> reordered opc (map f xs) (map f ys)"
  by (auto simp: reordered_def rev_map)

lemma small_length: "n \<le> 3 \<Longrightarrow> n = 0 \<or> n = 1 \<or> n = 2 \<or> n = (3::nat)"
  by auto

lemma key_equal_args:
  assumes "gvn_key_equal a b" "gk_op_count a \<le> 3"
  shows "gk_opcode a = gk_opcode b" "gk_type a = gk_type b" "gk_op_count a = gk_op_count b" "list_all2 operand_equal (key_args a) (key_args b)"
proof -
  have e: "gk_op_count a = gk_op_count b" using assms(1) by (simp add: gvn_key_equal_def)
  show "gk_opcode a = gk_opcode b" "gk_type a = gk_type b" "gk_op_count a = gk_op_count b"
    using assms(1) by (simp_all add: gvn_key_equal_def)
  show "list_all2 operand_equal (key_args a) (key_args b)"
    using assms(1) e small_length[OF assms(2)] by (auto simp: gvn_key_equal_def key_args_def numeral_2_eq_2 numeral_3_eq_3)
qed

definition val_type :: "ny_function \<Rightarrow> nat \<Rightarrow> nat" where
  "val_type fn v = (case ny_function_get_value fn v of Some x \<Rightarrow> v_type x | None \<Rightarrow> NY_TYPE_VOID)"

lemma make_key_args:
  assumes ow: "ops_wf fn" and x: "live fn x" and n: "i_op_count (f_insts fn ! x) \<le> 3"
  shows "\<exists>key. make_gvn_key fn (f_insts fn ! x) = Some key \<and> gk_opcode key = i_opcode (f_insts fn ! x)
    \<and> gk_type key = val_type fn (i_result (f_insts fn ! x)) \<and> gk_op_count key = i_op_count (f_insts fn ! x)
    \<and> reordered (gk_opcode key) (key_args key) (inst_ops fn x)"
proof -
  let ?x = "f_insts fn ! x" and ?ops = "inst_ops fn x"
  have len: "length ?ops = i_op_count ?x" using ow x by (simp add: inst_ops_def length_subarray ops_wf_def)
  have at: "k < i_op_count ?x \<Longrightarrow> op_at fn (ny_function_get_operands fn ?x) k = Some (?ops ! k)" for k
    by (rule op_at_inst[OF ow x])
  consider "i_op_count ?x = 0" | "i_op_count ?x = 1" | "i_op_count ?x = 2" | "i_op_count ?x = 3" using n by linarith
  then show ?thesis
  proof cases
    case 1
    then show ?thesis using len by (simp add: make_gvn_key_def val_type_def key_args_def reordered_def split: option.splits)
  next
    case 2
    then obtain a where "?ops = [a]" using len by (cases ?ops) auto
    then show ?thesis using 2 at[of 0] by (auto simp: make_gvn_key_def val_type_def key_args_def reordered_def split: option.splits)
  next
    case 3
    then obtain a b where "?ops = [a, b]" using len by (cases ?ops; cases "tl ?ops") auto
    then show ?thesis using 3 at[of 0] at[of 1]
      by (auto simp: make_gvn_key_def val_type_def key_args_def reordered_def Let_def split: option.splits)
  next
    case 4
    then obtain a b c where "?ops = [a, b, c]" using len by (cases ?ops; cases "tl ?ops"; cases "tl (tl ?ops)") auto
    then show ?thesis using 4 at[of 0] at[of 1] at[of 2]
      by (auto simp: make_gvn_key_def val_type_def key_args_def reordered_def Let_def split: option.splits)
  qed
qed

lemma gvn_find_hit:
  assumes "\<And>a. \<exists>d. ny_dominator_tree_dominates dt a b = Some d"
  shows "\<exists>m. gvn_find dt b key table = Some m \<and> (\<forall>v. m = Some v \<longrightarrow> (\<exists>e \<in> set table. gvn_key_equal (ae_key e) key \<and> ae_val e = v
    \<and> (ae_blk e = b \<or> ny_dominator_tree_dominates dt (ae_blk e) b = Some True)))"
proof (induction table)
  case (Cons e table)
  obtain d where d: "ny_dominator_tree_dominates dt (ae_blk e) b = Some d" using assms by blast
  show ?case using Cons d by (auto split: if_splits)
qed simp

subsection \<open>The substitution\<close>

fun ren :: "(nat \<Rightarrow> nat) \<Rightarrow> ny_operand \<Rightarrow> ny_operand" where
  "ren \<sigma> (OpValue v) = OpValue (\<sigma> v)"
| "ren \<sigma> op = op"

definition then_to :: "(nat \<Rightarrow> nat) \<Rightarrow> nat \<Rightarrow> nat \<Rightarrow> nat \<Rightarrow> nat" where
  "then_to \<sigma> r v y = (if \<sigma> y = r then v else \<sigma> y)"

lemma replace_ren: "map (replace_val r v) (map (ren \<sigma>) ops) = map (ren (then_to \<sigma> r v)) ops"
proof -
  have "replace_val r v (ren \<sigma> op) = ren (then_to \<sigma> r v) op" for op
    by (cases op) (auto simp: replace_val_def then_to_def)
  then show ?thesis by simp
qed

lemma operand_equal_replace: "operand_equal a b \<Longrightarrow> operand_equal (replace_val r v a) (replace_val r v b)"
  by (cases "(a, b)" rule: operand_equal.cases) (auto simp: replace_val_def)

lemma operand_equal_ren: "operand_equal a b \<Longrightarrow> operand_equal (ren \<sigma> a) (ren \<sigma> b)"
  by (cases "(a, b)" rule: operand_equal.cases) auto

lemma same_args_then_to:
  assumes "same_args opc (map (ren \<sigma>) xs) (map (ren \<sigma>) ys)"
  shows "same_args opc (map (ren (then_to \<sigma> r v)) xs) (map (ren (then_to \<sigma> r v)) ys)"
proof -
  have h: "list_all2 operand_equal us vs \<Longrightarrow> list_all2 operand_equal (map (replace_val r v) us) (map (replace_val r v) vs)" for us vs
    by (simp add: list_all2_conv_all_nth operand_equal_replace)
  have e: "map (ren (then_to \<sigma> r v)) zs = map (replace_val r v) (map (ren \<sigma>) zs)" for zs by (rule replace_ren[symmetric])
  show ?thesis using assms unfolding same_args_def e rev_map[of "replace_val r v"] using h by blast
qed

lemma filter_not_in: "x \<notin> set xs \<Longrightarrow> filter (\<lambda>i. P i \<and> i \<noteq> x) xs = filter P xs"
  by (induction xs) auto

lemma remove1_filter: "distinct xs \<Longrightarrow> remove1 x (filter P xs) = filter (\<lambda>i. P i \<and> i \<noteq> x) xs"
  by (induction xs) (auto simp: filter_not_in remove1_idem)

lemma remove1_filter_live:
  assumes "\<And>b. b < length L \<Longrightarrow> distinct (L ! b)" "b < length L" "\<And>c. c < length L \<Longrightarrow> c \<noteq> b \<Longrightarrow> x \<notin> set (L ! c)"
  shows "(map (filter P) L)[b := remove1 x (map (filter P) L ! b)] = map (filter (\<lambda>i. P i \<and> i \<noteq> x)) L"
proof (rule nth_equalityI)
  fix c assume "c < length ((map (filter P) L)[b := remove1 x (map (filter P) L ! b)])"
  then have c: "c < length L" by simp
  show "(map (filter P) L)[b := remove1 x (map (filter P) L ! b)] ! c = map (filter (\<lambda>i. P i \<and> i \<noteq> x)) L ! c"
  proof (cases "c = b")
    case True
    have "remove1 x (filter P (L ! b)) = filter (\<lambda>i. P i \<and> i \<noteq> x) (L ! b)" by (rule remove1_filter[OF assms(1)[OF assms(2)]])
    then show ?thesis using True c by simp
  next
    case False
    then show ?thesis using c by (simp add: filter_not_in[OF assms(3)[OF c False]])
  qed
qed simp

subsection \<open>The invariant\<close>

definition before :: "nat list \<Rightarrow> nat \<Rightarrow> nat \<Rightarrow> bool" where
  "before xs j i \<longleftrightarrow> (\<exists>us vs ws. xs = us @ j # vs @ i # ws)"

text \<open>\<open>j\<close> stands before \<open>i\<close> in its block, or its block dominates the block of \<open>i\<close>.\<close>

definition comes_before :: "ny_function \<Rightarrow> nat list list \<Rightarrow> nat \<Rightarrow> nat \<Rightarrow> bool" where
  "comes_before fn L j i \<longleftrightarrow> (let a = i_block (f_insts fn ! j); b = i_block (f_insts fn ! i) in
     if a = b then before (L ! b) j i else cfg_reachable fn a \<and> cfg_reachable fn b \<and> cfg_dominates fn a b)"

definition same_expr :: "ny_function \<Rightarrow> (nat \<Rightarrow> nat) \<Rightarrow> nat \<Rightarrow> nat \<Rightarrow> bool" where
  "same_expr fn \<sigma> j i \<longleftrightarrow> i_opcode (f_insts fn ! j) = i_opcode (f_insts fn ! i)
     \<and> val_type fn (i_result (f_insts fn ! j)) = val_type fn (i_result (f_insts fn ! i))
     \<and> same_args (i_opcode (f_insts fn ! i)) (map (ren \<sigma>) (inst_ops fn j)) (map (ren \<sigma>) (inst_ops fn i))"

definition gvn_setting :: "ny_function \<Rightarrow> nat list list \<Rightarrow> ny_dominator_tree \<Rightarrow> bool" where
  "gvn_setting fn L dt \<longleftrightarrow> fn_wf fn L \<and> ops_wf fn
     \<and> (\<forall>i j. live fn i \<longrightarrow> live fn j \<longrightarrow> i_result (f_insts fn ! i) \<noteq> NY_INVALID_VALUE \<longrightarrow>
          i_result (f_insts fn ! i) = i_result (f_insts fn ! j) \<longrightarrow> i = j)
     \<and> (\<forall>i. live fn i \<longrightarrow> is_gvn_candidate (i_opcode (f_insts fn ! i)) \<longrightarrow> i_op_count (f_insts fn ! i) \<le> 3)
     \<and> (\<forall>a b. ny_dominator_tree_dominates dt a b = Some (a = b \<or> cfg_reachable fn a \<and> cfg_reachable fn b \<and> cfg_dominates fn a b))"

definition entry_of :: "ny_function \<Rightarrow> (nat \<Rightarrow> nat) \<Rightarrow> nat \<Rightarrow> available_expr \<Rightarrow> bool" where
  "entry_of fn \<sigma> j e \<longleftrightarrow> ae_val e = i_result (f_insts fn ! j) \<and> i_result (f_insts fn ! j) \<noteq> NY_INVALID_VALUE
     \<and> ae_blk e = i_block (f_insts fn ! j)
     \<and> gk_opcode (ae_key e) = i_opcode (f_insts fn ! j) \<and> gk_type (ae_key e) = val_type fn (i_result (f_insts fn ! j))
     \<and> gk_op_count (ae_key e) \<le> 3
     \<and> reordered (i_opcode (f_insts fn ! j)) (map (ren \<sigma>) (key_args (ae_key e))) (map (ren \<sigma>) (inst_ops fn j))"

definition removable :: "ny_function \<Rightarrow> nat \<Rightarrow> bool" where
  "removable fn i \<longleftrightarrow> i_result (f_insts fn ! i) \<noteq> NY_INVALID_VALUE \<and> is_gvn_candidate (i_opcode (f_insts fn ! i))
     \<and> and (i_flags (f_insts fn ! i)) NY_FLAG_VOLATILE = 0"

definition gvn_inv :: "ny_function \<Rightarrow> nat list list \<Rightarrow> (nat \<Rightarrow> nat) \<Rightarrow> nat set \<Rightarrow> gvn_state \<Rightarrow> bool" where
  "gvn_inv fn L \<sigma> D s \<longleftrightarrow> (let fn' = gs_fn s in
     fn_wf fn' (map (filter (live fn')) L) \<and> ops_wf fn' \<and> block_edges fn' = block_edges fn \<and> f_entry fn' = f_entry fn
   \<and> map v_type (f_values fn') = map v_type (f_values fn)
   \<and> (\<forall>i. live fn' i \<longrightarrow> live fn i \<and> payload (f_insts fn' ! i) = payload (f_insts fn ! i)
        \<and> i_block (f_insts fn' ! i) = i_block (f_insts fn ! i) \<and> inst_ops fn' i = map (ren \<sigma>) (inst_ops fn i))
   \<and> (\<forall>i. live fn i \<longrightarrow> \<not> live fn' i \<longrightarrow> i \<in> D \<and> removable fn i
        \<and> (\<exists>j \<in> D. live fn' j \<and> \<sigma> (i_result (f_insts fn ! i)) = i_result (f_insts fn ! j) \<and> same_expr fn \<sigma> j i \<and> comes_before fn L j i))
   \<and> (\<forall>v. \<sigma> v \<noteq> v \<longrightarrow> (\<exists>i. live fn i \<and> \<not> live fn' i \<and> i_result (f_insts fn ! i) = v))
   \<and> (\<forall>v. \<sigma> (\<sigma> v) = \<sigma> v)
   \<and> (\<forall>e \<in> set (gs_table s). \<exists>j \<in> D. live fn' j \<and> entry_of fn \<sigma> j e))"

lemma gvn_invD:
  assumes "gvn_inv fn L \<sigma> D s"
  shows "fn_wf (gs_fn s) (map (filter (live (gs_fn s))) L)" "ops_wf (gs_fn s)" "block_edges (gs_fn s) = block_edges fn"
    "f_entry (gs_fn s) = f_entry fn" "map v_type (f_values (gs_fn s)) = map v_type (f_values fn)"
    "\<And>i. live (gs_fn s) i \<Longrightarrow> live fn i" "\<And>i. live (gs_fn s) i \<Longrightarrow> payload (f_insts (gs_fn s) ! i) = payload (f_insts fn ! i)"
    "\<And>i. live (gs_fn s) i \<Longrightarrow> i_block (f_insts (gs_fn s) ! i) = i_block (f_insts fn ! i)"
    "\<And>i. live (gs_fn s) i \<Longrightarrow> inst_ops (gs_fn s) i = map (ren \<sigma>) (inst_ops fn i)"
    "\<And>i. live fn i \<Longrightarrow> \<not> live (gs_fn s) i \<Longrightarrow> i \<in> D \<and> removable fn i
        \<and> (\<exists>j \<in> D. live (gs_fn s) j \<and> \<sigma> (i_result (f_insts fn ! i)) = i_result (f_insts fn ! j) \<and> same_expr fn \<sigma> j i \<and> comes_before fn L j i)"
    "\<And>v. \<sigma> v \<noteq> v \<Longrightarrow> \<exists>i. live fn i \<and> \<not> live (gs_fn s) i \<and> i_result (f_insts fn ! i) = v"
    "\<And>v. \<sigma> (\<sigma> v) = \<sigma> v"
    "\<And>e. e \<in> set (gs_table s) \<Longrightarrow> \<exists>j \<in> D. live (gs_fn s) j \<and> entry_of fn \<sigma> j e"
  using assms unfolding gvn_inv_def Let_def by blast+

lemma gvn_invI:
  assumes "fn_wf (gs_fn s) (map (filter (live (gs_fn s))) L)" "ops_wf (gs_fn s)" "block_edges (gs_fn s) = block_edges fn"
    "f_entry (gs_fn s) = f_entry fn" "map v_type (f_values (gs_fn s)) = map v_type (f_values fn)"
    "\<And>i. live (gs_fn s) i \<Longrightarrow> live fn i" "\<And>i. live (gs_fn s) i \<Longrightarrow> payload (f_insts (gs_fn s) ! i) = payload (f_insts fn ! i)"
    "\<And>i. live (gs_fn s) i \<Longrightarrow> i_block (f_insts (gs_fn s) ! i) = i_block (f_insts fn ! i)"
    "\<And>i. live (gs_fn s) i \<Longrightarrow> inst_ops (gs_fn s) i = map (ren \<sigma>) (inst_ops fn i)"
    "\<And>i. live fn i \<Longrightarrow> \<not> live (gs_fn s) i \<Longrightarrow> i \<in> D \<and> removable fn i
        \<and> (\<exists>j \<in> D. live (gs_fn s) j \<and> \<sigma> (i_result (f_insts fn ! i)) = i_result (f_insts fn ! j) \<and> same_expr fn \<sigma> j i \<and> comes_before fn L j i)"
    "\<And>v. \<sigma> v \<noteq> v \<Longrightarrow> \<exists>i. live fn i \<and> \<not> live (gs_fn s) i \<and> i_result (f_insts fn ! i) = v"
    "\<And>v. \<sigma> (\<sigma> v) = \<sigma> v"
    "\<And>e. e \<in> set (gs_table s) \<Longrightarrow> \<exists>j \<in> D. live (gs_fn s) j \<and> entry_of fn \<sigma> j e"
  shows "gvn_inv fn L \<sigma> D s"
  using assms unfolding gvn_inv_def Let_def by blast

subsection \<open>One instruction\<close>

lemma gvn_inv_mono: "gvn_inv fn L \<sigma> D s \<Longrightarrow> D \<subseteq> D' \<Longrightarrow> gvn_inv fn L \<sigma> D' s"
  unfolding gvn_inv_def Let_def by (elim conjE, intro conjI) (assumption | meson subsetD)+

lemma val_type_cong:
  assumes "map v_type (f_values fn') = map v_type (f_values fn)"
  shows "val_type fn' v = val_type fn v"
proof -
  have "length (f_values fn') = length (f_values fn)" using assms map_eq_imp_length_eq by blast
  moreover have "v_type (f_values fn' ! v) = v_type (f_values fn ! v)" if "v < length (f_values fn)"
    using assms that calculation by (metis nth_map)
  ultimately show ?thesis by (simp add: val_type_def rd_def)
qed

lemma payload_fields: "payload i = payload j \<Longrightarrow> i_id i = i_id j \<and> i_opcode i = i_opcode j \<and> i_flags i = i_flags j
    \<and> i_result i = i_result j \<and> i_op_start i = i_op_start j \<and> i_op_count i = i_op_count j"
  by (simp add: payload_def)

lemma ren_ren: "(\<And>v. \<sigma> (\<sigma> v) = \<sigma> v) \<Longrightarrow> map (ren \<sigma>) (map (ren \<sigma>) ops) = map (ren \<sigma>) ops"
proof -
  assume "\<And>v. \<sigma> (\<sigma> v) = \<sigma> v"
  then have "ren \<sigma> (ren \<sigma> op) = ren \<sigma> op" for op by (cases op) auto
  then show ?thesis by simp
qed

lemma entry_then_to:
  assumes "entry_of fn \<sigma> j e"
  shows "entry_of fn (then_to \<sigma> r v) j e"
  using assms reordered_map[of "i_opcode (f_insts fn ! j)" "map (ren \<sigma>) (key_args (ae_key e))" "map (ren \<sigma>) (inst_ops fn j)" "replace_val r v"]
  unfolding entry_of_def replace_ren by blast

lemma gvn_no_match:
  assumes set: "gvn_setting fn L dt" and inv: "gvn_inv fn L \<sigma> D s" and x: "live (gs_fn s) x"
    and r: "i_result (f_insts fn ! x) \<noteq> NY_INVALID_VALUE"
    and key: "gk_opcode key = i_opcode (f_insts fn ! x)" "gk_type key = val_type fn (i_result (f_insts fn ! x))" "gk_op_count key \<le> 3"
      "reordered (i_opcode (f_insts fn ! x)) (key_args key) (inst_ops (gs_fn s) x)"
  shows "gvn_inv fn L \<sigma> (insert x D)
    (s\<lparr>gs_table := gs_table s @ [\<lparr>ae_key = key, ae_val = i_result (f_insts fn ! x), ae_blk = i_block (f_insts fn ! x)\<rparr>]\<rparr>)"
proof -
  note D = gvn_invD[OF gvn_inv_mono[OF inv subset_insertI]]
  let ?e = "\<lparr>ae_key = key, ae_val = i_result (f_insts fn ! x), ae_blk = i_block (f_insts fn ! x)\<rparr>"
  have "entry_of fn \<sigma> x ?e"
    using key r reordered_map[OF key(4), of "ren \<sigma>"] unfolding D(9)[OF x] ren_ren[OF D(12)] by (simp add: entry_of_def)
  then have t: "e \<in> set (gs_table s @ [?e]) \<Longrightarrow> \<exists>j \<in> insert x D. live (gs_fn s) j \<and> entry_of fn \<sigma> j e" for e
    using D(13) x by auto
  have e: "gs_fn (s\<lparr>gs_table := t\<rparr>) = gs_fn s" "gs_table (s\<lparr>gs_table := t\<rparr>) = t" for t by simp_all
  show ?thesis by (rule gvn_invI, unfold e) (assumption | rule D t)+
qed

lemma gvn_match:
  assumes set: "gvn_setting fn L dt" and inv: "gvn_inv fn L \<sigma> D s" and x: "live (gs_fn s) x" "x \<notin> D"
    and j: "j \<in> D" "live (gs_fn s) j" "entry_of fn \<sigma> j e" and key: "gvn_key_equal (ae_key e) key"
      "gk_opcode key = i_opcode (f_insts fn ! x)" "gk_type key = val_type fn (i_result (f_insts fn ! x))"
      "reordered (i_opcode (f_insts fn ! x)) (key_args key) (inst_ops (gs_fn s) x)"
    and cb: "comes_before fn L j x" and rm: "removable fn x"
  shows "\<exists>fn2. ny_function_remove_instruction (ny_function_replace_all_uses (gs_fn s) (i_result (f_insts fn ! x)) (ae_val e)) x = Some fn2
    \<and> gvn_inv fn L (then_to \<sigma> (i_result (f_insts fn ! x)) (ae_val e)) (insert x D) (s\<lparr>gs_fn := fn2, gs_changed := True\<rparr>)"
proof -
  note D = gvn_invD[OF inv]
  have r: "i_result (f_insts fn ! x) \<noteq> NY_INVALID_VALUE" using rm by (simp add: removable_def)
  let ?fn' = "gs_fn s" and ?r = "i_result (f_insts fn ! x)" and ?v = "i_result (f_insts fn ! j)"
  have wf: "fn_wf fn L" and uniq: "\<And>i j. live fn i \<Longrightarrow> live fn j \<Longrightarrow> i_result (f_insts fn ! i) \<noteq> NY_INVALID_VALUE \<Longrightarrow>
      i_result (f_insts fn ! i) = i_result (f_insts fn ! j) \<Longrightarrow> i = j"
    using set unfolding gvn_setting_def by blast+
  have xl: "live fn x" and jl: "live fn j" using D(6) x(1) j(2) by blast+
  have v: "ae_val e = ?v" "?v \<noteq> NY_INVALID_VALUE" using j(3) by (simp_all add: entry_of_def)
  have ne: "?r \<noteq> ?v" using uniq[OF xl jl r] x(2) j(1) by blast
  have sr: "\<sigma> ?r = ?r" using D(11)[of ?r] uniq[OF _ xl] x(1) r by metis
  have sv: "\<sigma> ?v = ?v" using D(11)[of ?v] uniq[OF _ jl] j(2) v(2) by metis
  have bx: "i_block (f_insts ?fn' ! x) = i_block (f_insts fn ! x)" by (rule D(8)[OF x(1)])
  define b where "b = i_block (f_insts fn ! x)"
  have lt: "x < length (f_insts fn)" "i_opcode (f_insts fn ! x) \<noteq> NY_OPCODE_NONE" using xl by (auto simp: live_def)
  have b: "b < length L" using fn_wf_live[OF wf lt] wf by (simp add: b_def fn_wf_def)
  have dist: "distinct (L ! c)" if "c < length L" for c using wf that by (simp add: fn_wf_def block_ok_def)
  have other: "x \<notin> set (L ! c)" if "c < length L" "c \<noteq> b" for c
    using fn_wf_mem(3)[OF wf, of c x] that wf by (auto simp: b_def fn_wf_def)
  obtain fn2 where fn2: "ny_function_remove_instruction (ny_function_replace_all_uses ?fn' ?r ?v) x = Some fn2"
    "fn_wf fn2 ((map (filter (live ?fn')) L)[b := remove1 x (map (filter (live ?fn')) L ! b)])" "ops_wf fn2"
    "live fn2 = (\<lambda>i. live ?fn' i \<and> i \<noteq> x)" "map v_type (f_values fn2) = map v_type (f_values ?fn')" "block_edges fn2 = block_edges ?fn'"
    "f_entry fn2 = f_entry ?fn'"
    and fn2i: "\<And>i. live fn2 i \<Longrightarrow> payload (f_insts fn2 ! i) = payload (f_insts ?fn' ! i) \<and> i_block (f_insts fn2 ! i) = i_block (f_insts ?fn' ! i)
         \<and> inst_ops fn2 i = map (replace_val ?r ?v) (inst_ops ?fn' i)"
    using replace_and_remove[OF D(1,2) x(1) ne] unfolding bx b_def by blast
  let ?\<tau> = "then_to \<sigma> ?r ?v" and ?s = "s\<lparr>gs_fn := fn2, gs_changed := True\<rparr>"
  have sub: "live ?fn' i" "i \<noteq> x" if "live fn2 i" for i using that by (simp_all add: fn2(4))
  have key_j: "same_expr fn ?\<tau> j x"
  proof -
    have c3: "gk_op_count (ae_key e) \<le> 3" using j(3) by (simp add: entry_of_def)
    note k = key_equal_args[OF key(1) c3]
    have opc: "i_opcode (f_insts fn ! j) = i_opcode (f_insts fn ! x)" "val_type fn ?v = val_type fn ?r"
      using j(3) k(1,2) key(2,3) by (simp_all add: entry_of_def)
    have "list_all2 operand_equal (map (ren \<sigma>) (key_args (ae_key e))) (map (ren \<sigma>) (key_args key))"
      using k(4) by (simp add: list_all2_conv_all_nth operand_equal_ren)
    moreover have "reordered (i_opcode (f_insts fn ! x)) (map (ren \<sigma>) (key_args (ae_key e))) (map (ren \<sigma>) (inst_ops fn j))"
      using j(3) opc(1) by (simp add: entry_of_def)
    moreover have "reordered (i_opcode (f_insts fn ! x)) (map (ren \<sigma>) (key_args key)) (map (ren \<sigma>) (inst_ops fn x))"
      using reordered_map[OF key(4), of "ren \<sigma>"] unfolding D(9)[OF x(1)] ren_ren[OF D(12)] .
    ultimately have "same_args (i_opcode (f_insts fn ! x)) (map (ren \<sigma>) (inst_ops fn j)) (map (ren \<sigma>) (inst_ops fn x))"
      by (rule same_args_reordered)
    then show ?thesis using opc by (simp add: same_expr_def same_args_then_to)
  qed
  have tau: "?\<tau> ?r = ?v" using sr by (simp add: then_to_def)
  have gone: "i \<in> insert x D \<and> removable fn i \<and> (\<exists>k \<in> insert x D. live fn2 k
      \<and> ?\<tau> (i_result (f_insts fn ! i)) = i_result (f_insts fn ! k) \<and> same_expr fn ?\<tau> k i \<and> comes_before fn L k i)"
    if i: "live fn i" "\<not> live fn2 i" for i
  proof (cases "i = x")
    case True
    have "live fn2 j" using j(1,2) x(2) by (auto simp: fn2(4))
    then show ?thesis using True j(1) rm tau key_j cb by blast
  next
    case False
    then have "\<not> live ?fn' i" using i(2) by (simp add: fn2(4))
    then obtain k where k: "i \<in> D" "removable fn i" "k \<in> D" "live ?fn' k"
      "\<sigma> (i_result (f_insts fn ! i)) = i_result (f_insts fn ! k)" "same_expr fn \<sigma> k i" "comes_before fn L k i"
      using D(10)[OF i(1)] by blast
    have kx: "k \<noteq> x" using k(3) x(2) by blast
    then have "i_result (f_insts fn ! k) \<noteq> ?r" using uniq[OF xl D(6)[OF k(4)] r] by metis
    then have "?\<tau> (i_result (f_insts fn ! i)) = i_result (f_insts fn ! k)" using k(5) by (simp add: then_to_def)
    moreover have "same_expr fn ?\<tau> k i" using k(6) by (simp add: same_expr_def same_args_then_to)
    moreover have "live fn2 k" using k(4) kx by (simp add: fn2(4))
    ultimately show ?thesis using k(1,2,3,7) by blast
  qed
  have "gvn_inv fn L ?\<tau> (insert x D) ?s"
  proof (rule gvn_invI)
    show "fn_wf (gs_fn ?s) (map (filter (live (gs_fn ?s))) L)"
      using fn2(2) remove1_filter_live[OF dist b other, of "live ?fn'"] by (simp add: fn2(4))
    show "ops_wf (gs_fn ?s)" "block_edges (gs_fn ?s) = block_edges fn" "f_entry (gs_fn ?s) = f_entry fn"
      "map v_type (f_values (gs_fn ?s)) = map v_type (f_values fn)"
      using fn2(3,5,6,7) D(3,4,5) by simp_all
    show "live fn i" "payload (f_insts (gs_fn ?s) ! i) = payload (f_insts fn ! i)"
      "i_block (f_insts (gs_fn ?s) ! i) = i_block (f_insts fn ! i)" "inst_ops (gs_fn ?s) i = map (ren ?\<tau>) (inst_ops fn i)"
      if "live (gs_fn ?s) i" for i
      using that sub[of i] fn2i[of i] D(6-9)[of i] replace_ren[of ?r ?v \<sigma>] by simp_all
    show "i \<in> insert x D \<and> removable fn i \<and> (\<exists>k \<in> insert x D. live (gs_fn ?s) k
      \<and> ?\<tau> (i_result (f_insts fn ! i)) = i_result (f_insts fn ! k) \<and> same_expr fn ?\<tau> k i \<and> comes_before fn L k i)"
      if "live fn i" "\<not> live (gs_fn ?s) i" for i
      using gone[of i] that by simp
    show "\<exists>i. live fn i \<and> \<not> live (gs_fn ?s) i \<and> i_result (f_insts fn ! i) = y" if "?\<tau> y \<noteq> y" for y
    proof (cases "\<sigma> y = y")
      case True
      then have "y = ?r" using that by (auto simp: then_to_def split: if_splits)
      then show ?thesis using xl fn2(4) by auto
    next
      case False
      then show ?thesis using D(11)[OF False] fn2(4) by auto
    qed
    show "?\<tau> (?\<tau> y) = ?\<tau> y" for y using sv ne D(12)[of y] by (auto simp: then_to_def)
    show "\<exists>k \<in> insert x D. live (gs_fn ?s) k \<and> entry_of fn ?\<tau> k f" if "f \<in> set (gs_table ?s)" for f
    proof -
      have "f \<in> set (gs_table s)" using that by simp
      then obtain k where k: "k \<in> D" "live ?fn' k" "entry_of fn \<sigma> k f" using D(13) by blast
      then have "live fn2 k" using x(2) by (auto simp: fn2(4))
      then show ?thesis using k(1) entry_then_to[OF k(3)] by auto
    qed
  qed
  then show ?thesis using fn2(1) v(1) by auto
qed

definition quiet :: "gvn_state \<Rightarrow> gvn_state \<Rightarrow> bool" where
  "quiet s s' \<longleftrightarrow> (gs_changed s \<longrightarrow> gs_changed s') \<and> (gs_changed s' \<or> gs_fn s' = gs_fn s)"

lemma quiet_refl: "quiet s s"
  by (simp add: quiet_def)

lemma quiet_trans: "quiet s s1 \<Longrightarrow> quiet s1 s2 \<Longrightarrow> quiet s s2"
  by (auto simp: quiet_def)

lemma gvn_inst_step:
  assumes set: "gvn_setting fn L dt" and inv: "gvn_inv fn L \<sigma> D s" and x: "live (gs_fn s) x" "x \<notin> D"
    and bef: "\<And>j. j \<in> D \<Longrightarrow> live fn j \<Longrightarrow> i_block (f_insts fn ! j) = i_block (f_insts fn ! x) \<Longrightarrow> before (L ! i_block (f_insts fn ! x)) j x"
  shows "\<exists>s' \<sigma>'. gvn_inst dt (i_block (f_insts fn ! x)) (f_insts (gs_fn s) ! x) s = Some s' \<and> gvn_inv fn L \<sigma>' (insert x D) s' \<and> quiet s s'"
proof -
  note D = gvn_invD[OF inv]
  let ?r = "i_result (f_insts fn ! x)" and ?b = "i_block (f_insts fn ! x)" and ?inst = "f_insts (gs_fn s) ! x"
  note pf = payload_fields[OF D(7)[OF x(1)]]
  show ?thesis
  proof (cases "?r \<noteq> NY_INVALID_VALUE \<and> is_gvn_candidate (i_opcode ?inst) \<and> and (i_flags ?inst) NY_FLAG_VOLATILE = 0")
    case False
    then have "gvn_inst dt ?b ?inst s = Some s" using pf by (auto simp: gvn_inst_def)
    then show ?thesis using gvn_inv_mono[OF inv subset_insertI] quiet_refl by blast
  next
    case True
    have rm: "removable fn x" using True pf by (simp add: removable_def)
    have n: "i_op_count ?inst \<le> 3" using set D(6)[OF x(1)] True pf unfolding gvn_setting_def by metis
    obtain key where key: "make_gvn_key (gs_fn s) ?inst = Some key" "gk_opcode key = i_opcode ?inst"
      "gk_type key = val_type (gs_fn s) (i_result ?inst)" "gk_op_count key = i_op_count ?inst"
      "reordered (gk_opcode key) (key_args key) (inst_ops (gs_fn s) x)"
      using make_key_args[OF D(2) x(1) n] by blast
    have k: "gk_opcode key = i_opcode (f_insts fn ! x)" "gk_type key = val_type fn ?r" "gk_op_count key \<le> 3"
      "reordered (i_opcode (f_insts fn ! x)) (key_args key) (inst_ops (gs_fn s) x)"
      using key n pf val_type_cong[OF D(5)] by simp_all
    have dom: "ny_dominator_tree_dominates dt a c = Some (a = c \<or> cfg_reachable fn a \<and> cfg_reachable fn c \<and> cfg_dominates fn a c)" for a c
      using set unfolding gvn_setting_def by blast
    obtain m where m: "gvn_find dt ?b key (gs_table s) = Some m" "\<And>v. m = Some v \<Longrightarrow> \<exists>e \<in> set (gs_table s). gvn_key_equal (ae_key e) key
        \<and> ae_val e = v \<and> (ae_blk e = ?b \<or> ny_dominator_tree_dominates dt (ae_blk e) ?b = Some True)"
      using gvn_find_hit[of dt ?b key "gs_table s"] dom by blast
    show ?thesis
    proof (cases m)
      case None
      then have "gvn_inst dt ?b ?inst s = Some (s\<lparr>gs_table := gs_table s @ [\<lparr>ae_key = key, ae_val = ?r, ae_blk = ?b\<rparr>]\<rparr>)"
        using True key(1) m(1) pf by (simp add: gvn_inst_def)
      then show ?thesis using gvn_no_match[OF set inv x(1) conjunct1[OF True] k] by (fastforce simp: quiet_def)
    next
      case (Some v)
      then obtain e where e: "e \<in> set (gs_table s)" "gvn_key_equal (ae_key e) key" "ae_val e = v"
        "ae_blk e = ?b \<or> ny_dominator_tree_dominates dt (ae_blk e) ?b = Some True" using m(2) by blast
      obtain j where j: "j \<in> D" "live (gs_fn s) j" "entry_of fn \<sigma> j e" using D(13)[OF e(1)] by blast
      have jb: "ae_blk e = i_block (f_insts fn ! j)" using j(3) by (simp add: entry_of_def)
      have cb: "comes_before fn L j x" using e(4) bef[OF j(1) D(6)[OF j(2)]] jb unfolding dom by (auto simp: comes_before_def Let_def)
      obtain fn2 where fn2: "ny_function_remove_instruction (ny_function_replace_all_uses (gs_fn s) ?r v) x = Some fn2"
        "gvn_inv fn L (then_to \<sigma> ?r v) (insert x D) (s\<lparr>gs_fn := fn2, gs_changed := True\<rparr>)"
        using gvn_match[OF set inv x j e(2) k(1,2,4) cb rm] unfolding e(3) by blast
      have "i_id ?inst = x" using live_index[OF D(1) x(1)] .
      then have "gvn_inst dt ?b ?inst s = Some (s\<lparr>gs_fn := fn2, gs_changed := True\<rparr>)"
        using True key(1) m(1) pf fn2(1) Some by (simp add: gvn_inst_def)
      then show ?thesis using fn2(2) by (fastforce simp: quiet_def)
    qed
  qed
qed

subsection \<open>The walk\<close>

lemma gvn_walk_list:
  assumes set: "gvn_setting fn L dt" and b: "b < length L"
  shows "gvn_inv fn L \<sigma> D s \<Longrightarrow> L ! b = ys @ xs \<Longrightarrow> D \<inter> set (L ! b) = set ys \<Longrightarrow>
    \<exists>s' \<sigma>'. gvn_walk dt b (hd_or xs NY_INVALID_INST) s = Some s' \<and> gvn_inv fn L \<sigma>' (D \<union> set xs) s' \<and> quiet s s'"
proof (induction xs arbitrary: ys D \<sigma> s)
  case Nil
  then show ?case using quiet_refl by (subst gvn_walk.simps) auto
next
  case (Cons x xs)
  have wf: "fn_wf fn L" using set by (simp add: gvn_setting_def)
  note D = gvn_invD[OF Cons.prems(1)]
  have bl: "b < length (f_blocks fn)" using b wf by (simp add: fn_wf_def)
  have dist: "distinct (L ! b)" using fn_wf_block[OF wf bl] by (simp add: block_ok_def)
  have mem: "live fn y" "i_block (f_insts fn ! y) = b" if "y \<in> set (L ! b)" for y
    using fn_wf_mem[OF wf bl that] by (simp_all add: live_def)
  have new: "y \<notin> D" "live (gs_fn s) y" if "y \<in> set (x # xs)" for y
  proof -
    have y: "y \<in> set (L ! b)" "y \<notin> set ys" using that dist Cons.prems(2) by auto
    then show "y \<notin> D" using Cons.prems(3) by blast
    then show "live (gs_fn s) y" using D(10)[of y] mem(1)[OF y(1)] by blast
  qed
  have xb: "i_block (f_insts fn ! x) = b" using mem(2)[of x] Cons.prems(2) by simp
  have x: "live (gs_fn s) x" "x \<notin> D" using new[of x] by simp_all
  have "before (L ! i_block (f_insts fn ! x)) j x" if "j \<in> D" "live fn j" "i_block (f_insts fn ! j) = i_block (f_insts fn ! x)" for j
  proof -
    have "j < length (f_insts fn)" "i_opcode (f_insts fn ! j) \<noteq> NY_OPCODE_NONE" using that(2) by (auto simp: live_def)
    then have "j \<in> set (L ! b)" using fn_wf_live(2)[OF wf] that(3) xb by metis
    then have "j \<in> set ys" using Cons.prems(3) that(1) by blast
    then obtain us vs where "ys = us @ j # vs" by (meson split_list)
    then have "L ! b = us @ j # vs @ x # xs" using Cons.prems(2) by simp
    then show ?thesis unfolding before_def xb by blast
  qed
  then obtain s1 \<sigma>1 where s1: "gvn_inst dt b (f_insts (gs_fn s) ! x) s = Some s1" "gvn_inv fn L \<sigma>1 (insert x D) s1" "quiet s s1"
    using gvn_inst_step[OF set Cons.prems(1) x] unfolding xb by blast
  have split: "L ! b = (ys @ [x]) @ xs" "insert x D \<inter> set (L ! b) = set (ys @ [x])" using Cons.prems(2,3) by auto
  obtain s' \<sigma>' where s': "gvn_walk dt b (hd_or xs NY_INVALID_INST) s1 = Some s'" "gvn_inv fn L \<sigma>' (insert x D \<union> set xs) s'" "quiet s1 s'"
    using Cons.IH[OF s1(2) split] by blast
  have "filter (live (gs_fn s)) (L ! b) = filter (live (gs_fn s)) ys @ x # xs" using new by (simp add: Cons.prems(2))
  then have "block_ok (f_insts (gs_fn s)) (f_blocks (gs_fn s) ! b) b (filter (live (gs_fn s)) ys @ x # xs)"
    using D(1) b by (metis (no_types, lifting) fn_wf_block fn_wf_def length_map nth_map)
  then have nx: "i_next (f_insts (gs_fn s) ! x) = hd_or xs NY_INVALID_INST" by (simp add: block_ok_def)
  have "x \<noteq> NY_INVALID_INST" using fn_wf_mem(5)[OF wf bl, of x] Cons.prems(2) by simp
  moreover have "x < length (f_insts (gs_fn s))" using x(1) by (simp add: live_def)
  ultimately have "gvn_walk dt b (hd_or (x # xs) NY_INVALID_INST) s = Some s'"
    using s1(1) s'(1) by (subst gvn_walk.simps) (simp add: nx)
  then show ?case using s'(2) quiet_trans[OF s1(3) s'(3)] by auto
qed

lemma gvn_blocks:
  assumes set: "gvn_setting fn L dt"
  shows "n \<le> length L \<Longrightarrow> \<exists>s' \<sigma>. foldM (gvn_block dt) \<lparr>gs_fn = fn, gs_table = [], gs_changed = False\<rparr> [0..<n] = Some s'
    \<and> gvn_inv fn L \<sigma> (\<Union>c < n. set (L ! c)) s' \<and> quiet \<lparr>gs_fn = fn, gs_table = [], gs_changed = False\<rparr> s'"
proof (induction n)
  case 0
  have wf: "fn_wf fn L" and ow: "ops_wf fn" using set by (simp_all add: gvn_setting_def)
  have "filter (live fn) (L ! b) = L ! b" if "b < length L" for b
    using fn_wf_mem(1,2)[OF wf, of b] that wf by (auto simp: live_def fn_wf_def intro!: filter_True)
  then have "map (filter (live fn)) L = L" by (intro nth_equalityI) simp_all
  moreover have "map (ren id) ops = ops" for ops
  proof -
    have "ren id op = op" for op by (cases op) simp_all
    then show ?thesis by (simp add: map_idI)
  qed
  ultimately have "gvn_inv fn L id {} \<lparr>gs_fn = fn, gs_table = [], gs_changed = False\<rparr>"
    using wf ow by (intro gvn_invI) simp_all
  then show ?case using quiet_refl by auto
next
  case (Suc b)
  let ?s0 = "\<lparr>gs_fn = fn, gs_table = [], gs_changed = False\<rparr>" and ?D = "\<Union>c < b. set (L ! c)"
  obtain s \<sigma> where s: "foldM (gvn_block dt) ?s0 [0..<b] = Some s" "gvn_inv fn L \<sigma> ?D s" "quiet ?s0 s"
    using Suc by auto
  have wf: "fn_wf fn L" using set by (simp add: gvn_setting_def)
  note D = gvn_invD[OF s(2)]
  have b: "b < length L" using Suc.prems by simp
  have bl: "b < length (f_blocks fn)" "b < length (f_blocks (gs_fn s))" using b wf D(1) by (simp_all add: fn_wf_def)
  have disj: "?D \<inter> set (L ! b) = set []"
  proof -
    have False if "c < b" "y \<in> set (L ! c)" "y \<in> set (L ! b)" for c y
    proof -
      have c: "c < length (f_blocks fn)" using that(1) bl(1) by simp
      show False using fn_wf_mem(3)[OF wf c that(2)] fn_wf_mem(3)[OF wf bl(1) that(3)] that(1) by simp
    qed
    then show ?thesis by auto
  qed
  have "filter (live (gs_fn s)) (L ! b) = L ! b"
  proof (rule filter_True, rule ballI)
    fix y assume y: "y \<in> set (L ! b)"
    have "live fn y" using fn_wf_mem(1,2)[OF wf bl(1) y] by (simp add: live_def)
    then show "live (gs_fn s) y" using D(10)[of y] y disj by auto
  qed
  then have "block_ok (f_insts (gs_fn s)) (f_blocks (gs_fn s) ! b) b (L ! b)" using fn_wf_block[OF D(1) bl(2)] b by simp
  then have first: "b_first (f_blocks (gs_fn s) ! b) = hd_or (L ! b) NY_INVALID_INST" by (simp add: block_ok_def)
  obtain s' \<sigma>' where s': "gvn_walk dt b (hd_or (L ! b) NY_INVALID_INST) s = Some s'" "gvn_inv fn L \<sigma>' (?D \<union> set (L ! b)) s'" "quiet s s'"
    using gvn_walk_list[OF set b s(2) _ disj] by auto
  have "gvn_block dt s b = Some s'" using s'(1) bl(2) first by (simp add: gvn_block_def)
  moreover have "(\<Union>c < Suc b. set (L ! c)) = ?D \<union> set (L ! b)" by (auto simp: less_Suc_eq)
  ultimately show ?case using s(1) s'(2) quiet_trans[OF s(3) s'(3)] by (auto simp: foldM_append)
qed

subsection \<open>The pass\<close>

text \<open>
  The specification of equal operands: the same operand, or two floating-point immediates that are zeros of either sign.  The
  pass compares immediates with the C operator, for which \<open>0.0\<close> and \<open>-0.0\<close> are equal.
\<close>

definition same_operand :: "ny_operand \<Rightarrow> ny_operand \<Rightarrow> bool" where
  "same_operand a b \<longleftrightarrow> a = b \<or> (\<exists>x y. a = OpFloat x \<and> b = OpFloat y \<and> f_magnitude x = 0 \<and> f_magnitude y = 0)"

definition commuting :: "ny_opcode set" where
  "commuting = {NY_OPCODE_ADD, NY_OPCODE_MUL, NY_OPCODE_AND, NY_OPCODE_OR, NY_OPCODE_XOR, NY_OPCODE_CMP_EQ, NY_OPCODE_CMP_NE,
     NY_OPCODE_FADD, NY_OPCODE_FMUL, NY_OPCODE_FCMP_EQ, NY_OPCODE_FCMP_NE}"

definition computes_same :: "ny_function \<Rightarrow> (nat \<Rightarrow> nat) \<Rightarrow> nat \<Rightarrow> nat \<Rightarrow> bool" where
  "computes_same fn \<sigma> j i \<longleftrightarrow> i_opcode (f_insts fn ! j) = i_opcode (f_insts fn ! i)
     \<and> val_type fn (i_result (f_insts fn ! j)) = val_type fn (i_result (f_insts fn ! i))
     \<and> (let xs = map (ren \<sigma>) (inst_ops fn j); ys = map (ren \<sigma>) (inst_ops fn i)
        in list_all2 same_operand xs ys \<or> i_opcode (f_insts fn ! i) \<in> commuting \<and> list_all2 same_operand xs (rev ys))"

lemma f_eq_same: "f_eq x y \<Longrightarrow> x = y \<or> f_magnitude x = 0 \<and> f_magnitude y = 0"
proof -
  assume "f_eq x y"
  then have k: "f_key x = f_key y" by (simp add: f_eq_def)
  show ?thesis
  proof (cases "f_magnitude x = 0")
    case True
    then have "f_magnitude y = 0" using k by (auto simp: f_key_def split: if_splits)
    then show ?thesis using True by simp
  next
    case False
    then have m: "f_magnitude x = f_magnitude y" "bit x 63 = bit y 63" using k by (auto simp: f_key_def split: if_splits)
    have t: "take_bit 63 x = take_bit 63 y" using m(1) unfolding f_magnitude_def by (rule unsigned_word_eqI)
    have "x = y"
    proof (rule bit_word_eqI)
      fix n assume "n < LENGTH(64)"
      then consider "n < 63" | "n = 63" by fastforce
      then show "bit x n = bit y n"
      proof cases
        case 1
        then show ?thesis using arg_cong[OF t, of "\<lambda>w. bit w n"] by (simp add: bit_take_bit_iff)
      qed (simp add: m(2))
    qed
    then show ?thesis ..
  qed
qed

lemma operand_equal_same: "operand_equal a b \<Longrightarrow> same_operand a b"
  using f_eq_same by (cases "(a, b)" rule: operand_equal.cases) (auto simp: same_operand_def)

text \<open>The two zeros are different operands of, say, a division, and the pass takes them for the same.\<close>

lemma operand_equal_signed_zeros: "operand_equal (OpFloat 0) (OpFloat (push_bit 63 1)) \<and> OpFloat 0 \<noteq> OpFloat (push_bit 63 1)"
  by (simp add: f_eq_def f_isnan_def f_key_def f_magnitude_def)

lemma same_expr_computes: "same_expr fn \<sigma> j i \<Longrightarrow> computes_same fn \<sigma> j i"
proof -
  have l: "list_all2 operand_equal us vs \<Longrightarrow> list_all2 same_operand us vs" for us vs
    by (erule list_all2_mono) (rule operand_equal_same)
  have c: "ny_opt_is_commutative op \<longleftrightarrow> op \<in> commuting" for op by (auto simp: ny_opt_is_commutative_def commuting_def)
  assume "same_expr fn \<sigma> j i"
  then show ?thesis unfolding same_expr_def computes_same_def same_args_def c Let_def using l by blast
qed

text \<open>
  C10. Value numbering returns on every well-formed function in SSA form whose edge lists agree, whose entry is a block, that has
  at most 65535 blocks, and whose candidate instructions have at most three operands (the key holds no more), and replaces
  instructions only by equal ones.  One renaming of values accounts for all changes: the instructions that stay keep
  their place and have their operands renamed; the result of every removed instruction, an operation without side effects
  that is not volatile, is renamed to the result of an instruction that stays, has the same opcode, type and
  renamed operands (up to the order when the operation commutes, and with the zeros of both signs taken as the same
  operand), and comes earlier in the block or in a block that dominates it.
\<close>

theorem gvn_replaces_equal_expressions:
  assumes "fn_wf fn L" and "ops_wf fn" and "ssa fn" and "edges_wf fn" and "f_entry fn < length (f_blocks fn)"
    and "length (f_blocks fn) \<le> 65535"
    and "\<forall>i. live fn i \<longrightarrow> is_gvn_candidate (i_opcode (f_insts fn ! i)) \<longrightarrow> i_op_count (f_insts fn ! i) \<le> 3"
  shows "\<exists>fn' ch \<sigma>. ny_opt_pass_gvn fresh fn None = Some (fn', ch) \<and> (ch \<or> fn' = fn)
    \<and> (\<exists>L'. fn_wf fn' L') \<and> ops_wf fn' \<and> block_edges fn' = block_edges fn
    \<and> (\<forall>i. live fn' i \<longrightarrow> live fn i \<and> payload (f_insts fn' ! i) = payload (f_insts fn ! i)
         \<and> i_block (f_insts fn' ! i) = i_block (f_insts fn ! i) \<and> inst_ops fn' i = map (ren \<sigma>) (inst_ops fn i))
    \<and> (\<forall>i. live fn i \<longrightarrow> \<not> live fn' i \<longrightarrow> removable fn i \<and> (\<exists>j. live fn' j \<and> \<sigma> (i_result (f_insts fn ! i)) = i_result (f_insts fn ! j)
         \<and> computes_same fn \<sigma> j i \<and> comes_before fn L j i))
    \<and> (\<forall>v. \<sigma> v \<noteq> v \<longrightarrow> (\<exists>i. live fn i \<and> \<not> live fn' i \<and> i_result (f_insts fn ! i) = v))"
proof -
  obtain dt where dt: "ny_dominator_tree_init fresh fn = Some dt"
    and q: "\<And>a b. ny_dominator_tree_dominates dt a b = Some (a = b \<or> a \<in> dom_nodes fn \<and> b \<in> dom_nodes fn \<and> dg.dom fn a b)"
    using dom_tree_built[OF assms(4,5,6), of fresh] by blast
  have set: "gvn_setting fn L dt"
    using assms(1-3,7) q unfolding gvn_setting_def ssa_def reachable_nodes dom_paths by blast
  have n: "length (f_blocks fn) \<le> length L" using assms(1) by (simp add: fn_wf_def)
  obtain s \<sigma> where s: "foldM (gvn_block dt) \<lparr>gs_fn = fn, gs_table = [], gs_changed = False\<rparr> [0..<length (f_blocks fn)] = Some s"
    "gvn_inv fn L \<sigma> (\<Union>c < length (f_blocks fn). set (L ! c)) s" "quiet \<lparr>gs_fn = fn, gs_table = [], gs_changed = False\<rparr> s"
    using gvn_blocks[OF set n] by blast
  note D = gvn_invD[OF s(2)]
  have "f_blocks fn \<noteq> []" "f_entry fn \<noteq> NY_INVALID_BLOCK" using assms(5,6) by (auto simp: NY_INVALID_def)
  then have "ny_opt_pass_gvn fresh fn None = Some (gs_fn s, gs_changed s)" using s(1) by (simp add: ny_opt_pass_gvn_def dt)
  moreover have "gs_changed s \<or> gs_fn s = fn" using s(3) by (simp add: quiet_def)
  moreover have "live fn i \<longrightarrow> \<not> live (gs_fn s) i \<longrightarrow> removable fn i \<and> (\<exists>j. live (gs_fn s) j \<and> \<sigma> (i_result (f_insts fn ! i)) = i_result (f_insts fn ! j)
      \<and> computes_same fn \<sigma> j i \<and> comes_before fn L j i)" for i using D(10)[of i] same_expr_computes by blast
  moreover have "\<forall>i. live (gs_fn s) i \<longrightarrow> live fn i \<and> payload (f_insts (gs_fn s) ! i) = payload (f_insts fn ! i)
      \<and> i_block (f_insts (gs_fn s) ! i) = i_block (f_insts fn ! i) \<and> inst_ops (gs_fn s) i = map (ren \<sigma>) (inst_ops fn i)"
    using D(6-9) by blast
  ultimately show ?thesis using D(1,2,3,11) by blast
qed

text \<open>An addition that is computed twice, with its operands swapped.\<close>

definition twice_fn :: ny_function where
  "twice_fn = (ny_function_init 0 ''t'' 0 0)\<lparr>f_entry := 0,
     f_blocks := [\<lparr>b_id = 0, b_name = ''entry'', b_first = 0, b_last = 2, b_inst_count = 3, b_preds = [], b_succs = []\<rparr>],
     f_insts := [mk_inst 0 NY_OPCODE_ADD 2 0 2 0 NY_INVALID 1, mk_inst 1 NY_OPCODE_ADD 3 2 2 0 0 2,
       mk_inst 2 NY_OPCODE_RETURN NY_INVALID 4 1 0 1 NY_INVALID],
     f_values := [\<lparr>v_id = 0, v_type = 4, v_kind = NY_VAL_ARGUMENT, v_def = NY_INVALID, v_index = 0, v_name = ''x''\<rparr>,
       \<lparr>v_id = 1, v_type = 4, v_kind = NY_VAL_ARGUMENT, v_def = NY_INVALID, v_index = 1, v_name = ''y''\<rparr>,
       \<lparr>v_id = 2, v_type = 4, v_kind = NY_VAL_INSTRUCTION, v_def = 0, v_index = 0, v_name = ''a''\<rparr>,
       \<lparr>v_id = 3, v_type = 4, v_kind = NY_VAL_INSTRUCTION, v_def = 1, v_index = 0, v_name = ''b''\<rparr>],
     f_operands := [OpValue 0, OpValue 1, OpValue 1, OpValue 0, OpValue 3]\<rparr>"

lemma twice_parts: "length (f_insts twice_fn) = 3" "length (f_blocks twice_fn) = 1" "length (f_operands twice_fn) = 5"
  "f_insts twice_fn ! 0 = mk_inst 0 NY_OPCODE_ADD 2 0 2 0 NY_INVALID 1"
  "f_insts twice_fn ! Suc 0 = mk_inst 1 NY_OPCODE_ADD 3 2 2 0 0 2"
  "f_insts twice_fn ! 2 = mk_inst 2 NY_OPCODE_RETURN NY_INVALID 4 1 0 1 NY_INVALID"
  "f_blocks twice_fn ! 0 = \<lparr>b_id = 0, b_name = ''entry'', b_first = 0, b_last = 2, b_inst_count = 3, b_preds = [], b_succs = []\<rparr>"
  "f_entry twice_fn = 0" "inst_ops twice_fn 2 = [OpValue 3]"
  by (simp_all add: twice_fn_def mk_inst_def inst_ops_def subarray_def)

lemma twice_live: "live twice_fn i \<longleftrightarrow> i < 3"
  by (auto simp: live_def twice_parts mk_inst_def dest!: less_three)

lemma twice_wf: "fn_wf twice_fn [[0, 1, 2]]" "ops_wf twice_fn" "ssa twice_fn" "edges_wf twice_fn"
proof -
  have "block_ok (f_insts twice_fn) (f_blocks twice_fn ! 0) 0 [0, 1, 2]" by (auto simp: block_ok_def twice_parts mk_inst_def)
  moreover have "i_id (f_insts twice_fn ! i) = i \<and> i_block (f_insts twice_fn ! i) = 0" if "i < 3" for i
    using less_three[OF that] by (auto simp: twice_parts mk_inst_def)
  ultimately show "fn_wf twice_fn [[0, 1, 2]]" by (auto simp: fn_wf_def twice_parts NY_INVALID_def)
  show "ops_wf twice_fn" unfolding ops_wf_def twice_live by (auto simp: twice_parts mk_inst_def dest!: less_three)
  show "ssa twice_fn" unfolding ssa_def twice_live by (auto simp: twice_parts mk_inst_def NY_INVALID_def dest!: less_three)
  show "edges_wf twice_fn" by (auto simp: edges_wf_def edges_def twice_parts)
qed

lemma gvn_walk_next:
  "cur \<noteq> NY_INVALID_INST \<Longrightarrow> ny_function_get_instruction (gs_fn s) cur = Some inst \<Longrightarrow>
     gvn_walk dt b cur s = Option.bind (gvn_inst dt b inst s) (gvn_walk dt b (i_next inst))"
  by (subst gvn_walk.simps) simp

lemma twice_run:
  "\<exists>s. foldM (gvn_block dt) \<lparr>gs_fn = twice_fn, gs_table = [], gs_changed = False\<rparr> [0..<1] = Some s
     \<and> gs_changed s \<and> inst_ops (gs_fn s) 2 = [OpValue 2] \<and> \<not> live (gs_fn s) 1"
  apply (simp add: gvn_block_def twice_fn_def ny_function_init_def)
  apply (subst gvn_walk_next, simp add: NY_INVALID_def, simp)
  apply (simp add: gvn_inst_def mk_inst_def NY_INVALID_def is_gvn_candidate_def make_gvn_key_def ny_function_get_operands_def op_at_def ny_opt_is_commutative_def key_order_def Let_def)
  apply (subst gvn_walk_next, simp add: NY_INVALID_def, simp)
  apply (simp add: gvn_inst_def mk_inst_def NY_INVALID_def is_gvn_candidate_def make_gvn_key_def ny_function_get_operands_def op_at_def ny_opt_is_commutative_def key_order_def Let_def gvn_key_equal_def)
  apply (simp add: ny_function_replace_all_uses_def replace_val_def numeral_2_eq_2 numeral_3_eq_3 numeral_Bit0[of num.One])
  apply (simp add: ny_function_remove_instruction_def upd_inst_def upd_block_def upd_value_def numeral_2_eq_2 numeral_3_eq_3)
  apply (subst gvn_walk_next, simp add: NY_INVALID_def, simp)
  apply (simp add: gvn_inst_def NY_INVALID_def)
  apply (subst gvn_walk.simps)
  apply (simp add: NY_INVALID_def inst_ops_def subarray_def live_def)
  done

text \<open>The second addition goes and the return uses the first.\<close>

lemma gvn_replaces_equal_expressions_witness:
  "\<exists>fn' \<sigma>. ny_opt_pass_gvn (\<lambda>_. 9) twice_fn None = Some (fn', True) \<and> \<not> live fn' 1 \<and> inst_ops fn' 2 = [OpValue 2]
     \<and> inst_ops fn' 2 = map (ren \<sigma>) (inst_ops twice_fn 2) \<and> (\<exists>j. live fn' j \<and> \<sigma> 3 = i_result (f_insts twice_fn ! j) \<and> computes_same twice_fn \<sigma> j 1)"
proof -
  have c: "\<forall>i. live twice_fn i \<longrightarrow> is_gvn_candidate (i_opcode (f_insts twice_fn ! i)) \<longrightarrow> i_op_count (f_insts twice_fn ! i) \<le> 3"
    unfolding twice_live by (auto simp: twice_parts mk_inst_def dest!: less_three)
  have e: "f_entry twice_fn < length (f_blocks twice_fn)" "length (f_blocks twice_fn) \<le> 65535" by (simp_all add: twice_parts)
  obtain fn' ch \<sigma> where r: "ny_opt_pass_gvn (\<lambda>_. 9) twice_fn None = Some (fn', ch)"
    and k: "\<forall>i. live fn' i \<longrightarrow> live twice_fn i \<and> payload (f_insts fn' ! i) = payload (f_insts twice_fn ! i)
         \<and> i_block (f_insts fn' ! i) = i_block (f_insts twice_fn ! i) \<and> inst_ops fn' i = map (ren \<sigma>) (inst_ops twice_fn i)"
    and g: "\<forall>i. live twice_fn i \<longrightarrow> \<not> live fn' i \<longrightarrow> removable twice_fn i \<and> (\<exists>j. live fn' j \<and> \<sigma> (i_result (f_insts twice_fn ! i)) = i_result (f_insts twice_fn ! j)
         \<and> computes_same twice_fn \<sigma> j i \<and> comes_before twice_fn [[0, 1, 2]] j i)"
    using gvn_replaces_equal_expressions[OF twice_wf e c, of "\<lambda>_. 9"] by (elim exE conjE) (rule that, assumption+)
  obtain dt where dt: "ny_dominator_tree_init (\<lambda>_. 9) twice_fn = Some dt" using dom_tree_built[OF twice_wf(4) e, of "\<lambda>_. 9"] by blast
  obtain s where s: "foldM (gvn_block dt) \<lparr>gs_fn = twice_fn, gs_table = [], gs_changed = False\<rparr> [0..<1] = Some s"
    "gs_changed s" "inst_ops (gs_fn s) 2 = [OpValue 2]" "\<not> live (gs_fn s) 1" using twice_run by blast
  have ne: "f_blocks twice_fn \<noteq> []" "f_entry twice_fn \<noteq> NY_INVALID_BLOCK" using twice_parts(2,8) by (auto simp: NY_INVALID_def)
  have "ny_opt_pass_gvn (\<lambda>_. 9) twice_fn None = Some (gs_fn s, True)"
    using s(1,2) ne unfolding ny_opt_pass_gvn_def twice_parts(2) by (simp add: dt)
  then have fn': "fn' = gs_fn s" "ch" using r by simp_all
  have l2: "live fn' 2"
  proof (rule ccontr)
    assume "\<not> live fn' 2"
    then obtain j where j: "computes_same twice_fn \<sigma> j 2" "live fn' j" "comes_before twice_fn [[0, 1, 2]] j 2" using g twice_live[of 2] by auto
    then have "i_opcode (f_insts twice_fn ! j) = NY_OPCODE_RETURN" "j < 3" using k twice_live
      by (auto simp: computes_same_def twice_parts mk_inst_def)
    then have "j = 2" using twice_parts(4,5) by (auto simp: mk_inst_def dest!: less_three)
    then show False using j(2) \<open>\<not> live fn' 2\<close> by simp
  qed
  then have ops: "inst_ops fn' 2 = map (ren \<sigma>) (inst_ops twice_fn 2)" using k by blast
  have "live twice_fn 1" by (simp add: twice_live)
  moreover have "i_result (f_insts twice_fn ! 1) = 3" using twice_parts(5) by (simp add: mk_inst_def)
  ultimately have "\<exists>j. live fn' j \<and> \<sigma> 3 = i_result (f_insts twice_fn ! j) \<and> computes_same twice_fn \<sigma> j 1" using g s(4) fn'(1) by metis
  then show ?thesis using r fn'(2) s(3,4) ops unfolding fn'(1)[symmetric] by (intro exI[of _ fn'] exI[of _ \<sigma>]) simp
qed

end
