(* ===== verification/Sccp.thy ===== *)
theory Sccp
  imports Const_Fold Use_Def
begin

text \<open>
  Sparse conditional constant propagation, \<^verbatim>\<open>src/opt/sccp.c\<close>: lattice values, the evaluation of an instruction, the two
  work lists and the rewriting at the end.
\<close>

subsection \<open>The lattice\<close>

datatype lat_val = Lat_Top | Lat_Int "64 word" | Lat_Float "64 word" | Lat_Bottom

fun lat_meet :: "lat_val \<Rightarrow> lat_val \<Rightarrow> lat_val" where
  "lat_meet Lat_Top b = b"
| "lat_meet a Lat_Top = a"
| "lat_meet (Lat_Int a) (Lat_Int b) = (if a = b then Lat_Int a else Lat_Bottom)"
| "lat_meet (Lat_Float a) (Lat_Float b) = (if f_eq a b then Lat_Float a else Lat_Bottom)"
| "lat_meet _ _ = Lat_Bottom"

fun lat_equal :: "lat_val \<Rightarrow> lat_val \<Rightarrow> bool" where
  "lat_equal Lat_Top Lat_Top = True"
| "lat_equal Lat_Bottom Lat_Bottom = True"
| "lat_equal (Lat_Int a) (Lat_Int b) = (a = b)"
| "lat_equal (Lat_Float a) (Lat_Float b) = f_eq a b"
| "lat_equal _ _ = False"

text \<open>The member \<^verbatim>\<open>int_val\<close> of a constant; it is 0 in a floating-point one.\<close>

fun lat_int_val :: "lat_val \<Rightarrow> 64 word" where
  "lat_int_val (Lat_Int a) = a"
| "lat_int_val _ = 0"

fun lat_is_const :: "lat_val \<Rightarrow> bool" where
  "lat_is_const (Lat_Int a) = True"
| "lat_is_const (Lat_Float a) = True"
| "lat_is_const _ = False"

definition get_operand_lat :: "lat_val list \<Rightarrow> ny_operand \<Rightarrow> lat_val" where
  "get_operand_lat lat op = (case op of
       OpInt n \<Rightarrow> Lat_Int n
     | OpFloat n \<Rightarrow> Lat_Float n
     | OpValue v \<Rightarrow> if v < length lat then lat ! v else Lat_Bottom
     | _ \<Rightarrow> Lat_Bottom)"

subsection \<open>Evaluation\<close>

definition eval_const :: "ny_function \<Rightarrow> ny_instruction \<Rightarrow> lat_val option" where
  "eval_const fn inst =
     (if i_op_count inst = 1 then do {
        op0 \<leftarrow> op_at fn (ny_function_get_operands fn inst) 0;
        Some (case op0 of OpInt n \<Rightarrow> Lat_Int n | OpFloat n \<Rightarrow> Lat_Float n | _ \<Rightarrow> Lat_Bottom)
      }
      else Some Lat_Bottom)"

definition eval_phi :: "ny_function \<Rightarrow> ny_instruction \<Rightarrow> lat_val list \<Rightarrow> (nat \<times> nat) list \<Rightarrow> lat_val option" where
  "eval_phi fn inst lat ed = foldM (\<lambda>result k. do {
       let ops = ny_function_get_operands fn inst;
       op1 \<leftarrow> op_at fn ops (2 * k + 1);
       (case op1 of
          OpBlock pred \<Rightarrow>
            if (pred, i_block inst) \<in> set ed
            then do { op0 \<leftarrow> op_at fn ops (2 * k); Some (lat_meet result (get_operand_lat lat op0)) }
            else Some result
        | _ \<Rightarrow> Some result)
     }) Lat_Top [0..<i_op_count inst div 2]"

definition eval_unary :: "ny_opcode \<Rightarrow> nat \<Rightarrow> lat_val \<Rightarrow> lat_val option" where
  "eval_unary opc width a = (case a of
       Lat_Bottom \<Rightarrow> Some Lat_Bottom
     | Lat_Top \<Rightarrow> Some Lat_Top
     | Lat_Int n \<Rightarrow> do { r \<leftarrow> ny_fold_int_unary opc n width; Some (case r of Some v \<Rightarrow> Lat_Int v | None \<Rightarrow> Lat_Bottom) }
     | Lat_Float n \<Rightarrow> Some (case ny_fold_float_unary opc n of Some v \<Rightarrow> Lat_Float v | None \<Rightarrow> Lat_Bottom))"

definition eval_binary :: "host_fpu \<Rightarrow> ny_opcode \<Rightarrow> nat \<Rightarrow> nat \<Rightarrow> lat_val \<Rightarrow> lat_val \<Rightarrow> lat_val option" where
  "eval_binary h opc width cmp_w a b =
     (if a = Lat_Bottom \<or> b = Lat_Bottom then Some Lat_Bottom
      else if a = Lat_Top \<or> b = Lat_Top then Some Lat_Top
      else case (a, b) of
        (Lat_Int x, Lat_Int y) \<Rightarrow> do {
          r \<leftarrow> ny_fold_int_binary opc x y width;
          (case r of
             Some v \<Rightarrow> Some (Lat_Int v)
           | None \<Rightarrow> do { r \<leftarrow> ny_fold_int_cmp opc x y cmp_w; Some (case r of Some v \<Rightarrow> Lat_Int v | None \<Rightarrow> Lat_Bottom) })
        }
      | (Lat_Float x, Lat_Float y) \<Rightarrow>
          Some (case ny_fold_float_binary h opc x y of
              Some v \<Rightarrow> Lat_Float v
            | None \<Rightarrow> (case ny_fold_float_cmp opc x y of Some v \<Rightarrow> Lat_Int v | None \<Rightarrow> Lat_Bottom))
      | _ \<Rightarrow> Some Lat_Bottom)"

definition eval_select :: "lat_val \<Rightarrow> lat_val \<Rightarrow> lat_val \<Rightarrow> lat_val" where
  "eval_select c t f =
     (if lat_is_const c then (if lat_int_val c \<noteq> 0 then t else f) else if c = Lat_Bottom then lat_meet t f else Lat_Top)"

definition eval_instruction :: "host_fpu \<Rightarrow> ny_function \<Rightarrow> ny_instruction \<Rightarrow> lat_val list \<Rightarrow> (nat \<times> nat) list \<Rightarrow> lat_val option" where
  "eval_instruction h fn inst lat ed =
     (if i_opcode inst = NY_OPCODE_CONST then eval_const fn inst
      else case ny_function_get_value fn (i_result inst) of
        None \<Rightarrow> Some Lat_Bottom
      | Some res_val \<Rightarrow> do {
          let width = ny_opt_get_type_bit_width (v_type res_val);
          let ops = ny_function_get_operands fn inst;
          if i_opcode inst = NY_OPCODE_PHI then eval_phi fn inst lat ed
          else if i_op_count inst = 1 then do {
            op0 \<leftarrow> op_at fn ops 0;
            eval_unary (i_opcode inst) width (get_operand_lat lat op0)
          }
          else if i_op_count inst = 2 then do {
            op0 \<leftarrow> op_at fn ops 0;
            op1 \<leftarrow> op_at fn ops 1;
            let cmp_w = (case op0 of OpValue v \<Rightarrow>
                  (case ny_function_get_value fn v of Some val \<Rightarrow> ny_opt_get_type_bit_width (v_type val) | None \<Rightarrow> width)
                | _ \<Rightarrow> width);
            eval_binary h (i_opcode inst) width cmp_w (get_operand_lat lat op0) (get_operand_lat lat op1)
          }
          else if i_opcode inst = NY_OPCODE_SELECT \<and> i_op_count inst = 3 then do {
            op0 \<leftarrow> op_at fn ops 0;
            op1 \<leftarrow> op_at fn ops 1;
            op2 \<leftarrow> op_at fn ops 2;
            Some (eval_select (get_operand_lat lat op0) (get_operand_lat lat op1) (get_operand_lat lat op2))
          }
          else Some Lat_Bottom
        })"

subsection \<open>The work lists\<close>

text \<open>Both lists are stacks, with the top first.  Edges are appended.\<close>

record sccp_state =
  sc_lat :: "lat_val list"
  sc_exec :: "bool list"
  sc_edges :: "(nat \<times> nat) list"
  sc_cfg :: "nat list"
  sc_ssa :: "nat list"

definition reach_edge :: "sccp_state \<Rightarrow> nat \<Rightarrow> nat \<Rightarrow> sccp_state" where
  "reach_edge s from_id to_id =
     (if (from_id, to_id) \<in> set (sc_edges s) then s
      else let s = s\<lparr>sc_edges := sc_edges s @ [(from_id, to_id)]\<rparr> in
           if to_id < length (sc_exec s) then s\<lparr>sc_exec := (sc_exec s)[to_id := True], sc_cfg := to_id # sc_cfg s\<rparr> else s)"

definition branch_targets :: "lat_val \<Rightarrow> nat \<Rightarrow> nat \<Rightarrow> nat list" where
  "branch_targets c t f =
     (if lat_is_const c then [if lat_int_val c \<noteq> 0 then t else f] else if c = Lat_Bottom then [t, f] else [])"

definition live_targets :: "ny_function \<Rightarrow> nat \<Rightarrow> lat_val list \<Rightarrow> nat list option" where
  "live_targets fn blk_id lat =
     (case ny_function_get_block fn blk_id of
        None \<Rightarrow> Some []
      | Some blk \<Rightarrow>
          (case (if b_last blk = NY_INVALID_INST then None else ny_function_get_instruction fn (b_last blk)) of
             None \<Rightarrow> Some []
           | Some term \<Rightarrow> do {
               let ops = ny_function_get_operands fn term;
               if i_opcode term = NY_OPCODE_BRANCH \<and> i_op_count term = 1 then do {
                 op0 \<leftarrow> op_at fn ops 0;
                 Some (case op0 of OpBlock t \<Rightarrow> [t] | _ \<Rightarrow> [])
               }
               else if i_opcode term = NY_OPCODE_BRANCH_IF \<and> i_op_count term = 3 then do {
                 op0 \<leftarrow> op_at fn ops 0;
                 op1 \<leftarrow> op_at fn ops 1;
                 op2 \<leftarrow> op_at fn ops 2;
                 Some (case (op1, op2) of
                     (OpBlock t, OpBlock f) \<Rightarrow> branch_targets (get_operand_lat lat op0) t f
                   | _ \<Rightarrow> [])
               }
               else Some []
             }))"

definition eval_terminator :: "ny_function \<Rightarrow> nat \<Rightarrow> sccp_state \<Rightarrow> sccp_state option" where
  "eval_terminator fn blk_id s = do {
     ts \<leftarrow> live_targets fn blk_id (sc_lat s);
     Some (foldl (\<lambda>s t. reach_edge s blk_id t) s ts)
   }"

definition visit_inst :: "host_fpu \<Rightarrow> ny_function \<Rightarrow> ny_instruction \<Rightarrow> sccp_state \<Rightarrow> sccp_state option" where
  "visit_inst h fn inst s =
     (if i_result inst = NY_INVALID_VALUE then Some s
      else do {
        old_val \<leftarrow> rd (sc_lat s) (i_result inst);
        new_val \<leftarrow> eval_instruction h fn inst (sc_lat s) (sc_edges s);
        Some (if lat_equal new_val old_val then s
              else s\<lparr>sc_lat := (sc_lat s)[i_result inst := new_val], sc_ssa := i_result inst # sc_ssa s\<rparr>)
      })"

partial_function (option) visit_insts :: "host_fpu \<Rightarrow> ny_function \<Rightarrow> nat \<Rightarrow> sccp_state \<Rightarrow> sccp_state option" where
  "visit_insts h fn cur s =
     (if cur = NY_INVALID_INST then Some s
      else case ny_function_get_instruction fn cur of
        None \<Rightarrow> Some s
      | Some inst \<Rightarrow> do { s \<leftarrow> visit_inst h fn inst s; visit_insts h fn (i_next inst) s })"

definition visit_use :: "host_fpu \<Rightarrow> ny_function \<Rightarrow> sccp_state \<Rightarrow> nat \<times> nat \<Rightarrow> sccp_state option" where
  "visit_use h fn s u =
     (case ny_function_get_instruction fn (fst u) of
        None \<Rightarrow> Some s
      | Some inst \<Rightarrow>
          if i_block inst < length (sc_exec s) \<and> sc_exec s ! i_block inst then do {
            s \<leftarrow> visit_inst h fn inst s;
            if ny_opcode_is_terminator (i_opcode inst) then eval_terminator fn (i_block inst) s else Some s
          }
          else Some s)"

definition sccp_step :: "host_fpu \<Rightarrow> ny_function \<Rightarrow> ny_use_def \<Rightarrow> sccp_state \<Rightarrow> sccp_state option" where
  "sccp_step h fn ud s = (case sc_cfg s of
       blk_id # rest \<Rightarrow> do {
         let s = s\<lparr>sc_cfg := rest\<rparr>;
         (case ny_function_get_block fn blk_id of
            None \<Rightarrow> Some s
          | Some blk \<Rightarrow> do { s \<leftarrow> visit_insts h fn (b_first blk) s; eval_terminator fn blk_id s })
       }
     | [] \<Rightarrow>
         (case sc_ssa s of
            [] \<Rightarrow> Some s
          | v # rest \<Rightarrow> foldM (visit_use h fn) (s\<lparr>sc_ssa := rest\<rparr>) (ny_use_def_get_uses ud v)))"

partial_function (option) sccp_loop :: "host_fpu \<Rightarrow> ny_function \<Rightarrow> ny_use_def \<Rightarrow> sccp_state \<Rightarrow> sccp_state option" where
  "sccp_loop h fn ud s =
     (if sc_cfg s = [] \<and> sc_ssa s = [] then Some s else do { s \<leftarrow> sccp_step h fn ud s; sccp_loop h fn ud s })"

subsection \<open>The pass\<close>

definition lat_initial :: "ny_function \<Rightarrow> ny_value \<Rightarrow> lat_val option" where
  "lat_initial fn v =
     (if v_kind v = NY_VAL_ARGUMENT then Some Lat_Bottom
      else if v_kind v = NY_VAL_INSTRUCTION \<and> v_def v \<noteq> NY_INVALID_INST then
        (case ny_function_get_instruction fn (v_def v) of
           Some inst \<Rightarrow> if i_opcode inst = NY_OPCODE_CONST then eval_const fn inst else Some Lat_Top
         | None \<Rightarrow> Some Lat_Top)
      else Some Lat_Top)"

definition sccp_start :: "ny_function \<Rightarrow> sccp_state option" where
  "sccp_start fn = do {
     lat \<leftarrow> foldM (\<lambda>lat v. do { l \<leftarrow> lat_initial fn v; Some (lat @ [l]) }) [] (f_values fn);
     exec \<leftarrow> wr (replicate (length (f_blocks fn)) False) (f_entry fn) True;
     Some \<lparr>sc_lat = lat, sc_exec = exec, sc_edges = [], sc_cfg = [f_entry fn], sc_ssa = []\<rparr>
   }"

text \<open>The operand that holds the constant.\<close>

fun lat_operand :: "lat_val \<Rightarrow> ny_operand option" where
  "lat_operand (Lat_Int n) = Some (OpInt n)"
| "lat_operand (Lat_Float n) = Some (OpFloat n)"
| "lat_operand _ = None"

definition sccp_replace :: "sccp_state \<Rightarrow> ny_function \<times> bool \<Rightarrow> nat \<Rightarrow> (ny_function \<times> bool) option" where
  "sccp_replace s = (\<lambda>(fn, changed) i. do {
     inst \<leftarrow> rd (f_insts fn) i;
     if i_opcode inst = NY_OPCODE_NONE \<or> i_opcode inst = NY_OPCODE_CONST \<or> i_result inst = NY_INVALID_VALUE
        \<or> i_block inst \<ge> length (sc_exec s) \<or> \<not> sc_exec s ! i_block inst
     then Some (fn, changed)
     else case (if i_result inst < length (sc_lat s) then lat_operand (sc_lat s ! i_result inst) else None) of
         None \<Rightarrow> Some (fn, changed)
       | Some op \<Rightarrow> do { fn \<leftarrow> make_const fn i op; Some (fn, True) }
   })"

definition sccp_branch :: "sccp_state \<Rightarrow> ny_function \<times> bool \<times> bool \<Rightarrow> nat \<Rightarrow> (ny_function \<times> bool \<times> bool) option" where
  "sccp_branch s = (\<lambda>(fn, changed, cfg_changed) b. do {
     ex \<leftarrow> rd (sc_exec s) b;
     blk \<leftarrow> rd (f_blocks fn) b;
     (case (if \<not> ex \<or> b_last blk = NY_INVALID_INST then None else ny_function_get_instruction fn (b_last blk)) of
        None \<Rightarrow> Some (fn, changed, cfg_changed)
      | Some term \<Rightarrow>
          if i_opcode term \<noteq> NY_OPCODE_BRANCH_IF \<or> i_op_count term \<noteq> 3 then Some (fn, changed, cfg_changed)
          else do {
            let ops = ny_function_get_operands fn term;
            op0 \<leftarrow> op_at fn ops 0;
            op1 \<leftarrow> op_at fn ops 1;
            op2 \<leftarrow> op_at fn ops 2;
            (case (op1, op2) of
               (OpBlock t, OpBlock f) \<Rightarrow>
                 if lat_is_const (get_operand_lat (sc_lat s) op0) then do {
                   let c = lat_int_val (get_operand_lat (sc_lat s) op0);
                   let taken = (if c \<noteq> 0 then t else f);
                   let dead = (if c \<noteq> 0 then f else t);
                   fn \<leftarrow> upd_inst fn (b_last blk) (\<lambda>i. i\<lparr>i_opcode := NY_OPCODE_BRANCH\<rparr>);
                   fn \<leftarrow> upd_inst (ny_instruction_replace_operand fn (i_id term) 0 (OpBlock taken)) (b_last blk) (\<lambda>i. i\<lparr>i_op_count := 1\<rparr>);
                   fn \<leftarrow> (if dead < length (f_blocks fn)
                          then do { fn \<leftarrow> ny_block_remove_edge fn b dead; ny_function_remove_phi_incoming fn dead b }
                          else Some fn);
                   Some (fn, True, True)
                 }
                 else Some (fn, changed, cfg_changed)
             | _ \<Rightarrow> Some (fn, changed, cfg_changed))
          })
   })"

text \<open>
  The result says whether the function changed and whether its graph did.  The uses come from the analysis manager when
  there is one.
\<close>

definition ny_opt_pass_sccp ::
  "host_fpu \<Rightarrow> (nat \<Rightarrow> nat \<times> nat) \<Rightarrow> ny_function \<Rightarrow> ny_use_def option \<Rightarrow> (ny_function \<times> bool \<times> bool) option" where
  "ny_opt_pass_sccp h fresh fn am =
     (if f_blocks fn = [] \<or> f_entry fn = NY_INVALID_BLOCK then Some (fn, False, False)
      else do {
        ud \<leftarrow> (case am of Some ud \<Rightarrow> Some ud | None \<Rightarrow> ny_use_def_init fresh fn);
        s \<leftarrow> sccp_start fn;
        s \<leftarrow> sccp_loop h fn ud s;
        (fn, changed) \<leftarrow> foldM (sccp_replace s) (fn, False) [0..<length (f_insts fn)];
        foldM (sccp_branch s) (fn, changed, False) [0..<length (f_blocks fn)]
      })"

end
