(* ===== verification/Sccp_Mono.thy ===== *)
theory Sccp_Mono
  imports Sccp Dce
begin

text \<open>
  The lattice of \<^verbatim>\<open>src/opt/sccp.c\<close> without floating-point constants: its order, the evaluation as a function of the
  lattice values of the operands, and the monotonicity of the evaluation and of the targets of a terminator.
\<close>

subsection \<open>The order of the lattice\<close>

definition lat_le :: "lat_val \<Rightarrow> lat_val \<Rightarrow> bool" where
  "lat_le a b \<longleftrightarrow> a = Lat_Top \<or> b = Lat_Bottom \<or> a = b"

definition plain :: "lat_val \<Rightarrow> bool" where
  "plain a \<longleftrightarrow> (\<forall>w. a \<noteq> Lat_Float w)"

fun height :: "lat_val \<Rightarrow> nat" where
  "height Lat_Top = 2"
| "height Lat_Bottom = 0"
| "height _ = 1"

lemma lat_le_refl [simp]: "lat_le a a" "lat_le Lat_Top a" "lat_le a Lat_Bottom"
  by (simp_all add: lat_le_def)

lemma lat_le_trans: "lat_le a b \<Longrightarrow> lat_le b c \<Longrightarrow> lat_le a c"
  by (auto simp: lat_le_def)

lemma plain_simps [simp]: "plain Lat_Top" "plain Lat_Bottom" "plain (Lat_Int n)" "\<not> plain (Lat_Float w)"
  by (auto simp: plain_def)

lemma plain_cases: "plain a \<Longrightarrow> a = Lat_Top \<or> a = Lat_Bottom \<or> (\<exists>n. a = Lat_Int n)"
  by (cases a) auto

lemma lat_equal_plain: "plain a \<Longrightarrow> plain b \<Longrightarrow> lat_equal a b \<longleftrightarrow> a = b"
  by (cases a; cases b) auto

lemma lat_meet_plain [simp]: "plain a \<Longrightarrow> plain b \<Longrightarrow> plain (lat_meet a b)"
  by (cases a; cases b) auto

lemma lat_meet_bottom [simp]: "lat_meet Lat_Bottom b = Lat_Bottom" "lat_meet a Lat_Bottom = Lat_Bottom"
  by (cases b, simp_all) (cases a, simp_all)

lemma lat_meet_ge: "plain a \<Longrightarrow> plain b \<Longrightarrow> lat_le a (lat_meet a b)" "plain a \<Longrightarrow> plain b \<Longrightarrow> lat_le b (lat_meet a b)"
  by (cases a; cases b; auto simp: lat_le_def)+

lemma lat_meet_mono:
  assumes "plain a" "plain a'" "plain b" "plain b'" "lat_le a a'" "lat_le b b'"
  shows "lat_le (lat_meet a b) (lat_meet a' b')"
  using assms by (cases a; cases a'; cases b; cases b'; auto simp: lat_le_def)

lemma height_less: "plain a \<Longrightarrow> plain b \<Longrightarrow> lat_le a b \<Longrightarrow> a \<noteq> b \<Longrightarrow> height b < height a"
  by (cases a; cases b; auto simp: lat_le_def)

subsection \<open>Evaluation over the operand list\<close>

definition phi_meet :: "ny_operand list \<Rightarrow> nat \<Rightarrow> lat_val list \<Rightarrow> (nat \<times> nat) list \<Rightarrow> nat list \<Rightarrow> lat_val \<Rightarrow> lat_val" where
  "phi_meet ops blk lat ed ks r0 = foldl (\<lambda>r k. case ops ! (2 * k + 1) of
       OpBlock p \<Rightarrow> if (p, blk) \<in> set ed then lat_meet r (get_operand_lat lat (ops ! (2 * k))) else r
     | _ \<Rightarrow> r) r0 ks"

lemma pair_index: "k < n div 2 \<Longrightarrow> Suc (2 * k) < (n :: nat)"
  by linarith

lemma eval_phi_meet:
  assumes ow: "ops_wf fn" and i: "live fn i"
  shows "eval_phi fn (f_insts fn ! i) lat ed
    = Some (phi_meet (inst_ops fn i) (i_block (f_insts fn ! i)) lat ed [0..<i_op_count (f_insts fn ! i) div 2] Lat_Top)"
proof -
  let ?x = "f_insts fn ! i"
  have "foldM (\<lambda>result k. do {
       let ops = ny_function_get_operands fn ?x;
       op1 \<leftarrow> op_at fn ops (2 * k + 1);
       (case op1 of
          OpBlock pred \<Rightarrow>
            if (pred, i_block ?x) \<in> set ed
            then do { op0 \<leftarrow> op_at fn ops (2 * k); Some (lat_meet result (get_operand_lat lat op0)) }
            else Some result
        | _ \<Rightarrow> Some result)
     }) r ks = Some (phi_meet (inst_ops fn i) (i_block ?x) lat ed ks r)" if "\<forall>k \<in> set ks. 2 * k + 1 < i_op_count ?x" for r ks
    using that
  proof (induction ks arbitrary: r)
    case (Cons k ks)
    have "op_at fn (ny_function_get_operands fn ?x) (2 * k + 1) = Some (inst_ops fn i ! (2 * k + 1))"
      "op_at fn (ny_function_get_operands fn ?x) (2 * k) = Some (inst_ops fn i ! (2 * k))"
      using op_at_inst[OF ow i, of "2 * k + 1"] op_at_inst[OF ow i, of "2 * k"] Cons.prems by simp_all
    then show ?case using Cons by (simp add: phi_meet_def Let_def split: ny_operand.splits)
  qed (simp add: phi_meet_def)
  from this[of "[0..<i_op_count ?x div 2]" Lat_Top] show ?thesis unfolding eval_phi_def by (simp add: pair_index)
qed

text \<open>The operands of an instruction have the same lattice values in \<open>lat\<close> and \<open>lat'\<close>.\<close>

definition agree :: "ny_function \<Rightarrow> nat \<Rightarrow> lat_val list \<Rightarrow> lat_val list \<Rightarrow> bool" where
  "agree fn i lat lat' \<longleftrightarrow> (\<forall>op \<in> set (inst_ops fn i). get_operand_lat lat' op = get_operand_lat lat op)"

lemma phi_meet_cong:
  assumes "\<forall>k \<in> set ks. 2 * k + 1 < length ops" "\<forall>op \<in> set ops. get_operand_lat lat' op = get_operand_lat lat op"
    "\<forall>p. (p, blk) \<in> set ed' \<longleftrightarrow> (p, blk) \<in> set ed"
  shows "phi_meet ops blk lat' ed' ks r = phi_meet ops blk lat ed ks r"
  using assms(1)
proof (induction ks arbitrary: r)
  case (Cons k ks)
  then have "ops ! (2 * k) \<in> set ops" by simp
  then have "get_operand_lat lat' (ops ! (2 * k)) = get_operand_lat lat (ops ! (2 * k))" using assms(2) by blast
  then show ?case using Cons assms(3) by (simp add: phi_meet_def split: ny_operand.splits)
qed (simp add: phi_meet_def)

lemma eval_cong:
  assumes ow: "ops_wf fn" and i: "live fn i" and ag: "agree fn i lat lat'"
    and ed: "\<forall>p. (p, i_block (f_insts fn ! i)) \<in> set ed' \<longleftrightarrow> (p, i_block (f_insts fn ! i)) \<in> set ed"
  shows "eval_instruction h fn (f_insts fn ! i) lat' ed' = eval_instruction h fn (f_insts fn ! i) lat ed"
proof -
  let ?x = "f_insts fn ! i"
  have len: "length (inst_ops fn i) = i_op_count ?x" by (rule length_inst_ops[OF ow i])
  have at: "k < i_op_count ?x \<Longrightarrow> op_at fn (ny_function_get_operands fn ?x) k = Some (inst_ops fn i ! k)" for k
    by (rule op_at_inst[OF ow i])
  have same: "k < i_op_count ?x \<Longrightarrow> get_operand_lat lat' (inst_ops fn i ! k) = get_operand_lat lat (inst_ops fn i ! k)" for k
    using ag len unfolding agree_def by simp
  have "\<forall>k \<in> set [0..<i_op_count ?x div 2]. 2 * k + 1 < length (inst_ops fn i)" by (simp add: len pair_index)
  then have phi: "eval_phi fn ?x lat' ed' = eval_phi fn ?x lat ed"
    unfolding eval_phi_meet[OF ow i] using phi_meet_cong[OF _ ag[unfolded agree_def] ed] by simp
  show ?thesis using phi at[of 0] at[of 1] at[of 2] same[of 0] same[of 1] same[of 2]
    by (cases "i_op_count ?x = 1"; cases "i_op_count ?x = 2"; cases "i_op_count ?x = 3")
      (simp_all add: eval_instruction_def Let_def split: option.splits)
qed

subsection \<open>Monotonicity\<close>

definition plain_fn :: "ny_function \<Rightarrow> bool" where
  "plain_fn fn \<longleftrightarrow> (\<forall>i. live fn i \<longrightarrow> (\<forall>w. OpFloat w \<notin> set (inst_ops fn i)))"

definition plain_lat :: "lat_val list \<Rightarrow> bool" where
  "plain_lat lat \<longleftrightarrow> (\<forall>a \<in> set lat. plain a)"

definition below :: "lat_val list \<Rightarrow> lat_val list \<Rightarrow> bool" where
  "below lat lat' \<longleftrightarrow> list_all2 lat_le lat lat'"

lemma below_refl: "below lat lat"
  by (simp add: below_def list_all2_refl)

lemma below_trans: "below a b \<Longrightarrow> below b c \<Longrightarrow> below a c"
  unfolding below_def by (rule list_all2_trans[where ?P1.0 = lat_le and ?P2.0 = lat_le]) (auto intro: lat_le_trans)

lemma operand_plain: "plain_lat lat \<Longrightarrow> (\<And>w. op \<noteq> OpFloat w) \<Longrightarrow> plain (get_operand_lat lat op)"
  by (auto simp: get_operand_lat_def plain_lat_def split: ny_operand.splits)

lemma operand_mono: "below lat lat' \<Longrightarrow> lat_le (get_operand_lat lat op) (get_operand_lat lat' op)"
  by (auto simp: get_operand_lat_def below_def list_all2_conv_all_nth split: ny_operand.splits)

lemma phi_meet_plain:
  assumes "plain_lat lat" "\<forall>w. OpFloat w \<notin> set ops" "\<forall>k \<in> set ks. 2 * k + 1 < length ops" "plain r"
  shows "plain (phi_meet ops blk lat ed ks r)"
  using assms(3,4)
proof (induction ks arbitrary: r)
  case (Cons k ks)
  have "ops ! (2 * k) \<in> set ops" using Cons.prems by simp
  then have "plain (get_operand_lat lat (ops ! (2 * k)))" using assms(1,2) operand_plain by metis
  then show ?case using Cons by (simp add: phi_meet_def split: ny_operand.splits)
qed (simp add: phi_meet_def)

lemma phi_meet_mono:
  assumes "plain_lat lat" "plain_lat lat'" "\<forall>w. OpFloat w \<notin> set ops" "\<forall>k \<in> set ks. 2 * k + 1 < length ops"
    "below lat lat'" "set ed \<subseteq> set ed'" "plain r" "plain r'" "lat_le r r'"
  shows "lat_le (phi_meet ops blk lat ed ks r) (phi_meet ops blk lat' ed' ks r')"
  using assms(4,7-)
proof (induction ks arbitrary: r r')
  case (Cons k ks)
  let ?a = "get_operand_lat lat (ops ! (2 * k))" and ?b = "get_operand_lat lat' (ops ! (2 * k))"
  have "ops ! (2 * k) \<in> set ops" using Cons.prems by simp
  then have p: "plain ?a" "plain ?b" using assms(1-3) operand_plain by metis+
  have le: "lat_le ?a ?b" by (rule operand_mono[OF assms(5)])
  note m = lat_meet_mono[OF Cons.prems(2,3) p Cons.prems(4) le] lat_le_trans[OF Cons.prems(4) lat_meet_ge(1)[OF Cons.prems(3) p(2)]]
  define q where "q = (case ops ! (2 * k + 1) of OpBlock q \<Rightarrow> if (q, blk) \<in> set ed then lat_meet r ?a else r | _ \<Rightarrow> r)"
  define q' where "q' = (case ops ! (2 * k + 1) of OpBlock q \<Rightarrow> if (q, blk) \<in> set ed' then lat_meet r' ?b else r' | _ \<Rightarrow> r')"
  have "plain q" "plain q'" using Cons.prems(2,3) p by (simp_all add: q_def q'_def split: ny_operand.splits)
  moreover have "lat_le q q'" using m Cons.prems(4) assms(6) unfolding q_def q'_def by (auto split: ny_operand.splits)
  ultimately have "lat_le (phi_meet ops blk lat ed ks q) (phi_meet ops blk lat' ed' ks q')" using Cons.IH Cons.prems(1) by simp
  then show ?case by (simp add: phi_meet_def q_def q'_def)
qed (simp add: phi_meet_def)

lemma unary_mono:
  assumes "plain a" "plain a'" "lat_le a a'" "eval_unary opc w a = Some v" "eval_unary opc w a' = Some v'"
  shows "lat_le v v'"
  using assms by (cases a; cases a') (auto simp: eval_unary_def lat_le_def)

lemma unary_plain: "plain a \<Longrightarrow> eval_unary opc w a = Some v \<Longrightarrow> plain v"
  by (cases a) (auto simp: eval_unary_def bind_Some_iff split: option.splits)

lemma binary_mono:
  assumes "plain a" "plain a'" "plain b" "plain b'" "lat_le a a'" "lat_le b b'"
    "eval_binary h opc w c a b = Some v" "eval_binary h opc w c a' b' = Some v'"
  shows "lat_le v v'"
proof -
  consider "a' = Lat_Bottom \<or> b' = Lat_Bottom" | "a' \<noteq> Lat_Bottom" "b' \<noteq> Lat_Bottom" "a = Lat_Top \<or> b = Lat_Top" | "a = a'" "b = b'"
    using assms(5,6) by (auto simp: lat_le_def)
  then show ?thesis
  proof cases
    case 1
    then have "v' = Lat_Bottom" using assms(8) by (auto simp: eval_binary_def)
    then show ?thesis by simp
  next
    case 2
    then have "v = Lat_Top" using assms(5-7) by (auto simp: eval_binary_def lat_le_def)
    then show ?thesis by simp
  next
    case 3
    then show ?thesis using assms(7,8) by simp
  qed
qed

lemma binary_plain: "plain a \<Longrightarrow> plain b \<Longrightarrow> eval_binary h opc w c a b = Some v \<Longrightarrow> plain v"
  by (cases a; cases b) (auto simp: eval_binary_def bind_Some_iff split: option.splits)

lemma select_mono:
  assumes "plain c" "plain c'" "plain t" "plain t'" "plain f" "plain f'" "lat_le c c'" "lat_le t t'" "lat_le f f'"
  shows "lat_le (eval_select c t f) (eval_select c' t' f')"
proof -
  note m = lat_meet_ge[OF assms(4,6)]
  have up: "lat_le t (lat_meet t' f')" "lat_le f (lat_meet t' f')" using assms(8,9) m lat_le_trans by blast+
  consider "c = Lat_Top" | n where "c = Lat_Int n" "c' = Lat_Bottom" | "c = Lat_Bottom" "c' = Lat_Bottom" | n where "c = Lat_Int n" "c' = c"
    using plain_cases[OF assms(1)] assms(7) by (auto simp: lat_le_def)
  then show ?thesis
  proof cases
    case 1
    then show ?thesis by (simp add: eval_select_def)
  next
    case 2
    then show ?thesis using up by (simp add: eval_select_def)
  next
    case 3
    then show ?thesis using lat_meet_mono[OF assms(3-6,8,9)] by (simp add: eval_select_def)
  next
    case 4
    then show ?thesis using assms(8,9) by (simp add: eval_select_def)
  qed
qed

lemma select_plain: "plain t \<Longrightarrow> plain f \<Longrightarrow> plain (eval_select c t f)"
  by (simp add: eval_select_def)

lemma eval_plain:
  assumes ow: "ops_wf fn" and pf: "plain_fn fn" and i: "live fn i" and pl: "plain_lat lat"
    and e: "eval_instruction h fn (f_insts fn ! i) lat ed = Some v"
  shows "plain v"
proof -
  let ?x = "f_insts fn ! i" and ?ops = "inst_ops fn i"
  have len: "length ?ops = i_op_count ?x" by (rule length_inst_ops[OF ow i])
  have at: "k < i_op_count ?x \<Longrightarrow> op_at fn (ny_function_get_operands fn ?x) k = Some (?ops ! k)" for k
    by (rule op_at_inst[OF ow i])
  have nf: "\<forall>w. OpFloat w \<notin> set ?ops" using pf i by (simp add: plain_fn_def)
  have p: "k < i_op_count ?x \<Longrightarrow> plain (get_operand_lat lat (?ops ! k))" for k
    using nf nth_mem[of k ?ops] len by (intro operand_plain[OF pl]) metis
  have nf0: "k < i_op_count ?x \<Longrightarrow> ?ops ! k \<noteq> OpFloat w" for k w using nf nth_mem[of k ?ops] len by metis
  consider (const) "i_opcode ?x = NY_OPCODE_CONST" | (phi) "i_opcode ?x = NY_OPCODE_PHI" | (other) "v = Lat_Bottom"
    | (one) w where "i_op_count ?x = 1" "eval_unary (i_opcode ?x) w (get_operand_lat lat (?ops ! 0)) = Some v"
    | (two) w c where "i_op_count ?x = 2"
        "eval_binary h (i_opcode ?x) w c (get_operand_lat lat (?ops ! 0)) (get_operand_lat lat (?ops ! 1)) = Some v"
    | (sel) "i_op_count ?x = 3" "v = eval_select (get_operand_lat lat (?ops ! 0)) (get_operand_lat lat (?ops ! 1)) (get_operand_lat lat (?ops ! 2))"
    using e at[of 0] at[of 1] at[of 2] by (auto simp: eval_instruction_def Let_def split: if_splits option.splits)
  then show ?thesis
  proof cases
    case const
    then show ?thesis using e at[of 0] nf0[of 0] by (auto simp: eval_instruction_def eval_const_def split: if_splits ny_operand.splits)
  next
    case phi
    have "plain (phi_meet ?ops (i_block ?x) lat ed [0..<i_op_count ?x div 2] Lat_Top)"
      by (rule phi_meet_plain[OF pl nf]) (simp_all add: len pair_index)
    moreover have "v = Lat_Bottom \<or> eval_phi fn ?x lat ed = Some v" using e phi unfolding eval_instruction_def by (cases "rd (f_values fn) (i_result ?x)") simp_all
    ultimately show ?thesis unfolding eval_phi_meet[OF ow i] by auto
  next
    case one
    show ?thesis using unary_plain[OF _ one(2)] p[of 0] one(1) by simp
  next
    case two
    show ?thesis using binary_plain[OF _ _ two(2)] p[of 0] p[of 1] two(1) by simp
  next
    case sel
    then show ?thesis using select_plain p[of 1] p[of 2] by simp
  qed simp
qed

lemma eval_mono:
  assumes ow: "ops_wf fn" and pf: "plain_fn fn" and i: "live fn i" and pl: "plain_lat lat" "plain_lat lat'"
    and b: "below lat lat'" and ed: "set ed \<subseteq> set ed'"
    and e: "eval_instruction h fn (f_insts fn ! i) lat ed = Some v" "eval_instruction h fn (f_insts fn ! i) lat' ed' = Some v'"
  shows "lat_le v v'"
proof -
  let ?x = "f_insts fn ! i" and ?ops = "inst_ops fn i"
  let ?g = "\<lambda>k. get_operand_lat lat (?ops ! k)" and ?g' = "\<lambda>k. get_operand_lat lat' (?ops ! k)"
  have len: "length ?ops = i_op_count ?x" by (rule length_inst_ops[OF ow i])
  have at: "k < i_op_count ?x \<Longrightarrow> op_at fn (ny_function_get_operands fn ?x) k = Some (?ops ! k)" for k
    by (rule op_at_inst[OF ow i])
  have nf: "\<forall>w. OpFloat w \<notin> set ?ops" using pf i by (simp add: plain_fn_def)
  have p: "k < i_op_count ?x \<Longrightarrow> plain (?g k) \<and> plain (?g' k)" for k
    using nf nth_mem[of k ?ops] len operand_plain[OF pl(1)] operand_plain[OF pl(2)] by metis
  have le: "lat_le (?g k) (?g' k)" for k by (rule operand_mono[OF b])
  show ?thesis
  proof (cases "i_opcode ?x = NY_OPCODE_CONST \<or> rd (f_values fn) (i_result ?x) = None")
    case True
    then have "v = v'" using e by (auto simp: eval_instruction_def split: if_splits)
    then show ?thesis by simp
  next
    case False
    then obtain res where r: "rd (f_values fn) (i_result ?x) = Some res" "i_opcode ?x \<noteq> NY_OPCODE_CONST" by auto
    consider (phi) "i_opcode ?x = NY_OPCODE_PHI" | (one) "i_opcode ?x \<noteq> NY_OPCODE_PHI" "i_op_count ?x = 1"
      | (two) "i_opcode ?x \<noteq> NY_OPCODE_PHI" "i_op_count ?x = 2" | (sel) "i_opcode ?x = NY_OPCODE_SELECT" "i_op_count ?x = 3"
      | (other) "v = v'"
      using e r by (auto simp: eval_instruction_def Let_def split: if_splits)
    then show ?thesis
    proof cases
      case phi
      have "lat_le (phi_meet ?ops (i_block ?x) lat ed [0..<i_op_count ?x div 2] Lat_Top)
        (phi_meet ?ops (i_block ?x) lat' ed' [0..<i_op_count ?x div 2] Lat_Top)"
        by (rule phi_meet_mono[OF pl nf _ b ed]) (simp_all add: len pair_index)
      then show ?thesis using e r phi by (simp add: eval_instruction_def eval_phi_meet[OF ow i])
    next
      case one
      then show ?thesis using e r at[of 0] unary_mono[OF _ _ le[of 0]] p[of 0] by (simp add: eval_instruction_def Let_def)
    next
      case two
      then show ?thesis using e r at[of 0] at[of 1] p[of 0] p[of 1] binary_mono[OF _ _ _ _ le[of 0] le[of 1]]
        by (simp add: eval_instruction_def Let_def)
    next
      case sel
      then have "v = eval_select (?g 0) (?g 1) (?g 2)" "v' = eval_select (?g' 0) (?g' 1) (?g' 2)"
        using e r at[of 0] at[of 1] at[of 2] by (simp_all add: eval_instruction_def Let_def)
      then show ?thesis using p[of 0] p[of 1] p[of 2] sel select_mono le by simp
    next
      case other
      then show ?thesis by simp
    qed
  qed
qed

subsection \<open>Targets of a terminator\<close>

definition sccp_setting :: "ny_function \<Rightarrow> nat list list \<Rightarrow> bool" where
  "sccp_setting fn L \<longleftrightarrow> fn_wf fn L \<and> ops_wf fn \<and> ssa fn \<and> plain_fn fn \<and> f_entry fn < length (f_blocks fn)
     \<and> (\<forall>i. live fn i \<longrightarrow> i_result (f_insts fn ! i) \<noteq> NY_INVALID_VALUE \<longrightarrow> i_result (f_insts fn ! i) < length (f_values fn))"

lemma settingD:
  assumes "sccp_setting fn L"
  shows "fn_wf fn L" "ops_wf fn" "ssa fn" "plain_fn fn" "f_entry fn < length (f_blocks fn)" "length L = length (f_blocks fn)"
    "\<And>i. live fn i \<Longrightarrow> i_result (f_insts fn ! i) \<noteq> NY_INVALID_VALUE \<Longrightarrow> i_result (f_insts fn ! i) < length (f_values fn)"
  using assms by (simp_all add: sccp_setting_def fn_wf_def)

lemma setting_live:
  assumes "sccp_setting fn L" "b < length (f_blocks fn)" "i \<in> set (L ! b)"
  shows "live fn i" "i_block (f_insts fn ! i) = b"
  using fn_wf_mem(1-3)[OF settingD(1)[OF assms(1)] assms(2,3)] by (simp_all add: live_def)

lemma setting_block:
  assumes "sccp_setting fn L" "live fn i"
  shows "i_block (f_insts fn ! i) < length (f_blocks fn)" "i \<in> set (L ! i_block (f_insts fn ! i))"
  using fn_wf_live[OF settingD(1)[OF assms(1)], of i] assms(2) by (auto simp: live_def)

definition term_targets :: "ny_function \<Rightarrow> nat \<Rightarrow> lat_val list \<Rightarrow> nat list" where
  "term_targets fn i lat = (let ops = inst_ops fn i; x = f_insts fn ! i in
     if i_opcode x = NY_OPCODE_BRANCH \<and> i_op_count x = 1 then (case ops ! 0 of OpBlock t \<Rightarrow> [t] | _ \<Rightarrow> [])
     else if i_opcode x = NY_OPCODE_BRANCH_IF \<and> i_op_count x = 3 then
       (case (ops ! 1, ops ! 2) of (OpBlock t, OpBlock f) \<Rightarrow> branch_targets (get_operand_lat lat (ops ! 0)) t f | _ \<Rightarrow> [])
     else [])"

definition block_targets :: "ny_function \<Rightarrow> nat list list \<Rightarrow> nat \<Rightarrow> lat_val list \<Rightarrow> nat list" where
  "block_targets fn L b lat = (if L ! b = [] then [] else term_targets fn (last (L ! b)) lat)"

lemma live_targets_block:
  assumes set: "sccp_setting fn L" and b: "b < length (f_blocks fn)"
  shows "live_targets fn b lat = Some (block_targets fn L b lat)"
proof (cases "L ! b = []")
  case True
  then have "b_last (f_blocks fn ! b) = NY_INVALID_INST"
    using fn_wf_block[OF settingD(1)[OF set] b] by (simp add: block_ok_def)
  then show ?thesis using b True by (simp add: live_targets_def block_targets_def)
next
  case False
  let ?i = "last (L ! b)"
  have bl: "b_last (f_blocks fn ! b) = ?i" using fn_wf_block[OF settingD(1)[OF set] b] False by (simp add: block_ok_def last_or_def)
  have i: "live fn ?i" "?i \<noteq> NY_INVALID_INST"
    using setting_live(1)[OF set b, of ?i] fn_wf_mem(5)[OF settingD(1)[OF set] b, of ?i] False by simp_all
  have at: "k < i_op_count (f_insts fn ! ?i) \<Longrightarrow> op_at fn (ny_function_get_operands fn (f_insts fn ! ?i)) k = Some (inst_ops fn ?i ! k)" for k
    by (rule op_at_inst[OF settingD(2)[OF set] i(1)])
  have "?i < length (f_insts fn)" using i(1) by (simp add: live_def)
  then show ?thesis using b bl i(2) False at[of 0] at[of 1] at[of 2]
    by (simp add: live_targets_def block_targets_def term_targets_def Let_def)
qed

lemma branch_targets_mono: "plain c \<Longrightarrow> plain c' \<Longrightarrow> lat_le c c' \<Longrightarrow> set (branch_targets c t f) \<subseteq> set (branch_targets c' t f)"
  by (cases c; cases c') (auto simp: branch_targets_def lat_le_def)

lemma branch_targets_in: "set (branch_targets c t f) \<subseteq> {t, f}"
  by (auto simp: branch_targets_def)

lemma term_targets_shape:
  "(\<exists>ts. (\<forall>lat. term_targets fn i lat = ts) \<and> (\<forall>t \<in> set ts. i_op_count (f_insts fn ! i) = 1 \<and> inst_ops fn i ! 0 = OpBlock t))
   \<or> (\<exists>t f. i_op_count (f_insts fn ! i) = 3 \<and> inst_ops fn i ! 1 = OpBlock t \<and> inst_ops fn i ! 2 = OpBlock f
        \<and> (\<forall>lat. term_targets fn i lat = branch_targets (get_operand_lat lat (inst_ops fn i ! 0)) t f))"
proof -
  let ?x = "f_insts fn ! i" and ?ops = "inst_ops fn i"
  show ?thesis
  proof (cases "(\<exists>t. i_opcode ?x = NY_OPCODE_BRANCH \<and> i_op_count ?x = 1 \<and> ?ops ! 0 = OpBlock t)
      \<or> (\<exists>t f. i_opcode ?x = NY_OPCODE_BRANCH_IF \<and> i_op_count ?x = 3 \<and> ?ops ! 1 = OpBlock t \<and> ?ops ! 2 = OpBlock f)")
    case True
    then show ?thesis
    proof (elim disjE exE conjE)
      fix t assume "i_opcode ?x = NY_OPCODE_BRANCH" "i_op_count ?x = 1" "?ops ! 0 = OpBlock t"
      then show ?thesis by (intro disjI1 exI[of _ "[t]"]) (simp add: term_targets_def)
    next
      fix t f assume "i_opcode ?x = NY_OPCODE_BRANCH_IF" "i_op_count ?x = 3" "?ops ! 1 = OpBlock t" "?ops ! 2 = OpBlock f"
      then show ?thesis by (intro disjI2 exI[of _ t] exI[of _ f]) (simp add: term_targets_def Let_def)
    qed
  next
    case False
    have "term_targets fn i lat = []" for lat
    proof (rule ccontr)
      assume "term_targets fn i lat \<noteq> []"
      then show False
      proof (cases "i_opcode ?x = NY_OPCODE_BRANCH \<and> i_op_count ?x = 1")
        case True
        then show False using False \<open>term_targets fn i lat \<noteq> []\<close> by (cases "?ops ! 0") (simp_all add: term_targets_def)
      next
        case n: False
        then have "i_opcode ?x = NY_OPCODE_BRANCH_IF \<and> i_op_count ?x = 3" using \<open>term_targets fn i lat \<noteq> []\<close>
          by (auto simp: term_targets_def Let_def split: if_splits)
        then show False using False n \<open>term_targets fn i lat \<noteq> []\<close>
          by (cases "?ops ! 1"; cases "?ops ! 2") (simp_all add: term_targets_def Let_def)
      qed
    qed
    then show ?thesis by (intro disjI1 exI[of _ "[]"]) simp
  qed
qed

lemma term_targets_mono:
  assumes set: "sccp_setting fn L" and i: "live fn i" and pl: "plain_lat lat" "plain_lat lat'" and b: "below lat lat'"
  shows "set (term_targets fn i lat) \<subseteq> set (term_targets fn i lat')"
  using term_targets_shape[of fn i]
proof (elim disjE exE conjE)
  fix t f assume n: "i_op_count (f_insts fn ! i) = 3"
    and e: "\<forall>lat. term_targets fn i lat = branch_targets (get_operand_lat lat (inst_ops fn i ! 0)) t f"
  have "inst_ops fn i ! 0 \<in> set (inst_ops fn i)" using length_inst_ops[OF settingD(2)[OF set] i] n by simp
  then have "inst_ops fn i ! 0 \<noteq> OpFloat w" for w using settingD(4)[OF set] i by (metis plain_fn_def)
  then have "plain (get_operand_lat lat (inst_ops fn i ! 0))" "plain (get_operand_lat lat' (inst_ops fn i ! 0))"
    using operand_plain pl by blast+
  then show ?thesis using branch_targets_mono operand_mono[OF b] e by metis
qed simp

lemma term_targets_ops:
  assumes set: "sccp_setting fn L" and i: "live fn i" and t: "t \<in> set (term_targets fn i lat)"
  shows "OpBlock t \<in> set (f_operands fn)"
proof -
  note len = length_inst_ops[OF settingD(2)[OF set] i]
  have "OpBlock t \<in> set (inst_ops fn i)"
    using term_targets_shape[of fn i]
  proof (elim disjE exE conjE)
    fix ts assume "\<forall>lat. term_targets fn i lat = ts" "\<forall>t \<in> set ts. i_op_count (f_insts fn ! i) = 1 \<and> inst_ops fn i ! 0 = OpBlock t"
    then show ?thesis using t len nth_mem[of 0 "inst_ops fn i"] by auto
  next
    fix u f assume "i_op_count (f_insts fn ! i) = 3" "inst_ops fn i ! 1 = OpBlock u" "inst_ops fn i ! 2 = OpBlock f"
      and e: "\<forall>lat. term_targets fn i lat = branch_targets (get_operand_lat lat (inst_ops fn i ! 0)) u f"
    then have "{OpBlock u, OpBlock f} \<subseteq> set (inst_ops fn i)"
      using nth_mem[of 1 "inst_ops fn i"] nth_mem[of 2 "inst_ops fn i"] len by simp
    moreover have "t \<in> {u, f}" using t e branch_targets_in by (metis subsetD)
    ultimately show ?thesis by auto
  qed
  then show ?thesis by (auto simp: inst_ops_def subarray_def dest: in_set_takeD in_set_dropD)
qed

lemma term_targets_cong:
  assumes set: "sccp_setting fn L" and i: "live fn i" and ag: "agree fn i lat lat'"
  shows "term_targets fn i lat' = term_targets fn i lat"
proof -
  have "get_operand_lat lat' (inst_ops fn i ! 0) = get_operand_lat lat (inst_ops fn i ! 0)" if "i_op_count (f_insts fn ! i) = 3"
    using ag length_inst_ops[OF settingD(2)[OF set] i] that by (simp add: agree_def)
  then show ?thesis using term_targets_shape[of fn i] by auto
qed

end
