(* ===== verification/Sccp_Fixpoint.thy ===== *)
theory Sccp_Fixpoint
  imports Sccp_Mono
begin

text \<open>
  What the two work lists of \<^verbatim>\<open>src/opt/sccp.c\<close> compute on functions without floating-point immediates: the loop never runs
  for ever, and where it stops the lattice values and the executable edges are a fixed point of the evaluation.
\<close>

subsection \<open>The invariant of the state\<close>

definition edge_space :: "ny_function \<Rightarrow> (nat \<times> nat) set" where
  "edge_space fn = {..<length (f_blocks fn)} \<times> {t. OpBlock t \<in> set (f_operands fn)}"

lemma finite_edge_space: "finite (edge_space fn)"
proof -
  have "{t. OpBlock t \<in> set (f_operands fn)} = OpBlock -` set (f_operands fn)" by auto
  then have "finite {t. OpBlock t \<in> set (f_operands fn)}" by (simp add: finite_vimageI inj_on_def)
  then show ?thesis by (simp add: edge_space_def)
qed

text \<open>The value of a result is below everything the instruction can evaluate to from here on.\<close>

definition rising :: "host_fpu \<Rightarrow> ny_function \<Rightarrow> lat_val list \<Rightarrow> (nat \<times> nat) list \<Rightarrow> bool" where
  "rising h fn lat ed \<longleftrightarrow> (\<forall>i. live fn i \<longrightarrow> i_result (f_insts fn ! i) \<noteq> NY_INVALID_VALUE \<longrightarrow>
     (\<forall>lat' ed' v. below lat lat' \<longrightarrow> plain_lat lat' \<longrightarrow> set ed \<subseteq> set ed' \<longrightarrow>
        eval_instruction h fn (f_insts fn ! i) lat' ed' = Some v \<longrightarrow> lat_le (lat ! i_result (f_insts fn ! i)) v))"

definition graph_ok :: "ny_function \<Rightarrow> nat list list \<Rightarrow> lat_val list \<Rightarrow> bool list \<Rightarrow> (nat \<times> nat) list \<Rightarrow> bool" where
  "graph_ok fn L lat exec ed \<longleftrightarrow> set ed \<subseteq> edge_space fn \<and> exec ! f_entry fn
     \<and> (\<forall>(p, t) \<in> set ed. exec ! p \<and> (t < length exec \<longrightarrow> exec ! t) \<and> t \<in> set (block_targets fn L p lat))
     \<and> (\<forall>t < length exec. exec ! t \<longrightarrow> (f_entry fn, t) \<in> (set ed)\<^sup>*)"

definition sccp_ok :: "host_fpu \<Rightarrow> ny_function \<Rightarrow> nat list list \<Rightarrow> sccp_state \<Rightarrow> bool" where
  "sccp_ok h fn L s \<longleftrightarrow> length (sc_lat s) = length (f_values fn) \<and> length (sc_exec s) = length (f_blocks fn) \<and> plain_lat (sc_lat s)
     \<and> rising h fn (sc_lat s) (sc_edges s) \<and> graph_ok fn L (sc_lat s) (sc_exec s) (sc_edges s)
     \<and> (\<forall>b \<in> set (sc_cfg s). b < length (f_blocks fn) \<and> sc_exec s ! b) \<and> (\<forall>v \<in> set (sc_ssa s). v < length (f_values fn))"

lemma sccp_okD:
  assumes "sccp_ok h fn L s"
  shows "length (sc_lat s) = length (f_values fn)" "length (sc_exec s) = length (f_blocks fn)" "plain_lat (sc_lat s)"
    "rising h fn (sc_lat s) (sc_edges s)" "graph_ok fn L (sc_lat s) (sc_exec s) (sc_edges s)"
    "\<And>b. b \<in> set (sc_cfg s) \<Longrightarrow> b < length (f_blocks fn) \<and> sc_exec s ! b" "\<And>v. v \<in> set (sc_ssa s) \<Longrightarrow> v < length (f_values fn)"
  using assms by (simp_all add: sccp_ok_def)

text \<open>What is still to be done: every change of the lattice and every new edge uses up two units and pushes at most one.\<close>

definition work :: "ny_function \<Rightarrow> sccp_state \<Rightarrow> nat" where
  "work fn s = 2 * sum_list (map height (sc_lat s)) + 2 * card (edge_space fn - set (sc_edges s)) + length (sc_cfg s) + length (sc_ssa s)"

text \<open>An instruction whose value, and a block whose targets, are up to date; and what is excused because it is still to be visited.\<close>

definition ok_inst :: "host_fpu \<Rightarrow> ny_function \<Rightarrow> sccp_state \<Rightarrow> nat \<Rightarrow> bool" where
  "ok_inst h fn s i \<longleftrightarrow> i_result (f_insts fn ! i) = NY_INVALID_VALUE
     \<or> eval_instruction h fn (f_insts fn ! i) (sc_lat s) (sc_edges s) = Some (sc_lat s ! i_result (f_insts fn ! i))"

definition ok_term :: "ny_function \<Rightarrow> nat list list \<Rightarrow> sccp_state \<Rightarrow> nat \<Rightarrow> bool" where
  "ok_term fn L s b \<longleftrightarrow> (\<forall>t \<in> set (block_targets fn L b (sc_lat s)). (b, t) \<in> set (sc_edges s))"

definition dirty :: "ny_function \<Rightarrow> sccp_state \<Rightarrow> nat set \<Rightarrow> nat \<Rightarrow> bool" where
  "dirty fn s P i \<longleftrightarrow> i \<in> P \<or> (\<exists>v \<in> set (sc_ssa s). OpValue v \<in> set (inst_ops fn i))"

definition covered :: "host_fpu \<Rightarrow> ny_function \<Rightarrow> nat list list \<Rightarrow> sccp_state \<Rightarrow> nat set \<Rightarrow> nat set \<Rightarrow> bool" where
  "covered h fn L s P B \<longleftrightarrow> (\<forall>b < length (f_blocks fn). sc_exec s ! b \<longrightarrow> b \<notin> set (sc_cfg s) \<longrightarrow>
     (\<forall>i \<in> set (L ! b). ok_inst h fn s i \<or> dirty fn s P i)
     \<and> (b \<in> B \<or> ok_term fn L s b \<or> L ! b \<noteq> [] \<and> dirty fn s P (last (L ! b))))"

lemma covered_mono: "covered h fn L s P B \<Longrightarrow> B \<subseteq> B' \<Longrightarrow> covered h fn L s P B'"
  unfolding covered_def by blast

subsection \<open>Visiting an instruction\<close>

lemma below_update: "r < length lat \<Longrightarrow> lat_le (lat ! r) v \<Longrightarrow> below lat (lat[r := v])"
  by (auto simp: below_def list_all2_conv_all_nth nth_list_update)

lemma agree_update:
  assumes "OpValue r \<notin> set (inst_ops fn i)"
  shows "agree fn i lat (lat[r := v])"
proof -
  have "get_operand_lat (lat[r := v]) op = get_operand_lat lat op" if "op \<in> set (inst_ops fn i)" for op
  proof -
    have "op \<noteq> OpValue r" using that assms by blast
    then show ?thesis by (cases op) (simp_all add: get_operand_lat_def)
  qed
  then show ?thesis by (simp add: agree_def)
qed

lemma heights_update:
  assumes "r < length lat" "height v < height (lat ! r)"
  shows "sum_list (map height (lat[r := v])) < sum_list (map height lat)"
  using assms
proof (induction lat arbitrary: r)
  case (Cons a lat)
  then show ?case by (cases r) auto
qed simp

lemma rising_later:
  assumes r: "rising h fn lat ed" and b: "below lat lat'" and e: "set ed \<subseteq> set ed'"
    and same: "\<And>i. live fn i \<Longrightarrow> i_result (f_insts fn ! i) \<noteq> NY_INVALID_VALUE \<Longrightarrow> i \<noteq> j \<Longrightarrow>
        lat' ! i_result (f_insts fn ! i) = lat ! i_result (f_insts fn ! i)"
    and j: "\<And>lat'' ed'' v. below lat' lat'' \<Longrightarrow> plain_lat lat'' \<Longrightarrow> set ed' \<subseteq> set ed'' \<Longrightarrow> live fn j \<Longrightarrow>
        i_result (f_insts fn ! j) \<noteq> NY_INVALID_VALUE \<Longrightarrow>
        eval_instruction h fn (f_insts fn ! j) lat'' ed'' = Some v \<Longrightarrow> lat_le (lat' ! i_result (f_insts fn ! j)) v"
  shows "rising h fn lat' ed'"
  unfolding rising_def
proof (intro allI impI)
  fix i lat'' ed'' v
  assume i: "live fn i" "i_result (f_insts fn ! i) \<noteq> NY_INVALID_VALUE" and l: "below lat' lat''" "plain_lat lat''" "set ed' \<subseteq> set ed''"
    and ev: "eval_instruction h fn (f_insts fn ! i) lat'' ed'' = Some v"
  show "lat_le (lat' ! i_result (f_insts fn ! i)) v"
  proof (cases "i = j")
    case True
    then show ?thesis using j[OF l] i ev by simp
  next
    case False
    have "lat_le (lat ! i_result (f_insts fn ! i)) v"
      using r i below_trans[OF b l(1)] l(2) subset_trans[OF e l(3)] ev unfolding rising_def by blast
    then show ?thesis using same[OF i False] by simp
  qed
qed

lemma block_targets_mono:
  assumes "sccp_setting fn L" "b < length (f_blocks fn)" "plain_lat lat" "plain_lat lat'" "below lat lat'"
  shows "set (block_targets fn L b lat) \<subseteq> set (block_targets fn L b lat')"
  using term_targets_mono[OF assms(1) setting_live(1)[OF assms(1,2)] assms(3-5)] by (simp add: block_targets_def)

lemma graph_ok_later:
  assumes "sccp_setting fn L" "graph_ok fn L lat exec ed" "plain_lat lat" "plain_lat lat'" "below lat lat'"
  shows "graph_ok fn L lat' exec ed"
proof -
  have "t \<in> set (block_targets fn L p lat')" if "(p, t) \<in> set ed" for p t
  proof -
    have "p < length (f_blocks fn)" "t \<in> set (block_targets fn L p lat)" using assms(2) that by (auto simp: graph_ok_def edge_space_def)
    then show ?thesis using block_targets_mono[OF assms(1) _ assms(3-5)] by blast
  qed
  then show ?thesis using assms(2) unfolding graph_ok_def by fast
qed

lemma visit_inst_step:
  assumes set: "sccp_setting fn L" and ok: "sccp_ok h fn L s" and i: "live fn i"
    and run: "visit_inst h fn (f_insts fn ! i) s = Some s'" and cov: "covered h fn L s (insert i P) B"
  defines "b0 \<equiv> i_block (f_insts fn ! i)"
  shows "sccp_ok h fn L s'" "work fn s' \<le> work fn s" "covered h fn L s' P (B \<union> {b. b = b0 \<and> L ! b \<noteq> [] \<and> last (L ! b) = i})"
    "sc_exec s' = sc_exec s" "sc_edges s' = sc_edges s" "sc_cfg s' = sc_cfg s"
proof -
  note S = settingD[OF set] and D = sccp_okD[OF ok]
  let ?x = "f_insts fn ! i" and ?B = "B \<union> {b. b = b0 \<and> L ! b \<noteq> [] \<and> last (L ! b) = i}"
  have lastB: "b \<in> ?B" if "b < length (f_blocks fn)" "L ! b \<noteq> []" "last (L ! b) = i" for b
    using setting_live(2)[OF set that(1), of i] that by (auto simp: b0_def)
  have stay: "covered h fn L s P ?B" if "ok_inst h fn s i"
    unfolding covered_def
  proof (intro allI impI)
    fix b assume b: "b < length (f_blocks fn)" "sc_exec s ! b" "b \<notin> set (sc_cfg s)"
    have d: "dirty fn s (insert i P) j \<longleftrightarrow> j = i \<or> dirty fn s P j" for j by (auto simp: dirty_def)
    have c: "(\<forall>j \<in> set (L ! b). ok_inst h fn s j \<or> dirty fn s (insert i P) j)"
      "b \<in> B \<or> ok_term fn L s b \<or> L ! b \<noteq> [] \<and> dirty fn s (insert i P) (last (L ! b))"
      using cov b unfolding covered_def by blast+
    show "(\<forall>j \<in> set (L ! b). ok_inst h fn s j \<or> dirty fn s P j) \<and> (b \<in> ?B \<or> ok_term fn L s b \<or> L ! b \<noteq> [] \<and> dirty fn s P (last (L ! b)))"
      using c that lastB[OF b(1)] unfolding d by blast
  qed
  have "sccp_ok h fn L s' \<and> work fn s' \<le> work fn s \<and> covered h fn L s' P ?B
        \<and> sc_exec s' = sc_exec s \<and> sc_edges s' = sc_edges s \<and> sc_cfg s' = sc_cfg s"
  proof (cases "i_result ?x = NY_INVALID_VALUE")
    case True
    then have "s' = s" "ok_inst h fn s i" using run by (simp_all add: visit_inst_def ok_inst_def)
    then show "sccp_ok h fn L s' \<and> work fn s' \<le> work fn s \<and> covered h fn L s' P ?B
        \<and> sc_exec s' = sc_exec s \<and> sc_edges s' = sc_edges s \<and> sc_cfg s' = sc_cfg s" using ok stay by simp
  next
    case res: False
    define r where "r = i_result ?x"
    have r: "r < length (sc_lat s)" "r \<noteq> NY_INVALID_VALUE" using S(7)[OF i res] D(1) res by (simp_all add: r_def)
    obtain new where new: "eval_instruction h fn ?x (sc_lat s) (sc_edges s) = Some new"
      and s': "s' = (if lat_equal new (sc_lat s ! r) then s else s\<lparr>sc_lat := (sc_lat s)[r := new], sc_ssa := r # sc_ssa s\<rparr>)"
      using run res r(1) by (auto simp: visit_inst_def bind_Some_iff r_def)
    have pn: "plain new" by (rule eval_plain[OF S(2,4) i D(3) new])
    have po: "plain (sc_lat s ! r)" using D(3) r(1) by (simp add: plain_lat_def)
    have le: "lat_le (sc_lat s ! r) new"
      using D(4) i res below_refl D(3) new unfolding rising_def r_def by blast
    show "sccp_ok h fn L s' \<and> work fn s' \<le> work fn s \<and> covered h fn L s' P ?B
        \<and> sc_exec s' = sc_exec s \<and> sc_edges s' = sc_edges s \<and> sc_cfg s' = sc_cfg s"
    proof (cases "new = sc_lat s ! r")
      case True
      then have "s' = s" "ok_inst h fn s i" using s' new lat_equal_plain[OF pn po] by (simp_all add: ok_inst_def r_def)
      then show ?thesis using ok stay by simp
    next
      case False
      let ?lat = "(sc_lat s)[r := new]"
      have e: "s' = s\<lparr>sc_lat := ?lat, sc_ssa := r # sc_ssa s\<rparr>" using s' False lat_equal_plain[OF pn po] by simp
      have bl: "below (sc_lat s) ?lat" by (rule below_update[OF r(1) le])
      have pl: "plain_lat ?lat" using D(3) pn by (auto simp: plain_lat_def dest!: set_update_subset_insert[THEN subsetD])
      have other: "?lat ! i_result (f_insts fn ! j) = sc_lat s ! i_result (f_insts fn ! j)"
        if "live fn j" "i_result (f_insts fn ! j) \<noteq> NY_INVALID_VALUE" "j \<noteq> i" for j
        using S(3) that i unfolding ssa_def r_def by (metis nth_list_update_neq)
      have rise: "rising h fn ?lat (sc_edges s)"
      proof (rule rising_later[OF D(4) bl subset_refl other])
        fix lat'' ed'' v
        assume l: "below ?lat lat''" "plain_lat lat''" "set (sc_edges s) \<subseteq> set ed''" and ev: "eval_instruction h fn ?x lat'' ed'' = Some v"
        have "lat_le new v" by (rule eval_mono[OF S(2,4) i D(3) l(2) below_trans[OF bl l(1)] l(3) new ev])
        then show "lat_le (?lat ! i_result ?x) v" using r(1) by (simp add: r_def)
      qed
      have g: "graph_ok fn L ?lat (sc_exec s) (sc_edges s)" by (rule graph_ok_later[OF set D(5) D(3) pl bl])
      have ok': "sccp_ok h fn L s'" using D(1,2,6,7) pl rise g r(1) unfolding sccp_ok_def e by auto
      have "height new < height (sc_lat s ! r)" by (rule height_less[OF po pn le]) (use False in simp)
      then have w: "work fn s' \<le> work fn s" using heights_update[OF r(1)] unfolding work_def e by fastforce
      have keep: "ok_inst h fn s' j \<or> dirty fn s' P j" if j: "live fn j" "ok_inst h fn s j \<or> dirty fn s (insert i P) j" for j
      proof (cases "OpValue r \<in> set (inst_ops fn j)")
        case True
        then show ?thesis by (auto simp: dirty_def e)
      next
        case nu: False
        have ev: "eval_instruction h fn (f_insts fn ! j) ?lat (sc_edges s) = eval_instruction h fn (f_insts fn ! j) (sc_lat s) (sc_edges s)"
          by (rule eval_cong[OF S(2) j(1) agree_update[OF nu]]) simp
        show ?thesis
        proof (cases "j = i")
          case True
          then have "ok_inst h fn s' j" using ev new r(1) by (simp add: ok_inst_def e r_def)
          then show ?thesis by blast
        next
          case False
          have "ok_inst h fn s j \<longrightarrow> ok_inst h fn s' j" using ev other[OF j(1) _ False] unfolding ok_inst_def e
            by (cases "i_result (f_insts fn ! j) = NY_INVALID_VALUE") simp_all
          moreover have "dirty fn s (insert i P) j \<longrightarrow> dirty fn s' P j" using False by (auto simp: dirty_def e)
          ultimately show ?thesis using j(2) by blast
        qed
      qed
      have "covered h fn L s' P ?B"
        unfolding covered_def
      proof (intro allI impI)
        fix b assume "b < length (f_blocks fn)" "sc_exec s' ! b" "b \<notin> set (sc_cfg s')"
        then have b: "b < length (f_blocks fn)" "sc_exec s ! b" "b \<notin> set (sc_cfg s)" by (simp_all add: e)
        have c: "\<And>j. j \<in> set (L ! b) \<Longrightarrow> ok_inst h fn s j \<or> dirty fn s (insert i P) j"
          "b \<in> B \<or> ok_term fn L s b \<or> L ! b \<noteq> [] \<and> dirty fn s (insert i P) (last (L ! b))"
          using cov b unfolding covered_def by blast+
        have t: "b \<in> ?B \<or> ok_term fn L s' b \<or> L ! b \<noteq> [] \<and> dirty fn s' P (last (L ! b))"
        proof (cases "L ! b = [] \<or> last (L ! b) = i")
          case True
          then show ?thesis using lastB[OF b(1)] by (cases "L ! b = []") (simp_all add: ok_term_def block_targets_def)
        next
          case ne: False
          have l: "live fn (last (L ! b))" using setting_live(1)[OF set b(1)] ne by simp
          show ?thesis
          proof (cases "OpValue r \<in> set (inst_ops fn (last (L ! b)))")
            case True
            then show ?thesis using ne by (auto simp: dirty_def e)
          next
            case nu: False
            have "block_targets fn L b ?lat = block_targets fn L b (sc_lat s)"
              using term_targets_cong[OF set l agree_update[OF nu]] by (simp add: block_targets_def)
            then have "ok_term fn L s b \<longrightarrow> ok_term fn L s' b" by (simp add: ok_term_def e)
            moreover have "dirty fn s (insert i P) (last (L ! b)) \<longrightarrow> dirty fn s' P (last (L ! b))" using ne by (auto simp: dirty_def e)
            ultimately show ?thesis using c(2) by blast
          qed
        qed
        show "(\<forall>j \<in> set (L ! b). ok_inst h fn s' j \<or> dirty fn s' P j)
            \<and> (b \<in> ?B \<or> ok_term fn L s' b \<or> L ! b \<noteq> [] \<and> dirty fn s' P (last (L ! b)))"
          using keep[OF setting_live(1)[OF set b(1)] c(1)] t by blast
      qed
      then show ?thesis using ok' w by (simp add: e)
    qed
  qed
  then show "sccp_ok h fn L s'" "work fn s' \<le> work fn s" "covered h fn L s' P ?B"
    "sc_exec s' = sc_exec s" "sc_edges s' = sc_edges s" "sc_cfg s' = sc_cfg s" by blast+
qed

subsection \<open>Marking edges\<close>

lemma rising_edges:
  assumes "rising h fn lat ed" "set ed \<subseteq> set ed2"
  shows "rising h fn lat ed2"
  unfolding rising_def
proof (intro allI impI)
  fix i lat' ed' v
  assume "live fn i" "i_result (f_insts fn ! i) \<noteq> NY_INVALID_VALUE" "below lat lat'" "plain_lat lat'" "set ed2 \<subseteq> set ed'"
    "eval_instruction h fn (f_insts fn ! i) lat' ed' = Some v"
  then show "lat_le (lat ! i_result (f_insts fn ! i)) v" using assms(1) subset_trans[OF assms(2)] unfolding rising_def by blast
qed

lemma reach_edge_step:
  assumes set: "sccp_setting fn L" and ok: "sccp_ok h fn L s" and cov: "covered h fn L s P B"
    and b: "b < length (f_blocks fn)" "sc_exec s ! b" and t: "t \<in> set (block_targets fn L b (sc_lat s))"
  defines "s' \<equiv> reach_edge s b t"
  shows "sccp_ok h fn L s'" "work fn s' \<le> work fn s" "covered h fn L s' P B" "(b, t) \<in> set (sc_edges s')"
    "set (sc_edges s) \<subseteq> set (sc_edges s')" "sc_lat s' = sc_lat s" "sc_exec s' ! b"
proof -
  note S = settingD[OF set] and D = sccp_okD[OF ok]
  have "sccp_ok h fn L s' \<and> work fn s' \<le> work fn s \<and> covered h fn L s' P B \<and> (b, t) \<in> set (sc_edges s')
    \<and> set (sc_edges s) \<subseteq> set (sc_edges s') \<and> sc_lat s' = sc_lat s \<and> sc_exec s' ! b"
  proof (cases "(b, t) \<in> set (sc_edges s)")
    case True
    then show ?thesis using ok cov b(2) by (simp add: s'_def reach_edge_def)
  next
    case new: False
    have inU: "(b, t) \<in> edge_space fn"
    proof -
      have ne: "L ! b \<noteq> []" using t by (auto simp: block_targets_def)
      then have "live fn (last (L ! b))" using setting_live(1)[OF set b(1)] by simp
      then show ?thesis using term_targets_ops[OF set] t ne b(1) by (auto simp: block_targets_def edge_space_def)
    qed
    let ?ed = "sc_edges s @ [(b, t)]"
    have fewer: "card (edge_space fn - set ?ed) < card (edge_space fn - set (sc_edges s))"
      using new inU by (intro psubset_card_mono) (auto simp: finite_edge_space)
    have rise: "rising h fn (sc_lat s) ?ed" by (rule rising_edges[OF D(4)]) auto
    have lat': "sc_lat s' = sc_lat s" and ed': "sc_edges s' = ?ed" and ssa': "sc_ssa s' = sc_ssa s"
      using new by (simp_all add: s'_def reach_edge_def Let_def)
    have cfg': "sc_cfg s' = (if t < length (sc_exec s) then t # sc_cfg s else sc_cfg s)"
      and ex': "sc_exec s' = (if t < length (sc_exec s) then (sc_exec s)[t := True] else sc_exec s)"
      using new by (simp_all add: s'_def reach_edge_def Let_def)
    have exec_at: "sc_exec s' ! p \<longleftrightarrow> sc_exec s ! p \<or> p = t" if "p < length (sc_exec s)" for p
      using that by (auto simp: ex' nth_list_update)
    have g: "graph_ok fn L (sc_lat s) (sc_exec s') ?ed"
    proof -
      have len: "length (sc_exec s') = length (sc_exec s)" by (simp add: ex')
      have up: "sc_exec s ! p \<Longrightarrow> sc_exec s' ! p" for p by (cases "p < length (sc_exec s)") (simp_all add: exec_at, simp add: ex')
      have G: "set (sc_edges s) \<subseteq> edge_space fn" "sc_exec s ! f_entry fn"
        "\<And>p u. (p, u) \<in> set (sc_edges s) \<Longrightarrow> sc_exec s ! p \<and> (u < length (sc_exec s) \<longrightarrow> sc_exec s ! u) \<and> u \<in> set (block_targets fn L p (sc_lat s))"
        "\<And>u. u < length (sc_exec s) \<Longrightarrow> sc_exec s ! u \<Longrightarrow> (f_entry fn, u) \<in> (set (sc_edges s))\<^sup>*"
        using D(5) unfolding graph_ok_def by blast+
      have "sc_exec s' ! p \<and> (u < length (sc_exec s') \<longrightarrow> sc_exec s' ! u) \<and> u \<in> set (block_targets fn L p (sc_lat s))"
        if "(p, u) \<in> set ?ed" for p u
        using that G(3)[of p u] up b(2) t exec_at[of t] by (auto simp: len)
      moreover have "(f_entry fn, u) \<in> (set ?ed)\<^sup>*" if u: "u < length (sc_exec s')" "sc_exec s' ! u" for u
      proof -
        have old: "(f_entry fn, c) \<in> (set ?ed)\<^sup>*" if "c < length (sc_exec s)" "sc_exec s ! c" for c
          using G(4)[OF that] rtrancl_mono[of "set (sc_edges s)" "set ?ed"] by auto
        have "(f_entry fn, t) \<in> (set ?ed)\<^sup>*" using old[of b] b D(2) by (auto intro: rtrancl_into_rtrancl)
        then show ?thesis using u exec_at[of u] old[of u] by (auto simp: len)
      qed
      moreover have "set ?ed \<subseteq> edge_space fn" using G(1) inU by simp
      moreover have "sc_exec s' ! f_entry fn" by (rule up[OF G(2)])
      ultimately show ?thesis unfolding graph_ok_def by blast
    qed
    have "\<forall>p \<in> set (sc_cfg s'). p < length (f_blocks fn) \<and> sc_exec s' ! p"
      using D(2,6) exec_at by (auto simp: cfg')
    then have ok': "sccp_ok h fn L s'" using D(1,2,3,7) rise g unfolding sccp_ok_def lat' ed' ssa' by (simp add: ex')
    have w: "work fn s' \<le> work fn s" using fewer unfolding work_def lat' ed' ssa' cfg' by simp
    have "covered h fn L s' P B"
      unfolding covered_def
    proof (intro allI impI)
      fix c assume c: "c < length (f_blocks fn)" "sc_exec s' ! c" "c \<notin> set (sc_cfg s')"
      have ct: "c \<noteq> t" using c(1,3) D(2) by (auto simp: cfg')
      then have c': "sc_exec s ! c" "c \<notin> set (sc_cfg s)" using c exec_at[of c] D(2) by (auto simp: cfg' split: if_splits)
      have K: "\<And>j. j \<in> set (L ! c) \<Longrightarrow> ok_inst h fn s j \<or> dirty fn s P j"
        "c \<in> B \<or> ok_term fn L s c \<or> L ! c \<noteq> [] \<and> dirty fn s P (last (L ! c))"
        using cov c(1) c' unfolding covered_def by blast+
      have dd: "dirty fn s' P j \<longleftrightarrow> dirty fn s P j" for j by (simp add: dirty_def ssa')
      have "ok_inst h fn s j \<longrightarrow> ok_inst h fn s' j" if j: "j \<in> set (L ! c)" for j
      proof -
        have l: "live fn j" "i_block (f_insts fn ! j) = c" using setting_live[OF set c(1) j] by simp_all
        have "eval_instruction h fn (f_insts fn ! j) (sc_lat s) ?ed = eval_instruction h fn (f_insts fn ! j) (sc_lat s) (sc_edges s)"
          by (rule eval_cong[OF S(2) l(1)]) (use ct l(2) in \<open>auto simp: agree_def\<close>)
        then show ?thesis by (simp add: ok_inst_def lat' ed')
      qed
      moreover have "ok_term fn L s c \<longrightarrow> ok_term fn L s' c" by (auto simp: ok_term_def lat' ed')
      ultimately show "(\<forall>j \<in> set (L ! c). ok_inst h fn s' j \<or> dirty fn s' P j)
          \<and> (c \<in> B \<or> ok_term fn L s' c \<or> L ! c \<noteq> [] \<and> dirty fn s' P (last (L ! c)))"
        using K unfolding dd by blast
    qed
    moreover have "sc_exec s' ! b" using exec_at[of b] b D(2) by simp
    ultimately show ?thesis using ok' w by (auto simp: lat' ed')
  qed
  then show "sccp_ok h fn L s'" "work fn s' \<le> work fn s" "covered h fn L s' P B" "(b, t) \<in> set (sc_edges s')"
    "set (sc_edges s) \<subseteq> set (sc_edges s')" "sc_lat s' = sc_lat s" "sc_exec s' ! b" by blast+
qed

lemma reach_edges:
  assumes set: "sccp_setting fn L" and b: "b < length (f_blocks fn)"
  shows "sccp_ok h fn L s \<Longrightarrow> covered h fn L s P B \<Longrightarrow> sc_exec s ! b \<Longrightarrow> set ts \<subseteq> set (block_targets fn L b (sc_lat s)) \<Longrightarrow>
    sccp_ok h fn L (foldl (\<lambda>s t. reach_edge s b t) s ts) \<and> work fn (foldl (\<lambda>s t. reach_edge s b t) s ts) \<le> work fn s
    \<and> covered h fn L (foldl (\<lambda>s t. reach_edge s b t) s ts) P B \<and> sc_lat (foldl (\<lambda>s t. reach_edge s b t) s ts) = sc_lat s
    \<and> set (sc_edges s) \<subseteq> set (sc_edges (foldl (\<lambda>s t. reach_edge s b t) s ts))
    \<and> (\<forall>t \<in> set ts. (b, t) \<in> set (sc_edges (foldl (\<lambda>s t. reach_edge s b t) s ts)))"
proof (induction ts arbitrary: s)
  case (Cons t ts)
  have t: "t \<in> set (block_targets fn L b (sc_lat s))" using Cons.prems(4) by simp
  note R = reach_edge_step[OF set Cons.prems(1,2) b Cons.prems(3) t]
  have "set ts \<subseteq> set (block_targets fn L b (sc_lat (reach_edge s b t)))" using Cons.prems(4) R(6) by simp
  note I = Cons.IH[OF R(1,3,7) this]
  show ?case using I R(2,4,5,6) by (auto intro: le_trans)
qed simp

lemma eval_terminator_step:
  assumes set: "sccp_setting fn L" and ok: "sccp_ok h fn L s" and cov: "covered h fn L s P (insert b B)"
    and b: "b < length (f_blocks fn)" "sc_exec s ! b"
  shows "\<exists>s'. eval_terminator fn b s = Some s' \<and> sccp_ok h fn L s' \<and> work fn s' \<le> work fn s \<and> covered h fn L s' P B"
proof -
  let ?ts = "block_targets fn L b (sc_lat s)" and ?s = "foldl (\<lambda>s t. reach_edge s b t) s (block_targets fn L b (sc_lat s))"
  note R = reach_edges[OF set b(1) ok cov b(2) subset_refl]
  have "ok_term fn L ?s b" using R by (simp add: ok_term_def)
  moreover have "covered h fn L ?s P (insert b B)" using R by blast
  ultimately have "covered h fn L ?s P B" unfolding covered_def by blast
  then show ?thesis using R by (simp add: eval_terminator_def live_targets_block[OF set b(1)])
qed

subsection \<open>A step\<close>

lemma visit_insts_list:
  assumes set: "sccp_setting fn L" and b: "b < length (f_blocks fn)"
  shows "L ! b = ys @ xs \<Longrightarrow> visit_insts h fn (hd_or xs NY_INVALID_INST) s = foldM (\<lambda>s i. visit_inst h fn (f_insts fn ! i) s) s xs"
proof (induction xs arbitrary: ys s)
  case Nil
  then show ?case by (subst visit_insts.simps) simp
next
  case (Cons x xs)
  have x: "x \<in> set (L ! b)" using Cons.prems by simp
  have "seg (f_insts fn) b NY_INVALID_INST (ys @ x # xs) NY_INVALID_INST"
    using fn_wf_block[OF settingD(1)[OF set] b] Cons.prems by (simp add: block_ok_def)
  then have nx: "i_next (f_insts fn ! x) = hd_or xs NY_INVALID_INST" by simp
  have "x < length (f_insts fn)" "x \<noteq> NY_INVALID_INST" using fn_wf_mem(1,5)[OF settingD(1)[OF set] b x] by simp_all
  moreover have "visit_insts h fn (hd_or xs NY_INVALID_INST) = (\<lambda>t. foldM (\<lambda>s i. visit_inst h fn (f_insts fn ! i) s) t xs)"
    using Cons.IH[of "ys @ [x]"] Cons.prems by (intro ext) simp
  ultimately show ?case by (subst visit_insts.simps) (simp add: nx)
qed

lemma visit_list:
  assumes set: "sccp_setting fn L" and b: "b < length (f_blocks fn)"
  shows "set xs \<subseteq> set (L ! b) \<Longrightarrow> sccp_ok h fn L s \<Longrightarrow> covered h fn L s (set xs) {b} \<Longrightarrow>
    foldM (\<lambda>s i. visit_inst h fn (f_insts fn ! i) s) s xs = Some s' \<Longrightarrow>
    sccp_ok h fn L s' \<and> work fn s' \<le> work fn s \<and> covered h fn L s' {} {b} \<and> sc_exec s' = sc_exec s"
proof (induction xs arbitrary: s)
  case (Cons x xs)
  obtain s1 where s1: "visit_inst h fn (f_insts fn ! x) s = Some s1" "foldM (\<lambda>s i. visit_inst h fn (f_insts fn ! i) s) s1 xs = Some s'"
    using Cons.prems(4) by (auto simp: bind_Some_iff)
  have x: "live fn x" "i_block (f_insts fn ! x) = b" using setting_live[OF set b, of x] Cons.prems(1) by simp_all
  have c: "covered h fn L s (insert x (set xs)) {b}" using Cons.prems(3) by simp
  note V = visit_inst_step[OF set Cons.prems(2) x(1) s1(1) c, unfolded x(2)]
  have "covered h fn L s1 (set xs) {b}" by (rule covered_mono[OF V(3)]) auto
  then show ?case using Cons.IH[OF _ V(1) _ s1(2)] Cons.prems(1) V(2,4) by fastforce
qed simp

lemma block_step:
  assumes set: "sccp_setting fn L" and ok: "sccp_ok h fn L s" and cov: "covered h fn L s {} {}" and c: "sc_cfg s = b # rest"
    and run: "sccp_step h fn ud s = Some s'"
  shows "sccp_ok h fn L s' \<and> work fn s' < work fn s \<and> covered h fn L s' {} {}"
proof -
  note D = sccp_okD[OF ok]
  let ?s1 = "s\<lparr>sc_cfg := rest\<rparr>"
  have b: "b < length (f_blocks fn)" "sc_exec s ! b" using D(6)[of b] c by simp_all
  have ok1: "sccp_ok h fn L ?s1" using D c unfolding sccp_ok_def by simp
  have w1: "work fn ?s1 < work fn s" by (simp add: work_def c)
  have o: "ok_inst h fn ?s1 j = ok_inst h fn s j" "ok_term fn L ?s1 k = ok_term fn L s k" "dirty fn ?s1 {} j = dirty fn s {} j" for j k
    by (simp_all add: ok_inst_def ok_term_def dirty_def)
  have cov1: "covered h fn L ?s1 (set (L ! b)) {b}"
    unfolding covered_def
  proof (intro allI impI)
    fix k assume k: "k < length (f_blocks fn)" "sc_exec ?s1 ! k" "k \<notin> set (sc_cfg ?s1)"
    show "(\<forall>i \<in> set (L ! k). ok_inst h fn ?s1 i \<or> dirty fn ?s1 (set (L ! b)) i)
        \<and> (k \<in> {b} \<or> ok_term fn L ?s1 k \<or> L ! k \<noteq> [] \<and> dirty fn ?s1 (set (L ! b)) (last (L ! k)))"
    proof (cases "k = b")
      case True
      then show ?thesis by (simp add: dirty_def)
    next
      case False
      then have "(\<forall>i \<in> set (L ! k). ok_inst h fn s i \<or> dirty fn s {} i) \<and> (k \<in> {} \<or> ok_term fn L s k \<or> L ! k \<noteq> [] \<and> dirty fn s {} (last (L ! k)))"
        using cov k c unfolding covered_def by simp
      then show ?thesis unfolding o dirty_def by auto
    qed
  qed
  have first: "b_first (f_blocks fn ! b) = hd_or (L ! b) NY_INVALID_INST"
    using fn_wf_block[OF settingD(1)[OF set] b(1)] by (simp add: block_ok_def)
  obtain s2 where s2: "foldM (\<lambda>s i. visit_inst h fn (f_insts fn ! i) s) ?s1 (L ! b) = Some s2" "eval_terminator fn b s2 = Some s'"
    using run b(1) c visit_insts_list[OF set b(1), of "[]" "L ! b" h ?s1] first
    by (auto simp: sccp_step_def bind_Some_iff)
  have V: "sccp_ok h fn L s2" "work fn s2 \<le> work fn ?s1" "covered h fn L s2 {} {b}" "sc_exec s2 = sc_exec s"
    using visit_list[OF set b(1) subset_refl ok1 cov1 s2(1)] by simp_all
  have "covered h fn L s2 {} (insert b {})" "sc_exec s2 ! b" using V(3,4) b(2) by simp_all
  from eval_terminator_step[OF set V(1) this(1) b(1) this(2)] s2(2) show ?thesis using V(2) w1 by auto
qed

lemma visit_use_step:
  assumes set: "sccp_setting fn L" and ok: "sccp_ok h fn L s" and i: "live fn i" and cov: "covered h fn L s (insert i P) {}"
    and run: "visit_use h fn s (i, k) = Some s'"
  shows "sccp_ok h fn L s' \<and> work fn s' \<le> work fn s \<and> covered h fn L s' P {}"
proof -
  let ?b = "i_block (f_insts fn ! i)"
  note D = sccp_okD[OF ok]
  have b: "?b < length (f_blocks fn)" and il: "i \<in> set (L ! ?b)" using setting_block[OF set i] by simp_all
  have ib: "i < length (f_insts fn)" using i by (simp add: live_def)
  show ?thesis
  proof (cases "sc_exec s ! ?b")
    case False
    then have s': "s' = s" using run ib by (simp add: visit_use_def)
    have "covered h fn L s P {}"
      unfolding covered_def
    proof (intro allI impI)
      fix c assume c: "c < length (f_blocks fn)" "sc_exec s ! c" "c \<notin> set (sc_cfg s)"
      have ni: "j \<noteq> i" if "j \<in> set (L ! c)" for j using setting_live(2)[OF set c(1) that] c(2) False by auto
      have K: "\<forall>j \<in> set (L ! c). ok_inst h fn s j \<or> dirty fn s (insert i P) j"
        "c \<in> {} \<or> ok_term fn L s c \<or> L ! c \<noteq> [] \<and> dirty fn s (insert i P) (last (L ! c))"
        using cov c unfolding covered_def by blast+
      have "dirty fn s (insert i P) j \<longleftrightarrow> dirty fn s P j" if "j \<in> set (L ! c)" for j using ni[OF that] by (simp add: dirty_def)
      then show "(\<forall>j \<in> set (L ! c). ok_inst h fn s j \<or> dirty fn s P j) \<and> (c \<in> {} \<or> ok_term fn L s c \<or> L ! c \<noteq> [] \<and> dirty fn s P (last (L ! c)))"
        using K by (metis last_in_set)
    qed
    then show ?thesis using s' ok by simp
  next
    case True
    obtain s1 where s1: "visit_inst h fn (f_insts fn ! i) s = Some s1"
      "(if ny_opcode_is_terminator (i_opcode (f_insts fn ! i)) then eval_terminator fn ?b s1 else Some s1) = Some s'"
      using run ib b True D(2) by (auto simp: visit_use_def bind_Some_iff)
    note V = visit_inst_step[OF set ok i s1(1) cov]
    have ins: "covered h fn L s1 P (insert ?b {})" by (rule covered_mono[OF V(3)]) auto
    show ?thesis
    proof (cases "ny_opcode_is_terminator (i_opcode (f_insts fn ! i))")
      case tm: True
      have "sc_exec s1 ! ?b" using True V(4) by simp
      from eval_terminator_step[OF set V(1) ins b this] show ?thesis using s1(2) tm V(2) by auto
    next
      case False
      then have s': "s' = s1" using s1(2) by simp
      have "i_opcode (f_insts fn ! i) \<noteq> NY_OPCODE_BRANCH \<and> i_opcode (f_insts fn ! i) \<noteq> NY_OPCODE_BRANCH_IF"
        using False by (auto simp: ny_opcode_is_terminator_def)
      then have "term_targets fn i lat = []" for lat by (simp add: term_targets_def)
      then have "ok_term fn L s1 c" if "L ! c \<noteq> []" "last (L ! c) = i" for c using that by (simp add: ok_term_def block_targets_def)
      then have "covered h fn L s1 P {}" using V(3) unfolding covered_def by blast
      then show ?thesis using V(1,2) s' by simp
    qed
  qed
qed

lemma uses_step:
  assumes set: "sccp_setting fn L"
  shows "(\<And>u. u \<in> set us \<Longrightarrow> live fn (fst u)) \<Longrightarrow> sccp_ok h fn L s \<Longrightarrow> covered h fn L s (fst ` set us) {} \<Longrightarrow>
    foldM (visit_use h fn) s us = Some s' \<Longrightarrow> sccp_ok h fn L s' \<and> work fn s' \<le> work fn s \<and> covered h fn L s' {} {}"
proof (induction us arbitrary: s)
  case (Cons u us)
  obtain s1 where s1: "visit_use h fn s u = Some s1" "foldM (visit_use h fn) s1 us = Some s'" using Cons.prems(4) by (auto simp: bind_Some_iff)
  have l: "live fn (fst u)" using Cons.prems(1) by simp
  have cv: "covered h fn L s (insert (fst u) (fst ` set us)) {}" using Cons.prems(3) by simp
  have run: "visit_use h fn s (fst u, snd u) = Some s1" using s1(1) by simp
  have "sccp_ok h fn L s1 \<and> work fn s1 \<le> work fn s \<and> covered h fn L s1 (fst ` set us) {}"
    by (rule visit_use_step[OF set Cons.prems(2) l cv run])
  then show ?case using Cons.IH[OF _ _ _ s1(2)] Cons.prems(1) by fastforce
qed simp

definition exact_uses :: "ny_function \<Rightarrow> ny_use_def \<Rightarrow> bool" where
  "exact_uses fn ud \<longleftrightarrow> (\<forall>v < length (f_values fn). ny_use_def_get_uses ud v = value_uses fn v)"

lemma value_step:
  assumes set: "sccp_setting fn L" and ok: "sccp_ok h fn L s" and cov: "covered h fn L s {} {}" and c: "sc_cfg s = []" "sc_ssa s = v # rest"
    and ud: "exact_uses fn ud" and run: "sccp_step h fn ud s = Some s'"
  shows "sccp_ok h fn L s' \<and> work fn s' < work fn s \<and> covered h fn L s' {} {}"
proof -
  note D = sccp_okD[OF ok]
  let ?s1 = "s\<lparr>sc_ssa := rest\<rparr>"
  have v: "v < length (f_values fn)" using D(7)[of v] c by simp
  have us: "ny_use_def_get_uses ud v = value_uses fn v" using ud v by (simp add: exact_uses_def)
  have ok1: "sccp_ok h fn L ?s1" using D c unfolding sccp_ok_def by simp
  have w1: "work fn ?s1 < work fn s" by (simp add: work_def c)
  have users: "j \<in> fst ` set (value_uses fn v)" if j: "live fn j" "OpValue v \<in> set (inst_ops fn j)" for j
  proof -
    obtain k where "k < length (inst_ops fn j)" "inst_ops fn j ! k = OpValue v" using j(2) by (meson in_set_conv_nth)
    then have "(j, k) \<in> set (value_uses fn v)" using j(1) length_inst_ops[OF settingD(2)[OF set] j(1)] by (simp add: value_uses_mem)
    then show ?thesis by force
  qed
  have d: "dirty fn s {} j \<longrightarrow> dirty fn ?s1 (fst ` set (value_uses fn v)) j" if "live fn j" for j
    using users[OF that] by (auto simp: dirty_def c)
  have cov1: "covered h fn L ?s1 (fst ` set (value_uses fn v)) {}"
    unfolding covered_def
  proof (intro allI impI)
    fix k assume k: "k < length (f_blocks fn)" "sc_exec ?s1 ! k" "k \<notin> set (sc_cfg ?s1)"
    then have K: "\<forall>i \<in> set (L ! k). ok_inst h fn s i \<or> dirty fn s {} i" "ok_term fn L s k \<or> L ! k \<noteq> [] \<and> dirty fn s {} (last (L ! k))"
      using cov unfolding covered_def by simp_all
    have o: "ok_inst h fn ?s1 j = ok_inst h fn s j" "ok_term fn L ?s1 k = ok_term fn L s k" for j
      by (simp_all add: ok_inst_def ok_term_def)
    show "(\<forall>i \<in> set (L ! k). ok_inst h fn ?s1 i \<or> dirty fn ?s1 (fst ` set (value_uses fn v)) i)
        \<and> (k \<in> {} \<or> ok_term fn L ?s1 k \<or> L ! k \<noteq> [] \<and> dirty fn ?s1 (fst ` set (value_uses fn v)) (last (L ! k)))"
      using K d setting_live(1)[OF set k(1)] unfolding o by (metis last_in_set)
  qed
  have run1: "foldM (visit_use h fn) ?s1 (value_uses fn v) = Some s'" using run c us by (simp add: sccp_step_def)
  have "live fn (fst u)" if "u \<in> set (value_uses fn v)" for u using that value_uses_mem[of "fst u" "snd u"] by simp
  from uses_step[OF set this ok1 cov1 run1] show ?thesis using w1 by auto
qed

subsection \<open>Where a step is defined\<close>

lemma eval_defined:
  assumes ow: "ops_wf fn" and i: "live fn i" and op: "i_opcode (f_insts fn ! i) \<notin> unsafe_ops"
  shows "\<exists>v. eval_instruction h fn (f_insts fn ! i) lat ed = Some v"
proof -
  let ?x = "f_insts fn ! i" and ?ops = "inst_ops fn i"
  have at: "k < i_op_count ?x \<Longrightarrow> op_at fn (ny_function_get_operands fn ?x) k = Some (?ops ! k)" for k
    by (rule op_at_inst[OF ow i])
  have un: "\<exists>v. eval_unary (i_opcode ?x) w a = Some v" if "w \<in> widths" for w a
  proof -
    have "\<exists>r. ny_fold_int_unary (i_opcode ?x) n w = Some r" for n using fold_defined(1)[OF that op] by blast
    then show ?thesis by (cases a) (simp_all add: eval_unary_def, metis bind.bind_lunit)
  qed
  have bi: "\<exists>v. eval_binary h (i_opcode ?x) w c a b = Some v" if w: "w \<in> widths" "c \<in> widths" for w c a b
  proof (cases "\<exists>x y. a = Lat_Int x \<and> b = Lat_Int y")
    case True
    then obtain x y where ab: "a = Lat_Int x" "b = Lat_Int y" by blast
    have "ny_fold_int_binary (i_opcode ?x) x y w \<noteq> None" "ny_fold_int_cmp (i_opcode ?x) x y c \<noteq> None"
      using fold_defined(2)[OF w(1) op] fold_defined(3)[OF w(2) op] by blast+
    then obtain r q where "ny_fold_int_binary (i_opcode ?x) x y w = Some r" "ny_fold_int_cmp (i_opcode ?x) x y c = Some q" by blast
    then show ?thesis by (cases r) (simp_all add: eval_binary_def ab)
  next
    case False
    then show ?thesis by (cases a; cases b) (simp_all add: eval_binary_def)
  qed
  show ?thesis
  proof (cases "i_opcode ?x = NY_OPCODE_CONST")
    case True
    then show ?thesis using at[of 0] by (simp add: eval_instruction_def eval_const_def)
  next
    case False
    show ?thesis
    proof (cases "rd (f_values fn) (i_result ?x)")
      case None
      then show ?thesis using False by (simp add: eval_instruction_def)
    next
      case (Some res)
      have c: "(case op0 of OpValue v \<Rightarrow> (case ny_function_get_value fn v of Some val \<Rightarrow> ny_opt_get_type_bit_width (v_type val)
          | None \<Rightarrow> ny_opt_get_type_bit_width (v_type res)) | _ \<Rightarrow> ny_opt_get_type_bit_width (v_type res)) \<in> widths" for op0
        using type_bit_width by (auto split: ny_operand.splits option.splits)
      show ?thesis using False Some at[of 0] at[of 1] at[of 2] un[OF type_bit_width] bi[OF type_bit_width c]
        by (simp add: eval_instruction_def Let_def eval_phi_meet[OF ow i])
    qed
  qed
qed

lemma covered_all: "covered h fn L s UNIV UNIV"
  by (simp add: covered_def dirty_def)

lemma visit_defined:
  assumes set: "sccp_setting fn L" and ok: "sccp_ok h fn L s" and i: "live fn i" and op: "i_opcode (f_insts fn ! i) \<notin> unsafe_ops"
  shows "\<exists>s'. visit_inst h fn (f_insts fn ! i) s = Some s' \<and> sccp_ok h fn L s' \<and> sc_exec s' = sc_exec s"
proof -
  have "\<exists>s'. visit_inst h fn (f_insts fn ! i) s = Some s'"
  proof -
    obtain v where "eval_instruction h fn (f_insts fn ! i) (sc_lat s) (sc_edges s) = Some v"
      using eval_defined[OF settingD(2)[OF set] i op] by blast
    then show ?thesis using settingD(7)[OF set i] sccp_okD(1)[OF ok] by (simp add: visit_inst_def)
  qed
  then obtain s' where s': "visit_inst h fn (f_insts fn ! i) s = Some s'" by blast
  have "covered h fn L s (insert i UNIV) UNIV" using covered_all by simp
  from visit_inst_step[OF set ok i s' this] show ?thesis using s' by blast
qed

lemma terminator_defined:
  assumes "sccp_setting fn L" "sccp_ok h fn L s" "b < length (f_blocks fn)" "sc_exec s ! b"
  shows "\<exists>s'. eval_terminator fn b s = Some s' \<and> sccp_ok h fn L s'"
proof -
  have "covered h fn L s UNIV (insert b UNIV)" using covered_all by simp
  from eval_terminator_step[OF assms(1,2) this assms(3,4)] show ?thesis by blast
qed

lemma step_defined:
  assumes set: "sccp_setting fn L" and ok: "sccp_ok h fn L s" and ud: "exact_uses fn ud"
    and safe: "\<And>i. live fn i \<Longrightarrow> i_opcode (f_insts fn ! i) \<notin> unsafe_ops"
  shows "\<exists>s'. sccp_step h fn ud s = Some s'"
proof (cases "sc_cfg s")
  case (Cons b rest)
  note D = sccp_okD[OF ok]
  have b: "b < length (f_blocks fn)" "sc_exec s ! b" using D(6)[of b] Cons by simp_all
  let ?s1 = "s\<lparr>sc_cfg := rest\<rparr>"
  have ok1: "sccp_ok h fn L ?s1" using D Cons unfolding sccp_ok_def by simp
  have "\<exists>t. foldM (\<lambda>s i. visit_inst h fn (f_insts fn ! i) s) ?s1 (L ! b) = Some t \<and> sccp_ok h fn L t \<and> sc_exec t = sc_exec s"
    by (rule foldM_total) (use ok1 visit_defined[OF set] safe setting_live(1)[OF set b(1)] in fastforce)+
  then obtain t where t: "foldM (\<lambda>s i. visit_inst h fn (f_insts fn ! i) s) ?s1 (L ! b) = Some t" "sccp_ok h fn L t" "sc_exec t ! b"
    using b(2) by auto
  have "b_first (f_blocks fn ! b) = hd_or (L ! b) NY_INVALID_INST"
    using fn_wf_block[OF settingD(1)[OF set] b(1)] by (simp add: block_ok_def)
  then show ?thesis using terminator_defined[OF set t(2) b(1) t(3)] t(1) b(1) Cons visit_insts_list[OF set b(1), of "[]" "L ! b" h ?s1]
    by (auto simp: sccp_step_def)
next
  case Nil
  show ?thesis
  proof (cases "sc_ssa s")
    case (Cons v rest)
    note D = sccp_okD[OF ok]
    let ?s1 = "s\<lparr>sc_ssa := rest\<rparr>"
    have ok1: "sccp_ok h fn L ?s1" using D Cons unfolding sccp_ok_def by simp
    have us: "ny_use_def_get_uses ud v = value_uses fn v" using ud D(7)[of v] Cons by (simp add: exact_uses_def)
    have "\<exists>t. foldM (visit_use h fn) ?s1 (value_uses fn v) = Some t \<and> sccp_ok h fn L t"
    proof (rule foldM_total[where P = "sccp_ok h fn L", OF ok1])
      fix s u assume u: "u \<in> set (value_uses fn v)" and o: "sccp_ok h fn L s"
      have l: "live fn (fst u)" using u value_uses_mem[of "fst u" "snd u"] by simp
      have b: "i_block (f_insts fn ! fst u) < length (f_blocks fn)" by (rule setting_block(1)[OF set l])
      have lt: "fst u < length (f_insts fn)" using l by (simp add: live_def)
      obtain s1 where s1: "visit_inst h fn (f_insts fn ! fst u) s = Some s1" "sccp_ok h fn L s1" "sc_exec s1 = sc_exec s"
        using visit_defined[OF set o l safe[OF l]] by blast
      show "\<exists>s'. visit_use h fn s u = Some s' \<and> sccp_ok h fn L s'"
        using s1 o lt b sccp_okD(2)[OF o] terminator_defined[OF set s1(2) b] by (auto simp: visit_use_def)
    qed
    then show ?thesis using us Nil Cons by (auto simp: sccp_step_def)
  qed (simp add: sccp_step_def Nil)
qed

subsection \<open>The loop\<close>

inductive sccp_runs :: "host_fpu \<Rightarrow> ny_function \<Rightarrow> ny_use_def \<Rightarrow> sccp_state \<Rightarrow> sccp_state \<Rightarrow> bool" for h fn ud where
  here: "sccp_runs h fn ud s s"
| step: "sc_cfg s \<noteq> [] \<or> sc_ssa s \<noteq> [] \<Longrightarrow> sccp_step h fn ud s = Some s1 \<Longrightarrow> sccp_runs h fn ud s1 s' \<Longrightarrow> sccp_runs h fn ud s s'"

lemma loop_runs:
  assumes set: "sccp_setting fn L" and ud: "exact_uses fn ud"
  shows "sccp_ok h fn L s \<Longrightarrow> covered h fn L s {} {} \<Longrightarrow> \<exists>s'. sccp_runs h fn ud s s' \<and> sccp_ok h fn L s'
    \<and> (sc_cfg s' = [] \<and> sc_ssa s' = [] \<and> sccp_loop h fn ud s = Some s' \<and> covered h fn L s' {} {} \<or> sccp_step h fn ud s' = None)"
proof (induction "work fn s" arbitrary: s rule: less_induct)
  case less
  show ?case
  proof (cases "sc_cfg s = [] \<and> sc_ssa s = []")
    case True
    then have "sccp_loop h fn ud s = Some s" by (subst sccp_loop.simps) simp
    then show ?thesis using True less.prems sccp_runs.here by blast
  next
    case False
    show ?thesis
    proof (cases "sccp_step h fn ud s")
      case None
      then show ?thesis using less.prems sccp_runs.here by blast
    next
      case (Some s1)
      have "sccp_ok h fn L s1 \<and> work fn s1 < work fn s \<and> covered h fn L s1 {} {}"
      proof (cases "sc_cfg s")
        case (Cons b rest)
        then show ?thesis by (rule block_step[OF set less.prems _ Some])
      next
        case Nil
        then obtain v rest where "sc_ssa s = v # rest" using False by (cases "sc_ssa s") auto
        then show ?thesis by (rule value_step[OF set less.prems Nil _ ud Some])
      qed
      then have s1: "sccp_ok h fn L s1" "work fn s1 < work fn s" "covered h fn L s1 {} {}" by blast+
      obtain s' where s': "sccp_runs h fn ud s1 s'" "sccp_ok h fn L s'"
        "sc_cfg s' = [] \<and> sc_ssa s' = [] \<and> sccp_loop h fn ud s1 = Some s' \<and> covered h fn L s' {} {} \<or> sccp_step h fn ud s' = None"
        using less.hyps[OF s1(2,1,3)] by blast
      have "sccp_runs h fn ud s s'" using sccp_runs.step[OF _ Some s'(1)] False by blast
      moreover have "sccp_loop h fn ud s = sccp_loop h fn ud s1" using False Some by (subst sccp_loop.simps) auto
      ultimately show ?thesis using s'(2,3) by auto
    qed
  qed
qed

subsection \<open>The fixed point\<close>

text \<open>Every result names its value, which is defined by the instruction.\<close>

definition results_recorded :: "ny_function \<Rightarrow> bool" where
  "results_recorded fn \<longleftrightarrow> (\<forall>i. live fn i \<longrightarrow> (let r = i_result (f_insts fn ! i) in r \<noteq> NY_INVALID_VALUE \<longrightarrow>
     r < length (f_values fn) \<and> v_kind (f_values fn ! r) \<noteq> NY_VAL_ARGUMENT \<and> v_def (f_values fn ! r) = i))"

lemma initial_values:
  assumes "\<And>v. v \<in> set vs \<Longrightarrow> lat_initial fn v = Some (f v)"
  shows "foldM (\<lambda>lat v. do { l \<leftarrow> lat_initial fn v; Some (lat @ [l]) }) lat vs = Some (lat @ map f vs)"
  using assms by (induction vs arbitrary: lat) simp_all

lemma eval_const_ops:
  assumes "ops_wf fn" "live fn i"
  shows "eval_const fn (f_insts fn ! i) = Some (if i_op_count (f_insts fn ! i) = 1
    then (case inst_ops fn i ! 0 of OpInt n \<Rightarrow> Lat_Int n | OpFloat n \<Rightarrow> Lat_Float n | _ \<Rightarrow> Lat_Bottom) else Lat_Bottom)"
  using op_at_inst[OF assms, of 0] by (simp add: eval_const_def)

lemma sccp_start_ok:
  assumes set: "sccp_setting fn L" and rec: "results_recorded fn"
  shows "\<exists>s. sccp_start fn = Some s \<and> sccp_ok h fn L s \<and> covered h fn L s {} {}"
proof -
  note S = settingD[OF set]
  define f :: "ny_value \<Rightarrow> lat_val" where "f v = (if v_kind v = NY_VAL_ARGUMENT then Lat_Bottom
      else if v_kind v = NY_VAL_INSTRUCTION \<and> v_def v \<noteq> NY_INVALID_INST \<and> v_def v < length (f_insts fn)
        \<and> i_opcode (f_insts fn ! v_def v) = NY_OPCODE_CONST then the (eval_const fn (f_insts fn ! v_def v)) else Lat_Top)" for v
  have const: "live fn i" if "i < length (f_insts fn)" "i_opcode (f_insts fn ! i) = NY_OPCODE_CONST" for i
    using that by (simp add: live_def)
  have init: "lat_initial fn v = Some (f v)" for v
    using const[of "v_def v"] eval_const_ops[OF S(2), of "v_def v"] by (auto simp: lat_initial_def f_def rd_def)
  have pf: "plain (f v)" for v
  proof -
    have "plain (the (eval_const fn (f_insts fn ! i)))" if l: "live fn i" for i
    proof -
      have "\<forall>w. inst_ops fn i ! 0 \<noteq> OpFloat w" if "i_op_count (f_insts fn ! i) = 1"
        using S(4) l that length_inst_ops[OF S(2) l] nth_mem[of 0 "inst_ops fn i"] unfolding plain_fn_def by fastforce
      then show ?thesis by (auto simp: eval_const_ops[OF S(2) l] split: ny_operand.splits)
    qed
    then show ?thesis using const[of "v_def v"] by (simp add: f_def)
  qed
  let ?exec = "(replicate (length (f_blocks fn)) False)[f_entry fn := True]"
  let ?s = "\<lparr>sc_lat = map f (f_values fn), sc_exec = ?exec, sc_edges = [], sc_cfg = [f_entry fn], sc_ssa = []\<rparr>"
  have ex: "?exec ! b \<longleftrightarrow> b = f_entry fn" if "b < length (f_blocks fn)" for b using that S(5) by (auto simp: nth_list_update)
  have lats: "foldM (\<lambda>lat v. do { l \<leftarrow> lat_initial fn v; Some (lat @ [l]) }) [] (f_values fn) = Some (map f (f_values fn))"
    using initial_values[of "f_values fn" fn f "[]", OF init] by (simp only: append_Nil)
  have start: "sccp_start fn = Some ?s" unfolding sccp_start_def lats using S(5) by simp
  have rise: "rising h fn (map f (f_values fn)) []"
    unfolding rising_def
  proof (intro allI impI)
    fix i lat' ed' v
    assume i: "live fn i" "i_result (f_insts fn ! i) \<noteq> NY_INVALID_VALUE"
      and e: "eval_instruction h fn (f_insts fn ! i) lat' ed' = Some v"
    let ?r = "i_result (f_insts fn ! i)"
    have r: "?r < length (f_values fn)" "v_kind (f_values fn ! ?r) \<noteq> NY_VAL_ARGUMENT" "v_def (f_values fn ! ?r) = i"
      using rec i unfolding results_recorded_def Let_def by blast+
    show "lat_le (map f (f_values fn) ! ?r) v"
    proof (cases "i_opcode (f_insts fn ! i) = NY_OPCODE_CONST")
      case True
      then have "the (eval_const fn (f_insts fn ! i)) = v" using e by (simp add: eval_instruction_def)
      then show ?thesis using r by (simp add: f_def)
    next
      case False
      then show ?thesis using r by (simp add: f_def)
    qed
  qed
  have g: "graph_ok fn L (map f (f_values fn)) ?exec []"
    using ex S(5) by (auto simp: graph_ok_def)
  have pl: "plain_lat (map f (f_values fn))" using pf by (auto simp: plain_lat_def)
  have "sccp_ok h fn L ?s" using rise g pl S(5) by (simp add: sccp_ok_def)
  moreover have "covered h fn L ?s {} {}" using ex by (auto simp: covered_def)
  ultimately show ?thesis using start by blast
qed

text \<open>
  A solution: the executable blocks are those the marked edges reach from the entry, the marked edges are the ones their
  terminators can take, and every instruction in an executable block evaluates to the value recorded for its result.
\<close>

definition sccp_solution :: "host_fpu \<Rightarrow> ny_function \<Rightarrow> nat list list \<Rightarrow> sccp_state \<Rightarrow> bool" where
  "sccp_solution h fn L s \<longleftrightarrow> length (sc_lat s) = length (f_values fn)
   \<and> (\<forall>b < length (f_blocks fn). sc_exec s ! b \<longleftrightarrow> (f_entry fn, b) \<in> (set (sc_edges s))\<^sup>*)
   \<and> (\<forall>b t. (b, t) \<in> set (sc_edges s) \<longleftrightarrow> b < length (f_blocks fn) \<and> sc_exec s ! b \<and> t \<in> set (block_targets fn L b (sc_lat s)))
   \<and> (\<forall>b < length (f_blocks fn). sc_exec s ! b \<longrightarrow> (\<forall>i \<in> set (L ! b). i_result (f_insts fn ! i) \<noteq> NY_INVALID_VALUE \<longrightarrow>
        eval_instruction h fn (f_insts fn ! i) (sc_lat s) (sc_edges s) = Some (sc_lat s ! i_result (f_insts fn ! i))))"

lemma stopped_solution:
  assumes set: "sccp_setting fn L" and ok: "sccp_ok h fn L s" and cov: "covered h fn L s {} {}" and c: "sc_cfg s = []" "sc_ssa s = []"
  shows "sccp_solution h fn L s"
proof -
  note D = sccp_okD[OF ok] and S = settingD[OF set]
  have K: "\<forall>i \<in> set (L ! b). ok_inst h fn s i" "ok_term fn L s b" if "b < length (f_blocks fn)" "sc_exec s ! b" for b
    using cov that c unfolding covered_def dirty_def by auto
  have G: "set (sc_edges s) \<subseteq> edge_space fn" "sc_exec s ! f_entry fn"
    "\<And>p u. (p, u) \<in> set (sc_edges s) \<Longrightarrow> sc_exec s ! p \<and> (u < length (sc_exec s) \<longrightarrow> sc_exec s ! u) \<and> u \<in> set (block_targets fn L p (sc_lat s))"
    "\<And>u. u < length (sc_exec s) \<Longrightarrow> sc_exec s ! u \<Longrightarrow> (f_entry fn, u) \<in> (set (sc_edges s))\<^sup>*"
    using D(5) unfolding graph_ok_def by blast+
  have "sc_exec s ! b" if "(f_entry fn, b) \<in> (set (sc_edges s))\<^sup>*" "b < length (f_blocks fn)" for b
    using that
  proof (induction rule: rtrancl_induct)
    case base
    then show ?case using G(2) by simp
  next
    case (step y z)
    then show ?case using G(3)[of y z] D(2) by simp
  qed
  then have "\<forall>b < length (f_blocks fn). sc_exec s ! b \<longleftrightarrow> (f_entry fn, b) \<in> (set (sc_edges s))\<^sup>*" using G(4) D(2) by metis
  moreover have "(b, t) \<in> set (sc_edges s) \<longleftrightarrow> b < length (f_blocks fn) \<and> sc_exec s ! b \<and> t \<in> set (block_targets fn L b (sc_lat s))" for b t
    using G(1) G(3)[of b t] K(2)[of b] by (auto simp: ok_term_def edge_space_def)
  moreover have "\<forall>b < length (f_blocks fn). sc_exec s ! b \<longrightarrow> (\<forall>i \<in> set (L ! b). i_result (f_insts fn ! i) \<noteq> NY_INVALID_VALUE \<longrightarrow>
        eval_instruction h fn (f_insts fn ! i) (sc_lat s) (sc_edges s) = Some (sc_lat s ! i_result (f_insts fn ! i)))"
    using K(1) unfolding ok_inst_def by blast
  ultimately show ?thesis using D(1) unfolding sccp_solution_def by blast
qed

text \<open>
  C11. Constant propagation does not run for ever.  On a well-formed function in SSA form without floating-point immediates
  the two work lists are emptied after finitely many steps, unless a step evaluates a signed operation that overflows, which
  is undefined and needs an instruction of \<open>unsafe_ops\<close>.  When they are empty the loop returns a solution: executable blocks
  and edges are exactly what the terminators can take from the entry, and every instruction in an executable block evaluates
  to the value recorded for it.
\<close>

theorem sccp_terminates:
  assumes "fn_wf fn L" and "ops_wf fn" and "ssa fn" and "plain_fn fn" and "results_recorded fn" and "f_entry fn < length (f_blocks fn)"
    and "length (f_values fn) \<le> NY_INVALID" and "length (use_events fn) < 4294967296"
  shows "\<exists>ud s0 s. ny_use_def_init fresh fn = Some ud \<and> sccp_start fn = Some s0 \<and> sccp_runs h fn ud s0 s
    \<and> (sc_cfg s = [] \<and> sc_ssa s = [] \<and> sccp_loop h fn ud s0 = Some s \<and> sccp_solution h fn L s
       \<or> sccp_step h fn ud s = None \<and> (\<exists>i. live fn i \<and> i_opcode (f_insts fn ! i) \<in> unsafe_ops))"
proof -
  have set: "sccp_setting fn L" using assms by (auto simp: sccp_setting_def results_recorded_def Let_def)
  obtain ud where ud: "ny_use_def_init fresh fn = Some ud" "exact_uses fn ud"
    using use_def_facts[OF assms(1,2,7,8), of fresh] unfolding exact_uses_def by blast
  obtain s0 where s0: "sccp_start fn = Some s0" "sccp_ok h fn L s0" "covered h fn L s0 {} {}" using sccp_start_ok[OF set assms(5)] by blast
  obtain s where s: "sccp_runs h fn ud s0 s" "sccp_ok h fn L s"
    "sc_cfg s = [] \<and> sc_ssa s = [] \<and> sccp_loop h fn ud s0 = Some s \<and> covered h fn L s {} {} \<or> sccp_step h fn ud s = None"
    using loop_runs[OF set ud(2) s0(2,3)] by blast
  have "\<exists>i. live fn i \<and> i_opcode (f_insts fn ! i) \<in> unsafe_ops" if "sccp_step h fn ud s = None"
    using step_defined[OF set s(2) ud(2)] that by auto
  then have "sc_cfg s = [] \<and> sc_ssa s = [] \<and> sccp_loop h fn ud s0 = Some s \<and> sccp_solution h fn L s
       \<or> sccp_step h fn ud s = None \<and> (\<exists>i. live fn i \<and> i_opcode (f_insts fn ! i) \<in> unsafe_ops)"
    using s(3) stopped_solution[OF set s(2)] by (elim disjE conjE) (simp_all (no_asm_simp))
  then show ?thesis using ud(1) s0(1) s(1) by blast
qed

text \<open>A branch on the constant 1.\<close>

definition if_fn :: ny_function where
  "if_fn = (ny_function_init 0 ''i'' 0 0)\<lparr>f_entry := 0,
     f_blocks := [\<lparr>b_id = 0, b_name = ''entry'', b_first = 0, b_last = 1, b_inst_count = 2, b_preds = [], b_succs = [1, 2]\<rparr>,
       \<lparr>b_id = 1, b_name = ''yes'', b_first = 2, b_last = 2, b_inst_count = 1, b_preds = [0], b_succs = []\<rparr>,
       \<lparr>b_id = 2, b_name = ''no'', b_first = 3, b_last = 3, b_inst_count = 1, b_preds = [0], b_succs = []\<rparr>],
     f_insts := [mk_inst 0 NY_OPCODE_CONST 0 0 1 0 NY_INVALID 1, mk_inst 1 NY_OPCODE_BRANCH_IF NY_INVALID 1 3 0 0 NY_INVALID,
       (mk_inst 2 NY_OPCODE_RETURN NY_INVALID 4 0 0 NY_INVALID NY_INVALID)\<lparr>i_block := 1\<rparr>,
       (mk_inst 3 NY_OPCODE_RETURN NY_INVALID 4 0 0 NY_INVALID NY_INVALID)\<lparr>i_block := 2\<rparr>],
     f_values := [\<lparr>v_id = 0, v_type = 4, v_kind = NY_VAL_INSTRUCTION, v_def = 0, v_index = 0, v_name = ''c''\<rparr>],
     f_operands := [OpInt 1, OpValue 0, OpBlock 1, OpBlock 2]\<rparr>"

lemma if_parts: "length (f_insts if_fn) = 4" "length (f_blocks if_fn) = 3" "length (f_operands if_fn) = 4" "length (f_values if_fn) = 1"
  "f_entry if_fn = 0"
  "f_insts if_fn ! 0 = mk_inst 0 NY_OPCODE_CONST 0 0 1 0 NY_INVALID 1"
  "f_insts if_fn ! Suc 0 = mk_inst 1 NY_OPCODE_BRANCH_IF NY_INVALID 1 3 0 0 NY_INVALID"
  "f_insts if_fn ! 2 = (mk_inst 2 NY_OPCODE_RETURN NY_INVALID 4 0 0 NY_INVALID NY_INVALID)\<lparr>i_block := 1\<rparr>"
  "f_insts if_fn ! 3 = (mk_inst 3 NY_OPCODE_RETURN NY_INVALID 4 0 0 NY_INVALID NY_INVALID)\<lparr>i_block := 2\<rparr>"
  "f_blocks if_fn ! 0 = \<lparr>b_id = 0, b_name = ''entry'', b_first = 0, b_last = 1, b_inst_count = 2, b_preds = [], b_succs = [1, 2]\<rparr>"
  "f_blocks if_fn ! Suc 0 = \<lparr>b_id = 1, b_name = ''yes'', b_first = 2, b_last = 2, b_inst_count = 1, b_preds = [0], b_succs = []\<rparr>"
  "f_blocks if_fn ! 2 = \<lparr>b_id = 2, b_name = ''no'', b_first = 3, b_last = 3, b_inst_count = 1, b_preds = [0], b_succs = []\<rparr>"
  "inst_ops if_fn 0 = [OpInt 1]" "inst_ops if_fn (Suc 0) = [OpValue 0, OpBlock 1, OpBlock 2]" "inst_ops if_fn 2 = []" "inst_ops if_fn 3 = []"
  "f_values if_fn ! 0 = \<lparr>v_id = 0, v_type = 4, v_kind = NY_VAL_INSTRUCTION, v_def = 0, v_index = 0, v_name = ''c''\<rparr>"
  by (simp_all add: if_fn_def mk_inst_def inst_ops_def subarray_def numeral_3_eq_3 numeral_2_eq_2)

lemma if_live: "live if_fn i \<longleftrightarrow> i < 4"
  by (auto simp: live_def if_parts mk_inst_def dest!: less_four)

lemma if_wf: "fn_wf if_fn [[0, 1], [2], [3]]" "ops_wf if_fn" "ssa if_fn" "plain_fn if_fn" "results_recorded if_fn"
proof -
  have "block_ok (f_insts if_fn) (f_blocks if_fn ! b) b ([[0, 1], [2], [3]] ! b)" if "b < 3" for b
    using less_three[OF that] by (auto simp: block_ok_def if_parts mk_inst_def)
  moreover have "i_id (f_insts if_fn ! i) = i \<and> i_block (f_insts if_fn ! i) < 3 \<and> i \<in> set ([[0, 1], [2], [3]] ! i_block (f_insts if_fn ! i))" if "i < 4" for i
    using less_four[OF that] by (auto simp: if_parts mk_inst_def)
  ultimately show "fn_wf if_fn [[0, 1], [2], [3]]" by (auto simp: fn_wf_def if_parts NY_INVALID_def)
  show "ops_wf if_fn" unfolding ops_wf_def if_live by (auto simp: if_parts mk_inst_def dest!: less_four)
  show "ssa if_fn" unfolding ssa_def if_live by (auto simp: if_parts mk_inst_def NY_INVALID_def dest!: less_four)
  show "plain_fn if_fn" unfolding plain_fn_def if_live by (auto simp: if_parts dest!: less_four)
  show "results_recorded if_fn" unfolding results_recorded_def if_live Let_def by (auto simp: if_parts mk_inst_def NY_INVALID_def dest!: less_four)
qed

theorem sccp_terminates_witness:
  "\<exists>ud s0 s. ny_use_def_init (\<lambda>i. (0, 0)) if_fn = Some ud \<and> sccp_start if_fn = Some s0 \<and> sccp_loop sample_fpu if_fn ud s0 = Some s
     \<and> sc_lat s ! 0 = Lat_Int 1 \<and> (0, 1) \<in> set (sc_edges s) \<and> (0, 2) \<notin> set (sc_edges s)"
proof -
  have "live_insts if_fn = [0, Suc 0, 2, 3]" by (simp add: live_insts_def if_parts if_live upt_rec[of _ 4])
  moreover have "inst_uses if_fn 1 0 = []" "inst_uses if_fn 1 (Suc 0) = [(0, 0)]" "inst_uses if_fn 1 2 = []" "inst_uses if_fn 1 3 = []"
    by (simp_all add: inst_uses_def if_parts mk_inst_def List.map_filter_simps upt_rec[of _ 3])
  ultimately have u: "length (use_events if_fn) < 4294967296" by (simp add: use_events_def if_parts)
  have "i_opcode (f_insts if_fn ! i) \<notin> unsafe_ops" if "live if_fn i" for i
    using less_four[of i] that unfolding if_live by (auto simp: if_parts mk_inst_def unsafe_ops_def)
  then obtain ud s0 s where s: "ny_use_def_init (\<lambda>i. (0, 0)) if_fn = Some ud" "sccp_start if_fn = Some s0" "sccp_loop sample_fpu if_fn ud s0 = Some s"
      "sccp_solution sample_fpu if_fn [[0, 1], [2], [3]] s"
    using sccp_terminates[OF if_wf, where fresh = "\<lambda>i. (0, 0)" and h = sample_fpu] u by (auto simp: if_parts NY_INVALID_def)
  have n: "length (sc_lat s) = 1" using s(4) by (simp add: sccp_solution_def if_parts)
  note S = s(4)[unfolded sccp_solution_def if_parts, THEN conjunct2]
  have e: "sc_exec s ! 0" using S by auto
  have "eval_instruction sample_fpu if_fn (f_insts if_fn ! 0) (sc_lat s) (sc_edges s) = Some (sc_lat s ! i_result (f_insts if_fn ! 0))"
    using S[THEN conjunct2, THEN conjunct2, rule_format, of 0 0] e by (simp add: if_parts mk_inst_def NY_INVALID_def)
  moreover have "eval_const if_fn (f_insts if_fn ! 0) = Some (Lat_Int 1)"
    using eval_const_ops[OF if_wf(2), of 0] by (simp add: if_live if_parts mk_inst_def)
  ultimately have l: "sc_lat s ! 0 = Lat_Int 1" by (simp add: eval_instruction_def if_parts mk_inst_def)
  have "block_targets if_fn [[0, 1], [2], [3]] 0 (sc_lat s) = [1]"
    using l by (simp add: block_targets_def term_targets_def Let_def if_parts mk_inst_def get_operand_lat_def branch_targets_def n)
  then show ?thesis using s(1-3) l e S by (intro exI[of _ ud] exI[of _ s0] exI[of _ s]) auto
qed

end
