(* ===== verification/Analysis_Cache.thy ===== *)
theory Analysis_Cache
  imports Use_Def Cfg Liveness Dominator
begin

text \<open>
  The cache of analyses, \<^verbatim>\<open>src/analysis/manager.c\<close>.  An analysis is an option, \<open>None\<close> when its valid flag is off.  The
  manager points to a function that the passes change in place, so the function it points to is an argument of the
  getters; what fresh memory holds (\<open>fu\<close> for the uses, \<open>fd\<close> for the dominator tree) is an argument too.
\<close>

record ny_analysis_manager =
  am_cfg :: "ny_cfg_info option"
  am_dom :: "ny_dominator_tree option"
  am_use_def :: "ny_use_def option"
  am_liveness :: "ny_liveness_info option"

definition ny_analysis_manager_init :: ny_analysis_manager where
  "ny_analysis_manager_init = \<lparr>am_cfg = None, am_dom = None, am_use_def = None, am_liveness = None\<rparr>"

definition ny_analysis_invalidate_all :: "ny_analysis_manager \<Rightarrow> ny_analysis_manager" where
  "ny_analysis_invalidate_all am = am\<lparr>am_cfg := None, am_dom := None, am_use_def := None, am_liveness := None\<rparr>"

definition ny_analysis_manager_destroy :: "ny_analysis_manager \<Rightarrow> ny_analysis_manager" where
  "ny_analysis_manager_destroy am = ny_analysis_invalidate_all am"

definition ny_analysis_manager_set_function :: "ny_analysis_manager \<Rightarrow> ny_analysis_manager" where
  "ny_analysis_manager_set_function am = ny_analysis_invalidate_all am"

definition ny_analysis_invalidate_cfg :: "ny_analysis_manager \<Rightarrow> ny_analysis_manager" where
  "ny_analysis_invalidate_cfg am = am\<lparr>am_cfg := None, am_dom := None, am_liveness := None\<rparr>"

definition ny_analysis_invalidate_dom :: "ny_analysis_manager \<Rightarrow> ny_analysis_manager" where
  "ny_analysis_invalidate_dom am = am\<lparr>am_dom := None\<rparr>"

definition ny_analysis_invalidate_use_def :: "ny_analysis_manager \<Rightarrow> ny_analysis_manager" where
  "ny_analysis_invalidate_use_def am = am\<lparr>am_use_def := None, am_liveness := None\<rparr>"

definition ny_analysis_invalidate_liveness :: "ny_analysis_manager \<Rightarrow> ny_analysis_manager" where
  "ny_analysis_invalidate_liveness am = am\<lparr>am_liveness := None\<rparr>"

definition ny_analysis_get_cfg :: "ny_function \<Rightarrow> ny_analysis_manager \<Rightarrow> (ny_cfg_info \<times> ny_analysis_manager) option" where
  "ny_analysis_get_cfg fn am = (case am_cfg am of
       Some x \<Rightarrow> Some (x, am)
     | None \<Rightarrow> do { x \<leftarrow> ny_cfg_info_init fn; Some (x, am\<lparr>am_cfg := Some x\<rparr>) })"

definition ny_analysis_get_dom ::
  "(nat \<Rightarrow> nat) \<Rightarrow> ny_function \<Rightarrow> ny_analysis_manager \<Rightarrow> (ny_dominator_tree \<times> ny_analysis_manager) option" where
  "ny_analysis_get_dom fd fn am = (case am_dom am of
       Some x \<Rightarrow> Some (x, am)
     | None \<Rightarrow> do { x \<leftarrow> ny_dominator_tree_init fd fn; Some (x, am\<lparr>am_dom := Some x\<rparr>) })"

definition ny_analysis_get_use_def ::
  "(nat \<Rightarrow> nat \<times> nat) \<Rightarrow> ny_function \<Rightarrow> ny_analysis_manager \<Rightarrow> (ny_use_def \<times> ny_analysis_manager) option" where
  "ny_analysis_get_use_def fu fn am = (case am_use_def am of
       Some x \<Rightarrow> Some (x, am)
     | None \<Rightarrow> do { x \<leftarrow> ny_use_def_init fu fn; Some (x, am\<lparr>am_use_def := Some x\<rparr>) })"

definition ny_analysis_get_liveness :: "ny_function \<Rightarrow> ny_analysis_manager \<Rightarrow> (ny_liveness_info \<times> ny_analysis_manager) option" where
  "ny_analysis_get_liveness fn am = (case am_liveness am of
       Some x \<Rightarrow> Some (x, am)
     | None \<Rightarrow> do { x \<leftarrow> ny_liveness_init fn; Some (x, am\<lparr>am_liveness := Some x\<rparr>) })"

end
