(* ===== verification/Canonicalize.thy ===== *)
theory Canonicalize
  imports Fold Module
begin

text \<open>
  Canonicalisation, \<^verbatim>\<open>src/opt/canonicalize.c\<close>: operand order, algebraic identities and casts that change nothing, then
  the graph: dead instructions after a terminator, branches with one target, phis of one value, unreachable blocks and
  chains of blocks.  A step returns the function and whether it changed.
\<close>

subsection \<open>Instructions\<close>

definition is_const_zero :: "ny_function \<Rightarrow> ny_operand \<Rightarrow> bool option" where
  "is_const_zero fn op = do {
     v \<leftarrow> ny_opt_get_operand_const_int fn op;
     Some (v = Some 0 \<or> (case op of OpFloat w \<Rightarrow> f_eq w 0 | _ \<Rightarrow> False))
   }"

definition is_const_one :: "ny_function \<Rightarrow> ny_operand \<Rightarrow> bool option" where
  "is_const_one fn op = do {
     v \<leftarrow> ny_opt_get_operand_const_int fn op;
     Some (v = Some 1 \<or> (case op of OpFloat w \<Rightarrow> f_eq w 0x3FF0000000000000 | _ \<Rightarrow> False))
   }"

fun swapped_cmp :: "ny_opcode \<Rightarrow> ny_opcode option" where
  "swapped_cmp NY_OPCODE_CMP_GT_S = Some NY_OPCODE_CMP_LT_S"
| "swapped_cmp NY_OPCODE_CMP_GT_U = Some NY_OPCODE_CMP_LT_U"
| "swapped_cmp NY_OPCODE_CMP_GE_S = Some NY_OPCODE_CMP_LE_S"
| "swapped_cmp NY_OPCODE_CMP_GE_U = Some NY_OPCODE_CMP_LE_U"
| "swapped_cmp NY_OPCODE_FCMP_GT = Some NY_OPCODE_FCMP_LT"
| "swapped_cmp NY_OPCODE_FCMP_GE = Some NY_OPCODE_FCMP_LE"
| "swapped_cmp _ = None"

definition put_operands :: "ny_function \<Rightarrow> nat \<Rightarrow> ny_operand \<Rightarrow> ny_operand \<Rightarrow> ny_function" where
  "put_operands fn i a b = ny_instruction_replace_operand (ny_instruction_replace_operand fn i 0 a) i 1 b"

definition canon_cmp :: "ny_function \<Rightarrow> nat \<Rightarrow> (ny_function \<times> bool) option" where
  "canon_cmp fn i = do {
     inst \<leftarrow> rd (f_insts fn) i;
     (case swapped_cmp (i_opcode inst) of
        None \<Rightarrow> Some (fn, False)
      | Some opc \<Rightarrow> do {
          fn \<leftarrow> upd_inst fn i (\<lambda>i. i\<lparr>i_opcode := opc\<rparr>);
          if i_op_count inst = 2 then do {
            a \<leftarrow> op_at fn (ny_function_get_operands fn inst) 0;
            b \<leftarrow> op_at fn (ny_function_get_operands fn inst) 1;
            Some (put_operands fn (i_id inst) b a, True)
          }
          else Some (fn, False)
        })
   }"

definition should_swap :: "ny_function \<Rightarrow> ny_operand \<Rightarrow> ny_operand \<Rightarrow> bool option" where
  "should_swap fn op0 op1 = (case (op0, op1) of
       (OpInt _, OpValue _) \<Rightarrow> Some True
     | (OpFloat _, OpValue _) \<Rightarrow> Some True
     | (OpValue v0, OpValue v1) \<Rightarrow> do {
         c0 \<leftarrow> ny_opt_get_operand_const_int fn op0;
         c1 \<leftarrow> ny_opt_get_operand_const_int fn op1;
         Some (c0 \<noteq> None \<and> c1 = None \<or> c0 = None \<and> c1 = None \<and> v0 > v1)
       }
     | _ \<Rightarrow> Some False)"

definition canon_commute :: "ny_function \<Rightarrow> nat \<Rightarrow> (ny_function \<times> bool) option" where
  "canon_commute fn i = do {
     inst \<leftarrow> rd (f_insts fn) i;
     if ny_opt_is_commutative (i_opcode inst) \<and> i_op_count inst = 2 then do {
       op0 \<leftarrow> op_at fn (ny_function_get_operands fn inst) 0;
       op1 \<leftarrow> op_at fn (ny_function_get_operands fn inst) 1;
       swap \<leftarrow> should_swap fn op0 op1;
       Some (if swap then (put_operands fn (i_id inst) op1 op0, True) else (fn, False))
     }
     else Some (fn, False)
   }"

text \<open>The instruction goes and its result is replaced, or it becomes the constant 0.  \<open>None\<close> inside: the identity does not apply.\<close>

definition replace_by :: "ny_function \<Rightarrow> ny_instruction \<Rightarrow> nat \<Rightarrow> ny_function option option" where
  "replace_by fn inst v = map_option Some (ny_function_remove_instruction (ny_function_replace_all_uses fn (i_result inst) v) (i_id inst))"

definition make_zero :: "ny_function \<Rightarrow> nat \<Rightarrow> ny_instruction \<Rightarrow> ny_function option option" where
  "make_zero fn i inst = do {
     fn \<leftarrow> upd_inst fn i (\<lambda>i. i\<lparr>i_opcode := NY_OPCODE_CONST\<rparr>);
     map_option Some (upd_inst (ny_instruction_replace_operand fn (i_id inst) 0 (OpInt 0)) i (\<lambda>i. i\<lparr>i_op_count := 1\<rparr>))
   }"

definition canon_identity :: "ny_function \<Rightarrow> nat \<Rightarrow> ny_function option option" where
  "canon_identity fn i = do {
     inst \<leftarrow> rd (f_insts fn) i;
     if i_result inst \<noteq> NY_INVALID_VALUE \<and> i_op_count inst = 2 then do {
       op0 \<leftarrow> op_at fn (ny_function_get_operands fn inst) 0;
       op1 \<leftarrow> op_at fn (ny_function_get_operands fn inst) 1;
       (case op0 of
          OpValue v \<Rightarrow>
            (if i_opcode inst \<in> {NY_OPCODE_ADD, NY_OPCODE_SUB, NY_OPCODE_OR} then do {
               z \<leftarrow> is_const_zero fn op1;
               if z then replace_by fn inst v
               else if i_opcode inst = NY_OPCODE_SUB \<and> op1 = OpValue v then make_zero fn i inst else Some None
             }
             else if i_opcode inst = NY_OPCODE_MUL then do { u \<leftarrow> is_const_one fn op1; if u then replace_by fn inst v else Some None }
             else if i_opcode inst = NY_OPCODE_XOR \<and> op1 = OpValue v then make_zero fn i inst
             else Some None)
        | _ \<Rightarrow> Some None)
     }
     else Some None
   }"

definition canon_cast :: "ny_function \<Rightarrow> nat \<Rightarrow> ny_function option option" where
  "canon_cast fn i = do {
     inst \<leftarrow> rd (f_insts fn) i;
     if i_opcode inst \<in> {NY_OPCODE_CAST, NY_OPCODE_BITCAST, NY_OPCODE_SEXT, NY_OPCODE_ZEXT, NY_OPCODE_EXTEND, NY_OPCODE_TRUNCATE}
       \<and> i_result inst \<noteq> NY_INVALID_VALUE \<and> i_op_count inst = 1
     then do {
       op0 \<leftarrow> op_at fn (ny_function_get_operands fn inst) 0;
       (case op0 of
          OpValue v \<Rightarrow> do {
            res \<leftarrow> rd (f_values fn) (i_result inst);
            src \<leftarrow> rd (f_values fn) v;
            if v_type res = v_type src then replace_by fn inst v else Some None
          }
        | _ \<Rightarrow> Some None)
     }
     else Some None
   }"

definition canon_inst :: "ny_function \<times> bool \<Rightarrow> nat \<Rightarrow> (ny_function \<times> bool) option" where
  "canon_inst = (\<lambda>(fn, changed) i. do {
     inst \<leftarrow> rd (f_insts fn) i;
     if i_opcode inst = NY_OPCODE_NONE then Some (fn, changed)
     else do {
       (fn, c1) \<leftarrow> canon_cmp fn i;
       (fn, c2) \<leftarrow> canon_commute fn i;
       r \<leftarrow> canon_identity fn i;
       (case r of
          Some fn' \<Rightarrow> Some (fn', True)
        | None \<Rightarrow> do {
            r \<leftarrow> canon_cast fn i;
            Some (case r of Some fn' \<Rightarrow> (fn', True) | None \<Rightarrow> (fn, changed \<or> c1 \<or> c2))
          })
     }
   })"

definition ny_canonicalize_instructions :: "ny_function \<Rightarrow> (ny_function \<times> bool) option" where
  "ny_canonicalize_instructions fn = foldM canon_inst (fn, False) [0..<length (f_insts fn)]"

subsection \<open>The graph\<close>

text \<open>
  A block is cut after its first terminator.  The walk over the dead instructions reads the link of each before it
  removes it, as \<open>remove_insts_from\<close> does.
\<close>

partial_function (option) cut_block :: "ny_function \<Rightarrow> nat \<Rightarrow> nat \<Rightarrow> (ny_function \<times> bool) option" where
  "cut_block fn b cur =
     (if cur = NY_INVALID_INST then Some (fn, False)
      else case ny_function_get_instruction fn cur of
        None \<Rightarrow> Some (fn, False)
      | Some inst \<Rightarrow>
          if ny_opcode_is_terminator (i_opcode inst) then do {
            fn \<leftarrow> remove_insts_from fn (i_next inst);
            fn \<leftarrow> upd_block fn b (\<lambda>b. b\<lparr>b_last := cur\<rparr>);
            fn \<leftarrow> upd_inst fn cur (\<lambda>i. i\<lparr>i_next := NY_INVALID_INST\<rparr>);
            Some (fn, i_next inst \<noteq> NY_INVALID_INST)
          }
          else cut_block fn b (i_next inst))"

definition canon_cut :: "ny_function \<times> bool \<Rightarrow> nat \<Rightarrow> (ny_function \<times> bool) option" where
  "canon_cut = (\<lambda>(fn, changed) b. do {
     blk \<leftarrow> rd (f_blocks fn) b;
     (fn, c) \<leftarrow> cut_block fn b (b_first blk);
     Some (fn, changed \<or> c)
   })"

text \<open>A terminator becomes the branch to one target; it keeps the slot of its operands and its count drops to one.\<close>

definition make_branch :: "ny_function \<Rightarrow> nat \<Rightarrow> nat \<Rightarrow> ny_function option" where
  "make_branch fn i target = do {
     term \<leftarrow> rd (f_insts fn) i;
     fn \<leftarrow> upd_inst fn i (\<lambda>i. i\<lparr>i_opcode := NY_OPCODE_BRANCH\<rparr>);
     upd_inst (ny_instruction_replace_operand fn (i_id term) 0 (OpBlock target)) i (\<lambda>i. i\<lparr>i_op_count := 1\<rparr>)
   }"

text \<open>The occurrences of \<open>x\<close> after the first are replaced by the last element, which is then looked at in their place.\<close>

function keep_one :: "nat \<Rightarrow> bool \<Rightarrow> nat \<Rightarrow> nat list \<Rightarrow> nat list" where
  "keep_one x seen i xs =
     (if i \<ge> length xs then xs
      else if xs ! i \<noteq> x then keep_one x seen (i + 1) xs
      else if \<not> seen then keep_one x True (i + 1) xs
      else keep_one x True i (swap_remove xs i))"
  by pat_completeness auto
termination by (relation "measure (\<lambda>(x, seen, i, xs). length xs - i)") (auto simp: swap_remove_def)

declare keep_one.simps [simp del]

definition join_targets :: "ny_function \<Rightarrow> nat \<Rightarrow> nat \<Rightarrow> nat \<Rightarrow> nat \<Rightarrow> ny_function option" where
  "join_targets fn b self i target = do {
     fn \<leftarrow> make_branch fn i target;
     fn \<leftarrow> upd_block fn b (\<lambda>blk. if length (b_succs blk) > 1 then blk\<lparr>b_succs := [target]\<rparr> else blk);
     if target < length (f_blocks fn) then upd_block fn target (\<lambda>t. t\<lparr>b_preds := keep_one self False 0 (b_preds t)\<rparr>)
     else Some fn
   }"

text \<open>The two targets of a conditional branch in the form the code looks for: three operands, two of them blocks.\<close>

definition branch_if_targets :: "ny_function \<Rightarrow> ny_instruction \<Rightarrow> (nat \<times> nat) option option" where
  "branch_if_targets fn term =
     (if i_opcode term = NY_OPCODE_BRANCH_IF \<and> i_op_count term = 3 then do {
        t \<leftarrow> op_at fn (ny_function_get_operands fn term) 1;
        f \<leftarrow> op_at fn (ny_function_get_operands fn term) 2;
        Some (case (t, f) of (OpBlock t, OpBlock f) \<Rightarrow> Some (t, f) | _ \<Rightarrow> None)
      }
      else Some None)"

definition canon_branch :: "ny_function \<times> bool \<Rightarrow> nat \<Rightarrow> (ny_function \<times> bool) option" where
  "canon_branch = (\<lambda>(fn, changed) b. do {
     blk \<leftarrow> rd (f_blocks fn) b;
     (case (if b_last blk = NY_INVALID_INST then None else ny_function_get_instruction fn (b_last blk)) of
        None \<Rightarrow> Some (fn, changed)
      | Some term \<Rightarrow> do {
          ts \<leftarrow> branch_if_targets fn term;
          (case ts of
             Some (t, f) \<Rightarrow>
               if t = f then do { fn \<leftarrow> join_targets fn b (b_id blk) (b_last blk) t; Some (fn, True) } else Some (fn, changed)
           | None \<Rightarrow> Some (fn, changed))
        })
   })"

text \<open>
  The member \<^verbatim>\<open>val\<close> of the union, whatever the kind: the 32-bit ids share its bytes, and of an immediate it is the low
  half on the little-endian hosts of the project.  The bytes of an operand without a kind are not known.
\<close>

fun op_val :: "ny_operand \<Rightarrow> nat option" where
  "op_val OpNone = None"
| "op_val (OpValue v) = Some v"
| "op_val (OpBlock b) = Some b"
| "op_val (OpInt w) = Some (u32 (unat w))"
| "op_val (OpFloat w) = Some (u32 (unat w))"
| "op_val (OpFunction f) = Some f"
| "op_val (OpSymbol s) = Some s"
| "op_val (OpGlobal g) = Some g"
| "op_val (OpType t) = Some t"

definition even_from_2 :: "nat \<Rightarrow> nat list" where
  "even_from_2 n = map (\<lambda>k. 2 * k) [1..<(n + 1) div 2]"

definition phi_all_same :: "ny_function \<Rightarrow> ny_instruction \<Rightarrow> nat \<Rightarrow> bool option" where
  "phi_all_same fn inst first_val = foldM (\<lambda>same i. do {
       op \<leftarrow> op_at fn (ny_function_get_operands fn inst) i;
       Some (same \<and> (case op of OpValue v \<Rightarrow> v = first_val | _ \<Rightarrow> True))
     }) True (even_from_2 (i_op_count inst))"

definition canon_phi :: "ny_function \<Rightarrow> ny_instruction \<Rightarrow> (ny_function \<times> bool) option" where
  "canon_phi fn inst =
     (if i_opcode inst = NY_OPCODE_PHI \<and> i_result inst \<noteq> NY_INVALID_VALUE \<and> i_op_count inst \<ge> 2 then do {
        op0 \<leftarrow> op_at fn (ny_function_get_operands fn inst) 0;
        first_val \<leftarrow> op_val op0;
        same \<leftarrow> phi_all_same fn inst first_val;
        if same then do {
          fn \<leftarrow> ny_function_remove_instruction (ny_function_replace_all_uses fn (i_result inst) first_val) (i_id inst);
          Some (fn, True)
        }
        else Some (fn, False)
      }
      else Some (fn, False))"

partial_function (option) canon_phis :: "nat \<Rightarrow> ny_function \<times> bool \<Rightarrow> (ny_function \<times> bool) option" where
  "canon_phis cur s = (case s of (fn, changed) \<Rightarrow>
     (if cur = NY_INVALID_INST then Some (fn, changed)
      else case ny_function_get_instruction fn cur of
        None \<Rightarrow> Some (fn, changed)
      | Some inst \<Rightarrow> do {
          (fn, c) \<leftarrow> canon_phi fn inst;
          canon_phis (i_next inst) (fn, changed \<or> c)
        }))"

subsection \<open>Reachable blocks\<close>

text \<open>The breadth-first search of this file and of \<^verbatim>\<open>src/opt/cfg_simplify.c\<close>.\<close>

definition reach_succ :: "bool list \<times> nat list \<Rightarrow> nat \<Rightarrow> bool list \<times> nat list" where
  "reach_succ = (\<lambda>(reachable, queue) s.
     if s < length reachable \<and> \<not> reachable ! s then (reachable[s := True], queue @ [s]) else (reachable, queue))"

partial_function (option) reach_loop :: "ny_function \<Rightarrow> bool list \<Rightarrow> nat list \<Rightarrow> bool list option" where
  "reach_loop fn reachable queue = (case queue of
       [] \<Rightarrow> Some reachable
     | cur # queue \<Rightarrow>
         (case ny_function_get_block fn cur of
            None \<Rightarrow> reach_loop fn reachable queue
          | Some blk \<Rightarrow> (case foldl reach_succ (reachable, queue) (b_succs blk) of (r, q) \<Rightarrow> reach_loop fn r q)))"

definition reach_blocks :: "ny_function \<Rightarrow> bool list option" where
  "reach_blocks fn = do {
     reachable \<leftarrow> wr (replicate (length (f_blocks fn)) False) (f_entry fn) True;
     reach_loop fn reachable [f_entry fn]
   }"

definition in_use :: "ny_block \<Rightarrow> bool" where
  "in_use blk \<longleftrightarrow> b_inst_count blk > 0 \<or> b_succs blk \<noteq> [] \<or> b_preds blk \<noteq> []"

definition canon_drop :: "bool list \<Rightarrow> ny_function \<times> bool \<Rightarrow> nat \<Rightarrow> (ny_function \<times> bool) option" where
  "canon_drop reachable = (\<lambda>(fn, changed) b.
     if b = f_entry fn then Some (fn, changed)
     else do {
       r \<leftarrow> rd reachable b;
       if r then Some (fn, changed)
       else do {
         blk \<leftarrow> rd (f_blocks fn) b;
         if in_use blk then do { fn \<leftarrow> ny_function_remove_block fn b; Some (fn, True) } else Some (fn, changed)
       }
     })"

definition canon_unreachable :: "ny_function \<times> bool \<Rightarrow> (ny_function \<times> bool) option" where
  "canon_unreachable = (\<lambda>(fn, changed).
     if f_entry fn \<noteq> NY_INVALID_BLOCK \<and> length (f_blocks fn) > 1 then do {
       reachable \<leftarrow> reach_blocks fn;
       foldM (canon_drop reachable) (fn, changed) [0..<length (f_blocks fn)]
     }
     else Some (fn, changed))"

definition canon_merge :: "ny_function \<times> bool \<Rightarrow> nat \<Rightarrow> (ny_function \<times> bool) option" where
  "canon_merge = (\<lambda>(fn, changed) b.
     (case ny_function_get_block fn b of
        None \<Rightarrow> Some (fn, changed)
      | Some blk \<Rightarrow>
          (case b_succs blk of
             [s] \<Rightarrow> if b_inst_count blk = 0 \<or> s = b then Some (fn, changed)
                    else do { (fn, c) \<leftarrow> ny_function_merge_blocks fn b s; Some (fn, changed \<or> c) }
           | _ \<Rightarrow> Some (fn, changed))))"

definition ny_canonicalize_cfg :: "ny_function \<Rightarrow> (ny_function \<times> bool) option" where
  "ny_canonicalize_cfg fn = do {
     let ids = [0..<length (f_blocks fn)];
     s \<leftarrow> foldM canon_cut (fn, False) ids;
     s \<leftarrow> foldM canon_branch s ids;
     s \<leftarrow> foldM (\<lambda>(fn, changed) b. do { blk \<leftarrow> rd (f_blocks fn) b; canon_phis (b_first blk) (fn, changed) }) s ids;
     s \<leftarrow> canon_unreachable s;
     foldM canon_merge s ids
   }"

subsection \<open>Passes\<close>

fun canon_passes :: "nat \<Rightarrow> ny_function \<times> bool \<Rightarrow> (ny_function \<times> bool) option" where
  "canon_passes 0 s = Some s"
| "canon_passes (Suc n) (fn, changed_any) = do {
     (fn, c1) \<leftarrow> ny_canonicalize_instructions fn;
     (fn, c2) \<leftarrow> ny_canonicalize_cfg fn;
     if \<not> c1 \<and> \<not> c2 then Some (fn, changed_any) else canon_passes n (fn, True)
   }"

definition ny_canonicalize_function :: "ny_function \<Rightarrow> (ny_function \<times> bool) option" where
  "ny_canonicalize_function fn = canon_passes 4 (fn, False)"

definition ny_canonicalize_module :: "ny_module \<Rightarrow> (ny_module \<times> bool) option" where
  "ny_canonicalize_module md = foldM (\<lambda>(md, changed) i. do {
       fn \<leftarrow> rd (m_functions md) i;
       (fn, c) \<leftarrow> ny_canonicalize_function fn;
       Some (md\<lparr>m_functions := (m_functions md)[i := fn]\<rparr>, changed \<or> c)
     }) (md, False) [0..<length (m_functions md)]"

end
