(* ===== verification/Cfg_Simplify.thy ===== *)
theory Cfg_Simplify
  imports Canonicalize
begin

text \<open>
  Simplification of the graph, \<^verbatim>\<open>src/opt/cfg_simplify.c\<close>: branches on constants, phis with one predecessor, blocks that only
  jump, chains of blocks and unreachable blocks.  A step returns the function and whether it changed.  The caller's cache of
  analyses is dealt with in Pipeline.
\<close>

subsection \<open>Branches\<close>

definition cs_branch :: "ny_function \<times> bool \<Rightarrow> nat \<Rightarrow> (ny_function \<times> bool) option" where
  "cs_branch = (\<lambda>(fn, changed) b. do {
     blk \<leftarrow> rd (f_blocks fn) b;
     (case (if b_last blk = NY_INVALID_INST then None else ny_function_get_instruction fn (b_last blk)) of
        None \<Rightarrow> Some (fn, changed)
      | Some term \<Rightarrow> do {
          ts \<leftarrow> branch_if_targets fn term;
          (case ts of
             None \<Rightarrow> Some (fn, changed)
           | Some (true_blk, false_blk) \<Rightarrow>
               if true_blk = false_blk then do { fn \<leftarrow> join_targets fn b b (b_last blk) true_blk; Some (fn, True) }
               else do {
                 op0 \<leftarrow> op_at fn (ny_function_get_operands fn term) 0;
                 c \<leftarrow> ny_opt_get_operand_const_int fn op0;
                 (case c of
                    None \<Rightarrow> Some (fn, changed)
                  | Some c_val \<Rightarrow> do {
                      let taken = (if c_val \<noteq> 0 then true_blk else false_blk);
                      let dead = (if c_val \<noteq> 0 then false_blk else true_blk);
                      fn \<leftarrow> make_branch fn (b_last blk) taken;
                      fn \<leftarrow> (if dead < length (f_blocks fn)
                             then do { fn \<leftarrow> ny_block_remove_edge fn b dead; ny_function_remove_phi_incoming fn dead b }
                             else Some fn);
                      Some (fn, True)
                    })
               })
        })
   })"

subsection \<open>Phis with one predecessor\<close>

partial_function (option) cs_phis :: "nat \<Rightarrow> ny_function \<times> bool \<Rightarrow> (ny_function \<times> bool) option" where
  "cs_phis cur s = (case s of (fn, changed) \<Rightarrow>
     (if cur = NY_INVALID_INST then Some (fn, changed)
      else case ny_function_get_instruction fn cur of
        None \<Rightarrow> Some (fn, changed)
      | Some inst \<Rightarrow>
          if i_opcode inst \<noteq> NY_OPCODE_PHI then Some (fn, changed)
          else if i_op_count inst < 2 then cs_phis (i_next inst) (fn, changed)
          else do {
            op0 \<leftarrow> op_at fn (ny_function_get_operands fn inst) 0;
            (case op0 of
               OpValue v \<Rightarrow> do {
                 fn \<leftarrow> ny_function_remove_instruction (ny_function_replace_all_uses fn (i_result inst) v) (i_id inst);
                 cs_phis (i_next inst) (fn, True)
               }
             | _ \<Rightarrow> cs_phis (i_next inst) (fn, changed))
          }))"

definition cs_single_pred :: "ny_function \<times> bool \<Rightarrow> nat \<Rightarrow> (ny_function \<times> bool) option" where
  "cs_single_pred = (\<lambda>(fn, changed) b. do {
     blk \<leftarrow> rd (f_blocks fn) b;
     if length (b_preds blk) = 1 then cs_phis (b_first blk) (fn, changed) else Some (fn, changed)
   })"

subsection \<open>Blocks that only jump\<close>

definition retarget :: "nat \<Rightarrow> nat \<Rightarrow> ny_instruction \<Rightarrow> nat list \<Rightarrow> ny_function \<Rightarrow> ny_function option" where
  "retarget old new inst idxs fn = foldM (\<lambda>fn k. do {
       op \<leftarrow> op_at fn (ny_function_get_operands fn inst) k;
       Some (if op = OpBlock old then ny_instruction_replace_operand fn (i_id inst) k (OpBlock new) else fn)
     }) fn idxs"

definition odd_below :: "nat \<Rightarrow> nat list" where
  "odd_below n = map (\<lambda>k. 2 * k + 1) [0..<n div 2]"

partial_function (option) forward_phis :: "nat \<Rightarrow> nat \<Rightarrow> nat \<Rightarrow> ny_function \<Rightarrow> ny_function option" where
  "forward_phis b pred phi_id fn =
     (if phi_id = NY_INVALID_INST then Some fn
      else case ny_function_get_instruction fn phi_id of
        None \<Rightarrow> Some fn
      | Some inst \<Rightarrow>
          if i_opcode inst \<noteq> NY_OPCODE_PHI then Some fn
          else do {
            fn \<leftarrow> retarget b pred inst (odd_below (i_op_count inst)) fn;
            forward_phis b pred (i_next inst) fn
          })"

definition forward_pred :: "nat \<Rightarrow> nat \<Rightarrow> ny_function \<Rightarrow> nat \<Rightarrow> ny_function option" where
  "forward_pred b target fn pred = do {
     pred_blk \<leftarrow> rd (f_blocks fn) pred;
     fn \<leftarrow> (case ny_function_get_instruction fn (b_last pred_blk) of
              None \<Rightarrow> Some fn
            | Some p_term \<Rightarrow> retarget b target p_term [0..<i_op_count p_term] fn);
     fn \<leftarrow> ny_block_remove_edge fn pred b;
     fn \<leftarrow> ny_block_add_edge fn pred target;
     target_blk \<leftarrow> rd (f_blocks fn) target;
     forward_phis b pred (b_first target_blk) fn
   }"

partial_function (option) forward_loop :: "nat \<Rightarrow> nat \<Rightarrow> ny_function \<times> bool \<Rightarrow> (ny_function \<times> bool) option" where
  "forward_loop b target s = (case s of (fn, changed) \<Rightarrow> do {
     blk \<leftarrow> rd (f_blocks fn) b;
     (case b_preds blk of
        [] \<Rightarrow> Some (fn, changed)
      | pred # _ \<Rightarrow>
          if pred < length (f_blocks fn)
          then do { fn \<leftarrow> forward_pred b target fn pred; forward_loop b target (fn, True) }
          else Some (fn, changed))
   })"

definition cs_forward :: "ny_function \<times> bool \<Rightarrow> nat \<Rightarrow> (ny_function \<times> bool) option" where
  "cs_forward = (\<lambda>(fn, changed) b. do {
     blk \<leftarrow> rd (f_blocks fn) b;
     if b = f_entry fn \<or> b_inst_count blk \<noteq> 1 \<or> b_first blk = NY_INVALID_INST then Some (fn, changed)
     else case ny_function_get_instruction fn (b_first blk) of
         None \<Rightarrow> Some (fn, changed)
       | Some term \<Rightarrow>
           if i_opcode term \<noteq> NY_OPCODE_BRANCH \<or> i_op_count term \<noteq> 1 then Some (fn, changed)
           else do {
             op0 \<leftarrow> op_at fn (ny_function_get_operands fn term) 0;
             (case op0 of
                OpBlock target \<Rightarrow>
                  if target = b \<or> \<not> target < length (f_blocks fn) then Some (fn, changed)
                  else forward_loop b target (fn, changed)
              | _ \<Rightarrow> Some (fn, changed))
           }
   })"

subsection \<open>Chains and unreachable blocks\<close>

definition cs_merge :: "ny_function \<times> bool \<Rightarrow> nat \<Rightarrow> (ny_function \<times> bool) option" where
  "cs_merge = (\<lambda>(fn, changed) b. do {
     blk \<leftarrow> rd (f_blocks fn) b;
     (case b_succs blk of
        [s] \<Rightarrow>
          if b_inst_count blk = 0 \<or> s = b \<or> s = f_entry fn then Some (fn, changed)
          else (case ny_function_get_block fn s of
              None \<Rightarrow> Some (fn, changed)
            | Some succ_blk \<Rightarrow>
                if length (b_preds succ_blk) = 1
                then do { (fn, c) \<leftarrow> ny_function_merge_blocks fn b s; Some (fn, changed \<or> c) }
                else Some (fn, changed))
      | _ \<Rightarrow> Some (fn, changed))
   })"

text \<open>The index moves on although the removal of an edge has put the last successor in its place.\<close>

partial_function (option) detach_succs :: "nat \<Rightarrow> nat \<Rightarrow> ny_function \<Rightarrow> ny_function option" where
  "detach_succs b s_idx fn = do {
     blk \<leftarrow> rd (f_blocks fn) b;
     if s_idx < length (b_succs blk) then do {
       let s = b_succs blk ! s_idx;
       fn \<leftarrow> (if s < length (f_blocks fn)
              then do { fn \<leftarrow> ny_block_remove_edge fn b s; ny_function_remove_phi_incoming fn s b } else Some fn);
       detach_succs b (s_idx + 1) fn
     }
     else Some fn
   }"

definition cs_drop :: "bool list \<Rightarrow> ny_function \<times> bool \<Rightarrow> nat \<Rightarrow> (ny_function \<times> bool) option" where
  "cs_drop reachable = (\<lambda>(fn, changed) b.
     if b = f_entry fn then Some (fn, changed)
     else do {
       r \<leftarrow> rd reachable b;
       if r then Some (fn, changed)
       else do {
         blk \<leftarrow> rd (f_blocks fn) b;
         if in_use blk then do {
           fn \<leftarrow> detach_succs b 0 fn;
           fn \<leftarrow> ny_function_remove_block fn b;
           Some (fn, True)
         }
         else Some (fn, changed)
       }
     })"

definition cs_unreachable :: "ny_function \<times> bool \<Rightarrow> (ny_function \<times> bool) option" where
  "cs_unreachable = (\<lambda>(fn, changed).
     if f_entry fn \<noteq> NY_INVALID_BLOCK \<and> length (f_blocks fn) > 1 then do {
       reachable \<leftarrow> reach_blocks fn;
       foldM (cs_drop reachable) (fn, changed) [0..<length (f_blocks fn)]
     }
     else Some (fn, changed))"

subsection \<open>The pass\<close>

definition cs_round :: "ny_function \<Rightarrow> (ny_function \<times> bool) option" where
  "cs_round fn = do {
     let ids = [0..<length (f_blocks fn)];
     s \<leftarrow> foldM cs_branch (fn, False) ids;
     s \<leftarrow> foldM cs_single_pred s ids;
     s \<leftarrow> foldM cs_forward s ids;
     s \<leftarrow> foldM cs_merge s ids;
     cs_unreachable s
   }"

fun cs_rounds :: "nat \<Rightarrow> ny_function \<times> bool \<Rightarrow> (ny_function \<times> bool) option" where
  "cs_rounds 0 s = Some s"
| "cs_rounds (Suc n) (fn, changed_any) = do {
     (fn, changed) \<leftarrow> cs_round fn;
     if \<not> changed then Some (fn, changed_any) else cs_rounds n (fn, True)
   }"

definition ny_opt_pass_cfg_simplify :: "ny_function \<Rightarrow> (ny_function \<times> bool) option" where
  "ny_opt_pass_cfg_simplify fn = cs_rounds 4 (fn, False)"

end
