(* ===== verification/Pipeline.thy ===== *)
theory Pipeline
  imports Analysis_Cache Cfg_Simplify Sccp Gvn Copy_Prop
begin

text \<open>
  The pass pipeline, \<^verbatim>\<open>src/opt/pipeline.c\<close>, and the part of each pass of \<^verbatim>\<open>src/opt\<close> that deals with the cache of analyses:
  what it reads from the cache and what it invalidates.  The host's arithmetic and the contents of fresh memory are
  collected in \<open>opt_host\<close>.
\<close>

record opt_host =
  oh_fpu :: host_fpu
  oh_uses :: "nat \<Rightarrow> nat \<times> nat"
  oh_doms :: "nat \<Rightarrow> nat"

type_synonym pass_result = "ny_function \<times> ny_analysis_manager \<times> bool"

subsection \<open>Passes with the cache\<close>

definition run_canonicalize :: "ny_function \<Rightarrow> ny_analysis_manager \<Rightarrow> pass_result option" where
  "run_canonicalize fn am = do {
     (fn, changed) \<leftarrow> ny_canonicalize_function fn;
     Some (fn, if changed then ny_analysis_invalidate_cfg am else am, changed)
   }"

definition run_cfg_simplify :: "ny_function \<Rightarrow> ny_analysis_manager \<Rightarrow> pass_result option" where
  "run_cfg_simplify fn am = do {
     (fn, changed) \<leftarrow> ny_opt_pass_cfg_simplify fn;
     Some (fn, if changed then ny_analysis_invalidate_cfg am else am, changed)
   }"

definition run_sccp :: "opt_host \<Rightarrow> ny_function \<Rightarrow> ny_analysis_manager \<Rightarrow> pass_result option" where
  "run_sccp oh fn am =
     (if f_blocks fn = [] \<or> f_entry fn = NY_INVALID_BLOCK then Some (fn, am, False)
      else do {
        (ud, am) \<leftarrow> ny_analysis_get_use_def (oh_uses oh) fn am;
        (fn, changed, cfg_changed) \<leftarrow> ny_opt_pass_sccp (oh_fpu oh) (oh_uses oh) fn (Some ud);
        Some (fn, if cfg_changed then ny_analysis_invalidate_cfg am
                  else if changed then ny_analysis_invalidate_use_def am else am, changed)
      })"

definition run_dce :: "opt_host \<Rightarrow> ny_function \<Rightarrow> ny_analysis_manager \<Rightarrow> pass_result option" where
  "run_dce oh fn am =
     (if f_values fn = [] then Some (fn, am, False)
      else do {
        (ud, am) \<leftarrow> ny_analysis_get_use_def (oh_uses oh) fn am;
        (fn, changed) \<leftarrow> ny_opt_pass_dce (oh_uses oh) fn (Some ud);
        Some (fn, if changed then ny_analysis_invalidate_use_def am else am, changed)
      })"

definition run_copy_prop :: "ny_function \<Rightarrow> ny_analysis_manager \<Rightarrow> pass_result option" where
  "run_copy_prop fn am = do {
     (fn, changed) \<leftarrow> ny_opt_pass_copy_prop fn;
     Some (fn, if changed then ny_analysis_invalidate_use_def am else am, changed)
   }"

definition run_const_fold :: "opt_host \<Rightarrow> ny_function \<Rightarrow> ny_analysis_manager \<Rightarrow> pass_result option" where
  "run_const_fold oh fn am = do {
     (fn, changed) \<leftarrow> ny_opt_pass_const_fold (oh_fpu oh) fn;
     Some (fn, if changed then ny_analysis_invalidate_use_def am else am, changed)
   }"

definition run_gvn :: "opt_host \<Rightarrow> ny_function \<Rightarrow> ny_analysis_manager \<Rightarrow> pass_result option" where
  "run_gvn oh fn am =
     (if f_blocks fn = [] \<or> f_entry fn = NY_INVALID_BLOCK then Some (fn, am, False)
      else do {
        (dt, am) \<leftarrow> ny_analysis_get_dom (oh_doms oh) fn am;
        (fn, changed) \<leftarrow> ny_opt_pass_gvn (oh_doms oh) fn (Some dt);
        Some (fn, if changed then ny_analysis_invalidate_use_def am else am, changed)
      })"

subsection \<open>The pipeline\<close>

datatype ny_opt_level = NY_OPT_O0 | NY_OPT_O1 | NY_OPT_O2

definition pipeline_round :: "opt_host \<Rightarrow> ny_function \<Rightarrow> ny_analysis_manager \<Rightarrow> pass_result option" where
  "pipeline_round oh fn am = do {
     (fn, am, c1) \<leftarrow> run_canonicalize fn am;
     (fn, am, c2) \<leftarrow> run_cfg_simplify fn am;
     (fn, am, c3) \<leftarrow> run_sccp oh fn am;
     (fn, am, c4) \<leftarrow> run_dce oh fn am;
     (fn, am, c5) \<leftarrow> run_copy_prop fn am;
     (fn, am, c6) \<leftarrow> run_const_fold oh fn am;
     (fn, am, c7) \<leftarrow> run_gvn oh fn am;
     (fn, am, c8) \<leftarrow> run_cfg_simplify fn am;
     Some (fn, am, c1 \<or> c2 \<or> c3 \<or> c4 \<or> c5 \<or> c6 \<or> c7 \<or> c8)
   }"

fun pipeline_rounds :: "opt_host \<Rightarrow> nat \<Rightarrow> ny_function \<Rightarrow> ny_analysis_manager \<Rightarrow> bool \<Rightarrow> (ny_function \<times> bool) option" where
  "pipeline_rounds oh 0 fn am changed_any = Some (fn, changed_any)"
| "pipeline_rounds oh (Suc n) fn am changed_any = do {
     (fn, am, changed) \<leftarrow> pipeline_round oh fn am;
     if \<not> changed then Some (fn, changed_any) else pipeline_rounds oh n fn am True
   }"

definition ny_opt_run_pipeline :: "opt_host \<Rightarrow> ny_opt_level \<Rightarrow> ny_function \<Rightarrow> (ny_function \<times> bool) option" where
  "ny_opt_run_pipeline oh level fn =
     (if f_blocks fn = [] then Some (fn, False)
      else if level = NY_OPT_O0 then ny_canonicalize_function fn
      else pipeline_rounds oh (if level = NY_OPT_O2 then 4 else 1) fn ny_analysis_manager_init False)"

definition ny_opt_run_module_pipeline :: "opt_host \<Rightarrow> ny_opt_level \<Rightarrow> ny_module \<Rightarrow> (ny_module \<times> bool) option" where
  "ny_opt_run_module_pipeline oh level md = foldM (\<lambda>(md, changed) i. do {
       fn \<leftarrow> rd (m_functions md) i;
       (fn, c) \<leftarrow> ny_opt_run_pipeline oh level fn;
       Some (md\<lparr>m_functions := (m_functions md)[i := fn]\<rparr>, changed \<or> c)
     }) (md, False) [0..<length (m_functions md)]"

end
