(* ===== verification/Lexer.thy ===== *)
theory Lexer
  imports Opcodes Types
begin

text \<open>
  The lexer of the textual IR, \<^verbatim>\<open>src/parser/lexer.c\<close>.  A lexer holds the text it was given, the bytes that follow it in
  memory (\<^verbatim>\<open>strtoll\<close> and \<^verbatim>\<open>strtod\<close> are called on a pointer into the text and do not know where it ends), the position and
  the line and column, which are natural numbers (the \<^verbatim>\<open>int\<close> counters overflow after $2^{31}$ lines or columns).
\<close>

subsection \<open>Tokens and lexers\<close>

datatype ny_token_kind =
    NY_TOK_EOF | NY_TOK_DIRECTIVE | NY_TOK_IDENT | NY_TOK_VALUE | NY_TOK_BLOCK_LABEL | NY_TOK_INT | NY_TOK_FLOAT
  | NY_TOK_STRING | NY_TOK_COLON | NY_TOK_SEMICOLON | NY_TOK_DOUBLE_SEMICOLON | NY_TOK_COMMA | NY_TOK_ARROW | NY_TOK_EQUAL
  | NY_TOK_LPAREN | NY_TOK_RPAREN | NY_TOK_LBRACKET | NY_TOK_RBRACKET | NY_TOK_LBRACE | NY_TOK_RBRACE

record ny_token =
  tk_kind :: ny_token_kind
  tk_text :: string
  tk_int :: "64 word"
  tk_float :: "64 word"
  tk_line :: nat
  tk_col :: nat

record ny_lexer =
  lx_text :: string
  lx_after :: string
  lx_pos :: nat
  lx_line :: nat
  lx_col :: nat

definition ny_lexer_init :: "string \<Rightarrow> string \<Rightarrow> ny_lexer" where
  "ny_lexer_init src after = \<lparr>lx_text = src, lx_after = after, lx_pos = 0, lx_line = 1, lx_col = 1\<rparr>"

abbreviation (input) "NUL \<equiv> CHR 0x00"
abbreviation (input) "NEWLINE \<equiv> CHR 0x0A"
abbreviation (input) "QUOTE \<equiv> CHR 0x22"
abbreviation (input) "BACKSLASH \<equiv> CHR 0x5C"

definition lx_left :: "ny_lexer \<Rightarrow> nat" where
  "lx_left lx = length (lx_text lx) - lx_pos lx"

definition peek_char :: "ny_lexer \<Rightarrow> char" where
  "peek_char lx = (if lx_pos lx \<ge> length (lx_text lx) then NUL else lx_text lx ! lx_pos lx)"

text \<open>The returned character is never used.\<close>

definition advance_char :: "ny_lexer \<Rightarrow> ny_lexer" where
  "advance_char lx =
     (if lx_pos lx \<ge> length (lx_text lx) then lx
      else let c = lx_text lx ! lx_pos lx; lx = lx\<lparr>lx_pos := lx_pos lx + 1\<rparr> in
           if c = NEWLINE then lx\<lparr>lx_line := lx_line lx + 1, lx_col := 1\<rparr> else lx\<lparr>lx_col := lx_col lx + 1\<rparr>)"

text \<open>The test that another character follows the current one, and that it is \<open>c\<close>.\<close>

definition next_is :: "ny_lexer \<Rightarrow> (char \<Rightarrow> bool) \<Rightarrow> bool" where
  "next_is lx P \<longleftrightarrow> lx_pos lx + 1 < length (lx_text lx) \<and> P (lx_text lx ! (lx_pos lx + 1))"

subsection \<open>Loops\<close>

lemma lx_left_advance: "lx_pos lx < length (lx_text lx) \<Longrightarrow> lx_left (advance_char lx) < lx_left lx"
  by (simp add: lx_left_def advance_char_def Let_def)

lemma lx_left_advance_le: "lx_left (advance_char lx) \<le> lx_left lx"
  by (auto simp: lx_left_def advance_char_def Let_def)

function advance_while :: "(char \<Rightarrow> bool) \<Rightarrow> ny_lexer \<Rightarrow> ny_lexer" where
  "advance_while P lx =
     (if lx_pos lx < length (lx_text lx) \<and> P (peek_char lx) then advance_while P (advance_char lx) else lx)"
  by pat_completeness auto
termination by (relation "measure (\<lambda>(P, lx). lx_left lx)") (simp_all add: lx_left_advance)

function skip_block_comment :: "ny_lexer \<Rightarrow> ny_lexer" where
  "skip_block_comment lx =
     (if lx_pos lx + 1 < length (lx_text lx) \<and> \<not> (lx_text lx ! lx_pos lx = CHR ''*'' \<and> lx_text lx ! (lx_pos lx + 1) = CHR ''/'')
      then skip_block_comment (advance_char lx) else lx)"
  by pat_completeness auto
termination by (relation "measure lx_left") (simp_all add: lx_left_advance)

declare advance_while.simps [simp del] skip_block_comment.simps [simp del]

lemma lx_left_while: "lx_left (advance_while P lx) \<le> lx_left lx"
proof (induction P lx rule: advance_while.induct)
  case (1 P lx)
  then show ?case using lx_left_advance_le[of lx] by (subst advance_while.simps) auto
qed

lemma lx_left_block: "lx_left (skip_block_comment lx) \<le> lx_left lx"
proof (induction lx rule: skip_block_comment.induct)
  case (1 lx)
  then show ?case using lx_left_advance_le[of lx] by (subst skip_block_comment.simps) auto
qed

definition is_blank :: "char \<Rightarrow> bool" where
  "is_blank c \<longleftrightarrow> c = CHR '' '' \<or> c = CHR 0x09 \<or> c = CHR 0x0D \<or> c = NEWLINE"

text \<open>One round of the loop of \<^verbatim>\<open>skip_whitespace_and_comments\<close>: \<open>None\<close> where it breaks.\<close>

definition skip_round :: "ny_lexer \<Rightarrow> ny_lexer option" where
  "skip_round lx =
     (let c = peek_char lx in
      if is_blank c then Some (advance_char lx)
      else if c = CHR ''/'' \<and> next_is lx (\<lambda>d. d = CHR ''/'') then Some (advance_while (\<lambda>d. d \<noteq> NEWLINE) lx)
      else if c = CHR ''/'' \<and> next_is lx (\<lambda>d. d = CHR ''*'') then
        (let lx = skip_block_comment (advance_char (advance_char lx)) in
         Some (if lx_pos lx + 1 < length (lx_text lx) then advance_char (advance_char lx) else lx))
      else None)"

lemma skip_round_left:
  assumes "lx_pos lx < length (lx_text lx)" "skip_round lx = Some lx'"
  shows "lx_left lx' < lx_left lx"
proof -
  note a = lx_left_advance[OF assms(1)]
  have b: "lx_left (advance_while (\<lambda>d. d \<noteq> NEWLINE) lx) < lx_left lx" if "peek_char lx = CHR ''/''"
    using that assms(1) a lx_left_while[of "\<lambda>d. d \<noteq> NEWLINE" "advance_char lx"] by (subst advance_while.simps) simp
  have c: "lx_left (skip_block_comment (advance_char (advance_char lx))) < lx_left lx"
    using a lx_left_advance_le[of "advance_char lx"] lx_left_block[of "advance_char (advance_char lx)"] by linarith
  have d: "lx_left (advance_char (advance_char (skip_block_comment (advance_char (advance_char lx))))) < lx_left lx"
    using c lx_left_advance_le[of "skip_block_comment (advance_char (advance_char lx))"]
      lx_left_advance_le[of "advance_char (skip_block_comment (advance_char (advance_char lx)))"] by linarith
  show ?thesis using assms(2) a b c d by (auto simp: skip_round_def Let_def split: if_splits)
qed

function skip_whitespace_and_comments :: "ny_lexer \<Rightarrow> ny_lexer" where
  "skip_whitespace_and_comments lx =
     (if lx_pos lx < length (lx_text lx)
      then (case skip_round lx of Some lx' \<Rightarrow> skip_whitespace_and_comments lx' | None \<Rightarrow> lx)
      else lx)"
  by pat_completeness auto
termination by (relation "measure lx_left") (simp_all add: skip_round_left)

declare skip_whitespace_and_comments.simps [simp del]

subsection \<open>Characters and numbers\<close>

definition in_range :: "char \<Rightarrow> char \<Rightarrow> char \<Rightarrow> bool" where
  "in_range lo hi c \<longleftrightarrow> (of_char lo :: nat) \<le> of_char c \<and> (of_char c :: nat) \<le> of_char hi"

definition is_ident_start :: "char \<Rightarrow> bool" where
  "is_ident_start c \<longleftrightarrow> in_range (CHR ''a'') (CHR ''z'') c \<or> in_range (CHR ''A'') (CHR ''Z'') c \<or> c = CHR ''_''"

definition is_digit :: "char \<Rightarrow> bool" where
  "is_digit c \<longleftrightarrow> in_range (CHR ''0'') (CHR ''9'') c"

definition is_ident_body :: "char \<Rightarrow> bool" where
  "is_ident_body c \<longleftrightarrow> is_ident_start c \<or> is_digit c \<or> c = CHR ''.''"

definition is_hex :: "char \<Rightarrow> bool" where
  "is_hex c \<longleftrightarrow> is_digit c \<or> in_range (CHR ''a'') (CHR ''f'') c \<or> in_range (CHR ''A'') (CHR ''F'') c"

text \<open>
  \<^verbatim>\<open>strtoll\<close> of the C library: white space, a sign, the prefix when the base is 0 or 16, digits, and saturation.  Reading
  past the bytes that are known is \<open>None\<close>.
\<close>

definition char_value :: "char \<Rightarrow> nat" where
  "char_value c = (let n = of_char c in
     if is_digit c then n - 48 else if in_range (CHR ''a'') (CHR ''z'') c then n - 87
     else if in_range (CHR ''A'') (CHR ''Z'') c then n - 55 else 99)"

fun digits_value :: "nat \<Rightarrow> string \<Rightarrow> nat \<Rightarrow> nat option" where
  "digits_value base [] acc = None"
| "digits_value base (c # cs) acc = (if char_value c < base then digits_value base cs (acc * base + char_value c) else Some acc)"

fun base_prefix :: "nat \<Rightarrow> string \<Rightarrow> (nat \<times> string) option" where
  "base_prefix base (z # x # h # s) =
     (if (base = 0 \<or> base = 16) \<and> z = CHR ''0'' \<and> (x = CHR ''x'' \<or> x = CHR ''X'') \<and> char_value h < 16 then Some (16, h # s)
      else if base = 0 then Some (if z = CHR ''0'' then 8 else 10, z # x # h # s) else Some (base, z # x # h # s))"
| "base_prefix base s =
     (if base = 0 \<or> base = 16 then
        (case s of [] \<Rightarrow> None
         | [z] \<Rightarrow> if z = CHR ''0'' then None else Some (if base = 0 then 10 else 16, s)
         | z # x # _ \<Rightarrow> if z = CHR ''0'' \<and> (x = CHR ''x'' \<or> x = CHR ''X'') then None
                       else Some (if base = 0 then if z = CHR ''0'' then 8 else 10 else 16, s))
      else Some (base, s))"

definition saturate64 :: "int \<Rightarrow> 64 word" where
  "saturate64 n = word_of_int (max (- (2 ^ 63)) (min (2 ^ 63 - 1) n))"

definition is_space :: "char \<Rightarrow> bool" where
  "is_space c \<longleftrightarrow> c = CHR '' '' \<or> in_range (CHR 0x09) (CHR 0x0D) c"

definition strtoll :: "nat \<Rightarrow> string \<Rightarrow> 64 word option" where
  "strtoll base s = do {
     let s = dropWhile is_space s;
     let neg = (s \<noteq> [] \<and> hd s = CHR ''-'');
     let s = (if s \<noteq> [] \<and> (hd s = CHR ''-'' \<or> hd s = CHR ''+'') then tl s else s);
     (b, s) \<leftarrow> base_prefix base s;
     n \<leftarrow> digits_value b s 0;
     Some (saturate64 (if neg then - int n else int n))
   }"

subsection \<open>The next token\<close>

definition slice_from :: "nat \<Rightarrow> ny_lexer \<Rightarrow> string" where
  "slice_from start lx = take (lx_pos lx - start) (drop start (lx_text lx))"

text \<open>What a library function called on a pointer into the text can read.\<close>

definition memory_from :: "nat \<Rightarrow> ny_lexer \<Rightarrow> string" where
  "memory_from start lx = drop start (lx_text lx) @ lx_after lx"

definition single_char_tokens :: "(char \<times> ny_token_kind) list" where
  "single_char_tokens = [(CHR '':'', NY_TOK_COLON), (CHR '','', NY_TOK_COMMA), (CHR ''='', NY_TOK_EQUAL), (CHR ''('', NY_TOK_LPAREN),
     (CHR '')'', NY_TOK_RPAREN), (CHR ''['', NY_TOK_LBRACKET), (CHR '']'', NY_TOK_RBRACKET), (CHR ''{'', NY_TOK_LBRACE),
     (CHR ''}'', NY_TOK_RBRACE)]"

definition sigil_tokens :: "(char \<times> ny_token_kind) list" where
  "sigil_tokens = [(CHR ''@'', NY_TOK_DIRECTIVE), (CHR ''%'', NY_TOK_VALUE), (CHR ''.'', NY_TOK_BLOCK_LABEL)]"

definition lex_sigil :: "ny_token \<Rightarrow> ny_token_kind \<Rightarrow> ny_lexer \<Rightarrow> ny_token \<times> ny_lexer" where
  "lex_sigil tok kind lx =
     (let lx = advance_char lx; start = lx_pos lx; lx = advance_while is_ident_body lx
      in (tok\<lparr>tk_kind := kind, tk_text := slice_from start lx\<rparr>, lx))"

function number_loop :: "bool \<Rightarrow> ny_lexer \<Rightarrow> bool \<times> ny_lexer" where
  "number_loop is_float lx =
     (if lx_pos lx < length (lx_text lx) then
        (let ch = peek_char lx in
         if is_digit ch then number_loop is_float (advance_char lx)
         else if ch = CHR ''.'' \<and> \<not> is_float \<and> next_is lx is_digit then number_loop True (advance_char lx)
         else (is_float, lx))
      else (is_float, lx))"
  by pat_completeness auto
termination by (relation "measure (\<lambda>(f, lx). lx_left lx)") (simp_all add: lx_left_advance)

declare number_loop.simps [simp del]

definition lex_number :: "(string \<Rightarrow> 64 word) \<Rightarrow> ny_token \<Rightarrow> char \<Rightarrow> ny_lexer \<Rightarrow> (ny_token \<times> ny_lexer) option" where
  "lex_number strtod tok c lx =
     (let start = lx_pos lx; lx = advance_char lx in
      if c = CHR ''0'' \<and> (peek_char lx = CHR ''x'' \<or> peek_char lx = CHR ''X'') then do {
        let lx = advance_while is_hex (advance_char lx);
        n \<leftarrow> strtoll 0 (memory_from start lx);
        Some (tok\<lparr>tk_kind := NY_TOK_INT, tk_text := slice_from start lx, tk_int := n\<rparr>, lx)
      }
      else do {
        let (is_float, lx) = number_loop False lx;
        let tok = tok\<lparr>tk_text := slice_from start lx\<rparr>;
        if is_float then Some (tok\<lparr>tk_kind := NY_TOK_FLOAT, tk_float := strtod (memory_from start lx)\<rparr>, lx)
        else do {
          n \<leftarrow> strtoll 10 (memory_from start lx);
          Some (tok\<lparr>tk_kind := NY_TOK_INT, tk_int := n\<rparr>, lx)
        }
      })"

function string_loop :: "ny_lexer \<Rightarrow> ny_lexer" where
  "string_loop lx =
     (if lx_pos lx < length (lx_text lx) then
        (let ch = peek_char lx in
         if ch = QUOTE then lx
         else if ch = BACKSLASH \<and> lx_pos lx + 1 < length (lx_text lx) then string_loop (advance_char (advance_char lx))
         else if ch = NEWLINE then lx
         else string_loop (advance_char lx))
      else lx)"
  by pat_completeness auto
termination
  by (relation "measure lx_left") (auto simp: lx_left_advance intro: le_less_trans[OF lx_left_advance_le lx_left_advance])

declare string_loop.simps [simp del]

definition lex_string :: "ny_token \<Rightarrow> ny_lexer \<Rightarrow> ny_token \<times> ny_lexer" where
  "lex_string tok lx =
     (let lx = advance_char lx; start = lx_pos lx; lx = string_loop lx; content = slice_from start lx;
          lx = (if peek_char lx = QUOTE then advance_char lx else lx)
      in (tok\<lparr>tk_kind := NY_TOK_STRING, tk_text := content\<rparr>, lx))"

definition lex_token :: "(string \<Rightarrow> 64 word) \<Rightarrow> ny_token \<Rightarrow> ny_lexer \<Rightarrow> (ny_token \<times> ny_lexer) option" where
  "lex_token strtod tok lx =
     (let c = peek_char lx in
      if c = CHR '';'' then
        (let lx = advance_char lx in
         Some (if peek_char lx = CHR '';'' then (tok\<lparr>tk_kind := NY_TOK_DOUBLE_SEMICOLON, tk_text := '';;''\<rparr>, advance_char lx)
               else (tok\<lparr>tk_kind := NY_TOK_SEMICOLON, tk_text := '';''\<rparr>, lx)))
      else if c = CHR ''-'' \<and> next_is lx (\<lambda>d. d = CHR ''>'') then
        Some (tok\<lparr>tk_kind := NY_TOK_ARROW, tk_text := ''->''\<rparr>, advance_char (advance_char lx))
      else case map_of single_char_tokens c of
        Some kind \<Rightarrow> Some (tok\<lparr>tk_kind := kind, tk_text := [c]\<rparr>, advance_char lx)
      | None \<Rightarrow> (case map_of sigil_tokens c of
          Some kind \<Rightarrow> Some (lex_sigil tok kind lx)
        | None \<Rightarrow>
            if is_digit c \<or> c = CHR ''-'' \<and> next_is lx is_digit then lex_number strtod tok c lx
            else if is_ident_start c then
              (let start = lx_pos lx; lx = advance_while is_ident_body lx
               in Some (tok\<lparr>tk_kind := NY_TOK_IDENT, tk_text := slice_from start lx\<rparr>, lx))
            else if c = QUOTE then Some (lex_string tok lx)
            else Some (tok\<lparr>tk_kind := NY_TOK_EOF\<rparr>, advance_char lx)))"

definition ny_lexer_next :: "(string \<Rightarrow> 64 word) \<Rightarrow> ny_lexer \<Rightarrow> (ny_token \<times> ny_lexer) option" where
  "ny_lexer_next strtod lx =
     (let lx = skip_whitespace_and_comments lx;
          tok = \<lparr>tk_kind = NY_TOK_EOF, tk_text = [], tk_int = 0, tk_float = 0, tk_line = lx_line lx, tk_col = lx_col lx\<rparr>
      in if lx_pos lx \<ge> length (lx_text lx) then Some (tok, lx) else lex_token strtod tok lx)"

end
