(* ===== verification/Lexer_Correct.thy ===== *)
theory Lexer_Correct
  imports Lexer
begin

text \<open>
  The lexer against the text: the position of every token is exact, the characters it skips are blanks and comments, and
  what a printer writes is read back.
\<close>

subsection \<open>Lexers in the middle of a text\<close>

definition line_of :: "string \<Rightarrow> nat" where
  "line_of s = 1 + length (filter (\<lambda>c. c = NEWLINE) s)"

definition col_of :: "string \<Rightarrow> nat" where
  "col_of s = 1 + length (takeWhile (\<lambda>c. c \<noteq> NEWLINE) (rev s))"

text \<open>The lexer that has consumed \<open>pre\<close>, with \<open>rest\<close> to come.\<close>

definition lex_on :: "string \<Rightarrow> string \<Rightarrow> string \<Rightarrow> ny_lexer" where
  "lex_on pre rest after = \<lparr>lx_text = pre @ rest, lx_after = after, lx_pos = length pre, lx_line = line_of pre, lx_col = col_of pre\<rparr>"

lemma lex_on_start: "ny_lexer_init src after = lex_on [] src after"
  by (simp add: ny_lexer_init_def lex_on_def line_of_def col_of_def)

lemma lex_on_simps [simp]:
  "lx_text (lex_on pre rest A) = pre @ rest" "lx_after (lex_on pre rest A) = A" "lx_pos (lex_on pre rest A) = length pre"
  "lx_line (lex_on pre rest A) = line_of pre" "lx_col (lex_on pre rest A) = col_of pre"
  by (simp_all add: lex_on_def)

lemma peek_on [simp]: "peek_char (lex_on pre (c # cs) A) = c" "peek_char (lex_on pre [] A) = NUL"
  by (simp_all add: peek_char_def)

lemma advance_on [simp]:
  "advance_char (lex_on pre (c # cs) A) = lex_on (pre @ [c]) cs A" "advance_char (lex_on pre [] A) = lex_on pre [] A"
  by (simp_all add: advance_char_def Let_def lex_on_def line_of_def col_of_def)

lemma next_on [simp]: "next_is (lex_on pre (c # d # cs) A) P = P d" "next_is (lex_on pre [c] A) P = False"
  by (simp_all add: next_is_def nth_append)

lemma while_on [simp]: "advance_while P (lex_on pre rest A) = lex_on (pre @ takeWhile P rest) (dropWhile P rest) A"
  by (induction rest arbitrary: pre) (subst advance_while.simps; simp)+

lemma slice_on [simp]: "slice_from (length pre) (lex_on (pre @ s) r A) = s"
  by (simp add: slice_from_def)

lemma memory_on [simp]: "memory_from (length pre) (lex_on (pre @ s) r A) = s @ r @ A"
  by (simp add: memory_from_def)

text \<open>The part of a block comment before its end.\<close>

fun block_split :: "string \<Rightarrow> string \<times> string" where
  "block_split (c # d # s) = (if c = CHR ''*'' \<and> d = CHR ''/'' then ([], c # d # s) else (let (a, b) = block_split (d # s) in (c # a, b)))"
| "block_split s = ([], s)"

lemma block_split_append: "fst (block_split s) @ snd (block_split s) = s"
  by (induction s rule: block_split.induct) (auto simp: split_beta)

lemma block_on: "skip_block_comment (lex_on pre s A) = lex_on (pre @ fst (block_split s)) (snd (block_split s)) A"
proof (induction s arbitrary: pre rule: block_split.induct)
  case (1 c d s)
  then show ?case by (subst skip_block_comment.simps) (auto simp: nth_append split_beta)
qed (subst skip_block_comment.simps; simp)+

lemma block_split_rest: "snd (block_split s) = ''*/'' @ drop 2 (snd (block_split s)) \<or> length (snd (block_split s)) \<le> 1"
  by (induction s rule: block_split.induct) (auto simp: split_beta)

lemma block_split_first: "fst (block_split s) @ ''*'' \<noteq> u @ ''*/'' @ v"
proof (induction s arbitrary: u rule: block_split.induct)
  case (1 c d s)
  show ?case
  proof (cases "c = CHR ''*'' \<and> d = CHR ''/''")
    case True
    then show ?thesis by (cases u) simp_all
  next
    case False
    then have f: "fst (block_split (c # d # s)) = c # fst (block_split (d # s))" by (auto simp: split_beta)
    have nx: "fst (block_split (d # s)) = [] \<or> hd (fst (block_split (d # s))) = d" by (cases s) (auto simp: split_beta)
    show ?thesis
    proof (cases u)
      case Nil
      then show ?thesis using f nx False by (cases "fst (block_split (d # s))") auto
    next
      case (Cons x u')
      then show ?thesis using f 1[of u'] False by auto
    qed
  qed
qed (auto simp: Cons_eq_append_conv)

text \<open>What is skipped in front of a rest.  An unterminated block comment leaves its last character.\<close>

inductive blanks :: "string \<Rightarrow> string \<Rightarrow> bool" where
  none: "blanks [] r"
| blank: "is_blank c \<Longrightarrow> blanks b r \<Longrightarrow> blanks (c # b) r"
| line: "NEWLINE \<notin> set s \<Longrightarrow> b @ r = [] \<or> hd (b @ r) = NEWLINE \<Longrightarrow> blanks b r \<Longrightarrow> blanks (''//'' @ s @ b) r"
| block: "\<forall>u v. s @ ''*'' \<noteq> u @ ''*/'' @ v \<Longrightarrow> blanks b r \<Longrightarrow> blanks (''/*'' @ s @ ''*/'' @ b) r"
| unterminated: "\<forall>u v. s @ ''*'' \<noteq> u @ ''*/'' @ v \<Longrightarrow> length (b @ r) \<le> 1 \<Longrightarrow> blanks b r \<Longrightarrow> blanks (''/*'' @ s @ b) r"

lemma skip_on:
  "\<exists>b r. rest = b @ r \<and> blanks b r \<and> skip_whitespace_and_comments (lex_on pre rest A) = lex_on (pre @ b) r A
     \<and> (r = [] \<or> skip_round (lex_on (pre @ b) r A) = None)"
proof (induction "length rest" arbitrary: pre rest rule: less_induct)
  case less
  note skip = skip_whitespace_and_comments.simps[of "lex_on pre rest A"]
  show ?case
  proof (cases rest)
    case Nil
    then show ?thesis using skip by (intro exI[of _ "[]"]) (auto intro: blanks.none)
  next
    case (Cons c cs)
    show ?thesis
    proof (cases "skip_round (lex_on pre rest A)")
      case None
      then show ?thesis using skip Cons by (intro exI[of _ "[]"] exI[of _ rest]) (auto intro: blanks.none)
    next
      case (Some lx')
      have go: ?thesis if s: "rest = w @ t" "w \<noteq> []" "lx' = lex_on (pre @ w) t A" and ext: "\<And>b r. t = b @ r \<Longrightarrow> blanks b r \<Longrightarrow> blanks (w @ b) r" for w t
      proof -
        obtain b r where br: "t = b @ r" "blanks b r" "skip_whitespace_and_comments (lex_on (pre @ w) t A) = lex_on ((pre @ w) @ b) r A"
          "r = [] \<or> skip_round (lex_on ((pre @ w) @ b) r A) = None"
          using less[of t "pre @ w"] s(1,2) by auto
        then show ?thesis using skip Some Cons s ext[OF br(1,2)] by (intro exI[of _ "w @ b"] exI[of _ r]) auto
      qed
      consider (blank) "is_blank c" "lx' = lex_on (pre @ [c]) cs A"
        | (line) d cs' where "cs = d # cs'" "c = CHR ''/''" "d = CHR ''/''" "lx' = advance_while (\<lambda>d. d \<noteq> NEWLINE) (lex_on pre rest A)"
        | (block) d cs' where "cs = d # cs'" "c = CHR ''/''" "d = CHR ''*''"
            "lx' = (let lx = skip_block_comment (lex_on (pre @ [c, d]) cs' A) in if lx_pos lx + 1 < length (lx_text lx) then advance_char (advance_char lx) else lx)"
        using Some Cons by (cases cs) (auto simp: skip_round_def Let_def split: if_splits)
      then show ?thesis
      proof cases
        case blank
        then show ?thesis using Cons by (intro go[of "[c]" cs]) (auto intro: blanks.blank)
      next
        case line
        let ?P = "\<lambda>d. d \<noteq> NEWLINE"
        show ?thesis
        proof (rule go)
          show "rest = (''//'' @ takeWhile ?P cs') @ dropWhile ?P cs'" "lx' = lex_on (pre @ ''//'' @ takeWhile ?P cs') (dropWhile ?P cs') A"
            using line Cons by simp_all
          show "blanks ((''//'' @ takeWhile ?P cs') @ b) r" if "dropWhile ?P cs' = b @ r" "blanks b r" for b r
            using blanks.line[of "takeWhile ?P cs'" b r] that set_takeWhileD[of NEWLINE ?P cs'] hd_dropWhile[of ?P cs'] by auto
        qed simp
      next
        case block
        let ?u = "fst (block_split cs')" and ?v = "snd (block_split cs')"
        have cs': "cs' = ?u @ ?v" using block_split_append[of cs'] by simp
        have first: "\<forall>a b. ?u @ ''*'' \<noteq> a @ ''*/'' @ b" using block_split_first by blast
        have sk: "skip_block_comment (lex_on (pre @ [c, d]) cs' A) = lex_on (pre @ [c, d] @ ?u) ?v A" by (simp add: block_on)
        show ?thesis
        proof (cases "length ?v \<le> 1")
          case True
          show ?thesis
          proof (rule go)
            show "rest = (''/*'' @ ?u) @ ?v" using block(1-3) Cons cs' by simp
            show "lx' = lex_on (pre @ ''/*'' @ ?u) ?v A" using block(2-4) sk True by (simp add: Let_def)
            show "blanks ((''/*'' @ ?u) @ b) r" if "?v = b @ r" "blanks b r" for b r
              using blanks.unterminated[OF first _ that(2)] True that(1) by simp
          qed simp
        next
          case False
          then obtain t where t: "?v = ''*/'' @ t" using block_split_rest[of cs'] by blast
          show ?thesis
          proof (rule go)
            show "rest = (''/*'' @ ?u @ ''*/'') @ t" using block(1-3) Cons cs' t by simp
            show "lx' = lex_on (pre @ ''/*'' @ ?u @ ''*/'') t A" using block(2-4) sk t by (simp add: Let_def)
            show "blanks ((''/*'' @ ?u @ ''*/'') @ b) r" if "t = b @ r" "blanks b r" for b r
              using blanks.block[OF first that(2)] by simp
          qed simp
        qed
      qed
    qed
  qed
qed


subsection \<open>Tokens and the characters they are read from\<close>

text \<open>Strings may hold escapes, but no quote or newline outside of them.\<close>

fun quotable :: "string \<Rightarrow> bool" where
  "quotable [] = True"
| "quotable (c # s) = (if c = BACKSLASH then s \<noteq> [] \<and> quotable (tl s) else c \<noteq> QUOTE \<and> c \<noteq> NEWLINE \<and> quotable s)"

definition punctuation :: "(ny_token_kind \<times> string) list" where
  "punctuation = [(NY_TOK_COLON, '':''), (NY_TOK_SEMICOLON, '';''), (NY_TOK_DOUBLE_SEMICOLON, '';;''), (NY_TOK_COMMA, '',''),
     (NY_TOK_ARROW, ''->''), (NY_TOK_EQUAL, ''=''), (NY_TOK_LPAREN, ''(''), (NY_TOK_RPAREN, '')''), (NY_TOK_LBRACKET, ''[''),
     (NY_TOK_RBRACKET, '']''), (NY_TOK_LBRACE, ''{''), (NY_TOK_RBRACE, ''}'')]"

text \<open>The rest \<open>r\<close> does not go on with a character of \<open>P\<close>.\<close>

definition stops :: "(char \<Rightarrow> bool) \<Rightarrow> string \<Rightarrow> bool" where
  "stops P r \<longleftrightarrow> r = [] \<or> \<not> P (hd r)"

definition digits :: "string \<Rightarrow> bool" where
  "digits s \<longleftrightarrow> s \<noteq> [] \<and> (\<forall>c \<in> set s. is_digit c)"

definition number_value :: "nat \<Rightarrow> string \<Rightarrow> nat" where
  "number_value base s = foldl (\<lambda>n c. n * base + char_value c) 0 s"

definition decimal :: "string \<Rightarrow> int \<Rightarrow> bool" where
  "decimal s n \<longleftrightarrow> (\<exists>d. digits d \<and> (s = d \<and> n = int (number_value 10 d) \<or> s = CHR ''-'' # d \<and> n = - int (number_value 10 d)))"

definition fraction :: "string \<Rightarrow> bool" where
  "fraction r \<longleftrightarrow> (\<exists>d r'. r = CHR ''.'' # d # r' \<and> is_digit d)"

definition is_x :: "char \<Rightarrow> bool" where
  "is_x c \<longleftrightarrow> c = CHR ''x'' \<or> c = CHR ''X''"

definition int_text :: "string \<Rightarrow> string \<Rightarrow> int \<Rightarrow> bool" where
  "int_text s r n \<longleftrightarrow>
     decimal s n \<and> stops is_digit r \<and> \<not> fraction r \<and> \<not> (s = ''0'' \<and> \<not> stops is_x r)
   \<or> (\<exists>x h. s = CHR ''0'' # x # h \<and> is_x x \<and> (\<forall>c \<in> set h. is_hex c) \<and> stops is_hex r \<and> n = int (number_value 16 h))"

definition float_text :: "string \<Rightarrow> string \<Rightarrow> bool" where
  "float_text s r \<longleftrightarrow> (\<exists>a n b. decimal a n \<and> digits b \<and> s = a @ CHR ''.'' # b \<and> stops is_digit r)"

text \<open>The end of a string: its quote, the end of the line or of the text (then a last backslash may stand alone).\<close>

definition string_text :: "string \<Rightarrow> string \<Rightarrow> bool" where
  "string_text s r \<longleftrightarrow> quotable s \<and> \<not> stops (\<lambda>c. c = QUOTE \<or> c = NEWLINE) r \<or> r = [] \<and> (quotable s \<or> (\<exists>s'. s = s' @ [BACKSLASH] \<and> quotable s'))"

text \<open>A character that starts nothing.\<close>

definition unexpected :: "char \<Rightarrow> string \<Rightarrow> bool" where
  "unexpected c r \<longleftrightarrow> \<not> is_ident_start c \<and> \<not> is_digit c \<and> c \<notin> set '';:,=()[]{}@%.'' \<and> c \<noteq> QUOTE
     \<and> \<not> (c = CHR ''-'' \<and> \<not> stops (\<lambda>d. d = CHR ''>'' \<or> is_digit d) r)"

text \<open>
  The token \<open>tok\<close> is what the characters \<open>s\<close> in front of \<open>r\<close> stand for: the longest name, number or string, the value of an
  integer (saturated at 64 bits), and for a floating-point number what \<^verbatim>\<open>strtod\<close> makes of the text from there on.
\<close>

definition token_shape :: "(string \<Rightarrow> 64 word) \<Rightarrow> string \<Rightarrow> ny_token \<Rightarrow> string \<Rightarrow> string \<Rightarrow> bool" where
  "token_shape strtod A tok s r \<longleftrightarrow> (let t = tk_text tok; name = (\<forall>c \<in> set t. is_ident_body c) \<and> stops is_ident_body r in
     (tk_kind tok \<noteq> NY_TOK_INT \<longrightarrow> tk_int tok = 0) \<and> (tk_kind tok \<noteq> NY_TOK_FLOAT \<longrightarrow> tk_float tok = 0)
     \<and> (case tk_kind tok of
       NY_TOK_DIRECTIVE \<Rightarrow> s = CHR ''@'' # t \<and> name
     | NY_TOK_VALUE \<Rightarrow> s = CHR ''%'' # t \<and> name
     | NY_TOK_BLOCK_LABEL \<Rightarrow> s = CHR ''.'' # t \<and> name
     | NY_TOK_IDENT \<Rightarrow> s = t \<and> t \<noteq> [] \<and> is_ident_start (hd t) \<and> name
     | NY_TOK_STRING \<Rightarrow> s = QUOTE # t @ [QUOTE] \<and> quotable t \<or> s = QUOTE # t \<and> string_text t r \<and> stops (\<lambda>c. c = QUOTE) r
     | NY_TOK_INT \<Rightarrow> s = t \<and> (\<exists>n. int_text s r n \<and> tk_int tok = saturate64 n)
     | NY_TOK_FLOAT \<Rightarrow> s = t \<and> float_text s r \<and> tk_float tok = strtod (s @ r @ A)
     | NY_TOK_EOF \<Rightarrow> t = [] \<and> (s = [] \<and> r = [] \<or> (\<exists>c. s = [c] \<and> unexpected c r))
     | k \<Rightarrow> s = t \<and> map_of punctuation k = Some t \<and> (k = NY_TOK_SEMICOLON \<longrightarrow> stops (\<lambda>c. c = CHR '';'') r)))"

subsection \<open>The loops\<close>

lemma stops_drop: "stops P (dropWhile P s)"
  by (induction s) (auto simp: stops_def)

lemma number_float_on: "number_loop True (lex_on pre rest A) = (True, lex_on (pre @ takeWhile is_digit rest) (dropWhile is_digit rest) A)"
proof (induction rest arbitrary: pre)
  case (Cons c cs)
  then show ?case by (subst number_loop.simps) (simp add: Let_def)
qed (subst number_loop.simps; simp)

lemma dot_not_digit: "\<not> is_digit (CHR ''.'')"
  by (simp add: is_digit_def in_range_def)

lemma number_on:
  "number_loop False (lex_on pre rest A) = (let d = takeWhile is_digit rest; t = dropWhile is_digit rest in
     if fraction t then (True, lex_on (pre @ d @ CHR ''.'' # takeWhile is_digit (tl t)) (dropWhile is_digit (tl t)) A) else (False, lex_on (pre @ d) t A))"
proof (induction rest arbitrary: pre)
  case Nil
  then show ?case by (subst number_loop.simps) (simp add: fraction_def)
next
  case (Cons c cs)
  show ?case
  proof (cases "is_digit c")
    case True
    then show ?thesis using Cons by (subst number_loop.simps) (simp add: Let_def)
  next
    case False
    have "c = CHR ''.'' \<and> next_is (lex_on pre (c # cs) A) is_digit \<longleftrightarrow> fraction (c # cs)" by (cases cs) (auto simp: fraction_def)
    moreover have "fraction (c # cs) \<Longrightarrow> c = CHR ''.''" by (auto simp: fraction_def)
    ultimately show ?thesis using False by (subst number_loop.simps) (cases "fraction (c # cs)"; simp add: Let_def number_float_on)
  qed
qed

lemma string_on: "\<exists>s r. rest = s @ r \<and> string_loop (lex_on pre rest A) = lex_on (pre @ s) r A \<and> string_text s r"
proof (induction "length rest" arbitrary: pre rest rule: less_induct)
  case less
  have ext: ?case if "rest = w @ t" "w \<noteq> []" "string_loop (lex_on pre rest A) = string_loop (lex_on (pre @ w) t A)" "\<And>s. quotable (w @ s) = quotable s" for w t
  proof -
    have "length t < length rest" using that(1,2) by (cases w) simp_all
    then obtain s r where sr: "t = s @ r" "string_loop (lex_on (pre @ w) t A) = lex_on ((pre @ w) @ s) r A" "string_text s r" using less by blast
    have "string_text (w @ s) r" using sr(3) that(4) unfolding string_text_def by (metis append.assoc)
    then show ?thesis using that sr by (intro exI[of _ "w @ s"] exI[of _ r]) simp
  qed
  have stop: ?case if "string_loop (lex_on pre rest A) = lex_on pre rest A" "rest = [] \<or> hd rest = QUOTE \<or> hd rest = NEWLINE"
    using that by (intro exI[of _ "[]"] exI[of _ rest]) (auto simp: string_text_def stops_def)
  show ?case
  proof (cases rest)
    case Nil
    then have "string_loop (lex_on pre rest A) = lex_on pre rest A" by (subst string_loop.simps) simp
    then show ?thesis using stop Nil by blast
  next
    case (Cons c cs)
    show ?thesis
    proof (cases "c = QUOTE \<or> c = NEWLINE")
      case True
      then have "string_loop (lex_on pre rest A) = lex_on pre rest A" using Cons by (subst string_loop.simps) (auto simp: Let_def)
      then show ?thesis using stop Cons True by simp
    next
      case plain: False
      show ?thesis
      proof (cases "c = BACKSLASH")
        case False
        then have "string_loop (lex_on pre rest A) = string_loop (lex_on (pre @ [c]) cs A)"
          using plain Cons by (subst string_loop.simps) (simp add: Let_def)
        then show ?thesis using ext[of "[c]" cs] plain False Cons by simp
      next
        case True
        show ?thesis
        proof (cases cs)
          case Nil
          then have "string_loop (lex_on pre rest A) = string_loop (lex_on (pre @ [c]) [] A)"
            using plain Cons by (subst string_loop.simps) (simp add: Let_def)
          also have "\<dots> = lex_on (pre @ [c]) [] A" by (subst string_loop.simps) simp
          finally show ?thesis using Cons Nil True by (intro exI[of _ "[c]"] exI[of _ "[]"]) (simp add: string_text_def)
        next
          case (Cons d ds)
          then have "string_loop (lex_on pre rest A) = string_loop (lex_on (pre @ [c, d]) ds A)"
            using True \<open>rest = c # cs\<close> by (subst string_loop.simps) (simp add: Let_def)
          then show ?thesis using ext[of "[c, d]" ds] True Cons \<open>rest = c # cs\<close> by simp
        qed
      qed
    qed
  qed
qed

subsection \<open>Number conversions\<close>

lemma digits_value_append:
  "\<forall>c \<in> set s. char_value c < base \<Longrightarrow> digits_value base (s @ t) acc = digits_value base t (foldl (\<lambda>a c. a * base + char_value c) acc s)"
  by (induction s arbitrary: acc) simp_all

lemma digit_value: "is_digit c \<Longrightarrow> char_value c < 10"
  by (auto simp: char_value_def is_digit_def in_range_def)

lemma digit_not: "is_digit c \<Longrightarrow> \<not> is_space c \<and> c \<noteq> CHR ''-'' \<and> c \<noteq> CHR ''+'' \<and> c \<noteq> CHR ''x'' \<and> c \<noteq> CHR ''X''"
  by (auto simp: is_digit_def is_space_def in_range_def)

lemma value_digit: "char_value c < 10 \<longleftrightarrow> is_digit c" "char_value c < 16 \<longleftrightarrow> is_hex c"
  by (auto simp: char_value_def Let_def is_digit_def is_hex_def in_range_def split: if_splits)

lemma digits_value_stop:
  assumes "\<forall>c \<in> set s. char_value c < base" "stops (\<lambda>c. char_value c < base) r" "base \<le> 16"
  shows "digits_value base (s @ r @ NUL # A) 0 = Some (number_value base s)"
proof -
  have "\<not> char_value NUL < base" using assms(3) by (simp add: char_value_def is_digit_def in_range_def)
  then show ?thesis using assms(2) unfolding digits_value_append[OF assms(1)] number_value_def by (cases r) (auto simp: stops_def)
qed

lemma base_ten [simp]: "base_prefix 10 s = Some (10, s)"
  by (cases "(10 :: nat, s)" rule: base_prefix.cases) simp_all

lemma strtoll_decimal:
  assumes "decimal s n" "stops is_digit r"
  shows "strtoll 10 (s @ r @ NUL # A) = Some (saturate64 n)"
proof -
  obtain d where d: "digits d" "s = d \<and> n = int (number_value 10 d) \<or> s = CHR ''-'' # d \<and> n = - int (number_value 10 d)"
    using assms(1) by (auto simp: decimal_def)
  have v: "digits_value 10 (d @ r @ NUL # A) 0 = Some (number_value 10 d)"
    using d(1) assms(2) by (intro digits_value_stop) (auto simp: digits_def value_digit)
  obtain c cs where c: "d = c # cs" "is_digit c" using d(1) by (cases d) (auto simp: digits_def)
  have neg: "\<not> is_space (CHR ''-'')" by (simp add: is_space_def in_range_def)
  show ?thesis using d(2)
  proof
    assume "s = d \<and> n = int (number_value 10 d)"
    then show ?thesis using v c digit_not[OF c(2)] by (simp add: strtoll_def Let_def)
  next
    assume "s = CHR ''-'' # d \<and> n = - int (number_value 10 d)"
    then show ?thesis using v neg by (simp add: strtoll_def Let_def)
  qed
qed

lemma strtoll_hex:
  assumes "is_x x" "\<forall>c \<in> set h. is_hex c" "stops is_hex r"
  shows "strtoll 0 ((CHR ''0'' # x # h) @ r @ NUL # A) = Some (saturate64 (int (number_value 16 h)))"
proof -
  have zero: "\<not> is_space (CHR ''0'')" "char_value (CHR ''0'') = 0" by (simp_all add: is_space_def in_range_def char_value_def is_digit_def)
  obtain y ys where y: "h @ r @ NUL # A = y # ys" by (cases "h @ r @ NUL # A") auto
  show ?thesis
  proof (cases "h = []")
    case True
    have nul: "\<not> is_hex NUL" by (simp add: is_hex_def is_digit_def in_range_def)
    have "\<not> is_hex y" using y True assms(3) nul by (cases r) (auto simp: stops_def)
    moreover have "\<not> char_value x < 8" using assms(1) by (auto simp: is_x_def char_value_def is_digit_def in_range_def)
    ultimately show ?thesis using True y zero by (simp add: strtoll_def Let_def number_value_def value_digit)
  next
    case False
    then have "is_hex y" using y assms(2) by (cases h) auto
    then have p: "base_prefix 0 (CHR ''0'' # x # y # ys) = Some (16, y # ys)" using assms(1) by (simp add: is_x_def value_digit)
    have "digits_value 16 (y # ys) 0 = Some (number_value 16 h)"
      unfolding y[symmetric] using assms(2,3) by (intro digits_value_stop) (auto simp: value_digit)
    then show ?thesis using p y zero by (simp add: strtoll_def Let_def del: base_prefix.simps digits_value.simps)
  qed
qed


subsection \<open>One token\<close>

definition reads :: "(string \<Rightarrow> 64 word) \<Rightarrow> (ny_token \<times> ny_lexer) option \<Rightarrow> ny_token \<Rightarrow> string \<Rightarrow> string \<Rightarrow> string \<Rightarrow> bool" where
  "reads strtod res tok0 pre rest A \<longleftrightarrow> (\<exists>tok s r. res = Some (tok, lex_on (pre @ s) r A) \<and> rest = s @ r \<and> s \<noteq> []
     \<and> token_shape strtod A tok s r \<and> tk_line tok = tk_line tok0 \<and> tk_col tok = tk_col tok0)"

lemma readsI:
  "res = Some (tok, lex_on (pre @ s) r A) \<Longrightarrow> rest = s @ r \<Longrightarrow> s \<noteq> [] \<Longrightarrow> token_shape strtod A tok s r \<Longrightarrow> tk_line tok = tk_line tok0
     \<Longrightarrow> tk_col tok = tk_col tok0 \<Longrightarrow> reads strtod res tok0 pre rest A"
  unfolding reads_def by blast

lemma body_prefix: "(\<forall>c \<in> set (takeWhile is_ident_body s). is_ident_body c) \<and> stops is_ident_body (dropWhile is_ident_body s)"
  using stops_drop by (auto dest: set_takeWhileD)

lemma start_body: "is_ident_start c \<Longrightarrow> is_ident_body c"
  by (simp add: is_ident_body_def)

lemma read_sigil:
  assumes "map_of sigil_tokens c = Some kind" "tk_int tok0 = 0" "tk_float tok0 = 0"
  shows "reads strtod (Some (lex_sigil tok0 kind (lex_on pre (c # cs) A))) tok0 pre (c # cs) A"
proof -
  let ?w = "takeWhile is_ident_body cs" and ?v = "dropWhile is_ident_body cs"
  let ?tok = "tok0\<lparr>tk_kind := kind, tk_text := ?w\<rparr>"
  have sl: "slice_from (Suc (length pre)) (lex_on (pre @ c # ?w) ?v A) = ?w" using slice_on[of "pre @ [c]" ?w ?v A] by simp
  have e: "Some (lex_sigil tok0 kind (lex_on pre (c # cs) A)) = Some (?tok, lex_on (pre @ c # ?w) ?v A)"
    by (simp add: lex_sigil_def Let_def sl)
  show ?thesis
    by (rule readsI[OF e]) (use assms body_prefix[of cs] in \<open>auto simp: sigil_tokens_def token_shape_def split: if_splits\<close>)
qed

lemma peek_x: "(peek_char (lex_on pre r A) = CHR ''x'' \<or> peek_char (lex_on pre r A) = CHR ''X'') \<longleftrightarrow> \<not> stops is_x r"
  by (cases r) (auto simp: stops_def is_x_def)

text \<open>The first character of a number: a digit, or a sign in front of one.\<close>

lemma decimal_start:
  assumes "is_digit c \<or> c = CHR ''-'' \<and> next_is (lex_on pre (c # cs) A) is_digit"
  shows "\<exists>n. decimal (c # takeWhile is_digit cs) n"
proof -
  have t: "\<forall>d \<in> set (takeWhile is_digit cs). is_digit d" by (auto dest: set_takeWhileD)
  show ?thesis
  proof (cases "is_digit c")
    case True
    then have "digits (c # takeWhile is_digit cs)" using t by (simp add: digits_def)
    then show ?thesis unfolding decimal_def by blast
  next
    case False
    then have m: "c = CHR ''-''" "next_is (lex_on pre (c # cs) A) is_digit" using assms by blast+
    have "cs \<noteq> []" using m(2) by (metis next_on(2))
    then obtain d ds where ds: "cs = d # ds" by (meson neq_Nil_conv)
    have "is_digit d" using m(2) unfolding ds next_on .
    then have "takeWhile is_digit cs \<noteq> []" unfolding ds by simp
    then have "digits (takeWhile is_digit cs)" using t unfolding digits_def by blast
    then show ?thesis unfolding decimal_def m(1) by blast
  qed
qed

lemma read_number:
  assumes A: "A = NUL # A'" and c: "is_digit c \<or> c = CHR ''-'' \<and> next_is (lex_on pre (c # cs) A) is_digit"
    and z: "tk_int tok0 = 0" "tk_float tok0 = 0"
  shows "reads strtod (lex_number strtod tok0 c (lex_on pre (c # cs) A)) tok0 pre (c # cs) A"
proof (cases "c = CHR ''0'' \<and> \<not> stops is_x cs")
  case True
  then obtain x cs' where cs: "cs = x # cs'" "is_x x" by (cases cs) (auto simp: stops_def)
  let ?h = "takeWhile is_hex cs'" and ?v = "dropWhile is_hex cs'"
  let ?w = "c # x # ?h"
  have h: "\<forall>d \<in> set ?h. is_hex d" "stops is_hex ?v" using stops_drop by (auto dest: set_takeWhileD)
  have n: "strtoll 0 (memory_from (length pre) (lex_on (pre @ ?w) ?v A)) = Some (saturate64 (int (number_value 16 ?h)))"
    using strtoll_hex[OF cs(2) h, of A'] True unfolding memory_on A by simp
  let ?tok = "tok0\<lparr>tk_kind := NY_TOK_INT, tk_text := ?w, tk_int := saturate64 (int (number_value 16 ?h))\<rparr>"
  have "int_text ?w ?v (int (number_value 16 ?h))" using True cs(2) h unfolding int_text_def by blast
  then have sh: "token_shape strtod A ?tok ?w ?v" using z by (auto simp: token_shape_def)
  have "lex_number strtod tok0 c (lex_on pre (c # cs) A) = Some (?tok, lex_on (pre @ ?w) ?v A)"
    using True n slice_on[of pre ?w ?v A] by (simp add: lex_number_def Let_def cs peek_x[of _ "x # cs'" A] stops_def is_x_def[symmetric])
  then show ?thesis by (rule readsI) (use cs sh in simp_all)
next
  case False
  let ?d = "takeWhile is_digit cs" and ?t = "dropWhile is_digit cs"
  have x: "\<not> (c = CHR ''0'' \<and> (peek_char (lex_on (pre @ [c]) cs A) = CHR ''x'' \<or> peek_char (lex_on (pre @ [c]) cs A) = CHR ''X''))"
    using False unfolding peek_x by blast
  obtain n where dec: "decimal (c # ?d) n" using decimal_start[OF c] by blast
  show ?thesis
  proof (cases "fraction ?t")
    case True
    then obtain e t' where t: "?t = CHR ''.'' # e # t'" "is_digit e" by (auto simp: fraction_def)
    let ?b = "takeWhile is_digit (e # t')" and ?r = "dropWhile is_digit (e # t')"
    let ?w = "(c # ?d) @ CHR ''.'' # ?b"
    have w: "?w @ ?r = c # cs" using takeWhile_dropWhile_id[of is_digit cs] t(1) by (metis append.assoc append_Cons takeWhile_dropWhile_id)
    have nl: "number_loop False (lex_on (pre @ [c]) cs A) = (True, lex_on (pre @ ?w) ?r A)"
      unfolding number_on Let_def using True by (simp add: t(1))
    let ?tok = "tok0\<lparr>tk_text := ?w, tk_kind := NY_TOK_FLOAT, tk_float := strtod (?w @ ?r @ A)\<rparr>"
    have "digits ?b" using t(2) by (auto simp: digits_def dest: set_takeWhileD)
    then have "float_text ?w ?r" unfolding float_text_def using dec stops_drop by blast
    then have sh: "token_shape strtod A ?tok ?w ?r" using z by (simp add: token_shape_def)
    have "lex_number strtod tok0 c (lex_on pre (c # cs) A) = Some (?tok, lex_on (pre @ ?w) ?r A)"
      unfolding lex_number_def Let_def advance_on if_not_P[OF x] lex_on_simps nl prod.case slice_on memory_on by simp
    then show ?thesis by (rule readsI) (use w sh in simp_all)
  next
    case fr: False
    let ?w = "c # ?d"
    have nl: "number_loop False (lex_on (pre @ [c]) cs A) = (False, lex_on (pre @ ?w) ?t A)"
      unfolding number_on Let_def using fr by simp
    have v: "strtoll 10 (?w @ ?t @ A) = Some (saturate64 n)" unfolding A by (rule strtoll_decimal[OF dec stops_drop])
    let ?tok = "tok0\<lparr>tk_text := ?w, tk_kind := NY_TOK_INT, tk_int := saturate64 n\<rparr>"
    have "\<not> (?w = ''0'' \<and> \<not> stops is_x ?t)"
    proof
      assume w: "?w = ''0'' \<and> \<not> stops is_x ?t"
      then have "?t = cs" using takeWhile_dropWhile_id[of is_digit cs] by simp
      then show False using w False by simp
    qed
    then have "int_text ?w ?t n" unfolding int_text_def using dec fr stops_drop by blast
    then have sh: "token_shape strtod A ?tok ?w ?t" using z by (auto simp: token_shape_def)
    have "lex_number strtod tok0 c (lex_on pre (c # cs) A) = Some (?tok, lex_on (pre @ ?w) ?t A)"
      unfolding lex_number_def Let_def advance_on if_not_P[OF x] lex_on_simps nl prod.case slice_on memory_on v by simp
    then show ?thesis by (rule readsI) (use sh in simp_all)
  qed
qed

lemma read_string:
  assumes z: "tk_int tok0 = 0" "tk_float tok0 = 0"
  shows "reads strtod (Some (lex_string tok0 (lex_on pre (QUOTE # cs) A))) tok0 pre (QUOTE # cs) A"
proof -
  obtain s r where l: "cs = s @ r" "string_loop (lex_on (pre @ [QUOTE]) cs A) = lex_on ((pre @ [QUOTE]) @ s) r A" "string_text s r"
    using string_on by blast
  have sl: "slice_from (Suc (length pre)) (lex_on (pre @ QUOTE # s) r A) = s" using slice_on[of "pre @ [QUOTE]" s r A] by simp
  let ?tok = "tok0\<lparr>tk_kind := NY_TOK_STRING, tk_text := s\<rparr>"
  have e: "lex_string tok0 (lex_on pre (QUOTE # cs) A)
      = (?tok, if peek_char (lex_on (pre @ QUOTE # s) r A) = QUOTE then advance_char (lex_on (pre @ QUOTE # s) r A) else lex_on (pre @ QUOTE # s) r A)"
    using l sl by (simp add: lex_string_def Let_def)
  show ?thesis
  proof (cases "stops (\<lambda>c. c = QUOTE) r")
    case False
    then obtain r' where r: "r = QUOTE # r'" by (cases r) (auto simp: stops_def)
    then have "quotable s" using l(3) by (simp add: string_text_def)
    then show ?thesis using e l z r
      by (intro readsI[where tok = ?tok and s = "QUOTE # s @ [QUOTE]" and r = r']) (simp_all add: token_shape_def)
  next
    case True
    then have "peek_char (lex_on (pre @ QUOTE # s) r A) \<noteq> QUOTE" by (cases r) (auto simp: stops_def)
    then show ?thesis using e l z True
      by (intro readsI[where tok = ?tok and s = "QUOTE # s" and r = r]) (simp_all add: token_shape_def)
  qed
qed

lemma single_punctuation: "map_of single_char_tokens c = Some k \<Longrightarrow> map_of punctuation k = Some [c]
    \<and> k \<notin> {NY_TOK_EOF, NY_TOK_DIRECTIVE, NY_TOK_IDENT, NY_TOK_VALUE, NY_TOK_BLOCK_LABEL, NY_TOK_INT, NY_TOK_FLOAT, NY_TOK_STRING, NY_TOK_SEMICOLON}"
  by (auto simp: single_char_tokens_def punctuation_def split: if_splits)

lemma punctuation_shape:
  assumes "map_of punctuation (tk_kind tok) = Some (tk_text tok)" "tk_kind tok = NY_TOK_SEMICOLON \<longrightarrow> stops (\<lambda>c. c = CHR '';'') r"
    "tk_int tok = 0" "tk_float tok = 0"
  shows "token_shape strtod A tok (tk_text tok) r"
  using assms by (cases "tk_kind tok") (simp_all add: token_shape_def punctuation_def)

lemma read_token:
  assumes A: "A = NUL # A'" and k0: "tk_kind tok0 = NY_TOK_EOF" "tk_text tok0 = []" and z: "tk_int tok0 = 0" "tk_float tok0 = 0"
  shows "reads strtod (lex_token strtod tok0 (lex_on pre (c # cs) A)) tok0 pre (c # cs) A"
proof -
  let ?lx = "lex_on pre (c # cs) A"
  have punct: "reads strtod (Some (tok0\<lparr>tk_kind := k, tk_text := s\<rparr>, lex_on (pre @ s) r A)) tok0 pre (c # cs) A"
    if "map_of punctuation k = Some s" "k = NY_TOK_SEMICOLON \<longrightarrow> stops (\<lambda>c. c = CHR '';'') r" "c # cs = s @ r" for k s r
  proof (rule readsI[OF refl that(3)])
    show "s \<noteq> []" using that(1) by (auto simp: punctuation_def split: if_splits)
    show "token_shape strtod A (tok0\<lparr>tk_kind := k, tk_text := s\<rparr>) s r"
      using punctuation_shape[of "tok0\<lparr>tk_kind := k, tk_text := s\<rparr>" r strtod A] that z by simp
  qed simp_all
  consider (semi) "c = CHR '';''" | (arrow) "c = CHR ''-''" "next_is ?lx (\<lambda>d. d = CHR ''>'')"
    | (single) k where "c \<noteq> CHR '';''" "\<not> (c = CHR ''-'' \<and> next_is ?lx (\<lambda>d. d = CHR ''>''))" "map_of single_char_tokens c = Some k"
    | (sigil) k where "c \<noteq> CHR '';''" "\<not> (c = CHR ''-'' \<and> next_is ?lx (\<lambda>d. d = CHR ''>''))" "map_of single_char_tokens c = None" "map_of sigil_tokens c = Some k"
    | (other) "c \<noteq> CHR '';''" "\<not> (c = CHR ''-'' \<and> next_is ?lx (\<lambda>d. d = CHR ''>''))" "map_of single_char_tokens c = None" "map_of sigil_tokens c = None"
    by (cases "map_of single_char_tokens c"; cases "map_of sigil_tokens c") blast+
  then show ?thesis
  proof cases
    case semi
    show ?thesis
    proof (cases "stops (\<lambda>c. c = CHR '';'') cs")
      case False
      then obtain cs' where cs: "cs = CHR '';'' # cs'" by (cases cs) (auto simp: stops_def)
      have "lex_token strtod tok0 ?lx = Some (tok0\<lparr>tk_kind := NY_TOK_DOUBLE_SEMICOLON, tk_text := '';;''\<rparr>, lex_on (pre @ '';;'') cs' A)"
        using semi cs by (simp add: lex_token_def Let_def)
      then show ?thesis using punct[of NY_TOK_DOUBLE_SEMICOLON "'';;''" cs'] semi cs by (simp add: punctuation_def)
    next
      case True
      then have "peek_char (lex_on (pre @ [c]) cs A) \<noteq> CHR '';''" by (cases cs) (auto simp: stops_def)
      then show ?thesis using punct[of NY_TOK_SEMICOLON "[c]" cs] semi True by (simp add: lex_token_def Let_def punctuation_def)
    qed
  next
    case arrow
    then obtain cs' where cs: "cs = CHR ''>'' # cs'" by (cases cs) auto
    have "lex_token strtod tok0 ?lx = Some (tok0\<lparr>tk_kind := NY_TOK_ARROW, tk_text := ''->''\<rparr>, lex_on (pre @ ''->'') cs' A)"
      using arrow(1) cs by (simp add: lex_token_def Let_def)
    then show ?thesis using punct[of NY_TOK_ARROW "''->''" cs'] arrow cs by (simp add: punctuation_def)
  next
    case single
    then show ?thesis using punct[of k "[c]" cs] single_punctuation[OF single(3)] by (auto simp: lex_token_def Let_def)
  next
    case sigil
    then show ?thesis using read_sigil[OF sigil(4) z] by (auto simp: lex_token_def Let_def)
  next
    case other
    have t: "lex_token strtod tok0 ?lx =
      (if is_digit c \<or> c = CHR ''-'' \<and> next_is ?lx is_digit then lex_number strtod tok0 c ?lx
       else if is_ident_start c then Some (tok0\<lparr>tk_kind := NY_TOK_IDENT, tk_text := slice_from (length pre) (advance_while is_ident_body ?lx)\<rparr>, advance_while is_ident_body ?lx)
       else if c = QUOTE then Some (lex_string tok0 ?lx) else Some (tok0\<lparr>tk_kind := NY_TOK_EOF\<rparr>, advance_char ?lx))"
      unfolding lex_token_def Let_def by (simp only: peek_on other if_False option.case simp_thms lex_on_simps)
    have ident: "reads strtod (Some (tok0\<lparr>tk_kind := NY_TOK_IDENT, tk_text := slice_from (length pre) (advance_while is_ident_body ?lx)\<rparr>, advance_while is_ident_body ?lx)) tok0 pre (c # cs) A"
      if "is_ident_start c"
      by (rule readsI[where tok = "tok0\<lparr>tk_kind := NY_TOK_IDENT, tk_text := c # takeWhile is_ident_body cs\<rparr>" and s = "c # takeWhile is_ident_body cs"
            and r = "dropWhile is_ident_body cs"])
        (use that start_body[OF that] body_prefix[of cs] z slice_on[of pre "c # takeWhile is_ident_body cs"] in \<open>simp_all add: token_shape_def\<close>)
    have stray: "reads strtod (Some (tok0\<lparr>tk_kind := NY_TOK_EOF\<rparr>, advance_char ?lx)) tok0 pre (c # cs) A"
      if "\<not> (is_digit c \<or> c = CHR ''-'' \<and> next_is ?lx is_digit)" "\<not> is_ident_start c" "c \<noteq> QUOTE"
    proof -
      have "c = CHR ''-'' \<Longrightarrow> stops (\<lambda>d. d = CHR ''>'' \<or> is_digit d) cs" using that(1) other(2) by (cases cs) (auto simp: stops_def)
      moreover have "c \<notin> set '';:,=()[]{}@%.''" using other(1,3,4) by (auto simp: single_char_tokens_def sigil_tokens_def split: if_splits)
      ultimately have "unexpected c cs" using that unfolding unexpected_def by blast
      then show ?thesis
        by (intro readsI[where tok = "tok0\<lparr>tk_kind := NY_TOK_EOF\<rparr>" and s = "[c]" and r = cs]) (simp_all add: token_shape_def k0 z)
    qed
    show ?thesis
    proof (cases "is_digit c \<or> c = CHR ''-'' \<and> next_is ?lx is_digit")
      case True
      show ?thesis unfolding t if_P[OF True] by (rule read_number[OF A True z])
    next
      case False
      show ?thesis unfolding t if_not_P[OF False] using ident stray[OF False] read_string[OF z] by auto
    qed
  qed
qed

text \<open>The start of a blank or of a comment.\<close>

definition blank_ahead :: "string \<Rightarrow> bool" where
  "blank_ahead t \<longleftrightarrow> (\<exists>c r. t = c # r \<and> is_blank c) \<or> (\<exists>r. t = ''//'' @ r \<or> t = ''/*'' @ r)"

lemma round_blank: "t \<noteq> [] \<Longrightarrow> skip_round (lex_on pre t A) = None \<Longrightarrow> \<not> blank_ahead t"
  by (auto simp: blank_ahead_def skip_round_def Let_def split: if_splits)


end
