(* ===== verification/Lexer_Roundtrip.thy ===== *)
theory Lexer_Roundtrip
  imports Lexer_Correct
begin

text \<open>Tokens that are printed with a blank after each of them are read back.\<close>

subsection \<open>Printing\<close>

definition show_int :: "int \<Rightarrow> string" where
  "show_int n = (if n < 0 then CHR ''-'' # show_nat (nat (- n)) else show_nat (nat n))"

definition show_token :: "ny_token \<Rightarrow> string" where
  "show_token tok = (case tk_kind tok of
       NY_TOK_DIRECTIVE \<Rightarrow> CHR ''@'' # tk_text tok
     | NY_TOK_VALUE \<Rightarrow> CHR ''%'' # tk_text tok
     | NY_TOK_BLOCK_LABEL \<Rightarrow> CHR ''.'' # tk_text tok
     | NY_TOK_STRING \<Rightarrow> QUOTE # tk_text tok @ [QUOTE]
     | _ \<Rightarrow> tk_text tok)"

definition printable :: "ny_token \<Rightarrow> bool" where
  "printable tok \<longleftrightarrow> tk_float tok = 0 \<and> (tk_kind tok \<noteq> NY_TOK_INT \<longrightarrow> tk_int tok = 0) \<and> (case tk_kind tok of
       NY_TOK_EOF \<Rightarrow> False
     | NY_TOK_FLOAT \<Rightarrow> False
     | NY_TOK_INT \<Rightarrow> tk_text tok = show_int (sint (tk_int tok))
     | NY_TOK_STRING \<Rightarrow> quotable (tk_text tok)
     | NY_TOK_IDENT \<Rightarrow> tk_text tok \<noteq> [] \<and> is_ident_start (hd (tk_text tok)) \<and> (\<forall>c \<in> set (tk_text tok). is_ident_body c)
     | NY_TOK_DIRECTIVE \<Rightarrow> \<forall>c \<in> set (tk_text tok). is_ident_body c
     | NY_TOK_VALUE \<Rightarrow> \<forall>c \<in> set (tk_text tok). is_ident_body c
     | NY_TOK_BLOCK_LABEL \<Rightarrow> \<forall>c \<in> set (tk_text tok). is_ident_body c
     | k \<Rightarrow> map_of punctuation k = Some (tk_text tok))"

definition print_tokens :: "ny_token list \<Rightarrow> string" where
  "print_tokens ts = concat (map (\<lambda>t. show_token t @ '' '') ts)"

text \<open>A token without its position.\<close>

definition same_token :: "ny_token \<Rightarrow> ny_token \<Rightarrow> bool" where
  "same_token a b \<longleftrightarrow> tk_kind a = tk_kind b \<and> tk_text a = tk_text b \<and> tk_int a = tk_int b \<and> tk_float a = tk_float b"

fun read_tokens :: "(string \<Rightarrow> 64 word) \<Rightarrow> nat \<Rightarrow> ny_lexer \<Rightarrow> ny_token list option" where
  "read_tokens strtod 0 lx = Some []"
| "read_tokens strtod (Suc n) lx = do { (tok, lx) \<leftarrow> ny_lexer_next strtod lx; ts \<leftarrow> read_tokens strtod n lx; Some (tok # ts) }"

subsection \<open>Numbers\<close>

lemma char_digit: "n < 10 \<Longrightarrow> is_digit (char_of (48 + n)) \<and> char_value (char_of (48 + n)) = n"
  by (simp add: is_digit_def in_range_def char_value_def)

lemma show_nat_digits: "s \<noteq> [] \<and> (\<forall>c \<in> set s. is_digit c)" if "s = show_nat n"
  using that
proof (induction n arbitrary: s rule: show_nat.induct)
  case (1 n)
  then show ?case using char_digit[of n] char_digit[of "n mod 10"] by (subst (asm) (2) show_nat.simps) (auto split: if_splits)
qed

lemma show_nat_value: "foldl (\<lambda>a c. a * 10 + char_value c) 0 (show_nat n) = n"
proof (induction n rule: show_nat.induct)
  case (1 n)
  then show ?case using char_digit[of n] char_digit[of "n mod 10"] by (subst show_nat.simps) simp
qed

lemma blank_value: "\<not> char_value (CHR '' '') < 10" "\<not> is_digit (CHR '' '')" "\<not> is_ident_body (CHR '' '')"
  by (simp_all add: char_value_def is_digit_def is_ident_body_def is_ident_start_def in_range_def)

lemma show_nat_read: "digits_value 10 (show_nat n @ CHR '' '' # r) 0 = Some n"
  using digits_value_append[of "show_nat n" 10] show_nat_digits[of "show_nat n" n] digit_value show_nat_value blank_value(1) by auto

lemma strtoll_show: "strtoll 10 (show_int (sint w) @ CHR '' '' # r) = Some w"
proof -
  have sat: "saturate64 (sint w) = w" for w :: "64 word"
    using sint_greater_eq[of w] sint_less[of w] by (simp add: saturate64_def)
  obtain c s where cs: "show_nat (nat (sint w)) = c # s" "is_digit c" using show_nat_digits[of _ "nat (sint w)"] by (cases "show_nat (nat (sint w))") auto
  have neg: "\<not> is_space (CHR ''-'')" by (simp add: is_space_def in_range_def)
  show ?thesis
  proof (cases "sint w < 0")
    case True
    then show ?thesis using sat show_nat_read neg by (simp add: strtoll_def show_int_def Let_def)
  next
    case False
    then show ?thesis using show_nat_read[of "nat (sint w)" r] sat[of w] cs digit_not[OF cs(2)] by (simp add: strtoll_def show_int_def Let_def)
  qed
qed

subsection \<open>One token\<close>

lemma number_digits:
  "\<forall>c \<in> set s. is_digit c \<Longrightarrow> number_loop False (lex_on pre (s @ CHR '' '' # r) A) = (False, lex_on (pre @ s) (CHR '' '' # r) A)"
proof (induction s arbitrary: pre)
  case Nil
  then show ?case using blank_value by (subst number_loop.simps) (simp add: Let_def)
next
  case (Cons c s)
  then show ?case by (subst number_loop.simps) (simp add: Let_def)
qed

lemma string_quotable:
  "quotable s \<Longrightarrow> string_loop (lex_on pre (s @ QUOTE # r) A) = lex_on (pre @ s) (QUOTE # r) A"
proof (induction s arbitrary: pre rule: quotable.induct)
  case 1
  then show ?case by (subst string_loop.simps) (simp add: Let_def)
next
  case (2 c s)
  then show ?case by (cases s; subst string_loop.simps) (auto simp: Let_def split: if_splits)
qed

lemma skip_none:
  assumes "\<not> is_blank c" "c \<noteq> CHR ''/''"
  shows "skip_whitespace_and_comments (lex_on pre (c # cs) A) = lex_on pre (c # cs) A"
  using assms by (subst skip_whitespace_and_comments.simps) (simp add: skip_round_def Let_def)

lemma skip_blank: "skip_whitespace_and_comments (lex_on pre (CHR '' '' # cs) A) = skip_whitespace_and_comments (lex_on (pre @ '' '') cs A)"
  by (subst skip_whitespace_and_comments.simps) (simp add: skip_round_def Let_def is_blank_def)

lemma skip_end: "skip_whitespace_and_comments (lex_on pre [] A) = lex_on pre [] A"
  by (subst skip_whitespace_and_comments.simps) simp

text \<open>What the lexer reads after the skipping, with the next character known.\<close>

definition other_chars :: "string" where
  "other_chars = [CHR '' '', CHR 0x09, CHR 0x0D, NEWLINE, CHR ''/'', CHR '';''] @ map fst single_char_tokens @ map fst sigil_tokens"

lemma other_not: "\<forall>d \<in> set (CHR ''-'' # other_chars). \<not> is_ident_start d" "\<forall>d \<in> set other_chars. \<not> is_digit d \<and> d \<noteq> CHR ''-''"
  by (simp_all add: other_chars_def single_char_tokens_def sigil_tokens_def is_ident_start_def is_digit_def in_range_def)

lemma not_other:
  assumes "c \<notin> set other_chars"
  shows "\<not> is_blank c \<and> c \<noteq> CHR ''/'' \<and> c \<noteq> CHR '';'' \<and> map_of single_char_tokens c = None \<and> map_of sigil_tokens c = None"
  using assms unfolding map_of_eq_None_iff other_chars_def is_blank_def by (simp add: image_def)

lemma range_apart:
  "in_range a b c \<Longrightarrow> (of_char b :: nat) < of_char lo \<or> (of_char hi :: nat) < of_char a \<Longrightarrow> \<not> in_range lo hi c"
  by (auto simp: in_range_def)

lemma start_not:
  assumes "is_ident_start c"
  shows "\<not> is_blank c \<and> c \<noteq> CHR ''/'' \<and> c \<noteq> CHR '';'' \<and> c \<noteq> CHR ''-'' \<and> map_of single_char_tokens c = None
     \<and> map_of sigil_tokens c = None \<and> \<not> is_digit c"
proof -
  have "c \<notin> set other_chars" "c \<noteq> CHR ''-''" using assms other_not(1) by auto
  moreover have "\<not> is_digit c"
  proof -
    consider "in_range (CHR ''a'') (CHR ''z'') c" | "in_range (CHR ''A'') (CHR ''Z'') c" | "c = CHR ''_''" using assms unfolding is_ident_start_def by blast
    then show ?thesis
    proof cases
      case 1
      show ?thesis unfolding is_digit_def by (rule range_apart[OF 1]) simp
    next
      case 2
      show ?thesis unfolding is_digit_def by (rule range_apart[OF 2]) simp
    qed (simp add: is_digit_def in_range_def)
  qed
  ultimately show ?thesis using not_other by blast
qed

lemma digit_start_not:
  "is_digit c \<or> c = CHR ''-'' \<Longrightarrow> \<not> is_blank c \<and> c \<noteq> CHR ''/'' \<and> c \<noteq> CHR '';'' \<and> map_of single_char_tokens c = None \<and> map_of sigil_tokens c = None"
  by (rule not_other) (metis other_not(2))

lemma body_blank:
  assumes "\<forall>c \<in> set s. is_ident_body c"
  shows "takeWhile is_ident_body (s @ CHR '' '' # r) = s" "dropWhile is_ident_body (s @ CHR '' '' # r) = CHR '' '' # r"
  using assms blank_value(3) by (simp_all add: takeWhile_append dropWhile_append)

definition token_after :: "ny_token \<Rightarrow> string \<Rightarrow> string \<Rightarrow> string \<Rightarrow> (ny_token \<times> ny_lexer) option \<Rightarrow> bool" where
  "token_after tok pre r A res \<longleftrightarrow> (\<exists>tok'. res = Some (tok', lex_on (pre @ show_token tok) (CHR '' '' # r) A) \<and> same_token tok' tok)"

lemma shown_start:
  assumes "printable tok"
  shows "\<exists>c cs. show_token tok = c # cs \<and> \<not> is_blank c \<and> c \<noteq> CHR ''/''"
proof (cases "tk_kind tok = NY_TOK_INT")
  case True
  obtain c s where cs: "show_nat (nat (sint (tk_int tok))) = c # s" "is_digit c"
    using show_nat_digits[of _ "nat (sint (tk_int tok))"] by (cases "show_nat (nat (sint (tk_int tok)))") auto
  then show ?thesis using assms True digit_start_not[of c] by (auto simp: printable_def show_token_def show_int_def is_blank_def)
next
  case False
  show ?thesis
  proof (cases "tk_kind tok = NY_TOK_IDENT")
    case True
    then show ?thesis using assms start_not[of "hd (tk_text tok)"] by (cases "tk_text tok") (auto simp: printable_def show_token_def)
  next
    case False
    then show ?thesis using assms \<open>tk_kind tok \<noteq> NY_TOK_INT\<close>
      by (cases "tk_text tok") (auto simp: printable_def show_token_def punctuation_def is_blank_def split: ny_token_kind.splits)
  qed
qed

lemma read_shown:
  assumes p: "printable tok" and k0: "tk_int tok0 = 0" "tk_float tok0 = 0"
  shows "token_after tok pre r A (lex_token strtod tok0 (lex_on pre (show_token tok @ CHR '' '' # r) A))"
proof -
  let ?t = "tk_text tok"
  have fl: "tk_float tok = 0" and it: "tk_kind tok \<noteq> NY_TOK_INT \<Longrightarrow> tk_int tok = 0" using p by (simp_all add: printable_def)
  have sig: ?thesis if k: "tk_kind tok = kind" and s: "show_token tok = c # ?t" "\<forall>d \<in> set ?t. is_ident_body d" "map_of sigil_tokens c = Some kind" for kind c
  proof -
    have sl: "slice_from (Suc (length pre)) (lex_on (pre @ c # ?t) (CHR '' '' # r) A) = ?t" using slice_on[of "pre @ [c]" ?t] by simp
    have ne: "map_of single_char_tokens c = None \<and> c \<noteq> CHR '';'' \<and> c \<noteq> CHR ''-'' \<and> kind \<noteq> NY_TOK_INT"
      using s(3) by (auto simp: sigil_tokens_def single_char_tokens_def split: if_splits)
    have "lex_token strtod tok0 (lex_on pre (show_token tok @ CHR '' '' # r) A)
      = Some (tok0\<lparr>tk_kind := kind, tk_text := ?t\<rparr>, lex_on (pre @ show_token tok) (CHR '' '' # r) A)"
      using ne s body_blank[OF s(2)] sl by (simp add: lex_token_def lex_sigil_def Let_def)
    then show ?thesis using k k0 fl it ne by (simp add: token_after_def same_token_def)
  qed
  have punct: ?thesis if m: "map_of punctuation k = Some t" and k: "tk_kind tok = k" and t: "?t = t" and s: "show_token tok = t" for k t
  proof -
    have i0: "tk_int tok = 0" using it m k by (cases k) (simp_all add: punctuation_def)
    have "(k, t) \<in> set punctuation" using m by (rule map_of_SomeD)
    then have "lex_token strtod tok0 (lex_on pre (t @ CHR '' '' # r) A) = Some (tok0\<lparr>tk_kind := k, tk_text := t\<rparr>, lex_on (pre @ t) (CHR '' '' # r) A)"
      unfolding punctuation_def list.set insert_iff empty_iff prod.inject
      by (elim disjE conjE) (simp_all add: lex_token_def Let_def single_char_tokens_def)
    then have "\<exists>tok'. lex_token strtod tok0 (lex_on pre (t @ CHR '' '' # r) A) = Some (tok', lex_on (pre @ t) (CHR '' '' # r) A)
        \<and> tk_kind tok' = k \<and> tk_text tok' = t \<and> tk_int tok' = 0 \<and> tk_float tok' = 0" using k0 by simp
    then show ?thesis using k t s i0 fl unfolding token_after_def same_token_def by metis
  qed
  show ?thesis
  proof (cases "tk_kind tok")
    case NY_TOK_IDENT
    obtain c cs where t: "?t = c # cs" "is_ident_start c" "\<forall>d \<in> set ?t. is_ident_body d" "show_token tok = ?t"
      using p NY_TOK_IDENT by (cases ?t) (auto simp: printable_def show_token_def)
    note b = body_blank[OF t(3), of r]
    have w: "advance_while is_ident_body (lex_on pre (?t @ CHR '' '' # r) A) = lex_on (pre @ ?t) (CHR '' '' # r) A" using b by simp
    have "lex_token strtod tok0 (lex_on pre (?t @ CHR '' '' # r) A)
      = Some (tok0\<lparr>tk_kind := NY_TOK_IDENT, tk_text := ?t\<rparr>, lex_on (pre @ ?t) (CHR '' '' # r) A)"
      using start_not[OF t(2)] t(1,2) w by (simp add: lex_token_def Let_def del: while_on)
    then show ?thesis using NY_TOK_IDENT k0 fl it t(4) by (simp add: token_after_def same_token_def)
  next
    case NY_TOK_INT
    have t: "?t = show_int (sint (tk_int tok))" "show_token tok = ?t" using p NY_TOK_INT by (simp_all add: printable_def show_token_def)
    obtain c s where cs: "?t = c # s" "is_digit c \<or> c = CHR ''-''" "\<forall>d \<in> set s. is_digit d" "c = CHR ''-'' \<Longrightarrow> s \<noteq> []"
      using show_nat_digits[of _ "nat (sint (tk_int tok))"] show_nat_digits[of _ "nat (- sint (tk_int tok))"]
      unfolding t(1) show_int_def by (cases "sint (tk_int tok) < 0"; cases "show_nat (nat (sint (tk_int tok)))") (auto dest: digit_not)
    have nx: "peek_char (lex_on (pre @ [c]) (s @ CHR '' '' # r) A) \<noteq> CHR ''x'' \<and> peek_char (lex_on (pre @ [c]) (s @ CHR '' '' # r) A) \<noteq> CHR ''X''"
      using cs(3) digit_not by (cases s) auto
    have num: "is_digit c \<or> c = CHR ''-'' \<and> next_is (lex_on pre (?t @ CHR '' '' # r) A) is_digit"
      using cs by (cases s) auto
    have arrow: "\<not> (c = CHR ''-'' \<and> next_is (lex_on pre (?t @ CHR '' '' # r) A) (\<lambda>d. d = CHR ''>''))"
      using cs by (cases s) (auto simp: is_digit_def in_range_def)
    have mem: "memory_from (length pre) (lex_on (pre @ ?t) (CHR '' '' # r) A) = ?t @ CHR '' '' # r @ A"
      using memory_on[of pre ?t] by simp
    have st: "strtoll 10 (?t @ CHR '' '' # r @ A) = Some (tk_int tok)" unfolding t(1) by (rule strtoll_show)
    have nl: "number_loop False (lex_on (pre @ [c]) (s @ CHR '' '' # r) A) = (False, lex_on (pre @ ?t) (CHR '' '' # r) A)"
      using number_digits[OF cs(3), of "pre @ [c]"] cs(1) by simp
    have "lex_number strtod tok0 c (lex_on pre (?t @ CHR '' '' # r) A)
        = Some (tok0\<lparr>tk_text := ?t, tk_kind := NY_TOK_INT, tk_int := tk_int tok\<rparr>, lex_on (pre @ ?t) (CHR '' '' # r) A)"
      using nx nl mem st slice_on[of pre ?t] cs(1) by (simp add: lex_number_def Let_def)
    moreover have "lex_token strtod tok0 (lex_on pre (?t @ CHR '' '' # r) A) = lex_number strtod tok0 c (lex_on pre (?t @ CHR '' '' # r) A)"
      using digit_start_not[OF cs(2)] num arrow cs(1) by (cases "c = CHR ''-''") (simp_all add: lex_token_def Let_def)
    ultimately show ?thesis using NY_TOK_INT k0 fl t(2) by (simp add: token_after_def same_token_def)
  next
    case NY_TOK_STRING
    have q: "quotable ?t" "show_token tok = QUOTE # ?t @ [QUOTE]" using p NY_TOK_STRING by (simp_all add: printable_def show_token_def)
    have sl: "slice_from (Suc (length pre)) (lex_on (pre @ QUOTE # ?t) (QUOTE # CHR '' '' # r) A) = ?t" using slice_on[of "pre @ [QUOTE]" ?t] by simp
    have "lex_string tok0 (lex_on pre (show_token tok @ CHR '' '' # r) A)
        = (tok0\<lparr>tk_kind := NY_TOK_STRING, tk_text := ?t\<rparr>, lex_on (pre @ show_token tok) (CHR '' '' # r) A)"
      using q string_quotable[OF q(1), of "pre @ [QUOTE]" "CHR '' '' # r" A] sl by (simp add: lex_string_def Let_def)
    moreover have "lex_token strtod tok0 (lex_on pre (show_token tok @ CHR '' '' # r) A) = Some (lex_string tok0 (lex_on pre (show_token tok @ CHR '' '' # r) A))"
      using q(2) by (simp add: lex_token_def Let_def single_char_tokens_def sigil_tokens_def is_digit_def is_ident_start_def in_range_def)
    ultimately show ?thesis using NY_TOK_STRING k0 fl it by (simp add: token_after_def same_token_def)
  qed (use p sig punct in \<open>auto simp: printable_def show_token_def sigil_tokens_def\<close>)
qed

text \<open>
  C22. Reading undoes printing: tokens printed with a blank after each are read back, with their kinds, texts and integer
  values, and followed by the end of the text.  (Floating-point tokens are left out: their value is the host's \<^verbatim>\<open>strtod\<close>.)
\<close>

theorem lexer_roundtrip:
  assumes "\<forall>t \<in> set ts. printable t"
  shows "\<exists>ts' e. read_tokens strtod (length ts + 1) (ny_lexer_init (print_tokens ts) (NUL # A)) = Some (ts' @ [e]) \<and> list_all2 same_token ts' ts
     \<and> tk_kind e = NY_TOK_EOF"
proof -
  have "\<exists>ts' e. read_tokens strtod (length ts + 1) (lex_on pre (w @ print_tokens ts) (NUL # A)) = Some (ts' @ [e]) \<and> list_all2 same_token ts' ts
     \<and> tk_kind e = NY_TOK_EOF" if "w = [] \<or> w = '' ''" for w pre
    using assms that
  proof (induction ts arbitrary: w pre)
    case Nil
    then have "skip_whitespace_and_comments (lex_on pre (w @ print_tokens []) (NUL # A)) = lex_on (pre @ w) [] (NUL # A)"
      using skip_blank[of pre "[]" "NUL # A"] by (auto simp: print_tokens_def skip_end)
    then show ?case by (simp add: ny_lexer_next_def Let_def)
  next
    case (Cons t ts)
    let ?R = "print_tokens ts"
    have pt: "printable t" using Cons.prems by simp
    obtain c cs where c: "show_token t = c # cs" "\<not> is_blank c" "c \<noteq> CHR ''/''" using shown_start[OF pt] by blast
    have print: "print_tokens (t # ts) = show_token t @ CHR '' '' # ?R" by (simp add: print_tokens_def)
    have sk: "skip_whitespace_and_comments (lex_on pre (w @ print_tokens (t # ts)) (NUL # A)) = lex_on (pre @ w) (show_token t @ CHR '' '' # ?R) (NUL # A)"
      using Cons.prems(2) skip_none[OF c(2,3)] skip_blank[of pre "show_token t @ CHR '' '' # ?R" "NUL # A"] c(1) by (auto simp: print)
    define tok0 where "tok0 = \<lparr>tk_kind = NY_TOK_EOF, tk_text = [], tk_int = 0, tk_float = 0, tk_line = line_of (pre @ w), tk_col = col_of (pre @ w)\<rparr>"
    obtain tok' where tok': "lex_token strtod tok0 (lex_on (pre @ w) (show_token t @ CHR '' '' # ?R) (NUL # A))
        = Some (tok', lex_on ((pre @ w) @ show_token t) (CHR '' '' # ?R) (NUL # A))" "same_token tok' t"
      using read_shown[OF pt, of tok0 "pre @ w" ?R "NUL # A" strtod] by (auto simp: token_after_def tok0_def)
    have nx: "ny_lexer_next strtod (lex_on pre (w @ print_tokens (t # ts)) (NUL # A)) = Some (tok', lex_on ((pre @ w) @ show_token t) (CHR '' '' # ?R) (NUL # A))"
      using tok'(1) c(1) by (simp add: ny_lexer_next_def Let_def sk tok0_def)
    define n where "n = length ts + 1"
    obtain ts' e where "read_tokens strtod n (lex_on ((pre @ w) @ show_token t) ('' '' @ ?R) (NUL # A)) = Some (ts' @ [e])"
      "list_all2 same_token ts' ts" "tk_kind e = NY_TOK_EOF" 
      using Cons.IH[of "'' ''" "(pre @ w) @ show_token t"] Cons.prems(1) by (auto simp: n_def)
    moreover have "length (t # ts) + 1 = Suc n" by (simp add: n_def)
    ultimately show ?case using nx tok'(2) by (intro exI[of _ "tok' # ts'"] exI[of _ e]) simp
  qed
  from this[of "[]" "[]"] show ?thesis by (simp add: lex_on_start)
qed

text \<open>An assignment.\<close>

lemma lexer_roundtrip_witness:
  "\<exists>ts' e. read_tokens (\<lambda>_. 0) 5 (ny_lexer_init (print_tokens
       [\<lparr>tk_kind = NY_TOK_VALUE, tk_text = ''x'', tk_int = 0, tk_float = 0, tk_line = 0, tk_col = 0\<rparr>,
        \<lparr>tk_kind = NY_TOK_EQUAL, tk_text = ''='', tk_int = 0, tk_float = 0, tk_line = 0, tk_col = 0\<rparr>,
        \<lparr>tk_kind = NY_TOK_IDENT, tk_text = ''const'', tk_int = 0, tk_float = 0, tk_line = 0, tk_col = 0\<rparr>,
        \<lparr>tk_kind = NY_TOK_SEMICOLON, tk_text = '';'', tk_int = 0, tk_float = 0, tk_line = 0, tk_col = 0\<rparr>]) [NUL]) = Some (ts' @ [e])
     \<and> length ts' = 4 \<and> tk_text (ts' ! 2) = ''const''"
proof -
  define ts where "ts =
       [\<lparr>tk_kind = NY_TOK_VALUE, tk_text = ''x'', tk_int = 0, tk_float = 0, tk_line = 0, tk_col = 0\<rparr>,
        \<lparr>tk_kind = NY_TOK_EQUAL, tk_text = ''='', tk_int = 0, tk_float = 0, tk_line = 0, tk_col = 0\<rparr>,
        \<lparr>tk_kind = NY_TOK_IDENT, tk_text = ''const'', tk_int = 0, tk_float = 0, tk_line = 0, tk_col = 0\<rparr>,
        \<lparr>tk_kind = NY_TOK_SEMICOLON, tk_text = '';'', tk_int = 0, tk_float = 0, tk_line = 0, tk_col = 0 :: nat\<rparr>]"
  have p: "\<forall>t \<in> set ts. printable t"
    by (simp add: ts_def printable_def punctuation_def is_ident_body_def is_ident_start_def in_range_def)
  obtain ts' e where t: "read_tokens (\<lambda>_. 0) (length ts + 1) (ny_lexer_init (print_tokens ts) (NUL # [])) = Some (ts' @ [e])" "list_all2 same_token ts' ts"
    using lexer_roundtrip[OF p] by blast
  have "length ts' = 4" using list_all2_lengthD[OF t(2)] by (simp add: ts_def)
  moreover have "tk_text (ts' ! 2) = ''const''"
    using list_all2_nthD2[OF t(2), of 2] by (simp add: ts_def same_token_def numeral_2_eq_2)
  moreover have "length ts + 1 = 5" by (simp add: ts_def)
  ultimately have "\<exists>ts' e. read_tokens (\<lambda>_. 0) 5 (ny_lexer_init (print_tokens ts) [NUL]) = Some (ts' @ [e]) \<and> length ts' = 4 \<and> tk_text (ts' ! 2) = ''const''"
    using t(1) by metis
  then show ?thesis unfolding ts_def .
qed

end
