(* ===== verification/Spec2Isabelle.thy ===== *)
theory Spec2Isabelle
  imports Support Opcodes Types Abi IR IR_Lists IR_Edit IR_Ops IR_Examples Fold Const_Fold Use_Def Dce Const_Fold_Correct Copy_Prop Cfg Liveness Module Nyir_Reader A64_Module Reg_Alloc_Live
    Dom_Frontier Validate_Exact Builder_Inv Gvn_Correct Sccp_Fixpoint Pipeline Lexer_Roundtrip
begin

text \<open>
  Nybit is a compiler back end in C.  A front end builds a module of SSA functions (\<^verbatim>\<open>src/ir\<close>), optimisation passes
  (\<^verbatim>\<open>src/opt\<close>) rewrite them with the help of analyses (\<^verbatim>\<open>src/analysis\<close>), instruction selection produces machine functions
  (\<^verbatim>\<open>src/machine\<close>, \<^verbatim>\<open>src/target\<close>), a linear scan assigns registers, and encoders turn the result into bytes that are written
  as objects, linked (\<^verbatim>\<open>src/nylink\<close>) or run in memory.  Modules can also be stored in a binary form (\<^verbatim>\<open>src/nygen/nyir.c\<close>).

  \<^bold>\<open>Conventions.\<close>  A definition has the name of the C function it models; a helper stands for a loop or a branch of it.  A
  computation that may read outside an array, use a null pointer, fail an assertion or overflow a signed integer returns an
  option, and \<open>None\<close> is that undefined behaviour (theory Prelude: \<open>rd\<close>, \<open>wr\<close>, \<open>foldM\<close>).  Where the code itself reports
  failure the result is an option or a flag inside.  Ids and counts are natural numbers with the conversions
  \<open>u16\<close>, \<open>u32\<close>, \<open>u64\<close> where C converts; machine words whose bits matter are words of their width.  Loops that follow links or
  iterate to a fixed point are \<open>partial_function (option)\<close>, so that not returning is also \<open>None\<close>, and the theorems show that
  they return.  Fuel is used in three places, and is shown to be enough in each: the counts of padding bytes of
  A64_Module (\<open>pad_loop\<close>, \<open>bss_pad\<close>), and the recursive classifiers of Abi, which descend at most once per type of a
  well-formed table.  Memory is modelled where the code manages it (Support); elsewhere allocation succeeds,
  and what fresh or uninitialised memory holds is an argument.

  \<^bold>\<open>Parts.\<close>
  \<^item> Support (\<^verbatim>\<open>include/nybit/support.h\<close>, \<^verbatim>\<open>src/support/arena.c\<close>): the allocation tracker stays exact, grown buffers have
    room, arena blocks do not overlap.
  \<^item> Opcodes, Types, Abi: the opcode table of \<^verbatim>\<open>src/ir/instruction.c\<close> and the parser; interning and struct layout of
    \<^verbatim>\<open>src/ir/types.c\<close>; aggregate classification of both targets compared with the rules of AAPCS64 and System V.
  \<^item> IR (\<^verbatim>\<open>src/ir/function.c\<close>, \<^verbatim>\<open>src/ir/block.c\<close>), with the abstraction in IR_Lists: \<open>fn_wf fn L\<close> says that the arrays and
    links represent the lists \<open>L\<close> of instructions per block, \<open>edges_wf\<close> that successor and predecessor lists mirror each
    other.  IR_Lists, IR_Edit and IR_Ops prove that every operation refines the list operation it stands for;
    IR_Examples applies the theorems to one function.
  \<^item> Builder (\<^verbatim>\<open>src/ir/builder.c\<close>) and Validate (\<^verbatim>\<open>src/ir/validate.c\<close>): Builder_Inv shows by rule induction that no
    sequence of calls breaks the invariants above, Validate_Exact that the validator decides exactly the list of its rules
    (\<open>rules_hold\<close>, over the dominance relation of the graph), which is weaker than SSA form: it does not ask for one live
    definition per value.
  \<^item> Canonicalize, Cfg_Simplify, Sccp, Gvn (\<^verbatim>\<open>src/opt\<close>, files of the same names), Analysis_Cache
    (\<^verbatim>\<open>src/analysis/manager.c\<close>) and Pipeline (\<^verbatim>\<open>src/opt/pipeline.c\<close>): the optimiser as it is composed.  Gvn_Correct
    shows that value numbering removes only pure instructions whose expression, with the same operands up to commutation,
    is computed by an instruction that comes before them (in a dominating block, or earlier in the same), and renames their results to its result.
    Sccp_Mono shows that evaluation only descends in the lattice, Sccp_Fixpoint that the work lists therefore empty and
    leave a solution of the flow equations.
  \<^item> Fold and Const_Fold (\<^verbatim>\<open>src/opt/const_fold.c\<close>, \<^verbatim>\<open>src/opt/common.c\<close>): integer folding equals arithmetic modulo the width; in
    Const_Fold_Correct the pass is compared with an independent account of which instructions have a known value, and
    which: those become that constant or forward their operand, and nothing else changes.  Dce, Copy_Prop: the passes of the same names.
  \<^item> Use_Def with Csr, Cfg, Liveness, Dominator (\<^verbatim>\<open>src/analysis\<close>): each result is compared with a definition over the
    function: the uses in the operand arrays, the paths of the graph, backward reachability of a use.  For dominators,
    Dom_Tree holds the theory of the iteration in the locale \<open>rpo_graph\<close>, Dominator_Exact instantiates it with the search of
    the code and proves termination and exactness, Dom_Frontier adds children and frontiers.
  \<^item> Module and Nyir (\<^verbatim>\<open>src/ir/module.c\<close>, \<^verbatim>\<open>src/nygen/nyir.c\<close>), Nyir_Roundtrip, Nyir_Reader: the reader with its final
    validation returns what the writer stored exactly when the module is valid, and everything it accepts has ids in range
    except where a range test wraps.
  \<^item> Lexer (\<^verbatim>\<open>src/parser/lexer.c\<close>): Lexer_Correct describes the token read from any position, Lexer_Roundtrip
    shows that printed tokens are read back.  \<^verbatim>\<open>strtoll\<close> is written out, \<^verbatim>\<open>strtod\<close> is an argument.
  \<^item> Machine (\<^verbatim>\<open>src/machine/machine.c\<close>) with Machine_Lists (the locale \<open>linked_nodes\<close> covers the three ways to insert).
  \<^item> Linear_Scan, Reg_Alloc (\<^verbatim>\<open>src/target/*/*_regalloc.c\<close>): one scan over the description of a target.  Linear_Scan_Safe
    proves in the locale \<open>register_file\<close>, interpreted for both targets, that overlapping intervals never share a register;
    Reg_Alloc_Live connects the intervals with liveness along paths.
  \<^item> A64_Encode, A64_Asm, A64_Module (\<^verbatim>\<open>src/target/aarch64/aarch64_encode.c\<close>): instruction words with a decoder for the
    data-processing forms, assembly of functions with branch fixups, layout and linking of modules.

  \<^bold>\<open>Bounds.\<close>  The hypotheses of the theorems are the limits of the C types: block counts below $2^{31}$ for arrays of
  \<^verbatim>\<open>int32_t\<close> (65535 where a table may hold a pair for every two blocks), 32-bit ids, 16-bit operand counts.

  \<^bold>\<open>Not modelled.\<close>  Instruction selection and lowering, the
  x86-64 encoder, the parser behind the lexer, the linker and the object writers are too large to have been translated yet; the
  textual dumps, the drivers and the JIT are input and output around the library.
\<close>

end
